(* ===== verification/Prelude.thy ===== *)
theory Prelude
  imports Main "HOL-Library.Word" "HOL-Library.Multiset"
begin

text \<open>
  What every component of the development shares: the error values of the modelled
  TypeScript, the result type of code that may throw, the loops that stop at the first
  exception, JavaScript's 32-bit bitwise operators, and the generic lemmas on lists that
  the component proofs use.

  A JavaScript number that the code only uses as an integer is an \<open>int\<close>; a \<open>bigint\<close> is an
  \<open>int\<close> as well. The bitwise operators on numbers go through the 32-bit words of the language
  (\<open>js_and\<close>, \<open>js_or\<close>, \<open>js_shl\<close>, \<open>js_shr\<close>, \<open>js_ushr\<close>), so that their wrap-around is the
  language's.
\<close>

unbundle bit_operations_syntax

named_theorems js_arith \<open>bitwise operators of the language, read as arithmetic\<close>
named_theorems result_simps \<open>computing with results that may be exceptions\<close>

section \<open>Exceptions as values\<close>

text \<open>
  \<open>AssertionError\<close> is a failed \<open>assert\<close>; \<open>TypeError\<close>, \<open>RangeError\<close>, \<open>ReferenceError\<close> and
  \<open>SyntaxError\<close> are
  thrown by the language; \<open>ThrownError\<close> is \<open>throw new Error(msg)\<close> and carries the fixed part
  of the message.
\<close>

datatype js_error =
    AssertionError
  | TypeError
  | RangeError
  | ReferenceError
  | SyntaxError
  | DataConsistencyError
  | ArchiveLayoutError
  | TopDirError
  | ThrownError string

type_synonym 'a result = "js_error + 'a"

definition rbind :: "'a result \<Rightarrow> ('a \<Rightarrow> 'b result) \<Rightarrow> 'b result" where
  "rbind r f = (case r of Inl e \<Rightarrow> Inl e | Inr x \<Rightarrow> f x)"

definition js_assert :: "bool \<Rightarrow> unit result" where
  "js_assert b = (if b then Inr () else Inl AssertionError)"

text \<open>A loop over a list whose body updates a state and may throw.\<close>

fun rfold :: "('a \<Rightarrow> 's \<Rightarrow> 's result) \<Rightarrow> 'a list \<Rightarrow> 's \<Rightarrow> 's result" where
  "rfold f [] s = Inr s"
| "rfold f (x # xs) s = rbind (f x s) (rfold f xs)"

text \<open>A loop over a list that collects the value of a body that may throw.\<close>

fun rmap :: "('a \<Rightarrow> 'b result) \<Rightarrow> 'a list \<Rightarrow> 'b list result" where
  "rmap f [] = Inr []"
| "rmap f (x # xs) = rbind (f x) (\<lambda>y. rbind (rmap f xs) (\<lambda>ys. Inr (y # ys)))"

definition of_option :: "js_error \<Rightarrow> 'a option \<Rightarrow> 'a result" where
  "of_option e v = (case v of None \<Rightarrow> Inl e | Some x \<Rightarrow> Inr x)"

section \<open>Bitwise operators on numbers\<close>

text \<open>\<open>a & b\<close>, \<open>a | b\<close>, \<open>a << n\<close>, \<open>a >> n\<close> and \<open>a >>> n\<close> on numbers: the operands are converted
  to 32 bits; all but \<open>>>>\<close> give a signed result.\<close>

definition js_and :: "int \<Rightarrow> int \<Rightarrow> int" where
  "js_and a b = sint ((word_of_int a :: 32 word) AND word_of_int b)"

definition js_or :: "int \<Rightarrow> int \<Rightarrow> int" where
  "js_or a b = sint ((word_of_int a :: 32 word) OR word_of_int b)"

definition js_shl :: "int \<Rightarrow> nat \<Rightarrow> int" where
  "js_shl a n = sint (push_bit n (word_of_int a :: 32 word))"

definition js_shr :: "int \<Rightarrow> nat \<Rightarrow> int" where
  "js_shr a n = sint (signed_drop_bit n (word_of_int a :: 32 word))"

definition js_ushr :: "int \<Rightarrow> nat \<Rightarrow> int" where
  "js_ushr a n = uint (drop_bit n (word_of_int a :: 32 word))"

definition isSafeInteger :: "int \<Rightarrow> bool" where
  "isSafeInteger n \<longleftrightarrow> \<bar>n\<bar> \<le> 2 ^ 53 - 1"

section \<open>Lemmas on results\<close>

lemma rbind_Inl [simp, result_simps]: "rbind (Inl e) f = Inl e"
  by (simp add: rbind_def)

lemma rbind_Inr [simp, result_simps]: "rbind (Inr x) f = f x"
  by (simp add: rbind_def)

lemma rbind_eq_Inr [result_simps]: "rbind r f = Inr y \<longleftrightarrow> (\<exists>x. r = Inr x \<and> f x = Inr y)"
  by (cases r) auto

lemma rbind_eq_Inl [result_simps]:
  "rbind r f = Inl e \<longleftrightarrow> r = Inl e \<or> (\<exists>x. r = Inr x \<and> f x = Inl e)"
  by (cases r) auto

lemma rbind_assoc: "rbind (rbind r f) g = rbind r (\<lambda>x. rbind (f x) g)"
  by (cases r) auto

lemma rbind_cong [fundef_cong]:
  "r = r' \<Longrightarrow> (\<And>x. r' = Inr x \<Longrightarrow> f x = f' x) \<Longrightarrow> rbind r f = rbind r' f'"
  by (cases r') auto

lemma js_assert_True [simp]: "js_assert True = Inr ()"
  by (simp add: js_assert_def)

lemma js_assert_False [simp]: "js_assert False = Inl AssertionError"
  by (simp add: js_assert_def)

lemma js_assert_eq_Inr [simp, result_simps]: "js_assert b = Inr u \<longleftrightarrow> b"
  by (cases b) auto

lemma js_assert_eq_Inl [simp, result_simps]: "js_assert b = Inl e \<longleftrightarrow> \<not> b \<and> e = AssertionError"
  by (cases b) auto

lemma of_option_simps [simp]:
  "of_option e None = Inl e"
  "of_option e (Some x) = Inr x"
  by (simp_all add: of_option_def)

lemma of_option_eq_Inr [simp, result_simps]: "of_option e v = Inr x \<longleftrightarrow> v = Some x"
  by (cases v) auto

lemma rfold_append:
  "rfold f (xs @ ys) s = rbind (rfold f xs s) (rfold f ys)"
proof (induction xs arbitrary: s)
  case Nil
  then show ?case by simp
next
  case (Cons x xs)
  then show ?case by (cases "f x s") auto
qed

lemma rfold_invariant:
  "rfold f xs s = Inr t \<Longrightarrow> P s \<Longrightarrow> (\<And>x s t. x \<in> set xs \<Longrightarrow> P s \<Longrightarrow> f x s = Inr t \<Longrightarrow> P t) \<Longrightarrow> P t"
proof (induction xs arbitrary: s)
  case Nil
  then show ?case by simp
next
  case (Cons x xs)
  then obtain s' where s': "f x s = Inr s'" "rfold f xs s' = Inr t"
    by (auto simp: result_simps)
  have "P s'" using Cons.prems s'(1) by auto
  with s'(2) Cons.IH Cons.prems(3) show ?case by (meson list.set_intros(2))
qed

lemma rmap_eq_Inr_length: "rmap f xs = Inr ys \<Longrightarrow> length ys = length xs"
  by (induction xs arbitrary: ys) (auto simp: result_simps)

lemma rmap_all:
  "(\<And>x. x \<in> set xs \<Longrightarrow> f x = Inr (g x)) \<Longrightarrow> rmap f xs = Inr (map g xs)"
  by (induction xs) auto

lemma rfold_map: "rfold f (map h xs) = rfold (\<lambda>x. f (h x)) xs"
proof (rule ext)
  show "rfold f (map h xs) s = rfold (\<lambda>x. f (h x)) xs s" for s
    by (induction xs arbitrary: s) (auto simp: rbind_def split: sum.splits)
qed

lemma rmap_nth: "rmap f xs = Inr ys \<Longrightarrow> length ys = length xs \<and> (\<forall>i<length xs. f (xs ! i) = Inr (ys ! i))"
proof (induction xs arbitrary: ys)
  case (Cons x xs)
  then show ?case by (auto simp: result_simps nth_Cons split: nat.splits)
qed simp

section \<open>Lemmas on bitwise operators\<close>

lemma js_and_mask [js_arith]: "k \<le> 31 \<Longrightarrow> js_and a (2 ^ k - 1) = a mod 2 ^ k"
proof -
  assume k: "k \<le> 31"
  have "(word_of_int a :: 32 word) AND word_of_int (2 ^ k - 1) = word_of_int (take_bit k a)"
  proof -
    have "word_of_int (2 ^ k - 1) = (mask k :: 32 word)"
      by (simp add: mask_eq_exp_minus_1)
    then have "(word_of_int a :: 32 word) AND word_of_int (2 ^ k - 1) = take_bit k (word_of_int a)"
      by (simp only: take_bit_eq_mask)
    also have "\<dots> = word_of_int (take_bit k a)"
      by (rule bit_word_eqI) (auto simp: bit_simps)
    finally show ?thesis .
  qed
  moreover have "sint (word_of_int (take_bit k a) :: 32 word) = take_bit k a"
  proof -
    have "take_bit k a < 2 ^ k" by simp
    also have "(2::int) ^ k \<le> 2 ^ 31" using k by (intro power_increasing) auto
    finally have "take_bit k a < 2 ^ 31" .
    moreover have "- (2 ^ 31) \<le> take_bit k a"
      by (rule order_trans [OF _ take_bit_nonnegative]) simp
    ultimately have "signed_take_bit 31 (take_bit k a) = take_bit k a"
      by (rule signed_take_bit_int_eq_self [rotated])
    then show ?thesis
      by (simp add: signed_of_int)
  qed
  ultimately show ?thesis
    by (simp add: js_and_def take_bit_eq_mod)
qed

lemma js_ushr_nonneg [js_arith]: "0 \<le> a \<Longrightarrow> a < 2 ^ 32 \<Longrightarrow> js_ushr a n = a div 2 ^ n"
proof -
  assume a: "0 \<le> a" "a < 2 ^ 32"
  then have "uint (word_of_int a :: 32 word) = a"
    by (simp add: uint_word_of_int)
  moreover have "take_bit 32 a = a"
    using a by (simp add: take_bit_int_eq_self)
  ultimately show ?thesis
    unfolding js_ushr_def unsigned_drop_bit_eq
    by (simp add: drop_bit_eq_div)
qed

lemma sint_word_of_int32: "sint (word_of_int x :: 32 word) = (x + 2 ^ 31) mod 2 ^ 32 - 2 ^ 31"
  by (simp add: signed_of_int signed_take_bit_eq_take_bit_shift take_bit_eq_mod)

lemma js_shl_eq [js_arith]: "js_shl a n = (a * 2 ^ n + 2 ^ 31) mod 2 ^ 32 - 2 ^ 31"
proof -
  have "push_bit n (word_of_int a :: 32 word) = word_of_int (a * 2 ^ n)"
    by (simp add: push_bit_eq_mult)
  then show ?thesis unfolding js_shl_def by (simp only: sint_word_of_int32)
qed

lemma js_shr_nonneg [js_arith]: "0 \<le> a \<Longrightarrow> a < 2 ^ 31 \<Longrightarrow> js_shr a n = a div 2 ^ n"
proof -
  assume a: "0 \<le> a" "a < 2 ^ 31"
  have "sint (word_of_int a :: 32 word) = a"
    using a by (simp add: sint_word_of_int32)
  then show ?thesis
    by (simp add: js_shr_def sint_signed_drop_bit_eq drop_bit_eq_div)
qed

lemma js_and_bit: "0 \<le> a \<Longrightarrow> a < 2 ^ Suc k \<Longrightarrow> k < 31 \<Longrightarrow> js_and a (2 ^ k) = (if a < 2 ^ k then 0 else 2 ^ k)"
proof -
  assume a: "0 \<le> a" "a < 2 ^ Suc k" and k: "k < 31"
  have bit: "bit a k \<longleftrightarrow> \<not> a < 2 ^ k"
  proof (cases "a < 2 ^ k")
    case True
    with a show ?thesis by (simp add: bit_iff_odd)
  next
    case False
    then have "a div 2 ^ k = 1"
      using a by (intro int_div_pos_eq [where r = "a - 2 ^ k"]) auto
    with False show ?thesis by (simp add: bit_iff_odd)
  qed
  have w: "(word_of_int a :: 32 word) AND 2 ^ k = (if bit a k then 2 ^ k else 0)"
    using k by (intro bit_word_eqI) (auto simp: bit_simps)
  have "sint ((2 :: 32 word) ^ k) = 2 ^ k"
  proof -
    have "(2::int) ^ k < 2 ^ 31" using k by (intro power_strict_increasing) auto
    moreover have "(2 :: 32 word) ^ k = word_of_int (2 ^ k)" by simp
    ultimately show ?thesis by (simp only: sint_word_of_int32) (simp add: mod_pos_pos_trivial)
  qed
  then show ?thesis using w bit by (simp add: js_and_def)
qed

lemma js_or_sign: "0 \<le> a \<Longrightarrow> a < 2 ^ k \<Longrightarrow> k \<le> 31 \<Longrightarrow> js_or a (2 ^ 32 - 2 ^ k) = a - 2 ^ k"
proof -
  assume a: "0 \<le> a" "a < 2 ^ k" and k: "k \<le> 31"
  have m: "(word_of_int (2 ^ 32 - 2 ^ k) :: 32 word) = NOT (mask k)"
  proof -
    have "(word_of_int (2 ^ 32 - 2 ^ k) :: 32 word) = - (2 ^ k)" by (simp flip: word_of_int_2p_len)
    also have "\<dots> = NOT (mask k)" by (simp add: mask_eq_exp_minus_1 not_eq_complement)
    finally show ?thesis .
  qed
  have "take_bit k a = a" using a by (simp add: take_bit_int_eq_self)
  then have hi: "\<not> bit a n" if "k \<le> n" for n
    using that by (metis bit_take_bit_iff not_le)
  have "(word_of_int a :: 32 word) OR NOT (mask k) = word_of_int a + NOT (mask k)"
  proof (rule disjunctive_add [symmetric])
    show "\<not> bit (word_of_int a :: 32 word) n \<or> \<not> bit (NOT (mask k) :: 32 word) n" for n
      using hi [of n] by (cases "k \<le> n") (simp_all add: bit_simps)
  qed
  also have "\<dots> = word_of_int (a - 2 ^ k)"
    by (simp add: mask_eq_exp_minus_1 not_eq_complement)
  finally have "js_or a (2 ^ 32 - 2 ^ k) = sint (word_of_int (a - 2 ^ k) :: 32 word)"
    by (simp only: js_or_def m)
  also have "\<dots> = a - 2 ^ k"
  proof -
    have "(2::int) ^ k \<le> 2 ^ 31" using k by (intro power_increasing) auto
    then have "(a - 2 ^ k + 2 ^ 31) mod 2 ^ 32 = a - 2 ^ k + 2 ^ 31"
      using a by (intro mod_pos_pos_trivial) auto
    then show ?thesis by (simp only: sint_word_of_int32)
  qed
  finally show ?thesis .
qed

lemma js_or_zero: "0 \<le> a \<Longrightarrow> a < 2 ^ 31 \<Longrightarrow> js_or a 0 = a"
  by (simp add: js_or_def sint_word_of_int32)

section \<open>Lemmas on lists\<close>

lemma mset_swap_hole:
  assumes "i < length xs" "j < length xs" "i \<noteq> j"
  shows "mset (xs[i := xs ! j, j := v]) = mset (xs[i := v])"
proof -
  have "xs[i := xs ! j, j := v] = (xs[i := v])[i := (xs[i := v]) ! j, j := (xs[i := v]) ! i]"
    using assms by (simp add: list_update_swap)
  also have "mset \<dots> = mset (xs[i := v])"
    using assms by (intro mset_swap) auto
  finally show ?thesis .
qed

end
