(* ===== verification/Binary_Heap.thy ===== *)
theory Binary_Heap
  imports Prelude
begin

text \<open>
  The binary heap of \<open>util/util-internal-binary-heap/heap.js\<close>. The state of a heap is its
  backing array; the functions take the comparison the heap was created with. A write loop
  of the source that moves a hole through the array is a recursion on the position of the
  hole.

  The contract of a priority queue is the locale \<open>min_queue\<close>, stated over a numeric key as
  the callers use it; the heap operations are its interpretation.

  Array indices are natural numbers; the shifts \<open>pos << 1\<close> and \<open>>>> 1\<close> of non-negative indices
  are \<open>2 * pos\<close> and \<open>div 2\<close> (arrays of more than \<open>2 ^ 30\<close> elements are outside of the model).
  The one place where the source shifts a negative number, the start of \<open>resort\<close> on an
  array of one element, is kept with 32-bit arithmetic. A read past the end of the array
  yields \<open>undefined\<close>, which the comparison then dereferences: a \<open>TypeError\<close>.
\<close>

section \<open>Definitions\<close>

definition heap_peek :: "'a list \<Rightarrow> 'a option" where
  "heap_peek arr = (if 0 < length arr then Some (arr ! 0) else None)"

definition heap_size :: "'a list \<Rightarrow> nat" where
  "heap_size arr = length arr"

definition parent :: "nat \<Rightarrow> nat" where
  "parent pos = (pos - 1) div 2"

lemma parent_less: "0 < i \<Longrightarrow> parent i < i"
  by (auto simp: parent_def)

lemma parent_lt: "0 < i \<Longrightarrow> i < n \<Longrightarrow> parent i < n"
  using parent_less by (rule less_trans)

lemma parent_children [simp]: "parent (2 * i + 1) = i" "parent (Suc (2 * i)) = i" "parent (2 * i + 2) = i"
    "parent (Suc (Suc (2 * i))) = i"
  by (simp_all add: parent_def)

lemma child_cases: "0 < i \<Longrightarrow> parent i = pos \<Longrightarrow> i = 2 * pos + 1 \<or> i = 2 * pos + 2"
  unfolding parent_def by presburger

function heap_push_loop :: "('a \<Rightarrow> 'a \<Rightarrow> int) \<Rightarrow> 'a list \<Rightarrow> 'a \<Rightarrow> nat \<Rightarrow> 'a list" where
  "heap_push_loop compare a v pos =
     (if pos > 0 then
        (let p = parent pos
         in if compare (a ! p) v < 0 then a[pos := v]
            else heap_push_loop compare (a[pos := a ! p]) v p)
      else a[pos := v])"
  by pat_completeness auto
termination by (relation "measure (\<lambda>(c, a, v, pos). pos)") (auto simp: parent_less)

declare heap_push_loop.simps [simp del]

definition heap_push :: "('a \<Rightarrow> 'a \<Rightarrow> int) \<Rightarrow> 'a \<Rightarrow> 'a list \<Rightarrow> 'a list" where
  "heap_push compare v a = heap_push_loop compare (a @ [v]) v (length a)"

definition siftDown_next :: "('a \<Rightarrow> 'a \<Rightarrow> int) \<Rightarrow> 'a list \<Rightarrow> 'a \<Rightarrow> nat \<Rightarrow> nat \<Rightarrow> nat" where
  "siftDown_next compare a v pos lst =
     (let left = 2 * pos + 1; right = left + 1
      in if right \<le> lst then
           (if compare (a ! right) (a ! left) < 0
            then if compare (a ! right) v < 0 then right else pos
            else if compare (a ! left) v < 0 then left else pos)
         else if left = lst then (if compare (a ! left) v < 0 then left else pos)
         else pos)"

lemma siftDown_next_bounds:
  "siftDown_next compare a v pos lst \<noteq> pos \<Longrightarrow>
     pos < siftDown_next compare a v pos lst \<and> siftDown_next compare a v pos lst \<le> lst"
  by (auto simp: siftDown_next_def Let_def split: if_splits)

function siftDown :: "('a \<Rightarrow> 'a \<Rightarrow> int) \<Rightarrow> 'a list \<Rightarrow> 'a \<Rightarrow> nat \<Rightarrow> nat \<Rightarrow> 'a list" where
  "siftDown compare a v pos lst =
     (let nxt = siftDown_next compare a v pos lst
      in if nxt = pos then a[pos := v]
         else siftDown compare (a[pos := a ! nxt]) v nxt lst)"
  by pat_completeness auto
termination
proof (relation "measure (\<lambda>(c, a, v, pos, lst). lst - pos)", goal_cases)
  case (2 compare a v pos lst nxt)
  then show ?case using siftDown_next_bounds [of compare a v pos lst] by auto
qed simp

declare siftDown.simps [simp del]

definition heap_pop :: "('a \<Rightarrow> 'a \<Rightarrow> int) \<Rightarrow> 'a list \<Rightarrow> 'a option \<times> 'a list" where
  "heap_pop compare arr =
     (if arr = [] then (None, [])
      else let top = arr ! 0; poped = last arr; a = butlast arr
           in (Some top, if length a > 0 then siftDown compare a poped 0 (length a - 1) else a))"

text \<open>The loop of \<open>resort\<close>: \<open>i\<close> runs down to 0.\<close>

fun resort_loop :: "('a \<Rightarrow> 'a \<Rightarrow> int) \<Rightarrow> 'a list \<Rightarrow> nat \<Rightarrow> 'a list" where
  "resort_loop compare arr 0 = siftDown compare arr (arr ! 0) 0 (length arr - 1)"
| "resort_loop compare arr (Suc i) =
     resort_loop compare (siftDown compare arr (arr ! Suc i) (Suc i) (length arr - 1)) i"

definition heap_resort :: "('a \<Rightarrow> 'a \<Rightarrow> int) \<Rightarrow> 'a list \<Rightarrow> 'a list result" where
  "heap_resort compare arr =
     (if length arr = 0 then Inr arr
      else let lst = int (length arr) - 1; i = js_ushr (lst - 1) 1
           in if i < int (length arr) then Inr (resort_loop compare arr (nat i))
              else Inl TypeError)"

definition heap_init :: "('a \<Rightarrow> 'a \<Rightarrow> int) \<Rightarrow> 'a list \<Rightarrow> 'a list result" where
  "heap_init compare arr = heap_resort compare arr"

definition by_key :: "('a \<Rightarrow> int) \<Rightarrow> 'a \<Rightarrow> 'a \<Rightarrow> int" where
  \<comment> \<open>the form of the comparisons the callers pass\<close>
  "by_key f a b = f a - f b"

section \<open>The contract of a priority queue\<close>

locale min_queue =
  fixes key :: "'a \<Rightarrow> int"
    and push :: "'a \<Rightarrow> 'q \<Rightarrow> 'q"
    and pop :: "'q \<Rightarrow> 'a option \<times> 'q"
    and peek :: "'q \<Rightarrow> 'a option"
    and elems :: "'q \<Rightarrow> 'a multiset"
    and inv :: "'q \<Rightarrow> bool"
  assumes push_inv: "inv q \<Longrightarrow> inv (push x q)"
    and push_elems: "inv q \<Longrightarrow> elems (push x q) = add_mset x (elems q)"
    and pop_inv: "inv q \<Longrightarrow> inv (snd (pop q))"
    and pop_empty: "inv q \<Longrightarrow> elems q = {#} \<Longrightarrow> fst (pop q) = None"
    and pop_elems: "inv q \<Longrightarrow> elems q \<noteq> {#} \<Longrightarrow>
        \<exists>x. fst (pop q) = Some x \<and> elems q = add_mset x (elems (snd (pop q))) \<and> (\<forall>y\<in>#elems q. key x \<le> key y)"
    and peek_pop: "inv q \<Longrightarrow> peek q = fst (pop q)"
begin

lemma peek_None: "inv q \<Longrightarrow> peek q = None \<longleftrightarrow> elems q = {#}"
  using pop_elems pop_empty by (fastforce simp: peek_pop)

lemma pop_SomeD:
  assumes "inv q" "pop q = (Some x, q')"
  shows "inv q'" "elems q = add_mset x (elems q')" "y \<in># elems q \<Longrightarrow> key x \<le> key y"
proof -
  have ne: "elems q \<noteq> {#}" using assms pop_empty by fastforce
  from pop_elems [OF assms(1) ne] assms(2) pop_inv [OF assms(1)]
  show "inv q'" "elems q = add_mset x (elems q')" "y \<in># elems q \<Longrightarrow> key x \<le> key y" by auto
qed

lemma peek_SomeE:
  assumes "inv q" "peek q = Some x"
  obtains q' where "pop q = (Some x, q')"
  using assms by (cases "pop q") (auto simp: peek_pop)

lemma push_all:
  assumes "inv q"
  shows "inv (fold push xs q)" "elems (fold push xs q) = mset xs + elems q"
  using assms by (induction xs arbitrary: q) (auto simp: push_inv push_elems)

end

section \<open>The heap order\<close>

text \<open>Every edge of the tree whose upper end is at \<open>k\<close> or below is in order.\<close>

definition heap_from :: "('a \<Rightarrow> int) \<Rightarrow> nat \<Rightarrow> 'a list \<Rightarrow> bool" where
  "heap_from f k a \<longleftrightarrow>
     (\<forall>i. 0 < i \<and> i < length a \<and> k \<le> parent i \<longrightarrow> f (a ! (parent i)) \<le> f (a ! i))"

abbreviation is_heap :: "('a \<Rightarrow> int) \<Rightarrow> 'a list \<Rightarrow> bool" where
  "is_heap f a \<equiv> heap_from f 0 a"

lemma heap_fromD:
  "heap_from f k a \<Longrightarrow> 0 < i \<Longrightarrow> i < length a \<Longrightarrow> k \<le> parent i \<Longrightarrow> f (a ! (parent i)) \<le> f (a ! i)"
  by (auto simp: heap_from_def)

lemma is_heap_min: "is_heap f a \<Longrightarrow> i < length a \<Longrightarrow> f (a ! 0) \<le> f (a ! i)"
proof (induction i rule: less_induct)
  case (less i)
  show ?case
  proof (cases "i = 0")
    case False
    then have "parent i < i" by (simp add: parent_less)
    with less False have "f (a ! 0) \<le> f (a ! (parent i))" by auto
    also have "\<dots> \<le> f (a ! i)" using less False by (intro heap_fromD) auto
    finally show ?thesis .
  qed simp
qed

lemma is_heap_Nil [simp]: "heap_from f k []"
  by (simp add: heap_from_def)

section \<open>Insertion\<close>

text \<open>
  While the hole is at \<open>pos\<close>, every edge away from the hole is in order, the value to place is
  below the children of the hole, and so is the parent of the hole.
\<close>

definition up_inv :: "('a \<Rightarrow> int) \<Rightarrow> 'a list \<Rightarrow> 'a \<Rightarrow> nat \<Rightarrow> bool" where
  "up_inv f a v pos \<longleftrightarrow> pos < length a \<and>
     (\<forall>i. 0 < i \<and> i < length a \<and> i \<noteq> pos \<longrightarrow>
        (if parent i = pos then f v \<le> f (a ! i) \<and> (0 < pos \<longrightarrow> f (a ! (parent pos)) \<le> f (a ! i))
         else f (a ! (parent i)) \<le> f (a ! i)))"

lemma up_invD:
  assumes "up_inv f a v pos" "0 < i" "i < length a" "i \<noteq> pos"
  shows "parent i = pos \<Longrightarrow> f v \<le> f (a ! i)"
    "parent i = pos \<Longrightarrow> 0 < pos \<Longrightarrow> f (a ! (parent pos)) \<le> f (a ! i)"
    "parent i \<noteq> pos \<Longrightarrow> f (a ! (parent i)) \<le> f (a ! i)"
  using assms by (auto simp: up_inv_def)

lemma up_inv_place:
  assumes inv: "up_inv f a v pos" and par: "0 < pos \<Longrightarrow> f (a ! (parent pos)) \<le> f v"
  shows "is_heap f (a[pos := v])"
  unfolding heap_from_def
proof (intro allI impI)
  fix i assume i: "0 < i \<and> i < length (a[pos := v]) \<and> 0 \<le> parent i"
  have pos: "pos < length a" using inv by (simp add: up_inv_def)
  show "f (a[pos := v] ! (parent i)) \<le> f (a[pos := v] ! i)"
  proof (cases "i = pos")
    case True
    then have "parent i \<noteq> pos" using i parent_less [of i] by auto
    with True par i pos show ?thesis by simp
  next
    case False
    with up_invD(1,3) [OF inv, of i] i pos show ?thesis by (cases "parent i = pos") auto
  qed
qed

lemma up_inv_move:
  assumes inv: "up_inv f a v pos" and pos: "0 < pos" and par: "f v \<le> f (a ! (parent pos))"
  shows "up_inv f (a[pos := a ! (parent pos)]) v (parent pos)"
proof -
  let ?p = "parent pos" and ?a = "a[pos := a ! parent pos]"
  have len: "pos < length a" "?p < pos" using inv pos parent_less by (auto simp: up_inv_def)
  have "if parent i = ?p then f v \<le> f (?a ! i) \<and> (0 < ?p \<longrightarrow> f (?a ! (parent ?p)) \<le> f (?a ! i))
        else f (?a ! (parent i)) \<le> f (?a ! i)"
    if i: "0 < i" "i < length a" "i \<noteq> ?p" for i
  proof (cases "parent i = ?p")
    case True
    have g: "f (a ! (parent ?p)) \<le> f (a ! ?p)" if "0 < ?p"
      using up_invD(3) [OF inv, of ?p] that len parent_less [OF that] by auto
    have gp: "parent ?p \<noteq> pos" using len by (cases "?p = 0") (auto simp: parent_def dest: parent_less)
    show ?thesis
    proof (cases "i = pos")
      case True
      with par g gp len \<open>parent i = ?p\<close> show ?thesis by simp
    next
      case False
      then have "f (a ! ?p) \<le> f (a ! i)" using up_invD(3) [OF inv, of i] i True len by simp
      with par g gp len True False show ?thesis by fastforce
    qed
  next
    case False
    then have ip: "i \<noteq> pos" by auto
    show ?thesis
    proof (cases "parent i = pos")
      case True
      with up_invD(2) [OF inv, of i] i ip pos len False show ?thesis by simp
    next
      case F: False
      with up_invD(3) [OF inv, of i] i ip len False show ?thesis by simp
    qed
  qed
  with len show ?thesis by (simp add: up_inv_def)
qed

lemma heap_push_loop_heap:
  "up_inv f a v pos \<Longrightarrow> is_heap f (heap_push_loop (by_key f) a v pos)"
proof (induction "by_key f" a v pos rule: heap_push_loop.induct)
  case (1 a v pos)
  show ?case
  proof (cases "0 < pos \<and> f v \<le> f (a ! (parent pos))")
    case True
    then have "is_heap f (heap_push_loop (by_key f) (a[pos := a ! (parent pos)]) v (parent pos))"
      using 1(1) [OF _ refl] up_inv_move [OF 1(2)] by (simp add: by_key_def)
    with True show ?thesis by (subst heap_push_loop.simps) (simp add: Let_def by_key_def)
  next
    case False
    then have "is_heap f (a[pos := v])" using 1 by (intro up_inv_place) auto
    with False show ?thesis by (subst heap_push_loop.simps) (auto simp: Let_def by_key_def)
  qed
qed

lemma heap_push_loop_mset:
  "pos < length a \<Longrightarrow> mset (heap_push_loop compare a v pos) = mset (a[pos := v])"
proof (induction compare a v pos rule: heap_push_loop.induct)
  case (1 compare a v pos)
  let ?p = "parent pos"
  show ?case
  proof (cases "0 < pos \<and> \<not> compare (a ! ?p) v < 0")
    case True
    then have "mset (heap_push_loop compare (a[pos := a ! ?p]) v ?p) = mset (a[pos := a ! ?p, ?p := v])"
      using 1 by (intro 1) (auto simp: parent_lt)
    also have "\<dots> = mset (a[pos := v])"
      using True 1 parent_less [of pos] by (intro mset_swap_hole) (auto simp: parent_lt)
    finally show ?thesis using True by (subst heap_push_loop.simps) (simp add: Let_def)
  next
    case False
    then show ?thesis by (subst heap_push_loop.simps) (auto simp: Let_def)
  qed
qed

lemma heap_push_mset: "mset (heap_push compare v a) = add_mset v (mset a)"
  by (simp add: heap_push_def heap_push_loop_mset)

lemma heap_push_heap:
  assumes "is_heap f a"
  shows "is_heap f (heap_push (by_key f) v a)"
proof -
  have "up_inv f (a @ [v]) v (length a)"
    unfolding up_inv_def
  proof (intro conjI allI impI)
    fix i assume i: "0 < i \<and> i < length (a @ [v]) \<and> i \<noteq> length a"
    then have "parent i < length a" using parent_less [of i] by auto
    with i heap_fromD [OF assms, of i]
    show "if parent i = length a
          then f v \<le> f ((a @ [v]) ! i) \<and> (0 < length a \<longrightarrow> f ((a @ [v]) ! (parent (length a))) \<le> f ((a @ [v]) ! i))
          else f ((a @ [v]) ! (parent i)) \<le> f ((a @ [v]) ! i)"
      by (simp add: nth_append)
  qed simp
  then show ?thesis unfolding heap_push_def by (rule heap_push_loop_heap)
qed

section \<open>Sifting down\<close>

definition down_inv :: "('a \<Rightarrow> int) \<Rightarrow> nat \<Rightarrow> 'a list \<Rightarrow> 'a \<Rightarrow> nat \<Rightarrow> bool" where
  "down_inv f k a v pos \<longleftrightarrow> k \<le> pos \<and> pos < length a \<and>
     (\<forall>i. 0 < i \<and> i < length a \<and> i \<noteq> pos \<and> k \<le> parent i \<and> parent i \<noteq> pos \<longrightarrow>
        f (a ! (parent i)) \<le> f (a ! i)) \<and>
     (0 < pos \<and> k \<le> parent pos \<longrightarrow> f (a ! (parent pos)) \<le> f v \<and>
        (\<forall>i. 0 < i \<and> i < length a \<and> parent i = pos \<longrightarrow> f (a ! (parent pos)) \<le> f (a ! i)))"

lemma down_invD:
  assumes "down_inv f k a v pos"
  shows "k \<le> pos" "pos < length a"
    "0 < i \<Longrightarrow> i < length a \<Longrightarrow> i \<noteq> pos \<Longrightarrow> k \<le> parent i \<Longrightarrow> parent i \<noteq> pos \<Longrightarrow>
       f (a ! (parent i)) \<le> f (a ! i)"
    "0 < pos \<Longrightarrow> k \<le> parent pos \<Longrightarrow> f (a ! (parent pos)) \<le> f v"
    "0 < pos \<Longrightarrow> k \<le> parent pos \<Longrightarrow> 0 < i \<Longrightarrow> i < length a \<Longrightarrow> parent i = pos \<Longrightarrow>
       f (a ! (parent pos)) \<le> f (a ! i)"
  using assms by (auto simp: down_inv_def)

lemma siftDown_next_stop:
  assumes "siftDown_next (by_key f) a v pos lst = pos" "lst = length a - 1"
    "0 < i" "i < length a" "parent i = pos"
  shows "f v \<le> f (a ! i)"
proof -
  have "i = 2 * pos + 1 \<or> i = 2 * pos + 2" using child_cases assms by blast
  with assms show ?thesis
    by (auto simp: siftDown_next_def Let_def by_key_def split: if_splits)
qed

lemma siftDown_next_move:
  assumes "siftDown_next (by_key f) a v pos lst = nxt" "nxt \<noteq> pos" "lst = length a - 1" "0 < length a"
  shows "0 < nxt" "nxt < length a" "parent nxt = pos" "f (a ! nxt) < f v"
    "0 < i \<Longrightarrow> i < length a \<Longrightarrow> parent i = pos \<Longrightarrow> f (a ! nxt) \<le> f (a ! i)"
proof -
  have "nxt = 2 * pos + 1 \<or> nxt = 2 * pos + 2"
    using assms by (auto simp: siftDown_next_def Let_def split: if_splits)
  then show "parent nxt = pos" by auto
  show "0 < nxt" "nxt < length a" "f (a ! nxt) < f v"
    using assms by (auto simp: siftDown_next_def Let_def by_key_def split: if_splits)
  assume i: "0 < i" "i < length a" "parent i = pos"
  then have "i = 2 * pos + 1 \<or> i = 2 * pos + 2" using child_cases by blast
  with assms i show "f (a ! nxt) \<le> f (a ! i)"
    by (auto simp: siftDown_next_def Let_def by_key_def split: if_splits)
qed

lemma down_inv_place:
  assumes inv: "down_inv f k a v pos"
    and stop: "\<And>i. 0 < i \<Longrightarrow> i < length a \<Longrightarrow> parent i = pos \<Longrightarrow> f v \<le> f (a ! i)"
  shows "heap_from f k (a[pos := v])"
  unfolding heap_from_def
proof (intro allI impI)
  fix i assume i: "0 < i \<and> i < length (a[pos := v]) \<and> k \<le> parent i"
  note pos = down_invD(1,2) [OF inv]
  show "f (a[pos := v] ! (parent i)) \<le> f (a[pos := v] ! i)"
  proof (cases "i = pos")
    case True
    then have "parent i \<noteq> pos" using i parent_less [of i] by auto
    with True down_invD(4) [OF inv] i pos show ?thesis by simp
  next
    case False
    show ?thesis
    proof (cases "parent i = pos")
      case True
      with stop [of i] i pos False show ?thesis by simp
    next
      case F: False
      with down_invD(3) [OF inv, of i] i pos False show ?thesis by simp
    qed
  qed
qed

lemma down_inv_move:
  assumes inv: "down_inv f k a v pos"
    and mv: "siftDown_next (by_key f) a v pos (length a - 1) = nxt" "nxt \<noteq> pos"
  shows "down_inv f k (a[pos := a ! nxt]) v nxt"
proof -
  note pos = down_invD(1,2) [OF inv]
  have a0: "0 < length a" using pos by auto
  note n = siftDown_next_move [OF mv refl a0]
  let ?a = "a[pos := a ! nxt]"
  have lt: "pos < nxt" using parent_less [OF n(1)] n(3) by simp
  have edges: "f (?a ! (parent i)) \<le> f (?a ! i)"
    if i: "0 < i" "i < length a" "i \<noteq> nxt" "k \<le> parent i" "parent i \<noteq> nxt" for i
  proof (cases "i = pos")
    case True
    then have "parent i \<noteq> pos" using i parent_less [of i] by auto
    with True down_invD(5) [OF inv, of nxt] i pos n show ?thesis by simp
  next
    case False
    show ?thesis
    proof (cases "parent i = pos")
      case True
      with n(5) [of i] i pos False show ?thesis by simp
    next
      case F: False
      with down_invD(3) [OF inv, of i] i pos False show ?thesis by simp
    qed
  qed
  have kids: "f (a ! nxt) \<le> f (?a ! i)" if i: "0 < i" "i < length a" "parent i = nxt" for i
  proof -
    have "i \<noteq> pos" using i(3) lt parent_less [OF i(1)] by auto
    with down_invD(3) [OF inv, of i] i lt pos show ?thesis by auto
  qed
  show ?thesis
    unfolding down_inv_def using pos n lt edges kids by auto
qed

lemma siftDown_heap:
  "down_inv f k a v pos \<Longrightarrow> heap_from f k (siftDown (by_key f) a v pos (length a - 1))"
proof (induction "by_key f" a v pos "length a - 1" rule: siftDown.induct)
  case (1 a v pos)
  let ?n = "siftDown_next (by_key f) a v pos (length a - 1)"
  show ?case
  proof (cases "?n = pos")
    case True
    then have "heap_from f k (a[pos := v])"
      using siftDown_next_stop [OF True refl] by (intro down_inv_place [OF 1(2)])
    with True show ?thesis by (subst siftDown.simps) (simp add: Let_def)
  next
    case False
    then have "down_inv f k (a[pos := a ! ?n]) v ?n" using 1(2) by (intro down_inv_move) auto
    with 1(1) False have "heap_from f k (siftDown (by_key f) (a[pos := a ! ?n]) v ?n (length a - 1))" by simp
    with False show ?thesis by (subst siftDown.simps) (simp add: Let_def)
  qed
qed

lemma siftDown_mset:
  "pos < length a \<Longrightarrow> lst = length a - 1 \<Longrightarrow> mset (siftDown compare a v pos lst) = mset (a[pos := v])"
proof (induction compare a v pos lst rule: siftDown.induct)
  case (1 compare a v pos lst)
  let ?n = "siftDown_next compare a v pos lst"
  show ?case
  proof (cases "?n = pos")
    case True
    then show ?thesis by (subst siftDown.simps) (simp add: Let_def)
  next
    case False
    then have n: "pos < ?n" "?n < length a" using siftDown_next_bounds [of compare a v pos lst] 1 by auto
    then have "mset (siftDown compare (a[pos := a ! ?n]) v ?n lst) = mset (a[pos := a ! ?n, ?n := v])"
      using False 1 by simp
    also have "\<dots> = mset (a[pos := v])" using n 1 by (intro mset_swap_hole) auto
    finally show ?thesis using False by (subst siftDown.simps) (simp add: Let_def)
  qed
qed

lemma siftDown_length [simp]: "length (siftDown compare a v pos lst) = length a"
proof (induction compare a v pos lst rule: siftDown.induct)
  case (1 compare a v pos lst)
  then show ?case by (subst siftDown.simps) (auto simp: Let_def)
qed

section \<open>Removal and construction\<close>

lemma down_inv_start:
  assumes "heap_from f (Suc k) a" "k < length a"
  shows "down_inv f k a v k"
proof -
  have "\<not> k \<le> parent k" if "0 < k" using parent_less [OF that] by simp
  with assms show ?thesis unfolding down_inv_def heap_from_def by auto
qed

lemma heap_from_mono: "heap_from f k a \<Longrightarrow> k \<le> k' \<Longrightarrow> heap_from f k' a"
  by (auto simp: heap_from_def)

lemma heap_from_butlast: "heap_from f k a \<Longrightarrow> heap_from f k (butlast a)"
proof -
  assume "heap_from f k a"
  moreover have "parent i < length (butlast a)" if "0 < i" "i < length (butlast a)" for i
    using that by (rule parent_lt)
  ultimately show ?thesis by (auto simp: heap_from_def nth_butlast)
qed

lemma heap_pop_heap:
  assumes "is_heap f a"
  shows "is_heap f (snd (heap_pop (by_key f) a))"
proof (cases "length a \<le> 1")
  case True
  then show ?thesis by (auto simp: heap_pop_def Let_def heap_from_def)
next
  case False
  let ?b = "butlast a"
  have "heap_from f (Suc 0) ?b" using assms heap_from_butlast heap_from_mono by blast
  then have "is_heap f (siftDown (by_key f) ?b (last a) 0 (length ?b - 1))"
    using False by (intro siftDown_heap down_inv_start) auto
  with False show ?thesis by (auto simp: heap_pop_def Let_def)
qed

lemma heap_pop_mset:
  assumes "a \<noteq> []"
  shows "fst (heap_pop compare a) = Some (a ! 0)"
    "mset a = add_mset (a ! 0) (mset (snd (heap_pop compare a)))"
proof -
  show "fst (heap_pop compare a) = Some (a ! 0)" using assms by (simp add: heap_pop_def Let_def)
  show "mset a = add_mset (a ! 0) (mset (snd (heap_pop compare a)))"
  proof (cases "butlast a = []")
    case True
    then obtain x where "a = [x]" using assms by (metis append_butlast_last_id append_Nil)
    then show ?thesis by (simp add: heap_pop_def)
  next
    case False
    then obtain y ys where b: "butlast a = y # ys" by (cases "butlast a") auto
    then have a: "a = y # ys @ [last a]" by (metis append_Cons append_butlast_last_id assms)
    have "mset (siftDown compare (y # ys) (last a) 0 (length (y # ys) - 1)) = mset ((y # ys)[0 := last a])"
      by (rule siftDown_mset) simp_all
    then have "mset (snd (heap_pop compare a)) = add_mset (last a) (mset ys)"
      using b assms by (simp add: heap_pop_def Let_def)
    moreover have "mset a = mset (y # ys @ [last a])" "a ! 0 = y" by (subst a, simp)+
    ultimately show ?thesis by simp
  qed
qed

lemma resort_loop_heap:
  "heap_from f (Suc i) a \<Longrightarrow> i < length a \<Longrightarrow> is_heap f (resort_loop (by_key f) a i)"
proof (induction i arbitrary: a)
  case 0
  then show ?case using siftDown_heap [OF down_inv_start [of f 0 a "a ! 0"]] by simp
next
  case (Suc i)
  have "heap_from f (Suc i) (siftDown (by_key f) a (a ! Suc i) (Suc i) (length a - 1))"
    using Suc.prems by (intro siftDown_heap down_inv_start)
  with Suc show ?case by simp
qed

lemma resort_loop_mset: "i < length a \<Longrightarrow> mset (resort_loop compare a i) = mset a"
proof (induction i arbitrary: a)
  case 0
  then show ?case by (simp add: siftDown_mset)
next
  case (Suc i)
  then show ?case by (simp add: siftDown_mset)
qed

lemma resort_start:
  assumes "2 \<le> length a" "length a < 2 ^ 32"
  shows "js_ushr (int (length a) - 1 - 1) 1 = int ((length a - 2) div 2)"
  using assms by (subst js_ushr_nonneg) (auto simp: zdiv_int of_nat_diff)

lemma heap_init_ok:
  assumes "length a \<noteq> 1" "length a < 2 ^ 32"
  shows "\<exists>h. heap_init (by_key f) a = Inr h \<and> is_heap f h \<and> mset h = mset a"
proof (cases "a = []")
  case True
  then show ?thesis by (simp add: heap_init_def heap_resort_def)
next
  case False
  then have "length a \<noteq> 0" by simp
  then have len: "2 \<le> length a" using assms(1) by linarith
  let ?i = "(length a - 2) div 2"
  have i: "?i < length a" using len by auto
  have "heap_from f (Suc ?i) a"
  proof -
    have "parent i \<le> ?i" if "i < length a" for i
      unfolding parent_def by (rule div_le_mono) (use that in linarith)
    then show ?thesis unfolding heap_from_def by (meson Suc_n_not_le_n order_trans)
  qed
  then show ?thesis
    using i False resort_start [OF len assms(2)] resort_loop_heap [of f ?i a] resort_loop_mset [of ?i a]
    by (simp add: heap_init_def heap_resort_def Let_def)
qed

section \<open>The heap is a priority queue\<close>

interpretation heap: min_queue f "heap_push (by_key f)" "heap_pop (by_key f)" heap_peek mset "is_heap f"
  for f :: "'a \<Rightarrow> int"
proof unfold_locales
  fix q :: "'a list" and x
  show "is_heap f q \<Longrightarrow> is_heap f (heap_push (by_key f) x q)" by (rule heap_push_heap)
  show "is_heap f q \<Longrightarrow> mset (heap_push (by_key f) x q) = add_mset x (mset q)" by (rule heap_push_mset)
  show "is_heap f q \<Longrightarrow> is_heap f (snd (heap_pop (by_key f) q))" by (rule heap_pop_heap)
  show "is_heap f q \<Longrightarrow> mset q = {#} \<Longrightarrow> fst (heap_pop (by_key f) q) = None" by (simp add: heap_pop_def)
  show "is_heap f q \<Longrightarrow> heap_peek q = fst (heap_pop (by_key f) q)"
    by (simp add: heap_peek_def heap_pop_def Let_def)
next
  fix q :: "'a list"
  assume h: "is_heap f q" and "mset q \<noteq> {#}"
  then have ne: "q \<noteq> []" by simp
  have "f (q ! 0) \<le> f y" if "y \<in># mset q" for y
    using that is_heap_min [OF h] by (auto simp: in_set_conv_nth)
  with heap_pop_mset [OF ne, of "by_key f"]
  show "\<exists>x. fst (heap_pop (by_key f) q) = Some x \<and> mset q = add_mset x (mset (snd (heap_pop (by_key f) q))) \<and>
      (\<forall>y\<in>#mset q. f x \<le> f y)" by blast
qed

section \<open>Properties\<close>

text \<open>Popping a heap that is not empty returns an element of the smallest key and removes exactly that
  element: what is left is a heap with the other elements.\<close>

theorem heap_pop_minimum:
  assumes "is_heap f a" "a \<noteq> []"
  shows "\<exists>x h. heap_pop (by_key f) a = (Some x, h) \<and> is_heap f h \<and> mset a = add_mset x (mset h) \<and>
    (\<forall>y\<in>set a. f x \<le> f y)"
  using heap.pop_elems [OF assms(1)] heap.pop_inv [OF assms(1)] assms(2)
  by (cases "heap_pop (by_key f) a") auto

lemma heap_pop_minimum_witness:
  "\<exists>x h. heap_pop (by_key id) [1, 3, 2 :: int] = (Some x, h) \<and> is_heap id h \<and> mset [1, 3, 2] = add_mset x (mset h) \<and>
    x \<le> 1 \<and> x \<le> 2 \<and> x \<le> 3"
proof -
  have "is_heap id [1, 3, 2 :: int]"
    by (auto simp: heap_from_def nth_Cons' parent_def split: if_splits)
  from heap_pop_minimum [OF this] show ?thesis by auto
qed

text \<open>Building a heap from any array but one of a single element, and pushing an element, keep the
  elements and give a heap.\<close>

theorem heap_init_push:
  assumes "length a \<noteq> 1" "length a < 2 ^ 32"
  shows "\<exists>h. heap_init (by_key f) a = Inr h \<and> is_heap f (heap_push (by_key f) x h) \<and>
    mset (heap_push (by_key f) x h) = add_mset x (mset a)"
  using heap_init_ok [OF assms, of f] heap.push_inv heap.push_elems by fastforce

lemma heap_init_push_witness:
  "\<exists>h. heap_init (by_key id) [3, 1 :: int] = Inr h \<and> is_heap id (heap_push (by_key id) 2 h) \<and>
    mset (heap_push (by_key id) 2 h) = add_mset 2 (mset [3, 1])"
  by (rule heap_init_push) simp_all

text \<open>Building a heap from an array of one element fails: the last parent of \<open>resort\<close> is
  \<open>(0 - 1) >>> 1\<close>, a position far outside of the array.\<close>

theorem heap_init_singleton:
  "heap_init compare [x] = Inl TypeError \<and> js_ushr (int (length [x]) - 1 - 1) 1 = 2 ^ 31 - 1"
proof -
  have "js_ushr (- 1) 1 = 2 ^ 31 - 1" by (simp add: js_ushr_def unsigned_drop_bit_eq drop_bit_eq_div)
  then show ?thesis by (simp add: heap_init_def heap_resort_def Let_def)
qed

end
