(* ===== verification/Util_Misc.thy ===== *)
theory Util_Misc
  imports Prelude
begin

text \<open>
  The general helpers of \<open>util/util-internal/src/misc.ts\<close> that the other components call:
  the last element of an array, splitting of slices and arrays into bounded pieces, grouping
  and partitioning of arrays, binary search, removal of an item. Generators are the list of
  the values they yield.
\<close>

section \<open>Definitions\<close>

definition assertNotNull :: "'a option \<Rightarrow> 'a result" where
  "assertNotNull v = of_option AssertionError v"

definition js_last :: "'a list \<Rightarrow> 'a result" where
  "js_last xs = rbind (js_assert (length xs > 0)) (\<lambda>_. Inr (xs ! (length xs - 1)))"

definition maybeLast :: "'a list \<Rightarrow> 'a option" where
  "maybeLast xs = (if length xs > 0 then Some (xs ! (length xs - 1)) else None)"

definition MAX_SAFE_INTEGER :: int where
  "MAX_SAFE_INTEGER = 2 ^ 53 - 1"

definition ceil_div :: "int \<Rightarrow> int \<Rightarrow> int" where
  \<comment> \<open>\<open>Math.ceil(a / b)\<close> for a positive \<open>b\<close>\<close>
  "ceil_div a b = - ((- a) div b)"

definition round_div :: "int \<Rightarrow> int \<Rightarrow> int" where
  \<comment> \<open>\<open>Math.round(a / b)\<close> for a positive \<open>b\<close>: halves are rounded up\<close>
  "round_div a b = (2 * a + b) div (2 * b)"

definition split_step :: "int \<Rightarrow> int \<Rightarrow> int" where
  \<comment> \<open>the size of the next piece when \<open>left\<close> items are left\<close>
  "split_step maxSize left = (let splits = ceil_div left maxSize in round_div left splits)"

lemma ceil_div_bounds:
  assumes "0 < b"
  shows "a \<le> b * ceil_div a b" "b * ceil_div a b < a + b"
proof -
  have "b * ((- a) div b) + (- a) mod b = - a" by (rule mult_div_mod_eq)
  moreover have "b * ceil_div a b = - (b * ((- a) div b))" by (simp add: ceil_div_def)
  ultimately have eq: "b * ceil_div a b = a + (- a) mod b" by linarith
  have "0 \<le> (- a) mod b" "(- a) mod b < b" using assms by simp_all
  with eq show "a \<le> b * ceil_div a b" "b * ceil_div a b < a + b" by linarith+
qed

lemma ceil_div_pos: "0 < a \<Longrightarrow> 0 < b \<Longrightarrow> 0 < ceil_div a b"
  using ceil_div_bounds(1) [of b a] by (smt (verit) mult_nonneg_nonpos)

lemma ceil_div_le: "0 < a \<Longrightarrow> 1 \<le> b \<Longrightarrow> ceil_div a b \<le> a"
proof -
  assume a: "0 < a" "1 \<le> b"
  show "ceil_div a b \<le> a"
  proof (rule ccontr)
    assume "\<not> ceil_div a b \<le> a"
    then have "b * (a + 1) \<le> b * ceil_div a b" using a by (intro mult_left_mono) auto
    also have "\<dots> < a + b" using a by (intro ceil_div_bounds) auto
    finally have "b * a < a" by (simp add: distrib_left)
    with a show False by (smt (verit) mult_right_mono mult_cancel_right1)
  qed
qed

lemma round_div_bounds:
  assumes "0 < b"
  shows "b \<le> a \<Longrightarrow> 1 \<le> round_div a b" "a \<le> m * b \<Longrightarrow> round_div a b \<le> m"
proof -
  assume "b \<le> a"
  then have "2 * b * 1 \<le> 2 * a + b" using assms by linarith
  then have "(2 * b * 1) div (2 * b) \<le> (2 * a + b) div (2 * b)"
    using assms by (intro zdiv_mono1) auto
  then show "1 \<le> round_div a b" using assms by (simp add: round_div_def)
next
  assume "a \<le> m * b"
  then have "2 * a + b \<le> (2 * b - 1) + m * (2 * b)" using assms by (simp add: algebra_simps)
  then have "(2 * a + b) div (2 * b) \<le> ((2 * b - 1) + m * (2 * b)) div (2 * b)"
    using assms by (intro zdiv_mono1) auto
  also have "\<dots> = m + (2 * b - 1) div (2 * b)"
    using assms by (intro div_mult_self1) auto
  also have "(2 * b - 1) div (2 * b) = 0"
    using assms by (intro div_pos_pos_trivial) auto
  finally show "round_div a b \<le> m" by (simp add: round_div_def)
qed

lemma split_step_bounds:
  assumes "1 \<le> maxSize" "0 < left"
  shows "1 \<le> split_step maxSize left" "split_step maxSize left \<le> maxSize"
    "split_step maxSize left \<le> left"
proof -
  let ?s = "ceil_div left maxSize"
  have s: "0 < ?s" "?s \<le> left" "left \<le> maxSize * ?s"
    using assms ceil_div_pos ceil_div_le ceil_div_bounds(1) by auto
  show "1 \<le> split_step maxSize left" "split_step maxSize left \<le> maxSize"
    using s by (auto simp: split_step_def Let_def intro: round_div_bounds)
  have "left \<le> left * ?s" using s assms by (simp add: mult_le_cancel_left1)
  then show "split_step maxSize left \<le> left"
    using s by (auto simp: split_step_def Let_def intro: round_div_bounds)
qed

text \<open>The loop of \<open>splitSlice\<close>; the guard on \<open>maxSize\<close> is the assertion that precedes it.\<close>

function splitSlice_loop :: "int \<Rightarrow> int \<Rightarrow> int \<Rightarrow> (int \<times> int) list" where
  "splitSlice_loop maxSize beg fin =
     (if 1 \<le> maxSize \<and> beg < fin
      then let step = split_step maxSize (fin - beg)
           in (beg, beg + step) # splitSlice_loop maxSize (beg + step) fin
      else [])"
  by pat_completeness auto
termination
proof (relation "measure (\<lambda>(m, b, e). nat (e - b))", goal_cases)
  case (2 maxSize beg fin step)
  then have "1 \<le> step" using split_step_bounds(1) by auto
  with 2 show ?case by auto
qed simp

declare splitSlice_loop.simps [simp del]

definition splitSlice :: "int \<Rightarrow> int \<Rightarrow> int option \<Rightarrow> (int \<times> int) list result" where
  "splitSlice maxSize beg fin =
     rbind (js_assert (maxSize \<ge> 1))
       (\<lambda>_. Inr (splitSlice_loop maxSize beg (case fin of None \<Rightarrow> MAX_SAFE_INTEGER | Some e \<Rightarrow> e)))"

definition js_slice :: "'a list \<Rightarrow> nat \<Rightarrow> nat \<Rightarrow> 'a list" where
  \<comment> \<open>\<open>arr.slice(beg, end)\<close> for indices that are not negative\<close>
  "js_slice xs beg fin = take (fin - beg) (drop beg xs)"

definition splitArray :: "int \<Rightarrow> 'a list \<Rightarrow> 'a list list result" where
  "splitArray maxSize arr =
     (if int (length arr) \<le> maxSize then Inr [arr]
      else rbind (splitSlice maxSize 0 (Some (int (length arr))))
             (\<lambda>ps. Inr (map (\<lambda>(b, e). js_slice arr (nat b) (nat e)) ps)))"

text \<open>The insertion of an element into the groups: a JavaScript \<open>Map\<close> keeps insertion order.\<close>

fun group_insert :: "'g \<Rightarrow> 't \<Rightarrow> ('g \<times> 't list) list \<Rightarrow> ('g \<times> 't list) list" where
  "group_insert key element [] = [(key, [element])]"
| "group_insert key element ((k, g) # rest) =
     (if k = key then (k, g @ [element]) # rest else (k, g) # group_insert key element rest)"

definition groupBy :: "'t list \<Rightarrow> ('t \<Rightarrow> 'g) \<Rightarrow> ('g \<times> 't list) list" where
  "groupBy elements grp = fold (\<lambda>e acc. group_insert (grp e) e acc) elements []"

fun partitionBy_loop :: "('t \<Rightarrow> 'v) \<Rightarrow> 't list \<Rightarrow> 'v \<Rightarrow> 't list \<Rightarrow> ('t list \<times> 'v) list" where
  "partitionBy_loop val pack packValue [] =
     (if length pack > 0 then [(pack, packValue)] else [])"
| "partitionBy_loop val pack packValue (item # items) =
     (let itemValue = val item
      in if itemValue = packValue then partitionBy_loop val (pack @ [item]) packValue items
         else (pack, packValue) # partitionBy_loop val [item] itemValue items)"

fun partitionBy :: "'t list \<Rightarrow> ('t \<Rightarrow> 'v) \<Rightarrow> ('t list \<times> 'v) list" where
  "partitionBy [] val = []"
| "partitionBy (i # items) val = partitionBy_loop val [i] (val i) items"

definition bisect_pos :: "nat \<Rightarrow> nat \<Rightarrow> nat" where
  \<comment> \<open>the middle of the interval that is left, rounded down\<close>
  "bisect_pos beg fin = (let dist = fin - beg in beg + (dist - dist mod 2) div 2)"

lemma bisect_pos_bounds: "beg < fin \<Longrightarrow> beg \<le> bisect_pos beg fin" "beg < fin \<Longrightarrow> bisect_pos beg fin < fin"
proof -
  have half: "(d - d mod 2) div 2 = d div (2::nat)" for d
    by (simp add: minus_mod_eq_mult_div)
  show "beg < fin \<Longrightarrow> beg \<le> bisect_pos beg fin" "beg < fin \<Longrightarrow> bisect_pos beg fin < fin"
    unfolding bisect_pos_def Let_def half by auto
qed

function bisect_loop :: "'i list \<Rightarrow> 'k \<Rightarrow> ('i \<Rightarrow> 'k \<Rightarrow> int) \<Rightarrow> nat \<Rightarrow> nat \<Rightarrow> nat" where
  "bisect_loop items key compare beg fin =
     (if beg < fin then
        (let pos = bisect_pos beg fin;
             it = items ! pos;
             order = compare it key
         in if order = 0 then pos
            else if order > 0 then bisect_loop items key compare beg pos
            else bisect_loop items key compare (pos + 1) fin)
      else beg)"
  by pat_completeness auto
termination
proof (relation "measure (\<lambda>(its, k, c, b, e). e - b)", goal_cases)
  case (2 items key compare beg fin pos it order)
  then show ?case using bisect_pos_bounds [of beg fin] by auto
next
  case (3 items key compare beg fin pos it order)
  then show ?case using bisect_pos_bounds [of beg fin] by auto
qed simp

declare bisect_loop.simps [simp del]

definition bisect :: "'i list \<Rightarrow> 'k \<Rightarrow> ('i \<Rightarrow> 'k \<Rightarrow> int) \<Rightarrow> nat" where
  "bisect items key compare = bisect_loop items key compare 0 (length items)"

definition removeArrayItem :: "'a list \<Rightarrow> 'a \<Rightarrow> 'a list" where
  \<comment> \<open>\<open>indexOf\<close> finds the first occurrence and \<open>splice\<close> removes it\<close>
  "removeArrayItem arr item = remove1 item arr"

section \<open>The last element\<close>

lemma js_last_eq [simp]: "js_last xs = (if xs = [] then Inl AssertionError else Inr (last xs))"
  by (simp add: js_last_def last_conv_nth js_assert_def)

lemma maybeLast_eq [simp]: "maybeLast xs = (if xs = [] then None else Some (last xs))"
  by (simp add: maybeLast_def last_conv_nth)

lemma assertNotNull_simps [simp]:
  "assertNotNull None = Inl AssertionError" "assertNotNull (Some x) = Inr x"
  by (simp_all add: assertNotNull_def)

section \<open>Splitting\<close>

text \<open>Consecutive pieces that start at \<open>b\<close> and end at \<open>e\<close>, none of them empty or above \<open>m\<close>.\<close>

fun slices_from :: "int \<Rightarrow> int \<Rightarrow> int \<Rightarrow> (int \<times> int) list \<Rightarrow> bool" where
  "slices_from m b e [] \<longleftrightarrow> b = e"
| "slices_from m b e ((x, y) # rest) \<longleftrightarrow> x = b \<and> x < y \<and> y - x \<le> m \<and> slices_from m y e rest"

lemma splitSlice_loop_slices:
  "1 \<le> maxSize \<Longrightarrow> beg \<le> fin \<Longrightarrow> slices_from maxSize beg fin (splitSlice_loop maxSize beg fin)"
proof (induction maxSize beg fin rule: splitSlice_loop.induct)
  case (1 maxSize beg fin)
  show ?case
  proof (cases "beg < fin")
    case True
    let ?step = "split_step maxSize (fin - beg)"
    have b: "1 \<le> ?step" "?step \<le> maxSize" "?step \<le> fin - beg"
      using True 1(2) split_step_bounds [of maxSize "fin - beg"] by auto
    with True 1 show ?thesis
      by (subst splitSlice_loop.simps) (simp add: Let_def)
  next
    case False
    with 1 show ?thesis by (subst splitSlice_loop.simps) simp
  qed
qed

lemma slices_from_concat:
  "slices_from m (int b) (int e) ps \<Longrightarrow> e \<le> length xs \<Longrightarrow> b \<le> e \<Longrightarrow>
     concat (map (\<lambda>(x, y). js_slice xs (nat x) (nat y)) ps) = js_slice xs b e"
proof (induction ps arbitrary: b)
  case Nil
  then show ?case by (simp add: js_slice_def)
next
  case (Cons p ps)
  obtain x y where p: "p = (x, y)" by (cases p)
  with Cons.prems have xy: "x = int b" "x < y" "slices_from m y (int e) ps" by auto
  have "y \<le> int e" using xy(3)
  proof (induction ps arbitrary: y)
    case (Cons q qs)
    then show ?case by (cases q) fastforce
  qed simp
  define y' where "y' = nat y"
  have y': "y = int y'" "b < y'" "y' \<le> e"
    using xy \<open>y \<le> int e\<close> by (auto simp: y'_def)
  have IH: "concat (map (\<lambda>(x, y). js_slice xs (nat x) (nat y)) ps) = js_slice xs y' e"
    using Cons.IH [of y'] xy y' Cons.prems(2) by simp
  have "js_slice xs b y' @ js_slice xs y' e = js_slice xs b e"
  proof -
    have "e - b = (y' - b) + (e - y')" "(y' - b) + b = y'" using y' by auto
    then show ?thesis by (simp only: js_slice_def take_add drop_drop)
  qed
  with IH p xy y' show ?case by simp
qed

section \<open>Binary search\<close>

lemma bisect_loop_done: "\<not> beg < fin \<Longrightarrow> bisect_loop items key compare beg fin = beg"
  by (subst bisect_loop.simps) simp

lemma bisect_loop_step:
  assumes "beg < fin" "pos = bisect_pos beg fin"
  shows "compare (items ! pos) key = 0 \<Longrightarrow> bisect_loop items key compare beg fin = pos"
    "0 < compare (items ! pos) key \<Longrightarrow>
       bisect_loop items key compare beg fin = bisect_loop items key compare beg pos"
    "compare (items ! pos) key < 0 \<Longrightarrow>
       bisect_loop items key compare beg fin = bisect_loop items key compare (pos + 1) fin"
  using assms by (subst bisect_loop.simps, simp add: Let_def)+

definition splits_at :: "('i \<Rightarrow> int) \<Rightarrow> 'i list \<Rightarrow> int \<Rightarrow> nat \<Rightarrow> bool" where
  "splits_at f items key p \<longleftrightarrow> p \<le> length items \<and> (\<forall>j<p. f (items ! j) < key) \<and>
     (\<forall>j. p \<le> j \<and> j < length items \<longrightarrow> key \<le> f (items ! j))"

lemma bisect_loop_correct:
  fixes f :: "'i \<Rightarrow> int"
  assumes "sorted_wrt (\<lambda>a b. f a < f b) items"
  shows "beg \<le> fin \<Longrightarrow> fin \<le> length items \<Longrightarrow> (\<forall>j<beg. f (items ! j) < key) \<Longrightarrow>
     (\<forall>j. fin \<le> j \<and> j < length items \<longrightarrow> key \<le> f (items ! j)) \<Longrightarrow>
     splits_at f items key (bisect_loop items key (\<lambda>b k. f b - k) beg fin)"
proof (induction "fin - beg" arbitrary: beg fin rule: less_induct)
  case less
  define pos where "pos = bisect_pos beg fin"
  have mono: "f (items ! i) < f (items ! j)" if "i < j" "j < length items" for i j
    using assms that by (simp add: sorted_wrt_iff_nth_less)
  show ?case
  proof (cases "beg < fin")
    case False
    with less.prems show ?thesis by (auto simp: bisect_loop_done splits_at_def)
  next
    case True
    have pos: "beg \<le> pos" "pos < fin" using bisect_pos_bounds [OF True] by (auto simp: pos_def)
    consider "f (items ! pos) = key" | "f (items ! pos) > key" | "f (items ! pos) < key" by linarith
    then show ?thesis
    proof cases
      case 1
      have "f (items ! j) < key" if "j < pos" for j
        using mono [of j pos] that 1 pos less.prems by auto
      moreover have "key \<le> f (items ! j)" if "pos \<le> j" "j < length items" for j
        using mono [of pos j] that 1 by (cases "j = pos") auto
      ultimately show ?thesis
        using bisect_loop_step(1) [OF True pos_def, of "\<lambda>b k. f b - k" items key] 1 pos less.prems
        by (auto simp: splits_at_def)
    next
      case 2
      have "key \<le> f (items ! j)" if "pos \<le> j" "j < length items" for j
        using mono [of pos j] that 2 by (cases "j = pos") auto
      then have "splits_at f items key (bisect_loop items key (\<lambda>b k. f b - k) beg pos)"
        using pos less.prems by (intro less.hyps) auto
      then show ?thesis
        using bisect_loop_step(2) [OF True pos_def, of "\<lambda>b k. f b - k" items key] 2 by simp
    next
      case 3
      have "f (items ! j) < key" if "j < pos + 1" for j
        using mono [of j pos] that 3 pos less.prems by (cases "j = pos") auto
      then have "splits_at f items key (bisect_loop items key (\<lambda>b k. f b - k) (pos + 1) fin)"
        using pos less.prems by (intro less.hyps) auto
      then show ?thesis
        using bisect_loop_step(3) [OF True pos_def, of "\<lambda>b k. f b - k" items key] 3 by simp
    qed
  qed
qed

lemma bisect_correct:
  fixes f :: "'i \<Rightarrow> int"
  assumes "sorted_wrt (\<lambda>a b. f a < f b) items"
  shows "splits_at f items key (bisect items key (\<lambda>b k. f b - k))"
  unfolding bisect_def by (rule bisect_loop_correct [OF assms]) auto

lemma splits_at_le: "splits_at f items key p \<Longrightarrow> splits_at f items key q \<Longrightarrow> q \<le> p"
proof (rule ccontr)
  assume p: "splits_at f items key p" and q: "splits_at f items key q" and "\<not> q \<le> p"
  then have "p < q" by simp
  with q have "f (items ! p) < key" "p < length items" unfolding splits_at_def by auto
  with p show False unfolding splits_at_def by auto
qed

lemma splits_at_unique: "splits_at f items key p \<Longrightarrow> splits_at f items key q \<Longrightarrow> p = q"
  by (rule order_antisym) (rule splits_at_le; assumption)+

section \<open>Partitioning and grouping\<close>

lemma partitionBy_loop_concat:
  "concat (map fst (partitionBy_loop v pack pv items)) = pack @ items"
  by (induction items arbitrary: pack pv) (simp_all add: Let_def)

lemma partitionBy_concat: "concat (map fst (partitionBy items v)) = items"
  by (cases items) (simp_all add: partitionBy_loop_concat)

lemma partitionBy_loop_values:
  "pack \<noteq> [] \<Longrightarrow> \<forall>i\<in>set pack. v i = pv \<Longrightarrow>
     \<forall>(g, w)\<in>set (partitionBy_loop v pack pv items). g \<noteq> [] \<and> (\<forall>i\<in>set g. v i = w)"
proof (induction items arbitrary: pack pv)
  case Nil
  then show ?case by simp
next
  case (Cons i items)
  show ?case
  proof (cases "v i = pv")
    case True
    with Cons.prems show ?thesis by (simp add: Cons.IH [of "pack @ [i]" pv])
  next
    case False
    with Cons.prems Cons.IH [of "[i]" "v i"] show ?thesis by (simp add: Let_def)
  qed
qed

lemma partitionBy_values:
  "\<forall>(g, w)\<in>set (partitionBy items v). g \<noteq> [] \<and> (\<forall>i\<in>set g. v i = w)"
proof (cases items)
  case (Cons i rest)
  then show ?thesis using partitionBy_loop_values [of "[i]" v "v i" rest] by simp
qed simp

section \<open>Properties\<close>

text \<open>On items with strictly growing keys \<open>bisect\<close> returns the position where the key is or would be
  inserted: the items before it have smaller keys, the items from it on have not.\<close>

theorem bisect_position:
  fixes f :: "'i \<Rightarrow> int"
  assumes "sorted_wrt (\<lambda>a b. f a < f b) items"
  shows "bisect items key (\<lambda>b k. f b - k) \<le> length items \<and>
    (\<forall>j < length items. f (items ! j) < key \<longleftrightarrow> j < bisect items key (\<lambda>b k. f b - k))"
  using bisect_correct [OF assms, of key] by (auto simp: splits_at_def not_less not_le intro: ccontr)

lemma bisect_position_witness: "bisect [2, 5, 9 :: int] 6 (\<lambda>b k. id b - k) = 2"
proof -
  let ?p = "bisect [2, 5, 9 :: int] 6 (\<lambda>b k. id b - k)"
  have "\<forall>j < length [2, 5, 9 :: int]. id ([2, 5, 9 :: int] ! j) < 6 \<longleftrightarrow> j < ?p"
    by (rule conjunct2 [OF bisect_position]) simp
  then have "1 < ?p" "\<not> 2 < ?p" by auto
  then show ?thesis by linarith
qed

end
