(* ===== verification/Ranges.thy ===== *)
theory Ranges
  imports Util_Misc Binary_Heap
begin

text \<open>
  Block ranges and range requests of \<open>util/util-internal-range/src\<close>: intersection, difference
  and splitting of ranges, the size of a list of ranges within a boundary, and the merge of
  overlapping requests into an ordered list of disjoint ones, which uses the heap.

  The end of an open range is JavaScript's \<open>Infinity\<close>; the ends are the type \<open>xnum\<close> with its
  linear order.
\<close>

section \<open>Numbers and infinity\<close>

datatype xnum = Num int | Infinity

instantiation xnum :: linorder
begin

fun less_eq_xnum :: "xnum \<Rightarrow> xnum \<Rightarrow> bool" where
  "less_eq_xnum _ Infinity \<longleftrightarrow> True"
| "less_eq_xnum Infinity (Num _) \<longleftrightarrow> False"
| "less_eq_xnum (Num a) (Num b) \<longleftrightarrow> a \<le> b"

definition less_xnum :: "xnum \<Rightarrow> xnum \<Rightarrow> bool" where
  "less_xnum a b \<longleftrightarrow> a \<le> b \<and> \<not> b \<le> (a :: xnum)"

instance
proof
  fix x y z :: xnum
  show "x < y \<longleftrightarrow> x \<le> y \<and> \<not> y \<le> x" by (simp add: less_xnum_def)
  show "x \<le> x" by (cases x) auto
  show "x \<le> y \<Longrightarrow> y \<le> z \<Longrightarrow> x \<le> z" by (cases x; cases y; cases z) auto
  show "x \<le> y \<Longrightarrow> y \<le> x \<Longrightarrow> x = y" by (cases x; cases y) auto
  show "x \<le> y \<or> y \<le> x" by (cases x; cases y) auto
qed

end

lemma xnum_less_simps [simp]:
  "Num a < Num b \<longleftrightarrow> a < b" "Num a < Infinity" "\<not> Infinity < x"
proof -
  show "Num a < Num b \<longleftrightarrow> a < b" "Num a < Infinity" by (auto simp: less_xnum_def)
  show "\<not> Infinity < x" by (cases x) (simp_all add: less_xnum_def)
qed

lemma xnum_cases_le: "Infinity \<le> x \<longleftrightarrow> x = Infinity"
  by (cases x) auto

section \<open>Ranges\<close>

record block_range =
  rfrom :: int
  rto :: "int option"

record finite_range =
  ffrom :: int
  fto :: int

record 'r range_request =
  rr_range :: block_range
  rr_request :: 'r

definition rangeEnd :: "block_range \<Rightarrow> xnum" where
  "rangeEnd r = (case rto r of None \<Rightarrow> Infinity | Some t \<Rightarrow> Num t)"

definition isRange :: "block_range \<Rightarrow> bool" where
  "isRange obj \<longleftrightarrow> isSafeInteger (rfrom obj) \<and> rfrom obj \<ge> 0 \<and>
     (case rto obj of None \<Rightarrow> True | Some t \<Rightarrow> isSafeInteger t \<and> rfrom obj \<le> t)"

definition assertRange :: "block_range \<Rightarrow> unit result" where
  "assertRange rng =
     rbind (js_assert (isSafeInteger (rfrom rng))) (\<lambda>_.
     rbind (js_assert (case rto rng of None \<Rightarrow> True | Some t \<Rightarrow> isSafeInteger t)) (\<lambda>_.
     rbind (js_assert (rfrom rng \<ge> 0)) (\<lambda>_.
     js_assert (Num (rfrom rng) \<le> rangeEnd rng))))"

definition rangeContains :: "block_range \<Rightarrow> block_range \<Rightarrow> bool" where
  "rangeContains big small \<longleftrightarrow> rfrom big \<le> rfrom small \<and> rangeEnd big \<ge> rangeEnd small"

definition rangeIntersection :: "block_range \<Rightarrow> block_range \<Rightarrow> block_range option" where
  "rangeIntersection a b =
     (let beg = max (rfrom a) (rfrom b); fin = min (rangeEnd a) (rangeEnd b)
      in if Num beg > fin then None
         else case fin of
             Infinity \<Rightarrow> Some \<lparr>rfrom = beg, rto = None\<rparr>
           | Num e \<Rightarrow> Some \<lparr>rfrom = beg, rto = Some e\<rparr>)"

text \<open>\<open>if (a.to)\<close> is the truth value of a number or \<open>undefined\<close>: 0 and \<open>undefined\<close> are false.\<close>

definition rangeDifference :: "block_range \<Rightarrow> block_range \<Rightarrow> block_range list" where
  "rangeDifference a b =
     (case rangeIntersection a b of
        None \<Rightarrow> [a]
      | Some i \<Rightarrow>
          (if rfrom a < rfrom i then [\<lparr>rfrom = rfrom a, rto = Some (rfrom i - 1)\<rparr>] else []) @
          (case rto i of
             None \<Rightarrow> []
           | Some t \<Rightarrow>
               if Num t < rangeEnd a then
                 (let from = t + 1
                  in case rto a of
                       Some e \<Rightarrow> if e \<noteq> 0 then [\<lparr>rfrom = from, rto = Some e\<rparr>]
                                 else [\<lparr>rfrom = from, rto = None\<rparr>]
                     | None \<Rightarrow> [\<lparr>rfrom = from, rto = None\<rparr>])
               else []))"

definition splitRange :: "int \<Rightarrow> block_range \<Rightarrow> finite_range list result" where
  "splitRange maxSize rng =
     rbind (splitSlice maxSize (rfrom rng) (case rto rng of None \<Rightarrow> None | Some t \<Rightarrow> Some (t + 1)))
       (\<lambda>ps. Inr (map (\<lambda>(beg, fin). \<lparr>ffrom = beg, fto = fin - 1\<rparr>) ps))"

fun assertRangeList_loop :: "block_range \<Rightarrow> block_range list \<Rightarrow> unit result" where
  "assertRangeList_loop prev [] = Inr ()"
| "assertRangeList_loop prev (r # rest) =
     rbind (assertRange r) (\<lambda>_.
     rbind (js_assert (Num (rfrom r) > rangeEnd prev)) (\<lambda>_. assertRangeList_loop r rest))"

fun assertRangeList :: "block_range list \<Rightarrow> unit result" where
  "assertRangeList [] = Inr ()"
| "assertRangeList (r # rest) = rbind (assertRange r) (\<lambda>_. assertRangeList_loop r rest)"

fun getSize_loop :: "int \<Rightarrow> block_range list \<Rightarrow> finite_range \<Rightarrow> int" where
  "getSize_loop sz [] boundary = sz"
| "getSize_loop sz (r # rest) boundary =
     (if fto boundary < rfrom r then sz
      else if Num (ffrom boundary) > rangeEnd r then getSize_loop sz rest boundary
      else let beg = max (ffrom boundary) (rfrom r);
               fin = (case rangeEnd r of Num e \<Rightarrow> min (fto boundary) e | Infinity \<Rightarrow> fto boundary)
           in getSize_loop (sz + (fin - beg + 1)) rest boundary)"

definition getSize :: "block_range list \<Rightarrow> finite_range \<Rightarrow> int" where
  "getSize ranges boundary = getSize_loop 0 ranges boundary"

fun applyRangeBound :: "'r range_request list \<Rightarrow> block_range option \<Rightarrow> 'r range_request list" where
  "applyRangeBound requests None = requests"
| "applyRangeBound requests (Some rng) =
     concat (map (\<lambda>req. case rangeIntersection rng (rr_range req) of
         None \<Rightarrow> [] | Some i \<Rightarrow> [\<lparr>rr_range = i, rr_request = rr_request req\<rparr>]) requests)"

definition mapRangeRequestList :: "('t \<Rightarrow> 'r) \<Rightarrow> 't range_request list \<Rightarrow> 'r range_request list" where
  "mapRangeRequestList f requests =
     map (\<lambda>req. \<lparr>rr_range = rr_range req, rr_request = f (rr_request req)\<rparr>) requests"

definition rangeToArray :: "finite_range \<Rightarrow> int list" where
  "rangeToArray rng =
     map (\<lambda>i. ffrom rng + int i) [0 ..< nat (fto rng - ffrom rng + 1)]"

section \<open>Requests by height\<close>

fun getRequestAt :: "'r range_request list \<Rightarrow> int \<Rightarrow> 'r option" where
  "getRequestAt [] height = None"
| "getRequestAt (req # rest) height =
     (if rfrom (rr_range req) \<le> height \<and> Num height \<le> rangeEnd (rr_range req)
      then Some (rr_request req) else getRequestAt rest height)"

fun hasRequestsAfter :: "'r range_request list \<Rightarrow> int \<Rightarrow> bool" where
  "hasRequestsAfter [] height = False"
| "hasRequestsAfter (req # rest) height =
     (if Num height < rangeEnd (rr_range req) then True else hasRequestsAfter rest height)"

definition splitBlocksByRequest ::
    "'r range_request list \<Rightarrow> 'b list \<Rightarrow> ('b \<Rightarrow> int) \<Rightarrow> ('b list \<times> 'r option) list" where
  "splitBlocksByRequest requests blocks getBlockHeight =
     partitionBy blocks (\<lambda>b. getRequestAt requests (getBlockHeight b))"

text \<open>The gaps are yielded without a request. Inside a finite range every bounded request has an
  end, so the assertion on the previous request fails only when the list was not bounded.\<close>

fun splitRangeByRequest_loop ::
    "'r range_request option \<Rightarrow> 'r range_request list \<Rightarrow> (block_range \<times> 'r option) list result" where
  "splitRangeByRequest_loop prev [] = Inr []"
| "splitRangeByRequest_loop prev (req # rest) =
     rbind (case prev of
              None \<Rightarrow> Inr []
            | Some p \<Rightarrow>
                rbind (assertNotNull (rto (rr_range p))) (\<lambda>pt.
                  let from = pt + 1; to = rfrom (rr_range req) - 1
                  in Inr (if from \<le> to then [(\<lparr>rfrom = from, rto = Some to\<rparr>, None)] else [])))
       (\<lambda>gap. rbind (splitRangeByRequest_loop (Some req) rest)
          (\<lambda>tail. Inr (gap @ (rr_range req, Some (rr_request req)) # tail)))"

definition splitRangeByRequest ::
    "'r range_request list \<Rightarrow> finite_range \<Rightarrow> (block_range \<times> 'r option) list result" where
  "splitRangeByRequest requests rng =
     splitRangeByRequest_loop None
       (applyRangeBound requests (Some \<lparr>rfrom = ffrom rng, rto = Some (fto rng)\<rparr>))"

section \<open>Merging of requests\<close>

definition req_compare :: "'r range_request \<Rightarrow> 'r range_request \<Rightarrow> int" where
  "req_compare a b = by_key (\<lambda>q. rfrom (rr_range q)) a b"

definition push_pieces ::
    "block_range list \<Rightarrow> 'r \<Rightarrow> 'r range_request list \<Rightarrow> 'r range_request list" where
  "push_pieces ranges request heap =
     fold (\<lambda>r h. heap_push req_compare \<lparr>rr_range = r, rr_request = request\<rparr> h) ranges heap"

text \<open>One iteration that splits the overlap of \<open>top\<close> and \<open>req\<close>; the result is the new heap.\<close>

definition merge_overlap ::
    "('r \<Rightarrow> 'r \<Rightarrow> 'r) \<Rightarrow> 'r range_request \<Rightarrow> 'r range_request \<Rightarrow> block_range \<Rightarrow>
     'r range_request list \<Rightarrow> 'r range_request list" where
  "merge_overlap mrg tp req i heap =
     (let h1 = snd (heap_pop req_compare heap);
          h2 = push_pieces (rangeDifference (rr_range tp) i) (rr_request tp) h1;
          h3 = push_pieces (rangeDifference (rr_range req) i) (rr_request req) h2
      in heap_push req_compare \<lparr>rr_range = i, rr_request = mrg (rr_request tp) (rr_request req)\<rparr> h3)"

text \<open>The \<open>while\<close> loop; \<open>None\<close> is a loop that does not end.\<close>

partial_function (option) merge_loop ::
    "('r \<Rightarrow> 'r \<Rightarrow> 'r) \<Rightarrow> 'r range_request list \<Rightarrow> 'r range_request list \<Rightarrow> 'r range_request \<Rightarrow>
     'r range_request list result option" where
  "merge_loop mrg acc heap tp =
     (case heap_peek heap of
        None \<Rightarrow> Some (Inr (acc @ [tp]))
      | Some req \<Rightarrow>
          (case rangeIntersection (rr_range tp) (rr_range req) of
             None \<Rightarrow>
               (case heap_pop req_compare heap of
                  (None, h) \<Rightarrow> Some (Inl AssertionError)
                | (Some t, h) \<Rightarrow> merge_loop mrg (acc @ [tp]) h t)
           | Some i \<Rightarrow>
               (case heap_pop req_compare (merge_overlap mrg tp req i heap) of
                  (None, h) \<Rightarrow> Some (Inl AssertionError)
                | (Some t, h) \<Rightarrow> merge_loop mrg acc h t)))"

definition mergeRangeRequests ::
    "'r range_request list \<Rightarrow> ('r \<Rightarrow> 'r \<Rightarrow> 'r) \<Rightarrow> 'r range_request list result option" where
  "mergeRangeRequests requests mrg =
     (if length requests \<le> 1 then Some (Inr requests)
      else case heap_init req_compare requests of
             Inl e \<Rightarrow> Some (Inl e)
           | Inr heap \<Rightarrow>
               (case heap_pop req_compare heap of
                  (None, h) \<Rightarrow> Some (Inl TypeError)
                | (Some t, h) \<Rightarrow> merge_loop mrg [] h t))"

section \<open>Ranges as sets of heights\<close>

definition rset :: "block_range \<Rightarrow> int set" where
  "rset r = {h. rfrom r \<le> h \<and> Num h \<le> rangeEnd r}"

definition valid_range :: "block_range \<Rightarrow> bool" where
  "valid_range r \<longleftrightarrow> 0 \<le> rfrom r \<and> Num (rfrom r) \<le> rangeEnd r"

lemma mem_rset: "h \<in> rset r \<longleftrightarrow> rfrom r \<le> h \<and> Num h \<le> rangeEnd r"
  by (simp add: rset_def)

lemma rangeEnd_simps [simp]:
  "rto r = None \<Longrightarrow> rangeEnd r = Infinity" "rto r = Some t \<Longrightarrow> rangeEnd r = Num t"
  by (simp_all add: rangeEnd_def)

lemma rangeEnd_record [simp]:
  "rangeEnd \<lparr>rfrom = f, rto = None\<rparr> = Infinity" "rangeEnd \<lparr>rfrom = f, rto = Some t\<rparr> = Num t"
  by (simp_all add: rangeEnd_def)

lemma rangeIntersection_Some:
  assumes "rangeIntersection a b = Some i"
  shows "rfrom i = max (rfrom a) (rfrom b)" "rangeEnd i = min (rangeEnd a) (rangeEnd b)"
    "Num (rfrom i) \<le> rangeEnd i" "rto i = None \<longleftrightarrow> rto a = None \<and> rto b = None"
proof -
  show "rfrom i = max (rfrom a) (rfrom b)" "rangeEnd i = min (rangeEnd a) (rangeEnd b)"
    "Num (rfrom i) \<le> rangeEnd i"
    using assms by (cases "rto a"; cases "rto b";
        auto simp: rangeIntersection_def Let_def min_def max_def split: if_splits)+
  show "rto i = None \<longleftrightarrow> rto a = None \<and> rto b = None"
    using assms by (cases "rto a"; cases "rto b")
      (auto simp: rangeIntersection_def Let_def min_def split: if_splits)
qed

lemma rangeIntersection_sub:
  assumes "rfrom r \<le> rfrom i" "rangeEnd i \<le> rangeEnd r" "Num (rfrom i) \<le> rangeEnd i"
  shows "rangeIntersection r i = Some i"
proof -
  have "max (rfrom r) (rfrom i) = rfrom i" "min (rangeEnd r) (rangeEnd i) = rangeEnd i"
    using assms by (auto simp: max_def min_def)
  with assms(3) show ?thesis
    by (cases "rto i") (simp_all add: rangeIntersection_def Let_def not_less)
qed

lemma rangeIntersection_rset:
  "rangeIntersection a b = Some i \<Longrightarrow> rset i = rset a \<inter> rset b"
  using rangeIntersection_Some [of a b i] by (auto simp: rset_def)

lemma rangeIntersection_None:
  "rangeIntersection a b = None \<longleftrightarrow> min (rangeEnd a) (rangeEnd b) < Num (max (rfrom a) (rfrom b))"
  by (auto simp: rangeIntersection_def Let_def split: xnum.splits)

lemma rangeIntersection_None_rset: "rangeIntersection a b = None \<Longrightarrow> rset a \<inter> rset b = {}"
  unfolding rangeIntersection_None by (auto simp: rset_def min_less_iff_disj not_le [symmetric] max_def
      dest: order_trans split: if_splits) (meson less_eq_xnum.simps(3) order_trans)+

text \<open>The pieces of a difference and the overlap split the range: at every height exactly one of
  them is there, whatever is summed up.\<close>

definition at_height :: "int \<Rightarrow> block_range \<Rightarrow> 'm::comm_monoid_add \<Rightarrow> 'm" where
  "at_height h r m = (if h \<in> rset r then m else 0)"

lemma rangeDifference_at_height:
  assumes "valid_range a" "valid_range b" "rangeIntersection a b = Some i"
  shows "(\<Sum>p\<leftarrow>rangeDifference a b. at_height h p m) + at_height h i m = at_height h a m"
proof -
  note i = rangeIntersection_Some [OF assms(3)]
  show ?thesis
    using assms(1,2) i
    by (cases "rto a"; cases "rto b"; cases "rto i")
      (auto simp: rangeDifference_def assms(3) at_height_def mem_rset valid_range_def Let_def
        max_def min_def split: if_splits)
qed

lemma rangeDifference_valid:
  assumes "valid_range a" "valid_range b" "p \<in> set (rangeDifference a b)"
  shows "valid_range p" "rfrom a \<le> rfrom p"
    "rto p = None \<longrightarrow> rto a = None"
    "rto p = Some t \<Longrightarrow> rto a = Some t \<or> t = rfrom b - 1"
    "rfrom p = rfrom a \<or> (\<exists>t. rto b = Some t \<and> rfrom p = t + 1)"
proof -
  show "valid_range p" "rfrom a \<le> rfrom p" "rto p = None \<longrightarrow> rto a = None"
    "rto p = Some t \<Longrightarrow> rto a = Some t \<or> t = rfrom b - 1"
    "rfrom p = rfrom a \<or> (\<exists>t. rto b = Some t \<and> rfrom p = t + 1)"
    using assms
    by (cases "rto a"; cases "rto b"; auto simp: rangeDifference_def rangeIntersection_def
        valid_range_def Let_def max_def min_def split: if_splits option.splits xnum.splits)+
qed

section \<open>The merge\<close>

text \<open>
  \<open>merge_loop\<close> is correct from any state that satisfies \<open>merge_inv\<close>: the heap is a heap of
  valid ranges that start at \<open>top\<close> or later, and what was already emitted is in order and
  ends before \<open>top\<close>. All bounds are at most \<open>B\<close>, so that the number of heights up to \<open>B\<close> covered
  by the pending requests, counted with multiplicity, falls with every iteration.
\<close>

definition good_range :: "int \<Rightarrow> block_range \<Rightarrow> bool" where
  "good_range B r \<longleftrightarrow> valid_range r \<and> rfrom r \<le> B \<and> (\<forall>t. rto r = Some t \<longrightarrow> t < B)"

abbreviation req_key :: "'r range_request \<Rightarrow> int" where
  "req_key q \<equiv> rfrom (rr_range q)"

definition ordered :: "'r range_request list \<Rightarrow> bool" where
  "ordered = sorted_wrt (\<lambda>u w. rangeEnd (rr_range u) < Num (req_key w))"

definition merge_inv :: "int \<Rightarrow> 'r range_request list \<Rightarrow> 'r range_request list \<Rightarrow> 'r range_request \<Rightarrow> bool" where
  "merge_inv B acc heap tp \<longleftrightarrow> is_heap req_key heap \<and>
     (\<forall>q\<in>#add_mset tp (mset heap). good_range B (rr_range q) \<and> req_key tp \<le> req_key q) \<and>
     ordered acc \<and> (\<forall>u\<in>set acc. good_range B (rr_range u) \<and> rangeEnd (rr_range u) < Num (req_key tp))"

definition coverage :: "('r \<Rightarrow> 'm::comm_monoid_add) \<Rightarrow> int \<Rightarrow> 'r range_request multiset \<Rightarrow> 'm" where
  "coverage meas h M = (\<Sum>q\<in>#M. at_height h (rr_range q) (meas (rr_request q)))"

definition weight :: "int \<Rightarrow> 'r range_request multiset \<Rightarrow> nat" where
  "weight B M = (\<Sum>h\<in>{0..B}. coverage (\<lambda>_. 1) h M)"

lemma req_compare_eq: "req_compare = by_key req_key"
  by (intro ext) (simp add: req_compare_def)

lemma coverage_add [simp]:
  "coverage meas h (add_mset q M) = at_height h (rr_range q) (meas (rr_request q)) + coverage meas h M"
  "coverage meas h (M + N) = coverage meas h M + coverage meas h N"
  "coverage meas h {#} = 0"
  by (simp_all add: coverage_def)

lemma weight_add: "weight B (add_mset q M) = (\<Sum>h\<in>{0..B}. at_height h (rr_range q) 1) + weight B M"
  by (simp add: weight_def sum.distrib)

lemma weight_union: "weight B (M + N) = weight B M + weight B N"
  by (simp add: weight_def sum.distrib)

lemma at_height_add: "at_height h r (a + b) = at_height h r a + at_height h r b"
  by (simp add: at_height_def)

lemma weight_pos: "good_range B r \<Longrightarrow> 0 < (\<Sum>h\<in>{0..B}. at_height h r (1::nat))"
proof -
  assume "good_range B r"
  then have "rfrom r \<in> {0..B}" "rfrom r \<in> rset r"
    by (auto simp: good_range_def valid_range_def mem_rset)
  then have "(1::nat) \<le> (\<Sum>h\<in>{0..B}. at_height h r 1)"
    by (intro order_trans [OF _ member_le_sum [of "rfrom r"]]) (auto simp: at_height_def)
  then show ?thesis by simp
qed

text \<open>The pieces that an overlap is replaced by.\<close>

definition pieces :: "block_range list \<Rightarrow> 'r \<Rightarrow> 'r range_request multiset" where
  "pieces rs request = mset (map (\<lambda>r. \<lparr>rr_range = r, rr_request = request\<rparr>) rs)"

definition overlap_pieces ::
    "('r \<Rightarrow> 'r \<Rightarrow> 'r) \<Rightarrow> 'r range_request \<Rightarrow> 'r range_request \<Rightarrow> block_range \<Rightarrow> 'r range_request multiset" where
  "overlap_pieces mrg a b i =
     add_mset \<lparr>rr_range = i, rr_request = mrg (rr_request a) (rr_request b)\<rparr>
       (pieces (rangeDifference (rr_range a) i) (rr_request a) +
        pieces (rangeDifference (rr_range b) i) (rr_request b))"

lemma coverage_pieces: "coverage meas h (pieces rs q) = (\<Sum>p\<leftarrow>rs. at_height h p (meas q))"
  by (induction rs) (simp_all add: pieces_def)

lemma push_pieces:
  assumes "is_heap req_key heap"
  shows "is_heap req_key (push_pieces rs q heap)" "mset (push_pieces rs q heap) = pieces rs q + mset heap"
proof -
  have eq: "push_pieces rs q heap =
      fold (heap_push (by_key req_key)) (map (\<lambda>r. \<lparr>rr_range = r, rr_request = q\<rparr>) rs) heap"
    by (simp add: push_pieces_def fold_map req_compare_eq comp_def)
  show "is_heap req_key (push_pieces rs q heap)" "mset (push_pieces rs q heap) = pieces rs q + mset heap"
    unfolding eq pieces_def using heap.push_all [OF assms] by auto
qed

lemma merge_overlap:
  assumes "is_heap req_key heap" "heap_pop req_compare heap = (Some req, h1)"
  shows "is_heap req_key (merge_overlap mrg tp req i heap)"
    "add_mset req (mset (merge_overlap mrg tp req i heap)) = overlap_pieces mrg tp req i + mset heap"
proof -
  have h1: "is_heap req_key h1" "mset heap = add_mset req (mset h1)"
    using heap.pop_SomeD [OF assms(1)] assms(2) by (auto simp: req_compare_eq)
  have p: "snd (heap_pop (by_key req_key) heap) = h1" using assms(2) by (simp add: req_compare_eq)
  show "is_heap req_key (merge_overlap mrg tp req i heap)"
    using h1 by (simp add: merge_overlap_def Let_def p push_pieces req_compare_eq heap.push_inv)
  show "add_mset req (mset (merge_overlap mrg tp req i heap)) = overlap_pieces mrg tp req i + mset heap"
    using h1 by (simp add: merge_overlap_def overlap_pieces_def Let_def p push_pieces req_compare_eq heap.push_elems)
qed

lemma overlap_coverage:
  assumes "valid_range (rr_range a)" "valid_range (rr_range b)"
    "rangeIntersection (rr_range a) (rr_range b) = Some i"
    "\<And>x y. meas (mrg x y) = meas x + meas y"
  shows "coverage meas h (overlap_pieces mrg a b i) =
    at_height h (rr_range a) (meas (rr_request a)) + at_height h (rr_range b) (meas (rr_request b))"
proof -
  note i = rangeIntersection_Some [OF assms(3)]
  have vi: "valid_range i" using i assms(1,2) by (auto simp: valid_range_def)
  have self: "rangeIntersection r i = Some i" if "r = rr_range a \<or> r = rr_range b" for r
    using i that by (intro rangeIntersection_sub) auto
  have "(\<Sum>p\<leftarrow>rangeDifference r i. at_height h p m) + at_height h i m = at_height h r m"
    if "r = rr_range a \<or> r = rr_range b" for r and m :: 'b
    using rangeDifference_at_height [OF _ vi self [OF that], of h m] that assms(1,2) by blast
  from this [of "rr_range a" "meas (rr_request a)"] this [of "rr_range b" "meas (rr_request b)"]
  have eq: "(\<Sum>p\<leftarrow>rangeDifference (rr_range a) i. at_height h p (meas (rr_request a))) + at_height h i (meas (rr_request a)) =
        at_height h (rr_range a) (meas (rr_request a))"
    "(\<Sum>p\<leftarrow>rangeDifference (rr_range b) i. at_height h p (meas (rr_request b))) + at_height h i (meas (rr_request b)) =
        at_height h (rr_range b) (meas (rr_request b))"
    by simp_all
  show ?thesis
    by (simp add: overlap_pieces_def coverage_pieces assms(4) at_height_add ac_simps flip: eq)
qed

lemma overlap_good:
  assumes "good_range B (rr_range a)" "good_range B (rr_range b)"
    "rangeIntersection (rr_range a) (rr_range b) = Some i" "req_key a \<le> req_key b"
    "q \<in># overlap_pieces mrg a b i"
  shows "good_range B (rr_range q)" "req_key a \<le> req_key q"
proof -
  note i = rangeIntersection_Some [OF assms(3)]
  have gi: "good_range B i"
    using i assms(1,2) by (cases "rto i"; cases "rto (rr_range a)"; cases "rto (rr_range b)")
      (auto simp: good_range_def valid_range_def min_def split: if_splits)
  have ia: "req_key a \<le> rfrom i" "rfrom i \<le> B" using i gi by (auto simp: good_range_def)
  have piece: "good_range B p \<and> req_key a \<le> rfrom p"
    if "p \<in> set (rangeDifference r i)" "r = rr_range a \<or> r = rr_range b" for p r
  proof -
    have r: "good_range B r" "req_key a \<le> rfrom r" using that(2) assms(1,2,4) by auto
    note d = rangeDifference_valid [OF _ _ that(1)]
    have v: "valid_range r" "valid_range i" using r gi by (auto simp: good_range_def)
    have "t < B" if "rto p = Some t" for t
      using d(4) [OF v that] r ia by (auto simp: good_range_def)
    moreover have "rfrom p \<le> B"
      using d(5) [OF v] r gi by (auto simp: good_range_def)
    ultimately show ?thesis using d(1,2) [OF v] r by (auto simp: good_range_def)
  qed
  show "good_range B (rr_range q)" "req_key a \<le> req_key q"
    using assms(5) gi ia piece by (auto simp: overlap_pieces_def pieces_def)
qed

lemma overlap_weight:
  assumes "good_range B (rr_range a)" "good_range B (rr_range b)"
    "rangeIntersection (rr_range a) (rr_range b) = Some i"
  shows "weight B (overlap_pieces mrg a b i) + (\<Sum>h\<in>{0..B}. at_height h i 1) =
    (\<Sum>h\<in>{0..B}. at_height h (rr_range a) 1) + (\<Sum>h\<in>{0..B}. at_height h (rr_range b) 1)"
proof -
  note i = rangeIntersection_Some [OF assms(3)]
  have v: "valid_range (rr_range a)" "valid_range (rr_range b)" "valid_range i"
    using i assms(1,2) by (auto simp: good_range_def valid_range_def)
  have "coverage (\<lambda>_. 1) h (overlap_pieces mrg a b i) + at_height h i 1 =
      at_height h (rr_range a) 1 + at_height h (rr_range b) (1::nat)" for h
  proof -
    have "(\<Sum>p\<leftarrow>rangeDifference r i. at_height h p 1) + at_height h i 1 = at_height h r (1::nat)"
      if "r = rr_range a \<or> r = rr_range b" for r
      using i that v by (intro rangeDifference_at_height rangeIntersection_sub) auto
    from this [of "rr_range a"] this [of "rr_range b"]
    show ?thesis by (simp add: overlap_pieces_def coverage_pieces)
  qed
  then show ?thesis by (simp add: weight_def flip: sum.distrib)
qed

lemma merge_loop_total:
  fixes meas :: "'r \<Rightarrow> 'm::comm_monoid_add"
  assumes meas: "\<And>x y. meas (mrg x y) = meas x + meas y"
  shows "merge_inv B acc heap tp \<Longrightarrow>
     \<exists>r. merge_loop mrg acc heap tp = Some (Inr r) \<and> ordered r \<and> (\<forall>q\<in>set r. good_range B (rr_range q)) \<and>
       (\<forall>h. coverage meas h (mset r) = coverage meas h (mset acc + add_mset tp (mset heap)))"
proof (induction "weight B (add_mset tp (mset heap))" arbitrary: acc heap tp rule: less_induct)
  case less
  note inv = less.prems
  have hp: "is_heap req_key heap" and good: "\<And>q. q \<in># add_mset tp (mset heap) \<Longrightarrow> good_range B (rr_range q)"
    and least: "\<And>q. q \<in># add_mset tp (mset heap) \<Longrightarrow> req_key tp \<le> req_key q"
    and ord: "ordered acc" and before: "\<And>u. u \<in> set acc \<Longrightarrow> rangeEnd (rr_range u) < Num (req_key tp)"
    and acc: "\<And>u. u \<in> set acc \<Longrightarrow> good_range B (rr_range u)"
    using inv by (auto simp: merge_inv_def)
  show ?case
  proof (cases "heap_peek heap")
    case None
    then have "heap = []" by (simp add: heap_peek_def split: if_splits)
    moreover have "ordered (acc @ [tp])" using ord before by (auto simp: ordered_def sorted_wrt_append)
    ultimately show ?thesis using None acc good by (subst merge_loop.simps) (auto simp: union_commute)
  next
    case (Some req)
    then obtain h1 where pop: "heap_pop req_compare heap = (Some req, h1)"
      unfolding req_compare_eq by (rule heap.peek_SomeE [OF hp])
    then have h1: "is_heap req_key h1" "mset heap = add_mset req (mset h1)"
      and min: "\<And>q. q \<in># mset heap \<Longrightarrow> req_key req \<le> req_key q"
      using heap.pop_SomeD [OF hp pop [unfolded req_compare_eq]] by simp_all
    show ?thesis
    proof (cases "rangeIntersection (rr_range tp) (rr_range req)")
      case None
      have "valid_range (rr_range req)" "valid_range (rr_range tp)" "req_key tp \<le> req_key req"
        using good [of req] good [of tp] least [of req] h1 by (auto simp: good_range_def)
      then have gap: "rangeEnd (rr_range tp) < Num (req_key req)"
        using None by (auto simp: rangeIntersection_None valid_range_def max_def min_less_iff_disj not_less)
      have inv': "merge_inv B (acc @ [tp]) h1 req"
        unfolding merge_inv_def
      proof (intro conjI ballI)
        show "is_heap req_key h1" by (rule h1)
        show "ordered (acc @ [tp])" using ord before by (auto simp: ordered_def sorted_wrt_append)
        fix q assume q: "q \<in># add_mset req (mset h1)"
        show "good_range B (rr_range q)" using good [of q] q h1 by auto
        show "req_key req \<le> req_key q" using min [of q] q h1 by auto
      next
        fix u assume u: "u \<in> set (acc @ [tp])"
        then show "good_range B (rr_range u)" using acc good by auto
        have "Num (req_key tp) \<le> Num (req_key req)" using \<open>req_key tp \<le> req_key req\<close> by simp
        with u show "rangeEnd (rr_range u) < Num (req_key req)"
          using gap less_le_trans [OF before, of u] by (cases "u \<in> set acc") auto
      qed
      have "weight B (add_mset req (mset h1)) < weight B (add_mset tp (mset heap))"
        using weight_pos [OF good [of tp]] h1 by (simp add: weight_add)
      from less.hyps [OF this inv'] obtain r where r: "merge_loop mrg (acc @ [tp]) h1 req = Some (Inr r)"
        "ordered r" "\<forall>q\<in>set r. good_range B (rr_range q)"
        "\<forall>h. coverage meas h (mset r) = coverage meas h (mset (acc @ [tp]) + add_mset req (mset h1))"
        by blast
      have "merge_loop mrg acc heap tp = Some (Inr r)"
        using r(1) Some None pop by (subst merge_loop.simps) simp
      with r show ?thesis by (auto simp: h1 algebra_simps)
    next
      case i: (Some i)
      let ?hp = "merge_overlap mrg tp req i heap"
      note mo = merge_overlap [OF hp pop, of mrg tp i]
      have ms: "mset ?hp = overlap_pieces mrg tp req i + mset h1" using mo(2) h1 by simp
      then have "?hp \<noteq> []" by (auto simp: overlap_pieces_def)
      then obtain t h2 where pop2: "heap_pop req_compare ?hp = (Some t, h2)"
        by (cases "heap_pop req_compare ?hp") (auto simp: heap_pop_def Let_def split: if_splits)
      have h2: "is_heap req_key h2" "mset ?hp = add_mset t (mset h2)"
        and min2: "\<And>q. q \<in># mset ?hp \<Longrightarrow> req_key t \<le> req_key q"
        using heap.pop_SomeD [OF mo(1) pop2 [unfolded req_compare_eq]] by simp_all
      have gt: "good_range B (rr_range tp)" "good_range B (rr_range req)" "req_key tp \<le> req_key req"
        using good [of tp] good [of req] least [of req] h1 by auto
      have inner: "good_range B (rr_range q) \<and> req_key tp \<le> req_key q" if "q \<in># mset ?hp" for q
      proof (cases "q \<in># mset h1")
        case True
        then show ?thesis using good [of q] least [of q] h1 by auto
      next
        case False
        then have "q \<in># overlap_pieces mrg tp req i" using that ms by auto
        then show ?thesis using overlap_good [OF gt(1,2) i gt(3)] by auto
      qed
      have inv': "merge_inv B acc h2 t"
        unfolding merge_inv_def
      proof (intro conjI ballI)
        show "is_heap req_key h2" by (rule h2)
        show "ordered acc" by (rule ord)
        fix q assume q: "q \<in># add_mset t (mset h2)"
        then have "q \<in># mset ?hp" using h2 by simp
        then show "good_range B (rr_range q)" "req_key t \<le> req_key q" using inner min2 by auto
      next
        fix u assume u: "u \<in> set acc"
        then show "good_range B (rr_range u)" using acc by auto
        have "Num (req_key tp) \<le> Num (req_key t)" using inner [of t] h2 by simp
        then show "rangeEnd (rr_range u) < Num (req_key t)" using before [OF u] by (rule less_le_trans [rotated])
      qed
      have gi: "good_range B i" using overlap_good(1) [OF gt(1,2) i gt(3)] by (force simp: overlap_pieces_def)
      have "weight B (add_mset t (mset h2)) = weight B (overlap_pieces mrg tp req i) + weight B (mset h1)"
        by (simp only: weight_union ms flip: h2(2))
      then have "weight B (add_mset t (mset h2)) < weight B (add_mset tp (mset heap))"
        using overlap_weight [OF gt(1,2) i, of mrg] weight_pos [OF gi] h1 by (simp add: weight_add)
      from less.hyps [OF this inv'] obtain r where r: "merge_loop mrg acc h2 t = Some (Inr r)"
        "ordered r" "\<forall>q\<in>set r. good_range B (rr_range q)"
        "\<forall>h. coverage meas h (mset r) = coverage meas h (mset acc + add_mset t (mset h2))"
        by blast
      have res: "merge_loop mrg acc heap tp = Some (Inr r)"
        using r(1) Some i pop2 by (subst merge_loop.simps) simp
      have ceq: "coverage meas h (add_mset t (mset h2)) = coverage meas h (add_mset tp (mset heap))" for h
      proof -
        have "add_mset t (mset h2) = overlap_pieces mrg tp req i + mset h1" using h2 ms by simp
        then show ?thesis
          using overlap_coverage [OF _ _ i, of meas mrg h] gt meas h1 by (simp add: good_range_def algebra_simps)
      qed
      have "coverage meas h (mset r) = coverage meas h (mset acc + add_mset tp (mset heap))" for h
        by (simp only: spec [OF r(4)] coverage_add(2) ceq)
      with res r(2,3) show ?thesis by blast
    qed
  qed
qed

section \<open>Ordered lists of requests\<close>

text \<open>The requests that can be merged without leaving the safe integers.\<close>

abbreviation safe_range :: "block_range \<Rightarrow> bool" where
  "safe_range \<equiv> good_range MAX_SAFE_INTEGER"

lemma safe_range_assertRange: "safe_range r \<Longrightarrow> assertRange r = Inr ()"
  by (cases "rto r")
    (auto simp: good_range_def valid_range_def assertRange_def isSafeInteger_def MAX_SAFE_INTEGER_def)

lemma ordered_assertRangeList:
  "ordered rs \<Longrightarrow> \<forall>q\<in>set rs. safe_range (rr_range q) \<Longrightarrow> assertRangeList (map rr_range rs) = Inr ()"
proof -
  have loop: "sorted_wrt (\<lambda>u w. rangeEnd (rr_range u) < Num (req_key w)) (q # rs) \<Longrightarrow>
      \<forall>q\<in>set (q # rs). safe_range (rr_range q) \<Longrightarrow> assertRangeList_loop (rr_range q) (map rr_range rs) = Inr ()"
    for q :: "'a range_request" and rs
    by (induction rs arbitrary: q) (auto simp: safe_range_assertRange js_assert_def)
  show "ordered rs \<Longrightarrow> \<forall>q\<in>set rs. safe_range (rr_range q) \<Longrightarrow> assertRangeList (map rr_range rs) = Inr ()"
    using loop by (cases rs) (auto simp: ordered_def safe_range_assertRange)
qed

lemma ordered_coverage:
  "ordered rs \<Longrightarrow> coverage meas h (mset rs) = (case getRequestAt rs h of None \<Rightarrow> 0 | Some q \<Rightarrow> meas q)"
proof (induction rs)
  case Nil
  then show ?case by simp
next
  case (Cons r rs)
  have rest: "coverage meas h (mset rs) = 0" if "h \<in> rset (rr_range r)"
  proof -
    have "h \<notin> rset (rr_range q)" if "q \<in> set rs" for q
    proof -
      have "rangeEnd (rr_range r) < Num (req_key q)" using Cons.prems that by (auto simp: ordered_def)
      then have "Num h < Num (req_key q)"
        using \<open>h \<in> rset (rr_range r)\<close> by (auto simp: mem_rset simp del: xnum_less_simps intro: le_less_trans)
      then show ?thesis by (simp add: mem_rset)
    qed
    then have "image_mset (\<lambda>q. at_height h (rr_range q) (meas (rr_request q))) (mset rs) = image_mset (\<lambda>_. 0) (mset rs)"
      by (intro image_mset_cong) (auto simp: at_height_def)
    then show ?thesis by (simp add: coverage_def)
  qed
  have "ordered rs" using Cons.prems by (simp add: ordered_def)
  with Cons.IH rest show ?case by (auto simp: at_height_def mem_rset)
qed

lemma coverage_mset: "coverage meas h (mset qs) = (\<Sum>q\<leftarrow>qs. at_height h (rr_range q) (meas (rr_request q)))"
  by (induction qs) simp_all

lemma mergeRangeRequests_total:
  fixes meas :: "'r \<Rightarrow> 'm::comm_monoid_add"
  assumes meas: "\<And>x y. meas (mrg x y) = meas x + meas y"
    and safe: "\<forall>q\<in>set requests. safe_range (rr_range q)" and len: "length requests < 2 ^ 32"
  shows "\<exists>r. mergeRangeRequests requests mrg = Some (Inr r) \<and> ordered r \<and>
    (\<forall>q\<in>set r. safe_range (rr_range q)) \<and> (\<forall>h. coverage meas h (mset r) = coverage meas h (mset requests))"
proof (cases "length requests \<le> 1")
  case True
  then have "ordered requests" by (cases requests) (auto simp: ordered_def)
  with True safe show ?thesis by (simp add: mergeRangeRequests_def)
next
  case False
  then obtain heap where heap: "heap_init req_compare requests = Inr heap" "is_heap req_key heap"
    "mset heap = mset requests"
    using heap_init_ok [of requests req_key] len by (auto simp: req_compare_eq)
  then have "heap \<noteq> []" using False by (metis le_zero_eq length_0_conv size_mset zero_le_one)
  then obtain t h where pop: "heap_pop req_compare heap = (Some t, h)"
    by (cases "heap_pop req_compare heap") (auto simp: heap_pop_def Let_def split: if_splits)
  note p = heap.pop_SomeD [OF heap(2) pop [unfolded req_compare_eq]]
  have "merge_inv MAX_SAFE_INTEGER [] h t"
    unfolding merge_inv_def
  proof (intro conjI ballI)
    show "is_heap req_key h" by (rule p)
    show "ordered []" by (simp add: ordered_def)
    fix q assume q: "q \<in># add_mset t (mset h)"
    then have "q \<in># mset heap" using p(2) by simp
    then show "req_key t \<le> req_key q" by (rule p(3))
    from \<open>q \<in># mset heap\<close> show "safe_range (rr_range q)" using heap(3) safe by (metis set_mset_mset)
  qed auto
  from merge_loop_total [OF meas this] obtain r where r: "merge_loop mrg [] h t = Some (Inr r)" "ordered r"
    "\<forall>q\<in>set r. safe_range (rr_range q)" "\<forall>k. coverage meas k (mset r) = coverage meas k (add_mset t (mset h))"
    by auto
  have "mergeRangeRequests requests mrg = Some (Inr r)"
    using False heap pop r by (simp add: mergeRangeRequests_def)
  with r p(2) heap(3) show ?thesis by auto
qed

section \<open>Size of a list of ranges\<close>

lemma getSize_loop_card:
  assumes "ffrom b \<le> fto b"
  shows "sorted_wrt (\<lambda>u w. rangeEnd u < Num (rfrom w)) rs \<Longrightarrow> \<forall>r\<in>set rs. valid_range r \<Longrightarrow>
     getSize_loop s rs b = s + int (card (\<Union>(rset ` set rs) \<inter> {ffrom b..fto b}))"
proof (induction rs arbitrary: s)
  case Nil
  then show ?case by simp
next
  case (Cons r rs)
  let ?I = "{ffrom b..fto b}" and ?U = "\<Union>(rset ` set rs)"
  have IH: "getSize_loop s' rs b = s' + int (card (?U \<inter> ?I))" for s'
    using Cons by auto
  have later: "rangeEnd r < Num h" if "h \<in> ?U" for h
  proof -
    from that obtain q where q: "q \<in> set rs" "rfrom q \<le> h" by (auto simp: mem_rset)
    then have "rangeEnd r < Num (rfrom q)" using Cons.prems by auto
    also have "Num (rfrom q) \<le> Num h" using q by simp
    finally show ?thesis .
  qed
  have disj: "rset r \<inter> ?U = {}" using later by (fastforce simp: mem_rset)
  have "card (\<Union>(rset ` set (r # rs)) \<inter> ?I) = card (rset r \<inter> ?I) + card (?U \<inter> ?I)"
    using disj by (subst card_Un_disjoint [symmetric]) (auto intro: arg_cong [where f = card])
  moreover have "int (card (rset r \<inter> ?I)) =
      (if fto b < rfrom r \<or> rangeEnd r < Num (ffrom b) then 0
       else (case rangeEnd r of Num e \<Rightarrow> min (fto b) e | Infinity \<Rightarrow> fto b) - max (ffrom b) (rfrom r) + 1)"
  proof (cases "rangeEnd r")
    case (Num e)
    then have "rset r \<inter> ?I = {max (ffrom b) (rfrom r)..min (fto b) e}" by (auto simp: mem_rset)
    moreover have "rfrom r \<le> e" using Cons.prems Num by (auto simp: valid_range_def)
    ultimately show ?thesis using Num assms by (auto simp: max_def min_def)
  next
    case Infinity
    then have "rset r \<inter> ?I = {max (ffrom b) (rfrom r)..fto b}" by (auto simp: mem_rset)
    with Infinity assms show ?thesis by (auto simp: max_def)
  qed
  moreover have "?U \<inter> ?I = {}" if "fto b < rfrom r"
  proof -
    have "Num (rfrom r) \<le> rangeEnd r" using Cons.prems by (auto simp: valid_range_def)
    then have "Num (fto b) < Num h" if "h \<in> ?U" for h
      using later [OF that] \<open>fto b < rfrom r\<close> by (meson le_less_trans less_le_trans order_less_imp_le xnum_less_simps(1))
    then show ?thesis by fastforce
  qed
  ultimately show ?case by (auto simp: IH Let_def)
qed

section \<open>Bounded requests\<close>

lemma getRequestAt_bound:
  "getRequestAt (applyRangeBound requests (Some r)) h = (if h \<in> rset r then getRequestAt requests h else None)"
proof (induction requests)
  case Nil
  then show ?case by simp
next
  case (Cons q qs)
  show ?case
  proof (cases "rangeIntersection r (rr_range q)")
    case None
    with Cons rangeIntersection_None_rset [OF None] show ?thesis by (auto simp: mem_rset)
  next
    case (Some i)
    with Cons rangeIntersection_rset [OF Some] show ?thesis by (auto simp: mem_rset set_eq_iff)
  qed
qed

section \<open>Properties\<close>

lemma safe_rangeI:
  assumes "isRange r \<and> rangeEnd r \<noteq> Num MAX_SAFE_INTEGER \<and> rfrom r < MAX_SAFE_INTEGER"
  shows "safe_range r"
  using assms by (cases "rto r") (auto simp: isRange_def good_range_def valid_range_def isSafeInteger_def MAX_SAFE_INTEGER_def)

text \<open>C14: Merging range requests always ends and never throws on well-formed ranges; the result is an
  ordered list of disjoint well-formed ranges, and at every height the request found in it is
  the combination of exactly the requests that covered the height: whatever a request measures
  (its set of handlers, its number), the measure is neither lost nor counted twice.\<close>

theorem mergeRangeRequests_merges:
  fixes meas :: "'r \<Rightarrow> 'm::comm_monoid_add"
  assumes "\<And>x y. meas (mrg x y) = meas x + meas y"
    and "\<forall>q\<in>set requests. isRange (rr_range q) \<and> rangeEnd (rr_range q) \<noteq> Num MAX_SAFE_INTEGER \<and>
      rfrom (rr_range q) < MAX_SAFE_INTEGER"
    and "length requests < 2 ^ 32"
  shows "\<exists>r. mergeRangeRequests requests mrg = Some (Inr r) \<and> assertRangeList (map rr_range r) = Inr () \<and>
    (\<forall>h. (case getRequestAt r h of None \<Rightarrow> 0 | Some q \<Rightarrow> meas q) =
      (\<Sum>q\<leftarrow>requests. at_height h (rr_range q) (meas (rr_request q))))"
proof -
  have "\<forall>q\<in>set requests. safe_range (rr_range q)"
    using assms(2) safe_rangeI by blast
  from mergeRangeRequests_total [OF assms(1) this assms(3)] obtain r where
    r: "mergeRangeRequests requests mrg = Some (Inr r)" "ordered r" "\<forall>q\<in>set r. safe_range (rr_range q)"
      "\<forall>h. coverage meas h (mset r) = coverage meas h (mset requests)" by blast
  then have "assertRangeList (map rr_range r) = Inr ()" by (intro ordered_assertRangeList)
  with r show ?thesis using ordered_coverage [OF r(2), of meas] coverage_mset [of meas _ requests] by auto
qed

lemma mergeRangeRequests_merges_witness:
  "\<exists>r. mergeRangeRequests [\<lparr>rr_range = \<lparr>rfrom = 0, rto = Some 10\<rparr>, rr_request = [1::nat]\<rparr>,
        \<lparr>rr_range = \<lparr>rfrom = 5, rto = None\<rparr>, rr_request = [2]\<rparr>] (@) = Some (Inr r) \<and>
    assertRangeList (map rr_range r) = Inr () \<and>
    (\<forall>h. (case getRequestAt r h of None \<Rightarrow> 0 | Some q \<Rightarrow> mset q) =
      (\<Sum>q\<leftarrow>[\<lparr>rr_range = \<lparr>rfrom = 0, rto = Some 10\<rparr>, rr_request = [1::nat]\<rparr>,
        \<lparr>rr_range = \<lparr>rfrom = 5, rto = None\<rparr>, rr_request = [2]\<rparr>]. at_height h (rr_range q) (mset (rr_request q))))"
  by (rule mergeRangeRequests_merges)
    (simp_all add: isRange_def isSafeInteger_def MAX_SAFE_INTEGER_def)

text \<open>The difference of two ranges is exact: its pieces are well-formed ranges that are disjoint and
  cover the heights of the first range that are not in the second, and no others.\<close>

theorem rangeDifference_exact:
  assumes "valid_range a" "valid_range b"
  shows "\<Union>(rset ` set (rangeDifference a b)) = rset a - rset b \<and>
    sorted_wrt (\<lambda>p q. rset p \<inter> rset q = {}) (rangeDifference a b) \<and>
    (\<forall>p\<in>set (rangeDifference a b). valid_range p)"
proof (intro conjI ballI)
  show "valid_range p" if "p \<in> set (rangeDifference a b)" for p
    using rangeDifference_valid(1) [OF assms that] .
  show "\<Union>(rset ` set (rangeDifference a b)) = rset a - rset b"
  proof (cases "rangeIntersection a b")
    case None
    with rangeIntersection_None_rset [OF None] show ?thesis by (auto simp: rangeDifference_def)
  next
    case (Some i)
    have r: "rset i = rset a \<inter> rset b" using rangeIntersection_rset [OF Some] .
    have "h \<in> \<Union>(rset ` set (rangeDifference a b)) \<longleftrightarrow> h \<in> rset a - rset b" for h
    proof -
      have e: "(\<Sum>p\<leftarrow>rangeDifference a b. at_height h p (1::nat)) + at_height h i 1 = at_height h a 1"
        by (rule rangeDifference_at_height [OF assms Some])
      have p: "0 < (\<Sum>p\<leftarrow>ps. at_height h p (1::nat)) \<longleftrightarrow> h \<in> \<Union>(rset ` set ps)" for ps
        by (induction ps) (auto simp: at_height_def)
      show ?thesis unfolding p [symmetric] using e r by (auto simp: at_height_def split: if_splits)
    qed
    then show ?thesis by blast
  qed
  show "sorted_wrt (\<lambda>p q. rset p \<inter> rset q = {}) (rangeDifference a b)"
  proof (cases "rangeIntersection a b")
    case None
    then show ?thesis by (simp add: rangeDifference_def)
  next
    case (Some i)
    then show ?thesis
      using rangeIntersection_Some(3) [OF Some]
      by (auto simp: rangeDifference_def mem_rset Let_def split: option.splits)
  qed
qed

lemma rangeDifference_exact_witness:
  "\<Union>(rset ` set (rangeDifference \<lparr>rfrom = 0, rto = Some 9\<rparr> \<lparr>rfrom = 3, rto = Some 5\<rparr>)) =
      rset \<lparr>rfrom = 0, rto = Some 9\<rparr> - rset \<lparr>rfrom = 3, rto = Some 5\<rparr> \<and>
    sorted_wrt (\<lambda>p q. rset p \<inter> rset q = {}) (rangeDifference \<lparr>rfrom = 0, rto = Some 9\<rparr> \<lparr>rfrom = 3, rto = Some 5\<rparr>) \<and>
    list_all valid_range (rangeDifference \<lparr>rfrom = 0, rto = Some 9\<rparr> \<lparr>rfrom = 3, rto = Some 5\<rparr>)"
  using rangeDifference_exact [of "\<lparr>rfrom = 0, rto = Some 9\<rparr>" "\<lparr>rfrom = 3, rto = Some 5\<rparr>"]
  by (simp add: valid_range_def list_all_iff)

lemma assertRange_valid: "assertRange r = Inr () \<Longrightarrow> valid_range r"
  by (auto simp: assertRange_def valid_range_def js_assert_def split: if_splits)

lemma assertRangeList_loop_sorted:
  "assertRangeList_loop prev rs = Inr () \<Longrightarrow> valid_range prev \<Longrightarrow>
    sorted_wrt (\<lambda>u w. rangeEnd u < Num (rfrom w)) (prev # rs) \<and> (\<forall>r\<in>set rs. valid_range r)"
proof (induction rs arbitrary: prev)
  case (Cons r rs)
  then have r: "valid_range r" "rangeEnd prev < Num (rfrom r)" "assertRangeList_loop r rs = Inr ()"
    by (auto simp: js_assert_def result_simps assertRange_valid split: if_splits)
  note IH = Cons.IH [OF r(3,1)]
  have "rangeEnd prev < Num (rfrom q)" if "q \<in> set rs" for q
  proof -
    have "Num (rfrom r) \<le> rangeEnd r" using r(1) by (simp add: valid_range_def)
    also have "rangeEnd r < Num (rfrom q)" using IH that by simp
    finally show ?thesis using r(2) by (rule_tac less_trans)
  qed
  with IH r show ?case by auto
qed simp

lemma assertRangeList_sorted:
  "assertRangeList rs = Inr () \<Longrightarrow>
    sorted_wrt (\<lambda>u w. rangeEnd u < Num (rfrom w)) rs \<and> (\<forall>r\<in>set rs. valid_range r)"
  using assertRangeList_loop_sorted [of "hd rs" "tl rs"]
  by (cases rs) (auto simp: result_simps assertRange_valid)

text \<open>The size of a range list that passes \<open>assertRangeList\<close> within a boundary is the number of heights
  of the boundary that some range of the list contains.\<close>

theorem getSize_counts:
  assumes "assertRangeList ranges = Inr ()" "ffrom b \<le> fto b"
  shows "getSize ranges b = int (card (\<Union>(rset ` set ranges) \<inter> {ffrom b..fto b}))"
  using getSize_loop_card [OF assms(2), of ranges 0] assertRangeList_sorted [OF assms(1)]
  by (simp add: getSize_def)

lemma getSize_counts_witness:
  "getSize [\<lparr>rfrom = 0, rto = Some 3\<rparr>, \<lparr>rfrom = 7, rto = None\<rparr>] \<lparr>ffrom = 2, fto = 8\<rparr> =
    int (card (\<Union>(rset ` set [\<lparr>rfrom = 0, rto = Some 3\<rparr>, \<lparr>rfrom = 7, rto = None\<rparr>]) \<inter>
      {ffrom \<lparr>ffrom = 2, fto = 8\<rparr>..fto \<lparr>ffrom = 2, fto = 8\<rparr>}))"
  by (rule getSize_counts) (simp_all add: assertRange_def js_assert_def isSafeInteger_def)

text \<open>Bounding a list of requests by a range changes nothing inside the range and leaves no request
  outside of it, at every height.\<close>

theorem applyRangeBound_restricts:
  "getRequestAt (applyRangeBound requests (Some r)) h = (if h \<in> rset r then getRequestAt requests h else None)"
  by (rule getRequestAt_bound)

lemma slices_from_le: "slices_from m b e ps \<Longrightarrow> b \<le> e"
  by (induction m b e ps rule: slices_from.induct) auto

lemma rangeToArray_append:
  "b \<le> y \<Longrightarrow> y \<le> e \<Longrightarrow>
    rangeToArray \<lparr>ffrom = b, fto = y - 1\<rparr> @ rangeToArray \<lparr>ffrom = y, fto = e - 1\<rparr> = rangeToArray \<lparr>ffrom = b, fto = e - 1\<rparr>"
  by (rule nth_equalityI) (auto simp: rangeToArray_def nth_append)

lemma slices_arrays:
  "slices_from m b e ps \<Longrightarrow> b \<le> e \<Longrightarrow>
    concat (map (\<lambda>(x, y). rangeToArray \<lparr>ffrom = x, fto = y - 1\<rparr>) ps) = rangeToArray \<lparr>ffrom = b, fto = e - 1\<rparr> \<and>
    (\<forall>(x, y)\<in>set ps. x < y \<and> y - x \<le> m)"
proof (induction ps arbitrary: b)
  case Nil
  then show ?case by (simp add: rangeToArray_def)
next
  case (Cons p ps)
  obtain x y where p: "p = (x, y)" by (cases p)
  with Cons.prems have s: "x = b" "b < y" "y - b \<le> m" "slices_from m y e ps" by auto
  note le = slices_from_le [OF s(4)]
  have "rangeToArray \<lparr>ffrom = b, fto = y - 1\<rparr> @ rangeToArray \<lparr>ffrom = y, fto = e - 1\<rparr> = rangeToArray \<lparr>ffrom = b, fto = e - 1\<rparr>"
    using s(2) le by (intro rangeToArray_append) auto
  with Cons.IH [OF s(4) le] p s show ?case by simp
qed

text \<open>Splitting a finite range yields consecutive ranges, none empty and none above the maximal size,
  whose heights in order are the heights of the range.\<close>

theorem splitRange_partitions:
  assumes "1 \<le> maxSize" "f \<le> t"
  shows "\<exists>ps. splitRange maxSize \<lparr>rfrom = f, rto = Some t\<rparr> = Inr ps \<and>
    concat (map rangeToArray ps) = rangeToArray \<lparr>ffrom = f, fto = t\<rparr> \<and>
    (\<forall>p\<in>set ps. ffrom p \<le> fto p \<and> fto p - ffrom p + 1 \<le> maxSize)"
proof -
  let ?ps = "splitSlice_loop maxSize f (t + 1)"
  have s: "slices_from maxSize f (t + 1) ?ps" using assms by (intro splitSlice_loop_slices) auto
  have "splitRange maxSize \<lparr>rfrom = f, rto = Some t\<rparr> = Inr (map (\<lambda>(beg, fin). \<lparr>ffrom = beg, fto = fin - 1\<rparr>) ?ps)"
    using assms by (simp add: splitRange_def splitSlice_def js_assert_def)
  moreover have "concat (map rangeToArray (map (\<lambda>(beg, fin). \<lparr>ffrom = beg, fto = fin - 1\<rparr>) ?ps)) = rangeToArray \<lparr>ffrom = f, fto = t\<rparr>"
    using slices_arrays [OF s] assms by (simp add: comp_def case_prod_unfold)
  ultimately show ?thesis using slices_arrays [OF s] assms by (auto intro!: exI)
qed

lemma splitRange_partitions_witness:
  "\<exists>ps. splitRange 4 \<lparr>rfrom = 0, rto = Some 9\<rparr> = Inr ps \<and>
    concat (map rangeToArray ps) = rangeToArray \<lparr>ffrom = 0, fto = 9\<rparr> \<and>
    list_all (\<lambda>p. ffrom p \<le> fto p \<and> fto p - ffrom p + 1 \<le> 4) ps"
  using splitRange_partitions [of 4 0 9] by (simp add: list_all_iff)

end
