(* ===== verification/Js_Values.thy ===== *)
theory Js_Values
  imports Prelude
begin

text \<open>
  The dynamic values that the codecs take and return, and the text encodings they use.

  A string is the list of its Unicode code points (a well-formed string, without lone
  surrogates); \<open>js\<close> turns an ASCII literal into one. Objects are association lists in
  insertion order with the update of a JavaScript object. The prototype chain is not
  modelled: an absent property is \<open>undefined\<close>.

  The text codecs are those of the language: \<open>TextEncoder\<close>, \<open>TextDecoder\<close> with
  \<open>fatal: true\<close> and \<open>ignoreBOM: false\<close>, and the \<open>hex\<close> encoding of \<open>Buffer\<close>, with the helpers of
  \<open>util/util-internal-hex/src/index.ts\<close>.
\<close>

section \<open>Values\<close>

type_synonym byte = "8 word"

type_synonym jstr = "nat list"

definition js :: "string \<Rightarrow> jstr" where
  "js s = map of_char s"

datatype jsval =
    JUndef
  | JNull
  | JBool bool
  | JNum int
  | JBig int
  | JStr jstr
  | JBytes "byte list"
  | JArr "jsval list"
  | JObj "(jstr \<times> jsval) list"

fun obj_set :: "jstr \<Rightarrow> 'v \<Rightarrow> (jstr \<times> 'v) list \<Rightarrow> (jstr \<times> 'v) list" where
  "obj_set k v [] = [(k, v)]"
| "obj_set k v ((k', v') # rest) = (if k' = k then (k', v) # rest else (k', v') # obj_set k v rest)"

definition js_get :: "jsval \<Rightarrow> jstr \<Rightarrow> jsval result" where
  "js_get v k =
     (case v of
        JUndef \<Rightarrow> Inl TypeError
      | JNull \<Rightarrow> Inl TypeError
      | JObj fields \<Rightarrow> Inr (case map_of fields k of None \<Rightarrow> JUndef | Some x \<Rightarrow> x)
      | _ \<Rightarrow> Inr JUndef)"

definition is_nullish :: "jsval \<Rightarrow> bool" where
  "is_nullish v \<longleftrightarrow> v = JUndef \<or> v = JNull"

section \<open>Hexadecimal strings\<close>

definition hex_digit :: "nat \<Rightarrow> nat" where
  "hex_digit d = (if d < 10 then 48 + d else 87 + d)"

definition hex_char_value :: "nat \<Rightarrow> nat option" where
  "hex_char_value c =
     (if 48 \<le> c \<and> c \<le> 57 then Some (c - 48)
      else if 97 \<le> c \<and> c \<le> 102 then Some (c - 87)
      else if 65 \<le> c \<and> c \<le> 70 then Some (c - 55)
      else None)"

fun hex_of_bytes :: "byte list \<Rightarrow> jstr" where
  "hex_of_bytes [] = []"
| "hex_of_bytes (b # bs) = hex_digit (unat b div 16) # hex_digit (unat b mod 16) # hex_of_bytes bs"

text \<open>\<open>Buffer.from(s, 'hex')\<close> stops at the first pair that is not hexadecimal.\<close>

fun bytes_of_hex :: "jstr \<Rightarrow> byte list" where
  "bytes_of_hex (a # b # rest) =
     (case (hex_char_value a, hex_char_value b) of
        (Some x, Some y) \<Rightarrow> of_nat (16 * x + y) # bytes_of_hex rest
      | _ \<Rightarrow> [])"
| "bytes_of_hex _ = []"

definition toHex :: "byte list \<Rightarrow> nat \<Rightarrow> nat \<Rightarrow> jstr" where
  "toHex data offset sz = js ''0x'' @ hex_of_bytes (take sz (drop offset data))"

definition isHex :: "jsval \<Rightarrow> bool" where
  "isHex v =
     (case v of
        JStr s \<Rightarrow> length s mod 2 = 0 \<and> (2 \<le> length s \<and> s ! 0 = 48 \<and> (s ! 1 = 120 \<or> s ! 1 = 88)) \<and>
          list_all (\<lambda>c. hex_char_value c \<noteq> None) (drop 2 s)
      | _ \<Rightarrow> False)"

definition decodeHex :: "jsval \<Rightarrow> byte list result" where
  "decodeHex v =
     rbind (js_assert (isHex v)) (\<lambda>_. Inr (case v of JStr s \<Rightarrow> bytes_of_hex (drop 2 s) | _ \<Rightarrow> []))"

section \<open>UTF-8\<close>

definition scalar_value :: "nat \<Rightarrow> bool" where
  "scalar_value c \<longleftrightarrow> c < 0x110000 \<and> \<not> (0xD800 \<le> c \<and> c < 0xE000)"

definition utf8_char :: "nat \<Rightarrow> nat list" where
  "utf8_char c =
     (if c < 0x80 then [c]
      else if c < 0x800 then [0xC0 + c div 64, 0x80 + c mod 64]
      else if c < 0x10000 then [0xE0 + c div 4096, 0x80 + c div 64 mod 64, 0x80 + c mod 64]
      else [0xF0 + c div 262144, 0x80 + c div 4096 mod 64, 0x80 + c div 64 mod 64, 0x80 + c mod 64])"

definition utf8_encode :: "jstr \<Rightarrow> byte list" where
  "utf8_encode s = map of_nat (concat (map utf8_char s))"

definition is_cont :: "nat \<Rightarrow> bool" where
  "is_cont b \<longleftrightarrow> 0x80 \<le> b \<and> b < 0xC0"

text \<open>One code point off the front; \<open>None\<close> is ill-formed input.\<close>

fun utf8_step :: "nat list \<Rightarrow> (nat \<times> nat list) option" where
  "utf8_step [] = None"
| "utf8_step (b # bs) =
     (if b < 0x80 then Some (b, bs)
      else if 0xC0 \<le> b \<and> b < 0xE0 then
        (case bs of
           c # rest \<Rightarrow>
             let cp = (b - 0xC0) * 64 + (c - 0x80)
             in if is_cont c \<and> 0x80 \<le> cp then Some (cp, rest) else None
         | _ \<Rightarrow> None)
      else if 0xE0 \<le> b \<and> b < 0xF0 then
        (case bs of
           c # d # rest \<Rightarrow>
             let cp = (b - 0xE0) * 4096 + (c - 0x80) * 64 + (d - 0x80)
             in if is_cont c \<and> is_cont d \<and> 0x800 \<le> cp \<and> scalar_value cp then Some (cp, rest) else None
         | _ \<Rightarrow> None)
      else if 0xF0 \<le> b \<and> b < 0xF8 then
        (case bs of
           c # d # e # rest \<Rightarrow>
             let cp = (b - 0xF0) * 262144 + (c - 0x80) * 4096 + (d - 0x80) * 64 + (e - 0x80)
             in if is_cont c \<and> is_cont d \<and> is_cont e \<and> 0x10000 \<le> cp \<and> scalar_value cp
                then Some (cp, rest) else None
         | _ \<Rightarrow> None)
      else None)"

lemma utf8_step_shorter: "utf8_step bs = Some (c, rest) \<Longrightarrow> length rest < length bs"
  by (cases bs) (auto simp: Let_def split: if_splits list.splits)

function utf8_scan :: "nat list \<Rightarrow> jstr option" where
  "utf8_scan bs =
     (if bs = [] then Some []
      else case utf8_step bs of
             None \<Rightarrow> None
           | Some (c, rest) \<Rightarrow> map_option (\<lambda>cs. c # cs) (utf8_scan rest))"
  by pat_completeness auto
termination
  by (relation "measure length") (auto dest: utf8_step_shorter)

declare utf8_scan.simps [simp del]

text \<open>\<open>ignoreBOM: false\<close> drops a leading byte order mark from the output.\<close>

definition BOM :: nat where
  "BOM = 0xFEFF"

definition UTF8_DECODER_decode :: "byte list \<Rightarrow> jstr result" where
  "UTF8_DECODER_decode buf =
     of_option TypeError (map_option
       (\<lambda>s. case s of c # rest \<Rightarrow> if c = BOM then rest else s | [] \<Rightarrow> [])
       (utf8_scan (map unat buf)))"

definition UTF8_ENCODER_encode :: "jstr \<Rightarrow> byte list" where
  "UTF8_ENCODER_encode s = utf8_encode s"

text \<open>\<open>Buffer.toString('utf-8')\<close> replaces every maximal ill-formed piece by U+FFFD and keeps a byte
  order mark.\<close>

definition second_ok :: "nat \<Rightarrow> nat \<Rightarrow> bool" where
  "second_ok b c \<longleftrightarrow> is_cont c \<and> (b = 0xE0 \<longrightarrow> 0xA0 \<le> c) \<and> (b = 0xED \<longrightarrow> c < 0xA0) \<and>
     (b = 0xF0 \<longrightarrow> 0x90 \<le> c) \<and> (b = 0xF4 \<longrightarrow> c < 0x90)"

definition bad_length :: "nat list \<Rightarrow> nat" where
  "bad_length bs =
     (case bs of
        b # c # rest \<Rightarrow>
          if 0xE0 \<le> b \<and> b < 0xF0 \<and> second_ok b c then 2
          else if 0xF0 \<le> b \<and> b \<le> 0xF4 \<and> second_ok b c
               then (case rest of d # rest' \<Rightarrow> if is_cont d then 3 else 2 | [] \<Rightarrow> 2)
          else 1
      | _ \<Rightarrow> 1)"

lemma bad_length_pos: "0 < bad_length bs"
  by (auto simp: bad_length_def split: list.splits)

function utf8_toString :: "nat list \<Rightarrow> jstr" where
  "utf8_toString bs =
     (if bs = [] then []
      else case utf8_step bs of
             Some (c, rest) \<Rightarrow> c # utf8_toString rest
           | None \<Rightarrow> 0xFFFD # utf8_toString (drop (bad_length bs) bs))"
  by pat_completeness auto
termination
  by (relation "measure length") (auto dest: utf8_step_shorter simp: bad_length_pos)

declare utf8_toString.simps [simp del]

section \<open>Objects\<close>

lemma obj_set_new: "k \<notin> fst ` set fields \<Longrightarrow> obj_set k v fields = fields @ [(k, v)]"
  by (induction fields) auto

lemma obj_set_map_of: "map_of (obj_set k v fields) = (map_of fields)(k \<mapsto> v)"
  by (induction fields) auto

section \<open>Hexadecimal round trip\<close>

lemma hex_char_value_digit [simp]: "d < 16 \<Longrightarrow> hex_char_value (hex_digit d) = Some d"
  by (auto simp: hex_char_value_def hex_digit_def)

lemma unat_byte_less: "unat (b :: byte) < 256"
proof -
  have "unat b < 2 ^ LENGTH(8)" by (rule unsigned_less)
  then show ?thesis by simp
qed

lemma bytes_of_hex_of_bytes [simp]: "bytes_of_hex (hex_of_bytes bs) = bs"
proof (induction bs)
  case Nil
  then show ?case by simp
next
  case (Cons b bs)
  have "unat b div 16 < 16" using unat_byte_less [of b] by (simp add: div_less_iff_less_mult)
  moreover have "of_nat (16 * (unat b div 16) + unat b mod 16) = b" by simp
  ultimately show ?case using Cons by simp
qed

lemma hex_of_bytes_append: "hex_of_bytes (as @ bs) = hex_of_bytes as @ hex_of_bytes bs"
  by (induction as) auto

lemma length_hex_of_bytes [simp]: "length (hex_of_bytes bs) = 2 * length bs"
  by (induction bs) auto

lemma hex_of_bytes_valid: "list_all (\<lambda>c. hex_char_value c \<noteq> None) (hex_of_bytes bs)"
proof (induction bs)
  case (Cons b bs)
  have "unat b div 16 < 16" using unat_byte_less [of b] by (simp add: div_less_iff_less_mult)
  with Cons show ?case by simp
qed simp

lemma toHex_whole: "toHex data 0 (length data) = js ''0x'' @ hex_of_bytes data"
  by (simp add: toHex_def)

lemma js_0x: "js ''0x'' = [48, 120]"
  by (simp add: js_def)

lemma isHex_hex: "isHex (JStr (js ''0x'' @ hex_of_bytes bs))"
  using hex_of_bytes_valid [of bs] by (simp add: isHex_def js_0x)

lemma decodeHex_hex [simp]: "decodeHex (JStr (js ''0x'' @ hex_of_bytes bs)) = Inr bs"
  using isHex_hex by (simp add: decodeHex_def js_0x)

lemma decodeHex_toHex: "decodeHex (JStr (toHex data 0 (length data))) = Inr data"
  by (simp add: toHex_whole)

section \<open>UTF-8 round trip\<close>

lemma utf8_char_bytes: "c < 0x110000 \<Longrightarrow> b \<in> set (utf8_char c) \<Longrightarrow> b < 256"
  by (auto simp: utf8_char_def div_less_iff_less_mult split: if_splits)

lemma split64: "(c :: nat) div 64 * 64 + c mod 64 = c"
  by simp

lemma utf8_step_char: "scalar_value c \<Longrightarrow> utf8_step (utf8_char c @ rest) = Some (c, rest)"
proof -
  assume c: "scalar_value c"
  have m: "c mod 64 < 64" "c div 64 mod 64 < 64" "c div 4096 mod 64 < 64" by simp_all
  have d2: "c div 4096 * 64 + c div 64 mod 64 = c div 64"
    using div_mult_mod_eq [of "c div 64" 64] by (simp add: div_mult2_eq [symmetric])
  have d3: "c div 262144 * 64 + c div 4096 mod 64 = c div 4096"
    using div_mult_mod_eq [of "c div 4096" 64] by (simp add: div_mult2_eq [symmetric])
  consider "c < 0x80" | "0x80 \<le> c" "c < 0x800" | "0x800 \<le> c" "c < 0x10000" | "0x10000 \<le> c" "c < 0x110000"
    using c unfolding scalar_value_def by linarith
  then show ?thesis
  proof cases
    case 1
    then show ?thesis by (simp add: utf8_char_def)
  next
    case 2
    then have "utf8_char c = [0xC0 + c div 64, 0x80 + c mod 64]" by (simp add: utf8_char_def)
    moreover have "c div 64 < 32" using 2 by (simp add: div_less_iff_less_mult)
    ultimately show ?thesis using 2(1) m split64 [of c] by (simp add: is_cont_def Let_def)
  next
    case 3
    then have "c div 4096 < 16" by (simp add: div_less_iff_less_mult)
    moreover have "c div 4096 * 4096 + c div 64 mod 64 * 64 + c mod 64 = c"
      using d2 split64 [of c] by linarith
    ultimately show ?thesis using 3 m c by (simp add: utf8_char_def is_cont_def Let_def)
  next
    case 4
    then have "c div 262144 < 5" by (simp add: div_less_iff_less_mult)
    moreover have "c div 262144 * 262144 + c div 4096 mod 64 * 4096 + c div 64 mod 64 * 64 + c mod 64 = c"
      using d2 d3 split64 [of c] by linarith
    ultimately show ?thesis using 4 m c by (simp add: utf8_char_def is_cont_def Let_def)
  qed
qed

lemma utf8_char_nonempty: "utf8_char c \<noteq> []"
  by (simp add: utf8_char_def)

lemma utf8_scan_chars: "list_all scalar_value s \<Longrightarrow> utf8_scan (concat (map utf8_char s)) = Some s"
proof (induction s)
  case Nil
  then show ?case by (simp add: utf8_scan.simps)
next
  case (Cons c s)
  then show ?case
    by (subst utf8_scan.simps) (simp add: utf8_char_nonempty utf8_step_char)
qed

definition decodable :: "jstr \<Rightarrow> bool" where
  \<comment> \<open>the strings that the decoder gives back: scalar values, no leading byte order mark\<close>
  "decodable s \<longleftrightarrow> list_all scalar_value s \<and> (s \<noteq> [] \<longrightarrow> hd s \<noteq> BOM)"

lemma utf8_decode_encode:
  assumes "list_all scalar_value s"
  shows "UTF8_DECODER_decode (UTF8_ENCODER_encode s) =
    Inr (case s of c # rest \<Rightarrow> if c = BOM then rest else s | [] \<Rightarrow> [])"
proof -
  have "\<forall>c\<in>set s. \<forall>b\<in>set (utf8_char c). b < 256"
    using assms by (auto simp: list_all_iff scalar_value_def dest: utf8_char_bytes)
  then have "map unat (utf8_encode s) = concat (map utf8_char s)"
    by (auto simp: utf8_encode_def unat_of_nat intro!: map_idI)
  then show ?thesis
    using assms by (simp add: UTF8_DECODER_decode_def UTF8_ENCODER_encode_def utf8_scan_chars)
qed

lemma utf8_roundtrip: "decodable s \<Longrightarrow> UTF8_DECODER_decode (UTF8_ENCODER_encode s) = Inr s"
  by (cases s) (auto simp: utf8_decode_encode decodable_def)

lemma utf8_toString_chars: "list_all scalar_value s \<Longrightarrow> utf8_toString (concat (map utf8_char s)) = s"
proof (induction s)
  case Nil
  then show ?case by (simp add: utf8_toString.simps)
next
  case (Cons c s)
  then show ?case
    by (subst utf8_toString.simps) (simp add: utf8_char_nonempty utf8_step_char)
qed

lemma utf8_toString_encode:
  assumes "list_all scalar_value s"
  shows "utf8_toString (map unat (UTF8_ENCODER_encode s)) = s"
proof -
  have "\<forall>c\<in>set s. \<forall>b\<in>set (utf8_char c). b < 256"
    using assms by (auto simp: list_all_iff scalar_value_def dest: utf8_char_bytes)
  then have "map unat (utf8_encode s) = concat (map utf8_char s)"
    by (auto simp: utf8_encode_def unat_of_nat intro!: map_idI)
  then show ?thesis using assms utf8_toString_chars by (simp add: UTF8_ENCODER_encode_def)
qed

end
