(* ===== verification/Scale_Types.thy ===== *)
theory Scale_Types
  imports Js_Values
begin

text \<open>
  The type registry of the SCALE codec (\<open>substrate/scale-codec/src/types.ts\<close>,
  \<open>types-codec.ts\<close>) and the integer checks of \<open>util.ts\<close>: the types as the metadata gives them,
  the types as the codec uses them, and the translation between the two.

  A type index (\<open>Ti\<close>) is a position in the registry. Objects used as dictionaries by
  variant name are maps.
\<close>

section \<open>Types of the metadata\<close>

type_synonym ti = nat

datatype primitive =
    I8 | U8 | I16 | U16 | I32 | U32 | I64 | U64 | I128 | U128 | I256 | U256 | Bool | Str | Char

record type_field =
  tf_name :: "jstr option"
  tf_type :: ti

record variant =
  v_index :: nat
  v_name :: jstr
  v_fields :: "type_field list"

datatype type_def =
    PrimitiveType primitive
  | CompactType ti
  | SequenceType ti
  | BitSequenceType ti ti
  | ArrayType nat ti
  | BytesType
  | BytesArrayType nat
  | HexBytesType
  | HexBytesArrayType nat
  | TupleType "ti list"
  | CompositeType "type_field list"
  | VariantType "variant option list"
  | OptionType ti
  | BooleanOption
  | DoNotConstructType

section \<open>Types of the codec\<close>

datatype codec_variant =
    CodecStructVariant (cv_name: jstr) (cv_index: nat) "(jstr \<times> ti) list"
  | CodecTupleVariant (cv_name: jstr) (cv_index: nat) "ti list"
  | CodecValueVariant (cv_name: jstr) (cv_index: nat) ti
  | CodecEmptyVariant (cv_name: jstr) (cv_index: nat)

datatype codec_type =
    CPrimitive primitive
  | CSequence ti
  | CBitSequence ti ti
  | CArray nat ti
  | CBytes
  | CBytesArray nat
  | CHexBytes
  | CHexBytesArray nat
  | CTuple "ti list"
  | COption ti
  | CBooleanOption
  | CDoNotConstruct
  | CCompact primitive
  | CStruct "(jstr \<times> ti) list"
  | CVariant "codec_variant option list" "jstr \<Rightarrow> codec_variant option"

section \<open>Translation\<close>

definition is_unsigned_name :: "primitive \<Rightarrow> bool" where
  \<comment> \<open>\<open>primitive[0] == 'U'\<close>\<close>
  "is_unsigned_name p \<longleftrightarrow> p \<in> {U8, U16, U32, U64, U128, U256}"

definition tuple_fields :: "type_field list \<Rightarrow> ti list result" where
  "tuple_fields fs =
     rmap (\<lambda>f. rbind (js_assert (tf_name f = None)) (\<lambda>_. Inr (tf_type f))) fs"

definition struct_fields :: "type_field list \<Rightarrow> (jstr \<times> ti) list result" where
  "struct_fields fs =
     rmap (\<lambda>f. rbind (of_option AssertionError (tf_name f)) (\<lambda>name. Inr (name, tf_type f))) fs"

definition getCodecVariant :: "variant \<Rightarrow> codec_variant result" where
  "getCodecVariant v =
     (if v_fields v = [] \<or> tf_name (v_fields v ! 0) = None then
        (case v_fields v of
           [] \<Rightarrow> Inr (CodecEmptyVariant (v_name v) (v_index v))
         | [f] \<Rightarrow> Inr (CodecValueVariant (v_name v) (v_index v) (tf_type f))
         | fs \<Rightarrow> rbind (tuple_fields fs) (\<lambda>tuple. Inr (CodecTupleVariant (v_name v) (v_index v) tuple)))
      else rbind (struct_fields (v_fields v))
             (\<lambda>fs. Inr (CodecStructVariant (v_name v) (v_index v) fs)))"

text \<open>The body of \<open>variants.forEach\<close>.\<close>

fun placeVariant ::
    "variant \<Rightarrow> codec_variant option list \<times> (jstr \<Rightarrow> codec_variant option) \<Rightarrow>
     (codec_variant option list \<times> (jstr \<Rightarrow> codec_variant option)) result" where
  "placeVariant v (placed, byName) =
     rbind (getCodecVariant v)
       (\<lambda>cv. Inr (placed[v_index v := Some cv], byName(cv_name cv \<mapsto> cv)))"

definition getCodecVariants :: "variant option list \<Rightarrow> codec_type result" where
  "getCodecVariants vs =
     (let variants = map the (filter (\<lambda>v. v \<noteq> None) vs)
      in if card (set (map v_index variants)) \<noteq> length variants
         then Inl (ThrownError ''Variant type has duplicate case indexes'')
         else let len = fold (\<lambda>v len. max len (v_index v)) variants 0 + 1
              in rbind
                (rfold placeVariant variants (replicate len None, Map.empty))
                (\<lambda>(placed, byName). Inr (CVariant placed byName)))"

definition getCodecType :: "type_def list \<Rightarrow> ti \<Rightarrow> codec_type result" where
  "getCodecType types i =
     (if i \<ge> length types then Inl TypeError
      else case types ! i of
        CompactType t \<Rightarrow>
          (if t \<ge> length types then Inl TypeError
           else case types ! t of
               PrimitiveType p \<Rightarrow> rbind (js_assert (is_unsigned_name p)) (\<lambda>_. Inr (CCompact p))
             | _ \<Rightarrow> Inl AssertionError)
      | CompositeType fs \<Rightarrow>
          (if length fs = 0 \<or> tf_name (fs ! 0) = None
           then rbind (tuple_fields fs) (\<lambda>tuple. Inr (CTuple tuple))
           else rbind (struct_fields fs) (\<lambda>sf. Inr (CStruct sf)))
      | VariantType vs \<Rightarrow> getCodecVariants vs
      | PrimitiveType p \<Rightarrow> Inr (CPrimitive p)
      | SequenceType t \<Rightarrow> Inr (CSequence t)
      | BitSequenceType s ord \<Rightarrow> Inr (CBitSequence s ord)
      | ArrayType len t \<Rightarrow> Inr (CArray len t)
      | BytesType \<Rightarrow> Inr CBytes
      | BytesArrayType len \<Rightarrow> Inr (CBytesArray len)
      | HexBytesType \<Rightarrow> Inr CHexBytes
      | HexBytesArrayType len \<Rightarrow> Inr (CHexBytesArray len)
      | TupleType ts \<Rightarrow> Inr (CTuple ts)
      | OptionType t \<Rightarrow> Inr (COption t)
      | BooleanOption \<Rightarrow> Inr CBooleanOption
      | DoNotConstructType \<Rightarrow> Inr CDoNotConstruct)"

definition toCodecTypes :: "type_def list \<Rightarrow> codec_type list result" where
  "toCodecTypes types = rmap (getCodecType types) [0 ..< length types]"

section \<open>Integer checks\<close>

text \<open>The checks take the value as it comes and return the integer they accept.\<close>

definition checkInt :: "jsval \<Rightarrow> int \<Rightarrow> int \<Rightarrow> int result" where
  "checkInt val mn mx =
     (case val of
        JNum n \<Rightarrow> if mn \<le> n \<and> mx \<ge> n then Inr n else Inl (ThrownError ''Invalid'')
      | _ \<Rightarrow> Inl (ThrownError ''Invalid''))"

definition checkBigInt :: "jsval \<Rightarrow> int \<Rightarrow> int \<Rightarrow> int result" where
  "checkBigInt val mn mx =
     (case val of
        JBig n \<Rightarrow> if mn \<le> n \<and> mx \<ge> n then Inr n else Inl (ThrownError ''Invalid'')
      | _ \<Rightarrow> Inl (ThrownError ''Invalid''))"

definition unexpectedCase :: "'a result" where
  "unexpectedCase = Inl (ThrownError ''Unexpected case'')"

definition checkSignedInt :: "jsval \<Rightarrow> nat \<Rightarrow> int result" where
  "checkSignedInt val bitSize =
     (if bitSize = 8 then checkInt val (- 0x80) 0x7f
      else if bitSize = 16 then checkInt val (- 0x8000) 0x7fff
      else if bitSize = 32 then checkInt val (- 0x80000000) 0x7fffffff
      else unexpectedCase)"

definition checkSignedBigInt :: "jsval \<Rightarrow> nat \<Rightarrow> int result" where
  "checkSignedBigInt val bitSize =
     (if bitSize = 64 then checkBigInt val (- (2 ^ 63)) (2 ^ 63 - 1)
      else if bitSize = 128 then checkBigInt val (- (2 ^ 127)) (2 ^ 127 - 1)
      else if bitSize = 256 then checkBigInt val (- (2 ^ 255)) (2 ^ 255 - 1)
      else unexpectedCase)"

definition checkUnsignedInt :: "jsval \<Rightarrow> nat \<Rightarrow> int result" where
  "checkUnsignedInt val bitSize =
     (if bitSize = 8 then checkInt val 0 0xff
      else if bitSize = 16 then checkInt val 0 0xffff
      else if bitSize = 32 then checkInt val 0 0xffffffff
      else unexpectedCase)"

definition checkUnsignedBigInt :: "jsval \<Rightarrow> nat \<Rightarrow> int result" where
  "checkUnsignedBigInt val bitSize =
     (if bitSize = 64 then checkBigInt val 0 0xffffffffffffffff
      else if bitSize = 128 then checkBigInt val 0 (2 ^ 128 - 1)
      else if bitSize = 256 then checkBigInt val 0 (2 ^ 256 - 1)
      else unexpectedCase)"

function unsignedIntByteLength :: "int \<Rightarrow> nat" where
  "unsignedIntByteLength val = (if val > 0 then unsignedIntByteLength (drop_bit 8 val) + 1 else 0)"
  by pat_completeness auto
termination
  by (relation "measure nat") (auto simp: drop_bit_eq_div)

declare unsignedIntByteLength.simps [simp del]

lemmas check_defs = checkSignedInt_def checkSignedBigInt_def checkUnsignedInt_def checkUnsignedBigInt_def
  checkInt_def checkBigInt_def unexpectedCase_def

section \<open>Facts about the translation\<close>

lemma getCodecVariant_keeps:
  "getCodecVariant v = Inr cv \<Longrightarrow> cv_name cv = v_name v \<and> cv_index cv = v_index v"
  by (auto simp: getCodecVariant_def result_simps split: if_splits list.splits)

text \<open>The two tables of a variant type agree: a case found by its name sits at its index.\<close>

definition variants_agree :: "codec_variant option list \<Rightarrow> (jstr \<Rightarrow> codec_variant option) \<Rightarrow> bool" where
  "variants_agree placed byName \<longleftrightarrow>
     (\<forall>name cv. byName name = Some cv \<longrightarrow>
        cv_name cv = name \<and> cv_index cv < length placed \<and> placed ! cv_index cv = Some cv)"

lemma fold_max_index:
  "(m :: nat) \<le> fold (\<lambda>v len. max len (f v)) vs m \<and> (v \<in> set vs \<longrightarrow> f v \<le> fold (\<lambda>v len. max len (f v)) vs m)"
proof (induction vs arbitrary: m)
  case (Cons w vs)
  have "m \<le> max m (f w)" "f w \<le> max m (f w)" by auto
  with Cons [of "max m (f w)"] show ?case by fastforce
qed simp

lemma place_variants_agree:
  assumes "rfold placeVariant vs (placed, byName) = Inr (placed', byName')"
    "distinct (map v_index vs)" "\<forall>v\<in>set vs. v_index v < length placed" "variants_agree placed byName"
    "\<forall>v\<in>set vs. placed ! v_index v = None"
  shows "variants_agree placed' byName'"
  using assms
proof (induction vs arbitrary: placed byName)
  case Nil
  then show ?case by simp
next
  case (Cons v vs)
  then obtain cv where cv: "getCodecVariant v = Inr cv" by (auto simp: result_simps)
  note k = getCodecVariant_keeps [OF cv]
  show ?case
  proof (rule Cons.IH)
    show "rfold placeVariant vs (placed[v_index v := Some cv], byName(cv_name cv \<mapsto> cv)) = Inr (placed', byName')"
      using Cons.prems(1) cv by simp
    show "variants_agree (placed[v_index v := Some cv]) (byName(cv_name cv \<mapsto> cv))"
      using Cons.prems(3,4,5) k by (auto simp: variants_agree_def nth_list_update)
    show "\<forall>w\<in>set vs. placed[v_index v := Some cv] ! v_index w = None"
      using Cons.prems(2,5) by (auto simp: nth_list_update image_iff)
  qed (use Cons.prems in auto)
qed

lemma getCodecVariants_agree:
  assumes "getCodecVariants vs = Inr t"
  shows "\<exists>placed byName. t = CVariant placed byName \<and> variants_agree placed byName"
proof -
  define variants where "variants = map the (filter (\<lambda>v. v \<noteq> None) vs)"
  define len where "len = fold (\<lambda>v len. max len (v_index v)) variants 0 + 1"
  have c: "card (set (map v_index variants)) = length variants"
    and r: "rbind (rfold placeVariant variants (replicate len None, Map.empty))
        (\<lambda>(placed, byName). Inr (CVariant placed byName)) = Inr t"
    using assms unfolding getCodecVariants_def Let_def variants_def [symmetric] len_def [symmetric]
    by (simp_all split: if_splits)
  from c have d: "distinct (map v_index variants)" by (intro card_distinct) simp
  from r obtain placed byName where
    p: "rfold placeVariant variants (replicate len None, Map.empty) = Inr (placed, byName)"
      "t = CVariant placed byName"
    by (cases "rfold placeVariant variants (replicate len None, Map.empty)") auto
  have lt: "v_index v < len" if "v \<in> set variants" for v
    using fold_max_index [of 0 v_index variants v] that by (simp add: len_def)
  have "variants_agree placed byName"
    using p(1) d
  proof (rule place_variants_agree)
    show "\<forall>v\<in>set variants. v_index v < length (replicate len None)" using lt by simp
    show "\<forall>v\<in>set variants. replicate len None ! v_index v = None" using lt by simp
    show "variants_agree (replicate len None) Map.empty" by (simp add: variants_agree_def)
  qed
  with p(2) show ?thesis by blast
qed

section \<open>Properties\<close>

text \<open>The translation of a registry keeps the type indexes, and in every variant type the case that the
  encoder finds by its name is the case that the decoder finds by the index written.\<close>

theorem toCodecTypes_variants:
  assumes "toCodecTypes types = Inr cts" "i < length types" "cts ! i = CVariant placed byName"
  shows "length cts = length types \<and> variants_agree placed byName"
proof -
  have "length cts = length types" "getCodecType types i = Inr (CVariant placed byName)"
    using rmap_nth [OF assms(1) [unfolded toCodecTypes_def]] assms(2,3) by auto
  moreover from this(2) assms(2) obtain vs where "getCodecVariants vs = Inr (CVariant placed byName)"
    by (auto simp: getCodecType_def result_simps split: type_def.splits if_splits)
  ultimately show ?thesis using getCodecVariants_agree by blast
qed

lemma toCodecTypes_variants_witness:
  "\<exists>cts placed byName. toCodecTypes [VariantType [Some \<lparr>v_index = 3, v_name = [65], v_fields = []\<rparr>]] = Inr cts \<and>
    cts ! 0 = CVariant placed byName \<and> length cts = 1 \<and> variants_agree placed byName"
proof -
  let ?types = "[VariantType [Some \<lparr>v_index = 3, v_name = [65], v_fields = []\<rparr>]]"
  obtain placed byName where c: "toCodecTypes ?types = Inr [CVariant placed byName]"
    by (simp add: toCodecTypes_def getCodecType_def getCodecVariants_def getCodecVariant_def)
  then have "length [CVariant placed byName] = length ?types \<and> variants_agree placed byName"
    using toCodecTypes_variants [OF c, of 0 placed byName] by simp
  with c show ?thesis by (intro exI [of _ "[CVariant placed byName]"] exI [of _ placed] exI [of _ byName]) simp
qed

end
