(* ===== verification/Scale_Src.thy ===== *)
theory Scale_Src
  imports Scale_Types
begin

text \<open>
  The reader of SCALE data, \<open>substrate/scale-codec/src/src.ts\<close>: a buffer and a position. Every
  method is a function from the reader to its value and the advanced reader, or an exception.

  \<open>decodes d bs v\<close> says that the method \<open>d\<close> reads exactly the bytes \<open>bs\<close> wherever they stand in the
  buffer and returns \<open>v\<close>; the lemmas give it for every integer width and for the compact
  integers.
\<close>

section \<open>The reader\<close>

record src =
  src_idx :: nat
  src_buf :: "byte list"

type_synonym 'a dec = "src \<Rightarrow> ('a \<times> src) result"

definition dret :: "'a \<Rightarrow> 'a dec" where
  "dret v s = Inr (v, s)"

definition dfail :: "js_error \<Rightarrow> 'a dec" where
  "dfail e s = Inl e"

definition dbind :: "'a dec \<Rightarrow> ('a \<Rightarrow> 'b dec) \<Rightarrow> 'b dec" where
  "dbind d f s = rbind (d s) (\<lambda>(v, s'). f v s')"

definition eof :: js_error where
  "eof = ThrownError ''Unexpected EOF''"

definition Src :: "jsval \<Rightarrow> src result" where
  "Src buf =
     (case buf of
        JBytes b \<Rightarrow> Inr \<lparr>src_idx = 0, src_buf = b\<rparr>
      | JStr s \<Rightarrow> rbind (decodeHex (JStr s)) (\<lambda>b. Inr \<lparr>src_idx = 0, src_buf = b\<rparr>)
      | _ \<Rightarrow> Inl TypeError)"

definition src_byte :: "int dec" where
  "src_byte s =
     (if src_idx s < length (src_buf s)
      then Inr (uint (src_buf s ! src_idx s), s\<lparr>src_idx := src_idx s + 1\<rparr>)
      else Inl eof)"

definition src_i8 :: "int dec" where
  "src_i8 = dbind src_byte (\<lambda>b. dret (js_or b (js_and b (2 ^ 7) * 0x1fffffe)))"

definition src_u8 :: "int dec" where
  "src_u8 = src_byte"

definition src_u16 :: "int dec" where
  "src_u16 = dbind src_byte (\<lambda>first. dbind src_byte (\<lambda>lst. dret (first + lst * 2 ^ 8)))"

definition src_i16 :: "int dec" where
  "src_i16 = dbind src_u16 (\<lambda>val. dret (js_or val (js_and val (2 ^ 15) * 0x1fffe)))"

definition src_i32 :: "int dec" where
  "src_i32 =
     dbind src_byte (\<lambda>a. dbind src_byte (\<lambda>b. dbind src_byte (\<lambda>c. dbind src_byte (\<lambda>d.
       dret (a + b * 2 ^ 8 + c * 2 ^ 16 + js_shl d 24)))))"

definition src_u32 :: "int dec" where
  "src_u32 =
     dbind src_byte (\<lambda>a. dbind src_byte (\<lambda>b. dbind src_byte (\<lambda>c. dbind src_byte (\<lambda>d.
       dret (a + b * 2 ^ 8 + c * 2 ^ 16 + d * 2 ^ 24)))))"

definition src_i64 :: "int dec" where
  "src_i64 = dbind src_u32 (\<lambda>lo. dbind src_i32 (\<lambda>hi. dret (lo + push_bit 32 hi)))"

definition src_u64 :: "int dec" where
  "src_u64 = dbind src_u32 (\<lambda>lo. dbind src_u32 (\<lambda>hi. dret (lo + push_bit 32 hi)))"

definition src_i128 :: "int dec" where
  "src_i128 = dbind src_u64 (\<lambda>lo. dbind src_i64 (\<lambda>hi. dret (lo + push_bit 64 hi)))"

definition src_u128 :: "int dec" where
  "src_u128 = dbind src_u64 (\<lambda>lo. dbind src_u64 (\<lambda>hi. dret (lo + push_bit 64 hi)))"

definition src_i256 :: "int dec" where
  "src_i256 = dbind src_u128 (\<lambda>lo. dbind src_i128 (\<lambda>hi. dret (lo + push_bit 128 hi)))"

definition src_u256 :: "int dec" where
  "src_u256 = dbind src_u128 (\<lambda>lo. dbind src_u128 (\<lambda>hi. dret (lo + push_bit 128 hi)))"

text \<open>The loop \<open>while (len--)\<close> of \<open>bigCompact\<close>.\<close>

fun src_bigCompact_loop :: "nat \<Rightarrow> int \<Rightarrow> nat \<Rightarrow> int dec" where
  "src_bigCompact_loop 0 n base = dret n"
| "src_bigCompact_loop (Suc len) n base =
     dbind src_byte (\<lambda>b. src_bigCompact_loop len (n + push_bit base b) (base + 8))"

definition src_bigCompact :: "nat \<Rightarrow> jsval dec" where
  "src_bigCompact len =
     dbind src_u32 (\<lambda>i.
       if len = 0 then dret (JNum i)
       else if len = 1 then dbind src_byte (\<lambda>b. dret (JNum (i + b * 2 ^ 32)))
       else if len = 2 then dbind src_byte (\<lambda>b. dbind src_byte (\<lambda>c.
         dret (JNum (i + b * 2 ^ 32 + c * 2 ^ 40))))
       else dbind (src_bigCompact_loop len i 32) (\<lambda>n. dret (JBig n)))"

definition src_compact :: "jsval dec" where
  "src_compact =
     dbind src_byte (\<lambda>b.
       let mode = js_and b 3
       in if mode = 0 then dret (JNum (js_shr b 2))
          else if mode = 1 then dbind src_byte (\<lambda>c. dret (JNum (js_shr b 2 + c * 2 ^ 6)))
          else if mode = 2 then dbind src_byte (\<lambda>c. dbind src_byte (\<lambda>d. dbind src_byte (\<lambda>e.
            dret (JNum (js_shr b 2 + c * 2 ^ 6 + d * 2 ^ 14 + e * 2 ^ 22)))))
          else if mode = 3 then src_bigCompact (nat (js_shr b 2))
          else dfail (ThrownError ''Reached unreachable statement''))"

definition src_compactLength :: "int dec" where
  "src_compactLength =
     dbind src_compact (\<lambda>len. case len of JNum n \<Rightarrow> dret n | _ \<Rightarrow> dfail AssertionError)"

definition src_bytes :: "int \<Rightarrow> (byte list) dec" where
  "src_bytes len s =
     (let beg = src_idx s; fin = src_idx s + nat len
      in if length (src_buf s) < fin then Inl eof
         else Inr (take (fin - beg) (drop beg (src_buf s)), s\<lparr>src_idx := fin\<rparr>))"

definition src_str :: "jstr dec" where
  "src_str =
     dbind src_compactLength (\<lambda>len. dbind (src_bytes len) (\<lambda>buf s.
       rbind (UTF8_DECODER_decode buf) (\<lambda>t. Inr (t, s))))"

definition src_skip :: "nat \<Rightarrow> unit dec" where
  "src_skip len s = Inr ((), s\<lparr>src_idx := src_idx s + len\<rparr>)"

definition src_bool :: "bool dec" where
  "src_bool = dbind src_byte (\<lambda>b. dret (b \<noteq> 0))"

definition src_hasBytes :: "src \<Rightarrow> bool" where
  "src_hasBytes s \<longleftrightarrow> length (src_buf s) > src_idx s"

definition src_assertEOF :: "src \<Rightarrow> unit result" where
  "src_assertEOF s = (if src_hasBytes s then Inl (ThrownError ''Unprocessed data left'') else Inr ())"

section \<open>Little-endian integers\<close>

fun le_bytes :: "nat \<Rightarrow> int \<Rightarrow> byte list" where
  "le_bytes 0 v = []"
| "le_bytes (Suc n) v = word_of_int v # le_bytes n (v div 256)"

lemma length_le_bytes [simp]: "length (le_bytes n v) = n"
  by (induction n arbitrary: v) auto

lemma le_bytes_append: "le_bytes (m + n) v = le_bytes m v @ le_bytes n (v div 256 ^ m)"
  by (induction m arbitrary: v) (auto simp: zdiv_zmult2_eq)

lemma le_bytes_mod: "le_bytes n (v mod 256 ^ n) = le_bytes n v"
proof (induction n arbitrary: v)
  case (Suc n)
  have "word_of_int (v mod 256 ^ Suc n) = (word_of_int v :: byte)"
    by (intro word_of_int_eq_iff [THEN iffD2]) (simp add: take_bit_eq_mod mod_mod_cancel)
  moreover have "v mod 256 ^ Suc n div 256 = v div 256 mod 256 ^ n"
    by (simp add: mod_mult2_eq zmod_zmult2_eq)
  ultimately show ?case using Suc by simp
qed simp

lemma uint_byte: "uint (word_of_int v :: byte) = v mod 256"
  by (simp add: uint_word_of_int)

section \<open>Reading known bytes\<close>

definition src_at :: "byte list \<Rightarrow> byte list \<Rightarrow> src" where
  "src_at pre rest = \<lparr>src_idx = length pre, src_buf = pre @ rest\<rparr>"

definition decodes :: "'a dec \<Rightarrow> byte list \<Rightarrow> 'a \<Rightarrow> bool" where
  "decodes d bs v \<longleftrightarrow> (\<forall>pre rest. d (src_at pre (bs @ rest)) = Inr (v, src_at (pre @ bs) rest))"

lemma decodesD: "decodes d bs v \<Longrightarrow> d (src_at pre (bs @ rest)) = Inr (v, src_at (pre @ bs) rest)"
  by (simp add: decodes_def)

lemma decodes_ret [intro]: "decodes (dret v) [] v"
  by (simp add: decodes_def dret_def)

lemma decodes_bind: "decodes d bs v \<Longrightarrow> decodes (f v) cs w \<Longrightarrow> decodes (dbind d f) (bs @ cs) w"
  by (simp add: decodes_def dbind_def)

lemma decodes_bind_ret: "decodes d bs v \<Longrightarrow> w = g v \<Longrightarrow> decodes (dbind d (\<lambda>x. dret (g x))) bs w"
  using decodes_bind [of d bs v "\<lambda>x. dret (g x)" "[]" w] by auto

lemma decodes_byte: "decodes src_byte [b] (uint b)"
  by (simp add: decodes_def src_byte_def src_at_def)

lemma decodes_bytes: "len = int (length bs) \<Longrightarrow> decodes (src_bytes len) bs bs"
  by (simp add: decodes_def src_bytes_def src_at_def)

lemma decodes_byte_bind: "decodes (f (uint b)) cs w \<Longrightarrow> decodes (dbind src_byte f) (b # cs) w"
  using decodes_bind [OF decodes_byte, of f b cs w] by simp

lemma decodes_eq: "decodes d bs v \<Longrightarrow> bs = bs' \<Longrightarrow> v = v' \<Longrightarrow> decodes d bs' v'"
  by simp

section \<open>Reading integers\<close>

fun le_val :: "byte list \<Rightarrow> int" where
  "le_val [] = 0"
| "le_val (b # bs) = uint b + 256 * le_val bs"

lemma le_val_le_bytes: "le_val (le_bytes n v) = v mod 256 ^ n"
proof (induction n arbitrary: v)
  case (Suc n)
  have "v mod (256 * 256 ^ n) = 256 * (v div 256 mod 256 ^ n) + v mod 256"
    by (intro zmod_zmult2_eq) simp
  with Suc show ?case by (simp add: uint_byte)
qed simp

lemma le_val_bounds: "0 \<le> le_val bs" "le_val bs < 256 ^ length bs"
proof (induction bs)
  case (Cons b bs)
  { case 1 show ?case using Cons by simp }
  { case 2
    have "uint b < 256" using uint_lt2p [of b] by simp
    then show ?case using Cons by simp }
qed simp_all

lemma le_bytes_4: "\<exists>a b c d. le_bytes 4 v = [a, b, c, d]"
  by (simp add: numeral_eq_Suc)

lemma le_bytes_2: "\<exists>a b. le_bytes 2 v = [a, b]"
  by (simp add: numeral_eq_Suc)

lemma uint_byte_bounds: "0 \<le> uint (b :: byte)" "uint b < 256"
  using uint_lt2p [of b] by simp_all

lemma decodes_u16_raw: "decodes src_u16 [a, b] (le_val [a, b])"
  unfolding src_u16_def
  by (rule decodes_eq [OF decodes_byte_bind [OF decodes_byte_bind [OF decodes_ret]]]) (simp_all add: algebra_simps)

lemma decodes_u32_raw: "decodes src_u32 [a, b, c, d] (le_val [a, b, c, d])"
  unfolding src_u32_def
  by (rule decodes_eq [OF decodes_byte_bind [OF decodes_byte_bind [OF decodes_byte_bind [OF decodes_byte_bind [OF decodes_ret]]]]])
    (simp_all add: algebra_simps)

definition signed_val :: "nat \<Rightarrow> int \<Rightarrow> int" where
  \<comment> \<open>two's complement of width \<open>k\<close>\<close>
  "signed_val k u = (if u < 2 ^ (k - 1) then u else u - 2 ^ k)"

lemma signed_val_mod:
  assumes "0 < k" "- (2 ^ (k - 1)) \<le> v" "v < 2 ^ (k - 1)"
  shows "signed_val k (v mod 2 ^ k) = v"
proof -
  have p: "(2::int) ^ k = 2 * 2 ^ (k - 1)" using assms(1) by (cases k) auto
  show ?thesis
  proof (cases "0 \<le> v")
    case True
    then have "v mod 2 ^ k = v" using assms p by (intro mod_pos_pos_trivial) auto
    then show ?thesis using assms by (simp add: signed_val_def)
  next
    case False
    then have "v mod 2 ^ k = v + 2 ^ k"
      using assms p by (intro int_mod_pos_eq [where q = "- 1"]) auto
    then show ?thesis using assms p False by (simp add: signed_val_def)
  qed
qed

lemma decodes_i32_raw: "decodes src_i32 [a, b, c, d] (signed_val 32 (le_val [a, b, c, d]))"
proof -
  have shl: "js_shl (uint d) 24 = (if uint d < 128 then uint d * 2 ^ 24 else uint d * 2 ^ 24 - 2 ^ 32)"
  proof (cases "uint d < 128")
    case True
    then show ?thesis using uint_byte_bounds [of d] by (simp add: js_shl_eq)
  next
    case False
    then have "(uint d * 2 ^ 24 + 2 ^ 31) mod 2 ^ 32 = uint d * 2 ^ 24 - 2 ^ 31"
      using uint_byte_bounds [of d] by (intro int_mod_pos_eq [where q = 1]) auto
    then show ?thesis using False by (simp add: js_shl_eq)
  qed
  have lt: "uint d < 128 \<longleftrightarrow> le_val [a, b, c, d] < 2 ^ 31"
  proof -
    have e: "le_val [a, b, c, d] = uint a + 256 * uint b + 65536 * uint c + 16777216 * uint d" by simp
    note bounds = uint_byte_bounds [of a] uint_byte_bounds [of b] uint_byte_bounds [of c] uint_byte_bounds [of d]
    show ?thesis
    proof (cases "uint d < 128")
      case True
      then have "uint d \<le> 127" by simp
      then have "uint a + 256 * uint b + 65536 * uint c + 16777216 * uint d < 2147483648" using bounds by linarith
      with True e show ?thesis by simp
    next
      case False
      then have "2147483648 \<le> uint a + 256 * uint b + 65536 * uint c + 16777216 * uint d" using bounds by linarith
      with False e show ?thesis by simp
    qed
  qed
  have v: "uint a + uint b * 2 ^ 8 + uint c * 2 ^ 16 + js_shl (uint d) 24 = signed_val 32 (le_val [a, b, c, d])"
    using lt by (simp add: shl signed_val_def)
  have "decodes src_i32 [a, b, c, d] (uint a + uint b * 2 ^ 8 + uint c * 2 ^ 16 + js_shl (uint d) 24)"
    unfolding src_i32_def
    by (rule decodes_byte_bind [OF decodes_byte_bind [OF decodes_byte_bind [OF decodes_byte_bind [OF decodes_ret]]]])
  then show ?thesis by (simp only: v)
qed

lemma decodes_i8: "- 128 \<le> v \<Longrightarrow> v < 128 \<Longrightarrow> decodes src_i8 (le_bytes 1 v) v"
proof -
  assume v: "- 128 \<le> v" "v < 128"
  define b where "b = v mod 256"
  have b: "0 \<le> b" "b < 2 ^ Suc 7" by (simp_all add: b_def)
  have "js_or b (js_and b (2 ^ 7) * 0x1fffffe) = signed_val 8 b"
  proof (cases "b < 128")
    case True
    then show ?thesis using js_and_bit [OF b] b js_or_zero [of b] by (simp add: signed_val_def)
  next
    case False
    then show ?thesis using js_and_bit [OF b] b js_or_sign [of b 8] by (simp add: signed_val_def)
  qed
  also have "\<dots> = v" using signed_val_mod [of 8 v] v by (simp add: b_def)
  finally have e: "js_or b (js_and b (2 ^ 7) * 0x1fffffe) = v" .
  have "decodes src_i8 [word_of_int v] (js_or (uint (word_of_int v :: byte)) (js_and (uint (word_of_int v :: byte)) (2 ^ 7) * 0x1fffffe))"
    unfolding src_i8_def by (rule decodes_byte_bind [OF decodes_ret])
  then show ?thesis by (simp only: uint_byte e flip: b_def) simp
qed

lemma decodes_u8: "0 \<le> v \<Longrightarrow> v < 256 \<Longrightarrow> decodes src_u8 (le_bytes 1 v) v"
  using decodes_byte [of "word_of_int v"] by (simp add: src_u8_def uint_byte)

lemma decodes_u16: "decodes src_u16 (le_bytes 2 v) (v mod 2 ^ 16)"
  using le_bytes_2 [of v] decodes_u16_raw le_val_le_bytes [of 2 v] by (auto simp del: le_bytes.simps) metis

lemma decodes_i16: "- (2 ^ 15) \<le> v \<Longrightarrow> v < 2 ^ 15 \<Longrightarrow> decodes src_i16 (le_bytes 2 v) v"
proof -
  assume v: "- (2 ^ 15) \<le> v" "v < 2 ^ 15"
  define b where "b = v mod 2 ^ 16"
  have b: "0 \<le> b" "b < 2 ^ Suc 15" by (simp_all add: b_def)
  have "js_or b (js_and b (2 ^ 15) * 0x1fffe) = signed_val 16 b"
  proof (cases "b < 2 ^ 15")
    case True
    then show ?thesis using js_and_bit [OF b] b js_or_zero [of b] by (simp add: signed_val_def)
  next
    case False
    then show ?thesis using js_and_bit [OF b] b js_or_sign [of b 16] by (simp add: signed_val_def)
  qed
  also have "\<dots> = v" using signed_val_mod [of 16 v] v by (simp add: b_def)
  finally have e: "v = js_or b (js_and b (2 ^ 15) * 0x1fffe)" by simp
  show ?thesis
    unfolding src_i16_def by (rule decodes_bind_ret [OF decodes_u16]) (simp only: flip: b_def, rule e)
qed

lemma decodes_u32: "decodes src_u32 (le_bytes 4 v) (v mod 2 ^ 32)"
  using le_bytes_4 [of v] decodes_u32_raw le_val_le_bytes [of 4 v] by (auto simp del: le_bytes.simps) metis

lemma decodes_i32: "- (2 ^ 31) \<le> v \<Longrightarrow> v < 2 ^ 31 \<Longrightarrow> decodes src_i32 (le_bytes 4 v) v"
proof -
  assume v: "- (2 ^ 31) \<le> v" "v < 2 ^ 31"
  obtain a b c d where e: "le_bytes 4 v = [a, b, c, d]" using le_bytes_4 by blast
  have "le_val [a, b, c, d] = v mod 2 ^ 32" using le_val_le_bytes [of 4 v] by (simp only: e) simp
  then show ?thesis using decodes_i32_raw [of a b c d] signed_val_mod [of 32 v] v by (simp add: e)
qed

text \<open>The wider integers are two halves, the lower one first.\<close>

lemma decodes_halves:
  assumes "decodes dlo (le_bytes n v) (v mod 256 ^ n)" "decodes dhi (le_bytes m (v div 256 ^ n)) (v div 256 ^ n)"
    "k = 8 * n"
  shows "decodes (dbind dlo (\<lambda>lo. dbind dhi (\<lambda>hi. dret (lo + push_bit k hi)))) (le_bytes (n + m) v) v"
proof -
  have "v mod 256 ^ n + push_bit k (v div 256 ^ n) = v"
  proof -
    have "push_bit k (v div 256 ^ n) = 256 ^ n * (v div 256 ^ n)"
      unfolding assms(3) push_bit_eq_mult power_mult by simp
    then show ?thesis by (simp only: mod_mult_div_eq)
  qed
  then have "decodes (dbind dhi (\<lambda>hi. dret (v mod 256 ^ n + push_bit k hi))) (le_bytes m (v div 256 ^ n)) v"
    using decodes_bind_ret [OF assms(2), of v "\<lambda>hi. v mod 256 ^ n + push_bit k hi"] by simp
  with assms(1) show ?thesis unfolding le_bytes_append by (rule decodes_bind)
qed

lemma decodes_u64: "0 \<le> v \<Longrightarrow> v < 2 ^ 64 \<Longrightarrow> decodes src_u64 (le_bytes 8 v) v"
  unfolding src_u64_def
  using decodes_halves [of src_u32 4 v src_u32 4 32] decodes_u32 [of v] decodes_u32 [of "v div 2 ^ 32"]
  by (simp add: div_less_iff_less_mult)

lemma div_bounds:
  fixes v c a b :: int
  assumes "0 < c" "a * c \<le> v" "v < b * c"
  shows "a \<le> v div c" "v div c < b"
proof -
  show "a \<le> v div c" using zdiv_mono1 [OF assms(2,1)] assms(1) by simp
  show "v div c < b"
  proof (rule ccontr)
    assume "\<not> v div c < b"
    then have "b * c \<le> v div c * c" using assms(1) by simp
    also have "\<dots> \<le> v" using assms(1) div_mult_mod_eq [of v c] pos_mod_sign [of c v] by linarith
    finally show False using assms(3) by simp
  qed
qed

lemma decodes_i64: "- (2 ^ 63) \<le> v \<Longrightarrow> v < 2 ^ 63 \<Longrightarrow> decodes src_i64 (le_bytes 8 v) v"
  unfolding src_i64_def
  using decodes_halves [of src_u32 4 v src_i32 4 32] decodes_u32 [of v] decodes_i32 [of "v div 2 ^ 32"]
    div_bounds [of "2 ^ 32" "- (2 ^ 31)" v "2 ^ 31"]
  by simp

lemma decodes_u128: "0 \<le> v \<Longrightarrow> v < 2 ^ 128 \<Longrightarrow> decodes src_u128 (le_bytes 16 v) v"
  unfolding src_u128_def
  using decodes_halves [of src_u64 8 v src_u64 8 64] decodes_u64 [of "v mod 2 ^ 64"] decodes_u64 [of "v div 2 ^ 64"]
    div_bounds [of "2 ^ 64" 0 v "2 ^ 64"] le_bytes_mod [of 8 v]
  by simp

lemma decodes_i128: "- (2 ^ 127) \<le> v \<Longrightarrow> v < 2 ^ 127 \<Longrightarrow> decodes src_i128 (le_bytes 16 v) v"
  unfolding src_i128_def
  using decodes_halves [of src_u64 8 v src_i64 8 64] decodes_u64 [of "v mod 2 ^ 64"] decodes_i64 [of "v div 2 ^ 64"]
    div_bounds [of "2 ^ 64" "- (2 ^ 63)" v "2 ^ 63"] le_bytes_mod [of 8 v]
  by simp

lemma decodes_u256: "0 \<le> v \<Longrightarrow> v < 2 ^ 256 \<Longrightarrow> decodes src_u256 (le_bytes 32 v) v"
  unfolding src_u256_def
  using decodes_halves [of src_u128 16 v src_u128 16 128] decodes_u128 [of "v mod 2 ^ 128"] decodes_u128 [of "v div 2 ^ 128"]
    div_bounds [of "2 ^ 128" 0 v "2 ^ 128"] le_bytes_mod [of 16 v]
  by simp

lemma decodes_i256: "- (2 ^ 255) \<le> v \<Longrightarrow> v < 2 ^ 255 \<Longrightarrow> decodes src_i256 (le_bytes 32 v) v"
  unfolding src_i256_def
  using decodes_halves [of src_u128 16 v src_i128 16 128] decodes_u128 [of "v mod 2 ^ 128"] decodes_i128 [of "v div 2 ^ 128"]
    div_bounds [of "2 ^ 128" "- (2 ^ 127)" v "2 ^ 127"] le_bytes_mod [of 16 v]
  by simp

section \<open>Compact integers\<close>

text \<open>
  The wire form of a compact integer: two mode bits and the value in one, two or four bytes, or
  a length byte and the shortest little-endian form. The reader returns a number where the value
  has at most six bytes and a bigint beyond.
\<close>

definition compact_bytes :: "int \<Rightarrow> byte list" where
  "compact_bytes n =
     (if n < 64 then le_bytes 1 (n * 4)
      else if n < 2 ^ 14 then le_bytes 2 (n * 4 + 1)
      else if n < 2 ^ 30 then le_bytes 4 (n * 4 + 2)
      else word_of_int (int (unsignedIntByteLength n) * 4 - 13) # le_bytes (unsignedIntByteLength n) n)"

definition compact_val :: "int \<Rightarrow> jsval" where
  "compact_val n = (if n < 2 ^ 48 then JNum n else JBig n)"

lemma unsignedIntByteLength_bounds:
  "0 \<le> v \<Longrightarrow> v < 256 ^ unsignedIntByteLength v \<and> (0 < v \<longrightarrow> 256 ^ (unsignedIntByteLength v - 1) \<le> v)"
proof (induction v rule: unsignedIntByteLength.induct)
  case (1 v)
  show ?case
  proof (cases "0 < v")
    case False
    with 1 show ?thesis by (simp add: unsignedIntByteLength.simps)
  next
    case True
    define q where "q = v div 256"
    have q: "drop_bit 8 v = q" by (simp add: q_def drop_bit_eq_div)
    have v: "v = q * 256 + v mod 256" by (simp add: q_def)
    have m: "0 \<le> v mod 256" "v mod 256 < 256" by simp_all
    have q0: "0 \<le> q" using True by (simp add: q_def pos_imp_zdiv_nonneg_iff)
    have IH: "q < 256 ^ unsignedIntByteLength q" "0 < q \<Longrightarrow> 256 ^ (unsignedIntByteLength q - 1) \<le> q"
      using 1(1) True q0 by (simp_all add: q)
    have len: "unsignedIntByteLength v = unsignedIntByteLength q + 1"
      using True by (subst unsignedIntByteLength.simps) (simp add: q)
    have "v < 256 ^ unsignedIntByteLength v" using IH(1) v m unfolding len by simp
    moreover have "256 ^ (unsignedIntByteLength v - 1) \<le> v"
    proof (cases "q = 0")
      case True
      then show ?thesis using \<open>0 < v\<close> by (simp add: len unsignedIntByteLength.simps [of 0])
    next
      case False
      then have "0 < q" using q0 by simp
      then obtain l where l: "unsignedIntByteLength q = Suc l"
        using unsignedIntByteLength.simps [of q] by auto
      then have "256 ^ l \<le> q" using IH(2) \<open>0 < q\<close> by simp
      then show ?thesis using v m by (simp add: len l)
    qed
    ultimately show ?thesis by simp
  qed
qed

lemma unsignedIntByteLength_le: "0 \<le> v \<Longrightarrow> v < 256 ^ k \<Longrightarrow> unsignedIntByteLength v \<le> k"
proof (rule ccontr)
  assume v: "0 \<le> v" "v < 256 ^ k" and "\<not> unsignedIntByteLength v \<le> k"
  then have k: "k \<le> unsignedIntByteLength v - 1" and "0 < v"
    by (auto intro: ccontr simp: unsignedIntByteLength.simps [of v] not_le split: if_splits)
  have "(256::int) ^ k \<le> 256 ^ (unsignedIntByteLength v - 1)" using k by (intro power_increasing) auto
  also have "\<dots> \<le> v" using unsignedIntByteLength_bounds [OF v(1)] \<open>0 < v\<close> by simp
  finally show False using v by simp
qed

lemma unsignedIntByteLength_gt: "256 ^ k \<le> v \<Longrightarrow> k < unsignedIntByteLength v"
proof (rule ccontr)
  assume v: "256 ^ k \<le> v" and "\<not> k < unsignedIntByteLength v"
  then have "(256::int) ^ unsignedIntByteLength v \<le> 256 ^ k" by (intro power_increasing) auto
  moreover have "0 \<le> v" using v order_trans [of 0 "256 ^ k" v] by simp
  ultimately show False using unsignedIntByteLength_bounds [of v] v by linarith
qed

lemma decodes_bigCompact_loop:
  "0 \<le> v \<Longrightarrow> v < 256 ^ len \<Longrightarrow> decodes (src_bigCompact_loop len n base) (le_bytes len v) (n + push_bit base v)"
proof (induction len arbitrary: v n base)
  case 0
  then show ?case by (auto simp: decodes_def dret_def)
next
  case (Suc len)
  have "0 \<le> v div 256" "v div 256 < 256 ^ len" using Suc.prems by (simp_all add: pos_imp_zdiv_nonneg_iff div_less_iff_less_mult mult.commute)
  note IH = Suc.IH [OF this, of "n + push_bit base (v mod 256)" "base + 8"]
  have "push_bit base (v mod 256) + push_bit (base + 8) (v div 256) = push_bit base v"
  proof -
    have "(2::int) ^ 8 = 256" by simp
    then have "push_bit base (v mod 256) + push_bit (base + 8) (v div 256) = (v mod 256 + 256 * (v div 256)) * 2 ^ base"
      unfolding push_bit_eq_mult power_add by (simp only: distrib_left distrib_right mult.assoc mult.commute mult.left_commute)
    then show ?thesis by (simp only: mod_mult_div_eq push_bit_eq_mult)
  qed
  then have e: "n + push_bit base (v mod 256) + push_bit (base + 8) (v div 256) = n + push_bit base v" by simp
  show ?case
    unfolding src_bigCompact_loop.simps le_bytes.simps
    by (rule decodes_byte_bind) (use IH in \<open>simp only: uint_byte e\<close>)
qed

lemma js_and_3: "js_and b 3 = b mod 4"
  using js_and_mask [of 2 b] by simp

lemma js_shr_2: "0 \<le> b \<Longrightarrow> b < 256 \<Longrightarrow> js_shr b 2 = b div 4"
  using js_shr_nonneg [of b 2] by simp

lemma compact_mode:
  assumes "uint (b :: byte) = 4 * q + m" "0 \<le> m" "m < 4"
  shows "js_and (uint b) 3 = m" "js_shr (uint b) 2 = q"
  using assms uint_byte_bounds [of b] js_and_3 [of "uint b"] js_shr_2 [of "uint b"] by auto

lemma decodes_compact_mode0: "uint b = 4 * q \<Longrightarrow> decodes src_compact [b] (JNum q)"
  using compact_mode [of b q 0] unfolding src_compact_def
  by (intro decodes_byte_bind) (auto simp: Let_def)

lemma decodes_compact_mode1: "uint b = 4 * q + 1 \<Longrightarrow> decodes src_compact [b, c] (JNum (q + uint c * 2 ^ 6))"
  using compact_mode [of b q 1] unfolding src_compact_def
  by (intro decodes_byte_bind) (simp add: Let_def, intro decodes_byte_bind decodes_ret)

lemma decodes_compact_mode2:
  "uint b = 4 * q + 2 \<Longrightarrow>
    decodes src_compact [b, c, d, e] (JNum (q + uint c * 2 ^ 6 + uint d * 2 ^ 14 + uint e * 2 ^ 22))"
  using compact_mode [of b q 2] unfolding src_compact_def
  by (intro decodes_byte_bind) (simp add: Let_def, intro decodes_byte_bind decodes_ret)

lemma decodes_compact_mode3:
  "uint b = 4 * q + 3 \<Longrightarrow> decodes (src_bigCompact (nat q)) cs w \<Longrightarrow> decodes src_compact (b # cs) w"
  using compact_mode [of b q 3] unfolding src_compact_def
  by (intro decodes_byte_bind) (simp add: Let_def)

lemma compact_first_byte:
  assumes "0 \<le> n" "0 \<le> m" "m < 4"
  shows "uint (word_of_int (n * 4 + m) :: byte) = 4 * (n mod 64) + m" "(n * 4 + m) div 256 = n div 64"
proof -
  have e: "(n * 4 + m) mod 4 = m" "(n * 4 + m) div 4 = n" using assms by auto
  have "(n * 4 + m) mod (4 * 64) = 4 * ((n * 4 + m) div 4 mod 64) + (n * 4 + m) mod 4"
    by (rule zmod_zmult2_eq) simp
  then show "uint (word_of_int (n * 4 + m) :: byte) = 4 * (n mod 64) + m" using e by (simp only: uint_byte) simp
  have "(n * 4 + m) div (4 * 64) = (n * 4 + m) div 4 div 64" by (rule zdiv_zmult2_eq) simp
  then show "(n * 4 + m) div 256 = n div 64" using e by simp
qed

lemma decodes_compact_big:
  assumes "2 ^ 30 \<le> n" "n < 2 ^ 536"
  shows "decodes src_compact
    (word_of_int (int (unsignedIntByteLength n) * 4 - 13) # le_bytes (unsignedIntByteLength n) n) (compact_val n)"
proof -
  define len where "len = unsignedIntByteLength n"
  have lo: "4 \<le> len" using unsignedIntByteLength_gt [of 3 n] assms(1) by (simp add: len_def)
  have "n < 256 ^ 67" using assms(2) by (simp add: power_mult [of 2 8 67, symmetric, simplified])
  then have hi: "len \<le> 67" using unsignedIntByteLength_le [of n 67] assms(1) by (simp add: len_def)
  define k where "k = len - 4"
  have k: "len = 4 + k" "int k \<le> 63" using lo hi by (simp_all add: k_def)
  have first: "uint (word_of_int (int len * 4 - 13) :: byte) = 4 * int k + 3"
    using k by (simp only: uint_byte) simp
  define h where "h = n div 256 ^ 4"
  have n: "n mod 2 ^ 32 + push_bit 32 h = n"
    unfolding push_bit_eq_mult using mod_mult_div_eq [of n "2 ^ 32"] by (simp add: h_def)
  have "n < 256 ^ len" using unsignedIntByteLength_bounds [of n] assms(1) by (simp add: len_def)
  then have h: "0 \<le> h" "h < 256 ^ k"
    using assms(1) by (simp_all add: h_def k(1) power_add pos_imp_zdiv_nonneg_iff div_less_iff_less_mult mult.commute)
  have small: "n < 2 ^ 48 \<longleftrightarrow> k \<le> 2"
    using unsignedIntByteLength_le [of n 6] unsignedIntByteLength_gt [of 6 n] assms(1) k(1)
    by (auto simp: len_def not_less intro: ccontr)
  have "decodes (src_bigCompact k) (le_bytes 4 n @ le_bytes k h) (compact_val n)"
    unfolding src_bigCompact_def
  proof (rule decodes_bind [OF decodes_u32])
    consider "k = 0" | "k = 1" | "k = 2" | "2 < k" by linarith
    then show "decodes (if k = 0 then dret (JNum (n mod 2 ^ 32))
       else if k = 1 then dbind src_byte (\<lambda>b. dret (JNum (n mod 2 ^ 32 + b * 2 ^ 32)))
       else if k = 2 then dbind src_byte (\<lambda>b. dbind src_byte (\<lambda>c.
         dret (JNum (n mod 2 ^ 32 + b * 2 ^ 32 + c * 2 ^ 40))))
       else dbind (src_bigCompact_loop k (n mod 2 ^ 32) 32) (\<lambda>n. dret (JBig n))) (le_bytes k h) (compact_val n)"
    proof cases
      case 4
      then have "compact_val n = JBig n" using small by (simp add: compact_val_def)
      moreover have "decodes (dbind (src_bigCompact_loop k (n mod 2 ^ 32) 32) (\<lambda>n. dret (JBig n))) (le_bytes k h) (JBig n)"
        by (rule decodes_bind_ret [OF decodes_bigCompact_loop [OF h]]) (simp only: n)
      ultimately show ?thesis using 4 by simp
    next
      case 1
      then have "h = 0" using h by simp
      then have "n mod 2 ^ 32 = n" using n by simp
      then show ?thesis using 1 small by (auto simp: compact_val_def)
    next
      case 2
      then have "n mod 2 ^ 32 + uint (word_of_int h :: byte) * 2 ^ 32 = n" using h n by (simp add: uint_byte push_bit_eq_mult)
      then have "compact_val n = JNum (n mod 2 ^ 32 + uint (word_of_int h :: byte) * 2 ^ 32)"
        using 2 small by (simp add: compact_val_def)
      moreover have "le_bytes k h = [word_of_int h]" using 2 by simp
      ultimately show ?thesis using 2 by (simp, intro decodes_byte_bind decodes_ret)
    next
      case 3
      have "uint (word_of_int h :: byte) + uint (word_of_int (h div 256) :: byte) * 2 ^ 8 = h"
        using h 3 mod_mult_div_eq [of h 256] by (simp add: uint_byte)
      then have "n mod 2 ^ 32 + uint (word_of_int h :: byte) * 2 ^ 32 + uint (word_of_int (h div 256) :: byte) * 2 ^ 40 = n"
        using n unfolding push_bit_eq_mult by (simp add: algebra_simps)
      then have "compact_val n = JNum (n mod 2 ^ 32 + uint (word_of_int h :: byte) * 2 ^ 32 + uint (word_of_int (h div 256) :: byte) * 2 ^ 40)"
        using 3 small by (simp add: compact_val_def)
      moreover have "le_bytes k h = [word_of_int h, word_of_int (h div 256)]" using 3 by (simp add: numeral_eq_Suc)
      ultimately show ?thesis using 3 by (simp, intro decodes_byte_bind decodes_ret)
    qed
  qed
  then have "decodes src_compact (word_of_int (int len * 4 - 13) # le_bytes 4 n @ le_bytes k h) (compact_val n)"
    using decodes_compact_mode3 [OF first] by simp
  then show ?thesis by (simp only: len_def [symmetric] k(1) le_bytes_append h_def)
qed

lemma decodes_compact_two: "64 \<le> n \<Longrightarrow> n < 2 ^ 14 \<Longrightarrow> decodes src_compact (le_bytes 2 (n * 4 + 1)) (JNum n)"
proof -
  assume n: "64 \<le> n" "n < 2 ^ 14"
  have f: "uint (word_of_int (n * 4 + 1) :: byte) = 4 * (n mod 64) + 1" "(n * 4 + 1) div 256 = n div 64"
    using compact_first_byte [of n 1] n by simp_all
  have "n div 64 < 256" "0 \<le> n div 64" using n by (simp_all add: div_less_iff_less_mult)
  then have "n mod 64 + uint (word_of_int (n div 64) :: byte) * 2 ^ 6 = n" by (simp only: uint_byte) simp
  then have "decodes src_compact [word_of_int (n * 4 + 1), word_of_int (n div 64)] (JNum n)"
    using decodes_compact_mode1 [OF f(1), of "word_of_int (n div 64)"] by (simp only:)
  moreover have "le_bytes 2 (n * 4 + 1) = [word_of_int (n * 4 + 1), word_of_int (n div 64)]"
    by (simp only: numeral_2_eq_2 le_bytes.simps f(2))
  ultimately show ?thesis by (simp only:)
qed

lemma decodes_compact_four: "0 \<le> n \<Longrightarrow> n < 2 ^ 30 \<Longrightarrow> decodes src_compact (le_bytes 4 (n * 4 + 2)) (JNum n)"
proof -
  assume n: "0 \<le> n" "n < 2 ^ 30"
  have f: "uint (word_of_int (n * 4 + 2) :: byte) = 4 * (n mod 64) + 2" "(n * 4 + 2) div 256 = n div 64"
    using compact_first_byte [of n 2] n by simp_all
  define c where "c = n div 64"
  define d where "d = c div 256"
  define e where "e = d div 256"
  have e: "0 \<le> e" "e < 256" using n by (simp_all add: e_def d_def c_def div_less_iff_less_mult)
  have "n mod 64 + c mod 256 * 2 ^ 6 + d mod 256 * 2 ^ 14 + e mod 256 * 2 ^ 22 = n"
    using mod_mult_div_eq [of n 64] mod_mult_div_eq [of c 256] mod_mult_div_eq [of d 256] e
    unfolding c_def [symmetric] d_def [symmetric] e_def [symmetric] by simp
  then have "n mod 64 + uint (word_of_int c :: byte) * 2 ^ 6 + uint (word_of_int d :: byte) * 2 ^ 14
      + uint (word_of_int e :: byte) * 2 ^ 22 = n"
    by (simp only: uint_byte)
  then have "decodes src_compact [word_of_int (n * 4 + 2), word_of_int c, word_of_int d, word_of_int e] (JNum n)"
    using decodes_compact_mode2 [OF f(1), of "word_of_int c" "word_of_int d" "word_of_int e"] by (simp only:)
  moreover have "le_bytes 4 (n * 4 + 2) = [word_of_int (n * 4 + 2), word_of_int c, word_of_int d, word_of_int e]"
    by (simp add: numeral_eq_Suc f(2) [simplified] c_def d_def e_def)
  ultimately show ?thesis by (simp only:)
qed

lemma decodes_compact: "0 \<le> n \<Longrightarrow> n < 2 ^ 536 \<Longrightarrow> decodes src_compact (compact_bytes n) (compact_val n)"
proof -
  assume n: "0 \<le> n" "n < 2 ^ 536"
  consider "n < 64" | "64 \<le> n" "n < 2 ^ 14" | "2 ^ 14 \<le> n" "n < 2 ^ 30" | "2 ^ 30 \<le> n" by linarith
  then show ?thesis
  proof cases
    case 1
    then have "decodes src_compact [word_of_int (n * 4)] (JNum n)"
      using n by (intro decodes_compact_mode0) (simp only: uint_byte, simp)
    with 1 show ?thesis by (simp add: compact_bytes_def compact_val_def)
  next
    case 2
    then show ?thesis using decodes_compact_two [of n] by (simp add: compact_bytes_def compact_val_def)
  next
    case 3
    then show ?thesis using decodes_compact_four [of n] by (simp add: compact_bytes_def compact_val_def)
  next
    case 4
    then show ?thesis using decodes_compact_big [of n] n by (simp add: compact_bytes_def)
  qed
qed

lemma decodes_compactLength: "n < 2 ^ 48 \<Longrightarrow> decodes src_compactLength (compact_bytes (int n)) (int n)"
proof -
  assume n: "n < 2 ^ 48"
  then have "int n < int (2 ^ 48)" by (simp only: of_nat_less_iff)
  then have i: "int n < 2 ^ 48" by simp
  have "decodes src_compact (compact_bytes (int n)) (compact_val (int n))"
    using i by (intro decodes_compact) simp_all
  moreover have "compact_val (int n) = JNum (int n)" using i by (simp add: compact_val_def)
  ultimately show ?thesis
    unfolding src_compactLength_def
    using decodes_bind [of src_compact "compact_bytes (int n)" "JNum (int n)" _ "[]" "int n"] by (simp add: decodes_ret)
qed

lemma decodes_str:
  assumes "decodable s" "length (UTF8_ENCODER_encode s) < 2 ^ 48"
  shows "decodes src_str (compact_bytes (int (length (UTF8_ENCODER_encode s))) @ UTF8_ENCODER_encode s) s"
proof -
  have "decodes (\<lambda>t. rbind (UTF8_DECODER_decode (UTF8_ENCODER_encode s)) (\<lambda>u. Inr (u, t))) [] s"
    using utf8_roundtrip [OF assms(1)] by (simp add: decodes_def)
  note rest = decodes_bind [where d = "src_bytes (int (length (UTF8_ENCODER_encode s)))" and
      f = "\<lambda>buf t. rbind (UTF8_DECODER_decode buf) (\<lambda>u. Inr (u, t))", OF decodes_bytes [OF refl] this]
  show ?thesis
    unfolding src_str_def by (rule decodes_bind [OF decodes_compactLength [OF assms(2)]]) (use rest in simp)
qed

lemma decodes_bool: "decodes src_bool [if b then 1 else 0] b"
proof -
  have "decodes src_bool [x] (uint x \<noteq> 0)" for x
    unfolding src_bool_def by (rule decodes_byte_bind [OF decodes_ret])
  from this [of 0] this [of 1] show ?thesis by (cases b) simp_all
qed

end
