(* ===== verification/Scale_Sink.thy ===== *)
theory Scale_Sink
  imports Scale_Src
begin

text \<open>
  The writers of SCALE data, \<open>substrate/scale-codec/src/sink.ts\<close>. The abstract class \<open>Sink\<close> is a
  record of its two abstract methods; every other method is a function of it. The two concrete
  sinks are \<open>HexSink\<close>, which appends to a string, and \<open>ByteSink\<close>, which fills a buffer that it
  replaces by a larger one when it is full.

  The locale \<open>sink_laws\<close> is the contract of a sink: writing appends. Its lemmas give the bytes
  that every method emits; both sinks are instances of it.
\<close>

section \<open>The abstract sink\<close>

record 's sink_ops =
  sk_write :: "int \<Rightarrow> 's \<Rightarrow> 's result"
  sk_bytes :: "byte list \<Rightarrow> 's \<Rightarrow> 's result"

text \<open>Statements in sequence.\<close>

definition sk_seq :: "('s \<Rightarrow> 's result) \<Rightarrow> ('s \<Rightarrow> 's result) \<Rightarrow> 's \<Rightarrow> 's result" where
  "sk_seq m1 m2 s = rbind (m1 s) m2"

text \<open>A check, and then the statements that use the checked value.\<close>

definition sk_check :: "'a result \<Rightarrow> ('a \<Rightarrow> 's \<Rightarrow> 's result) \<Rightarrow> 's \<Rightarrow> 's result" where
  "sk_check c m s = rbind c (\<lambda>v. m v s)"

definition sink_uncheckedU16 :: "('s, 'z) sink_ops_scheme \<Rightarrow> int \<Rightarrow> 's \<Rightarrow> 's result" where
  "sink_uncheckedU16 k val = sk_seq (sk_write k (js_and val 0xff)) (sk_write k (js_ushr val 8))"

definition sink_uncheckedU32 :: "('s, 'z) sink_ops_scheme \<Rightarrow> int \<Rightarrow> 's \<Rightarrow> 's result" where
  "sink_uncheckedU32 k val =
     sk_seq (sk_write k (js_and val 0xff))
       (sk_seq (sk_write k (js_and (js_ushr val 8) 0xff))
          (sk_seq (sk_write k (js_and (js_ushr val 16) 0xff)) (sk_write k (js_ushr val 24))))"

definition sink_uncheckedU64 :: "('s, 'z) sink_ops_scheme \<Rightarrow> int \<Rightarrow> 's \<Rightarrow> 's result" where
  "sink_uncheckedU64 k val =
     sk_seq (sink_uncheckedU32 k (and val 0xffffffff)) (sink_uncheckedU32 k (drop_bit 32 val))"

definition sink_uncheckedU128 :: "('s, 'z) sink_ops_scheme \<Rightarrow> int \<Rightarrow> 's \<Rightarrow> 's result" where
  "sink_uncheckedU128 k val =
     sk_seq (sink_uncheckedU64 k (and val 0xffffffffffffffff)) (sink_uncheckedU64 k (drop_bit 64 val))"

definition sink_uncheckedU256 :: "('s, 'z) sink_ops_scheme \<Rightarrow> int \<Rightarrow> 's \<Rightarrow> 's result" where
  "sink_uncheckedU256 k val =
     sk_seq (sink_uncheckedU128 k (and val (2 ^ 128 - 1))) (sink_uncheckedU128 k (drop_bit 128 val))"

definition sink_u8 :: "('s, 'z) sink_ops_scheme \<Rightarrow> jsval \<Rightarrow> 's \<Rightarrow> 's result" where
  "sink_u8 k val = sk_check (checkUnsignedInt val 8) (sk_write k)"

definition sink_u16 :: "('s, 'z) sink_ops_scheme \<Rightarrow> jsval \<Rightarrow> 's \<Rightarrow> 's result" where
  "sink_u16 k val = sk_check (checkUnsignedInt val 16) (sink_uncheckedU16 k)"

definition sink_u32 :: "('s, 'z) sink_ops_scheme \<Rightarrow> jsval \<Rightarrow> 's \<Rightarrow> 's result" where
  "sink_u32 k val = sk_check (checkUnsignedInt val 32) (sink_uncheckedU32 k)"

definition sink_u64 :: "('s, 'z) sink_ops_scheme \<Rightarrow> jsval \<Rightarrow> 's \<Rightarrow> 's result" where
  "sink_u64 k val = sk_check (checkUnsignedBigInt val 64) (sink_uncheckedU64 k)"

definition sink_u128 :: "('s, 'z) sink_ops_scheme \<Rightarrow> jsval \<Rightarrow> 's \<Rightarrow> 's result" where
  "sink_u128 k val = sk_check (checkUnsignedBigInt val 128) (sink_uncheckedU128 k)"

definition sink_u256 :: "('s, 'z) sink_ops_scheme \<Rightarrow> jsval \<Rightarrow> 's \<Rightarrow> 's result" where
  "sink_u256 k val = sk_check (checkUnsignedBigInt val 256) (sink_uncheckedU256 k)"

text \<open>The operand of \<open>%\<close> is never negative here, where it is \<open>mod\<close>.\<close>

definition sink_i8 :: "('s, 'z) sink_ops_scheme \<Rightarrow> jsval \<Rightarrow> 's \<Rightarrow> 's result" where
  "sink_i8 k val = sk_check (checkSignedInt val 8) (\<lambda>v. sk_write k ((v + 256) mod 256))"

definition sink_i16 :: "('s, 'z) sink_ops_scheme \<Rightarrow> jsval \<Rightarrow> 's \<Rightarrow> 's result" where
  "sink_i16 k val =
     sk_check (checkSignedInt val 16) (\<lambda>v. sink_uncheckedU16 k ((v + 2 ^ 16) mod 2 ^ 16))"

definition sink_i32 :: "('s, 'z) sink_ops_scheme \<Rightarrow> jsval \<Rightarrow> 's \<Rightarrow> 's result" where
  "sink_i32 k val =
     sk_check (checkSignedInt val 32) (\<lambda>v. sink_uncheckedU32 k ((v + 2 ^ 32) mod 2 ^ 32))"

definition sink_i64 :: "('s, 'z) sink_ops_scheme \<Rightarrow> jsval \<Rightarrow> 's \<Rightarrow> 's result" where
  "sink_i64 k val =
     sk_check (checkSignedBigInt val 64) (\<lambda>v. sink_uncheckedU64 k ((v + 2 ^ 64) mod 2 ^ 64))"

definition sink_i128 :: "('s, 'z) sink_ops_scheme \<Rightarrow> jsval \<Rightarrow> 's \<Rightarrow> 's result" where
  "sink_i128 k val =
     sk_check (checkSignedBigInt val 128) (\<lambda>v. sink_uncheckedU128 k ((v + 2 ^ 128) mod 2 ^ 128))"

definition sink_i256 :: "('s, 'z) sink_ops_scheme \<Rightarrow> jsval \<Rightarrow> 's \<Rightarrow> 's result" where
  "sink_i256 k val =
     sk_check (checkSignedBigInt val 256) (\<lambda>v. sink_uncheckedU256 k ((v + 2 ^ 256) mod 2 ^ 256))"

text \<open>The loop \<open>while (val > 0)\<close> of \<open>compact\<close>.\<close>

function sink_compact_loop :: "('s, 'z) sink_ops_scheme \<Rightarrow> int \<Rightarrow> 's \<Rightarrow> 's result" where
  "sink_compact_loop k val =
     (if val > 0
      then sk_seq (sk_write k (and val 0xff)) (sink_compact_loop k (drop_bit 8 val))
      else Inr)"
  by pat_completeness auto
termination
  by (relation "measure (\<lambda>(_, val). nat val)") (auto simp: drop_bit_eq_div)

declare sink_compact_loop.simps [simp del]

definition sink_compact_num :: "('s, 'z) sink_ops_scheme \<Rightarrow> int \<Rightarrow> 's \<Rightarrow> 's result" where
  "sink_compact_num k val =
     (if val < 64 then sk_write k (val * 4)
      else if val < 2 ^ 14 then
        sk_seq (sk_write k (js_and val 63 * 4 + 1)) (sk_write k (js_ushr val 6))
      else if val < 2 ^ 30 then
        sk_seq (sk_write k (js_and val 63 * 4 + 2))
          (sk_seq (sk_write k (js_and (js_ushr val 6) 0xff)) (sink_uncheckedU16 k (js_ushr val 14)))
      else if val < 2 ^ 536 then
        sk_seq (sk_write k (int (unsignedIntByteLength val) * 4 - 13)) (sink_compact_loop k val)
      else (\<lambda>s. Inl (ThrownError ''too large for a compact'')))"

definition sink_compact :: "('s, 'z) sink_ops_scheme \<Rightarrow> jsval \<Rightarrow> 's \<Rightarrow> 's result" where
  "sink_compact k val =
     (case val of
        JNum n \<Rightarrow> if n \<ge> 0 then sink_compact_num k n else (\<lambda>s. Inl AssertionError)
      | JBig n \<Rightarrow> if n \<ge> 0 then sink_compact_num k n else (\<lambda>s. Inl AssertionError)
      | _ \<Rightarrow> (\<lambda>s. Inl AssertionError))"

definition sink_str :: "('s, 'z) sink_ops_scheme \<Rightarrow> jsval \<Rightarrow> 's \<Rightarrow> 's result" where
  "sink_str k val =
     (case val of
        JStr t \<Rightarrow>
          let b = UTF8_ENCODER_encode t
          in sk_seq (sink_compact k (JNum (int (length b)))) (sk_bytes k b)
      | _ \<Rightarrow> (\<lambda>s. Inl AssertionError))"

definition sink_bool :: "('s, 'z) sink_ops_scheme \<Rightarrow> jsval \<Rightarrow> 's \<Rightarrow> 's result" where
  "sink_bool k val =
     (case val of
        JBool b \<Rightarrow> sk_write k (if b then 1 else 0)
      | _ \<Rightarrow> (\<lambda>s. Inl AssertionError))"

section \<open>HexSink\<close>

text \<open>\<open>Number.prototype.toString(16)\<close> of a natural number.\<close>

function num_to_hex :: "nat \<Rightarrow> jstr" where
  "num_to_hex n = (if n < 16 then [hex_digit n] else num_to_hex (n div 16) @ [hex_digit (n mod 16)])"
  by pat_completeness auto
termination
  by (relation "measure id") auto

declare num_to_hex.simps [simp del]

definition HexSink_new :: jstr where
  "HexSink_new = js ''0x''"

definition HexSink_write :: "int \<Rightarrow> jstr \<Rightarrow> jstr result" where
  "HexSink_write b out =
     (let out1 = out @ num_to_hex (nat (js_ushr b 4))
      in Inr (out1 @ num_to_hex (nat (js_and b 15))))"

definition HexSink_bytes :: "byte list \<Rightarrow> jstr \<Rightarrow> jstr result" where
  "HexSink_bytes b out = Inr (out @ hex_of_bytes b)"

definition HexSink :: "jstr sink_ops" where
  "HexSink = \<lparr>sk_write = HexSink_write, sk_bytes = HexSink_bytes\<rparr>"

section \<open>ByteSink\<close>

text \<open>
  \<open>Buffer.allocUnsafe\<close> returns memory with arbitrary contents: \<open>mem\<close> is what it happens to hold.
  Running out of memory is not modelled.
\<close>

record byte_sink =
  bs_buf :: "byte list"
  bs_pos :: nat

definition allocUnsafe :: "(nat \<Rightarrow> byte) \<Rightarrow> nat \<Rightarrow> byte list" where
  "allocUnsafe mem n = map mem [0 ..< n]"

definition buf_set :: "byte list \<Rightarrow> byte list \<Rightarrow> nat \<Rightarrow> byte list result" where
  \<comment> \<open>\<open>dst.set(source, offset)\<close>\<close>
  "buf_set dst source offset =
     (if offset + length source > length dst then Inl RangeError
      else Inr (take offset dst @ source @ drop (offset + length source) dst))"

definition ByteSink_new :: "(nat \<Rightarrow> byte) \<Rightarrow> byte_sink" where
  "ByteSink_new mem = \<lparr>bs_buf = allocUnsafe mem 128, bs_pos = 0\<rparr>"

definition ByteSink_alloc :: "(nat \<Rightarrow> byte) \<Rightarrow> nat \<Rightarrow> byte_sink \<Rightarrow> byte_sink result" where
  "ByteSink_alloc mem sz s =
     (if int (length (bs_buf s)) - int (bs_pos s) < int sz
      then rbind (buf_set (allocUnsafe mem (max sz (length (bs_buf s)) * 2)) (bs_buf s) 0)
             (\<lambda>buf. Inr (s\<lparr>bs_buf := buf\<rparr>))
      else Inr s)"

definition ByteSink_write :: "(nat \<Rightarrow> byte) \<Rightarrow> int \<Rightarrow> byte_sink \<Rightarrow> byte_sink result" where
  "ByteSink_write mem b s =
     rbind (ByteSink_alloc mem 1 s)
       (\<lambda>s. Inr (s\<lparr>bs_buf := (bs_buf s)[bs_pos s := word_of_int b], bs_pos := bs_pos s + 1\<rparr>))"

definition ByteSink_bytes :: "(nat \<Rightarrow> byte) \<Rightarrow> byte list \<Rightarrow> byte_sink \<Rightarrow> byte_sink result" where
  "ByteSink_bytes mem b s =
     rbind (ByteSink_alloc mem (length b) s)
       (\<lambda>s. rbind (buf_set (bs_buf s) b (bs_pos s))
         (\<lambda>buf. Inr (s\<lparr>bs_buf := buf, bs_pos := bs_pos s + length b\<rparr>)))"

definition ByteSink :: "(nat \<Rightarrow> byte) \<Rightarrow> byte_sink sink_ops" where
  "ByteSink mem = \<lparr>sk_write = ByteSink_write mem, sk_bytes = ByteSink_bytes mem\<rparr>"

definition ByteSink_toBytes :: "byte_sink \<Rightarrow> byte list" where
  "ByteSink_toBytes s = take (bs_pos s) (bs_buf s)"

section \<open>The contract of a sink\<close>

definition emits :: "('s \<Rightarrow> bool) \<Rightarrow> ('s \<Rightarrow> byte list) \<Rightarrow> ('s \<Rightarrow> 's result) \<Rightarrow> byte list \<Rightarrow> bool" where
  "emits ok out m bs \<longleftrightarrow> (\<forall>s. ok s \<longrightarrow> (\<exists>s'. m s = Inr s' \<and> ok s' \<and> out s' = out s @ bs))"

lemma emitsD: "emits ok out m bs \<Longrightarrow> ok s \<Longrightarrow> \<exists>s'. m s = Inr s' \<and> ok s' \<and> out s' = out s @ bs"
  by (simp add: emits_def)

lemma emits_seq: "emits ok out m1 bs \<Longrightarrow> emits ok out m2 cs \<Longrightarrow> emits ok out (sk_seq m1 m2) (bs @ cs)"
  unfolding emits_def sk_seq_def by (metis append_assoc rbind_Inr)

lemma emits_seq_Cons: "emits ok out m1 [b] \<Longrightarrow> emits ok out m2 cs \<Longrightarrow> emits ok out (sk_seq m1 m2) (b # cs)"
  using emits_seq [of ok out m1 "[b]" m2 cs] by simp

lemma emits_nothing [intro]: "emits ok out Inr []"
  by (simp add: emits_def)

lemma emits_check: "c = Inr v \<Longrightarrow> emits ok out (m v) bs \<Longrightarrow> emits ok out (sk_check c m) bs"
  by (simp add: emits_def sk_check_def)

text \<open>A loop emits what its iterations emit.\<close>

lemma emits_rfold:
  "(\<And>x. x \<in> set xs \<Longrightarrow> emits ok out (f x) (g x)) \<Longrightarrow> emits ok out (rfold f xs) (concat (map g xs))"
proof (induction xs)
  case Nil
  then show ?case by (simp add: emits_def)
next
  case (Cons x xs)
  have "emits ok out (sk_seq (f x) (rfold f xs)) (g x @ concat (map g xs))"
    using Cons by (intro emits_seq) auto
  moreover have "sk_seq (f x) (rfold f xs) = rfold f (x # xs)" by (rule ext) (simp add: sk_seq_def)
  ultimately show ?case by (simp del: rfold.simps)
qed

lemma emits_rfold_map:
  "(\<And>x. x \<in> set xs \<Longrightarrow> emits ok out (f (h x)) (g x)) \<Longrightarrow> emits ok out (rfold f (map h xs)) (concat (map g xs))"
  unfolding rfold_map by (rule emits_rfold)

section \<open>Arithmetic of the writers\<close>

lemma byte_eqI: "a mod 256 = b mod 256 \<Longrightarrow> (word_of_int a :: byte) = word_of_int b"
  by (rule word_uint_eqI) (simp add: uint_byte)

lemma le_bytes_4_eq:
  "le_bytes 4 v = [word_of_int v, word_of_int (v div 256), word_of_int (v div 256 div 256),
     word_of_int (v div 256 div 256 div 256)]"
  by (simp add: numeral_eq_Suc)

lemma byte_mod: "(word_of_int (a mod 256) :: byte) = word_of_int a"
  by (rule byte_eqI) simp

lemma js_and_255: "js_and a 0xff = a mod 256"
  using js_and_mask [of 8 a] by simp

lemma js_and_63: "js_and a 63 = a mod 64"
  using js_and_mask [of 6 a] by simp

lemma big_and_mask: "and (v :: int) (2 ^ k - 1) = v mod 2 ^ k"
  by (simp flip: mask_eq_exp_minus_1 take_bit_eq_mask take_bit_eq_mod)

locale sink_laws =
  fixes k :: "'s sink_ops"
    and ok :: "'s \<Rightarrow> bool"
    and out :: "'s \<Rightarrow> byte list"
  assumes write_law: "0 \<le> b \<Longrightarrow> b < 256 \<Longrightarrow> emits ok out (sk_write k b) [word_of_int b]"
    and bytes_law: "emits ok out (sk_bytes k bs) bs"
begin

lemma emits_write: "0 \<le> b \<Longrightarrow> b < 256 \<Longrightarrow> word_of_int b = c \<Longrightarrow> emits ok out (sk_write k b) [c]"
  using write_law by auto

lemma emits_low: "emits ok out (sk_write k (js_and v 0xff)) [word_of_int v]"
  unfolding js_and_255 by (rule emits_write) (simp_all add: byte_mod)

lemma emits_u16_raw:
  assumes "0 \<le> v" "v < 2 ^ 16"
  shows "emits ok out (sink_uncheckedU16 k v) (le_bytes 2 v)"
proof -
  have u: "js_ushr v 8 = v div 256" using js_ushr_nonneg [of v 8] assms by simp
  have "0 \<le> v div 256" "v div 256 < 256" using assms by (simp_all add: div_less_iff_less_mult)
  then have "emits ok out (sk_write k (js_ushr v 8)) [word_of_int (v div 256)]"
    unfolding u by (intro emits_write) auto
  from emits_seq_Cons [OF emits_low this] show ?thesis
    by (simp add: sink_uncheckedU16_def numeral_2_eq_2)
qed

lemma emits_u32_raw:
  assumes "0 \<le> v" "v < 2 ^ 32"
  shows "emits ok out (sink_uncheckedU32 k v) (le_bytes 4 v)"
proof -
  have u: "js_ushr v 8 = v div 256" "js_ushr v 16 = v div 256 div 256" "js_ushr v 24 = v div 256 div 256 div 256"
    using js_ushr_nonneg [of v] assms by (simp_all add: zdiv_zmult2_eq [symmetric])
  have "0 \<le> v div 256 div 256 div 256" "v div 256 div 256 div 256 < 256"
    using assms by (simp_all add: div_less_iff_less_mult)
  then have "emits ok out (sk_write k (js_ushr v 24)) [word_of_int (v div 256 div 256 div 256)]"
    unfolding u by (intro emits_write) auto
  from emits_seq_Cons [OF emits_low emits_seq_Cons [OF emits_low emits_seq_Cons [OF emits_low this]]] show ?thesis
    unfolding sink_uncheckedU32_def u(1,2) le_bytes_4_eq .
qed

text \<open>The wider writers emit two halves.\<close>

lemma emits_halves:
  assumes half: "\<And>w. 0 \<le> w \<Longrightarrow> w < 256 ^ n \<Longrightarrow> emits ok out (m w) (le_bytes n w)"
    and v: "0 \<le> v" "v < 256 ^ n * 256 ^ n" and lo: "lo = v mod 256 ^ n" and hi: "hi = v div 256 ^ n"
  shows "emits ok out (sk_seq (m lo) (m hi)) (le_bytes (n + n) v)"
proof -
  have "emits ok out (m lo) (le_bytes n v)"
    using half [of lo] by (simp add: lo le_bytes_mod)
  moreover have "emits ok out (m hi) (le_bytes n (v div 256 ^ n))"
    using half [of hi] v div_bounds [of "256 ^ n" 0 v "256 ^ n"] by (simp add: hi)
  ultimately show ?thesis unfolding le_bytes_append by (rule emits_seq)
qed

lemma emits_u64_raw: "0 \<le> v \<Longrightarrow> v < 2 ^ 64 \<Longrightarrow> emits ok out (sink_uncheckedU64 k v) (le_bytes 8 v)"
  unfolding sink_uncheckedU64_def
  using emits_halves [of 4 "sink_uncheckedU32 k" v] emits_u32_raw big_and_mask [of v 32]
  by (simp add: drop_bit_eq_div)

lemma emits_u128_raw: "0 \<le> v \<Longrightarrow> v < 2 ^ 128 \<Longrightarrow> emits ok out (sink_uncheckedU128 k v) (le_bytes 16 v)"
  unfolding sink_uncheckedU128_def
  using emits_halves [of 8 "sink_uncheckedU64 k" v] emits_u64_raw big_and_mask [of v 64]
  by (simp add: drop_bit_eq_div)

lemma emits_u256_raw: "0 \<le> v \<Longrightarrow> v < 2 ^ 256 \<Longrightarrow> emits ok out (sink_uncheckedU256 k v) (le_bytes 32 v)"
  unfolding sink_uncheckedU256_def
  using emits_halves [of 16 "sink_uncheckedU128 k" v] emits_u128_raw big_and_mask [of v 128]
  by (simp add: drop_bit_eq_div)

lemma emits_unsigned:
  "0 \<le> v \<Longrightarrow> v < 2 ^ 8 \<Longrightarrow> emits ok out (sink_u8 k (JNum v)) (le_bytes 1 v)"
  "0 \<le> v \<Longrightarrow> v < 2 ^ 16 \<Longrightarrow> emits ok out (sink_u16 k (JNum v)) (le_bytes 2 v)"
  "0 \<le> v \<Longrightarrow> v < 2 ^ 32 \<Longrightarrow> emits ok out (sink_u32 k (JNum v)) (le_bytes 4 v)"
  "0 \<le> v \<Longrightarrow> v < 2 ^ 64 \<Longrightarrow> emits ok out (sink_u64 k (JBig v)) (le_bytes 8 v)"
  "0 \<le> v \<Longrightarrow> v < 2 ^ 128 \<Longrightarrow> emits ok out (sink_u128 k (JBig v)) (le_bytes 16 v)"
  "0 \<le> v \<Longrightarrow> v < 2 ^ 256 \<Longrightarrow> emits ok out (sink_u256 k (JBig v)) (le_bytes 32 v)"
  unfolding sink_u8_def sink_u16_def sink_u32_def sink_u64_def sink_u128_def sink_u256_def
  by (rule emits_check, simp add: check_defs,
      simp add: write_law emits_u16_raw emits_u32_raw emits_u64_raw emits_u128_raw emits_u256_raw)+

lemma le_bytes_wrap: "le_bytes n ((v + 256 ^ n) mod 256 ^ n) = le_bytes n v"
  using le_bytes_mod [of n v] by simp

lemma emits_signed:
  "- (2 ^ 7) \<le> v \<Longrightarrow> v < 2 ^ 7 \<Longrightarrow> emits ok out (sink_i8 k (JNum v)) (le_bytes 1 v)"
  "- (2 ^ 15) \<le> v \<Longrightarrow> v < 2 ^ 15 \<Longrightarrow> emits ok out (sink_i16 k (JNum v)) (le_bytes 2 v)"
  "- (2 ^ 31) \<le> v \<Longrightarrow> v < 2 ^ 31 \<Longrightarrow> emits ok out (sink_i32 k (JNum v)) (le_bytes 4 v)"
  "- (2 ^ 63) \<le> v \<Longrightarrow> v < 2 ^ 63 \<Longrightarrow> emits ok out (sink_i64 k (JBig v)) (le_bytes 8 v)"
  "- (2 ^ 127) \<le> v \<Longrightarrow> v < 2 ^ 127 \<Longrightarrow> emits ok out (sink_i128 k (JBig v)) (le_bytes 16 v)"
  "- (2 ^ 255) \<le> v \<Longrightarrow> v < 2 ^ 255 \<Longrightarrow> emits ok out (sink_i256 k (JBig v)) (le_bytes 32 v)"
  unfolding sink_i8_def sink_i16_def sink_i32_def sink_i64_def sink_i128_def sink_i256_def
  subgoal by (rule emits_check, simp add: check_defs) (simp add: emits_write byte_mod)
  subgoal by (rule emits_check, simp add: check_defs) (use emits_u16_raw [of "v mod 2 ^ 16"] le_bytes_mod [of 2 v] in simp)
  subgoal by (rule emits_check, simp add: check_defs) (use emits_u32_raw [of "v mod 2 ^ 32"] le_bytes_mod [of 4 v] in simp)
  subgoal by (rule emits_check, simp add: check_defs) (use emits_u64_raw [of "v mod 2 ^ 64"] le_bytes_mod [of 8 v] in simp)
  subgoal by (rule emits_check, simp add: check_defs) (use emits_u128_raw [of "v mod 2 ^ 128"] le_bytes_mod [of 16 v] in simp)
  subgoal by (rule emits_check, simp add: check_defs) (use emits_u256_raw [of "v mod 2 ^ 256"] le_bytes_mod [of 32 v] in simp)
  done

lemma emits_bool: "emits ok out (sink_bool k (JBool b)) [if b then 1 else 0]"
  using write_law [of 0] write_law [of 1] by (simp add: sink_bool_def)

end

text \<open>Compact integers and strings.\<close>

lemma compact_byte: "0 \<le> m \<Longrightarrow> m < 4 \<Longrightarrow> (word_of_int (v mod 64 * 4 + m) :: byte) = word_of_int (v * 4 + m)"
proof (rule byte_eqI)
  have "(v mod 64 * 4) mod 256 = (v * 4) mod 256"
    using mult_mod_right [of 4 v 64] by (simp add: mult.commute)
  then show "(v mod 64 * 4 + m) mod 256 = (v * 4 + m) mod 256" by (metis mod_add_left_eq)
qed

context sink_laws
begin

lemma emits_compact_loop:
  "0 \<le> v \<Longrightarrow> emits ok out (sink_compact_loop k v) (le_bytes (unsignedIntByteLength v) v)"
proof (induction v rule: unsignedIntByteLength.induct)
  case (1 v)
  show ?case
  proof (cases "v > 0")
    case False
    then show ?thesis by (simp add: sink_compact_loop.simps unsignedIntByteLength.simps [of v] emits_nothing)
  next
    case True
    have d: "drop_bit 8 v = v div 256" by (simp add: drop_bit_eq_div)
    have "0 \<le> v div 256" using True by (simp add: pos_imp_zdiv_nonneg_iff)
    then have "emits ok out (sink_compact_loop k (v div 256)) (le_bytes (unsignedIntByteLength (v div 256)) (v div 256))"
      using 1(1) [OF True] by (simp add: d)
    moreover have "emits ok out (sk_write k (and v 0xff)) [word_of_int v]"
      using big_and_mask [of v 8] emits_write [of "v mod 256"] byte_mod [of v] by simp
    ultimately show ?thesis
      using True emits_seq_Cons
      by (simp add: sink_compact_loop.simps [of k v] unsignedIntByteLength.simps [of v] d)
  qed
qed

lemma emits_compact_num:
  assumes "0 \<le> v" "v < 2 ^ 536"
  shows "emits ok out (sink_compact_num k v) (compact_bytes v)"
proof -
  consider "v < 64" | "64 \<le> v" "v < 2 ^ 14" | "2 ^ 14 \<le> v" "v < 2 ^ 30" | "2 ^ 30 \<le> v" by linarith
  then show ?thesis
  proof cases
    case 1
    then show ?thesis using assms by (simp add: sink_compact_num_def compact_bytes_def emits_write)
  next
    case 2
    have u: "js_ushr v 6 = v div 64" using js_ushr_nonneg [of v 6] 2 by simp
    have "emits ok out (sk_write k (v mod 64 * 4 + 1)) [word_of_int (v * 4 + 1)]"
      using pos_mod_bound [of 64 v] compact_byte [of 1 v] by (intro emits_write) simp_all
    moreover have "v div 64 < 256" "0 \<le> v div 64" using 2 by (simp_all add: div_less_iff_less_mult)
    then have "emits ok out (sk_write k (v div 64)) [word_of_int (v div 64)]" by (intro emits_write) simp_all
    ultimately have "emits ok out (sk_seq (sk_write k (v mod 64 * 4 + 1)) (sk_write k (v div 64)))
        [word_of_int (v * 4 + 1), word_of_int (v div 64)]"
      by (rule emits_seq_Cons)
    moreover have "le_bytes 2 (v * 4 + 1) = [word_of_int (v * 4 + 1), word_of_int (v div 64)]"
      using compact_first_byte(2) [of v 1] 2 by (simp only: numeral_2_eq_2 le_bytes.simps)
    ultimately show ?thesis using 2 by (simp add: sink_compact_num_def compact_bytes_def u js_and_63)
  next
    case 3
    have u: "js_ushr v 6 = v div 64" "js_ushr v 14 = v div 64 div 256"
      using js_ushr_nonneg [of v] 3 by (simp_all add: zdiv_zmult2_eq [symmetric])
    have "emits ok out (sk_write k (v mod 64 * 4 + 2)) [word_of_int (v * 4 + 2)]"
      using pos_mod_bound [of 64 v] compact_byte [of 2 v] by (intro emits_write) simp_all
    moreover have "v div 64 div 256 < 2 ^ 16" "0 \<le> v div 64 div 256" using 3 by (simp_all add: div_less_iff_less_mult)
    then have "emits ok out (sink_uncheckedU16 k (v div 64 div 256)) (le_bytes 2 (v div 64 div 256))"
      by (intro emits_u16_raw)
    ultimately have "emits ok out (sk_seq (sk_write k (v mod 64 * 4 + 2))
        (sk_seq (sk_write k (js_and (v div 64) 0xff)) (sink_uncheckedU16 k (v div 64 div 256))))
        (word_of_int (v * 4 + 2) # word_of_int (v div 64) # le_bytes 2 (v div 64 div 256))"
      by (intro emits_seq_Cons emits_low)
    moreover have "le_bytes 4 (v * 4 + 2) = word_of_int (v * 4 + 2) # word_of_int (v div 64) # le_bytes 2 (v div 64 div 256)"
      using compact_first_byte(2) [of v 2] 3 by (simp only: le_bytes_4_eq) (simp add: numeral_2_eq_2)
    ultimately show ?thesis using 3 by (simp add: sink_compact_num_def compact_bytes_def u js_and_63)
  next
    case 4
    have "4 \<le> unsignedIntByteLength v" using unsignedIntByteLength_gt [of 3 v] 4 by simp
    moreover have "v < 256 ^ 67" using assms(2) by (simp add: power_mult [of 2 8 67, symmetric, simplified])
    then have "unsignedIntByteLength v \<le> 67" using unsignedIntByteLength_le [of v 67] assms(1) by simp
    ultimately have "emits ok out (sk_write k (int (unsignedIntByteLength v) * 4 - 13))
        [word_of_int (int (unsignedIntByteLength v) * 4 - 13)]"
      by (intro emits_write) simp_all
    from emits_seq_Cons [OF this emits_compact_loop [OF assms(1)]] show ?thesis
      using 4 assms by (simp add: sink_compact_num_def compact_bytes_def)
  qed
qed

lemma emits_compact:
  "0 \<le> v \<Longrightarrow> v < 2 ^ 536 \<Longrightarrow> emits ok out (sink_compact k (JNum v)) (compact_bytes v)"
  "0 \<le> v \<Longrightarrow> v < 2 ^ 536 \<Longrightarrow> emits ok out (sink_compact k (JBig v)) (compact_bytes v)"
  using emits_compact_num by (simp_all add: sink_compact_def)

lemma emits_length: "length bs < 2 ^ 48 \<Longrightarrow> emits ok out (sink_compact k (JNum (int (length bs)))) (compact_bytes (int (length bs)))"
proof -
  assume n: "length bs < 2 ^ 48"
  then have "int (length bs) < int (2 ^ 48)" by (simp only: of_nat_less_iff)
  then show ?thesis by (intro emits_compact) simp_all
qed

lemma emits_str:
  "length (UTF8_ENCODER_encode s) < 2 ^ 48 \<Longrightarrow> emits ok out (sink_str k (JStr s))
     (compact_bytes (int (length (UTF8_ENCODER_encode s))) @ UTF8_ENCODER_encode s)"
  by (simp add: sink_str_def Let_def emits_seq [OF emits_length bytes_law])

end

section \<open>The sinks of the codec\<close>

definition hex_sink_ok :: "jstr \<Rightarrow> bool" where
  "hex_sink_ok s \<longleftrightarrow> s = js ''0x'' @ hex_of_bytes (bytes_of_hex (drop 2 s))"

definition hex_sink_out :: "jstr \<Rightarrow> byte list" where
  "hex_sink_out s = bytes_of_hex (drop 2 s)"

lemma hex_sink_okI: "hex_sink_ok (js ''0x'' @ hex_of_bytes bs)" "hex_sink_out (js ''0x'' @ hex_of_bytes bs) = bs"
  by (simp_all add: hex_sink_ok_def hex_sink_out_def js_0x)

lemma hex_sink_okD: "hex_sink_ok s \<Longrightarrow> s = js ''0x'' @ hex_of_bytes (hex_sink_out s)"
  by (simp add: hex_sink_ok_def hex_sink_out_def)

lemma hex_sink_emits:
  "(\<And>s. m s = Inr (s @ hex_of_bytes bs)) \<Longrightarrow> emits hex_sink_ok hex_sink_out m bs"
  unfolding emits_def
proof (intro allI impI)
  fix s assume m: "\<And>s. m s = Inr (s @ hex_of_bytes bs)" and "hex_sink_ok s"
  then have "s = js ''0x'' @ hex_of_bytes (hex_sink_out s)" by (rule_tac hex_sink_okD)
  then have "s @ hex_of_bytes bs = js ''0x'' @ hex_of_bytes (hex_sink_out s @ bs)"
    by (metis append_assoc hex_of_bytes_append)
  then show "\<exists>s'. m s = Inr s' \<and> hex_sink_ok s' \<and> hex_sink_out s' = hex_sink_out s @ bs"
    using m hex_sink_okI by metis
qed

lemma num_to_hex_digit: "n < 16 \<Longrightarrow> num_to_hex n = [hex_digit n]"
  by (subst num_to_hex.simps) simp

lemma HexSink_write_byte:
  assumes "0 \<le> b" "b < 256"
  shows "HexSink_write b s = Inr (s @ hex_of_bytes [word_of_int b])"
proof -
  have "js_ushr b 4 = b div 16" "js_and b 15 = b mod 16"
    using js_ushr_nonneg [of b 4] js_and_mask [of 4 b] assms by simp_all
  moreover have "unat (word_of_int b :: byte) = nat b"
    using assms by (simp add: unat_eq_nat_uint uint_byte)
  moreover have "nat (b div 16) < 16" "nat (b mod 16) < 16" using assms by (simp_all add: nat_less_iff div_less_iff_less_mult)
  ultimately show ?thesis
    using assms by (simp add: HexSink_write_def num_to_hex_digit nat_div_distrib nat_mod_distrib)
qed

interpretation hex: sink_laws HexSink hex_sink_ok hex_sink_out
proof
  show "emits hex_sink_ok hex_sink_out (sk_write HexSink b) [word_of_int b]" if "0 \<le> b" "b < 256" for b
    by (rule hex_sink_emits) (simp add: HexSink_def HexSink_write_byte that del: hex_of_bytes.simps)
  show "emits hex_sink_ok hex_sink_out (sk_bytes HexSink bs) bs" for bs
    by (rule hex_sink_emits) (simp add: HexSink_def HexSink_bytes_def)
qed

definition byte_sink_ok :: "byte_sink \<Rightarrow> bool" where
  "byte_sink_ok s \<longleftrightarrow> bs_pos s \<le> length (bs_buf s)"

lemma ByteSink_alloc_ok:
  assumes "byte_sink_ok s"
  shows "\<exists>s'. ByteSink_alloc mem sz s = Inr s' \<and> bs_pos s' = bs_pos s \<and>
    bs_pos s + sz \<le> length (bs_buf s') \<and> ByteSink_toBytes s' = ByteSink_toBytes s"
  using assms
  by (auto simp: ByteSink_alloc_def buf_set_def allocUnsafe_def byte_sink_ok_def ByteSink_toBytes_def)

interpretation bytes: sink_laws "ByteSink mem" byte_sink_ok ByteSink_toBytes for mem
proof
  show "emits byte_sink_ok ByteSink_toBytes (sk_write (ByteSink mem) b) [word_of_int b]" for b
    unfolding emits_def
  proof (intro allI impI)
    fix s assume "byte_sink_ok s"
    from ByteSink_alloc_ok [OF this, of mem 1] obtain t where
      t: "ByteSink_alloc mem 1 s = Inr t" "bs_pos t = bs_pos s" "bs_pos s < length (bs_buf t)"
        "ByteSink_toBytes t = ByteSink_toBytes s"
      by auto
    then show "\<exists>s'. sk_write (ByteSink mem) b s = Inr s' \<and> byte_sink_ok s' \<and>
        ByteSink_toBytes s' = ByteSink_toBytes s @ [word_of_int b]"
      by (auto simp: ByteSink_def ByteSink_write_def byte_sink_ok_def ByteSink_toBytes_def take_Suc_conv_app_nth)
  qed
  show "emits byte_sink_ok ByteSink_toBytes (sk_bytes (ByteSink mem) bs) bs" for bs
    unfolding emits_def
  proof (intro allI impI)
    fix s assume ok: "byte_sink_ok s"
    from ByteSink_alloc_ok [OF this, of mem "length bs"] obtain t where
      t: "ByteSink_alloc mem (length bs) s = Inr t" "bs_pos t = bs_pos s" "bs_pos s + length bs \<le> length (bs_buf t)"
        "ByteSink_toBytes t = ByteSink_toBytes s"
      by auto
    with ok show "\<exists>s'. sk_bytes (ByteSink mem) bs s = Inr s' \<and> byte_sink_ok s' \<and>
        ByteSink_toBytes s' = ByteSink_toBytes s @ bs"
      by (auto simp: ByteSink_def ByteSink_bytes_def byte_sink_ok_def ByteSink_toBytes_def buf_set_def)
  qed
qed

end
