(* ===== verification/Scale_Codec.thy ===== *)
theory Scale_Codec
  imports Scale_Sink
begin

text \<open>
  The SCALE codec, \<open>substrate/scale-codec/src/codec.ts\<close>: the encoder and the decoder that
  interpret a type registry. Both recurse through the registry, which may be cyclic, on the call
  stack: \<open>depth\<close> is the number of frames of \<open>decode\<close> or \<open>encode\<close> that fit on it, and running out
  of it is the \<open>RangeError\<close> of the engine.

  \<open>wire\<close> is the specification: the inductive relation between a type, a value and its SCALE
  form. The encoder and the decoder both implement it, for every depth above a bound that the
  value determines.
\<close>

section \<open>Decoding\<close>

definition decodeBytes :: "byte list dec" where
  "decodeBytes = dbind src_compactLength src_bytes"

definition ceil8 :: "int \<Rightarrow> int" where
  \<comment> \<open>\<open>Math.ceil(n / 8)\<close>\<close>
  "ceil8 n = - ((- n) div 8)"

definition decodeBitSequence :: "jsval dec" where
  "decodeBitSequence =
     dbind src_compactLength (\<lambda>bitLength. dbind (src_bytes (ceil8 bitLength)) (\<lambda>bytes.
       dret (JObj [(js ''bytes'', JBytes bytes), (js ''bitLength'', JNum bitLength)])))"

definition decodeBooleanOption :: "jsval dec" where
  "decodeBooleanOption =
     dbind src_u8 (\<lambda>byte.
       if byte = 0 then dret JNull
       else if byte = 1 then dret (JBool True)
       else if byte = 2 then dret (JBool False)
       else dfail (ThrownError ''Unexpected case''))"

definition to_BigInt :: "jsval \<Rightarrow> jsval" where
  \<comment> \<open>\<open>BigInt(n)\<close> of a \<open>number | bigint\<close>\<close>
  "to_BigInt v = (case v of JNum n \<Rightarrow> JBig n | _ \<Rightarrow> v)"

definition decodeCompact :: "primitive \<Rightarrow> jsval dec" where
  "decodeCompact integer =
     dbind src_compact (\<lambda>n. if integer \<in> {U8, U16, U32} then dret n else dret (to_BigInt n))"

definition decodePrimitive :: "primitive \<Rightarrow> jsval dec" where
  "decodePrimitive type =
     (case type of
        I8 \<Rightarrow> dbind src_i8 (\<lambda>v. dret (JNum v))
      | U8 \<Rightarrow> dbind src_u8 (\<lambda>v. dret (JNum v))
      | I16 \<Rightarrow> dbind src_i16 (\<lambda>v. dret (JNum v))
      | U16 \<Rightarrow> dbind src_u16 (\<lambda>v. dret (JNum v))
      | I32 \<Rightarrow> dbind src_i32 (\<lambda>v. dret (JNum v))
      | U32 \<Rightarrow> dbind src_u32 (\<lambda>v. dret (JNum v))
      | I64 \<Rightarrow> dbind src_i64 (\<lambda>v. dret (JBig v))
      | U64 \<Rightarrow> dbind src_u64 (\<lambda>v. dret (JBig v))
      | I128 \<Rightarrow> dbind src_i128 (\<lambda>v. dret (JBig v))
      | U128 \<Rightarrow> dbind src_u128 (\<lambda>v. dret (JBig v))
      | I256 \<Rightarrow> dbind src_i256 (\<lambda>v. dret (JBig v))
      | U256 \<Rightarrow> dbind src_u256 (\<lambda>v. dret (JBig v))
      | Bool \<Rightarrow> dbind src_bool (\<lambda>v. dret (JBool v))
      | Str \<Rightarrow> dbind src_str (\<lambda>v. dret (JStr v))
      | Char \<Rightarrow> dfail (ThrownError ''Unexpected case''))"

text \<open>
  The methods that recurse take the decoder as an argument. \<open>new Array(len)\<close> is a
  \<open>RangeError\<close> for a length of more than 32 bits.
\<close>

fun dec_times :: "nat \<Rightarrow> 'a dec \<Rightarrow> 'a list dec" where
  "dec_times 0 d = dret []"
| "dec_times (Suc n) d = dbind d (\<lambda>v. dbind (dec_times n d) (\<lambda>vs. dret (v # vs)))"

fun dec_each :: "('k \<Rightarrow> 'a dec) \<Rightarrow> 'k list \<Rightarrow> 'a list dec" where
  "dec_each rec [] = dret []"
| "dec_each rec (t # ts) = dbind (rec t) (\<lambda>v. dbind (dec_each rec ts) (\<lambda>vs. dret (v # vs)))"

fun dec_fields :: "(ti \<Rightarrow> jsval dec) \<Rightarrow> (jstr \<times> ti) list \<Rightarrow> (jstr \<times> jsval) list \<Rightarrow> (jstr \<times> jsval) list dec" where
  "dec_fields rec [] obj = dret obj"
| "dec_fields rec ((name, t) # fs) obj = dbind (rec t) (\<lambda>v. dec_fields rec fs (obj_set name v obj))"

definition decodeArray :: "(ti \<Rightarrow> jsval dec) \<Rightarrow> nat \<Rightarrow> ti \<Rightarrow> jsval dec" where
  "decodeArray rec len type =
     (if len \<ge> 2 ^ 32 then dfail RangeError
      else dbind (dec_times len (rec type)) (\<lambda>vs. dret (JArr vs)))"

definition decodeSequence :: "(ti \<Rightarrow> jsval dec) \<Rightarrow> ti \<Rightarrow> jsval dec" where
  "decodeSequence rec type =
     dbind src_compactLength (\<lambda>len.
       if len \<ge> 2 ^ 32 then dfail RangeError
       else dbind (dec_times (nat len) (rec type)) (\<lambda>vs. dret (JArr vs)))"

definition decodeTuple :: "(ti \<Rightarrow> jsval dec) \<Rightarrow> ti list \<Rightarrow> jsval dec" where
  "decodeTuple rec tuple =
     (if length tuple = 0 then dret JNull
      else dbind (dec_each rec tuple) (\<lambda>vs. dret (JArr vs)))"

definition decodeStruct :: "(ti \<Rightarrow> jsval dec) \<Rightarrow> (jstr \<times> ti) list \<Rightarrow> (jstr \<times> jsval) list dec" where
  "decodeStruct rec fs = dec_fields rec fs []"

definition decodeVariant :: "(ti \<Rightarrow> jsval dec) \<Rightarrow> codec_variant option list \<Rightarrow> jsval dec" where
  "decodeVariant rec variants =
     dbind src_u8 (\<lambda>idx.
       case (if nat idx < length variants then variants ! nat idx else None) of
         None \<Rightarrow> dfail (ThrownError ''unknown variant index'')
       | Some (CodecEmptyVariant name index) \<Rightarrow> dret (JObj [(js ''__kind'', JStr name)])
       | Some (CodecTupleVariant name index tuple) \<Rightarrow>
           dbind (decodeTuple rec tuple) (\<lambda>v. dret (JObj [(js ''__kind'', JStr name), (js ''value'', v)]))
       | Some (CodecValueVariant name index type) \<Rightarrow>
           dbind (rec type) (\<lambda>v. dret (JObj [(js ''__kind'', JStr name), (js ''value'', v)]))
       | Some (CodecStructVariant name index fs) \<Rightarrow>
           dbind (decodeStruct rec fs) (\<lambda>obj. dret (JObj (obj_set (js ''__kind'') (JStr name) obj))))"

definition decodeOption :: "(ti \<Rightarrow> jsval dec) \<Rightarrow> ti \<Rightarrow> jsval dec" where
  "decodeOption rec type =
     dbind src_u8 (\<lambda>byte.
       if byte = 0 then dret JUndef
       else if byte = 1 then rec type
       else dfail (ThrownError ''Unexpected case''))"

fun decode :: "codec_type list \<Rightarrow> nat \<Rightarrow> ti \<Rightarrow> jsval dec" where
  "decode types 0 type = dfail RangeError"
| "decode types (Suc depth) type =
     (if type \<ge> length types then dfail TypeError
      else case types ! type of
        CPrimitive p \<Rightarrow> decodePrimitive p
      | CCompact p \<Rightarrow> decodeCompact p
      | CBitSequence s ord \<Rightarrow> decodeBitSequence
      | CArray len t \<Rightarrow> decodeArray (decode types depth) len t
      | CSequence t \<Rightarrow> decodeSequence (decode types depth) t
      | CTuple ts \<Rightarrow> decodeTuple (decode types depth) ts
      | CStruct fs \<Rightarrow> dbind (decodeStruct (decode types depth) fs) (\<lambda>obj. dret (JObj obj))
      | CVariant variants byName \<Rightarrow> decodeVariant (decode types depth) variants
      | COption t \<Rightarrow> decodeOption (decode types depth) t
      | CBooleanOption \<Rightarrow> decodeBooleanOption
      | CBytes \<Rightarrow> dbind decodeBytes (\<lambda>b. dret (JBytes b))
      | CBytesArray len \<Rightarrow> dbind (src_bytes (int len)) (\<lambda>b. dret (JBytes b))
      | CHexBytes \<Rightarrow> dbind decodeBytes (\<lambda>b. dret (JStr (toHex b 0 (length b))))
      | CHexBytesArray len \<Rightarrow> dbind (src_bytes (int len)) (\<lambda>b. dret (JStr (toHex b 0 (length b))))
      | CDoNotConstruct \<Rightarrow> dfail (ThrownError ''DoNotConstruct type reached''))"

definition decodeBinary :: "codec_type list \<Rightarrow> nat \<Rightarrow> ti \<Rightarrow> jsval \<Rightarrow> jsval result" where
  "decodeBinary types depth type data =
     rbind (Src data) (\<lambda>src. rbind (decode types depth type src) (\<lambda>(val, src').
       rbind (src_assertEOF src') (\<lambda>_. Inr val)))"

section \<open>Encoding\<close>

definition sk_fail :: "js_error \<Rightarrow> 's \<Rightarrow> 's result" where
  "sk_fail e s = Inl e"

definition encodeBytes :: "'s sink_ops \<Rightarrow> jsval \<Rightarrow> 's \<Rightarrow> 's result" where
  "encodeBytes k val =
     (case val of
        JBytes b \<Rightarrow> sk_seq (sink_compact k (JNum (int (length b)))) (sk_bytes k b)
      | _ \<Rightarrow> sk_fail AssertionError)"

definition encodeBytesArray :: "'s sink_ops \<Rightarrow> nat \<Rightarrow> jsval \<Rightarrow> 's \<Rightarrow> 's result" where
  "encodeBytesArray k len val =
     (case val of
        JBytes b \<Rightarrow> if length b = len then sk_bytes k b else sk_fail AssertionError
      | _ \<Rightarrow> sk_fail AssertionError)"

definition encodeBitSequence :: "'s sink_ops \<Rightarrow> jsval \<Rightarrow> 's \<Rightarrow> 's result" where
  "encodeBitSequence k val =
     (case (js_get val (js ''bitLength''), js_get val (js ''bytes'')) of
        (Inr (JNum bitLength), Inr (JBytes b)) \<Rightarrow>
          if ceil8 bitLength = int (length b)
          then sk_seq (sink_compact k (JNum bitLength)) (sk_bytes k b)
          else sk_fail AssertionError
      | _ \<Rightarrow> sk_fail AssertionError)"

definition encodeBooleanOption :: "'s sink_ops \<Rightarrow> jsval \<Rightarrow> 's \<Rightarrow> 's result" where
  "encodeBooleanOption k val =
     (if is_nullish val then sink_u8 k (JNum 0)
      else case val of
        JBool b \<Rightarrow> sink_u8 k (JNum (if b then 1 else 2))
      | _ \<Rightarrow> sk_fail AssertionError)"

definition encodePrimitive :: "'s sink_ops \<Rightarrow> primitive \<Rightarrow> jsval \<Rightarrow> 's \<Rightarrow> 's result" where
  "encodePrimitive k type val =
     (case type of
        I8 \<Rightarrow> sink_i8 k val
      | U8 \<Rightarrow> sink_u8 k val
      | I16 \<Rightarrow> sink_i16 k val
      | U16 \<Rightarrow> sink_u16 k val
      | I32 \<Rightarrow> sink_i32 k val
      | U32 \<Rightarrow> sink_u32 k val
      | I64 \<Rightarrow> sink_i64 k val
      | U64 \<Rightarrow> sink_u64 k val
      | I128 \<Rightarrow> sink_i128 k val
      | U128 \<Rightarrow> sink_u128 k val
      | I256 \<Rightarrow> sink_i256 k val
      | U256 \<Rightarrow> sink_u256 k val
      | Bool \<Rightarrow> sink_bool k val
      | Str \<Rightarrow> sink_str k val
      | Char \<Rightarrow> sk_fail (ThrownError ''Unexpected case''))"

type_synonym 's enc = "ti \<Rightarrow> jsval \<Rightarrow> 's \<Rightarrow> 's result"

definition encodeArray :: "'s enc \<Rightarrow> nat \<Rightarrow> ti \<Rightarrow> jsval \<Rightarrow> 's \<Rightarrow> 's result" where
  "encodeArray rec len type val =
     (case val of
        JArr vs \<Rightarrow> if length vs = len then rfold (rec type) vs else sk_fail AssertionError
      | _ \<Rightarrow> sk_fail AssertionError)"

definition encodeSequence :: "'s sink_ops \<Rightarrow> 's enc \<Rightarrow> ti \<Rightarrow> jsval \<Rightarrow> 's \<Rightarrow> 's result" where
  "encodeSequence k rec type val =
     (case val of
        JArr vs \<Rightarrow> sk_seq (sink_compact k (JNum (int (length vs)))) (rfold (rec type) vs)
      | _ \<Rightarrow> sk_fail AssertionError)"

definition encodeTuple :: "'s enc \<Rightarrow> ti list \<Rightarrow> jsval \<Rightarrow> 's \<Rightarrow> 's result" where
  "encodeTuple rec tuple val =
     (if length tuple = 0 then (if is_nullish val then Inr else sk_fail AssertionError)
      else case val of
        JArr vs \<Rightarrow>
          if length tuple = length vs then rfold (\<lambda>(t, v). rec t v) (zip tuple vs)
          else sk_fail AssertionError
      | _ \<Rightarrow> sk_fail AssertionError)"

definition encodeStruct :: "'s enc \<Rightarrow> (jstr \<times> ti) list \<Rightarrow> jsval \<Rightarrow> 's \<Rightarrow> 's result" where
  "encodeStruct rec fs val = rfold (\<lambda>(name, t). sk_check (js_get val name) (rec t)) fs"

definition encodeVariant ::
    "'s sink_ops \<Rightarrow> 's enc \<Rightarrow> (jstr \<Rightarrow> codec_variant option) \<Rightarrow> jsval \<Rightarrow> 's \<Rightarrow> 's result" where
  "encodeVariant k rec byName val =
     (case (if is_nullish val then Inr JUndef else js_get val (js ''__kind'')) of
        Inr (JStr kind) \<Rightarrow>
          (case byName kind of
             None \<Rightarrow> sk_fail (ThrownError ''Unknown variant'')
           | Some cv \<Rightarrow>
               sk_seq (sink_u8 k (JNum (int (cv_index cv))))
                 (case cv of
                    CodecEmptyVariant name index \<Rightarrow> Inr
                  | CodecValueVariant name index type \<Rightarrow> sk_check (js_get val (js ''value'')) (rec type)
                  | CodecTupleVariant name index tuple \<Rightarrow> sk_check (js_get val (js ''value'')) (encodeTuple rec tuple)
                  | CodecStructVariant name index fs \<Rightarrow> encodeStruct rec fs val))
      | _ \<Rightarrow> sk_fail AssertionError)"

definition encodeOption :: "'s sink_ops \<Rightarrow> 's enc \<Rightarrow> ti \<Rightarrow> jsval \<Rightarrow> 's \<Rightarrow> 's result" where
  "encodeOption k rec type val =
     (if val = JUndef then sink_u8 k (JNum 0)
      else sk_seq (sink_u8 k (JNum 1)) (rec type val))"

fun encode :: "codec_type list \<Rightarrow> 's sink_ops \<Rightarrow> nat \<Rightarrow> ti \<Rightarrow> jsval \<Rightarrow> 's \<Rightarrow> 's result" where
  "encode types k 0 type val = sk_fail RangeError"
| "encode types k (Suc depth) type val =
     (if type \<ge> length types then sk_fail TypeError
      else case types ! type of
        CPrimitive p \<Rightarrow> encodePrimitive k p val
      | CCompact p \<Rightarrow> sink_compact k val
      | CBitSequence s ord \<Rightarrow> encodeBitSequence k val
      | CArray len t \<Rightarrow> encodeArray (encode types k depth) len t val
      | CSequence t \<Rightarrow> encodeSequence k (encode types k depth) t val
      | CTuple ts \<Rightarrow> encodeTuple (encode types k depth) ts val
      | CStruct fs \<Rightarrow> encodeStruct (encode types k depth) fs val
      | CVariant variants byName \<Rightarrow> encodeVariant k (encode types k depth) byName val
      | CBytesArray len \<Rightarrow> encodeBytesArray k len val
      | CHexBytesArray len \<Rightarrow> sk_check (decodeHex val) (\<lambda>b. encodeBytesArray k len (JBytes b))
      | CBytes \<Rightarrow> encodeBytes k val
      | CHexBytes \<Rightarrow> sk_check (decodeHex val) (\<lambda>b. encodeBytes k (JBytes b))
      | CBooleanOption \<Rightarrow> encodeBooleanOption k val
      | COption t \<Rightarrow> encodeOption k (encode types k depth) t val
      | CDoNotConstruct \<Rightarrow> sk_fail (ThrownError ''Unexpected case''))"

definition encodeToHex :: "codec_type list \<Rightarrow> nat \<Rightarrow> ti \<Rightarrow> jsval \<Rightarrow> jstr result" where
  "encodeToHex types depth type val = encode types HexSink depth type val HexSink_new"

definition encodeToBinary :: "(nat \<Rightarrow> byte) \<Rightarrow> codec_type list \<Rightarrow> nat \<Rightarrow> ti \<Rightarrow> jsval \<Rightarrow> byte list result" where
  "encodeToBinary mem types depth type val =
     rbind (encode types (ByteSink mem) depth type val (ByteSink_new mem))
       (\<lambda>sink. Inr (ByteSink_toBytes sink))"

section \<open>The wire format\<close>

definition uint_wire :: "nat \<Rightarrow> int \<Rightarrow> byte list option" where
  "uint_wire n v = (if 0 \<le> v \<and> v < 256 ^ n then Some (le_bytes n v) else None)"

definition sint_wire :: "nat \<Rightarrow> int \<Rightarrow> byte list option" where
  "sint_wire n v = (if - (256 ^ n div 2) \<le> v \<and> v < 256 ^ n div 2 then Some (le_bytes n v) else None)"

definition bytes_wire :: "byte list \<Rightarrow> byte list option" where
  "bytes_wire b = (if length b < 2 ^ 48 then Some (compact_bytes (int (length b)) @ b) else None)"

definition num_wire :: "(int \<Rightarrow> byte list option) \<Rightarrow> jsval \<Rightarrow> byte list option" where
  "num_wire w v = (case v of JNum n \<Rightarrow> w n | _ \<Rightarrow> None)"

definition big_wire :: "(int \<Rightarrow> byte list option) \<Rightarrow> jsval \<Rightarrow> byte list option" where
  "big_wire w v = (case v of JBig n \<Rightarrow> w n | _ \<Rightarrow> None)"

definition wire_primitive :: "primitive \<Rightarrow> jsval \<Rightarrow> byte list option" where
  "wire_primitive p v =
     (case p of
        U8 \<Rightarrow> num_wire (uint_wire 1) v
      | U16 \<Rightarrow> num_wire (uint_wire 2) v
      | U32 \<Rightarrow> num_wire (uint_wire 4) v
      | U64 \<Rightarrow> big_wire (uint_wire 8) v
      | U128 \<Rightarrow> big_wire (uint_wire 16) v
      | U256 \<Rightarrow> big_wire (uint_wire 32) v
      | I8 \<Rightarrow> num_wire (sint_wire 1) v
      | I16 \<Rightarrow> num_wire (sint_wire 2) v
      | I32 \<Rightarrow> num_wire (sint_wire 4) v
      | I64 \<Rightarrow> big_wire (sint_wire 8) v
      | I128 \<Rightarrow> big_wire (sint_wire 16) v
      | I256 \<Rightarrow> big_wire (sint_wire 32) v
      | Bool \<Rightarrow> (case v of JBool b \<Rightarrow> Some [if b then 1 else 0] | _ \<Rightarrow> None)
      | Str \<Rightarrow> (case v of JStr s \<Rightarrow> if decodable s then bytes_wire (UTF8_ENCODER_encode s) else None | _ \<Rightarrow> None)
      | Char \<Rightarrow> None)"

text \<open>
  A composite value comes with its pieces: the fields with their types, values and bytes. The
  values of a compact type are those the reader produces: a bigint for a type wider than 32
  bits, otherwise \<open>compact_val\<close>.
\<close>

inductive wire :: "codec_type list \<Rightarrow> ti \<Rightarrow> jsval \<Rightarrow> byte list \<Rightarrow> bool" for types where
  wire_prim:
    "ti < length types \<Longrightarrow> types ! ti = CPrimitive p \<Longrightarrow> wire_primitive p v = Some bs \<Longrightarrow> wire types ti v bs"
| wire_compact:
    "ti < length types \<Longrightarrow> types ! ti = CCompact p \<Longrightarrow> 0 \<le> n \<Longrightarrow> n < 2 ^ 536 \<Longrightarrow>
     v = (if p \<in> {U8, U16, U32} then compact_val n else JBig n) \<Longrightarrow> wire types ti v (compact_bytes n)"
| wire_bits:
    "ti < length types \<Longrightarrow> types ! ti = CBitSequence s ord \<Longrightarrow> n < 2 ^ 48 \<Longrightarrow>
     int (length b) = ceil8 (int n) \<Longrightarrow>
     wire types ti (JObj [(js ''bytes'', JBytes b), (js ''bitLength'', JNum (int n))]) (compact_bytes (int n) @ b)"
| wire_bytes:
    "ti < length types \<Longrightarrow> types ! ti = CBytes \<Longrightarrow> bytes_wire b = Some bs \<Longrightarrow> wire types ti (JBytes b) bs"
| wire_hex:
    "ti < length types \<Longrightarrow> types ! ti = CHexBytes \<Longrightarrow> bytes_wire b = Some bs \<Longrightarrow>
     wire types ti (JStr (js ''0x'' @ hex_of_bytes b)) bs"
| wire_bytes_array:
    "ti < length types \<Longrightarrow> types ! ti = CBytesArray (length b) \<Longrightarrow> wire types ti (JBytes b) b"
| wire_hex_array:
    "ti < length types \<Longrightarrow> types ! ti = CHexBytesArray (length b) \<Longrightarrow>
     wire types ti (JStr (js ''0x'' @ hex_of_bytes b)) b"
| wire_bool_none:
    "ti < length types \<Longrightarrow> types ! ti = CBooleanOption \<Longrightarrow> wire types ti JNull [0]"
| wire_bool_some:
    "ti < length types \<Longrightarrow> types ! ti = CBooleanOption \<Longrightarrow> wire types ti (JBool b) [if b then 1 else 2]"
| wire_none:
    "ti < length types \<Longrightarrow> types ! ti = COption t \<Longrightarrow> wire types ti JUndef [0]"
| wire_some:
    "ti < length types \<Longrightarrow> types ! ti = COption t \<Longrightarrow> v \<noteq> JUndef \<Longrightarrow> wire types t v bs \<Longrightarrow>
     wire types ti v (1 # bs)"
| wire_array:
    "ti < length types \<Longrightarrow> types ! ti = CArray (length ps) t \<Longrightarrow> length ps < 2 ^ 32 \<Longrightarrow>
     \<forall>v b. (v, b) \<in> set ps \<longrightarrow> wire types t v b \<Longrightarrow>
     wire types ti (JArr (map fst ps)) (concat (map snd ps))"
| wire_sequence:
    "ti < length types \<Longrightarrow> types ! ti = CSequence t \<Longrightarrow> length ps < 2 ^ 32 \<Longrightarrow>
     \<forall>v b. (v, b) \<in> set ps \<longrightarrow> wire types t v b \<Longrightarrow>
     wire types ti (JArr (map fst ps)) (compact_bytes (int (length ps)) @ concat (map snd ps))"
| wire_unit:
    "ti < length types \<Longrightarrow> types ! ti = CTuple [] \<Longrightarrow> wire types ti JNull []"
| wire_tuple:
    "ti < length types \<Longrightarrow> types ! ti = CTuple (map fst ps) \<Longrightarrow> ps \<noteq> [] \<Longrightarrow>
     \<forall>t v b. (t, v, b) \<in> set ps \<longrightarrow> wire types t v b \<Longrightarrow>
     wire types ti (JArr (map (\<lambda>(t, v, b). v) ps)) (concat (map (\<lambda>(t, v, b). b) ps))"
| wire_struct:
    "ti < length types \<Longrightarrow> types ! ti = CStruct (map (\<lambda>(name, t, v, b). (name, t)) ps) \<Longrightarrow>
     distinct (map fst ps) \<Longrightarrow>
     \<forall>name t v b. (name, t, v, b) \<in> set ps \<longrightarrow> wire types t v b \<Longrightarrow>
     wire types ti (JObj (map (\<lambda>(name, t, v, b). (name, v)) ps)) (concat (map (\<lambda>(name, t, v, b). b) ps))"
| wire_variant_empty:
    "ti < length types \<Longrightarrow> types ! ti = CVariant placed byName \<Longrightarrow> variants_agree placed byName \<Longrightarrow> idx < 256 \<Longrightarrow>
     byName name = Some (CodecEmptyVariant name idx) \<Longrightarrow>
     wire types ti (JObj [(js ''__kind'', JStr name)]) [of_nat idx]"
| wire_variant_value:
    "ti < length types \<Longrightarrow> types ! ti = CVariant placed byName \<Longrightarrow> variants_agree placed byName \<Longrightarrow> idx < 256 \<Longrightarrow>
     byName name = Some (CodecValueVariant name idx t) \<Longrightarrow> wire types t v bs \<Longrightarrow>
     wire types ti (JObj [(js ''__kind'', JStr name), (js ''value'', v)]) (of_nat idx # bs)"
| wire_variant_tuple:
    "ti < length types \<Longrightarrow> types ! ti = CVariant placed byName \<Longrightarrow> variants_agree placed byName \<Longrightarrow> idx < 256 \<Longrightarrow>
     byName name = Some (CodecTupleVariant name idx (map fst ps)) \<Longrightarrow> ps \<noteq> [] \<Longrightarrow>
     \<forall>t v b. (t, v, b) \<in> set ps \<longrightarrow> wire types t v b \<Longrightarrow>
     wire types ti (JObj [(js ''__kind'', JStr name), (js ''value'', JArr (map (\<lambda>(t, v, b). v) ps))])
       (of_nat idx # concat (map (\<lambda>(t, v, b). b) ps))"
| wire_variant_struct:
    "ti < length types \<Longrightarrow> types ! ti = CVariant placed byName \<Longrightarrow> variants_agree placed byName \<Longrightarrow> idx < 256 \<Longrightarrow>
     byName name = Some (CodecStructVariant name idx (map (\<lambda>(name, t, v, b). (name, t)) ps)) \<Longrightarrow>
     distinct (map fst ps) \<Longrightarrow> js ''__kind'' \<notin> fst ` set ps \<Longrightarrow>
     \<forall>name t v b. (name, t, v, b) \<in> set ps \<longrightarrow> wire types t v b \<Longrightarrow>
     wire types ti (JObj (map (\<lambda>(name, t, v, b). (name, v)) ps @ [(js ''__kind'', JStr name)]))
       (of_nat idx # concat (map (\<lambda>(name, t, v, b). b) ps))"

section \<open>Lemmas on the pieces\<close>

lemma decodes_map: "decodes d bs v \<Longrightarrow> decodes (dbind d (\<lambda>x. dret (g x))) bs (g v)"
  by (rule decodes_bind_ret) simp_all

lemma decodes_times:
  "\<forall>v b. (v, b) \<in> set ps \<longrightarrow> decodes d b v \<Longrightarrow> decodes (dec_times (length ps) d) (concat (map snd ps)) (map fst ps)"
proof (induction ps)
  case Nil
  then show ?case by (simp add: decodes_ret)
next
  case (Cons p ps)
  have "decodes (dbind (dec_times (length ps) d) (\<lambda>vs. dret (fst p # vs))) (concat (map snd ps)) (fst p # map fst ps)"
    using Cons by (intro decodes_map) auto
  moreover have "decodes d (snd p) (fst p)" using Cons.prems by (cases p) auto
  ultimately show ?case using decodes_bind by simp
qed

lemma decodes_each:
  "\<forall>t v b. (t, v, b) \<in> set ps \<longrightarrow> decodes (rec t) b v \<Longrightarrow>
    decodes (dec_each rec (map fst ps)) (concat (map (\<lambda>(t, v, b). b) ps)) (map (\<lambda>(t, v, b). v) ps)"
proof (induction ps)
  case Nil
  then show ?case by (simp add: decodes_ret)
next
  case (Cons p ps)
  obtain t v b where p: "p = (t, v, b)" by (cases p)
  have "decodes (dbind (dec_each rec (map fst ps)) (\<lambda>vs. dret (v # vs))) (concat (map (\<lambda>(t, v, b). b) ps))
      (v # map (\<lambda>(t, v, b). v) ps)"
    using Cons by (intro decodes_map) auto
  moreover have "decodes (rec t) b v" using Cons.prems p by auto
  ultimately show ?case using decodes_bind p by simp
qed

lemma decodes_fields:
  "\<forall>name t v b. (name, t, v, b) \<in> set ps \<longrightarrow> decodes (rec t) b v \<Longrightarrow> distinct (map fst ps) \<Longrightarrow>
    fst ` set ps \<inter> fst ` set obj = {} \<Longrightarrow>
    decodes (dec_fields rec (map (\<lambda>(name, t, v, b). (name, t)) ps) obj) (concat (map (\<lambda>(name, t, v, b). b) ps))
      (obj @ map (\<lambda>(name, t, v, b). (name, v)) ps)"
proof (induction ps arbitrary: obj)
  case Nil
  then show ?case by (simp add: decodes_ret)
next
  case (Cons p ps)
  obtain name t v b where p: "p = (name, t, v, b)" by (cases p)
  have o: "obj_set name v obj = obj @ [(name, v)]"
    using Cons.prems(3) p by (intro obj_set_new) auto
  have "decodes (dec_fields rec (map (\<lambda>(name, t, v, b). (name, t)) ps) (obj @ [(name, v)]))
      (concat (map (\<lambda>(name, t, v, b). b) ps)) ((obj @ [(name, v)]) @ map (\<lambda>(name, t, v, b). (name, v)) ps)"
  proof (rule Cons.IH)
    show "fst ` set ps \<inter> fst ` set (obj @ [(name, v)]) = {}"
      using Cons.prems(2,3) p by auto
  qed (use Cons.prems in auto)
  note rest = this
  have "decodes (rec t) b v" using Cons.prems(1) p by auto
  then have "decodes (dbind (rec t) (\<lambda>v. dec_fields rec (map (\<lambda>(name, t, v, b). (name, t)) ps) (obj_set name v obj)))
      (b @ concat (map (\<lambda>(name, t, v, b). b) ps)) (obj @ (name, v) # map (\<lambda>(name, t, v, b). (name, v)) ps)"
    by (rule decodes_bind) (use rest in \<open>simp add: o\<close>)
  then show ?case by (simp only: p list.map concat.simps prod.case dec_fields.simps)
qed

lemma js_get_field:
  "(name, v) \<in> set fs \<Longrightarrow> distinct (map fst fs) \<Longrightarrow> js_get (JObj fs) name = Inr v"
  by (simp add: js_get_def)

lemma js_get_piece:
  assumes "(name, t, v, b) \<in> set ps" "distinct (map fst ps)"
  shows "js_get (JObj (map (\<lambda>(name, t, v, b). (name, v)) ps @ rest)) name = Inr v"
proof -
  have "distinct (map fst (map (\<lambda>(name, t, v, b). (name, v)) ps))"
    using assms(2) by (simp add: comp_def case_prod_unfold)
  moreover have "(name, v) \<in> set (map (\<lambda>(name, t, v, b). (name, v)) ps)" using assms(1) by force
  ultimately have "map_of (map (\<lambda>(name, t, v, b). (name, v)) ps) name = Some v" by (rule map_of_is_SomeI)
  then show ?thesis by (simp add: js_get_def map_add_def)
qed

lemma ceil8_nonneg: "0 \<le> n \<Longrightarrow> 0 \<le> ceil8 n"
  using zdiv_mono1 [of "- n" 0 8] by (simp add: ceil8_def)

text \<open>A bound on the depth for every piece is a bound for all.\<close>

lemma depth_all:
  fixes P :: "'a \<Rightarrow> nat \<Rightarrow> bool"
  shows "(\<And>x. x \<in> set xs \<Longrightarrow> \<exists>d0. \<forall>d\<ge>d0. P x d) \<Longrightarrow> \<exists>d0. \<forall>d\<ge>d0. \<forall>x\<in>set xs. P x d"
proof (induction xs)
  case (Cons x xs)
  then obtain d1 where "\<forall>d\<ge>d1. \<forall>x\<in>set xs. P x d" by auto
  moreover obtain d2 where "\<forall>d\<ge>d2. P x d" using Cons.prems by auto
  ultimately have "\<forall>d\<ge>max d1 d2. \<forall>x\<in>set (x # xs). P x d" by simp
  then show ?case by blast
qed simp

lemma depth_Suc: "\<exists>d0. \<forall>d\<ge>d0. Q d \<Longrightarrow> (\<And>d. Q d \<Longrightarrow> P (Suc d)) \<Longrightarrow> \<exists>d0. \<forall>d\<ge>d0. P (d :: nat)"
proof -
  assume "\<exists>d0. \<forall>d\<ge>d0. Q d" and s: "\<And>d. Q d \<Longrightarrow> P (Suc d)"
  then obtain d0 where q: "\<forall>d\<ge>d0. Q d" by blast
  have "P d" if "Suc d0 \<le> d" for d
    using that q s [of "d - 1"] by (cases d) auto
  then show ?thesis by blast
qed

lemma depth_leaf: "(\<And>d. P (Suc d)) \<Longrightarrow> \<exists>d0. \<forall>d\<ge>d0. P (d :: nat)"
  by (rule depth_Suc [where Q = "\<lambda>_. True"]) auto

section \<open>The codec implements the wire format\<close>

lemma decodes_decodeBytes: "bytes_wire b = Some bs \<Longrightarrow> decodes decodeBytes bs b"
  unfolding decodeBytes_def
  by (auto simp: bytes_wire_def split: if_splits intro!: decodes_bind decodes_compactLength decodes_bytes)

lemma uint_wireD: "uint_wire n v = Some bs \<Longrightarrow> 0 \<le> v \<and> v < 256 ^ n \<and> bs = le_bytes n v"
  by (auto simp: uint_wire_def split: if_splits)

lemma sint_wireD: "sint_wire n v = Some bs \<Longrightarrow> - (256 ^ n div 2) \<le> v \<and> v < 256 ^ n div 2 \<and> bs = le_bytes n v"
  by (auto simp: sint_wire_def split: if_splits)

lemma num_wireD: "num_wire w v = Some bs \<Longrightarrow> \<exists>n. v = JNum n \<and> w n = Some bs"
  by (auto simp: num_wire_def split: jsval.splits)

lemma big_wireD: "big_wire w v = Some bs \<Longrightarrow> \<exists>n. v = JBig n \<and> w n = Some bs"
  by (auto simp: big_wire_def split: jsval.splits)

lemma decodes_u16_exact: "0 \<le> v \<Longrightarrow> v < 2 ^ 16 \<Longrightarrow> decodes src_u16 (le_bytes 2 v) v"
  using decodes_u16 [of v] by simp

lemma decodes_u32_exact: "0 \<le> v \<Longrightarrow> v < 2 ^ 32 \<Longrightarrow> decodes src_u32 (le_bytes 4 v) v"
  using decodes_u32 [of v] by simp

lemmas decodes_ints = decodes_u8 decodes_u16_exact decodes_u32_exact decodes_u64 decodes_u128 decodes_u256
  decodes_i8 decodes_i16 decodes_i32 decodes_i64 decodes_i128 decodes_i256

lemma decodes_primitive: "wire_primitive p v = Some bs \<Longrightarrow> decodes (decodePrimitive p) bs v"
proof (cases p)
  case Bool
  assume w: "wire_primitive p v = Some bs"
  then obtain b where "v = JBool b" "bs = [if b then 1 else 0]"
    using Bool by (auto simp: wire_primitive_def split: jsval.splits)
  then show ?thesis using Bool decodes_map [OF decodes_bool, of JBool b] by (simp add: decodePrimitive_def)
next
  case Str
  assume w: "wire_primitive p v = Some bs"
  then obtain s where s: "v = JStr s" "decodable s" "length (UTF8_ENCODER_encode s) < 2 ^ 48"
    "bs = compact_bytes (int (length (UTF8_ENCODER_encode s))) @ UTF8_ENCODER_encode s"
    using Str by (auto simp: wire_primitive_def bytes_wire_def split: jsval.splits if_splits)
  then show ?thesis using Str decodes_map [OF decodes_str, of s JStr] by (simp add: decodePrimitive_def)
qed (auto simp: wire_primitive_def decodePrimitive_def dest!: num_wireD big_wireD uint_wireD sint_wireD
      intro!: decodes_map decodes_ints decodes_u8 [simplified] decodes_i8 [simplified])

context sink_laws
begin

lemma emits_primitive: "wire_primitive p v = Some bs \<Longrightarrow> emits ok out (encodePrimitive k p v) bs"
proof (cases p)
  case Bool
  assume w: "wire_primitive p v = Some bs"
  then obtain b where "v = JBool b" "bs = [if b then 1 else 0]"
    using Bool by (auto simp: wire_primitive_def split: jsval.splits)
  then show ?thesis using Bool emits_bool by (simp add: encodePrimitive_def)
next
  case Str
  assume w: "wire_primitive p v = Some bs"
  then obtain s where s: "v = JStr s" "decodable s" "length (UTF8_ENCODER_encode s) < 2 ^ 48"
    "bs = compact_bytes (int (length (UTF8_ENCODER_encode s))) @ UTF8_ENCODER_encode s"
    using Str by (auto simp: wire_primitive_def bytes_wire_def split: jsval.splits if_splits)
  then show ?thesis using Str emits_str by (simp add: encodePrimitive_def)
qed (auto simp: wire_primitive_def encodePrimitive_def dest!: num_wireD big_wireD uint_wireD sint_wireD
      intro!: emits_unsigned [simplified] emits_signed [simplified])

lemma emits_encodeBytes: "bytes_wire b = Some bs \<Longrightarrow> emits ok out (encodeBytes k (JBytes b)) bs"
  by (auto simp: bytes_wire_def encodeBytes_def split: if_splits intro!: emits_seq emits_length bytes_law)

lemma emits_tag: "idx < 256 \<Longrightarrow> emits ok out (sink_u8 k (JNum (int idx))) [of_nat idx]"
  using emits_unsigned(1) [of "int idx"] by simp

text \<open>The methods that recurse, for pieces that the recursive call emits.\<close>

lemma emits_items:
  assumes "\<forall>v b. (v, b) \<in> set ps \<longrightarrow> emits ok out (enc v) b"
  shows "emits ok out (rfold enc (map fst ps)) (concat (map snd ps))"
  using assms by (intro emits_rfold_map) auto

lemma emits_tuple:
  assumes "ps \<noteq> []" "\<forall>t v b. (t, v, b) \<in> set ps \<longrightarrow> emits ok out (enc t v) b"
  shows "emits ok out (encodeTuple enc (map fst ps) (JArr (map (\<lambda>(t, v, b). v) ps)))
    (concat (map (\<lambda>(t, v, b). b) ps))"
proof -
  have z: "zip (map fst ps) (map (\<lambda>(t, v, b). v) ps) = map (\<lambda>(t, v, b). (t, v)) ps"
    by (induction ps) auto
  have "emits ok out (rfold (\<lambda>(t, v). enc t v) (map (\<lambda>(t, v, b). (t, v)) ps)) (concat (map (\<lambda>(t, v, b). b) ps))"
    using assms(2) by (intro emits_rfold_map) auto
  with assms(1) show ?thesis unfolding encodeTuple_def z [symmetric] by simp
qed

lemma emits_struct:
  assumes "\<forall>name t v b. (name, t, v, b) \<in> set ps \<longrightarrow> js_get obj name = Inr v \<and> emits ok out (enc t v) b"
  shows "emits ok out (encodeStruct enc (map (\<lambda>(name, t, v, b). (name, t)) ps) obj)
    (concat (map (\<lambda>(name, t, v, b). b) ps))"
  unfolding encodeStruct_def
proof (rule emits_rfold_map)
  fix p assume "p \<in> set ps"
  moreover obtain name t v b where "p = (name, t, v, b)" by (cases p)
  ultimately show "emits ok out (case case p of (name, t, v, b) \<Rightarrow> (name, t) of
      (name, t) \<Rightarrow> sk_check (js_get obj name) (enc t)) (case p of (name, t, v, b) \<Rightarrow> b)"
    using assms by (auto intro: emits_check)
qed

lemma decodes_tuple:
  assumes "ps \<noteq> []" "\<forall>t v b. (t, v, b) \<in> set ps \<longrightarrow> decodes (dec t) b v"
  shows "decodes (decodeTuple dec (map fst ps)) (concat (map (\<lambda>(t, v, b). b) ps)) (JArr (map (\<lambda>(t, v, b). v) ps))"
  using assms by (simp add: decodeTuple_def decodes_map [OF decodes_each])

lemma decodes_struct:
  assumes "distinct (map fst ps)" "\<forall>name t v b. (name, t, v, b) \<in> set ps \<longrightarrow> decodes (dec t) b v"
  shows "decodes (decodeStruct dec (map (\<lambda>(name, t, v, b). (name, t)) ps)) (concat (map (\<lambda>(name, t, v, b). b) ps))
    (map (\<lambda>(name, t, v, b). (name, v)) ps)"
  unfolding decodeStruct_def using decodes_fields [OF assms(2,1), of "[]"] by simp

definition implements :: "codec_type list \<Rightarrow> nat \<Rightarrow> ti \<Rightarrow> jsval \<Rightarrow> byte list \<Rightarrow> bool" where
  "implements types d ti v bs \<longleftrightarrow> emits ok out (encode types k d ti v) bs \<and> decodes (decode types d ti) bs v"

lemma implements_pairs:
  assumes "\<forall>v b. (v, b) \<in> set ps \<longrightarrow> wire types t v b \<and> (\<exists>d0. \<forall>d\<ge>d0. implements types d t v b)"
  shows "\<exists>d0. \<forall>d\<ge>d0. \<forall>x\<in>set ps. implements types d t (fst x) (snd x)"
  using assms by (intro depth_all) auto

lemma implements_triples:
  assumes "\<forall>t v b. (t, v, b) \<in> set ps \<longrightarrow> wire types t v b \<and> (\<exists>d0. \<forall>d\<ge>d0. implements types d t v b)"
  shows "\<exists>d0. \<forall>d\<ge>d0. \<forall>x\<in>set ps. implements types d (fst x) (fst (snd x)) (snd (snd x))"
  using assms by (intro depth_all) auto

lemma implements_fields:
  assumes "\<forall>name t v b. (name, t, v, b) \<in> set ps \<longrightarrow> wire types t v b \<and> (\<exists>d0. \<forall>d\<ge>d0. implements types d t v b)"
  shows "\<exists>d0. \<forall>d\<ge>d0. \<forall>x\<in>set ps. implements types d (fst (snd x)) (fst (snd (snd x))) (snd (snd (snd x)))"
  using assms by (intro depth_all) auto

text \<open>A variant found by its name is found by its index.\<close>

lemma implements_variant:
  assumes "variants_agree placed byName" "idx < 256" "byName name = Some cv" "cv_index cv = idx"
    and enc: "js_get val (js ''__kind'') = Inr (JStr name)" "\<not> is_nullish val"
      "emits ok out (case cv of
          CodecEmptyVariant name index \<Rightarrow> Inr
        | CodecValueVariant name index type \<Rightarrow> sk_check (js_get val (js ''value'')) (enc type)
        | CodecTupleVariant name index tuple \<Rightarrow> sk_check (js_get val (js ''value'')) (encodeTuple enc tuple)
        | CodecStructVariant name index fs \<Rightarrow> encodeStruct enc fs val) bs"
    and dec: "decodes (case cv of
         CodecEmptyVariant name index \<Rightarrow> dret (JObj [(js ''__kind'', JStr name)])
       | CodecTupleVariant name index tuple \<Rightarrow>
           dbind (decodeTuple dec tuple) (\<lambda>v. dret (JObj [(js ''__kind'', JStr name), (js ''value'', v)]))
       | CodecValueVariant name index type \<Rightarrow>
           dbind (dec type) (\<lambda>v. dret (JObj [(js ''__kind'', JStr name), (js ''value'', v)]))
       | CodecStructVariant name index fs \<Rightarrow>
           dbind (decodeStruct dec fs) (\<lambda>obj. dret (JObj (obj_set (js ''__kind'') (JStr name) obj)))) bs val"
  shows "emits ok out (encodeVariant k enc byName val) (of_nat idx # bs) \<and>
    decodes (decodeVariant dec placed) (of_nat idx # bs) val"
proof
  show "emits ok out (encodeVariant k enc byName val) (of_nat idx # bs)"
    using assms(1-4) enc emits_seq_Cons [OF emits_tag [OF assms(2)] enc(3)] by (simp add: encodeVariant_def)
  have p: "idx < length placed" "placed ! idx = Some cv"
    using assms(1,3,4) by (auto simp: variants_agree_def)
  have u: "unat (of_nat idx :: byte) = idx" using assms(2) by (simp add: unat_of_nat)
  show "decodes (decodeVariant dec placed) (of_nat idx # bs) val"
    unfolding decodeVariant_def src_u8_def
    by (rule decodes_byte_bind) (use dec in \<open>cases cv; simp add: u p\<close>)
qed

end

context sink_laws
begin

lemma wire_implemented:
  "wire types ti v bs \<Longrightarrow>
    \<exists>d0. \<forall>d\<ge>d0. emits ok out (encode types k d ti v) bs \<and> decodes (decode types d ti) bs v"
proof (induction rule: wire.induct)
  case (wire_prim ti p v bs)
  then show ?case by (intro depth_leaf) (simp add: emits_primitive decodes_primitive)
next
  case (wire_compact ti p n v)
  then have "decodes (decodeCompact p) (compact_bytes n) v"
    unfolding decodeCompact_def
    using decodes_compact [of n] decodes_bind [of src_compact "compact_bytes n" "compact_val n" _ "[]" v]
    by (auto simp: decodes_ret to_BigInt_def compact_val_def split: if_splits)
  moreover have "emits ok out (sink_compact k v) (compact_bytes n)"
    using wire_compact emits_compact by (auto simp: compact_val_def)
  ultimately show ?case using wire_compact by (intro depth_leaf) simp
next
  case (wire_bits ti s ord n b)
  have "emits ok out (sink_compact k (JNum (int n))) (compact_bytes (int n))"
    using emits_length [of "replicate n undefined"] wire_bits by simp
  then have "emits ok out (encodeBitSequence k (JObj [(js ''bytes'', JBytes b), (js ''bitLength'', JNum (int n))]))
      (compact_bytes (int n) @ b)"
    using wire_bits by (auto simp: encodeBitSequence_def js_get_def js_def intro: emits_seq bytes_law)
  moreover have "decodes decodeBitSequence (compact_bytes (int n) @ b)
      (JObj [(js ''bytes'', JBytes b), (js ''bitLength'', JNum (int n))])"
    unfolding decodeBitSequence_def
    using wire_bits by (intro decodes_bind [OF decodes_compactLength] decodes_map decodes_bytes) auto
  ultimately show ?case using wire_bits by (intro depth_leaf) simp
next
  case (wire_bytes ti b bs)
  then show ?case by (intro depth_leaf) (simp add: emits_encodeBytes decodes_map decodes_decodeBytes)
next
  case (wire_hex ti b bs)
  then have "decodes (dbind decodeBytes (\<lambda>b. dret (JStr (toHex b 0 (length b))))) bs (JStr (js ''0x'' @ hex_of_bytes b))"
    using decodes_map [OF decodes_decodeBytes, of b bs "\<lambda>b. JStr (toHex b 0 (length b))"] by (simp add: toHex_whole)
  with wire_hex show ?case
    by (intro depth_leaf) (simp add: emits_check [OF refl] emits_encodeBytes)
next
  case (wire_bytes_array ti b)
  then show ?case by (intro depth_leaf) (simp add: encodeBytesArray_def bytes_law decodes_map decodes_bytes)
next
  case (wire_hex_array ti b)
  then have "decodes (dbind (src_bytes (int (length b))) (\<lambda>b. dret (JStr (toHex b 0 (length b))))) b (JStr (js ''0x'' @ hex_of_bytes b))"
    using decodes_map [OF decodes_bytes, of "int (length b)" b "\<lambda>b. JStr (toHex b 0 (length b))"] by (simp add: toHex_whole)
  with wire_hex_array show ?case
    by (intro depth_leaf) (simp add: emits_check [OF refl] encodeBytesArray_def bytes_law)
next
  case (wire_bool_none ti)
  have "decodes decodeBooleanOption [0] JNull"
    unfolding decodeBooleanOption_def src_u8_def by (rule decodes_byte_bind) (simp add: decodes_ret)
  with wire_bool_none show ?case
    using emits_tag [of 0] by (intro depth_leaf) (simp add: encodeBooleanOption_def is_nullish_def)
next
  case (wire_bool_some ti b)
  have "decodes decodeBooleanOption [if b then 1 else 2] (JBool b)"
    unfolding decodeBooleanOption_def src_u8_def by (rule decodes_byte_bind) (simp add: decodes_ret)
  with wire_bool_some show ?case
    using emits_tag [of 1] emits_tag [of 2] by (intro depth_leaf) (simp add: encodeBooleanOption_def is_nullish_def)
next
  case (wire_none ti t)
  have "decodes (decodeOption rec t) [0] JUndef" for rec
    unfolding decodeOption_def src_u8_def by (rule decodes_byte_bind) (simp add: decodes_ret)
  with wire_none show ?case
    using emits_tag [of 0] by (intro depth_leaf) (simp add: encodeOption_def)
next
  case (wire_some ti t v bs)
  from wire_some.IH show ?case
  proof (rule depth_Suc)
    fix d assume IH: "emits ok out (encode types k d t v) bs \<and> decodes (decode types d t) bs v"
    have "decodes (decodeOption (decode types d) t) (1 # bs) v"
      unfolding decodeOption_def src_u8_def by (rule decodes_byte_bind) (simp add: IH)
    moreover have "emits ok out (encodeOption k (encode types k d) t v) (1 # bs)"
      using emits_tag [of 1] IH wire_some by (simp add: encodeOption_def emits_seq_Cons)
    ultimately show "emits ok out (encode types k (Suc d) ti v) (1 # bs) \<and> decodes (decode types (Suc d) ti) (1 # bs) v"
      using wire_some by simp
  qed
next
  case (wire_array ti ps t)
  show ?case
  proof (rule depth_Suc [OF implements_pairs [OF wire_array.IH [folded implements_def]]])
    fix d assume IH: "\<forall>x\<in>set ps. implements types d t (fst x) (snd x)"
    then have "emits ok out (rfold (encode types k d t) (map fst ps)) (concat (map snd ps))"
      by (intro emits_items) (auto simp: implements_def)
    moreover have "decodes (dec_times (length ps) (decode types d t)) (concat (map snd ps)) (map fst ps)"
      using IH by (intro decodes_times) (auto simp: implements_def)
    ultimately show "emits ok out (encode types k (Suc d) ti (JArr (map fst ps))) (concat (map snd ps)) \<and>
        decodes (decode types (Suc d) ti) (concat (map snd ps)) (JArr (map fst ps))"
      using wire_array by (simp add: encodeArray_def decodeArray_def decodes_map)
  qed
next
  case (wire_sequence ti t ps)
  show ?case
  proof (rule depth_Suc [OF implements_pairs [OF wire_sequence.IH [folded implements_def]]])
    fix d assume IH: "\<forall>x\<in>set ps. implements types d t (fst x) (snd x)"
    let ?bs = "compact_bytes (int (length ps)) @ concat (map snd ps)"
    have len: "emits ok out (sink_compact k (JNum (int (length ps)))) (compact_bytes (int (length ps)))"
      using emits_length [of "replicate (length ps) undefined"] wire_sequence by simp
    have "emits ok out (rfold (encode types k d t) (map fst ps)) (concat (map snd ps))"
      using IH by (intro emits_items) (auto simp: implements_def)
    with len have "emits ok out (encodeSequence k (encode types k d) t (JArr (map fst ps))) ?bs"
      by (simp add: encodeSequence_def emits_seq)
    moreover have "decodes (dec_times (length ps) (decode types d t)) (concat (map snd ps)) (map fst ps)"
      using IH by (intro decodes_times) (auto simp: implements_def)
    then have "decodes (decodeSequence (decode types d) t) ?bs (JArr (map fst ps))"
      unfolding decodeSequence_def using wire_sequence
      by (intro decodes_bind [OF decodes_compactLength]) (simp_all add: decodes_map)
    ultimately show "emits ok out (encode types k (Suc d) ti (JArr (map fst ps))) ?bs \<and>
        decodes (decode types (Suc d) ti) ?bs (JArr (map fst ps))"
      using wire_sequence by simp
  qed
next
  case (wire_unit ti)
  then show ?case by (intro depth_leaf) (simp add: encodeTuple_def decodeTuple_def is_nullish_def emits_nothing decodes_ret)
next
  case (wire_tuple ti ps)
  show ?case
  proof (rule depth_Suc [OF implements_triples [OF wire_tuple.IH [folded implements_def]]])
    fix d assume IH: "\<forall>x\<in>set ps. implements types d (fst x) (fst (snd x)) (snd (snd x))"
    have "emits ok out (encodeTuple (encode types k d) (map fst ps) (JArr (map (\<lambda>(t, v, b). v) ps)))
        (concat (map (\<lambda>(t, v, b). b) ps))"
      using IH wire_tuple(3) by (intro emits_tuple) (auto simp: implements_def)
    moreover have "decodes (decodeTuple (decode types d) (map fst ps)) (concat (map (\<lambda>(t, v, b). b) ps))
        (JArr (map (\<lambda>(t, v, b). v) ps))"
      using IH wire_tuple(3) by (intro decodes_tuple) (auto simp: implements_def)
    ultimately show "emits ok out (encode types k (Suc d) ti (JArr (map (\<lambda>(t, v, b). v) ps))) (concat (map (\<lambda>(t, v, b). b) ps)) \<and>
        decodes (decode types (Suc d) ti) (concat (map (\<lambda>(t, v, b). b) ps)) (JArr (map (\<lambda>(t, v, b). v) ps))"
      using wire_tuple(1,2) by simp
  qed
next
  case (wire_struct ti ps)
  show ?case
  proof (rule depth_Suc [OF implements_fields [OF wire_struct.IH [folded implements_def]]])
    fix d assume IH: "\<forall>x\<in>set ps. implements types d (fst (snd x)) (fst (snd (snd x))) (snd (snd (snd x)))"
    let ?obj = "JObj (map (\<lambda>(name, t, v, b). (name, v)) ps)"
    have "emits ok out (encodeStruct (encode types k d) (map (\<lambda>(name, t, v, b). (name, t)) ps) ?obj)
        (concat (map (\<lambda>(name, t, v, b). b) ps))"
      using IH js_get_piece [where rest = "[]", OF _ wire_struct(3)] by (intro emits_struct) (auto simp: implements_def)
    moreover have "decodes (decodeStruct (decode types d) (map (\<lambda>(name, t, v, b). (name, t)) ps))
        (concat (map (\<lambda>(name, t, v, b). b) ps)) (map (\<lambda>(name, t, v, b). (name, v)) ps)"
      using IH wire_struct(3) by (intro decodes_struct) (auto simp: implements_def)
    ultimately show "emits ok out (encode types k (Suc d) ti ?obj) (concat (map (\<lambda>(name, t, v, b). b) ps)) \<and>
        decodes (decode types (Suc d) ti) (concat (map (\<lambda>(name, t, v, b). b) ps)) ?obj"
      using wire_struct(1,2) by (simp add: decodes_map)
  qed
next
  case (wire_variant_empty ti placed byName idx name)
  have "emits ok out (encodeVariant k enc byName (JObj [(js ''__kind'', JStr name)])) [of_nat idx] \<and>
      decodes (decodeVariant dec placed) [of_nat idx] (JObj [(js ''__kind'', JStr name)])" for enc dec
    using wire_variant_empty(3-5) by (rule implements_variant) (simp_all add: js_get_def is_nullish_def emits_nothing decodes_ret)
  with wire_variant_empty(1,2) show ?case by (intro depth_leaf) simp
next
  case (wire_variant_value ti placed byName idx name t v bs)
  show ?case
  proof (rule depth_Suc [OF wire_variant_value.IH])
    fix d assume IH: "emits ok out (encode types k d t v) bs \<and> decodes (decode types d t) bs v"
    let ?obj = "JObj [(js ''__kind'', JStr name), (js ''value'', v)]"
    have get: "js_get ?obj (js ''value'') = Inr v" by (simp add: js_get_def js_def)
    have ds: "decodes (dbind (decode types d t) (\<lambda>v. dret (JObj [(js ''__kind'', JStr name), (js ''value'', v)]))) bs ?obj"
      by (rule decodes_bind_ret [OF conjunct2 [OF IH] refl])
    have "emits ok out (encodeVariant k (encode types k d) byName ?obj) (of_nat idx # bs) \<and>
        decodes (decodeVariant (decode types d) placed) (of_nat idx # bs) ?obj"
      using wire_variant_value(3-5)
    proof (rule implements_variant)
      show "js_get ?obj (js ''__kind'') = Inr (JStr name)" by (simp add: js_get_def)
    qed (use IH ds in \<open>simp_all add: is_nullish_def emits_check [OF get]\<close>)
    then show "emits ok out (encode types k (Suc d) ti ?obj) (of_nat idx # bs) \<and>
        decodes (decode types (Suc d) ti) (of_nat idx # bs) ?obj"
      using wire_variant_value(1,2) by simp
  qed
next
  case (wire_variant_tuple ti placed byName idx name ps)
  show ?case
  proof (rule depth_Suc [OF implements_triples [OF wire_variant_tuple.IH [folded implements_def]]])
    fix d assume IH: "\<forall>x\<in>set ps. implements types d (fst x) (fst (snd x)) (snd (snd x))"
    let ?bs = "concat (map (\<lambda>(t, v, b). b) ps)" and ?v = "JArr (map (\<lambda>(t, v, b). v) ps)"
    let ?obj = "JObj [(js ''__kind'', JStr name), (js ''value'', ?v)]"
    have get: "js_get ?obj (js ''value'') = Inr ?v" by (simp add: js_get_def js_def)
    have e: "emits ok out (encodeTuple (encode types k d) (map fst ps) ?v) ?bs"
      using IH wire_variant_tuple(6) by (intro emits_tuple) (auto simp: implements_def)
    have dt: "decodes (decodeTuple (decode types d) (map fst ps)) ?bs ?v"
      using IH wire_variant_tuple(6) by (intro decodes_tuple) (auto simp: implements_def)
    have ds: "decodes (dbind (decodeTuple (decode types d) (map fst ps))
        (\<lambda>v. dret (JObj [(js ''__kind'', JStr name), (js ''value'', v)]))) ?bs ?obj"
      by (rule decodes_bind_ret [OF dt refl])
    have "emits ok out (encodeVariant k (encode types k d) byName ?obj) (of_nat idx # ?bs) \<and>
        decodes (decodeVariant (decode types d) placed) (of_nat idx # ?bs) ?obj"
      using wire_variant_tuple(3-5)
    proof (rule implements_variant)
      show "js_get ?obj (js ''__kind'') = Inr (JStr name)" by (simp add: js_get_def)
    qed (use e ds in \<open>simp_all add: is_nullish_def emits_check [OF get]\<close>)
    then show "emits ok out (encode types k (Suc d) ti ?obj) (of_nat idx # ?bs) \<and>
        decodes (decode types (Suc d) ti) (of_nat idx # ?bs) ?obj"
      using wire_variant_tuple(1,2) by simp
  qed
next
  case (wire_variant_struct ti placed byName idx name ps)
  show ?case
  proof (rule depth_Suc [OF implements_fields [OF wire_variant_struct.IH [folded implements_def]]])
    fix d assume IH: "\<forall>x\<in>set ps. implements types d (fst (snd x)) (fst (snd (snd x))) (snd (snd (snd x)))"
    let ?bs = "concat (map (\<lambda>(name, t, v, b). b) ps)" and ?fs = "map (\<lambda>(name, t, v, b). (name, v)) ps"
    let ?obj = "JObj (?fs @ [(js ''__kind'', JStr name)])"
    have kind: "js ''__kind'' \<notin> fst ` set ?fs" using wire_variant_struct(7) by force
    have e: "emits ok out (encodeStruct (encode types k d) (map (\<lambda>(name, t, v, b). (name, t)) ps) ?obj) ?bs"
      using IH js_get_piece [OF _ wire_variant_struct(6)] by (intro emits_struct) (auto simp: implements_def)
    have "decodes (decodeStruct (decode types d) (map (\<lambda>(name, t, v, b). (name, t)) ps)) ?bs ?fs"
      using IH wire_variant_struct(6) by (intro decodes_struct) (auto simp: implements_def)
    then have ds: "decodes (dbind (decodeStruct (decode types d) (map (\<lambda>(name, t, v, b). (name, t)) ps))
        (\<lambda>obj. dret (JObj (obj_set (js ''__kind'') (JStr name) obj)))) ?bs ?obj"
      by (rule decodes_bind_ret) (simp only: obj_set_new [OF kind])
    have "emits ok out (encodeVariant k (encode types k d) byName ?obj) (of_nat idx # ?bs) \<and>
        decodes (decodeVariant (decode types d) placed) (of_nat idx # ?bs) ?obj"
      using wire_variant_struct(3-5)
    proof (rule implements_variant)
      show "js_get ?obj (js ''__kind'') = Inr (JStr name)"
        using map_of_eq_None_iff [THEN iffD2, OF kind] by (simp add: js_get_def map_add_def)
    qed (use e ds in \<open>simp_all only: is_nullish_def codec_variant.case codec_variant.sel jsval.distinct simp_thms\<close>)
    then show "emits ok out (encode types k (Suc d) ti ?obj) (of_nat idx # ?bs) \<and>
        decodes (decode types (Suc d) ti) (of_nat idx # ?bs) ?obj"
      using wire_variant_struct(1,2) by simp
  qed
qed

end

section \<open>The entry points\<close>

lemma decodeBinary_of_decodes:
  assumes "decodes (decode types d ti) bs v"
  shows "decodeBinary types d ti (JBytes bs) = Inr v"
    "decodeBinary types d ti (JStr (js ''0x'' @ hex_of_bytes bs)) = Inr v"
    "rest \<noteq> [] \<Longrightarrow> decodeBinary types d ti (JBytes (bs @ rest)) = Inl (ThrownError ''Unprocessed data left'')"
  using decodesD [OF assms, of "[]" "[]"] decodesD [OF assms, of "[]" rest]
  by (simp_all add: decodeBinary_def Src_def src_at_def src_assertEOF_def src_hasBytes_def)

lemma encodeToBinary_of_emits:
  assumes "emits byte_sink_ok ByteSink_toBytes (encode types (ByteSink mem) d ti v) bs"
  shows "encodeToBinary mem types d ti v = Inr bs"
proof -
  have "byte_sink_ok (ByteSink_new mem)" "ByteSink_toBytes (ByteSink_new mem) = []"
    by (simp_all add: byte_sink_ok_def ByteSink_new_def ByteSink_toBytes_def)
  with emitsD [OF assms, of "ByteSink_new mem"] show ?thesis by (auto simp: encodeToBinary_def)
qed

lemma encodeToHex_of_emits:
  assumes "emits hex_sink_ok hex_sink_out (encode types HexSink d ti v) bs"
  shows "encodeToHex types d ti v = Inr (js ''0x'' @ hex_of_bytes bs)"
proof -
  have "hex_sink_ok HexSink_new" "hex_sink_out HexSink_new = []"
    using hex_sink_okI [of "[]"] by (simp_all add: HexSink_new_def)
  with emitsD [OF assms, of HexSink_new] obtain s where
    s: "encode types HexSink d ti v HexSink_new = Inr s" "hex_sink_ok s" "hex_sink_out s = bs"
    by auto
  then show ?thesis using hex_sink_okD [OF s(2)] by (simp add: encodeToHex_def)
qed

text \<open>C8: For every value that a type in the registry relates to bytes by \<open>wire\<close>, and every depth of the stack above a
  bound, the binary encoder of the SCALE codec produces exactly these bytes, whatever the
  fresh buffers contain, and decoding them gives the value back. The values of \<open>wire\<close> are those that the format
  represents: texts have no lone surrogates and do not begin with U+FEFF (\<open>decodable\<close>; a text with that mark loses it,
  \<open>scale_string_loses_bom\<close>), integers are within the range of their type and written in the form that the decoder
  returns, compact integers are below \<open>2\<^sup>5\<^sup>3\<^sup>6\<close>, bit sequences have the bytes of their length, byte arrays are below \<open>2\<^sup>4\<^sup>8\<close> and
  sequences below \<open>2\<^sup>3\<^sup>2\<close> items, an option in an option is not \<open>Some(None)\<close>, both are \<open>undefined\<close> in JavaScript, the two
  tables of a variant type agree, and no type is \<open>Char\<close>, which the codec does not support.\<close>

theorem scale_binary_roundtrip:
  assumes "wire types ti v bs"
  shows "\<exists>d0. \<forall>d\<ge>d0. encodeToBinary mem types d ti v = Inr bs \<and> decodeBinary types d ti (JBytes bs) = Inr v"
  using bytes.wire_implemented [OF assms, of mem]
  by (elim exE, rule_tac x = d0 in exI) (simp add: encodeToBinary_of_emits decodeBinary_of_decodes)

text \<open>The hexadecimal encoder of the SCALE codec produces the wire form as a \<open>0x\<close> string, and decoding
  that string gives the value back.\<close>

theorem scale_hex_roundtrip:
  assumes "wire types ti v bs"
  shows "\<exists>d0. \<forall>d\<ge>d0. encodeToHex types d ti v = Inr (js ''0x'' @ hex_of_bytes bs) \<and>
    decodeBinary types d ti (JStr (js ''0x'' @ hex_of_bytes bs)) = Inr v"
  using hex.wire_implemented [OF assms]
  by (elim exE, rule_tac x = d0 in exI) (simp add: encodeToHex_of_emits decodeBinary_of_decodes)

text \<open>Bytes after the wire form of a value make \<open>decodeBinary\<close> throw.\<close>

theorem scale_trailing_data:
  assumes "wire types ti v bs" "rest \<noteq> []"
  shows "\<exists>d0. \<forall>d\<ge>d0. decodeBinary types d ti (JBytes (bs @ rest)) = Inl (ThrownError ''Unprocessed data left'')"
proof -
  obtain d0 where "\<forall>d\<ge>d0. decodes (decode types d ti) bs v" using hex.wire_implemented [OF assms(1)] by blast
  then show ?thesis using decodeBinary_of_decodes(3) [OF _ assms(2)] by blast
qed

text \<open>A value that is not of its primitive type is refused by the encoder before a byte is written:
  integers out of the range of their width, numbers for bigints and bigints for numbers.\<close>

theorem scale_primitive_rejects:
  assumes "wire_primitive p v = None" "p \<noteq> Str"
  shows "\<exists>e. encodePrimitive k p v s = Inl e"
  using assms
  by (cases p; cases v)
    (simp_all add: wire_primitive_def encodePrimitive_def num_wire_def big_wire_def uint_wire_def sint_wire_def
      sink_u8_def sink_u16_def sink_u32_def sink_u64_def sink_u128_def sink_u256_def
      sink_i8_def sink_i16_def sink_i32_def sink_i64_def sink_i128_def sink_i256_def sink_bool_def
      sk_check_def sk_fail_def check_defs split: if_splits, linarith+)

text \<open>The codec loses a leading byte order mark: a string that starts with U+FEFF is encoded with it
  and decoded without it.\<close>

theorem scale_string_loses_bom:
  assumes "list_all scalar_value s" "length (UTF8_ENCODER_encode (BOM # s)) < 2 ^ 48"
  shows "\<exists>bs. encodeToBinary mem [CPrimitive Str] (Suc d) 0 (JStr (BOM # s)) = Inr bs \<and>
    decodeBinary [CPrimitive Str] (Suc d) 0 (JBytes bs) = Inr (JStr s)"
proof (intro exI conjI)
  let ?u = "UTF8_ENCODER_encode (BOM # s)"
  let ?bs = "compact_bytes (int (length ?u)) @ ?u"
  show "encodeToBinary mem [CPrimitive Str] (Suc d) 0 (JStr (BOM # s)) = Inr ?bs"
    using bytes.emits_str [OF assms(2), of mem] by (intro encodeToBinary_of_emits) (simp add: encodePrimitive_def)
  have "UTF8_DECODER_decode ?u = Inr s"
    using assms(1) utf8_decode_encode [of "BOM # s"] by (simp add: scalar_value_def BOM_def)
  then have rest: "decodes (\<lambda>t. rbind (UTF8_DECODER_decode ?u) (\<lambda>u. Inr (u, t))) [] s" by (simp add: decodes_def)
  note rest' = decodes_bind [where d = "src_bytes (int (length ?u))" and
      f = "\<lambda>buf t. rbind (UTF8_DECODER_decode buf) (\<lambda>u. Inr (u, t))", OF decodes_bytes [OF refl] rest]
  have "decodes src_str ?bs s"
    unfolding src_str_def by (rule decodes_bind [OF decodes_compactLength [OF assms(2)]]) (use rest' in simp)
  then have "decodes (decode [CPrimitive Str] (Suc d) 0) ?bs (JStr s)"
    by (simp add: decodePrimitive_def decodes_map)
  then show "decodeBinary [CPrimitive Str] (Suc d) 0 (JBytes ?bs) = Inr (JStr s)"
    by (rule decodeBinary_of_decodes)
qed

section \<open>Witnesses\<close>

text \<open>A sequence of optional 32-bit integers.\<close>

definition sample_types :: "codec_type list" where
  "sample_types = [CPrimitive U32, COption 0, CSequence 1]"

lemma sample_wire:
  "wire sample_types 2 (JArr [JNum 7, JUndef]) [8, 1, 7, 0, 0, 0, 0]"
proof -
  have p: "wire sample_types 0 (JNum 7) [7, 0, 0, 0]"
    by (rule wire_prim [where p = U32])
      (simp_all add: sample_types_def wire_primitive_def num_wire_def uint_wire_def numeral_eq_Suc)
  have s: "wire sample_types (Suc 0) (JNum 7) [1, 7, 0, 0, 0]"
    using p by (intro wire_some [where t = 0]) (simp_all add: sample_types_def)
  have n: "wire sample_types (Suc 0) JUndef [0]"
    by (rule wire_none [where t = 0]) (simp_all add: sample_types_def)
  define ps :: "(jsval \<times> byte list) list" where "ps = [(JNum 7, [1, 7, 0, 0, 0]), (JUndef, [0])]"
  have "wire sample_types 2 (JArr (map fst ps)) (compact_bytes (int (length ps)) @ concat (map snd ps))"
    using s n by (intro wire_sequence [where t = "Suc 0"]) (auto simp: sample_types_def ps_def)
  then show ?thesis by (simp add: ps_def compact_bytes_def)
qed

lemma scale_binary_roundtrip_witness:
  "\<exists>d. encodeToBinary (\<lambda>_. 0) sample_types d 2 (JArr [JNum 7, JUndef]) = Inr [8, 1, 7, 0, 0, 0, 0] \<and>
    decodeBinary sample_types d 2 (JBytes [8, 1, 7, 0, 0, 0, 0]) = Inr (JArr [JNum 7, JUndef])"
  using scale_binary_roundtrip [OF sample_wire, of "\<lambda>_. 0"] by blast

lemma scale_hex_roundtrip_witness:
  "\<exists>d. encodeToHex sample_types d 2 (JArr [JNum 7, JUndef]) = Inr (js ''0x'' @ hex_of_bytes [8, 1, 7, 0, 0, 0, 0]) \<and>
    decodeBinary sample_types d 2 (JStr (js ''0x'' @ hex_of_bytes [8, 1, 7, 0, 0, 0, 0])) = Inr (JArr [JNum 7, JUndef])"
  using scale_hex_roundtrip [OF sample_wire] by blast

lemma scale_trailing_data_witness:
  "\<exists>d. decodeBinary sample_types d 2 (JBytes ([8, 1, 7, 0, 0, 0, 0] @ [0])) = Inl (ThrownError ''Unprocessed data left'')"
  using scale_trailing_data [OF sample_wire, of "[0]"] by blast

lemma scale_primitive_rejects_witness:
  "\<exists>e. encodePrimitive HexSink U8 (JNum 256) HexSink_new = Inl e"
  by (rule scale_primitive_rejects) (simp_all add: wire_primitive_def num_wire_def uint_wire_def)

lemma scale_string_loses_bom_witness:
  "\<exists>bs. encodeToBinary (\<lambda>_. 0) [CPrimitive Str] (Suc 0) 0 (JStr [BOM, 97]) = Inr bs \<and>
    decodeBinary [CPrimitive Str] (Suc 0) 0 (JBytes bs) = Inr (JStr [97])"
  by (rule scale_string_loses_bom)
    (simp_all add: scalar_value_def UTF8_ENCODER_encode_def utf8_encode_def utf8_char_def BOM_def)

end
