(* ===== verification/Borsh.thy ===== *)
theory Borsh
  imports Scale_Sink
begin

text \<open>
  The Borsh codecs of \<open>solana/borsh/src\<close>: the growing sink and the reader over a \<open>DataView\<close>
  (\<open>sink.ts\<close>, \<open>src.ts\<close>), the codecs of primitives and the codecs built from other codecs
  (\<open>codecs/*.ts\<close>), and the functions that build them (\<open>dsl.ts\<close>).

  The state of the reader is that of the SCALE reader, a buffer and a position, and the state of
  the sink that of \<open>ByteSink\<close>. The JavaScript code that the struct, tuple and sum codecs generate
  is modelled by the statements it consists of. Base58 is the package \<open>bs58\<close>: its two functions
  are parameters. A value of another type than the codec's type parameter, which TypeScript
  rejects, is a \<open>TypeError\<close>. Floating point numbers are given by their bit patterns.
\<close>

section \<open>Values\<close>

datatype bval =
    BUndef
  | BBool bool
  | BNum int
  | BBig int
  | BF32 "32 word"
  | BF64 "64 word"
  | BStr jstr
  | BBytes "byte list"
  | BArr "bval list"
  | BObj "(jstr \<times> bval) list"
  | BMap "(bval \<times> bval) list"
  | BSet "bval list"

definition as_num :: "bval \<Rightarrow> int result" where
  "as_num v = (case v of BNum n \<Rightarrow> Inr n | _ \<Rightarrow> Inl TypeError)"

definition as_big :: "bval \<Rightarrow> int result" where
  "as_big v = (case v of BBig n \<Rightarrow> Inr n | _ \<Rightarrow> Inl TypeError)"

text \<open>
  Keys of a \<open>Map\<close> and elements of a \<open>Set\<close>: primitive values are compared by value (zeros are equal,
  and so are the values that are not numbers), objects by identity, which no two decoded objects
  share.
\<close>

definition f64_class :: "64 word \<Rightarrow> 64 word" where
  "f64_class w =
     (let a = and w 0x7FFFFFFFFFFFFFFF
      in if a = 0 then 0 else if a > 0x7FF0000000000000 then 0x7FF8000000000000 else w)"

definition f32_class :: "32 word \<Rightarrow> 32 word" where
  "f32_class w =
     (let a = and w 0x7FFFFFFF
      in if a = 0 then 0 else if a > 0x7F800000 then 0x7FC00000 else w)"

definition same_value :: "bval \<Rightarrow> bval \<Rightarrow> bool" where
  "same_value a b =
     (case (a, b) of
        (BUndef, BUndef) \<Rightarrow> True
      | (BBool x, BBool y) \<Rightarrow> x = y
      | (BNum x, BNum y) \<Rightarrow> x = y
      | (BBig x, BBig y) \<Rightarrow> x = y
      | (BF32 x, BF32 y) \<Rightarrow> f32_class x = f32_class y
      | (BF64 x, BF64 y) \<Rightarrow> f64_class x = f64_class y
      | (BStr x, BStr y) \<Rightarrow> x = y
      | _ \<Rightarrow> False)"

fun map_set :: "bval \<Rightarrow> bval \<Rightarrow> (bval \<times> bval) list \<Rightarrow> (bval \<times> bval) list" where
  "map_set key value [] = [(key, value)]"
| "map_set key value ((k, v) # rest) =
     (if same_value k key then (k, value) # rest else (k, v) # map_set key value rest)"

definition set_add :: "bval \<Rightarrow> bval list \<Rightarrow> bval list" where
  "set_add value xs = (if list_ex (\<lambda>x. same_value x value) xs then xs else xs @ [value])"

section \<open>The sink\<close>

definition bsink_new :: "nat \<Rightarrow> byte_sink" where
  "bsink_new capacity = \<lparr>bs_buf = replicate capacity 0, bs_pos = 0\<rparr>"

definition bsink_result :: "byte_sink \<Rightarrow> byte list" where
  "bsink_result s = take (bs_pos s) (bs_buf s)"

definition bsink_allocate :: "nat \<Rightarrow> byte_sink \<Rightarrow> byte_sink result" where
  "bsink_allocate cap s =
     rbind (buf_set (replicate (max cap (length (bs_buf s) * 2)) 0) (bs_buf s) 0)
       (\<lambda>buf. Inr (s\<lparr>bs_buf := buf\<rparr>))"

definition bsink_reserve :: "nat \<Rightarrow> byte_sink \<Rightarrow> byte_sink result" where
  "bsink_reserve additional s =
     (if int (length (bs_buf s)) - int (bs_pos s) < int additional
      then bsink_allocate (bs_pos s + additional) s else Inr s)"

text \<open>The common part of the writers: reserve, store the bytes at the position, advance it. A store
  past the end of the view is a \<open>RangeError\<close>.\<close>

definition bsink_put :: "byte list \<Rightarrow> byte_sink \<Rightarrow> byte_sink result" where
  "bsink_put bs s =
     rbind (bsink_reserve (length bs) s) (\<lambda>s.
       rbind (buf_set (bs_buf s) bs (bs_pos s)) (\<lambda>buf.
         Inr (s\<lparr>bs_buf := buf, bs_pos := bs_pos s + length bs\<rparr>)))"

text \<open>The integer stores of \<open>DataView\<close> wrap around; \<open>true\<close> asks for the little-endian order.\<close>

definition bsink_u8 :: "int \<Rightarrow> byte_sink \<Rightarrow> byte_sink result" where
  "bsink_u8 val = bsink_put (le_bytes 1 val)"

definition bsink_i8 :: "int \<Rightarrow> byte_sink \<Rightarrow> byte_sink result" where
  "bsink_i8 val = bsink_put (le_bytes 1 val)"

definition bsink_u16 :: "int \<Rightarrow> byte_sink \<Rightarrow> byte_sink result" where
  "bsink_u16 val = bsink_put (le_bytes 2 val)"

definition bsink_i16 :: "int \<Rightarrow> byte_sink \<Rightarrow> byte_sink result" where
  "bsink_i16 val = bsink_put (le_bytes 2 val)"

definition bsink_u32 :: "int \<Rightarrow> byte_sink \<Rightarrow> byte_sink result" where
  "bsink_u32 val = bsink_put (le_bytes 4 val)"

definition bsink_i32 :: "int \<Rightarrow> byte_sink \<Rightarrow> byte_sink result" where
  "bsink_i32 val = bsink_put (le_bytes 4 val)"

definition bsink_u64 :: "int \<Rightarrow> byte_sink \<Rightarrow> byte_sink result" where
  "bsink_u64 val = bsink_put (le_bytes 8 val)"

definition bsink_i64 :: "int \<Rightarrow> byte_sink \<Rightarrow> byte_sink result" where
  "bsink_i64 val = bsink_put (le_bytes 8 val)"

definition bsink_u128 :: "int \<Rightarrow> byte_sink \<Rightarrow> byte_sink result" where
  "bsink_u128 val = sk_seq (bsink_u64 (and val 0xffffffffffffffff)) (bsink_u64 (drop_bit 64 val))"

definition big_rem :: "int \<Rightarrow> int \<Rightarrow> int" where
  \<comment> \<open>\<open>%\<close> truncates towards zero\<close>
  "big_rem a b = (if a \<ge> 0 then a mod b else - ((- a) mod b))"

definition bsink_i128 :: "int \<Rightarrow> byte_sink \<Rightarrow> byte_sink result" where
  "bsink_i128 val = bsink_u128 (big_rem (val + 2 ^ 128) (2 ^ 128))"

text \<open>The floating point stores are called without \<open>true\<close>: the order is big-endian.\<close>

definition bsink_f32 :: "32 word \<Rightarrow> byte_sink \<Rightarrow> byte_sink result" where
  "bsink_f32 val = bsink_put (rev (le_bytes 4 (uint val)))"

definition bsink_f64 :: "64 word \<Rightarrow> byte_sink \<Rightarrow> byte_sink result" where
  "bsink_f64 val = bsink_put (rev (le_bytes 8 (uint val)))"

definition bsink_bytes :: "byte list \<Rightarrow> byte_sink \<Rightarrow> byte_sink result" where
  "bsink_bytes val = bsink_put val"

definition bsink_base58 :: "(jstr \<Rightarrow> byte list result) \<Rightarrow> jstr \<Rightarrow> byte_sink \<Rightarrow> byte_sink result" where
  "bsink_base58 b58_decode val = sk_check (b58_decode val) bsink_bytes"

definition bsink_string :: "jstr \<Rightarrow> byte_sink \<Rightarrow> byte_sink result" where
  "bsink_string val =
     (let b = UTF8_ENCODER_encode val
      in sk_seq (bsink_u32 (int (length b))) (bsink_put b))"

definition bsink_bool :: "bool \<Rightarrow> byte_sink \<Rightarrow> byte_sink result" where
  "bsink_bool val = bsink_u8 (if val then 1 else 0)"

section \<open>The reader\<close>

definition bsrc_view :: "nat \<Rightarrow> byte list dec" where
  \<comment> \<open>\<open>view.get*(this.pos)\<close> of \<open>n\<close> bytes, and \<open>this.pos += n\<close>\<close>
  "bsrc_view n s =
     (if src_idx s + n \<le> length (src_buf s)
      then Inr (take n (drop (src_idx s) (src_buf s)), s\<lparr>src_idx := src_idx s + n\<rparr>)
      else Inl RangeError)"

definition bsrc_u8 :: "int dec" where
  "bsrc_u8 = dbind (bsrc_view 1) (\<lambda>b. dret (le_val b))"

definition bsrc_i8 :: "int dec" where
  "bsrc_i8 = dbind (bsrc_view 1) (\<lambda>b. dret (signed_val 8 (le_val b)))"

definition bsrc_u16 :: "int dec" where
  "bsrc_u16 = dbind (bsrc_view 2) (\<lambda>b. dret (le_val b))"

definition bsrc_i16 :: "int dec" where
  "bsrc_i16 = dbind (bsrc_view 2) (\<lambda>b. dret (signed_val 16 (le_val b)))"

definition bsrc_u32 :: "int dec" where
  "bsrc_u32 = dbind (bsrc_view 4) (\<lambda>b. dret (le_val b))"

definition bsrc_i32 :: "int dec" where
  "bsrc_i32 = dbind (bsrc_view 4) (\<lambda>b. dret (signed_val 32 (le_val b)))"

definition bsrc_u64 :: "int dec" where
  "bsrc_u64 = dbind (bsrc_view 8) (\<lambda>b. dret (le_val b))"

definition bsrc_i64 :: "int dec" where
  "bsrc_i64 = dbind (bsrc_view 8) (\<lambda>b. dret (signed_val 64 (le_val b)))"

definition bsrc_u128 :: "int dec" where
  "bsrc_u128 = dbind bsrc_u64 (\<lambda>lo. dbind bsrc_u64 (\<lambda>hi. dret (lo + push_bit 64 hi)))"

definition bsrc_i128 :: "int dec" where
  "bsrc_i128 = dbind bsrc_u64 (\<lambda>lo. dbind bsrc_i64 (\<lambda>hi. dret (lo + push_bit 64 hi)))"

definition bsrc_f32 :: "32 word dec" where
  "bsrc_f32 = dbind (bsrc_view 4) (\<lambda>b. dret (word_of_int (le_val b)))"

definition bsrc_f64 :: "64 word dec" where
  "bsrc_f64 = dbind (bsrc_view 8) (\<lambda>b. dret (word_of_int (le_val b)))"

definition bsrc_assertLength :: "nat \<Rightarrow> src \<Rightarrow> unit result" where
  "bsrc_assertLength len s =
     (if int (length (src_buf s)) - int (src_idx s) < int len then Inl RangeError else Inr ())"

definition bsrc_bytes :: "nat \<Rightarrow> byte list dec" where
  "bsrc_bytes len s =
     rbind (bsrc_assertLength len s) (\<lambda>_.
       Inr (take len (drop (src_idx s) (src_buf s)), s\<lparr>src_idx := src_idx s + len\<rparr>))"

definition bsrc_base58 :: "(byte list \<Rightarrow> jstr) \<Rightarrow> nat \<Rightarrow> jstr dec" where
  "bsrc_base58 b58_encode len = dbind (bsrc_bytes len) (\<lambda>b. dret (b58_encode b))"

definition bsrc_string :: "jstr dec" where
  "bsrc_string =
     dbind bsrc_u32 (\<lambda>len. dbind (bsrc_bytes (nat len)) (\<lambda>b. dret (utf8_toString (map unat b))))"

definition bsrc_bool :: "bool dec" where
  "bsrc_bool = dbind bsrc_u8 (\<lambda>b. dret (b \<noteq> 0))"

section \<open>Codecs\<close>

record codec =
  c_encode :: "bval \<Rightarrow> byte_sink \<Rightarrow> byte_sink result"
  c_decode :: "bval dec"

text \<open>The primitives.\<close>

definition borsh_unit :: codec where
  "borsh_unit = \<lparr>c_encode = (\<lambda>val. Inr), c_decode = dret BUndef\<rparr>"

definition borsh_bool :: codec where
  "borsh_bool =
     \<lparr>c_encode = (\<lambda>val. case val of BBool b \<Rightarrow> bsink_bool b | _ \<Rightarrow> (\<lambda>s. Inl TypeError)),
      c_decode = dbind bsrc_bool (\<lambda>b. dret (BBool b))\<rparr>"

definition borsh_f32 :: codec where
  "borsh_f32 =
     \<lparr>c_encode = (\<lambda>val. case val of BF32 w \<Rightarrow> bsink_f32 w | _ \<Rightarrow> (\<lambda>s. Inl TypeError)),
      c_decode = dbind bsrc_f32 (\<lambda>w. dret (BF32 w))\<rparr>"

definition borsh_f64 :: codec where
  "borsh_f64 =
     \<lparr>c_encode = (\<lambda>val. case val of BF64 w \<Rightarrow> bsink_f64 w | _ \<Rightarrow> (\<lambda>s. Inl TypeError)),
      c_decode = dbind bsrc_f64 (\<lambda>w. dret (BF64 w))\<rparr>"

definition num_codec :: "(int \<Rightarrow> byte_sink \<Rightarrow> byte_sink result) \<Rightarrow> int dec \<Rightarrow> codec" where
  "num_codec write read =
     \<lparr>c_encode = (\<lambda>val. sk_check (as_num val) write), c_decode = dbind read (\<lambda>n. dret (BNum n))\<rparr>"

definition big_codec :: "(int \<Rightarrow> byte_sink \<Rightarrow> byte_sink result) \<Rightarrow> int dec \<Rightarrow> codec" where
  "big_codec write read =
     \<lparr>c_encode = (\<lambda>val. sk_check (as_big val) write), c_decode = dbind read (\<lambda>n. dret (BBig n))\<rparr>"

definition borsh_u8 :: codec where "borsh_u8 = num_codec bsink_u8 bsrc_u8"
definition borsh_i8 :: codec where "borsh_i8 = num_codec bsink_i8 bsrc_i8"
definition borsh_u16 :: codec where "borsh_u16 = num_codec bsink_u16 bsrc_u16"
definition borsh_i16 :: codec where "borsh_i16 = num_codec bsink_i16 bsrc_i16"
definition borsh_u32 :: codec where "borsh_u32 = num_codec bsink_u32 bsrc_u32"
definition borsh_i32 :: codec where "borsh_i32 = num_codec bsink_i32 bsrc_i32"
definition borsh_u64 :: codec where "borsh_u64 = big_codec bsink_u64 bsrc_u64"
definition borsh_i64 :: codec where "borsh_i64 = big_codec bsink_i64 bsrc_i64"
definition borsh_u128 :: codec where "borsh_u128 = big_codec bsink_u128 bsrc_u128"
definition borsh_i128 :: codec where "borsh_i128 = big_codec bsink_i128 bsrc_i128"

definition borsh_binary :: codec where
  "borsh_binary =
     \<lparr>c_encode = (\<lambda>val. case val of
         BBytes b \<Rightarrow> sk_seq (bsink_u32 (int (length b))) (bsink_bytes b)
       | _ \<Rightarrow> (\<lambda>s. Inl TypeError)),
      c_decode = dbind bsrc_u32 (\<lambda>len. dbind (bsrc_bytes (nat len)) (\<lambda>b. dret (BBytes b)))\<rparr>"

definition borsh_string :: codec where
  "borsh_string =
     \<lparr>c_encode = (\<lambda>val. case val of BStr s \<Rightarrow> bsink_string s | _ \<Rightarrow> (\<lambda>s. Inl TypeError)),
      c_decode = dbind bsrc_string (\<lambda>s. dret (BStr s))\<rparr>"

definition borsh_address :: "(jstr \<Rightarrow> byte list result) \<Rightarrow> (byte list \<Rightarrow> jstr) \<Rightarrow> codec" where
  "borsh_address b58_decode b58_encode =
     \<lparr>c_encode = (\<lambda>val. case val of
         BStr s \<Rightarrow> sk_check (b58_decode s) (\<lambda>b s.
           if length b = 32 then bsink_bytes b s else Inl AssertionError)
       | _ \<Rightarrow> (\<lambda>s. Inl TypeError)),
      c_decode = dbind (bsrc_base58 b58_encode 32) (\<lambda>s. dret (BStr s))\<rparr>"

text \<open>The codecs built from codecs.\<close>

fun dec_array :: "nat \<Rightarrow> bval dec \<Rightarrow> bval list dec" where
  "dec_array 0 d = dret []"
| "dec_array (Suc n) d = dbind d (\<lambda>v. dbind (dec_array n d) (\<lambda>vs. dret (v # vs)))"

definition ArrayCodec :: "codec \<Rightarrow> codec" where
  "ArrayCodec item =
     \<lparr>c_encode = (\<lambda>val. case val of
         BArr vs \<Rightarrow> sk_seq (bsink_u32 (int (length vs))) (rfold (c_encode item) vs)
       | _ \<Rightarrow> (\<lambda>s. Inl TypeError)),
      c_decode = dbind bsrc_u32 (\<lambda>len. dbind (dec_array (nat len) (c_decode item)) (\<lambda>vs. dret (BArr vs)))\<rparr>"

text \<open>An element past the end of the array is \<open>undefined\<close>; elements past the size are ignored.\<close>

definition FixedArrayCodec :: "codec \<Rightarrow> nat \<Rightarrow> codec" where
  "FixedArrayCodec item len =
     \<lparr>c_encode = (\<lambda>val. case val of
         BArr vs \<Rightarrow> rfold (\<lambda>i. c_encode item (if i < length vs then vs ! i else BUndef)) [0 ..< len]
       | _ \<Rightarrow> (\<lambda>s. Inl TypeError)),
      c_decode = (if len \<ge> 2 ^ 32 then dfail RangeError
                  else dbind (dec_array len (c_decode item)) (\<lambda>vs. dret (BArr vs)))\<rparr>"

fun dec_map :: "nat \<Rightarrow> bval dec \<Rightarrow> bval dec \<Rightarrow> (bval \<times> bval) list \<Rightarrow> (bval \<times> bval) list dec" where
  "dec_map 0 dk dv res = dret res"
| "dec_map (Suc n) dk dv res = dbind dk (\<lambda>k. dbind dv (\<lambda>v. dec_map n dk dv (map_set k v res)))"

definition HashMapCodec :: "codec \<Rightarrow> codec \<Rightarrow> codec" where
  "HashMapCodec key value =
     \<lparr>c_encode = (\<lambda>val. case val of
         BMap kvs \<Rightarrow> sk_seq (bsink_u32 (int (length kvs)))
           (rfold (\<lambda>(k, v). sk_seq (c_encode key k) (c_encode value v)) kvs)
       | _ \<Rightarrow> (\<lambda>s. Inl TypeError)),
      c_decode = dbind bsrc_u32 (\<lambda>len.
        dbind (dec_map (nat len) (c_decode key) (c_decode value) []) (\<lambda>kvs. dret (BMap kvs)))\<rparr>"

fun dec_set :: "nat \<Rightarrow> bval dec \<Rightarrow> bval list \<Rightarrow> bval list dec" where
  "dec_set 0 d res = dret res"
| "dec_set (Suc n) d res = dbind d (\<lambda>v. dec_set n d (set_add v res))"

definition HashSetCodec :: "codec \<Rightarrow> codec" where
  "HashSetCodec item =
     \<lparr>c_encode = (\<lambda>val. case val of
         BSet vs \<Rightarrow> sk_seq (bsink_u32 (int (length vs))) (rfold (c_encode item) vs)
       | _ \<Rightarrow> (\<lambda>s. Inl TypeError)),
      c_decode = dbind bsrc_u32 (\<lambda>len. dbind (dec_set (nat len) (c_decode item) []) (\<lambda>vs. dret (BSet vs)))\<rparr>"

definition OptionCodec :: "codec \<Rightarrow> codec" where
  "OptionCodec item =
     \<lparr>c_encode = (\<lambda>val. if val = BUndef then bsink_u8 0 else sk_seq (bsink_u8 1) (c_encode item val)),
      c_decode = dbind bsrc_u8 (\<lambda>d.
        if d = 0 then dret BUndef
        else if d = 1 then c_decode item
        else dfail (ThrownError ''Got unexpected discriminator value''))\<rparr>"

definition getProp :: "bval \<Rightarrow> jstr \<Rightarrow> bval result" where
  "getProp val key =
     (case val of
        BObj fs \<Rightarrow> Inr (case map_of fs key of None \<Rightarrow> BUndef | Some v \<Rightarrow> v)
      | _ \<Rightarrow> Inl TypeError)"

fun dec_struct :: "(jstr \<times> codec) list \<Rightarrow> (jstr \<times> bval) list dec" where
  "dec_struct [] = dret []"
| "dec_struct ((key, c) # props) =
     dbind (c_decode c) (\<lambda>v. dbind (dec_struct props) (\<lambda>fs. dret ((key, v) # fs)))"

definition StructCodec :: "(jstr \<times> codec) list \<Rightarrow> codec" where
  "StructCodec props =
     \<lparr>c_encode = (\<lambda>val. rfold (\<lambda>(key, c). sk_check (getProp val key) (c_encode c)) props),
      c_decode = dbind (dec_struct props) (\<lambda>fs. dret (BObj fs))\<rparr>"

fun dec_tuple :: "codec list \<Rightarrow> bval list dec" where
  "dec_tuple [] = dret []"
| "dec_tuple (c # cs) = dbind (c_decode c) (\<lambda>v. dbind (dec_tuple cs) (\<lambda>vs. dret (v # vs)))"

definition TupleCodec :: "codec list \<Rightarrow> codec" where
  "TupleCodec tuple =
     \<lparr>c_encode = (\<lambda>val. case val of
         BArr vs \<Rightarrow> rfold (\<lambda>i. c_encode (tuple ! i) (if i < length vs then vs ! i else BUndef)) [0 ..< length tuple]
       | _ \<Rightarrow> (\<lambda>s. Inl TypeError)),
      c_decode = dbind (dec_tuple tuple) (\<lambda>vs. dret (BArr vs))\<rparr>"

text \<open>
  The function that \<open>createEncode\<close> of the sum codec generates has the single parameter \<open>sink\<close>; its
  first statement reads \<open>val\<close>, which is not bound. \<open>createDecode\<close> compares the discriminator with the
  literals in the order of the variants; a variant of the codec \<open>unit\<close> has no value.
\<close>

datatype sum_value = UnitValue | CodecValue codec

definition discriminator_reader :: "nat \<Rightarrow> int dec result" where
  "discriminator_reader discriminatorType =
     (if discriminatorType = 1 then Inr bsrc_u8
      else if discriminatorType = 2 then Inr bsrc_u16
      else if discriminatorType = 4 then Inr bsrc_u32
      else if discriminatorType = 8 then Inr bsrc_u64
      else Inl (ThrownError ''Only 1, 2, 4 and 8 byte discriminators are supported''))"

fun dec_sum :: "(jstr \<times> int \<times> sum_value) list \<Rightarrow> int \<Rightarrow> bval dec" where
  "dec_sum [] discriminator = dfail (ThrownError ''Got unexpected discriminator value'')"
| "dec_sum ((name, disc, v) # variants) discriminator =
     (if discriminator = disc
      then (case v of
              UnitValue \<Rightarrow> dret (BObj [(js ''kind'', BStr name)])
            | CodecValue c \<Rightarrow> dbind (c_decode c) (\<lambda>value. dret (BObj [(js ''kind'', BStr name), (js ''value'', value)])))
      else dec_sum variants discriminator)"

definition SumCodec :: "nat \<Rightarrow> (jstr \<times> int \<times> sum_value) list \<Rightarrow> codec result" where
  "SumCodec discriminatorType variants =
     rbind (discriminator_reader discriminatorType) (\<lambda>read. Inr
       \<lparr>c_encode = (\<lambda>val s. Inl ReferenceError),
        c_decode = dbind read (dec_sum variants)\<rparr>)"

definition RefCodec :: "(unit \<Rightarrow> codec) \<Rightarrow> codec" where
  "RefCodec fn = \<lparr>c_encode = c_encode (fn ()), c_decode = c_decode (fn ())\<rparr>"

text \<open>Encoding into a fresh sink, and decoding from the beginning of a buffer.\<close>

definition borsh_encode :: "codec \<Rightarrow> bval \<Rightarrow> byte list result" where
  "borsh_encode c val = rbind (c_encode c val (bsink_new 1280)) (\<lambda>s. Inr (bsink_result s))"

definition borsh_decode :: "codec \<Rightarrow> byte list \<Rightarrow> bval result" where
  "borsh_decode c buf = rbind (c_decode c \<lparr>src_idx = 0, src_buf = buf\<rparr>) (\<lambda>(v, s). Inr v)"

section \<open>The codecs of the DSL\<close>

datatype btype =
    TUnit | TBool | TU8 | TI8 | TU16 | TI16 | TU32 | TI32 | TU64 | TI64 | TU128 | TI128
  | TF32 | TF64
  | TBinary | TString | TAddress
  | TArray btype
  | TFixedArray btype nat
  | TStruct "(jstr \<times> btype) list"
  | TTuple "btype list"
  | THashMap btype btype
  | THashSet btype
  | TOption btype
  | TSum nat "(jstr \<times> int \<times> btype) list"
  | TRef btype

text \<open>
  A sum of another size than 1, 2, 4 and 8 bytes throws when it is made; here its codec throws whenever it is used.
\<close>

definition sum_or_throw :: "codec result \<Rightarrow> codec" where
  "sum_or_throw r = (case r of Inl e \<Rightarrow> \<lparr>c_encode = (\<lambda>_ _. Inl e), c_decode = dfail e\<rparr> | Inr c \<Rightarrow> c)"

fun dsl :: "(jstr \<Rightarrow> byte list result) \<Rightarrow> (byte list \<Rightarrow> jstr) \<Rightarrow> btype \<Rightarrow> codec" where
  "dsl d e TUnit = borsh_unit"
| "dsl d e TBool = borsh_bool"
| "dsl d e TU8 = borsh_u8"
| "dsl d e TI8 = borsh_i8"
| "dsl d e TU16 = borsh_u16"
| "dsl d e TI16 = borsh_i16"
| "dsl d e TU32 = borsh_u32"
| "dsl d e TI32 = borsh_i32"
| "dsl d e TU64 = borsh_u64"
| "dsl d e TI64 = borsh_i64"
| "dsl d e TU128 = borsh_u128"
| "dsl d e TI128 = borsh_i128"
| "dsl d e TF32 = borsh_f32"
| "dsl d e TF64 = borsh_f64"
| "dsl d e TBinary = borsh_binary"
| "dsl d e TString = borsh_string"
| "dsl d e TAddress = borsh_address d e"
| "dsl d e (TArray t) = ArrayCodec (dsl d e t)"
| "dsl d e (TFixedArray t n) = FixedArrayCodec (dsl d e t) n"
| "dsl d e (TStruct props) = StructCodec (map (\<lambda>(key, t). (key, dsl d e t)) props)"
| "dsl d e (TTuple ts) = TupleCodec (map (dsl d e) ts)"
| "dsl d e (THashMap k v) = HashMapCodec (dsl d e k) (dsl d e v)"
| "dsl d e (THashSet t) = HashSetCodec (dsl d e t)"
| "dsl d e (TOption t) = OptionCodec (dsl d e t)"
| "dsl d e (TSum n variants) = sum_or_throw (SumCodec n (map (\<lambda>(name, disc, t).
     (name, disc, if t = TUnit then UnitValue else CodecValue (dsl d e t))) variants))"
| "dsl d e (TRef t) = RefCodec (\<lambda>_. dsl d e t)"

text \<open>The values of a type that the codecs preserve: none of the floating point types, whose bytes are written and
  read in opposite orders, and none of a sum, which cannot be encoded.\<close>

inductive bval_ok :: "(byte list \<Rightarrow> jstr) \<Rightarrow> btype \<Rightarrow> bval \<Rightarrow> bool" for e where
  ok_unit: "bval_ok e TUnit BUndef"
| ok_bool: "bval_ok e TBool (BBool b)"
| ok_u8: "0 \<le> n \<Longrightarrow> n < 2 ^ 8 \<Longrightarrow> bval_ok e TU8 (BNum n)"
| ok_i8: "- (2 ^ 7) \<le> n \<Longrightarrow> n < 2 ^ 7 \<Longrightarrow> bval_ok e TI8 (BNum n)"
| ok_u16: "0 \<le> n \<Longrightarrow> n < 2 ^ 16 \<Longrightarrow> bval_ok e TU16 (BNum n)"
| ok_i16: "- (2 ^ 15) \<le> n \<Longrightarrow> n < 2 ^ 15 \<Longrightarrow> bval_ok e TI16 (BNum n)"
| ok_u32: "0 \<le> n \<Longrightarrow> n < 2 ^ 32 \<Longrightarrow> bval_ok e TU32 (BNum n)"
| ok_i32: "- (2 ^ 31) \<le> n \<Longrightarrow> n < 2 ^ 31 \<Longrightarrow> bval_ok e TI32 (BNum n)"
| ok_u64: "0 \<le> n \<Longrightarrow> n < 2 ^ 64 \<Longrightarrow> bval_ok e TU64 (BBig n)"
| ok_i64: "- (2 ^ 63) \<le> n \<Longrightarrow> n < 2 ^ 63 \<Longrightarrow> bval_ok e TI64 (BBig n)"
| ok_u128: "0 \<le> n \<Longrightarrow> n < 2 ^ 128 \<Longrightarrow> bval_ok e TU128 (BBig n)"
| ok_i128: "- (2 ^ 127) \<le> n \<Longrightarrow> n < 2 ^ 127 \<Longrightarrow> bval_ok e TI128 (BBig n)"
| ok_binary: "length b < 2 ^ 32 \<Longrightarrow> bval_ok e TBinary (BBytes b)"
| ok_string: "list_all scalar_value s \<Longrightarrow> length (UTF8_ENCODER_encode s) < 2 ^ 32 \<Longrightarrow> bval_ok e TString (BStr s)"
| ok_address: "length b = 32 \<Longrightarrow> bval_ok e TAddress (BStr (e b))"
| ok_array: "length vs < 2 ^ 32 \<Longrightarrow> \<forall>v. v \<in> set vs \<longrightarrow> bval_ok e t v \<Longrightarrow> bval_ok e (TArray t) (BArr vs)"
| ok_fixed: "length vs < 2 ^ 32 \<Longrightarrow> \<forall>v. v \<in> set vs \<longrightarrow> bval_ok e t v \<Longrightarrow> bval_ok e (TFixedArray t (length vs)) (BArr vs)"
| ok_struct: "distinct (map fst ps) \<Longrightarrow> \<forall>key t v. (key, t, v) \<in> set ps \<longrightarrow> bval_ok e t v \<Longrightarrow>
    bval_ok e (TStruct (map (\<lambda>(key, t, v). (key, t)) ps)) (BObj (map (\<lambda>(key, t, v). (key, v)) ps))"
| ok_tuple: "\<forall>t v. (t, v) \<in> set ps \<longrightarrow> bval_ok e t v \<Longrightarrow> bval_ok e (TTuple (map fst ps)) (BArr (map snd ps))"
| ok_map: "length kvs < 2 ^ 32 \<Longrightarrow> sorted_wrt (\<lambda>p q. \<not> same_value (fst p) (fst q)) kvs \<Longrightarrow>
    \<forall>k v. (k, v) \<in> set kvs \<longrightarrow> bval_ok e tk k \<and> bval_ok e tv v \<Longrightarrow> bval_ok e (THashMap tk tv) (BMap kvs)"
| ok_set: "length vs < 2 ^ 32 \<Longrightarrow> sorted_wrt (\<lambda>p q. \<not> same_value p q) vs \<Longrightarrow>
    \<forall>v. v \<in> set vs \<longrightarrow> bval_ok e t v \<Longrightarrow> bval_ok e (THashSet t) (BSet vs)"
| ok_none: "bval_ok e (TOption t) BUndef"
| ok_some: "v \<noteq> BUndef \<Longrightarrow> bval_ok e t v \<Longrightarrow> bval_ok e (TOption t) v"
| ok_ref: "bval_ok e t v \<Longrightarrow> bval_ok e (TRef t) v"

section \<open>The sink appends, the reader reads what is there\<close>

lemma bsink_emits: "emits byte_sink_ok bsink_result (bsink_put bs) bs"
  unfolding emits_def
proof (intro allI impI)
  fix s assume ok: "byte_sink_ok s"
  have "\<exists>t. bsink_reserve (length bs) s = Inr t \<and> bs_pos t = bs_pos s \<and> bs_pos s + length bs \<le> length (bs_buf t) \<and>
      bsink_result t = bsink_result s"
    using ok by (auto simp: bsink_reserve_def bsink_allocate_def buf_set_def byte_sink_ok_def bsink_result_def)
  then obtain t where t: "bsink_reserve (length bs) s = Inr t" "bs_pos t = bs_pos s"
      "bs_pos s + length bs \<le> length (bs_buf t)" "bsink_result t = bsink_result s" by blast
  with ok show "\<exists>s'. bsink_put bs s = Inr s' \<and> byte_sink_ok s' \<and> bsink_result s' = bsink_result s @ bs"
    by (auto simp: bsink_put_def buf_set_def byte_sink_ok_def bsink_result_def)
qed

lemma decodes_view: "length bs = n \<Longrightarrow> decodes (bsrc_view n) bs bs"
  by (simp add: decodes_def bsrc_view_def src_at_def)

lemma decodes_bsrc_bytes: "length bs = n \<Longrightarrow> decodes (bsrc_bytes n) bs bs"
  by (simp add: decodes_def bsrc_bytes_def bsrc_assertLength_def src_at_def)

lemma decodes_dret: "decodes d bs v \<Longrightarrow> decodes (dbind d (\<lambda>x. dret (g x))) bs (g v)"
  by (rule decodes_bind_ret) simp_all

abbreviation bemits :: "(byte_sink \<Rightarrow> byte_sink result) \<Rightarrow> byte list \<Rightarrow> bool" where
  "bemits \<equiv> emits byte_sink_ok bsink_result"

text \<open>A codec is faithful on a value when it encodes the value to bytes from which it decodes it.\<close>

definition faithful :: "codec \<Rightarrow> bval \<Rightarrow> bool" where
  "faithful c v \<longleftrightarrow> (\<exists>bs. bemits (c_encode c v) bs \<and> decodes (c_decode c) bs v)"

lemma faithful_num:
  assumes "bemits (write n) bs" "decodes read bs n"
  shows "faithful (num_codec write read) (BNum n)" "faithful (big_codec write read) (BBig n)"
  using assms decodes_dret [OF assms(2), of BNum] decodes_dret [OF assms(2), of BBig]
  by (auto simp: faithful_def num_codec_def big_codec_def as_num_def as_big_def intro!: exI [of _ bs] emits_check)

lemma decodes_unsigned_view:
  "0 \<le> v \<Longrightarrow> v < 256 ^ n \<Longrightarrow> decodes (dbind (bsrc_view n) (\<lambda>b. dret (le_val b))) (le_bytes n v) v"
  by (rule decodes_bind_ret [OF decodes_view]) (simp_all add: le_val_le_bytes)

lemma decodes_signed_view:
  assumes "- (2 ^ (k - 1)) \<le> v" "v < 2 ^ (k - 1)" "0 < k" "(256 :: int) ^ n = 2 ^ k"
  shows "decodes (dbind (bsrc_view n) (\<lambda>b. dret (signed_val k (le_val b)))) (le_bytes n v) v"
proof (rule decodes_bind_ret [OF decodes_view])
  show "v = signed_val k (le_val (le_bytes n v))"
    using signed_val_mod [OF assms(3,1,2)] by (simp add: le_val_le_bytes assms(4))
qed simp

lemma faithful_small:
  "0 \<le> n \<Longrightarrow> n < 2 ^ 8 \<Longrightarrow> faithful borsh_u8 (BNum n)"
  "0 \<le> n \<Longrightarrow> n < 2 ^ 16 \<Longrightarrow> faithful borsh_u16 (BNum n)"
  "0 \<le> n \<Longrightarrow> n < 2 ^ 32 \<Longrightarrow> faithful borsh_u32 (BNum n)"
  "0 \<le> n \<Longrightarrow> n < 2 ^ 64 \<Longrightarrow> faithful borsh_u64 (BBig n)"
  unfolding borsh_u8_def borsh_u16_def borsh_u32_def borsh_u64_def
    bsink_u8_def bsink_u16_def bsink_u32_def bsink_u64_def bsrc_u8_def bsrc_u16_def bsrc_u32_def bsrc_u64_def
  by (rule faithful_num, rule bsink_emits, rule decodes_unsigned_view, simp_all)+

lemma faithful_small_signed:
  "- (2 ^ 7) \<le> n \<Longrightarrow> n < 2 ^ 7 \<Longrightarrow> faithful borsh_i8 (BNum n)"
  "- (2 ^ 15) \<le> n \<Longrightarrow> n < 2 ^ 15 \<Longrightarrow> faithful borsh_i16 (BNum n)"
  "- (2 ^ 31) \<le> n \<Longrightarrow> n < 2 ^ 31 \<Longrightarrow> faithful borsh_i32 (BNum n)"
  "- (2 ^ 63) \<le> n \<Longrightarrow> n < 2 ^ 63 \<Longrightarrow> faithful borsh_i64 (BBig n)"
  unfolding borsh_i8_def borsh_i16_def borsh_i32_def borsh_i64_def
    bsink_i8_def bsink_i16_def bsink_i32_def bsink_i64_def bsrc_i8_def bsrc_i16_def bsrc_i32_def bsrc_i64_def
  by (rule faithful_num, rule bsink_emits, rule decodes_signed_view, simp_all)+

lemma bemits_u128: "bemits (bsink_u128 v) (le_bytes 16 v)"
proof -
  have "le_bytes 16 v = le_bytes 8 (v mod 2 ^ 64) @ le_bytes 8 (v div 2 ^ 64)"
    using le_bytes_append [of 8 8 v] le_bytes_mod [of 8 v] by simp
  moreover have "bemits (bsink_u128 v) (le_bytes 8 (v mod 2 ^ 64) @ le_bytes 8 (v div 2 ^ 64))"
    unfolding bsink_u128_def bsink_u64_def
    using big_and_mask [of v 64] by (intro emits_seq) (simp_all add: bsink_emits drop_bit_eq_div)
  ultimately show ?thesis by simp
qed

lemma decodes_bsrc_64:
  "0 \<le> v \<Longrightarrow> v < 2 ^ 64 \<Longrightarrow> decodes bsrc_u64 (le_bytes 8 v) v"
  "- (2 ^ 63) \<le> v \<Longrightarrow> v < 2 ^ 63 \<Longrightarrow> decodes bsrc_i64 (le_bytes 8 v) v"
  unfolding bsrc_u64_def bsrc_i64_def
  by (rule decodes_unsigned_view, simp_all) (rule decodes_signed_view, simp_all)

lemma faithful_u128: "0 \<le> v \<Longrightarrow> v < 2 ^ 128 \<Longrightarrow> faithful borsh_u128 (BBig v)"
  unfolding borsh_u128_def
proof (rule faithful_num [OF bemits_u128])
  assume v: "0 \<le> v" "v < 2 ^ 128"
  show "decodes bsrc_u128 (le_bytes 16 v) v"
    unfolding bsrc_u128_def
    using decodes_halves [of bsrc_u64 8 v bsrc_u64 8 64] decodes_bsrc_64(1) [of "v mod 2 ^ 64"]
      decodes_bsrc_64(1) [of "v div 2 ^ 64"] div_bounds [of "2 ^ 64" 0 v "2 ^ 64"] le_bytes_mod [of 8 v] v
    by simp
qed

lemma faithful_i128: "- (2 ^ 127) \<le> v \<Longrightarrow> v < 2 ^ 127 \<Longrightarrow> faithful borsh_i128 (BBig v)"
  unfolding borsh_i128_def
proof (rule faithful_num)
  assume v: "- (2 ^ 127) \<le> v" "v < 2 ^ 127"
  have "big_rem (v + 2 ^ 128) (2 ^ 128) = v mod 2 ^ 128" using v by (simp add: big_rem_def)
  then show "bemits (bsink_i128 v) (le_bytes 16 v)"
    using bemits_u128 [of "v mod 2 ^ 128"] le_bytes_mod [of 16 v] by (simp add: bsink_i128_def)
  show "decodes bsrc_i128 (le_bytes 16 v) v"
    unfolding bsrc_i128_def
    using decodes_halves [of bsrc_u64 8 v bsrc_i64 8 64] decodes_bsrc_64(1) [of "v mod 2 ^ 64"]
      decodes_bsrc_64(2) [of "v div 2 ^ 64"] div_bounds [of "2 ^ 64" "- (2 ^ 63)" v "2 ^ 63"] le_bytes_mod [of 8 v] v
    by simp
qed

text \<open>A length before the data.\<close>

lemma bemits_length: "bemits (bsink_u32 (int n)) (le_bytes 4 (int n))"
  unfolding bsink_u32_def by (rule bsink_emits)

lemma decodes_length: "n < 2 ^ 32 \<Longrightarrow> decodes bsrc_u32 (le_bytes 4 (int n)) (int n)"
  unfolding bsrc_u32_def
proof (rule decodes_unsigned_view)
  assume "n < 2 ^ 32"
  then have "int n < int (2 ^ 32)" by (simp only: of_nat_less_iff)
  then show "int n < 256 ^ 4" by simp
qed simp

lemma decodes_prefixed:
  "n < 2 ^ 32 \<Longrightarrow> decodes (f (int n)) bs v \<Longrightarrow> decodes (dbind bsrc_u32 f) (le_bytes 4 (int n) @ bs) v"
  by (rule decodes_bind [OF decodes_length])

lemma faithful_binary: "length b < 2 ^ 32 \<Longrightarrow> faithful borsh_binary (BBytes b)"
  unfolding faithful_def
proof (intro exI conjI)
  assume n: "length b < 2 ^ 32"
  show "bemits (c_encode borsh_binary (BBytes b)) (le_bytes 4 (int (length b)) @ b)"
    by (simp add: borsh_binary_def bsink_bytes_def emits_seq [OF bemits_length bsink_emits])
  show "decodes (c_decode borsh_binary) (le_bytes 4 (int (length b)) @ b) (BBytes b)"
    unfolding borsh_binary_def codec.select_convs
    by (rule decodes_prefixed [OF n], rule decodes_dret, rule decodes_bsrc_bytes) simp
qed

lemma faithful_string:
  "list_all scalar_value s \<Longrightarrow> length (UTF8_ENCODER_encode s) < 2 ^ 32 \<Longrightarrow> faithful borsh_string (BStr s)"
  unfolding faithful_def
proof (intro exI conjI)
  let ?b = "UTF8_ENCODER_encode s"
  assume s: "list_all scalar_value s" and n: "length ?b < 2 ^ 32"
  show "bemits (c_encode borsh_string (BStr s)) (le_bytes 4 (int (length ?b)) @ ?b)"
    by (simp add: borsh_string_def bsink_string_def Let_def emits_seq [OF bemits_length bsink_emits])
  have "decodes bsrc_string (le_bytes 4 (int (length ?b)) @ ?b) s"
    unfolding bsrc_string_def
    by (rule decodes_prefixed [OF n], rule decodes_bind_ret, rule decodes_bsrc_bytes)
      (simp_all add: utf8_toString_encode [OF s])
  then show "decodes (c_decode borsh_string) (le_bytes 4 (int (length ?b)) @ ?b) (BStr s)"
    by (simp add: borsh_string_def decodes_dret)
qed

lemma faithful_address:
  "d (e b) = Inr b \<Longrightarrow> length b = 32 \<Longrightarrow> faithful (borsh_address d e) (BStr (e b))"
  unfolding faithful_def
proof (intro exI conjI)
  assume b: "d (e b) = Inr b" "length b = 32"
  show "bemits (c_encode (borsh_address d e) (BStr (e b))) b"
    using b bsink_emits [of b] by (simp add: borsh_address_def bsink_bytes_def emits_check [OF refl])
  have "decodes (bsrc_base58 e 32) b (e b)"
    unfolding bsrc_base58_def by (rule decodes_dret, rule decodes_bsrc_bytes) (rule b)
  then show "decodes (c_decode (borsh_address d e)) b (BStr (e b))"
    by (simp add: borsh_address_def decodes_dret)
qed

section \<open>Composite codecs keep the faith of their parts\<close>

text \<open>The bytes of a faithful value.\<close>

definition encoding :: "codec \<Rightarrow> bval \<Rightarrow> byte list" where
  "encoding c v = (SOME bs. bemits (c_encode c v) bs \<and> decodes (c_decode c) bs v)"

lemma faithfulD: "faithful c v \<Longrightarrow> bemits (c_encode c v) (encoding c v) \<and> decodes (c_decode c) (encoding c v) v"
  unfolding faithful_def encoding_def by (rule someI_ex)

lemma decodes_dec_array:
  "\<forall>v\<in>set vs. decodes d (g v) v \<Longrightarrow> decodes (dec_array (length vs) d) (concat (map g vs)) vs"
proof (induction vs)
  case Nil
  then show ?case by (simp add: decodes_ret)
next
  case (Cons v vs)
  have "decodes (dbind (dec_array (length vs) d) (\<lambda>vs. dret (v # vs))) (concat (map g vs)) (v # vs)"
    using Cons by (intro decodes_dret) auto
  then show ?case using Cons.prems decodes_bind [of d "g v" v] by simp
qed

lemma faithful_array:
  assumes "length vs < 2 ^ 32" "\<forall>v\<in>set vs. faithful c v"
  shows "faithful (ArrayCodec c) (BArr vs)"
  unfolding faithful_def
proof (intro exI conjI)
  let ?bs = "le_bytes 4 (int (length vs)) @ concat (map (encoding c) vs)"
  show "bemits (c_encode (ArrayCodec c) (BArr vs)) ?bs"
    unfolding ArrayCodec_def using assms(2) faithfulD
    by (auto intro!: emits_seq [OF bemits_length emits_rfold])
  show "decodes (c_decode (ArrayCodec c)) ?bs (BArr vs)"
    unfolding ArrayCodec_def codec.select_convs using assms(2) faithfulD
    by (intro decodes_prefixed [OF assms(1)] decodes_dret) (auto intro!: decodes_dec_array)
qed

lemma rfold_upt:
  "rfold (\<lambda>i. f (if i < length vs then vs ! i else u)) [0 ..< length vs] = rfold f vs"
proof -
  have "map (\<lambda>i. if i < length vs then vs ! i else u) [0 ..< length vs] = vs"
    by (rule nth_equalityI) auto
  then show ?thesis
    using rfold_map [of f "\<lambda>i. if i < length vs then vs ! i else u" "[0 ..< length vs]"] by simp
qed

lemma faithful_fixed:
  assumes "length vs < 2 ^ 32" "\<forall>v\<in>set vs. faithful c v"
  shows "faithful (FixedArrayCodec c (length vs)) (BArr vs)"
  unfolding faithful_def
proof (intro exI conjI)
  let ?bs = "concat (map (encoding c) vs)"
  show "bemits (c_encode (FixedArrayCodec c (length vs)) (BArr vs)) ?bs"
    unfolding FixedArrayCodec_def using assms(2) faithfulD by (auto simp: rfold_upt intro!: emits_rfold)
  show "decodes (c_decode (FixedArrayCodec c (length vs))) ?bs (BArr vs)"
    unfolding FixedArrayCodec_def using assms faithfulD by (auto intro!: decodes_dret decodes_dec_array)
qed

lemma decodes_dec_struct:
  "\<forall>key c v. (key, c, v) \<in> set ps \<longrightarrow> faithful c v \<Longrightarrow>
    decodes (dec_struct (map (\<lambda>(key, c, v). (key, c)) ps)) (concat (map (\<lambda>(key, c, v). encoding c v) ps))
      (map (\<lambda>(key, c, v). (key, v)) ps)"
proof (induction ps)
  case Nil
  then show ?case by (simp add: decodes_ret)
next
  case (Cons p ps)
  obtain key c v where p: "p = (key, c, v)" by (cases p)
  have "decodes (dbind (dec_struct (map (\<lambda>(key, c, v). (key, c)) ps)) (\<lambda>fs. dret ((key, v) # fs)))
      (concat (map (\<lambda>(key, c, v). encoding c v) ps)) ((key, v) # map (\<lambda>(key, c, v). (key, v)) ps)"
    using Cons by (intro decodes_dret) auto
  moreover have "decodes (c_decode c) (encoding c v) v" using Cons.prems p faithfulD by auto
  ultimately show ?case using decodes_bind p by simp
qed

lemma prop_piece:
  assumes "(key, c, v) \<in> set ps" "distinct (map fst ps)"
  shows "getProp (BObj (map (\<lambda>(key, c, v). (key, v)) ps)) key = Inr v"
proof -
  have "distinct (map fst (map (\<lambda>(key, c, v). (key, v)) ps))"
    using assms(2) by (simp add: comp_def case_prod_unfold)
  moreover have "(key, v) \<in> set (map (\<lambda>(key, c, v). (key, v)) ps)" using assms(1) by force
  ultimately have "map_of (map (\<lambda>(key, c, v). (key, v)) ps) key = Some v" by (rule map_of_is_SomeI)
  then show ?thesis by (simp add: getProp_def)
qed

lemma faithful_struct:
  assumes "distinct (map fst ps)" "\<forall>key c v. (key, c, v) \<in> set ps \<longrightarrow> faithful c v"
  shows "faithful (StructCodec (map (\<lambda>(key, c, v). (key, c)) ps)) (BObj (map (\<lambda>(key, c, v). (key, v)) ps))"
  unfolding faithful_def
proof (intro exI conjI)
  let ?obj = "BObj (map (\<lambda>(key, c, v). (key, v)) ps)" and ?bs = "concat (map (\<lambda>(key, c, v). encoding c v) ps)"
  have "bemits (rfold (\<lambda>p. case (case p of (key, c, v) \<Rightarrow> (key, c)) of (key, c) \<Rightarrow> sk_check (getProp ?obj key) (c_encode c)) ps) ?bs"
  proof (rule emits_rfold)
    fix p assume "p \<in> set ps"
    moreover obtain key c v where p: "p = (key, c, v)" by (cases p)
    ultimately have "getProp ?obj key = Inr v" "bemits (c_encode c v) (encoding c v)"
      using prop_piece [OF _ assms(1)] assms(2) faithfulD by auto
    then show "bemits (case (case p of (key, c, v) \<Rightarrow> (key, c)) of (key, c) \<Rightarrow> sk_check (getProp ?obj key) (c_encode c))
        (case p of (key, c, v) \<Rightarrow> encoding c v)"
      unfolding p by (auto intro: emits_check)
  qed
  then show "bemits (c_encode (StructCodec (map (\<lambda>(key, c, v). (key, c)) ps)) ?obj) ?bs"
    by (simp only: StructCodec_def codec.select_convs bval.case rfold_map)
  show "decodes (c_decode (StructCodec (map (\<lambda>(key, c, v). (key, c)) ps))) ?bs ?obj"
    unfolding StructCodec_def codec.select_convs using decodes_dret [OF decodes_dec_struct [OF assms(2)]] .
qed

lemma decodes_dec_tuple:
  "\<forall>c v. (c, v) \<in> set ps \<longrightarrow> faithful c v \<Longrightarrow>
    decodes (dec_tuple (map fst ps)) (concat (map (\<lambda>p. encoding (fst p) (snd p)) ps)) (map snd ps)"
proof (induction ps)
  case Nil
  then show ?case by (simp add: decodes_ret)
next
  case (Cons p ps)
  have "decodes (dbind (dec_tuple (map fst ps)) (\<lambda>vs. dret (snd p # vs)))
      (concat (map (\<lambda>p. encoding (fst p) (snd p)) ps)) (snd p # map snd ps)"
    using Cons by (intro decodes_dret) auto
  moreover have "decodes (c_decode (fst p)) (encoding (fst p) (snd p)) (snd p)" using Cons.prems faithfulD by (cases p) auto
  ultimately show ?case using decodes_bind by simp
qed

lemma faithful_tuple:
  assumes "\<forall>c v. (c, v) \<in> set ps \<longrightarrow> faithful c v"
  shows "faithful (TupleCodec (map fst ps)) (BArr (map snd ps))"
  unfolding faithful_def
proof (intro exI conjI)
  let ?bs = "concat (map (\<lambda>p. encoding (fst p) (snd p)) ps)" and ?n = "length ps"
  let ?f = "\<lambda>i. c_encode (map fst ps ! i) (if i < length (map snd ps) then map snd ps ! i else BUndef)"
  have "bemits (rfold ?f [0 ..< ?n]) (concat (map (\<lambda>i. encoding (fst (ps ! i)) (snd (ps ! i))) [0 ..< ?n]))"
  proof (rule emits_rfold)
    fix i assume "i \<in> set [0 ..< ?n]"
    moreover from this have "(fst (ps ! i), snd (ps ! i)) \<in> set ps" by simp
    ultimately show "bemits (?f i) (encoding (fst (ps ! i)) (snd (ps ! i)))" using assms faithfulD by simp
  qed
  moreover have "map (\<lambda>i. encoding (fst (ps ! i)) (snd (ps ! i))) [0 ..< ?n] = map (\<lambda>p. encoding (fst p) (snd p)) ps"
    by (rule nth_equalityI) auto
  ultimately show "bemits (c_encode (TupleCodec (map fst ps)) (BArr (map snd ps))) ?bs"
    by (simp add: TupleCodec_def)
  show "decodes (c_decode (TupleCodec (map fst ps))) ?bs (BArr (map snd ps))"
    unfolding TupleCodec_def codec.select_convs using decodes_dret [OF decodes_dec_tuple [OF assms]] .
qed

lemma map_set_new: "\<forall>p\<in>set kvs. \<not> same_value (fst p) k \<Longrightarrow> map_set k v kvs = kvs @ [(k, v)]"
  by (induction kvs) auto

lemma decodes_dec_map:
  "sorted_wrt (\<lambda>p q. \<not> same_value (fst p) (fst q)) (res @ kvs) \<Longrightarrow>
    \<forall>k v. (k, v) \<in> set kvs \<longrightarrow> faithful ck k \<and> faithful cv v \<Longrightarrow>
    decodes (dec_map (length kvs) (c_decode ck) (c_decode cv) res)
      (concat (map (\<lambda>(k, v). encoding ck k @ encoding cv v) kvs)) (res @ kvs)"
proof (induction kvs arbitrary: res)
  case Nil
  then show ?case by (simp add: decodes_ret)
next
  case (Cons p kvs)
  obtain k v where p: "p = (k, v)" by (cases p)
  have new: "map_set k v res = res @ [(k, v)]"
    using Cons.prems(1) p by (intro map_set_new) (auto simp: sorted_wrt_append)
  have "decodes (dec_map (length kvs) (c_decode ck) (c_decode cv) (res @ [(k, v)]))
      (concat (map (\<lambda>(k, v). encoding ck k @ encoding cv v) kvs)) ((res @ [(k, v)]) @ kvs)"
    using Cons p by (intro Cons.IH) auto
  then have rest: "decodes (dec_map (length kvs) (c_decode ck) (c_decode cv) (map_set k v res))
      (concat (map (\<lambda>(k, v). encoding ck k @ encoding cv v) kvs)) (res @ p # kvs)"
    by (simp add: new p)
  have f: "faithful ck k" "faithful cv v" using Cons.prems(2) p by auto
  have "decodes (dbind (c_decode cv) (\<lambda>v. dec_map (length kvs) (c_decode ck) (c_decode cv) (map_set k v res)))
      (encoding cv v @ concat (map (\<lambda>(k, v). encoding ck k @ encoding cv v) kvs)) (res @ p # kvs)"
    by (rule decodes_bind [OF conjunct2 [OF faithfulD [OF f(2)]]], rule rest)
  then have "decodes (dec_map (length (p # kvs)) (c_decode ck) (c_decode cv) res)
      (encoding ck k @ encoding cv v @ concat (map (\<lambda>(k, v). encoding ck k @ encoding cv v) kvs)) (res @ p # kvs)"
    unfolding length_Cons dec_map.simps by (rule decodes_bind [OF conjunct2 [OF faithfulD [OF f(1)]]])
  then show ?case using p by simp
qed

lemma faithful_map:
  assumes "length kvs < 2 ^ 32" "sorted_wrt (\<lambda>p q. \<not> same_value (fst p) (fst q)) kvs"
    "\<forall>k v. (k, v) \<in> set kvs \<longrightarrow> faithful ck k \<and> faithful cv v"
  shows "faithful (HashMapCodec ck cv) (BMap kvs)"
  unfolding faithful_def
proof (intro exI conjI)
  let ?bs = "le_bytes 4 (int (length kvs)) @ concat (map (\<lambda>(k, v). encoding ck k @ encoding cv v) kvs)"
  have "bemits (case p of (k, v) \<Rightarrow> sk_seq (c_encode ck k) (c_encode cv v))
      (case p of (k, v) \<Rightarrow> encoding ck k @ encoding cv v)" if "p \<in> set kvs" for p
  proof -
    obtain k v where p: "p = (k, v)" by (cases p)
    then have "faithful ck k" "faithful cv v" using that assms(3) by auto
    then show ?thesis unfolding p prod.case using faithfulD by (intro emits_seq) auto
  qed
  then show "bemits (c_encode (HashMapCodec ck cv) (BMap kvs)) ?bs"
    by (simp add: HashMapCodec_def emits_seq [OF bemits_length emits_rfold])
  show "decodes (c_decode (HashMapCodec ck cv)) ?bs (BMap kvs)"
    unfolding HashMapCodec_def codec.select_convs
    using decodes_dec_map [of "[]" kvs ck cv] assms
    by (intro decodes_prefixed decodes_dret) simp_all
qed

lemma decodes_dec_set:
  "sorted_wrt (\<lambda>p q. \<not> same_value p q) (res @ vs) \<Longrightarrow> \<forall>v\<in>set vs. faithful c v \<Longrightarrow>
    decodes (dec_set (length vs) (c_decode c) res) (concat (map (encoding c) vs)) (res @ vs)"
proof (induction vs arbitrary: res)
  case Nil
  then show ?case by (simp add: decodes_ret)
next
  case (Cons v vs)
  have new: "set_add v res = res @ [v]"
    using Cons.prems(1) by (auto simp: set_add_def sorted_wrt_append list_ex_iff)
  have "decodes (dec_set (length vs) (c_decode c) (res @ [v])) (concat (map (encoding c) vs)) ((res @ [v]) @ vs)"
    using Cons by (intro Cons.IH) auto
  then have rest: "decodes (dec_set (length vs) (c_decode c) (set_add v res)) (concat (map (encoding c) vs)) (res @ v # vs)"
    by (simp add: new)
  have "faithful c v" using Cons.prems(2) by simp
  from decodes_bind [OF conjunct2 [OF faithfulD [OF this]], of "\<lambda>v. dec_set (length vs) (c_decode c) (set_add v res)", OF rest]
  show ?case by simp
qed

lemma faithful_set:
  assumes "length vs < 2 ^ 32" "sorted_wrt (\<lambda>p q. \<not> same_value p q) vs" "\<forall>v\<in>set vs. faithful c v"
  shows "faithful (HashSetCodec c) (BSet vs)"
  unfolding faithful_def
proof (intro exI conjI)
  let ?bs = "le_bytes 4 (int (length vs)) @ concat (map (encoding c) vs)"
  show "bemits (c_encode (HashSetCodec c) (BSet vs)) ?bs"
    unfolding HashSetCodec_def using assms(3) faithfulD
    by (auto intro!: emits_seq [OF bemits_length emits_rfold])
  show "decodes (c_decode (HashSetCodec c)) ?bs (BSet vs)"
    unfolding HashSetCodec_def codec.select_convs
    using decodes_dec_set [of "[]" vs c] assms by (intro decodes_prefixed decodes_dret) simp_all
qed

lemma decodes_tag: "0 \<le> d \<Longrightarrow> d < 256 \<Longrightarrow> decodes (f d) bs v \<Longrightarrow> decodes (dbind bsrc_u8 f) (le_bytes 1 d @ bs) v"
  unfolding bsrc_u8_def by (rule decodes_bind, rule decodes_unsigned_view) simp_all

lemma faithful_none: "faithful (OptionCodec c) BUndef"
  unfolding faithful_def
proof (intro exI conjI)
  show "bemits (c_encode (OptionCodec c) BUndef) (le_bytes 1 0 @ [])"
    using bsink_emits by (simp add: OptionCodec_def bsink_u8_def)
  show "decodes (c_decode (OptionCodec c)) (le_bytes 1 0 @ []) BUndef"
    unfolding OptionCodec_def codec.select_convs by (rule decodes_tag) (simp_all add: decodes_ret)
qed

lemma faithful_some: "v \<noteq> BUndef \<Longrightarrow> faithful c v \<Longrightarrow> faithful (OptionCodec c) v"
  unfolding faithful_def [of "OptionCodec c"]
proof (intro exI conjI)
  assume v: "v \<noteq> BUndef" "faithful c v"
  show "bemits (c_encode (OptionCodec c) v) (le_bytes 1 1 @ encoding c v)"
    using v(1) emits_seq [OF bsink_emits conjunct1 [OF faithfulD [OF v(2)]], of "le_bytes 1 1"]
    by (simp add: OptionCodec_def bsink_u8_def)
  show "decodes (c_decode (OptionCodec c)) (le_bytes 1 1 @ encoding c v) v"
    unfolding OptionCodec_def codec.select_convs using faithfulD [OF v(2)] by (intro decodes_tag) simp_all
qed

lemma faithful_bool: "faithful borsh_bool (BBool b)"
  unfolding faithful_def
proof (intro exI conjI)
  let ?d = "if b then 1 else 0"
  show "bemits (c_encode borsh_bool (BBool b)) (le_bytes 1 ?d @ [])"
    using bsink_emits by (simp add: borsh_bool_def bsink_bool_def bsink_u8_def)
  have "decodes bsrc_bool (le_bytes 1 ?d @ []) b"
    unfolding bsrc_bool_def by (rule decodes_tag) (simp_all add: decodes_ret)
  then show "decodes (c_decode borsh_bool) (le_bytes 1 ?d @ []) (BBool b)"
    unfolding borsh_bool_def codec.select_convs by (rule decodes_dret)
qed

lemma faithful_unit: "faithful borsh_unit BUndef"
  unfolding faithful_def borsh_unit_def by (rule exI [of _ "[]"]) (simp add: emits_nothing decodes_ret)

theorem dsl_faithful:
  assumes "\<And>b. d (e b) = Inr b"
  shows "bval_ok e t v \<Longrightarrow> faithful (dsl d e t) v"
proof (induction rule: bval_ok.induct)
  case (ok_struct ps)
  have "faithful (StructCodec (map (\<lambda>(key, c, v). (key, c)) (map (\<lambda>(key, t, v). (key, dsl d e t, v)) ps)))
      (BObj (map (\<lambda>(key, c, v). (key, v)) (map (\<lambda>(key, t, v). (key, dsl d e t, v)) ps)))"
    using ok_struct by (intro faithful_struct) (auto simp: comp_def case_prod_unfold)
  then show ?case by (simp add: comp_def case_prod_unfold)
next
  case (ok_tuple ps)
  have "faithful (TupleCodec (map fst (map (\<lambda>(t, v). (dsl d e t, v)) ps))) (BArr (map snd (map (\<lambda>(t, v). (dsl d e t, v)) ps)))"
    using ok_tuple by (intro faithful_tuple) auto
  then show ?case by (simp add: comp_def case_prod_unfold)
next
  case (ok_ref t v)
  then show ?case by (simp add: faithful_def RefCodec_def)
qed (simp_all add: assms faithful_unit faithful_bool faithful_small faithful_small_signed faithful_u128 faithful_i128
    faithful_binary faithful_string faithful_address faithful_array faithful_fixed faithful_map faithful_set
    faithful_none faithful_some)

section \<open>Properties\<close>

lemma borsh_encode_of_bemits: "bemits (c_encode c v) bs \<Longrightarrow> borsh_encode c v = Inr bs"
  using emitsD [of byte_sink_ok bsink_result "c_encode c v" bs "bsink_new 1280"]
  by (auto simp: borsh_encode_def byte_sink_ok_def bsink_result_def bsink_new_def)

lemma borsh_decode_of_decodes: "decodes (c_decode c) bs v \<Longrightarrow> borsh_decode c bs = Inr v"
  using decodesD [of "c_decode c" bs v "[]" "[]"] by (simp add: borsh_decode_def src_at_def)

text \<open>C13: Every codec built from the primitives and from arrays, structs, tuples, maps, sets, options and
  references encodes every value of its type without throwing, and decodes the bytes back to
  the value. Excluded by \<open>bval_ok\<close> are the values of \<open>f32\<close>, \<open>f64\<close> and \<open>sum\<close>, wherever they occur in a type: these
  codecs do not give them back (\<open>borsh_f64_reverses\<close>, \<open>borsh_sum_decodes_only\<close>). Integers are within the range of their type,
  texts have no lone surrogates, texts, byte arrays and collections are shorter than \<open>2\<^sup>3\<^sup>2\<close>, addresses have 32 bytes, and the keys of a map and the items
  of a set are different for \<open>Map\<close> and \<open>Set\<close>.\<close>

theorem borsh_roundtrip:
  assumes "\<And>b. b58_decode (b58_encode b) = Inr b" "bval_ok b58_encode t v"
  shows "\<exists>bs. borsh_encode (dsl b58_decode b58_encode t) v = Inr bs \<and>
    borsh_decode (dsl b58_decode b58_encode t) bs = Inr v"
proof -
  from dsl_faithful [OF assms] show ?thesis
    unfolding faithful_def using borsh_encode_of_bemits borsh_decode_of_decodes by blast
qed

lemma borsh_roundtrip_witness:
  "\<exists>bs. borsh_encode (dsl (\<lambda>s. Inr (map of_nat s)) (map unat) (TArray (TOption TU16))) (BArr [BNum 300, BUndef]) = Inr bs \<and>
    borsh_decode (dsl (\<lambda>s. Inr (map of_nat s)) (map unat) (TArray (TOption TU16))) bs = Inr (BArr [BNum 300, BUndef])"
proof (rule borsh_roundtrip)
  show "bval_ok (map unat) (TArray (TOption TU16)) (BArr [BNum 300, BUndef])"
  proof (rule ok_array)
    have "bval_ok (map unat) (TOption TU16) (BNum 300)" by (rule ok_some, simp, rule ok_u16) simp_all
    then show "\<forall>v. v \<in> set [BNum 300, BUndef] \<longrightarrow> bval_ok (map unat) (TOption TU16) v"
      using ok_none by auto
  qed simp
qed (simp add: comp_def)

lemma le_bytes_le_val: "length bs = n \<Longrightarrow> le_bytes n (le_val bs) = bs"
proof (induction bs arbitrary: n)
  case (Cons b bs)
  then obtain m where n: "n = Suc m" "length bs = m" by auto
  have "(uint b + 256 * le_val bs) div 256 = le_val bs" using uint_byte_bounds [of b] by simp
  moreover have "word_of_int (uint b + 256 * le_val bs) = b"
    using uint_byte_bounds [of b] by (intro word_uint_eqI) (simp add: uint_byte del: of_int_add)
  ultimately show ?case using Cons.IH [OF n(2)] n by simp
qed simp

text \<open>The \<open>f64\<close> codec does not round trip: a number is written in big-endian and read in little-endian
  byte order, so it comes back with the bytes of its representation reversed, and as itself only
  when the representation is a palindrome.\<close>

theorem borsh_f64_reverses:
  "\<exists>bs w'. borsh_encode borsh_f64 (BF64 w) = Inr bs \<and> borsh_decode borsh_f64 bs = Inr (BF64 w') \<and>
    le_bytes 8 (uint w') = rev (le_bytes 8 (uint w))"
proof (intro exI conjI)
  let ?bs = "rev (le_bytes 8 (uint w))"
  show "borsh_encode borsh_f64 (BF64 w) = Inr ?bs"
    by (rule borsh_encode_of_bemits) (simp add: borsh_f64_def bsink_f64_def bsink_emits)
  have "decodes bsrc_f64 ?bs (word_of_int (le_val ?bs))"
    unfolding bsrc_f64_def by (rule decodes_dret, rule decodes_view) simp
  then show "borsh_decode borsh_f64 ?bs = Inr (BF64 (word_of_int (le_val ?bs)))"
    by (intro borsh_decode_of_decodes) (simp add: borsh_f64_def decodes_dret)
  have "le_val ?bs < 2 ^ 64" "0 \<le> le_val ?bs" using le_val_bounds [of ?bs] by simp_all
  then have "uint (word_of_int (le_val ?bs) :: 64 word) = le_val ?bs" by (simp add: uint_word_of_int)
  then show "le_bytes 8 (uint (word_of_int (le_val ?bs) :: 64 word)) = ?bs"
    using le_bytes_le_val [of ?bs 8] by simp
qed

text \<open>The integer codecs check no range: a number too large for \<open>u32\<close> is encoded without an error
  and comes back reduced modulo \<open>2 ^ 32\<close>.\<close>

theorem borsh_u32_wraps:
  "\<exists>bs. borsh_encode borsh_u32 (BNum n) = Inr bs \<and> borsh_decode borsh_u32 bs = Inr (BNum (n mod 2 ^ 32))"
proof (intro exI conjI)
  show "borsh_encode borsh_u32 (BNum n) = Inr (le_bytes 4 n)"
    by (rule borsh_encode_of_bemits) (simp add: borsh_u32_def num_codec_def as_num_def bsink_u32_def emits_check [OF refl] bsink_emits)
  have "decodes bsrc_u32 (le_bytes 4 n) (n mod 2 ^ 32)"
    unfolding bsrc_u32_def by (rule decodes_bind_ret, rule decodes_view) (simp_all add: le_val_le_bytes)
  then show "borsh_decode borsh_u32 (le_bytes 4 n) = Inr (BNum (n mod 2 ^ 32))"
    by (intro borsh_decode_of_decodes) (simp add: borsh_u32_def num_codec_def decodes_dret)
qed

lemma dec_sum_found:
  "(name, disc, v) \<in> set variants \<Longrightarrow> distinct (map (\<lambda>(name, disc, v). disc) variants) \<Longrightarrow>
    dec_sum variants disc = dec_sum [(name, disc, v)] disc"
proof (induction variants)
  case (Cons p variants)
  obtain n d w where p: "p = (n, d, w)" by (cases p)
  show ?case
  proof (cases "(name, disc, v) \<in> set variants")
    case True
    then have "disc \<noteq> d" using Cons.prems(2) p by force
    then show ?thesis using Cons True p by simp
  next
    case False
    then show ?thesis using Cons.prems(1) p by (simp split: sum_value.split)
  qed
qed simp

text \<open>A sum codec decodes the discriminator of a variant followed by the encoding of its value to the
  variant; but its encoder throws on every value, also on those it decodes.\<close>

theorem borsh_sum_decodes_only:
  assumes "SumCodec dt variants = Inr c" "(name, disc, CodecValue vc) \<in> set variants"
    "distinct (map (\<lambda>(name, disc, v). disc) variants)" "0 \<le> disc" "disc < 256 ^ dt" "faithful vc val"
  shows "\<exists>bs. borsh_encode vc val = Inr bs \<and>
    borsh_decode c (le_bytes dt disc @ bs) = Inr (BObj [(js ''kind'', BStr name), (js ''value'', val)]) \<and>
    borsh_encode c (BObj [(js ''kind'', BStr name), (js ''value'', val)]) = Inl ReferenceError"
proof (intro exI conjI)
  let ?bs = "encoding vc val" and ?obj = "BObj [(js ''kind'', BStr name), (js ''value'', val)]"
  note f = faithfulD [OF assms(6)]
  obtain read where r: "discriminator_reader dt = Inr read"
    "c = \<lparr>c_encode = (\<lambda>val s. Inl ReferenceError), c_decode = dbind read (dec_sum variants)\<rparr>"
    using assms(1) by (auto simp: SumCodec_def result_simps)
  show "borsh_encode vc val = Inr ?bs" using f borsh_encode_of_bemits by blast
  show "borsh_encode c ?obj = Inl ReferenceError" by (simp add: r(2) borsh_encode_def)
  have "decodes read (le_bytes dt disc) disc"
    using r(1) decodes_unsigned_view [OF assms(4,5)]
    by (auto simp: discriminator_reader_def bsrc_u8_def bsrc_u16_def bsrc_u32_def bsrc_u64_def split: if_splits)
  moreover have "decodes (dec_sum variants disc) ?bs ?obj"
    unfolding dec_sum_found [OF assms(2,3)]
    by (simp only: dec_sum.simps sum_value.case simp_thms if_True, rule decodes_bind_ret [OF conjunct2 [OF f] refl])
  ultimately have "decodes (c_decode c) (le_bytes dt disc @ ?bs) ?obj"
    by (simp add: r(2) decodes_bind)
  then show "borsh_decode c (le_bytes dt disc @ ?bs) = Inr ?obj" by (rule borsh_decode_of_decodes)
qed

lemma borsh_sum_decodes_only_witness:
  "\<exists>c bs. SumCodec 1 [([65], 0, UnitValue), ([66], 1, CodecValue borsh_u8)] = Inr c \<and>
    borsh_encode borsh_u8 (BNum 7) = Inr bs \<and>
    borsh_decode c (le_bytes 1 1 @ bs) = Inr (BObj [(js ''kind'', BStr [66]), (js ''value'', BNum 7)]) \<and>
    borsh_encode c (BObj [(js ''kind'', BStr [66]), (js ''value'', BNum 7)]) = Inl ReferenceError"
proof -
  obtain c where c: "SumCodec 1 [([65], 0, UnitValue), ([66], 1, CodecValue borsh_u8)] = Inr c"
    by (simp add: SumCodec_def discriminator_reader_def)
  have "faithful borsh_u8 (BNum 7)" by (rule faithful_small) simp_all
  with c borsh_sum_decodes_only [OF c, of "[66]" 1 borsh_u8 "BNum 7"] show ?thesis by auto
qed

end
