(* ===== verification/Block_Refs.thy ===== *)
theory Block_Refs
  imports Js_Values
begin

text \<open>
  References to blocks, shared by the data service, the ingestion tools, the processors and the
  databases: \<open>BlockRef\<close> (a number and a hash) and \<open>HashAndHeight\<close> (the same data under the names the
  databases use).
\<close>

record block_ref =
  br_number :: int
  br_hash :: jstr

definition ref_of :: "'x block_ref_scheme \<Rightarrow> block_ref" where
  "ref_of b = \<lparr>br_number = br_number b, br_hash = br_hash b\<rparr>"

record hash_height =
  hh_height :: int
  hh_hash :: jstr

end
