(* ===== verification/Data_Chain.thy ===== *)
theory Data_Chain
  imports Util_Misc Block_Refs "HOL-Library.Sublist"
begin

text \<open>
  The block cache of the data service, \<open>util/util-internal-data-service/src\<close>: the class \<open>Chain\<close>
  (\<open>chain.ts\<close>) and the parts of \<open>data-service.ts\<close> that decide what happens to it, the ingestion of
  a stream and the reaction to its end.

  A chain is a list of linked blocks, the position of the finalized block, the maximal size and
  the flag that allows the finalized block to be moved by the size limit. \<open>chain_ok\<close> is its
  invariant. The contract of a chain is the locale \<open>final_chain\<close>: whatever is done to it, the
  blocks that were final and those that are final now lie on one linked sequence (\<open>extends\<close>).

  Metrics, logging and the timers of the waiting queries are not modelled.
\<close>

section \<open>Blocks\<close>

record block_header = block_ref +
  bh_parentNumber :: int
  bh_parentHash :: jstr
  bh_timestamp :: "int option"

record block = block_header +
  bk_jsonLineZstd :: "byte list"

definition isChain :: "'x block_header_scheme \<Rightarrow> 'y block_header_scheme \<Rightarrow> bool" where
  "isChain a b \<longleftrightarrow> br_number a = bh_parentNumber b \<and> br_hash a = bh_parentHash b"

definition header_of :: "'x block_header_scheme \<Rightarrow> block_header" where
  "header_of b = \<lparr>br_number = br_number b, br_hash = br_hash b, bh_parentNumber = bh_parentNumber b,
     bh_parentHash = bh_parentHash b, bh_timestamp = bh_timestamp b\<rparr>"

section \<open>The chain\<close>

record chain =
  ch_blocks :: "block list"
  ch_finalizedHead :: nat
  ch_maxSize :: int
  ch_autoAdjust :: bool

definition Chain :: "block \<Rightarrow> int \<Rightarrow> bool \<Rightarrow> chain result" where
  "Chain base maxSize auto =
     rbind (js_assert (maxSize > 0)) (\<lambda>_.
       Inr \<lparr>ch_blocks = [base], ch_finalizedHead = 0, ch_maxSize = maxSize, ch_autoAdjust = auto\<rparr>)"

definition at :: "'a list \<Rightarrow> nat \<Rightarrow> 'a result" where
  \<comment> \<open>an element whose properties are read next: past the end it is \<open>undefined\<close>\<close>
  "at xs i = (if i < length xs then Inr (xs ! i) else Inl TypeError)"

definition ch_bisect :: "chain \<Rightarrow> int \<Rightarrow> nat" where
  "ch_bisect c blockNumber = bisect (ch_blocks c) blockNumber (\<lambda>b num. br_number b - num)"

definition firstBlock :: "chain \<Rightarrow> block result" where
  "firstBlock c = at (ch_blocks c) 0"

definition lastBlock :: "chain \<Rightarrow> block result" where
  "lastBlock c = js_last (ch_blocks c)"

definition getFinalizedHead :: "chain \<Rightarrow> block_ref result" where
  "getFinalizedHead c = rbind (at (ch_blocks c) (ch_finalizedHead c)) (\<lambda>b. Inr (ref_of b))"

definition getFinalizedHeader :: "chain \<Rightarrow> block_header result" where
  "getFinalizedHeader c = rbind (at (ch_blocks c) (ch_finalizedHead c)) (\<lambda>b. Inr (header_of b))"

definition getHead :: "chain \<Rightarrow> block_ref result" where
  "getHead c = rbind (lastBlock c) (\<lambda>b. Inr (ref_of b))"

definition getHeader :: "chain \<Rightarrow> block_header result" where
  "getHeader c = rbind (lastBlock c) (\<lambda>b. Inr (header_of b))"

definition compact :: "chain \<Rightarrow> bool \<times> chain" where
  "compact c =
     (let extra = int (length (ch_blocks c)) - ch_maxSize c
      in if extra \<le> 0 then (True, c)
         else let ok = int (ch_finalizedHead c) \<ge> extra;
                  adjust = \<not> ok \<and> ch_autoAdjust c;
                  fin = (if adjust then nat extra else ch_finalizedHead c);
                  trim = min (nat extra) fin
              in (ok \<or> adjust,
                  c\<lparr>ch_blocks := drop trim (ch_blocks c), ch_finalizedHead := fin - trim\<rparr>))"

definition push :: "block \<Rightarrow> chain \<Rightarrow> chain result" where
  "push newBlock c =
     rbind (lastBlock c) (\<lambda>lst.
       if br_number lst = bh_parentNumber newBlock
       then rbind (js_assert (isChain lst newBlock)) (\<lambda>_.
              Inr (c\<lparr>ch_blocks := ch_blocks c @ [newBlock]\<rparr>))
       else let pos = ch_bisect c (bh_parentNumber newBlock)
            in rbind (js_assert (pos \<ge> ch_finalizedHead c)) (\<lambda>_.
               rbind (js_assert (pos < length (ch_blocks c))) (\<lambda>_.
               rbind (js_assert (isChain (ch_blocks c ! pos) newBlock)) (\<lambda>_.
                 Inr (c\<lparr>ch_blocks := take (pos + 1) (ch_blocks c) @ [newBlock]\<rparr>)))))"

definition finalize :: "block_ref \<Rightarrow> chain \<Rightarrow> (bool \<times> chain) result" where
  "finalize head c =
     rbind (firstBlock c) (\<lambda>fst. rbind (lastBlock c) (\<lambda>lst.
       if br_number head < br_number fst then Inr (False, c)
       else let current = ch_finalizedHead c
            in if br_number head > br_number lst
               then let fin = length (ch_blocks c) - 1
                    in Inr (fin > current, c\<lparr>ch_finalizedHead := fin\<rparr>)
               else let pos = (if br_number head = br_number lst then length (ch_blocks c) - 1
                               else ch_bisect c (br_number head))
                    in rbind (at (ch_blocks c) pos) (\<lambda>b.
                       rbind (js_assert (br_number b = br_number head \<and> br_hash b = br_hash head)) (\<lambda>_.
                         let fin = max (ch_finalizedHead c) pos
                         in Inr (fin > current, c\<lparr>ch_finalizedHead := fin\<rparr>)))))"

datatype response =
    DataResponse (resp_finalizedHead: "block_ref option") (resp_tail: "block list option")
  | InvalidBaseBlock "block_ref list"

definition query :: "int \<Rightarrow> jstr option \<Rightarrow> chain \<Rightarrow> response result" where
  "query from baseBlockHash c =
     rbind (firstBlock c) (\<lambda>fst.
       if from \<le> bh_parentNumber fst then Inr (DataResponse None None)
       else let pos = ch_bisect c from; blocks = ch_blocks c
            in if pos < length blocks
               then (if baseBlockHash \<noteq> None \<and> Some (bh_parentHash (blocks ! pos)) \<noteq> baseBlockHash
                     then Inr (InvalidBaseBlock
                       (map (\<lambda>i. \<lparr>br_number = bh_parentNumber (blocks ! i), br_hash = bh_parentHash (blocks ! i)\<rparr>)
                         [pos - 100 ..< pos + 1]))
                     else rbind (getFinalizedHead c) (\<lambda>f. Inr (DataResponse (Some f) (Some (drop pos blocks)))))
               else rbind (lastBlock c) (\<lambda>lst.
                 if baseBlockHash \<noteq> None \<and> from = br_number lst + 1 \<and> baseBlockHash \<noteq> Some (br_hash lst)
                 then Inr (InvalidBaseBlock (map ref_of (drop (length blocks - 100) blocks)))
                 else rbind (getFinalizedHead c) (\<lambda>f. Inr (DataResponse (Some f) None))))"

text \<open>\<open>pop_above\<close> is the inner loop of \<open>getForkBase\<close>; \<open>prev\<close> is kept in reverse, \<open>pop\<close> takes its head.\<close>

fun pop_above :: "int \<Rightarrow> block_ref list \<Rightarrow> block_ref list" where
  "pop_above num [] = []"
| "pop_above num (fh # rest) = (if br_number fh > num then pop_above num rest else fh # rest)"

fun forkBase_loop :: "block list \<Rightarrow> nat \<Rightarrow> nat \<Rightarrow> block_ref list \<Rightarrow> block_ref option" where
  "forkBase_loop blocks fin 0 prev = None"
| "forkBase_loop blocks fin (Suc pos) prev =
     (if pos \<ge> fin
      then let head = ref_of (blocks ! pos); prev' = pop_above (br_number head) prev
           in case prev' of
                [] \<Rightarrow> Some head
              | fh # _ \<Rightarrow>
                  if br_number fh = br_number head \<and> br_hash fh = br_hash head then Some head
                  else forkBase_loop blocks fin pos prev'
      else None)"

definition getForkBase :: "block_ref list \<Rightarrow> chain \<Rightarrow> block_ref option" where
  "getForkBase prev c = forkBase_loop (ch_blocks c) (ch_finalizedHead c) (length (ch_blocks c)) (rev prev)"

section \<open>The data service\<close>

text \<open>The batches of a stream and how it ends.\<close>

record batch =
  bt_blocks :: "block list"
  bt_finalizedHead :: "block_ref option"

datatype ending = Fork "block_ref list" | Failure | Done

text \<open>The body of \<open>for await (let batch of ...)\<close>: \<open>fin\<close> is the highest finalized head seen in the session.\<close>

definition pick_finalized :: "block_ref option \<Rightarrow> block_ref option \<Rightarrow> block_ref option" where
  "pick_finalized fin new =
     (if (case fin of None \<Rightarrow> 0 | Some r \<Rightarrow> br_number r) > (case new of None \<Rightarrow> 0 | Some r \<Rightarrow> br_number r)
      then fin else new)"

definition ingest_batch :: "batch \<Rightarrow> chain \<times> block_ref option \<Rightarrow> (chain \<times> block_ref option) result" where
  "ingest_batch batch s =
     rbind (rfold push (bt_blocks batch) (fst s)) (\<lambda>c.
       let fin = pick_finalized (snd s) (bt_finalizedHead batch)
       in rbind (case fin of None \<Rightarrow> Inr c | Some r \<Rightarrow> rbind (finalize r c) (\<lambda>(_, c). Inr c)) (\<lambda>c.
            Inr (snd (compact c), fin)))"

text \<open>A session keeps the chain as it is when an exception ends it; pushes that precede the exception
  stay.\<close>

fun push_all :: "block list \<Rightarrow> chain \<Rightarrow> chain \<times> bool" where
  "push_all [] c = (c, True)"
| "push_all (b # bs) c = (case push b c of Inl _ \<Rightarrow> (c, False) | Inr c' \<Rightarrow> push_all bs c')"

fun ingestSession :: "batch list \<Rightarrow> ending \<Rightarrow> chain \<Rightarrow> block_ref option \<Rightarrow> bool \<Rightarrow> chain \<times> bool \<times> ending" where
  "ingestSession [] e c fin ingested = (c, ingested, e)"
| "ingestSession (b # bs) e c fin ingested =
     (case push_all (bt_blocks b) c of
        (c1, False) \<Rightarrow> (c1, ingested, Failure)
      | (c1, True) \<Rightarrow>
          let ingested1 = (ingested \<or> bt_blocks b \<noteq> []);
              fin1 = pick_finalized fin (bt_finalizedHead b)
          in case (case fin1 of None \<Rightarrow> Inr c1 | Some r \<Rightarrow> rbind (finalize r c1) (\<lambda>(_, c). Inr c)) of
               Inl _ \<Rightarrow> (c1, ingested1, Failure)
             | Inr c2 \<Rightarrow> ingestSession bs e (snd (compact c2)) fin1 ingested1)"

text \<open>
  One iteration of \<open>run\<close>. The source answers a request for the blocks after \<open>base\<close> with a stream;
  \<open>init\<close> is the reinitialisation of the chain by \<open>init()\<close>.
\<close>

record service =
  ds_chain :: chain
  ds_base :: block_ref
  ds_stacked :: nat
  ds_ingested :: bool

datatype run_outcome = Continue service | Rejected | RollbackBehindFinalized | RunError

definition run_step :: "(block_ref \<Rightarrow> batch list \<times> ending) \<Rightarrow> (service \<Rightarrow> service option) \<Rightarrow> service \<Rightarrow> run_outcome" where
  "run_step source reinit s =
     (let (s1, started) =
            (if ds_stacked s > 5
             then (case reinit s of None \<Rightarrow> (s, False) | Some s1 \<Rightarrow> (s1, True)) else (s, True));
          (c, ingested, e) =
            (if started
             then (case source (ds_base s1) of (bs, e) \<Rightarrow> ingestSession bs e (ds_chain s1) None (ds_ingested s1))
             else (ds_chain s1, ds_ingested s1, Failure))
      in case e of
           Fork prev \<Rightarrow>
             (case getForkBase prev c of
                Some forkBase \<Rightarrow> Continue \<lparr>ds_chain = c, ds_base = forkBase, ds_stacked = 0, ds_ingested = ingested\<rparr>
              | None \<Rightarrow> RollbackBehindFinalized)
         | _ \<Rightarrow>
             if \<not> ingested then Rejected
             else case getHead c of
                    Inl _ \<Rightarrow> RunError
                  | Inr head \<Rightarrow> Continue \<lparr>ds_chain = c, ds_base = head,
                      ds_stacked = (if br_number head = br_number (ds_base s1) then ds_stacked s1 + 1 else 0),
                      ds_ingested = ingested\<rparr>)"

text \<open>The checks of the stream of missing blocks in \<open>belowQuery\<close>.\<close>

definition assertChainContinuity :: "jstr option \<Rightarrow> block option \<Rightarrow> block \<Rightarrow> unit result" where
  "assertChainContinuity parentHash prev nxt =
     js_assert ((case prev of None \<Rightarrow> False | Some p \<Rightarrow> isChain p nxt) \<or> parentHash = None \<or>
       parentHash = Some (bh_parentHash nxt))"

fun head_stream :: "jstr option \<Rightarrow> block option \<Rightarrow> block list \<Rightarrow> block list \<Rightarrow> unit result" where
  "head_stream parentHash prev [] tail =
     rbind (js_assert (prev \<noteq> None)) (\<lambda>_.
       case tail of [] \<Rightarrow> Inr () | t # _ \<Rightarrow> assertChainContinuity parentHash prev t)"
| "head_stream parentHash prev (b # bs) tail =
     rbind (assertChainContinuity parentHash prev b) (\<lambda>_. head_stream parentHash (Some b) bs tail)"

text \<open>The waiting queries: the futures resolved by \<open>notifyListeners\<close> and the listeners that remain.\<close>

fun resolve_loop :: "int \<Rightarrow> int list \<Rightarrow> int list \<times> int list" where
  "resolve_loop lst [] = ([], [])"
| "resolve_loop lst (n # rest) =
     (if n \<le> lst then (case resolve_loop lst rest of (done, left) \<Rightarrow> (n # done, left)) else ([], n # rest))"

definition notifyListeners :: "int \<Rightarrow> int list \<Rightarrow> int list \<times> int list" where
  \<comment> \<open>the list is sorted downwards and taken from its end\<close>
  "notifyListeners lastBlockNumber listeners =
     (case resolve_loop lastBlockNumber (sort listeners) of (done, left) \<Rightarrow> (done, rev left))"

section \<open>The invariant\<close>

definition linked :: "block list \<Rightarrow> bool" where
  "linked bs \<longleftrightarrow> (\<forall>i. Suc i < length bs \<longrightarrow> isChain (bs ! i) (bs ! Suc i))"

definition good_block :: "block \<Rightarrow> bool" where
  "good_block b \<longleftrightarrow> bh_parentNumber b < br_number b"

definition chain_ok :: "chain \<Rightarrow> bool" where
  "chain_ok c \<longleftrightarrow> linked (ch_blocks c) \<and> (\<forall>b\<in>set (ch_blocks c). good_block b) \<and>
     ch_finalizedHead c < length (ch_blocks c) \<and> 0 < ch_maxSize c"

lemma linked_step:
  "linked bs \<Longrightarrow> \<forall>b\<in>set bs. good_block b \<Longrightarrow> Suc i < length bs \<Longrightarrow> br_number (bs ! i) < br_number (bs ! Suc i)"
  by (auto simp: linked_def isChain_def good_block_def)

lemma linked_sorted:
  assumes "linked bs" "\<forall>b\<in>set bs. good_block b"
  shows "sorted_wrt (\<lambda>a b. br_number a < br_number b) bs"
proof -
  have "br_number (bs ! i) < br_number (bs ! j)" if "i < j" "j < length bs" for i j
    using that
  proof (induction j)
    case (Suc j)
    have "br_number (bs ! j) < br_number (bs ! Suc j)" using linked_step [OF assms] Suc.prems by simp
    with Suc show ?case by (cases "i = j") auto
  qed simp
  then show ?thesis by (simp add: sorted_wrt_iff_nth_less)
qed

lemma linked_take: "linked bs \<Longrightarrow> linked (take n bs)"
  by (simp add: linked_def)

lemma linked_drop: "linked bs \<Longrightarrow> linked (drop n bs)"
  by (simp add: linked_def less_diff_conv)

lemma linked_snoc: "linked bs \<Longrightarrow> bs \<noteq> [] \<Longrightarrow> isChain (last bs) b \<Longrightarrow> linked (bs @ [b])"
  unfolding linked_def
proof (intro allI impI)
  fix i assume l: "\<forall>i. Suc i < length bs \<longrightarrow> isChain (bs ! i) (bs ! Suc i)" "bs \<noteq> []" "isChain (last bs) b"
    and i: "Suc i < length (bs @ [b])"
  show "isChain ((bs @ [b]) ! i) ((bs @ [b]) ! Suc i)"
  proof (cases "Suc i < length bs")
    case True
    with l show ?thesis by (simp add: nth_append)
  next
    case False
    then have "i = length bs - 1" using i by simp
    with l show ?thesis by (simp add: nth_append last_conv_nth)
  qed
qed

lemma ch_bisect_position:
  assumes "chain_ok c"
  shows "splits_at br_number (ch_blocks c) n (ch_bisect c n)"
  unfolding ch_bisect_def
  using assms by (intro bisect_correct linked_sorted) (auto simp: chain_ok_def)

lemma lastBlock_ok: "chain_ok c \<Longrightarrow> lastBlock c = Inr (last (ch_blocks c))"
  by (auto simp: lastBlock_def chain_ok_def)

lemma firstBlock_ok: "chain_ok c \<Longrightarrow> firstBlock c = Inr (ch_blocks c ! 0)"
  by (auto simp: firstBlock_def chain_ok_def at_def)

text \<open>The blocks up to the finalized one.\<close>

definition finals :: "chain \<Rightarrow> block list" where
  "finals c = take (ch_finalizedHead c + 1) (ch_blocks c)"

lemma push_ok:
  assumes "chain_ok c" "good_block b" "push b c = Inr c'"
  shows "chain_ok c'" "finals c' = finals c" "last (ch_blocks c') = b" "ch_finalizedHead c' = ch_finalizedHead c"
    "\<exists>n. ch_blocks c' = take n (ch_blocks c) @ [b] \<and> ch_finalizedHead c < n \<and> n \<le> length (ch_blocks c)"
proof -
  let ?bs = "ch_blocks c"
  have ok: "linked ?bs" "\<forall>b\<in>set ?bs. good_block b" "ch_finalizedHead c < length ?bs" "0 < ch_maxSize c"
    using assms(1) by (auto simp: chain_ok_def)
  have "\<exists>n. c' = c\<lparr>ch_blocks := take n ?bs @ [b]\<rparr> \<and> ch_finalizedHead c < n \<and> n \<le> length ?bs \<and> isChain (last (take n ?bs)) b"
  proof (cases "br_number (last ?bs) = bh_parentNumber b")
    case True
    then have "c' = c\<lparr>ch_blocks := take (length ?bs) ?bs @ [b]\<rparr>" "isChain (last (take (length ?bs) ?bs)) b"
      using assms(3) by (auto simp: push_def lastBlock_ok [OF assms(1)] js_assert_def split: if_splits)
    then show ?thesis using ok(3) by blast
  next
    case False
    define pos where "pos = ch_bisect c (bh_parentNumber b)"
    have p: "pos \<ge> ch_finalizedHead c" "pos < length ?bs" "isChain (?bs ! pos) b"
      "c' = c\<lparr>ch_blocks := take (pos + 1) ?bs @ [b]\<rparr>"
      using assms(3) False
      by (auto simp: push_def lastBlock_ok [OF assms(1)] js_assert_def Let_def pos_def split: if_splits)
    moreover have "last (take (pos + 1) ?bs) = ?bs ! pos" using p(2) by (simp add: take_Suc_conv_app_nth)
    ultimately show ?thesis by (intro exI [of _ "pos + 1"]) auto
  qed
  then obtain n where n: "c' = c\<lparr>ch_blocks := take n ?bs @ [b]\<rparr>" "ch_finalizedHead c < n" "n \<le> length ?bs"
    "isChain (last (take n ?bs)) b" by blast
  have "take n ?bs \<noteq> []" using n(2,3) by auto
  then show "chain_ok c'"
    using ok n assms(2) linked_snoc [OF linked_take [OF ok(1)], of n b]
    by (auto simp: chain_ok_def dest: in_set_takeD)
  show "finals c' = finals c" using n by (simp add: finals_def min_def)
  show "last (ch_blocks c') = b" "ch_finalizedHead c' = ch_finalizedHead c"
    "\<exists>n. ch_blocks c' = take n (ch_blocks c) @ [b] \<and> ch_finalizedHead c < n \<and> n \<le> length (ch_blocks c)"
    using n by auto
qed

lemma prefix_take: "m \<le> n \<Longrightarrow> prefix (take m xs) (take n xs)"
  using take_is_prefix [of m "take n xs"] by (simp add: min_def)

lemma finalize_ok:
  assumes "chain_ok c" "finalize r c = Inr (changed, c')"
  shows "chain_ok c'" "prefix (finals c) (finals c')" "ch_blocks c' = ch_blocks c"
    "changed \<longleftrightarrow> ch_finalizedHead c < ch_finalizedHead c'" "ch_finalizedHead c \<le> ch_finalizedHead c'"
proof -
  have "\<exists>f. c' = c\<lparr>ch_finalizedHead := f\<rparr> \<and> ch_finalizedHead c \<le> f \<and> f < length (ch_blocks c) \<and>
      (changed \<longleftrightarrow> ch_finalizedHead c < f)"
    using assms
    by (auto simp: finalize_def firstBlock_ok lastBlock_ok at_def js_assert_def Let_def chain_ok_def
        split: if_splits intro: exI [of _ "ch_finalizedHead c"])
  then obtain f where f: "c' = c\<lparr>ch_finalizedHead := f\<rparr>" "ch_finalizedHead c \<le> f" "f < length (ch_blocks c)"
    "changed \<longleftrightarrow> ch_finalizedHead c < f" by blast
  with assms(1) show "chain_ok c'" "ch_blocks c' = ch_blocks c"
    "changed \<longleftrightarrow> ch_finalizedHead c < ch_finalizedHead c'" "ch_finalizedHead c \<le> ch_finalizedHead c'"
    by (auto simp: chain_ok_def)
  show "prefix (finals c) (finals c')"
    using f by (simp add: finals_def prefix_take)
qed

lemma compact_ok:
  assumes "chain_ok c" "compact c = (done, c')"
  shows "chain_ok c'" "\<exists>dropped. prefix (finals c) (dropped @ finals c') \<and> ch_blocks c = dropped @ ch_blocks c'"
    "done \<Longrightarrow> int (length (ch_blocks c')) \<le> ch_maxSize c'"
    "ch_autoAdjust c \<Longrightarrow> done" "\<not> done \<Longrightarrow> ch_finalizedHead c' = 0"
proof -
  let ?bs = "ch_blocks c" and ?f = "ch_finalizedHead c"
  have ok: "linked ?bs" "\<forall>b\<in>set ?bs. good_block b" "?f < length ?bs" "0 < ch_maxSize c"
    using assms(1) by (auto simp: chain_ok_def)
  define extra where "extra = int (length ?bs) - ch_maxSize c"
  have "\<exists>fin trim. c' = c\<lparr>ch_blocks := drop trim ?bs, ch_finalizedHead := fin - trim\<rparr> \<and> trim \<le> fin \<and>
      ?f \<le> fin \<and> fin < length ?bs \<and> (done \<longrightarrow> extra \<le> int trim) \<and> (ch_autoAdjust c \<longrightarrow> done) \<and> (\<not> done \<longrightarrow> fin = trim)"
  proof (cases "extra \<le> 0")
    case True
    with assms(2) ok(3) show ?thesis by (intro exI [of _ ?f] exI [of _ 0]) (auto simp: compact_def extra_def)
  next
    case False
    define adjust where "adjust = (\<not> int ?f \<ge> extra \<and> ch_autoAdjust c)"
    define fin where "fin = (if adjust then nat extra else ?f)"
    have "done = (int ?f \<ge> extra \<or> adjust)" "c' = c\<lparr>ch_blocks := drop (min (nat extra) fin) ?bs, ch_finalizedHead := fin - min (nat extra) fin\<rparr>"
      using assms(2) False by (auto simp: compact_def Let_def extra_def adjust_def fin_def)
    moreover have "fin < length ?bs" "?f \<le> fin" using ok False by (auto simp: fin_def adjust_def extra_def)
    ultimately show ?thesis using False
      by (intro exI [of _ fin] exI [of _ "min (nat extra) fin"]) (auto simp: fin_def adjust_def)
  qed
  then obtain fin trim where ft: "c' = c\<lparr>ch_blocks := drop trim ?bs, ch_finalizedHead := fin - trim\<rparr>" "trim \<le> fin"
    "?f \<le> fin" "fin < length ?bs" "done \<longrightarrow> extra \<le> int trim" "ch_autoAdjust c \<longrightarrow> done" "\<not> done \<longrightarrow> fin = trim" by blast
  have "set (drop trim ?bs) \<subseteq> set ?bs" by (rule set_drop_subset)
  with ft ok show "chain_ok c'" using linked_drop [OF ok(1), of trim] by (auto simp: chain_ok_def)
  have "take trim ?bs @ take (fin - trim + 1) (drop trim ?bs) = take (fin + 1) ?bs"
    using ft(2) take_add [of trim "fin - trim + 1" ?bs] by simp
  then have "prefix (finals c) (take trim ?bs @ finals c')"
    using ft by (simp add: finals_def prefix_take)
  with ft(1) show "\<exists>dropped. prefix (finals c) (dropped @ finals c') \<and> ?bs = dropped @ ch_blocks c'"
    by (intro exI [of _ "take trim ?bs"]) simp
  show "done \<Longrightarrow> int (length (ch_blocks c')) \<le> ch_maxSize c'" "ch_autoAdjust c \<Longrightarrow> done" "\<not> done \<Longrightarrow> ch_finalizedHead c' = 0"
    using ft ok(4) by (auto simp: extra_def)
qed

section \<open>The finalized blocks only grow\<close>

text \<open>
  What finality promises: the blocks that were final (\<open>F\<close>) and those that are final now (\<open>F'\<close>) lie on one
  linked sequence of blocks, which begins with \<open>F\<close> and ends with \<open>F'\<close>. Every block of it is one of \<open>B\<close>, the blocks
  that were held or pushed, so no link of it is made up. A final block is never replaced: only blocks
  at the front may be missing in \<open>F'\<close>.
\<close>

definition extends :: "block set \<Rightarrow> block list \<Rightarrow> block list \<Rightarrow> bool" where
  "extends B F F' \<longleftrightarrow> (\<exists>run. linked run \<and> (\<forall>b\<in>set run. good_block b) \<and> set run \<subseteq> B \<and> prefix F run \<and> suffix F' run)"

lemma linked_glue:
  assumes "linked (xs @ ys)" "linked (ys @ zs)" "ys \<noteq> []"
  shows "linked (xs @ ys @ zs)"
  unfolding linked_def
proof (intro allI impI)
  fix i assume i: "Suc i < length (xs @ ys @ zs)"
  show "isChain ((xs @ ys @ zs) ! i) ((xs @ ys @ zs) ! Suc i)"
  proof (cases "i < length xs")
    case True
    then have "Suc i < length (xs @ ys)" using assms(3) by (cases ys) auto
    moreover have "(xs @ ys @ zs) ! j = (xs @ ys) ! j" if "j < length (xs @ ys)" for j
      using that by (metis append_assoc nth_append_left)
    ultimately show ?thesis using assms(1) by (simp add: linked_def)
  next
    case False
    then have "Suc (i - length xs) < length (ys @ zs)" "Suc i - length xs = Suc (i - length xs)" using i by auto
    with assms(2) False show ?thesis by (simp add: linked_def nth_append_right)
  qed
qed

lemma extends_refl: "linked F \<Longrightarrow> \<forall>b\<in>set F. good_block b \<Longrightarrow> set F \<subseteq> B \<Longrightarrow> extends B F F"
  unfolding extends_def by (intro exI [of _ F]) simp

lemma extends_trans:
  assumes "extends B1 F F'" "extends B2 F' F''" "F' \<noteq> []" "B1 \<subseteq> B" "B2 \<subseteq> B"
  shows "extends B F F''"
proof -
  obtain r1 where r1: "linked r1" "\<forall>b\<in>set r1. good_block b" "set r1 \<subseteq> B1" "prefix F r1" "suffix F' r1"
    using assms(1) by (auto simp: extends_def)
  obtain r2 where r2: "linked r2" "\<forall>b\<in>set r2. good_block b" "set r2 \<subseteq> B2" "prefix F' r2" "suffix F'' r2"
    using assms(2) by (auto simp: extends_def)
  obtain xs zs where e: "r1 = xs @ F'" "r2 = F' @ zs" using r1(5) r2(4) by (auto simp: suffix_def prefix_def)
  have "linked (xs @ F' @ zs)" using linked_glue r1(1) r2(1) assms(3) unfolding e by blast
  moreover have "prefix F (xs @ F' @ zs)" using r1(4) unfolding e by (metis append_assoc prefix_prefix)
  moreover have "suffix F'' (xs @ F' @ zs)" using r2(5) unfolding e by (rule suffix_appendI)
  ultimately show ?thesis unfolding extends_def using r1(2,3) r2(2,3) assms(4,5) e by (intro exI [of _ "xs @ F' @ zs"]) auto
qed

lemma extends_mono: "extends B F F' \<Longrightarrow> B \<subseteq> B' \<Longrightarrow> extends B' F F'"
  unfolding extends_def by blast

text \<open>A final block that is not below the oldest final block that is left is still final.\<close>

lemma extends_keeps:
  assumes "extends B F F'" "F' \<noteq> []" "b \<in> set F" "br_number (hd F') \<le> br_number b"
  shows "b \<in> set F'"
proof -
  obtain run xs zs where r: "linked run" "\<forall>b\<in>set run. good_block b" "run = xs @ F'" "run = F @ zs"
    using assms(1) by (auto simp: extends_def prefix_def suffix_def)
  have "sorted_wrt (\<lambda>a b. br_number a < br_number b) (xs @ F')" using linked_sorted [OF r(1,2)] r(3) by simp
  then have "b \<notin> set xs" using assms(2,4) by (cases F') (auto simp: sorted_wrt_append)
  moreover have "b \<in> set (xs @ F')" using assms(3) r(3,4) by (metis UnI1 set_append)
  ultimately show ?thesis by simp
qed

text \<open>
  The contract of a cache of a blockchain: \<open>finals\<close> are the blocks that are finalized and still
  held, \<open>held\<close> all the blocks that it holds, \<open>adds\<close> those that a step brings, \<open>ok\<close> the invariant.
\<close>

locale final_chain =
  fixes ok :: "'c \<Rightarrow> bool" and finals :: "'c \<Rightarrow> block list" and held :: "'c \<Rightarrow> block set"
    and step :: "'op \<Rightarrow> 'c \<Rightarrow> 'c result" and good :: "'op \<Rightarrow> bool" and adds :: "'op \<Rightarrow> block set"
  assumes step_ok: "ok c \<Longrightarrow> good a \<Longrightarrow> step a c = Inr c' \<Longrightarrow> ok c'"
    and finals_ok: "ok c \<Longrightarrow> finals c \<noteq> [] \<and> linked (finals c) \<and> (\<forall>b\<in>set (finals c). good_block b) \<and> set (finals c) \<subseteq> held c"
    and step_held: "ok c \<Longrightarrow> good a \<Longrightarrow> step a c = Inr c' \<Longrightarrow> held c' \<subseteq> held c \<union> adds a"
    and step_extends: "ok c \<Longrightarrow> good a \<Longrightarrow> step a c = Inr c' \<Longrightarrow> extends (held c \<union> adds a) (finals c) (finals c')"
begin

lemma run_ok: "ok c \<Longrightarrow> \<forall>a\<in>set as. good a \<Longrightarrow> rfold step as c = Inr c' \<Longrightarrow> ok c'"
  by (induction as arbitrary: c) (auto simp: result_simps intro: step_ok)

lemma run_extends:
  "ok c \<Longrightarrow> \<forall>a\<in>set as. good a \<Longrightarrow> rfold step as c = Inr c' \<Longrightarrow>
    extends (held c \<union> \<Union> (adds ` set as)) (finals c) (finals c')"
proof (induction as arbitrary: c)
  case Nil
  then show ?case using finals_ok [of c] by (auto intro: extends_refl)
next
  case (Cons a as)
  then obtain c1 where c1: "step a c = Inr c1" "rfold step as c1 = Inr c'" by (auto simp: result_simps)
  have a: "good a" and as: "\<forall>a\<in>set as. good a" using Cons.prems(2) by simp_all
  have ok1: "ok c1" by (rule step_ok [OF Cons.prems(1) a c1(1)])
  have h1: "held c1 \<subseteq> held c \<union> adds a" by (rule step_held [OF Cons.prems(1) a c1(1)])
  have x1: "extends (held c \<union> adds a) (finals c) (finals c1)" by (rule step_extends [OF Cons.prems(1) a c1(1)])
  have x2: "extends (held c1 \<union> \<Union> (adds ` set as)) (finals c1) (finals c')" by (rule Cons.IH [OF ok1 as c1(2)])
  have "finals c1 \<noteq> []" using finals_ok [OF ok1] by simp
  moreover have "held c1 \<union> \<Union> (adds ` set as) \<subseteq> held c \<union> \<Union> (adds ` set (a # as))" using h1 by auto
  ultimately show ?case by (intro extends_trans [OF x1 x2]) auto
qed

lemma run_keeps:
  assumes "ok c" "\<forall>a\<in>set as. good a" "rfold step as c = Inr c'" "b \<in> set (finals c)" "br_number (hd (finals c')) \<le> br_number b"
  shows "b \<in> set (finals c')"
  using run_extends [OF assms(1-3)] finals_ok [OF run_ok [OF assms(1-3)]] assms(4,5) by (blast intro: extends_keeps)

end

datatype chain_op = Push block | Finalize block_ref | Compact

definition chain_step :: "chain_op \<Rightarrow> chain \<Rightarrow> chain result" where
  "chain_step a c =
     (case a of
        Push b \<Rightarrow> push b c
      | Finalize r \<Rightarrow> rbind (finalize r c) (\<lambda>(_, c'). Inr c')
      | Compact \<Rightarrow> Inr (snd (compact c)))"

definition good_op :: "chain_op \<Rightarrow> bool" where
  "good_op a = (case a of Push b \<Rightarrow> good_block b | _ \<Rightarrow> True)"

definition pushed :: "chain_op \<Rightarrow> block set" where
  "pushed a = (case a of Push b \<Rightarrow> {b} | _ \<Rightarrow> {})"

definition held :: "chain \<Rightarrow> block set" where
  "held c = set (ch_blocks c)"

lemma finals_chain_ok:
  "chain_ok c \<Longrightarrow> finals c \<noteq> [] \<and> linked (finals c) \<and> (\<forall>b\<in>set (finals c). good_block b) \<and> set (finals c) \<subseteq> held c"
  by (auto simp: finals_def chain_ok_def held_def linked_take dest: in_set_takeD)

lemma finals_hd: "chain_ok c \<Longrightarrow> hd (finals c) = hd (ch_blocks c)"
  by (auto simp: finals_def chain_ok_def)

lemma push_extends:
  assumes "chain_ok c" "good_block b" "push b c = Inr c'"
  shows "held c' \<subseteq> held c \<union> {b}" "extends (held c) (finals c) (finals c')"
  using push_ok(2,5) [OF assms] finals_chain_ok [OF assms(1)]
  by (auto simp: held_def dest: in_set_takeD intro: extends_refl)

lemma finalize_extends:
  assumes "chain_ok c" "finalize r c = Inr (changed, c')"
  shows "held c' = held c" "extends (held c) (finals c) (finals c')"
proof -
  show h: "held c' = held c" using finalize_ok(3) [OF assms] by (simp add: held_def)
  show "extends (held c) (finals c) (finals c')"
    unfolding extends_def using finalize_ok(2) [OF assms] finals_chain_ok [OF finalize_ok(1) [OF assms]] h
    by (intro exI [of _ "finals c'"]) auto
qed

lemma compact_extends:
  assumes "chain_ok c" "compact c = (done, c')"
  shows "held c' \<subseteq> held c" "extends (held c) (finals c) (finals c')"
proof -
  obtain d where d: "prefix (finals c) (d @ finals c')" "ch_blocks c = d @ ch_blocks c'" using compact_ok(2) [OF assms] by blast
  show "held c' \<subseteq> held c" using d(2) by (simp add: held_def)
  have e: "d @ finals c' = take (length d + (ch_finalizedHead c' + 1)) (ch_blocks c)"
    using d(2) by (simp add: finals_def)
  have "linked (d @ finals c')" "\<forall>b\<in>set (d @ finals c'). good_block b" "set (d @ finals c') \<subseteq> held c"
    using assms(1) unfolding e by (auto simp: chain_ok_def held_def linked_take dest: in_set_takeD)
  then show "extends (held c) (finals c) (finals c')"
    unfolding extends_def using d(1) by (intro exI [of _ "d @ finals c'"]) (auto simp: suffix_def)
qed

interpretation cache: final_chain chain_ok finals held chain_step good_op pushed
proof
  fix c show "chain_ok c \<Longrightarrow> finals c \<noteq> [] \<and> linked (finals c) \<and> (\<forall>b\<in>set (finals c). good_block b) \<and> set (finals c) \<subseteq> held c"
    by (rule finals_chain_ok)
next
  fix c a c' assume c: "chain_ok c" "good_op a" "chain_step a c = Inr c'"
  have "chain_ok c' \<and> held c' \<subseteq> held c \<union> pushed a \<and> extends (held c \<union> pushed a) (finals c) (finals c')"
  proof (cases a)
    case (Push b)
    with c push_ok(1) push_extends [of c b c'] show ?thesis
      by (simp add: chain_step_def good_op_def pushed_def extends_mono subset_insertI)
  next
    case (Finalize r)
    with c obtain ch where "finalize r c = Inr (ch, c')" by (auto simp: chain_step_def result_simps)
    with finalize_ok(1) [OF c(1)] finalize_extends [OF c(1)] Finalize show ?thesis by (simp add: pushed_def)
  next
    case Compact
    with c have "compact c = (fst (compact c), c')" by (cases "compact c") (simp add: chain_step_def)
    with compact_ok(1) [OF c(1)] compact_extends [OF c(1)] Compact show ?thesis by (simp add: pushed_def)
  qed
  then show "chain_ok c'" "held c' \<subseteq> held c \<union> pushed a" "extends (held c \<union> pushed a) (finals c) (finals c')" by blast+
qed

section \<open>Queries\<close>

lemma splits_at_filter:
  "splits_at f xs n p \<Longrightarrow> drop p xs = filter (\<lambda>x. n \<le> f x) xs"
proof -
  assume s: "splits_at f xs n p"
  have "filter (\<lambda>x. n \<le> f x) (take p xs) = []"
    using s by (auto simp: splits_at_def filter_empty_conv in_set_conv_nth not_le)
  moreover have "filter (\<lambda>x. n \<le> f x) (drop p xs) = drop p xs"
    using s by (intro filter_True) (auto simp: splits_at_def in_set_conv_nth)
  ultimately show ?thesis
    by (metis append_take_drop_id filter_append self_append_conv2)
qed

lemma getFinalizedHead_ok: "chain_ok c \<Longrightarrow> getFinalizedHead c = Inr (ref_of (last (finals c)))"
  by (auto simp: getFinalizedHead_def chain_ok_def at_def finals_def take_Suc_conv_app_nth)

text \<open>A query of a valid chain never throws. A tail that it returns consists of exactly the blocks of
  the chain from the requested number on, linked to each other and, where a base hash is given,
  to the base; with it comes the finalized head of the chain.\<close>

theorem query_tail:
  assumes "chain_ok c"
  shows "\<exists>r. query from base c = Inr r \<and>
    (\<forall>f tail. r = DataResponse f (Some tail) \<longrightarrow>
      tail = filter (\<lambda>b. from \<le> br_number b) (ch_blocks c) \<and> tail \<noteq> [] \<and> linked tail \<and>
      (\<forall>h. base = Some h \<longrightarrow> bh_parentHash (hd tail) = h) \<and> f = Some (ref_of (last (finals c))))"
proof -
  let ?p = "ch_bisect c from"
  have d: "drop ?p (ch_blocks c) = filter (\<lambda>b. from \<le> br_number b) (ch_blocks c)"
    using ch_bisect_position [OF assms] by (rule splits_at_filter)
  have l: "linked (drop ?p (ch_blocks c))" using assms linked_drop by (auto simp: chain_ok_def)
  note q = query_def firstBlock_ok [OF assms] lastBlock_ok [OF assms] getFinalizedHead_ok [OF assms] rbind_Inr Let_def
  show ?thesis
  proof (cases "?p < length (ch_blocks c)")
    case True
    then show ?thesis unfolding q by (auto simp: d [symmetric] l hd_drop_conv_nth)
  next
    case False
    then show ?thesis unfolding q by simp
  qed
qed

lemma query_tail_witness:
  "\<exists>r. query 5 None \<lparr>ch_blocks = [\<lparr>br_number = 5, br_hash = [1], bh_parentNumber = 4, bh_parentHash = [0],
        bh_timestamp = None, bk_jsonLineZstd = []\<rparr>], ch_finalizedHead = 0, ch_maxSize = 1, ch_autoAdjust = False\<rparr> =
      Inr (DataResponse (Some r) (Some [\<lparr>br_number = 5, br_hash = [1], bh_parentNumber = 4, bh_parentHash = [0],
        bh_timestamp = None, bk_jsonLineZstd = []\<rparr>])) \<and>
    r = \<lparr>br_number = 5, br_hash = [1]\<rparr>"
proof -
  let ?b = "\<lparr>br_number = 5, br_hash = [1], bh_parentNumber = 4, bh_parentHash = [0], bh_timestamp = None, bk_jsonLineZstd = []\<rparr>"
  let ?c = "\<lparr>ch_blocks = [?b], ch_finalizedHead = 0, ch_maxSize = 1, ch_autoAdjust = False\<rparr>"
  have "chain_ok ?c" by (simp add: chain_ok_def linked_def good_block_def)
  from query_tail [OF this, of 5 None] obtain r where r: "query 5 None ?c = Inr r"
    "\<forall>f tail. r = DataResponse f (Some tail) \<longrightarrow> tail = [?b] \<and> f = Some (ref_of ?b)"
    by (auto simp: finals_def)
  moreover have "\<exists>f tail. query 5 None ?c = Inr (DataResponse f (Some tail))"
    by (simp add: query_def firstBlock_def at_def getFinalizedHead_def ch_bisect_def bisect_def
        bisect_loop.simps bisect_pos_def Let_def)
  ultimately show ?thesis by (auto simp: ref_of_def)
qed

section \<open>The base of a fork\<close>

lemma pop_above_sorted:
  "sorted_wrt (\<lambda>a b. br_number a > br_number b) prev \<Longrightarrow>
    pop_above num prev = filter (\<lambda>r. br_number r \<le> num) prev"
proof (induction prev)
  case (Cons p prev)
  then show ?case by (cases "br_number p > num") (auto intro!: filter_True [symmetric])
qed simp

lemma forkBase_loop_correct:
  assumes "sorted_wrt (\<lambda>a b. br_number a < br_number b) blocks"
  shows "sorted_wrt (\<lambda>a b. br_number a > br_number b) prev \<Longrightarrow> n \<le> length blocks \<Longrightarrow>
    (case forkBase_loop blocks fin n prev of
       Some r \<Rightarrow> \<exists>i. fin \<le> i \<and> i < n \<and> r = ref_of (blocks ! i) \<and>
         (r \<in> set prev \<or> (\<forall>p\<in>set prev. br_number r < br_number p)) \<and>
         (\<forall>j. i < j \<and> j < n \<longrightarrow> ref_of (blocks ! j) \<notin> set prev)
     | None \<Rightarrow> \<forall>j. fin \<le> j \<and> j < n \<longrightarrow> ref_of (blocks ! j) \<notin> set prev)"
proof (induction n arbitrary: prev)
  case 0
  then show ?case by simp
next
  case (Suc n)
  define head where "head = ref_of (blocks ! n)"
  define prev' where "prev' = filter (\<lambda>r. br_number r \<le> br_number head) prev"
  have hn: "br_number head = br_number (blocks ! n)" by (simp add: head_def ref_of_def)
  have pa: "pop_above (br_number head) prev = prev'" using pop_above_sorted [OF Suc.prems(1)] by (simp add: prev'_def)
  have s: "sorted_wrt (\<lambda>a b. br_number a > br_number b) prev'"
    using Suc.prems(1) by (simp add: prev'_def sorted_wrt_filter)
  have below: "ref_of (blocks ! j) \<in> set prev \<longleftrightarrow> ref_of (blocks ! j) \<in> set prev'" if "j \<le> n" for j
  proof -
    have "br_number (blocks ! j) \<le> br_number (blocks ! n)"
      using that assms Suc.prems(2) by (cases "j = n") (auto simp: sorted_wrt_iff_nth_less intro: less_imp_le)
    then show ?thesis by (auto simp: prev'_def hn ref_of_def)
  qed
  show ?case
  proof (cases "fin \<le> n")
    case False
    then show ?thesis by auto
  next
    case True
    show ?thesis
    proof (cases prev')
      case Nil
      then have "\<forall>p\<in>set prev. br_number head < br_number p" by (auto simp: prev'_def filter_empty_conv not_le)
      with True Nil show ?thesis by (auto simp: Let_def pa head_def [symmetric] intro!: exI [of _ n])
    next
      case (Cons fh rest)
      show ?thesis
      proof (cases "br_number fh = br_number head \<and> br_hash fh = br_hash head")
        case eq: True
        then have "fh = head" by simp
        then have "head \<in> set prev" using Cons below [of n] by (simp add: head_def)
        with True Cons eq show ?thesis by (auto simp: Let_def pa head_def [symmetric] intro!: exI [of _ n])
      next
        case False
        have "head \<notin> set prev'"
        proof
          assume h: "head \<in> set prev'"
          have "fh \<noteq> head" using False by auto
          then have "head \<in> set rest" using h Cons by simp
          then have "br_number fh > br_number head" using s Cons by simp
          moreover have "fh \<in> set prev'" using Cons by simp
          ultimately show False by (simp add: prev'_def)
        qed
        then have nh: "ref_of (blocks ! n) \<notin> set prev" using below [of n] by (simp add: head_def)
        have e: "forkBase_loop blocks fin (Suc n) prev = forkBase_loop blocks fin n prev'"
          using True Cons False by (auto simp: Let_def pa head_def [symmetric])
        have IH: "case forkBase_loop blocks fin n prev' of
            Some r \<Rightarrow> \<exists>i. fin \<le> i \<and> i < n \<and> r = ref_of (blocks ! i) \<and>
              (r \<in> set prev' \<or> (\<forall>p\<in>set prev'. br_number r < br_number p)) \<and>
              (\<forall>j. i < j \<and> j < n \<longrightarrow> ref_of (blocks ! j) \<notin> set prev')
          | None \<Rightarrow> \<forall>j. fin \<le> j \<and> j < n \<longrightarrow> ref_of (blocks ! j) \<notin> set prev'"
          using Suc.prems(2) by (intro Suc.IH [OF s]) simp
        show ?thesis
        proof (cases "forkBase_loop blocks fin n prev'")
          case None
          then show ?thesis unfolding e using IH nh below by (auto simp: less_Suc_eq)
        next
          case (Some r)
          then obtain i where i: "fin \<le> i" "i < n" "r = ref_of (blocks ! i)"
            "r \<in> set prev' \<or> (\<forall>p\<in>set prev'. br_number r < br_number p)"
            "\<forall>j. i < j \<and> j < n \<longrightarrow> ref_of (blocks ! j) \<notin> set prev'" using IH by auto
          have lt: "br_number r < br_number head"
            using i(2,3) assms Suc.prems(2) by (simp add: hn ref_of_def sorted_wrt_iff_nth_less)
          have "r \<in> set prev \<or> (\<forall>p\<in>set prev. br_number r < br_number p)"
            using i(4) lt by (auto simp: prev'_def)
          then show ?thesis unfolding e Some using i(1-3,5) nh below by (auto simp: less_Suc_eq intro!: exI [of _ i])
        qed
      qed
    qed
  qed
qed

text \<open>C23: The fork base that a valid chain finds for the upstream blocks of a fork, given in ascending
  order, is a block of the chain that is not below the finalized head, is one of the upstream
  blocks or below all of them, and no higher block of the chain is an upstream block. It finds
  none only when no block from the finalized head on is an upstream block.\<close>

theorem getForkBase_correct:
  assumes "chain_ok c" "sorted_wrt (\<lambda>a b. br_number a < br_number b) prev"
  shows "case getForkBase prev c of
     Some r \<Rightarrow> \<exists>i. ch_finalizedHead c \<le> i \<and> i < length (ch_blocks c) \<and> r = ref_of (ch_blocks c ! i) \<and>
       (r \<in> set prev \<or> (\<forall>p\<in>set prev. br_number r < br_number p)) \<and>
       (\<forall>j. i < j \<and> j < length (ch_blocks c) \<longrightarrow> ref_of (ch_blocks c ! j) \<notin> set prev)
   | None \<Rightarrow> \<forall>j. ch_finalizedHead c \<le> j \<and> j < length (ch_blocks c) \<longrightarrow> ref_of (ch_blocks c ! j) \<notin> set prev"
proof -
  have "sorted_wrt (\<lambda>a b. br_number a < br_number b) (ch_blocks c)"
    using assms(1) by (intro linked_sorted) (auto simp: chain_ok_def)
  moreover have "sorted_wrt (\<lambda>a b. br_number a > br_number b) (rev prev)"
    using assms(2) by (simp add: sorted_wrt_rev)
  ultimately show ?thesis
    using forkBase_loop_correct [of "ch_blocks c" "rev prev" "length (ch_blocks c)" "ch_finalizedHead c"]
    unfolding getForkBase_def set_rev by blast
qed

definition sample_block :: "int \<Rightarrow> nat \<Rightarrow> nat \<Rightarrow> block" where
  "sample_block n parent self = \<lparr>br_number = n, br_hash = [self], bh_parentNumber = n - 1, bh_parentHash = [parent],
     bh_timestamp = None, bk_jsonLineZstd = []\<rparr>"

definition sample_chain :: chain where
  "sample_chain = \<lparr>ch_blocks = [sample_block 5 0 1, sample_block 6 1 2], ch_finalizedHead = 0, ch_maxSize = 10,
     ch_autoAdjust = False\<rparr>"

lemma sample_chain_ok: "chain_ok sample_chain"
  by (auto simp: chain_ok_def sample_chain_def linked_def good_block_def isChain_def sample_block_def)

lemma getForkBase_correct_witness:
  "\<exists>i. getForkBase [\<lparr>br_number = 5, br_hash = [1]\<rparr>, \<lparr>br_number = 6, br_hash = [9]\<rparr>] sample_chain =
      Some (ref_of (ch_blocks sample_chain ! i)) \<and> i < length (ch_blocks sample_chain)"
proof -
  let ?prev = "[\<lparr>br_number = 5, br_hash = [1]\<rparr>, \<lparr>br_number = 6, br_hash = [9]\<rparr>] :: block_ref list"
  have "ref_of (ch_blocks sample_chain ! 0) \<in> set ?prev" "ch_finalizedHead sample_chain \<le> 0" "0 < length (ch_blocks sample_chain)"
    by (simp_all add: sample_chain_def sample_block_def ref_of_def)
  moreover have "sorted_wrt (\<lambda>a b. br_number a < br_number b) ?prev" by simp
  note getForkBase_correct [OF sample_chain_ok this]
  ultimately show ?thesis by (cases "getForkBase ?prev sample_chain") auto
qed

text \<open>C11: Any sequence of pushes of blocks whose parents are below them, of finalizations and of
  compactions that does not throw keeps the invariant of the chain, and what was final stays final: the
  finalized blocks before and after lie on one linked sequence, made of blocks that were held or
  pushed, which begins with those before and ends with those after. A block that was final and is not below the
  first block still held is final in the new chain too.\<close>

theorem chain_finality:
  assumes "chain_ok c" "\<forall>a\<in>set ops. good_op a" "rfold chain_step ops c = Inr c'"
  shows "chain_ok c' \<and> extends (held c \<union> \<Union> (pushed ` set ops)) (finals c) (finals c') \<and>
    (\<forall>b\<in>set (finals c). br_number (hd (ch_blocks c')) \<le> br_number b \<longrightarrow> b \<in> set (finals c'))"
  using cache.run_ok [OF assms] cache.run_extends [OF assms] cache.run_keeps [OF assms] finals_hd by auto

lemma chain_finality_witness:
  "\<exists>c'. rfold chain_step [Push (sample_block 7 2 3), Finalize \<lparr>br_number = 6, br_hash = [2]\<rparr>, Compact] sample_chain = Inr c' \<and>
    chain_ok c' \<and> extends (held sample_chain \<union> {sample_block 7 2 3}) (finals sample_chain) (finals c') \<and>
    sample_block 5 0 1 \<in> set (finals c')"
proof -
  let ?ops = "[Push (sample_block 7 2 3), Finalize \<lparr>br_number = 6, br_hash = [2]\<rparr>, Compact]"
  obtain c' where r: "rfold chain_step ?ops sample_chain = Inr c'" "br_number (hd (ch_blocks c')) = 5"
    by (simp add: chain_step_def push_def finalize_def compact_def sample_chain_def sample_block_def lastBlock_def
        firstBlock_def at_def js_assert_def isChain_def ch_bisect_def bisect_def bisect_loop.simps bisect_pos_def Let_def)
  have "\<forall>a\<in>set ?ops. good_op a" by (simp add: good_op_def good_block_def sample_block_def)
  note t = chain_finality [OF sample_chain_ok this r(1)]
  have "sample_block 5 0 1 \<in> set (finals sample_chain)" "br_number (sample_block 5 0 1) = 5"
    by (simp_all add: finals_def sample_chain_def sample_block_def)
  with r t show ?thesis by (auto simp: pushed_def)
qed

text \<open>The size limit holds after a compaction that reports success, and with automatic adjustment of
  the finalized head every compaction succeeds.\<close>

theorem compact_bounds:
  assumes "chain_ok c"
  shows "(fst (compact c) \<longrightarrow> int (length (ch_blocks (snd (compact c)))) \<le> ch_maxSize c) \<and>
    (ch_autoAdjust c \<longrightarrow> fst (compact c)) \<and> chain_ok (snd (compact c))"
proof -
  have e: "compact c = (fst (compact c), snd (compact c))" by simp
  have m: "ch_maxSize (snd (compact c)) = ch_maxSize c" by (simp add: compact_def Let_def)
  show ?thesis using compact_ok(1,3,4) [OF assms e] unfolding m by blast
qed

lemma compact_bounds_witness:
  "int (length (ch_blocks (snd (compact (sample_chain\<lparr>ch_maxSize := 1, ch_autoAdjust := True\<rparr>))))) \<le> 1 \<and>
    fst (compact (sample_chain\<lparr>ch_maxSize := 1, ch_autoAdjust := True\<rparr>)) \<and>
    chain_ok (snd (compact (sample_chain\<lparr>ch_maxSize := 1, ch_autoAdjust := True\<rparr>)))"
proof -
  have "chain_ok (sample_chain\<lparr>ch_maxSize := 1, ch_autoAdjust := True\<rparr>)"
    using sample_chain_ok by (simp add: chain_ok_def)
  from compact_bounds [OF this] show ?thesis by simp
qed

section \<open>The service\<close>

definition on_chain :: "block_ref \<Rightarrow> chain \<Rightarrow> bool" where
  "on_chain r c \<longleftrightarrow> (\<exists>i. ch_finalizedHead c \<le> i \<and> i < length (ch_blocks c) \<and> r = ref_of (ch_blocks c ! i))"

lemma push_all_ok:
  "chain_ok c \<Longrightarrow> \<forall>b\<in>set bs. good_block b \<Longrightarrow> push_all bs c = (c', ok) \<Longrightarrow>
    chain_ok c' \<and> finals c' = finals c \<and> held c' \<subseteq> held c \<union> set bs"
proof (induction bs arbitrary: c)
  case (Cons b bs)
  show ?case
  proof (cases "push b c")
    case (Inl e)
    with Cons.prems show ?thesis by auto
  next
    case (Inr c1)
    with Cons.prems push_ok(1,2) [of c b c1] push_extends(1) [of c b c1] Cons.IH [of c1] show ?thesis by auto
  qed
qed auto

abbreviation brought :: "batch list \<Rightarrow> block set" where
  "brought bs \<equiv> \<Union> ((\<lambda>b. set (bt_blocks b)) ` set bs)"

lemma ingestSession_ok:
  "chain_ok c \<Longrightarrow> \<forall>b\<in>set bs. \<forall>x\<in>set (bt_blocks b). good_block x \<Longrightarrow>
    ingestSession bs e c fin ing = (c', ing', e') \<Longrightarrow>
    chain_ok c' \<and> extends (held c \<union> brought bs) (finals c) (finals c')"
proof (induction bs arbitrary: c fin ing)
  case Nil
  then show ?case using finals_chain_ok [of c] by (auto intro: extends_refl)
next
  case (Cons b bs)
  obtain c1 ok where p: "push_all (bt_blocks b) c = (c1, ok)" by (cases "push_all (bt_blocks b) c")
  have c1: "chain_ok c1" "finals c1 = finals c" "held c1 \<subseteq> held c \<union> set (bt_blocks b)"
    using push_all_ok [OF Cons.prems(1) _ p] Cons.prems(2) by auto
  have refl: "extends (held c \<union> B) (finals c) (finals c)" for B
    using finals_chain_ok [OF Cons.prems(1)] by (intro extends_refl) auto
  have here: "chain_ok c1 \<and> extends (held c \<union> brought (b # bs)) (finals c) (finals c1)"
    unfolding c1(2) using c1(1) refl by blast
  define fin1 where "fin1 = pick_finalized fin (bt_finalizedHead b)"
  define r where "r = (case fin1 of None \<Rightarrow> Inr c1 | Some r \<Rightarrow> rbind (finalize r c1) (\<lambda>(_, c). Inr c))"
  show ?case
  proof (cases ok)
    case False
    then have "c' = c1" using Cons.prems(3) p by simp
    with here show ?thesis by blast
  next
    case True
    show ?thesis
    proof (cases r)
      case (Inl err)
      with True Cons.prems(3) p have "c' = c1" by (simp add: Let_def r_def fin1_def split: sum.splits)
      with here show ?thesis by blast
    next
      case (Inr c2)
      have c2: "chain_ok c2" "held c2 = held c1" "extends (held c1) (finals c1) (finals c2)"
      proof -
        have "c2 = c1 \<or> (\<exists>f ch. finalize f c1 = Inr (ch, c2))"
          using Inr by (auto simp: r_def result_simps split: option.splits)
        moreover have "extends (held c1) (finals c1) (finals c1)"
          using finals_chain_ok [OF c1(1)] by (intro extends_refl) auto
        ultimately show "chain_ok c2" "held c2 = held c1" "extends (held c1) (finals c1) (finals c2)"
          using c1(1) finalize_ok(1) [OF c1(1)] finalize_extends [OF c1(1)] by blast+
      qed
      obtain dn c3 where c3: "compact c2 = (dn, c3)" by (cases "compact c2")
      have rest: "ingestSession bs e c3 fin1 (ing \<or> bt_blocks b \<noteq> []) = (c', ing', e')"
        using True Cons.prems(3) p Inr c3 by (simp add: Let_def r_def fin1_def)
      have ok3: "chain_ok c3" by (rule compact_ok(1) [OF c2(1) c3])
      have good: "\<forall>b\<in>set bs. \<forall>x\<in>set (bt_blocks b). good_block x" using Cons.prems(2) by simp
      have x3: "chain_ok c'" "extends (held c3 \<union> brought bs) (finals c3) (finals c')"
        using Cons.IH [OF ok3 good rest] by blast+
      have ne: "finals c2 \<noteq> []" "finals c3 \<noteq> []" using finals_chain_ok c2(1) ok3 by blast+
      note h = compact_extends(1) [OF c2(1) c3]
      have "extends (held c2 \<union> brought bs) (finals c2) (finals c')"
        using h by (intro extends_trans [OF compact_extends(2) [OF c2(1) c3] x3(2) ne(2)]) auto
      then have "extends (held c \<union> brought (b # bs)) (finals c1) (finals c')"
        using c1(3) c2(2) by (intro extends_trans [OF c2(3) _ ne(1)]) auto
      with c1(2) x3(1) show ?thesis by simp
    qed
  qed
qed

lemma ingestSession_ending: "ingestSession bs e c fin ing = (c', ing', e') \<Longrightarrow> e' = e \<or> e' = Failure"
  by (induction bs arbitrary: c fin ing) (auto simp: Let_def split: prod.splits bool.splits sum.splits option.splits)

text \<open>C12: As long as the service is not reinitialised (at most five sessions have ended at the same
  head), and for a stream whose blocks are above their parents and whose forks list the upstream
  blocks in ascending order, an iteration of its main loop that goes on keeps the
  chain valid and never rolls a finalized block back: the finalized blocks before and after lie on
  one linked sequence of blocks held or delivered, which begins with those before and ends with
  those after, and a finalized block is still finalized unless it is below the first block
  held. The next request starts from a block of the chain that is not below the finalized head.\<close>

theorem run_step_safe:
  assumes "chain_ok (ds_chain s)" "ds_stacked s \<le> 5"
    and "\<forall>b\<in>set (fst (source (ds_base s))). \<forall>x\<in>set (bt_blocks b). good_block x"
    and "\<forall>prev. snd (source (ds_base s)) = Fork prev \<longrightarrow> sorted_wrt (\<lambda>a b. br_number a < br_number b) prev"
    and "run_step source reinit s = Continue s'"
  shows "chain_ok (ds_chain s') \<and>
    extends (held (ds_chain s) \<union> brought (fst (source (ds_base s)))) (finals (ds_chain s)) (finals (ds_chain s')) \<and>
    (\<forall>b\<in>set (finals (ds_chain s)). br_number (hd (ch_blocks (ds_chain s'))) \<le> br_number b \<longrightarrow>
      b \<in> set (finals (ds_chain s'))) \<and>
    on_chain (ds_base s') (ds_chain s')"
proof -
  obtain bs e where src: "source (ds_base s) = (bs, e)" by (cases "source (ds_base s)")
  obtain c ing e' where ses: "ingestSession bs e (ds_chain s) None (ds_ingested s) = (c, ing, e')"
    by (cases "ingestSession bs e (ds_chain s) None (ds_ingested s)") auto
  have x: "chain_ok c" "extends (held (ds_chain s) \<union> brought (fst (source (ds_base s)))) (finals (ds_chain s)) (finals c)"
    using ingestSession_ok [OF assms(1) _ ses] assms(3) src by auto
  have "b \<in> set (finals c)" if "b \<in> set (finals (ds_chain s))" "br_number (hd (ch_blocks c)) \<le> br_number b" for b
    using extends_keeps [OF x(2)] that finals_chain_ok [OF x(1)] finals_hd [OF x(1)] by simp
  with x have c: "chain_ok c" "extends (held (ds_chain s) \<union> brought (fst (source (ds_base s)))) (finals (ds_chain s)) (finals c)"
    "\<forall>b\<in>set (finals (ds_chain s)). br_number (hd (ch_blocks c)) \<le> br_number b \<longrightarrow> b \<in> set (finals c)" by blast+
  have fb: "on_chain r c" if "getForkBase prev c = Some r" "sorted_wrt (\<lambda>a b. br_number a < br_number b) prev" for r prev
  proof -
    have "sorted_wrt (\<lambda>a b. br_number a < br_number b) (ch_blocks c)"
      using c(1) by (intro linked_sorted) (auto simp: chain_ok_def)
    moreover have "sorted_wrt (\<lambda>a b. br_number a > br_number b) (rev prev)"
      using that(2) by (simp add: sorted_wrt_rev)
    ultimately show ?thesis
      using forkBase_loop_correct [of "ch_blocks c" "rev prev" "length (ch_blocks c)" "ch_finalizedHead c"] that(1)
      unfolding getForkBase_def on_chain_def by auto
  qed
  have ne: "ch_blocks c \<noteq> []" using c(1) by (auto simp: chain_ok_def)
  have hd: "on_chain (ref_of (last (ch_blocks c))) c"
    unfolding last_conv_nth [OF ne] using c(1) by (auto simp: on_chain_def chain_ok_def intro!: exI [of _ "length (ch_blocks c) - 1"])
  note e' = ingestSession_ending [OF ses]
  have run: "run_step source reinit s =
      (case e' of
         Fork prev \<Rightarrow>
           (case getForkBase prev c of
              Some forkBase \<Rightarrow> Continue \<lparr>ds_chain = c, ds_base = forkBase, ds_stacked = 0, ds_ingested = ing\<rparr>
            | None \<Rightarrow> RollbackBehindFinalized)
       | _ \<Rightarrow>
           if \<not> ing then Rejected
           else Continue \<lparr>ds_chain = c, ds_base = ref_of (last (ch_blocks c)),
             ds_stacked = (if br_number (last (ch_blocks c)) = br_number (ds_base s) then ds_stacked s + 1 else 0),
             ds_ingested = ing\<rparr>)"
    using assms(2) src ses lastBlock_ok [OF c(1)]
    by (simp add: run_step_def Let_def getHead_def ref_of_def split: ending.split)
  show ?thesis
  proof (cases e')
    case (Fork prev)
    then have "snd (source (ds_base s)) = Fork prev" using e' src by auto
    with assms(4,5) run Fork fb [of prev] c show ?thesis by (auto split: option.splits)
  next
    case Failure
    with assms(5) run hd c show ?thesis by (auto split: if_splits)
  next
    case Done
    with assms(5) run hd c show ?thesis by (auto split: if_splits)
  qed
qed

lemma run_step_safe_witness:
  "\<exists>s'. run_step (\<lambda>b. ([\<lparr>bt_blocks = [sample_block 7 2 3], bt_finalizedHead = None\<rparr>], Done)) (\<lambda>_. None)
      \<lparr>ds_chain = sample_chain, ds_base = ref_of (sample_block 6 1 2), ds_stacked = 0, ds_ingested = False\<rparr> = Continue s' \<and>
    chain_ok (ds_chain s') \<and> extends (held sample_chain \<union> {sample_block 7 2 3}) (finals sample_chain) (finals (ds_chain s')) \<and>
    on_chain (ds_base s') (ds_chain s')"
proof -
  let ?source = "\<lambda>b :: block_ref. ([\<lparr>bt_blocks = [sample_block 7 2 3], bt_finalizedHead = None\<rparr>], Done)"
  let ?s = "\<lparr>ds_chain = sample_chain, ds_base = ref_of (sample_block 6 1 2), ds_stacked = 0, ds_ingested = False\<rparr>"
  obtain s' where r: "run_step ?source (\<lambda>_. None) ?s = Continue s'"
    by (simp add: run_step_def push_def compact_def sample_chain_def sample_block_def lastBlock_def getHead_def
        firstBlock_def at_def js_assert_def isChain_def pick_finalized_def Let_def)
  have "chain_ok (ds_chain s') \<and>
      extends (held (ds_chain ?s) \<union> brought (fst (?source (ds_base ?s)))) (finals (ds_chain ?s)) (finals (ds_chain s')) \<and>
      (\<forall>b\<in>set (finals (ds_chain ?s)). br_number (hd (ch_blocks (ds_chain s'))) \<le> br_number b \<longrightarrow>
        b \<in> set (finals (ds_chain s'))) \<and>
      on_chain (ds_base s') (ds_chain s')"
    using r by (rule run_step_safe [rotated 4]) (simp_all add: sample_chain_ok good_block_def sample_block_def)
  with r show ?thesis by auto
qed

text \<open>The stream of missing blocks is checked for continuity only when the query gave a parent hash:
  without it every sequence of blocks passes, linked or not.\<close>

theorem head_stream_unchecked:
  "head_stream None prev (b # bs) tail = Inr ()"
proof (induction bs arbitrary: prev b)
  case Nil
  then show ?case by (simp add: assertChainContinuity_def js_assert_def split: list.split)
next
  case (Cons x xs)
  have "head_stream None prev (b # x # xs) tail = head_stream None (Some b) (x # xs) tail"
    by (simp add: assertChainContinuity_def js_assert_def)
  then show ?case using Cons.IH by simp
qed

end
