(* ===== verification/Hot_Processor.thy ===== *)
theory Hot_Processor
  imports Block_Refs Util_Misc
begin

text \<open>
  The hot processor, \<open>util/util-internal-ingest-tools/src/hot.ts\<close>: it follows the head of a network, finds
  the common base of forks and hands consistent updates to a consumer.

  Blocks and their source are parameters: \<open>hot_options\<close> is the interface \<open>HotProcessorOptions\<close>. An update
  is handed to \<open>process\<close>, which may change the state \<open>'w\<close> of the consumer or throw. Callers go on with the
  same processor after an exception, so every operation returns its outcome together with the state it
  leaves. A stream of blocks is the list of its batches and the exception that ends it, if one does. The
  loop that fetches missing parents allocates a block in every round; \<open>memory\<close> bounds its rounds.
\<close>

section \<open>Interfaces\<close>

record block_header = hash_height +
  bh_parentHash :: jstr

text \<open>A reference has a height or a hash or both.\<close>

datatype any_ref = Ref (ref_height: "int option") (ref_hash: "jstr option")

record chain_heads =
  heads_best :: any_ref
  heads_finalized :: any_ref

record 'b hot_update =
  up_blocks :: "'b list"
  up_baseHead :: hash_height
  up_finalizedHead :: hash_height

record ('b, 'w) hot_options =
  ho_process :: "'b hot_update \<Rightarrow> 'w \<Rightarrow> 'w result"
  ho_getBlock :: "hash_height \<Rightarrow> 'b result"
  ho_getBlockRange :: "int \<Rightarrow> any_ref \<Rightarrow> 'b list list \<times> js_error option"
  ho_getHeader :: "'b \<Rightarrow> block_header"
  ho_getFinalizedBlockHeight :: "(jstr \<Rightarrow> int result) option"
  ho_memory :: nat

record hot_processor =
  hp_chain :: "hash_height list"
  hp_finalizedHead :: "any_ref option"

definition as_ref :: "block_header \<Rightarrow> hash_height" where
  "as_ref hdr = \<lparr>hh_height = hh_height hdr, hh_hash = hh_hash hdr\<rparr>"

definition getParent :: "block_header \<Rightarrow> hash_height" where
  "getParent hdr = \<lparr>hh_height = hh_height hdr - 1, hh_hash = bh_parentHash hdr\<rparr>"

text \<open>An exception of an access to a property of \<open>undefined\<close> when the list is empty.\<close>

definition first_of :: "'a list \<Rightarrow> 'a result" where
  "first_of xs = (case xs of [] \<Rightarrow> Inl TypeError | x # _ \<Rightarrow> Inr x)"

section \<open>The state\<close>

fun ascends :: "hash_height list \<Rightarrow> unit result" where
  "ascends (a # b # rest) = rbind (js_assert (hh_height b \<ge> hh_height a + 1)) (\<lambda>_. ascends (b # rest))"
| "ascends _ = Inr ()"

definition hot_new :: "hash_height \<Rightarrow> hash_height list \<Rightarrow> hot_processor result" where
  "hot_new head tops = rbind (ascends (head # tops)) (\<lambda>_. Inr \<lparr>hp_chain = head # tops, hp_finalizedHead = None\<rparr>)"

definition getHeight :: "hot_processor \<Rightarrow> int result" where
  "getHeight s = rbind (js_last (hp_chain s)) (\<lambda>b. Inr (hh_height b))"

definition find_hash :: "jstr option \<Rightarrow> hash_height list \<Rightarrow> hash_height option" where
  "find_hash hash chain = find (\<lambda>b. Some (hh_hash b) = hash) chain"

definition getPassedFinalizedHeight :: "hot_processor \<Rightarrow> int" where
  "getPassedFinalizedHeight s =
     (case hp_finalizedHead s of
        None \<Rightarrow> 0
      | Some f \<Rightarrow> (case ref_height f of
          None \<Rightarrow> (case find_hash (ref_hash f) (hp_chain s) of None \<Rightarrow> 0 | Some b \<Rightarrow> hh_height b)
        | Some h \<Rightarrow> h))"

definition getFinalizedHeight :: "hot_processor \<Rightarrow> int result" where
  "getFinalizedHeight s = rbind (first_of (hp_chain s)) (\<lambda>b. Inr (max (hh_height b) (getPassedFinalizedHeight s)))"

definition isKnownBlock :: "any_ref \<Rightarrow> hash_height list \<Rightarrow> bool result" where
  "isKnownBlock ref chain =
     (case ref_height ref of
        None \<Rightarrow> Inr (find_hash (ref_hash ref) chain \<noteq> None)
      | Some h \<Rightarrow>
          rbind (first_of chain) (\<lambda>c0.
            if h \<le> hh_height c0 then Inr True
            else case ref_hash ref of
              None \<Rightarrow> rbind (js_last chain) (\<lambda>l. Inr (h < hh_height l))
            | Some hash \<Rightarrow>
                let pos = nat (h - hh_height c0)
                in Inr (pos < length chain \<and> hh_hash (chain ! pos) = hash)))"

section \<open>Finality\<close>

text \<open>The new value of the field \<open>finalizedHead\<close> and the height it stands for.\<close>

definition finalized_height ::
  "('b, 'w) hot_options \<Rightarrow> hash_height list \<Rightarrow> any_ref \<Rightarrow> (any_ref \<times> int) result" where
  "finalized_height opts chain f =
     (case ref_height f of
        Some h \<Rightarrow> Inr (f, h)
      | None \<Rightarrow>
          rbind (case find_hash (ref_hash f) chain of
                   Some b \<Rightarrow> Inr (hh_height b)
                 | None \<Rightarrow> (case ho_getFinalizedBlockHeight opts of
                     None \<Rightarrow> Inl (ThrownError ''.getFinalizedBlockHeight() method is not available'')
                   | Some get \<Rightarrow> get (case ref_hash f of Some hash \<Rightarrow> hash | None \<Rightarrow> [])))
            (\<lambda>h. Inr (Ref (Some h) (ref_hash f), h)))"

definition trim_finalized :: "any_ref \<Rightarrow> int \<Rightarrow> hash_height list \<Rightarrow> hash_height list result" where
  "trim_finalized f finalizedHeight chain =
     rbind (first_of chain) (\<lambda>c0.
       let pos = finalizedHeight - hh_height c0
       in if pos \<ge> int (length chain) then Inr chain
          else rbind (js_assert (case ref_hash f of
                 None \<Rightarrow> True
               | Some hash \<Rightarrow> hash \<noteq> [] \<and> pos \<ge> 0 \<longrightarrow> hh_hash (chain ! nat pos) = hash)) (\<lambda>_.
               Inr (if pos > 0 then drop (nat pos) chain else chain)))"

definition hot_finalize ::
  "('b, 'w) hot_options \<Rightarrow> any_ref option \<Rightarrow> hash_height list \<Rightarrow> any_ref option \<times> hash_height list result" where
  "hot_finalize opts fin chain =
     (case fin of
        None \<Rightarrow> (None, Inr chain)
      | Some f \<Rightarrow> (case finalized_height opts chain f of
          Inl e \<Rightarrow> (Some f, Inl e)
        | Inr (f', h) \<Rightarrow> (Some f', trim_finalized f' h chain)))"

section \<open>Moving to new blocks\<close>

fun linked_blocks :: "('b \<Rightarrow> block_header) \<Rightarrow> 'b list \<Rightarrow> unit result" where
  "linked_blocks hdr (a # b # rest) =
     rbind (js_assert (hh_hash (hdr a) = bh_parentHash (hdr b))) (\<lambda>_. linked_blocks hdr (b # rest))"
| "linked_blocks hdr _ = Inr ()"

text \<open>The two loops of \<open>moveToBlocks\<close>. The code keeps the new blocks in reverse while it fetches their
  parents; here they are in their final order, a fetched block comes first. The second loop pops the
  chain, which is kept in reverse.\<close>

fun fetch_gap ::
  "('b, 'w) hot_options \<Rightarrow> nat \<Rightarrow> int \<Rightarrow> hash_height \<Rightarrow> 'b list \<Rightarrow> (hash_height \<times> 'b list) result" where
  "fetch_gap opts memory lastHeight head newBlocks =
     (if lastHeight < hh_height head
      then (case memory of
              0 \<Rightarrow> Inl (ThrownError ''out of memory'')
            | Suc memory' \<Rightarrow> rbind (ho_getBlock opts head) (\<lambda>block.
                fetch_gap opts memory' lastHeight (getParent (ho_getHeader opts block)) (block # newBlocks)))
      else Inr (head, newBlocks))"

declare fetch_gap.simps [simp del]

fun fetch_fork ::
  "('b, 'w) hot_options \<Rightarrow> hash_height list \<Rightarrow> hash_height \<Rightarrow> 'b list \<Rightarrow> (hash_height list \<times> 'b list) result" where
  "fetch_fork opts [] head newBlocks = Inl DataConsistencyError"
| "fetch_fork opts (lst # rest) head newBlocks =
     (if hh_hash lst \<noteq> hh_hash head
      then rbind (ho_getBlock opts head) (\<lambda>block.
        fetch_fork opts rest (getParent (ho_getHeader opts block)) (block # newBlocks))
      else Inr (lst # rest, newBlocks))"

text \<open>What \<open>moveToBlocks\<close> does before it touches the state: the new blocks and the chain with them.\<close>

definition find_base ::
  "('b, 'w) hot_options \<Rightarrow> 'b list \<Rightarrow> hash_height list \<Rightarrow> ('b list \<times> hash_height list) result" where
  "find_base opts blocks chain =
     rbind (linked_blocks (ho_getHeader opts) blocks) (\<lambda>_.
     rbind (first_of blocks) (\<lambda>b0. rbind (first_of chain) (\<lambda>c0.
     let head = getParent (ho_getHeader opts b0)
     in rbind (js_assert (hh_height head \<ge> hh_height c0)) (\<lambda>_.
        let known = js_slice chain 0 (nat (hh_height head - hh_height c0 + 1))
        in rbind (js_last known) (\<lambda>lst.
           rbind (fetch_gap opts (ho_memory opts) (hh_height lst) head blocks) (\<lambda>(head, newBlocks).
           rbind (js_assert (hh_height lst = hh_height head)) (\<lambda>_.
           rbind (fetch_fork opts (rev known) head newBlocks) (\<lambda>(base, newBlocks).
             Inr (newBlocks, rev base @ map (\<lambda>b. as_ref (ho_getHeader opts b)) newBlocks)))))))))"

definition moveToBlocks ::
  "('b, 'w) hot_options \<Rightarrow> 'b list \<Rightarrow> hot_processor \<times> 'w \<Rightarrow> unit result \<times> hot_processor \<times> 'w" where
  "moveToBlocks opts blocks s =
     (case s of (p, w) \<Rightarrow>
        if blocks = [] then (Inr (), p, w)
        else case find_base opts blocks (hp_chain p) of
          Inl e \<Rightarrow> (Inl e, p, w)
        | Inr (newBlocks, chain) \<Rightarrow>
            (case hot_finalize opts (hp_finalizedHead p) chain of
               (fin, Inl e) \<Rightarrow> (Inl e, p\<lparr>hp_finalizedHead := fin\<rparr>, w)
             | (fin, Inr chain') \<Rightarrow>
                 let upd = \<lparr>up_blocks = newBlocks,
                       up_baseHead = (case newBlocks of b # _ \<Rightarrow> getParent (ho_getHeader opts b) | [] \<Rightarrow> last chain'),
                       up_finalizedHead = hd chain'\<rparr>
                 in case ho_process opts upd w of
                      Inl e \<Rightarrow> (Inl e, p\<lparr>hp_finalizedHead := fin\<rparr>, w)
                    | Inr w' \<Rightarrow> (Inr (), \<lparr>hp_chain = chain', hp_finalizedHead = fin\<rparr>, w')))"

fun move_all ::
  "('b, 'w) hot_options \<Rightarrow> 'b list list \<Rightarrow> js_error option \<Rightarrow> hot_processor \<times> 'w \<Rightarrow> unit result \<times> hot_processor \<times> 'w" where
  "move_all opts [] e s = (case e of None \<Rightarrow> Inr () | Some err \<Rightarrow> Inl err, s)"
| "move_all opts (blocks # rest) e s =
     (case moveToBlocks opts blocks s of
        (Inl err, s') \<Rightarrow> (Inl err, s')
      | (Inr _, s') \<Rightarrow> move_all opts rest e s')"

definition goto ::
  "('b, 'w) hot_options \<Rightarrow> chain_heads \<Rightarrow> hot_processor \<times> 'w \<Rightarrow> unit result \<times> hot_processor \<times> 'w" where
  "goto opts heads s =
     (case s of (p, w) \<Rightarrow>
        if (case (ref_height (heads_finalized heads), ref_height (heads_best heads)) of
              (Some f, Some b) \<Rightarrow> f > b | _ \<Rightarrow> False)
        then (Inl DataConsistencyError, p, w)
        else
          let p = p\<lparr>hp_finalizedHead := Some (heads_finalized heads)\<rparr>
          in case isKnownBlock (heads_best heads) (hp_chain p) of
               Inl e \<Rightarrow> (Inl e, p, w)
             | Inr True \<Rightarrow>
                 (case hot_finalize opts (hp_finalizedHead p) (hp_chain p) of
                    (fin, Inl e) \<Rightarrow> (Inl e, p\<lparr>hp_finalizedHead := fin\<rparr>, w)
                  | (fin, Inr chain) \<Rightarrow>
                      if hh_height (hd chain) \<noteq> hh_height (hd (hp_chain p))
                      then (case ho_process opts \<lparr>up_blocks = [], up_baseHead = last chain, up_finalizedHead = hd chain\<rparr> w of
                              Inl e \<Rightarrow> (Inl e, p\<lparr>hp_finalizedHead := fin\<rparr>, w)
                            | Inr w' \<Rightarrow> (Inr (), \<lparr>hp_chain = chain, hp_finalizedHead = fin\<rparr>, w'))
                      else (Inr (), p\<lparr>hp_finalizedHead := fin\<rparr>, w))
             | Inr False \<Rightarrow>
                 (case getHeight p of
                    Inl e \<Rightarrow> (Inl e, p, w)
                  | Inr h \<Rightarrow> (case ho_getBlockRange opts (h + 1) (heads_best heads) of
                      (batches, e) \<Rightarrow> move_all opts batches e (p, w))))"

section \<open>Chains without gaps\<close>

fun contig :: "int \<Rightarrow> hash_height list \<Rightarrow> bool" where
  "contig h [] = True"
| "contig h (b # bs) = (hh_height b = h \<and> contig (h + 1) bs)"

definition contiguous :: "hash_height list \<Rightarrow> bool" where
  "contiguous chain \<longleftrightarrow> chain \<noteq> [] \<and> contig (hh_height (hd chain)) chain"

lemma contig_append: "contig h (xs @ ys) \<longleftrightarrow> contig h xs \<and> contig (h + int (length xs)) ys"
  by (induction xs arbitrary: h) (auto simp: ac_simps)

lemma contig_nth: "contig h xs \<Longrightarrow> i < length xs \<Longrightarrow> hh_height (xs ! i) = h + int i"
  by (induction xs arbitrary: h i) (auto simp: nth_Cons' split: if_splits)

lemma contig_last: "contig h xs \<Longrightarrow> xs \<noteq> [] \<Longrightarrow> hh_height (last xs) = h + int (length xs) - 1"
  by (cases xs rule: rev_cases) (auto simp: contig_append)

lemma contig_drop: "contig h xs \<Longrightarrow> k \<le> length xs \<Longrightarrow> contig (h + int k) (drop k xs)"
  using contig_append [of h "take k xs" "drop k xs"] by simp

lemma contig_take: "contig h xs \<Longrightarrow> contig h (take k xs)"
  using contig_append [of h "take k xs" "drop k xs"] by simp

lemma contig_above: "contig h xs \<Longrightarrow> b \<in> set xs \<Longrightarrow> h \<le> hh_height b"
  by (induction xs arbitrary: h) fastforce+

lemma contig_filter_below: "contig h xs \<Longrightarrow> filter (\<lambda>b. hh_height b < h + int n) xs = take n xs"
proof (induction xs arbitrary: h n)
  case (Cons x xs)
  then show ?case using Cons.IH [of "h + 1" "n - 1"] by (cases n) (auto simp: ac_simps filter_empty_conv dest: contig_above)
qed simp

lemma contig_filter_above: "contig h xs \<Longrightarrow> filter (\<lambda>b. hh_height b \<ge> h + int n) xs = drop n xs"
proof (induction xs arbitrary: h n)
  case (Cons x xs)
  show ?case
  proof (cases n)
    case 0
    then show ?thesis using Cons.prems contig_above [OF Cons.prems] by (auto simp: filter_id_conv)
  next
    case (Suc m)
    then show ?thesis using Cons.IH [of "h + 1" m] Cons.prems by (simp add: ac_simps)
  qed
qed simp

lemma contiguous_drop: "contiguous chain \<Longrightarrow> k < length chain \<Longrightarrow> contiguous (drop k chain)"
  using contig_drop [of "hh_height (hd chain)" chain k] contig_nth [of "hh_height (hd chain)" chain k]
  by (simp add: contiguous_def hd_drop_conv_nth)

section \<open>The source of the blocks\<close>

text \<open>A coherent source returns the blocks it is asked for, and its streams have no gaps in their heights.\<close>

abbreviation header_ref :: "('b, 'w) hot_options \<Rightarrow> 'b \<Rightarrow> hash_height" where
  "header_ref opts b \<equiv> as_ref (ho_getHeader opts b)"

definition new_blocks :: "('b, 'w) hot_options \<Rightarrow> hash_height \<Rightarrow> 'b list \<Rightarrow> bool" where
  "new_blocks opts base bs \<longleftrightarrow> bs \<noteq> [] \<and> getParent (ho_getHeader opts (hd bs)) = base \<and>
     contig (hh_height base + 1) (map (header_ref opts) bs)"

definition coherent :: "('b, 'w) hot_options \<Rightarrow> bool" where
  "coherent opts \<longleftrightarrow> (\<forall>ref b. ho_getBlock opts ref = Inr b \<longrightarrow> header_ref opts b = ref) \<and>
     (\<forall>from ref bs. bs \<in> set (fst (ho_getBlockRange opts from ref)) \<longrightarrow>
        (bs = [] \<or> new_blocks opts (getParent (ho_getHeader opts (hd bs))) bs))"

lemma new_blocks_fetched:
  assumes "coherent opts" "new_blocks opts head bs" "ho_getBlock opts head = Inr b"
  shows "new_blocks opts (getParent (ho_getHeader opts b)) (b # bs)" "hh_height (getParent (ho_getHeader opts b)) = hh_height head - 1"
proof -
  have "header_ref opts b = head" using assms(1,3) by (simp add: coherent_def)
  then have "hh_height (ho_getHeader opts b) = hh_height head" by (auto simp: as_ref_def)
  then show "new_blocks opts (getParent (ho_getHeader opts b)) (b # bs)"
    "hh_height (getParent (ho_getHeader opts b)) = hh_height head - 1"
    using assms(2) by (auto simp: new_blocks_def getParent_def as_ref_def)
qed

lemma fetch_gap_ok:
  "fetch_gap opts m l head bs = Inr (head', bs') \<Longrightarrow> coherent opts \<Longrightarrow> new_blocks opts head bs \<Longrightarrow>
    new_blocks opts head' bs' \<and> hh_height head' \<le> hh_height head"
proof (induction opts m l head bs rule: fetch_gap.induct)
  case (1 opts m l head bs)
  show ?case
  proof (cases "l < hh_height head")
    case False
    then show ?thesis using "1.prems" fetch_gap.simps [of opts m l head bs] by simp
  next
    case True
    obtain m' b where m: "m = Suc m'" and b: "ho_getBlock opts head = Inr b"
      "fetch_gap opts m' l (getParent (ho_getHeader opts b)) (b # bs) = Inr (head', bs')"
      using "1.prems"(1) True fetch_gap.simps [of opts m l head bs] by (auto simp: result_simps split: nat.splits)
    note n = new_blocks_fetched [OF "1.prems"(2,3) b(1)]
    show ?thesis using "1.IH" [OF True m b(1,2) "1.prems"(2) n(1)] n(2) by simp
  qed
qed

lemma fetch_fork_ok:
  "fetch_fork opts r head bs = Inr (r', bs') \<Longrightarrow> coherent opts \<Longrightarrow> new_blocks opts head bs \<Longrightarrow>
    contig h (rev r) \<Longrightarrow> hh_height (hd r) = hh_height head \<Longrightarrow>
    (\<exists>ps. r = ps @ r') \<and> r' \<noteq> [] \<and> new_blocks opts (hd r') bs'"
proof (induction r arbitrary: head bs)
  case (Cons lst rest)
  show ?case
  proof (cases "hh_hash lst = hh_hash head")
    case True
    then have "lst = head" using Cons.prems(5) by simp
    then show ?thesis using Cons.prems True by auto
  next
    case False
    obtain b where b: "ho_getBlock opts head = Inr b"
      "fetch_fork opts rest (getParent (ho_getHeader opts b)) (b # bs) = Inr (r', bs')"
      using Cons.prems(1) False by (auto simp: result_simps)
    note n = new_blocks_fetched [OF Cons.prems(2,3) b(1)]
    obtain l2 rest2 where r: "rest = l2 # rest2" using b(2) by (cases rest) auto
    have "hh_height (hd rest) = hh_height (getParent (ho_getHeader opts b))"
      using Cons.prems(4,5) n(2) by (auto simp: r contig_append)
    moreover have "contig h (rev rest)" using Cons.prems(4) by (simp add: contig_append)
    ultimately show ?thesis using Cons.IH [OF b(2) Cons.prems(2) n(1)] by (metis append_Cons)
  qed
qed simp

text \<open>The base is on the chain, and the blocks above it extend it without a gap.\<close>

lemma find_base_ok:
  assumes "find_base opts blocks chain = Inr (bs, chain')" "coherent opts" "contiguous chain"
    "blocks \<noteq> []" "new_blocks opts (getParent (ho_getHeader opts (hd blocks))) blocks"
  shows "\<exists>k. 0 < k \<and> k \<le> length chain \<and> chain' = take k chain @ map (header_ref opts) bs \<and>
    new_blocks opts (last (take k chain)) bs"
proof -
  let ?h = "hh_height (hd chain)" and ?head = "getParent (ho_getHeader opts (hd blocks))"
  have c: "contig ?h chain" "chain \<noteq> []" using assms(3) by (auto simp: contiguous_def)
  have f: "first_of blocks = Inr (hd blocks)" "first_of chain = Inr (hd chain)"
    using assms(4) c(2) by (auto simp: first_of_def split: list.splits)
  define known where "known = js_slice chain 0 (nat (hh_height ?head - ?h + 1))"
  obtain head bs1 r where known: "known \<noteq> []" "hh_height (last known) = hh_height head"
    and gap: "fetch_gap opts (ho_memory opts) (hh_height (last known)) ?head blocks = Inr (head, bs1)"
    and fork: "fetch_fork opts (rev known) head bs1 = Inr (r, bs)" and chain': "chain' = rev r @ map (header_ref opts) bs"
    using assms(1) unfolding find_base_def f rbind_Inr Let_def unfolding known_def [symmetric]
    by (auto simp: rbind_eq_Inr split: prod.splits if_splits)
  have take: "\<exists>n. known = take n chain" unfolding known_def js_slice_def by auto
  have n: "new_blocks opts head bs1" using fetch_gap_ok [OF gap assms(2,5)] by simp
  have "contig ?h (rev (rev known))" using take contig_take [OF c(1)] by auto
  moreover have "hh_height (hd (rev known)) = hh_height head" using known by (simp add: hd_rev)
  ultimately obtain ps where r: "rev known = ps @ r" "r \<noteq> []" "new_blocks opts (hd r) bs"
    using fetch_fork_ok [OF fork assms(2) n] by blast
  from r(1) have "known = rev r @ rev ps" by (metis rev_append rev_rev_ident)
  then have "rev r = take (length r) known" by simp
  then obtain m where "rev r = take m chain" using take by (metis take_take)
  then have e: "rev r = take (min m (length chain)) chain" by (metis min.commute take_all_iff take_take nat_le_linear order_refl)
  have "0 < min m (length chain)" using e r(2) by (cases "min m (length chain)") auto
  moreover have "last (rev r) = hd r" using r(2) by (simp add: last_rev)
  ultimately show ?thesis using e r(3) chain' by (intro exI [of _ "min m (length chain)"]) auto
qed

lemma hot_finalize_ok:
  assumes "hot_finalize opts fin chain = (fin', Inr chain')" "chain \<noteq> []"
  shows "\<exists>k < length chain. chain' = drop k chain"
proof (cases fin)
  case None
  then show ?thesis using assms by (auto simp: hot_finalize_def intro!: exI [of _ 0])
next
  case (Some f)
  then obtain f' h where "trim_finalized f' h chain = Inr chain'"
    using assms(1) by (auto simp: hot_finalize_def split: sum.splits)
  moreover obtain c0 cs where "chain = c0 # cs" using assms(2) by (cases chain) auto
  ultimately have "chain' = chain \<or> h - hh_height c0 < int (length chain) \<and> chain' = drop (nat (h - hh_height c0)) chain"
    by (auto simp: trim_finalized_def first_of_def Let_def result_simps split: if_splits)
  then show ?thesis
  proof
    assume "chain' = chain"
    then show ?thesis using assms(2) by (intro exI [of _ 0]) simp
  next
    assume a: "h - hh_height c0 < int (length chain) \<and> chain' = drop (nat (h - hh_height c0)) chain"
    then have "nat (h - hh_height c0) < length chain" using assms(2) by (cases "0 \<le> h - hh_height c0") (auto simp: nat_less_iff)
    then show ?thesis using a by blast
  qed
qed

text \<open>Every block that a source serves has a property.\<close>

definition all_blocks :: "('b, 'w) hot_options \<Rightarrow> ('b \<Rightarrow> bool) \<Rightarrow> bool" where
  "all_blocks opts fits \<longleftrightarrow> (\<forall>ref b. ho_getBlock opts ref = Inr b \<longrightarrow> fits b) \<and>
     (\<forall>from ref bs. bs \<in> set (fst (ho_getBlockRange opts from ref)) \<longrightarrow> list_all fits bs)"

lemma fetch_gap_fits:
  "fetch_gap opts m l head bs = Inr (head', bs') \<Longrightarrow> all_blocks opts fits \<Longrightarrow> list_all fits bs \<Longrightarrow> list_all fits bs'"
proof (induction opts m l head bs rule: fetch_gap.induct)
  case (1 opts m l head bs)
  show ?case
  proof (cases "l < hh_height head")
    case False
    then show ?thesis using "1.prems" fetch_gap.simps [of opts m l head bs] by simp
  next
    case True
    obtain m' b where m: "m = Suc m'" and b: "ho_getBlock opts head = Inr b"
      "fetch_gap opts m' l (getParent (ho_getHeader opts b)) (b # bs) = Inr (head', bs')"
      using "1.prems"(1) True fetch_gap.simps [of opts m l head bs] by (auto simp: result_simps split: nat.splits)
    have "fits b" using b(1) "1.prems"(2) unfolding all_blocks_def by blast
    then show ?thesis using "1.IH" [OF True m b(1,2) "1.prems"(2)] "1.prems"(3) by simp
  qed
qed

lemma fetch_fork_fits:
  "fetch_fork opts r head bs = Inr (r', bs') \<Longrightarrow> all_blocks opts fits \<Longrightarrow> list_all fits bs \<Longrightarrow> list_all fits bs'"
proof (induction r arbitrary: head bs)
  case (Cons lst rest)
  show ?case
  proof (cases "hh_hash lst = hh_hash head")
    case False
    then obtain b where b: "ho_getBlock opts head = Inr b"
      "fetch_fork opts rest (getParent (ho_getHeader opts b)) (b # bs) = Inr (r', bs')"
      using Cons.prems(1) by (auto simp: result_simps)
    have "fits b" using b(1) Cons.prems(2) unfolding all_blocks_def by blast
    then show ?thesis using Cons.IH [OF b(2) Cons.prems(2)] Cons.prems(3) by simp
  qed (use Cons.prems in auto)
qed simp

lemma find_base_fits:
  assumes "find_base opts blocks chain = Inr (bs, chain')" "all_blocks opts fits" "list_all fits blocks"
  shows "list_all fits bs"
  using assms(1) fetch_gap_fits [OF _ assms(2,3)] fetch_fork_fits [OF _ assms(2)]
  unfolding find_base_def Let_def by (auto simp: rbind_eq_Inr split: prod.splits)

section \<open>What a consumer makes of the updates\<close>

text \<open>A consumer keeps a chain too: it rolls back to the base, adds the blocks and forgets what is below
  the finalized head.\<close>

definition replay :: "('b \<Rightarrow> block_header) \<Rightarrow> 'b hot_update \<Rightarrow> hash_height list \<Rightarrow> hash_height list option" where
  "replay hdr u chain =
     (if up_baseHead u \<in> set chain
      then let c = filter (\<lambda>b. hh_height b < hh_height (up_baseHead u) + 1) chain @ map (\<lambda>b. as_ref (hdr b)) (up_blocks u)
           in if up_finalizedHead u \<in> set c then Some (filter (\<lambda>b. hh_height b \<ge> hh_height (up_finalizedHead u)) c)
              else None
      else None)"

fun replays :: "('b \<Rightarrow> block_header) \<Rightarrow> 'b hot_update list \<Rightarrow> hash_height list \<Rightarrow> hash_height list option" where
  "replays hdr [] chain = Some chain"
| "replays hdr (u # us) chain = Option.bind (replay hdr u chain) (replays hdr us)"

lemma replays_append: "replays hdr (us @ vs) c = Option.bind (replays hdr us c) (replays hdr vs)"
  by (induction us arbitrary: c) (auto split: Option.bind_splits)

lemma replay_ok:
  assumes "contiguous chain" "0 < k" "k \<le> length chain" "up_baseHead u = last (take k chain)"
    and "chain' = take k chain @ map (\<lambda>b. as_ref (hdr b)) (up_blocks u)" "contiguous chain'" "j < length chain'"
    and "up_finalizedHead u = chain' ! j"
  shows "replay hdr u chain = Some (drop j chain')"
proof -
  let ?h = "hh_height (hd chain)"
  have c: "contig ?h chain" "chain \<noteq> []" using assms(1) by (auto simp: contiguous_def)
  have t: "take k chain \<noteq> []" using assms(2) c(2) by simp
  have base: "hh_height (last (take k chain)) + 1 = ?h + int k"
    using contig_last [OF contig_take [OF c(1)] t] assms(3) by (simp add: min_def)
  have "last (take k chain) \<in> set chain" using last_in_set [OF t] by (auto dest: in_set_takeD)
  moreover have below: "filter (\<lambda>b. hh_height b < hh_height (up_baseHead u) + 1) chain = take k chain"
    unfolding assms(4) base by (rule contig_filter_below [OF c(1)])
  have c': "contig (hh_height (hd chain')) chain'" using assms(6) by (simp add: contiguous_def)
  have "filter (\<lambda>b. hh_height b \<ge> hh_height (chain' ! j)) chain' = drop j chain'"
    unfolding contig_nth [OF c' assms(7)] by (rule contig_filter_above [OF c'])
  moreover have "chain' ! j \<in> set chain'" using assms(7) by simp
  ultimately show ?thesis
    unfolding replay_def below Let_def assms(8) unfolding assms(4) assms(5) [symmetric] by simp
qed

lemma update_replays:
  assumes "contiguous chain" "0 < k" "k \<le> length chain" "up_baseHead u = last (take k chain)"
    and "chain' = take k chain @ map (\<lambda>b. as_ref (hdr b)) (up_blocks u)"
    and "contig (hh_height (last (take k chain)) + 1) (map (\<lambda>b. as_ref (hdr b)) (up_blocks u))"
    and "j < length chain'" "up_finalizedHead u = hd (drop j chain')"
  shows "replay hdr u chain = Some (drop j chain') \<and> contiguous (drop j chain') \<and> hh_height (hd chain) \<le> hh_height (hd (drop j chain'))"
proof -
  let ?h = "hh_height (hd chain)"
  have c: "contig ?h chain" "chain \<noteq> []" using assms(1) by (auto simp: contiguous_def)
  have t: "take k chain \<noteq> []" using assms(2) c(2) by simp
  have hd': "hd chain' = hd chain" using t assms(5) c(2) assms(2) by (simp add: hd_append)
  have "contig ?h chain'"
    unfolding assms(5) contig_append using contig_take [OF c(1)] contig_last [OF contig_take [OF c(1)] t] assms(6) by simp
  then have c': "contiguous chain'" using hd' t by (simp add: contiguous_def assms(5))
  have "replay hdr u chain = Some (drop j chain')"
    using assms(8) hd_drop_conv_nth [OF assms(7)] by (intro replay_ok [OF assms(1-5) c' assms(7)]) simp
  moreover have "hh_height (hd chain) \<le> hh_height (hd (drop j chain'))"
    using contig_nth [OF \<open>contig ?h chain'\<close> assms(7)] hd_drop_conv_nth [OF assms(7)] by simp
  ultimately show ?thesis using contiguous_drop [OF c' assms(7)] by blast
qed

section \<open>Consumers that mirror the chain\<close>

text \<open>Callers go on with the next heads, also after an exception.\<close>

fun navigate :: "('b, 'w) hot_options \<Rightarrow> chain_heads list \<Rightarrow> hot_processor \<times> 'w \<Rightarrow> hot_processor \<times> 'w" where
  "navigate opts [] s = s"
| "navigate opts (heads # rest) s = navigate opts rest (snd (goto opts heads s))"

text \<open>The contract of a consumer: \<open>mirrors c w\<close> says that its state \<open>w\<close> stands for the chain \<open>c\<close>. When it takes
  an update of blocks that fit it, its state stands for the chain after the update.\<close>

locale chain_consumer =
  fixes process :: "'b hot_update \<Rightarrow> 'w \<Rightarrow> 'w result"
    and hdr :: "'b \<Rightarrow> block_header"
    and fits :: "'b \<Rightarrow> bool"
    and mirrors :: "hash_height list \<Rightarrow> 'w \<Rightarrow> bool"
  assumes consumes: "mirrors c w \<Longrightarrow> contiguous c \<Longrightarrow> list_all fits (up_blocks u) \<Longrightarrow> process u w = Inr w' \<Longrightarrow>
    replay hdr u c = Some c' \<Longrightarrow> contiguous c' \<Longrightarrow> hh_height (hd c) \<le> hh_height (hd c') \<Longrightarrow> mirrors c' w'"
begin

text \<open>The processor serves this consumer from a source of blocks that fit.\<close>

definition serving :: "('b, 'w) hot_options \<Rightarrow> bool" where
  "serving opts \<longleftrightarrow> coherent opts \<and> all_blocks opts fits \<and> ho_process opts = process \<and> ho_getHeader opts = hdr"

definition mirrored :: "hot_processor \<times> 'w \<Rightarrow> bool" where
  "mirrored s \<longleftrightarrow> contiguous (hp_chain (fst s)) \<and> mirrors (hp_chain (fst s)) (snd s)"

lemma moveToBlocks_mirrored:
  assumes "serving opts" "mirrored (p, w)" "list_all fits blocks"
    and "blocks = [] \<or> new_blocks opts (getParent (ho_getHeader opts (hd blocks))) blocks"
    and "moveToBlocks opts blocks (p, w) = (res, s')"
  shows "mirrored s'"
proof -
  have o: "coherent opts" "all_blocks opts fits" "ho_process opts = process" "ho_getHeader opts = hdr"
    using assms(1) by (simp_all add: serving_def)
  have c: "contiguous (hp_chain p)" "mirrors (hp_chain p) w" using assms(2) by (simp_all add: mirrored_def)
  show ?thesis
  proof (cases "blocks = [] \<or> (\<exists>e. find_base opts blocks (hp_chain p) = Inl e)")
    case True
    then show ?thesis using assms(2,5) by (auto simp: moveToBlocks_def split: if_splits)
  next
    case False
    then obtain bs chain where base: "find_base opts blocks (hp_chain p) = Inr (bs, chain)"
      by (cases "find_base opts blocks (hp_chain p)") auto
    obtain fin r where fin: "hot_finalize opts (hp_finalizedHead p) chain = (fin, r)" by (cases "hot_finalize opts (hp_finalizedHead p) chain")
    obtain k where k: "0 < k" "k \<le> length (hp_chain p)" "chain = take k (hp_chain p) @ map (\<lambda>b. as_ref (hdr b)) bs"
      "new_blocks opts (last (take k (hp_chain p))) bs"
      using find_base_ok [OF base o(1) c(1)] False assms(4) o(4) by blast
    show ?thesis
    proof (cases r)
      case (Inl e)
      then show ?thesis using assms(2,5) False base fin by (auto simp: moveToBlocks_def mirrored_def)
    next
      case (Inr chain')
      have "chain \<noteq> []" using k by auto
      then obtain j where j: "j < length chain" "chain' = drop j chain"
        using hot_finalize_ok [OF fin [unfolded Inr]] by blast
      obtain b bs' where bs: "bs = b # bs'" using k(4) by (cases bs) (auto simp: new_blocks_def)
      let ?u = "\<lparr>up_blocks = bs, up_baseHead = getParent (hdr b), up_finalizedHead = hd chain'\<rparr>"
      have f: "replay hdr ?u (hp_chain p) = Some (drop j chain) \<and> contiguous (drop j chain) \<and>
          hh_height (hd (hp_chain p)) \<le> hh_height (hd (drop j chain))"
        using k j bs o(4) by (intro update_replays [OF c(1) k(1,2)]) (auto simp: new_blocks_def)
      show ?thesis
      proof (cases "process ?u w")
        case (Inl e)
        then show ?thesis using assms(2,5) False base fin Inr bs o(3,4) by (auto simp: moveToBlocks_def mirrored_def Let_def)
      next
        case acc: (Inr w')
        have "mirrors (drop j chain) w'"
          using consumes [OF c(2,1) _ acc] f find_base_fits [OF base o(2) assms(3)] by simp
        then show ?thesis
          using assms(5) False base fin Inr bs acc f j(2) o(3,4) by (auto simp: moveToBlocks_def mirrored_def Let_def)
      qed
    qed
  qed
qed

lemma move_all_mirrored:
  "serving opts \<Longrightarrow> mirrored s \<Longrightarrow>
    \<forall>bs \<in> set batches. list_all fits bs \<and> (bs = [] \<or> new_blocks opts (getParent (ho_getHeader opts (hd bs))) bs) \<Longrightarrow>
    move_all opts batches e s = (res, s') \<Longrightarrow> mirrored s'"
proof (induction batches arbitrary: s)
  case (Cons bs batches)
  obtain p w where s: "s = (p, w)" by (cases s)
  obtain r s1 where m: "moveToBlocks opts bs (p, w) = (r, s1)" by (cases "moveToBlocks opts bs (p, w)")
  have f: "mirrored s1" using moveToBlocks_mirrored [OF Cons.prems(1) _ _ _ m] Cons.prems(2,3) s by simp
  then show ?case using Cons.IH [OF Cons.prems(1) f] Cons.prems(3,4) m s by (auto split: sum.splits)
qed auto

lemma goto_mirrored:
  assumes "serving opts" "mirrored (p, w)" "goto opts heads (p, w) = (res, p', w')"
  shows "mirrored (p', w')"
proof -
  let ?p = "p\<lparr>hp_finalizedHead := Some (heads_finalized heads)\<rparr>"
  let ?chain = "hp_chain p"
  let ?ahead = "case (ref_height (heads_finalized heads), ref_height (heads_best heads)) of (Some f, Some b) \<Rightarrow> f > b | _ \<Rightarrow> False"
  have o: "coherent opts" "all_blocks opts fits" "ho_process opts = process" "ho_getHeader opts = hdr"
    using assms(1) by (simp_all add: serving_def)
  have c: "contiguous ?chain" "mirrors ?chain w" using assms(2) by (simp_all add: mirrored_def)
  have same: ?thesis if "hp_chain p' = ?chain" "w' = w" using that c by (simp add: mirrored_def)
  note g = assms(3) [unfolded goto_def Let_def prod.case]
  show ?thesis
  proof (cases "?ahead \<or> (\<exists>e. isKnownBlock (heads_best heads) ?chain = Inl e)")
    case True
    then show ?thesis using g same by (auto split: if_splits)
  next
    case False
    then obtain known where k: "isKnownBlock (heads_best heads) ?chain = Inr known" "\<not> ?ahead"
      by (cases "isKnownBlock (heads_best heads) ?chain") auto
    show ?thesis
    proof (cases known)
      case True
      obtain fin r where fin: "hot_finalize opts (Some (heads_finalized heads)) ?chain = (fin, r)" by fastforce
      show ?thesis
      proof (cases r)
        case (Inl e)
        then show ?thesis using g k True fin same by auto
      next
        case (Inr chain)
        let ?u = "\<lparr>up_blocks = [], up_baseHead = last chain, up_finalizedHead = hd chain\<rparr>"
        have ne: "?chain \<noteq> []" using c(1) by (simp add: contiguous_def)
        obtain j where j: "j < length ?chain" "chain = drop j ?chain"
          using hot_finalize_ok [OF fin [unfolded Inr] ne] by blast
        have f: "replay hdr ?u ?chain = Some (drop j ?chain) \<and> contiguous (drop j ?chain) \<and>
            hh_height (hd ?chain) \<le> hh_height (hd (drop j ?chain))"
          using j ne by (intro update_replays [OF c(1), of "length ?chain"]) auto
        show ?thesis
        proof (cases "hh_height (hd chain) = hh_height (hd ?chain) \<or> (\<exists>e. process ?u w = Inl e)")
          case True
          then show ?thesis using g k \<open>known\<close> fin Inr same o(3) by (auto split: if_splits)
        next
          case False
          then obtain w1 where acc: "process ?u w = Inr w1" "hh_height (hd chain) \<noteq> hh_height (hd ?chain)"
            by (cases "process ?u w") auto
          then have "mirrors (drop j ?chain) w1" using consumes [OF c(2,1) _ acc(1)] f by simp
          moreover have "hp_chain p' = chain" "w' = w1" using g k \<open>known\<close> fin Inr acc o(3) by auto
          ultimately show ?thesis using f j(2) by (simp add: mirrored_def)
        qed
      qed
    next
      case False
      obtain h where h: "getHeight ?p = Inr h" using c(1) by (auto simp: getHeight_def contiguous_def result_simps)
      obtain batches e where r: "ho_getBlockRange opts (h + 1) (heads_best heads) = (batches, e)" by fastforce
      have "move_all opts batches e (?p, w) = (res, p', w')" using g k False h r by simp
      moreover have "\<forall>bs \<in> set batches. list_all fits bs \<and> (bs = [] \<or> new_blocks opts (getParent (ho_getHeader opts (hd bs))) bs)"
        using o(1,2) r unfolding coherent_def all_blocks_def by (metis fst_conv)
      moreover have "mirrored (?p, w)" using c by (simp add: mirrored_def)
      ultimately show ?thesis using move_all_mirrored [OF assms(1)] by blast
    qed
  qed
qed

lemma navigate_mirrored: "serving opts \<Longrightarrow> mirrored s \<Longrightarrow> mirrored (navigate opts hs s)"
proof (induction hs arbitrary: s)
  case (Cons heads hs)
  obtain p w where s: "s = (p, w)" by (cases s)
  obtain r p1 w1 where g: "goto opts heads (p, w) = (r, p1, w1)" by (cases "goto opts heads (p, w)") auto
  have "mirrored (p1, w1)" using goto_mirrored [OF Cons.prems(1) _ g] Cons.prems(2) s by simp
  then show ?case using Cons.IH [OF Cons.prems(1)] s g by simp
qed simp

end

text \<open>A consumer that writes the updates down, and may refuse any of them, mirrors the chain: it has what
  the updates make of the first chain \<open>c0\<close>.\<close>

definition recorder :: "('b hot_update \<Rightarrow> 'b hot_update list \<Rightarrow> bool) \<Rightarrow> 'b hot_update \<Rightarrow> 'b hot_update list \<Rightarrow> 'b hot_update list result" where
  "recorder accepts u us = (if accepts u us then Inr (us @ [u]) else Inl AssertionError)"

interpretation recorded: chain_consumer "recorder accepts" hdr "\<lambda>b. True"
  "\<lambda>c us. replays hdr us c0 = Some c \<and> hh_height (hd c0) \<le> hh_height (hd c)" for accepts hdr c0
  by unfold_locales (auto simp: recorder_def replays_append split: if_splits)

text \<open>C6: The updates of a hot processor tell its consumer all there is to know: whatever heads it is sent to
  and whatever exceptions there are on the way, a consumer that follows the accepted updates, rolling
  back to their bases, has the chain of the processor, which has no gaps and never loses finality.\<close>

theorem hot_updates_replay:
  assumes "coherent opts" "ho_process opts = recorder accepts" "contiguous (hp_chain p)" "navigate opts hs (p, []) = (p', us)"
  shows "replays (ho_getHeader opts) us (hp_chain p) = Some (hp_chain p') \<and> contiguous (hp_chain p') \<and>
    hh_height (hd (hp_chain p)) \<le> hh_height (hd (hp_chain p'))"
proof -
  have "recorded.serving accepts (ho_getHeader opts) opts"
    using assms(1,2) by (simp add: recorded.serving_def all_blocks_def list_all_iff)
  moreover have "recorded.mirrored (ho_getHeader opts) (hp_chain p) (p, [])" using assms(3) by (simp add: recorded.mirrored_def)
  ultimately show ?thesis
    using recorded.navigate_mirrored [of accepts "ho_getHeader opts" opts "hp_chain p" "(p, [])" hs] assms(4)
    by (simp add: recorded.mirrored_def)
qed

text \<open>A source with a fork at height 12: \<open>find\<close> over a list of headers.\<close>

abbreviation test_hdr :: "int \<Rightarrow> string \<Rightarrow> string \<Rightarrow> block_header" where
  "test_hdr n h p \<equiv> \<lparr>hh_height = n, hh_hash = js h, bh_parentHash = js p\<rparr>"

definition table_source :: "block_header list \<Rightarrow> block_header list \<Rightarrow> (block_header, block_header hot_update list) hot_options" where
  "table_source table answer =
     \<lparr>ho_process = recorder (\<lambda>u us. True),
      ho_getBlock = (\<lambda>ref. of_option DataConsistencyError (find (\<lambda>b. as_ref b = ref) table)),
      ho_getBlockRange = (\<lambda>from ref. ([answer], None)),
      ho_getHeader = (\<lambda>b. b), ho_getFinalizedBlockHeight = None, ho_memory = 10\<rparr>"

lemma table_source_ok:
  "answer = [] \<or> contig (hh_height (hd answer)) (map as_ref answer) \<Longrightarrow>
    coherent (table_source table answer) \<and> ho_process (table_source table answer) = recorder (\<lambda>u us. True)"
  by (auto simp: coherent_def table_source_def new_blocks_def getParent_def find_Some_iff)

definition fork_source :: "(block_header, block_header hot_update list) hot_options" where
  "fork_source = table_source [test_hdr 11 ''b'' ''a'', test_hdr 12 ''c'' ''b'', test_hdr 12 ''d'' ''b''] [test_hdr 13 ''e'' ''d'']"

definition fork_heads :: chain_heads where
  "fork_heads = \<lparr>heads_best = Ref (Some 13) (Some (js ''e'')), heads_finalized = Ref (Some 11) (Some (js ''b''))\<rparr>"

definition fork_start :: hot_processor where
  "fork_start = \<lparr>hp_chain = [\<lparr>hh_height = 10, hh_hash = js ''a''\<rparr>, \<lparr>hh_height = 11, hh_hash = js ''b''\<rparr>, \<lparr>hh_height = 12, hh_hash = js ''c''\<rparr>],
     hp_finalizedHead = None\<rparr>"

lemma fork_run:
  "navigate fork_source [fork_heads, fork_heads] (fork_start, []) =
    (\<lparr>hp_chain = [\<lparr>hh_height = 11, hh_hash = js ''b''\<rparr>, \<lparr>hh_height = 12, hh_hash = js ''d''\<rparr>, \<lparr>hh_height = 13, hh_hash = js ''e''\<rparr>],
      hp_finalizedHead = Some (heads_finalized fork_heads)\<rparr>,
     [\<lparr>up_blocks = [test_hdr 12 ''d'' ''b'', test_hdr 13 ''e'' ''d''], up_baseHead = \<lparr>hh_height = 11, hh_hash = js ''b''\<rparr>,
       up_finalizedHead = \<lparr>hh_height = 11, hh_hash = js ''b''\<rparr>\<rparr>])"
  by code_simp

theorem hot_updates_replay_witness:
  "\<exists>p' us. navigate fork_source [fork_heads, fork_heads] (fork_start, []) = (p', us) \<and> length us = 1 \<and>
     replays (ho_getHeader fork_source) us (hp_chain fork_start) = Some (hp_chain p') \<and> contiguous (hp_chain p')"
proof -
  have "coherent fork_source \<and> ho_process fork_source = recorder (\<lambda>u us. True)"
    unfolding fork_source_def by (rule table_source_ok) (simp add: as_ref_def)
  moreover have "contiguous (hp_chain fork_start)" by (simp add: contiguous_def fork_start_def)
  ultimately show ?thesis using hot_updates_replay [OF _ _ _ fork_run] fork_run by auto
qed

text \<open>The constructor accepts a chain with gaps, which a database that groups its hot blocks returns after a
  restart, but the positions of the chain are computed from heights: sent to the very head it has, the
  processor throws an \<open>AssertionError\<close>.\<close>

theorem gapped_chain_asserts:
  "(let source = table_source [] [test_hdr 13 ''d'' ''c''];
        heads = \<lparr>heads_best = Ref (Some 13) (Some (js ''d'')), heads_finalized = Ref (Some 10) None\<rparr>
    in case hot_new \<lparr>hh_height = 10, hh_hash = js ''a''\<rparr> [\<lparr>hh_height = 13, hh_hash = js ''d''\<rparr>] of
         Inl e \<Rightarrow> False
       | Inr p \<Rightarrow> goto source heads (p, []) =
           (Inl AssertionError, p\<lparr>hp_finalizedHead := Some (heads_finalized heads)\<rparr>, []))"
  by code_simp

section \<open>Reaching the head of a network\<close>

text \<open>The source serves the blocks \<open>C h\<close> of a network from the height \<open>h0\<close> on.\<close>

definition serves :: "('b, 'w) hot_options \<Rightarrow> (int \<Rightarrow> 'b) \<Rightarrow> int \<Rightarrow> bool" where
  "serves opts C h0 \<longleftrightarrow> (\<forall>h \<ge> h0. hh_height (ho_getHeader opts (C h)) = h \<and>
     getParent (ho_getHeader opts (C (h + 1))) = header_ref opts (C h) \<and>
     ho_getBlock opts (header_ref opts (C h)) = Inr (C h))"

lemma serves_height: "serves opts C h0 \<Longrightarrow> h0 \<le> h \<Longrightarrow> hh_height (header_ref opts (C h)) = h"
  by (simp add: serves_def as_ref_def)

lemma serves_parent:
  assumes "serves opts C h0" "h0 < h"
  shows "getParent (ho_getHeader opts (C h)) = header_ref opts (C (h - 1))"
proof -
  have "h0 \<le> h - 1" using assms(2) by simp
  then have "getParent (ho_getHeader opts (C (h - 1 + 1))) = header_ref opts (C (h - 1))"
    using assms(1) unfolding serves_def by blast
  then show ?thesis by simp
qed

lemma upto_Cons: "a \<le> b \<Longrightarrow> [a..b] = a # [a + 1..b]"
  by (simp add: upto.simps [of a b])

lemma serves_linked:
  "serves opts C h0 \<Longrightarrow> h0 \<le> a \<Longrightarrow> linked_blocks (ho_getHeader opts) (map C [a..b]) = Inr ()"
proof (induction a b rule: upto.induct)
  case (1 a b)
  show ?case
  proof (cases "a + 1 \<le> b")
    case True
    then have e: "[a..b] = a # [a + 1..b]" "[a + 1..b] = (a + 1) # [a + 1 + 1..b]" by (simp_all only: upto_Cons)
    have "linked_blocks (ho_getHeader opts) (map C [a + 1..b]) = Inr ()" using "1.IH" "1.prems" True by simp
    moreover have "hh_hash (ho_getHeader opts (C a)) = bh_parentHash (ho_getHeader opts (C (a + 1)))"
      using serves_parent [OF "1.prems"(1), of "a + 1"] "1.prems"(2) by (simp add: getParent_def as_ref_def)
    ultimately show ?thesis by (simp add: e)
  next
    case False
    then have "[a..b] = [] \<or> [a..b] = [a]" using upto_Cons [of a b] by (cases "a \<le> b") auto
    then show ?thesis by auto
  qed
qed

lemma serves_gap:
  "serves opts C h0 \<Longrightarrow> h0 \<le> l \<Longrightarrow> l \<le> h \<Longrightarrow> nat (h - l) \<le> m \<Longrightarrow>
    fetch_gap opts m l (header_ref opts (C h)) bs = Inr (header_ref opts (C l), map C [l + 1..h] @ bs)"
proof (induction m arbitrary: h bs)
  case 0
  then show ?case using serves_height [of opts C h0 h] fetch_gap.simps [of opts 0 l] by simp
next
  case (Suc m)
  show ?case
  proof (cases "h = l")
    case True
    then show ?thesis using Suc.prems serves_height [of opts C h0 h] fetch_gap.simps [of opts "Suc m" l] by simp
  next
    case False
    then have "l < h" using Suc.prems by simp
    moreover have "fetch_gap opts (Suc m) l (header_ref opts (C h)) bs = fetch_gap opts m l (header_ref opts (C (h - 1))) (C h # bs)"
      using Suc.prems False serves_height [of opts C h0 h] serves_parent [of opts C h0 h] fetch_gap.simps [of opts "Suc m" l]
      by (simp add: serves_def)
    moreover have "[l + 1..h] = [l + 1..h - 1] @ [h]" using \<open>l < h\<close> by (simp add: upto_rec2)
    ultimately show ?thesis using Suc.IH [of "h - 1" "C h # bs"] Suc.prems by simp
  qed
qed

lemma serves_fork:
  "serves opts C h0 \<Longrightarrow> contig h0 (rev r) \<Longrightarrow> r \<noteq> [] \<Longrightarrow> last r = header_ref opts (C h0) \<Longrightarrow>
    hh_height (hd r) = h \<Longrightarrow>
    \<exists>r' l. fetch_fork opts r (header_ref opts (C h)) bs = Inr (r', map C [l + 1..h] @ bs) \<and> r' \<noteq> [] \<and> l \<le> h"
proof (induction r arbitrary: h bs)
  case (Cons lst rest)
  show ?case
  proof (cases "hh_hash lst = hh_hash (header_ref opts (C h))")
    case True
    then show ?thesis using Cons.prems by (intro exI [of _ "lst # rest"] exI [of _ h]) simp
  next
    case False
    then have ne: "rest \<noteq> []"
      using Cons.prems serves_height [of opts C h0 h0] by auto
    then obtain l2 rest2 where r: "rest = l2 # rest2" by (cases rest) auto
    have h: "hh_height (hd rest) = h - 1" "h0 < h"
      using Cons.prems(2,5) contig_above [of h0 "rev rest" l2] by (auto simp: r contig_append)
    obtain r' l where "fetch_fork opts rest (header_ref opts (C (h - 1))) (C h # bs) = Inr (r', map C [l + 1..h - 1] @ C h # bs)"
      "r' \<noteq> []" "l \<le> h - 1"
      using Cons.IH [of "h - 1" "C h # bs"] Cons.prems ne h by (auto simp: contig_append)
    moreover have "[l + 1..h] = [l + 1..h - 1] @ [h]" using \<open>l \<le> h - 1\<close> by (simp add: upto_rec2)
    moreover have "fetch_fork opts (lst # rest) (header_ref opts (C h)) bs = fetch_fork opts rest (header_ref opts (C (h - 1))) (C h # bs)"
      using False Cons.prems(1) h(2) serves_parent [of opts C h0 h] by (simp add: serves_def)
    ultimately show ?thesis by (intro exI [of _ r'] exI [of _ l]) simp
  qed
qed simp

lemma serves_base:
  fixes opts :: "('b, 'w) hot_options" and C :: "int \<Rightarrow> 'b"
  assumes "serves opts C h0" "contiguous chain" "hd chain = header_ref opts (C h0)" "h0 < a" "a \<le> b"
    "nat (a - 1 - hh_height (last chain)) \<le> ho_memory opts"
  shows "\<exists>bs pre. find_base opts (map C [a..b]) chain = Inr (bs, pre @ map (header_ref opts) bs) \<and> pre \<noteq> [] \<and> bs \<noteq> [] \<and> last bs = C b"
proof -
  have c: "contig h0 chain" "chain \<noteq> []" "hh_height (hd chain) = h0"
    using assms(2,3) serves_height [OF assms(1), of h0] by (auto simp: contiguous_def)
  define known where "known = js_slice chain 0 (nat (a - 1 - h0 + 1))"
  have known: "known = take (nat (a - h0)) chain" by (simp add: known_def js_slice_def)
  have ne: "known \<noteq> []" "contig h0 known" "hd known = header_ref opts (C h0)"
    using known c assms(3,4) contig_take [OF c(1)] by auto
  define l where "l = hh_height (last known)"
  have l: "l = h0 + int (length known) - 1" unfolding l_def by (rule contig_last [OF ne(2,1)])
  have lb: "h0 \<le> l" "l \<le> a - 1" "nat (a - 1 - l) \<le> ho_memory opts"
    using l ne(1) known assms(4,6) contig_last [OF c(1,2)] by (cases known; auto simp: min_def split: if_splits)+
  have gap: "fetch_gap opts (ho_memory opts) l (header_ref opts (C (a - 1))) (map C [a..b]) =
      Inr (header_ref opts (C l), map C [l + 1..a - 1] @ map C [a..b])"
    using lb by (intro serves_gap [OF assms(1)]) auto
  have "contig h0 (rev (rev known))" "rev known \<noteq> []" "last (rev known) = header_ref opts (C h0)" "hh_height (hd (rev known)) = l"
    using ne by (simp_all add: last_rev hd_rev l_def)
  from serves_fork [OF assms(1) this] obtain r l' where fork: "fetch_fork opts (rev known) (header_ref opts (C l)) (map C [l + 1..a - 1] @ map C [a..b]) =
      Inr (r, map C [l' + 1..l] @ map C [l + 1..a - 1] @ map C [a..b])" "r \<noteq> []" by blast
  have f: "first_of (map C [a..b]) = Inr (C a)" "map C [a..b] \<noteq> []"
    unfolding upto_Cons [OF assms(5)] by (simp_all add: first_of_def)
  have "[a..b] = [a..b - 1] @ [b]" using assms(5) by (simp add: upto_rec2)
  then have lst: "last (map C [a..b]) = C b" by simp
  have fc: "first_of chain = Inr (hd chain)" using c(2) by (auto simp: first_of_def split: list.splits)
  have p: "getParent (ho_getHeader opts (C a)) = header_ref opts (C (a - 1))" by (rule serves_parent [OF assms(1,4)])
  have h: "hh_height (header_ref opts (C (a - 1))) = a - 1" "hh_height (header_ref opts (C l)) = l"
    using serves_height [OF assms(1)] assms(4) lb by auto
  have "find_base opts (map C [a..b]) chain =
      Inr (map C [l' + 1..l] @ map C [l + 1..a - 1] @ map C [a..b],
        rev r @ map (header_ref opts) (map C [l' + 1..l] @ map C [l + 1..a - 1] @ map C [a..b]))"
    using serves_linked [OF assms(1), of a b] assms(4) ne(1) lb gap fork(1) h
    unfolding find_base_def f fc rbind_Inr Let_def p h c(3) known_def [symmetric]
    by (simp add: l_def [symmetric] h(2))
  moreover have "last (map C [l' + 1..l] @ map C [l + 1..a - 1] @ map C [a..b]) = C b" using f(2) lst by simp
  ultimately show ?thesis using f(2) fork(2)
    by (intro exI [of _ "map C [l' + 1..l] @ map C [l + 1..a - 1] @ map C [a..b]"] exI [of _ "rev r"]) simp
qed

lemma hot_finalize_height:
  assumes "chain \<noteq> []" "fin = None \<or> (\<exists>f. fin = Some (Ref (Some f) None))"
  shows "\<exists>k < length chain. hot_finalize opts fin chain = (fin, Inr (drop k chain))"
proof -
  obtain c0 cs where c: "chain = c0 # cs" using assms(1) by (cases chain) auto
  show ?thesis
  proof (cases fin)
    case None
    then show ?thesis using assms(1) by (auto simp: hot_finalize_def intro!: exI [of _ 0])
  next
    case (Some r)
    then obtain f where "fin = Some (Ref (Some f) None)" using assms(2) by auto
    moreover define k where "k = (if f - hh_height c0 \<ge> int (length chain) \<or> f - hh_height c0 \<le> 0 then 0 else nat (f - hh_height c0))"
    moreover have "k < length chain" using assms(1) by (auto simp: k_def nat_less_iff)
    ultimately show ?thesis
      by (intro exI [of _ k]) (auto simp: hot_finalize_def finalized_height_def trim_finalized_def first_of_def c Let_def)
  qed
qed

text \<open>C7: A batch of the network brings the processor to its last block, through any gap and any fork above the
  first block it still has: nothing is thrown when the source serves the network, the consumer takes the
  update and finality is given by height.\<close>

theorem hot_reaches_head:
  assumes "serves opts C h0" "contiguous (hp_chain p)" "hd (hp_chain p) = header_ref opts (C h0)" "h0 < a" "a \<le> b"
    and "nat (a - 1 - hh_height (last (hp_chain p))) \<le> ho_memory opts"
    and "hp_finalizedHead p = None \<or> (\<exists>f. hp_finalizedHead p = Some (Ref (Some f) None))"
    and "\<And>u. \<exists>w'. ho_process opts u w = Inr w'"
  shows "\<exists>p' w'. moveToBlocks opts (map C [a..b]) (p, w) = (Inr (), p', w') \<and> last (hp_chain p') = header_ref opts (C b)"
proof -
  obtain bs pre where base: "find_base opts (map C [a..b]) (hp_chain p) = Inr (bs, pre @ map (header_ref opts) bs)"
    "pre \<noteq> []" "bs \<noteq> []" "last bs = C b"
    using serves_base [OF assms(1-6)] by blast
  let ?chain = "pre @ map (header_ref opts) bs"
  have "?chain \<noteq> []" using base(2) by simp
  then obtain k where k: "k < length ?chain" "hot_finalize opts (hp_finalizedHead p) ?chain = (hp_finalizedHead p, Inr (drop k ?chain))"
    using hot_finalize_height [OF _ assms(7)] by blast
  have l: "last (drop k ?chain) = header_ref opts (C b)" using last_drop [OF k(1)] base(3,4) by (simp add: last_map)
  obtain c cs where bs: "bs = c # cs" using base(3) by (cases bs) auto
  obtain w' where "ho_process opts \<lparr>up_blocks = bs, up_baseHead = getParent (ho_getHeader opts c), up_finalizedHead = hd (drop k ?chain)\<rparr> w = Inr w'"
    using assms(8) by blast
  then have "moveToBlocks opts (map C [a..b]) (p, w) = (Inr (), \<lparr>hp_chain = drop k ?chain, hp_finalizedHead = hp_finalizedHead p\<rparr>, w')"
    using base(1) k(2) bs assms(5) by (simp add: moveToBlocks_def upto_Cons)
  then show ?thesis using l by simp
qed

definition plain_block :: "int \<Rightarrow> block_header" where
  "plain_block h = \<lparr>hh_height = h, hh_hash = [nat h], bh_parentHash = [nat (h - 1)]\<rparr>"

definition plain_source :: "(block_header, block_header hot_update list) hot_options" where
  "plain_source =
     \<lparr>ho_process = (\<lambda>u us. Inr (us @ [u])), ho_getBlock = (\<lambda>ref. Inr (plain_block (hh_height ref))),
      ho_getBlockRange = (\<lambda>from ref. ([], None)), ho_getHeader = (\<lambda>b. b), ho_getFinalizedBlockHeight = None, ho_memory = 10\<rparr>"

theorem hot_reaches_head_witness:
  "\<exists>p' us. moveToBlocks plain_source (map plain_block [15..16])
     (\<lparr>hp_chain = [\<lparr>hh_height = 10, hh_hash = [10]\<rparr>, \<lparr>hh_height = 11, hh_hash = [0]\<rparr>], hp_finalizedHead = None\<rparr>, []) = (Inr (), p', us) \<and>
     last (hp_chain p') = \<lparr>hh_height = 16, hh_hash = [16]\<rparr>"
proof -
  have "serves plain_source plain_block 10"
    by (simp add: serves_def plain_source_def plain_block_def getParent_def as_ref_def)
  then have "\<exists>p' us. moveToBlocks plain_source (map plain_block [15..16])
     (\<lparr>hp_chain = [\<lparr>hh_height = 10, hh_hash = [10]\<rparr>, \<lparr>hh_height = 11, hh_hash = [0]\<rparr>], hp_finalizedHead = None\<rparr>, []) = (Inr (), p', us) \<and>
     last (hp_chain p') = header_ref plain_source (plain_block 16)"
    by (rule hot_reaches_head) (simp_all add: contiguous_def plain_source_def plain_block_def as_ref_def)
  then show ?thesis by (simp add: plain_source_def plain_block_def as_ref_def)
qed

end
