(* ===== verification/Typeorm_Store.thy ===== *)
theory Typeorm_Store
  imports Util_Misc Block_Refs
begin

text \<open>
  The database of the processors, \<open>typeorm/typeorm-store/src\<close>: the tracking of changes made by hot
  blocks and their rollback (\<open>hot.ts\<close>), the store given to data handlers (\<open>store.ts\<close>), the registry
  of templates (\<open>templates.ts\<close>) and the transactions that move the indexer along the chain
  (\<open>database.ts\<close>).

  The state is that of the database: the entity tables, the status row and the tables
  \<open>hot_block\<close>, \<open>hot_change_log\<close> and \<open>template_registry\<close>. The SQL statements written in the source are
  functions on it. A row is a map from its columns other than \<open>id\<close> to values. What depends on the
  schema of the user and on the driver is a parameter, the record \<open>schema\<close>: the tables with an
  entity, the columns of each table, which have a JSON type and which are relations, the foreign
  keys, the serialisation of a value to text, the value after a trip through a \<open>jsonb\<close> column, and
  the value the database stores for a parameter. The three operations of the object-relational
  mapper that the store calls are a parameter as well, the record \<open>orm\<close>; what its documentation
  promises is \<open>orm_ok\<close>.

  A transaction runs alone, and an exception in it leaves the database as it was. A data handler is
  a tree of store operations that may read all tables before each of them.
\<close>

section \<open>Tables\<close>

type_synonym row = "jstr \<Rightarrow> jsval option"
type_synonym tables = "jstr \<Rightarrow> (jstr \<times> row) list"

record schema =
  sc_entities :: "jstr list"
  sc_columns :: "jstr \<Rightarrow> jstr list"
  sc_relations :: "jstr \<Rightarrow> jstr list"
  sc_isJson :: "jstr \<Rightarrow> jstr \<Rightarrow> bool"
  sc_fks :: "(jstr \<times> jstr \<times> jstr \<times> bool) list"
  sc_stringify :: "jsval \<Rightarrow> jstr"
  sc_json :: "jsval \<Rightarrow> jsval"
  sc_cast :: "jstr \<Rightarrow> jstr \<Rightarrow> jsval \<Rightarrow> jsval"

record entity =
  e_class :: jstr
  e_id :: jstr
  e_row :: row

record orm =
  orm_upsert :: "jstr \<Rightarrow> entity list \<Rightarrow> tables \<Rightarrow> tables result"
  orm_insert :: "jstr \<Rightarrow> entity list \<Rightarrow> tables \<Rightarrow> tables result"
  orm_delete :: "jstr \<Rightarrow> jstr list \<Rightarrow> tables \<Rightarrow> tables result"

definition unique_violation :: js_error where
  "unique_violation = ThrownError ''23505''"

definition fk_violation :: js_error where
  "fk_violation = ThrownError ''23503''"

text \<open>A foreign key is its table, its column, the table it refers to and whether it cascades.\<close>

definition refers :: "row \<Rightarrow> jstr \<Rightarrow> jstr list \<Rightarrow> bool" where
  "refers r col ids = (case r col of Some (JStr x) \<Rightarrow> x \<in> set ids | _ \<Rightarrow> False)"

definition fk_ok :: "schema \<Rightarrow> tables \<Rightarrow> bool" where
  "fk_ok sc T \<longleftrightarrow> list_all (\<lambda>(c, col, p, _). list_all (\<lambda>(j, r).
     case r col of Some (JStr i) \<Rightarrow> i \<in> fst ` set (T p) | _ \<Rightarrow> True) (T c)) (sc_fks sc)"

definition checked :: "schema \<Rightarrow> tables \<Rightarrow> tables result" where
  "checked sc T = (if fk_ok sc T then Inr T else Inl fk_violation)"

text \<open>\<open>SELECT * FROM t WHERE id = ANY(ids)\<close> and \<open>SELECT id FROM t WHERE col = ANY(ids)\<close>.\<close>

definition select_in :: "jstr \<Rightarrow> jstr list \<Rightarrow> tables \<Rightarrow> (jstr \<times> row) list" where
  "select_in t ids T = filter (\<lambda>(i, r). i \<in> set ids) (T t)"

definition select_children :: "jstr \<Rightarrow> jstr \<Rightarrow> jstr list \<Rightarrow> tables \<Rightarrow> jstr list" where
  "select_children t col ids T = map fst (filter (\<lambda>(i, r). refers r col ids) (T t))"

text \<open>\<open>INSERT INTO t (columns) VALUES (values)\<close>: columns that are not given are null, the id must be new.\<close>

definition full_row :: "schema \<Rightarrow> jstr \<Rightarrow> row \<Rightarrow> row" where
  "full_row sc t r = (\<lambda>c. if c \<in> set (sc_columns sc t)
     then Some (case r c of Some v \<Rightarrow> sc_cast sc t c v | None \<Rightarrow> JNull) else None)"

definition sql_insert :: "schema \<Rightarrow> jstr \<Rightarrow> jstr \<Rightarrow> row \<Rightarrow> tables \<Rightarrow> tables result" where
  "sql_insert sc t i r T =
     (if i \<in> fst ` set (T t) then Inl unique_violation
      else checked sc (T(t := T t @ [(i, full_row sc t r)])))"

text \<open>\<open>UPDATE t SET column = value, ... WHERE id = i\<close>.\<close>

definition set_columns :: "schema \<Rightarrow> jstr \<Rightarrow> row \<Rightarrow> row \<Rightarrow> row" where
  "set_columns sc t flds r = (\<lambda>c. case r c of None \<Rightarrow> None
     | Some v \<Rightarrow> (case flds c of Some w \<Rightarrow> Some (sc_cast sc t c w) | None \<Rightarrow> Some v))"

definition update_rows :: "schema \<Rightarrow> jstr \<Rightarrow> jstr \<Rightarrow> row \<Rightarrow> tables \<Rightarrow> tables" where
  "update_rows sc t i flds T =
     T(t := map (\<lambda>(j, r). if j = i then (j, set_columns sc t flds r) else (j, r)) (T t))"

definition sql_update :: "schema \<Rightarrow> jstr \<Rightarrow> jstr \<Rightarrow> row \<Rightarrow> tables \<Rightarrow> tables result" where
  "sql_update sc t i flds T = checked sc (update_rows sc t i flds T)"

text \<open>\<open>DELETE FROM t WHERE id = ANY(ids)\<close> removes the rows and, through the keys that cascade, the rows
  that refer to them; a key that does not cascade makes it fail.\<close>

inductive doomed :: "schema \<Rightarrow> tables \<Rightarrow> jstr \<Rightarrow> jstr list \<Rightarrow> jstr \<Rightarrow> jstr \<Rightarrow> bool" for sc T t ids where
  doomed_row: "(i, r) \<in> set (T t) \<Longrightarrow> i \<in> set ids \<Longrightarrow> doomed sc T t ids t i"
| doomed_child: "doomed sc T t ids p i \<Longrightarrow> (c, col, p, True) \<in> set (sc_fks sc) \<Longrightarrow> (j, r) \<in> set (T c) \<Longrightarrow>
    r col = Some (JStr i) \<Longrightarrow> doomed sc T t ids c j"

definition delete_rows :: "schema \<Rightarrow> jstr \<Rightarrow> jstr list \<Rightarrow> tables \<Rightarrow> tables" where
  "delete_rows sc t ids T = (\<lambda>u. filter (\<lambda>(i, r). \<not> doomed sc T t ids u i) (T u))"

definition sql_delete :: "schema \<Rightarrow> jstr \<Rightarrow> jstr list \<Rightarrow> tables \<Rightarrow> tables result" where
  "sql_delete sc t ids T = checked sc (delete_rows sc t ids T)"

section \<open>The change tracker\<close>

datatype change =
    Sentinel
  | InsertRecord jstr jstr
  | UpdateRecord jstr jstr row
  | DeleteRecord jstr jstr row

text \<open>The value that \<open>fetchEntities\<close> puts into a record: binary data as a \<open>\x\<close> literal with upper case
  digits, arrays of JSON columns as their text.\<close>

definition upper_hex :: "nat \<Rightarrow> nat" where
  "upper_hex c = (if 97 \<le> c \<and> c \<le> 102 then c - 32 else c)"

definition isJsonProp :: "schema \<Rightarrow> jstr \<Rightarrow> jstr \<Rightarrow> bool" where
  "isJsonProp sc t c = sc_isJson sc t c"

definition fetched_value :: "schema \<Rightarrow> jstr \<Rightarrow> jstr \<Rightarrow> jsval \<Rightarrow> jsval" where
  "fetched_value sc t c v =
     (case v of
        JBytes b \<Rightarrow> JStr ([92, 120] @ map upper_hex (hex_of_bytes b))
      | JArr vs \<Rightarrow> if isJsonProp sc t c then JStr (sc_stringify sc v) else v
      | _ \<Rightarrow> v)"

definition fetchEntities :: "schema \<Rightarrow> jstr \<Rightarrow> jstr list \<Rightarrow> tables \<Rightarrow> (jstr \<times> row) list" where
  "fetchEntities sc t ids T =
     map (\<lambda>(i, r). (i, \<lambda>c. map_option (fetched_value sc t c) (r c))) (select_in t ids T)"

definition trackInsert :: "jstr \<Rightarrow> entity list \<Rightarrow> change list" where
  "trackInsert t es = map (\<lambda>e. InsertRecord t (e_id e)) es"

definition trackUpsert :: "schema \<Rightarrow> jstr \<Rightarrow> entity list \<Rightarrow> tables \<Rightarrow> change list" where
  "trackUpsert sc t es T =
     (let touchedRows = map_of (rev (fetchEntities sc t (map e_id es) T))
      in map (\<lambda>e. case touchedRows (e_id e) of
           Some flds \<Rightarrow> UpdateRecord t (e_id e) flds
         | None \<Rightarrow> InsertRecord t (e_id e)) es)"

text \<open>The entry of a table in the cascade map: keys of tables without an entity are left out.\<close>

definition buildCascadeMap :: "schema \<Rightarrow> jstr \<Rightarrow> (jstr \<times> jstr) list" where
  "buildCascadeMap sc p =
     map (\<lambda>(c, col, q, _). (c, col))
       (filter (\<lambda>(c, col, q, casc). casc \<and> q = p \<and> c \<in> set (sc_entities sc)) (sc_fks sc))"

fun ofold :: "('a \<Rightarrow> 's \<Rightarrow> 's option) \<Rightarrow> 'a list \<Rightarrow> 's \<Rightarrow> 's option" where
  "ofold f [] s = Some s"
| "ofold f (x # xs) s = (case f x s of None \<Rightarrow> None | Some s' \<Rightarrow> ofold f xs s')"

text \<open>The fuel bounds the nesting of the recursion; \<open>None\<close> is running out of it.\<close>

fun collectCascadeDeletes :: "schema \<Rightarrow> nat \<Rightarrow> tables \<Rightarrow> jstr \<Rightarrow> jstr list \<Rightarrow> change list \<Rightarrow> change list option" where
  "collectCascadeDeletes sc 0 T t ids out = None"
| "collectCascadeDeletes sc (Suc n) T t ids out =
     (if ids = [] then Some out
      else case ofold (\<lambda>(c, col) out.
               let childIds = select_children c col ids T
               in if childIds = [] then Some out else collectCascadeDeletes sc n T c childIds out)
             (buildCascadeMap sc t) out of
           None \<Rightarrow> None
         | Some out1 \<Rightarrow> Some (out1 @ map (\<lambda>(i, r). DeleteRecord t i r) (fetchEntities sc t ids T)))"

text \<open>More nesting than there are rows means that rows refer to each other in a cycle: the recursion
  does not end, and neither does the transaction.\<close>

definition nesting :: "schema \<Rightarrow> tables \<Rightarrow> nat" where
  "nesting sc T = 2 + sum_list (map (\<lambda>c. length (T c)) (sc_entities sc))"

definition endless :: js_error where
  "endless = ThrownError ''does not return''"

definition trackDelete :: "schema \<Rightarrow> jstr \<Rightarrow> jstr list \<Rightarrow> tables \<Rightarrow> change list result" where
  "trackDelete sc t ids T = of_option endless (collectCascadeDeletes sc (nesting sc T) T t ids [])"

section \<open>The state of the database\<close>

record template_mutation =
  tm_add :: bool
  tm_key :: jstr
  tm_value :: jstr
  tm_blockNumber :: int

record db =
  db_tabs :: tables
  db_status :: hash_height
  db_nonce :: int
  db_hot :: "hash_height list"
  db_log :: "(int \<times> nat \<times> change) list"
  db_templates :: "(template_mutation \<times> int) list"

text \<open>A change as it is read back from its \<open>jsonb\<close> column.\<close>

definition json_change :: "schema \<Rightarrow> change \<Rightarrow> change" where
  "json_change sc ch =
     (case ch of
        UpdateRecord t i flds \<Rightarrow> UpdateRecord t i (\<lambda>c. map_option (sc_json sc) (flds c))
      | DeleteRecord t i flds \<Rightarrow> DeleteRecord t i (\<lambda>c. map_option (sc_json sc) (flds c))
      | _ \<Rightarrow> ch)"

text \<open>\<open>INSERT INTO hot_change_log\<close>: the block must have its \<open>hot_block\<close> row, the index must be new.\<close>

definition log_insert :: "(int \<times> nat \<times> change) \<Rightarrow> db \<Rightarrow> db result" where
  "log_insert l D =
     (if list_ex (\<lambda>(h, k, _). h = fst l \<and> k = fst (snd l)) (db_log D) then Inl unique_violation
      else if fst l \<notin> hh_height ` set (db_hot D) then Inl fk_violation
      else Inr (D\<lparr>db_log := db_log D @ [l]\<rparr>))"

text \<open>A tracker is the height of its block and the next index; index 0 is taken by the sentinel.\<close>

type_synonym tracker = "int \<times> nat"

definition ChangeTracker :: "int \<Rightarrow> tracker" where
  "ChangeTracker blockHeight = (blockHeight, 1)"

fun writeChangeRows :: "schema \<Rightarrow> change list \<Rightarrow> tracker \<times> db \<Rightarrow> (tracker \<times> db) result" where
  "writeChangeRows sc [] (tr, D) = Inr (tr, D)"
| "writeChangeRows sc (ch # chs) ((h, k), D) =
     rbind (log_insert (h, k, json_change sc ch) D) (\<lambda>D. writeChangeRows sc chs ((h, Suc k), D))"

definition track :: "schema \<Rightarrow> (tables \<Rightarrow> change list result) \<Rightarrow> tracker option \<times> db \<Rightarrow> (tracker option \<times> db) result" where
  "track sc f s =
     (case s of
        (None, D) \<Rightarrow> Inr s
      | (Some tr, D) \<Rightarrow>
          rbind (f (db_tabs D)) (\<lambda>chs. rbind (writeChangeRows sc chs (tr, D)) (\<lambda>(tr, D). Inr (Some tr, D))))"

section \<open>The store\<close>

datatype store_op =
    UpsertOne entity
  | Upsert "entity list"
  | InsertOne entity
  | Insert "entity list"
  | RemoveOne entity
  | RemoveMany "entity list"
  | RemoveIds jstr "jstr list"

definition on_tables :: "(tables \<Rightarrow> tables result) \<Rightarrow> tracker option \<times> db \<Rightarrow> (tracker option \<times> db) result" where
  "on_tables f s = rbind (f (db_tabs (snd s))) (\<lambda>T. Inr (fst s, (snd s)\<lparr>db_tabs := T\<rparr>))"

text \<open>The batches of \<open>splitIntoBatches\<close>; the size is positive.\<close>

fun splitIntoBatches :: "'a list \<Rightarrow> nat \<Rightarrow> 'a list list" where
  "splitIntoBatches xs m =
     (if length xs \<le> m \<or> m = 0 then [xs] else take m xs # splitIntoBatches (drop m xs) m)"

declare splitIntoBatches.simps [simp del]

fun getFkSignature_loop :: "jstr list \<Rightarrow> entity \<Rightarrow> nat \<Rightarrow> int" where
  "getFkSignature_loop [] e i = 0"
| "getFkSignature_loop (c # fk) e i =
     (if e_row e c = None then 0 else 2 ^ i) OR getFkSignature_loop fk e (Suc i)"

definition getFkSignature :: "jstr list \<Rightarrow> entity \<Rightarrow> int" where
  "getFkSignature fk e = getFkSignature_loop fk e 0"

definition upsertMany :: "orm \<Rightarrow> jstr \<Rightarrow> entity list \<Rightarrow> tables \<Rightarrow> tables result" where
  "upsertMany om t es = rfold (\<lambda>b. orm_upsert om t b) (splitIntoBatches es 1000)"

fun saveMany_loop ::
  "orm \<Rightarrow> jstr \<Rightarrow> jstr list \<Rightarrow> entity list \<Rightarrow> int \<Rightarrow> entity list \<Rightarrow> tables \<Rightarrow> tables result" where
  "saveMany_loop om t fk [] currentSignature batch T =
     (if batch \<noteq> [] then upsertMany om t batch T else Inr T)"
| "saveMany_loop om t fk (e # es) currentSignature batch T =
     (let sig = getFkSignature fk e
      in if sig = currentSignature then saveMany_loop om t fk es currentSignature (batch @ [e]) T
         else rbind (upsertMany om t batch T) (saveMany_loop om t fk es sig [e]))"

definition saveMany :: "schema \<Rightarrow> orm \<Rightarrow> jstr \<Rightarrow> entity list \<Rightarrow> tables \<Rightarrow> tables result" where
  "saveMany sc om t es T =
     rbind (js_assert (es \<noteq> [])) (\<lambda>_.
       let fk = sc_relations sc t
       in if fk = [] then upsertMany om t es T
          else saveMany_loop om t fk es (getFkSignature fk (hd es)) [] T)"

definition same_class :: "entity list \<Rightarrow> unit result" where
  "same_class es = js_assert (list_all (\<lambda>e. e_class e = e_class (hd es)) es)"

definition store_step ::
  "schema \<Rightarrow> orm \<Rightarrow> store_op \<Rightarrow> tracker option \<times> db \<Rightarrow> (tracker option \<times> db) result" where
  "store_step sc om a s =
     (case a of
        Upsert es \<Rightarrow>
          if es = [] then Inr s
          else rbind (same_class es) (\<lambda>_.
            rbind (track sc (\<lambda>T. Inr (trackUpsert sc (e_class (hd es)) es T)) s)
              (on_tables (saveMany sc om (e_class (hd es)) es)))
      | UpsertOne e \<Rightarrow>
          rbind (track sc (\<lambda>T. Inr (trackUpsert sc (e_class e) [e] T)) s)
            (on_tables (orm_upsert om (e_class e) [e]))
      | Insert es \<Rightarrow>
          if es = [] then Inr s
          else rbind (same_class es) (\<lambda>_.
            rbind (track sc (\<lambda>T. Inr (trackInsert (e_class (hd es)) es)) s)
              (on_tables (rfold (\<lambda>b. orm_insert om (e_class (hd es)) b) (splitIntoBatches es 1000))))
      | InsertOne e \<Rightarrow>
          rbind (track sc (\<lambda>T. Inr (trackInsert (e_class e) [e])) s)
            (on_tables (orm_insert om (e_class e) [e]))
      | RemoveMany es \<Rightarrow>
          if es = [] then Inr s
          else rbind (same_class es) (\<lambda>_.
            rbind (track sc (trackDelete sc (e_class (hd es)) (map e_id es)) s)
              (on_tables (orm_delete om (e_class (hd es)) (map e_id es))))
      | RemoveOne e \<Rightarrow>
          rbind (track sc (trackDelete sc (e_class e) [e_id e]) s)
            (on_tables (orm_delete om (e_class e) [e_id e]))
      | RemoveIds t ids \<Rightarrow>
          rbind (track sc (trackDelete sc t ids) s) (on_tables (orm_delete om t ids)))"

datatype handler =
    Return "template_mutation list"
  | Throw js_error
  | Do store_op "tables \<Rightarrow> handler"

primrec run_handler ::
  "schema \<Rightarrow> orm \<Rightarrow> handler \<Rightarrow> tracker option \<times> db \<Rightarrow> (template_mutation list \<times> db) result" where
  "run_handler sc om (Return tms) s = Inr (tms, snd s)"
| "run_handler sc om (Throw e) s = Inl e"
| "run_handler sc om (Do a k) s =
     rbind (store_step sc om a s) (\<lambda>s'. run_handler sc om (k (db_tabs (snd s'))) s')"

text \<open>\<open>INSERT ... ON CONFLICT DO NOTHING\<close>: the key of the registry is the whole row.\<close>

fun persist :: "int \<Rightarrow> template_mutation list \<Rightarrow> db \<Rightarrow> db" where
  "persist h [] D = D"
| "persist h (m # ms) D =
     persist h ms (if (m, h) \<in> set (db_templates D) then D
                   else D\<lparr>db_templates := db_templates D @ [(m, h)]\<rparr>)"

definition performUpdates ::
  "schema \<Rightarrow> orm \<Rightarrow> (tables \<Rightarrow> handler) \<Rightarrow> int \<Rightarrow> tracker option \<Rightarrow> db \<Rightarrow> db result" where
  "performUpdates sc om cb registryHeight tr D =
     rbind (run_handler sc om (cb (db_tabs D)) (tr, D)) (\<lambda>(tms, D). Inr (persist registryHeight tms D))"

section \<open>Rolling a block back\<close>

definition undo_change :: "schema \<Rightarrow> change \<Rightarrow> tables \<Rightarrow> tables result" where
  "undo_change sc ch T =
     (case ch of
        Sentinel \<Rightarrow> Inr T
      | InsertRecord t i \<Rightarrow> sql_delete sc t [i] T
      | UpdateRecord t i flds \<Rightarrow> sql_update sc t i flds T
      | DeleteRecord t i flds \<Rightarrow> sql_insert sc t i flds T)"

text \<open>\<open>SELECT ... FROM hot_change_log WHERE block_height = h ORDER BY index DESC\<close>.\<close>

definition block_changes :: "int \<Rightarrow> db \<Rightarrow> (nat \<times> change) list" where
  "block_changes h D = rev (sort_key fst (map snd (filter (\<lambda>l. fst l = h) (db_log D))))"

text \<open>\<open>DELETE FROM hot_block\<close>; the change log follows by its foreign key.\<close>

definition drop_hot :: "(int \<Rightarrow> bool) \<Rightarrow> db \<Rightarrow> db" where
  "drop_hot P D = D\<lparr>db_hot := filter (\<lambda>b. \<not> P (hh_height b)) (db_hot D),
     db_log := filter (\<lambda>l. \<not> (P (fst l) \<and> fst l \<in> hh_height ` set (db_hot D))) (db_log D)\<rparr>"

definition rollbackBlock :: "schema \<Rightarrow> int \<Rightarrow> db \<Rightarrow> db result" where
  "rollbackBlock sc blockHeight D =
     rbind (rfold (\<lambda>l. undo_change sc (snd l)) (block_changes blockHeight D) (db_tabs D)) (\<lambda>T.
       let D = D\<lparr>db_tabs := T\<rparr>;
           D = D\<lparr>db_templates := filter (\<lambda>(m, h). h \<noteq> blockHeight) (db_templates D)\<rparr>
       in Inr (drop_hot (\<lambda>h. h = blockHeight) D))"

section \<open>Transactions\<close>

fun assertChainContinuity :: "hash_height \<Rightarrow> hash_height list \<Rightarrow> unit result" where
  "assertChainContinuity prev [] = Inr ()"
| "assertChainContinuity prev (b # chain) =
     rbind (js_assert (hh_height b > hh_height prev)) (\<lambda>_. assertChainContinuity b chain)"

text \<open>The state: the status row and the hot blocks in the order of their heights.\<close>

definition assertStateInvariants :: "hash_height \<times> hash_height list \<Rightarrow> (hash_height \<times> hash_height list) result" where
  "assertStateInvariants st =
     rbind (js_assert (isSafeInteger (hh_height (fst st)))) (\<lambda>_.
       rbind (assertChainContinuity (fst st) (snd st)) (\<lambda>_. Inr st))"

definition getState :: "db \<Rightarrow> (hash_height \<times> hash_height list) result" where
  "getState D = assertStateInvariants (db_status D, sort_key hh_height (db_hot D))"

definition insertHotBlock :: "hash_height \<Rightarrow> db \<Rightarrow> db result" where
  "insertHotBlock b D =
     (if hh_height b \<in> hh_height ` set (db_hot D) then Inl unique_violation
      else log_insert (hh_height b, 0, Sentinel) (D\<lparr>db_hot := db_hot D @ [b]\<rparr>))"

definition deleteHotBlocks :: "int \<Rightarrow> db \<Rightarrow> db" where
  "deleteHotBlocks finalizedHeight D = drop_hot (\<lambda>h. h \<le> finalizedHeight) D"

definition updateStatus :: "int \<Rightarrow> hash_height \<Rightarrow> db \<Rightarrow> db result" where
  "updateStatus nonce nxt D =
     rbind (js_assert (db_nonce D = nonce)) (\<lambda>_.
       Inr (D\<lparr>db_status := nxt, db_nonce := db_nonce D + 1\<rparr>))"

definition transact ::
  "schema \<Rightarrow> orm \<Rightarrow> hash_height \<Rightarrow> hash_height \<Rightarrow> (tables \<Rightarrow> handler) \<Rightarrow> db \<Rightarrow> db result" where
  "transact sc om prev nxt cb D =
     rbind (getState D) (\<lambda>(st, hots).
     rbind (js_assert (hh_hash st = hh_hash prev)) (\<lambda>_.
     rbind (js_assert (hh_height st = hh_height prev)) (\<lambda>_.
     rbind (js_assert (hh_height prev < hh_height nxt)) (\<lambda>_.
     rbind (js_assert (hh_hash prev \<noteq> hh_hash nxt)) (\<lambda>_.
     rbind (rfold (\<lambda>b. rollbackBlock sc (hh_height b)) (rev hots) D) (\<lambda>D'.
     rbind (performUpdates sc om cb (hh_height nxt) None D') (\<lambda>D'.
       updateStatus (db_nonce D) nxt D')))))))"

text \<open>The slices \<open>[beg, end)\<close> of the unfinalized blocks; the size is positive.\<close>

function slices :: "nat \<Rightarrow> nat \<Rightarrow> nat \<Rightarrow> (nat \<times> nat) list" where
  "slices groupSize n i = (if i < n then (i, min (i + max 1 groupSize) n) # slices groupSize n (i + max 1 groupSize) else [])"
  by pat_completeness auto
termination
  by (relation "measure (\<lambda>(g, n, i). n - i)") auto

declare slices.simps [simp del]

record hot_tx_info =
  ti_baseHead :: hash_height
  ti_finalizedHead :: hash_height
  ti_newBlocks :: "hash_height list"

fun findIndex :: "('a \<Rightarrow> bool) \<Rightarrow> 'a list \<Rightarrow> nat option" where
  "findIndex P [] = None"
| "findIndex P (x # xs) = (if P x then Some 0 else map_option Suc (findIndex P xs))"

definition hot_slice ::
  "schema \<Rightarrow> orm \<Rightarrow> (nat \<Rightarrow> nat \<Rightarrow> tables \<Rightarrow> handler) \<Rightarrow> hash_height list \<Rightarrow> nat \<times> nat \<Rightarrow> db \<Rightarrow> db result" where
  "hot_slice sc om cb blocks sl D =
     (case sl of (i, sliceEnd) \<Rightarrow>
        let lastBlock = blocks ! (sliceEnd - 1)
        in rbind (insertHotBlock lastBlock D) (\<lambda>D.
           performUpdates sc om (cb i sliceEnd) (hh_height lastBlock) (Some (ChangeTracker (hh_height lastBlock))) D))"

text \<open>Where the unfinalized blocks start and the slices of the calls of the handler.\<close>

definition unfinalized_start :: "hash_height list \<Rightarrow> int \<Rightarrow> nat" where
  "unfinalized_start blocks fin =
     (case findIndex (\<lambda>b. hh_height b > fin) blocks of Some k \<Rightarrow> k | None \<Rightarrow> length blocks)"

definition hot_slices :: "hash_height list \<Rightarrow> int \<Rightarrow> (nat \<times> nat) list" where
  "hot_slices blocks fin =
     (let s = unfinalized_start blocks fin; n = length blocks
      in slices (max 1 ((n - s) div 100)) n s)"

definition transactHot2 ::
  "schema \<Rightarrow> orm \<Rightarrow> hot_tx_info \<Rightarrow> (nat \<Rightarrow> nat \<Rightarrow> tables \<Rightarrow> handler) \<Rightarrow> db \<Rightarrow> db result" where
  "transactHot2 sc om info cb D =
     rbind (getState D) (\<lambda>(st, hots).
     let chain = st # hots; blocks = ti_newBlocks info
     in rbind (assertChainContinuity (ti_baseHead info) blocks) (\<lambda>_.
        rbind (js_assert (hh_height (ti_finalizedHead info) \<le>
          hh_height (case maybeLast blocks of Some b \<Rightarrow> b | None \<Rightarrow> ti_baseHead info))) (\<lambda>_.
        rbind (of_option AssertionError (findIndex (\<lambda>b. hh_hash b = hh_hash (ti_baseHead info)) chain))
          (\<lambda>baseHeadPos.
        let fin = (if hh_height (ti_finalizedHead info) \<ge> hh_height st then ti_finalizedHead info else st);
            rollbackPos = baseHeadPos + 1
        in rbind (rfold (\<lambda>b. rollbackBlock sc (hh_height b)) (rev (drop rollbackPos chain)) D) (\<lambda>D'.
           let s = unfinalized_start blocks (hh_height fin)
           in rbind (if s > 0 then performUpdates sc om (cb 0 s) (hh_height fin) None D' else Inr D') (\<lambda>D'.
              rbind (rfold (hot_slice sc om cb blocks) (hot_slices blocks (hh_height fin)) D') (\<lambda>D'.
                updateStatus (db_nonce D) fin (deleteHotBlocks (hh_height fin) D'))))))))"

text \<open>\<open>transactHot\<close> calls its handler once for each block of a slice, in order.\<close>

primrec then_do :: "handler \<Rightarrow> (tables \<Rightarrow> handler) \<Rightarrow> tables \<Rightarrow> handler" where
  "then_do (Return tms) g T = g T"
| "then_do (Throw e) g T = Throw e"
| "then_do (Do a k) g T = Do a (\<lambda>T'. then_do (k T') g T')"

fun each_block :: "(hash_height \<Rightarrow> tables \<Rightarrow> handler) \<Rightarrow> hash_height list \<Rightarrow> tables \<Rightarrow> handler" where
  "each_block cb [] T = Return []"
| "each_block cb (b # bs) T = then_do (cb b T) (each_block cb bs) T"

definition transactHot ::
  "schema \<Rightarrow> orm \<Rightarrow> hot_tx_info \<Rightarrow> (hash_height \<Rightarrow> tables \<Rightarrow> handler) \<Rightarrow> db \<Rightarrow> db result" where
  "transactHot sc om info cb =
     transactHot2 sc om info (\<lambda>beg en. each_block cb (js_slice (ti_newBlocks info) beg en))"

section \<open>Connecting\<close>

text \<open>The three statements of \<open>repairOrphans\<close>. The status row is there from the first connection on.\<close>

definition repairOrphans :: "db \<Rightarrow> db" where
  "repairOrphans D =
     (let D = D\<lparr>db_log := filter (\<lambda>l. fst l \<in> hh_height ` set (db_hot D)) (db_log D)\<rparr>;
          D = drop_hot (\<lambda>h. h \<notin> fst ` set (db_log D)) D
      in D\<lparr>db_templates := filter (\<lambda>(m, h). \<not> (h > hh_height (db_status D) \<and>
             h \<notin> hh_height ` set (db_hot D))) (db_templates D)\<rparr>)"

type_synonym template_key = "int \<times> bool \<times> jstr \<times> jstr"

record database_state =
  ds_head :: hash_height
  ds_top :: "(hash_height \<times> template_mutation list) list"
  ds_templates :: "template_mutation list"

text \<open>\<open>initTransaction\<close> after the tables are there; the order of the templates within a height is left
  to the parameter \<open>ord\<close>.\<close>

definition initTransaction :: "(template_mutation list \<Rightarrow> template_mutation list) \<Rightarrow> db \<Rightarrow> (database_state \<times> db) result" where
  "initTransaction ord D =
     (let D = repairOrphans D;
          hots = sort_key hh_height (db_hot D);
          at_height = (\<lambda>h. map fst (filter (\<lambda>(m, k). k = h) (db_templates D)))
      in rbind (assertStateInvariants (db_status D, hots)) (\<lambda>_.
         Inr (\<lparr>ds_head = db_status D,
               ds_top = map (\<lambda>b. (b, ord (at_height (hh_height b)))) hots,
               ds_templates =
                 concat (map (\<lambda>h. ord (at_height h))
                   (sorted_list_of_set (snd ` set (filter (\<lambda>(m, k). k \<le> hh_height (db_status D)) (db_templates D)))))\<rparr>,
              D)))"

end
