(* ===== verification/Typeorm_Rollback.thy ===== *)
theory Typeorm_Rollback
  imports Typeorm_Store
begin

text \<open>
  The rollback of hot blocks, \<open>typeorm/typeorm-store/src/hot.ts\<close>: the records that the change tracker
  writes for the operations of a data handler undo them, operation by operation and in reverse order
  (\<open>undoes\<close>), so that \<open>rollbackBlock\<close> restores the tables. \<open>orm_ok\<close> states what is asked of the mapper
  and \<open>plain_orm\<close> is one that does it. The last sections show where the tracking of cascading deletes
  ends, where it does not, and a schema whose deletions it cannot undo.
\<close>

section \<open>Well-formed tables\<close>

abbreviation row_of :: "tables \<Rightarrow> jstr \<Rightarrow> jstr \<Rightarrow> row option" where
  "row_of T t i \<equiv> map_of (T t) i"

text \<open>A row has the columns of its table, and what a change record keeps of a value is enough to
  write it again.\<close>

definition row_ok :: "schema \<Rightarrow> jstr \<Rightarrow> row \<Rightarrow> bool" where
  "row_ok sc t r \<longleftrightarrow> (\<forall>c. (c \<in> set (sc_columns sc t)) = (r c \<noteq> None)) \<and>
     (\<forall>c v. r c = Some v \<longrightarrow> sc_cast sc t c (sc_json sc (fetched_value sc t c v)) = v)"

definition tabs_ok :: "schema \<Rightarrow> tables \<Rightarrow> bool" where
  "tabs_ok sc T \<longleftrightarrow> (\<forall>t. distinct (map fst (T t)) \<and> (\<forall>i r. row_of T t i = Some r \<longrightarrow> row_ok sc t r)) \<and> fk_ok sc T"

definition same_rows :: "tables \<Rightarrow> tables \<Rightarrow> bool" where
  "same_rows T T' \<longleftrightarrow> (\<forall>t. map_of (T t) = map_of (T' t))"

text \<open>No table refers to itself, and the tables whose rows a deletion removes have an entity.\<close>

definition schema_ok :: "schema \<Rightarrow> bool" where
  "schema_ok sc \<longleftrightarrow> (\<forall>(c, col, p, casc) \<in> set (sc_fks sc). c \<noteq> p \<and> (casc \<longrightarrow> c \<in> set (sc_entities sc)))"

text \<open>What the documentation of the mapper promises: an operation that succeeds changes the rows it
  is given and no others, an insert fails on an id that is taken, a delete removes what SQL removes.\<close>

definition touches_only :: "jstr \<Rightarrow> jstr set \<Rightarrow> tables \<Rightarrow> tables \<Rightarrow> bool" where
  "touches_only t ids T T' \<longleftrightarrow> (\<forall>u i. u \<noteq> t \<or> i \<notin> ids \<longrightarrow> row_of T' u i = row_of T u i)"

definition orm_ok :: "schema \<Rightarrow> orm \<Rightarrow> bool" where
  "orm_ok sc om \<longleftrightarrow>
     (\<forall>t es T T'. tabs_ok sc T \<longrightarrow> orm_upsert om t es T = Inr T' \<longrightarrow>
        tabs_ok sc T' \<and> touches_only t (e_id ` set es) T T' \<and> (\<forall>e \<in> set es. row_of T' t (e_id e) \<noteq> None)) \<and>
     (\<forall>t es T T'. tabs_ok sc T \<longrightarrow> orm_insert om t es T = Inr T' \<longrightarrow>
        tabs_ok sc T' \<and> touches_only t (e_id ` set es) T T' \<and>
        (\<forall>e \<in> set es. row_of T t (e_id e) = None \<and> row_of T' t (e_id e) \<noteq> None)) \<and>
     (\<forall>t ids T T'. tabs_ok sc T \<longrightarrow> orm_delete om t ids T = Inr T' \<longrightarrow>
        tabs_ok sc T' \<and> (\<forall>u i. row_of T' u i = (if doomed sc T t ids u i then None else row_of T u i)))"

subsection \<open>Rows\<close>

lemma row_of_dom: "(i \<in> fst ` set (T t)) = (row_of T t i \<noteq> None)"
  by (metis map_of_eq_None_iff)

lemma tabs_ok_row: "tabs_ok sc T \<Longrightarrow> row_of T t i = Some r \<Longrightarrow> row_ok sc t r"
  by (auto simp: tabs_ok_def)

lemma tabs_ok_distinct: "tabs_ok sc T \<Longrightarrow> distinct (map fst (T t))"
  by (simp add: tabs_ok_def)

lemma row_of_mem: "tabs_ok sc T \<Longrightarrow> (i, r) \<in> set (T t) \<longleftrightarrow> row_of T t i = Some r"
  by (metis map_of_eq_Some_iff tabs_ok_distinct)

text \<open>Foreign keys, read through the rows.\<close>

lemma fk_ok_rows:
  assumes "\<And>t. distinct (map fst (T t))"
  shows "fk_ok sc T \<longleftrightarrow> (\<forall>c col p b j r i. (c, col, p, b) \<in> set (sc_fks sc) \<longrightarrow> row_of T c j = Some r \<longrightarrow>
    r col = Some (JStr i) \<longrightarrow> row_of T p i \<noteq> None)"
proof -
  have mem: "(j, r) \<in> set (T c) \<longleftrightarrow> row_of T c j = Some r" for j r c
    using map_of_eq_Some_iff [OF assms] by blast
  have one: "(case r col of Some (JStr i) \<Rightarrow> i \<in> fst ` set (T p) | _ \<Rightarrow> True) \<longleftrightarrow>
      (\<forall>i. r col = Some (JStr i) \<longrightarrow> row_of T p i \<noteq> None)" for r :: row and col p
    unfolding row_of_dom by (cases "r col") (simp_all split: jsval.splits)
  have "fk_ok sc T \<longleftrightarrow> (\<forall>(c, col, p, b) \<in> set (sc_fks sc). \<forall>(j, r) \<in> set (T c).
      \<forall>i. r col = Some (JStr i) \<longrightarrow> row_of T p i \<noteq> None)"
    unfolding fk_ok_def list_all_iff one ..
  also have "\<dots> \<longleftrightarrow> (\<forall>c col p b j r i. (c, col, p, b) \<in> set (sc_fks sc) \<longrightarrow> (j, r) \<in> set (T c) \<longrightarrow>
      r col = Some (JStr i) \<longrightarrow> row_of T p i \<noteq> None)"
    by blast
  finally show ?thesis unfolding mem .
qed

lemma fk_ok_target:
  assumes "tabs_ok sc T" "(c, col, p, b) \<in> set (sc_fks sc)" "row_of T c j = Some r" "r col = Some (JStr i)"
  shows "row_of T p i \<noteq> None"
proof -
  have "fk_ok sc T" using assms(1) by (simp add: tabs_ok_def)
  moreover have "\<And>u. distinct (map fst (T u))" using assms(1) by (rule tabs_ok_distinct)
  ultimately show ?thesis using fk_ok_rows [of T sc] assms(2-4) by blast
qed

lemma full_row_restores:
  assumes "row_ok sc t r"
  shows "full_row sc t (\<lambda>c. map_option (\<lambda>v. sc_json sc (fetched_value sc t c v)) (r c)) = r"
proof (rule ext)
  fix c
  show "full_row sc t (\<lambda>c. map_option (\<lambda>v. sc_json sc (fetched_value sc t c v)) (r c)) c = r c"
    using assms by (cases "r c") (auto simp: full_row_def row_ok_def)
qed

lemma set_columns_restores:
  assumes "row_ok sc t r" "row_ok sc t r'"
  shows "set_columns sc t (\<lambda>c. map_option (\<lambda>v. sc_json sc (fetched_value sc t c v)) (r c)) r' = r"
proof (rule ext)
  fix c
  have "(r c \<noteq> None) = (r' c \<noteq> None)" using assms unfolding row_ok_def by metis
  then show "set_columns sc t (\<lambda>c. map_option (\<lambda>v. sc_json sc (fetched_value sc t c v)) (r c)) r' c = r c"
    using assms(1) by (cases "r c"; cases "r' c") (auto simp: set_columns_def row_ok_def)
qed

subsection \<open>The statements, through the rows\<close>

lemma row_of_update:
  "row_of (update_rows sc t i flds T) u j =
     (if u = t \<and> j = i then map_option (set_columns sc t flds) (row_of T t i) else row_of T u j)"
proof -
  have "map_of (map (\<lambda>(j, r). if j = i then (j, set_columns sc t flds r) else (j, r)) xs) j =
      (if j = i then map_option (set_columns sc t flds) (map_of xs i) else map_of xs j)" for xs :: "(jstr \<times> row) list"
    by (induction xs) auto
  then show ?thesis unfolding update_rows_def by (cases "u = t") (simp_all del: map_of_map)
qed

lemma keys_update: "map fst (update_rows sc t i flds T u) = map fst (T u)"
  by (auto simp: update_rows_def intro!: map_cong)

lemma keys_filter: "distinct (map fst xs) \<Longrightarrow> distinct (map fst (filter P xs))"
  by (induction xs) auto

lemma row_of_delete:
  assumes "distinct (map fst (T u))"
  shows "row_of (delete_rows sc t ids T) u i = (if doomed sc T t ids u i then None else row_of T u i)"
proof -
  have "map_of (filter (\<lambda>(i, r). \<not> P i) xs) i = (if P i then None else map_of xs i)" for P and xs :: "(jstr \<times> row) list"
    by (induction xs) auto
  then show ?thesis by (simp add: delete_rows_def)
qed

lemma row_of_insert:
  "row_of (T(t := T t @ [(i, r)])) u j =
     (if u = t \<and> j = i \<and> row_of T t i = None then Some r else row_of T u j)"
  by (auto simp: map_add_def split: option.splits)

text \<open>A row that nothing refers to goes alone.\<close>

lemma doomed_alone:
  assumes "doomed sc T t [i] u j"
    and "\<And>c col b k r. (c, col, t, b) \<in> set (sc_fks sc) \<Longrightarrow> (k, r) \<in> set (T c) \<Longrightarrow> r col \<noteq> Some (JStr i)"
  shows "u = t \<and> j = i"
  using assms(1)
proof induction
  case (doomed_row j r)
  then show ?case by simp
next
  case (doomed_child p j c col k r)
  then show ?case using assms(2) by blast
qed

section \<open>Undoing inserts and upserts\<close>

text \<open>The record that the tracker writes for an entity of an insert or an upsert.\<close>

definition upsert_record :: "schema \<Rightarrow> jstr \<Rightarrow> tables \<Rightarrow> jstr \<Rightarrow> change" where
  "upsert_record sc t T i =
     (case row_of T t i of
        None \<Rightarrow> InsertRecord t i
      | Some r \<Rightarrow> UpdateRecord t i (\<lambda>c. map_option (\<lambda>v. sc_json sc (fetched_value sc t c v)) (r c)))"

text \<open>Halfway through the rollback of an operation on the table \<open>t\<close> that led from \<open>T\<close> to \<open>T'\<close>: the rows
  of \<open>S\<close> are as before it, the others as after it.\<close>

definition halfway :: "jstr \<Rightarrow> jstr set \<Rightarrow> tables \<Rightarrow> tables \<Rightarrow> tables \<Rightarrow> bool" where
  "halfway t S T T' U \<longleftrightarrow> (\<forall>u. distinct (map fst (U u))) \<and>
     (\<forall>u i. row_of U u i = (if u = t \<and> i \<notin> S then row_of T' u i else row_of T u i))"

text \<open>An operation that writes the rows \<open>ids\<close> of the table \<open>t\<close> and no others.\<close>

definition tracked_write :: "schema \<Rightarrow> jstr \<Rightarrow> jstr set \<Rightarrow> tables \<Rightarrow> tables \<Rightarrow> bool" where
  "tracked_write sc t ids T T' \<longleftrightarrow> schema_ok sc \<and> tabs_ok sc T \<and> tabs_ok sc T' \<and> touches_only t ids T T' \<and>
     (\<forall>i \<in> ids. row_of T' t i \<noteq> None)"

lemma tracked_writeD:
  assumes "tracked_write sc t ids T T'"
  shows "schema_ok sc" "tabs_ok sc T" "tabs_ok sc T'" "touches_only t ids T T'"
    "\<And>i. i \<in> ids \<Longrightarrow> row_of T' t i \<noteq> None"
  using assms by (auto simp: tracked_write_def)

lemma no_self_reference: "schema_ok sc \<Longrightarrow> (c, col, p, b) \<in> set (sc_fks sc) \<Longrightarrow> c \<noteq> p"
  by (auto simp: schema_ok_def)

lemma other_tables: "touches_only t ids T T' \<Longrightarrow> u \<noteq> t \<Longrightarrow> row_of T' u i = row_of T u i"
  by (simp add: touches_only_def)

lemma write_keeps_rows: "tracked_write sc t ids T T' \<Longrightarrow> row_of T t i \<noteq> None \<Longrightarrow> row_of T' t i \<noteq> None"
  by (cases "i \<in> ids") (auto simp: touches_only_def tracked_write_def)

lemma halfway_ok:
  assumes tw: "tracked_write sc t ids T T'" and "halfway t S T T' U"
  shows "tabs_ok sc U"
proof -
  note before = tracked_writeD(2) [OF tw] and after = tracked_writeD(3) [OF tw]
    and no_self = no_self_reference [OF tracked_writeD(1) [OF tw]]
    and others = other_tables [OF tracked_writeD(4) [OF tw]] and kept = write_keeps_rows [OF tw]
  have dist: "\<And>u. distinct (map fst (U u))" using assms by (simp add: halfway_def)
  have rows: "row_of U u i = (if u = t \<and> i \<notin> S then row_of T' u i else row_of T u i)" for u i
    using assms by (simp add: halfway_def)
  have ok: "row_ok sc u r" if "row_of U u i = Some r" for u i r
    using that tabs_ok_row [OF before] tabs_ok_row [OF after] by (auto simp: rows split: if_splits)
  have fk: "row_of U p i \<noteq> None"
    if k: "(c, col, p, b) \<in> set (sc_fks sc)" and r: "row_of U c j = Some r" "r col = Some (JStr i)" for c col p b j r i
  proof (cases "c = t")
    case True
    then have "p \<noteq> t" using no_self [OF k] by simp
    have "row_of T p i \<noteq> None"
    proof (cases "j \<in> S")
      case True
      then show ?thesis using r rows [of c j] fk_ok_target [OF before k] by simp
    next
      case False
      then have "row_of T' c j = Some r" using r rows [of c j] \<open>c = t\<close> by simp
      from fk_ok_target [OF after k this r(2)] show ?thesis using others [OF \<open>p \<noteq> t\<close>] by simp
    qed
    then show ?thesis using rows [of p i] \<open>p \<noteq> t\<close> by simp
  next
    case False
    then have "row_of T c j = Some r" using r rows [of c j] by simp
    from fk_ok_target [OF before k this r(2)] have "row_of T p i \<noteq> None" .
    then show ?thesis using rows [of p i] kept [of i] by (cases "p = t \<and> i \<notin> S") auto
  qed
  have "fk_ok sc U" using fk_ok_rows [of U sc] dist fk by blast
  with dist ok show ?thesis by (simp add: tabs_ok_def)
qed

lemma undo_one:
  assumes tw: "tracked_write sc t ids T T'" and half: "halfway t S T T' U" and i: "i \<in> ids"
  shows "\<exists>U'. undo_change sc (upsert_record sc t T i) U = Inr U' \<and> halfway t (insert i S) T T' U'"
proof (cases "row_of T t i")
  case None
  note before = tracked_writeD(2) [OF tw] and no_self = no_self_reference [OF tracked_writeD(1) [OF tw]]
  have U: "tabs_ok sc U" using tw half by (rule halfway_ok)
  have rows: "row_of U u j = (if u = t \<and> j \<notin> S then row_of T' u j else row_of T u j)" for u j
    using half by (simp add: halfway_def)
  have alone: "u = t \<and> j = i" if "doomed sc U t [i] u j" for u j
  proof (rule doomed_alone [OF that])
    show "r col \<noteq> Some (JStr i)" if k: "(c, col, t, b) \<in> set (sc_fks sc)" and r: "(k, r) \<in> set (U c)" for c col b k r
    proof
      assume "r col = Some (JStr i)"
      moreover have "row_of U c k = Some r" using r row_of_mem [OF U] by simp
      then have "row_of T c k = Some r" using rows [of c k] no_self [OF k] by simp
      ultimately have "row_of T t i \<noteq> None" using fk_ok_target [OF before k] by blast
      then show False using None by simp
    qed
  qed
  let ?U' = "delete_rows sc t [i] U"
  have gone: "row_of ?U' u j = (if u = t \<and> j = i then None else row_of U u j)" for u j
  proof -
    have "row_of U t i = None" if "\<not> doomed sc U t [i] t i"
      using that doomed_row [of i _ U t "[i]" sc] by (cases "row_of U t i") (auto dest: map_of_SomeD)
    then show ?thesis using row_of_delete [where u = u and i = j and T = U and sc = sc and t = t and ids = "[i]", OF tabs_ok_distinct [OF U]] alone [of u j]
      by (cases "doomed sc U t [i] u j") auto
  qed
  have "distinct (map fst (?U' u))" for u
    unfolding delete_rows_def by (rule keys_filter [OF tabs_ok_distinct [OF U]])
  then have "halfway t (insert i S) T T' ?U'"
    using gone rows None by (simp add: halfway_def)
  moreover from this have "fk_ok sc ?U'" using halfway_ok [OF tw] by (simp add: tabs_ok_def)
  ultimately show ?thesis
    using None by (simp add: upsert_record_def undo_change_def sql_delete_def checked_def)
next
  case (Some r)
  note before = tracked_writeD(2) [OF tw]
  have U: "tabs_ok sc U" using tw half by (rule halfway_ok)
  have rows: "row_of U u j = (if u = t \<and> j \<notin> S then row_of T' u j else row_of T u j)" for u j
    using half by (simp add: halfway_def)
  obtain r' where r': "row_of U t i = Some r'"
    using rows [of t i] tracked_writeD(5) [OF tw i] Some by (cases "i \<in> S") auto
  let ?flds = "\<lambda>c. map_option (\<lambda>v. sc_json sc (fetched_value sc t c v)) (r c)"
  let ?U' = "update_rows sc t i ?flds U"
  have "set_columns sc t ?flds r' = r"
    using tabs_ok_row [OF before Some] tabs_ok_row [OF U r'] by (rule set_columns_restores)
  then have "row_of ?U' u j = (if u = t \<and> j = i then Some r else row_of U u j)" for u j
    using row_of_update [of sc t i ?flds U u j] r' by simp
  then have "halfway t (insert i S) T T' ?U'"
    using rows Some tabs_ok_distinct [OF U] by (auto simp: halfway_def keys_update)
  moreover from this have "fk_ok sc ?U'" using halfway_ok [OF tw] by (simp add: tabs_ok_def)
  ultimately show ?thesis
    using Some by (simp add: upsert_record_def undo_change_def sql_update_def checked_def)
qed

lemma undo_all:
  assumes tw: "tracked_write sc t ids T T'"
  shows "set es \<subseteq> ids \<Longrightarrow> halfway t S T T' U \<Longrightarrow>
    \<exists>U'. rfold (undo_change sc) (map (upsert_record sc t T) es) U = Inr U' \<and> halfway t (S \<union> set es) T T' U'"
proof (induction es arbitrary: S U)
  case Nil
  then show ?case by simp
next
  case (Cons i es)
  obtain U' where U': "undo_change sc (upsert_record sc t T i) U = Inr U'" "halfway t (insert i S) T T' U'"
    using undo_one [OF tw Cons.prems(2), of i] Cons.prems(1) by auto
  have "insert i S \<union> set es = S \<union> set (i # es)" by simp
  moreover obtain U'' where "rfold (undo_change sc) (map (upsert_record sc t T) es) U' = Inr U''"
      "halfway t (insert i S \<union> set es) T T' U''"
    using Cons.IH [OF _ U'(2)] Cons.prems(1) by auto
  ultimately show ?case using U'(1) by (simp only:) simp
qed

lemma undo_write:
  assumes tw: "tracked_write sc t ids T T'"
    and "set es = ids" "same_rows U T'" "\<And>u. distinct (map fst (U u))"
  shows "\<exists>U'. rfold (undo_change sc) (rev (map (upsert_record sc t T) es)) U = Inr U' \<and> same_rows U' T \<and> tabs_ok sc U'"
proof -
  have "halfway t {} T T' U"
    using assms(3,4) other_tables [OF tracked_writeD(4) [OF tw]] by (auto simp: halfway_def same_rows_def)
  from undo_all [OF tw _ this, of "rev es"] assms(2) obtain U' where
    U': "rfold (undo_change sc) (map (upsert_record sc t T) (rev es)) U = Inr U'" "halfway t (set es) T T' U'"
    by auto
  have "row_of U' u i = row_of T u i" for u i
    using U'(2) assms(2) tracked_writeD(4) [OF tw] by (auto simp: halfway_def touches_only_def)
  then have "same_rows U' T" by (auto simp: same_rows_def)
  with U' halfway_ok [OF tw] show ?thesis by (auto simp: rev_map)
qed

section \<open>What \<open>collectCascadeDeletes\<close> collects\<close>

definition fetched :: "schema \<Rightarrow> jstr \<Rightarrow> row \<Rightarrow> row" where
  "fetched sc t r = (\<lambda>c. map_option (fetched_value sc t c) (r c))"

fun change_key :: "change \<Rightarrow> jstr \<times> jstr" where
  "change_key Sentinel = ([], [])"
| "change_key (InsertRecord t i) = (t, i)"
| "change_key (UpdateRecord t i _) = (t, i)"
| "change_key (DeleteRecord t i _) = (t, i)"

abbreviation keys :: "change list \<Rightarrow> (jstr \<times> jstr) list" where
  "keys D \<equiv> map change_key D"

definition children :: "schema \<Rightarrow> tables \<Rightarrow> jstr \<times> jstr \<Rightarrow> (jstr \<times> jstr) set" where
  "children sc T y = {(c, j). \<exists>col r. (c, col, fst y, True) \<in> set (sc_fks sc) \<and> row_of T c j = Some r \<and>
     r col = Some (JStr (snd y))}"

definition children_first :: "schema \<Rightarrow> tables \<Rightarrow> (jstr \<times> jstr) list \<Rightarrow> bool" where
  "children_first sc T K \<longleftrightarrow> (\<forall>k < length K. children sc T (K ! k) \<subseteq> set (take k K))"

lemma children_first_append:
  assumes "children_first sc T K" "children_first sc T L \<or> (\<forall>y \<in> set L. children sc T y \<subseteq> set K)"
  shows "children_first sc T (K @ L)"
  unfolding children_first_def
proof (intro allI impI)
  fix k assume k: "k < length (K @ L)"
  show "children sc T ((K @ L) ! k) \<subseteq> set (take k (K @ L))"
  proof (cases "k < length K")
    case True
    then show ?thesis using assms(1) by (simp add: children_first_def nth_append)
  next
    case False
    then have "k - length K < length L" using k by simp
    then have "children sc T (L ! (k - length K)) \<subseteq> set K \<union> set (take (k - length K) L)"
      using assms(2) unfolding children_first_def by (meson le_supI1 le_supI2 nth_mem)
    then show ?thesis using False by (simp add: nth_append)
  qed
qed

text \<open>The records of the rows that a deletion removes, with their children before them.\<close>

definition gathers :: "schema \<Rightarrow> tables \<Rightarrow> jstr \<Rightarrow> jstr list \<Rightarrow> change list \<Rightarrow> bool" where
  "gathers sc T t ids D \<longleftrightarrow>
     (\<forall>ch \<in> set D. \<exists>u i r. ch = DeleteRecord u i (fetched sc u r) \<and> row_of T u i = Some r \<and> doomed sc T t ids u i) \<and>
     children_first sc T (keys D)"

lemma gathers_append:
  assumes "gathers sc T t ids D" "gathers sc T t ids E"
  shows "gathers sc T t ids (D @ E)"
  using assms children_first_append [of sc T "keys D" "keys E"] unfolding gathers_def by auto

lemma cascade_mem:
  assumes "schema_ok sc"
  shows "(c, col) \<in> set (buildCascadeMap sc p) \<longleftrightarrow> (c, col, p, True) \<in> set (sc_fks sc)"
proof -
  have "c \<in> set (sc_entities sc)" if "(c, col, p, True) \<in> set (sc_fks sc)"
    using assms that by (auto simp: schema_ok_def)
  then show ?thesis by (force simp: buildCascadeMap_def)
qed

lemma refers_iff: "refers r col ids \<longleftrightarrow> (\<exists>x. r col = Some (JStr x) \<and> x \<in> set ids)"
proof (cases "r col")
  case (Some v)
  then show ?thesis by (cases v) (simp_all add: refers_def)
qed (simp add: refers_def)

lemma select_children_mem:
  assumes "tabs_ok sc T"
  shows "j \<in> set (select_children c col ids T) \<longleftrightarrow>
    (\<exists>r x. row_of T c j = Some r \<and> r col = Some (JStr x) \<and> x \<in> set ids)"
proof -
  have "j \<in> set (select_children c col ids T) \<longleftrightarrow> (\<exists>r. (j, r) \<in> set (T c) \<and> refers r col ids)"
    by (force simp: select_children_def)
  then show ?thesis by (auto simp: row_of_mem [OF assms] refers_iff)
qed

lemma doomed_children:
  assumes ok: "tabs_ok sc T" and key: "(c, col, t, True) \<in> set (sc_fks sc)"
    and d: "doomed sc T c (select_children c col ids T) u i"
  shows "doomed sc T t ids u i"
  using d
proof induction
  case (doomed_row j r)
  then obtain r' x where r': "row_of T c j = Some r'" "r' col = Some (JStr x)" "x \<in> set ids"
    using select_children_mem [OF ok] by blast
  then obtain q where "row_of T t x = Some q" using fk_ok_target [OF ok key] by blast
  then have "doomed sc T t ids t x" using r'(3) doomed.doomed_row map_of_SomeD by metis
  then show ?case using doomed.doomed_child [of sc T t ids t x c col j r'] key map_of_SomeD [OF r'(1)] r'(2) by blast
next
  case (doomed_child p i c' col' j r)
  then show ?case using doomed.doomed_child by blast
qed

lemma gathers_children:
  assumes ok: "tabs_ok sc T" and key: "(c, col, t, True) \<in> set (sc_fks sc)"
    and "gathers sc T c (select_children c col ids T) D"
  shows "gathers sc T t ids D"
  using assms(3) doomed_children [OF ok key] unfolding gathers_def by blast

definition covers :: "tables \<Rightarrow> jstr list \<Rightarrow> change list \<Rightarrow> jstr \<times> jstr \<Rightarrow> bool" where
  "covers T ids D y \<longleftrightarrow> (\<forall>j \<in> set (select_children (fst y) (snd y) ids T). (fst y, j) \<in> set (keys D))"

lemma covers_append: "covers T ids D y \<or> covers T ids E y \<Longrightarrow> covers T ids (D @ E) y"
  by (auto simp: covers_def)

lemma collect_children:
  assumes ok: "tabs_ok sc T"
    and f: "\<And>y out out'. y \<in> set cs \<Longrightarrow> f y out = Some out' \<Longrightarrow>
      \<exists>D. out' = out @ D \<and> gathers sc T t ids D \<and> covers T ids D y"
    and run: "ofold f cs out = Some out'"
  shows "\<exists>D. out' = out @ D \<and> gathers sc T t ids D \<and> (\<forall>y \<in> set cs. covers T ids D y)"
  using f run
proof (induction cs arbitrary: out)
  case Nil
  then show ?case by (auto simp: gathers_def children_first_def)
next
  case (Cons y cs)
  obtain out1 where out1: "f y out = Some out1" "ofold f cs out1 = Some out'"
    using Cons.prems(2) by (cases "f y out") simp_all
  obtain D where D: "out1 = out @ D" "gathers sc T t ids D" "covers T ids D y"
    using Cons.prems(1) [OF _ out1(1)] by (meson list.set_intros(1))
  obtain E where E: "out' = out1 @ E" "gathers sc T t ids E" "\<forall>y \<in> set cs. covers T ids E y"
    using Cons.IH [OF Cons.prems(1) [OF list.set_intros(2)] out1(2)] by blast
  have "gathers sc T t ids (D @ E)" using D(2) E(2) by (rule gathers_append)
  moreover have "\<forall>z \<in> set (y # cs). covers T ids (D @ E) z"
    using D(3) E(3) covers_append by (metis set_ConsD)
  moreover have "out' = out @ (D @ E)" using D(1) E(1) by simp
  ultimately show ?case by blast
qed

lemma map_memE:
  assumes "y \<in> set (map f xs)"
  obtains x where "x \<in> set xs" "y = f x"
  using assms by auto

lemma collect_correct:
  assumes sc: "schema_ok sc" and ok: "tabs_ok sc T"
  shows "collectCascadeDeletes sc n T t ids out = Some out' \<Longrightarrow>
    \<exists>D. out' = out @ D \<and> gathers sc T t ids D \<and>
      (\<forall>i \<in> set ids. row_of T t i \<noteq> None \<longrightarrow> (t, i) \<in> set (keys D))"
proof (induction n arbitrary: t ids out out')
  case 0
  then show ?case by simp
next
  case (Suc n)
  show ?case
  proof (cases "ids = []")
    case True
    then show ?thesis using Suc.prems by (auto simp: gathers_def children_first_def)
  next
    case False
    let ?f = "\<lambda>(c, col) out. let childIds = select_children c col ids T
        in if childIds = [] then Some out else collectCascadeDeletes sc n T c childIds out"
    let ?rows = "map (\<lambda>(i, r). DeleteRecord t i r) (fetchEntities sc t ids T)"
    obtain out1 where out1: "ofold ?f (buildCascadeMap sc t) out = Some out1" "out' = out1 @ ?rows"
      using Suc.prems False by (auto split: option.splits)
    have one: "\<exists>D. out' = out @ D \<and> gathers sc T t ids D \<and> covers T ids D y"
      if y: "y \<in> set (buildCascadeMap sc t)" and run: "?f y out = Some out'" for y out out'
    proof -
      obtain c col where cc: "y = (c, col)" by (cases y)
      have key: "(c, col, t, True) \<in> set (sc_fks sc)" using y cascade_mem [OF sc] cc by simp
      show ?thesis
      proof (cases "select_children c col ids T = []")
        case True
        then show ?thesis using run by (auto simp: gathers_def children_first_def covers_def cc)
      next
        case False
        then have "collectCascadeDeletes sc n T c (select_children c col ids T) out = Some out'"
          using run cc by simp
        from Suc.IH [OF this] obtain D where D: "out' = out @ D" "gathers sc T c (select_children c col ids T) D"
            "\<forall>i \<in> set (select_children c col ids T). row_of T c i \<noteq> None \<longrightarrow> (c, i) \<in> set (keys D)"
          by blast
        have "row_of T c j \<noteq> None" if "j \<in> set (select_children c col ids T)" for j
          using that select_children_mem [OF ok] by auto
        then have "covers T ids D y" using D(3) cc by (simp add: covers_def)
        then show ?thesis using D(1) gathers_children [OF ok key D(2)] by blast
      qed
    qed
    obtain D where
      D: "out1 = out @ D" "gathers sc T t ids D" "\<forall>y \<in> set (buildCascadeMap sc t). covers T ids D y"
      using collect_children [where f = ?f, OF ok one out1(1)] by blast
    have row: "\<exists>i r. ch = DeleteRecord t i (fetched sc t r) \<and> row_of T t i = Some r \<and> i \<in> set ids" if "ch \<in> set ?rows" for ch
      using that by (auto simp: fetchEntities_def select_in_def fetched_def row_of_mem [OF ok])
    have first: "children sc T y \<subseteq> set (keys D)" if yin: "y \<in> set (keys ?rows)" for y
    proof
      fix z assume z: "z \<in> children sc T y"
      obtain ch where ch: "ch \<in> set ?rows" "y = change_key ch" using yin by (rule map_memE)
      obtain i r where i: "ch = DeleteRecord t i (fetched sc t r)" "i \<in> set ids" using row [OF ch(1)] by blast
      then have y: "y = (t, i)" "i \<in> set ids" using ch(2) by simp_all
      obtain c j where zz: "z = (c, j)" by (cases z)
      with z obtain col r where "(c, col, t, True) \<in> set (sc_fks sc)" "row_of T c j = Some r" "r col = Some (JStr i)"
        by (auto simp: children_def y)
      then have "(c, col) \<in> set (buildCascadeMap sc t)" "j \<in> set (select_children c col ids T)"
        using cascade_mem [OF sc] select_children_mem [OF ok] y(2) by auto
      then show "z \<in> set (keys D)" using D(3) zz unfolding covers_def by fastforce
    qed
    have "gathers sc T t ids (D @ ?rows)"
      unfolding gathers_def
    proof
      have "doomed sc T t ids t i" if "row_of T t i = Some r" "i \<in> set ids" for i r
        using that doomed.doomed_row map_of_SomeD by metis
      then show "\<forall>ch \<in> set (D @ ?rows). \<exists>u i r. ch = DeleteRecord u i (fetched sc u r) \<and> row_of T u i = Some r \<and> doomed sc T t ids u i"
        using D(2) row unfolding gathers_def by (metis UnE set_append)
      show "children_first sc T (keys (D @ ?rows))"
        using children_first_append [of sc T "keys D" "keys ?rows"] first D(2) unfolding gathers_def map_append by blast
    qed
    moreover have "(t, i) \<in> set (keys (D @ ?rows))" if i: "i \<in> set ids" "row_of T t i \<noteq> None" for i
    proof -
      obtain r where "(i, r) \<in> set (T t)" using i(2) row_of_mem [OF ok] by blast
      then have "DeleteRecord t i (fetched sc t r) \<in> set ?rows"
        using i(1) by (force simp: fetchEntities_def select_in_def fetched_def)
      then show ?thesis by force
    qed
    ultimately show ?thesis using out1(2) D(1) by (metis append_assoc)
  qed
qed

section \<open>Undoing deletes\<close>

lemma same_rows_ok:
  assumes "tabs_ok sc T" "same_rows U T" "\<And>u. distinct (map fst (U u))"
  shows "tabs_ok sc U"
proof -
  have rows: "row_of U t = row_of T t" for t using assms(2) by (simp add: same_rows_def)
  have "fk_ok sc T" using assms(1) by (simp add: tabs_ok_def)
  then have "fk_ok sc U"
    using fk_ok_rows [of U sc] fk_ok_rows [of T sc] assms(3) tabs_ok_distinct [OF assms(1)] rows by metis
  then show ?thesis using assms(1,3) rows unfolding tabs_ok_def by metis
qed

text \<open>What a delete removed comes back if no row was collected twice and the keys between the rows it
  removed cascade.\<close>

definition separate :: "schema \<Rightarrow> tables \<Rightarrow> change list \<Rightarrow> bool" where
  "separate sc T D \<longleftrightarrow> distinct (keys D) \<and>
     list_all (\<lambda>(c, col, p, casc). casc \<or> list_all (\<lambda>(j, r).
       (c, j) \<notin> set (keys D) \<or> (case r col of Some (JStr x) \<Rightarrow> (p, x) \<notin> set (keys D) | _ \<Rightarrow> True)) (T c)) (sc_fks sc)"

lemma separate_key:
  assumes "tabs_ok sc T" "separate sc T D" "(c, col, p, b) \<in> set (sc_fks sc)" "row_of T c j = Some r" "r col = Some (JStr x)"
    "(c, j) \<in> set (keys D)" "(p, x) \<in> set (keys D)"
  shows b
proof (rule ccontr)
  assume "\<not> b"
  have "(c, col, p, b) \<in> set (sc_fks sc) \<Longrightarrow> b \<or> list_all (\<lambda>(j, r). (c, j) \<notin> set (keys D) \<or>
      (case r col of Some (JStr x) \<Rightarrow> (p, x) \<notin> set (keys D) | _ \<Rightarrow> True)) (T c)"
    using assms(2) unfolding separate_def list_all_iff by blast
  then have "(j, r) \<in> set (T c) \<Longrightarrow> (c, j) \<notin> set (keys D) \<or> (case r col of Some (JStr x) \<Rightarrow> (p, x) \<notin> set (keys D) | _ \<Rightarrow> True)"
    using assms(3) \<open>\<not> b\<close> unfolding list_all_iff by blast
  moreover have "(j, r) \<in> set (T c)" using assms(1,4) row_of_mem by blast
  ultimately show False using assms(5-7) by simp
qed

definition deletion :: "schema \<Rightarrow> jstr \<Rightarrow> jstr list \<Rightarrow> tables \<Rightarrow> change list \<Rightarrow> tables \<Rightarrow> bool" where
  "deletion sc t ids T D T' \<longleftrightarrow> schema_ok sc \<and> tabs_ok sc T \<and> tabs_ok sc T' \<and> gathers sc T t ids D \<and>
     separate sc T D \<and> (\<forall>i \<in> set ids. row_of T t i \<noteq> None \<longrightarrow> (t, i) \<in> set (keys D)) \<and>
     (\<forall>u i. row_of T' u i = (if doomed sc T t ids u i then None else row_of T u i))"

lemma gathers_doomed:
  assumes ok: "tabs_ok sc T" and g: "gathers sc T t ids D"
    and roots: "\<forall>i \<in> set ids. row_of T t i \<noteq> None \<longrightarrow> (t, i) \<in> set (keys D)"
    and "doomed sc T t ids u i"
  shows "(u, i) \<in> set (keys D)"
  using assms(4)
proof induction
  case (doomed_row i r)
  have "row_of T t i \<noteq> None" using doomed_row(1) row_of_dom [of i T t] by force
  then show ?case using roots doomed_row(2) by blast
next
  case (doomed_child p i c col j r)
  have "row_of T c j = Some r" using doomed_child(3) row_of_mem [OF ok] by blast
  then have "(c, j) \<in> children sc T (p, i)" using doomed_child by (auto simp: children_def)
  moreover obtain k where "k < length (keys D)" "keys D ! k = (p, i)"
    using doomed_child.IH by (metis in_set_conv_nth)
  ultimately have "(c, j) \<in> set (take k (keys D))"
    using g unfolding gathers_def children_first_def by (metis subset_iff)
  then show ?case by (rule in_set_takeD)
qed

lemma deletion_doomed:
  assumes "deletion sc t ids T D T'" "doomed sc T t ids u i"
  shows "(u, i) \<in> set (keys D)"
  using assms gathers_doomed unfolding deletion_def by blast

lemma deletion_record:
  assumes d: "deletion sc t ids T D T'" and "ch \<in> set D"
  shows "\<exists>u i r. ch = DeleteRecord u i (fetched sc u r) \<and> row_of T u i = Some r \<and> row_of T' u i = None"
  using assms unfolding deletion_def gathers_def by (metis (no_types, lifting))

lemma before_in_take:
  assumes "distinct K" "z \<in> set (take k K)" "m < length K" "K ! m = z"
  shows "m < k"
proof -
  obtain i where "i < k" "i < length K" "K ! i = z"
    using assms(2) by (auto simp: in_set_conv_nth)
  then show ?thesis using assms nth_eq_iff_index_eq by metis
qed

text \<open>The children of a row stand before it in the records, so after it in the order of a rollback.\<close>

lemma deletion_order:
  assumes d: "deletion sc t ids T D T'" and D: "D = D1 @ D2"
    and y: "y \<in> set (keys D)" and z: "z \<in> children sc T y" "z \<in> set (keys D2)"
  shows "y \<in> set (keys D2)"
proof -
  have dist: "distinct (keys D)" using d unfolding deletion_def separate_def by blast
  obtain k where k: "k < length (keys D)" "keys D ! k = y" using y by (metis in_set_conv_nth)
  have "children sc T (keys D ! k) \<subseteq> set (take k (keys D))"
    using d k(1) unfolding deletion_def gathers_def children_first_def by blast
  then have zk: "z \<in> set (take k (keys D))" using z(1) k(2) by blast
  obtain l where l: "l < length (keys D2)" "keys D2 ! l = z" using z(2) by (metis in_set_conv_nth)
  let ?n = "length (keys D1)"
  have kD: "keys D = keys D1 @ keys D2" using D by simp
  have lz: "?n + l < length (keys D)" "keys D ! (?n + l) = z" using l nth_append_length_plus [of "keys D1" "keys D2" l] unfolding kD by simp_all
  have "?n + l < k"
    by (rule before_in_take [OF dist zk lz])
  then have n: "0 < k - ?n" "k - ?n < length (keys D2)" "k = ?n + (k - ?n)"
    using k(1) unfolding kD by simp_all
  have yk: "keys D2 ! (k - ?n) = y" using k(2) n(3) unfolding kD by (metis nth_append_length_plus)
  then show ?thesis using n(2) by (metis nth_mem)
qed

definition restored :: "(jstr \<times> jstr) set \<Rightarrow> tables \<Rightarrow> tables \<Rightarrow> tables \<Rightarrow> bool" where
  "restored S T T' U \<longleftrightarrow> (\<forall>u. distinct (map fst (U u))) \<and>
     (\<forall>u i. row_of U u i = (if (u, i) \<in> S then row_of T u i else row_of T' u i))"

lemma restored_fk:
  assumes d: "deletion sc t ids T D T'" and D: "D = D1 @ D2" and U: "restored (set (keys D2)) T T' U"
  shows "fk_ok sc U"
proof -
  have rows: "row_of U u i = (if (u, i) \<in> set (keys D2) then row_of T u i else row_of T' u i)" for u i
    using U by (simp add: restored_def)
  have after: "row_of T' u i = (if doomed sc T t ids u i then None else row_of T u i)" for u i
    using d by (simp add: deletion_def)
  have T: "tabs_ok sc T" and T': "tabs_ok sc T'" using d by (auto simp: deletion_def)
  have "row_of U p x \<noteq> None"
    if k: "(c, col, p, b) \<in> set (sc_fks sc)" and r: "row_of U c j = Some r" "r col = Some (JStr x)" for c col p b j r x
  proof -
    have rT: "row_of T c j = Some r" using r(1) rows [of c j] after [of c j] by (auto split: if_splits)
    then have pT: "row_of T p x \<noteq> None" using fk_ok_target [OF T k] r(2) by blast
    show ?thesis
    proof (cases "doomed sc T t ids p x")
      case False
      then show ?thesis using rows [of p x] after [of p x] pT by simp
    next
      case True
      have px: "(p, x) \<in> set (keys D)" by (rule deletion_doomed [OF d True])
      have cj: "(c, j) \<in> set (keys D2)"
      proof (rule ccontr)
        assume "\<not> ?thesis"
        then have "row_of T' c j = Some r" using r(1) rows [of c j] by simp
        then have "row_of T' p x \<noteq> None" using fk_ok_target [OF T' k] r(2) by blast
        then show False using after [of p x] True by simp
      qed
      have "b" using separate_key [OF T _ k rT r(2) _ px] d cj D by (auto simp: deletion_def)
      then have "(c, j) \<in> children sc T (p, x)" using k rT r(2) by (auto simp: children_def)
      then have "(p, x) \<in> set (keys D2)" using deletion_order [OF d D px _ cj] by blast
      then show ?thesis using rows [of p x] pT by simp
    qed
  qed
  then show ?thesis using fk_ok_rows [of U sc] U unfolding restored_def by blast
qed

lemma undo_deletion:
  assumes d: "deletion sc t ids T D T'" and U: "same_rows U T'" "\<And>u. distinct (map fst (U u))"
  shows "\<exists>U'. rfold (undo_change sc) (rev (map (json_change sc) D)) U = Inr U' \<and> same_rows U' T \<and> tabs_ok sc U'"
proof -
  have T: "tabs_ok sc T" using d by (simp add: deletion_def)
  have step: "\<exists>U'. rfold (undo_change sc) (rev (map (json_change sc) D2)) U = Inr U' \<and> restored (set (keys D2)) T T' U'"
    if "D = D1 @ D2" for D1 D2
    using that
  proof (induction D2 arbitrary: D1)
    case Nil
    then show ?case using U by (auto simp: restored_def same_rows_def)
  next
    case (Cons ch D2)
    then obtain V where V: "rfold (undo_change sc) (rev (map (json_change sc) D2)) U = Inr V" "restored (set (keys D2)) T T' V"
      using Cons.IH [of "D1 @ [ch]"] by auto
    obtain u i r where r: "ch = DeleteRecord u i (fetched sc u r)" "row_of T u i = Some r" "row_of T' u i = None"
      using deletion_record [OF d, of ch] Cons.prems by auto
    have "distinct (keys D)" using d by (auto simp: deletion_def separate_def)
    then have "(u, i) \<notin> set (keys D2)" using Cons.prems r(1) by auto
    then have none: "row_of V u i = None" using V(2) r(3) by (simp add: restored_def)
    have js: "json_change sc ch = DeleteRecord u i (\<lambda>c. map_option (\<lambda>v. sc_json sc (fetched_value sc u c v)) (r c))"
      by (simp add: r(1) json_change_def fetched_def option.map_comp comp_def)
    let ?V' = "V(u := V u @ [(i, r)])"
    have "distinct (map fst (?V' w))" for w
      using V(2) none row_of_dom [of i V u] by (auto simp: restored_def)
    then have V': "restored (set (keys (ch # D2))) T T' ?V'"
      using V(2) none r row_of_insert [of V u i r] unfolding restored_def by auto
    then have "fk_ok sc ?V'" by (rule restored_fk [OF d Cons.prems])
    then have "undo_change sc (json_change sc ch) V = Inr ?V'"
      using none row_of_dom [of i V u] full_row_restores [OF tabs_ok_row [OF T r(2)]]
      by (simp add: js undo_change_def sql_insert_def checked_def)
    then show ?case using V V' by (simp add: rfold_append)
  qed
  have "D = [] @ D" by simp
  from step [OF this] obtain U' where
    U': "rfold (undo_change sc) (rev (map (json_change sc) D)) U = Inr U'" "restored (set (keys D)) T T' U'"
    by blast
  have "row_of U' u i = row_of T u i" for u i
  proof (cases "(u, i) \<in> set (keys D)")
    case False
    then have "\<not> doomed sc T t ids u i" using deletion_doomed [OF d] by blast
    then show ?thesis using U'(2) d False by (simp add: restored_def deletion_def)
  qed (use U'(2) in \<open>simp add: restored_def\<close>)
  then have same: "same_rows U' T" by (auto simp: same_rows_def)
  moreover have "tabs_ok sc U'" using same_rows_ok [OF T same] U'(2) by (simp add: restored_def)
  ultimately show ?thesis using U'(1) by blast
qed

section \<open>Undoing a store operation\<close>

definition undoes :: "schema \<Rightarrow> change list \<Rightarrow> tables \<Rightarrow> tables \<Rightarrow> bool" where
  "undoes sc R T T' \<longleftrightarrow> (\<forall>U. same_rows U T' \<longrightarrow> tabs_ok sc U \<longrightarrow>
     (\<exists>U'. rfold (undo_change sc) (rev R) U = Inr U' \<and> same_rows U' T \<and> tabs_ok sc U'))"

lemma undoes_append:
  assumes "undoes sc R T T1" "undoes sc S T1 T2"
  shows "undoes sc (R @ S) T T2"
  unfolding undoes_def
proof (intro allI impI)
  fix U assume U: "same_rows U T2" "tabs_ok sc U"
  obtain V where V: "rfold (undo_change sc) (rev S) U = Inr V" "same_rows V T1" "tabs_ok sc V"
    using assms(2) U unfolding undoes_def by blast
  obtain W where "rfold (undo_change sc) (rev R) V = Inr W" "same_rows W T" "tabs_ok sc W"
    using assms(1) V(2,3) unfolding undoes_def by blast
  then show "\<exists>U'. rfold (undo_change sc) (rev (R @ S)) U = Inr U' \<and> same_rows U' T \<and> tabs_ok sc U'"
    using V(1) by (simp add: rfold_append)
qed

lemma undoes_nothing: "undoes sc [] T T"
  by (simp add: undoes_def)

lemma tracked_write_undoes:
  "tracked_write sc t (set is) T T' \<Longrightarrow> undoes sc (map (upsert_record sc t T) is) T T'"
  unfolding undoes_def using undo_write tabs_ok_distinct by blast

lemma deletion_undoes: "deletion sc t ids T D T' \<Longrightarrow> undoes sc (map (json_change sc) D) T T'"
  unfolding undoes_def using undo_deletion tabs_ok_distinct by blast

subsection \<open>The writes of an upsert and of an insert\<close>

lemma tracked_write_refl: "schema_ok sc \<Longrightarrow> tabs_ok sc T \<Longrightarrow> tracked_write sc t {} T T"
  by (simp add: tracked_write_def touches_only_def)

lemma tracked_write_trans:
  assumes "tracked_write sc t A T T1" "tracked_write sc t B T1 T2"
  shows "tracked_write sc t (A \<union> B) T T2"
proof -
  have "touches_only t (A \<union> B) T T2"
    using assms by (simp add: tracked_write_def touches_only_def)
  moreover have "row_of T2 t i \<noteq> None" if "i \<in> A \<union> B" for i
    using that tracked_writeD(5) [OF assms(1)] tracked_writeD(5) [OF assms(2)] write_keeps_rows [OF assms(2)] by blast
  ultimately show ?thesis using assms by (simp add: tracked_write_def)
qed

lemma concat_batches: "concat (splitIntoBatches xs m) = xs"
proof (induction xs m rule: splitIntoBatches.induct)
  case (1 xs m)
  then show ?case by (cases "length xs \<le> m \<or> m = 0") (simp_all add: splitIntoBatches.simps [of xs])
qed

lemma set_batches: "(\<Union>b \<in> set (splitIntoBatches xs m). set b) = set xs"
  using concat_batches [of xs m] by (metis set_concat)

lemma upsert_write:
  assumes "orm_ok sc om" "schema_ok sc" "tabs_ok sc T" "orm_upsert om t es T = Inr T'"
  shows "tracked_write sc t (e_id ` set es) T T'"
  using assms unfolding orm_ok_def tracked_write_def by blast

lemma batches_write:
  assumes op: "\<And>b T T'. tabs_ok sc T \<Longrightarrow> f b T = Inr T' \<Longrightarrow> tracked_write sc t (e_id ` set b) T T'"
    and sc: "schema_ok sc"
  shows "tabs_ok sc T \<Longrightarrow> rfold f bs T = Inr T' \<Longrightarrow> tracked_write sc t (e_id ` (\<Union>b \<in> set bs. set b)) T T'"
proof (induction bs arbitrary: T)
  case Nil
  then show ?case using tracked_write_refl [OF sc] by simp
next
  case (Cons b bs)
  obtain T1 where T1: "f b T = Inr T1" "rfold f bs T1 = Inr T'" using Cons.prems(2) by (auto simp: result_simps)
  have w: "tracked_write sc t (e_id ` set b) T T1" by (rule op [OF Cons.prems(1) T1(1)])
  from tracked_write_trans [OF w Cons.IH [OF tracked_writeD(3) [OF w] T1(2)]]
  show ?case by (simp add: image_Un)
qed

lemma upsertMany_write:
  assumes "orm_ok sc om" "schema_ok sc" "tabs_ok sc T" "upsertMany om t es T = Inr T'"
  shows "tracked_write sc t (e_id ` set es) T T'"
  using batches_write [of sc "orm_upsert om t" t, OF upsert_write [OF assms(1,2)] assms(2,3), of "splitIntoBatches es 1000" T']
    assms(4) set_batches [of es 1000] by (simp add: upsertMany_def)

lemma saveMany_loop_write:
  assumes "orm_ok sc om" "schema_ok sc"
  shows "tabs_ok sc T \<Longrightarrow> saveMany_loop om t fk es sig batch T = Inr T' \<Longrightarrow>
    tracked_write sc t (e_id ` set batch \<union> e_id ` set es) T T'"
proof (induction es arbitrary: sig batch T)
  case Nil
  then show ?case
    using upsertMany_write [OF assms] tracked_write_refl [OF assms(2)] by (auto split: if_splits)
next
  case (Cons e es)
  show ?case
  proof (cases "getFkSignature fk e = sig")
    case True
    then have "saveMany_loop om t fk es sig (batch @ [e]) T = Inr T'" using Cons.prems(2) by simp
    from Cons.IH [OF Cons.prems(1) this] show ?thesis by (simp add: Un_commute Un_left_commute)
  next
    case False
    then obtain T1 where T1: "upsertMany om t batch T = Inr T1"
        "saveMany_loop om t fk es (getFkSignature fk e) [e] T1 = Inr T'"
      using Cons.prems(2) by (auto simp: Let_def result_simps)
    have w: "tracked_write sc t (e_id ` set batch) T T1"
      by (rule upsertMany_write [OF assms Cons.prems(1) T1(1)])
    from tracked_write_trans [OF w Cons.IH [OF tracked_writeD(3) [OF w] T1(2)]]
    show ?thesis by simp
  qed
qed

lemma saveMany_write:
  assumes "orm_ok sc om" "schema_ok sc" "tabs_ok sc T" "saveMany sc om t es T = Inr T'"
  shows "tracked_write sc t (e_id ` set es) T T'"
  using assms(4) upsertMany_write [OF assms(1-3)] saveMany_loop_write [OF assms(1-3), of t _ es _ "[]"]
  by (auto simp: saveMany_def Let_def result_simps split: if_splits)

lemma insert_write:
  assumes "orm_ok sc om" "schema_ok sc" "tabs_ok sc T" "orm_insert om t es T = Inr T'"
  shows "tracked_write sc t (e_id ` set es) T T'" "\<And>e. e \<in> set es \<Longrightarrow> row_of T t (e_id e) = None"
  using assms unfolding orm_ok_def tracked_write_def by blast+

lemma inserts_new:
  assumes "orm_ok sc om" "schema_ok sc"
  shows "tabs_ok sc T \<Longrightarrow> rfold (\<lambda>b. orm_insert om t b) bs T = Inr T' \<Longrightarrow>
    e \<in> (\<Union>b \<in> set bs. set b) \<Longrightarrow> row_of T t (e_id e) = None"
proof (induction bs arbitrary: T)
  case Nil
  then show ?case by simp
next
  case (Cons b bs)
  obtain T1 where T1: "orm_insert om t b T = Inr T1" "rfold (\<lambda>b. orm_insert om t b) bs T1 = Inr T'"
    using Cons.prems(2) by (auto simp: result_simps)
  note w = insert_write [OF assms Cons.prems(1) T1(1)]
  show ?case
  proof (cases "e \<in> set b")
    case False
    then have "row_of T1 t (e_id e) = None"
      using Cons.IH [OF tracked_writeD(3) [OF w(1)] T1(2)] Cons.prems(3) by simp
    then show ?thesis using write_keeps_rows [OF w(1)] by blast
  qed (rule w(2))
qed

subsection \<open>The records\<close>

lemma upsert_records:
  assumes "tabs_ok sc T"
  shows "map (json_change sc) (trackUpsert sc t es T) = map (upsert_record sc t T) (map e_id es)"
proof -
  have f: "map_of (rev (fetchEntities sc t ids T)) i = map_option (fetched sc t) (row_of T t i)" if "i \<in> set ids" for i ids
  proof -
    have keep: "map fst (fetchEntities sc t ids T) = map fst (select_in t ids T)"
      by (auto simp: fetchEntities_def)
    have "distinct (map fst (select_in t ids T))"
      unfolding select_in_def by (rule keys_filter [OF tabs_ok_distinct [OF assms]])
    then have "map_of (rev (fetchEntities sc t ids T)) i = map_of (fetchEntities sc t ids T) i"
      using keep map_of_inject_set [of "rev (fetchEntities sc t ids T)" "fetchEntities sc t ids T"] by (simp add: rev_map [symmetric])
    also have "\<dots> = map_option (fetched sc t) (map_of (select_in t ids T) i)"
    proof -
      have "map_of (map (\<lambda>(i, r). (i, g r)) xs) i = map_option g (map_of xs i)" for g :: "row \<Rightarrow> row" and xs
        by (induction xs) auto
      then show ?thesis unfolding fetchEntities_def fetched_def .
    qed
    also have "map_of (select_in t ids T) i = row_of T t i"
    proof -
      have "map_of (filter (\<lambda>(i, r). i \<in> set ids) xs) i = map_of xs i" for xs :: "(jstr \<times> row) list"
        using that by (induction xs) auto
      then show ?thesis by (simp add: select_in_def)
    qed
    finally show ?thesis .
  qed
  have "json_change sc (case map_of (rev (fetchEntities sc t (map e_id es) T)) (e_id e) of
        Some flds \<Rightarrow> UpdateRecord t (e_id e) flds | None \<Rightarrow> InsertRecord t (e_id e)) = upsert_record sc t T (e_id e)"
    if "e \<in> set es" for e
    using f [of "e_id e" "map e_id es"] that
    by (cases "row_of T t (e_id e)")
      (simp_all add: json_change_def upsert_record_def fetched_def option.map_comp comp_def)
  then show ?thesis by (simp add: trackUpsert_def Let_def)
qed

lemma insert_records:
  assumes "\<And>e. e \<in> set es \<Longrightarrow> row_of T t (e_id e) = None"
  shows "map (json_change sc) (trackInsert t es) = map (upsert_record sc t T) (map e_id es)"
  using assms by (simp add: trackInsert_def json_change_def upsert_record_def)

section \<open>A tracked run of a handler\<close>

text \<open>Every deletion of the run can be undone: it collects no row twice, and the rows it removes refer to
  each other by cascading keys only.\<close>

definition op_separate :: "schema \<Rightarrow> store_op \<Rightarrow> tables \<Rightarrow> bool" where
  "op_separate sc a T =
     (let ok = (\<lambda>t ids. case trackDelete sc t ids T of Inr D \<Rightarrow> separate sc T D | Inl _ \<Rightarrow> True)
      in case a of
           RemoveOne e \<Rightarrow> ok (e_class e) [e_id e]
         | RemoveMany es \<Rightarrow> ok (e_class (hd es)) (map e_id es)
         | RemoveIds t ids \<Rightarrow> ok t ids
         | _ \<Rightarrow> True)"

primrec run_separate :: "schema \<Rightarrow> orm \<Rightarrow> handler \<Rightarrow> tracker option \<times> db \<Rightarrow> bool" where
  "run_separate sc om (Return tms) s = True"
| "run_separate sc om (Throw e) s = True"
| "run_separate sc om (Do a k) s =
     (op_separate sc a (db_tabs (snd s)) \<and>
      (case store_step sc om a s of Inl _ \<Rightarrow> True | Inr s' \<Rightarrow> run_separate sc om (k (db_tabs (snd s'))) s'))"

fun log_rows :: "int \<Rightarrow> nat \<Rightarrow> change list \<Rightarrow> (int \<times> nat \<times> change) list" where
  "log_rows h k [] = []"
| "log_rows h k (ch # chs) = (h, k, ch) # log_rows h (Suc k) chs"

lemma log_rows_append: "log_rows h k (R @ S) = log_rows h k R @ log_rows h (k + length R) S"
  by (induction R arbitrary: k) auto

text \<open>What a tracked step did: the tables moved from \<open>T\<close> to those of the new state, and the log grew by
  records that undo the move.\<close>

definition tracked :: "schema \<Rightarrow> int \<Rightarrow> nat \<Rightarrow> db \<Rightarrow> change list \<Rightarrow> db \<Rightarrow> bool" where
  "tracked sc h k D R D' \<longleftrightarrow> D' = D\<lparr>db_tabs := db_tabs D', db_log := db_log D @ log_rows h k R\<rparr> \<and>
     tabs_ok sc (db_tabs D') \<and> undoes sc R (db_tabs D) (db_tabs D')"

lemma tracked_refl: "tabs_ok sc (db_tabs D) \<Longrightarrow> tracked sc h k D [] D"
  by (simp add: tracked_def undoes_nothing)

lemma tracked_trans:
  assumes "tracked sc h k D R D1" "tracked sc h (k + length R) D1 S D2"
  shows "tracked sc h k D (R @ S) D2"
proof -
  have d1: "D1 = D\<lparr>db_tabs := db_tabs D1, db_log := db_log D @ log_rows h k R\<rparr>" using assms(1) by (simp add: tracked_def)
  have d2: "D2 = D1\<lparr>db_tabs := db_tabs D2, db_log := db_log D1 @ log_rows h (k + length R) S\<rparr>" using assms(2) by (simp add: tracked_def)
  have "db_log D1 = db_log D @ log_rows h k R" by (subst d1) simp
  then have "D2 = D1\<lparr>db_tabs := db_tabs D2, db_log := db_log D @ log_rows h k (R @ S)\<rparr>"
    using d2 by (simp add: log_rows_append)
  also have "\<dots> = D\<lparr>db_tabs := db_tabs D2, db_log := db_log D @ log_rows h k (R @ S)\<rparr>"
    by (subst d1) simp
  finally show ?thesis using assms undoes_append unfolding tracked_def by blast
qed

lemma writeChangeRows_rows:
  "writeChangeRows sc chs ((h, k), D) = Inr (tr, D') \<Longrightarrow>
    tr = (h, k + length chs) \<and> D' = D\<lparr>db_log := db_log D @ log_rows h k (map (json_change sc) chs)\<rparr>"
proof (induction chs arbitrary: k D)
  case Nil
  then show ?case by simp
next
  case (Cons ch chs)
  obtain D1 where D1: "log_insert (h, k, json_change sc ch) D = Inr D1"
      "writeChangeRows sc chs ((h, Suc k), D1) = Inr (tr, D')"
    using Cons.prems by (auto simp: result_simps)
  have "D1 = D\<lparr>db_log := db_log D @ [(h, k, json_change sc ch)]\<rparr>"
    using D1(1) by (auto simp: log_insert_def split: if_splits)
  then show ?case using Cons.IH [OF D1(2)] by simp
qed

text \<open>A step of the store: its records, then its change of the tables.\<close>

definition tracked_op ::
  "schema \<Rightarrow> (tables \<Rightarrow> change list result) \<Rightarrow> (tables \<Rightarrow> tables result) \<Rightarrow> tracker option \<times> db \<Rightarrow> (tracker option \<times> db) result" where
  "tracked_op sc f g s = rbind (track sc f s) (on_tables g)"

lemma tracked_op_run:
  assumes run: "tracked_op sc f g (Some (h, k), D) = Inr s'"
    and op: "\<And>chs T'. f (db_tabs D) = Inr chs \<Longrightarrow> g (db_tabs D) = Inr T' \<Longrightarrow>
      tabs_ok sc T' \<and> undoes sc (map (json_change sc) chs) (db_tabs D) T'"
  shows "\<exists>R D'. s' = (Some (h, k + length R), D') \<and> tracked sc h k D R D'"
proof -
  obtain chs tr D1 where 1: "f (db_tabs D) = Inr chs" "writeChangeRows sc chs ((h, k), D) = Inr (tr, D1)"
      "on_tables g (Some tr, D1) = Inr s'"
    using run by (auto simp: tracked_op_def track_def result_simps split: prod.splits)
  note w = writeChangeRows_rows [OF 1(2)]
  have "db_tabs D1 = db_tabs D" using w by simp
  then obtain T' where T': "g (db_tabs D) = Inr T'" "s' = (Some tr, D1\<lparr>db_tabs := T'\<rparr>)"
    using 1(3) by (auto simp: on_tables_def result_simps)
  have "tracked sc h k D (map (json_change sc) chs) (D1\<lparr>db_tabs := T'\<rparr>)"
    using w op [OF 1(1) T'(1)] by (simp add: tracked_def)
  then show ?thesis using w T'(2) by (intro exI [of _ "map (json_change sc) chs"]) auto
qed

lemma remove_op:
  assumes "orm_ok sc om" "schema_ok sc" "tabs_ok sc T"
    and sep: "\<And>D. trackDelete sc t ids T = Inr D \<Longrightarrow> separate sc T D"
    and "trackDelete sc t ids T = Inr chs" "orm_delete om t ids T = Inr T'"
  shows "tabs_ok sc T' \<and> undoes sc (map (json_change sc) chs) T T'"
proof -
  have "collectCascadeDeletes sc (nesting sc T) T t ids [] = Some chs"
    using assms(5) by (simp add: trackDelete_def)
  from collect_correct [OF assms(2,3) this] have "gathers sc T t ids chs"
      "\<forall>i \<in> set ids. row_of T t i \<noteq> None \<longrightarrow> (t, i) \<in> set (keys chs)" by simp_all
  moreover have "tabs_ok sc T' \<and> (\<forall>u i. row_of T' u i = (if doomed sc T t ids u i then None else row_of T u i))"
    using assms(1,3,6) unfolding orm_ok_def by blast
  ultimately have "deletion sc t ids T chs T'"
    using assms(2,3) sep [OF assms(5)] unfolding deletion_def by blast
  from deletion_undoes [OF this] this show ?thesis unfolding deletion_def by blast
qed

lemma upsert_op:
  assumes "tabs_ok sc T" "tracked_write sc t (e_id ` set es) T T'"
  shows "tabs_ok sc T' \<and> undoes sc (map (json_change sc) (trackUpsert sc t es T)) T T'"
  using tracked_write_undoes [of sc t "map e_id es"] assms upsert_records [OF assms(1)] tracked_writeD(3) by simp

lemma insert_op:
  assumes "tracked_write sc t (e_id ` set es) T T'" "\<And>e. e \<in> set es \<Longrightarrow> row_of T t (e_id e) = None"
  shows "tabs_ok sc T' \<and> undoes sc (map (json_change sc) (trackInsert t es)) T T'"
proof -
  have "map (json_change sc) (trackInsert t es) = map (upsert_record sc t T) (map e_id es)"
    using assms(2) by (rule insert_records)
  then show ?thesis using tracked_write_undoes [of sc t "map e_id es" T T'] assms(1) tracked_writeD(3) [OF assms(1)] by simp
qed

lemma insert_many_op:
  assumes "orm_ok sc om" "schema_ok sc" "tabs_ok sc T"
    "rfold (\<lambda>b. orm_insert om t b) (splitIntoBatches es 1000) T = Inr T'"
  shows "tabs_ok sc T' \<and> undoes sc (map (json_change sc) (trackInsert t es)) T T'"
proof (rule insert_op)
  show "tracked_write sc t (e_id ` set es) T T'"
    using batches_write [of sc "orm_insert om t" t, OF insert_write(1) [OF assms(1,2)] assms(2,3), of "splitIntoBatches es 1000" T']
      assms(4) set_batches [of es 1000] by simp
  show "row_of T t (e_id e) = None" if "e \<in> set es" for e
    using inserts_new [OF assms] that set_batches [of es 1000] by blast
qed

lemma store_step_tracked:
  assumes om: "orm_ok sc om" and sc: "schema_ok sc" and T: "tabs_ok sc (db_tabs D)"
    and sep: "op_separate sc a (db_tabs D)"
    and run: "store_step sc om a (Some (h, k), D) = Inr s'"
  shows "\<exists>R D'. s' = (Some (h, k + length R), D') \<and> tracked sc h k D R D'"
proof -
  have idle: ?thesis if "s' = (Some (h, k), D)"
    using that tracked_refl [OF T, of h k] by force
  have del: "separate sc (db_tabs D) R" if "trackDelete sc t ids (db_tabs D) = Inr R"
      "case trackDelete sc t ids (db_tabs D) of Inr R \<Rightarrow> separate sc (db_tabs D) R | Inl _ \<Rightarrow> True" for t ids R
    using that by simp
  show ?thesis
  proof (cases a)
    case (UpsertOne e)
    show ?thesis
    proof (rule tracked_op_run)
      show "tracked_op sc (\<lambda>T. Inr (trackUpsert sc (e_class e) [e] T)) (orm_upsert om (e_class e) [e]) (Some (h, k), D) = Inr s'"
        using run by (simp add: UpsertOne store_step_def tracked_op_def)
    qed (use upsert_op [OF T] upsert_write [OF om sc T] in blast)
  next
    case (Upsert es)
    show ?thesis
    proof (cases "es = []")
      case False
      show ?thesis
      proof (rule tracked_op_run)
        show "tracked_op sc (\<lambda>T. Inr (trackUpsert sc (e_class (hd es)) es T)) (saveMany sc om (e_class (hd es)) es) (Some (h, k), D) = Inr s'"
          using run False by (auto simp: Upsert store_step_def tracked_op_def rbind_eq_Inr [of "same_class es"])
      qed (use upsert_op [OF T] saveMany_write [OF om sc T] in blast)
    qed (use run idle in \<open>simp add: Upsert store_step_def\<close>)
  next
    case (InsertOne e)
    show ?thesis
    proof (rule tracked_op_run)
      show "tracked_op sc (\<lambda>T. Inr (trackInsert (e_class e) [e])) (orm_insert om (e_class e) [e]) (Some (h, k), D) = Inr s'"
        using run by (simp add: InsertOne store_step_def tracked_op_def)
    qed (use insert_op insert_write [OF om sc T] in blast)
  next
    case (Insert es)
    show ?thesis
    proof (cases "es = []")
      case False
      show ?thesis
      proof (rule tracked_op_run)
        show "tracked_op sc (\<lambda>T. Inr (trackInsert (e_class (hd es)) es))
            (rfold (\<lambda>b. orm_insert om (e_class (hd es)) b) (splitIntoBatches es 1000)) (Some (h, k), D) = Inr s'"
          using run False by (auto simp: Insert store_step_def tracked_op_def rbind_eq_Inr [of "same_class es"])
      qed (use insert_many_op [OF om sc T] in blast)
    qed (use run idle in \<open>simp add: Insert store_step_def\<close>)
  next
    case (RemoveOne e)
    show ?thesis
    proof (rule tracked_op_run)
      show "tracked_op sc (trackDelete sc (e_class e) [e_id e]) (orm_delete om (e_class e) [e_id e]) (Some (h, k), D) = Inr s'"
        using run by (simp add: RemoveOne store_step_def tracked_op_def)
    qed (use remove_op [OF om sc T] del sep in \<open>simp add: RemoveOne op_separate_def\<close>)
  next
    case (RemoveMany es)
    show ?thesis
    proof (cases "es = []")
      case False
      show ?thesis
      proof (rule tracked_op_run)
        show "tracked_op sc (trackDelete sc (e_class (hd es)) (map e_id es)) (orm_delete om (e_class (hd es)) (map e_id es)) (Some (h, k), D) = Inr s'"
          using run False by (auto simp: RemoveMany store_step_def tracked_op_def rbind_eq_Inr [of "same_class es"])
      qed (use remove_op [OF om sc T] del sep in \<open>simp add: RemoveMany op_separate_def\<close>)
    qed (use run idle in \<open>simp add: RemoveMany store_step_def\<close>)
  next
    case (RemoveIds t ids)
    show ?thesis
    proof (rule tracked_op_run)
      show "tracked_op sc (trackDelete sc t ids) (orm_delete om t ids) (Some (h, k), D) = Inr s'"
        using run by (simp add: RemoveIds store_step_def tracked_op_def)
    qed (use remove_op [OF om sc T] del sep in \<open>simp add: RemoveIds op_separate_def\<close>)
  qed
qed

lemma run_handler_tracked:
  assumes om: "orm_ok sc om" and sc: "schema_ok sc"
  shows "tabs_ok sc (db_tabs D) \<Longrightarrow> run_separate sc om p (Some (h, k), D) \<Longrightarrow>
    run_handler sc om p (Some (h, k), D) = Inr (tms, D') \<Longrightarrow> \<exists>R. tracked sc h k D R D'"
proof (induction p arbitrary: k D)
  case (Return tms')
  then show ?case using tracked_refl [OF Return.prems(1), of h k] by auto
next
  case (Throw e)
  then show ?case by simp
next
  case (Do a c)
  obtain s' where s': "store_step sc om a (Some (h, k), D) = Inr s'"
      "run_handler sc om (c (db_tabs (snd s'))) s' = Inr (tms, D')"
    using Do.prems(3) by (auto simp: result_simps)
  obtain R D1 where R: "s' = (Some (h, k + length R), D1)" "tracked sc h k D R D1"
    using store_step_tracked [OF om sc Do.prems(1) _ s'(1)] Do.prems(2) by auto
  have "tabs_ok sc (db_tabs D1)" "run_separate sc om (c (db_tabs D1)) (Some (h, k + length R), D1)"
    using R Do.prems(2) s'(1) by (auto simp: tracked_def)
  then obtain S where "tracked sc h (k + length R) D1 S D'"
    using Do.IH [of "c (db_tabs D1)" D1 "k + length R"] s'(2) R(1) by auto
  then show ?case using tracked_trans [OF R(2)] by blast
qed

section \<open>Rolling a slice of hot blocks back\<close>

lemma persist_templates:
  "\<exists>X. persist h ms D = D\<lparr>db_templates := db_templates D @ X\<rparr> \<and> (\<forall>x \<in> set X. snd x = h)"
proof (induction ms arbitrary: D)
  case Nil
  then show ?case by (intro exI [of _ "[]"]) simp
next
  case (Cons m ms)
  show ?case
  proof (cases "(m, h) \<in> set (db_templates D)")
    case True
    then show ?thesis using Cons.IH [of D] by simp
  next
    case False
    obtain X where "persist h ms (D\<lparr>db_templates := db_templates D @ [(m, h)]\<rparr>) =
        D\<lparr>db_templates := db_templates D @ [(m, h)] @ X\<rparr>" "\<forall>x \<in> set X. snd x = h"
      using Cons.IH [of "D\<lparr>db_templates := db_templates D @ [(m, h)]\<rparr>"] by auto
    then show ?thesis using False by (intro exI [of _ "(m, h) # X"]) simp
  qed
qed

lemma log_rows_heights: "filter (\<lambda>l. fst l = g) (log_rows h k R) = (if g = h then log_rows h k R else [])"
  by (induction R arbitrary: k) auto

lemma log_rows_sorted: "j \<le> k \<Longrightarrow> sorted (j # map fst (map snd (log_rows h k R)))"
proof (induction R arbitrary: j k)
  case (Cons ch R)
  have "sorted (k # map fst (map snd (log_rows h (Suc k) R)))" by (rule Cons.IH) simp
  then show ?case using Cons.prems by auto
qed simp

lemma log_rows_changes: "map snd (map snd (log_rows h k R)) = R"
  by (induction R arbitrary: k) auto

definition unused :: "int \<Rightarrow> db \<Rightarrow> bool" where
  "unused h D \<longleftrightarrow> (\<forall>b \<in> set (db_hot D). hh_height b \<noteq> h) \<and> (\<forall>l \<in> set (db_log D). fst l \<noteq> h) \<and>
     (\<forall>x \<in> set (db_templates D). snd x \<noteq> h)"

text \<open>The state after the handler of the hot block \<open>b\<close>, from the state before it.\<close>

lemma hot_block_state:
  assumes om: "orm_ok sc om" and sc: "schema_ok sc" and T: "tabs_ok sc (db_tabs D)"
    and ins: "insertHotBlock b D = Inr D1"
    and sep: "run_separate sc om (cb (db_tabs D1)) (Some (ChangeTracker (hh_height b)), D1)"
    and run: "performUpdates sc om cb (hh_height b) (Some (ChangeTracker (hh_height b))) D1 = Inr D2"
  shows "\<exists>T' R X. D2 = D\<lparr>db_tabs := T', db_hot := db_hot D @ [b],
      db_log := db_log D @ (hh_height b, 0, Sentinel) # log_rows (hh_height b) 1 R, db_templates := db_templates D @ X\<rparr> \<and>
    tabs_ok sc T' \<and> undoes sc R (db_tabs D) T' \<and> (\<forall>x \<in> set X. snd x = hh_height b)"
proof -
  let ?h = "hh_height b"
  have D1: "D1 = D\<lparr>db_hot := db_hot D @ [b], db_log := db_log D @ [(?h, 0, Sentinel)]\<rparr>"
    using ins by (auto simp: insertHotBlock_def log_insert_def split: if_splits)
  obtain tms D' where D': "run_handler sc om (cb (db_tabs D1)) (Some (?h, 1), D1) = Inr (tms, D')" "D2 = persist ?h tms D'"
    using run by (auto simp: performUpdates_def ChangeTracker_def result_simps)
  have T1: "tabs_ok sc (db_tabs D1)" using T D1 by simp
  obtain R where R: "tracked sc ?h 1 D1 R D'"
    using run_handler_tracked [OF om sc T1 _ D'(1)] sep by (auto simp: ChangeTracker_def)
  obtain X where X: "D2 = D'\<lparr>db_templates := db_templates D' @ X\<rparr>" "\<forall>x \<in> set X. snd x = ?h"
    using persist_templates [of ?h tms D'] D'(2) by auto
  obtain T' where T': "D' = D1\<lparr>db_tabs := T', db_log := db_log D1 @ log_rows ?h 1 R\<rparr>"
    using R unfolding tracked_def by blast
  have "D2 = D\<lparr>db_tabs := T', db_hot := db_hot D @ [b],
      db_log := db_log D @ (?h, 0, Sentinel) # log_rows ?h 1 R, db_templates := db_templates D @ X\<rparr>"
    using X(1) by (simp add: T' D1)
  moreover have "tabs_ok sc T'" "undoes sc R (db_tabs D) T'"
    using R by (simp_all add: tracked_def T' D1)
  ultimately show ?thesis using X(2) by blast
qed

lemma rollback_state:
  assumes un: "unused (hh_height b) D" and U: "undoes sc R (db_tabs D) T'" "tabs_ok sc T'" "\<forall>x \<in> set X. snd x = hh_height b"
    and D2: "D2 = D\<lparr>db_tabs := T', db_hot := db_hot D @ [b],
      db_log := db_log D @ (hh_height b, 0, Sentinel) # log_rows (hh_height b) 1 R, db_templates := db_templates D @ X\<rparr>"
  shows "\<exists>T''. rollbackBlock sc (hh_height b) D2 = Inr (D\<lparr>db_tabs := T''\<rparr>) \<and> same_rows T'' (db_tabs D) \<and> tabs_ok sc T''"
proof -
  let ?h = "hh_height b"
  obtain T'' where T'': "rfold (undo_change sc) (rev R) T' = Inr T''" "same_rows T'' (db_tabs D)" "tabs_ok sc T''"
    using U(1,2) unfolding undoes_def same_rows_def by blast
  have none: "filter (\<lambda>l. fst l = ?h) (db_log D) = []"
    using un by (auto simp: unused_def filter_empty_conv)
  let ?L = "(0, Sentinel) # map snd (log_rows ?h 1 R)"
  have "sorted (map fst ?L)" using log_rows_sorted [of 0 1 ?h R] by simp
  then have "sort_key fst ?L = ?L" by (rule sort_key_id_if_sorted)
  then have ch: "block_changes ?h D2 = rev ?L"
    using none by (simp add: block_changes_def D2 log_rows_heights)
  have "rfold (\<lambda>l. undo_change sc (snd l)) (rev ?L) T' = rfold (undo_change sc) (map snd (rev ?L)) T'"
    by (simp only: rfold_map)
  also have "map snd (rev ?L) = rev R @ [Sentinel]"
    using log_rows_changes [of ?h 1 R] by (simp add: rev_map [symmetric])
  also have "rfold (undo_change sc) (rev R @ [Sentinel]) T' = Inr T''"
    using T''(1) by (simp add: rfold_append undo_change_def)
  finally have undo: "rfold (\<lambda>l. undo_change sc (snd l)) (rev ?L) T' = Inr T''" .
  have tmp: "filter (\<lambda>(m, h). h \<noteq> ?h) (db_templates D @ X) = db_templates D"
  proof -
    have "filter (\<lambda>(m, h). h \<noteq> ?h) (db_templates D) = db_templates D"
      using un by (auto simp: unused_def filter_id_conv)
    moreover have "filter (\<lambda>(m, h). h \<noteq> ?h) X = []"
      using U(3) by (auto simp: filter_empty_conv)
    ultimately show ?thesis by simp
  qed
  have hot: "filter (\<lambda>c. \<not> hh_height c = ?h) (db_hot D @ [b]) = db_hot D"
    using un by (auto simp: unused_def filter_id_conv)
  have logs: "filter (\<lambda>l. \<not> (fst l = ?h \<and> fst l \<in> hh_height ` set (db_hot D @ [b])))
      (db_log D @ (?h, 0, Sentinel) # log_rows ?h 1 R) = db_log D"
  proof -
    have "filter (\<lambda>l. fst l \<noteq> ?h) (log_rows ?h k R) = []" for k
      by (induction R arbitrary: k) auto
    then show ?thesis using un by (simp add: unused_def filter_id_conv cong: conj_cong)
  qed
  have "rollbackBlock sc ?h D2 = Inr (D\<lparr>db_tabs := T''\<rparr>)"
    unfolding rollbackBlock_def ch using undo tmp hot logs by (simp add: D2 drop_hot_def)
  then show ?thesis using T''(2,3) by blast
qed


text \<open>What a delete removes, computed: the rows that \<open>collectCascadeDeletes\<close> collects.\<close>

lemma doomed_collected:
  assumes "schema_ok sc" "tabs_ok sc T" "collectCascadeDeletes sc n T t ids [] = Some D"
  shows "doomed sc T t ids u i \<longleftrightarrow> (u, i) \<in> set (keys D)"
proof -
  have g: "gathers sc T t ids D" "\<forall>i \<in> set ids. row_of T t i \<noteq> None \<longrightarrow> (t, i) \<in> set (keys D)"
    using collect_correct [OF assms] by simp_all
  show ?thesis
  proof
    assume "(u, i) \<in> set (keys D)"
    then obtain ch where "ch \<in> set D" "(u, i) = change_key ch" by (rule map_memE)
    then show "doomed sc T t ids u i" using g(1) unfolding gathers_def by force
  next
    assume "doomed sc T t ids u i"
    with assms(2) g show "(u, i) \<in> set (keys D)" by (rule gathers_doomed)
  qed
qed

section \<open>A mapper that keeps the promises\<close>

text \<open>A plain mapper over the statements above, for any schema whose stored values survive a record.\<close>

definition upsert_row :: "schema \<Rightarrow> jstr \<Rightarrow> entity \<Rightarrow> tables \<Rightarrow> tables" where
  "upsert_row sc t e T =
     (if row_of T t (e_id e) \<noteq> None then update_rows sc t (e_id e) (e_row e) T
      else T(t := T t @ [(e_id e, full_row sc t (e_row e))]))"

definition insert_row :: "schema \<Rightarrow> jstr \<Rightarrow> entity \<Rightarrow> tables \<Rightarrow> tables result" where
  "insert_row sc t e T =
     (if row_of T t (e_id e) \<noteq> None then Inl unique_violation else Inr (upsert_row sc t e T))"

definition plain_orm :: "schema \<Rightarrow> orm" where
  "plain_orm sc =
     \<lparr>orm_upsert = \<lambda>t es T. checked sc (fold (upsert_row sc t) es T),
      orm_insert = \<lambda>t es T. rbind (rfold (insert_row sc t) es T) (checked sc),
      orm_delete = \<lambda>t ids T. rbind (trackDelete sc t ids T) (\<lambda>D.
        checked sc (\<lambda>u. filter (\<lambda>(i, r). (u, i) \<notin> set (keys D)) (T u)))\<rparr>"

definition castable :: "schema \<Rightarrow> bool" where
  "castable sc \<longleftrightarrow> (\<forall>t c v w. w = JNull \<or> w = sc_cast sc t c v \<longrightarrow> sc_cast sc t c (sc_json sc (fetched_value sc t c w)) = w)"

definition rows_ok :: "schema \<Rightarrow> tables \<Rightarrow> bool" where
  "rows_ok sc T \<longleftrightarrow> (\<forall>t. distinct (map fst (T t)) \<and> (\<forall>i r. row_of T t i = Some r \<longrightarrow> row_ok sc t r))"

lemma tabs_ok_iff: "tabs_ok sc T \<longleftrightarrow> rows_ok sc T \<and> fk_ok sc T"
  by (simp add: tabs_ok_def rows_ok_def)

lemma full_row_ok: "castable sc \<Longrightarrow> row_ok sc t (full_row sc t r)"
  unfolding row_ok_def full_row_def castable_def by (auto split: option.splits)

lemma set_columns_ok: "castable sc \<Longrightarrow> row_ok sc t r \<Longrightarrow> row_ok sc t (set_columns sc t flds r)"
  unfolding row_ok_def set_columns_def castable_def by (auto split: option.splits)

lemma row_of_upsert:
  "row_of (upsert_row sc t e T) u i =
     (if u = t \<and> i = e_id e then Some (case row_of T t i of Some r \<Rightarrow> set_columns sc t (e_row e) r | None \<Rightarrow> full_row sc t (e_row e))
      else row_of T u i)"
proof (cases "row_of T t (e_id e)")
  case None
  then show ?thesis using row_of_insert [of T t "e_id e"] by (simp add: upsert_row_def)
next
  case (Some r)
  then show ?thesis using row_of_update [of sc t "e_id e" "e_row e" T u i] by (simp add: upsert_row_def)
qed

lemma upsert_row_ok:
  assumes "castable sc" "rows_ok sc T"
  shows "rows_ok sc (upsert_row sc t e T)"
proof -
  have "distinct (map fst (upsert_row sc t e T u))" for u
    using assms(2) row_of_dom [of "e_id e" T t] by (auto simp: rows_ok_def upsert_row_def keys_update)
  moreover have "row_ok sc u r" if "row_of (upsert_row sc t e T) u i = Some r" for u i r
    using that assms full_row_ok set_columns_ok unfolding row_of_upsert rows_ok_def
    by (auto split: if_splits option.splits)
  ultimately show ?thesis by (simp add: rows_ok_def)
qed

lemma upsert_rows:
  assumes "castable sc"
  shows "rows_ok sc T \<Longrightarrow> rows_ok sc (fold (upsert_row sc t) es T) \<and>
    touches_only t (e_id ` set es) T (fold (upsert_row sc t) es T) \<and>
    (\<forall>i. i \<in> e_id ` set es \<or> row_of T t i \<noteq> None \<longrightarrow> row_of (fold (upsert_row sc t) es T) t i \<noteq> None)"
proof (induction es arbitrary: T)
  case Nil
  then show ?case by (simp add: touches_only_def)
next
  case (Cons e es)
  note IH = Cons.IH [OF upsert_row_ok [OF assms Cons.prems]]
  have "touches_only t (e_id ` set (e # es)) T (fold (upsert_row sc t) es (upsert_row sc t e T))"
    using IH [of t e] row_of_upsert [of sc t e T] by (simp add: touches_only_def)
  moreover have "\<forall>i. i \<in> e_id ` set (e # es) \<or> row_of T t i \<noteq> None \<longrightarrow>
      row_of (fold (upsert_row sc t) es (upsert_row sc t e T)) t i \<noteq> None"
    using IH [of t e] row_of_upsert [of sc t e T t] by auto
  ultimately show ?case using IH [of t e] by simp
qed

lemma insert_rows:
  "rfold (insert_row sc t) es T = Inr T' \<Longrightarrow>
    T' = fold (upsert_row sc t) es T \<and> (\<forall>e \<in> set es. row_of T t (e_id e) = None)"
proof (induction es arbitrary: T)
  case Nil
  then show ?case by simp
next
  case (Cons e es)
  then obtain T1 where T1: "insert_row sc t e T = Inr T1" "rfold (insert_row sc t) es T1 = Inr T'"
    by (auto simp: result_simps)
  then have e: "row_of T t (e_id e) = None" "rfold (insert_row sc t) es (upsert_row sc t e T) = Inr T'"
    by (auto simp: insert_row_def split: if_splits)
  have "row_of T t (e_id e') = None" if "e' \<in> set es" for e'
    using Cons.IH [OF e(2)] that e(1) row_of_upsert [of sc t e T t "e_id e'"] by (auto split: if_splits)
  moreover have "insert_row sc t e T = Inr (upsert_row sc t e T)" using e(1) by (simp add: insert_row_def)
  ultimately show ?case using Cons.IH [OF e(2)] e(1) by simp
qed

lemma delete_rows_ok:
  assumes "rows_ok sc T"
  shows "rows_ok sc (delete_rows sc t ids T)"
proof -
  have d: "distinct (map fst (T u))" for u using assms by (simp add: rows_ok_def)
  have "distinct (map fst (delete_rows sc t ids T u))" for u
    unfolding delete_rows_def by (rule keys_filter [OF d])
  moreover have "row_ok sc u r" if "row_of (delete_rows sc t ids T) u i = Some r" for u i r
    using that assms row_of_delete [where sc = sc and t = t and ids = ids and T = T and u = u and i = i, OF d]
    by (auto simp: rows_ok_def split: if_splits)
  ultimately show ?thesis by (simp add: rows_ok_def)
qed

lemma plain_orm_ok:
  assumes "castable sc" and sc: "schema_ok sc"
  shows "orm_ok sc (plain_orm sc)"
  unfolding orm_ok_def
proof (intro conjI allI impI)
  fix t es T T'
  assume T: "tabs_ok sc T" and run: "orm_upsert (plain_orm sc) t es T = Inr T'"
  then have T': "T' = fold (upsert_row sc t) es T" "fk_ok sc T'"
    by (auto simp: plain_orm_def checked_def split: if_splits)
  note u = upsert_rows [OF assms(1), of T t es]
  show "tabs_ok sc T'" "touches_only t (e_id ` set es) T T'" "\<forall>e \<in> set es. row_of T' t (e_id e) \<noteq> None"
    using u T T' by (auto simp: tabs_ok_iff)
next
  fix t es T T'
  assume T: "tabs_ok sc T" and run: "orm_insert (plain_orm sc) t es T = Inr T'"
  then have r: "rfold (insert_row sc t) es T = Inr T'" and fk: "fk_ok sc T'"
    by (auto simp: plain_orm_def checked_def result_simps split: if_splits)
  note T' = insert_rows [OF r] and u = upsert_rows [OF assms(1), of T t es]
  show "tabs_ok sc T'" "touches_only t (e_id ` set es) T T'"
    "\<forall>e \<in> set es. row_of T t (e_id e) = None \<and> row_of T' t (e_id e) \<noteq> None"
    using u T T' fk by (auto simp: tabs_ok_iff)
next
  fix t ids T T' u i
  assume T: "tabs_ok sc T" and run: "orm_delete (plain_orm sc) t ids T = Inr T'"
  then obtain D where D: "collectCascadeDeletes sc (nesting sc T) T t ids [] = Some D"
      "T' = (\<lambda>u. filter (\<lambda>(i, r). (u, i) \<notin> set (keys D)) (T u))" "fk_ok sc T'"
    by (auto simp: plain_orm_def trackDelete_def checked_def result_simps split: if_splits)
  have T': "T' = delete_rows sc t ids T" "fk_ok sc T'"
    using D(2,3) doomed_collected [OF sc T D(1)] by (simp_all add: delete_rows_def)
  show "tabs_ok sc T'" using delete_rows_ok T T' by (simp add: tabs_ok_iff)
  show "row_of T' u i = (if doomed sc T t ids u i then None else row_of T u i)"
    unfolding T'(1) by (rule row_of_delete) (use T in \<open>simp add: tabs_ok_def\<close>)
qed

section \<open>An example\<close>

text \<open>Users and their posts: the posts of a user go with the user.\<close>

definition text_cast :: "jsval \<Rightarrow> jsval" where
  "text_cast v = (case v of JStr s \<Rightarrow> JStr s | _ \<Rightarrow> JNull)"

definition text_schema :: "jstr list \<Rightarrow> (jstr \<times> jstr \<times> jstr \<times> bool) list \<Rightarrow> schema" where
  "text_schema ts fks =
     \<lparr>sc_entities = ts, sc_columns = \<lambda>t. [js ''name''] @ map (\<lambda>(c, col, _). col) (filter (\<lambda>(c, _). c = t) fks),
      sc_relations = \<lambda>t. map (\<lambda>(c, col, _). col) (filter (\<lambda>(c, _). c = t) fks),
      sc_isJson = \<lambda>_ _. False, sc_fks = fks, sc_stringify = \<lambda>_. [], sc_json = \<lambda>v. v, sc_cast = \<lambda>_ _ v. text_cast v\<rparr>"

lemma text_schema_castable: "castable (text_schema ts fks)"
  by (auto simp: castable_def text_schema_def text_cast_def fetched_value_def isJsonProp_def split: jsval.splits)

definition users :: schema where
  "users = text_schema [js ''user'', js ''post''] [(js ''post'', js ''author_id'', js ''user'', True)]"

definition text_row :: "(jstr \<times> jstr) list \<Rightarrow> row" where
  "text_row xs = (\<lambda>c. map_option JStr (map_of xs c))"

definition users_db :: db where
  "users_db = \<lparr>db_tabs = (\<lambda>t. if t = js ''user'' then [(js ''a'', text_row [(js ''name'', js ''Ann'')])]
       else if t = js ''post'' then [(js ''p'', text_row [(js ''name'', js ''hi''), (js ''author_id'', js ''a'')])] else []),
     db_status = \<lparr>hh_height = 10, hh_hash = js ''0x0a''\<rparr>, db_nonce = 3, db_hot = [], db_log = [], db_templates = []\<rparr>"

definition users_handler :: "tables \<Rightarrow> handler" where
  "users_handler T =
     Do (UpsertOne \<lparr>e_class = js ''user'', e_id = js ''a'', e_row = text_row [(js ''name'', js ''Eve'')]\<rparr>) (\<lambda>T.
     Do (Insert [\<lparr>e_class = js ''post'', e_id = js ''q'', e_row = text_row [(js ''author_id'', js ''a'')]\<rparr>]) (\<lambda>T.
     Do (RemoveIds (js ''user'') [js ''a'']) (\<lambda>T.
     Return [\<lparr>tm_add = True, tm_key = js ''k'', tm_value = js ''v'', tm_blockNumber = 11\<rparr>])))"

lemma users_ok: "schema_ok users" "orm_ok users (plain_orm users)" "tabs_ok users (db_tabs users_db)"
proof -
  show sc: "schema_ok users" by (simp add: users_def text_schema_def schema_ok_def js_def)
  show "orm_ok users (plain_orm users)"
    using sc text_schema_castable by (intro plain_orm_ok) (simp_all add: users_def)
  show "tabs_ok users (db_tabs users_db)"
    by (auto simp: users_def text_schema_def tabs_ok_def users_db_def row_ok_def fk_ok_def text_row_def js_def
        text_cast_def fetched_value_def)
qed

definition returns :: "'a result \<Rightarrow> bool" where
  "returns r \<longleftrightarrow> (case r of Inr _ \<Rightarrow> True | Inl _ \<Rightarrow> False)"

lemma returnsD: "returns r \<Longrightarrow> \<exists>x. r = Inr x"
  by (auto simp: returns_def split: sum.splits)

definition eleven :: hash_height where
  "eleven = \<lparr>hh_height = 11, hh_hash = js ''0x0b''\<rparr>"

lemma users_run:
  "returns (hot_slice users (plain_orm users) (\<lambda>_ _. users_handler) [eleven] (0, 1) users_db)"
  "case insertHotBlock eleven users_db of Inl _ \<Rightarrow> False
   | Inr D1 \<Rightarrow> run_separate users (plain_orm users) (users_handler (db_tabs D1)) (Some (ChangeTracker 11), D1)"
  by code_simp+


section \<open>The deletions that end\<close>

text \<open>\<open>collectCascadeDeletes\<close> returns, whatever rows it starts from, when the cascading keys of the
  schema do not form a cycle.\<close>

theorem collectCascadeDeletes_returns:
  fixes rank :: "jstr \<Rightarrow> nat"
  assumes "schema_ok sc" "\<And>c col p. (c, col, p, True) \<in> set (sc_fks sc) \<Longrightarrow> rank p < rank c"
  shows "\<exists>D. trackDelete sc t ids T = Inr D"
proof -
  define later where "later = (\<lambda>t. {c \<in> set (sc_entities sc). rank t < rank c \<and> T c \<noteq> []})"
  have fin: "finite (later t)" for t by (simp add: later_def)
  have run: "card (later t) < n \<Longrightarrow> \<exists>D. collectCascadeDeletes sc n T t ids out = Some D" for n t ids out
  proof (induction n arbitrary: t ids out)
    case 0
    then show ?case by simp
  next
    case (Suc n)
    let ?f = "\<lambda>(c, col) out. let childIds = select_children c col ids T
        in if childIds = [] then Some out else collectCascadeDeletes sc n T c childIds out"
    have one: "\<exists>D. ?f (c, col) out = Some D" if "(c, col) \<in> set (buildCascadeMap sc t)" for c col out
    proof (cases "select_children c col ids T = []")
      case False
      have k: "(c, col, t, True) \<in> set (sc_fks sc)" using that cascade_mem [OF assms(1)] by simp
      then have r: "rank t < rank c" by (rule assms(2))
      have "T c \<noteq> []" using False by (auto simp: select_children_def)
      moreover have "c \<in> set (sc_entities sc)" using assms(1) k by (auto simp: schema_ok_def)
      ultimately have "c \<in> later t" "c \<notin> later c" "later c \<subseteq> later t" using r by (auto simp: later_def)
      then have "card (later c) < card (later t)" by (intro psubset_card_mono [OF fin]) auto
      then show ?thesis using Suc.IH [of c "select_children c col ids T" out] Suc.prems False by simp
    qed simp
    have "\<exists>D. ofold ?f cs out = Some D" if "set cs \<subseteq> set (buildCascadeMap sc t)" for cs out
      using that
    proof (induction cs arbitrary: out)
      case (Cons y cs)
      obtain c col where y: "y = (c, col)" by (cases y)
      obtain D where "?f (c, col) out = Some D" using one [of c col out] Cons.prems y by auto
      then show ?case using Cons.IH [of D] Cons.prems y by simp
    qed simp
    from this [of "buildCascadeMap sc t" out] obtain D where "ofold ?f (buildCascadeMap sc t) out = Some D" by blast
    then show ?case by simp
  qed
  have "card (later t) \<le> length (remdups (filter (\<lambda>c. T c \<noteq> []) (sc_entities sc)))"
    unfolding later_def by (rule order_trans [OF card_mono card_length]) auto
  also have "\<dots> \<le> length (filter (\<lambda>c. T c \<noteq> []) (sc_entities sc))" by (rule length_remdups_leq)
  also have "\<dots> \<le> sum_list (map (\<lambda>c. length (T c)) (sc_entities sc))"
  proof -
    have "length (filter (\<lambda>c. T c \<noteq> []) xs) \<le> sum_list (map (\<lambda>c. length (T c)) xs)" for xs
    proof (induction xs)
      case (Cons c xs)
      then show ?case by (cases "T c") auto
    qed simp
    then show ?thesis .
  qed
  finally have "card (later t) < nesting sc T" by (simp add: nesting_def)
  from run [OF this, of ids "[]"] show ?thesis by (auto simp: trackDelete_def)
qed

theorem collectCascadeDeletes_returns_witness:
  "\<exists>D. trackDelete users (js ''user'') [js ''a''] (db_tabs users_db) = Inr D"
  by (rule collectCascadeDeletes_returns [where rank = "\<lambda>t. if t = js ''post'' then 1 else 0", OF users_ok(1)])
    (auto simp: users_def text_schema_def js_def)

text \<open>A row that refers to itself by a cascading key sends \<open>collectCascadeDeletes\<close> into a recursion
  that never ends: no number of nested calls is enough.\<close>

definition tree :: schema where
  "tree = text_schema [js ''node''] [(js ''node'', js ''parent_id'', js ''node'', True)]"

theorem collectCascadeDeletes_endless:
  "collectCascadeDeletes tree n (\<lambda>t. if t = js ''node'' then [(i, text_row [(js ''parent_id'', i)])] else []) (js ''node'') [i] out = None"
proof (induction n arbitrary: out)
  case 0
  then show ?case by simp
next
  case (Suc n)
  then show ?case
    by (simp add: buildCascadeMap_def tree_def text_schema_def select_children_def refers_def text_row_def)
qed

section \<open>Deletions that a rollback cannot undo\<close>

definition diamond :: schema where
  "diamond = text_schema [js ''a'', js ''b'', js ''c'', js ''d'']
     [(js ''b'', js ''a_id'', js ''a'', True), (js ''c'', js ''a_id'', js ''a'', True),
      (js ''d'', js ''b_id'', js ''b'', True), (js ''d'', js ''c_id'', js ''c'', True)]"

definition diamond_db :: db where
  "diamond_db = users_db\<lparr>db_tabs := (\<lambda>t.
     if t = js ''a'' then [(js ''1'', text_row [])]
     else if t = js ''b'' then [(js ''2'', text_row [(js ''a_id'', js ''1'')])]
     else if t = js ''c'' then [(js ''3'', text_row [(js ''a_id'', js ''1'')])]
     else if t = js ''d'' then [(js ''4'', text_row [(js ''b_id'', js ''2''), (js ''c_id'', js ''3'')])] else [])\<rparr>"

definition diamond_handler :: "tables \<Rightarrow> handler" where
  "diamond_handler T = Do (RemoveIds (js ''a'') [js ''1'']) (\<lambda>T. Return [])"

lemma diamond_run:
  "case hot_slice diamond (plain_orm diamond) (\<lambda>_ _. diamond_handler) [eleven] (0, 1) diamond_db of
     Inl _ \<Rightarrow> False
   | Inr D2 \<Rightarrow> (case rollbackBlock diamond 11 D2 of Inl e \<Rightarrow> e = fk_violation | Inr _ \<Rightarrow> False)"
  by code_simp

text \<open>When a deletion reaches a row along two cascading keys, \<open>collectCascadeDeletes\<close> records the row
  twice, and the rollback of the block fails: it inserts the row when only one of its two parents is
  back. The transaction that should leave the fork throws.\<close>

theorem diamond_rollback_fails:
  "\<exists>D2. hot_slice diamond (plain_orm diamond) (\<lambda>_ _. diamond_handler) [eleven] (0, 1) diamond_db = Inr D2 \<and>
     rollbackBlock diamond 11 D2 = Inl fk_violation"
  using diamond_run by (auto split: sum.splits)

end
