(* ===== verification/Typeorm_Database.thy ===== *)
theory Typeorm_Database
  imports Typeorm_Rollback
begin

text \<open>
  The transactions of \<open>typeorm/typeorm-store/src/database.ts\<close>: what each of them does to the status, the
  hot blocks, the change log and the template registry, whatever the data handler does to the tables.
  The invariant \<open>db_ok\<close> is what \<open>connect\<close> finds: hot blocks above the status in ascending heights, each
  with its sentinel, log rows and templates of known heights only.
\<close>

section \<open>The invariant\<close>

abbreviation heights :: "db \<Rightarrow> int list" where
  "heights D \<equiv> map hh_height (db_hot D)"

definition db_ok :: "db \<Rightarrow> bool" where
  "db_ok D \<longleftrightarrow> sorted_wrt (<) (hh_height (db_status D) # heights D) \<and>
     (\<forall>l \<in> set (db_log D). fst l \<in> set (heights D)) \<and>
     (\<forall>h \<in> set (heights D). (h, 0, Sentinel) \<in> set (db_log D)) \<and>
     (\<forall>x \<in> set (db_templates D). snd x \<le> hh_height (db_status D) \<or> snd x \<in> set (heights D))"

section \<open>The parts of a transaction\<close>

lemma store_step_cases:
  "store_step sc om a s = Inr s' \<Longrightarrow> s' = s \<or> (\<exists>f g. tracked_op sc f g s = Inr s')"
  unfolding store_step_def tracked_op_def
  by (cases a) (auto simp: rbind_eq_Inr [of "same_class _"] split: if_splits)

text \<open>What an operation or a handler may change: the tables, and with a tracker the log of its block.\<close>

definition logged :: "tracker option \<Rightarrow> db \<Rightarrow> db \<Rightarrow> bool" where
  "logged tr D D' \<longleftrightarrow> (\<exists>T L. D' = D\<lparr>db_tabs := T, db_log := db_log D @ L\<rparr> \<and>
     (\<forall>l \<in> set L. \<exists>k. tr = Some (fst l, k)))"

lemma logged_refl: "logged tr D D"
  unfolding logged_def by (intro exI [of _ "db_tabs D"] exI [of _ "[]"]) simp

lemma logged_trans:
  assumes "logged tr D D1" "logged tr' D1 D2" "map_option fst tr' = map_option fst tr"
  shows "logged tr D D2"
proof -
  obtain T L where 1: "D1 = D\<lparr>db_tabs := T, db_log := db_log D @ L\<rparr>" "\<forall>l \<in> set L. \<exists>k. tr = Some (fst l, k)"
    using assms(1) unfolding logged_def by blast
  obtain T' L' where 2: "D2 = D1\<lparr>db_tabs := T', db_log := db_log D1 @ L'\<rparr>" "\<forall>l \<in> set L'. \<exists>k. tr' = Some (fst l, k)"
    using assms(2) unfolding logged_def by blast
  have more: "\<exists>k. tr = Some (fst l, k)" if "l \<in> set L'" for l
  proof -
    obtain k where "tr' = Some (fst l, k)" using 2(2) \<open>l \<in> set L'\<close> by blast
    then have "map_option fst tr = Some (fst l)" using assms(3) by simp
    then show ?thesis by (cases tr) auto
  qed
  then show ?thesis
    unfolding logged_def using 1 2(1) more by (intro exI [of _ T'] exI [of _ "L @ L'"]) auto
qed

lemma log_rows_fst: "l \<in> set (log_rows h k R) \<Longrightarrow> fst l = h"
  by (induction R arbitrary: k) auto

lemma tracked_op_logged:
  assumes "tracked_op sc f g (tr, D) = Inr (tr', D')"
  shows "logged tr D D' \<and> map_option fst tr' = map_option fst tr"
proof (cases tr)
  case None
  then show ?thesis
    using assms unfolding logged_def
    by (auto simp: tracked_op_def track_def on_tables_def result_simps intro!: exI [of _ "[]"])
next
  case (Some p)
  obtain h k where p: "p = (h, k)" by (cases p)
  obtain chs tr1 D1 where 1: "writeChangeRows sc chs ((h, k), D) = Inr (tr1, D1)" "on_tables g (Some tr1, D1) = Inr (tr', D')"
    using assms by (auto simp: Some p tracked_op_def track_def result_simps split: prod.splits)
  note w = writeChangeRows_rows [OF 1(1)]
  obtain T where "tr' = Some tr1" "D' = D1\<lparr>db_tabs := T\<rparr>" using 1(2) by (auto simp: on_tables_def result_simps)
  then show ?thesis
    using w unfolding logged_def Some p
    by (auto intro!: exI [of _ T] exI [of _ "log_rows h k (map (json_change sc) chs)"] dest: log_rows_fst)
qed

lemma run_handler_logged: "run_handler sc om p (tr, D) = Inr (tms, D') \<Longrightarrow> logged tr D D'"
proof (induction p arbitrary: tr D)
  case (Return tms')
  then show ?case using logged_refl by simp
next
  case (Throw e)
  then show ?case by simp
next
  case (Do a c)
  obtain tr1 D1 where s: "store_step sc om a (tr, D) = Inr (tr1, D1)" "run_handler sc om (c (db_tabs D1)) (tr1, D1) = Inr (tms, D')"
    using Do.prems by (auto simp: result_simps)
  have "logged tr D D1 \<and> map_option fst tr1 = map_option fst tr"
    using store_step_cases [OF s(1)] tracked_op_logged logged_refl by blast
  then show ?case using Do.IH [OF rangeI s(2)] logged_trans by blast
qed

lemma performUpdates_effect:
  assumes "performUpdates sc om cb h tr D = Inr D'"
  shows "\<exists>T L X. D' = D\<lparr>db_tabs := T, db_log := db_log D @ L, db_templates := db_templates D @ X\<rparr> \<and>
    (\<forall>l \<in> set L. \<exists>k. tr = Some (fst l, k)) \<and> (\<forall>x \<in> set X. snd x = h)"
proof -
  obtain tms D1 where 1: "run_handler sc om (cb (db_tabs D)) (tr, D) = Inr (tms, D1)" "D' = persist h tms D1"
    using assms by (auto simp: performUpdates_def result_simps)
  obtain T L where 2: "D1 = D\<lparr>db_tabs := T, db_log := db_log D @ L\<rparr>" "\<forall>l \<in> set L. \<exists>k. tr = Some (fst l, k)"
    using run_handler_logged [OF 1(1)] unfolding logged_def by blast
  obtain X where "persist h tms D1 = D1\<lparr>db_templates := db_templates D1 @ X\<rparr>" "\<forall>x \<in> set X. snd x = h"
    using persist_templates by blast
  then show ?thesis using 1(2) 2 by (intro exI [of _ T] exI [of _ L] exI [of _ X]) simp
qed

lemma hot_slice_effect:
  assumes "hot_slice sc om cb blocks (i, e) D = Inr D'"
  shows "\<exists>T L X. D' = D\<lparr>db_tabs := T, db_hot := db_hot D @ [blocks ! (e - 1)], db_log := db_log D @ L,
      db_templates := db_templates D @ X\<rparr> \<and> (hh_height (blocks ! (e - 1)), 0, Sentinel) \<in> set L \<and>
    (\<forall>l \<in> set L. fst l = hh_height (blocks ! (e - 1))) \<and> (\<forall>x \<in> set X. snd x = hh_height (blocks ! (e - 1)))"
proof -
  let ?b = "blocks ! (e - 1)"
  obtain D1 where 1: "insertHotBlock ?b D = Inr D1"
    "performUpdates sc om (cb i e) (hh_height ?b) (Some (ChangeTracker (hh_height ?b))) D1 = Inr D'"
    using assms by (auto simp: hot_slice_def Let_def result_simps)
  have D1: "D1 = D\<lparr>db_hot := db_hot D @ [?b], db_log := db_log D @ [(hh_height ?b, 0, Sentinel)]\<rparr>"
    using 1(1) by (auto simp: insertHotBlock_def log_insert_def split: if_splits)
  obtain T L X where 2: "D' = D1\<lparr>db_tabs := T, db_log := db_log D1 @ L, db_templates := db_templates D1 @ X\<rparr>"
    "\<forall>l \<in> set L. \<exists>k. Some (ChangeTracker (hh_height ?b)) = Some (fst l, k)" "\<forall>x \<in> set X. snd x = hh_height ?b"
    using performUpdates_effect [OF 1(2)] by blast
  show ?thesis
    using 2 by (intro exI [of _ T] exI [of _ "(hh_height ?b, 0, Sentinel) # L"] exI [of _ X]) (auto simp: D1 ChangeTracker_def)
qed

section \<open>Rolling several blocks back\<close>

text \<open>\<open>D'\<close> is \<open>D\<close> without the blocks of the heights \<open>H\<close>.\<close>

definition pruned :: "int set \<Rightarrow> db \<Rightarrow> db \<Rightarrow> bool" where
  "pruned H D D' \<longleftrightarrow> db_status D' = db_status D \<and> db_nonce D' = db_nonce D \<and>
     db_hot D' = filter (\<lambda>b. hh_height b \<notin> H) (db_hot D) \<and>
     set (db_log D') = {l \<in> set (db_log D). fst l \<notin> H} \<and>
     set (db_templates D') = {x \<in> set (db_templates D). snd x \<notin> H}"

abbreviation log_known :: "db \<Rightarrow> bool" where
  "log_known D \<equiv> \<forall>l \<in> set (db_log D). fst l \<in> set (heights D)"

lemma pruned_log_known: "pruned H D D' \<Longrightarrow> log_known D \<Longrightarrow> log_known D'"
  by (auto simp: pruned_def)

lemma pruned_trans: "pruned G D D1 \<Longrightarrow> pruned H D1 D2 \<Longrightarrow> pruned (G \<union> H) D D2"
  by (auto simp: pruned_def intro: filter_cong)

lemma rollbackBlock_pruned:
  assumes "rollbackBlock sc h D = Inr D'" "log_known D"
  shows "pruned {h} D D'"
proof -
  obtain T where D': "D' = drop_hot (\<lambda>k. k = h) (D\<lparr>db_tabs := T, db_templates := filter (\<lambda>(m, k). k \<noteq> h) (db_templates D)\<rparr>)"
    using assms(1) by (auto simp: rollbackBlock_def Let_def result_simps)
  show ?thesis using assms(2) unfolding D' pruned_def drop_hot_def by auto
qed

lemma rollbacks_pruned:
  "rfold (\<lambda>b. rollbackBlock sc (hh_height b)) bs D = Inr D' \<Longrightarrow> log_known D \<Longrightarrow> pruned (hh_height ` set bs) D D'"
proof (induction bs arbitrary: D)
  case Nil
  then show ?case by (simp add: pruned_def)
next
  case (Cons b bs)
  obtain D1 where 1: "rollbackBlock sc (hh_height b) D = Inr D1" "rfold (\<lambda>b. rollbackBlock sc (hh_height b)) bs D1 = Inr D'"
    using Cons.prems(1) by (auto simp: result_simps)
  note p = rollbackBlock_pruned [OF 1(1) Cons.prems(2)]
  from pruned_trans [OF p Cons.IH [OF 1(2) pruned_log_known [OF p Cons.prems(2)]]] show ?case by simp
qed

section \<open>Adding the slices\<close>

text \<open>\<open>D'\<close> is \<open>D\<close> with the hot blocks \<open>bs\<close>, their sentinels, and log rows and templates of theirs.\<close>

definition grown :: "hash_height list \<Rightarrow> db \<Rightarrow> db \<Rightarrow> bool" where
  "grown bs D D' \<longleftrightarrow> db_status D' = db_status D \<and> db_nonce D' = db_nonce D \<and> db_hot D' = db_hot D @ bs \<and>
     (\<exists>L X. db_log D' = db_log D @ L \<and> db_templates D' = db_templates D @ X \<and>
       (\<forall>b \<in> set bs. (hh_height b, 0, Sentinel) \<in> set L) \<and> (\<forall>l \<in> set L. fst l \<in> hh_height ` set bs) \<and>
       (\<forall>x \<in> set X. snd x \<in> hh_height ` set bs))"

lemma grown_refl: "grown [] D D"
  by (simp add: grown_def)

lemma grown_trans:
  assumes "grown bs D D1" "grown cs D1 D2"
  shows "grown (bs @ cs) D D2"
proof -
  obtain L X where 1: "db_log D1 = db_log D @ L" "db_templates D1 = db_templates D @ X"
    "\<forall>b \<in> set bs. (hh_height b, 0, Sentinel) \<in> set L" "\<forall>l \<in> set L. fst l \<in> hh_height ` set bs"
    "\<forall>x \<in> set X. snd x \<in> hh_height ` set bs" using assms(1) unfolding grown_def by blast
  obtain M Y where 2: "db_log D2 = db_log D1 @ M" "db_templates D2 = db_templates D1 @ Y"
    "\<forall>b \<in> set cs. (hh_height b, 0, Sentinel) \<in> set M" "\<forall>l \<in> set M. fst l \<in> hh_height ` set cs"
    "\<forall>x \<in> set Y. snd x \<in> hh_height ` set cs" using assms(2) unfolding grown_def by blast
  have "db_log D2 = db_log D @ (L @ M) \<and> db_templates D2 = db_templates D @ (X @ Y) \<and>
      (\<forall>b \<in> set (bs @ cs). (hh_height b, 0, Sentinel) \<in> set (L @ M)) \<and>
      (\<forall>l \<in> set (L @ M). fst l \<in> hh_height ` set (bs @ cs)) \<and> (\<forall>x \<in> set (X @ Y). snd x \<in> hh_height ` set (bs @ cs))"
    using 1 2 by (auto simp: image_Un)
  then show ?thesis using assms unfolding grown_def by (metis append_assoc)
qed

lemma hot_slice_grown: "hot_slice sc om cb blocks (i, e) D = Inr D' \<Longrightarrow> grown [blocks ! (e - 1)] D D'"
  by (drule hot_slice_effect) (auto simp: grown_def)

lemma hot_slices_grown:
  "rfold (hot_slice sc om cb blocks) sl D = Inr D' \<Longrightarrow> grown (map (\<lambda>(i, e). blocks ! (e - 1)) sl) D D'"
proof (induction sl arbitrary: D)
  case Nil
  then show ?case using grown_refl by simp
next
  case (Cons p sl)
  obtain i e where p: "p = (i, e)" by (cases p)
  obtain D1 where "hot_slice sc om cb blocks (i, e) D = Inr D1" "rfold (hot_slice sc om cb blocks) sl D1 = Inr D'"
    using Cons.prems p by (auto simp: result_simps)
  then show ?case using grown_trans [OF hot_slice_grown Cons.IH] p by fastforce
qed

section \<open>The slices of the unfinalized blocks\<close>

lemma slices_bounds: "(i, e) \<in> set (slices g n s) \<Longrightarrow> s \<le> i \<and> i < e \<and> e \<le> n"
proof (induction g n s rule: slices.induct)
  case (1 g n s)
  then show ?case using slices.simps [of g n s] by (auto split: if_splits)
qed

lemma slices_ascending: "sorted_wrt (<) (map snd (slices g n s))"
proof (induction g n s rule: slices.induct)
  case (1 g n s)
  then show ?case
    using slices.simps [of g n s] slices_bounds [of _ _ g n "s + max 1 g"] by (fastforce split: if_splits)
qed

lemma slices_partition: "s \<le> n \<Longrightarrow> concat (map (\<lambda>(i, e). [i..<e]) (slices g n s)) = [s..<n]"
proof (induction g n s rule: slices.induct)
  case (1 g n s)
  show ?case
  proof (cases "s + max 1 g \<le> n")
    case True
    then have "s < n" by simp
    then have "concat (map (\<lambda>(i, e). [i..<e]) (slices g n s)) = [s..<s + max 1 g] @ [s + max 1 g..<n]"
      using "1.IH" True slices.simps [of g n s] by (simp add: min_def)
    also have "\<dots> = [s..<n]" using True by (metis le_add1 upt_add_eq_append le_Suc_ex)
    finally show ?thesis .
  next
    case False
    then show ?thesis using "1.prems" slices.simps [of g n s] slices.simps [of g n "s + max 1 g"] by auto
  qed
qed

lemma assertChainContinuity_sorted:
  "assertChainContinuity b bs = Inr () \<Longrightarrow> sorted_wrt (<) (map hh_height (b # bs))"
proof (induction bs arbitrary: b)
  case (Cons c bs)
  then have "sorted_wrt (<) (map hh_height (c # bs))" "hh_height b < hh_height c"
    by (auto simp: result_simps)
  then show ?case by auto
qed simp

lemma findIndex_Some: "findIndex P xs = Some k \<Longrightarrow> k < length xs \<and> P (xs ! k) \<and> (\<forall>j < k. \<not> P (xs ! j))"
proof (induction xs arbitrary: k)
  case (Cons x xs)
  then show ?case by (auto simp: nth_Cons' split: if_splits)
qed simp

lemma findIndex_None: "findIndex P xs = None \<longleftrightarrow> (\<forall>x \<in> set xs. \<not> P x)"
  by (induction xs) auto

lemma unfinalized_start_le: "unfinalized_start bs fin \<le> length bs"
  unfolding unfinalized_start_def by (auto split: option.splits dest: findIndex_Some)

lemma unfinalized_start_above:
  assumes "sorted_wrt (<) (map hh_height bs)" "unfinalized_start bs fin \<le> j" "j < length bs"
  shows "hh_height (bs ! j) > fin"
proof (cases "findIndex (\<lambda>b. hh_height b > fin) bs")
  case None
  then show ?thesis using assms(2,3) by (simp add: unfinalized_start_def)
next
  case (Some k)
  then have k: "k \<le> j" "hh_height (bs ! k) > fin" using assms(2) findIndex_Some by (auto simp: unfinalized_start_def)
  then show ?thesis
    using sorted_wrt_nth_less [OF assms(1), of k j] assms(3) by (cases "k = j") auto
qed

lemma unfinalized_start_below:
  assumes "j < unfinalized_start bs fin" "j < length bs"
  shows "hh_height (bs ! j) \<le> fin"
proof (cases "findIndex (\<lambda>b. hh_height b > fin) bs")
  case None
  then have "\<not> hh_height (bs ! j) > fin" using findIndex_None assms(2) by (metis nth_mem)
  then show ?thesis by simp
next
  case (Some k)
  then show ?thesis using assms findIndex_Some [OF Some] by (auto simp: unfinalized_start_def)
qed

text \<open>The rows of \<open>hot_block\<close> for the slices: ascending and above the finalized head.\<close>

definition slice_rows :: "hash_height list \<Rightarrow> int \<Rightarrow> hash_height list" where
  "slice_rows blocks fin = map (\<lambda>(i, e). blocks ! (e - 1)) (hot_slices blocks fin)"

lemma hot_slices_bounds: "(i, e) \<in> set (hot_slices blocks fin) \<Longrightarrow> unfinalized_start blocks fin \<le> i \<and> i < e \<and> e \<le> length blocks"
  unfolding hot_slices_def Let_def by (rule slices_bounds)

lemma slice_rows_sorted:
  assumes "sorted_wrt (<) (map hh_height blocks)"
  shows "sorted_wrt (<) (map hh_height (slice_rows blocks fin))" "\<forall>b \<in> set (slice_rows blocks fin). hh_height b > fin \<and> b \<in> set blocks"
proof -
  have asc: "sorted_wrt (\<lambda>p q. snd p < snd q) (hot_slices blocks fin)"
    using slices_ascending by (simp add: hot_slices_def Let_def sorted_wrt_map)
  have "sorted_wrt (\<lambda>p q. hh_height (blocks ! (snd p - 1)) < hh_height (blocks ! (snd q - 1))) (hot_slices blocks fin)"
  proof (rule sorted_wrt_mono_rel [OF _ asc])
    fix p q assume p: "p \<in> set (hot_slices blocks fin)" and q: "q \<in> set (hot_slices blocks fin)" and "snd p < snd q"
    then have "snd p - 1 < snd q - 1" "snd q - 1 < length blocks"
      using hot_slices_bounds [of "fst p" "snd p" blocks fin] hot_slices_bounds [of "fst q" "snd q" blocks fin] by auto
    then show "hh_height (blocks ! (snd p - 1)) < hh_height (blocks ! (snd q - 1))"
      using sorted_wrt_nth_less [OF assms, of "snd p - 1" "snd q - 1"] by simp
  qed
  then show "sorted_wrt (<) (map hh_height (slice_rows blocks fin))"
    by (simp add: slice_rows_def sorted_wrt_map case_prod_beta')
  show "\<forall>b \<in> set (slice_rows blocks fin). hh_height b > fin \<and> b \<in> set blocks"
  proof
    fix b assume "b \<in> set (slice_rows blocks fin)"
    then obtain i e where "(i, e) \<in> set (hot_slices blocks fin)" "b = blocks ! (e - 1)" by (auto simp: slice_rows_def)
    then show "hh_height b > fin \<and> b \<in> set blocks"
      using hot_slices_bounds [of i e blocks fin] unfinalized_start_above [OF assms, of fin "e - 1"] by auto
  qed
qed

section \<open>What a transaction does\<close>

text \<open>A database that is looked at through its bookkeeping: after pruning, growing and finalizing.\<close>

lemma getState_ok:
  assumes "db_ok D" "getState D = Inr st"
  shows "st = (db_status D, db_hot D)"
proof -
  have "sorted (heights D)" using assms(1) by (auto simp: db_ok_def intro: strict_sorted_imp_sorted)
  then have "sort_key hh_height (db_hot D) = db_hot D" by (rule sort_key_id_if_sorted)
  then show ?thesis using assms(2) by (auto simp: getState_def assertStateInvariants_def result_simps)
qed

definition book_ok :: "int \<Rightarrow> db \<Rightarrow> bool" where
  "book_ok fin D \<longleftrightarrow> sorted_wrt (<) (heights D) \<and> log_known D \<and>
     (\<forall>h \<in> set (heights D). (h, 0, Sentinel) \<in> set (db_log D)) \<and>
     (\<forall>x \<in> set (db_templates D). snd x \<le> fin \<or> snd x \<in> set (heights D))"

lemma db_ok_book: "db_ok D \<Longrightarrow> book_ok (hh_height (db_status D)) D"
  by (auto simp: db_ok_def book_ok_def)

lemma book_ok_mono: "book_ok f D \<Longrightarrow> f \<le> g \<Longrightarrow> book_ok g D"
  by (auto simp: book_ok_def intro: order_trans)

lemma sorted_heights_filter: "sorted_wrt (<) (map hh_height xs) \<Longrightarrow> sorted_wrt (<) (map hh_height (filter P xs))"
  by (simp add: sorted_wrt_map sorted_wrt_filter)

lemma pruned_book:
  assumes "book_ok fin D" "pruned H D D'"
  shows "book_ok fin D'"
proof -
  have h: "db_hot D' = filter (\<lambda>b. hh_height b \<notin> H) (db_hot D)" using assms(2) by (simp add: pruned_def)
  have "sorted_wrt (<) (heights D)" using assms(1) by (simp only: book_ok_def)
  then have "sorted_wrt (<) (heights D')" unfolding h by (rule sorted_heights_filter)
  then show ?thesis using assms unfolding book_ok_def pruned_def by auto
qed

lemma grown_book:
  assumes "book_ok fin D" "grown bs D D'" "sorted_wrt (<) (map hh_height bs)"
    "\<And>a b. a \<in> set (db_hot D) \<Longrightarrow> b \<in> set bs \<Longrightarrow> hh_height a < hh_height b"
  shows "book_ok fin D'"
proof -
  obtain L X where 1: "db_log D' = db_log D @ L" "db_templates D' = db_templates D @ X" "db_hot D' = db_hot D @ bs"
    "\<forall>b \<in> set bs. (hh_height b, 0, Sentinel) \<in> set L" "\<forall>l \<in> set L. fst l \<in> hh_height ` set bs"
    "\<forall>x \<in> set X. snd x \<in> hh_height ` set bs" using assms(2) unfolding grown_def by blast
  have "sorted_wrt (<) (heights D')" using assms(1,3,4) by (auto simp: 1(3) book_ok_def sorted_wrt_append)
  then show ?thesis using assms(1) 1 unfolding book_ok_def by auto
qed

text \<open>The untracked run of the handler on finalized blocks.\<close>

lemma final_updates_book:
  assumes "performUpdates sc om cb fin None D = Inr D'" "book_ok fin D"
  shows "book_ok fin D' \<and> db_hot D' = db_hot D \<and> db_status D' = db_status D \<and> db_nonce D' = db_nonce D"
proof -
  obtain T L X where "D' = D\<lparr>db_tabs := T, db_log := db_log D @ L, db_templates := db_templates D @ X\<rparr>"
    "\<forall>l \<in> set L. \<exists>k. None = Some (fst l, k :: nat)" "\<forall>x \<in> set X. snd x = fin"
    using performUpdates_effect [OF assms(1)] by blast
  then show ?thesis using assms(2) by (cases L) (auto simp: book_ok_def)
qed

lemma transaction_finalizes:
  assumes "book_ok (hh_height fin) D" "updateStatus n fin (deleteHotBlocks (hh_height fin) D) = Inr D'"
  shows "db_ok D' \<and> db_status D' = fin \<and> db_nonce D' = n + 1 \<and> db_hot D' = filter (\<lambda>b. hh_height b > hh_height fin) (db_hot D)"
proof -
  have e: "D' = (deleteHotBlocks (hh_height fin) D)\<lparr>db_status := fin, db_nonce := n + 1\<rparr>"
    using assms(2) by (auto simp: updateStatus_def result_simps deleteHotBlocks_def drop_hot_def)
  then have hot: "db_hot D' = filter (\<lambda>b. hh_height b > hh_height fin) (db_hot D)"
    by (simp add: deleteHotBlocks_def drop_hot_def not_le)
  have "sorted_wrt (<) (heights D)" using assms(1) by (simp only: book_ok_def)
  then have srt: "sorted_wrt (<) (heights D')" unfolding hot by (rule sorted_heights_filter)
  have hs: "set (heights D') = {h \<in> set (heights D). hh_height fin < h}" unfolding hot by auto
  have logs: "set (db_log D') = {l \<in> set (db_log D). \<not> (fst l \<le> hh_height fin \<and> fst l \<in> set (heights D))}"
    and tmps: "db_templates D' = db_templates D"
    by (simp_all add: e deleteHotBlocks_def drop_hot_def)
  note b = assms(1) [unfolded book_ok_def]
  moreover have "\<forall>h \<in> set (heights D'). hh_height fin < h" unfolding hs by blast
  moreover have "log_known D'"
  proof
    fix l assume "l \<in> set (db_log D')"
    then have "l \<in> set (db_log D)" "\<not> (fst l \<le> hh_height fin \<and> fst l \<in> set (heights D))" unfolding logs by blast+
    moreover have "fst l \<in> set (heights D)" using b \<open>l \<in> set (db_log D)\<close> by blast
    ultimately show "fst l \<in> set (heights D')" unfolding hs by (simp add: not_le)
  qed
  moreover have "\<forall>h \<in> set (heights D'). (h, 0, Sentinel) \<in> set (db_log D')"
  proof
    fix h assume "h \<in> set (heights D')"
    then have "h \<in> set (heights D)" "hh_height fin < h" unfolding hs by blast+
    moreover from this(1) have "(h, 0, Sentinel) \<in> set (db_log D)" using b by blast
    ultimately show "(h, 0, Sentinel) \<in> set (db_log D')" unfolding logs by simp
  qed
  moreover have "\<forall>x \<in> set (db_templates D'). snd x \<le> hh_height fin \<or> snd x \<in> set (heights D')"
  proof
    fix x assume "x \<in> set (db_templates D')"
    then have "snd x \<le> hh_height fin \<or> snd x \<in> set (heights D)" using b unfolding tmps by blast
    then show "snd x \<le> hh_height fin \<or> snd x \<in> set (heights D')" unfolding hs using not_le by blast
  qed
  moreover have "db_status D' = fin" "db_nonce D' = n + 1" by (simp_all add: e)
  ultimately show ?thesis using hot srt by (simp add: db_ok_def)
qed

definition effective_head :: "hash_height \<Rightarrow> db \<Rightarrow> hash_height" where
  "effective_head f D = (if hh_height f \<ge> hh_height (db_status D) then f else db_status D)"

text \<open>The hot blocks after a transaction: those up to the base, then the last blocks of the slices.\<close>

definition hot_after :: "hot_tx_info \<Rightarrow> db \<Rightarrow> hash_height list" where
  "hot_after info D =
     (let fin = hh_height (effective_head (ti_finalizedHead info) D)
      in filter (\<lambda>b. hh_height b > fin \<and> hh_height b \<le> hh_height (ti_baseHead info)) (db_hot D) @
         slice_rows (ti_newBlocks info) fin)"

lemma transactHot2_parts:
  assumes "db_ok D" "transactHot2 sc om info cb D = Inr D'"
  obtains pos D1 D2 D3 where
    "sorted_wrt (<) (map hh_height (ti_baseHead info # ti_newBlocks info))"
    "findIndex (\<lambda>b. hh_hash b = hh_hash (ti_baseHead info)) (db_status D # db_hot D) = Some pos"
    "rfold (\<lambda>b. rollbackBlock sc (hh_height b)) (rev (drop pos (db_hot D))) D = Inr D1"
    "D2 = D1 \<or> performUpdates sc om (cb 0 (unfinalized_start (ti_newBlocks info) (hh_height (effective_head (ti_finalizedHead info) D))))
      (hh_height (effective_head (ti_finalizedHead info) D)) None D1 = Inr D2"
    "rfold (hot_slice sc om cb (ti_newBlocks info))
      (hot_slices (ti_newBlocks info) (hh_height (effective_head (ti_finalizedHead info) D))) D2 = Inr D3"
    "updateStatus (db_nonce D) (effective_head (ti_finalizedHead info) D)
      (deleteHotBlocks (hh_height (effective_head (ti_finalizedHead info) D)) D3) = Inr D'"
proof -
  have "\<exists>st. getState D = Inr st" using assms(2) by (auto simp: transactHot2_def result_simps)
  then have st: "getState D = Inr (db_status D, db_hot D)" using getState_ok [OF assms(1)] by auto
  let ?fin = "effective_head (ti_finalizedHead info) D"
  let ?s = "unfinalized_start (ti_newBlocks info) (hh_height ?fin)"
  have "assertChainContinuity (ti_baseHead info) (ti_newBlocks info) = Inr () \<and>
    (\<exists>pos D1 D2 D3. findIndex (\<lambda>b. hh_hash b = hh_hash (ti_baseHead info)) (db_status D # db_hot D) = Some pos \<and>
      rfold (\<lambda>b. rollbackBlock sc (hh_height b)) (rev (drop (pos + 1) (db_status D # db_hot D))) D = Inr D1 \<and>
      (if ?s > 0 then performUpdates sc om (cb 0 ?s) (hh_height ?fin) None D1 else Inr D1) = Inr D2 \<and>
      rfold (hot_slice sc om cb (ti_newBlocks info)) (hot_slices (ti_newBlocks info) (hh_height ?fin)) D2 = Inr D3 \<and>
      updateStatus (db_nonce D) ?fin (deleteHotBlocks (hh_height ?fin) D3) = Inr D')"
    using assms(2) unfolding transactHot2_def st effective_head_def [symmetric] Let_def rbind_Inr prod.case
    by (simp only: rbind_eq_Inr of_option_eq_Inr js_assert_eq_Inr)
      (elim exE conjE, intro conjI exI; (assumption | simp))
  then obtain pos D1 D2 D3 where r: "assertChainContinuity (ti_baseHead info) (ti_newBlocks info) = Inr ()"
      "findIndex (\<lambda>b. hh_hash b = hh_hash (ti_baseHead info)) (db_status D # db_hot D) = Some pos"
      "rfold (\<lambda>b. rollbackBlock sc (hh_height b)) (rev (drop (pos + 1) (db_status D # db_hot D))) D = Inr D1"
      "(if ?s > 0 then performUpdates sc om (cb 0 ?s) (hh_height ?fin) None D1 else Inr D1) = Inr D2"
      "rfold (hot_slice sc om cb (ti_newBlocks info)) (hot_slices (ti_newBlocks info) (hh_height ?fin)) D2 = Inr D3"
      "updateStatus (db_nonce D) ?fin (deleteHotBlocks (hh_height ?fin) D3) = Inr D'"
    by blast
  show ?thesis
  proof (rule that [OF _ r(2) _ _ r(5,6)])
    show "sorted_wrt (<) (map hh_height (ti_baseHead info # ti_newBlocks info))"
      using r(1) by (rule assertChainContinuity_sorted)
    show "rfold (\<lambda>b. rollbackBlock sc (hh_height b)) (rev (drop pos (db_hot D))) D = Inr D1"
      using r(3) by simp
    show "D2 = D1 \<or> performUpdates sc om (cb 0 ?s) (hh_height ?fin) None D1 = Inr D2"
      using r(4) by (cases "?s > 0") auto
  qed
qed

lemma transactHot2_continuous:
  assumes "transactHot2 sc om info cb D = Inr D'"
  shows "sorted_wrt (<) (map hh_height (ti_baseHead info # ti_newBlocks info))"
proof -
  have "assertChainContinuity (ti_baseHead info) (ti_newBlocks info) = Inr ()"
    using assms unfolding transactHot2_def Let_def by (auto simp: rbind_eq_Inr split: prod.splits)
  then show ?thesis by (rule assertChainContinuity_sorted)
qed

lemma mem_drop: "y \<in> set (drop k xs) \<longleftrightarrow> (\<exists>l. k \<le> l \<and> l < length xs \<and> xs ! l = y)"
proof
  assume "y \<in> set (drop k xs)"
  then obtain i where "i < length xs - k" "drop k xs ! i = y" by (auto simp: in_set_conv_nth)
  then show "\<exists>l. k \<le> l \<and> l < length xs \<and> xs ! l = y" by (intro exI [of _ "k + i"]) auto
next
  assume "\<exists>l. k \<le> l \<and> l < length xs \<and> xs ! l = y"
  then obtain l where l: "k \<le> l" "l < length xs" "xs ! l = y" by blast
  then have "drop k xs ! (l - k) = y" "l - k < length (drop k xs)" by auto
  then show "y \<in> set (drop k xs)" by (metis nth_mem)
qed

lemma filter_dropped:
  assumes "sorted_wrt (<) (map f (x # xs))" "k < length (x # xs)"
  shows "filter (\<lambda>y. f y \<notin> f ` set (drop k xs)) xs = filter (\<lambda>y. f y \<le> (f ((x # xs) ! k) :: int)) xs"
proof (rule filter_cong [OF refl])
  fix y assume "y \<in> set xs"
  then obtain j where j: "j < length xs" "xs ! j = y" by (metis in_set_conv_nth)
  have up: "f ((x # xs) ! i) < f ((x # xs) ! l)" if "i < l" "l < length (x # xs)" for i l
    using sorted_wrt_nth_less [OF assms(1) [unfolded sorted_wrt_map], of i l] that by blast
  have inj: "j = l" if "l < length xs" "f (xs ! j) = f (xs ! l)" for l
  proof (cases j l rule: linorder_cases)
    case less
    then show ?thesis using up [of "Suc j" "Suc l"] that unfolding nth_Cons_Suc by force
  next
    case greater
    then show ?thesis using up [of "Suc l" "Suc j"] that j(1) unfolding nth_Cons_Suc by force
  qed
  have "f y \<in> f ` set (drop k xs) \<longleftrightarrow> k \<le> j"
  proof
    assume "k \<le> j"
    then have "y \<in> set (drop k xs)" unfolding mem_drop using j by blast
    then show "f y \<in> f ` set (drop k xs)" by (rule imageI)
  next
    assume "f y \<in> f ` set (drop k xs)"
    then obtain z where z: "z \<in> set (drop k xs)" "f y = f z" by (rule imageE) blast
    from z(1) obtain l where l: "k \<le> l" "l < length xs" "xs ! l = z" unfolding mem_drop by blast
    then have "j = l" using inj z(2) j(2) by blast
    then show "k \<le> j" using l(1) by simp
  qed
  moreover have "f y \<le> f ((x # xs) ! k) \<longleftrightarrow> j < k"
  proof (cases "Suc j" k rule: linorder_cases)
    case less
    then have "f ((x # xs) ! Suc j) < f ((x # xs) ! k)" using assms(2) by (rule up)
    then show ?thesis using less j(2) by (simp only: nth_Cons_Suc) simp
  next
    case equal
    then have "(x # xs) ! k = y" using j(2) by auto
    then show ?thesis using equal by simp
  next
    case greater
    have "Suc j < length (x # xs)" using j(1) by simp
    with greater have "f ((x # xs) ! k) < f ((x # xs) ! Suc j)" by (rule up)
    then show ?thesis using greater j(2) by (simp only: nth_Cons_Suc) simp
  qed
  ultimately show "(f y \<notin> f ` set (drop k xs)) = (f y \<le> f ((x # xs) ! k))" by (simp only: not_le)
qed

text \<open>What a successful transaction does to the bookkeeping of the database.\<close>

lemma transactHot2_moves:
  assumes "db_ok D" "ti_baseHead info \<in> set (db_status D # db_hot D)" "distinct (map hh_hash (db_status D # db_hot D))"
    and "transactHot2 sc om info cb D = Inr D'"
  shows "db_ok D' \<and> db_status D' = effective_head (ti_finalizedHead info) D \<and>
    hh_height (db_status D) \<le> hh_height (db_status D') \<and> db_hot D' = hot_after info D \<and> db_nonce D' = db_nonce D + 1"
proof -
  let ?fin = "effective_head (ti_finalizedHead info) D"
  let ?blocks = "ti_newBlocks info" and ?base = "ti_baseHead info"
  have fin: "hh_height (db_status D) \<le> hh_height ?fin" by (simp add: effective_head_def)
  obtain pos D1 D2 D3 where
    sorted: "sorted_wrt (<) (map hh_height (?base # ?blocks))"
    and pos: "findIndex (\<lambda>b. hh_hash b = hh_hash ?base) (db_status D # db_hot D) = Some pos"
    and D1: "rfold (\<lambda>b. rollbackBlock sc (hh_height b)) (rev (drop pos (db_hot D))) D = Inr D1"
    and D2: "D2 = D1 \<or> performUpdates sc om (cb 0 (unfinalized_start ?blocks (hh_height ?fin))) (hh_height ?fin) None D1 = Inr D2"
    and D3: "rfold (hot_slice sc om cb ?blocks) (hot_slices ?blocks (hh_height ?fin)) D2 = Inr D3"
    and D': "updateStatus (db_nonce D) ?fin (deleteHotBlocks (hh_height ?fin) D3) = Inr D'"
    using transactHot2_parts [OF assms(1,4)] by blast
  have asc: "sorted_wrt (<) (map hh_height (db_status D # db_hot D))" using assms(1) by (simp add: db_ok_def)
  have base: "(db_status D # db_hot D) ! pos = ?base" "pos < length (db_status D # db_hot D)"
    using findIndex_Some [OF pos] assms(2,3) by (metis (no_types, lifting) distinct_map inj_onD nth_mem)+
  have split: "filter (\<lambda>b. hh_height b \<notin> hh_height ` set (rev (drop pos (db_hot D)))) (db_hot D) =
      filter (\<lambda>b. hh_height b \<le> hh_height ?base) (db_hot D)"
    using filter_dropped [OF asc, of pos] base by simp
  have b0: "book_ok (hh_height ?fin) D" using book_ok_mono [OF db_ok_book [OF assms(1)] fin] .
  have p1: "pruned (hh_height ` set (rev (drop pos (db_hot D)))) D D1"
    using D1 b0 by (intro rollbacks_pruned) (auto simp: book_ok_def)
  have hot1: "db_hot D1 = filter (\<lambda>b. hh_height b \<le> hh_height ?base) (db_hot D)" using p1 split by (simp add: pruned_def)
  have b1: "book_ok (hh_height ?fin) D1" using pruned_book [OF b0 p1] .
  have b2: "book_ok (hh_height ?fin) D2 \<and> db_hot D2 = db_hot D1" using D2 final_updates_book b1 by blast
  note rows = slice_rows_sorted [of ?blocks "hh_height ?fin"]
  have g: "grown (slice_rows ?blocks (hh_height ?fin)) D2 D3" using hot_slices_grown [OF D3] by (simp add: slice_rows_def)
  have "book_ok (hh_height ?fin) D3"
  proof (rule grown_book [OF _ g])
    show "book_ok (hh_height ?fin) D2" using b2 by simp
    show "sorted_wrt (<) (map hh_height (slice_rows ?blocks (hh_height ?fin)))" using rows(1) sorted by simp
    show "hh_height a < hh_height b" if "a \<in> set (db_hot D2)" "b \<in> set (slice_rows ?blocks (hh_height ?fin))" for a b
    proof -
      have "hh_height a \<le> hh_height ?base" using that(1) b2 hot1 by simp
      moreover have "hh_height ?base < hh_height b" using that(2) rows(2) sorted by auto
      ultimately show ?thesis by simp
    qed
  qed
  from transaction_finalizes [OF this D'] have f: "db_ok D'" "db_status D' = ?fin" "db_nonce D' = db_nonce D + 1"
    "db_hot D' = filter (\<lambda>b. hh_height b > hh_height ?fin) (db_hot D3)" by simp_all
  have "db_hot D3 = filter (\<lambda>b. hh_height b \<le> hh_height ?base) (db_hot D) @ slice_rows ?blocks (hh_height ?fin)"
    using g b2 hot1 by (simp add: grown_def)
  moreover have "filter (\<lambda>b. hh_height b > hh_height ?fin) (slice_rows ?blocks (hh_height ?fin)) = slice_rows ?blocks (hh_height ?fin)"
    using rows(2) sorted by (simp add: filter_id_conv)
  ultimately have "db_hot D' = hot_after info D" using f(4) by (simp add: hot_after_def Let_def conj_commute)
  with f fin show ?thesis by simp
qed

text \<open>The blocks of a slice but the last.\<close>

lemma slices_disjoint:
  "(i, e) \<in> set (slices g n s) \<Longrightarrow> (i', e') \<in> set (slices g n s) \<Longrightarrow> (i, e) = (i', e') \<or> e \<le> i' \<or> e' \<le> i"
proof (induction g n s rule: slices.induct)
  case (1 g n s)
  let ?first = "(s, min (s + max 1 g) n)" and ?rest = "slices g n (s + max 1 g)"
  have s: "s < n" "set (slices g n s) = insert ?first (set ?rest)"
    using "1.prems"(1) slices.simps [of g n s] by (auto split: if_splits)
  have later: "snd ?first \<le> j" if "(j, k) \<in> set ?rest" for j k using slices_bounds [OF that] by simp
  have IH: "(i, e) = (i', e') \<or> e \<le> i' \<or> e' \<le> i" if "(i, e) \<in> set ?rest" "(i', e') \<in> set ?rest"
    using "1.IH" [OF s(1)] that by blast
  show ?case
  proof (cases "(i, e) = ?first")
    case True
    show ?thesis
    proof (cases "(i', e') = ?first")
      case False
      then have "(i', e') \<in> set ?rest" using "1.prems"(2) s(2) by (metis insertE)
      from later [OF this] True show ?thesis by simp
    qed (use True in simp)
  next
    case False
    then have ie: "(i, e) \<in> set ?rest" using "1.prems"(1) s(2) by (metis insertE)
    show ?thesis
    proof (cases "(i', e') = ?first")
      case True
      with later [OF ie] show ?thesis by simp
    next
      case False
      then have "(i', e') \<in> set ?rest" using "1.prems"(2) s(2) by (metis insertE)
      with ie IH show ?thesis by blast
    qed
  qed
qed

definition inside_slice :: "hash_height list \<Rightarrow> int \<Rightarrow> hash_height \<Rightarrow> bool" where
  "inside_slice blocks fin b \<longleftrightarrow> (\<exists>(i, e) \<in> set (hot_slices blocks fin). b \<in> set (take (e - 1 - i) (drop i blocks)))"

lemma inside_slice_no_row:
  assumes "sorted_wrt (<) (map hh_height blocks)" "inside_slice blocks fin b"
  shows "b \<in> set blocks" "b \<notin> set (slice_rows blocks fin)"
proof -
  obtain i e where ie: "(i, e) \<in> set (hot_slices blocks fin)" "b \<in> set (take (e - 1 - i) (drop i blocks))"
    using assms(2) by (auto simp: inside_slice_def)
  then obtain k where k: "k < e - 1 - i" "k < length blocks - i" "b = blocks ! (i + k)" by (auto simp: in_set_conv_nth)
  then have j: "i \<le> i + k" "i + k < e - 1" "i + k < length blocks" by auto
  then show "b \<in> set blocks" using k(3) by simp
  show "b \<notin> set (slice_rows blocks fin)"
  proof
    assume "b \<in> set (slice_rows blocks fin)"
    then obtain i' e' where ie': "(i', e') \<in> set (hot_slices blocks fin)" "b = blocks ! (e' - 1)" by (auto simp: slice_rows_def)
    note bounds = hot_slices_bounds [OF ie'(1)]
    have "e' - 1 = i + k"
    proof (rule ccontr)
      assume "e' - 1 \<noteq> i + k"
      then consider "e' - 1 < i + k" | "i + k < e' - 1" by linarith
      then have "hh_height (blocks ! (e' - 1)) \<noteq> hh_height (blocks ! (i + k))"
      proof cases
        case 1
        then show ?thesis using sorted_wrt_nth_less [OF assms(1), of "e' - 1" "i + k"] j(3) by simp
      next
        case 2
        have "e' - 1 < length blocks" using bounds by auto
        then show ?thesis using sorted_wrt_nth_less [OF assms(1), of "i + k" "e' - 1"] 2 by simp
      qed
      then show False using ie'(2) k(3) by simp
    qed
    moreover have "(i, e) = (i', e') \<or> e \<le> i' \<or> e' \<le> i"
      using ie(1) ie'(1) unfolding hot_slices_def Let_def by (rule slices_disjoint)
    ultimately show False using j bounds by auto
  qed
qed

text \<open>C4: A hot transaction that succeeds moves the database from one consistent state to the next: the
  status becomes the finalized head, never going back, the hot blocks are those of the old chain up to
  the base and above the status, followed by the last block of each slice, the log and the templates
  keep to the blocks that are left, and the nonce grows by one, whatever the data handler does. This is not what the
  comment at lines 247 to 249 says: there every block of a slice gets its own row in \<open>hot_block\<close>; in the code no
  block of a slice but the last has one afterwards, so none of them can be the base of a later transaction. The
  base is taken to be one of the blocks of the database, which are known by distinct hashes.\<close>

theorem transactHot2_ok:
  assumes "db_ok D" "ti_baseHead info \<in> set (db_status D # db_hot D)" "distinct (map hh_hash (db_status D # db_hot D))"
    and "transactHot2 sc om info cb D = Inr D'"
  shows "db_ok D' \<and> db_status D' = effective_head (ti_finalizedHead info) D \<and>
    hh_height (db_status D) \<le> hh_height (db_status D') \<and> db_hot D' = hot_after info D \<and> db_nonce D' = db_nonce D + 1 \<and>
    (\<forall>b. inside_slice (ti_newBlocks info) (hh_height (db_status D')) b \<longrightarrow> b \<in> set (ti_newBlocks info) \<and> b \<notin> set (db_hot D'))"
proof -
  note m = transactHot2_moves [OF assms]
  note sorted = transactHot2_continuous [OF assms(4)]
  have "b \<in> set (ti_newBlocks info) \<and> b \<notin> set (db_hot D')"
    if b: "inside_slice (ti_newBlocks info) (hh_height (effective_head (ti_finalizedHead info) D)) b" for b
  proof -
    have s: "sorted_wrt (<) (map hh_height (ti_newBlocks info))" using sorted by simp
    note n = inside_slice_no_row [OF s b]
    have "hh_height (ti_baseHead info) < hh_height b" using sorted n(1) by auto
    then have "b \<notin> set (db_hot D')" using m n(2) by (auto simp: hot_after_def Let_def)
    with n(1) show ?thesis by blast
  qed
  with m show ?thesis by auto
qed

lemma users_hot_run:
  "returns (transactHot2 users (plain_orm users)
     \<lparr>ti_baseHead = db_status users_db, ti_finalizedHead = db_status users_db, ti_newBlocks = [eleven]\<rparr>
     (\<lambda>_ _. users_handler) users_db)"
  by code_simp

theorem transactHot2_ok_witness:
  "\<exists>D'. transactHot2 users (plain_orm users)
      \<lparr>ti_baseHead = db_status users_db, ti_finalizedHead = db_status users_db, ti_newBlocks = [eleven]\<rparr>
      (\<lambda>_ _. users_handler) users_db = Inr D' \<and> db_ok D' \<and> db_hot D' = [eleven] \<and> db_nonce D' = 4"
proof -
  let ?info = "\<lparr>ti_baseHead = db_status users_db, ti_finalizedHead = db_status users_db, ti_newBlocks = [eleven]\<rparr>"
  obtain D' where D': "transactHot2 users (plain_orm users) ?info (\<lambda>_ _. users_handler) users_db = Inr D'"
    using returnsD [OF users_hot_run] by blast
  have "db_ok users_db" by (simp add: db_ok_def users_db_def)
  from transactHot2_ok [OF this _ _ D'] have "db_ok D' \<and> db_hot D' = hot_after ?info users_db \<and> db_nonce D' = 4"
    by (simp add: users_db_def)
  moreover have "hot_after ?info users_db = [eleven]"
    by (simp add: hot_after_def effective_head_def users_db_def eleven_def slice_rows_def hot_slices_def
        unfinalized_start_def slices.simps)
  ultimately show ?thesis using D' by auto
qed

section \<open>What the handler sees, and what the database keeps\<close>

lemma slices_width: "(i, e) \<in> set (slices g n s) \<Longrightarrow> e = min (i + max 1 g) n"
proof (induction g n s rule: slices.induct)
  case (1 g n s)
  then show ?case using slices.simps [of g n s] by (auto split: if_splits)
qed

text \<open>The handler of a hot transaction is called on consecutive slices that together are the new
  blocks, each block once and in order, the finalized ones in the first slice.\<close>

theorem hot_slices_partition:
  "concat (map (\<lambda>(i, e). [i..<e]) ((0, unfinalized_start blocks fin) # hot_slices blocks fin)) = [0..<length blocks]"
proof -
  have "[0..<length blocks] = [0..<unfinalized_start blocks fin] @ [unfinalized_start blocks fin..<length blocks]"
    using unfinalized_start_le [of blocks fin] by (metis le_add_diff_inverse le0 upt_add_eq_append)
  then show ?thesis using slices_partition [OF unfinalized_start_le] by (simp add: hot_slices_def Let_def)
qed

text \<open>From two hundred unfinalized blocks on, the first of them has no row of its own in \<open>hot_block\<close>
  after the transaction: the source says that every block of a slice gets one, so that it can be the
  base of a later transaction.\<close>

theorem grouped_block_without_row:
  assumes "sorted_wrt (<) (map hh_height blocks)" "200 \<le> length blocks - unfinalized_start blocks fin"
  shows "blocks ! unfinalized_start blocks fin \<notin> set (slice_rows blocks fin)"
proof
  let ?s = "unfinalized_start blocks fin"
  assume "blocks ! ?s \<in> set (slice_rows blocks fin)"
  then obtain i e where ie: "(i, e) \<in> set (hot_slices blocks fin)" "blocks ! ?s = blocks ! (e - 1)"
    by (auto simp: slice_rows_def)
  note b = hot_slices_bounds [OF ie(1)]
  have "(i, e) \<in> set (slices (max 1 ((length blocks - ?s) div 100)) (length blocks) ?s)"
    using ie(1) by (simp add: hot_slices_def Let_def)
  from slices_width [OF this] have "e = min (i + max 1 (max 1 ((length blocks - ?s) div 100))) (length blocks)" .
  moreover have "2 \<le> (length blocks - ?s) div 100" using assms(2) by linarith
  ultimately have "?s + 2 \<le> e" using b assms(2) by (auto simp: min_def split: if_splits)
  then have "?s < e - 1" "e - 1 < length blocks" using b by linarith+
  then have "hh_height (blocks ! ?s) < hh_height (blocks ! (e - 1))"
    using sorted_wrt_nth_less [OF assms(1), of ?s "e - 1"] b by simp
  then show False using ie(2) by simp
qed

definition long_fork :: "hash_height list" where
  "long_fork = map (\<lambda>i. \<lparr>hh_height = int i, hh_hash = [i]\<rparr>) [1..<201]"

theorem grouped_block_without_row_witness: "\<lparr>hh_height = 1, hh_hash = [1]\<rparr> \<notin> set (slice_rows long_fork 0)"
proof -
  have s: "unfinalized_start long_fork 0 = 0"
    by (simp add: unfinalized_start_def long_fork_def upt_conv_Cons)
  have l: "length long_fork = 200" and f: "long_fork ! 0 = \<lparr>hh_height = 1, hh_hash = [1]\<rparr>"
    by (simp_all add: long_fork_def)
  have "sorted_wrt (<) (map hh_height long_fork)"
    by (simp add: long_fork_def sorted_wrt_map sorted_wrt_iff_nth_less)
  from grouped_block_without_row [OF this, of 0] show ?thesis by (simp add: s l f)
qed

end
