(* ===== verification/Batch_Processor.thy ===== *)
theory Batch_Processor
  imports Typeorm_Database "HOL-Library.Sublist"
begin

text \<open>
  The batch processor, \<open>processor/batch-processor/src/run.ts\<close>: the loop that takes batches of blocks from a
  data source, hands them to the data handler inside a transaction of the database and follows forks.

  The database is a parameter, the interface \<open>Database\<close> of \<open>database.ts\<close> as a record of its operations;
  the contract of a database with hot blocks is the locale \<open>hot_database\<close>, and the database of
  \<open>typeorm-store\<close> keeps it. A transaction calls the handler on slices of the new blocks: it returns those
  slices beside the new state, because the callback records the heads of the slices. The stream of the
  data source is the list of its batches and the way it ends. Metrics and status reports are left out.
\<close>

section \<open>The state\<close>

record 'p block_item =
  bi_header :: block_ref
  bi_payload :: 'p

record 'p block_batch =
  bb_blocks :: "'p block_item list"
  bb_finalizedHead :: "block_ref option"

record pstate =
  ps_finalizedHead :: "block_ref option"
  ps_unfinalizedHeads :: "block_ref list"

definition or_else :: "'a option \<Rightarrow> 'a option \<Rightarrow> 'a option" where
  "or_else a b = (case a of Some x \<Rightarrow> Some x | None \<Rightarrow> b)"

definition ps_head :: "pstate \<Rightarrow> block_ref option" where
  "ps_head st = or_else (maybeLast (ps_unfinalizedHeads st)) (ps_finalizedHead st)"

definition toHashAndHeight :: "block_ref option \<Rightarrow> hash_height" where
  "toHashAndHeight ref =
     (case ref of None \<Rightarrow> \<lparr>hh_height = - 1, hh_hash = js ''0x''\<rparr>
      | Some r \<Rightarrow> \<lparr>hh_height = br_number r, hh_hash = br_hash r\<rparr>)"

definition toBlockRef :: "hash_height \<Rightarrow> block_ref" where
  "toBlockRef hh = \<lparr>br_number = hh_height hh, br_hash = hh_hash hh\<rparr>"

definition maxBlockRef :: "block_ref option \<Rightarrow> block_ref option \<Rightarrow> block_ref option" where
  "maxBlockRef a b =
     (case a of None \<Rightarrow> b | Some x \<Rightarrow> (case b of None \<Rightarrow> a | Some y \<Rightarrow> if br_number x \<ge> br_number y then a else b))"

fun assertBlocksContinuity :: "block_ref option \<Rightarrow> 'p block_item list \<Rightarrow> unit result" where
  "assertBlocksContinuity prev [] = Inr ()"
| "assertBlocksContinuity prev (b # blocks) =
     (if (case prev of None \<Rightarrow> False | Some p \<Rightarrow> br_number p \<ge> br_number (bi_header b))
      then Inl (ThrownError ''Data is not continuous'')
      else assertBlocksContinuity (Some (bi_header b)) blocks)"

section \<open>Forks\<close>

fun findRollbackIndex_loop :: "block_ref list \<Rightarrow> block_ref list \<Rightarrow> nat \<Rightarrow> int \<Rightarrow> int" where
  "findRollbackIndex_loop (c # cs) (f # fs) currentIndex lastCommonIndex =
     (if br_number c > br_number f then findRollbackIndex_loop (c # cs) fs currentIndex lastCommonIndex
      else if br_number c < br_number f then findRollbackIndex_loop cs (f # fs) (currentIndex + 1) lastCommonIndex
      else if br_hash c \<noteq> br_hash f then lastCommonIndex
      else findRollbackIndex_loop cs fs (currentIndex + 1) (int currentIndex))"
| "findRollbackIndex_loop _ _ currentIndex lastCommonIndex = lastCommonIndex"

definition findRollbackIndex :: "block_ref list \<Rightarrow> block_ref list \<Rightarrow> int" where
  "findRollbackIndex currentChain forkChain = findRollbackIndex_loop currentChain forkChain 0 (- 1)"

definition handleFork :: "block_ref list \<Rightarrow> pstate \<Rightarrow> pstate result" where
  "handleFork previousBlocks st =
     (let chain = (case ps_finalizedHead st of Some f \<Rightarrow> f # ps_unfinalizedHeads st | None \<Rightarrow> ps_unfinalizedHeads st);
          rollbackIndex = findRollbackIndex chain previousBlocks
      in if rollbackIndex = - 1
         then (if ps_finalizedHead st \<noteq> None then Inl (ThrownError ''Unable to process fork'')
               else Inr (st\<lparr>ps_unfinalizedHeads := []\<rparr>))
         else Inr (st\<lparr>ps_unfinalizedHeads :=
           js_slice chain (if ps_finalizedHead st \<noteq> None then 1 else 0) (nat rollbackIndex + 1)\<rparr>))"

section \<open>Batches\<close>

text \<open>The interface of the database: \<open>'h\<close> is what runs inside a transaction.\<close>

record ('db, 'h) database =
  d_supportsHotBlocks :: bool
  d_transact :: "hash_height \<Rightarrow> hash_height \<Rightarrow> 'h \<Rightarrow> 'db \<Rightarrow> 'db result"
  d_transactHot2 :: "hot_tx_info \<Rightarrow> (nat \<Rightarrow> nat \<Rightarrow> 'h) \<Rightarrow> 'db \<Rightarrow> ('db \<times> (nat \<times> nat) list) result"

text \<open>The finalized head that is passed on, and the index of the first unfinalized block.\<close>

definition batch_finalizedHead :: "pstate \<Rightarrow> block_ref option \<Rightarrow> block_ref option" where
  "batch_finalizedHead st fin =
     (let fin1 = (case fin of None \<Rightarrow> None | Some f \<Rightarrow>
            (case ps_finalizedHead st of None \<Rightarrow> fin | Some g \<Rightarrow> if br_number f \<le> br_number g then Some g else fin))
      in maxBlockRef fin1 (ps_finalizedHead st))"

definition batch_unfinalizedIndex :: "block_ref option \<Rightarrow> 'p block_item list \<Rightarrow> nat" where
  "batch_unfinalizedIndex fin blocks =
     (case fin of None \<Rightarrow> 0
      | Some f \<Rightarrow> (case findIndex (\<lambda>b. br_number (bi_header b) > br_number f) blocks of
          Some i \<Rightarrow> i | None \<Rightarrow> length blocks))"

definition tx_finalizedHead :: "block_ref option \<Rightarrow> nat \<Rightarrow> 'p block_item list \<Rightarrow> block_ref option" where
  "tx_finalizedHead fin unfinalizedIndex blocks =
     (if blocks = [] \<or> unfinalizedIndex = 0 then fin
      else if unfinalizedIndex = length blocks then Some (bi_header (last blocks))
      else Some (bi_header (blocks ! (unfinalizedIndex - 1))))"

text \<open>What the callback of \<open>transactHot2\<close> records: the last header of each slice with unfinalized blocks.\<close>

definition slice_heads :: "nat \<Rightarrow> 'p block_item list \<Rightarrow> (nat \<times> nat) list \<Rightarrow> block_ref list" where
  "slice_heads unfinalizedIndex blocks calls =
     concat (map (\<lambda>(start, en).
       if js_slice blocks start en = [] \<or> \<not> en > unfinalizedIndex then []
       else [bi_header (last (js_slice blocks start en))]) calls)"

definition above_finalized :: "block_ref option \<Rightarrow> block_ref list \<Rightarrow> block_ref list" where
  "above_finalized fin heads =
     (case fin of None \<Rightarrow> heads
      | Some f \<Rightarrow> (case findIndex (\<lambda>h. br_number h > br_number f) heads of None \<Rightarrow> [] | Some idx \<Rightarrow> drop idx heads))"

definition hot_batch ::
  "('db, 'h) database \<Rightarrow> ('p block_item list \<Rightarrow> bool \<Rightarrow> 'h) \<Rightarrow> 'h \<Rightarrow> bool \<Rightarrow> block_ref option \<Rightarrow>
    'p block_item list \<Rightarrow> pstate \<times> 'db \<Rightarrow> (pstate \<times> 'db) result" where
  "hot_batch db map_blocks idle isOnTop fin blocks s =
     (let st = fst s;
          unfinalizedIndex = batch_unfinalizedIndex fin blocks;
          finalizedHead = tx_finalizedHead fin unfinalizedIndex blocks;
          info = \<lparr>ti_baseHead = toHashAndHeight (ps_head st), ti_finalizedHead = toHashAndHeight finalizedHead,
            ti_newBlocks = map (\<lambda>b. toHashAndHeight (Some (bi_header b))) blocks\<rparr>
      in rbind (d_transactHot2 db info (\<lambda>start en.
           if js_slice blocks start en = [] then idle else map_blocks (js_slice blocks start en) isOnTop) (snd s))
         (\<lambda>(D, calls).
           let newFinalizedHead = or_else finalizedHead (ps_finalizedHead st)
           in Inr (st\<lparr>ps_finalizedHead := newFinalizedHead,
                      ps_unfinalizedHeads := above_finalized newFinalizedHead (ps_unfinalizedHeads st) @
                        slice_heads unfinalizedIndex blocks calls\<rparr>, D)))"

definition final_batch ::
  "('db, 'h) database \<Rightarrow> ('p block_item list \<Rightarrow> bool \<Rightarrow> 'h) \<Rightarrow> bool \<Rightarrow> block_ref option \<Rightarrow> block_ref \<Rightarrow>
    'p block_item list \<Rightarrow> pstate \<times> 'db \<Rightarrow> (pstate \<times> 'db) result" where
  "final_batch db map_blocks isOnTop fin nextHead blocks s =
     (let st = fst s
      in rbind (js_assert (batch_unfinalizedIndex fin blocks = length blocks)) (\<lambda>_.
         rbind (d_transact db (toHashAndHeight (ps_head st)) (toHashAndHeight (Some nextHead)) (map_blocks blocks isOnTop) (snd s))
         (\<lambda>D. Inr (st\<lparr>ps_finalizedHead := Some nextHead, ps_unfinalizedHeads := []\<rparr>, D))))"

definition processBatch ::
  "('db, 'h) database \<Rightarrow> ('p block_item list \<Rightarrow> bool \<Rightarrow> 'h) \<Rightarrow> 'h \<Rightarrow> int \<Rightarrow> 'p block_batch \<Rightarrow>
    pstate \<times> 'db \<Rightarrow> (pstate \<times> 'db) result" where
  "processBatch db map_blocks idle chainHeight data s =
     (let st = fst s; blocks = bb_blocks data; prevHead = ps_head st
      in if blocks = [] \<and> bb_finalizedHead data = None then Inr s
         else if blocks = [] \<and> \<not> d_supportsHotBlocks db then Inr s
         else rbind (assertBlocksContinuity prevHead blocks) (\<lambda>_.
           let fin = batch_finalizedHead st (bb_finalizedHead data)
           in case or_else (map_option bi_header (maybeLast blocks)) (or_else prevHead fin) of
                None \<Rightarrow> Inr s
              | Some nextHead \<Rightarrow>
                  let isOnTop = (br_number nextHead \<ge> chainHeight)
                  in if d_supportsHotBlocks db then hot_batch db map_blocks idle isOnTop fin blocks s
                     else final_batch db map_blocks isOnTop fin nextHead blocks s))"

section \<open>The run loop\<close>

datatype stream_end = StreamFork "block_ref list" | StreamError js_error | StreamDone

text \<open>A session: the batches of one stream. A failed batch ends it with its exception.\<close>

fun run_session ::
  "('db, 'h) database \<Rightarrow> ('p block_item list \<Rightarrow> bool \<Rightarrow> 'h) \<Rightarrow> 'h \<Rightarrow> (int \<times> 'p block_batch) list \<Rightarrow>
    stream_end \<Rightarrow> pstate \<times> 'db \<Rightarrow> stream_end \<times> pstate \<times> 'db" where
  "run_session db map_blocks idle [] e s = (e, s)"
| "run_session db map_blocks idle ((chainHeight, data) # rest) e s =
     (case processBatch db map_blocks idle chainHeight data s of
        Inl err \<Rightarrow> (StreamError err, s)
      | Inr s' \<Rightarrow> run_session db map_blocks idle rest e s')"

datatype run_result = RunContinue | RunFinished | RunThrown js_error

definition stream_request :: "pstate \<Rightarrow> int \<times> jstr option" where
  "stream_request st =
     ((case ps_head st of Some h \<Rightarrow> br_number h | None \<Rightarrow> - 1) + 1, map_option br_hash (ps_head st))"

text \<open>One iteration of \<open>while (true)\<close>; the source answers the request of the session.\<close>

definition run_iteration ::
  "('db, 'h) database \<Rightarrow> ('p block_item list \<Rightarrow> bool \<Rightarrow> 'h) \<Rightarrow> 'h \<Rightarrow>
    (int \<times> jstr option \<Rightarrow> (int \<times> 'p block_batch) list \<times> stream_end) \<Rightarrow> pstate \<times> 'db \<Rightarrow> run_result \<times> pstate \<times> 'db" where
  "run_iteration db map_blocks idle source s =
     (case source (stream_request (fst s)) of (batches, e) \<Rightarrow>
      (case run_session db map_blocks idle batches e s of
         (StreamDone, s') \<Rightarrow> (RunFinished, s')
       | (StreamError err, s') \<Rightarrow> (RunThrown err, s')
       | (StreamFork previousBlocks, s') \<Rightarrow>
           if \<not> d_supportsHotBlocks db then (RunThrown (ThrownError ''ForkException''), s')
           else (case handleFork previousBlocks (fst s') of
                   Inl err \<Rightarrow> (RunThrown err, s')
                 | Inr st \<Rightarrow> (RunContinue, (st, snd s')))))"

text \<open>The loop over the answers of the source, one for each iteration; the state at the start is that of
  the connected database.\<close>

fun run_loop ::
  "('db, 'h) database \<Rightarrow> ('p block_item list \<Rightarrow> bool \<Rightarrow> 'h) \<Rightarrow> 'h \<Rightarrow>
    (int \<times> jstr option \<Rightarrow> (int \<times> 'p block_batch) list \<times> stream_end) list \<Rightarrow> pstate \<times> 'db \<Rightarrow> run_result \<times> pstate \<times> 'db" where
  "run_loop db map_blocks idle [] s = (RunContinue, s)"
| "run_loop db map_blocks idle (source # sources) s =
     (case run_iteration db map_blocks idle source s of
        (RunContinue, s') \<Rightarrow> run_loop db map_blocks idle sources s'
      | r \<Rightarrow> r)"

definition toProcessorStateInit :: "hash_height \<Rightarrow> hash_height list option \<Rightarrow> pstate" where
  "toProcessorStateInit head tops =
     \<lparr>ps_finalizedHead = (if hh_height head < 0 then None else Some (toBlockRef head)),
      ps_unfinalizedHeads = (case tops of None \<Rightarrow> [] | Some bs \<Rightarrow> map toBlockRef bs)\<rparr>"

text \<open>The database of \<open>typeorm-store\<close> as one: the calls of the handler are the first slice, when there are
  finalized blocks, and the hot slices.\<close>

definition handler_calls :: "hot_tx_info \<Rightarrow> db \<Rightarrow> (nat \<times> nat) list" where
  "handler_calls info D =
     (let fin = hh_height (effective_head (ti_finalizedHead info) D); s = unfinalized_start (ti_newBlocks info) fin
      in (if s > 0 then [(0, s)] else []) @ hot_slices (ti_newBlocks info) fin)"

text \<open>The attempts of \<open>submit\<close>: an attempt that ends in a serialization failure is rolled back, after some of
  its calls of the handler; the calls are those of all attempts.\<close>

fun submit :: "nat \<Rightarrow> nat list \<Rightarrow> ('db \<times> 'c list) result \<Rightarrow> ('db \<times> 'c list) result" where
  "submit retries [] tx = tx"
| "submit retries (calls_made # failures) tx =
     (if retries = 0 then Inl (ThrownError ''40001'')
      else rbind (submit (retries - 1) failures tx) (\<lambda>(D, calls).
        rbind tx (\<lambda>(_, own). Inr (D, take calls_made own @ calls))))"

definition typeorm_database :: "schema \<Rightarrow> orm \<Rightarrow> nat list \<Rightarrow> (db, tables \<Rightarrow> handler) database" where
  "typeorm_database sc om failures =
     \<lparr>d_supportsHotBlocks = True,
      d_transact = transact sc om,
      d_transactHot2 = \<lambda>info cb D.
        submit 3 failures (rbind (transactHot2 sc om info cb D) (\<lambda>D'. Inr (D', handler_calls info D)))\<rparr>"

section \<open>The common base of a fork\<close>

text \<open>Position \<open>i\<close> of a chain is shared with a fork when its block is in it and the fork has no other block
  at the height of any block up to it.\<close>

definition shared_upto :: "block_ref list \<Rightarrow> block_ref list \<Rightarrow> nat \<Rightarrow> bool" where
  "shared_upto cs fs i \<longleftrightarrow> i < length cs \<and> cs ! i \<in> set fs \<and>
     (\<forall>j \<le> i. \<forall>f \<in> set fs. br_number f = br_number (cs ! j) \<longrightarrow> f = cs ! j)"

lemma shared_upto_Suc:
  "shared_upto (c # cs) fs (Suc i) \<longleftrightarrow> (\<forall>f \<in> set fs. br_number f = br_number c \<longrightarrow> f = c) \<and> shared_upto cs fs i"
  by (auto simp: shared_upto_def All_less_Suc2 less_Suc_eq_le [symmetric])

lemma shared_upto_old:
  assumes "\<forall>c \<in> set cs. br_number c > br_number f"
  shows "shared_upto cs (f # fs) i \<longleftrightarrow> shared_upto cs fs i"
proof -
  have "f \<noteq> cs ! j \<and> br_number f \<noteq> br_number (cs ! j)" if "j < length cs" for j using assms that by fastforce
  then have "i < length cs \<Longrightarrow> j \<le> i \<Longrightarrow> f \<noteq> cs ! j \<and> br_number f \<noteq> br_number (cs ! j)" for j by simp
  then show ?thesis unfolding shared_upto_def list.set(2) by blast
qed

abbreviation ascending_refs :: "block_ref list \<Rightarrow> bool" where
  "ascending_refs bs \<equiv> sorted_wrt (<) (map br_number bs)"

text \<open>The greatest number with a property, shifted by \<open>k\<close>, or the default.\<close>

definition greatest :: "(nat \<Rightarrow> bool) \<Rightarrow> nat \<Rightarrow> int \<Rightarrow> int \<Rightarrow> bool" where
  "greatest P k l r \<longleftrightarrow> (r = l \<and> (\<forall>i. \<not> P i)) \<or> (\<exists>i. r = int (k + i) \<and> P i \<and> (\<forall>j > i. \<not> P j))"

lemma greatest_Suc:
  assumes "greatest (\<lambda>i. P (Suc i)) (k + 1) l' r" "l' = (if P 0 then int k else l)"
  shows "greatest P k l r"
proof (cases "\<forall>i. \<not> P (Suc i)")
  case True
  then have "\<not> P j" if "j > 0" for j using that by (cases j) auto
  then have "(\<forall>j > 0. \<not> P j) \<and> (\<not> P 0 \<longrightarrow> (\<forall>j. \<not> P j))" by (metis neq0_conv)
  then show ?thesis using assms True unfolding greatest_def by (cases "P 0") auto
next
  case False
  then obtain i where i: "r = int (k + Suc i)" "P (Suc i)" "\<forall>j > i. \<not> P (Suc j)"
    using assms(1) unfolding greatest_def by auto
  have "\<not> P j" if "j > Suc i" for j using i(3) that by (cases j) auto
  then show ?thesis using i unfolding greatest_def by blast
qed

lemma findRollbackIndex_loop_shared:
  "ascending_refs cs \<Longrightarrow> ascending_refs fs \<Longrightarrow> greatest (shared_upto cs fs) k l (findRollbackIndex_loop cs fs k l)"
proof (induction cs fs k l rule: findRollbackIndex_loop.induct)
  case (1 c cs f fs k l)
  consider "br_number c > br_number f" | "br_number c < br_number f" |
    "br_number c = br_number f" "br_hash c \<noteq> br_hash f" | "c = f" by fastforce
  then show ?case
  proof cases
    case 1
    then have "shared_upto (c # cs) (f # fs) = shared_upto (c # cs) fs"
      using "1.prems"(1) by (intro ext shared_upto_old) auto
    then show ?thesis using "1.IH"(1) 1 "1.prems" by simp
  next
    case 2
    then have c: "\<forall>g \<in> set (f # fs). br_number g \<noteq> br_number c" using "1.prems"(2) by fastforce
    then have "c \<notin> set (f # fs)" by blast
    then have "\<not> shared_upto (c # cs) (f # fs) 0" by (simp add: shared_upto_def)
    moreover have "(\<lambda>i. shared_upto (c # cs) (f # fs) (Suc i)) = shared_upto cs (f # fs)"
      using c by (simp add: shared_upto_Suc fun_eq_iff)
    moreover have "greatest (shared_upto cs (f # fs)) (k + 1) l (findRollbackIndex_loop cs (f # fs) (k + 1) l)"
      using 2 "1.prems" by (intro "1.IH"(2)) auto
    moreover have "findRollbackIndex_loop (c # cs) (f # fs) k l = findRollbackIndex_loop cs (f # fs) (k + 1) l"
      using 2 by simp
    ultimately show ?thesis
      using greatest_Suc [of "shared_upto (c # cs) (f # fs)" k l _ l] by (simp del: findRollbackIndex_loop.simps)
  next
    case 3
    then have "\<not> shared_upto (c # cs) (f # fs) i" for i by (auto simp: shared_upto_def)
    then show ?thesis using 3 by (simp add: greatest_def)
  next
    case 4
    have later: "\<forall>g \<in> set fs. br_number g > br_number f" using "1.prems"(2) by auto
    then have "shared_upto (c # cs) (f # fs) 0" using 4 by (auto simp: shared_upto_def)
    moreover have "shared_upto cs (f # fs) = shared_upto cs fs"
      using "1.prems"(1) 4 by (intro ext shared_upto_old) auto
    then have "(\<lambda>i. shared_upto (c # cs) (f # fs) (Suc i)) = shared_upto cs fs"
      using later 4 by (auto simp: shared_upto_Suc fun_eq_iff)
    moreover have "greatest (shared_upto cs fs) (k + 1) (int k) (findRollbackIndex_loop cs fs (k + 1) (int k))"
      using 4 "1.prems" by (intro "1.IH"(3)) auto
    moreover have "findRollbackIndex_loop (c # cs) (f # fs) k l = findRollbackIndex_loop cs fs (k + 1) (int k)"
      using 4 by simp
    ultimately show ?thesis
      using greatest_Suc [of "shared_upto (c # cs) (f # fs)" k "int k" _ l] by (simp del: findRollbackIndex_loop.simps)
  qed
qed (auto simp: shared_upto_def greatest_def)

text \<open>C24: Of two ascending chains \<open>findRollbackIndex\<close> returns the last position of the first whose block is in
  the second and below which the two do not disagree at any height, or minus one if there is none.\<close>

theorem findRollbackIndex_greatest:
  assumes "ascending_refs currentChain" "ascending_refs forkChain"
  shows "(findRollbackIndex currentChain forkChain = - 1 \<and> (\<forall>i. \<not> shared_upto currentChain forkChain i)) \<or>
    (\<exists>i. findRollbackIndex currentChain forkChain = int i \<and> shared_upto currentChain forkChain i \<and>
      (\<forall>j > i. \<not> shared_upto currentChain forkChain j))"
  using findRollbackIndex_loop_shared [OF assms, of 0 "- 1"] by (simp add: findRollbackIndex_def greatest_def)

abbreviation test_ref :: "int \<Rightarrow> string \<Rightarrow> block_ref" where
  "test_ref n h \<equiv> \<lparr>br_number = n, br_hash = js h\<rparr>"

theorem findRollbackIndex_greatest_witness:
  "let cur = [test_ref 5 ''a'', test_ref 7 ''b'', test_ref 9 ''c'']; other = [test_ref 6 ''x'', test_ref 7 ''b'', test_ref 8 ''y'', test_ref 9 ''z'']
   in findRollbackIndex cur other = 1 \<and> shared_upto cur other 1 \<and> \<not> shared_upto cur other 2"
proof -
  let ?cur = "[test_ref 5 ''a'', test_ref 7 ''b'', test_ref 9 ''c'']"
  let ?other = "[test_ref 6 ''x'', test_ref 7 ''b'', test_ref 8 ''y'', test_ref 9 ''z'']"
  have "findRollbackIndex ?cur ?other = 1" by code_simp
  moreover have "(findRollbackIndex ?cur ?other = - 1 \<and> (\<forall>i. \<not> shared_upto ?cur ?other i)) \<or>
    (\<exists>i. findRollbackIndex ?cur ?other = int i \<and> shared_upto ?cur ?other i \<and> (\<forall>j > i. \<not> shared_upto ?cur ?other j))"
    by (rule findRollbackIndex_greatest) simp_all
  ultimately show ?thesis by auto
qed

section \<open>The state of the processor and the state of the database\<close>

abbreviation hh_of :: "block_ref \<Rightarrow> hash_height" where
  "hh_of r \<equiv> toHashAndHeight (Some r)"

text \<open>The processor knows the status of the database and its hot blocks up to some position: after a fork it
  has forgotten those above the common base, and the next transaction rolls them back.\<close>

definition in_sync :: "hash_height \<Rightarrow> hash_height list \<Rightarrow> pstate \<Rightarrow> bool" where
  "in_sync head hots st \<longleftrightarrow> head = toHashAndHeight (ps_finalizedHead st) \<and> prefix (map hh_of (ps_unfinalizedHeads st)) hots"

lemma hh_of_height [simp]: "hh_height (hh_of r) = br_number r"
  by (simp add: toHashAndHeight_def)

lemma in_sync_base:
  assumes "in_sync head hots st" "sorted_wrt (<) (map hh_height (head # hots))"
  shows "toHashAndHeight (ps_head st) \<in> set (head # hots)"
    "hh_height head \<le> hh_height (toHashAndHeight (ps_head st))"
    "map hh_of (ps_unfinalizedHeads st) = filter (\<lambda>b. hh_height b \<le> hh_height (toHashAndHeight (ps_head st))) hots"
proof -
  obtain zs where z: "hots = map hh_of (ps_unfinalizedHeads st) @ zs" "head = toHashAndHeight (ps_finalizedHead st)"
    using assms(1) by (auto simp: in_sync_def prefix_def)
  have "toHashAndHeight (ps_head st) \<in> set (head # hots) \<and> hh_height head \<le> hh_height (toHashAndHeight (ps_head st)) \<and>
    map hh_of (ps_unfinalizedHeads st) = filter (\<lambda>b. hh_height b \<le> hh_height (toHashAndHeight (ps_head st))) hots"
  proof (cases "ps_unfinalizedHeads st" rule: rev_cases)
    case Nil
    then have h: "toHashAndHeight (ps_head st) = head" using z(2) by (simp add: ps_head_def or_else_def)
    then have "filter (\<lambda>b. hh_height b \<le> hh_height head) hots = []" using assms(2) by (auto simp: filter_empty_conv)
    then show ?thesis using h Nil by simp
  next
    case (snoc us u)
    then have h: "toHashAndHeight (ps_head st) = hh_of u" by (simp add: ps_head_def or_else_def)
    have a: "\<forall>b \<in> set us. br_number b < br_number u" "\<forall>b \<in> set zs. br_number u < hh_height b"
      "hh_height head < br_number u"
      using assms(2) unfolding z(1) snoc by (auto simp: sorted_wrt_append)
    then have "filter (\<lambda>b. hh_height b \<le> br_number u) zs = []" by (auto simp: filter_empty_conv)
    moreover have "filter (\<lambda>b. hh_height b \<le> br_number u) (map hh_of us) = map hh_of us"
      using a(1) by (auto simp: filter_id_conv)
    ultimately show ?thesis unfolding h z(1) snoc using a(3) by simp
  qed
  then show "toHashAndHeight (ps_head st) \<in> set (head # hots)" "hh_height head \<le> hh_height (toHashAndHeight (ps_head st))"
    "map hh_of (ps_unfinalizedHeads st) = filter (\<lambda>b. hh_height b \<le> hh_height (toHashAndHeight (ps_head st))) hots"
    by blast+
qed

lemma drop_findIndex:
  "sorted_wrt (<) (map f xs) \<Longrightarrow>
    (case findIndex (\<lambda>x. f x > (n :: int)) xs of None \<Rightarrow> [] | Some i \<Rightarrow> drop i xs) = filter (\<lambda>x. f x > n) xs"
proof (induction xs)
  case (Cons x xs)
  show ?case
  proof (cases "f x > n")
    case True
    then have "\<forall>y \<in> set xs. f y > n" using Cons.prems by auto
    then show ?thesis using True by (simp add: filter_id_conv)
  next
    case False
    then show ?thesis using Cons by (auto split: option.splits)
  qed
qed simp

lemma above_finalized_filter:
  assumes "sorted_wrt (<) (h # map br_number heads)" "fin = None \<Longrightarrow> h = - 1"
  shows "map hh_of (above_finalized fin heads) = filter (\<lambda>b. hh_height b > hh_height (toHashAndHeight fin)) (map hh_of heads)"
proof (cases fin)
  case None
  then show ?thesis
    using assms by (auto simp: above_finalized_def toHashAndHeight_def filter_id_conv)
next
  case (Some f)
  then show ?thesis
    using drop_findIndex [of br_number heads "br_number f"] assms(1)
    by (simp add: above_finalized_def filter_map o_def)
qed

lemma slice_heads_map:
  "\<forall>(i, e) \<in> set calls. i < e \<and> e \<le> length blocks \<Longrightarrow>
    slice_heads k blocks calls = map (\<lambda>(i, e). bi_header (blocks ! (e - 1))) (filter (\<lambda>(i, e). e > k) calls)"
proof (induction calls)
  case (Cons c calls)
  obtain i e where c: "c = (i, e)" by (cases c)
  then have "i < e" "e \<le> length blocks" using Cons.prems by auto
  then have "js_slice blocks i e \<noteq> []" "last (js_slice blocks i e) = blocks ! (e - 1)"
    by (auto simp: js_slice_def last_conv_nth min_def intro!: arg_cong [of _ _ "(!) blocks"])
  then show ?case using Cons c by (simp add: slice_heads_def)
qed (simp add: slice_heads_def)

lemma findIndex_map: "findIndex P (map f xs) = findIndex (\<lambda>x. P (f x)) xs"
  by (induction xs) auto

lemma unfinalized_start_at:
  assumes "sorted_wrt (<) (map hh_height bs)" "j < length bs"
  shows "unfinalized_start bs (hh_height (bs ! j)) = Suc j"
proof -
  let ?u = "unfinalized_start bs (hh_height (bs ! j))"
  have "j < ?u" using unfinalized_start_above [OF assms(1) _ assms(2)] by (metis less_irrefl not_le)
  moreover have "\<not> Suc j < ?u"
  proof
    assume u: "Suc j < ?u"
    then have "Suc j < length bs" using unfinalized_start_le [of bs "hh_height (bs ! j)"] by simp
    then show False
      using unfinalized_start_below [OF u] sorted_wrt_nth_less [OF assms(1), of j "Suc j"] by simp
  qed
  ultimately show ?thesis by simp
qed

lemma batch_unfinalizedIndex_le: "batch_unfinalizedIndex fin blocks \<le> length blocks"
  unfolding batch_unfinalizedIndex_def by (auto split: option.splits dest: findIndex_Some)

text \<open>The database splits the blocks where the processor does.\<close>

lemma tx_finalizedHead_splits:
  fixes blocks :: "'p block_item list"
  defines "hhs \<equiv> map (\<lambda>b. hh_of (bi_header b)) blocks"
  assumes "sorted_wrt (<) (map hh_height (base # hhs))" "hh_height head \<le> hh_height base"
    "hh_height head \<le> hh_height (toHashAndHeight fin)" "fin = None \<Longrightarrow> hh_height head = - 1"
  defines "k \<equiv> batch_unfinalizedIndex fin blocks"
  defines "f \<equiv> toHashAndHeight (tx_finalizedHead fin k blocks)"
  shows "hh_height head \<le> hh_height f" "unfinalized_start hhs (hh_height f) = k"
proof -
  have sorted: "sorted_wrt (<) (map hh_height hhs)" using assms by simp
  have k: "k \<le> length blocks"
    unfolding k_def by (rule batch_unfinalizedIndex_le)
  have "hh_height head \<le> hh_height f \<and> unfinalized_start hhs (hh_height f) = k"
  proof (cases "blocks = [] \<or> k = 0")
    case True
    then have f: "f = toHashAndHeight fin" by (simp add: f_def tx_finalizedHead_def)
    have "unfinalized_start hhs (hh_height (toHashAndHeight fin)) = k"
    proof (cases fin)
      case None
      then have "\<not> unfinalized_start hhs (- 1) > 0"
        using unfinalized_start_below [of 0 hhs "- 1"] unfinalized_start_le [of hhs "- 1"] assms(2,3,5) by (cases hhs) auto
      then show ?thesis using None by (simp add: toHashAndHeight_def k_def batch_unfinalizedIndex_def)
    next
      case (Some g)
      then show ?thesis by (auto simp: unfinalized_start_def k_def batch_unfinalizedIndex_def hhs_def findIndex_map split: option.split)
    qed
    then show ?thesis using f assms(4) by simp
  next
    case False
    then have j: "k - 1 < length hhs" "Suc (k - 1) = k" using k by (auto simp: hhs_def)
    have "f = hhs ! (k - 1)"
      using False k by (auto simp: f_def tx_finalizedHead_def hhs_def last_conv_nth)
    moreover have "hh_height base < hh_height (hhs ! (k - 1))" using assms(2) j(1) by simp
    ultimately show ?thesis using unfinalized_start_at [OF sorted j(1)] j(2) assms(3) by simp
  qed
  then show "hh_height head \<le> hh_height f" "unfinalized_start hhs (hh_height f) = k" by blast+
qed

lemma batch_finalizedHead_ge:
  "hh_height (toHashAndHeight (ps_finalizedHead st)) \<le> hh_height (toHashAndHeight (batch_finalizedHead st fin)) \<or>
    ps_finalizedHead st = None"
  "batch_finalizedHead st fin = None \<Longrightarrow> ps_finalizedHead st = None"
  "batch_finalizedHead st fin \<in> {None, ps_finalizedHead st, fin}"
  by (auto simp: batch_finalizedHead_def maxBlockRef_def Let_def split: option.splits if_splits)

lemma above_finalized_id: "above_finalized None heads = heads"
  by (simp add: above_finalized_def)

section \<open>The contract of a database with hot blocks\<close>

text \<open>Hashes name blocks: \<open>g\<close> gives the height of the block with a hash.\<close>

definition known :: "(jstr \<Rightarrow> int) \<Rightarrow> hash_height \<Rightarrow> bool" where
  "known g b \<longleftrightarrow> g (hh_hash b) = hh_height b"

lemma known_distinct:
  assumes "sorted_wrt (<) (map hh_height bs)" "\<forall>b \<in> set bs. known g b"
  shows "distinct (map hh_hash bs)"
  using assms by (induction bs) (auto simp: known_def)

definition batch_known :: "(jstr \<Rightarrow> int) \<Rightarrow> 'p block_batch \<Rightarrow> bool" where
  "batch_known g data \<longleftrightarrow> list_all (\<lambda>b. known g (hh_of (bi_header b))) (bb_blocks data) \<and>
     (case bb_finalizedHead data of None \<Rightarrow> True | Some f \<Rightarrow> known g (hh_of f) \<and> 0 \<le> br_number f)"

definition synced :: "(jstr \<Rightarrow> int) \<Rightarrow> hash_height \<Rightarrow> hash_height list \<Rightarrow> pstate \<Rightarrow> bool" where
  "synced g head hots st \<longleftrightarrow> in_sync head hots st \<and> list_all (known g) (head # hots)"

lemma above_finalized_subset: "set (above_finalized fin heads) \<subseteq> set heads"
  by (auto simp: above_finalized_def split: option.splits dest: in_set_dropD)

lemma slice_heads_subset: "set (slice_heads k blocks calls) \<subseteq> bi_header ` set blocks"
proof -
  have "last (js_slice blocks i e) \<in> set blocks" if "js_slice blocks i e \<noteq> []" for i e
    using last_in_set [OF that] by (auto simp: js_slice_def dest: in_set_takeD in_set_dropD)
  then show ?thesis by (auto simp: slice_heads_def split: if_splits)
qed

lemma tx_finalizedHead_known:
  assumes "f = tx_finalizedHead (batch_finalizedHead st (bb_finalizedHead data)) k (bb_blocks data)"
    "batch_known g data" "known g (toHashAndHeight (ps_finalizedHead st))" "k \<le> length (bb_blocks data)"
    "f = None \<Longrightarrow> ps_finalizedHead st = None"
  shows "known g (toHashAndHeight f)"
proof (cases "bb_blocks data = [] \<or> k = 0")
  case True
  then have "f \<in> {None, ps_finalizedHead st, bb_finalizedHead data}"
    using assms(1) batch_finalizedHead_ge(3) [of st "bb_finalizedHead data"] by (simp add: tx_finalizedHead_def)
  then consider "f = None" | "f = ps_finalizedHead st" | r where "f = Some r" "bb_finalizedHead data = Some r"
    by (cases f) auto
  then show ?thesis
  proof cases
    case 1
    then show ?thesis using assms(3,5) by simp
  next
    case 2
    then show ?thesis using assms(3) by simp
  next
    case 3
    then show ?thesis using assms(2) by (simp add: batch_known_def)
  qed
next
  case False
  then have "\<exists>b \<in> set (bb_blocks data). f = Some (bi_header b)"
    using assms(1,4) by (auto simp: tx_finalizedHead_def last_conv_nth intro!: bexI [of _ "bb_blocks data ! (k - 1)"])
  then show ?thesis using assms(2) by (auto simp: batch_known_def list_all_iff)
qed

lemma processBatch_cases:
  assumes "processBatch db map_blocks idle chainHeight data s = Inr s'" "d_supportsHotBlocks db"
  shows "s' = s \<or> (\<exists>isOnTop. hot_batch db map_blocks idle isOnTop
    (batch_finalizedHead (fst s) (bb_finalizedHead data)) (bb_blocks data) s = Inr s')"
  using assms unfolding processBatch_def Let_def
  by (auto simp: rbind_eq_Inr simp del: maybeLast_eq split: if_splits option.splits)

lemma handleFork_sync: "in_sync head hots st \<Longrightarrow> handleFork prev st = Inr st' \<Longrightarrow> in_sync head hots st'"
proof -
  assume a: "in_sync head hots st" "handleFork prev st = Inr st'"
  have "\<exists>n. st' = st\<lparr>ps_unfinalizedHeads := take n (ps_unfinalizedHeads st)\<rparr>"
  proof (cases "ps_finalizedHead st")
    case None
    then show ?thesis
      using a(2) by (auto simp: handleFork_def js_slice_def Let_def split: if_splits intro: exI [of _ 0])
  next
    case (Some f)
    then show ?thesis using a(2) by (auto simp: handleFork_def js_slice_def Let_def split: if_splits)
  qed
  then show ?thesis
    using a(1) unfolding in_sync_def
    by (auto simp: take_map [symmetric] intro: prefix_order.trans [OF take_is_prefix])
qed

text \<open>\<open>ok\<close> is an invariant of the database, \<open>status\<close> its head, \<open>hots\<close> its hot blocks. A hot transaction on a
  base of the chain sets the status to the later finalized head and keeps the hot blocks between it and
  the base; the calls of the handler on unfinalized blocks leave the last of them.\<close>

locale hot_database =
  fixes db :: "('db, 'h) database"
    and status :: "'db \<Rightarrow> hash_height"
    and hots :: "'db \<Rightarrow> hash_height list"
    and ok :: "'db \<Rightarrow> bool"
  assumes hot: "d_supportsHotBlocks db"
    and chain: "ok D \<Longrightarrow> sorted_wrt (<) (map hh_height (status D # hots D))"
    and continuity: "d_transactHot2 db info cb D = Inr (D', calls) \<Longrightarrow>
      sorted_wrt (<) (map hh_height (ti_baseHead info # ti_newBlocks info))"
    and calls: "d_transactHot2 db info cb D = Inr (D', calls) \<Longrightarrow>
      \<forall>(i, e) \<in> set calls. i < e \<and> e \<le> length (ti_newBlocks info)"
    and moves: "ok D \<Longrightarrow> ti_baseHead info \<in> set (status D # hots D) \<Longrightarrow> distinct (map hh_hash (status D # hots D)) \<Longrightarrow>
      hh_height (status D) \<le> hh_height (ti_finalizedHead info) \<Longrightarrow>
      d_transactHot2 db info cb D = Inr (D', calls) \<Longrightarrow>
      ok D' \<and> status D' = ti_finalizedHead info \<and>
      hots D' = filter (\<lambda>b. hh_height b > hh_height (ti_finalizedHead info) \<and> hh_height b \<le> hh_height (ti_baseHead info)) (hots D) @
        map (\<lambda>(i, e). ti_newBlocks info ! (e - 1))
          (filter (\<lambda>(i, e). e > unfinalized_start (ti_newBlocks info) (hh_height (ti_finalizedHead info))) calls)"
begin

lemma hot_transaction_sync:
  fixes blocks :: "'p block_item list" and bfin :: "block_ref option" and st :: pstate
  assumes "ok D" "in_sync (status D) (hots D) st" "distinct (map hh_hash (status D # hots D))"
    "- 1 \<le> hh_height (toHashAndHeight bfin)"
  defines "fin \<equiv> batch_finalizedHead st bfin"
  defines "k \<equiv> batch_unfinalizedIndex fin blocks"
  defines "finalizedHead \<equiv> tx_finalizedHead fin k blocks"
  assumes tx: "d_transactHot2 db \<lparr>ti_baseHead = toHashAndHeight (ps_head st), ti_finalizedHead = toHashAndHeight finalizedHead,
      ti_newBlocks = map (\<lambda>b. hh_of (bi_header b)) blocks\<rparr> cb D = Inr (D', cs)"
  shows "ok D' \<and> status D' = toHashAndHeight finalizedHead \<and>
    hots D' = map hh_of (above_finalized finalizedHead (ps_unfinalizedHeads st) @ slice_heads k blocks cs) \<and>
    hh_height (status D) \<le> hh_height (status D') \<and> (finalizedHead = None \<longrightarrow> ps_finalizedHead st = None)"
proof -
  let ?base = "toHashAndHeight (ps_head st)" and ?f = "toHashAndHeight finalizedHead"
  let ?new = "map (\<lambda>b. hh_of (bi_header b)) blocks"
  have st: "status D = toHashAndHeight (ps_finalizedHead st)" using assms(2) by (simp add: in_sync_def)
  note base = in_sync_base [OF assms(2) chain [OF assms(1)]]
  have none: "fin = None \<Longrightarrow> hh_height (status D) = - 1"
    using batch_finalizedHead_ge(2) [of st bfin] st by (simp add: fin_def toHashAndHeight_def)
  have fin_ge: "hh_height (status D) \<le> hh_height (toHashAndHeight fin)"
    using batch_finalizedHead_ge(1,3) [of st bfin] assms(4) unfolding fin_def st by (auto simp: toHashAndHeight_def)
  have no_fin: "finalizedHead = None \<Longrightarrow> fin = None"
    unfolding finalizedHead_def tx_finalizedHead_def by (auto split: if_splits)
  note split = tx_finalizedHead_splits [OF _ base(2) fin_ge none, of blocks, folded k_def, folded finalizedHead_def]
  have sorted: "sorted_wrt (<) (map hh_height (?base # ?new))" using continuity [OF tx] by simp
  have later: "hh_height (status D) \<le> hh_height ?f" and start: "unfinalized_start ?new (hh_height ?f) = k"
    using split sorted by simp_all
  have m: "ok D'" "status D' = ?f"
    "hots D' = filter (\<lambda>b. hh_height b > hh_height ?f \<and> hh_height b \<le> hh_height ?base) (hots D) @
      map (\<lambda>(i, e). ?new ! (e - 1)) (filter (\<lambda>(i, e). e > k) cs)"
    using moves [OF assms(1) _ assms(3) _ tx] base(1) later start by simp_all
  have c: "\<forall>(i, e) \<in> set cs. i < e \<and> e \<le> length blocks" using calls [OF tx] by simp
  have "map hh_of (slice_heads k blocks cs) = map (\<lambda>(i, e). ?new ! (e - 1)) (filter (\<lambda>(i, e). e > k) cs)"
    unfolding slice_heads_map [OF c] using c by auto
  moreover have "map hh_of (above_finalized finalizedHead (ps_unfinalizedHeads st)) =
      filter (\<lambda>b. hh_height b > hh_height ?f \<and> hh_height b \<le> hh_height ?base) (hots D)"
  proof -
    obtain zs where "hots D = map hh_of (ps_unfinalizedHeads st) @ zs" using assms(2) by (auto simp: in_sync_def prefix_def)
    then have "sorted_wrt (<) (map hh_height ((status D # map hh_of (ps_unfinalizedHeads st)) @ zs))"
      using chain [OF assms(1)] by simp
    then have "sorted_wrt (<) (map hh_height (status D # map hh_of (ps_unfinalizedHeads st)))"
      unfolding map_append sorted_wrt_append by blast
    then have "sorted_wrt (<) (hh_height (status D) # map br_number (ps_unfinalizedHeads st))"
      by (simp only: list.map map_map o_def hh_of_height)
    then have "map hh_of (above_finalized finalizedHead (ps_unfinalizedHeads st)) =
        filter (\<lambda>b. hh_height b > hh_height ?f) (map hh_of (ps_unfinalizedHeads st))"
      by (rule above_finalized_filter) (rule none [OF no_fin])
    then show ?thesis unfolding base(3) by (simp add: conj_commute)
  qed
  moreover have "finalizedHead = None \<longrightarrow> ps_finalizedHead st = None"
    using no_fin batch_finalizedHead_ge(2) unfolding fin_def by blast
  ultimately show ?thesis using m later by simp
qed

lemma batch_sync:
  assumes "ok D" "synced g (status D) (hots D) st" "batch_known g data"
    and "processBatch db map_blocks idle chainHeight data (st, D) = Inr (st', D')"
  shows "ok D' \<and> synced g (status D') (hots D') st' \<and> hh_height (status D) \<le> hh_height (status D')"
proof (cases "(st', D') = (st, D)")
  case True
  then show ?thesis using assms by simp
next
  case False
  let ?blocks = "bb_blocks data"
  let ?k = "batch_unfinalizedIndex (batch_finalizedHead st (bb_finalizedHead data)) ?blocks"
  let ?f = "tx_finalizedHead (batch_finalizedHead st (bb_finalizedHead data)) ?k ?blocks"
  obtain isOnTop where "hot_batch db map_blocks idle isOnTop (batch_finalizedHead st (bb_finalizedHead data)) ?blocks (st, D) =
      Inr (st', D')"
    using processBatch_cases [OF assms(4) hot] False by auto
  then obtain cb cs where tx: "d_transactHot2 db \<lparr>ti_baseHead = toHashAndHeight (ps_head st), ti_finalizedHead = toHashAndHeight ?f,
      ti_newBlocks = map (\<lambda>b. hh_of (bi_header b)) ?blocks\<rparr> cb D = Inr (D', cs)"
    and st': "st' = st\<lparr>ps_finalizedHead := or_else ?f (ps_finalizedHead st),
      ps_unfinalizedHeads := above_finalized (or_else ?f (ps_finalizedHead st)) (ps_unfinalizedHeads st) @ slice_heads ?k ?blocks cs\<rparr>"
    unfolding hot_batch_def Let_def by (auto simp: rbind_eq_Inr)
  have s: "in_sync (status D) (hots D) st" "\<forall>b \<in> set (status D # hots D). known g b"
    using assms(2) by (auto simp: synced_def list_all_iff)
  have d: "distinct (map hh_hash (status D # hots D))" using chain [OF assms(1)] s(2) by (rule known_distinct)
  have "- 1 \<le> hh_height (toHashAndHeight (bb_finalizedHead data))"
    using assms(3) by (auto simp: batch_known_def toHashAndHeight_def split: option.splits)
  from hot_transaction_sync [OF assms(1) s(1) d this tx] have t: "ok D'" "status D' = toHashAndHeight ?f"
    "hots D' = map hh_of (above_finalized ?f (ps_unfinalizedHeads st) @ slice_heads ?k ?blocks cs)"
    "hh_height (status D) \<le> hh_height (status D')" "?f = None \<longrightarrow> ps_finalizedHead st = None" by blast+
  have f: "or_else ?f (ps_finalizedHead st) = ?f" using t(5) by (cases ?f) (auto simp: or_else_def)
  have "known g (toHashAndHeight ?f)"
  proof (rule tx_finalizedHead_known [OF refl assms(3) _ batch_unfinalizedIndex_le])
    show "known g (toHashAndHeight (ps_finalizedHead st))" using s by (auto simp: in_sync_def)
  qed (use t(5) in blast)
  moreover have "\<forall>r \<in> set (ps_unfinalizedHeads st). known g (hh_of r)"
    using s by (auto simp: in_sync_def prefix_def)
  moreover have "\<forall>r \<in> bi_header ` set ?blocks. known g (hh_of r)"
    using assms(3) by (auto simp: batch_known_def list_all_iff)
  ultimately have "\<forall>b \<in> set (status D' # hots D'). known g b"
    unfolding t(2,3) using above_finalized_subset [of ?f "ps_unfinalizedHeads st"] slice_heads_subset [of ?k ?blocks cs]
    by (simp only: list.set map_append set_append set_map ball_simps) blast
  then have "list_all (known g) (status D' # hots D')" by (simp only: list_all_iff)
  moreover have "in_sync (status D') (hots D') st'" by (simp add: in_sync_def st' f t(2,3))
  ultimately show ?thesis using t(1,4) by (simp add: synced_def)
qed

lemma session_sync:
  "ok D \<Longrightarrow> synced g (status D) (hots D) st \<Longrightarrow> list_all (\<lambda>b. batch_known g (snd b)) batches \<Longrightarrow>
    run_session db map_blocks idle batches e (st, D) = (e', st', D') \<Longrightarrow>
    ok D' \<and> synced g (status D') (hots D') st' \<and> hh_height (status D) \<le> hh_height (status D')"
proof (induction batches arbitrary: st D)
  case (Cons b batches)
  obtain chainHeight data where b: "b = (chainHeight, data)" by (cases b)
  show ?case
  proof (cases "processBatch db map_blocks idle chainHeight data (st, D)")
    case (Inl err)
    then show ?thesis using Cons.prems b by simp
  next
    case (Inr s)
    obtain st1 D1 where s: "s = (st1, D1)" by (cases s)
    have "ok D1 \<and> synced g (status D1) (hots D1) st1 \<and> hh_height (status D) \<le> hh_height (status D1)"
      using batch_sync [OF Cons.prems(1,2) _ Inr [unfolded s]] Cons.prems(3) b by simp
    then show ?thesis using Cons.IH [of D1 st1] Cons.prems(3,4) Inr b s by fastforce
  qed
qed simp

lemma iteration_sync:
  assumes "ok D" "synced g (status D) (hots D) st" "\<forall>r. list_all (\<lambda>b. batch_known g (snd b)) (fst (source r))"
    and "run_iteration db map_blocks idle source (st, D) = (res, st', D')"
  shows "ok D' \<and> synced g (status D') (hots D') st' \<and> hh_height (status D) \<le> hh_height (status D')"
proof -
  obtain batches e where src: "source (stream_request st) = (batches, e)" by (cases "source (stream_request st)")
  obtain e1 st1 D1 where run: "run_session db map_blocks idle batches e (st, D) = (e1, st1, D1)"
    by (cases "run_session db map_blocks idle batches e (st, D)") auto
  have "list_all (\<lambda>b. batch_known g (snd b)) batches" using assms(3) src by (metis fst_conv)
  note s = session_sync [OF assms(1,2) this run]
  have "D' = D1 \<and> (st' = st1 \<or> (\<exists>prev. handleFork prev st1 = Inr st'))"
    using assms(4) src run by (auto simp: run_iteration_def split: stream_end.splits sum.splits if_splits)
  then show ?thesis using s handleFork_sync unfolding synced_def by blast
qed

lemma loop_sync:
  "ok D \<Longrightarrow> synced g (status D) (hots D) st \<Longrightarrow>
    \<forall>source \<in> set sources. \<forall>r. list_all (\<lambda>b. batch_known g (snd b)) (fst (source r)) \<Longrightarrow>
    run_loop db map_blocks idle sources (st, D) = (res, st', D') \<Longrightarrow>
    ok D' \<and> synced g (status D') (hots D') st' \<and> hh_height (status D) \<le> hh_height (status D')"
proof (induction sources arbitrary: st D)
  case (Cons source sources)
  obtain res1 st1 D1 where it: "run_iteration db map_blocks idle source (st, D) = (res1, st1, D1)"
    by (cases "run_iteration db map_blocks idle source (st, D)") auto
  have i: "ok D1 \<and> synced g (status D1) (hots D1) st1 \<and> hh_height (status D) \<le> hh_height (status D1)"
    using iteration_sync [OF Cons.prems(1,2) _ it] Cons.prems(3) by simp
  show ?case
  proof (cases res1)
    case RunContinue
    then show ?thesis using Cons.IH [of D1 st1] Cons.prems(3,4) i it by fastforce
  qed (use Cons.prems(4) it i in auto)
qed simp

end

section \<open>The database of \<open>typeorm-store\<close>\<close>

lemma handler_calls_bounds: "(i, e) \<in> set (handler_calls info D) \<Longrightarrow> i < e \<and> e \<le> length (ti_newBlocks info)"
  using hot_slices_bounds unfinalized_start_le
  by (auto simp: handler_calls_def Let_def split: if_splits dest: hot_slices_bounds)

lemma handler_calls_unfinalized:
  assumes "fin = hh_height (effective_head (ti_finalizedHead info) D)"
  shows "filter (\<lambda>(i, e). e > unfinalized_start (ti_newBlocks info) fin) (handler_calls info D) = hot_slices (ti_newBlocks info) fin"
proof -
  have "filter (\<lambda>(i, e). e > unfinalized_start (ti_newBlocks info) fin) (hot_slices (ti_newBlocks info) fin) =
      hot_slices (ti_newBlocks info) fin"
    by (auto simp: filter_id_conv dest: hot_slices_bounds)
  then show ?thesis by (auto simp: handler_calls_def Let_def assms)
qed

interpretation td: hot_database "typeorm_database sc om []" db_status db_hot db_ok for sc om
proof
  fix D :: db and info cb D' calls
  show "d_supportsHotBlocks (typeorm_database sc om [])" by (simp add: typeorm_database_def)
  show "sorted_wrt (<) (map hh_height (db_status D # db_hot D))" if "db_ok D" using that by (simp add: db_ok_def)
  assume "d_transactHot2 (typeorm_database sc om []) info cb D = Inr (D', calls)"
  then have tx: "transactHot2 sc om info cb D = Inr D'" and c: "calls = handler_calls info D"
    by (auto simp: typeorm_database_def rbind_eq_Inr)
  show "sorted_wrt (<) (map hh_height (ti_baseHead info # ti_newBlocks info))"
    using transactHot2_continuous [OF tx] .
  show "\<forall>(i, e) \<in> set calls. i < e \<and> e \<le> length (ti_newBlocks info)" using c handler_calls_bounds by auto
  assume "db_ok D" "ti_baseHead info \<in> set (db_status D # db_hot D)" "distinct (map hh_hash (db_status D # db_hot D))"
    and later: "hh_height (db_status D) \<le> hh_height (ti_finalizedHead info)"
  note m = transactHot2_moves [OF this(1-3) tx]
  have e: "effective_head (ti_finalizedHead info) D = ti_finalizedHead info" using later by (simp add: effective_head_def)
  show "db_ok D' \<and> db_status D' = ti_finalizedHead info \<and>
      db_hot D' = filter (\<lambda>b. hh_height b > hh_height (ti_finalizedHead info) \<and> hh_height b \<le> hh_height (ti_baseHead info)) (db_hot D) @
        map (\<lambda>(i, e). ti_newBlocks info ! (e - 1))
          (filter (\<lambda>(i, e). e > unfinalized_start (ti_newBlocks info) (hh_height (ti_finalizedHead info))) calls)"
    using m handler_calls_unfinalized [of "hh_height (ti_finalizedHead info)" info D] unfolding c
    by (simp add: hot_after_def e slice_rows_def Let_def)
qed


text \<open>A run over a fork at height 11: the processor goes on from the common base and then finalizes the new block.\<close>

abbreviation test_item :: "int \<Rightarrow> string \<Rightarrow> unit block_item" where
  "test_item n h \<equiv> \<lparr>bi_header = test_ref n h, bi_payload = ()\<rparr>"

definition users_height :: "jstr \<Rightarrow> int" where
  "users_height h = (if h = js ''0x0a'' then 10 else 11)"

definition users_sources :: "(int \<times> jstr option \<Rightarrow> (int \<times> unit block_batch) list \<times> stream_end) list" where
  "users_sources =
     [\<lambda>r. ([(11, \<lparr>bb_blocks = [test_item 11 ''0x0b''], bb_finalizedHead = None\<rparr>)], StreamFork [test_ref 10 ''0x0a'']),
      \<lambda>r. ([(11, \<lparr>bb_blocks = [test_item 11 ''0x1b''], bb_finalizedHead = Some (test_ref 10 ''0x0a'')\<rparr>),
            (11, \<lparr>bb_blocks = [], bb_finalizedHead = Some (test_ref 11 ''0x1b'')\<rparr>)], StreamDone)]"

definition users_state :: pstate where
  "users_state = \<lparr>ps_finalizedHead = Some (test_ref 10 ''0x0a''), ps_unfinalizedHeads = []\<rparr>"

lemma users_synced: "synced users_height (db_status users_db) (db_hot users_db) users_state"
  by (simp add: synced_def in_sync_def users_db_def users_state_def toHashAndHeight_def known_def users_height_def js_def)

lemma users_loop:
  "(case run_loop (typeorm_database users (plain_orm users) []) (\<lambda>_ _ T. Return []) (\<lambda>T. Return [])
      users_sources (users_state, users_db) of
    (r, st, D) \<Rightarrow> r = RunFinished \<and> st = \<lparr>ps_finalizedHead = Some (test_ref 11 ''0x1b''), ps_unfinalizedHeads = []\<rparr>)"
  by code_simp


section \<open>Finalized heads without blocks, and retries\<close>

lemma assertChainContinuity_error: "Typeorm_Store.assertChainContinuity b bs = Inl e \<Longrightarrow> e = AssertionError"
  by (induction bs arbitrary: b) (auto simp: result_simps)

lemma getState_error: "getState D = Inl e \<Longrightarrow> e = AssertionError"
  by (auto simp: getState_def assertStateInvariants_def result_simps dest: assertChainContinuity_error)

lemma transactHot2_ahead:
  assumes "ti_newBlocks info = []" "hh_height (ti_baseHead info) < hh_height (ti_finalizedHead info)"
  shows "transactHot2 sc om info cb D = Inl AssertionError"
proof (cases "getState D")
  case (Inl e)
  then show ?thesis using getState_error by (auto simp: transactHot2_def)
next
  case (Inr s)
  then show ?thesis using assms by (auto simp: transactHot2_def js_assert_def split: prod.splits)
qed

text \<open>A batch without blocks whose finalized head is above the head of the processor is not skipped but
  fails on an assertion of \<open>transactHot2\<close>: only with blocks in the batch is the finalized head lowered to
  the last of them.\<close>

theorem finality_ahead_fails:
  assumes "hh_height (toHashAndHeight (ps_finalizedHead st)) < br_number f" "hh_height (toHashAndHeight (ps_head st)) < br_number f"
  shows "processBatch (typeorm_database sc om []) map_blocks idle chainHeight
    \<lparr>bb_blocks = [], bb_finalizedHead = Some f\<rparr> (st, D) = Inl AssertionError"
proof -
  have f: "batch_finalizedHead st (Some f) = Some f"
    using assms(1) by (auto simp: batch_finalizedHead_def maxBlockRef_def toHashAndHeight_def split: option.splits)
  have "hot_batch (typeorm_database sc om []) map_blocks idle isOnTop (Some f) [] (st, D) = Inl AssertionError" for isOnTop
    using assms(2) transactHot2_ahead
    by (simp add: hot_batch_def typeorm_database_def tx_finalizedHead_def Let_def)
  then show ?thesis
    by (cases "ps_head st") (simp_all add: processBatch_def f or_else_def typeorm_database_def Let_def)
qed

theorem finality_ahead_fails_witness:
  "processBatch (typeorm_database users (plain_orm users) []) (\<lambda>_ _ T. Return []) (\<lambda>T. Return []) 20
     \<lparr>bb_blocks = ([] :: unit block_item list), bb_finalizedHead = Some (test_ref 12 ''0x0c'')\<rparr> (users_state, users_db) = Inl AssertionError"
  by (rule finality_ahead_fails) (simp_all add: users_state_def ps_head_def or_else_def)

text \<open>When the database repeats a transaction after a serialization failure, the processor keeps the heads of
  the slices of the failed attempt too: its unfinalized heads are no longer those of the database.\<close>

theorem retry_repeats_heads:
  "(case processBatch (typeorm_database users (plain_orm users) [1]) (\<lambda>_ _ T. Return []) (\<lambda>T. Return []) 20
      \<lparr>bb_blocks = [test_item 11 ''0x0b'', test_item 12 ''0x0c''], bb_finalizedHead = None\<rparr> (users_state, users_db) of
      Inl e \<Rightarrow> False
    | Inr (st, D) \<Rightarrow> map br_number (ps_unfinalizedHeads st) = [11, 11, 12] \<and> map hh_height (db_hot D) = [11, 12])"
  by code_simp

end
