(* ===== verification/Runner.thy ===== *)
theory Runner
  imports Hot_Processor Batch_Processor Ranges
begin

text \<open>
  The runner of the older processors, \<open>util/util-internal-processor-tools/src/runner.ts\<close>: it processes finalized
  blocks from an archive and from a network client, then follows the head of the network.

  The data sources and the database are parameters, as records of their operations; \<open>'h\<close> is what runs
  inside a transaction and \<open>'db\<close> the state of the database. A stream of finalized blocks is the list of
  its batches and the exception that ends it; \<open>processHotBlocks\<close> of a data source is a function that drives its
  callback. The last section puts the parts together: the hot processor as the data source, the
  transactions of \<open>typeorm-store\<close> as the database. Metrics, status reports and messages are left out.
\<close>

section \<open>Interfaces\<close>

record 'p run_block =
  rb_header :: block_header
  rb_payload :: 'p

record 'b run_batch =
  ba_blocks :: "'b list"
  ba_isHead :: bool

type_synonym hot_state = "hash_height \<times> hash_height list"

record ('db, 'h) run_database =
  rd_supportsHotBlocks :: bool
  rd_connect :: "'db \<Rightarrow> (hot_state \<times> 'db) result"
  rd_transact :: "hash_height \<Rightarrow> hash_height \<Rightarrow> bool \<Rightarrow> 'h \<Rightarrow> 'db \<Rightarrow> 'db result"
  rd_transactHot :: "hot_tx_info \<Rightarrow> (hash_height \<Rightarrow> 'h) \<Rightarrow> 'db \<Rightarrow> 'db result"
  rd_transactHot2 :: "(hot_tx_info \<Rightarrow> (nat \<Rightarrow> nat \<Rightarrow> 'h) \<Rightarrow> 'db \<Rightarrow> 'db result) option"

record ('p, 'r) run_source =
  so_finalizedBlocks :: "'r range_request list \<Rightarrow> bool \<Rightarrow> 'p run_block run_batch list \<times> js_error option"
  so_finalizedHeight :: "int result"
  so_blockHash :: "int \<Rightarrow> jstr option result"

type_synonym ('p, 'r, 'db) hot_blocks =
  "'r range_request list \<Rightarrow> hot_state \<Rightarrow> ('p run_block hot_update \<Rightarrow> 'db \<Rightarrow> 'db result) \<Rightarrow> 'db \<Rightarrow> unit result \<times> 'db"

record ('p, 'r, 'db, 'h) run_config =
  rc_archive :: "('p, 'r) run_source option"
  rc_hotDataSource :: "(('p, 'r) run_source \<times> ('p, 'r, 'db) hot_blocks) option"
  rc_allBlocksAreFinal :: bool
  rc_process :: "'p run_block run_batch \<Rightarrow> 'h"
  rc_requests :: "'r range_request list"
  rc_database :: "('db, 'h) run_database"

section \<open>Finalized blocks\<close>

definition getLeftRequests :: "'r range_request list \<Rightarrow> hash_height \<Rightarrow> 'r range_request list" where
  "getLeftRequests requests after = applyRangeBound requests (Some \<lparr>rfrom = hh_height after + 1, rto = None\<rparr>)"

definition assertWeAreOnTheSameChain :: "('p, 'r) run_source \<Rightarrow> hash_height \<Rightarrow> unit result" where
  "assertWeAreOnTheSameChain src state =
     (if hh_height state < 0 then Inr ()
      else if hh_hash state = js ''0x'' then Inr ()
      else rbind (so_blockHash src (hh_height state)) (\<lambda>hash.
        if hash \<noteq> Some (hh_hash state) then Inl (ThrownError ''already indexed block was not found on chain'') else Inr ()))"

definition handleFinalizedBlocks ::
  "('db, 'h) run_database \<Rightarrow> ('p run_block run_batch \<Rightarrow> 'h) \<Rightarrow> hot_state \<Rightarrow> 'p run_block run_batch \<Rightarrow> 'db \<Rightarrow> (hot_state \<times> 'db) result" where
  "handleFinalizedBlocks db process state batch D =
     rbind (js_last (ba_blocks batch)) (\<lambda>lastBlock.
     rbind (js_assert (hh_height (fst state) < hh_height (rb_header lastBlock))) (\<lambda>_.
       let nextHead = as_ref (rb_header lastBlock)
       in rbind (rd_transact db (fst state) nextHead (ba_isHead batch) (process batch) D) (\<lambda>D'.
          Inr ((nextHead, []), D'))))"

text \<open>The loop keeps the state, the batch that was put off and the database.\<close>

fun finalized_loop ::
  "('db, 'h) run_database \<Rightarrow> ('p run_block run_batch \<Rightarrow> 'h) \<Rightarrow> int \<Rightarrow> 'p run_block run_batch list \<Rightarrow> js_error option \<Rightarrow>
    hot_state \<Rightarrow> 'p run_block run_batch option \<Rightarrow> 'db \<Rightarrow> hot_state result \<times> 'db" where
  "finalized_loop db process minimum [] (Some e) state prevBatch D = (Inl e, D)"
| "finalized_loop db process minimum [] None state None D = (Inr state, D)"
| "finalized_loop db process minimum [] None state (Some prev) D =
     (case handleFinalizedBlocks db process state prev D of Inl e \<Rightarrow> (Inl e, D) | Inr (state', D') \<Rightarrow> (Inr state', D'))"
| "finalized_loop db process minimum (b # batches) err state prevBatch D =
     (let batch = (case prevBatch of None \<Rightarrow> b
            | Some prev \<Rightarrow> \<lparr>ba_blocks = ba_blocks prev @ ba_blocks b, ba_isHead = ba_isHead b\<rparr>)
      in case js_last (ba_blocks batch) of
           Inl e \<Rightarrow> (Inl e, D)
         | Inr lst \<Rightarrow>
             if hh_height (rb_header lst) < minimum
             then finalized_loop db process minimum batches err state (Some batch) D
             else (case handleFinalizedBlocks db process state batch D of
                     Inl e \<Rightarrow> (Inl e, D)
                   | Inr (state', D') \<Rightarrow> finalized_loop db process minimum batches err state' None D'))"

definition processFinalizedBlocks ::
  "('p, 'r, 'db, 'h) run_config \<Rightarrow> hot_state \<Rightarrow> ('p, 'r) run_source \<Rightarrow> bool \<Rightarrow> 'db \<Rightarrow> hot_state result \<times> 'db" where
  "processFinalizedBlocks cfg state src shouldStopOnHead D =
     (case so_finalizedBlocks src (getLeftRequests (rc_requests cfg) (fst state)) shouldStopOnHead of
        (batches, err) \<Rightarrow>
          finalized_loop (rc_database cfg) (rc_process cfg) (hh_height (fst state) + int (length (snd state))) batches err state None D)"

section \<open>Hot blocks\<close>

text \<open>The callback of \<open>processHotBlocks\<close>; \<open>throwing\<close> is a transaction body that only throws.\<close>

definition hot_info :: "'p run_block hot_update \<Rightarrow> hot_tx_info" where
  "hot_info upd = \<lparr>ti_baseHead = up_baseHead upd, ti_finalizedHead = up_finalizedHead upd,
     ti_newBlocks = map (\<lambda>b. as_ref (rb_header b)) (up_blocks upd)\<rparr>"

definition update_head :: "'p run_block hot_update \<Rightarrow> hash_height" where
  "update_head upd = (case maybeLast (up_blocks upd) of Some b \<Rightarrow> as_ref (rb_header b) | None \<Rightarrow> up_baseHead upd)"

definition handle_update ::
  "('db, 'h) run_database \<Rightarrow> ('p run_block run_batch \<Rightarrow> 'h) \<Rightarrow> (js_error \<Rightarrow> 'h) \<Rightarrow> 'p run_block hot_update \<Rightarrow> 'db \<Rightarrow> 'db result" where
  "handle_update db process throwing upd D =
     (case rd_transactHot2 db of
        Some tx2 \<Rightarrow>
          tx2 (hot_info upd) (\<lambda>start en.
            process \<lparr>ba_blocks = js_slice (up_blocks upd) start en, ba_isHead = (en = length (up_blocks upd))\<rparr>) D
      | None \<Rightarrow>
          rd_transactHot db (hot_info upd) (\<lambda>ref.
            let idx = hh_height ref - hh_height (up_baseHead upd) - 1
            in if idx < 0 \<or> idx \<ge> int (length (up_blocks upd)) then throwing TypeError
               else let block = up_blocks upd ! nat idx
                    in if as_ref (rb_header block) \<noteq> ref then throwing AssertionError
                       else process \<lparr>ba_blocks = [block], ba_isHead = (hh_height (update_head upd) = hh_height ref)\<rparr>) D)"

definition processHotBlocks ::
  "('p, 'r, 'db, 'h) run_config \<Rightarrow> (js_error \<Rightarrow> 'h) \<Rightarrow> hot_state \<Rightarrow> 'db \<Rightarrow> unit result \<times> 'db" where
  "processHotBlocks cfg throwing state D =
     (if \<not> rd_supportsHotBlocks (rc_database cfg) then (Inl AssertionError, D)
      else case rc_hotDataSource cfg of
        None \<Rightarrow> (Inl AssertionError, D)
      | Some (src, hot_blocks) \<Rightarrow>
          hot_blocks (getLeftRequests (rc_requests cfg) (fst state)) state
            (handle_update (rc_database cfg) (rc_process cfg) throwing) D)"

section \<open>The run\<close>

text \<open>The first two phases return the state they reach, or end the run: with an exception, or because no
  requests are left.\<close>

datatype phase = Reached hot_state | Finished | Failed js_error

definition no_requests_left :: "('p, 'r, 'db, 'h) run_config \<Rightarrow> hot_state \<Rightarrow> bool" where
  "no_requests_left cfg state \<longleftrightarrow> getLeftRequests (rc_requests cfg) (fst state) = []"

definition after_blocks :: "('p, 'r, 'db, 'h) run_config \<Rightarrow> hot_state result \<times> 'db \<Rightarrow> phase \<times> 'db" where
  "after_blocks cfg r =
     (case r of
        (Inl e, D) \<Rightarrow> (Failed e, D)
      | (Inr state, D) \<Rightarrow> (if no_requests_left cfg state then Finished else Reached state, D))"

definition archive_phase :: "('p, 'r, 'db, 'h) run_config \<Rightarrow> hot_state \<Rightarrow> 'db \<Rightarrow> phase \<times> 'db" where
  "archive_phase cfg state D =
     (case rc_archive cfg of
        None \<Rightarrow> (Reached state, D)
      | Some archive \<Rightarrow> (case so_finalizedHeight archive of
          Inl e \<Rightarrow> (Failed e, D)
        | Inr archiveHeight \<Rightarrow>
            if archiveHeight > hh_height (fst state) + int (length (snd state)) \<or> rc_hotDataSource cfg = None
            then (case assertWeAreOnTheSameChain archive (fst state) of
                    Inl e \<Rightarrow> (Failed e, D)
                  | Inr _ \<Rightarrow> after_blocks cfg (processFinalizedBlocks cfg state archive (rc_hotDataSource cfg \<noteq> None) D))
            else (Reached state, D)))"

text \<open>The finalized blocks of the network client; then, when the next requested block is above the finalized
  head, an empty transaction that moves the processor to it.\<close>

definition advance_to_finalized ::
  "('p, 'r, 'db, 'h) run_config \<Rightarrow> 'h \<Rightarrow> ('p, 'r) run_source \<Rightarrow> int \<Rightarrow> hot_state \<Rightarrow> 'db \<Rightarrow> phase \<times> 'db" where
  "advance_to_finalized cfg idle hot chainFinalizedHeight state D =
     (if chainFinalizedHeight > hh_height (fst state) + int (length (snd state))
      then (case rbind (first_of (getLeftRequests (rc_requests cfg) (fst state))) (\<lambda>req.
               rbind (js_assert (rfrom (rr_range req) > chainFinalizedHeight)) (\<lambda>_.
               rbind (so_blockHash hot chainFinalizedHeight) (\<lambda>hash.
               rbind (assertNotNull hash) (\<lambda>hash.
                 let nextHead = \<lparr>hh_height = chainFinalizedHeight, hh_hash = hash\<rparr>
                 in rbind (rd_transact (rc_database cfg) (fst state) nextHead True idle D) (\<lambda>D'. Inr (nextHead, D'))))))
            of Inl e \<Rightarrow> (Failed e, D) | Inr (nextHead, D') \<Rightarrow> (Reached (nextHead, []), D'))
      else (Reached state, D))"

definition network_phase ::
  "('p, 'r, 'db, 'h) run_config \<Rightarrow> 'h \<Rightarrow> ('p, 'r) run_source \<Rightarrow> hot_state \<Rightarrow> 'db \<Rightarrow> phase \<times> 'db" where
  "network_phase cfg idle hot state D =
     (case rbind (assertWeAreOnTheSameChain hot (fst state)) (\<lambda>_. so_finalizedHeight hot) of
        Inl e \<Rightarrow> (Failed e, D)
      | Inr chainFinalizedHeight \<Rightarrow>
          (case (if chainFinalizedHeight > hh_height (fst state) + int (length (snd state))
                 then after_blocks cfg (processFinalizedBlocks cfg state hot
                        (rd_supportsHotBlocks (rc_database cfg) \<and> \<not> rc_allBlocksAreFinal cfg) D)
                 else (Reached state, D)) of
             (Reached state', D') \<Rightarrow> advance_to_finalized cfg idle hot chainFinalizedHeight state' D'
           | r \<Rightarrow> r))"

definition runner_run ::
  "('p, 'r, 'db, 'h) run_config \<Rightarrow> 'h \<Rightarrow> (js_error \<Rightarrow> 'h) \<Rightarrow> 'db \<Rightarrow> unit result \<times> 'db" where
  "runner_run cfg idle throwing D =
     (case rd_connect (rc_database cfg) D of
        Inl e \<Rightarrow> (Inl e, D)
      | Inr (state, D) \<Rightarrow>
          if no_requests_left cfg state then (Inr (), D)
          else case archive_phase cfg state D of
            (Failed e, D) \<Rightarrow> (Inl e, D)
          | (Finished, D) \<Rightarrow> (Inr (), D)
          | (Reached state, D) \<Rightarrow>
              (case rc_hotDataSource cfg of
                 None \<Rightarrow> (Inl AssertionError, D)
               | Some (hot, _) \<Rightarrow>
                   (case network_phase cfg idle hot state D of
                      (Failed e, D) \<Rightarrow> (Inl e, D)
                    | (Finished, D) \<Rightarrow> (Inr (), D)
                    | (Reached state, D) \<Rightarrow> processHotBlocks cfg throwing state D)))"

section \<open>The hot processor, the runner and the database together\<close>

definition typeorm_run_database ::
  "(template_mutation list \<Rightarrow> template_mutation list) \<Rightarrow> schema \<Rightarrow> orm \<Rightarrow> (db, tables \<Rightarrow> handler) run_database" where
  "typeorm_run_database ord sc om =
     \<lparr>rd_supportsHotBlocks = True,
      rd_connect = (\<lambda>D. rbind (initTransaction ord D) (\<lambda>(st, D'). Inr ((ds_head st, map fst (ds_top st)), D'))),
      rd_transact = (\<lambda>prev nxt isOnTop cb. transact sc om prev nxt cb),
      rd_transactHot = transactHot sc om,
      rd_transactHot2 = Some (transactHot2 sc om)\<rparr>"

text \<open>The database has the first block of a chain as its status and some of the others as hot blocks, the last
  one among them: it groups hot blocks, and only the last of a group has a row.\<close>

definition stored_chain :: "(jstr \<Rightarrow> int) \<Rightarrow> hash_height list \<Rightarrow> db \<Rightarrow> bool" where
  "stored_chain g c D \<longleftrightarrow> db_ok D \<and> db_status D = hd c \<and> set (db_hot D) \<subseteq> set c \<and>
     last (db_status D # db_hot D) = last c \<and> (\<forall>b \<in> set c. known g b)"

lemma contig_unique: "contig h xs \<Longrightarrow> a \<in> set xs \<Longrightarrow> b \<in> set xs \<Longrightarrow> hh_height a = hh_height b \<Longrightarrow> a = b"
  using contig_nth [of h xs] by (metis add_left_cancel in_set_conv_nth of_nat_eq_iff)

lemma contiguous_head:
  assumes "contiguous c" "f \<in> set c" "\<forall>b \<in> set c. hh_height f \<le> hh_height b"
  shows "hd c = f"
proof -
  have c: "contig (hh_height (hd c)) c" "hd c \<in> set c" using assms(1) by (auto simp: contiguous_def)
  then have "hh_height (hd c) = hh_height f" using contig_above [OF c(1) assms(2)] assms(3) by fastforce
  then show ?thesis using contig_unique [OF c(1,2) assms(2)] by simp
qed

lemma last_max:
  "sorted_wrt (<) (map hh_height xs) \<Longrightarrow> m \<in> set xs \<Longrightarrow> \<forall>x \<in> set xs. hh_height x \<le> hh_height m \<Longrightarrow> last xs = m"
  by (induction xs rule: rev_induct) (fastforce simp: sorted_wrt_append)+

lemma contig_sorted: "contig h xs \<Longrightarrow> sorted_wrt (<) (map hh_height xs)"
  using contig_above by (induction xs arbitrary: h) fastforce+

lemma slices_last: "s < n \<Longrightarrow> slices g n s \<noteq> [] \<and> snd (last (slices g n s)) = n"
proof (induction g n s rule: slices.induct)
  case (1 g n s)
  show ?case
  proof (cases "s + max 1 g < n")
    case True
    then show ?thesis using "1.IH" "1.prems" slices.simps [of g n s] by (auto simp: min_def)
  next
    case False
    then show ?thesis using "1.prems" slices.simps [of g n s] slices.simps [of g n "s + max 1 g"] by (auto simp: min_def)
  qed
qed

lemma slice_rows_last:
  assumes "sorted_wrt (<) (map hh_height bs)" "bs \<noteq> []" "hh_height (last bs) > fin"
  shows "slice_rows bs fin \<noteq> [] \<and> last (slice_rows bs fin) = last bs"
proof -
  have "unfinalized_start bs fin < length bs"
  proof (rule ccontr)
    assume "\<not> unfinalized_start bs fin < length bs"
    then have "length bs - 1 < unfinalized_start bs fin" using assms(2) by (cases bs) auto
    then have "hh_height (bs ! (length bs - 1)) \<le> fin" using assms(2) by (intro unfinalized_start_below) auto
    then show False using assms(2,3) by (simp add: last_conv_nth)
  qed
  from slices_last [OF this] show ?thesis
    using last_conv_nth [OF assms(2)] by (simp add: slice_rows_def hot_slices_def Let_def last_map case_prod_beta')
qed

lemma stored_consumes:
  assumes c: "stored_chain g c D" "contiguous c" and fits: "list_all (\<lambda>b. known g (as_ref (rb_header b))) (up_blocks u)"
    and upd: "handle_update (typeorm_run_database ord sc om) process throwing u D = Inr D'"
    and rep: "replay rb_header u c = Some c'" and c': "contiguous c'" "hh_height (hd c) \<le> hh_height (hd c')"
  shows "stored_chain g c' D'"
proof -
  let ?base = "up_baseHead u" and ?fin = "up_finalizedHead u" and ?new = "map (\<lambda>b. as_ref (rb_header b)) (up_blocks u)"
  obtain cb where tx: "transactHot2 sc om (hot_info u) cb D = Inr D'"
    using upd by (auto simp: handle_update_def typeorm_run_database_def)
  have D: "db_ok D" "db_status D = hd c" "set (db_hot D) \<subseteq> set c" "\<forall>b \<in> set c. known g b"
    using c(1) by (simp_all add: stored_chain_def)
  have cc: "contig (hh_height (hd c)) c" "hd c \<in> set c" "contig (hh_height (hd c')) c'"
    using c(2) c'(1) by (auto simp: contiguous_def)
  have base: "?base \<in> set c" and fin: "?fin \<in> set c'"
    and c'_eq: "c' = filter (\<lambda>b. hh_height b \<ge> hh_height ?fin) (filter (\<lambda>b. hh_height b < hh_height ?base + 1) c @ ?new)"
    using rep by (auto simp: replay_def Let_def split: if_splits)
  have new: "sorted_wrt (<) (map hh_height (?base # ?new))" using transactHot2_continuous [OF tx] by (simp add: hot_info_def)
  have rows: "set (db_status D # db_hot D) \<subseteq> set c" using D cc(2) by simp
  have asc: "sorted_wrt (<) (map hh_height (db_status D # db_hot D))" using D(1) by (simp add: db_ok_def)
  have in_rows: "?base \<in> set (db_status D # db_hot D)"
  proof -
    obtain pos where "findIndex (\<lambda>b. hh_hash b = hh_hash ?base) (db_status D # db_hot D) = Some pos"
      using transactHot2_parts [OF D(1) tx] by (auto simp: hot_info_def)
    from findIndex_Some [OF this] have r: "(db_status D # db_hot D) ! pos \<in> set (db_status D # db_hot D)"
      "hh_hash ((db_status D # db_hot D) ! pos) = hh_hash ?base" using nth_mem by blast+
    then have "known g ((db_status D # db_hot D) ! pos)" "known g ?base" using rows D(4) base by blast+
    then have "hh_height ((db_status D # db_hot D) ! pos) = hh_height ?base" using r(2) by (simp add: known_def)
    then show ?thesis using contig_unique [OF cc(1) _ base] r(1) rows by (metis subsetD)
  qed
  have "\<forall>b \<in> set (db_status D # db_hot D). known g b" using rows D(4) by blast
  with asc have "distinct (map hh_hash (db_status D # db_hot D))" by (rule known_distinct)
  then have m: "db_ok D'" "db_status D' = effective_head ?fin D" "db_hot D' = hot_after (hot_info u) D"
    using transactHot2_moves [OF D(1) _ _ tx] in_rows by (simp_all add: hot_info_def)
  have "\<forall>b \<in> set c'. hh_height ?fin \<le> hh_height b" unfolding c'_eq by auto
  with c'(1) fin have hd': "hd c' = ?fin" by (rule contiguous_head)
  then have eff: "effective_head ?fin D = ?fin" using c'(2) D(2) by (simp add: effective_head_def)
  have hot: "db_hot D' = filter (\<lambda>b. hh_height b > hh_height ?fin \<and> hh_height b \<le> hh_height ?base) (db_hot D) @ slice_rows ?new (hh_height ?fin)"
    using m(3) eff by (simp add: hot_after_def hot_info_def Let_def)
  have "\<forall>b \<in> set (slice_rows ?new (hh_height ?fin)). hh_height b > hh_height ?fin \<and> b \<in> set ?new"
    using new by (intro slice_rows_sorted) simp
  then have sub: "set (db_hot D') \<subseteq> set c'" unfolding hot c'_eq using D(3) by auto
  have known': "\<forall>b \<in> set c'. known g b" unfolding c'_eq using D(4) fits by (auto simp: list_all_iff)
  define tip where "tip = (if ?new = [] then ?base else last ?new)"
  have le: "\<forall>b \<in> set c'. hh_height b \<le> hh_height tip"
  proof
    fix b assume "b \<in> set c'"
    then consider "hh_height b \<le> hh_height ?base" | "b \<in> set ?new" unfolding c'_eq by auto
    then show "hh_height b \<le> hh_height tip"
    proof cases
      case 1
      then show ?thesis using new last_in_set [of ?new] unfolding tip_def by fastforce
    next
      case 2
      then have "?new = butlast ?new @ [last ?new]" by (cases ?new rule: rev_cases) auto
      then have "sorted_wrt (<) (map hh_height (butlast ?new @ [last ?new]))" "b \<in> set (butlast ?new @ [last ?new])"
        using new 2 by (simp_all del: append_butlast_last_id)
      then show ?thesis using 2 unfolding tip_def sorted_wrt_append map_append by fastforce
    qed
  qed
  then have fin_le: "hh_height ?fin \<le> hh_height tip" using fin by blast
  have "tip = ?base \<or> tip \<in> set ?new" unfolding tip_def using last_in_set [of ?new] by presburger
  then have tip_c': "tip \<in> set c'" unfolding c'_eq using base fin_le by auto
  have "tip \<in> set (db_status D' # db_hot D')"
  proof (cases "tip = ?fin")
    case True
    then show ?thesis using m(2) eff by simp
  next
    case False
    then have above: "hh_height ?fin < hh_height tip"
      using fin_le contig_unique [OF cc(3) fin tip_c'] by fastforce
    show ?thesis
    proof (cases "?new = []")
      case True
      then have "tip = ?base" by (simp add: tip_def)
      moreover from this have "?base \<noteq> db_status D" using above c'(2) hd' D(2) by auto
      ultimately have "tip \<in> set (db_hot D)" "hh_height tip \<le> hh_height ?base" using in_rows by simp_all
      then show ?thesis unfolding hot using above by simp
    next
      case False
      then have "slice_rows ?new (hh_height ?fin) \<noteq> [] \<and> last (slice_rows ?new (hh_height ?fin)) = tip"
        using slice_rows_last [of ?new "hh_height ?fin"] new above unfolding tip_def
        by (simp only: if_False list.map sorted_wrt.simps) blast
      then have "tip \<in> set (slice_rows ?new (hh_height ?fin))" using last_in_set by blast
      then show ?thesis unfolding hot by simp
    qed
  qed
  moreover have "\<forall>b \<in> set (db_status D' # db_hot D'). hh_height b \<le> hh_height tip"
    using le sub fin m(2) eff by (simp only: list.set ball_simps) blast
  moreover have "sorted_wrt (<) (map hh_height (db_status D' # db_hot D'))" using m(1) by (simp add: db_ok_def)
  ultimately have "last (db_status D' # db_hot D') = tip" by (intro last_max)
  moreover have "last c' = tip" using contig_sorted [OF cc(3)] tip_c' le by (rule last_max)
  ultimately show ?thesis using m(1,2) eff hd' sub known' by (simp add: stored_chain_def)
qed

interpretation stored: chain_consumer "handle_update (typeorm_run_database ord sc om) process throwing" rb_header
  "\<lambda>b. known g (as_ref (rb_header b))" "stored_chain g" for ord sc om process throwing g
  by unfold_locales (rule stored_consumes)

text \<open>\<open>processHotBlocks\<close> of a network client: a hot processor that is sent from head to head and has the runner
  as its consumer.\<close>

definition network_client ::
  "('p run_block, 'db) hot_options \<Rightarrow> chain_heads list \<Rightarrow> ('p, 'r, 'db) hot_blocks" where
  "network_client opts heads requests state cb D =
     (case hot_new (fst state) (snd state) of
        Inl e \<Rightarrow> (Inl e, D)
      | Inr p \<Rightarrow> (Inr (), snd (navigate (opts\<lparr>ho_process := cb\<rparr>) heads (p, D))))"

text \<open>C5: The hot processor, the runner and the transactions of the database fit together: wherever the hot
  processor is sent, the database is consistent, its status is the first block of the chain of the
  processor, its hot blocks are blocks of that chain and its last block is the head of the processor.\<close>

theorem runner_stores_chain:
  assumes "coherent opts" "all_blocks opts (\<lambda>b. known g (as_ref (rb_header b)))" "ho_getHeader opts = rb_header"
    and "ho_process opts = handle_update (typeorm_run_database ord sc om) process throwing"
    and "contiguous (hp_chain p)" "stored_chain g (hp_chain p) D" "navigate opts heads (p, D) = (p', D')"
  shows "contiguous (hp_chain p') \<and> stored_chain g (hp_chain p') D'"
  using stored.navigate_mirrored [of ord sc om process throwing g opts "(p, D)" heads] assms
  by (simp add: stored.mirrored_def stored.serving_def)

abbreviation test_block :: "int \<Rightarrow> string \<Rightarrow> string \<Rightarrow> unit run_block" where
  "test_block n h p \<equiv> \<lparr>rb_header = test_hdr n h p, rb_payload = ()\<rparr>"

definition users_client :: "(unit run_block, db) hot_options" where
  "users_client =
     (let table = [test_block 11 ''0x0b'' ''0x0a'', test_block 11 ''0x1b'' ''0x0a'']
      in \<lparr>ho_process = handle_update (typeorm_run_database id users (plain_orm users)) (\<lambda>_ T. Return []) (\<lambda>e T. Throw e),
          ho_getBlock = (\<lambda>ref. of_option DataConsistencyError (find (\<lambda>b. as_ref (rb_header b) = ref) table)),
          ho_getBlockRange = (\<lambda>from ref. case ref_hash ref of None \<Rightarrow> ([], None)
            | Some h \<Rightarrow> ([filter (\<lambda>b. hh_hash (rb_header b) = h) table], None)),
          ho_getHeader = rb_header, ho_getFinalizedBlockHeight = None, ho_memory = 10\<rparr>)"

definition users_heads :: "chain_heads list" where
  "users_heads = map (\<lambda>h. \<lparr>heads_best = Ref (Some 11) (Some (js h)), heads_finalized = Ref (Some 10) None\<rparr>) [''0x0b'', ''0x1b'']"

definition users_processor :: hot_processor where
  "users_processor = \<lparr>hp_chain = [\<lparr>hh_height = 10, hh_hash = js ''0x0a''\<rparr>], hp_finalizedHead = None\<rparr>"

lemma users_navigation:
  "(case navigate users_client users_heads (users_processor, users_db) of
     (p, D) \<Rightarrow> hp_chain p = [\<lparr>hh_height = 10, hh_hash = js ''0x0a''\<rparr>, \<lparr>hh_height = 11, hh_hash = js ''0x1b''\<rparr>])"
  by code_simp

theorem runner_stores_chain_witness:
  "\<exists>p D. navigate users_client users_heads (users_processor, users_db) = (p, D) \<and> db_ok D \<and>
     db_status D = \<lparr>hh_height = 10, hh_hash = js ''0x0a''\<rparr> \<and>
     last (db_status D # db_hot D) = \<lparr>hh_height = 11, hh_hash = js ''0x1b''\<rparr>"
proof -
  obtain p D where run: "navigate users_client users_heads (users_processor, users_db) = (p, D)" by fastforce
  then have chain: "hp_chain p = [\<lparr>hh_height = 10, hh_hash = js ''0x0a''\<rparr>, \<lparr>hh_height = 11, hh_hash = js ''0x1b''\<rparr>]"
    using users_navigation by simp
  have "coherent users_client \<and> all_blocks users_client (\<lambda>b. known users_height (as_ref (rb_header b)))"
    by (auto simp: coherent_def all_blocks_def users_client_def Let_def new_blocks_def getParent_def as_ref_def known_def
        users_height_def js_def find_Some_iff split: if_splits option.splits)
  moreover have "stored_chain users_height (hp_chain users_processor) users_db \<and> contiguous (hp_chain users_processor)"
    by (simp add: stored_chain_def users_processor_def users_db_def db_ok_def known_def users_height_def contiguous_def js_def)
  ultimately have "contiguous (hp_chain p) \<and> stored_chain users_height (hp_chain p) D"
    by (intro runner_stores_chain [OF _ _ _ _ _ _ run, where ord = id and sc = users and om = "plain_orm users"
          and process = "\<lambda>_ T. Return []" and throwing = "\<lambda>e T. Throw e"]) (simp_all add: users_client_def Let_def)
  then show ?thesis using run chain by (auto simp: stored_chain_def)
qed

end
