(* ===== verification/Portal_Client.thy ===== *)
theory Portal_Client
  imports Js_Values Block_Refs
begin

text \<open>
  The stream of the portal client, \<open>util/portal-client/src/client.ts\<close>: the lines of a response, the buffer
  between the requests and the consumer, and the loop that asks for the next blocks.

  The bytes of a response are the list of its chunks. Producer and consumer of the buffer are asynchronous:
  its operations are functions on its state, and \<open>buf_reach\<close> holds of the states that any interleaving of
  them can reach. Timers are events that may happen at any time. The HTTP client is a parameter: the loop
  takes the responses in the order of its requests.
\<close>

section \<open>Lines\<close>

fun js_split :: "nat \<Rightarrow> jstr \<Rightarrow> jstr list" where
  \<comment> \<open>\<open>s.split(sep)\<close> for a separator of one character\<close>
  "js_split sep [] = [[]]"
| "js_split sep (c # s) =
     (if c = sep then [] # js_split sep s
      else (case js_split sep s of l # ls \<Rightarrow> (c # l) # ls | [] \<Rightarrow> [[c]]))"

abbreviation newline :: nat where
  "newline \<equiv> 10"

definition decode_chunk :: "byte list \<Rightarrow> jstr" where
  \<comment> \<open>\<open>TextDecoder('utf8').decode(data)\<close>: ill-formed pieces are replaced, a byte order mark is dropped\<close>
  "decode_chunk data = (case utf8_toString (map unat data) of [] \<Rightarrow> [] | c # s \<Rightarrow> if c = BOM then s else c # s)"

definition splitter_push :: "byte list \<Rightarrow> jstr \<Rightarrow> jstr list option \<times> jstr" where
  "splitter_push data line =
     (let s = decode_chunk data
      in if s = [] then (None, line)
         else let lines = js_split newline s
              in if length lines = 1 then (None, line @ hd lines)
                 else let lines = (line @ hd lines) # tl lines;
                          result = filter (\<lambda>l. l \<noteq> []) (butlast lines)
                      in (if length result > 0 then Some result else None, last lines))"

definition splitter_end :: "jstr \<Rightarrow> jstr option" where
  "splitter_end line = (if line \<noteq> [] then Some line else None)"

fun splitLines :: "byte list list \<Rightarrow> jstr \<Rightarrow> jstr list list" where
  "splitLines [] line = (case splitter_end line of None \<Rightarrow> [] | Some lastLine \<Rightarrow> [[lastLine]])"
| "splitLines (chunk # chunks) line =
     (case splitter_push chunk line of
        (None, line') \<Rightarrow> splitLines chunks line'
      | (Some lines, line') \<Rightarrow> lines # splitLines chunks line')"

lemma js_split_nonempty: "js_split sep s \<noteq> []"
  by (induction s) (auto split: list.splits)

lemma js_split_plain: "sep \<notin> set s \<Longrightarrow> js_split sep s = [s]"
  by (induction s) auto

lemma js_split_append:
  "js_split sep (s @ t) = butlast (js_split sep s) @ (last (js_split sep s) @ hd (js_split sep t)) # tl (js_split sep t)"
proof (induction s)
  case Nil
  then show ?case using js_split_nonempty [of sep t] by simp
next
  case (Cons c s)
  then show ?case using js_split_nonempty [of sep s] by (cases "js_split sep s") auto
qed

lemma js_split_last: "sep \<notin> set (last (js_split sep s))"
  by (induction s) (auto split: list.splits simp: js_split_nonempty)

lemma js_split_step:
  assumes "sep \<notin> set line"
  shows "js_split sep (line @ s @ t) =
    butlast ((line @ hd (js_split sep s)) # tl (js_split sep s)) @
    js_split sep (last ((line @ hd (js_split sep s)) # tl (js_split sep s)) @ t)"
proof -
  have e: "js_split sep (line @ s) = (line @ hd (js_split sep s)) # tl (js_split sep s)"
    using js_split_append [of sep line s] js_split_plain [OF assms] by simp
  have "sep \<notin> set (last (js_split sep (line @ s)))" by (rule js_split_last)
  then have "js_split sep (last (js_split sep (line @ s)) @ t) =
      (last (js_split sep (line @ s)) @ hd (js_split sep t)) # tl (js_split sep t)"
    using js_split_append [of sep "last (js_split sep (line @ s))" t] js_split_plain by simp
  then show ?thesis using js_split_append [of sep "line @ s" t] by (simp add: e)
qed

lemma splitLines_text:
  "newline \<notin> set line \<Longrightarrow>
    concat (splitLines chunks line) = filter (\<lambda>l. l \<noteq> []) (js_split newline (line @ concat (map decode_chunk chunks)))"
proof (induction chunks arbitrary: line)
  case Nil
  then show ?case using js_split_plain [of newline line] by (simp add: splitter_end_def)
next
  case (Cons chunk chunks)
  let ?s = "decode_chunk chunk" and ?t = "concat (map decode_chunk chunks)"
  let ?lines = "(line @ hd (js_split newline ?s)) # tl (js_split newline ?s)"
  have last: "newline \<notin> set (last ?lines)"
    using js_split_last [of newline "line @ ?s"] js_split_append [of newline line ?s] js_split_plain [OF Cons.prems] by simp
  have IH: "concat (splitLines chunks (last ?lines)) = filter (\<lambda>l. l \<noteq> []) (js_split newline (last ?lines @ ?t))"
    using Cons.IH [OF last] .
  show ?case
  proof (cases "length (js_split newline ?s) = 1")
    case True
    then obtain l where l: "js_split newline ?s = [l]" by (cases "js_split newline ?s") auto
    then have "splitter_push chunk line = (None, last ?lines)"
      by (auto simp: splitter_push_def Let_def)
    then show ?thesis using IH js_split_step [OF Cons.prems, of ?s ?t] l by simp
  next
    case False
    then have "?s \<noteq> []" by auto
    then have "splitter_push chunk line =
        (let result = filter (\<lambda>l. l \<noteq> []) (butlast ?lines) in (if result \<noteq> [] then Some result else None, last ?lines))"
      using False by (simp add: splitter_push_def Let_def)
    then have "concat (splitLines (chunk # chunks) line) =
        filter (\<lambda>l. l \<noteq> []) (butlast ?lines) @ concat (splitLines chunks (last ?lines))"
      by (auto simp: Let_def split: if_splits)
    then show ?thesis using IH js_split_step [OF Cons.prems, of ?s ?t] by simp
  qed
qed

lemma decode_chunk_encode: "decodable s \<Longrightarrow> decode_chunk (UTF8_ENCODER_encode s) = s"
  using utf8_toString_encode [of s] by (cases s) (auto simp: decode_chunk_def decodable_def)

lemma decode_chunks_encode: "list_all decodable texts \<Longrightarrow> map decode_chunk (map UTF8_ENCODER_encode texts) = texts"
  using decode_chunk_encode by (simp add: list_all_iff map_idI)

text \<open>C17: Whatever the chunks of a response are, as long as they end between characters and none of them starts with
  U+FEFF (\<open>TextDecoder\<close> takes it for a byte order mark and drops it, in every chunk), the lines that
  \<open>splitLines\<close> yields are the lines of the whole response that are not empty, in order.\<close>

theorem splitLines_lines:
  assumes "list_all decodable texts"
  shows "concat (splitLines (map UTF8_ENCODER_encode texts) []) = filter (\<lambda>l. l \<noteq> []) (js_split newline (concat texts))"
  using splitLines_text [of "[]" "map UTF8_ENCODER_encode texts"] decode_chunks_encode [OF assms] by simp

theorem splitLines_lines_witness:
  "concat (splitLines (map UTF8_ENCODER_encode [[0xE9, 49], [50, newline, newline, 51], [newline], [52]]) []) = [[0xE9, 49, 50], [51], [52]]"
proof -
  have "list_all decodable [[0xE9, 49], [50, newline, newline, 51], [newline], [52]]"
    by (simp add: decodable_def scalar_value_def BOM_def)
  from splitLines_lines [OF this] show ?thesis by simp
qed

text \<open>Every chunk is decoded on its own: a character that is cut by the end of a chunk is lost.\<close>

theorem splitLines_cuts_character:
  "concat (splitLines [[0x61, 0xC3], [0xA9]] []) = [[0x61, 0xFFFD, 0xFFFD]] \<and>
   concat (splitLines [[0x61, 0xC3, 0xA9]] []) = [[0x61, 0xE9]]"
  by (simp add: splitter_push_def splitter_end_def decode_chunk_def BOM_def utf8_toString.simps bad_length_def is_cont_def Let_def)

section \<open>The buffer\<close>

record portal_head =
  ph_headNumber :: "int option"
  ph_finalizedHeadNumber :: "int option"
  ph_finalizedHeadHash :: "jstr option"

datatype buffer_state = BufOpen | BufFailed js_error | BufClosed

text \<open>\<open>pb_waitTimeouted\<close> is set when the consumer has waited for long; \<open>pb_put\<close> and \<open>pb_taken\<close> are the semaphores
  \<open>putMutex\<close> and \<open>takeMutex\<close>; \<open>pb_blocked\<close> holds while a call of \<open>put\<close> waits for the latter.\<close>

record 'b portal_buffer =
  pb_blocks :: "'b list"
  pb_bytes :: int
  pb_head :: portal_head
  pb_headUpdated :: bool
  pb_state :: buffer_state
  pb_waitTimeouted :: bool
  pb_put :: bool
  pb_taken :: bool
  pb_blocked :: bool

record 'b portal_data =
  pd_blocks :: "'b list"
  pd_bytes :: int
  pd_head :: portal_head

definition buf_new :: "'b portal_buffer" where
  "buf_new = \<lparr>pb_blocks = [], pb_bytes = 0,
     pb_head = \<lparr>ph_headNumber = None, ph_finalizedHeadNumber = None, ph_finalizedHeadHash = None\<rparr>,
     pb_headUpdated = False, pb_state = BufOpen, pb_waitTimeouted = False, pb_put = False, pb_taken = True, pb_blocked = False\<rparr>"

definition buf_hasData :: "'b portal_buffer \<Rightarrow> bool" where
  "buf_hasData b \<longleftrightarrow> length (pb_blocks b) > 0 \<or> pb_headUpdated b"

definition buf_isTerminated :: "'b portal_buffer \<Rightarrow> bool" where
  "buf_isTerminated b \<longleftrightarrow> pb_state b \<noteq> BufOpen"

definition buf_updateHead :: "portal_head \<Rightarrow> 'b portal_buffer \<Rightarrow> 'b portal_buffer" where
  "buf_updateHead head b =
     (let b = b\<lparr>pb_head := (pb_head b)\<lparr>ph_headNumber := ph_headNumber head\<rparr>, pb_headUpdated := True\<rparr>
      in case ph_finalizedHeadNumber head of
           None \<Rightarrow> b
         | Some n \<Rightarrow>
             if (case ph_finalizedHeadNumber (pb_head b) of None \<Rightarrow> True | Some m \<Rightarrow> n > m)
             then b\<lparr>pb_head := (pb_head b)\<lparr>ph_finalizedHeadNumber := Some n, ph_finalizedHeadHash := ph_finalizedHeadHash head\<rparr>\<rparr>
             else b)"

definition buf_flush :: "'b portal_buffer \<Rightarrow> 'b portal_buffer" where
  "buf_flush b = (if buf_hasData b then b\<lparr>pb_put := True\<rparr> else b)"

definition buf_put :: "int \<Rightarrow> 'b list \<Rightarrow> int \<Rightarrow> 'b portal_buffer \<Rightarrow> 'b portal_buffer result" where
  "buf_put maxBytes blocks bytes b =
     (if buf_isTerminated b then Inl (ThrownError ''Buffer is closed'')
      else let b = b\<lparr>pb_blocks := pb_blocks b @ blocks, pb_bytes := pb_bytes b + bytes\<rparr>;
               b = (if pb_waitTimeouted b \<or> pb_bytes b \<ge> maxBytes then buf_flush b else b)
           in Inr (if pb_bytes b \<ge> maxBytes then b\<lparr>pb_taken := False, pb_blocked := True\<rparr> else b))"

definition buf_terminate :: "buffer_state \<Rightarrow> 'b portal_buffer \<Rightarrow> 'b portal_buffer" where
  "buf_terminate st b = (if buf_isTerminated b then b else b\<lparr>pb_state := st, pb_put := True, pb_blocked := False\<rparr>)"

definition buf_close :: "'b portal_buffer \<Rightarrow> 'b portal_buffer" where
  "buf_close = buf_terminate BufClosed"

definition buf_fail :: "js_error \<Rightarrow> 'b portal_buffer \<Rightarrow> 'b portal_buffer" where
  "buf_fail e = buf_terminate (BufFailed e)"

definition buf_collect :: "'b portal_buffer \<Rightarrow> 'b portal_data option result \<times> 'b portal_buffer" where
  "buf_collect b =
     (if \<not> buf_hasData b
      then ((case pb_state b of BufFailed e \<Rightarrow> Inl e | _ \<Rightarrow> Inr None), b)
      else (Inr (Some \<lparr>pd_blocks = pb_blocks b, pd_bytes = pb_bytes b, pd_head = pb_head b\<rparr>),
            b\<lparr>pb_blocks := [], pb_bytes := 0, pb_headUpdated := False\<rparr>))"

text \<open>\<open>take\<close> returns when the buffer is terminated or \<open>putMutex\<close> is ready; until then it waits.\<close>

definition buf_take_ready :: "'b portal_buffer \<Rightarrow> bool" where
  "buf_take_ready b \<longleftrightarrow> buf_isTerminated b \<or> pb_put b"

definition buf_take :: "'b portal_buffer \<Rightarrow> 'b portal_data option result \<times> 'b portal_buffer" where
  "buf_take b =
     (if buf_isTerminated b then buf_collect b
      else case buf_collect b of
        (Inl e, b) \<Rightarrow> (Inl e, b)
      | (r, b) \<Rightarrow> (r, b\<lparr>pb_put := False, pb_taken := True, pb_blocked := False, pb_waitTimeouted := False\<rparr>))"

text \<open>The states that producer, consumer and timers can reach, with the blocks put and taken so far. A
  producer whose \<open>put\<close> waits does nothing else.\<close>

inductive buf_reach :: "int \<Rightarrow> 'b list \<Rightarrow> 'b list \<Rightarrow> 'b portal_buffer \<Rightarrow> bool" for maxBytes where
  reach_new: "buf_reach maxBytes [] [] buf_new"
| reach_head: "buf_reach maxBytes puts takes b \<Longrightarrow> \<not> pb_blocked b \<Longrightarrow> buf_reach maxBytes puts takes (buf_updateHead head b)"
| reach_put: "buf_reach maxBytes puts takes b \<Longrightarrow> \<not> pb_blocked b \<Longrightarrow> blocks \<noteq> [] \<Longrightarrow> buf_put maxBytes blocks bytes b = Inr b' \<Longrightarrow>
    buf_reach maxBytes (puts @ blocks) takes b'"
| reach_flush: "buf_reach maxBytes puts takes b \<Longrightarrow> buf_reach maxBytes puts takes (buf_flush b)"
| reach_timeout: "buf_reach maxBytes puts takes b \<Longrightarrow> buf_reach maxBytes puts takes (b\<lparr>pb_waitTimeouted := True\<rparr>)"
| reach_close: "buf_reach maxBytes puts takes b \<Longrightarrow> buf_reach maxBytes puts takes (buf_close b)"
| reach_fail: "buf_reach maxBytes puts takes b \<Longrightarrow> buf_reach maxBytes puts takes (buf_fail e b)"
| reach_take: "buf_reach maxBytes puts takes b \<Longrightarrow> buf_take_ready b \<Longrightarrow> buf_take b = (Inr (Some data), b') \<Longrightarrow>
    buf_reach maxBytes puts (takes @ pd_blocks data) b'"
| reach_end: "buf_reach maxBytes puts takes b \<Longrightarrow> buf_take_ready b \<Longrightarrow> buf_take b = (r, b') \<Longrightarrow> r = Inr None \<or> r = Inl e \<Longrightarrow>
    buf_reach maxBytes puts takes b'"

definition buf_ok :: "'b portal_buffer \<Rightarrow> bool" where
  "buf_ok b \<longleftrightarrow> (pb_state b = BufOpen \<and> pb_put b \<longrightarrow> buf_hasData b) \<and> (pb_blocked b \<longrightarrow> pb_state b = BufOpen \<and> pb_put b)"

lemmas buf_defs = buf_ok_def buf_hasData_def buf_isTerminated_def

lemma buf_head_ok: "buf_ok b \<Longrightarrow> buf_ok (buf_updateHead head b) \<and> pb_blocks (buf_updateHead head b) = pb_blocks b"
  by (auto simp: buf_defs buf_updateHead_def Let_def split: option.split)

lemma buf_put_ok:
  "buf_ok b \<Longrightarrow> \<not> pb_blocked b \<Longrightarrow> blocks \<noteq> [] \<Longrightarrow> buf_put maxBytes blocks bytes b = Inr b' \<Longrightarrow>
    buf_ok b' \<and> pb_blocks b' = pb_blocks b @ blocks"
  by (auto simp: buf_defs buf_put_def buf_flush_def Let_def split: if_splits)

lemma buf_flush_ok: "buf_ok b \<Longrightarrow> buf_ok (buf_flush b) \<and> pb_blocks (buf_flush b) = pb_blocks b"
  by (auto simp: buf_defs buf_flush_def)

lemma buf_terminate_ok: "buf_ok b \<Longrightarrow> st \<noteq> BufOpen \<Longrightarrow> buf_ok (buf_terminate st b) \<and> pb_blocks (buf_terminate st b) = pb_blocks b"
  by (auto simp: buf_defs buf_terminate_def)

lemma buf_collect_ok:
  "buf_collect b = (r, b') \<Longrightarrow>
    (case r of Inr (Some data) \<Rightarrow> pd_blocks data = pb_blocks b \<and> pb_blocks b' = [] \<and> \<not> buf_hasData b' | _ \<Rightarrow> b' = b) \<and>
    pb_state b' = pb_state b \<and> pb_put b' = pb_put b \<and> pb_blocked b' = pb_blocked b"
  by (auto simp: buf_collect_def buf_defs split: if_splits buffer_state.splits)

lemma buf_take_ok:
  assumes "buf_ok b" "buf_take b = (r, b')"
  shows "buf_ok b' \<and> (case r of Inr (Some data) \<Rightarrow> pd_blocks data = pb_blocks b \<and> pb_blocks b' = [] | _ \<Rightarrow> pb_blocks b' = pb_blocks b)"
proof -
  obtain q b1 where c: "buf_collect b = (q, b1)" by (cases "buf_collect b")
  note ok = buf_collect_ok [OF c]
  show ?thesis
  proof (cases "buf_isTerminated b")
    case True
    then have "r = q" "b' = b1" using assms(2) c by (auto simp: buf_take_def)
    then show ?thesis using ok assms(1) True by (auto simp: buf_defs split: sum.splits option.splits)
  next
    case False
    then show ?thesis using ok assms c
      by (cases q) (auto simp: buf_take_def buf_defs split: option.splits)
  qed
qed

lemma buf_reach_ok: "buf_reach maxBytes puts takes b \<Longrightarrow> buf_ok b \<and> puts = takes @ pb_blocks b"
proof (induction rule: buf_reach.induct)
  case reach_new
  then show ?case by (simp add: buf_new_def buf_defs)
next
  case (reach_head puts takes b head)
  then show ?case using buf_head_ok [of b head] by simp
next
  case (reach_put puts takes b blocks bytes b')
  then show ?case using buf_put_ok [of b blocks maxBytes bytes b'] by simp
next
  case (reach_flush puts takes b)
  then show ?case using buf_flush_ok [of b] by simp
next
  case (reach_timeout puts takes b)
  then show ?case by (simp add: buf_defs)
next
  case (reach_close puts takes b)
  then show ?case using buf_terminate_ok [of b BufClosed] by (simp add: buf_close_def)
next
  case (reach_fail puts takes b e)
  then show ?case using buf_terminate_ok [of b "BufFailed e"] by (simp add: buf_fail_def)
next
  case (reach_take puts takes b data b')
  then show ?case using buf_take_ok [of b "Inr (Some data)" b'] by simp
next
  case (reach_end puts takes b r b' e)
  then show ?case using buf_take_ok [of b r b'] by auto
qed

text \<open>C15: The buffer of a portal stream loses nothing and never stops its users: in every interleaving the
  blocks taken, followed by those in the buffer, are the blocks put, in order; while it is open a
  consumer that is let through gets data, and a producer that waits has a consumer that can go on.\<close>

theorem portal_buffer_keeps:
  assumes "buf_reach maxBytes puts takes b"
  shows "puts = takes @ pb_blocks b \<and>
    (\<not> buf_isTerminated b \<and> buf_take_ready b \<longrightarrow> (\<exists>data b'. buf_take b = (Inr (Some data), b'))) \<and>
    (pb_blocked b \<longrightarrow> buf_take_ready b \<and> \<not> pb_blocked (snd (buf_take b)))"
proof -
  note r = buf_reach_ok [OF assms]
  have "\<exists>data b'. buf_take b = (Inr (Some data), b') \<and> \<not> pb_blocked b'" if "\<not> buf_isTerminated b" "buf_take_ready b"
    using that r by (auto simp: buf_take_def buf_collect_def buf_take_ready_def buf_defs)
  moreover have "\<not> buf_isTerminated b \<and> buf_take_ready b" if "pb_blocked b"
    using that r by (auto simp: buf_take_ready_def buf_defs)
  ultimately show ?thesis using r by fastforce
qed

lemma sample_reach: "\<exists>b. buf_reach 10 [1, 2, 3 :: nat] [1, 2] b \<and> pb_blocks b = [3] \<and> \<not> buf_take_ready b"
proof -
  have "\<exists>b1. buf_put 10 [1, 2 :: nat] 12 buf_new = Inr b1 \<and> buf_take_ready b1 \<and>
     (\<exists>data b2. buf_take b1 = (Inr (Some data), b2) \<and> pd_blocks data = [1, 2] \<and> \<not> pb_blocked b2 \<and>
       (\<exists>b3. buf_put 10 [3] 4 b2 = Inr b3 \<and> pb_blocks b3 = [3] \<and> \<not> buf_take_ready b3))"
    by (simp add: buf_new_def buf_put_def buf_take_def buf_take_ready_def buf_collect_def buf_flush_def buf_hasData_def
        buf_isTerminated_def Let_def)
  then obtain b1 data b2 b3 where b: "buf_put 10 [1, 2 :: nat] 12 buf_new = Inr b1" "buf_take_ready b1"
    "buf_take b1 = (Inr (Some data), b2)" "pd_blocks data = [1, 2]" "\<not> pb_blocked b2" "buf_put 10 [3] 4 b2 = Inr b3"
    "pb_blocks b3 = [3]" "\<not> buf_take_ready b3" by blast
  have "buf_reach 10 ([] @ [1, 2]) [] b1" by (rule reach_put [OF reach_new _ _ b(1)]) (simp_all add: buf_new_def)
  from reach_take [OF this b(2,3)] have "buf_reach 10 ([] @ [1, 2]) ([] @ pd_blocks data) b2" .
  from reach_put [OF this b(5) _ b(6)] have "buf_reach 10 (([] @ [1, 2]) @ [3]) ([] @ pd_blocks data) b3" by simp
  then show ?thesis using b(4,7,8) by auto
qed

theorem portal_buffer_keeps_witness:
  "\<exists>b. buf_reach 10 [1, 2, 3 :: nat] [1, 2] b \<and> [1, 2, 3] = [1, 2] @ pb_blocks b \<and> \<not> buf_take_ready b"
  using portal_buffer_keeps sample_reach by blast

section \<open>The loop of the requests\<close>

datatype stream_ending = StreamComplete | StreamAborted | StreamFailed js_error

datatype portal_response =
    PortalFork "block_ref list"
  | PortalNoData portal_head
  | PortalData portal_head "(byte list list \<times> stream_ending) option"

record portal_query =
  pq_fromBlock :: int
  pq_parentBlockHash :: "jstr option"

datatype 'b buffer_op = OpHead portal_head | OpPut "'b list" int | OpFlush

datatype ingest_end = IngestDone | IngestWaits | IngestThrows js_error | IngestForks portal_query "block_ref list"

text \<open>The packs of lines of a stream that breaks off: the last line is not complete.\<close>

fun splitChunks :: "byte list list \<Rightarrow> jstr \<Rightarrow> jstr list list" where
  "splitChunks [] line = []"
| "splitChunks (chunk # chunks) line =
     (case splitter_push chunk line of
        (None, line') \<Rightarrow> splitChunks chunks line'
      | (Some lines, line') \<Rightarrow> lines # splitChunks chunks line')"

definition response_packs :: "byte list list \<Rightarrow> stream_ending \<Rightarrow> jstr list list" where
  "response_packs chunks ending = (if ending = StreamComplete then splitLines chunks [] else splitChunks chunks [])"

definition query_after :: "block_ref \<Rightarrow> portal_query" where
  "query_after b = \<lparr>pq_fromBlock = br_number b + 1, pq_parentBlockHash = Some (br_hash b)\<rparr>"

fun ingest_lines ::
  "(jstr \<Rightarrow> 'b result) \<Rightarrow> ('b \<Rightarrow> block_ref) \<Rightarrow> jstr list \<Rightarrow> portal_query \<Rightarrow> ('b list \<times> int \<times> portal_query) result" where
  "ingest_lines parse header [] q = Inr ([], 0, q)"
| "ingest_lines parse header (line # rest) q =
     rbind (parse line) (\<lambda>block.
     rbind (ingest_lines parse header rest (query_after (header block))) (\<lambda>(blocks, bytes, q').
       Inr (block # blocks, int (length line) + bytes, q')))"

fun ingest_packs ::
  "(jstr \<Rightarrow> 'b result) \<Rightarrow> ('b \<Rightarrow> block_ref) \<Rightarrow> jstr list list \<Rightarrow> portal_query \<Rightarrow> 'b buffer_op list \<times> js_error option \<times> portal_query" where
  "ingest_packs parse header [] q = ([], None, q)"
| "ingest_packs parse header (pack # packs) q =
     (case ingest_lines parse header pack q of
        Inl e \<Rightarrow> ([], Some e, q)
      | Inr (blocks, bytes, q') \<Rightarrow>
          (case ingest_packs parse header packs q' of (ops, err, q'') \<Rightarrow> (OpPut blocks bytes # ops, err, q'')))"

text \<open>The loop over the responses, each a function of the query it answers. The loop waits when there are no
  more of them.\<close>

fun portal_ingest ::
  "int option \<Rightarrow> (jstr \<Rightarrow> 'b result) \<Rightarrow> ('b \<Rightarrow> block_ref) \<Rightarrow> (portal_query \<Rightarrow> portal_response) list \<Rightarrow> portal_query \<Rightarrow>
    'b buffer_op list \<times> ingest_end" where
  "portal_ingest toBlock parse header responses q =
     (if (case toBlock of None \<Rightarrow> False | Some to \<Rightarrow> pq_fromBlock q > to) then ([OpFlush], IngestDone)
      else case responses of
        [] \<Rightarrow> ([], IngestWaits)
      | respond # rest \<Rightarrow>
          (case respond q of
             PortalFork previousBlocks \<Rightarrow> ([], IngestForks q previousBlocks)
           | PortalNoData head \<Rightarrow>
               (case portal_ingest toBlock parse header rest q of (ops, e) \<Rightarrow> (OpHead head # OpFlush # ops, e))
           | PortalData head None \<Rightarrow> ([OpHead head, OpFlush], IngestDone)
           | PortalData head (Some (chunks, ending)) \<Rightarrow>
               (case ingest_packs parse header (response_packs chunks ending) q of
                  (ops, Some e, q') \<Rightarrow> (OpHead head # ops, IngestThrows e)
                | (ops, None, q') \<Rightarrow>
                    (case ending of
                       StreamFailed e \<Rightarrow> (OpHead head # ops, IngestThrows e)
                     | StreamAborted \<Rightarrow>
                         (case portal_ingest toBlock parse header rest q' of (ops', e) \<Rightarrow> (OpHead head # ops @ ops', e))
                     | StreamComplete \<Rightarrow>
                         (case portal_ingest toBlock parse header rest q' of
                            (ops', e) \<Rightarrow> (OpHead head # ops @ OpFlush # ops', e))))))"

declare portal_ingest.simps [simp del]

definition put_blocks :: "'b buffer_op list \<Rightarrow> 'b list" where
  "put_blocks ops = concat (map (\<lambda>op. case op of OpPut blocks bytes \<Rightarrow> blocks | _ \<Rightarrow> []) ops)"

lemma put_blocks_simps [simp]:
  "put_blocks [] = []" "put_blocks (OpHead h # ops) = put_blocks ops" "put_blocks (OpFlush # ops) = put_blocks ops"
  "put_blocks (OpPut bs n # ops) = bs @ put_blocks ops" "put_blocks (ops @ ops') = put_blocks ops @ put_blocks ops'"
  by (simp_all add: put_blocks_def)

text \<open>The \<open>n\<close> blocks of a chain \<open>C\<close> from a height on, and their text: JSON lines, one block each.\<close>

fun blocks_from :: "(int \<Rightarrow> 'b) \<Rightarrow> int \<Rightarrow> nat \<Rightarrow> 'b list" where
  "blocks_from C h 0 = []"
| "blocks_from C h (Suc n) = C h # blocks_from C (h + 1) n"

lemma blocks_from_add: "blocks_from C h (m + n) = blocks_from C h m @ blocks_from C (h + int m) n"
  by (induction m arbitrary: h) (auto simp: ac_simps)

lemma length_blocks_from [simp]: "length (blocks_from C h n) = n"
  by (induction n arbitrary: h) auto

fun json_lines :: "(int \<Rightarrow> jstr) \<Rightarrow> int \<Rightarrow> nat \<Rightarrow> jstr" where
  "json_lines render h 0 = []"
| "json_lines render h (Suc n) = render h @ newline # json_lines render (h + 1) n"

text \<open>
  The text of a block is not empty and has no line break, the client reads the block from it, and the header of the block
  has its number.
\<close>

definition wire_blocks :: "(jstr \<Rightarrow> 'b result) \<Rightarrow> ('b \<Rightarrow> block_ref) \<Rightarrow> (int \<Rightarrow> jstr) \<Rightarrow> (int \<Rightarrow> 'b) \<Rightarrow> int \<Rightarrow> bool" where
  "wire_blocks parse header render C first \<longleftrightarrow>
     (\<forall>h \<ge> first. render h \<noteq> [] \<and> newline \<notin> set (render h) \<and> parse (render h) = Inr (C h) \<and> br_number (header (C h)) = h)"

text \<open>
  What a server answers to a query, by the format on the wire: the JSON lines of the \<open>n\<close> blocks from the one that is asked for, as
  bytes that are cut into chunks between characters (no chunk starts with U+FEFF). The last line break may be missing in a
  complete response; a response that breaks off may end with any piece of the next line.
\<close>

definition serves_query :: "(int \<Rightarrow> jstr) \<Rightarrow> portal_query \<Rightarrow> portal_response \<Rightarrow> nat \<Rightarrow> bool" where
  "serves_query render q r n \<longleftrightarrow>
     (case r of
        PortalData head (Some (chunks, ending)) \<Rightarrow>
          \<exists>texts piece more. chunks = map UTF8_ENCODER_encode texts \<and> list_all decodable texts \<and>
            (if ending = StreamComplete
             then concat texts = json_lines render (pq_fromBlock q) n \<or> concat texts @ [newline] = json_lines render (pq_fromBlock q) n
             else concat texts = json_lines render (pq_fromBlock q) n @ piece \<and> render (pq_fromBlock q + int n) = piece @ more)
      | _ \<Rightarrow> True)"

text \<open>The number of blocks that the server has sent to the end while the loop runs.\<close>

definition advance :: "(int \<Rightarrow> 'b) \<Rightarrow> ('b \<Rightarrow> block_ref) \<Rightarrow> portal_query \<Rightarrow> nat \<Rightarrow> portal_query" where
  "advance C header q n = (if n = 0 then q else query_after (header (C (pq_fromBlock q + int n - 1))))"

fun blocks_sent ::
  "int option \<Rightarrow> ('b \<Rightarrow> block_ref) \<Rightarrow> (int \<Rightarrow> 'b) \<Rightarrow> (portal_query \<Rightarrow> portal_response \<times> nat) list \<Rightarrow> portal_query \<Rightarrow> nat" where
  "blocks_sent toBlock header C [] q = 0"
| "blocks_sent toBlock header C (answer # rest) q =
     (if (case toBlock of None \<Rightarrow> False | Some to \<Rightarrow> pq_fromBlock q > to) then 0
      else case answer q of
        (PortalNoData head, n) \<Rightarrow> blocks_sent toBlock header C rest q
      | (PortalData head (Some (chunks, ending)), n) \<Rightarrow>
          (case ending of
             StreamFailed e \<Rightarrow> n
           | _ \<Rightarrow> n + blocks_sent toBlock header C rest (advance C header q n))
      | _ \<Rightarrow> 0)"

lemma js_split_line: "sep \<notin> set l \<Longrightarrow> js_split sep (l @ sep # s) = l # js_split sep s"
  by (induction l) auto

lemma splitChunks_text:
  "newline \<notin> set line \<Longrightarrow>
    concat (splitChunks chunks line) = filter (\<lambda>l. l \<noteq> []) (butlast (js_split newline (line @ concat (map decode_chunk chunks))))"
proof (induction chunks arbitrary: line)
  case Nil
  then show ?case using js_split_plain [of newline line] by simp
next
  case (Cons chunk chunks)
  let ?s = "decode_chunk chunk" and ?t = "concat (map decode_chunk chunks)"
  let ?lines = "(line @ hd (js_split newline ?s)) # tl (js_split newline ?s)"
  have last: "newline \<notin> set (last ?lines)"
    using js_split_last [of newline "line @ ?s"] js_split_append [of newline line ?s] js_split_plain [OF Cons.prems] by simp
  have IH: "concat (splitChunks chunks (last ?lines)) = filter (\<lambda>l. l \<noteq> []) (butlast (js_split newline (last ?lines @ ?t)))"
    using Cons.IH [OF last] .
  have step: "butlast (js_split newline (line @ ?s @ ?t)) = butlast ?lines @ butlast (js_split newline (last ?lines @ ?t))"
    using js_split_step [OF Cons.prems, of ?s ?t] js_split_nonempty by (simp add: butlast_append)
  show ?case
  proof (cases "length (js_split newline ?s) = 1")
    case True
    then obtain l where l: "js_split newline ?s = [l]" by (cases "js_split newline ?s") auto
    then have "splitter_push chunk line = (None, last ?lines)"
      by (auto simp: splitter_push_def Let_def)
    then show ?thesis using IH step l by simp
  next
    case False
    then have "?s \<noteq> []" by auto
    then have "splitter_push chunk line =
        (let result = filter (\<lambda>l. l \<noteq> []) (butlast ?lines) in (if result \<noteq> [] then Some result else None, last ?lines))"
      using False by (simp add: splitter_push_def Let_def)
    then have "concat (splitChunks (chunk # chunks) line) =
        filter (\<lambda>l. l \<noteq> []) (butlast ?lines) @ concat (splitChunks chunks (last ?lines))"
      by (auto simp: Let_def split: if_splits)
    then show ?thesis using IH step by simp
  qed
qed

text \<open>The client finds the complete lines of a response, and no others.\<close>

lemma json_lines_split:
  "\<forall>h \<ge> first. newline \<notin> set (render h) \<Longrightarrow> first \<le> h \<Longrightarrow> newline \<notin> set piece \<Longrightarrow>
    js_split newline (json_lines render h n @ piece) = blocks_from render h n @ [piece]"
  by (induction n arbitrary: h) (simp_all add: js_split_plain js_split_line)

lemma json_lines_unterminated:
  "s @ [newline] = json_lines render h n \<Longrightarrow> \<exists>m. n = Suc m \<and> s = json_lines render h m @ render (h + int m)"
proof (induction n arbitrary: s h)
  case (Suc n)
  show ?case
  proof (cases n)
    case 0
    with Suc.prems show ?thesis by simp
  next
    case (Suc k)
    then have ne: "json_lines render (h + 1) n \<noteq> []" by simp
    have e: "s @ [newline] = (render h @ [newline]) @ json_lines render (h + 1) n" using Suc.prems by simp
    then obtain t where t: "s = render h @ newline # t" "t @ [newline] = json_lines render (h + 1) n"
      using ne by (auto simp: append_eq_append_conv2 append_eq_Cons_conv Cons_eq_append_conv)
    from Suc.IH [OF t(2)] show ?thesis using t(1) by (auto simp: add.assoc)
  qed
qed simp

lemma blocks_from_Suc: "blocks_from C h (Suc n) = blocks_from C h n @ [C (h + int n)]"
  using blocks_from_add [of C h n 1] by simp

lemma serves_lines:
  assumes w: "wire_blocks parse header render C first" and start: "first \<le> pq_fromBlock q"
    and s: "serves_query render q (PortalData head (Some (chunks, ending))) n"
  shows "concat (response_packs chunks ending) = blocks_from render (pq_fromBlock q) n"
proof -
  let ?h = "pq_fromBlock q"
  have plain: "\<forall>h \<ge> first. newline \<notin> set (render h)" and ne: "\<forall>h \<ge> first. render h \<noteq> []" using w by (simp_all add: wire_blocks_def)
  have lines: "filter (\<lambda>l. l \<noteq> []) (blocks_from render h m) = blocks_from render h m" if "first \<le> h" for h m
    using that ne by (induction m arbitrary: h) simp_all
  obtain texts piece more where t: "chunks = map UTF8_ENCODER_encode texts" "list_all decodable texts"
    and c: "if ending = StreamComplete
      then concat texts = json_lines render ?h n \<or> concat texts @ [newline] = json_lines render ?h n
      else concat texts = json_lines render ?h n @ piece \<and> render (?h + int n) = piece @ more"
    using s by (auto simp: serves_query_def)
  have d: "concat (map decode_chunk chunks) = concat texts" using decode_chunks_encode [OF t(2)] unfolding t(1) by simp
  show ?thesis
  proof (cases "ending = StreamComplete")
    case True
    have "concat (response_packs chunks ending) = filter (\<lambda>l. l \<noteq> []) (js_split newline (concat texts))"
      using splitLines_text [of "[]" chunks] True d by (simp add: response_packs_def)
    also have "\<dots> = blocks_from render ?h n"
    proof (cases "concat texts = json_lines render ?h n")
      case True
      then show ?thesis using json_lines_split [OF plain start, of "[]" n] lines [OF start] by simp
    next
      case False
      then obtain m where m: "n = Suc m" "concat texts = json_lines render ?h m @ render (?h + int m)"
        using c True json_lines_unterminated [of "concat texts" render ?h n] by auto
      have "newline \<notin> set (render (?h + int m))" "render (?h + int m) \<noteq> []" using plain ne start by simp_all
      then show ?thesis using json_lines_split [OF plain start, of "render (?h + int m)" m] lines [OF start] m
        by (simp add: blocks_from_Suc del: blocks_from.simps)
    qed
    finally show ?thesis .
  next
    case False
    then have c': "concat texts = json_lines render ?h n @ piece" "render (?h + int n) = piece @ more" using c by simp_all
    have "newline \<notin> set (render (?h + int n))" using plain start by simp
    then have "newline \<notin> set piece" using c'(2) by simp
    then have "butlast (js_split newline (concat texts)) = blocks_from render ?h n"
      using json_lines_split [OF plain start, of piece n] c'(1) by simp
    then show ?thesis using splitChunks_text [of "[]" chunks] False d lines [OF start] by (simp add: response_packs_def)
  qed
qed

lemma wire_parse:
  "wire_blocks parse header render C first \<Longrightarrow> first \<le> h \<Longrightarrow> map parse (blocks_from render h n) = map Inr (blocks_from C h n)"
  by (induction n arbitrary: h) (simp_all add: wire_blocks_def)

lemma ingest_lines_serves:
  assumes "wire_blocks parse header render C first"
  shows "first \<le> pq_fromBlock q \<Longrightarrow> \<exists>bytes.
    ingest_lines parse header (blocks_from render (pq_fromBlock q) n) q = Inr (blocks_from C (pq_fromBlock q) n, bytes, advance C header q n)"
proof (induction n arbitrary: q)
  case 0
  then show ?case by (simp add: advance_def)
next
  case (Suc n)
  let ?q = "query_after (header (C (pq_fromBlock q)))"
  have p: "parse (render (pq_fromBlock q)) = Inr (C (pq_fromBlock q))" and q: "pq_fromBlock ?q = pq_fromBlock q + 1"
    using assms Suc.prems by (simp_all add: wire_blocks_def query_after_def)
  obtain bytes where "ingest_lines parse header (blocks_from render (pq_fromBlock ?q) n) ?q =
      Inr (blocks_from C (pq_fromBlock ?q) n, bytes, advance C header ?q n)"
    using Suc.IH [of ?q] Suc.prems q by auto
  moreover have "advance C header ?q n = advance C header q (Suc n)" using q by (simp add: advance_def)
  ultimately show ?case using p q by simp
qed

lemma advance_from:
  "wire_blocks parse header render C first \<Longrightarrow> first \<le> pq_fromBlock q \<Longrightarrow> pq_fromBlock (advance C header q n) = pq_fromBlock q + int n"
  by (simp add: advance_def query_after_def wire_blocks_def)

lemma advance_add:
  assumes "wire_blocks parse header render C first" "first \<le> pq_fromBlock q"
  shows "advance C header (advance C header q m) n = advance C header q (m + n)"
  using advance_from [OF assms, of m] by (cases "m = 0") (simp_all add: advance_def add.assoc)

lemma ingest_packs_serves:
  assumes w: "wire_blocks parse header render C first"
  shows "first \<le> pq_fromBlock q \<Longrightarrow> concat packs = blocks_from render (pq_fromBlock q) n \<Longrightarrow>
    \<exists>ops. ingest_packs parse header packs q = (ops, None, advance C header q n) \<and> put_blocks ops = blocks_from C (pq_fromBlock q) n"
proof (induction packs arbitrary: q n)
  case Nil
  then have "n = 0" by (cases n) simp_all
  then show ?case by (simp add: advance_def)
next
  case (Cons pack packs)
  have "length (concat (pack # packs)) = n" using Cons.prems(2) length_blocks_from by metis
  then obtain k where n: "n = length pack + k" by (metis concat.simps(2) length_append)
  have e: "pack @ concat packs = blocks_from render (pq_fromBlock q) (length pack) @ blocks_from render (pq_fromBlock q + int (length pack)) k"
    using Cons.prems(2) unfolding n blocks_from_add by simp
  then have pack: "pack = blocks_from render (pq_fromBlock q) (length pack)"
    and packs: "concat packs = blocks_from render (pq_fromBlock q + int (length pack)) k"
    by (metis (no_types) append_eq_append_conv length_blocks_from)+
  let ?q = "advance C header q (length pack)"
  have q: "pq_fromBlock ?q = pq_fromBlock q + int (length pack)" by (rule advance_from [OF w Cons.prems(1)])
  obtain bytes where l: "ingest_lines parse header pack q = Inr (blocks_from C (pq_fromBlock q) (length pack), bytes, ?q)"
    using ingest_lines_serves [OF w Cons.prems(1), of "length pack"] pack by metis
  obtain ops where "ingest_packs parse header packs ?q = (ops, None, advance C header ?q k)"
      "put_blocks ops = blocks_from C (pq_fromBlock ?q) k"
    using Cons.IH [of ?q k] Cons.prems(1) packs q by auto
  then show ?case using l q advance_add [OF w Cons.prems(1)] by (simp add: n blocks_from_add)
qed

lemma portal_ingest_serves:
  assumes w: "wire_blocks parse header render C first"
  shows "\<forall>f \<in> set answers. \<forall>q. serves_query render q (fst (f q)) (snd (f q)) \<Longrightarrow> first \<le> pq_fromBlock q \<Longrightarrow>
    portal_ingest toBlock parse header (map (\<lambda>f q. fst (f q)) answers) q = (ops, e) \<Longrightarrow>
    put_blocks ops = blocks_from C (pq_fromBlock q) (blocks_sent toBlock header C answers q)"
proof (induction answers arbitrary: q ops e)
  case Nil
  then show ?case by (subst (asm) portal_ingest.simps) (auto split: if_splits)
next
  case (Cons f rest)
  note run = Cons.prems(3) [unfolded list.map portal_ingest.simps [of _ _ _ "_ # _"]]
  obtain r n where f: "f q = (r, n)" by fastforce
  show ?case
  proof (cases "(case toBlock of None \<Rightarrow> False | Some to \<Rightarrow> pq_fromBlock q > to)")
    case True
    then show ?thesis using run by auto
  next
    case False
    show ?thesis
    proof (cases r)
      case (PortalFork prev)
      then show ?thesis using run False f by auto
    next
      case (PortalNoData head)
      obtain ops' e' where "portal_ingest toBlock parse header (map (\<lambda>f q. fst (f q)) rest) q = (ops', e')" by fastforce
      then show ?thesis using Cons.IH [of q ops' e'] Cons.prems(1,2) run False PortalNoData f by auto
    next
      case (PortalData head data)
      show ?thesis
      proof (cases data)
        case None
        then show ?thesis using run False PortalData f by auto
      next
        case (Some d)
        obtain chunks ending where d: "d = (chunks, ending)" by fastforce
        let ?packs = "response_packs chunks ending" and ?q = "advance C header q n"
        have "serves_query render q (fst (f q)) (snd (f q))" using Cons.prems(1) by simp
        then have "concat ?packs = blocks_from render (pq_fromBlock q) n"
          using f PortalData Some d by (intro serves_lines [OF w Cons.prems(2), of head]) simp
        then obtain ops1 where p: "ingest_packs parse header ?packs q = (ops1, None, ?q)"
          "put_blocks ops1 = blocks_from C (pq_fromBlock q) n"
          using ingest_packs_serves [OF w Cons.prems(2)] by blast
        have q: "pq_fromBlock ?q = pq_fromBlock q + int n" by (rule advance_from [OF w Cons.prems(2)])
        obtain ops2 e2 where r: "portal_ingest toBlock parse header (map (\<lambda>f q. fst (f q)) rest) ?q = (ops2, e2)" by fastforce
        have "put_blocks ops2 = blocks_from C (pq_fromBlock ?q) (blocks_sent toBlock header C rest ?q)"
          using Cons.IH [OF _ _ r] Cons.prems(1,2) q by simp
        then show ?thesis using run False f PortalData Some d p r q by (cases ending) (auto simp: blocks_from_add)
      qed
    qed
  qed
qed


text \<open>The block \<open>h\<close> as the line of the one character \<open>65 + h\<close>; the first response breaks off after two blocks and a piece of the third,
  the second one lacks its last line break.\<close>

definition letter :: "int \<Rightarrow> jstr" where
  "letter h = [nat (65 + h)]"

definition letter_server :: "(portal_query \<Rightarrow> portal_response \<times> nat) list" where
  "letter_server =
     (let head = \<lparr>ph_headNumber = Some 9, ph_finalizedHeadNumber = None, ph_finalizedHeadHash = None\<rparr>
      in [\<lambda>q. if pq_fromBlock q = 0 then (PortalData head (Some ([[65, 10], [66, 10, 67]], StreamAborted)), 2) else (PortalNoData head, 0),
          \<lambda>q. (PortalNoData head, 0),
          \<lambda>q. if pq_fromBlock q = 2 then (PortalData head (Some ([[67, 10, 68]], StreamComplete)), 2) else (PortalNoData head, 0)])"

definition letter_parse :: "jstr \<Rightarrow> int result" where
  "letter_parse line = (case line of [c] \<Rightarrow> Inr (int c - 65) | _ \<Rightarrow> Inl (ThrownError ''SyntaxError''))"

lemma letter_serves: "\<forall>f \<in> set letter_server. \<forall>q. serves_query letter q (fst (f q)) (snd (f q))"
proof -
  have e: "UTF8_ENCODER_encode [65, 10] = [65, 10]" "UTF8_ENCODER_encode [66, 10, 67] = [66, 10, 67]"
    "UTF8_ENCODER_encode [67, 10, 68] = [67, 10, 68]"
    by (simp_all add: UTF8_ENCODER_encode_def utf8_encode_def utf8_char_def)
  have d: "decodable [65, 10]" "decodable [66, 10, 67]" "decodable [67, 10, 68]"
    by (simp_all add: decodable_def scalar_value_def BOM_def)
  have "\<exists>texts piece more. [[65, 10], [66, 10, 67]] = map UTF8_ENCODER_encode texts \<and> list_all decodable texts \<and>
      concat texts = json_lines letter 0 2 @ piece \<and> letter (0 + int 2) = piece @ more"
    by (intro exI [of _ "[[65, 10], [66, 10, 67]]"] exI [of _ "[67]"] exI [of _ "[]"])
      (simp add: e d letter_def numeral_2_eq_2)
  moreover have "\<exists>texts. [[67, 10, 68]] = map UTF8_ENCODER_encode texts \<and> list_all decodable texts \<and>
      (concat texts = json_lines letter 2 2 \<or> concat texts @ [newline] = json_lines letter 2 2)"
    by (intro exI [of _ "[[67, 10, 68]]"]) (simp add: e d letter_def numeral_2_eq_2)
  ultimately show ?thesis by (simp add: letter_server_def Let_def serves_query_def)
qed


end
