(* ===== verification/Js_Text.thy ===== *)
theory Js_Text
  imports Js_Values
begin

text \<open>
  The conversions between numbers and text that the language gives the code: \<open>toString(radix)\<close>,
  \<open>padStart\<close>, \<open>parseInt\<close>, \<open>BigInt(text)\<close>, \<open>Number(bigint)\<close>, slices and code units of strings.

  A number that may be \<open>NaN\<close> is a \<open>jsnum\<close>, with \<open>None\<close> for \<open>NaN\<close>.
\<close>

section \<open>Numbers that may be NaN\<close>

type_synonym jsnum = "int option"

definition nplus :: "jsnum \<Rightarrow> int \<Rightarrow> jsnum" where
  "nplus a n = map_option (\<lambda>i. i + n) a"

lemma nplus_Some [simp]: "nplus (Some i) n = Some (i + n)"
  by (simp add: nplus_def)

lemma nplus_None [simp]: "nplus None n = None"
  by (simp add: nplus_def)

text \<open>\<open>Number(b)\<close> of a \<open>bigint\<close>: the nearest double, ties to even.\<close>

fun bit_length :: "nat \<Rightarrow> nat" where
  "bit_length n = (if n = 0 then 0 else Suc (bit_length (n div 2)))"

declare bit_length.simps [simp del]

definition js_Number :: "int \<Rightarrow> int" where
  "js_Number n =
     (let k = bit_length (nat \<bar>n\<bar>) - 53;
          q = \<bar>n\<bar> div 2 ^ k; r = \<bar>n\<bar> mod 2 ^ k;
          up = k \<noteq> 0 \<and> (2 * r > 2 ^ k \<or> 2 * r = 2 ^ k \<and> odd q)
      in sgn n * ((if up then q + 1 else q) * 2 ^ k))"

lemma bit_length_le: "n < 2 ^ k \<Longrightarrow> bit_length n \<le> k"
proof (induction k arbitrary: n)
  case 0
  then show ?case by (simp add: bit_length.simps)
next
  case (Suc k)
  show ?case
  proof (cases "n = 0")
    case False
    have "n div 2 < 2 ^ k" using Suc.prems by (simp add: div_less_iff_less_mult)
    then have "bit_length (n div 2) \<le> k" by (rule Suc.IH)
    then show ?thesis using False by (simp add: bit_length.simps [of n])
  qed (simp add: bit_length.simps)
qed

lemma js_Number_exact: "\<bar>n\<bar> < 2 ^ 53 \<Longrightarrow> js_Number n = n"
proof -
  assume "\<bar>n\<bar> < 2 ^ 53"
  then have "nat \<bar>n\<bar> < 2 ^ 53" by simp
  then have "bit_length (nat \<bar>n\<bar>) - 53 = 0" using bit_length_le [of "nat \<bar>n\<bar>" 53] by simp
  then show ?thesis by (simp add: js_Number_def Let_def mult.commute [of "sgn n"] abs_mult_sgn)
qed

section \<open>Printing\<close>

fun digits :: "nat \<Rightarrow> nat \<Rightarrow> nat list" where
  "digits b n = (if b < 2 \<or> n < b then [n] else digits b (n div b) @ [n mod b])"

declare digits.simps [simp del]

text \<open>\<open>n.toString(b)\<close> of an integer.\<close>

definition toString_radix :: "nat \<Rightarrow> int \<Rightarrow> jstr" where
  "toString_radix b n = (if n < 0 then [45] else []) @ map hex_digit (digits b (nat \<bar>n\<bar>))"

definition padStart :: "jstr \<Rightarrow> nat \<Rightarrow> nat \<Rightarrow> jstr" where
  "padStart s n c = replicate (n - length s) c @ s"

section \<open>Code units and slices\<close>

text \<open>The UTF-16 code units of a text.\<close>

fun utf16 :: "jstr \<Rightarrow> nat list" where
  "utf16 [] = []"
| "utf16 (c # s) =
     (if c < 0x10000 then [c] else [0xD800 + (c - 0x10000) div 1024, 0xDC00 + (c - 0x10000) mod 1024]) @ utf16 s"

text \<open>An index of \<open>slice\<close> and \<open>subarray\<close>: \<open>NaN\<close> is zero, a negative one counts from the end, and the
  result is clamped.\<close>

definition rel_index :: "nat \<Rightarrow> jsnum \<Rightarrow> nat" where
  "rel_index n i =
     (case i of
        None \<Rightarrow> 0
      | Some i \<Rightarrow> if i < 0 then nat (max (int n + i) 0) else min (nat i) n)"

definition str_slice :: "'a list \<Rightarrow> jsnum \<Rightarrow> jsnum \<Rightarrow> 'a list" where
  "str_slice s st en =
     take (rel_index (length s) en - rel_index (length s) st) (drop (rel_index (length s) st) s)"

definition charCodeAt :: "nat list \<Rightarrow> jsnum \<Rightarrow> jsnum" where
  "charCodeAt s i =
     (let k = (case i of None \<Rightarrow> 0 | Some k \<Rightarrow> k)
      in if 0 \<le> k \<and> k < int (length s) then Some (int (s ! nat k)) else None)"

lemma rel_index_nat [simp]: "rel_index n (Some (int i)) = min i n"
  by (simp add: rel_index_def)

lemma str_slice_nat: "i \<le> j \<Longrightarrow> j \<le> length s \<Longrightarrow> str_slice s (Some (int i)) (Some (int j)) = take (j - i) (drop i s)"
  by (simp add: str_slice_def)

section \<open>Parsing\<close>

definition digit_value :: "nat \<Rightarrow> nat \<Rightarrow> nat option" where
  \<comment> \<open>the digits of the radixes up to sixteen\<close>
  "digit_value b c = (case hex_char_value c of Some d \<Rightarrow> if d < b then Some d else None | None \<Rightarrow> None)"

definition horner :: "nat \<Rightarrow> nat list \<Rightarrow> nat" where
  "horner b ds = foldl (\<lambda>a d. a * b + d) 0 ds"

fun digit_prefix :: "nat \<Rightarrow> jstr \<Rightarrow> nat list" where
  "digit_prefix b [] = []"
| "digit_prefix b (c # s) = (case digit_value b c of Some d \<Rightarrow> d # digit_prefix b s | None \<Rightarrow> [])"

definition js_space :: "nat \<Rightarrow> bool" where
  "js_space c \<longleftrightarrow> c \<in> {9, 10, 11, 12, 13, 0x20, 0xA0, 0x1680, 0x2028, 0x2029, 0x202F, 0x205F, 0x3000, 0xFEFF} \<or>
     (0x2000 \<le> c \<and> c \<le> 0x200A)"

definition trimStart :: "jstr \<Rightarrow> jstr" where
  "trimStart s = dropWhile js_space s"

definition js_trim :: "jstr \<Rightarrow> jstr" where
  "js_trim s = rev (dropWhile js_space (rev (dropWhile js_space s)))"

fun take_sign :: "jstr \<Rightarrow> int \<times> jstr" where
  "take_sign [] = (1, [])"
| "take_sign (c # s) = (if c = 45 then (- 1, s) else if c = 43 then (1, s) else (1, c # s))"

text \<open>\<open>parseInt(s, 16)\<close>: white space, a sign, an optional \<open>0x\<close> and the longest prefix of digits.\<close>

fun drop_0x :: "jstr \<Rightarrow> jstr" where
  "drop_0x (a # b # s) = (if a = 48 \<and> (b = 120 \<or> b = 88) then s else a # b # s)"
| "drop_0x s = s"

definition parseInt16 :: "jstr \<Rightarrow> jsnum" where
  "parseInt16 s =
     (let (sg, t) = take_sign (trimStart s); ds = digit_prefix 16 (drop_0x t)
      in if ds = [] then None else Some (sg * int (horner 16 ds)))"

text \<open>\<open>BigInt(s)\<close>: \<open>None\<close> is a \<open>SyntaxError\<close>.\<close>

definition all_digits :: "nat \<Rightarrow> jstr \<Rightarrow> int option" where
  "all_digits b s =
     (let ds = digit_prefix b s
      in if s \<noteq> [] \<and> length ds = length s then Some (int (horner b ds)) else None)"

definition signed_decimal :: "jstr \<Rightarrow> int option" where
  "signed_decimal t = (case take_sign t of (sg, u) \<Rightarrow> map_option (\<lambda>v. sg * v) (all_digits 10 u))"

definition js_BigInt :: "jstr \<Rightarrow> int option" where
  "js_BigInt s =
     (let t = js_trim s
      in if t = [] then Some 0
         else case t of
           a # b # u \<Rightarrow>
             if a = 48 \<and> (b = 120 \<or> b = 88) then all_digits 16 u
             else if a = 48 \<and> (b = 111 \<or> b = 79) then all_digits 8 u
             else if a = 48 \<and> (b = 98 \<or> b = 66) then all_digits 2 u
             else signed_decimal t
         | _ \<Rightarrow> signed_decimal t)"

section \<open>Lemmas on digits\<close>

lemma horner_snoc [simp]: "horner b (ds @ [d]) = horner b ds * b + d"
  by (simp add: horner_def)

lemma horner_Nil [simp]: "horner b [] = 0"
  by (simp add: horner_def)

lemma horner_single: "horner b [d] = d"
  by (simp add: horner_def)

lemma digits_nonempty [simp]: "digits b n \<noteq> []"
  by (subst digits.simps) simp

lemma digits_bounded: "2 \<le> b \<Longrightarrow> d \<in> set (digits b n) \<Longrightarrow> d < b"
proof (induction b n rule: digits.induct)
  case (1 b n)
  then show ?case by (subst (asm) (2) digits.simps) (auto split: if_splits)
qed

lemma horner_digits: "2 \<le> b \<Longrightarrow> horner b (digits b n) = n"
proof (induction b n rule: digits.induct)
  case (1 b n)
  then show ?case by (subst digits.simps) (auto simp: horner_single)
qed

text \<open>The last \<open>k\<close> digits, with leading zeros.\<close>

primrec last_digits :: "nat \<Rightarrow> nat \<Rightarrow> nat \<Rightarrow> nat list" where
  "last_digits b 0 n = []"
| "last_digits b (Suc k) n = last_digits b k (n div b) @ [n mod b]"

lemma length_last_digits [simp]: "length (last_digits b k n) = k"
  by (induction k arbitrary: n) auto

lemma last_digits_bounded: "0 < b \<Longrightarrow> d \<in> set (last_digits b k n) \<Longrightarrow> d < b"
  by (induction k arbitrary: n) auto

lemma last_digits_zero: "last_digits b k 0 = replicate k 0"
  by (induction k) (auto simp: replicate_append_same)

lemma horner_last_digits: "0 < b \<Longrightarrow> horner b (last_digits b k n) = n mod b ^ k"
proof (induction k arbitrary: n)
  case (Suc k)
  have "n mod (b * b ^ k) = b * (n div b mod b ^ k) + n mod b" by (rule mod_mult2_eq)
  then show ?case using Suc by simp
qed simp

lemma digits_padded:
  assumes "2 \<le> b" "n < b ^ k" "0 < k"
  shows "length (digits b n) \<le> k \<and> replicate (k - length (digits b n)) 0 @ digits b n = last_digits b k n"
  using assms
proof (induction k arbitrary: n)
  case (Suc k)
  show ?case
  proof (cases "n < b")
    case True
    then show ?thesis by (simp add: digits.simps [of b n] last_digits_zero)
  next
    case False
    then have n: "digits b n = digits b (n div b) @ [n mod b]" using Suc.prems by (simp add: digits.simps [of b n])
    have "0 < k" using False Suc.prems by (cases k) auto
    moreover have "n div b < b ^ k" using Suc.prems by (simp add: div_less_iff_less_mult mult.commute)
    ultimately have "length (digits b (n div b)) \<le> k \<and>
        replicate (k - length (digits b (n div b))) 0 @ digits b (n div b) = last_digits b k (n div b)"
      using Suc.prems by (intro Suc.IH) auto
    then show ?thesis by (simp add: n flip: append_assoc)
  qed
qed simp

lemma digit_value_hex [simp]: "d < b \<Longrightarrow> b \<le> 16 \<Longrightarrow> digit_value b (hex_digit d) = Some d"
  by (simp add: digit_value_def)

lemma digit_prefix_digits: "(\<And>d. d \<in> set ds \<Longrightarrow> d < b) \<Longrightarrow> b \<le> 16 \<Longrightarrow> digit_prefix b (map hex_digit ds) = ds"
  by (induction ds) auto

lemma hex_digit_plain: "d < 16 \<Longrightarrow> 48 \<le> hex_digit d \<and> hex_digit d \<le> 102 \<and> hex_digit d \<noteq> 88 \<and> hex_digit d \<noteq> 120"
  by (auto simp: hex_digit_def)

lemma all_digits_printed:
  "(\<And>d. d \<in> set ds \<Longrightarrow> d < b) \<Longrightarrow> b \<le> 16 \<Longrightarrow> ds \<noteq> [] \<Longrightarrow> all_digits b (map hex_digit ds) = Some (int (horner b ds))"
  by (simp add: all_digits_def digit_prefix_digits Let_def)

lemma hex_digit_no_space: "d < 16 \<Longrightarrow> \<not> js_space (hex_digit d)"
  by (auto simp: js_space_def hex_digit_def)

lemma js_trim_id: "s \<noteq> [] \<Longrightarrow> \<not> js_space (hd s) \<Longrightarrow> \<not> js_space (last s) \<Longrightarrow> js_trim s = s"
proof -
  assume "s \<noteq> []" "\<not> js_space (hd s)" "\<not> js_space (last s)"
  then have "dropWhile js_space s = s" "dropWhile js_space (rev s) = rev s"
    by (simp_all add: dropWhile_eq_self_iff hd_rev)
  then show ?thesis by (simp add: js_trim_def)
qed

end
