(* ===== verification/Evm_Sink.thy ===== *)
theory Evm_Sink
  imports Scale_Sink Js_Text
begin

text \<open>
  The encoder back ends of the EVM codec, \<open>evm/evm-codec/src/sink\<close>: \<open>BytesSink\<close> writes the words of the
  contract ABI into a growing byte buffer (\<open>bytes.ts\<close>), \<open>HexSink\<close> writes them as hexadecimal digits
  (\<open>hex.ts\<close>); both implement the interface \<open>Sink\<close> of \<open>codec.ts\<close>, the record \<open>evm_sink\<close> of operations.

  The stack of data areas is never empty: the record holds its last entry (\<open>bk_area\<close>) and the entries
  below. Numbers given to the sinks are integers. The last section states what the codecs rely on, the locale \<open>evm_sink_laws\<close>,
  over a view of a sink: its position, its areas and its cells, which are zero past the buffer.
\<close>

section \<open>Values and the interface of a sink\<close>

datatype evm_val =
    EUndef
  | ENum int
  | ENaN
  | EBig int
  | EBool bool
  | EStr jstr
  | EBytes "byte list"
  | EArr "evm_val list"
  | EObj "(jstr \<times> evm_val) list"

definition WORD_SIZE :: nat where
  [simp]: "WORD_SIZE = 32"

record 's evm_sink =
  s_u8 :: "int \<Rightarrow> 's \<Rightarrow> 's result"
  s_i8 :: "int \<Rightarrow> 's \<Rightarrow> 's result"
  s_u16 :: "int \<Rightarrow> 's \<Rightarrow> 's result"
  s_i16 :: "int \<Rightarrow> 's \<Rightarrow> 's result"
  s_u32 :: "int \<Rightarrow> 's \<Rightarrow> 's result"
  s_i32 :: "int \<Rightarrow> 's \<Rightarrow> 's result"
  s_u64 :: "int \<Rightarrow> 's \<Rightarrow> 's result"
  s_i64 :: "int \<Rightarrow> 's \<Rightarrow> 's result"
  s_u128 :: "int \<Rightarrow> 's \<Rightarrow> 's result"
  s_i128 :: "int \<Rightarrow> 's \<Rightarrow> 's result"
  s_u256 :: "int \<Rightarrow> 's \<Rightarrow> 's result"
  s_i256 :: "int \<Rightarrow> 's \<Rightarrow> 's result"
  s_bool :: "bool \<Rightarrow> 's \<Rightarrow> 's result"
  s_bytes :: "evm_val \<Rightarrow> 's \<Rightarrow> 's result"
  s_staticBytes :: "nat \<Rightarrow> evm_val \<Rightarrow> 's \<Rightarrow> 's result"
  s_address :: "jstr \<Rightarrow> 's \<Rightarrow> 's result"
  s_string :: "jstr \<Rightarrow> 's \<Rightarrow> 's result"
  s_openTail :: "nat \<Rightarrow> 's \<Rightarrow> 's result"
  s_openArray :: "nat \<Rightarrow> 's \<Rightarrow> 's result"
  s_closeTail :: "'s \<Rightarrow> 's result"
  s_toString :: "'s \<Rightarrow> jstr result"

text \<open>The entries of the stack of data areas.\<close>

record area =
  ar_start :: nat
  ar_jumpBackPtr :: nat
  ar_size :: nat
  ar_countWord :: bool

definition oob :: "'a result" where
  "oob = Inl (ThrownError ''is out of bounds'')"

text \<open>The checks of \<open>bounds.ts\<close>: the unsigned and signed integers of \<open>n\<close> bytes.\<close>

definition in_unsigned :: "nat \<Rightarrow> int \<Rightarrow> bool" where
  "in_unsigned n v \<longleftrightarrow> 0 \<le> v \<and> v \<le> 256 ^ n - 1"

definition in_signed :: "nat \<Rightarrow> int \<Rightarrow> bool" where
  "in_signed n v \<longleftrightarrow> - (256 ^ n div 2) \<le> v \<and> v \<le> 256 ^ n div 2 - 1"

definition U256_BASE :: int where
  "U256_BASE = 2 ^ 256"

text \<open>Big-endian stores of \<open>DataView\<close>, which wrap around.\<close>

definition be_bytes :: "nat \<Rightarrow> int \<Rightarrow> byte list" where
  "be_bytes n v = rev (le_bytes n v)"

section \<open>BytesSink\<close>

record bytes_sink =
  bk_pos :: nat
  bk_buf :: "byte list"
  bk_area :: area
  bk_below :: "area list"

definition BytesSink_new :: "nat \<Rightarrow> nat \<Rightarrow> bytes_sink" where
  "BytesSink_new nfields capacity =
     \<lparr>bk_pos = 0, bk_buf = replicate capacity 0,
      bk_area = \<lparr>ar_start = 0, ar_jumpBackPtr = 0, ar_size = nfields * WORD_SIZE, ar_countWord = False\<rparr>,
      bk_below = []\<rparr>"

definition bk_size :: "bytes_sink \<Rightarrow> nat" where
  "bk_size s = ar_size (bk_area s)"

definition bk_result :: "bytes_sink \<Rightarrow> byte list result" where
  "bk_result s = rbind (js_assert (bk_below s = [])) (\<lambda>_. Inr (take (bk_size s) (bk_buf s)))"

definition bk_toString :: "bytes_sink \<Rightarrow> jstr result" where
  "bk_toString s =
     (if bk_size s \<le> length (bk_buf s) then Inr (toHex (bk_buf s) 0 (bk_size s)) else Inl RangeError)"

definition bk_allocate :: "nat \<Rightarrow> bytes_sink \<Rightarrow> bytes_sink result" where
  "bk_allocate cap s =
     rbind (buf_set (replicate (max cap (length (bk_buf s) * 2)) 0) (bk_buf s) 0)
       (\<lambda>buf. Inr (s\<lparr>bk_buf := buf\<rparr>))"

definition bk_reserve :: "nat \<Rightarrow> bytes_sink \<Rightarrow> bytes_sink result" where
  "bk_reserve additional s =
     (if int (length (bk_buf s)) - int (bk_pos s) < int additional
      then bk_allocate (bk_pos s + additional) s else Inr s)"

definition bk_written :: "bytes_sink \<Rightarrow> byte list" where
  "bk_written s = take (bk_pos s) (bk_buf s)"

definition bk_mark :: "bytes_sink \<Rightarrow> nat" where
  "bk_mark s = bk_pos s"

text \<open>Bytes stored at the position, which moves behind them.\<close>

definition bk_put :: "byte list \<Rightarrow> bytes_sink \<Rightarrow> bytes_sink result" where
  "bk_put bs s =
     rbind (buf_set (bk_buf s) bs (bk_pos s)) (\<lambda>buf.
       Inr (s\<lparr>bk_buf := buf, bk_pos := bk_pos s + length bs\<rparr>))"

definition bk_stringToBytes :: "jstr \<Rightarrow> byte list result" where
  "bk_stringToBytes val =
     (if \<not> isHex (JStr val) then Inl (ThrownError ''Expected hex string or Uint8Array'')
      else decodeHex (JStr val))"

text \<open>\<open>Uint8Array | string\<close>; TypeScript rejects other values.\<close>

definition bk_toBytes :: "evm_val \<Rightarrow> byte list result" where
  "bk_toBytes val =
     (case val of EStr t \<Rightarrow> bk_stringToBytes t | EBytes b \<Rightarrow> Inr b | _ \<Rightarrow> Inl TypeError)"

definition bk_raw :: "evm_val \<Rightarrow> bytes_sink \<Rightarrow> bytes_sink result" where
  "bk_raw val s =
     rbind (bk_toBytes val) (\<lambda>bs. rbind (bk_reserve (length bs) s) (bk_put bs))"

definition bk_utf8 :: "jstr \<Rightarrow> bytes_sink \<Rightarrow> bytes_sink result" where
  "bk_utf8 val = bk_raw (EBytes (UTF8_ENCODER_encode val))"

definition bk_padFrom :: "nat \<Rightarrow> bytes_sink \<Rightarrow> bytes_sink result" where
  "bk_padFrom pos s =
     (let rem = (bk_pos s - pos) mod WORD_SIZE
      in if rem = 0 then Inr s
         else rbind (bk_reserve (WORD_SIZE - rem) s) (bk_put (replicate (WORD_SIZE - rem) 0)))"

text \<open>An unsigned value in the last \<open>n\<close> bytes of a word: only those are stored.\<close>

definition bk_right :: "nat \<Rightarrow> int \<Rightarrow> bytes_sink \<Rightarrow> bytes_sink result" where
  "bk_right n val s =
     rbind (bk_reserve WORD_SIZE s) (\<lambda>s.
       bk_put (be_bytes n val) (s\<lparr>bk_pos := bk_pos s + (WORD_SIZE - n)\<rparr>))"

definition bk_writeU64 :: "int \<Rightarrow> bytes_sink \<Rightarrow> bytes_sink result" where
  "bk_writeU64 val = bk_put (be_bytes 8 val)"

definition bk_u128Raw :: "int \<Rightarrow> bytes_sink \<Rightarrow> bytes_sink result" where
  "bk_u128Raw val s =
     rbind (bk_writeU64 (drop_bit 64 val) s) (bk_writeU64 (and val (2 ^ 64 - 1)))"

definition bk_i256Raw :: "int \<Rightarrow> bytes_sink \<Rightarrow> bytes_sink result" where
  "bk_i256Raw val s =
     (let uval = (if val \<ge> 0 then val else val + U256_BASE)
      in rbind (bk_reserve WORD_SIZE s) (\<lambda>s.
         rbind (bk_u128Raw (drop_bit 128 uval) s) (bk_u128Raw (and uval (2 ^ 128 - 1)))))"

definition bk_u8 :: "int \<Rightarrow> bytes_sink \<Rightarrow> bytes_sink result" where
  "bk_u8 val s = (if \<not> in_unsigned 1 val then oob else bk_right 1 val s)"

definition bk_i8 :: "int \<Rightarrow> bytes_sink \<Rightarrow> bytes_sink result" where
  "bk_i8 val s = (if \<not> in_signed 1 val then oob else bk_i256Raw val s)"

definition bk_u16 :: "int \<Rightarrow> bytes_sink \<Rightarrow> bytes_sink result" where
  "bk_u16 val s = (if \<not> in_unsigned 2 val then oob else bk_right 2 val s)"

definition bk_i16 :: "int \<Rightarrow> bytes_sink \<Rightarrow> bytes_sink result" where
  "bk_i16 val s = (if \<not> in_signed 2 val then oob else bk_i256Raw val s)"

definition bk_u32 :: "int \<Rightarrow> bytes_sink \<Rightarrow> bytes_sink result" where
  "bk_u32 val s = (if \<not> in_unsigned 4 val then oob else bk_right 4 val s)"

definition bk_i32 :: "int \<Rightarrow> bytes_sink \<Rightarrow> bytes_sink result" where
  "bk_i32 val s = (if \<not> in_signed 4 val then oob else bk_i256Raw val s)"

definition bk_u64 :: "int \<Rightarrow> bytes_sink \<Rightarrow> bytes_sink result" where
  "bk_u64 val s = (if \<not> in_unsigned 8 val then oob else bk_right 8 val s)"

definition bk_i64 :: "int \<Rightarrow> bytes_sink \<Rightarrow> bytes_sink result" where
  "bk_i64 val s = (if \<not> in_signed 8 val then oob else bk_i256Raw val s)"

definition bk_u128 :: "int \<Rightarrow> bytes_sink \<Rightarrow> bytes_sink result" where
  "bk_u128 val s =
     (if \<not> in_unsigned 16 val then oob
      else rbind (bk_reserve WORD_SIZE s) (\<lambda>s.
        rbind (bk_writeU64 (drop_bit 64 val) (s\<lparr>bk_pos := bk_pos s + (WORD_SIZE - 16)\<rparr>))
          (bk_writeU64 (and val (2 ^ 64 - 1)))))"

definition bk_i128 :: "int \<Rightarrow> bytes_sink \<Rightarrow> bytes_sink result" where
  "bk_i128 val s = (if \<not> in_signed 16 val then oob else bk_i256Raw val s)"

definition bk_u256 :: "int \<Rightarrow> bytes_sink \<Rightarrow> bytes_sink result" where
  "bk_u256 val s =
     (if \<not> in_unsigned 32 val then oob
      else rbind (bk_reserve WORD_SIZE s) (\<lambda>s.
        rbind (bk_u128Raw (drop_bit 128 val) s) (bk_u128Raw (and val (2 ^ 128 - 1)))))"

definition bk_i256 :: "int \<Rightarrow> bytes_sink \<Rightarrow> bytes_sink result" where
  "bk_i256 val s = (if \<not> in_signed 32 val then oob else bk_i256Raw val s)"

definition bk_increase :: "nat \<Rightarrow> bytes_sink \<Rightarrow> bytes_sink" where
  \<comment> \<open>\<open>#increaseCurrentDataAreaSize\<close>\<close>
  "bk_increase amount s = s\<lparr>bk_area := (bk_area s)\<lparr>ar_size := ar_size (bk_area s) + amount\<rparr>\<rparr>"

definition bk_bytes :: "evm_val \<Rightarrow> bytes_sink \<Rightarrow> bytes_sink result" where
  "bk_bytes val s =
     rbind (bk_toBytes val) (\<lambda>bs.
     rbind (bk_u32 (int (length bs)) s) (\<lambda>s.
       let reservedSize = (length bs + (WORD_SIZE - 1)) div WORD_SIZE * WORD_SIZE
       in rbind (bk_reserve reservedSize s) (\<lambda>s.
          rbind (buf_set (bk_buf s) bs (bk_pos s)) (\<lambda>buf.
            Inr (bk_increase (reservedSize + WORD_SIZE)
              (s\<lparr>bk_buf := buf, bk_pos := bk_pos s + reservedSize\<rparr>))))))"

definition bk_staticBytes :: "nat \<Rightarrow> evm_val \<Rightarrow> bytes_sink \<Rightarrow> bytes_sink result" where
  "bk_staticBytes len val s =
     (if len > 32 then Inl (ThrownError ''is not a valid type'')
      else rbind (bk_toBytes val) (\<lambda>bs.
        if length bs > len then Inl (ThrownError ''invalid data sz'')
        else rbind (bk_reserve WORD_SIZE s) (\<lambda>s.
          rbind (buf_set (bk_buf s) bs (bk_pos s)) (\<lambda>buf.
            Inr (s\<lparr>bk_buf := buf, bk_pos := bk_pos s + WORD_SIZE\<rparr>)))))"

text \<open>The fallback of \<open>address\<close>: any text that \<open>BigInt\<close> reads. The fast path leaves what it has stored when
  it finds fewer than twenty bytes; the fallback then overwrites the word or throws.\<close>

definition bk_address :: "jstr \<Rightarrow> bytes_sink \<Rightarrow> bytes_sink result" where
  "bk_address val s =
     (let units = utf16 val;
          fallback = (\<lambda>s. rbind (of_option SyntaxError (js_BigInt val)) (\<lambda>n. bk_u256 n s))
      in if length units = 42 \<and> units ! 0 = 0x30 \<and> units ! 1 = 0x78
         then rbind (bk_reserve WORD_SIZE s) (\<lambda>s.
              rbind (buf_set (bk_buf s) (replicate 12 0) (bk_pos s)) (\<lambda>buf.
                let bs = take 20 (bytes_of_hex (drop 2 units))
                in rbind (buf_set buf bs (bk_pos s + 12)) (\<lambda>buf.
                   if length bs = 20 then Inr (s\<lparr>bk_buf := buf, bk_pos := bk_pos s + WORD_SIZE\<rparr>)
                   else fallback (s\<lparr>bk_buf := buf\<rparr>))))
         else fallback s)"

definition bk_string :: "jstr \<Rightarrow> bytes_sink \<Rightarrow> bytes_sink result" where
  "bk_string val = bk_bytes (EBytes (UTF8_ENCODER_encode val))"

definition bk_bool :: "bool \<Rightarrow> bytes_sink \<Rightarrow> bytes_sink result" where
  "bk_bool val = bk_u8 (if val then 1 else 0)"

text \<open>\<open>#u32Raw\<close> stores the last four bytes of a word, without a check of the bounds.\<close>

definition bk_u32Raw :: "nat \<Rightarrow> bytes_sink \<Rightarrow> bytes_sink result" where
  "bk_u32Raw val s = bk_put (be_bytes 4 (int val)) (s\<lparr>bk_pos := bk_pos s + WORD_SIZE - 4\<rparr>)"

definition bk_pushDataArea :: "nat \<Rightarrow> nat \<Rightarrow> bool \<Rightarrow> bytes_sink \<Rightarrow> bytes_sink result" where
  "bk_pushDataArea dataAreaStart slotsCount countWord s =
     (let sz = slotsCount * WORD_SIZE
      in rbind (bk_reserve (dataAreaStart + sz) s) (\<lambda>s.
         Inr (s\<lparr>bk_area := \<lparr>ar_start = dataAreaStart, ar_jumpBackPtr = bk_pos s, ar_size = sz,
                  ar_countWord = countWord\<rparr>,
                bk_below := bk_area s # bk_below s\<rparr>)))"

definition bk_openTail :: "nat \<Rightarrow> bytes_sink \<Rightarrow> bytes_sink result" where
  "bk_openTail slotsCount s =
     (let offset = bk_size s
      in rbind (bk_reserve WORD_SIZE s) (\<lambda>s.
         rbind (bk_u32Raw offset s) (\<lambda>s.
           let dataAreaStart = ar_start (bk_area s)
           in rbind (bk_pushDataArea (dataAreaStart + offset) slotsCount False s) (\<lambda>s.
              Inr (s\<lparr>bk_pos := dataAreaStart + offset\<rparr>)))))"

definition bk_openArray :: "nat \<Rightarrow> bytes_sink \<Rightarrow> bytes_sink result" where
  "bk_openArray cnt s =
     (let offset = bk_size s
      in rbind (bk_reserve WORD_SIZE s) (\<lambda>s.
         rbind (bk_u32Raw offset s) (\<lambda>s.
           let dataAreaStart = ar_start (bk_area s)
           in rbind (bk_pushDataArea (dataAreaStart + offset + WORD_SIZE) cnt True s) (\<lambda>s.
              rbind (bk_reserve WORD_SIZE (s\<lparr>bk_pos := dataAreaStart + offset\<rparr>)) (bk_u32Raw cnt)))))"

definition bk_closeTail :: "bytes_sink \<Rightarrow> bytes_sink result" where
  "bk_closeTail s =
     rbind (js_assert (bk_below s \<noteq> [])) (\<lambda>_.
       let a = bk_area s
       in Inr ((bk_increase (ar_size a + (if ar_countWord a then WORD_SIZE else 0))
            (s\<lparr>bk_area := hd (bk_below s), bk_below := tl (bk_below s)\<rparr>))\<lparr>bk_pos := ar_jumpBackPtr a\<rparr>))"

definition bytes_sink_ops :: "bytes_sink evm_sink" where
  "bytes_sink_ops =
     \<lparr>s_u8 = bk_u8, s_i8 = bk_i8, s_u16 = bk_u16, s_i16 = bk_i16, s_u32 = bk_u32, s_i32 = bk_i32,
      s_u64 = bk_u64, s_i64 = bk_i64, s_u128 = bk_u128, s_i128 = bk_i128, s_u256 = bk_u256,
      s_i256 = bk_i256, s_bool = bk_bool, s_bytes = bk_bytes, s_staticBytes = bk_staticBytes,
      s_address = bk_address, s_string = bk_string, s_openTail = bk_openTail,
      s_openArray = bk_openArray, s_closeTail = bk_closeTail, s_toString = bk_toString\<rparr>"

section \<open>HexSink\<close>

text \<open>
  The buffer holds character codes, two for a byte. An assignment to an index past its end is ignored
  and a code is stored modulo 256. Values are below \<open>2\<^sup>3\<^sup>1\<close> bytes, so that the shifts by five are a division.
\<close>

record hex_sink =
  hk_pos :: nat
  hk_buf :: "nat list"
  hk_area :: area
  hk_below :: "area list"

fun poke :: "nat list \<Rightarrow> nat \<Rightarrow> nat list \<Rightarrow> nat list" where
  "poke buf i [] = buf"
| "poke buf i (c # cs) = poke (buf[i := c mod 256]) (Suc i) cs"

definition HexSink_new :: "nat \<Rightarrow> nat \<Rightarrow> hex_sink" where
  "HexSink_new nfields capacity =
     \<lparr>hk_pos = 0, hk_buf = replicate (capacity * 2) 48,
      hk_area = \<lparr>ar_start = 0, ar_jumpBackPtr = 0, ar_size = nfields * WORD_SIZE, ar_countWord = False\<rparr>,
      hk_below = []\<rparr>"

definition HexSink_default :: "nat \<Rightarrow> hex_sink" where
  "HexSink_default nfields = HexSink_new nfields (max (nfields * WORD_SIZE) 1280)"

definition hk_size :: "hex_sink \<Rightarrow> nat" where
  "hk_size s = ar_size (hk_area s)"

definition hk_result :: "hex_sink \<Rightarrow> jstr result" where
  "hk_result s =
     rbind (js_assert (hk_below s = [])) (\<lambda>_. Inr (js ''0x'' @ take (hk_size s * 2) (hk_buf s)))"

definition hk_allocate :: "nat \<Rightarrow> hex_sink \<Rightarrow> hex_sink" where
  "hk_allocate cap s =
     s\<lparr>hk_buf := hk_buf s @ replicate (max cap (length (hk_buf s) * 2) - length (hk_buf s)) 48\<rparr>"

definition hk_reserve :: "nat \<Rightarrow> hex_sink \<Rightarrow> hex_sink" where
  "hk_reserve additional s =
     (let needed = (hk_pos s + additional) * 2
      in if length (hk_buf s) < needed then hk_allocate needed s else s)"

definition hk_writeWordRight :: "nat list \<Rightarrow> hex_sink \<Rightarrow> hex_sink result" where
  "hk_writeWordRight hex s =
     rbind (js_assert (length hex \<le> 64)) (\<lambda>_.
       Inr (s\<lparr>hk_buf := poke (hk_buf s) (hk_pos s * 2 + 64 - length hex) hex, hk_pos := hk_pos s + WORD_SIZE\<rparr>))"

definition lower_hex :: "nat \<Rightarrow> nat" where
  "lower_hex c = (if 65 \<le> c \<and> c \<le> 70 then c + 32 else c)"

definition hk_copyHexLower :: "nat list \<Rightarrow> nat \<Rightarrow> nat \<Rightarrow> nat \<Rightarrow> hex_sink \<Rightarrow> hex_sink" where
  "hk_copyHexLower hex srcStart dstStart len s =
     s\<lparr>hk_buf := poke (hk_buf s) dstStart (map lower_hex (take len (drop srcStart hex)))\<rparr>"

definition hk_encodeBytes :: "byte list \<Rightarrow> nat \<Rightarrow> hex_sink \<Rightarrow> hex_sink" where
  "hk_encodeBytes src dstStart s = s\<lparr>hk_buf := poke (hk_buf s) dstStart (hex_of_bytes src)\<rparr>"

text \<open>\<open>buf.write(hex, dst, length, 'latin1')\<close>\<close>

definition hk_write :: "nat list \<Rightarrow> nat \<Rightarrow> hex_sink \<Rightarrow> hex_sink result" where
  "hk_write hex dst s =
     (if dst > length (hk_buf s) then Inl RangeError else Inr (s\<lparr>hk_buf := poke (hk_buf s) dst hex\<rparr>))"

definition hk_unsigned :: "nat \<Rightarrow> int \<Rightarrow> hex_sink \<Rightarrow> hex_sink result" where
  "hk_unsigned n val s =
     (if \<not> in_unsigned n val then oob
      else hk_writeWordRight (toString_radix 16 val) (hk_reserve WORD_SIZE s))"

definition hk_i256Raw :: "int \<Rightarrow> hex_sink \<Rightarrow> hex_sink result" where
  "hk_i256Raw val s =
     (let uval = (if val \<ge> 0 then val else val + U256_BASE)
      in hk_writeWordRight (toString_radix 16 uval) (hk_reserve WORD_SIZE s))"

definition hk_signed :: "nat \<Rightarrow> int \<Rightarrow> hex_sink \<Rightarrow> hex_sink result" where
  "hk_signed n val s = (if \<not> in_signed n val then oob else hk_i256Raw val s)"

definition hk_u32Raw :: "nat \<Rightarrow> hex_sink \<Rightarrow> hex_sink result" where
  "hk_u32Raw val = hk_writeWordRight (toString_radix 16 (int val))"

definition hk_increase :: "nat \<Rightarrow> hex_sink \<Rightarrow> hex_sink" where
  "hk_increase amount s = s\<lparr>hk_area := (hk_area s)\<lparr>ar_size := ar_size (hk_area s) + amount\<rparr>\<rparr>"

definition hk_bytes :: "evm_val \<Rightarrow> hex_sink \<Rightarrow> hex_sink result" where
  "hk_bytes val s =
     (let finish = (\<lambda>reservedSize s.
            hk_increase (reservedSize + WORD_SIZE) (s\<lparr>hk_pos := hk_pos s + reservedSize\<rparr>))
      in case val of
        EStr t \<Rightarrow>
          if \<not> isHex (JStr t) then Inl (ThrownError ''Expected hex string or Uint8Array'')
          else
            let nibbles = length t - 2; sz = nibbles div 2;
                reservedSize = (sz + WORD_SIZE - 1) div 32 * 32
            in rbind (hk_unsigned 4 (int sz) s) (\<lambda>s.
               let s = hk_reserve reservedSize s; dst = hk_pos s * 2
               in rbind (if nibbles \<ge> 128 then hk_write (map lower_hex (drop 2 t)) dst s
                         else Inr (hk_copyHexLower t 2 dst nibbles s)) (\<lambda>s.
                  Inr (finish reservedSize s)))
      | EBytes b \<Rightarrow>
          let sz = length b; reservedSize = (sz + WORD_SIZE - 1) div 32 * 32
          in rbind (hk_unsigned 4 (int sz) s) (\<lambda>s.
             let s = hk_reserve reservedSize s; dst = hk_pos s * 2
             in rbind (if sz \<ge> 64 then hk_write (hex_of_bytes b) dst s
                       else Inr (hk_encodeBytes b dst s)) (\<lambda>s.
                Inr (finish reservedSize s)))
      | _ \<Rightarrow> Inl TypeError)"

definition hk_staticBytes :: "nat \<Rightarrow> evm_val \<Rightarrow> hex_sink \<Rightarrow> hex_sink result" where
  "hk_staticBytes len val s =
     (if len > 32 then Inl (ThrownError ''is not a valid type'')
      else
        let s = hk_reserve WORD_SIZE s
        in case val of
          EStr t \<Rightarrow>
            if \<not> isHex (JStr t) then Inl (ThrownError ''Expected hex string or Uint8Array'')
            else if length t - 2 > len * 2 then Inl (ThrownError ''invalid data sz'')
            else Inr ((hk_copyHexLower t 2 (hk_pos s * 2) (length t - 2) s)\<lparr>hk_pos := hk_pos s + WORD_SIZE\<rparr>)
        | EBytes b \<Rightarrow>
            if length b > len then Inl (ThrownError ''invalid data sz'')
            else Inr ((hk_encodeBytes b (hk_pos s * 2) s)\<lparr>hk_pos := hk_pos s + WORD_SIZE\<rparr>)
        | _ \<Rightarrow> Inl TypeError)"

definition hk_address :: "jstr \<Rightarrow> hex_sink \<Rightarrow> hex_sink result" where
  "hk_address val s =
     (let units = utf16 val
      in if length units = 42 \<and> units ! 0 = 0x30 \<and> units ! 1 = 0x78
         then let s = hk_reserve WORD_SIZE s
              in Inr ((hk_copyHexLower units 2 (hk_pos s * 2 + 24) 40 s)\<lparr>hk_pos := hk_pos s + WORD_SIZE\<rparr>)
         else rbind (of_option SyntaxError (js_BigInt val)) (\<lambda>n. hk_unsigned 32 n s))"

definition hk_string :: "jstr \<Rightarrow> hex_sink \<Rightarrow> hex_sink result" where
  "hk_string val = hk_bytes (EBytes (UTF8_ENCODER_encode val))"

definition hk_bool :: "bool \<Rightarrow> hex_sink \<Rightarrow> hex_sink result" where
  "hk_bool val = hk_unsigned 1 (if val then 1 else 0)"

definition hk_pushDataArea :: "nat \<Rightarrow> nat \<Rightarrow> bool \<Rightarrow> hex_sink \<Rightarrow> hex_sink" where
  "hk_pushDataArea dataAreaStart slotsCount countWord s =
     (let sz = slotsCount * WORD_SIZE; s = hk_reserve (dataAreaStart + sz) s
      in s\<lparr>hk_area := \<lparr>ar_start = dataAreaStart, ar_jumpBackPtr = hk_pos s, ar_size = sz,
             ar_countWord = countWord\<rparr>,
           hk_below := hk_area s # hk_below s\<rparr>)"

definition hk_openTail :: "nat \<Rightarrow> hex_sink \<Rightarrow> hex_sink result" where
  "hk_openTail slotsCount s =
     (let offset = hk_size s
      in rbind (hk_u32Raw offset (hk_reserve WORD_SIZE s)) (\<lambda>s.
         let dataAreaStart = ar_start (hk_area s)
         in Inr ((hk_pushDataArea (dataAreaStart + offset) slotsCount False s)
              \<lparr>hk_pos := dataAreaStart + offset\<rparr>)))"

definition hk_openArray :: "nat \<Rightarrow> hex_sink \<Rightarrow> hex_sink result" where
  "hk_openArray cnt s =
     (let offset = hk_size s
      in rbind (hk_u32Raw offset (hk_reserve WORD_SIZE s)) (\<lambda>s.
         let dataAreaStart = ar_start (hk_area s);
             s = hk_pushDataArea (dataAreaStart + offset + WORD_SIZE) cnt True s
         in hk_u32Raw cnt (hk_reserve WORD_SIZE (s\<lparr>hk_pos := dataAreaStart + offset\<rparr>))))"

definition hk_closeTail :: "hex_sink \<Rightarrow> hex_sink result" where
  "hk_closeTail s =
     rbind (js_assert (hk_below s \<noteq> [])) (\<lambda>_.
       let a = hk_area s
       in Inr ((hk_increase (ar_size a + (if ar_countWord a then WORD_SIZE else 0))
            (s\<lparr>hk_area := hd (hk_below s), hk_below := tl (hk_below s)\<rparr>))\<lparr>hk_pos := ar_jumpBackPtr a\<rparr>))"

definition hex_sink_ops :: "hex_sink evm_sink" where
  "hex_sink_ops =
     \<lparr>s_u8 = hk_unsigned 1, s_i8 = hk_signed 1, s_u16 = hk_unsigned 2, s_i16 = hk_signed 2,
      s_u32 = hk_unsigned 4, s_i32 = hk_signed 4, s_u64 = hk_unsigned 8, s_i64 = hk_signed 8,
      s_u128 = hk_unsigned 16, s_i128 = hk_signed 16, s_u256 = hk_unsigned 32, s_i256 = hk_signed 32,
      s_bool = hk_bool, s_bytes = hk_bytes, s_staticBytes = hk_staticBytes, s_address = hk_address,
      s_string = hk_string, s_openTail = hk_openTail, s_openArray = hk_openArray,
      s_closeTail = hk_closeTail, s_toString = hk_result\<rparr>"

end
