(* ===== verification/Evm_Src.thy ===== *)
theory Evm_Src
  imports Evm_Sink
begin

text \<open>
  The decoder back ends of the EVM codec, \<open>evm/evm-codec/src/src\<close>: \<open>BytesSrc\<close> reads the words of the contract
  ABI from a byte array (\<open>bytes.ts\<close>), \<open>HexSrc\<close> from a hexadecimal text (\<open>hex.ts\<close>); both implement the
  interface \<open>Src\<close> of \<open>codec.ts\<close>, the record \<open>evm_src\<close> of operations.

  A byte array is a window of an \<open>ArrayBuffer\<close>, which its bytes may outlive. A position is a number that may
  be \<open>NaN\<close>, since \<open>parseInt\<close> may give it. The text of a \<open>HexSrc\<close> is the list of its code units.
\<close>

section \<open>The interface\<close>

record 's evm_src =
  r_u8 :: "'s \<Rightarrow> (jsnum \<times> 's) result"
  r_i8 :: "'s \<Rightarrow> (jsnum \<times> 's) result"
  r_u16 :: "'s \<Rightarrow> (jsnum \<times> 's) result"
  r_i16 :: "'s \<Rightarrow> (jsnum \<times> 's) result"
  r_u32 :: "'s \<Rightarrow> (jsnum \<times> 's) result"
  r_i32 :: "'s \<Rightarrow> (jsnum \<times> 's) result"
  r_u64 :: "'s \<Rightarrow> (int \<times> 's) result"
  r_i64 :: "'s \<Rightarrow> (int \<times> 's) result"
  r_u128 :: "'s \<Rightarrow> (int \<times> 's) result"
  r_i128 :: "'s \<Rightarrow> (int \<times> 's) result"
  r_u256 :: "'s \<Rightarrow> (int \<times> 's) result"
  r_i256 :: "'s \<Rightarrow> (int \<times> 's) result"
  r_bool :: "'s \<Rightarrow> (bool \<times> 's) result"
  r_bytes :: "'s \<Rightarrow> (byte list \<times> 's) result"
  r_bytesHex :: "'s \<Rightarrow> (jstr \<times> 's) result"
  r_staticBytes :: "nat \<Rightarrow> 's \<Rightarrow> (byte list \<times> 's) result"
  r_staticBytesHex :: "nat \<Rightarrow> 's \<Rightarrow> (jstr \<times> 's) result"
  r_address :: "'s \<Rightarrow> (jstr \<times> 's) result"
  r_string :: "'s \<Rightarrow> (jstr \<times> 's) result"
  r_slice :: "jsnum \<Rightarrow> 's \<Rightarrow> 's"
  r_jump :: "jsnum \<Rightarrow> 's \<Rightarrow> 's result"
  r_jumpBack :: "'s \<Rightarrow> 's"

definition be_val :: "byte list \<Rightarrow> int" where
  "be_val bs = le_val (rev bs)"

definition unexpected :: "'a result" where
  \<comment> \<open>an unexpected pointer location, or an unexpected end of input\<close>
  "unexpected = Inl RangeError"

text \<open>\<open>new TextDecoder('utf-8').decode\<close>: ill-formed input is replaced, a leading byte order mark dropped.\<close>

definition TEXT_DECODER_decode :: "byte list \<Rightarrow> jstr" where
  "TEXT_DECODER_decode bs =
     (case utf8_toString (map unat bs) of c # rest \<Rightarrow> if c = BOM then rest else c # rest | [] \<Rightarrow> [])"

section \<open>BytesSrc\<close>

record bytes_src =
  br_arr :: "byte list"
  br_off :: nat
  br_len :: nat
  br_pos :: jsnum
  br_oldPos :: jsnum

definition BytesSrc_new :: "byte list \<Rightarrow> nat \<Rightarrow> nat \<Rightarrow> bytes_src" where
  "BytesSrc_new arr off len = \<lparr>br_arr = arr, br_off = off, br_len = len, br_pos = Some 0, br_oldPos = Some 0\<rparr>"

definition br_buf :: "bytes_src \<Rightarrow> byte list" where
  "br_buf s = take (br_len s) (drop (br_off s) (br_arr s))"

definition br_slice :: "jsnum \<Rightarrow> jsnum option \<Rightarrow> bytes_src \<Rightarrow> bytes_src" where
  "br_slice st en s =
     (let i = rel_index (br_len s) st; j = (case en of None \<Rightarrow> br_len s | Some e \<Rightarrow> rel_index (br_len s) e)
      in BytesSrc_new (br_arr s) (br_off s + i) (j - i))"

text \<open>\<open>n\<close> bytes of the view at a position: the index \<open>NaN\<close> is zero.\<close>

definition br_view :: "jsnum \<Rightarrow> nat \<Rightarrow> bytes_src \<Rightarrow> int result" where
  "br_view p n s =
     (let i = (case p of None \<Rightarrow> 0 | Some i \<Rightarrow> i)
      in if 0 \<le> i \<and> nat i + n \<le> br_len s then Inr (be_val (take n (drop (nat i) (br_buf s)))) else Inl RangeError)"

definition br_advance :: "int \<Rightarrow> bytes_src \<Rightarrow> bytes_src" where
  "br_advance n s = s\<lparr>br_pos := nplus (br_pos s) n\<rparr>"

text \<open>Skip the upper part of a word and read the last \<open>n\<close> bytes.\<close>

definition br_right :: "nat \<Rightarrow> bytes_src \<Rightarrow> (int \<times> bytes_src) result" where
  "br_right n s =
     (let s = br_advance (int (WORD_SIZE - n)) s
      in rbind (br_view (br_pos s) n s) (\<lambda>val. Inr (val, br_advance (int n) s)))"

definition br_number :: "(bytes_src \<Rightarrow> (int \<times> bytes_src) result) \<Rightarrow> bytes_src \<Rightarrow> (jsnum \<times> bytes_src) result" where
  "br_number f s = rbind (f s) (\<lambda>(val, s). Inr (Some val, s))"

definition br_u8 :: "bytes_src \<Rightarrow> (jsnum \<times> bytes_src) result" where
  "br_u8 = br_number (br_right 1)"

definition br_u16 :: "bytes_src \<Rightarrow> (jsnum \<times> bytes_src) result" where
  "br_u16 = br_number (br_right 2)"

definition br_u32 :: "bytes_src \<Rightarrow> (jsnum \<times> bytes_src) result" where
  "br_u32 = br_number (br_right 4)"

definition br_u64 :: "bytes_src \<Rightarrow> (int \<times> bytes_src) result" where
  "br_u64 = br_right 8"

text \<open>A raw value that is not below the sign bit is negative: \<open>signed_val\<close>.\<close>

definition br_i64 :: "bytes_src \<Rightarrow> (int \<times> bytes_src) result" where
  "br_i64 s = rbind (br_right 8 s) (\<lambda>(raw, s). Inr (signed_val 64 raw, s))"

definition br_u128Raw :: "bytes_src \<Rightarrow> (int \<times> bytes_src) result" where
  "br_u128Raw s =
     rbind (br_view (br_pos s) 8 s) (\<lambda>hi.
     rbind (br_view (nplus (br_pos s) 8) 8 s) (\<lambda>lo.
       Inr (or (push_bit 64 hi) lo, br_advance 16 s)))"

definition br_u128 :: "bytes_src \<Rightarrow> (int \<times> bytes_src) result" where
  "br_u128 s = br_u128Raw (br_advance (int (WORD_SIZE - 16)) s)"

definition br_i128 :: "bytes_src \<Rightarrow> (int \<times> bytes_src) result" where
  "br_i128 s = rbind (br_u128 s) (\<lambda>(raw, s). Inr (signed_val 128 raw, s))"

definition br_u256 :: "bytes_src \<Rightarrow> (int \<times> bytes_src) result" where
  "br_u256 s =
     rbind (br_u128Raw s) (\<lambda>(hi, s). rbind (br_u128Raw s) (\<lambda>(lo, s). Inr (or (push_bit 128 hi) lo, s)))"

definition br_i256 :: "bytes_src \<Rightarrow> (int \<times> bytes_src) result" where
  "br_i256 s = rbind (br_u256 s) (\<lambda>(raw, s). Inr (signed_val 256 raw, s))"

text \<open>\<open>Number(this.i256())\<close>\<close>

definition br_small_signed :: "bytes_src \<Rightarrow> (jsnum \<times> bytes_src) result" where
  "br_small_signed s = rbind (br_i256 s) (\<lambda>(val, s). Inr (Some (js_Number val), s))"

text \<open>\<open>toHex(this.buf, start, size)\<close> looks at the whole \<open>ArrayBuffer\<close>.\<close>

definition br_toHex :: "jsnum \<Rightarrow> nat \<Rightarrow> bytes_src \<Rightarrow> jstr result" where
  "br_toHex start sz s =
     (let i = int (br_off s) + (case start of None \<Rightarrow> - int (br_off s) | Some i \<Rightarrow> i)
      in if 0 \<le> i \<and> nat i + sz \<le> length (br_arr s) then Inr (toHex (br_arr s) (nat i) sz) else Inl RangeError)"

definition br_address :: "bytes_src \<Rightarrow> (jstr \<times> bytes_src) result" where
  "br_address s =
     (let start = nplus (br_pos s) (int (WORD_SIZE - 20)); s = br_advance (int WORD_SIZE) s
      in rbind (br_toHex start 20 s) (\<lambda>val. Inr (val, s)))"

definition br_jump :: "jsnum \<Rightarrow> bytes_src \<Rightarrow> bytes_src result" where
  "br_jump pos s =
     (if (case pos of None \<Rightarrow> False | Some p \<Rightarrow> p < 0 \<or> p \<ge> int (br_len s)) then unexpected
      else Inr (s\<lparr>br_oldPos := br_pos s, br_pos := pos\<rparr>))"

definition br_jumpBack :: "bytes_src \<Rightarrow> bytes_src" where
  "br_jumpBack s = s\<lparr>br_pos := br_oldPos s\<rparr>"

definition br_assertLength :: "int \<Rightarrow> bytes_src \<Rightarrow> unit result" where
  "br_assertLength len s =
     (if (case br_pos s of None \<Rightarrow> False | Some p \<Rightarrow> int (br_len s) - p < len) then unexpected else Inr ())"

text \<open>Follow the pointer of a dynamic value and read its length.\<close>

definition br_pointer :: "bytes_src \<Rightarrow> (int \<times> bytes_src) result" where
  "br_pointer s =
     rbind (br_u32 s) (\<lambda>(ptr, s).
     rbind (br_jump ptr s) (\<lambda>s.
     rbind (br_u256 s) (\<lambda>(len, s).
     rbind (br_assertLength (js_Number len) s) (\<lambda>_. Inr (js_Number len, s)))))"

definition br_subarray :: "jsnum \<Rightarrow> int \<Rightarrow> bytes_src \<Rightarrow> byte list" where
  "br_subarray p n s = str_slice (br_buf s) p (nplus p n)"

definition br_bytes :: "bytes_src \<Rightarrow> (byte list \<times> bytes_src) result" where
  "br_bytes s =
     rbind (br_pointer s) (\<lambda>(len, s). Inr (br_subarray (br_pos s) len s, br_jumpBack s))"

definition br_bytesHex :: "bytes_src \<Rightarrow> (jstr \<times> bytes_src) result" where
  "br_bytesHex s =
     rbind (br_pointer s) (\<lambda>(len, s). rbind (br_toHex (br_pos s) (nat len) s) (\<lambda>val. Inr (val, br_jumpBack s)))"

definition br_staticBytes :: "nat \<Rightarrow> bytes_src \<Rightarrow> (byte list \<times> bytes_src) result" where
  "br_staticBytes len s =
     (if len > 32 then Inl (ThrownError ''is not a valid type'')
      else Inr (br_subarray (br_pos s) (int len) s, br_advance (int WORD_SIZE) s))"

definition br_staticBytesHex :: "nat \<Rightarrow> bytes_src \<Rightarrow> (jstr \<times> bytes_src) result" where
  "br_staticBytesHex len s =
     (if len > 32 then Inl (ThrownError ''is not a valid type'')
      else
        let start = br_pos s; s = br_advance (int WORD_SIZE) s
        in rbind (br_toHex start len s) (\<lambda>val. Inr (val, s)))"

definition br_string :: "bytes_src \<Rightarrow> (jstr \<times> bytes_src) result" where
  "br_string s =
     rbind (br_pointer s) (\<lambda>(len, s).
       Inr (TEXT_DECODER_decode (br_subarray (br_pos s) len s), br_jumpBack s))"

definition br_bool :: "bytes_src \<Rightarrow> (bool \<times> bytes_src) result" where
  "br_bool s = rbind (br_u8 s) (\<lambda>(val, s). Inr (val \<noteq> Some 0 \<and> val \<noteq> None, s))"

definition bytes_src_ops :: "bytes_src evm_src" where
  "bytes_src_ops =
     \<lparr>r_u8 = br_u8, r_i8 = br_small_signed, r_u16 = br_u16, r_i16 = br_small_signed, r_u32 = br_u32,
      r_i32 = br_small_signed, r_u64 = br_u64, r_i64 = br_i64, r_u128 = br_u128, r_i128 = br_i128,
      r_u256 = br_u256, r_i256 = br_i256, r_bool = br_bool, r_bytes = br_bytes, r_bytesHex = br_bytesHex,
      r_staticBytes = br_staticBytes, r_staticBytesHex = br_staticBytesHex, r_address = br_address,
      r_string = br_string, r_slice = (\<lambda>st. br_slice st None), r_jump = br_jump, r_jumpBack = br_jumpBack\<rparr>"

section \<open>HexSrc\<close>

record hex_src =
  hr_buf :: "nat list"
  hr_base :: jsnum
  hr_end :: nat
  hr_pos :: jsnum
  hr_oldPos :: jsnum

definition HexSrc_new :: "nat list \<Rightarrow> jsnum \<Rightarrow> nat \<Rightarrow> hex_src" where
  "HexSrc_new hex strOffset strEnd =
     \<lparr>hr_buf = hex, hr_base = strOffset, hr_end = strEnd, hr_pos = strOffset, hr_oldPos = strOffset\<rparr>"

definition hr_slice :: "jsnum \<Rightarrow> hex_src \<Rightarrow> hex_src" where
  "hr_slice start s =
     HexSrc_new (hr_buf s)
       (case (hr_base s, start) of (Some b, Some i) \<Rightarrow> Some (b + 2 * i) | _ \<Rightarrow> None) (hr_end s)"

text \<open>\<open>n\<close> digits of the text, \<open>skip\<close> digits behind the position.\<close>

definition hr_digits :: "int \<Rightarrow> int \<Rightarrow> hex_src \<Rightarrow> nat list" where
  "hr_digits skip n s = str_slice (hr_buf s) (nplus (hr_pos s) skip) (nplus (hr_pos s) (skip + n))"

definition hr_advance :: "hex_src \<Rightarrow> hex_src" where
  "hr_advance s = s\<lparr>hr_pos := nplus (hr_pos s) 64\<rparr>"

text \<open>\<open>Number.parseInt\<close> of the last \<open>n\<close> digits of a word.\<close>

definition hr_parse :: "nat \<Rightarrow> hex_src \<Rightarrow> (jsnum \<times> hex_src) result" where
  "hr_parse n s = Inr (parseInt16 (hr_digits (64 - int n) (int n) s), hr_advance s)"

text \<open>\<open>BigInt\<close> of the last \<open>n\<close> digits of a word.\<close>

definition hr_big :: "nat \<Rightarrow> hex_src \<Rightarrow> (int \<times> hex_src) result" where
  "hr_big n s =
     rbind (of_option SyntaxError (js_BigInt (js ''0x'' @ hr_digits (64 - int n) (int n) s)))
       (\<lambda>val. Inr (val, hr_advance s))"

definition hr_big_signed :: "nat \<Rightarrow> hex_src \<Rightarrow> (int \<times> hex_src) result" where
  "hr_big_signed n s = rbind (hr_big n s) (\<lambda>(raw, s). Inr (signed_val (4 * n) raw, s))"

definition hr_small_signed :: "hex_src \<Rightarrow> (jsnum \<times> hex_src) result" where
  "hr_small_signed s = rbind (hr_big_signed 64 s) (\<lambda>(val, s). Inr (Some (js_Number val), s))"

definition hr_address :: "hex_src \<Rightarrow> (jstr \<times> hex_src) result" where
  "hr_address s = Inr (js ''0x'' @ hr_digits 24 40 s, hr_advance s)"

text \<open>The target of a jump is past the end or not; a target that is not a number is neither.\<close>

definition hr_jump :: "jsnum \<Rightarrow> hex_src \<Rightarrow> hex_src result" where
  "hr_jump pos s =
     (let target = (case (hr_base s, pos) of (Some b, Some p) \<Rightarrow> Some (b + 2 * p) | _ \<Rightarrow> None)
      in if (case pos of None \<Rightarrow> False | Some p \<Rightarrow> p < 0) \<or>
            (case target of None \<Rightarrow> False | Some t \<Rightarrow> t \<ge> int (hr_end s)) then unexpected
         else Inr (s\<lparr>hr_oldPos := hr_pos s, hr_pos := target\<rparr>))"

definition hr_jumpBack :: "hex_src \<Rightarrow> hex_src" where
  "hr_jumpBack s = s\<lparr>hr_pos := hr_oldPos s\<rparr>"

definition hr_assertLength :: "int \<Rightarrow> hex_src \<Rightarrow> unit result" where
  "hr_assertLength len s =
     (if (case hr_pos s of None \<Rightarrow> False | Some p \<Rightarrow> int (hr_end s) - p < 2 * len) then unexpected else Inr ())"

definition hr_pointer :: "hex_src \<Rightarrow> (int \<times> hex_src) result" where
  "hr_pointer s =
     rbind (hr_parse 8 s) (\<lambda>(ptr, s).
     rbind (hr_jump ptr s) (\<lambda>s.
     rbind (hr_big 64 s) (\<lambda>(len, s).
     rbind (hr_assertLength (js_Number len) s) (\<lambda>_. Inr (js_Number len, s)))))"

definition hr_bytes :: "hex_src \<Rightarrow> (byte list \<times> hex_src) result" where
  "hr_bytes s =
     rbind (hr_pointer s) (\<lambda>(len, s). Inr (bytes_of_hex (hr_digits 0 (2 * len) s), hr_jumpBack s))"

definition hr_bytesHex :: "hex_src \<Rightarrow> (jstr \<times> hex_src) result" where
  "hr_bytesHex s =
     rbind (hr_pointer s) (\<lambda>(len, s). Inr (js ''0x'' @ hr_digits 0 (2 * len) s, hr_jumpBack s))"

definition hr_staticBytes :: "nat \<Rightarrow> hex_src \<Rightarrow> (byte list \<times> hex_src) result" where
  "hr_staticBytes len s =
     (if len > 32 then Inl (ThrownError ''is not a valid type'')
      else Inr (bytes_of_hex (hr_digits 0 (2 * int len) s), hr_advance s))"

definition hr_staticBytesHex :: "nat \<Rightarrow> hex_src \<Rightarrow> (jstr \<times> hex_src) result" where
  "hr_staticBytesHex len s =
     (if len > 32 then Inl (ThrownError ''is not a valid type'')
      else Inr (js ''0x'' @ hr_digits 0 (2 * int len) s, hr_advance s))"

definition hr_string :: "hex_src \<Rightarrow> (jstr \<times> hex_src) result" where
  "hr_string s =
     rbind (hr_pointer s) (\<lambda>(len, s).
       Inr (TEXT_DECODER_decode (bytes_of_hex (hr_digits 0 (2 * len) s)), hr_jumpBack s))"

definition hr_bool :: "hex_src \<Rightarrow> (bool \<times> hex_src) result" where
  "hr_bool s =
     (let a = charCodeAt (hr_buf s) (nplus (hr_pos s) 62); b = charCodeAt (hr_buf s) (nplus (hr_pos s) 63)
      in Inr (a \<noteq> Some 48 \<or> b \<noteq> Some 48, hr_advance s))"

definition hex_src_ops :: "hex_src evm_src" where
  "hex_src_ops =
     \<lparr>r_u8 = hr_parse 2, r_i8 = hr_small_signed, r_u16 = hr_parse 4, r_i16 = hr_small_signed,
      r_u32 = hr_parse 8, r_i32 = hr_small_signed, r_u64 = hr_big 16, r_i64 = hr_big_signed 16,
      r_u128 = hr_big 32, r_i128 = hr_big_signed 32, r_u256 = hr_big 64, r_i256 = hr_big_signed 64,
      r_bool = hr_bool, r_bytes = hr_bytes, r_bytesHex = hr_bytesHex, r_staticBytes = hr_staticBytes,
      r_staticBytesHex = hr_staticBytesHex, r_address = hr_address, r_string = hr_string,
      r_slice = hr_slice, r_jump = hr_jump, r_jumpBack = hr_jumpBack\<rparr>"

end
