(* ===== verification/Evm_Sink_Laws.thy ===== *)
theory Evm_Sink_Laws
  imports Evm_Sink
begin

text \<open>
  What the codecs of the EVM rely on in a sink: the locale \<open>evm_sink_laws\<close> over a view of its state, with the
  position, the data areas and the cells written so far. It is interpreted on both sinks of the source, so that
  whatever is proved of an encoder holds for bytes and for hexadecimal output.
\<close>

section \<open>The view of a sink\<close>

record sink_view =
  sv_pos :: nat
  sv_area :: area
  sv_below :: "area list"
  sv_cells :: "nat \<Rightarrow> byte"
  sv_room :: nat

definition overwrite :: "nat \<Rightarrow> byte list \<Rightarrow> (nat \<Rightarrow> byte) \<Rightarrow> nat \<Rightarrow> byte" where
  "overwrite p bs f i = (if p \<le> i \<and> i < p + length bs then bs ! (i - p) else f i)"

definition blank :: "(nat \<Rightarrow> byte) \<Rightarrow> nat \<Rightarrow> nat \<Rightarrow> bool" where
  "blank f p n \<longleftrightarrow> (\<forall>i. p \<le> i \<and> i < p + n \<longrightarrow> f i = 0)"

abbreviation word_bytes :: "int \<Rightarrow> byte list" where
  "word_bytes v \<equiv> be_bytes 32 v"

definition padded :: "byte list \<Rightarrow> byte list" where
  \<comment> \<open>zeros up to a whole number of words\<close>
  "padded bs = bs @ replicate ((length bs + 31) div 32 * 32 - length bs) 0"

definition grown :: "area \<Rightarrow> nat \<Rightarrow> area" where
  "grown a n = a\<lparr>ar_size := ar_size a + n\<rparr>"

text \<open>Bytes stored at the position, the current area grown by \<open>g\<close>.\<close>

definition stored :: "sink_view \<Rightarrow> byte list \<Rightarrow> nat \<Rightarrow> sink_view \<Rightarrow> bool" where
  "stored V bs g W \<longleftrightarrow>
     sv_pos W = sv_pos V + length bs \<and> sv_area W = grown (sv_area V) g \<and> sv_below W = sv_below V \<and>
     sv_cells W = overwrite (sv_pos V) bs (sv_cells V) \<and> sv_room V \<le> sv_room W \<and> sv_pos W \<le> sv_room W"

definition stores :: "('s \<Rightarrow> bool) \<Rightarrow> ('s \<Rightarrow> sink_view) \<Rightarrow> ('s \<Rightarrow> 's result) \<Rightarrow> byte list \<Rightarrow> nat \<Rightarrow> bool" where
  "stores ok view f bs g \<longleftrightarrow>
     (\<forall>s. ok s \<longrightarrow> blank (sv_cells (view s)) (sv_pos (view s)) (length bs) \<longrightarrow>
        (\<exists>s'. f s = Inr s' \<and> ok s' \<and> stored (view s) bs g (view s')))"

text \<open>The tail of a dynamic value, opened behind the current area.\<close>

definition opened :: "sink_view \<Rightarrow> nat \<Rightarrow> sink_view \<Rightarrow> bool" where
  "opened V n W \<longleftrightarrow>
     (let e = ar_start (sv_area V) + ar_size (sv_area V)
      in sv_pos W = e \<and>
         sv_area W = \<lparr>ar_start = e, ar_jumpBackPtr = sv_pos V + 32, ar_size = 32 * n, ar_countWord = False\<rparr> \<and>
         sv_below W = sv_area V # sv_below V \<and>
         sv_cells W = overwrite (sv_pos V) (word_bytes (int (ar_size (sv_area V)))) (sv_cells V) \<and>
         sv_room V \<le> sv_room W \<and> sv_pos V + 32 \<le> sv_room W)"

definition opened_array :: "sink_view \<Rightarrow> nat \<Rightarrow> sink_view \<Rightarrow> bool" where
  "opened_array V n W \<longleftrightarrow>
     (let e = ar_start (sv_area V) + ar_size (sv_area V)
      in sv_pos W = e + 32 \<and>
         sv_area W =
           \<lparr>ar_start = e + 32, ar_jumpBackPtr = sv_pos V + 32, ar_size = 32 * n, ar_countWord = True\<rparr> \<and>
         sv_below W = sv_area V # sv_below V \<and>
         sv_cells W = overwrite e (word_bytes (int n))
           (overwrite (sv_pos V) (word_bytes (int (ar_size (sv_area V)))) (sv_cells V)) \<and>
         sv_room V \<le> sv_room W \<and> sv_pos V + 32 \<le> sv_room W \<and> e + 32 \<le> sv_room W)"

definition closed :: "sink_view \<Rightarrow> sink_view \<Rightarrow> bool" where
  "closed V W \<longleftrightarrow>
     (let a = sv_area V
      in sv_below V \<noteq> [] \<and> sv_pos W = ar_jumpBackPtr a \<and>
         sv_area W = grown (hd (sv_below V)) (ar_size a + (if ar_countWord a then 32 else 0)) \<and>
         sv_below W = tl (sv_below V) \<and> sv_cells W = sv_cells V \<and> sv_room W = sv_room V)"

text \<open>The bytes of a \<open>bytes\<close> argument, and the twenty bytes that \<open>address\<close> stores.\<close>

definition bytes_arg :: "evm_val \<Rightarrow> byte list option" where
  "bytes_arg v =
     (case v of EStr t \<Rightarrow> if isHex (JStr t) then Some (bytes_of_hex (drop 2 t)) else None
      | EBytes b \<Rightarrow> Some b | _ \<Rightarrow> None)"

definition plain_address :: "jstr \<Rightarrow> bool" where
  "plain_address t \<longleftrightarrow>
     length t = 42 \<and> t ! 0 = 48 \<and> t ! 1 = 120 \<and> list_all (\<lambda>c. hex_char_value c \<noteq> None) (drop 2 t)"

section \<open>The contract\<close>

locale evm_sink_laws =
  fixes k :: "'s evm_sink"
    and ok :: "'s \<Rightarrow> bool"
    and view :: "'s \<Rightarrow> sink_view"
  assumes unsigned_laws:
      "in_unsigned 1 v \<Longrightarrow> stores ok view (s_u8 k v) (word_bytes v) 0"
      "in_unsigned 2 v \<Longrightarrow> stores ok view (s_u16 k v) (word_bytes v) 0"
      "in_unsigned 4 v \<Longrightarrow> stores ok view (s_u32 k v) (word_bytes v) 0"
      "in_unsigned 8 v \<Longrightarrow> stores ok view (s_u64 k v) (word_bytes v) 0"
      "in_unsigned 16 v \<Longrightarrow> stores ok view (s_u128 k v) (word_bytes v) 0"
      "in_unsigned 32 v \<Longrightarrow> stores ok view (s_u256 k v) (word_bytes v) 0"
    and signed_laws:
      "in_signed 1 v \<Longrightarrow> stores ok view (s_i8 k v) (word_bytes v) 0"
      "in_signed 2 v \<Longrightarrow> stores ok view (s_i16 k v) (word_bytes v) 0"
      "in_signed 4 v \<Longrightarrow> stores ok view (s_i32 k v) (word_bytes v) 0"
      "in_signed 8 v \<Longrightarrow> stores ok view (s_i64 k v) (word_bytes v) 0"
      "in_signed 16 v \<Longrightarrow> stores ok view (s_i128 k v) (word_bytes v) 0"
      "in_signed 32 v \<Longrightarrow> stores ok view (s_i256 k v) (word_bytes v) 0"
    and bounds_laws:
      "\<not> in_unsigned 1 v \<Longrightarrow> s_u8 k v s = oob" "\<not> in_signed 1 v \<Longrightarrow> s_i8 k v s = oob"
      "\<not> in_unsigned 2 v \<Longrightarrow> s_u16 k v s = oob" "\<not> in_signed 2 v \<Longrightarrow> s_i16 k v s = oob"
      "\<not> in_unsigned 4 v \<Longrightarrow> s_u32 k v s = oob" "\<not> in_signed 4 v \<Longrightarrow> s_i32 k v s = oob"
      "\<not> in_unsigned 8 v \<Longrightarrow> s_u64 k v s = oob" "\<not> in_signed 8 v \<Longrightarrow> s_i64 k v s = oob"
      "\<not> in_unsigned 16 v \<Longrightarrow> s_u128 k v s = oob" "\<not> in_signed 16 v \<Longrightarrow> s_i128 k v s = oob"
      "\<not> in_unsigned 32 v \<Longrightarrow> s_u256 k v s = oob" "\<not> in_signed 32 v \<Longrightarrow> s_i256 k v s = oob"
    and bool_law: "stores ok view (s_bool k b) (word_bytes (if b then 1 else 0)) 0"
    and bytes_law: "bytes_arg x = Some bs \<Longrightarrow> length bs < 2 ^ 32 \<Longrightarrow>
      stores ok view (s_bytes k x) (word_bytes (int (length bs)) @ padded bs) (32 + length (padded bs))"
    and string_law: "s_string k t = s_bytes k (EBytes (UTF8_ENCODER_encode t))"
    and staticBytes_law: "n \<le> 32 \<Longrightarrow> bytes_arg x = Some bs \<Longrightarrow> length bs \<le> n \<Longrightarrow>
      stores ok view (s_staticBytes k n x) (bs @ replicate (32 - length bs) 0) 0"
    and address_law: "plain_address t \<Longrightarrow>
      stores ok view (s_address k t) (replicate 12 0 @ bytes_of_hex (drop 2 t)) 0"
    and openTail_law: "ok s \<Longrightarrow> blank (sv_cells (view s)) (sv_pos (view s)) 32 \<Longrightarrow>
      ar_size (sv_area (view s)) < 2 ^ 32 \<Longrightarrow> \<exists>s'. s_openTail k n s = Inr s' \<and> ok s' \<and> opened (view s) n (view s')"
    and openArray_law: "ok s \<Longrightarrow> blank (sv_cells (view s)) (sv_pos (view s)) 32 \<Longrightarrow>
      blank (sv_cells (view s)) (ar_start (sv_area (view s)) + ar_size (sv_area (view s))) 32 \<Longrightarrow>
      sv_pos (view s) + 32 \<le> ar_start (sv_area (view s)) + ar_size (sv_area (view s)) \<Longrightarrow>
      ar_size (sv_area (view s)) < 2 ^ 32 \<Longrightarrow> n < 2 ^ 32 \<Longrightarrow>
      \<exists>s'. s_openArray k n s = Inr s' \<and> ok s' \<and> opened_array (view s) n (view s')"
    and closeTail_law: "ok s \<Longrightarrow> sv_below (view s) \<noteq> [] \<Longrightarrow>
      \<exists>s'. s_closeTail k s = Inr s' \<and> ok s' \<and> closed (view s) (view s')"

section \<open>Lemmas on cells and words\<close>

lemma length_be_bytes [simp]: "length (be_bytes n v) = n"
  by (simp add: be_bytes_def)

lemma be_bytes_append: "be_bytes (m + n) v = be_bytes m (v div 256 ^ n) @ be_bytes n v"
  using le_bytes_append [of n m v] by (simp add: be_bytes_def add.commute)

lemma be_bytes_0 [simp]: "be_bytes n 0 = replicate n 0"
proof -
  have "le_bytes n 0 = replicate n 0" by (induction n) auto
  then show ?thesis by (simp add: be_bytes_def)
qed

lemma be_bytes_small: "0 \<le> v \<Longrightarrow> v < 256 ^ n \<Longrightarrow> n \<le> 32 \<Longrightarrow> word_bytes v = replicate (32 - n) 0 @ be_bytes n v"
  using be_bytes_append [of "32 - n" n v] by simp

lemma be_bytes_mod: "be_bytes n (v mod 256 ^ n) = be_bytes n v"
  by (simp add: be_bytes_def le_bytes_mod)

lemma overwrite_append: "overwrite p (as @ bs) f = overwrite (p + length as) bs (overwrite p as f)"
  by (rule ext) (auto simp: overwrite_def nth_append)

lemma overwrite_Nil [simp]: "overwrite p [] f = f"
  by (rule ext) (auto simp: overwrite_def)

lemma overwrite_zeros: "blank f p n \<Longrightarrow> overwrite p (replicate n 0) f = f"
  by (rule ext) (auto simp: overwrite_def blank_def)

lemma blank_sub: "blank f p n \<Longrightarrow> p \<le> q \<Longrightarrow> q + m \<le> p + n \<Longrightarrow> blank f q m"
  by (auto simp: blank_def)

lemma blank_overwrite: "blank f q m \<Longrightarrow> p + length bs \<le> q \<or> q + m \<le> p \<Longrightarrow> blank (overwrite p bs f) q m"
  by (auto simp: blank_def overwrite_def)

lemma overwrite_swap:
  "p + length as \<le> q \<or> q + length bs \<le> p \<Longrightarrow> overwrite p as (overwrite q bs f) = overwrite q bs (overwrite p as f)"
  by (rule ext) (auto simp: overwrite_def)

lemma length_padded [simp]: "length (padded bs) = (length bs + 31) div 32 * 32"
proof -
  have "length bs \<le> (length bs + 31) div 32 * 32" by linarith
  then show ?thesis by (simp add: padded_def)
qed

lemma grown_simps [simp]:
  "ar_start (grown a n) = ar_start a" "ar_size (grown a n) = ar_size a + n"
  "ar_jumpBackPtr (grown a n) = ar_jumpBackPtr a" "ar_countWord (grown a n) = ar_countWord a"
  by (simp_all add: grown_def)

lemma grown_0 [simp]: "grown a 0 = a"
  by (simp add: grown_def)

lemma grown_grown [simp]: "grown (grown a m) n = grown a (m + n)"
  by (simp add: grown_def)

lemma in_unsigned_word: "in_unsigned n v \<Longrightarrow> 0 \<le> v \<and> v < 256 ^ n"
  by (simp add: in_unsigned_def)

lemma stored_trans:
  "stored U as m V \<Longrightarrow> stored V bs n W \<Longrightarrow> stored U (as @ bs) (m + n) W"
  by (auto simp: stored_def overwrite_append)

lemma stored_room: "stored (V\<lparr>sv_room := r\<rparr>) bs g W \<Longrightarrow> sv_room V \<le> r \<Longrightarrow> stored V bs g W"
  by (auto simp: stored_def)

section \<open>BytesSink keeps the contract\<close>

definition bk_cells :: "byte list \<Rightarrow> nat \<Rightarrow> byte" where
  "bk_cells buf i = (if i < length buf then buf ! i else 0)"

definition bk_view :: "bytes_sink \<Rightarrow> sink_view" where
  "bk_view s =
     \<lparr>sv_pos = bk_pos s, sv_area = bk_area s, sv_below = bk_below s, sv_cells = bk_cells (bk_buf s),
      sv_room = length (bk_buf s)\<rparr>"

lemma bk_view_simps [simp]:
  "sv_pos (bk_view s) = bk_pos s" "sv_area (bk_view s) = bk_area s" "sv_below (bk_view s) = bk_below s"
  "sv_cells (bk_view s) = bk_cells (bk_buf s)" "sv_room (bk_view s) = length (bk_buf s)"
  by (simp_all add: bk_view_def)

abbreviation bk_ok :: "bytes_sink \<Rightarrow> bool" where
  "bk_ok s \<equiv> True"

lemma bk_cells_append_zeros: "bk_cells (buf @ replicate n 0) = bk_cells buf"
  by (rule ext) (auto simp: bk_cells_def nth_append)

lemma bk_reserve_ok:
  "\<exists>buf. bk_reserve n s = Inr (s\<lparr>bk_buf := buf\<rparr>) \<and> bk_cells buf = bk_cells (bk_buf s) \<and>
     length (bk_buf s) \<le> length buf \<and> bk_pos s + n \<le> length buf"
proof (cases "int (length (bk_buf s)) - int (bk_pos s) < int n")
  case True
  let ?m = "max (bk_pos s + n) (length (bk_buf s) * 2)"
  have "buf_set (replicate ?m 0) (bk_buf s) 0 = Inr (bk_buf s @ replicate (?m - length (bk_buf s)) 0)"
    by (simp add: buf_set_def)
  with True have "bk_reserve n s = Inr (s\<lparr>bk_buf := bk_buf s @ replicate (?m - length (bk_buf s)) 0\<rparr>)"
    by (simp add: bk_reserve_def bk_allocate_def)
  moreover have "bk_pos s + n \<le> length (bk_buf s @ replicate (?m - length (bk_buf s)) 0)" by simp
  ultimately show ?thesis by (metis bk_cells_append_zeros le_add1 length_append)
next
  case False
  then have "bk_reserve n s = Inr (s\<lparr>bk_buf := bk_buf s\<rparr>)" by (simp add: bk_reserve_def)
  with False show ?thesis by force
qed

lemma bk_cells_set:
  assumes "p + length bs \<le> length buf"
  shows "\<exists>buf'. buf_set buf bs p = Inr buf' \<and> length buf' = length buf \<and> bk_cells buf' = overwrite p bs (bk_cells buf)"
proof -
  let ?b = "take p buf @ bs @ drop (p + length bs) buf"
  have "bk_cells ?b = overwrite p bs (bk_cells buf)"
    using assms by (intro ext) (auto simp: bk_cells_def overwrite_def nth_append min_def)
  moreover have "buf_set buf bs p = Inr ?b" using assms by (simp add: buf_set_def)
  moreover have "length ?b = length buf" using assms by simp
  ultimately show ?thesis by blast
qed

lemma bk_put_stored:
  assumes "bk_pos s + length bs \<le> length (bk_buf s)"
  shows "\<exists>s'. bk_put bs s = Inr s' \<and> stored (bk_view s) bs 0 (bk_view s') \<and> length (bk_buf s') = length (bk_buf s)"
proof -
  obtain b where "buf_set (bk_buf s) bs (bk_pos s) = Inr b" "length b = length (bk_buf s)"
    "bk_cells b = overwrite (bk_pos s) bs (bk_cells (bk_buf s))"
    using bk_cells_set [OF assms] by blast
  then show ?thesis using assms by (auto simp: bk_put_def stored_def)
qed

lemma bk_stored_reserved:
  assumes "stored (bk_view (s\<lparr>bk_buf := b\<rparr>)) bs g W" "bk_cells b = bk_cells (bk_buf s)" "length (bk_buf s) \<le> length b"
  shows "stored (bk_view s) bs g W"
  using assms by (auto simp: stored_def)

lemma bk_right_stores:
  assumes "0 \<le> v" "v < 256 ^ n" "n \<le> 32"
  shows "stores bk_ok bk_view (bk_right n v) (word_bytes v) 0"
  unfolding stores_def
proof (intro allI impI)
  fix s
  assume b: "blank (sv_cells (bk_view s)) (sv_pos (bk_view s)) (length (word_bytes v))"
  obtain b where r: "bk_reserve WORD_SIZE s = Inr (s\<lparr>bk_buf := b\<rparr>)" "bk_cells b = bk_cells (bk_buf s)"
    "length (bk_buf s) \<le> length b" "bk_pos s + 32 \<le> length b"
    using bk_reserve_ok [of WORD_SIZE s] by auto
  let ?s = "s\<lparr>bk_buf := b, bk_pos := bk_pos s + (32 - n)\<rparr>"
  obtain s' where s': "bk_put (be_bytes n v) ?s = Inr s'" "stored (bk_view ?s) (be_bytes n v) 0 (bk_view s')"
    using bk_put_stored [of ?s "be_bytes n v"] r(4) assms(3) by auto
  have "stored (bk_view s) (replicate (32 - n) 0) 0 (bk_view ?s)"
    using overwrite_zeros [OF blank_sub [OF b, of "bk_pos s" "32 - n"]] r by (auto simp: stored_def)
  from stored_trans [OF this s'(2)] have "stored (bk_view s) (word_bytes v) 0 (bk_view s')"
    using be_bytes_small [OF assms] by simp
  with s'(1) r(1) show "\<exists>s'. bk_right n v s = Inr s' \<and> True \<and> stored (bk_view s) (word_bytes v) 0 (bk_view s')"
    by (auto simp: bk_right_def)
qed

text \<open>The 256-bit writers store four 64-bit halves of halves.\<close>

lemma bk_seq:
  assumes "\<exists>s'. f s = Inr s' \<and> stored (bk_view s) as m (bk_view s') \<and> length (bk_buf s') = length (bk_buf s)"
    and "\<And>t. bk_pos t = bk_pos s + length as \<Longrightarrow> length (bk_buf t) = length (bk_buf s) \<Longrightarrow>
      \<exists>t'. g t = Inr t' \<and> stored (bk_view t) bs n (bk_view t') \<and> length (bk_buf t') = length (bk_buf t)"
  shows "\<exists>s'. rbind (f s) g = Inr s' \<and> stored (bk_view s) (as @ bs) (m + n) (bk_view s') \<and>
    length (bk_buf s') = length (bk_buf s)"
proof -
  obtain t where t: "f s = Inr t" "stored (bk_view s) as m (bk_view t)" "length (bk_buf t) = length (bk_buf s)"
    using assms(1) by blast
  then obtain s' where "g t = Inr s'" "stored (bk_view t) bs n (bk_view s')" "length (bk_buf s') = length (bk_buf t)"
    using assms(2) [of t] by (auto simp: stored_def)
  with t show ?thesis using stored_trans by fastforce
qed

lemma bk_u128Raw_stored:
  assumes "bk_pos s + 16 \<le> length (bk_buf s)"
  shows "\<exists>s'. bk_u128Raw v s = Inr s' \<and> stored (bk_view s) (be_bytes 16 v) 0 (bk_view s') \<and>
    length (bk_buf s') = length (bk_buf s)"
proof -
  have "be_bytes 16 v = be_bytes 8 (drop_bit 64 v) @ be_bytes 8 (and v (2 ^ 64 - 1))"
    using be_bytes_append [of 8 8 v] be_bytes_mod [of 8 v] big_and_mask [of v 64] by (simp add: drop_bit_eq_div)
  moreover have "\<exists>s'. rbind (bk_writeU64 (drop_bit 64 v) s) (bk_writeU64 (and v (2 ^ 64 - 1))) = Inr s' \<and>
      stored (bk_view s) (be_bytes 8 (drop_bit 64 v) @ be_bytes 8 (and v (2 ^ 64 - 1))) (0 + 0) (bk_view s') \<and>
      length (bk_buf s') = length (bk_buf s)"
    unfolding bk_writeU64_def using assms by (intro bk_seq bk_put_stored) auto
  ultimately show ?thesis by (simp add: bk_u128Raw_def)
qed

lemma bk_256_stored:
  assumes "bk_pos s + 32 \<le> length (bk_buf s)"
  shows "\<exists>s'. rbind (bk_u128Raw (drop_bit 128 v) s) (bk_u128Raw (and v (2 ^ 128 - 1))) = Inr s' \<and>
    stored (bk_view s) (word_bytes v) 0 (bk_view s')"
proof -
  have "word_bytes v = be_bytes 16 (drop_bit 128 v) @ be_bytes 16 (and v (2 ^ 128 - 1))"
    using be_bytes_append [of 16 16 v] be_bytes_mod [of 16 v] big_and_mask [of v 128] by (simp add: drop_bit_eq_div)
  moreover have "\<exists>s'. rbind (bk_u128Raw (drop_bit 128 v) s) (bk_u128Raw (and v (2 ^ 128 - 1))) = Inr s' \<and>
      stored (bk_view s) (be_bytes 16 (drop_bit 128 v) @ be_bytes 16 (and v (2 ^ 128 - 1))) (0 + 0) (bk_view s') \<and>
      length (bk_buf s') = length (bk_buf s)"
    using assms by (intro bk_seq bk_u128Raw_stored) auto
  ultimately show ?thesis by auto
qed

lemma bk_reserved_256_stores:
  "stores bk_ok bk_view (\<lambda>s. rbind (bk_reserve WORD_SIZE s) (\<lambda>s.
     rbind (bk_u128Raw (drop_bit 128 v) s) (bk_u128Raw (and v (2 ^ 128 - 1))))) (word_bytes v) 0"
  unfolding stores_def
proof (intro allI impI)
  fix s
  obtain b where r: "bk_reserve WORD_SIZE s = Inr (s\<lparr>bk_buf := b\<rparr>)" "bk_cells b = bk_cells (bk_buf s)"
    "length (bk_buf s) \<le> length b" "bk_pos s + 32 \<le> length b"
    using bk_reserve_ok [of WORD_SIZE s] by auto
  obtain s' where "rbind (bk_u128Raw (drop_bit 128 v) (s\<lparr>bk_buf := b\<rparr>)) (bk_u128Raw (and v (2 ^ 128 - 1))) = Inr s'"
    "stored (bk_view (s\<lparr>bk_buf := b\<rparr>)) (word_bytes v) 0 (bk_view s')"
    using bk_256_stored [of "s\<lparr>bk_buf := b\<rparr>" v] r(4) by auto
  then show "\<exists>s'. rbind (bk_reserve WORD_SIZE s) (\<lambda>s.
     rbind (bk_u128Raw (drop_bit 128 v) s) (bk_u128Raw (and v (2 ^ 128 - 1)))) = Inr s' \<and> True \<and>
     stored (bk_view s) (word_bytes v) 0 (bk_view s')"
    using bk_stored_reserved [OF _ r(2,3)] r(1) by auto
qed

lemma bk_u128_stores: "in_unsigned 16 v \<Longrightarrow> stores bk_ok bk_view (bk_u128 v) (word_bytes v) 0"
  unfolding stores_def
proof (intro allI impI)
  fix s
  assume v: "in_unsigned 16 v" and b: "blank (sv_cells (bk_view s)) (sv_pos (bk_view s)) (length (word_bytes v))"
  obtain b where r: "bk_reserve WORD_SIZE s = Inr (s\<lparr>bk_buf := b\<rparr>)" "bk_cells b = bk_cells (bk_buf s)"
    "length (bk_buf s) \<le> length b" "bk_pos s + 32 \<le> length b"
    using bk_reserve_ok [of WORD_SIZE s] by auto
  let ?s = "s\<lparr>bk_buf := b, bk_pos := bk_pos s + 16\<rparr>"
  obtain s' where s': "bk_u128Raw v ?s = Inr s'" "stored (bk_view ?s) (be_bytes 16 v) 0 (bk_view s')"
    using bk_u128Raw_stored [of ?s v] r(4) by auto
  have "stored (bk_view s) (replicate 16 0) 0 (bk_view ?s)"
    using overwrite_zeros [OF blank_sub [OF b, of "bk_pos s" 16]] r by (auto simp: stored_def)
  from stored_trans [OF this s'(2)] have "stored (bk_view s) (word_bytes v) 0 (bk_view s')"
    using be_bytes_small [of v 16] in_unsigned_word [OF v] by simp
  with s'(1) r(1) v show "\<exists>s'. bk_u128 v s = Inr s' \<and> True \<and> stored (bk_view s) (word_bytes v) 0 (bk_view s')"
    by (auto simp: bk_u128_def bk_u128Raw_def)
qed

lemma be_bytes_wrap: "word_bytes (v + U256_BASE) = word_bytes v"
  using be_bytes_mod [of 32 v] be_bytes_mod [of 32 "v + U256_BASE"] by (simp add: U256_BASE_def)

lemma bk_i256Raw_stores: "stores bk_ok bk_view (bk_i256Raw v) (word_bytes v) 0"
proof -
  let ?u = "if v \<ge> 0 then v else v + U256_BASE"
  have "word_bytes ?u = word_bytes v" by (simp add: be_bytes_wrap)
  with bk_reserved_256_stores [of ?u] show ?thesis by (simp add: bk_i256Raw_def [abs_def] Let_def)
qed

lemma bk_unsigned_stores:
  "in_unsigned 1 v \<Longrightarrow> stores bk_ok bk_view (bk_u8 v) (word_bytes v) 0"
  "in_unsigned 2 v \<Longrightarrow> stores bk_ok bk_view (bk_u16 v) (word_bytes v) 0"
  "in_unsigned 4 v \<Longrightarrow> stores bk_ok bk_view (bk_u32 v) (word_bytes v) 0"
  "in_unsigned 8 v \<Longrightarrow> stores bk_ok bk_view (bk_u64 v) (word_bytes v) 0"
  "in_unsigned 32 v \<Longrightarrow> stores bk_ok bk_view (bk_u256 v) (word_bytes v) 0"
  using bk_right_stores [of v] bk_reserved_256_stores [of v]
  by (simp_all add: bk_u8_def [abs_def] bk_u16_def [abs_def] bk_u32_def [abs_def] bk_u64_def [abs_def]
      bk_u256_def [abs_def] in_unsigned_def)

lemma bk_signed_stores:
  "in_signed 1 v \<Longrightarrow> stores bk_ok bk_view (bk_i8 v) (word_bytes v) 0"
  "in_signed 2 v \<Longrightarrow> stores bk_ok bk_view (bk_i16 v) (word_bytes v) 0"
  "in_signed 4 v \<Longrightarrow> stores bk_ok bk_view (bk_i32 v) (word_bytes v) 0"
  "in_signed 8 v \<Longrightarrow> stores bk_ok bk_view (bk_i64 v) (word_bytes v) 0"
  "in_signed 16 v \<Longrightarrow> stores bk_ok bk_view (bk_i128 v) (word_bytes v) 0"
  "in_signed 32 v \<Longrightarrow> stores bk_ok bk_view (bk_i256 v) (word_bytes v) 0"
  using bk_i256Raw_stores [of v]
  by (simp_all add: bk_i8_def [abs_def] bk_i16_def [abs_def] bk_i32_def [abs_def] bk_i64_def [abs_def]
      bk_i128_def [abs_def] bk_i256_def [abs_def])

lemma bk_toBytes_arg: "bytes_arg x = Some bs \<Longrightarrow> bk_toBytes x = Inr bs"
  by (auto simp: bytes_arg_def bk_toBytes_def bk_stringToBytes_def decodeHex_def split: evm_val.splits if_splits)

text \<open>Bytes stored in front of zeros: the position moves behind the zeros, which the cells hold already.\<close>

lemma bk_set_padded:
  assumes "blank (bk_cells (bk_buf s)) (bk_pos s) (length bs + n)" "bk_pos s + (length bs + n) \<le> length (bk_buf s)"
  shows "\<exists>buf. buf_set (bk_buf s) bs (bk_pos s) = Inr buf \<and>
    (\<forall>a. stored (bk_view s) (bs @ replicate n 0) a
      (bk_view (s\<lparr>bk_buf := buf, bk_pos := bk_pos s + (length bs + n), bk_area := grown (bk_area s) a\<rparr>)))"
proof -
  obtain buf where b: "buf_set (bk_buf s) bs (bk_pos s) = Inr buf" "length buf = length (bk_buf s)"
    "bk_cells buf = overwrite (bk_pos s) bs (bk_cells (bk_buf s))"
    using bk_cells_set [of "bk_pos s" bs "bk_buf s"] assms(2) by auto
  have "blank (overwrite (bk_pos s) bs (bk_cells (bk_buf s))) (bk_pos s + length bs) n"
    by (rule blank_overwrite [OF blank_sub [OF assms(1)]]) auto
  then have "bk_cells buf = overwrite (bk_pos s) (bs @ replicate n 0) (bk_cells (bk_buf s))"
    by (simp add: b(3) overwrite_append overwrite_zeros)
  with b assms(2) show ?thesis by (auto simp: stored_def)
qed

lemma padded_split: "padded bs = bs @ replicate ((length bs + 31) div 32 * 32 - length bs) 0"
  "length bs + ((length bs + 31) div 32 * 32 - length bs) = (length bs + 31) div 32 * 32"
  by (simp_all add: padded_def)

lemma bk_bytes_stores:
  assumes x: "bytes_arg x = Some bs" "length bs < 2 ^ 32"
  shows "stores bk_ok bk_view (bk_bytes x) (word_bytes (int (length bs)) @ padded bs) (32 + length (padded bs))"
  unfolding stores_def
proof (intro allI impI)
  fix s
  let ?n = "int (length bs)" and ?r = "(length bs + 31) div 32 * 32"
  assume b: "blank (sv_cells (bk_view s)) (sv_pos (bk_view s)) (length (word_bytes ?n @ padded bs))"
  have "in_unsigned 4 ?n" using x(2) by (simp add: in_unsigned_def)
  moreover have "blank (bk_cells (bk_buf s)) (bk_pos s) 32" using blank_sub [OF b] by simp
  ultimately obtain t where t: "bk_u32 ?n s = Inr t" "stored (bk_view s) (word_bytes ?n) 0 (bk_view t)"
    using bk_unsigned_stores(3) by (force simp: stores_def)
  obtain b' where r: "bk_reserve ?r t = Inr (t\<lparr>bk_buf := b'\<rparr>)" "bk_cells b' = bk_cells (bk_buf t)"
    "length (bk_buf t) \<le> length b'" "bk_pos t + ?r \<le> length b'"
    using bk_reserve_ok [of ?r t] by auto
  let ?t = "t\<lparr>bk_buf := b'\<rparr>"
  have "blank (bk_cells (bk_buf ?t)) (bk_pos ?t) ?r"
    using t(2) r(2) blank_overwrite [OF blank_sub [OF b, of "bk_pos s + 32" ?r], of "bk_pos s" "word_bytes ?n"]
    by (auto simp: stored_def)
  then obtain buf where buf: "buf_set b' bs (bk_pos t) = Inr buf"
    "stored (bk_view ?t) (padded bs) (32 + ?r) (bk_view (?t\<lparr>bk_buf := buf, bk_pos := bk_pos t + ?r, bk_area := grown (bk_area t) (32 + ?r)\<rparr>))"
    using bk_set_padded [of ?t bs "?r - length bs"] r(4) by (auto simp: padded_split)
  have "stored (bk_view s) (word_bytes ?n @ padded bs) (0 + (32 + ?r))
      (bk_view (?t\<lparr>bk_buf := buf, bk_pos := bk_pos t + ?r, bk_area := grown (bk_area t) (32 + ?r)\<rparr>))"
    using stored_trans [OF t(2) bk_stored_reserved [OF buf(2) r(2,3)]] .
  then show "\<exists>s'. bk_bytes x s = Inr s' \<and> True \<and>
      stored (bk_view s) (word_bytes ?n @ padded bs) (32 + length (padded bs)) (bk_view s')"
    using x t(1) r(1) buf(1)
    by (auto simp: bk_bytes_def bk_toBytes_arg bk_increase_def grown_def Let_def add.commute)
qed

lemma bk_staticBytes_stores:
  assumes x: "n \<le> 32" "bytes_arg x = Some bs" "length bs \<le> n"
  shows "stores bk_ok bk_view (bk_staticBytes n x) (bs @ replicate (32 - length bs) 0) 0"
  unfolding stores_def
proof (intro allI impI)
  fix s
  assume b: "blank (sv_cells (bk_view s)) (sv_pos (bk_view s)) (length (bs @ replicate (32 - length bs) 0))"
  obtain b' where r: "bk_reserve WORD_SIZE s = Inr (s\<lparr>bk_buf := b'\<rparr>)" "bk_cells b' = bk_cells (bk_buf s)"
    "length (bk_buf s) \<le> length b'" "bk_pos s + 32 \<le> length b'"
    using bk_reserve_ok [of WORD_SIZE s] by auto
  let ?s = "s\<lparr>bk_buf := b'\<rparr>"
  have "blank (bk_cells (bk_buf ?s)) (bk_pos ?s) (length bs + (32 - length bs))" using b r x by simp
  then obtain buf where buf: "buf_set b' bs (bk_pos s) = Inr buf"
    "\<forall>a. stored (bk_view ?s) (bs @ replicate (32 - length bs) 0) a
      (bk_view (?s\<lparr>bk_buf := buf, bk_pos := bk_pos s + 32, bk_area := grown (bk_area s) a\<rparr>))"
    using bk_set_padded [of ?s bs "32 - length bs"] r(4) x by auto
  have "stored (bk_view ?s) (bs @ replicate (32 - length bs) 0) 0 (bk_view (?s\<lparr>bk_buf := buf, bk_pos := bk_pos s + 32\<rparr>))"
    using spec [OF buf(2), of 0] by simp
  from bk_stored_reserved [OF this r(2,3)] buf(1) x r(1)
  show "\<exists>s'. bk_staticBytes n x s = Inr s' \<and> True \<and> stored (bk_view s) (bs @ replicate (32 - length bs) 0) 0 (bk_view s')"
    by (auto simp: bk_staticBytes_def bk_toBytes_arg)
qed

lemma bk_bool_stores: "stores bk_ok bk_view (bk_bool b) (word_bytes (if b then 1 else 0)) 0"
  using bk_unsigned_stores(1) [of "if b then 1 else 0"] by (simp add: bk_bool_def [abs_def] in_unsigned_def)

lemma length_bytes_of_hex:
  "list_all (\<lambda>c. hex_char_value c \<noteq> None) t \<Longrightarrow> even (length t) \<Longrightarrow> length (bytes_of_hex t) = length t div 2"
  by (induction t rule: bytes_of_hex.induct) auto

lemma utf16_hex: "list_all (\<lambda>c. hex_char_value c \<noteq> None) t \<Longrightarrow> utf16 t = t"
  by (induction t) (auto simp: hex_char_value_def split: if_splits)

lemma plain_addressD:
  assumes "plain_address t"
  shows "utf16 t = t" "length (bytes_of_hex (drop 2 t)) = 20"
proof -
  obtain u where u: "t = 48 # 120 # u" "length u = 40" "list_all (\<lambda>c. hex_char_value c \<noteq> None) u"
    using assms by (cases t; cases "tl t") (auto simp: plain_address_def)
  then show "utf16 t = t" "length (bytes_of_hex (drop 2 t)) = 20"
    using utf16_hex [OF u(3)] length_bytes_of_hex [OF u(3)] by simp_all
qed

lemma bk_address_stores:
  assumes t: "plain_address t"
  shows "stores bk_ok bk_view (bk_address t) (replicate 12 0 @ bytes_of_hex (drop 2 t)) 0"
  unfolding stores_def
proof (intro allI impI)
  fix s
  let ?a = "bytes_of_hex (drop 2 t)"
  obtain b' where r: "bk_reserve WORD_SIZE s = Inr (s\<lparr>bk_buf := b'\<rparr>)" "bk_cells b' = bk_cells (bk_buf s)"
    "length (bk_buf s) \<le> length b'" "bk_pos s + 32 \<le> length b'"
    using bk_reserve_ok [of WORD_SIZE s] by auto
  obtain b1 where b1: "buf_set b' (replicate 12 0) (bk_pos s) = Inr b1" "length b1 = length b'"
    "bk_cells b1 = overwrite (bk_pos s) (replicate 12 0) (bk_cells b')"
    using bk_cells_set [of "bk_pos s" "replicate 12 0" b'] r(4) by auto
  obtain b2 where b2: "buf_set b1 ?a (bk_pos s + 12) = Inr b2" "length b2 = length b1"
    "bk_cells b2 = overwrite (bk_pos s + 12) ?a (bk_cells b1)"
    using bk_cells_set [of "bk_pos s + 12" ?a b1] r(4) b1(2) plain_addressD(2) [OF t] by auto
  have c: "bk_cells b2 = overwrite (bk_pos s) (replicate 12 0 @ ?a) (bk_cells (bk_buf s))"
    by (simp add: b2(3) b1(3) r(2) overwrite_append)
  have "bk_address t s = Inr (s\<lparr>bk_buf := b2, bk_pos := bk_pos s + 32\<rparr>)"
    using plain_addressD [OF t] t r(1) b1(1) b2(1) by (simp add: bk_address_def plain_address_def Let_def)
  moreover have "stored (bk_view s) (replicate 12 0 @ ?a) 0 (bk_view (s\<lparr>bk_buf := b2, bk_pos := bk_pos s + 32\<rparr>))"
    using c r b1(2) b2(2) plain_addressD(2) [OF t] by (auto simp: stored_def)
  ultimately show "\<exists>s'. bk_address t s = Inr s' \<and> True \<and> stored (bk_view s) (replicate 12 0 @ ?a) 0 (bk_view s')"
    by blast
qed

lemma bk_u32Raw_stored:
  assumes "blank (bk_cells (bk_buf s)) (bk_pos s) 32" "bk_pos s + 32 \<le> length (bk_buf s)" "v < 2 ^ 32"
  shows "\<exists>s'. bk_u32Raw v s = Inr s' \<and> stored (bk_view s) (word_bytes (int v)) 0 (bk_view s') \<and>
    length (bk_buf s') = length (bk_buf s)"
proof -
  let ?s = "s\<lparr>bk_pos := bk_pos s + 28\<rparr>"
  obtain s' where s': "bk_put (be_bytes 4 (int v)) ?s = Inr s'" "stored (bk_view ?s) (be_bytes 4 (int v)) 0 (bk_view s')"
    "length (bk_buf s') = length (bk_buf s)"
    using bk_put_stored [of ?s "be_bytes 4 (int v)"] assms(2) by auto
  have "stored (bk_view s) (replicate 28 0) 0 (bk_view ?s)"
    using overwrite_zeros [OF blank_sub [OF assms(1), of "bk_pos s" 28]] assms(2) by (auto simp: stored_def)
  from stored_trans [OF this s'(2)] have "stored (bk_view s) (word_bytes (int v)) 0 (bk_view s')"
    using be_bytes_small [of "int v" 4] assms(3) by simp
  with s' show ?thesis by (auto simp: bk_u32Raw_def add.commute)
qed

lemma bk_reserved_u32Raw:
  assumes "blank (bk_cells (bk_buf s)) (bk_pos s) 32" "v < 2 ^ 32"
  shows "\<exists>s'. rbind (bk_reserve WORD_SIZE s) (bk_u32Raw v) = Inr s' \<and> stored (bk_view s) (word_bytes (int v)) 0 (bk_view s')"
proof -
  obtain b' where r: "bk_reserve WORD_SIZE s = Inr (s\<lparr>bk_buf := b'\<rparr>)" "bk_cells b' = bk_cells (bk_buf s)"
    "length (bk_buf s) \<le> length b'" "bk_pos s + 32 \<le> length b'"
    using bk_reserve_ok [of WORD_SIZE s] by auto
  then obtain s' where "bk_u32Raw v (s\<lparr>bk_buf := b'\<rparr>) = Inr s'"
    "stored (bk_view (s\<lparr>bk_buf := b'\<rparr>)) (word_bytes (int v)) 0 (bk_view s')"
    using bk_u32Raw_stored [of "s\<lparr>bk_buf := b'\<rparr>" v] assms by auto
  with bk_stored_reserved [OF _ r(2,3)] r(1) show ?thesis by auto
qed

lemma bk_pushDataArea_ok:
  "\<exists>buf. bk_pushDataArea st n cw s =
      Inr (s\<lparr>bk_buf := buf,
        bk_area := \<lparr>ar_start = st, ar_jumpBackPtr = bk_pos s, ar_size = 32 * n, ar_countWord = cw\<rparr>,
        bk_below := bk_area s # bk_below s\<rparr>) \<and>
     bk_cells buf = bk_cells (bk_buf s) \<and> length (bk_buf s) \<le> length buf"
proof -
  obtain b' where "bk_reserve (st + n * 32) s = Inr (s\<lparr>bk_buf := b'\<rparr>)" "bk_cells b' = bk_cells (bk_buf s)"
    "length (bk_buf s) \<le> length b'"
    using bk_reserve_ok [of "st + n * 32" s] by auto
  then show ?thesis by (auto simp: bk_pushDataArea_def Let_def mult.commute)
qed

lemma bk_openTail_opened:
  assumes "blank (bk_cells (bk_buf s)) (bk_pos s) 32" "ar_size (bk_area s) < 2 ^ 32"
  shows "\<exists>s'. bk_openTail n s = Inr s' \<and> opened (bk_view s) n (bk_view s')"
proof -
  obtain t where t: "rbind (bk_reserve WORD_SIZE s) (bk_u32Raw (bk_size s)) = Inr t"
    "stored (bk_view s) (word_bytes (int (bk_size s))) 0 (bk_view t)"
    using bk_reserved_u32Raw [OF assms(1), of "bk_size s"] assms(2) by (auto simp: bk_size_def)
  let ?e = "ar_start (bk_area t) + bk_size s"
  obtain buf where buf: "bk_pushDataArea ?e n False t =
      Inr (t\<lparr>bk_buf := buf,
        bk_area := \<lparr>ar_start = ?e, ar_jumpBackPtr = bk_pos t, ar_size = 32 * n, ar_countWord = False\<rparr>,
        bk_below := bk_area t # bk_below t\<rparr>)" (is "_ = Inr ?t")
     "bk_cells buf = bk_cells (bk_buf t)" "length (bk_buf t) \<le> length buf"
    using bk_pushDataArea_ok by blast
  have "bk_openTail n s = Inr (?t\<lparr>bk_pos := ?e\<rparr>)"
    using t(1) buf(1) by (auto simp: bk_openTail_def Let_def rbind_eq_Inr)
  moreover have "opened (bk_view s) n (bk_view (?t\<lparr>bk_pos := ?e\<rparr>))"
    using t(2) buf(2,3) by (auto simp: opened_def stored_def bk_size_def Let_def)
  ultimately show ?thesis by blast
qed

lemma bk_openArray_opened:
  assumes "blank (bk_cells (bk_buf s)) (bk_pos s) 32"
    "blank (bk_cells (bk_buf s)) (ar_start (bk_area s) + ar_size (bk_area s)) 32"
    "bk_pos s + 32 \<le> ar_start (bk_area s) + ar_size (bk_area s)"
    "ar_size (bk_area s) < 2 ^ 32" "n < 2 ^ 32"
  shows "\<exists>s'. bk_openArray n s = Inr s' \<and> opened_array (bk_view s) n (bk_view s')"
proof -
  obtain t where t: "rbind (bk_reserve WORD_SIZE s) (bk_u32Raw (bk_size s)) = Inr t"
    "stored (bk_view s) (word_bytes (int (bk_size s))) 0 (bk_view t)"
    using bk_reserved_u32Raw [OF assms(1), of "bk_size s"] assms(4) by (auto simp: bk_size_def)
  let ?e = "ar_start (bk_area t) + bk_size s"
  obtain buf where buf: "bk_pushDataArea (?e + WORD_SIZE) n True t =
      Inr (t\<lparr>bk_buf := buf,
        bk_area := \<lparr>ar_start = ?e + WORD_SIZE, ar_jumpBackPtr = bk_pos t, ar_size = 32 * n, ar_countWord = True\<rparr>,
        bk_below := bk_area t # bk_below t\<rparr>)" (is "_ = Inr ?t")
     "bk_cells buf = bk_cells (bk_buf t)" "length (bk_buf t) \<le> length buf"
    using bk_pushDataArea_ok by blast
  have "blank (bk_cells (bk_buf (?t\<lparr>bk_pos := ?e\<rparr>))) (bk_pos (?t\<lparr>bk_pos := ?e\<rparr>)) 32"
    using t(2) buf(2) blank_overwrite [OF assms(2)] assms(3) by (auto simp: stored_def bk_size_def)
  then obtain u where u: "rbind (bk_reserve WORD_SIZE (?t\<lparr>bk_pos := ?e\<rparr>)) (bk_u32Raw n) = Inr u"
    "stored (bk_view (?t\<lparr>bk_pos := ?e\<rparr>)) (word_bytes (int n)) 0 (bk_view u)"
    using bk_reserved_u32Raw [of "?t\<lparr>bk_pos := ?e\<rparr>" n] assms(5) by auto
  have "bk_openArray n s = Inr u"
    using t(1) buf(1) u(1) by (auto simp: bk_openArray_def Let_def rbind_eq_Inr)
  moreover have "opened_array (bk_view s) n (bk_view u)"
    using t(2) buf(2,3) u(2) by (auto simp: opened_array_def stored_def bk_size_def Let_def)
  ultimately show ?thesis by blast
qed

lemma bk_closeTail_closed:
  "bk_below s \<noteq> [] \<Longrightarrow> \<exists>s'. bk_closeTail s = Inr s' \<and> closed (bk_view s) (bk_view s')"
  by (auto simp: bk_closeTail_def closed_def bk_increase_def grown_def Let_def)

interpretation bytes_sink: evm_sink_laws bytes_sink_ops bk_ok bk_view
  by unfold_locales
    (simp_all add: bytes_sink_ops_def bk_unsigned_stores bk_u128_stores bk_signed_stores bk_bool_stores
      bk_bytes_stores [simplified] bk_staticBytes_stores bk_address_stores bk_openTail_opened bk_openArray_opened
      bk_closeTail_closed bk_string_def bk_u8_def bk_i8_def bk_u16_def bk_i16_def bk_u32_def bk_i32_def
      bk_u64_def bk_i64_def bk_u128_def bk_i128_def bk_u256_def bk_i256_def)

end
