(* ===== verification/Evm_Hex_Sink.thy ===== *)
theory Evm_Hex_Sink
  imports Evm_Sink_Laws
begin

text \<open>
  \<open>HexSink\<close> keeps the contract of a sink: its buffer is always the hexadecimal text of bytes, and what it writes
  is what \<open>BytesSink\<close> would write at the same place.
\<close>

section \<open>Hexadecimal text of bytes\<close>

lemma take_hex_of_bytes: "take (2 * n) (hex_of_bytes bs) = hex_of_bytes (take n bs)"
proof (induction bs arbitrary: n)
  case (Cons b bs)
  then show ?case by (cases n) auto
qed simp

lemma drop_hex_of_bytes: "drop (2 * n) (hex_of_bytes bs) = hex_of_bytes (drop n bs)"
proof (induction bs arbitrary: n)
  case (Cons b bs)
  then show ?case by (cases n) auto
qed simp

lemma hex_of_zeros: "hex_of_bytes (replicate n 0) = replicate (2 * n) 48"
  by (induction n) (auto simp: hex_digit_def)

lemma hex_of_bytes_code: "c \<in> set (hex_of_bytes bs) \<Longrightarrow> c < 256"
proof (induction bs)
  case (Cons b bs)
  have "unat b div 16 < 16" using unat_byte_less [of b] by (simp add: div_less_iff_less_mult)
  with Cons show ?case by (auto simp: hex_digit_def)
qed simp

lemma unat_byte_of_int: "unat (word_of_int v :: byte) = nat (v mod 256)"
  by (simp only: unat_eq_nat_uint uint_word_of_int) simp

lemma hex_of_be_bytes: "0 \<le> v \<Longrightarrow> hex_of_bytes (be_bytes n v) = map hex_digit (last_digits 16 (2 * n) (nat v))"
proof (induction n arbitrary: v)
  case 0
  then show ?case by (simp add: be_bytes_def)
next
  case (Suc n)
  have "be_bytes (Suc n) v = be_bytes n (v div 256) @ [word_of_int v]"
    by (simp add: be_bytes_def)
  moreover have "hex_of_bytes (be_bytes n (v div 256)) = map hex_digit (last_digits 16 (2 * n) (nat v div 16 div 16))"
  proof -
    have "nat (v div 256) = nat v div 16 div 16"
      using Suc.prems by (simp add: nat_div_distrib div_mult2_eq [symmetric])
    moreover have "0 \<le> v div 256" using Suc.prems by simp
    ultimately show ?thesis using Suc.IH [of "v div 256"] by (simp only:)
  qed
  moreover have "nat (v mod 256) div 16 = nat v div 16 mod 16" "nat (v mod 256) mod 16 = nat v mod 16"
  proof -
    have m: "nat (v mod 256) = nat v mod (16 * 16)" using Suc.prems by (simp add: nat_mod_distrib)
    show "nat (v mod 256) div 16 = nat v div 16 mod 16" unfolding m mod_mult2_eq by simp
    show "nat (v mod 256) mod 16 = nat v mod 16" unfolding m mod_mult2_eq by simp
  qed
  ultimately show ?case by (simp add: hex_of_bytes_append unat_byte_of_int)
qed

lemma lower_hex_char: "hex_char_value c = Some d \<Longrightarrow> lower_hex c = hex_digit d \<and> d < 16"
  by (auto simp: hex_char_value_def lower_hex_def hex_digit_def split: if_splits)

lemma lower_hex_text:
  "list_all (\<lambda>c. hex_char_value c \<noteq> None) t \<Longrightarrow> even (length t) \<Longrightarrow> map lower_hex t = hex_of_bytes (bytes_of_hex t)"
proof (induction t rule: bytes_of_hex.induct)
  case (1 a b rest)
  then obtain x y where v: "hex_char_value a = Some x" "hex_char_value b = Some y" by auto
  then have d: "lower_hex a = hex_digit x" "lower_hex b = hex_digit y" "x < 16" "y < 16"
    using lower_hex_char by auto
  then have "unat (word_of_nat (16 * x + y) :: byte) = 16 * x + y"
    by (simp only: unat_of_nat) simp
  with 1 v d show ?case by simp
qed auto

section \<open>Writing into the text\<close>

lemma length_poke [simp]: "length (poke buf i cs) = length buf"
  by (induction buf i cs rule: poke.induct) auto

lemma poke_append: "poke buf i (as @ bs) = poke (poke buf i as) (i + length as) bs"
  by (induction buf i as rule: poke.induct) auto

lemma poke_take_drop:
  "i + length cs \<le> length buf \<Longrightarrow> (\<And>c. c \<in> set cs \<Longrightarrow> c < 256) \<Longrightarrow>
    poke buf i cs = take i buf @ cs @ drop (i + length cs) buf"
proof (induction buf i cs rule: poke.induct)
  case (2 buf i c cs)
  then have "poke (buf[i := c mod 256]) (Suc i) cs =
      take (Suc i) (buf[i := c mod 256]) @ cs @ drop (Suc i + length cs) (buf[i := c mod 256])"
    by (intro 2) auto
  moreover have "c mod 256 = c" using 2(3) by simp
  ultimately show ?case using 2(2) by (simp add: take_Suc_conv_app_nth)
qed simp

lemma poke_hex:
  assumes "p + length cs \<le> length bs"
  shows "poke (hex_of_bytes bs) (2 * p) (hex_of_bytes cs) = hex_of_bytes (take p bs @ cs @ drop (p + length cs) bs)"
proof -
  have "poke (hex_of_bytes bs) (2 * p) (hex_of_bytes cs) =
      take (2 * p) (hex_of_bytes bs) @ hex_of_bytes cs @ drop (2 * p + 2 * length cs) (hex_of_bytes bs)"
    using assms hex_of_bytes_code by (subst poke_take_drop) auto
  then show ?thesis
    using take_hex_of_bytes [of p bs] drop_hex_of_bytes [of "p + length cs" bs]
    by (simp add: hex_of_bytes_append)
qed

text \<open>The end of a word into a blank word.\<close>

lemma poke_tail:
  assumes "take n (drop i buf) = replicate n 48" "i + n \<le> length buf"
  shows "poke buf i (replicate n 48 @ cs) = poke buf (i + n) cs"
proof -
  have "poke buf i (replicate n 48) = take i buf @ replicate n 48 @ drop (i + n) buf"
    using assms(2) by (subst poke_take_drop) auto
  also have "\<dots> = buf"
    using assms append_take_drop_id [of i buf] append_take_drop_id [of n "drop i buf"] by (simp add: add.commute)
  finally show ?thesis by (simp add: poke_append)
qed

section \<open>HexSink keeps the contract\<close>

definition hk_bytes_of :: "hex_sink \<Rightarrow> byte list" where
  "hk_bytes_of s = bytes_of_hex (hk_buf s)"

definition hk_ok :: "hex_sink \<Rightarrow> bool" where
  "hk_ok s \<longleftrightarrow> hk_buf s = hex_of_bytes (hk_bytes_of s)"

definition hk_view :: "hex_sink \<Rightarrow> sink_view" where
  "hk_view s =
     \<lparr>sv_pos = hk_pos s, sv_area = hk_area s, sv_below = hk_below s, sv_cells = bk_cells (hk_bytes_of s),
      sv_room = length (hk_bytes_of s)\<rparr>"

lemma hk_view_simps [simp]:
  "sv_pos (hk_view s) = hk_pos s" "sv_area (hk_view s) = hk_area s" "sv_below (hk_view s) = hk_below s"
  "sv_cells (hk_view s) = bk_cells (hk_bytes_of s)" "sv_room (hk_view s) = length (hk_bytes_of s)"
  by (simp_all add: hk_view_def)

lemma hk_ok_update: "hk_buf t = hex_of_bytes bs \<Longrightarrow> hk_ok t \<and> hk_bytes_of t = bs"
  by (simp add: hk_ok_def hk_bytes_of_def)

lemma hk_reserve_ok:
  assumes "hk_ok s"
  shows "\<exists>bs. hk_reserve n s = s\<lparr>hk_buf := hex_of_bytes bs\<rparr> \<and> bk_cells bs = bk_cells (hk_bytes_of s) \<and>
     length (hk_bytes_of s) \<le> length bs \<and> hk_pos s + n \<le> length bs"
proof (cases "length (hk_buf s) < (hk_pos s + n) * 2")
  case True
  let ?b = "hk_bytes_of s" and ?m = "max (hk_pos s + n) (length (hk_bytes_of s) * 2)"
  have buf: "hk_buf s = hex_of_bytes ?b" using assms by (simp add: hk_ok_def)
  have "max ((hk_pos s + n) * 2) (length (hk_buf s) * 2) - length (hk_buf s) = 2 * (?m - length ?b)"
    by (simp add: buf max_def diff_mult_distrib2 add_mult_distrib2 mult.commute)
  then have "hk_reserve n s = s\<lparr>hk_buf := hex_of_bytes (?b @ replicate (?m - length ?b) 0)\<rparr>"
    using True by (simp add: hk_reserve_def hk_allocate_def Let_def buf hex_of_bytes_append hex_of_zeros)
  moreover have "hk_pos s + n \<le> length (?b @ replicate (?m - length ?b) 0)" by simp
  ultimately show ?thesis by (metis bk_cells_append_zeros le_add1 length_append)
next
  case False
  then have "hk_reserve n s = s\<lparr>hk_buf := hex_of_bytes (hk_bytes_of s)\<rparr>"
    using assms by (simp add: hk_reserve_def hk_ok_def Let_def)
  moreover have "hk_pos s + n \<le> length (hk_bytes_of s)"
    using False assms length_hex_of_bytes [of "hk_bytes_of s"] by (simp add: hk_ok_def)
  ultimately show ?thesis by blast
qed

lemma hk_stored_reserved:
  assumes "stored (hk_view (s\<lparr>hk_buf := hex_of_bytes b\<rparr>)) bs g W" "bk_cells b = bk_cells (hk_bytes_of s)"
    "length (hk_bytes_of s) \<le> length b"
  shows "stored (hk_view s) bs g W"
  using assms by (auto simp: stored_def hk_bytes_of_def)

text \<open>Bytes poked as text at the position, which moves behind them and \<open>n\<close> zeros.\<close>

lemma hk_poke_padded:
  assumes "hk_buf s = hex_of_bytes b" "hk_pos s + (length bs + n) \<le> length b"
    "blank (bk_cells b) (hk_pos s) (length bs + n)"
  shows "\<exists>b'. poke (hk_buf s) (hk_pos s * 2) (hex_of_bytes bs) = hex_of_bytes b' \<and>
    (\<forall>a. stored (hk_view s) (bs @ replicate n 0) a
      (hk_view (s\<lparr>hk_buf := hex_of_bytes b', hk_pos := hk_pos s + (length bs + n), hk_area := grown (hk_area s) a\<rparr>)))"
proof -
  obtain b' where b': "buf_set b bs (hk_pos s) = Inr b'" "length b' = length b"
    "bk_cells b' = overwrite (hk_pos s) bs (bk_cells b)"
    using bk_cells_set [of "hk_pos s" bs b] assms(2) by auto
  then have "poke (hk_buf s) (hk_pos s * 2) (hex_of_bytes bs) = hex_of_bytes b'"
    using assms(1,2) poke_hex [of "hk_pos s" bs b] by (simp add: buf_set_def mult.commute)
  moreover have "blank (overwrite (hk_pos s) bs (bk_cells b)) (hk_pos s + length bs) n"
    by (rule blank_overwrite [OF blank_sub [OF assms(3)]]) auto
  then have "bk_cells b' = overwrite (hk_pos s) (bs @ replicate n 0) (bk_cells b)"
    by (simp add: b'(3) overwrite_append overwrite_zeros)
  ultimately show ?thesis
    using b'(2) assms by (auto simp: stored_def hk_bytes_of_def)
qed

lemma hk_poke_bytes:
  assumes "hk_buf s = hex_of_bytes b" "hk_pos s + length bs \<le> length b"
  shows "\<exists>b'. poke (hk_buf s) (hk_pos s * 2) (hex_of_bytes bs) = hex_of_bytes b' \<and>
    stored (hk_view s) bs 0 (hk_view (s\<lparr>hk_buf := hex_of_bytes b', hk_pos := hk_pos s + length bs\<rparr>))"
proof -
  obtain b' where b': "buf_set b bs (hk_pos s) = Inr b'" "length b' = length b"
    "bk_cells b' = overwrite (hk_pos s) bs (bk_cells b)"
    using bk_cells_set [OF assms(2)] by auto
  then have "poke (hk_buf s) (hk_pos s * 2) (hex_of_bytes bs) = hex_of_bytes b'"
    using assms poke_hex [of "hk_pos s" bs b] by (simp add: buf_set_def mult.commute)
  with b' assms show ?thesis by (auto simp: stored_def hk_bytes_of_def)
qed

text \<open>The digits of a number at the end of a blank word.\<close>

lemma blank_digits:
  assumes "blank (bk_cells b) p 32" "p + 32 \<le> length b"
  shows "take 64 (drop (p * 2) (hex_of_bytes b)) = replicate 64 48"
proof -
  have "take 32 (drop p b) = replicate 32 0"
    using assms by (intro nth_equalityI) (auto simp: blank_def bk_cells_def)
  then show ?thesis
    using take_hex_of_bytes [of 32 "drop p b"] drop_hex_of_bytes [of p b] hex_of_zeros [of 32]
    by (simp add: mult.commute)
qed

lemma word_digits:
  assumes "0 \<le> v" "v < 2 ^ 256"
  shows "length (toString_radix 16 v) \<le> 64"
    "hex_of_bytes (word_bytes v) = replicate (64 - length (toString_radix 16 v)) 48 @ toString_radix 16 v"
proof -
  let ?ds = "digits 16 (nat v)"
  have s: "toString_radix 16 v = map hex_digit ?ds" using assms by (simp add: toString_radix_def)
  have "nat v < 16 ^ 64" using assms(2) by (simp add: nat_less_iff assms(1))
  then have d: "length ?ds \<le> 64" "replicate (64 - length ?ds) 0 @ ?ds = last_digits 16 64 (nat v)"
    using digits_padded [of 16 "nat v" 64] by simp_all
  show "length (toString_radix 16 v) \<le> 64" using d(1) by (simp add: s)
  have "hex_of_bytes (word_bytes v) = map hex_digit (replicate (64 - length ?ds) 0 @ ?ds)"
    using hex_of_be_bytes [OF assms(1), of 32] d(2) by simp
  then show "hex_of_bytes (word_bytes v) = replicate (64 - length (toString_radix 16 v)) 48 @ toString_radix 16 v"
    by (simp add: s hex_digit_def)
qed

lemma hk_writeWordRight_stored:
  assumes "hk_ok s" "hk_pos s + 32 \<le> length (hk_bytes_of s)" "blank (bk_cells (hk_bytes_of s)) (hk_pos s) 32"
    "0 \<le> v" "v < 2 ^ 256"
  shows "\<exists>s'. hk_writeWordRight (toString_radix 16 v) s = Inr s' \<and> hk_ok s' \<and> stored (hk_view s) (word_bytes v) 0 (hk_view s')"
proof -
  let ?h = "toString_radix 16 v" and ?b = "hk_bytes_of s"
  have buf: "hk_buf s = hex_of_bytes ?b" using assms(1) by (simp add: hk_ok_def)
  obtain b' where b': "poke (hk_buf s) (hk_pos s * 2) (hex_of_bytes (word_bytes v)) = hex_of_bytes b'"
    "stored (hk_view s) (word_bytes v) 0 (hk_view (s\<lparr>hk_buf := hex_of_bytes b', hk_pos := hk_pos s + 32\<rparr>))"
    using hk_poke_bytes [OF buf, of "word_bytes v"] assms(2) by auto
  have n: "length ?h \<le> 64" using word_digits(1) assms(4,5) by blast
  have z: "take 64 (drop (hk_pos s * 2) (hk_buf s)) = replicate 64 48"
    using blank_digits [OF assms(3,2)] buf by simp
  have "take (64 - length ?h) (drop (hk_pos s * 2) (hk_buf s)) =
      take (64 - length ?h) (take 64 (drop (hk_pos s * 2) (hk_buf s)))" by simp
  also have "\<dots> = replicate (64 - length ?h) 48" by (simp only: z take_replicate) simp
  finally have "take (64 - length ?h) (drop (hk_pos s * 2) (hk_buf s)) = replicate (64 - length ?h) 48" .
  then have "poke (hk_buf s) (hk_pos s * 2) (replicate (64 - length ?h) 48 @ ?h) =
      poke (hk_buf s) (hk_pos s * 2 + (64 - length ?h)) ?h"
    using assms(2) by (intro poke_tail) (auto simp: buf)
  then have "poke (hk_buf s) (hk_pos s * 2 + 64 - length ?h) ?h = hex_of_bytes b'"
    using b'(1) word_digits(2) [OF assms(4,5)] n by simp
  then have "hk_writeWordRight ?h s = Inr (s\<lparr>hk_buf := hex_of_bytes b', hk_pos := hk_pos s + 32\<rparr>)"
    using n by (simp add: hk_writeWordRight_def)
  with b'(2) show ?thesis using hk_ok_update by fastforce
qed

lemma hk_reserved_word:
  assumes "hk_ok s" "blank (bk_cells (hk_bytes_of s)) (hk_pos s) 32" "0 \<le> v" "v < 2 ^ 256"
  shows "\<exists>s'. hk_writeWordRight (toString_radix 16 v) (hk_reserve WORD_SIZE s) = Inr s' \<and> hk_ok s' \<and>
    stored (hk_view s) (word_bytes v) 0 (hk_view s')"
proof -
  obtain b where r: "hk_reserve WORD_SIZE s = s\<lparr>hk_buf := hex_of_bytes b\<rparr>" "bk_cells b = bk_cells (hk_bytes_of s)"
    "length (hk_bytes_of s) \<le> length b" "hk_pos s + 32 \<le> length b"
    using hk_reserve_ok [OF assms(1), of WORD_SIZE] by auto
  let ?s = "s\<lparr>hk_buf := hex_of_bytes b\<rparr>"
  have "hk_ok ?s" "hk_bytes_of ?s = b" using hk_ok_update [of ?s b] by simp_all
  then obtain s' where "hk_writeWordRight (toString_radix 16 v) ?s = Inr s'" "hk_ok s'"
    "stored (hk_view ?s) (word_bytes v) 0 (hk_view s')"
    using hk_writeWordRight_stored [of ?s v] r assms by auto
  with hk_stored_reserved [OF _ r(2,3)] r(1) show ?thesis by auto
qed

lemma hk_unsigned_stores:
  assumes "in_unsigned n v" "n \<le> 32"
  shows "stores hk_ok hk_view (hk_unsigned n v) (word_bytes v) 0"
proof -
  have "(256::int) ^ n \<le> 256 ^ 32" using assms(2) by (intro power_increasing) auto
  then have "0 \<le> v" "v < 2 ^ 256" using in_unsigned_word [OF assms(1)] by auto
  then show ?thesis using assms(1) hk_reserved_word by (simp add: stores_def hk_unsigned_def)
qed

lemma hk_i256Raw_stores:
  assumes "in_signed 32 v"
  shows "stores hk_ok hk_view (hk_i256Raw v) (word_bytes v) 0"
proof -
  let ?u = "if v \<ge> 0 then v else v + U256_BASE"
  have "0 \<le> ?u" "?u < 2 ^ 256" using assms by (auto simp: in_signed_def U256_BASE_def)
  moreover have "word_bytes ?u = word_bytes v" by (simp add: be_bytes_wrap)
  ultimately show ?thesis using hk_reserved_word [of _ ?u] by (simp add: stores_def hk_i256Raw_def Let_def)
qed

lemma hk_signed_stores:
  assumes "in_signed n v" "0 < n" "n \<le> 32"
  shows "stores hk_ok hk_view (hk_signed n v) (word_bytes v) 0"
proof -
  have "(256::int) ^ n \<le> 256 ^ 32" using assms(3) by (intro power_increasing) auto
  then have "(256::int) ^ n div 2 \<le> 256 ^ 32 div 2" by (rule zdiv_mono1) simp
  then have "in_signed 32 v" using assms(1) unfolding in_signed_def by linarith
  then show ?thesis using hk_i256Raw_stores assms(1) by (simp add: hk_signed_def [abs_def])
qed

lemma hk_bool_stores: "stores hk_ok hk_view (hk_bool b) (word_bytes (if b then 1 else 0)) 0"
  unfolding hk_bool_def by (rule hk_unsigned_stores) (auto simp: in_unsigned_def)

lemma isHex_text:
  assumes "isHex (JStr t)"
  shows "map lower_hex (drop 2 t) = hex_of_bytes (bytes_of_hex (drop 2 t))"
    "length t - 2 = 2 * length (bytes_of_hex (drop 2 t))"
proof -
  have "list_all (\<lambda>c. hex_char_value c \<noteq> None) (drop 2 t)" "even (length (drop 2 t))"
    using assms by (auto simp: isHex_def)
  then show "map lower_hex (drop 2 t) = hex_of_bytes (bytes_of_hex (drop 2 t))"
    "length t - 2 = 2 * length (bytes_of_hex (drop 2 t))"
    using lower_hex_text [of "drop 2 t"] length_bytes_of_hex [of "drop 2 t"] by auto
qed

text \<open>Both branches of \<open>bytes\<close> come down to the text of the bytes poked behind the length.\<close>

definition hk_bytes_text :: "byte list \<Rightarrow> hex_sink \<Rightarrow> hex_sink result" where
  "hk_bytes_text bs s =
     (let reservedSize = (length bs + 31) div 32 * 32
      in rbind (hk_unsigned 4 (int (length bs)) s) (\<lambda>s.
         let s = hk_reserve reservedSize s
         in Inr (hk_increase (reservedSize + 32)
              (s\<lparr>hk_buf := poke (hk_buf s) (hk_pos s * 2) (hex_of_bytes bs), hk_pos := hk_pos s + reservedSize\<rparr>))))"

lemma hk_unsigned_ok:
  assumes "hk_ok s" "blank (bk_cells (hk_bytes_of s)) (hk_pos s) 32" "in_unsigned n v" "n \<le> 32"
  shows "\<exists>t. hk_unsigned n v s = Inr t \<and> hk_ok t \<and> stored (hk_view s) (word_bytes v) 0 (hk_view t)"
  using hk_unsigned_stores [OF assms(3,4)] assms(1,2) by (simp add: stores_def)

lemma hk_bytes_text_stored:
  assumes s: "hk_ok s" "blank (bk_cells (hk_bytes_of s)) (hk_pos s) (32 + length (padded bs))" "length bs < 2 ^ 32"
  shows "\<exists>s'. hk_bytes_text bs s = Inr s' \<and> hk_ok s' \<and>
    stored (hk_view s) (word_bytes (int (length bs)) @ padded bs) (32 + length (padded bs)) (hk_view s')"
proof -
  let ?n = "int (length bs)" and ?r = "(length bs + 31) div 32 * 32"
  have "in_unsigned 4 ?n" using s(3) by (simp add: in_unsigned_def)
  then obtain t where t: "hk_unsigned 4 ?n s = Inr t" "hk_ok t" "stored (hk_view s) (word_bytes ?n) 0 (hk_view t)"
    using hk_unsigned_ok [OF s(1) blank_sub [OF s(2)], of 4 ?n] by auto
  obtain b where r: "hk_reserve ?r t = t\<lparr>hk_buf := hex_of_bytes b\<rparr>" "bk_cells b = bk_cells (hk_bytes_of t)"
    "length (hk_bytes_of t) \<le> length b" "hk_pos t + ?r \<le> length b"
    using hk_reserve_ok [OF t(2), of ?r] by auto
  let ?t = "t\<lparr>hk_buf := hex_of_bytes b\<rparr>"
  have "blank (bk_cells b) (hk_pos ?t) (length bs + (?r - length bs))"
    using t(3) r(2) blank_overwrite [OF blank_sub [OF s(2), of "hk_pos s + 32" ?r], of "hk_pos s" "word_bytes ?n"]
    by (auto simp: stored_def padded_split)
  then obtain b' where b': "poke (hex_of_bytes b) (hk_pos t * 2) (hex_of_bytes bs) = hex_of_bytes b'"
    "stored (hk_view ?t) (padded bs) (32 + ?r)
      (hk_view (?t\<lparr>hk_buf := hex_of_bytes b', hk_pos := hk_pos t + ?r, hk_area := grown (hk_area t) (32 + ?r)\<rparr>))"
    using hk_poke_padded [of ?t b bs "?r - length bs"] r(4) by (auto simp: padded_split)
  have "stored (hk_view s) (word_bytes ?n @ padded bs) (0 + (32 + ?r))
      (hk_view (?t\<lparr>hk_buf := hex_of_bytes b', hk_pos := hk_pos t + ?r, hk_area := grown (hk_area t) (32 + ?r)\<rparr>))"
    using stored_trans [OF t(3) hk_stored_reserved [OF b'(2) r(2,3)]] .
  moreover have "hk_bytes_text bs s = Inr (t\<lparr>hk_buf := hex_of_bytes b', hk_pos := hk_pos t + ?r, hk_area := grown (hk_area t) (32 + ?r)\<rparr>)"
    using t(1) r(1) b'(1) by (simp add: hk_bytes_text_def hk_increase_def grown_def Let_def add.commute)
  moreover have "hk_ok (t\<lparr>hk_buf := hex_of_bytes b', hk_pos := hk_pos t + ?r, hk_area := grown (hk_area t) (32 + ?r)\<rparr>)"
    by (simp add: hk_ok_def hk_bytes_of_def)
  ultimately show ?thesis by simp
qed

lemma hk_bytes_eq:
  assumes s: "hk_ok s" "blank (bk_cells (hk_bytes_of s)) (hk_pos s) 32" "length bs < 2 ^ 32" "bytes_arg x = Some bs"
  shows "hk_bytes x s = hk_bytes_text bs s"
proof -
  let ?r = "(length bs + 31) div 32 * 32"
  have "in_unsigned 4 (int (length bs))" using s(3) by (simp add: in_unsigned_def)
  then obtain t where t: "hk_unsigned 4 (int (length bs)) s = Inr t" "hk_ok t"
    using hk_unsigned_ok [OF s(1,2), of 4 "int (length bs)"] by auto
  obtain b where r: "hk_reserve ?r t = t\<lparr>hk_buf := hex_of_bytes b\<rparr>" "hk_pos t + ?r \<le> length b"
    using hk_reserve_ok [OF t(2), of ?r] by auto
  have r': "hk_reserve ((31 + length bs) div 32 * 32) t = t\<lparr>hk_buf := hex_of_bytes b\<rparr>"
    using r(1) by (simp add: add.commute)
  consider "x = EBytes bs" | u where "x = EStr u" "isHex (JStr u)" "bs = bytes_of_hex (drop 2 u)"
    using s(4) by (auto simp: bytes_arg_def split: evm_val.splits if_splits)
  then show ?thesis
  proof cases
    case 1
    then show ?thesis
      using t(1) r' r(2)
      by (simp add: hk_bytes_def hk_bytes_text_def hk_write_def hk_encodeBytes_def hk_increase_def Let_def add.commute)
  next
    case 2
    then show ?thesis
      using t(1) r' r(2) isHex_text [OF 2(2)]
      by (simp add: hk_bytes_def hk_bytes_text_def hk_write_def hk_copyHexLower_def hk_increase_def Let_def add.commute)
  qed
qed

lemma hk_bytes_stores:
  assumes "bytes_arg x = Some bs" "length bs < 2 ^ 32"
  shows "stores hk_ok hk_view (hk_bytes x) (word_bytes (int (length bs)) @ padded bs) (32 + length (padded bs))"
  unfolding stores_def
proof (intro allI impI)
  fix s
  assume s: "hk_ok s" and b: "blank (sv_cells (hk_view s)) (sv_pos (hk_view s)) (length (word_bytes (int (length bs)) @ padded bs))"
  then have "hk_bytes x s = hk_bytes_text bs s"
    using hk_bytes_eq [OF s _ assms(2,1)] blank_sub [OF b, of "hk_pos s" 32] by simp
  with hk_bytes_text_stored [OF s _ assms(2)] b
  show "\<exists>s'. hk_bytes x s = Inr s' \<and> hk_ok s' \<and>
      stored (hk_view s) (word_bytes (int (length bs)) @ padded bs) (32 + length (padded bs)) (hk_view s')"
    by simp
qed

lemma hk_staticBytes_eq:
  assumes "n \<le> 32" "bytes_arg x = Some bs" "length bs \<le> n"
  shows "hk_staticBytes n x s =
    (let s = hk_reserve WORD_SIZE s
     in Inr (s\<lparr>hk_buf := poke (hk_buf s) (hk_pos s * 2) (hex_of_bytes bs), hk_pos := hk_pos s + WORD_SIZE\<rparr>))"
proof -
  consider "x = EBytes bs" | u where "x = EStr u" "isHex (JStr u)" "bs = bytes_of_hex (drop 2 u)"
    using assms(2) by (auto simp: bytes_arg_def split: evm_val.splits if_splits)
  then show ?thesis
  proof cases
    case 1
    then show ?thesis using assms by (simp add: hk_staticBytes_def hk_encodeBytes_def Let_def)
  next
    case 2
    then show ?thesis
      using assms isHex_text [OF 2(2)] by (simp add: hk_staticBytes_def hk_copyHexLower_def Let_def)
  qed
qed

lemma hk_staticBytes_stores:
  assumes x: "n \<le> 32" "bytes_arg x = Some bs" "length bs \<le> n"
  shows "stores hk_ok hk_view (hk_staticBytes n x) (bs @ replicate (32 - length bs) 0) 0"
  unfolding stores_def
proof (intro allI impI)
  fix s
  assume s: "hk_ok s" and bl: "blank (sv_cells (hk_view s)) (sv_pos (hk_view s)) (length (bs @ replicate (32 - length bs) 0))"
  obtain b where r: "hk_reserve WORD_SIZE s = s\<lparr>hk_buf := hex_of_bytes b\<rparr>" "bk_cells b = bk_cells (hk_bytes_of s)"
    "length (hk_bytes_of s) \<le> length b" "hk_pos s + 32 \<le> length b"
    using hk_reserve_ok [OF s, of WORD_SIZE] by auto
  let ?s = "s\<lparr>hk_buf := hex_of_bytes b\<rparr>"
  obtain b' where b': "poke (hex_of_bytes b) (hk_pos s * 2) (hex_of_bytes bs) = hex_of_bytes b'"
    "\<forall>a. stored (hk_view ?s) (bs @ replicate (32 - length bs) 0) a
      (hk_view (?s\<lparr>hk_buf := hex_of_bytes b', hk_pos := hk_pos s + 32, hk_area := grown (hk_area s) a\<rparr>))"
    using hk_poke_padded [of ?s b bs "32 - length bs"] r bl x by auto
  have "stored (hk_view ?s) (bs @ replicate (32 - length bs) 0) 0
      (hk_view (s\<lparr>hk_buf := hex_of_bytes b', hk_pos := hk_pos s + 32\<rparr>))"
    using spec [OF b'(2), of 0] by simp
  from hk_stored_reserved [OF this r(2,3)] hk_ok_update [of "s\<lparr>hk_buf := hex_of_bytes b', hk_pos := hk_pos s + 32\<rparr>" b']
  show "\<exists>s'. hk_staticBytes n x s = Inr s' \<and> hk_ok s' \<and> stored (hk_view s) (bs @ replicate (32 - length bs) 0) 0 (hk_view s')"
    using hk_staticBytes_eq [OF x, of s] r(1) b'(1) by (simp add: Let_def)
qed

lemma hk_address_stores:
  assumes t: "plain_address t"
  shows "stores hk_ok hk_view (hk_address t) (replicate 12 0 @ bytes_of_hex (drop 2 t)) 0"
  unfolding stores_def
proof (intro allI impI)
  fix s
  let ?a = "bytes_of_hex (drop 2 t)"
  assume s: "hk_ok s" and bl: "blank (sv_cells (hk_view s)) (sv_pos (hk_view s)) (length (replicate 12 0 @ ?a))"
  obtain b where r: "hk_reserve WORD_SIZE s = s\<lparr>hk_buf := hex_of_bytes b\<rparr>" "bk_cells b = bk_cells (hk_bytes_of s)"
    "length (hk_bytes_of s) \<le> length b" "hk_pos s + 32 \<le> length b"
    using hk_reserve_ok [OF s, of WORD_SIZE] by auto
  let ?s = "s\<lparr>hk_buf := hex_of_bytes b\<rparr>"
  have a: "length ?a = 20" using plain_addressD(2) [OF t] .
  then obtain b' where b': "poke (hex_of_bytes b) (hk_pos s * 2) (hex_of_bytes (replicate 12 0 @ ?a)) = hex_of_bytes b'"
    "stored (hk_view ?s) (replicate 12 0 @ ?a) 0 (hk_view (s\<lparr>hk_buf := hex_of_bytes b', hk_pos := hk_pos s + 32\<rparr>))"
    using hk_poke_bytes [of ?s b "replicate 12 0 @ ?a"] r(4) by auto
  have "take 24 (drop (hk_pos s * 2) (hex_of_bytes b)) = replicate 24 48"
  proof -
    have "blank (bk_cells b) (hk_pos s) 12" using bl r(2) by (simp add: blank_def)
    then have "take 12 (drop (hk_pos s) b) = replicate 12 0"
      using r(4) by (intro nth_equalityI) (auto simp: blank_def bk_cells_def)
    then show ?thesis
      using take_hex_of_bytes [of 12 "drop (hk_pos s) b"] drop_hex_of_bytes [of "hk_pos s" b] hex_of_zeros [of 12]
      by (simp add: mult.commute)
  qed
  then have "poke (hex_of_bytes b) (hk_pos s * 2 + 24) (hex_of_bytes ?a) = hex_of_bytes b'"
    using poke_tail [of 24 "hk_pos s * 2" "hex_of_bytes b"] b'(1) r(4) hex_of_zeros [of 12]
    by (simp add: hex_of_bytes_append)
  moreover have "map lower_hex (drop 2 t) = hex_of_bytes ?a"
    using t lower_hex_text [of "drop 2 t"] by (simp add: plain_address_def)
  ultimately have "hk_address t s = Inr (s\<lparr>hk_buf := hex_of_bytes b', hk_pos := hk_pos s + 32\<rparr>)"
    using t r(1) plain_addressD(1) [OF t] by (simp add: hk_address_def hk_copyHexLower_def plain_address_def Let_def)
  with hk_stored_reserved [OF b'(2) r(2,3)] hk_ok_update [of "s\<lparr>hk_buf := hex_of_bytes b', hk_pos := hk_pos s + 32\<rparr>" b']
  show "\<exists>s'. hk_address t s = Inr s' \<and> hk_ok s' \<and> stored (hk_view s) (replicate 12 0 @ ?a) 0 (hk_view s')"
    by simp
qed

section \<open>Tails\<close>

lemma hk_u32Raw_stored:
  assumes "hk_ok s" "blank (bk_cells (hk_bytes_of s)) (hk_pos s) 32" "v < 2 ^ 32"
  shows "\<exists>t. hk_u32Raw v (hk_reserve WORD_SIZE s) = Inr t \<and> hk_ok t \<and> stored (hk_view s) (word_bytes (int v)) 0 (hk_view t)"
proof -
  have "int v < 2 ^ 256" using assms(3) by simp
  then show ?thesis using hk_reserved_word [OF assms(1,2), of "int v"] by (simp add: hk_u32Raw_def)
qed

lemma hk_pushDataArea_ok:
  assumes "hk_ok s"
  shows "\<exists>b. hk_pushDataArea st n cw s =
      s\<lparr>hk_buf := hex_of_bytes b,
        hk_area := \<lparr>ar_start = st, ar_jumpBackPtr = hk_pos s, ar_size = 32 * n, ar_countWord = cw\<rparr>,
        hk_below := hk_area s # hk_below s\<rparr> \<and>
     bk_cells b = bk_cells (hk_bytes_of s) \<and> length (hk_bytes_of s) \<le> length b"
proof -
  obtain b where "hk_reserve (st + n * 32) s = s\<lparr>hk_buf := hex_of_bytes b\<rparr>" "bk_cells b = bk_cells (hk_bytes_of s)"
    "length (hk_bytes_of s) \<le> length b"
    using hk_reserve_ok [OF assms, of "st + n * 32"] by auto
  then show ?thesis by (auto simp: hk_pushDataArea_def Let_def mult.commute)
qed

lemma hk_openTail_opened:
  assumes "hk_ok s" "blank (bk_cells (hk_bytes_of s)) (hk_pos s) 32" "ar_size (hk_area s) < 2 ^ 32"
  shows "\<exists>s'. hk_openTail n s = Inr s' \<and> hk_ok s' \<and> opened (hk_view s) n (hk_view s')"
proof -
  obtain t where t: "hk_u32Raw (hk_size s) (hk_reserve WORD_SIZE s) = Inr t" "hk_ok t"
    "stored (hk_view s) (word_bytes (int (hk_size s))) 0 (hk_view t)"
    using hk_u32Raw_stored [OF assms(1,2), of "hk_size s"] assms(3) by (auto simp: hk_size_def)
  let ?e = "ar_start (hk_area t) + hk_size s"
  obtain b where b: "hk_pushDataArea ?e n False t =
      t\<lparr>hk_buf := hex_of_bytes b,
        hk_area := \<lparr>ar_start = ?e, ar_jumpBackPtr = hk_pos t, ar_size = 32 * n, ar_countWord = False\<rparr>,
        hk_below := hk_area t # hk_below t\<rparr>" (is "_ = ?t")
     "bk_cells b = bk_cells (hk_bytes_of t)" "length (hk_bytes_of t) \<le> length b"
    using hk_pushDataArea_ok [OF t(2)] by blast
  let ?s' = "?t\<lparr>hk_pos := ?e\<rparr>"
  have "hk_openTail n s = Inr ?s'" using t(1) b(1) by (simp add: hk_openTail_def Let_def)
  moreover have o: "hk_ok ?s' \<and> hk_bytes_of ?s' = b" by (rule hk_ok_update) simp
  moreover have "opened (hk_view s) n (hk_view ?s')"
    using t(3) b(2,3) conjunct2 [OF o] by (auto simp: opened_def stored_def hk_size_def Let_def)
  ultimately show ?thesis by blast
qed

lemma hk_openArray_opened:
  assumes "hk_ok s" "blank (bk_cells (hk_bytes_of s)) (hk_pos s) 32"
    "blank (bk_cells (hk_bytes_of s)) (ar_start (hk_area s) + ar_size (hk_area s)) 32"
    "hk_pos s + 32 \<le> ar_start (hk_area s) + ar_size (hk_area s)"
    "ar_size (hk_area s) < 2 ^ 32" "n < 2 ^ 32"
  shows "\<exists>s'. hk_openArray n s = Inr s' \<and> hk_ok s' \<and> opened_array (hk_view s) n (hk_view s')"
proof -
  obtain t where t: "hk_u32Raw (hk_size s) (hk_reserve WORD_SIZE s) = Inr t" "hk_ok t"
    "stored (hk_view s) (word_bytes (int (hk_size s))) 0 (hk_view t)"
    using hk_u32Raw_stored [OF assms(1,2), of "hk_size s"] assms(5) by (auto simp: hk_size_def)
  let ?e = "ar_start (hk_area t) + hk_size s"
  obtain b where b: "hk_pushDataArea (?e + WORD_SIZE) n True t =
      t\<lparr>hk_buf := hex_of_bytes b,
        hk_area := \<lparr>ar_start = ?e + WORD_SIZE, ar_jumpBackPtr = hk_pos t, ar_size = 32 * n, ar_countWord = True\<rparr>,
        hk_below := hk_area t # hk_below t\<rparr>" (is "_ = ?t")
     "bk_cells b = bk_cells (hk_bytes_of t)" "length (hk_bytes_of t) \<le> length b"
    using hk_pushDataArea_ok [OF t(2)] by blast
  let ?s' = "?t\<lparr>hk_pos := ?e\<rparr>"
  have o: "hk_ok ?s' \<and> hk_bytes_of ?s' = b" by (rule hk_ok_update) simp
  have "blank (bk_cells (hk_bytes_of ?s')) (hk_pos ?s') 32"
    using conjunct2 [OF o] t(3) b(2) blank_overwrite [OF assms(3)] assms(4) by (auto simp: stored_def hk_size_def)
  then obtain u where u: "hk_u32Raw n (hk_reserve WORD_SIZE ?s') = Inr u" "hk_ok u"
    "stored (hk_view ?s') (word_bytes (int n)) 0 (hk_view u)"
    using hk_u32Raw_stored [OF conjunct1 [OF o], of n] assms(6) by auto
  have "hk_openArray n s = Inr u" using t(1) b(1) u(1) by (simp add: hk_openArray_def Let_def)
  moreover have "opened_array (hk_view s) n (hk_view u)"
    using t(3) b(2,3) u(3) conjunct2 [OF o] by (auto simp: opened_array_def stored_def hk_size_def Let_def)
  ultimately show ?thesis using u(2) by blast
qed

lemma hk_closeTail_closed:
  "hk_ok s \<Longrightarrow> hk_below s \<noteq> [] \<Longrightarrow> \<exists>s'. hk_closeTail s = Inr s' \<and> hk_ok s' \<and> closed (hk_view s) (hk_view s')"
  by (auto simp: hk_closeTail_def closed_def hk_increase_def grown_def hk_ok_def hk_bytes_of_def Let_def)

interpretation hex_sink: evm_sink_laws hex_sink_ops hk_ok hk_view
  by unfold_locales
    (simp_all add: hex_sink_ops_def hk_unsigned_stores hk_signed_stores hk_bool_stores hk_bytes_stores [simplified]
      hk_staticBytes_stores hk_address_stores hk_openTail_opened hk_openArray_opened hk_closeTail_closed
      hk_string_def hk_unsigned_def hk_signed_def)

end
