(* ===== verification/Evm_Src_Laws.thy ===== *)
theory Evm_Src_Laws
  imports Evm_Src Evm_Hex_Sink
begin

text \<open>
  What the codecs of the EVM rely on in a source: the locale \<open>evm_src_laws\<close> over the bytes it reads, its position
  and the position that \<open>jump\<close> saves. Both sources of the repository are interpretations: they read the same
  values from bytes and from their hexadecimal text.
\<close>

section \<open>The contract\<close>

definition holds :: "byte list \<Rightarrow> nat \<Rightarrow> byte list \<Rightarrow> bool" where
  "holds D p bs \<longleftrightarrow> p + length bs \<le> length D \<and> take (length bs) (drop p D) = bs"

definition reads :: "('s \<Rightarrow> bool) \<Rightarrow> ('s \<Rightarrow> byte list) \<Rightarrow> ('s \<Rightarrow> nat) \<Rightarrow> ('s \<Rightarrow> nat) \<Rightarrow>
    ('s \<Rightarrow> ('a \<times> 's) result) \<Rightarrow> byte list \<Rightarrow> 'a \<Rightarrow> bool" where
  "reads ok data at saved f bs v \<longleftrightarrow>
     (\<forall>s. ok s \<longrightarrow> holds (data s) (at s) bs \<longrightarrow>
        (\<exists>s'. f s = Inr (v, s') \<and> ok s' \<and> data s' = data s \<and> at s' = at s + length bs \<and> saved s' = saved s))"

text \<open>A pointer at the position, the length and the bytes of a dynamic value where it points.\<close>

definition holds_dynamic :: "byte list \<Rightarrow> nat \<Rightarrow> nat \<Rightarrow> byte list \<Rightarrow> bool" where
  "holds_dynamic D p off bs \<longleftrightarrow>
     off < 2 ^ 32 \<and> length bs < 2 ^ 32 \<and> holds D p (word_bytes (int off)) \<and>
     holds D off (word_bytes (int (length bs)) @ bs)"

locale evm_src_laws =
  fixes r :: "'s evm_src"
    and ok :: "'s \<Rightarrow> bool"
    and data :: "'s \<Rightarrow> byte list"
    and at :: "'s \<Rightarrow> nat"
    and saved :: "'s \<Rightarrow> nat"
  assumes unsigned_reads:
      "in_unsigned 1 v \<Longrightarrow> reads ok data at saved (r_u8 r) (word_bytes v) (Some v)"
      "in_unsigned 2 v \<Longrightarrow> reads ok data at saved (r_u16 r) (word_bytes v) (Some v)"
      "in_unsigned 4 v \<Longrightarrow> reads ok data at saved (r_u32 r) (word_bytes v) (Some v)"
      "in_unsigned 8 v \<Longrightarrow> reads ok data at saved (r_u64 r) (word_bytes v) v"
      "in_unsigned 16 v \<Longrightarrow> reads ok data at saved (r_u128 r) (word_bytes v) v"
      "in_unsigned 32 v \<Longrightarrow> reads ok data at saved (r_u256 r) (word_bytes v) v"
    and signed_reads:
      "in_signed 1 v \<Longrightarrow> reads ok data at saved (r_i8 r) (word_bytes v) (Some v)"
      "in_signed 2 v \<Longrightarrow> reads ok data at saved (r_i16 r) (word_bytes v) (Some v)"
      "in_signed 4 v \<Longrightarrow> reads ok data at saved (r_i32 r) (word_bytes v) (Some v)"
      "in_signed 8 v \<Longrightarrow> reads ok data at saved (r_i64 r) (word_bytes v) v"
      "in_signed 16 v \<Longrightarrow> reads ok data at saved (r_i128 r) (word_bytes v) v"
      "in_signed 32 v \<Longrightarrow> reads ok data at saved (r_i256 r) (word_bytes v) v"
    and bool_reads: "reads ok data at saved (r_bool r) (word_bytes (if b then 1 else 0)) b"
    and staticBytesHex_reads: "n \<le> 32 \<Longrightarrow> length w = 32 \<Longrightarrow>
      reads ok data at saved (r_staticBytesHex r n) w (js ''0x'' @ hex_of_bytes (take n w))"
    and address_reads: "length w = 32 \<Longrightarrow>
      reads ok data at saved (r_address r) w (js ''0x'' @ hex_of_bytes (drop 12 w))"
    and bytesHex_reads: "ok s \<Longrightarrow> holds_dynamic (data s) (at s) off bs \<Longrightarrow>
      \<exists>s'. r_bytesHex r s = Inr (js ''0x'' @ hex_of_bytes bs, s') \<and> ok s' \<and> data s' = data s \<and> at s' = at s + 32"
    and string_reads: "ok s \<Longrightarrow> holds_dynamic (data s) (at s) off bs \<Longrightarrow>
      \<exists>s'. r_string r s = Inr (TEXT_DECODER_decode bs, s') \<and> ok s' \<and> data s' = data s \<and> at s' = at s + 32"
    and jump_law: "ok s \<Longrightarrow> p < length (data s) \<Longrightarrow>
      \<exists>s'. r_jump r (Some (int p)) s = Inr s' \<and> ok s' \<and> data s' = data s \<and> at s' = p \<and> saved s' = at s"
    and jumpBack_law: "ok s \<Longrightarrow>
      ok (r_jumpBack r s) \<and> data (r_jumpBack r s) = data s \<and> at (r_jumpBack r s) = saved s"
    and slice_law: "ok s \<Longrightarrow> p \<le> length (data s) \<Longrightarrow>
      ok (r_slice r (Some (int p)) s) \<and> data (r_slice r (Some (int p)) s) = drop p (data s) \<and>
      at (r_slice r (Some (int p)) s) = 0"

section \<open>Values of words\<close>

lemma le_val_append: "le_val (as @ bs) = le_val as + 256 ^ length as * le_val bs"
  by (induction as) (auto simp: algebra_simps)

lemma be_val_append: "be_val (as @ bs) = be_val as * 256 ^ length bs + be_val bs"
  by (simp add: be_val_def le_val_append)

lemma be_val_be_bytes: "be_val (be_bytes n v) = v mod 256 ^ n"
  by (simp add: be_val_def be_bytes_def le_val_le_bytes)

lemma be_val_bounds: "0 \<le> be_val bs" "be_val bs < 256 ^ length bs"
  using le_val_bounds [of "rev bs"] by (simp_all add: be_val_def)

lemma or_push_bit: "0 \<le> lo \<Longrightarrow> lo < 2 ^ k \<Longrightarrow> or (push_bit k hi) lo = hi * 2 ^ k + (lo :: int)"
proof -
  assume lo: "0 \<le> lo" "lo < 2 ^ k"
  then have "take_bit k lo = lo" by (simp add: take_bit_int_eq_self)
  then have "\<not> bit lo n" if "k \<le> n" for n
    using that by (metis bit_take_bit_iff not_le)
  then have "push_bit k hi + lo = or (push_bit k hi) lo"
    by (intro disjunctive_add) (auto simp: bit_simps)
  then show ?thesis by (simp add: push_bit_eq_mult)
qed

lemma word_bytes_right: "n \<le> 32 \<Longrightarrow> drop (32 - n) (word_bytes v) = be_bytes n v"
  using be_bytes_append [of "32 - n" n v] by simp

lemma holds_length: "holds D p bs \<Longrightarrow> p + length bs \<le> length D"
  by (simp add: holds_def)

lemma holds_take_drop:
  assumes "holds D p bs" "i + n \<le> length bs"
  shows "take n (drop (p + i) D) = take n (drop i bs)"
proof -
  have "take n (drop i bs) = take n (drop i (take (length bs) (drop p D)))" using assms(1) by (simp add: holds_def)
  also have "\<dots> = take n (drop (p + i) D)" using assms(2) by (simp add: drop_take add.commute)
  finally show ?thesis by simp
qed

lemma holds_append: "holds D p (as @ bs) \<longleftrightarrow> holds D p as \<and> holds D (p + length as) bs"
  by (auto simp: holds_def take_add add.commute append_eq_append_conv)

lemma holds_drop: "q \<le> length D \<Longrightarrow> holds (drop q D) p bs \<longleftrightarrow> holds D (q + p) bs"
  by (auto simp: holds_def add.commute)

section \<open>BytesSrc keeps the contract\<close>

definition br_at :: "bytes_src \<Rightarrow> nat" where
  "br_at s = nat (the (br_pos s))"

definition br_saved :: "bytes_src \<Rightarrow> nat" where
  "br_saved s = nat (the (br_oldPos s))"

definition br_ok :: "bytes_src \<Rightarrow> bool" where
  "br_ok s \<longleftrightarrow> br_off s + br_len s \<le> length (br_arr s) \<and> br_pos s = Some (int (br_at s)) \<and>
     br_oldPos s = Some (int (br_saved s))"

lemma br_okD: "br_ok s \<Longrightarrow> br_off s + br_len s \<le> length (br_arr s) \<and> (\<exists>p q. br_pos s = Some (int p) \<and> br_oldPos s = Some (int q) \<and>
    br_at s = p \<and> br_saved s = q)"
  unfolding br_ok_def by blast

lemma br_okI: "br_off s + br_len s \<le> length (br_arr s) \<Longrightarrow> br_pos s = Some (int p) \<Longrightarrow> br_oldPos s = Some (int q) \<Longrightarrow>
    br_ok s \<and> br_at s = p \<and> br_saved s = q"
  by (simp add: br_ok_def br_at_def br_saved_def)

lemma br_ok_length: "br_ok s \<Longrightarrow> length (br_buf s) = br_len s"
  by (auto simp: br_ok_def br_buf_def min_def)

lemma br_buf_update [simp]: "br_buf (s\<lparr>br_pos := p\<rparr>) = br_buf s" "br_buf (s\<lparr>br_oldPos := q\<rparr>) = br_buf s"
  by (simp_all add: br_buf_def)

lemma br_advance_ok:
  assumes "br_ok s"
  shows "br_ok (br_advance (int n) s)" "br_buf (br_advance (int n) s) = br_buf s"
    "br_at (br_advance (int n) s) = br_at s + n" "br_saved (br_advance (int n) s) = br_saved s"
proof -
  obtain p q where "br_pos s = Some (int p)" "br_oldPos s = Some (int q)" using assms by (auto simp: br_ok_def)
  then show "br_ok (br_advance (int n) s)" "br_buf (br_advance (int n) s) = br_buf s"
    "br_at (br_advance (int n) s) = br_at s + n" "br_saved (br_advance (int n) s) = br_saved s"
    using assms by (auto simp: br_ok_def br_advance_def br_at_def br_saved_def)
qed

lemma br_view_ok:
  assumes "br_ok s" "i + n \<le> length (br_buf s)"
  shows "br_view (Some (int i)) n s = Inr (be_val (take n (drop i (br_buf s))))"
  using assms by (simp add: br_view_def br_ok_length)

lemma br_pos_ok: "br_ok s \<Longrightarrow> br_pos s = Some (int (br_at s))"
  by (simp add: br_ok_def)

lemma br_right_reads:
  assumes "n \<le> 32"
  shows "reads br_ok br_buf br_at br_saved (br_right n) (word_bytes v) (v mod 256 ^ n)"
  unfolding reads_def
proof (intro allI impI)
  fix s
  assume s: "br_ok s" and h: "holds (br_buf s) (br_at s) (word_bytes v)"
  let ?t = "br_advance (int (32 - n)) s"
  note t = br_advance_ok [OF s, of "32 - n"] and u = br_advance_ok [OF br_advance_ok(1) [OF s], of n "32 - n"]
  have "take n (drop (br_at s + (32 - n)) (br_buf s)) = be_bytes n v"
    using holds_take_drop [OF h, of "32 - n" n] assms word_bytes_right [OF assms, of v] by simp
  then have "br_view (br_pos ?t) n ?t = Inr (v mod 256 ^ n)"
    using br_view_ok [OF t(1), of "br_at s + (32 - n)" n] holds_length [OF h] assms br_pos_ok [OF t(1)] t
    by (simp add: be_val_be_bytes)
  then show "\<exists>s'. br_right n s = Inr (v mod 256 ^ n, s') \<and> br_ok s' \<and> br_buf s' = br_buf s \<and>
      br_at s' = br_at s + length (word_bytes v) \<and> br_saved s' = br_saved s"
    using t u assms by (simp add: br_right_def Let_def)
qed

lemma br_u128Raw_ok:
  assumes s: "br_ok s" and h: "holds (br_buf s) (br_at s) w" "length w = 16"
  shows "\<exists>s'. br_u128Raw s = Inr (be_val w, s') \<and> br_ok s' \<and> br_buf s' = br_buf s \<and> br_at s' = br_at s + 16 \<and>
    br_saved s' = br_saved s"
proof -
  have "br_view (br_pos s) 8 s = Inr (be_val (take 8 w))"
    using br_view_ok [OF s, of "br_at s" 8] holds_length [OF h(1)] h(2) br_pos_ok [OF s] holds_take_drop [OF h(1), of 0 8]
    by simp
  moreover have "br_view (nplus (br_pos s) 8) 8 s = Inr (be_val (drop 8 w))"
    using br_view_ok [OF s, of "br_at s + 8" 8] holds_length [OF h(1)] h(2) br_pos_ok [OF s] holds_take_drop [OF h(1), of 8 8]
    by simp
  moreover have "or (push_bit 64 (be_val (take 8 w))) (be_val (drop 8 w)) = be_val w"
    using be_val_append [of "take 8 w" "drop 8 w"] be_val_bounds [of "drop 8 w"] h(2) by (simp add: or_push_bit)
  ultimately show ?thesis using br_advance_ok [OF s, of 16] by (simp add: br_u128Raw_def)
qed

lemma br_u128_reads: "reads br_ok br_buf br_at br_saved br_u128 (word_bytes v) (v mod 256 ^ 16)"
  unfolding reads_def
proof (intro allI impI)
  fix s
  assume s: "br_ok s" and h: "holds (br_buf s) (br_at s) (word_bytes v)"
  let ?t = "br_advance 16 s"
  note t = br_advance_ok [OF s, of 16, simplified]
  have "holds (br_buf ?t) (br_at ?t) (be_bytes 16 v)"
    using h be_bytes_append [of 16 16 v] by (simp add: t holds_append)
  then obtain s' where "br_u128Raw ?t = Inr (be_val (be_bytes 16 v), s')" "br_ok s'" "br_buf s' = br_buf s"
    "br_at s' = br_at s + 32" "br_saved s' = br_saved s"
    using br_u128Raw_ok [OF t(1), of "be_bytes 16 v"] t by auto
  then show "\<exists>s'. br_u128 s = Inr (v mod 256 ^ 16, s') \<and> br_ok s' \<and> br_buf s' = br_buf s \<and>
      br_at s' = br_at s + length (word_bytes v) \<and> br_saved s' = br_saved s"
    by (simp add: br_u128_def be_val_be_bytes)
qed

lemma br_u256_ok:
  assumes s: "br_ok s" and h: "holds (br_buf s) (br_at s) w" "length w = 32"
  shows "\<exists>s'. br_u256 s = Inr (be_val w, s') \<and> br_ok s' \<and> br_buf s' = br_buf s \<and> br_at s' = br_at s + 32 \<and>
    br_saved s' = br_saved s"
proof -
  have h': "holds (br_buf s) (br_at s) (take 16 w)" "holds (br_buf s) (br_at s + 16) (drop 16 w)"
    using h holds_append [of "br_buf s" "br_at s" "take 16 w" "drop 16 w"] by auto
  obtain t where t: "br_u128Raw s = Inr (be_val (take 16 w), t)" "br_ok t" "br_buf t = br_buf s" "br_at t = br_at s + 16"
    "br_saved t = br_saved s"
    using br_u128Raw_ok [OF s h'(1)] h(2) by auto
  then obtain u where u: "br_u128Raw t = Inr (be_val (drop 16 w), u)" "br_ok u" "br_buf u = br_buf s"
    "br_at u = br_at s + 32" "br_saved u = br_saved s"
    using br_u128Raw_ok [OF t(2), of "drop 16 w"] h'(2) h(2) by auto
  have "or (push_bit 128 (be_val (take 16 w))) (be_val (drop 16 w)) = be_val w"
    using be_val_append [of "take 16 w" "drop 16 w"] be_val_bounds [of "drop 16 w"] h(2) by (simp add: or_push_bit)
  with t u show ?thesis by (simp add: br_u256_def)
qed

lemma br_u256_reads: "reads br_ok br_buf br_at br_saved br_u256 (word_bytes v) (v mod 256 ^ 32)"
  using br_u256_ok [of _ "word_bytes v"] by (auto simp: reads_def be_val_be_bytes)

lemma reads_bind:
  assumes "reads ok data at saved f bs v" "\<And>s. g v s = Inr (w, s)"
  shows "reads ok data at saved (\<lambda>s. rbind (f s) (\<lambda>(x, s). g x s)) bs w"
  unfolding reads_def
proof (intro allI impI)
  fix s
  assume "ok s" "holds (data s) (at s) bs"
  with assms(1) obtain s' where "f s = Inr (v, s')" "ok s'" "data s' = data s" "at s' = at s + length bs" "saved s' = saved s"
    unfolding reads_def by blast
  with assms(2) show "\<exists>s'. rbind (f s) (\<lambda>(x, s). g x s) = Inr (w, s') \<and> ok s' \<and> data s' = data s \<and>
      at s' = at s + length bs \<and> saved s' = saved s" by simp
qed

lemma unsigned_mod: "in_unsigned n v \<Longrightarrow> v mod 256 ^ n = v"
  by (simp add: in_unsigned_def mod_pos_pos_trivial)

lemma signed_mod:
  assumes "in_signed n v" "0 < n"
  shows "signed_val (8 * n) (v mod 256 ^ n) = v"
proof -
  have p: "(256::int) ^ n = 2 ^ (8 * n)" by (simp add: power_mult)
  moreover have "8 * n = Suc (8 * n - 1)" using assms(2) by simp
  then have "(2::int) ^ (8 * n) = 2 * 2 ^ (8 * n - 1)" by (metis power_Suc)
  ultimately have "(256::int) ^ n div 2 = 2 ^ (8 * n - 1)" by simp
  with assms have "- (2 ^ (8 * n - 1)) \<le> v" "v < 2 ^ (8 * n - 1)" by (auto simp: in_signed_def)
  then show ?thesis using signed_val_mod [of "8 * n" v] assms(2) p by simp
qed

lemma br_number_reads:
  "n \<le> 32 \<Longrightarrow> in_unsigned n v \<Longrightarrow> reads br_ok br_buf br_at br_saved (br_number (br_right n)) (word_bytes v) (Some v)"
  using reads_bind [OF br_right_reads, of n "\<lambda>v s. Inr (Some v, s)" v "Some v"] unsigned_mod
  by (simp add: br_number_def [abs_def])

lemma br_i256_reads: "in_signed 32 v \<Longrightarrow> reads br_ok br_buf br_at br_saved br_i256 (word_bytes v) v"
  using reads_bind [OF br_u256_reads, of "\<lambda>v s. Inr (signed_val 256 v, s)" v v] signed_mod [of 32 v]
  by (simp add: br_i256_def [abs_def])

lemma in_signed_mono: "in_signed m v \<Longrightarrow> m \<le> n \<Longrightarrow> in_signed n v"
proof -
  assume v: "in_signed m v" and "m \<le> n"
  then have "(256::int) ^ m \<le> 256 ^ n" by (intro power_increasing) auto
  then have "(256::int) ^ m div 2 \<le> 256 ^ n div 2" by (rule zdiv_mono1) simp
  with v show ?thesis unfolding in_signed_def by linarith
qed

lemma small_signed_exact: "in_signed n v \<Longrightarrow> n \<le> 4 \<Longrightarrow> js_Number v = v"
  using in_signed_mono [of n v 4] by (intro js_Number_exact) (auto simp: in_signed_def)

lemma br_small_signed_reads:
  assumes "in_signed n v" "n \<le> 4"
  shows "reads br_ok br_buf br_at br_saved br_small_signed (word_bytes v) (Some v)"
  using reads_bind [OF br_i256_reads [OF in_signed_mono [OF assms(1), of 32]], of "\<lambda>v s. Inr (Some (js_Number v), s)" "Some v"]
    assms small_signed_exact by (simp add: br_small_signed_def [abs_def])

lemma br_i64_reads: "in_signed 8 v \<Longrightarrow> reads br_ok br_buf br_at br_saved br_i64 (word_bytes v) v"
  using reads_bind [OF br_right_reads, of 8 "\<lambda>v s. Inr (signed_val 64 v, s)" v v] signed_mod [of 8 v]
  by (simp add: br_i64_def [abs_def])

lemma br_i128_reads: "in_signed 16 v \<Longrightarrow> reads br_ok br_buf br_at br_saved br_i128 (word_bytes v) v"
  using reads_bind [OF br_u128_reads, of "\<lambda>v s. Inr (signed_val 128 v, s)" v v] signed_mod [of 16 v]
  by (simp add: br_i128_def [abs_def])

lemma br_unsigned_reads:
  "in_unsigned 1 v \<Longrightarrow> reads br_ok br_buf br_at br_saved br_u8 (word_bytes v) (Some v)"
  "in_unsigned 2 v \<Longrightarrow> reads br_ok br_buf br_at br_saved br_u16 (word_bytes v) (Some v)"
  "in_unsigned 4 v \<Longrightarrow> reads br_ok br_buf br_at br_saved br_u32 (word_bytes v) (Some v)"
  "in_unsigned 8 v \<Longrightarrow> reads br_ok br_buf br_at br_saved br_u64 (word_bytes v) v"
  "in_unsigned 16 v \<Longrightarrow> reads br_ok br_buf br_at br_saved br_u128 (word_bytes v) v"
  "in_unsigned 32 v \<Longrightarrow> reads br_ok br_buf br_at br_saved br_u256 (word_bytes v) v"
  using br_number_reads [of 1 v] br_number_reads [of 2 v] br_number_reads [of 4 v] br_right_reads [of 8 v]
    br_u128_reads [of v] br_u256_reads [of v] unsigned_mod [of 8 v] unsigned_mod [of 16 v] unsigned_mod [of 32 v]
  by (simp_all add: br_u8_def br_u16_def br_u32_def br_u64_def)

lemma br_bool_reads: "reads br_ok br_buf br_at br_saved br_bool (word_bytes (if b then 1 else 0)) b"
proof -
  let ?v = "if b then 1 else 0 :: int"
  have "reads br_ok br_buf br_at br_saved (\<lambda>s. rbind (br_u8 s) (\<lambda>(v, s). Inr (v \<noteq> Some 0 \<and> v \<noteq> None, s))) (word_bytes ?v) b"
    by (rule reads_bind [OF br_unsigned_reads(1)]) (auto simp: in_unsigned_def)
  then show ?thesis by (simp add: br_bool_def [abs_def])
qed

lemma br_toHex_ok:
  assumes "br_ok s" "i + n \<le> length (br_buf s)"
  shows "br_toHex (Some (int i)) n s = Inr (js ''0x'' @ hex_of_bytes (take n (drop i (br_buf s))))"
proof -
  have "min n (br_len s - i) = n" using assms br_ok_length [OF assms(1)] by simp
  then have "take n (drop i (br_buf s)) = take n (drop (br_off s + i) (br_arr s))"
    by (simp add: br_buf_def drop_take add.commute)
  moreover have "br_off s + i + n \<le> length (br_arr s)"
    using assms br_ok_length [OF assms(1)] by (simp add: br_ok_def)
  moreover have "nat (int (br_off s) + int i) = br_off s + i" by simp
  ultimately show ?thesis by (simp add: br_toHex_def toHex_def)
qed

lemma br_staticBytesHex_reads:
  assumes "n \<le> 32" "length w = 32"
  shows "reads br_ok br_buf br_at br_saved (br_staticBytesHex n) w (js ''0x'' @ hex_of_bytes (take n w))"
  unfolding reads_def
proof (intro allI impI)
  fix s
  assume s: "br_ok s" and h: "holds (br_buf s) (br_at s) w"
  note t = br_advance_ok [OF s, of 32, simplified]
  have "br_toHex (br_pos s) n (br_advance 32 s) = Inr (js ''0x'' @ hex_of_bytes (take n w))"
    using br_toHex_ok [OF t(1), of "br_at s" n] holds_length [OF h] holds_take_drop [OF h, of 0 n] assms
      br_pos_ok [OF s] t(2) by simp
  then show "\<exists>s'. br_staticBytesHex n s = Inr (js ''0x'' @ hex_of_bytes (take n w), s') \<and> br_ok s' \<and>
      br_buf s' = br_buf s \<and> br_at s' = br_at s + length w \<and> br_saved s' = br_saved s"
    using t assms by (simp add: br_staticBytesHex_def)
qed

lemma br_address_reads:
  assumes "length w = 32"
  shows "reads br_ok br_buf br_at br_saved br_address w (js ''0x'' @ hex_of_bytes (drop 12 w))"
  unfolding reads_def
proof (intro allI impI)
  fix s
  assume s: "br_ok s" and h: "holds (br_buf s) (br_at s) w"
  note t = br_advance_ok [OF s, of 32, simplified]
  have "br_toHex (Some (int (br_at s + 12))) 20 (br_advance 32 s) = Inr (js ''0x'' @ hex_of_bytes (drop 12 w))"
    using br_toHex_ok [OF t(1), of "br_at s + 12" 20] holds_length [OF h] holds_take_drop [OF h, of 12 20] assms t(2)
    by simp
  then show "\<exists>s'. br_address s = Inr (js ''0x'' @ hex_of_bytes (drop 12 w), s') \<and> br_ok s' \<and>
      br_buf s' = br_buf s \<and> br_at s' = br_at s + length w \<and> br_saved s' = br_saved s"
    using t assms br_pos_ok [OF s] by (simp add: br_address_def)
qed

lemma br_jump_ok:
  assumes "br_ok s" "p < length (br_buf s)"
  shows "\<exists>s'. br_jump (Some (int p)) s = Inr s' \<and> br_ok s' \<and> br_buf s' = br_buf s \<and> br_at s' = p \<and> br_saved s' = br_at s"
proof -
  have "br_jump (Some (int p)) s = Inr (s\<lparr>br_oldPos := br_pos s, br_pos := Some (int p)\<rparr>)"
    using assms br_ok_length [OF assms(1)] by (simp add: br_jump_def)
  moreover have "br_ok (s\<lparr>br_oldPos := br_pos s, br_pos := Some (int p)\<rparr>) \<and>
      br_at (s\<lparr>br_oldPos := br_pos s, br_pos := Some (int p)\<rparr>) = p \<and>
      br_saved (s\<lparr>br_oldPos := br_pos s, br_pos := Some (int p)\<rparr>) = br_at s"
    by (rule br_okI) (use br_okD [OF assms(1)] in auto)
  ultimately show ?thesis by simp
qed

lemma br_jumpBack_ok:
  assumes "br_ok s"
  shows "br_ok (br_jumpBack s) \<and> br_buf (br_jumpBack s) = br_buf s \<and> br_at (br_jumpBack s) = br_saved s"
proof -
  have "br_ok (br_jumpBack s) \<and> br_at (br_jumpBack s) = br_saved s \<and> br_saved (br_jumpBack s) = br_saved s"
    by (rule br_okI) (use br_okD [OF assms] in \<open>auto simp: br_jumpBack_def\<close>)
  then show ?thesis by (simp add: br_jumpBack_def)
qed

lemma br_slice_ok:
  assumes "br_ok s" "p \<le> length (br_buf s)"
  shows "br_ok (br_slice (Some (int p)) None s) \<and> br_buf (br_slice (Some (int p)) None s) = drop p (br_buf s) \<and>
    br_at (br_slice (Some (int p)) None s) = 0"
proof -
  have p: "p \<le> br_len s" using assms br_ok_length [OF assms(1)] by simp
  let ?t = "BytesSrc_new (br_arr s) (br_off s + p) (br_len s - p)"
  have t: "br_slice (Some (int p)) None s = ?t" using p by (simp add: br_slice_def min_absorb1)
  have "br_off s + br_len s \<le> length (br_arr s)" using assms(1) by (simp only: br_ok_def)
  with p have "br_ok ?t" "br_at ?t = 0"
    by (simp_all add: br_ok_def br_at_def br_saved_def BytesSrc_new_def)
  moreover have "br_buf ?t = drop p (br_buf s)"
    by (simp add: br_buf_def BytesSrc_new_def drop_take add.commute)
  ultimately show ?thesis by (simp add: t)
qed

text \<open>Following a pointer leads to the bytes of the value.\<close>

lemma br_pointer_ok:
  assumes s: "br_ok s" and h: "holds_dynamic (br_buf s) (br_at s) off bs"
  shows "\<exists>s'. br_pointer s = Inr (int (length bs), s') \<and> br_ok s' \<and> br_buf s' = br_buf s \<and> br_at s' = off + 32 \<and>
    br_saved s' = br_at s + 32"
proof -
  have u: "in_unsigned 4 (int off)" "in_unsigned 32 (int (length bs))" "in_unsigned 4 (int (length bs))"
    using h by (auto simp: holds_dynamic_def in_unsigned_def)
  have w: "holds (br_buf s) (br_at s) (word_bytes (int off))" "holds (br_buf s) off (word_bytes (int (length bs)))"
    "holds (br_buf s) (off + 32) bs"
    using h by (simp_all add: holds_dynamic_def holds_append)
  obtain t where t: "br_u32 s = Inr (Some (int off), t)" "br_ok t" "br_buf t = br_buf s" "br_at t = br_at s + 32"
    using br_unsigned_reads(3) [OF u(1)] s w(1) by (auto simp: reads_def)
  obtain j where j: "br_jump (Some (int off)) t = Inr j" "br_ok j" "br_buf j = br_buf s" "br_at j = off"
    "br_saved j = br_at s + 32"
    using br_jump_ok [OF t(2), of off] holds_length [OF w(2)] t by auto
  obtain l where l: "br_u256 j = Inr (int (length bs), l)" "br_ok l" "br_buf l = br_buf s" "br_at l = off + 32"
    "br_saved l = br_at s + 32"
    using br_unsigned_reads(6) [OF u(2)] j w(2) by (auto simp: reads_def)
  have "js_Number (int (length bs)) = int (length bs)"
    using h by (intro js_Number_exact) (simp add: holds_dynamic_def)
  moreover have "br_assertLength (int (length bs)) l = Inr ()"
    using holds_length [OF w(3)] l br_pos_ok [OF l(2)] br_ok_length [OF l(2)] by (simp add: br_assertLength_def)
  ultimately have "br_pointer s = Inr (int (length bs), l)"
    using t(1) j(1) l(1) by (simp add: br_pointer_def)
  with l show ?thesis by blast
qed

lemma br_bytesHex_reads:
  assumes s: "br_ok s" and h: "holds_dynamic (br_buf s) (br_at s) off bs"
  shows "\<exists>s'. br_bytesHex s = Inr (js ''0x'' @ hex_of_bytes bs, s') \<and> br_ok s' \<and> br_buf s' = br_buf s \<and>
    br_at s' = br_at s + 32"
proof -
  have w: "holds (br_buf s) (off + 32) bs" using h by (simp add: holds_dynamic_def holds_append)
  obtain l where l: "br_pointer s = Inr (int (length bs), l)" "br_ok l" "br_buf l = br_buf s" "br_at l = off + 32"
    "br_saved l = br_at s + 32"
    using br_pointer_ok [OF s h] by blast
  then have "br_toHex (br_pos l) (length bs) l = Inr (js ''0x'' @ hex_of_bytes bs)"
    using br_toHex_ok [OF l(2), of "off + 32" "length bs"] holds_length [OF w] br_pos_ok [OF l(2)] w
    by (simp add: holds_def)
  then have "br_bytesHex s = Inr (js ''0x'' @ hex_of_bytes bs, br_jumpBack l)"
    using l(1) by (simp add: br_bytesHex_def)
  then show ?thesis using br_jumpBack_ok [OF l(2)] l by auto
qed

lemma br_string_reads:
  assumes s: "br_ok s" and h: "holds_dynamic (br_buf s) (br_at s) off bs"
  shows "\<exists>s'. br_string s = Inr (TEXT_DECODER_decode bs, s') \<and> br_ok s' \<and> br_buf s' = br_buf s \<and>
    br_at s' = br_at s + 32"
proof -
  have w: "holds (br_buf s) (off + 32) bs" using h by (simp add: holds_dynamic_def holds_append)
  obtain l where l: "br_pointer s = Inr (int (length bs), l)" "br_ok l" "br_buf l = br_buf s" "br_at l = off + 32"
    "br_saved l = br_at s + 32"
    using br_pointer_ok [OF s h] by blast
  have "br_subarray (br_pos l) (int (length bs)) l = bs"
    using str_slice_nat [of "off + 32" "off + 32 + length bs" "br_buf l"] l br_pos_ok [OF l(2)] w
    by (simp add: br_subarray_def holds_def)
  then have "br_string s = Inr (TEXT_DECODER_decode bs, br_jumpBack l)"
    using l(1) by (simp add: br_string_def)
  then show ?thesis using br_jumpBack_ok [OF l(2)] l by auto
qed

interpretation bytes_src: evm_src_laws bytes_src_ops br_ok br_buf br_at br_saved
  by unfold_locales
    (simp_all add: bytes_src_ops_def br_unsigned_reads br_small_signed_reads br_i64_reads br_i128_reads br_i256_reads
      br_bool_reads br_staticBytesHex_reads br_address_reads br_bytesHex_reads br_string_reads br_jump_ok
      br_jumpBack_ok br_slice_ok)

end
