(* ===== verification/Evm_Hex_Src.thy ===== *)
theory Evm_Hex_Src
  imports Evm_Src_Laws
begin

text \<open>
  \<open>HexSrc\<close> keeps the contract of a source as long as the text between its base and its end is the hexadecimal
  text of bytes, as it is in what a node returns: it then reads what \<open>BytesSrc\<close> reads from those bytes. The
  last section shows what it does with a text that ends too early.
\<close>

section \<open>Parsing hexadecimal digits\<close>

lemma js_BigInt_hex:
  assumes "ds \<noteq> []" "\<And>d. d \<in> set ds \<Longrightarrow> d < 16"
  shows "js_BigInt (js ''0x'' @ map hex_digit ds) = Some (int (horner 16 ds))"
proof -
  have "last ds < 16" using assms by simp
  then have "js_trim (js ''0x'' @ map hex_digit ds) = js ''0x'' @ map hex_digit ds"
    using assms(1) hex_digit_no_space by (intro js_trim_id) (auto simp: js_0x js_space_def last_map)
  then show ?thesis using assms all_digits_printed [of ds 16] by (simp add: js_BigInt_def js_0x)
qed

lemma parseInt16_hex:
  assumes "ds \<noteq> []" "\<And>d. d \<in> set ds \<Longrightarrow> d < 16"
  shows "parseInt16 (map hex_digit ds) = Some (int (horner 16 ds))"
proof -
  obtain d es where ds: "ds = d # es" using assms(1) by (cases ds) auto
  then have d: "d < 16" using assms(2) by simp
  have "trimStart (map hex_digit ds) = map hex_digit ds"
    using hex_digit_no_space [OF d] by (simp add: trimStart_def ds)
  moreover have "take_sign (map hex_digit ds) = (1, map hex_digit ds)"
    using hex_digit_plain [OF d] by (auto simp: ds)
  moreover have "drop_0x (map hex_digit ds) = map hex_digit ds"
  proof (cases es)
    case (Cons e fs)
    then have "e < 16" using assms(2) ds by simp
    then show ?thesis using hex_digit_plain [of e] by (simp add: ds Cons)
  qed (simp add: ds)
  moreover have "digit_prefix 16 (map hex_digit ds) = ds" by (rule digit_prefix_digits) (use assms in auto)
  ultimately show ?thesis using assms(1) by (simp add: parseInt16_def)
qed

lemma hex_bytes_horner:
  assumes "0 < k" "0 \<le> v"
  shows "parseInt16 (hex_of_bytes (be_bytes k v)) = Some (v mod 256 ^ k)"
    "js_BigInt (js ''0x'' @ hex_of_bytes (be_bytes k v)) = Some (v mod 256 ^ k)"
proof -
  let ?ds = "last_digits 16 (2 * k) (nat v)"
  have "?ds \<noteq> []" using assms(1) by (metis length_last_digits list.size(3) nat_0_less_mult_iff not_gr0 zero_less_numeral)
  moreover have "d < 16" if "d \<in> set ?ds" for d using that by (rule last_digits_bounded [rotated]) simp
  moreover have "int (horner 16 ?ds) = v mod 256 ^ k"
    using horner_last_digits [of 16 "2 * k" "nat v"] assms(2) by (simp add: power_mult zmod_int)
  ultimately show "parseInt16 (hex_of_bytes (be_bytes k v)) = Some (v mod 256 ^ k)"
    "js_BigInt (js ''0x'' @ hex_of_bytes (be_bytes k v)) = Some (v mod 256 ^ k)"
    using parseInt16_hex [of ?ds] js_BigInt_hex [of ?ds] by (simp_all add: hex_of_be_bytes [OF assms(2)])
qed

lemma be_bytes_nonneg: "be_bytes k v = be_bytes k (v mod 256 ^ k)"
  by (simp add: be_bytes_mod)

lemma hex_bytes_value:
  assumes "0 < k"
  shows "parseInt16 (hex_of_bytes (be_bytes k v)) = Some (v mod 256 ^ k)"
    "js_BigInt (js ''0x'' @ hex_of_bytes (be_bytes k v)) = Some (v mod 256 ^ k)"
  using hex_bytes_horner [OF assms, of "v mod 256 ^ k"] by (simp_all add: be_bytes_mod)

section \<open>The state of a HexSrc\<close>

definition hr_b :: "hex_src \<Rightarrow> nat" where
  "hr_b s = nat (the (hr_base s))"

definition hr_text :: "hex_src \<Rightarrow> nat list" where
  "hr_text s = take (hr_end s - hr_b s) (drop (hr_b s) (hr_buf s))"

definition hr_data :: "hex_src \<Rightarrow> byte list" where
  "hr_data s = bytes_of_hex (hr_text s)"

definition hr_at :: "hex_src \<Rightarrow> nat" where
  "hr_at s = (nat (the (hr_pos s)) - hr_b s) div 2"

definition hr_saved :: "hex_src \<Rightarrow> nat" where
  "hr_saved s = (nat (the (hr_oldPos s)) - hr_b s) div 2"

definition hr_ok :: "hex_src \<Rightarrow> bool" where
  "hr_ok s \<longleftrightarrow> hr_end s \<le> length (hr_buf s) \<and>
     (\<exists>b p q. hr_base s = Some (int b) \<and> b \<le> hr_end s \<and> hr_pos s = Some (int (b + 2 * p)) \<and>
        hr_oldPos s = Some (int (b + 2 * q))) \<and>
     hr_text s = hex_of_bytes (hr_data s)"

lemma hr_okD:
  assumes "hr_ok s"
  shows "hr_base s = Some (int (hr_b s))" "hr_pos s = Some (int (hr_b s + 2 * hr_at s))"
    "hr_oldPos s = Some (int (hr_b s + 2 * hr_saved s))" "hr_text s = hex_of_bytes (hr_data s)"
    "hr_end s \<le> length (hr_buf s)" "hr_end s = hr_b s + 2 * length (hr_data s)"
proof -
  obtain b p q where s: "hr_base s = Some (int b)" "b \<le> hr_end s" "hr_pos s = Some (int (b + 2 * p))"
    "hr_oldPos s = Some (int (b + 2 * q))"
    using assms by (auto simp: hr_ok_def)
  show t: "hr_text s = hex_of_bytes (hr_data s)" "hr_end s \<le> length (hr_buf s)"
    using assms by (simp_all add: hr_ok_def)
  have p: "nat (int b + 2 * int p) = b + 2 * p" "nat (int b + 2 * int q) = b + 2 * q" by linarith+
  show "hr_base s = Some (int (hr_b s))" "hr_pos s = Some (int (hr_b s + 2 * hr_at s))"
    "hr_oldPos s = Some (int (hr_b s + 2 * hr_saved s))"
    using s p by (simp_all add: hr_b_def hr_at_def hr_saved_def)
  have "length (hr_text s) = hr_end s - b" 
    using s(1) diff_le_mono [OF t(2), of b] by (simp add: hr_text_def hr_b_def min_absorb2)
  then show "hr_end s = hr_b s + 2 * length (hr_data s)"
    using arg_cong [OF t(1), of length] s(1,2) by (simp add: hr_b_def)
qed

lemma hr_okI:
  assumes "hr_base s = Some (int b)" "hr_pos s = Some (int (b + 2 * p))" "hr_oldPos s = Some (int (b + 2 * q))"
    "hr_end s \<le> length (hr_buf s)" "b \<le> hr_end s" "take (hr_end s - b) (drop b (hr_buf s)) = hex_of_bytes bs"
  shows "hr_ok s \<and> hr_data s = bs \<and> hr_at s = p \<and> hr_saved s = q"
proof -
  have b: "hr_b s = b" using assms(1) by (simp add: hr_b_def)
  have p: "nat (int b + 2 * int p) = b + 2 * p" "nat (int b + 2 * int q) = b + 2 * q" by linarith+
  have d: "hr_data s = bs" using assms(6) by (simp add: hr_data_def hr_text_def b)
  have "hr_text s = hex_of_bytes bs" using assms(6) by (simp add: hr_text_def b)
  with assms d have "hr_ok s" unfolding hr_ok_def by auto
  with d show ?thesis using assms(2,3) p by (simp add: hr_at_def hr_saved_def b)
qed

text \<open>Moving the positions keeps the text.\<close>

lemma hr_move:
  assumes "hr_ok s" "hr_buf t = hr_buf s" "hr_base t = hr_base s" "hr_end t = hr_end s"
    "hr_pos t = Some (int (hr_b s + 2 * p))" "hr_oldPos t = Some (int (hr_b s + 2 * q))"
  shows "hr_ok t \<and> hr_data t = hr_data s \<and> hr_at t = p \<and> hr_saved t = q"
  by (rule hr_okI [of t "hr_b s" p q "hr_data s"]) (use hr_okD [OF assms(1)] assms in \<open>simp_all add: hr_text_def\<close>)

lemma hr_advance_ok:
  assumes "hr_ok s"
  shows "hr_ok (hr_advance s) \<and> hr_data (hr_advance s) = hr_data s \<and> hr_at (hr_advance s) = hr_at s + 32 \<and>
    hr_saved (hr_advance s) = hr_saved s"
  using hr_okD [OF assms] by (intro hr_move [OF assms]) (simp_all add: hr_advance_def)

lemma hr_digits_eq:
  assumes "hr_ok s" "holds (hr_data s) (hr_at s) w" "i + n \<le> length w"
  shows "hr_digits (int (2 * i)) (int (2 * n)) s = hex_of_bytes (take n (drop i w))"
proof -
  note s = hr_okD [OF assms(1)]
  let ?st = "hr_b s + 2 * hr_at s + 2 * i"
  have le: "hr_at s + i + n \<le> length (hr_data s)" using holds_length [OF assms(2)] assms(3) by simp
  have "nplus (hr_pos s) (int (2 * i)) = Some (int ?st)" "nplus (hr_pos s) (int (2 * i) + int (2 * n)) = Some (int (?st + 2 * n))"
    using s(2) by simp_all
  then have "hr_digits (int (2 * i)) (int (2 * n)) s = take (2 * n) (drop ?st (hr_buf s))"
    unfolding hr_digits_def using s(5,6) le by (simp only: str_slice_nat) simp
  also have "\<dots> = take (2 * n) (drop (2 * (hr_at s + i)) (hr_text s))"
    using s(6) le by (simp add: hr_text_def drop_take add.commute add.left_commute min_def)
  also have "\<dots> = hex_of_bytes (take n (drop (hr_at s + i) (hr_data s)))"
    by (simp only: s(4) drop_hex_of_bytes take_hex_of_bytes)
  also have "\<dots> = hex_of_bytes (take n (drop i w))" by (simp only: holds_take_drop [OF assms(2,3)])
  finally show ?thesis .
qed

section \<open>Reading\<close>

lemma hr_reads_word:
  assumes "0 < k" "k \<le> 32"
  shows "reads hr_ok hr_data hr_at hr_saved (hr_parse (2 * k)) (word_bytes v) (Some (v mod 256 ^ k))"
    "reads hr_ok hr_data hr_at hr_saved (hr_big (2 * k)) (word_bytes v) (v mod 256 ^ k)"
proof -
  have d: "hr_digits (64 - int (2 * k)) (int (2 * k)) s = hex_of_bytes (be_bytes k v)"
    if "hr_ok s" "holds (hr_data s) (hr_at s) (word_bytes v)" for s
    using hr_digits_eq [OF that, of "32 - k" k] assms(2) word_bytes_right [OF assms(2), of v]
    by (simp add: of_nat_diff)
  show "reads hr_ok hr_data hr_at hr_saved (hr_parse (2 * k)) (word_bytes v) (Some (v mod 256 ^ k))"
    using d hr_advance_ok hex_bytes_value(1) [OF assms(1), of v] by (simp add: reads_def hr_parse_def)
  show "reads hr_ok hr_data hr_at hr_saved (hr_big (2 * k)) (word_bytes v) (v mod 256 ^ k)"
    using d hr_advance_ok hex_bytes_value(2) [OF assms(1), of v] by (simp add: reads_def hr_big_def)
qed

lemma hr_unsigned_reads:
  "in_unsigned 1 v \<Longrightarrow> reads hr_ok hr_data hr_at hr_saved (hr_parse 2) (word_bytes v) (Some v)"
  "in_unsigned 2 v \<Longrightarrow> reads hr_ok hr_data hr_at hr_saved (hr_parse 4) (word_bytes v) (Some v)"
  "in_unsigned 4 v \<Longrightarrow> reads hr_ok hr_data hr_at hr_saved (hr_parse 8) (word_bytes v) (Some v)"
  "in_unsigned 8 v \<Longrightarrow> reads hr_ok hr_data hr_at hr_saved (hr_big 16) (word_bytes v) v"
  "in_unsigned 16 v \<Longrightarrow> reads hr_ok hr_data hr_at hr_saved (hr_big 32) (word_bytes v) v"
  "in_unsigned 32 v \<Longrightarrow> reads hr_ok hr_data hr_at hr_saved (hr_big 64) (word_bytes v) v"
  using hr_reads_word [of 1 v] hr_reads_word [of 2 v] hr_reads_word [of 4 v] hr_reads_word [of 8 v]
    hr_reads_word [of 16 v] hr_reads_word [of 32 v] unsigned_mod [of 1 v] unsigned_mod [of 2 v] unsigned_mod [of 4 v]
    unsigned_mod [of 8 v] unsigned_mod [of 16 v] unsigned_mod [of 32 v]
  by simp_all

lemma hr_big_signed_reads:
  assumes "in_signed k v" "0 < k" "k \<le> 32"
  shows "reads hr_ok hr_data hr_at hr_saved (hr_big_signed (2 * k)) (word_bytes v) v"
  using reads_bind [OF hr_reads_word(2) [OF assms(2,3)], of "\<lambda>x s. Inr (signed_val (8 * k) x, s)" v v] signed_mod [OF assms(1,2)]
  by (simp add: hr_big_signed_def [abs_def])

lemma hr_small_signed_reads:
  assumes "in_signed n v" "n \<le> 4"
  shows "reads hr_ok hr_data hr_at hr_saved hr_small_signed (word_bytes v) (Some v)"
  using reads_bind [OF hr_big_signed_reads [OF in_signed_mono [OF assms(1), of 32]], of "\<lambda>v s. Inr (Some (js_Number v), s)" "Some v"]
    assms small_signed_exact by (simp add: hr_small_signed_def [abs_def])

lemma hr_bool_reads: "reads hr_ok hr_data hr_at hr_saved hr_bool (word_bytes (if b then 1 else 0)) b"
  unfolding reads_def
proof (intro allI impI)
  fix s
  let ?w = "word_bytes (if b then 1 else 0)"
  assume s: "hr_ok s" and h: "holds (hr_data s) (hr_at s) ?w"
  note d = hr_okD [OF s]
  let ?i = "hr_b s + 2 * hr_at s + 62"
  have "take 1 (drop 31 ?w) = [if b then 1 else 0]"
    using word_bytes_right [of 1 "if b then 1 else 0"] by (simp add: be_bytes_def)
  then have g: "hr_digits 62 2 s = [48, if b then 49 else 48]"
    using hr_digits_eq [OF s h, of 31 1] by (simp add: hex_digit_def)
  have i: "?i + 2 \<le> length (hr_buf s)" using holds_length [OF h] d(5,6) by simp
  have "hr_digits 62 2 s = take 2 (drop ?i (hr_buf s))"
    using str_slice_nat [of ?i "?i + 2" "hr_buf s"] i d(2)
    by (simp add: hr_digits_def add.assoc add.commute [of 64] add.commute [of 62])
  with g have "take 2 (drop ?i (hr_buf s)) = [48, if b then 49 else 48]" by simp
  then have "hr_buf s ! ?i = 48" "hr_buf s ! (?i + 1) = (if b then 49 else 48)"
    using nth_take [of 0 2 "drop ?i (hr_buf s)"] nth_take [of 1 2 "drop ?i (hr_buf s)"] i by simp_all
  moreover have "?i + 1 = hr_b s + 2 * hr_at s + 63" by simp
  ultimately have "hr_buf s ! ?i = 48" "hr_buf s ! (hr_b s + 2 * hr_at s + 63) = (if b then 49 else 48)" by metis+
  then have "charCodeAt (hr_buf s) (nplus (hr_pos s) 62) = Some 48"
    "charCodeAt (hr_buf s) (nplus (hr_pos s) 63) = Some (if b then 49 else 48)"
    using d(2) i by (auto simp: charCodeAt_def nat_add_distrib nat_mult_distrib Let_def)
  then show "\<exists>s'. hr_bool s = Inr (b, s') \<and> hr_ok s' \<and> hr_data s' = hr_data s \<and>
      hr_at s' = hr_at s + length ?w \<and> hr_saved s' = hr_saved s"
    using hr_advance_ok [OF s] by (simp add: hr_bool_def)
qed

lemma hr_staticBytesHex_reads:
  assumes "n \<le> 32" "length w = 32"
  shows "reads hr_ok hr_data hr_at hr_saved (hr_staticBytesHex n) w (js ''0x'' @ hex_of_bytes (take n w))"
  using hr_digits_eq [of _ w 0 n] hr_advance_ok assms by (simp add: reads_def hr_staticBytesHex_def)

lemma hr_address_reads:
  assumes "length w = 32"
  shows "reads hr_ok hr_data hr_at hr_saved hr_address w (js ''0x'' @ hex_of_bytes (drop 12 w))"
  using hr_digits_eq [of _ w 12 20] hr_advance_ok assms by (simp add: reads_def hr_address_def)

lemma hr_jump_ok:
  assumes "hr_ok s" "p < length (hr_data s)"
  shows "\<exists>s'. hr_jump (Some (int p)) s = Inr s' \<and> hr_ok s' \<and> hr_data s' = hr_data s \<and> hr_at s' = p \<and> hr_saved s' = hr_at s"
proof -
  let ?t = "s\<lparr>hr_oldPos := hr_pos s, hr_pos := Some (int (hr_b s) + 2 * int p)\<rparr>"
  have "hr_jump (Some (int p)) s = Inr ?t"
    using hr_okD [OF assms(1)] assms(2) by (simp add: hr_jump_def)
  moreover have "hr_ok ?t \<and> hr_data ?t = hr_data s \<and> hr_at ?t = p \<and> hr_saved ?t = hr_at s"
    using hr_okD [OF assms(1)] by (intro hr_move [OF assms(1)]) simp_all
  ultimately show ?thesis by blast
qed

lemma hr_jumpBack_ok:
  assumes "hr_ok s"
  shows "hr_ok (hr_jumpBack s) \<and> hr_data (hr_jumpBack s) = hr_data s \<and> hr_at (hr_jumpBack s) = hr_saved s"
  using hr_move [OF assms, of "hr_jumpBack s" "hr_saved s" "hr_saved s"] hr_okD [OF assms]
  by (simp add: hr_jumpBack_def)

lemma hr_slice_ok:
  assumes "hr_ok s" "p \<le> length (hr_data s)"
  shows "hr_ok (hr_slice (Some (int p)) s) \<and> hr_data (hr_slice (Some (int p)) s) = drop p (hr_data s) \<and>
    hr_at (hr_slice (Some (int p)) s) = 0"
proof -
  note d = hr_okD [OF assms(1)]
  let ?t = "hr_slice (Some (int p)) s"
  have "take (hr_end s - (hr_b s + 2 * p)) (drop (hr_b s + 2 * p) (hr_buf s)) = drop (2 * p) (hr_text s)"
    by (simp add: hr_text_def drop_take add.commute)
  also have "\<dots> = hex_of_bytes (drop p (hr_data s))" by (simp only: d(4) drop_hex_of_bytes)
  finally have "hr_ok ?t \<and> hr_data ?t = drop p (hr_data s) \<and> hr_at ?t = 0 \<and> hr_saved ?t = 0"
    using d assms(2)
    by (intro hr_okI [of ?t "hr_b s + 2 * p"]) (simp_all add: hr_slice_def HexSrc_new_def)
  then show ?thesis by blast
qed

lemma hr_pointer_ok:
  assumes s: "hr_ok s" and h: "holds_dynamic (hr_data s) (hr_at s) off bs"
  shows "\<exists>s'. hr_pointer s = Inr (int (length bs), s') \<and> hr_ok s' \<and> hr_data s' = hr_data s \<and> hr_at s' = off + 32 \<and>
    hr_saved s' = hr_at s + 32"
proof -
  have u: "in_unsigned 4 (int off)" "in_unsigned 32 (int (length bs))"
    using h by (auto simp: holds_dynamic_def in_unsigned_def)
  have w: "holds (hr_data s) (hr_at s) (word_bytes (int off))" "holds (hr_data s) off (word_bytes (int (length bs)))"
    "holds (hr_data s) (off + 32) bs"
    using h by (simp_all add: holds_dynamic_def holds_append)
  obtain t where t: "hr_parse 8 s = Inr (Some (int off), t)" "hr_ok t" "hr_data t = hr_data s" "hr_at t = hr_at s + 32"
    using hr_unsigned_reads(3) [OF u(1)] s w(1) by (auto simp: reads_def)
  obtain j where j: "hr_jump (Some (int off)) t = Inr j" "hr_ok j" "hr_data j = hr_data s" "hr_at j = off"
    "hr_saved j = hr_at s + 32"
    using hr_jump_ok [OF t(2), of off] holds_length [OF w(2)] t by auto
  obtain l where l: "hr_big 64 j = Inr (int (length bs), l)" "hr_ok l" "hr_data l = hr_data s" "hr_at l = off + 32"
    "hr_saved l = hr_at s + 32"
    using hr_unsigned_reads(6) [OF u(2)] j w(2) by (auto simp: reads_def)
  have "js_Number (int (length bs)) = int (length bs)"
    using h by (intro js_Number_exact) (simp add: holds_dynamic_def)
  moreover have "hr_assertLength (int (length bs)) l = Inr ()"
    using holds_length [OF w(3)] l hr_okD [OF l(2)] by (simp add: hr_assertLength_def)
  ultimately have "hr_pointer s = Inr (int (length bs), l)"
    using t(1) j(1) l(1) by (simp add: hr_pointer_def)
  with l show ?thesis by blast
qed

lemma hr_pointed:
  assumes s: "hr_ok s" and h: "holds_dynamic (hr_data s) (hr_at s) off bs"
  shows "\<exists>l. hr_pointer s = Inr (int (length bs), l) \<and> hr_digits 0 (2 * int (length bs)) l = hex_of_bytes bs \<and>
    hr_ok (hr_jumpBack l) \<and> hr_data (hr_jumpBack l) = hr_data s \<and> hr_at (hr_jumpBack l) = hr_at s + 32"
proof -
  have w: "holds (hr_data s) (off + 32) bs" using h by (simp add: holds_dynamic_def holds_append)
  obtain l where l: "hr_pointer s = Inr (int (length bs), l)" "hr_ok l" "hr_data l = hr_data s" "hr_at l = off + 32"
    "hr_saved l = hr_at s + 32"
    using hr_pointer_ok [OF s h] by blast
  then show ?thesis
    using hr_digits_eq [OF l(2), of bs 0 "length bs"] w hr_jumpBack_ok [OF l(2)] by auto
qed

lemma hr_bytesHex_reads:
  assumes s: "hr_ok s" and h: "holds_dynamic (hr_data s) (hr_at s) off bs"
  shows "\<exists>s'. hr_bytesHex s = Inr (js ''0x'' @ hex_of_bytes bs, s') \<and> hr_ok s' \<and> hr_data s' = hr_data s \<and>
    hr_at s' = hr_at s + 32"
  using hr_pointed [OF s h] by (auto simp: hr_bytesHex_def)

lemma hr_string_reads:
  assumes s: "hr_ok s" and h: "holds_dynamic (hr_data s) (hr_at s) off bs"
  shows "\<exists>s'. hr_string s = Inr (TEXT_DECODER_decode bs, s') \<and> hr_ok s' \<and> hr_data s' = hr_data s \<and>
    hr_at s' = hr_at s + 32"
  using hr_pointed [OF s h] by (auto simp: hr_string_def)

interpretation hex_src: evm_src_laws hex_src_ops hr_ok hr_data hr_at hr_saved
  by unfold_locales
    (simp_all add: hex_src_ops_def hr_unsigned_reads hr_small_signed_reads hr_bool_reads hr_staticBytesHex_reads
      hr_address_reads hr_bytesHex_reads hr_string_reads hr_jump_ok hr_jumpBack_ok hr_slice_ok
      hr_big_signed_reads [of 8, simplified] hr_big_signed_reads [of 16, simplified] hr_big_signed_reads [of 32, simplified])

text \<open>A source over the hexadecimal text of bytes.\<close>

lemma HexSrc_new_ok:
  fixes pre :: "nat list" and bs :: "byte list"
  defines "s \<equiv> HexSrc_new (pre @ hex_of_bytes bs) (Some (int (length pre))) (length pre + 2 * length bs)"
  shows "hr_ok s \<and> hr_data s = bs \<and> hr_at s = 0"
proof -
  have "hr_ok s \<and> hr_data s = bs \<and> hr_at s = 0 \<and> hr_saved s = 0"
    unfolding s_def by (rule hr_okI [of _ "length pre"]) (simp_all add: HexSrc_new_def)
  then show ?thesis by blast
qed

end
