(* ===== verification/Evm_Codec.thy ===== *)
theory Evm_Codec
  imports Evm_Hex_Src
begin

text \<open>
  The codecs of \<open>evm/evm-codec/src/codecs\<close> over the interfaces of a sink and a source: primitives
  (\<open>primitives.ts\<close>), arrays (\<open>array.ts\<close>) and structs (\<open>struct.ts\<close>). The functions that \<open>StructCodec\<close>
  generates are modelled by the statements they consist of; the components of a struct are listed in the order of
  \<open>Object.entries\<close>. A value of another type than the codec's type parameter, which TypeScript rejects, is a
  \<open>TypeError\<close>.
\<close>

section \<open>Codecs\<close>

datatype number_type = U8 | I8 | U16 | I16 | U32 | I32

datatype bigint_type = U64 | I64 | U128 | I128 | U256 | I256

datatype evm_codec =
    NumberCodec number_type
  | BigintCodec bigint_type
  | BoolCodec
  | StringCodec
  | BytesCodec
  | BytesNCodec nat
  | AddressCodec
  | ArrayCodec evm_codec
  | FixedSizeArrayCodec evm_codec nat
  | StructCodec "(jstr \<times> evm_codec) list"

definition safeToNumber :: "int \<Rightarrow> int result" where
  "safeToNumber value =
     (if value < - (2 ^ 53 - 1) \<or> value > 2 ^ 53 - 1 then Inl (ThrownError ''is not a safe integer'')
      else Inr value)"

definition numberish :: "evm_val \<Rightarrow> int result" where
  "numberish v = (case v of ENum n \<Rightarrow> Inr n | EBig n \<Rightarrow> Inr n | _ \<Rightarrow> Inl TypeError)"

definition number_writer :: "'s evm_sink \<Rightarrow> number_type \<Rightarrow> int \<Rightarrow> 's \<Rightarrow> 's result" where
  "number_writer k t =
     (case t of U8 \<Rightarrow> s_u8 k | I8 \<Rightarrow> s_i8 k | U16 \<Rightarrow> s_u16 k | I16 \<Rightarrow> s_i16 k | U32 \<Rightarrow> s_u32 k | I32 \<Rightarrow> s_i32 k)"

definition number_reader :: "'s evm_src \<Rightarrow> number_type \<Rightarrow> 's \<Rightarrow> (jsnum \<times> 's) result" where
  "number_reader r t =
     (case t of U8 \<Rightarrow> r_u8 r | I8 \<Rightarrow> r_i8 r | U16 \<Rightarrow> r_u16 r | I16 \<Rightarrow> r_i16 r | U32 \<Rightarrow> r_u32 r | I32 \<Rightarrow> r_i32 r)"

definition bigint_writer :: "'s evm_sink \<Rightarrow> bigint_type \<Rightarrow> int \<Rightarrow> 's \<Rightarrow> 's result" where
  "bigint_writer k t =
     (case t of U64 \<Rightarrow> s_u64 k | I64 \<Rightarrow> s_i64 k | U128 \<Rightarrow> s_u128 k | I128 \<Rightarrow> s_i128 k | U256 \<Rightarrow> s_u256 k | I256 \<Rightarrow> s_i256 k)"

definition bigint_reader :: "'s evm_src \<Rightarrow> bigint_type \<Rightarrow> 's \<Rightarrow> (int \<times> 's) result" where
  "bigint_reader r t =
     (case t of U64 \<Rightarrow> r_u64 r | I64 \<Rightarrow> r_i64 r | U128 \<Rightarrow> r_u128 r | I128 \<Rightarrow> r_i128 r | U256 \<Rightarrow> r_u256 r | I256 \<Rightarrow> r_i256 r)"

fun is_dynamic :: "evm_codec \<Rightarrow> bool" where
  "is_dynamic StringCodec = True"
| "is_dynamic BytesCodec = True"
| "is_dynamic (ArrayCodec item) = True"
| "is_dynamic (FixedSizeArrayCodec item sz) = (is_dynamic item \<and> sz > 0)"
| "is_dynamic (StructCodec components) = list_ex (\<lambda>(key, c). is_dynamic c) components"
| "is_dynamic _ = False"

text \<open>\<open>slotsCount ?? 1\<close>\<close>

fun slotsCount :: "evm_codec \<Rightarrow> nat" where
  "slotsCount (FixedSizeArrayCodec item sz) = (if is_dynamic (FixedSizeArrayCodec item sz) then 1 else sz)"
| "slotsCount (StructCodec components) =
     (if is_dynamic (StructCodec components) then 1 else sum_list (map (\<lambda>(key, c). slotsCount c) components))"
| "slotsCount _ = 1"

definition childrenSlotsCount :: "(jstr \<times> evm_codec) list \<Rightarrow> nat" where
  "childrenSlotsCount components = sum_list (map (\<lambda>(key, c). slotsCount c) components)"

section \<open>Encoding\<close>

text \<open>\<open>val.key\<close>\<close>

definition evm_get :: "evm_val \<Rightarrow> jstr \<Rightarrow> evm_val result" where
  "evm_get v key =
     (case v of EObj fs \<Rightarrow> Inr (case map_of fs key of None \<Rightarrow> EUndef | Some x \<Rightarrow> x) | _ \<Rightarrow> Inl TypeError)"

definition as_items :: "evm_val \<Rightarrow> evm_val list result" where
  "as_items v = (case v of EArr vs \<Rightarrow> Inr vs | _ \<Rightarrow> Inl TypeError)"

definition as_text :: "evm_val \<Rightarrow> jstr result" where
  "as_text v = (case v of EStr t \<Rightarrow> Inr t | _ \<Rightarrow> Inl TypeError)"

definition as_bool :: "evm_val \<Rightarrow> bool result" where
  "as_bool v = (case v of EBool b \<Rightarrow> Inr b | _ \<Rightarrow> Inl TypeError)"

fun evm_encode :: "'s evm_sink \<Rightarrow> evm_codec \<Rightarrow> evm_val \<Rightarrow> 's \<Rightarrow> 's result"
  and encode_fields :: "'s evm_sink \<Rightarrow> (jstr \<times> evm_codec) list \<Rightarrow> evm_val \<Rightarrow> 's \<Rightarrow> 's result" where
  "evm_encode k (NumberCodec t) v s =
     rbind (numberish v) (\<lambda>n. rbind (safeToNumber n) (\<lambda>n. number_writer k t n s))"
| "evm_encode k (BigintCodec t) v s = rbind (numberish v) (\<lambda>n. bigint_writer k t n s)"
| "evm_encode k BoolCodec v s = rbind (as_bool v) (\<lambda>b. s_bool k b s)"
| "evm_encode k StringCodec v s =
     rbind (s_openTail k 0 s) (\<lambda>s. rbind (rbind (as_text v) (\<lambda>t. s_string k t s)) (s_closeTail k))"
| "evm_encode k BytesCodec v s =
     rbind (s_openTail k 0 s) (\<lambda>s. rbind (s_bytes k v s) (s_closeTail k))"
| "evm_encode k (BytesNCodec sz) v s = s_staticBytes k sz v s"
| "evm_encode k AddressCodec v s = rbind (as_text v) (\<lambda>t. s_address k t s)"
| "evm_encode k (ArrayCodec item) v s =
     rbind (as_items v) (\<lambda>vs.
     rbind (s_openArray k (length vs) s) (\<lambda>s.
     rbind (rfold (\<lambda>x s. evm_encode k item x s) vs s) (s_closeTail k)))"
| "evm_encode k (FixedSizeArrayCodec item sz) v s =
     rbind (as_items v) (\<lambda>vs.
       if length vs \<noteq> sz then Inl (ThrownError ''invalid array length'')
       else if is_dynamic (FixedSizeArrayCodec item sz) then
         rbind (s_openTail k sz s) (\<lambda>s.
           rbind (rfold (\<lambda>x s. evm_encode k item x s) vs s) (s_closeTail k))
       else rfold (\<lambda>x s. evm_encode k item x s) vs s)"
| "evm_encode k (StructCodec components) v s =
     (if is_dynamic (StructCodec components) then
        rbind (s_openTail k (childrenSlotsCount components) s) (\<lambda>s.
          rbind (encode_fields k components v s) (s_closeTail k))
      else encode_fields k components v s)"
| "encode_fields k [] v s = Inr s"
| "encode_fields k ((key, c) # rest) v s =
     rbind (evm_get v key) (\<lambda>x. rbind (evm_encode k c x s) (encode_fields k rest v))"

section \<open>Decoding\<close>

definition num_val :: "jsnum \<Rightarrow> evm_val" where
  "num_val n = (case n of Some n \<Rightarrow> ENum n | None \<Rightarrow> ENaN)"

definition rmap_val :: "('a \<Rightarrow> 'b) \<Rightarrow> ('a \<times> 's) result \<Rightarrow> ('b \<times> 's) result" where
  "rmap_val f r = rbind r (\<lambda>(x, s). Inr (f x, s))"

text \<open>The loop that fills an array of \<open>n\<close> items.\<close>

primrec decode_items :: "('s \<Rightarrow> ('a \<times> 's) result) \<Rightarrow> nat \<Rightarrow> 's \<Rightarrow> ('a list \<times> 's) result" where
  "decode_items f 0 s = Inr ([], s)"
| "decode_items f (Suc n) s =
     rbind (f s) (\<lambda>(x, s). rbind (decode_items f n s) (\<lambda>(xs, s). Inr (x # xs, s)))"

text \<open>\<open>new Array(len)\<close> of a number that is not a length is a \<open>RangeError\<close>.\<close>

definition array_length :: "jsnum \<Rightarrow> nat result" where
  "array_length n =
     (case n of None \<Rightarrow> Inl RangeError
      | Some n \<Rightarrow> if 0 \<le> n \<and> n < 2 ^ 32 then Inr (nat n) else Inl RangeError)"

fun evm_decode :: "'s evm_src \<Rightarrow> evm_codec \<Rightarrow> 's \<Rightarrow> (evm_val \<times> 's) result"
  and decode_fields :: "'s evm_src \<Rightarrow> (jstr \<times> evm_codec) list \<Rightarrow> 's \<Rightarrow> ((jstr \<times> evm_val) list \<times> 's) result" where
  "evm_decode r (NumberCodec t) s = rmap_val num_val (number_reader r t s)"
| "evm_decode r (BigintCodec t) s = rmap_val EBig (bigint_reader r t s)"
| "evm_decode r BoolCodec s = rmap_val EBool (r_bool r s)"
| "evm_decode r StringCodec s = rmap_val EStr (r_string r s)"
| "evm_decode r BytesCodec s = rmap_val EStr (r_bytesHex r s)"
| "evm_decode r (BytesNCodec sz) s = rmap_val EStr (r_staticBytesHex r sz s)"
| "evm_decode r AddressCodec s = rmap_val EStr (r_address r s)"
| "evm_decode r (ArrayCodec item) s =
     rbind (r_u32 r s) (\<lambda>(offset, s).
     rbind (r_jump r offset s) (\<lambda>s.
     rbind (r_u32 r s) (\<lambda>(len, s).
     rbind (array_length len) (\<lambda>n.
     rbind (decode_items (\<lambda>s. evm_decode r item s) n (r_slice r (nplus offset (int WORD_SIZE)) s)) (\<lambda>(vs, _).
       Inr (EArr vs, r_jumpBack r s))))))"
| "evm_decode r (FixedSizeArrayCodec item sz) s =
     (if is_dynamic (FixedSizeArrayCodec item sz) then
        rbind (r_u32 r s) (\<lambda>(offset, s).
        rbind (decode_items (\<lambda>s. evm_decode r item s) sz (r_slice r offset s)) (\<lambda>(vs, _). Inr (EArr vs, s)))
      else rmap_val EArr (decode_items (\<lambda>s. evm_decode r item s) sz s))"
| "evm_decode r (StructCodec components) s =
     (if is_dynamic (StructCodec components) then
        rbind (r_u32 r s) (\<lambda>(offset, s).
        rbind (decode_fields r components (r_slice r offset s)) (\<lambda>(fs, _). Inr (EObj fs, s)))
      else rmap_val EObj (decode_fields r components s))"
| "decode_fields r [] s = Inr ([], s)"
| "decode_fields r ((key, c) # rest) s =
     rbind (evm_decode r c s) (\<lambda>(v, s). rbind (decode_fields r rest s) (\<lambda>(fs, s). Inr ((key, v) # fs, s)))"

section \<open>The specification of the contract ABI\<close>

text \<open>
  The encoding of a sequence of parameters: the heads one after the other, then the tails. A static value is
  its own head; the head of a dynamic value is the offset of its tail from the start of the sequence.
\<close>

fun abi_heads :: "nat \<Rightarrow> (bool \<times> byte list) list \<Rightarrow> byte list" where
  "abi_heads off [] = []"
| "abi_heads off ((d, bs) # rest) =
     (if d then word_bytes (int off) @ abi_heads (off + length bs) rest else bs @ abi_heads off rest)"

fun abi_tails :: "(bool \<times> byte list) list \<Rightarrow> byte list" where
  "abi_tails [] = []"
| "abi_tails ((d, bs) # rest) = (if d then bs else []) @ abi_tails rest"

fun head_size :: "(bool \<times> byte list) list \<Rightarrow> nat" where
  "head_size [] = 0"
| "head_size ((d, bs) # rest) = (if d then 32 else length bs) + head_size rest"

definition abi_seq :: "(bool \<times> byte list) list \<Rightarrow> byte list" where
  "abi_seq ps = abi_heads (head_size ps) ps @ abi_tails ps"

definition abi_bytes :: "byte list \<Rightarrow> byte list" where
  "abi_bytes bs = word_bytes (int (length bs)) @ padded bs"

fun abi_enc :: "evm_codec \<Rightarrow> evm_val \<Rightarrow> byte list"
  and abi_fields :: "(jstr \<times> evm_codec) list \<Rightarrow> evm_val \<Rightarrow> (bool \<times> byte list) list" where
  "abi_enc (NumberCodec t) v = (case numberish v of Inr n \<Rightarrow> word_bytes n | Inl _ \<Rightarrow> [])"
| "abi_enc (BigintCodec t) v = (case numberish v of Inr n \<Rightarrow> word_bytes n | Inl _ \<Rightarrow> [])"
| "abi_enc BoolCodec v = word_bytes (if v = EBool True then 1 else 0)"
| "abi_enc StringCodec v = (case v of EStr t \<Rightarrow> abi_bytes (UTF8_ENCODER_encode t) | _ \<Rightarrow> [])"
| "abi_enc BytesCodec v = (case bytes_arg v of Some bs \<Rightarrow> abi_bytes bs | None \<Rightarrow> [])"
| "abi_enc (BytesNCodec n) v = (case bytes_arg v of Some bs \<Rightarrow> bs @ replicate (32 - length bs) 0 | None \<Rightarrow> [])"
| "abi_enc AddressCodec v = (case v of EStr t \<Rightarrow> replicate 12 0 @ bytes_of_hex (drop 2 t) | _ \<Rightarrow> [])"
| "abi_enc (ArrayCodec item) v =
     (case v of EArr vs \<Rightarrow>
        word_bytes (int (length vs)) @ abi_seq (map (\<lambda>x. (is_dynamic item, abi_enc item x)) vs) | _ \<Rightarrow> [])"
| "abi_enc (FixedSizeArrayCodec item n) v =
     (case v of EArr vs \<Rightarrow> abi_seq (map (\<lambda>x. (is_dynamic item, abi_enc item x)) vs) | _ \<Rightarrow> [])"
| "abi_enc (StructCodec components) v = abi_seq (abi_fields components v)"
| "abi_fields [] v = []"
| "abi_fields ((key, c) # rest) v =
     (case evm_get v key of Inr x \<Rightarrow> (is_dynamic c, abi_enc c x) # abi_fields rest v | Inl _ \<Rightarrow> abi_fields rest v)"

text \<open>The values of a codec.\<close>

definition number_in :: "number_type \<Rightarrow> int \<Rightarrow> bool" where
  "number_in t n =
     (case t of U8 \<Rightarrow> in_unsigned 1 n | I8 \<Rightarrow> in_signed 1 n | U16 \<Rightarrow> in_unsigned 2 n | I16 \<Rightarrow> in_signed 2 n
      | U32 \<Rightarrow> in_unsigned 4 n | I32 \<Rightarrow> in_signed 4 n)"

definition bigint_in :: "bigint_type \<Rightarrow> int \<Rightarrow> bool" where
  "bigint_in t n =
     (case t of U64 \<Rightarrow> in_unsigned 8 n | I64 \<Rightarrow> in_signed 8 n | U128 \<Rightarrow> in_unsigned 16 n | I128 \<Rightarrow> in_signed 16 n
      | U256 \<Rightarrow> in_unsigned 32 n | I256 \<Rightarrow> in_signed 32 n)"

fun abi_typed :: "evm_codec \<Rightarrow> evm_val \<Rightarrow> bool"
  and typed_fields :: "(jstr \<times> evm_codec) list \<Rightarrow> evm_val \<Rightarrow> bool" where
  "abi_typed (NumberCodec t) v = (case numberish v of Inr n \<Rightarrow> number_in t n | Inl _ \<Rightarrow> False)"
| "abi_typed (BigintCodec t) v = (case numberish v of Inr n \<Rightarrow> bigint_in t n | Inl _ \<Rightarrow> False)"
| "abi_typed BoolCodec v = (case v of EBool _ \<Rightarrow> True | _ \<Rightarrow> False)"
| "abi_typed StringCodec v = (case v of EStr t \<Rightarrow> decodable t | _ \<Rightarrow> False)"
| "abi_typed BytesCodec v = (bytes_arg v \<noteq> None)"
| "abi_typed (BytesNCodec n) v = (case bytes_arg v of Some bs \<Rightarrow> length bs \<le> n | None \<Rightarrow> False)"
| "abi_typed AddressCodec v = (case v of EStr t \<Rightarrow> plain_address t | _ \<Rightarrow> False)"
| "abi_typed (ArrayCodec item) v = (case v of EArr vs \<Rightarrow> list_all (\<lambda>x. abi_typed item x) vs | _ \<Rightarrow> False)"
| "abi_typed (FixedSizeArrayCodec item n) v =
     (case v of EArr vs \<Rightarrow> length vs = n \<and> list_all (\<lambda>x. abi_typed item x) vs | _ \<Rightarrow> False)"
| "abi_typed (StructCodec components) v = typed_fields components v"
| "typed_fields [] v = True"
| "typed_fields ((key, c) # rest) v =
     ((case evm_get v key of Inr x \<Rightarrow> abi_typed c x | Inl _ \<Rightarrow> False) \<and> typed_fields rest v)"

text \<open>
  The codecs whose sizes the code computes right: \<open>bytesN\<close> of at most 32 bytes, and arrays whose items
  take one slot. An array of static structs or static arrays of several slots is not among them.
\<close>

fun abi_wf :: "evm_codec \<Rightarrow> bool" where
  "abi_wf (BytesNCodec n) = (n \<le> 32)"
| "abi_wf (ArrayCodec item) = (abi_wf item \<and> slotsCount item = 1)"
| "abi_wf (FixedSizeArrayCodec item n) = (abi_wf item \<and> slotsCount item = 1)"
| "abi_wf (StructCodec components) = list_all (\<lambda>(key, c). abi_wf c) components"
| "abi_wf _ = True"

text \<open>What a decoder gives back: numbers of the codec's kind, bytes as lower case text, padded to their size.\<close>

fun abi_decoded :: "evm_codec \<Rightarrow> evm_val \<Rightarrow> evm_val"
  and decoded_fields :: "(jstr \<times> evm_codec) list \<Rightarrow> evm_val \<Rightarrow> (jstr \<times> evm_val) list" where
  "abi_decoded (NumberCodec t) v = (case numberish v of Inr n \<Rightarrow> ENum n | Inl _ \<Rightarrow> v)"
| "abi_decoded (BigintCodec t) v = (case numberish v of Inr n \<Rightarrow> EBig n | Inl _ \<Rightarrow> v)"
| "abi_decoded BoolCodec v = v"
| "abi_decoded StringCodec v = v"
| "abi_decoded BytesCodec v =
     (case bytes_arg v of Some bs \<Rightarrow> EStr (js ''0x'' @ hex_of_bytes bs) | None \<Rightarrow> v)"
| "abi_decoded (BytesNCodec n) v =
     (case bytes_arg v of Some bs \<Rightarrow> EStr (js ''0x'' @ hex_of_bytes (bs @ replicate (n - length bs) 0)) | None \<Rightarrow> v)"
| "abi_decoded AddressCodec v =
     (case v of EStr t \<Rightarrow> EStr (js ''0x'' @ hex_of_bytes (bytes_of_hex (drop 2 t))) | _ \<Rightarrow> v)"
| "abi_decoded (ArrayCodec item) v = (case v of EArr vs \<Rightarrow> EArr (map (\<lambda>x. abi_decoded item x) vs) | _ \<Rightarrow> v)"
| "abi_decoded (FixedSizeArrayCodec item n) v = (case v of EArr vs \<Rightarrow> EArr (map (\<lambda>x. abi_decoded item x) vs) | _ \<Rightarrow> v)"
| "abi_decoded (StructCodec components) v = EObj (decoded_fields components v)"
| "decoded_fields [] v = []"
| "decoded_fields ((key, c) # rest) v =
     (case evm_get v key of Inr x \<Rightarrow> (key, abi_decoded c x) # decoded_fields rest v | Inl _ \<Rightarrow> decoded_fields rest v)"

section \<open>Sizes\<close>

lemma length_abi_heads [simp]: "length (abi_heads off ps) = head_size ps"
  by (induction off ps rule: abi_heads.induct) auto

lemma length_abi_seq: "length (abi_seq ps) = head_size ps + length (abi_tails ps)"
  by (simp add: abi_seq_def)

lemma static_tails: "list_all (\<lambda>(d, bs). \<not> d) ps \<Longrightarrow> abi_tails ps = []"
  by (induction ps) auto

lemma static_heads: "list_all (\<lambda>(d, bs). \<not> d) ps \<Longrightarrow> abi_heads off ps = abi_heads off' ps"
  by (induction off ps rule: abi_heads.induct) auto

lemma static_fields: "\<not> is_dynamic (StructCodec cs) \<Longrightarrow> list_all (\<lambda>(d, bs). \<not> d) (abi_fields cs v)"
  by (induction cs) (auto split: sum.splits)

lemma static_length:
  "abi_wf c \<Longrightarrow> abi_typed c v \<Longrightarrow> \<not> is_dynamic c \<Longrightarrow> length (abi_enc c v) = 32 * slotsCount c"
  "list_all (\<lambda>(key, c). abi_wf c) cs \<Longrightarrow> typed_fields cs v \<Longrightarrow> head_size (abi_fields cs v) = 32 * childrenSlotsCount cs"
proof (induction c v and cs v rule: abi_enc_abi_fields.induct)
  case (9 item n v)
  then obtain vs where v: "v = EArr vs" "length vs = n" "list_all (\<lambda>x. abi_typed item x) vs"
    by (auto split: evm_val.splits)
  show ?case
  proof (cases "n = 0")
    case True
    then show ?thesis using v by (simp add: abi_seq_def)
  next
    case False
    then have st: "\<not> is_dynamic item" using 9 by auto
    have "length (abi_enc item x) = 32" if "x \<in> set vs" for x
      using 9(1) [OF v(1) that] 9(2) v(3) st that by (auto simp: list_all_iff)
    then have "head_size (map (\<lambda>x. (is_dynamic item, abi_enc item x)) vs) = 32 * length vs"
      using st by (induction vs) auto
    moreover have "abi_tails (map (\<lambda>x. (is_dynamic item, abi_enc item x)) vs) = []"
      by (rule static_tails) (use st in \<open>auto simp: list_all_iff\<close>)
    ultimately show ?thesis using v st by (simp add: length_abi_seq)
  qed
next
  case (10 components v)
  then have "list_all (\<lambda>(d, bs). \<not> d) (abi_fields components v)" by (intro static_fields)
  then show ?case using 10 by (auto simp: length_abi_seq static_tails childrenSlotsCount_def)
next
  case (12 key c rest v)
  then show ?case
  proof (cases "is_dynamic c")
    case True
    then have "slotsCount c = 1" by (cases c) auto
    with 12 True show ?thesis by (auto simp: childrenSlotsCount_def split: sum.splits)
  next
    case False
    with 12 show ?thesis by (auto simp: childrenSlotsCount_def split: sum.splits)
  qed
qed (auto simp: childrenSlotsCount_def split: sum.splits evm_val.splits option.splits dest: plain_addressD)

section \<open>Encoders lay out the specified bytes\<close>

text \<open>
  An encoder may run where the head of its value is blank, the current area ends behind it and nothing is
  written past the end of the area.
\<close>

definition area_end :: "sink_view \<Rightarrow> nat" where
  "area_end V = ar_start (sv_area V) + ar_size (sv_area V)"

definition fits :: "sink_view \<Rightarrow> (bool \<times> byte list) list \<Rightarrow> bool" where
  "fits V ps \<longleftrightarrow>
     blank (sv_cells V) (sv_pos V) (head_size ps) \<and> (\<forall>n. blank (sv_cells V) (area_end V) n) \<and>
     sv_pos V + head_size ps \<le> area_end V \<and> ar_size (sv_area V) + length (abi_tails ps) < 2 ^ 32"

definition laid :: "sink_view \<Rightarrow> (bool \<times> byte list) list \<Rightarrow> sink_view \<Rightarrow> bool" where
  "laid V ps W \<longleftrightarrow>
     sv_pos W = sv_pos V + head_size ps \<and> sv_area W = grown (sv_area V) (length (abi_tails ps)) \<and>
     sv_below W = sv_below V \<and>
     sv_cells W = overwrite (area_end V) (abi_tails ps)
       (overwrite (sv_pos V) (abi_heads (ar_size (sv_area V)) ps) (sv_cells V)) \<and>
     sv_room V \<le> sv_room W \<and> (head_size ps \<noteq> 0 \<longrightarrow> sv_pos W \<le> sv_room W) \<and>
     (abi_tails ps \<noteq> [] \<longrightarrow> area_end W \<le> sv_room W)"

definition lays :: "('s \<Rightarrow> bool) \<Rightarrow> ('s \<Rightarrow> sink_view) \<Rightarrow> ('s \<Rightarrow> 's result) \<Rightarrow> (bool \<times> byte list) list \<Rightarrow> bool" where
  "lays ok view f ps \<longleftrightarrow>
     (\<forall>s. ok s \<longrightarrow> fits (view s) ps \<longrightarrow> (\<exists>s'. f s = Inr s' \<and> ok s' \<and> laid (view s) ps (view s')))"

lemma lays_Nil: "lays ok view Inr []"
  by (auto simp: lays_def laid_def)

lemma fits_Cons:
  assumes "fits V (p # ps)"
  shows "fits V [p]"
  using assms by (cases p) (auto simp: fits_def intro: blank_sub)

lemma area_end_laid: "laid V ps W \<Longrightarrow> area_end W = area_end V + length (abi_tails ps)"
  by (simp add: laid_def area_end_def)

lemma fits_rest:
  assumes "fits V (p # ps)" "laid V [p] W"
  shows "fits W ps"
proof -
  have h: "head_size (p # ps) = head_size [p] + head_size ps" "abi_tails (p # ps) = abi_tails [p] @ abi_tails ps"
    by (cases p; simp)+
  have f: "blank (sv_cells V) (sv_pos V) (head_size (p # ps))" "\<And>n. blank (sv_cells V) (area_end V) n"
    "sv_pos V + head_size (p # ps) \<le> area_end V" "ar_size (sv_area V) + length (abi_tails (p # ps)) < 2 ^ 32"
    using assms(1) by (simp_all add: fits_def)
  have c: "sv_cells W = overwrite (area_end V) (abi_tails [p])
      (overwrite (sv_pos V) (abi_heads (ar_size (sv_area V)) [p]) (sv_cells V))"
    and pos: "sv_pos W = sv_pos V + head_size [p]" and a: "sv_area W = grown (sv_area V) (length (abi_tails [p]))"
    using assms(2) by (simp_all add: laid_def)
  note e = area_end_laid [OF assms(2)]
  have "blank (sv_cells W) (sv_pos W) (head_size ps)"
    unfolding c pos using f(1,3) h
    by (intro blank_overwrite) (auto intro: blank_sub)
  moreover have "blank (sv_cells W) (area_end W) n" for n
  proof -
    have "blank (sv_cells V) (area_end W) n" by (rule blank_sub [OF f(2) [of "length (abi_tails [p]) + n"]]) (simp_all add: e)
    then show ?thesis unfolding c e using f(3) h(1) by (intro blank_overwrite) auto
  qed
  moreover have "sv_pos W + head_size ps \<le> area_end W" using f(3) h(1) by (simp add: e pos)
  moreover have "ar_size (sv_area W) + length (abi_tails ps) < 2 ^ 32" using f(4) h(2) by (simp add: a)
  ultimately show ?thesis by (simp add: fits_def)
qed

lemma laid_Cons:
  assumes "fits V (p # ps)" "laid V [p] W" "laid W ps X"
  shows "laid V (p # ps) X"
proof -
  obtain d bs where p: "p = (d, bs)" by (cases p)
  let ?hs = "abi_heads (ar_size (sv_area V)) [p]" and ?t = "abi_tails [p]"
    and ?hs' = "abi_heads (ar_size (sv_area W)) ps" and ?t' = "abi_tails ps"
  have a: "ar_size (sv_area W) = ar_size (sv_area V) + length ?t" using assms(2) by (simp add: laid_def)
  have hs: "abi_heads (ar_size (sv_area V)) (p # ps) = ?hs @ ?hs'" by (simp add: p a)
  have t: "abi_tails (p # ps) = ?t @ ?t'" by (simp add: p)
  have le: "sv_pos V + head_size [p] + head_size ps \<le> area_end V" using assms(1) by (simp add: fits_def p)
  have l: "length ?hs = head_size [p]" by (simp only: length_abi_heads)
  have "sv_cells X = overwrite (area_end V + length ?t) ?t' (overwrite (sv_pos V + length ?hs) ?hs'
      (overwrite (area_end V) ?t (overwrite (sv_pos V) ?hs (sv_cells V))))"
    using assms(2,3) area_end_laid [OF assms(2)] by (simp add: laid_def)
  also have "\<dots> = overwrite (area_end V) (?t @ ?t') (overwrite (sv_pos V) (?hs @ ?hs') (sv_cells V))"
    using le l overwrite_swap [of "sv_pos V + length ?hs" ?hs' "area_end V" ?t] by (simp add: overwrite_append)
  finally have c: "sv_cells X = overwrite (area_end V) (abi_tails (p # ps))
      (overwrite (sv_pos V) (abi_heads (ar_size (sv_area V)) (p # ps)) (sv_cells V))"
    by (simp only: hs t)
  show ?thesis
    using assms(2,3) area_end_laid [OF assms(2)] area_end_laid [OF assms(3)] c
    unfolding laid_def by (cases "abi_tails ps = []"; cases "head_size ps = 0") (auto simp: p)
qed

lemma lays_Cons:
  assumes "lays ok view f [p]" "lays ok view g ps"
  shows "lays ok view (\<lambda>s. rbind (f s) g) (p # ps)"
  unfolding lays_def
proof (intro allI impI)
  fix s
  assume s: "ok s" and V: "fits (view s) (p # ps)"
  then obtain t where t: "f s = Inr t" "ok t" "laid (view s) [p] (view t)"
    using assms(1) fits_Cons unfolding lays_def by blast
  moreover obtain u where "g t = Inr u" "ok u" "laid (view t) ps (view u)"
    using assms(2) fits_rest [OF V t(3)] t(2) unfolding lays_def by blast
  ultimately show "\<exists>s'. rbind (f s) g = Inr s' \<and> ok s' \<and> laid (view s) (p # ps) (view s')"
    using laid_Cons [OF V] by auto
qed

lemma lays_rfold:
  assumes "\<And>x. x \<in> set vs \<Longrightarrow> lays ok view (f x) [p x]"
  shows "lays ok view (rfold f vs) (map p vs)"
  using assms
proof (induction vs)
  case Nil
  have "rfold f [] = Inr" by (rule ext) simp
  then show ?case by (simp add: lays_Nil)
next
  case (Cons x vs)
  have "rfold f (x # vs) = (\<lambda>s. rbind (f x s) (rfold f vs))" by (rule ext) simp
  then show ?case using lays_Cons [OF Cons.prems Cons.IH] Cons.prems by simp
qed

lemma lays_stores: "stores ok view f bs 0 \<Longrightarrow> lays ok view f [(False, bs)]"
  by (auto simp: stores_def lays_def fits_def stored_def laid_def)

lemma lays_static:
  assumes "lays ok view f ps" "list_all (\<lambda>(d, bs). \<not> d) ps"
  shows "lays ok view f [(False, abi_seq ps)]"
proof -
  have "abi_seq ps = abi_heads off ps" for off
    using static_heads [OF assms(2)] static_tails [OF assms(2)] by (simp add: abi_seq_def)
  then have "laid V [(False, abi_seq ps)] W \<longleftrightarrow> laid V ps W" for V W
    using static_tails [OF assms(2)] length_abi_heads [of 0 ps] by (simp add: laid_def)
  moreover have "fits V [(False, abi_seq ps)] \<longleftrightarrow> fits V ps" for V
    using static_tails [OF assms(2)] by (simp add: fits_def length_abi_seq)
  ultimately show ?thesis using assms(1) by (simp add: lays_def)
qed

context evm_sink_laws
begin

text \<open>What follows after a tail was opened and a sequence was laid out in it.\<close>

lemma opened_fits:
  assumes "fits V [(True, abi_seq ps)]" "opened V n W" "head_size ps = 32 * n"
  shows "fits W ps"
proof -
  have f: "\<And>n. blank (sv_cells V) (area_end V) n" "sv_pos V + 32 \<le> area_end V"
    "length (abi_seq ps) < 2 ^ 32" and p: "length (abi_seq ps) = 32 * n + length (abi_tails ps)"
    using assms(1,3) by (auto simp: fits_def length_abi_seq)
  have o: "sv_pos W = area_end V" "ar_size (sv_area W) = 32 * n" "area_end W = area_end V + 32 * n"
    "sv_cells W = overwrite (sv_pos V) (word_bytes (int (ar_size (sv_area V)))) (sv_cells V)"
    using assms(2) by (simp_all add: opened_def area_end_def Let_def)
  have "blank (sv_cells W) (area_end V) m" for m
    unfolding o(4) using f(2) by (intro blank_overwrite [OF f(1)]) simp
  moreover have "blank (sv_cells W) (area_end W) m" for m
    using blank_sub [OF calculation [of "32 * n + m"], of "area_end W" m] o(3) by simp
  ultimately show ?thesis using f(3) p o(1-3) assms(3) by (simp add: fits_def)
qed

lemma closed_laid:
  assumes "fits V [(True, abi_seq ps)]" "opened V n U" "head_size ps = 32 * n" "laid U ps W" "closed W X"
  shows "laid V [(True, abi_seq ps)] X"
proof -
  have o: "sv_pos U = area_end V" "area_end U = area_end V + 32 * n" "ar_size (sv_area U) = 32 * n"
    "ar_jumpBackPtr (sv_area U) = sv_pos V + 32" "\<not> ar_countWord (sv_area U)" "sv_below U = sv_area V # sv_below V"
    "sv_cells U = overwrite (sv_pos V) (word_bytes (int (ar_size (sv_area V)))) (sv_cells V)"
    "sv_room V \<le> sv_room U" "sv_pos V + 32 \<le> sv_room U"
    using assms(2) by (simp_all add: opened_def area_end_def Let_def)
  have l: "sv_area W = grown (sv_area U) (length (abi_tails ps))" "sv_below W = sv_below U"
    "sv_cells W = overwrite (area_end U) (abi_tails ps) (overwrite (sv_pos U) (abi_heads (ar_size (sv_area U)) ps) (sv_cells U))"
    "sv_room U \<le> sv_room W" "head_size ps \<noteq> 0 \<longrightarrow> sv_pos U + head_size ps \<le> sv_room W"
    "abi_tails ps \<noteq> [] \<longrightarrow> area_end W \<le> sv_room W"
    using assms(4) unfolding laid_def by auto
  have c: "sv_cells W = overwrite (area_end V) (abi_seq ps) (sv_cells U)"
    unfolding l(3) abi_seq_def overwrite_append by (simp add: o assms(3))
  have e: "area_end W = area_end V + length (abi_seq ps)"
    using area_end_laid [OF assms(4)] by (simp add: o length_abi_seq assms(3))
  have r: "abi_seq ps \<noteq> [] \<longrightarrow> area_end V + length (abi_seq ps) \<le> sv_room W"
    using l(5,6) e by (cases "abi_tails ps = []") (auto simp: length_abi_seq o assms(3) simp flip: length_greater_0_conv)
  show ?thesis
    using assms(5) l(1,2,4) o c r
    by (auto simp: closed_def laid_def area_end_def Let_def length_abi_seq assms(3))
qed

lemma lays_tail:
  assumes "lays ok view f ps" "head_size ps = 32 * n"
  shows "lays ok view (\<lambda>s. rbind (s_openTail k n s) (\<lambda>s. rbind (f s) (s_closeTail k))) [(True, abi_seq ps)]"
  unfolding lays_def
proof (intro allI impI)
  fix s
  assume s: "ok s" and V: "fits (view s) [(True, abi_seq ps)]"
  then have "blank (sv_cells (view s)) (sv_pos (view s)) 32" "ar_size (sv_area (view s)) < 2 ^ 32"
    by (auto simp: fits_def)
  then obtain t where t: "s_openTail k n s = Inr t" "ok t" "opened (view s) n (view t)"
    using openTail_law [OF s] by blast
  then obtain u where u: "f t = Inr u" "ok u" "laid (view t) ps (view u)"
    using assms(1) opened_fits [OF V t(3) assms(2)] unfolding lays_def by blast
  have "sv_below (view u) \<noteq> []" using u(3) t(3) by (simp add: laid_def opened_def Let_def)
  then obtain w where "s_closeTail k u = Inr w" "ok w" "closed (view u) (view w)"
    using closeTail_law [OF u(2)] by blast
  with t u closed_laid [OF V t(3) assms(2) u(3)]
  show "\<exists>s'. rbind (s_openTail k n s) (\<lambda>s. rbind (f s) (s_closeTail k)) = Inr s' \<and> ok s' \<and>
      laid (view s) [(True, abi_seq ps)] (view s')"
    by auto
qed

text \<open>A tail of raw bytes: the writer itself lets the area grow.\<close>

lemma lays_raw_tail:
  assumes "stores ok view f bs (length bs)" "bs \<noteq> []"
  shows "lays ok view (\<lambda>s. rbind (s_openTail k 0 s) (\<lambda>s. rbind (f s) (s_closeTail k))) [(True, bs)]"
  unfolding lays_def
proof (intro allI impI)
  fix s
  assume s: "ok s" and V: "fits (view s) [(True, bs)]"
  then have "blank (sv_cells (view s)) (sv_pos (view s)) 32" "ar_size (sv_area (view s)) < 2 ^ 32"
    and e: "\<And>n. blank (sv_cells (view s)) (area_end (view s)) n" "sv_pos (view s) + 32 \<le> area_end (view s)"
    by (auto simp: fits_def)
  then obtain t where t: "s_openTail k 0 s = Inr t" "ok t" "opened (view s) 0 (view t)"
    using openTail_law [OF s] by blast
  have "blank (sv_cells (view t)) (sv_pos (view t)) (length bs)"
    using t(3) e(2) blank_overwrite [OF e(1), of "sv_pos (view s)"] by (simp add: opened_def area_end_def Let_def)
  then obtain u where u: "f t = Inr u" "ok u" "stored (view t) bs (length bs) (view u)"
    using assms(1) t(2) unfolding stores_def by blast
  have "sv_below (view u) \<noteq> []" using u(3) t(3) by (simp add: stored_def opened_def Let_def)
  then obtain w where w: "s_closeTail k u = Inr w" "ok w" "closed (view u) (view w)"
    using closeTail_law [OF u(2)] by blast
  have "laid (view s) [(True, bs)] (view w)"
    using t(3) u(3) w(3) by (auto simp: laid_def stored_def opened_def closed_def area_end_def Let_def)
  with t u w show "\<exists>s'. rbind (s_openTail k 0 s) (\<lambda>s. rbind (f s) (s_closeTail k)) = Inr s' \<and> ok s' \<and>
      laid (view s) [(True, bs)] (view s')"
    by auto
qed

lemma array_fits:
  assumes "fits V [(True, word_bytes (int n) @ abi_seq ps)]" "opened_array V n W" "head_size ps = 32 * n"
  shows "fits W ps"
proof -
  have f: "\<And>n. blank (sv_cells V) (area_end V) n" "sv_pos V + 32 \<le> area_end V"
    "32 + length (abi_seq ps) < 2 ^ 32" and p: "length (abi_seq ps) = 32 * n + length (abi_tails ps)"
    using assms(1,3) by (auto simp: fits_def length_abi_seq)
  have o: "sv_pos W = area_end V + 32" "ar_size (sv_area W) = 32 * n" "area_end W = area_end V + 32 + 32 * n"
    "sv_cells W = overwrite (area_end V) (word_bytes (int n))
       (overwrite (sv_pos V) (word_bytes (int (ar_size (sv_area V)))) (sv_cells V))"
    using assms(2) by (simp_all add: opened_array_def area_end_def Let_def)
  have "blank (sv_cells W) (area_end V + 32) m" for m
    unfolding o(4) using f(2) blank_sub [OF f(1) [of "32 + m"], of "area_end V + 32" m]
    by (intro blank_overwrite) auto
  moreover have "blank (sv_cells W) (area_end W) m" for m
    using blank_sub [OF calculation [of "32 * n + m"], of "area_end W" m] o(3) by simp
  ultimately show ?thesis using f(3) p o(1-3) assms(3) by (simp add: fits_def)
qed

lemma array_closed_laid:
  assumes "opened_array V n U" "head_size ps = 32 * n" "laid U ps W" "closed W X"
  shows "laid V [(True, word_bytes (int n) @ abi_seq ps)] X"
proof -
  have o: "sv_pos U = area_end V + 32" "area_end U = area_end V + 32 + 32 * n" "ar_size (sv_area U) = 32 * n"
    "ar_jumpBackPtr (sv_area U) = sv_pos V + 32" "ar_countWord (sv_area U)" "sv_below U = sv_area V # sv_below V"
    "sv_cells U = overwrite (area_end V) (word_bytes (int n))
       (overwrite (sv_pos V) (word_bytes (int (ar_size (sv_area V)))) (sv_cells V))"
    "sv_room V \<le> sv_room U" "sv_pos V + 32 \<le> sv_room U" "area_end V + 32 \<le> sv_room U"
    using assms(1) by (simp_all add: opened_array_def area_end_def Let_def)
  have l: "sv_area W = grown (sv_area U) (length (abi_tails ps))" "sv_below W = sv_below U"
    "sv_cells W = overwrite (area_end U) (abi_tails ps) (overwrite (sv_pos U) (abi_heads (ar_size (sv_area U)) ps) (sv_cells U))"
    "sv_room U \<le> sv_room W" "head_size ps \<noteq> 0 \<longrightarrow> sv_pos U + head_size ps \<le> sv_room W"
    "abi_tails ps \<noteq> [] \<longrightarrow> area_end W \<le> sv_room W"
    using assms(3) unfolding laid_def by auto
  have c: "sv_cells W = overwrite (area_end V) (word_bytes (int n) @ abi_seq ps)
      (overwrite (sv_pos V) (word_bytes (int (ar_size (sv_area V)))) (sv_cells V))"
    unfolding l(3) abi_seq_def overwrite_append o(7) by (simp add: o assms(2) add.assoc)
  have e: "area_end W = area_end V + (32 + length (abi_seq ps))"
    using area_end_laid [OF assms(3)] by (simp add: o length_abi_seq assms(2))
  have r: "area_end V + (32 + length (abi_seq ps)) \<le> sv_room W"
    using l(4-6) e o(10) by (cases "abi_tails ps = []"; cases "n = 0") (auto simp: length_abi_seq o(1) assms(2))
  show ?thesis
    using assms(4) l(1,2,4) o c r
    by (auto simp: closed_def laid_def area_end_def Let_def length_abi_seq assms(2) add.commute add.left_commute)
qed

lemma lays_array:
  assumes "lays ok view f ps" "head_size ps = 32 * n"
  shows "lays ok view (\<lambda>s. rbind (s_openArray k n s) (\<lambda>s. rbind (f s) (s_closeTail k)))
    [(True, word_bytes (int n) @ abi_seq ps)]"
  unfolding lays_def
proof (intro allI impI)
  fix s
  assume s: "ok s" and V: "fits (view s) [(True, word_bytes (int n) @ abi_seq ps)]"
  then have "blank (sv_cells (view s)) (sv_pos (view s)) 32" "ar_size (sv_area (view s)) < 2 ^ 32"
    "blank (sv_cells (view s)) (ar_start (sv_area (view s)) + ar_size (sv_area (view s))) 32"
    "sv_pos (view s) + 32 \<le> ar_start (sv_area (view s)) + ar_size (sv_area (view s))" "n < 2 ^ 32"
    using assms(2) by (auto simp: fits_def area_end_def length_abi_seq)
  then obtain t where t: "s_openArray k n s = Inr t" "ok t" "opened_array (view s) n (view t)"
    using openArray_law [OF s] by blast
  then obtain u where u: "f t = Inr u" "ok u" "laid (view t) ps (view u)"
    using assms(1) array_fits [OF V t(3) assms(2)] unfolding lays_def by blast
  have "sv_below (view u) \<noteq> []" using u(3) t(3) by (simp add: laid_def opened_array_def Let_def)
  then obtain w where "s_closeTail k u = Inr w" "ok w" "closed (view u) (view w)"
    using closeTail_law [OF u(2)] by blast
  with t u array_closed_laid [OF t(3) assms(2) u(3)]
  show "\<exists>s'. rbind (s_openArray k n s) (\<lambda>s. rbind (f s) (s_closeTail k)) = Inr s' \<and> ok s' \<and>
      laid (view s) [(True, word_bytes (int n) @ abi_seq ps)] (view s')"
    by auto
qed

end

lemma lays_small: "(length bs < 2 ^ 32 \<Longrightarrow> lays ok view f [(True, bs)]) \<Longrightarrow> lays ok view f [(True, bs)]"
  by (auto simp: lays_def fits_def)

lemma slots_head_size:
  assumes "abi_wf item" "slotsCount item = 1" "list_all (abi_typed item) vs"
  shows "head_size (map (\<lambda>x. (is_dynamic item, abi_enc item x)) vs) = 32 * length vs"
  using assms(3)
proof (induction vs)
  case (Cons x vs)
  then show ?case using static_length(1) [OF assms(1), of x] assms(2) by auto
qed simp

lemma fields_head_size:
  "list_all (\<lambda>(key, c). abi_wf c) cs \<Longrightarrow> typed_fields cs v \<Longrightarrow> head_size (abi_fields cs v) = 32 * childrenSlotsCount cs"
  by (rule static_length(2))

lemma encode_FixedSize_eq:
  "length vs = n \<Longrightarrow> evm_encode k (FixedSizeArrayCodec item n) (EArr vs) =
    (if is_dynamic (FixedSizeArrayCodec item n)
     then (\<lambda>s. rbind (s_openTail k n s) (\<lambda>s. rbind (rfold (\<lambda>x s. evm_encode k item x s) vs s) (s_closeTail k)))
     else rfold (\<lambda>x s. evm_encode k item x s) vs)"
  by (rule ext) (simp add: as_items_def)

lemma encode_Struct_eq:
  "evm_encode k (StructCodec cs) v =
    (if is_dynamic (StructCodec cs)
     then (\<lambda>s. rbind (s_openTail k (childrenSlotsCount cs) s) (\<lambda>s. rbind (encode_fields k cs v s) (s_closeTail k)))
     else encode_fields k cs v)"
  by (rule ext) simp

context evm_sink_laws
begin

lemma number_stores: "number_in t n \<Longrightarrow> stores ok view (number_writer k t n) (word_bytes n) 0"
  using unsigned_laws(1-3) [of n] signed_laws(1-3) [of n]
  by (cases t) (simp_all add: number_in_def number_writer_def)

lemma bigint_stores: "bigint_in t n \<Longrightarrow> stores ok view (bigint_writer k t n) (word_bytes n) 0"
  using unsigned_laws(4-6) [of n] signed_laws(4-6) [of n]
  by (cases t) (simp_all add: bigint_in_def bigint_writer_def)

lemma number_safe: "number_in t n \<Longrightarrow> safeToNumber n = Inr n"
  by (cases t) (auto simp: number_in_def in_unsigned_def in_signed_def safeToNumber_def)

lemma lays_bytes_tail:
  assumes "bytes_arg x = Some bs"
  shows "lays ok view (\<lambda>s. rbind (s_openTail k 0 s) (\<lambda>s. rbind (s_bytes k x s) (s_closeTail k))) [(True, abi_bytes bs)]"
proof (rule lays_small)
  have b: "length (abi_bytes bs) = 32 + length (padded bs)" "length bs \<le> length (padded bs)"
    by (simp add: abi_bytes_def) (unfold length_padded, linarith)
  assume "length (abi_bytes bs) < 2 ^ 32"
  with b have "length bs < 2 ^ 32" by linarith
  then have "stores ok view (s_bytes k x) (abi_bytes bs) (length (abi_bytes bs))"
    using bytes_law [OF assms] b(1) by (simp add: abi_bytes_def)
  moreover have "abi_bytes bs \<noteq> []" using b(1) by (metis add_is_0 length_0_conv zero_neq_numeral)
  ultimately show "lays ok view (\<lambda>s. rbind (s_openTail k 0 s) (\<lambda>s. rbind (s_bytes k x s) (s_closeTail k))) [(True, abi_bytes bs)]"
    by (rule lays_raw_tail)
qed

lemma lays_encode:
  "abi_wf c \<Longrightarrow> abi_typed c v \<Longrightarrow> lays ok view (evm_encode k c v) [(is_dynamic c, abi_enc c v)]"
  "list_all (\<lambda>(key, c). abi_wf c) cs \<Longrightarrow> typed_fields cs v \<Longrightarrow> lays ok view (encode_fields k cs v) (abi_fields cs v)"
proof (induction c v and cs v rule: abi_enc_abi_fields.induct)
  case (1 t v)
  then obtain n where n: "numberish v = Inr n" "number_in t n" by (auto split: sum.splits)
  then have "evm_encode k (NumberCodec t) v = number_writer k t n" by (intro ext) (simp add: number_safe)
  with lays_stores [OF number_stores [OF n(2)]] n(1) show ?case by simp
next
  case (2 t v)
  then obtain n where n: "numberish v = Inr n" "bigint_in t n" by (auto split: sum.splits)
  then have "evm_encode k (BigintCodec t) v = bigint_writer k t n" by (intro ext) simp
  with lays_stores [OF bigint_stores [OF n(2)]] n(1) show ?case by simp
next
  case (3 v)
  then obtain b where b: "v = EBool b" by (auto split: evm_val.splits)
  then have "evm_encode k BoolCodec v = s_bool k b" by (intro ext) (simp add: as_bool_def)
  with lays_stores [OF bool_law, of b] b show ?case by simp
next
  case (4 v)
  then obtain t where t: "v = EStr t" by (auto split: evm_val.splits)
  then have "evm_encode k StringCodec v =
      (\<lambda>s. rbind (s_openTail k 0 s) (\<lambda>s. rbind (s_bytes k (EBytes (UTF8_ENCODER_encode t)) s) (s_closeTail k)))"
    by (intro ext) (simp add: as_text_def string_law)
  with lays_bytes_tail [of "EBytes (UTF8_ENCODER_encode t)"] t show ?case by (simp add: bytes_arg_def)
next
  case (5 v)
  then obtain bs where b: "bytes_arg v = Some bs" by auto
  have "evm_encode k BytesCodec v = (\<lambda>s. rbind (s_openTail k 0 s) (\<lambda>s. rbind (s_bytes k v s) (s_closeTail k)))"
    by (intro ext) simp
  with lays_bytes_tail [OF b] b show ?case by simp
next
  case (6 n v)
  then obtain bs where b: "bytes_arg v = Some bs" "length bs \<le> n" "n \<le> 32" by (auto split: option.splits)
  have "evm_encode k (BytesNCodec n) v = s_staticBytes k n v" by (intro ext) simp
  with lays_stores [OF staticBytes_law [OF b(3,1,2)]] b(1) show ?case by simp
next
  case (7 v)
  then obtain t where t: "v = EStr t" "plain_address t" by (auto split: evm_val.splits)
  then have "evm_encode k AddressCodec v = s_address k t" by (intro ext) (simp add: as_text_def)
  with lays_stores [OF address_law [OF t(2)]] t(1) show ?case by simp
next
  case (8 item v)
  then obtain vs where v: "v = EArr vs" "list_all (abi_typed item) vs" by (auto split: evm_val.splits)
  let ?ps = "map (\<lambda>x. (is_dynamic item, abi_enc item x)) vs"
  have "lays ok view (rfold (\<lambda>x s. evm_encode k item x s) vs) ?ps"
    by (rule lays_rfold) (use 8 v in \<open>auto simp: list_all_iff\<close>)
  moreover have "head_size ?ps = 32 * length vs" using 8 v(2) by (intro slots_head_size) auto
  moreover have "evm_encode k (ArrayCodec item) v =
      (\<lambda>s. rbind (s_openArray k (length vs) s) (\<lambda>s. rbind (rfold (\<lambda>x s. evm_encode k item x s) vs s) (s_closeTail k)))"
    by (intro ext) (simp add: v(1) as_items_def)
  ultimately show ?case using lays_array [of "rfold (\<lambda>x s. evm_encode k item x s) vs" ?ps "length vs"] v(1) by simp
next
  case (9 item n v)
  then obtain vs where v: "v = EArr vs" "length vs = n" "list_all (abi_typed item) vs" by (auto split: evm_val.splits)
  let ?ps = "map (\<lambda>x. (is_dynamic item, abi_enc item x)) vs"
  have l: "lays ok view (rfold (\<lambda>x s. evm_encode k item x s) vs) ?ps"
    by (rule lays_rfold) (use 9 v in \<open>auto simp: list_all_iff\<close>)
  have h: "head_size ?ps = 32 * n" using 9 v(2,3) slots_head_size [of item vs] by simp
  show ?case
  proof (cases "is_dynamic (FixedSizeArrayCodec item n)")
    case True
    then show ?thesis using lays_tail [OF l h] v by (simp only: encode_FixedSize_eq [OF v(2)]) simp
  next
    case False
    then have "list_all (\<lambda>(d, bs). \<not> d) ?ps" using v(2) by (auto simp: list_all_iff)
    from lays_static [OF l this] show ?thesis using False v by (simp only: encode_FixedSize_eq [OF v(2)]) simp
  qed
next
  case (10 components v)
  then have l: "lays ok view (encode_fields k components v) (abi_fields components v)"
    and h: "head_size (abi_fields components v) = 32 * childrenSlotsCount components"
    using fields_head_size by simp_all
  show ?case
  proof (cases "is_dynamic (StructCodec components)")
    case True
    then show ?thesis using lays_tail [OF l h] by (simp only: encode_Struct_eq) simp
  next
    case False
    from lays_static [OF l static_fields [OF False]] show ?thesis using False by (simp only: encode_Struct_eq) simp
  qed
next
  case (11 v)
  have "encode_fields k [] v = Inr" by (intro ext) simp
  then show ?case by (simp add: lays_Nil)
next
  case (12 key c rest v)
  then obtain x where x: "evm_get v key = Inr x" "abi_typed c x" "typed_fields rest v" by (auto split: sum.splits)
  have "encode_fields k ((key, c) # rest) v = (\<lambda>s. rbind (evm_encode k c x s) (encode_fields k rest v))"
    by (intro ext) (simp add: x(1))
  with lays_Cons [of ok view "evm_encode k c x" "(is_dynamic c, abi_enc c x)"] 12 x show ?case by simp
qed

end

section \<open>Decoders read the specified bytes\<close>

text \<open>
  The bytes of a source show a sequence of values when the heads are at a position and the tails at the offset
  that the first pointer gives.
\<close>

definition shows_at :: "byte list \<Rightarrow> nat \<Rightarrow> nat \<Rightarrow> (bool \<times> byte list) list \<Rightarrow> bool" where
  "shows_at D p off ps \<longleftrightarrow>
     holds D p (abi_heads off ps) \<and> holds D off (abi_tails ps) \<and> off + length (abi_tails ps) < 2 ^ 32"

definition gets :: "('s \<Rightarrow> bool) \<Rightarrow> ('s \<Rightarrow> byte list) \<Rightarrow> ('s \<Rightarrow> nat) \<Rightarrow>
    ('s \<Rightarrow> ('a \<times> 's) result) \<Rightarrow> (bool \<times> byte list) list \<Rightarrow> 'a \<Rightarrow> bool" where
  "gets ok data at f ps v \<longleftrightarrow>
     (\<forall>s off. ok s \<longrightarrow> shows_at (data s) (at s) off ps \<longrightarrow>
        (\<exists>s'. f s = Inr (v, s') \<and> ok s' \<and> data s' = data s \<and> at s' = at s + head_size ps))"

lemma getsD:
  "gets ok data at f ps v \<Longrightarrow> ok s \<Longrightarrow> shows_at (data s) (at s) off ps \<Longrightarrow>
    \<exists>s'. f s = Inr (v, s') \<and> ok s' \<and> data s' = data s \<and> at s' = at s + head_size ps"
  unfolding gets_def by blast

lemma gets_reads: "reads ok data at saved f bs v \<Longrightarrow> gets ok data at f [(False, bs)] v"
  by (fastforce simp: reads_def gets_def shows_at_def)

lemma gets_rmap: "gets ok data at f ps v \<Longrightarrow> gets ok data at (\<lambda>s. rmap_val g (f s)) ps (g v)"
  unfolding gets_def rmap_val_def by fastforce

lemma shows_at_Cons:
  assumes "shows_at D p off ((d, bs) # ps)"
  shows "shows_at D p off [(d, bs)]" "shows_at D (p + head_size [(d, bs)]) (off + length (abi_tails [(d, bs)])) ps"
  using assms by (auto simp: shows_at_def holds_append split: if_splits)

lemma gets_Cons:
  assumes "gets ok data at f [p] x" "gets ok data at g ps xs"
  shows "gets ok data at (\<lambda>s. rbind (f s) (\<lambda>(x, s). rbind (g s) (\<lambda>(xs, s). Inr (h x xs, s)))) (p # ps) (h x xs)"
  unfolding gets_def
proof (intro allI impI)
  fix s off
  obtain d bs where p: "p = (d, bs)" by (cases p)
  assume s: "ok s" and sh: "shows_at (data s) (at s) off (p # ps)"
  note c = shows_at_Cons [OF sh [unfolded p]]
  obtain t where t: "f s = Inr (x, t)" "ok t" "data t = data s" "at t = at s + head_size [p]"
    using getsD [OF assms(1) s] c(1) p by blast
  moreover have "shows_at (data t) (at t) (off + length (abi_tails [p])) ps" using c(2) t p by simp
  then obtain u where "g t = Inr (xs, u)" "ok u" "data u = data t" "at u = at t + head_size ps"
    using getsD [OF assms(2) t(2)] by blast
  ultimately show "\<exists>s'. rbind (f s) (\<lambda>(x, s). rbind (g s) (\<lambda>(xs, s). Inr (h x xs, s))) = Inr (h x xs, s') \<and> ok s' \<and>
      data s' = data s \<and> at s' = at s + head_size (p # ps)"
    by (simp add: p)
qed

lemma gets_items:
  assumes "\<And>x. x \<in> set vs \<Longrightarrow> gets ok data at f [p x] (w x)"
  shows "gets ok data at (decode_items f (length vs)) (map p vs) (map w vs)"
  using assms
proof (induction vs)
  case Nil
  then show ?case by (simp add: gets_def)
next
  case (Cons x vs)
  have "decode_items f (length (x # vs)) =
      (\<lambda>s. rbind (f s) (\<lambda>(x, s). rbind (decode_items f (length vs) s) (\<lambda>(xs, s). Inr (x # xs, s))))"
    by (rule ext) simp
  then show ?case using gets_Cons [of ok data at f "p x" "w x" _ _ _ "(#)"] Cons by simp
qed

lemma gets_static:
  assumes "gets ok data at f ps v" "list_all (\<lambda>(d, bs). \<not> d) ps"
  shows "gets ok data at f [(False, abi_seq ps)] v"
proof -
  have "abi_seq ps = abi_heads off ps" for off
    using static_heads [OF assms(2)] static_tails [OF assms(2)] by (simp add: abi_seq_def)
  then have "shows_at D p off [(False, abi_seq ps)] \<longleftrightarrow> shows_at D p off ps" for D p off
    using static_tails [OF assms(2)] by (simp add: shows_at_def)
  moreover have "head_size [(False, abi_seq ps)] = head_size ps"
    using static_tails [OF assms(2)] by (simp add: length_abi_seq)
  ultimately show ?thesis using assms(1) by (simp add: gets_def)
qed

text \<open>A tail, seen from its own start.\<close>

lemma shows_at_tail:
  assumes "holds D q (abi_seq ps)" "length (abi_seq ps) < 2 ^ 32"
  shows "shows_at (drop q D) 0 (head_size ps) ps"
  using assms holds_length [OF assms(1)] by (simp add: shows_at_def holds_drop abi_seq_def holds_append)

lemma shows_at_dynamic:
  "shows_at D p off [(True, bs)] \<Longrightarrow> holds D p (word_bytes (int off)) \<and> holds D off bs \<and> off < 2 ^ 32 \<and> length bs < 2 ^ 32"
  by (simp add: shows_at_def)

context evm_src_laws
begin

lemma gets_number: "number_in t n \<Longrightarrow> gets ok data at (number_reader r t) [(False, word_bytes n)] (Some n)"
  using unsigned_reads(1-3) [of n] signed_reads(1-3) [of n]
  by (cases t) (simp_all add: number_in_def number_reader_def gets_reads)

lemma gets_bigint: "bigint_in t n \<Longrightarrow> gets ok data at (bigint_reader r t) [(False, word_bytes n)] n"
  using unsigned_reads(4-6) [of n] signed_reads(4-6) [of n]
  by (cases t) (simp_all add: bigint_in_def bigint_reader_def gets_reads)

lemma read_pointer:
  assumes "ok s" "holds (data s) (at s) (word_bytes (int off))" "off < 2 ^ 32"
  shows "\<exists>s'. r_u32 r s = Inr (Some (int off), s') \<and> ok s' \<and> data s' = data s \<and> at s' = at s + 32 \<and> saved s' = saved s"
  using unsigned_reads(3) [of "int off"] assms unfolding reads_def by (simp add: in_unsigned_def)

lemma dynamic_bytes:
  assumes "shows_at D p off [(True, abi_bytes bs)]"
  shows "holds_dynamic D p off bs"
proof -
  have "length bs \<le> length (padded bs)" unfolding length_padded by linarith
  then have "length bs < 2 ^ 32" using shows_at_dynamic [OF assms] by (simp add: abi_bytes_def)
  then show ?thesis
    using shows_at_dynamic [OF assms] by (simp add: holds_dynamic_def abi_bytes_def padded_def holds_append)
qed

lemma gets_bytesHex: "gets ok data at (r_bytesHex r) [(True, abi_bytes bs)] (js ''0x'' @ hex_of_bytes bs)"
  using bytesHex_reads dynamic_bytes unfolding gets_def by simp blast

lemma gets_string: "gets ok data at (r_string r) [(True, abi_bytes bs)] (TEXT_DECODER_decode bs)"
  using string_reads dynamic_bytes unfolding gets_def by simp blast

lemma gets_tail:
  assumes "gets ok data at f ps v"
  shows "gets ok data at
    (\<lambda>s. rbind (r_u32 r s) (\<lambda>(offset, s). rbind (f (r_slice r offset s)) (\<lambda>(v, _). Inr (g v, s))))
    [(True, abi_seq ps)] (g v)"
  unfolding gets_def
proof (intro allI impI)
  fix s off
  assume s: "ok s" and sh: "shows_at (data s) (at s) off [(True, abi_seq ps)]"
  note d = shows_at_dynamic [OF sh]
  obtain t where t: "r_u32 r s = Inr (Some (int off), t)" "ok t" "data t = data s" "at t = at s + 32"
    using read_pointer [OF s] d by blast
  have "off \<le> length (data t)" using holds_length [of "data s" off "abi_seq ps"] d t(3) by simp
  then have sl: "ok (r_slice r (Some (int off)) t)" "data (r_slice r (Some (int off)) t) = drop off (data s)"
    "at (r_slice r (Some (int off)) t) = 0"
    using slice_law [OF t(2), of off] t(3) by simp_all
  obtain u where "f (r_slice r (Some (int off)) t) = Inr (v, u)"
    using getsD [OF assms sl(1)] shows_at_tail [of "data s" off ps] d sl by auto
  with t show "\<exists>s'. rbind (r_u32 r s) (\<lambda>(offset, s). rbind (f (r_slice r offset s)) (\<lambda>(v, _). Inr (g v, s))) = Inr (g v, s') \<and>
      ok s' \<and> data s' = data s \<and> at s' = at s + head_size [(True, abi_seq ps)]"
    by simp
qed

lemma gets_array:
  assumes "gets ok data at (decode_items f n) ps vs" "head_size ps = 32 * n"
  shows "gets ok data at
    (\<lambda>s. rbind (r_u32 r s) (\<lambda>(offset, s).
       rbind (r_jump r offset s) (\<lambda>s.
       rbind (r_u32 r s) (\<lambda>(len, s).
       rbind (array_length len) (\<lambda>n.
       rbind (decode_items f n (r_slice r (nplus offset (int WORD_SIZE)) s)) (\<lambda>(vs, _). Inr (EArr vs, r_jumpBack r s)))))))
    [(True, word_bytes (int n) @ abi_seq ps)] (EArr vs)" (is "gets ok data at ?f _ _")
  unfolding gets_def
proof (intro allI impI)
  fix s off
  assume s: "ok s" and sh: "shows_at (data s) (at s) off [(True, word_bytes (int n) @ abi_seq ps)]"
  note d = shows_at_dynamic [OF sh]
  then have h: "holds (data s) off (word_bytes (int n))" "holds (data s) (off + 32) (abi_seq ps)"
    by (simp_all add: holds_append)
  have n: "n < 2 ^ 32" "length (abi_seq ps) < 2 ^ 32" using d assms(2) by (simp_all add: length_abi_seq)
  obtain t where t: "r_u32 r s = Inr (Some (int off), t)" "ok t" "data t = data s" "at t = at s + 32"
    using read_pointer [OF s] d by blast
  obtain j where j: "r_jump r (Some (int off)) t = Inr j" "ok j" "data j = data s" "at j = off" "saved j = at s + 32"
    using jump_law [OF t(2), of off] holds_length [OF h(1)] t by auto
  obtain l where l: "r_u32 r j = Inr (Some (int n), l)" "ok l" "data l = data s" "saved l = at s + 32"
    using read_pointer [OF j(2), of n] h(1) n(1) j by auto
  have sl: "ok (r_slice r (Some (int (off + 32))) l)" "data (r_slice r (Some (int (off + 32))) l) = drop (off + 32) (data s)"
    "at (r_slice r (Some (int (off + 32))) l) = 0"
    using slice_law [OF l(2), of "off + 32"] holds_length [OF h(2)] l(3) by simp_all
  obtain u where "decode_items f n (r_slice r (Some (int (off + 32))) l) = Inr (vs, u)"
    using getsD [OF assms(1) sl(1)] shows_at_tail [OF h(2) n(2)] sl by auto
  with t(1) j(1) l(1) n(1) have "?f s = Inr (EArr vs, r_jumpBack r l)"
    by (simp add: array_length_def)
  then show "\<exists>s'. ?f s = Inr (EArr vs, s') \<and> ok s' \<and> data s' = data s \<and>
      at s' = at s + head_size [(True, word_bytes (int n) @ abi_seq ps)]"
    using jumpBack_law [OF l(2)] l(3,4) by simp
qed

end

lemma TEXT_DECODER_encode: "decodable t \<Longrightarrow> TEXT_DECODER_decode (UTF8_ENCODER_encode t) = t"
  by (cases t) (simp_all add: TEXT_DECODER_decode_def utf8_toString_encode decodable_def)

lemma decode_FixedSize_eq:
  "evm_decode r (FixedSizeArrayCodec item n) =
    (if is_dynamic (FixedSizeArrayCodec item n)
     then (\<lambda>s. rbind (r_u32 r s) (\<lambda>(offset, s).
       rbind (decode_items (\<lambda>s. evm_decode r item s) n (r_slice r offset s)) (\<lambda>(vs, _). Inr (EArr vs, s))))
     else (\<lambda>s. rmap_val EArr (decode_items (\<lambda>s. evm_decode r item s) n s)))"
  by (rule ext) simp

lemma decode_Struct_eq:
  "evm_decode r (StructCodec cs) =
    (if is_dynamic (StructCodec cs)
     then (\<lambda>s. rbind (r_u32 r s) (\<lambda>(offset, s). rbind (decode_fields r cs (r_slice r offset s)) (\<lambda>(fs, _). Inr (EObj fs, s))))
     else (\<lambda>s. rmap_val EObj (decode_fields r cs s)))"
  by (rule ext) simp

context evm_src_laws
begin

lemma gets_decode:
  "abi_wf c \<Longrightarrow> abi_typed c v \<Longrightarrow> gets ok data at (evm_decode r c) [(is_dynamic c, abi_enc c v)] (abi_decoded c v)"
  "list_all (\<lambda>(key, c). abi_wf c) cs \<Longrightarrow> typed_fields cs v \<Longrightarrow>
    gets ok data at (decode_fields r cs) (abi_fields cs v) (decoded_fields cs v)"
proof (induction c v and cs v rule: abi_enc_abi_fields.induct)
  case (1 t v)
  then obtain n where n: "numberish v = Inr n" "number_in t n" by (auto split: sum.splits)
  have "evm_decode r (NumberCodec t) = (\<lambda>s. rmap_val num_val (number_reader r t s))" by (rule ext) simp
  with gets_rmap [OF gets_number [OF n(2)], of num_val] n(1) show ?case by (simp add: num_val_def)
next
  case (2 t v)
  then obtain n where n: "numberish v = Inr n" "bigint_in t n" by (auto split: sum.splits)
  have "evm_decode r (BigintCodec t) = (\<lambda>s. rmap_val EBig (bigint_reader r t s))" by (rule ext) simp
  with gets_rmap [OF gets_bigint [OF n(2)], of EBig] n(1) show ?case by simp
next
  case (3 v)
  then obtain b where b: "v = EBool b" by (auto split: evm_val.splits)
  have "evm_decode r BoolCodec = (\<lambda>s. rmap_val EBool (r_bool r s))" by (rule ext) simp
  with gets_rmap [OF gets_reads [OF bool_reads], of EBool b] b show ?case by simp
next
  case (4 v)
  then obtain t where t: "v = EStr t" "decodable t" by (auto split: evm_val.splits)
  have "evm_decode r StringCodec = (\<lambda>s. rmap_val EStr (r_string r s))" by (rule ext) simp
  with gets_rmap [OF gets_string, of EStr "UTF8_ENCODER_encode t"] t show ?case by (simp add: TEXT_DECODER_encode)
next
  case (5 v)
  then obtain bs where b: "bytes_arg v = Some bs" by auto
  have "evm_decode r BytesCodec = (\<lambda>s. rmap_val EStr (r_bytesHex r s))" by (rule ext) simp
  with gets_rmap [OF gets_bytesHex, of EStr bs] b show ?case by simp
next
  case (6 n v)
  then obtain bs where b: "bytes_arg v = Some bs" "length bs \<le> n" "n \<le> 32" by (auto split: option.splits)
  let ?w = "bs @ replicate (32 - length bs) 0"
  have "length ?w = 32" using b by simp
  moreover have "take n ?w = bs @ replicate (n - length bs) 0" using b by (simp add: min_def)
  moreover have "evm_decode r (BytesNCodec n) = (\<lambda>s. rmap_val EStr (r_staticBytesHex r n s))" by (rule ext) simp
  ultimately show ?case using gets_rmap [OF gets_reads [OF staticBytesHex_reads [OF b(3), of ?w]], of EStr] b(1) by simp
next
  case (7 v)
  then obtain t where t: "v = EStr t" "plain_address t" by (auto split: evm_val.splits)
  let ?w = "replicate 12 0 @ bytes_of_hex (drop 2 t)"
  have "length ?w = 32" using plain_addressD(2) [OF t(2)] by simp
  moreover have "evm_decode r AddressCodec = (\<lambda>s. rmap_val EStr (r_address r s))" by (rule ext) simp
  ultimately show ?case using gets_rmap [OF gets_reads [OF address_reads [of ?w]], of EStr] t(1) by simp
next
  case (8 item v)
  then obtain vs where v: "v = EArr vs" "list_all (abi_typed item) vs" by (auto split: evm_val.splits)
  let ?ps = "map (\<lambda>x. (is_dynamic item, abi_enc item x)) vs"
  have "gets ok data at (decode_items (\<lambda>s. evm_decode r item s) (length vs)) ?ps (map (\<lambda>x. abi_decoded item x) vs)"
    by (rule gets_items) (use 8 v in \<open>auto simp: list_all_iff\<close>)
  moreover have "head_size ?ps = 32 * length vs" using 8 v(2) by (intro slots_head_size) auto
  moreover have "evm_decode r (ArrayCodec item) =
      (\<lambda>s. rbind (r_u32 r s) (\<lambda>(offset, s).
         rbind (r_jump r offset s) (\<lambda>s.
         rbind (r_u32 r s) (\<lambda>(len, s).
         rbind (array_length len) (\<lambda>n.
         rbind (decode_items (\<lambda>s. evm_decode r item s) n (r_slice r (nplus offset (int WORD_SIZE)) s)) (\<lambda>(vs, _).
           Inr (EArr vs, r_jumpBack r s)))))))"
    by (rule ext) simp
  ultimately show ?case
    using gets_array [of "\<lambda>s. evm_decode r item s" "length vs" ?ps] v(1) by (simp only:) simp
next
  case (9 item n v)
  then obtain vs where v: "v = EArr vs" "length vs = n" "list_all (abi_typed item) vs" by (auto split: evm_val.splits)
  let ?ps = "map (\<lambda>x. (is_dynamic item, abi_enc item x)) vs" and ?d = "map (\<lambda>x. abi_decoded item x) vs"
  have g: "gets ok data at (decode_items (\<lambda>s. evm_decode r item s) (length vs)) ?ps ?d"
    by (rule gets_items) (use 9 v in \<open>auto simp: list_all_iff\<close>)
  show ?case
  proof (cases "is_dynamic (FixedSizeArrayCodec item n)")
    case True
    then show ?thesis
      using gets_tail [OF g, of EArr] v by (simp only: decode_FixedSize_eq if_True) simp
  next
    case False
    then have "list_all (\<lambda>(d, bs). \<not> d) ?ps" using v(2) by (auto simp: list_all_iff)
    from gets_static [OF gets_rmap [OF g, of EArr] this] show ?thesis
      using False v by (simp only: decode_FixedSize_eq if_False) simp
  qed
next
  case (10 components v)
  then have g: "gets ok data at (decode_fields r components) (abi_fields components v) (decoded_fields components v)"
    by simp
  show ?case
  proof (cases "is_dynamic (StructCodec components)")
    case True
    then show ?thesis using gets_tail [OF g, of EObj] by (simp only: decode_Struct_eq if_True) simp
  next
    case False
    from gets_static [OF gets_rmap [OF g, of EObj] static_fields [OF False]] show ?thesis
      using False by (simp only: decode_Struct_eq if_False) simp
  qed
next
  case (11 v)
  then show ?case by (simp add: gets_def)
next
  case (12 key c rest v)
  then obtain x where x: "evm_get v key = Inr x" "abi_typed c x" "typed_fields rest v" by (auto split: sum.splits)
  have "decode_fields r ((key, c) # rest) =
      (\<lambda>s. rbind (evm_decode r c s) (\<lambda>(v, s). rbind (decode_fields r rest s) (\<lambda>(fs, s). Inr ((key, v) # fs, s))))"
    by (rule ext) simp
  with gets_Cons [of ok data at "evm_decode r c" "(is_dynamic c, abi_enc c x)" "abi_decoded c x" _ _ _ "\<lambda>v fs. (key, v) # fs"] 12 x
  show ?case by simp
qed

end

section \<open>Encoding into a fresh sink\<close>

text \<open>The encoding of the arguments of a call: the fields written one after the other into a sink of their slots.\<close>

lemma fresh_sink_lays:
  fixes k :: "'s evm_sink" and view :: "'s \<Rightarrow> sink_view"
  assumes "lays ok view f ps" "ok s" "sv_pos (view s) = 0" "sv_below (view s) = []"
    "sv_area (view s) = \<lparr>ar_start = 0, ar_jumpBackPtr = 0, ar_size = head_size ps, ar_countWord = False\<rparr>"
    "sv_cells (view s) = (\<lambda>_. 0)" "length (abi_seq ps) < 2 ^ 32"
  shows "\<exists>s'. f s = Inr s' \<and> ok s' \<and> sv_below (view s') = [] \<and> ar_size (sv_area (view s')) = length (abi_seq ps) \<and>
    length (abi_seq ps) \<le> sv_room (view s') \<and> (\<forall>i<length (abi_seq ps). sv_cells (view s') i = abi_seq ps ! i)"
proof -
  have "fits (view s) ps" using assms(3-7) by (simp add: fits_def area_end_def blank_def length_abi_seq)
  then obtain s' where s': "f s = Inr s'" "ok s'" "laid (view s) ps (view s')"
    using assms(1,2) unfolding lays_def by blast
  let ?V = "view s" and ?W = "view s'"
  have e: "area_end ?V = head_size ps" using assms(5) by (simp add: area_end_def)
  have a: "sv_area ?W = grown (sv_area ?V) (length (abi_tails ps))" "sv_below ?W = []"
    using s'(3) assms(4) by (simp_all add: laid_def)
  have c: "sv_cells ?W = overwrite 0 (abi_seq ps) (\<lambda>_. 0)"
    using s'(3) assms(3,5,6) e by (simp add: laid_def abi_seq_def overwrite_append)
  have len: "area_end ?W = length (abi_seq ps)"
    using area_end_laid [OF s'(3)] e by (simp add: length_abi_seq)
  have "length (abi_seq ps) \<le> sv_room ?W"
  proof (cases "abi_tails ps = []")
    case True
    then show ?thesis using s'(3) assms(3) by (cases "head_size ps = 0") (auto simp: laid_def length_abi_seq)
  next
    case False
    then show ?thesis using s'(3) len by (simp add: laid_def)
  qed
  moreover have "ar_size (sv_area ?W) = length (abi_seq ps)" using a(1) assms(5) by (simp add: length_abi_seq)
  moreover have "\<forall>i<length (abi_seq ps). sv_cells ?W i = abi_seq ps ! i" by (simp add: c overwrite_def)
  ultimately show ?thesis using s'(1,2) a(2) by blast
qed

end
