(* ===== verification/Evm_Encoding.thy ===== *)
theory Evm_Encoding
  imports Evm_Codec
begin

text \<open>
  Whole encodings: the arguments of a call written into a fresh sink and read back by a fresh source, for both
  sinks and both sources, by the laws of \<open>Evm_Codec\<close>; and what the codecs do outside of them, with values out of
  bounds, arrays of items of several slots and truncated data.
\<close>

section \<open>Fresh sinks and sources\<close>

text \<open>\<open>encodeInline\<close> of a struct into a new sink, and the result of the sink.\<close>

definition encode_bytes :: "(jstr \<times> evm_codec) list \<Rightarrow> nat \<Rightarrow> evm_val \<Rightarrow> byte list result" where
  "encode_bytes cs capacity v =
     rbind (encode_fields bytes_sink_ops cs v (BytesSink_new (childrenSlotsCount cs) capacity)) bk_result"

definition encode_hex :: "(jstr \<times> evm_codec) list \<Rightarrow> nat \<Rightarrow> evm_val \<Rightarrow> jstr result" where
  "encode_hex cs capacity v =
     rbind (encode_fields hex_sink_ops cs v (HexSink_new (childrenSlotsCount cs) capacity)) hk_result"

text \<open>\<open>decodeInline\<close> of a struct from a new source over a whole array, and over a text behind its prefix.\<close>

definition decode_bytes :: "(jstr \<times> evm_codec) list \<Rightarrow> byte list \<Rightarrow> (jstr \<times> evm_val) list result" where
  "decode_bytes cs bs = rbind (decode_fields bytes_src_ops cs (BytesSrc_new bs 0 (length bs))) (\<lambda>(fs, _). Inr fs)"

definition decode_hex :: "(jstr \<times> evm_codec) list \<Rightarrow> jstr \<Rightarrow> (jstr \<times> evm_val) list result" where
  "decode_hex cs text = rbind (decode_fields hex_src_ops cs (HexSrc_new text (Some 2) (length text))) (\<lambda>(fs, _). Inr fs)"

text \<open>What the sizes of the code allow: well-formed codecs, values of their types, less than \<open>2\<^sup>3\<^sup>2\<close> bytes.\<close>

definition abi_args :: "(jstr \<times> evm_codec) list \<Rightarrow> evm_val \<Rightarrow> bool" where
  "abi_args cs v \<longleftrightarrow> abi_wf (StructCodec cs) \<and> abi_typed (StructCodec cs) v \<and> length (abi_enc (StructCodec cs) v) < 2 ^ 32"

lemma abi_argsD:
  assumes "abi_args cs v"
  shows "list_all (\<lambda>(key, c). abi_wf c) cs" "typed_fields cs v" "length (abi_seq (abi_fields cs v)) < 2 ^ 32"
    "head_size (abi_fields cs v) = 32 * childrenSlotsCount cs"
  using assms fields_head_size [of cs v] by (simp_all add: abi_args_def)

lemma take_cells: "length bs \<le> length buf \<Longrightarrow> \<forall>i<length bs. bk_cells buf i = bs ! i \<Longrightarrow> take (length bs) buf = bs"
  by (rule nth_equalityI) (auto simp: bk_cells_def)

lemma blank_buffer: "bk_cells (replicate n 0) = (\<lambda>_. 0)"
  by (rule ext) (simp add: bk_cells_def)

lemma encode_bytes_eq:
  assumes "abi_args cs v"
  shows "encode_bytes cs capacity v = Inr (abi_enc (StructCodec cs) v)"
proof -
  let ?ps = "abi_fields cs v" and ?s = "BytesSink_new (childrenSlotsCount cs) capacity"
  note a = abi_argsD [OF assms]
  obtain s' where s': "encode_fields bytes_sink_ops cs v ?s = Inr s'" "bk_below s' = []"
    "bk_size s' = length (abi_seq ?ps)" "length (abi_seq ?ps) \<le> length (bk_buf s')"
    "\<forall>i<length (abi_seq ?ps). bk_cells (bk_buf s') i = abi_seq ?ps ! i"
    using fresh_sink_lays [OF bytes_sink.lays_encode(2) [OF a(1,2)], of ?s] a(3,4)
    by (auto simp: BytesSink_new_def blank_buffer bk_size_def mult.commute)
  then show ?thesis using take_cells [OF s'(4,5)] by (simp add: encode_bytes_def bk_result_def js_assert_def)
qed

lemma HexSink_new_ok:
  "hk_ok (HexSink_new n capacity)" "hk_bytes_of (HexSink_new n capacity) = replicate capacity 0"
  using hk_ok_update [of "HexSink_new n capacity" "replicate capacity 0"]
  by (simp_all add: HexSink_new_def hex_of_zeros mult.commute)

lemma encode_hex_eq:
  assumes "abi_args cs v"
  shows "encode_hex cs capacity v = Inr (js ''0x'' @ hex_of_bytes (abi_enc (StructCodec cs) v))"
proof -
  let ?ps = "abi_fields cs v" and ?s = "HexSink_new (childrenSlotsCount cs) capacity"
  note a = abi_argsD [OF assms]
  have n: "hk_pos ?s = 0" "hk_below ?s = []" "hk_area ?s =
      \<lparr>ar_start = 0, ar_jumpBackPtr = 0, ar_size = head_size ?ps, ar_countWord = False\<rparr>"
    using a(4) by (simp_all add: HexSink_new_def mult.commute)
  obtain s' where s': "encode_fields hex_sink_ops cs v ?s = Inr s'" "hk_ok s'" "hk_below s' = []"
    "hk_size s' = length (abi_seq ?ps)" "length (abi_seq ?ps) \<le> length (hk_bytes_of s')"
    "\<forall>i<length (abi_seq ?ps). bk_cells (hk_bytes_of s') i = abi_seq ?ps ! i"
    using fresh_sink_lays [OF hex_sink.lays_encode(2) [OF a(1,2)], of ?s] n a(3) HexSink_new_ok
    by (auto simp: blank_buffer hk_size_def)
  have "take (2 * length (abi_seq ?ps)) (hk_buf s') = hex_of_bytes (abi_seq ?ps)"
    using s'(2) take_hex_of_bytes [of "length (abi_seq ?ps)" "hk_bytes_of s'"] take_cells [OF s'(5,6)]
    by (simp add: hk_ok_def)
  then show ?thesis
    using s'(1,3,4) by (simp add: encode_hex_def hk_result_def js_assert_def mult.commute)
qed

text \<open>A fresh source shows the arguments that its bytes begin with.\<close>

lemma fresh_source_gets:
  assumes "gets ok data at f (abi_fields cs v) fs" "ok s" "at s = 0" "data s = abi_enc (StructCodec cs) v @ rest"
    "length (abi_enc (StructCodec cs) v) < 2 ^ 32"
  shows "\<exists>s'. f s = Inr (fs, s')"
proof -
  let ?ps = "abi_fields cs v"
  have h: "holds (abi_seq ?ps @ rest) 0 (abi_seq ?ps)" by (simp add: holds_def)
  then have "shows_at (data s) (at s) (head_size ?ps) ?ps"
    using assms(3-5) by (simp add: shows_at_def abi_seq_def holds_append length_abi_seq)
  with assms(1,2) show ?thesis by (blast dest: getsD)
qed

lemma decode_bytes_eq:
  assumes "abi_args cs v"
  shows "decode_bytes cs (abi_enc (StructCodec cs) v @ rest) = Inr (decoded_fields cs v)"
proof -
  let ?D = "abi_enc (StructCodec cs) v @ rest"
  let ?s = "BytesSrc_new ?D 0 (length ?D)"
  have "br_ok ?s" "br_at ?s = 0" "br_buf ?s = ?D"
    using br_okI [of ?s 0 0] by (simp_all add: BytesSrc_new_def br_buf_def)
  then obtain s' where "decode_fields bytes_src_ops cs ?s = Inr (decoded_fields cs v, s')"
    using fresh_source_gets [OF bytes_src.gets_decode(2), of cs v ?s rest] abi_argsD [OF assms] by auto
  then show ?thesis by (simp add: decode_bytes_def)
qed

lemma decode_hex_source:
  assumes "abi_args cs v" "hex = pre @ hex_of_bytes (abi_enc (StructCodec cs) v @ rest)"
  shows "\<exists>s'. decode_fields hex_src_ops cs (HexSrc_new hex (Some (int (length pre))) (length hex)) =
    Inr (decoded_fields cs v, s')"
proof -
  let ?s = "HexSrc_new hex (Some (int (length pre))) (length hex)"
  have "hr_ok ?s \<and> hr_data ?s = abi_enc (StructCodec cs) v @ rest \<and> hr_at ?s = 0"
    using HexSrc_new_ok [of pre "abi_enc (StructCodec cs) v @ rest"] by (simp add: assms(2))
  then show ?thesis
    using fresh_source_gets [OF hex_src.gets_decode(2), of cs v ?s rest] abi_argsD [OF assms(1)] by auto
qed

lemma decode_hex_eq:
  assumes "abi_args cs v"
  shows "decode_hex cs (js ''0x'' @ hex_of_bytes (abi_enc (StructCodec cs) v @ rest)) = Inr (decoded_fields cs v)"
proof -
  have "length (js ''0x'') = 2" by (simp add: js_def)
  with decode_hex_source [OF assms refl, of "js ''0x''" rest] show ?thesis by (auto simp: decode_hex_def)
qed

section \<open>Properties\<close>

text \<open>A sample of arguments: a number, a text, an array and a dynamic struct.\<close>

abbreviation sample_args :: "(jstr \<times> evm_codec) list" where
  "sample_args \<equiv>
     [(js ''a'', NumberCodec U8), (js ''b'', StringCodec), (js ''c'', ArrayCodec BoolCodec),
      (js ''d'', StructCodec [(js ''e'', BytesCodec), (js ''f'', BytesNCodec 2)])]"

abbreviation sample_vals :: evm_val where
  "sample_vals \<equiv>
     EObj [(js ''a'', ENum 7), (js ''b'', EStr (js ''hi'')), (js ''c'', EArr [EBool True, EBool False]),
       (js ''d'', EObj [(js ''e'', EBytes [1]), (js ''f'', EBytes [2, 3])])]"

lemma sample_abi_args: "abi_args sample_args sample_vals"
  by (simp add: abi_args_def evm_get_def js_def numberish_def number_in_def in_unsigned_def bytes_arg_def
      decodable_def abi_bytes_def length_abi_seq padded_def scalar_value_def UTF8_ENCODER_encode_def utf8_encode_def utf8_char_def BOM_def)

text \<open>C28: The EVM codec with a \<open>BytesSink\<close> of any capacity writes exactly the encoding that the contract ABI
  specifies, heads then tails, for well-formed codecs and values of their types.\<close>

theorem bytes_sink_implements_abi:
  assumes "abi_args cs v"
  shows "encode_bytes cs capacity v = Inr (abi_enc (StructCodec cs) v)"
  using assms by (rule encode_bytes_eq)

theorem bytes_sink_implements_abi_witness:
  "encode_bytes sample_args 0 sample_vals = Inr (abi_enc (StructCodec sample_args) sample_vals)"
  using sample_abi_args by (rule bytes_sink_implements_abi)

text \<open>C33: \<open>HexSink\<close> writes the hexadecimal text of what \<open>BytesSink\<close> writes, whatever capacities they start with, for
  arguments that satisfy \<open>abi_args\<close>: values of their types with an encoding below \<open>2\<^sup>3\<^sup>2\<close> bytes, \<open>bytesN\<close> of at most 32 bytes and arrays
  only of items that are dynamic or of one slot. An array of static structs of several slots is written over itself
  (\<open>array_of_structs_cut_off\<close>), and then the sinks may differ.\<close>

theorem hex_sink_equals_bytes_sink:
  assumes "abi_args cs v"
  shows "encode_hex cs capacity v = rbind (encode_bytes cs capacity' v) (\<lambda>bs. Inr (js ''0x'' @ hex_of_bytes bs))"
  using assms by (simp add: encode_bytes_eq encode_hex_eq)

theorem hex_sink_equals_bytes_sink_witness:
  "encode_hex sample_args 0 sample_vals =
    rbind (encode_bytes sample_args 1280 sample_vals) (\<lambda>bs. Inr (js ''0x'' @ hex_of_bytes bs))"
  using sample_abi_args by (rule hex_sink_equals_bytes_sink)

text \<open>C29: What is encoded is decoded, from bytes and from text, whatever follows the encoding, for arguments that satisfy
  \<open>abi_args\<close>: values of their types with an encoding below \<open>2\<^sup>3\<^sup>2\<close> bytes, strings that the text decoder gives back, \<open>bytesN\<close> of
  at most 32 bytes and arrays only of items that are dynamic or of one slot (arrays of static structs are cut off,
  \<open>array_of_structs_cut_off\<close>). The values come back as the decoder represents them (\<open>decoded_fields\<close>): integers as
  numbers up to 32 bits and bigints above, bytes and addresses as lower case text, \<open>bytesN\<close> padded to its size.\<close>

theorem evm_codec_roundtrip:
  assumes "abi_args cs v"
  shows "rbind (encode_bytes cs capacity v) (\<lambda>bs. decode_bytes cs (bs @ rest)) = Inr (decoded_fields cs v) \<and>
    rbind (encode_hex cs capacity v) (\<lambda>text. decode_hex cs (text @ hex_of_bytes rest)) = Inr (decoded_fields cs v)"
  using decode_bytes_eq [OF assms, of rest] decode_hex_eq [OF assms, of rest]
  by (simp_all add: encode_bytes_eq [OF assms] encode_hex_eq [OF assms] hex_of_bytes_append)

theorem evm_codec_roundtrip_witness:
  "rbind (encode_bytes sample_args 0 sample_vals) (\<lambda>bs. decode_bytes sample_args (bs @ [1])) =
    Inr (decoded_fields sample_args sample_vals) \<and>
   rbind (encode_hex sample_args 0 sample_vals) (\<lambda>text. decode_hex sample_args (text @ hex_of_bytes [1])) =
    Inr (decoded_fields sample_args sample_vals)"
  using sample_abi_args by (rule evm_codec_roundtrip)

text \<open>A single integer written into a sink of one slot.\<close>

lemma single_field: "encode_fields k [(key, c)] (EObj [(key, x)]) s = evm_encode k c x s"
  by (simp add: evm_get_def rbind_def split: sum.splits)

lemma abi_args_single: "abi_args [(key, c)] (EObj [(key, x)]) \<longleftrightarrow>
    abi_wf c \<and> abi_typed c x \<and> length (abi_seq [(is_dynamic c, abi_enc c x)]) < 2 ^ 32"
  by (simp add: abi_args_def evm_get_def)

text \<open>
  The integer codecs of \<open>primitives.ts\<close> by sign and width: those of 8, 16, 32, 64, 128 and 256 bits, and the aliases
  of the other widths, \<open>uint24 = uint32\<close> and so on.
\<close>

definition int_codec :: "bool \<Rightarrow> nat \<Rightarrow> evm_codec option" where
  "int_codec sg bits =
     (if bits mod 8 \<noteq> 0 \<or> bits = 0 \<or> bits > 256 then None
      else Some (if bits = 8 then NumberCodec (if sg then I8 else U8)
        else if bits = 16 then NumberCodec (if sg then I16 else U16)
        else if bits \<le> 32 then NumberCodec (if sg then I32 else U32)
        else if bits \<le> 64 then BigintCodec (if sg then I64 else U64)
        else if bits \<le> 128 then BigintCodec (if sg then I128 else U128)
        else BigintCodec (if sg then I256 else U256)))"

text \<open>The number of bits that a width is checked for, and the integers of a sign and a number of bits.\<close>

definition checked_bits :: "nat \<Rightarrow> nat" where
  "checked_bits bits = hd (filter (\<lambda>w. bits \<le> w) [8, 16, 32, 64, 128, 256])"

definition int_in :: "bool \<Rightarrow> nat \<Rightarrow> int \<Rightarrow> bool" where
  "int_in sg bits n \<longleftrightarrow> (if sg then - (2 ^ (bits - 1)) \<le> n \<and> n < 2 ^ (bits - 1) else 0 \<le> n \<and> n < 2 ^ bits)"

definition unsafe_number :: "int \<Rightarrow> bool" where
  "unsafe_number n \<longleftrightarrow> \<bar>n\<bar> > 9007199254740991"

lemma word_written:
  assumes "abi_wf c" "abi_typed c x" "\<not> is_dynamic c" "abi_enc c x = word_bytes n"
  shows "rbind (evm_encode bytes_sink_ops c x (BytesSink_new 1 capacity)) bk_result = Inr (word_bytes n)"
    "rbind (evm_encode hex_sink_ops c x (HexSink_new 1 capacity)) hk_result =
      Inr (js ''0x'' @ hex_of_bytes (word_bytes n))"
proof -
  have a: "abi_args [(js ''x'', c)] (EObj [(js ''x'', x)])"
    using assms by (simp add: abi_args_single length_abi_seq)
  have l: "32 = 32 * slotsCount c"
    using abi_argsD(4) [OF a] assms(3,4) by (simp add: evm_get_def childrenSlotsCount_def)
  show "rbind (evm_encode bytes_sink_ops c x (BytesSink_new 1 capacity)) bk_result = Inr (word_bytes n)"
    "rbind (evm_encode hex_sink_ops c x (HexSink_new 1 capacity)) hk_result =
      Inr (js ''0x'' @ hex_of_bytes (word_bytes n))"
    using encode_bytes_eq [OF a, of capacity] encode_hex_eq [OF a, of capacity] assms(3,4) l
    by (simp_all only: encode_bytes_def encode_hex_def single_field)
      (simp_all add: childrenSlotsCount_def evm_get_def abi_seq_def)
qed

lemma number_codec_checks:
  assumes "numberish v = Inr n"
  shows "rbind (evm_encode bytes_sink_ops (NumberCodec t) v (BytesSink_new 1 capacity)) bk_result =
      (if unsafe_number n then Inl (ThrownError ''is not a safe integer'')
       else if number_in t n then Inr (word_bytes n) else oob)"
    "rbind (evm_encode hex_sink_ops (NumberCodec t) v (HexSink_new 1 capacity)) hk_result =
      (if unsafe_number n then Inl (ThrownError ''is not a safe integer'')
       else if number_in t n then Inr (js ''0x'' @ hex_of_bytes (word_bytes n)) else oob)"
proof -
  have s: "safeToNumber n = (if unsafe_number n then Inl (ThrownError ''is not a safe integer'') else Inr n)"
    by (auto simp: safeToNumber_def unsafe_number_def)
  have i: "number_in t n \<Longrightarrow> \<not> unsafe_number n"
    by (cases t) (auto simp: number_in_def in_unsigned_def in_signed_def unsafe_number_def)
  have "number_writer bytes_sink_ops t n s = oob" "number_writer hex_sink_ops t n s' = oob" if "\<not> number_in t n" for s s'
    using that bytes_sink.bounds_laws [of n s] hex_sink.bounds_laws [of n s']
    by (cases t; simp add: number_in_def number_writer_def)+
  then show "rbind (evm_encode bytes_sink_ops (NumberCodec t) v (BytesSink_new 1 capacity)) bk_result =
      (if unsafe_number n then Inl (ThrownError ''is not a safe integer'')
       else if number_in t n then Inr (word_bytes n) else oob)"
    "rbind (evm_encode hex_sink_ops (NumberCodec t) v (HexSink_new 1 capacity)) hk_result =
      (if unsafe_number n then Inl (ThrownError ''is not a safe integer'')
       else if number_in t n then Inr (js ''0x'' @ hex_of_bytes (word_bytes n)) else oob)"
    using word_written [of "NumberCodec t" v n capacity] assms i by (auto simp: s oob_def)
qed

lemma bigint_codec_checks:
  assumes "numberish v = Inr n"
  shows "rbind (evm_encode bytes_sink_ops (BigintCodec t) v (BytesSink_new 1 capacity)) bk_result =
      (if bigint_in t n then Inr (word_bytes n) else oob)"
    "rbind (evm_encode hex_sink_ops (BigintCodec t) v (HexSink_new 1 capacity)) hk_result =
      (if bigint_in t n then Inr (js ''0x'' @ hex_of_bytes (word_bytes n)) else oob)"
proof -
  have "bigint_writer bytes_sink_ops t n s = oob" "bigint_writer hex_sink_ops t n s' = oob" if "\<not> bigint_in t n" for s s'
    using that bytes_sink.bounds_laws [of n s] hex_sink.bounds_laws [of n s']
    by (cases t; simp add: bigint_in_def bigint_writer_def)+
  then show "rbind (evm_encode bytes_sink_ops (BigintCodec t) v (BytesSink_new 1 capacity)) bk_result =
      (if bigint_in t n then Inr (word_bytes n) else oob)"
    "rbind (evm_encode hex_sink_ops (BigintCodec t) v (HexSink_new 1 capacity)) hk_result =
      (if bigint_in t n then Inr (js ''0x'' @ hex_of_bytes (word_bytes n)) else oob)"
    using word_written [of "BigintCodec t" v n capacity] assms by (auto simp: oob_def)
qed

lemma int_codec_cases:
  assumes "int_codec sg bits = Some c"
  shows "(\<exists>t. c = NumberCodec t \<and> bits \<le> 32 \<and> number_in t = int_in sg (checked_bits bits)) \<or>
    (\<exists>t. c = BigintCodec t \<and> \<not> bits \<le> 32 \<and> bigint_in t = int_in sg (checked_bits bits))"
proof -
  have b: "bits mod 8 = 0" "bits \<noteq> 0" "bits \<le> 256" using assms by (auto simp: int_codec_def split: if_splits)
  then have "bits < 16 \<longrightarrow> bits = 8" "8 < bits \<longrightarrow> 16 \<le> bits" "16 < bits \<longrightarrow> \<not> bits \<le> 16" by presburger+
  with b assms show ?thesis
    by (cases sg)
      (auto simp: int_codec_def checked_bits_def int_in_def number_in_def bigint_in_def in_unsigned_def in_signed_def fun_eq_iff
        split: if_splits)
qed

text \<open>C34: Every integer codec \<open>uint8\<close> to \<open>uint256\<close> and \<open>int8\<close> to \<open>int256\<close>, aliases included, given a number or a
  bigint, writes the two's complement word of the integers of its checked width and refuses every other one, with both
  sinks. The checked width of an alias is that of the codec it stands for (32 bits for \<open>uint24\<close>), so an integer
  between the two is written. The codecs up to 32 bits first refuse what is not a safe integer.\<close>

theorem integer_codecs_check_bounds:
  assumes "int_codec sg bits = Some c" "numberish v = Inr n"
  shows "rbind (evm_encode bytes_sink_ops c v (BytesSink_new 1 capacity)) bk_result =
    (if bits \<le> 32 \<and> unsafe_number n then Inl (ThrownError ''is not a safe integer'')
     else if int_in sg (checked_bits bits) n then Inr (word_bytes n) else oob) \<and>
   rbind (evm_encode hex_sink_ops c v (HexSink_new 1 capacity)) hk_result =
    (if bits \<le> 32 \<and> unsafe_number n then Inl (ThrownError ''is not a safe integer'')
     else if int_in sg (checked_bits bits) n then Inr (js ''0x'' @ hex_of_bytes (word_bytes n)) else oob)"
  using int_codec_cases [OF assms(1)]
  by (elim disjE exE conjE)
    (simp_all only: number_codec_checks [OF assms(2)] bigint_codec_checks [OF assms(2)] if_True if_False simp_thms)

theorem integer_codecs_check_bounds_witness:
  "rbind (evm_encode bytes_sink_ops (NumberCodec U8) (ENum 255) (BytesSink_new 1 0)) bk_result = Inr (word_bytes 255) \<and>
   rbind (evm_encode bytes_sink_ops (NumberCodec U8) (ENum 256) (BytesSink_new 1 0)) bk_result = oob \<and>
   rbind (evm_encode hex_sink_ops (NumberCodec U32) (EBig 16777216) (HexSink_new 1 0)) hk_result =
     Inr (js ''0x'' @ hex_of_bytes (word_bytes 16777216))"
  using integer_codecs_check_bounds [of False 8 "NumberCodec U8" "ENum 255" 255 0]
    integer_codecs_check_bounds [of False 8 "NumberCodec U8" "ENum 256" 256 0]
    integer_codecs_check_bounds [of False 24 "NumberCodec U32" "EBig 16777216" 16777216 0]
  by (simp add: int_codec_def checked_bits_def int_in_def unsafe_number_def numberish_def)

section \<open>Outside of the specification\<close>

text \<open>Static values are stored one after the other, whatever the size of the current area.\<close>

definition puts :: "('s \<Rightarrow> bool) \<Rightarrow> ('s \<Rightarrow> sink_view) \<Rightarrow> ('s \<Rightarrow> 's result) \<Rightarrow> byte list \<Rightarrow> bool" where
  "puts ok view f bs \<longleftrightarrow>
     (\<forall>s. ok s \<longrightarrow> blank (sv_cells (view s)) (sv_pos (view s)) (length bs) \<longrightarrow>
        (\<exists>s'. f s = Inr s' \<and> ok s' \<and> laid (view s) [(False, bs)] (view s')))"

lemma puts_stores: "stores ok view f bs 0 \<Longrightarrow> puts ok view f bs"
  by (fastforce simp: puts_def stores_def stored_def laid_def)

lemma puts_Nil: "puts ok view Inr []"
  by (auto simp: puts_def laid_def)

lemma puts_seq:
  assumes "puts ok view f as" "puts ok view g bs"
  shows "puts ok view (\<lambda>s. rbind (f s) g) (as @ bs)"
  unfolding puts_def
proof (intro allI impI)
  fix s
  assume s: "ok s" and b: "blank (sv_cells (view s)) (sv_pos (view s)) (length (as @ bs))"
  then obtain t where t: "f s = Inr t" "ok t" "laid (view s) [(False, as)] (view t)"
    using assms(1) blank_sub [OF b, of "sv_pos (view s)" "length as"] unfolding puts_def by auto
  have "blank (sv_cells (view t)) (sv_pos (view t)) (length bs)"
    using t(3) blank_overwrite [OF blank_sub [OF b, of "sv_pos (view s) + length as" "length bs"]]
    by (simp add: laid_def)
  then obtain u where u: "g t = Inr u" "ok u" "laid (view t) [(False, bs)] (view u)"
    using assms(2) t(2) unfolding puts_def by blast
  then have "laid (view s) [(False, as @ bs)] (view u)"
    using t(3) by (cases "bs = []") (auto simp: laid_def overwrite_append add.assoc)
  with t u show "\<exists>s'. rbind (f s) g = Inr s' \<and> ok s' \<and> laid (view s) [(False, as @ bs)] (view s')"
    by auto
qed

lemma laid_room: "laid V [(False, bs)] W \<Longrightarrow> sv_pos V \<le> sv_room V \<Longrightarrow> sv_pos V + length bs \<le> sv_room W"
  by (cases "bs = []") (auto simp: laid_def)

lemma puts_rfold:
  assumes "\<And>x. x \<in> set vs \<Longrightarrow> puts ok view (f x) (p x)"
  shows "puts ok view (rfold f vs) (concat (map p vs))"
  using assms
proof (induction vs)
  case Nil
  have "rfold f [] = Inr" by (rule ext) simp
  then show ?case by (simp add: puts_Nil)
next
  case (Cons x vs)
  have "rfold f (x # vs) = (\<lambda>s. rbind (f x s) (rfold f vs))" by (rule ext) simp
  then show ?case using puts_seq [OF Cons.prems Cons.IH] Cons.prems by simp
qed

lemma static_seq: "list_all (\<lambda>(d, bs). \<not> d) ps \<Longrightarrow> abi_seq ps = concat (map snd ps)"
proof -
  have "list_all (\<lambda>(d, bs). \<not> d) ps \<Longrightarrow> abi_heads off ps = concat (map snd ps)" for off
    by (induction off ps rule: abi_heads.induct) auto
  then show "list_all (\<lambda>(d, bs). \<not> d) ps \<Longrightarrow> abi_seq ps = concat (map snd ps)"
    by (simp add: abi_seq_def static_tails)
qed

lemma static_items: "\<not> is_dynamic item \<Longrightarrow>
  abi_seq (map (\<lambda>x. (is_dynamic item, abi_enc item x)) vs) = concat (map (abi_enc item) vs)"
  by (simp add: static_seq list_all_iff comp_def)

context evm_sink_laws
begin

lemma puts_static:
  "abi_wf c \<Longrightarrow> abi_typed c v \<Longrightarrow> \<not> is_dynamic c \<Longrightarrow> puts ok view (evm_encode k c v) (abi_enc c v)"
  "list_all (\<lambda>(key, c). abi_wf c) cs \<Longrightarrow> typed_fields cs v \<Longrightarrow> list_all (\<lambda>(key, c). \<not> is_dynamic c) cs \<Longrightarrow>
    puts ok view (encode_fields k cs v) (concat (map snd (abi_fields cs v)))"
proof (induction c v and cs v rule: abi_enc_abi_fields.induct)
  case (1 t v)
  then obtain n where n: "numberish v = Inr n" "number_in t n" by (auto split: sum.splits)
  then have "evm_encode k (NumberCodec t) v = number_writer k t n" by (intro ext) (simp add: number_safe)
  with puts_stores [OF number_stores [OF n(2)]] n(1) show ?case by simp
next
  case (2 t v)
  then obtain n where n: "numberish v = Inr n" "bigint_in t n" by (auto split: sum.splits)
  then have "evm_encode k (BigintCodec t) v = bigint_writer k t n" by (intro ext) simp
  with puts_stores [OF bigint_stores [OF n(2)]] n(1) show ?case by simp
next
  case (3 v)
  then obtain b where b: "v = EBool b" by (auto split: evm_val.splits)
  then have "evm_encode k BoolCodec v = s_bool k b" by (intro ext) (simp add: as_bool_def)
  with puts_stores [OF bool_law, of b] b show ?case by simp
next
  case (6 n v)
  then obtain bs where b: "bytes_arg v = Some bs" "length bs \<le> n" "n \<le> 32" by (auto split: option.splits)
  have "evm_encode k (BytesNCodec n) v = s_staticBytes k n v" by (intro ext) simp
  with puts_stores [OF staticBytes_law [OF b(3,1,2)]] b(1) show ?case by simp
next
  case (7 v)
  then obtain t where t: "v = EStr t" "plain_address t" by (auto split: evm_val.splits)
  then have "evm_encode k AddressCodec v = s_address k t" by (intro ext) (simp add: as_text_def)
  with puts_stores [OF address_law [OF t(2)]] t(1) show ?case by simp
next
  case (9 item n v)
  then obtain vs where v: "v = EArr vs" "length vs = n" "list_all (abi_typed item) vs" by (auto split: evm_val.splits)
  have "puts ok view (rfold (\<lambda>x s. evm_encode k item x s) vs) (concat (map (abi_enc item) vs))"
    by (rule puts_rfold) (use 9 v in \<open>auto simp: list_all_iff\<close>)
  moreover have "abi_enc (FixedSizeArrayCodec item n) v = concat (map (abi_enc item) vs)"
    using v 9(4) static_items by (cases "vs = []") (auto simp: abi_seq_def)
  ultimately show ?case using 9(4) v(1) by (simp only: encode_FixedSize_eq [OF v(2)]) simp
next
  case (10 components v)
  then have "list_all (\<lambda>(key, c). \<not> is_dynamic c) components" by (auto simp: list_all_iff list_ex_iff)
  with 10 have "puts ok view (encode_fields k components v) (concat (map snd (abi_fields components v)))" by simp
  moreover have "abi_enc (StructCodec components) v = concat (map snd (abi_fields components v))"
    using static_seq [OF static_fields [OF 10(4)]] by simp
  ultimately show ?case using 10(4) by (simp only: encode_Struct_eq) simp
next
  case (11 v)
  have "encode_fields k [] v = Inr" by (intro ext) simp
  then show ?case by (simp add: puts_Nil)
next
  case (12 key c rest v)
  then obtain x where x: "evm_get v key = Inr x" "abi_typed c x" "typed_fields rest v" by (auto split: sum.splits)
  have "encode_fields k ((key, c) # rest) v = (\<lambda>s. rbind (evm_encode k c x s) (encode_fields k rest v))"
    by (intro ext) (simp add: x(1))
  with puts_seq [of ok view "evm_encode k c x" "abi_enc c x"] 12 x show ?case by simp
qed simp_all

text \<open>An array of static items in a fresh sink of one slot: the area grows by one slot for each item.\<close>

lemma array_of_static_items:
  assumes "abi_wf item" "\<not> is_dynamic item" "list_all (abi_typed item) vs" "length vs < 2 ^ 32"
    and "ok s" "sv_pos (view s) = 0" "sv_below (view s) = []" "sv_cells (view s) = (\<lambda>_. 0)"
    and "sv_area (view s) = \<lparr>ar_start = 0, ar_jumpBackPtr = 0, ar_size = 32, ar_countWord = False\<rparr>"
  shows "\<exists>s'. evm_encode k (ArrayCodec item) (EArr vs) s = Inr s' \<and> ok s' \<and> sv_below (view s') = [] \<and>
    ar_size (sv_area (view s')) = 64 + 32 * length vs \<and> 64 + length (concat (map (abi_enc item) vs)) \<le> sv_room (view s') \<and>
    sv_cells (view s') = overwrite 0 (abi_seq [(True, abi_enc (ArrayCodec item) (EArr vs))]) (\<lambda>_. 0)"
proof -
  let ?bs = "concat (map (abi_enc item) vs)"
  have z: "blank (\<lambda>_. 0) p n" for p n by (simp add: blank_def)
  obtain t where t: "s_openArray k (length vs) s = Inr t" "ok t" "opened_array (view s) (length vs) (view t)"
    using openArray_law [of s "length vs"] assms(4-9) z by auto
  have c: "sv_cells (view t) = overwrite 32 (word_bytes (int (length vs))) (overwrite 0 (word_bytes 32) (\<lambda>_. 0))"
    and p: "sv_pos (view t) = 64" and r: "64 \<le> sv_room (view t)"
    using t(3) assms(6-9) by (simp_all add: opened_array_def)
  have "blank (sv_cells (view t)) (sv_pos (view t)) (length ?bs)"
    unfolding c p by (intro blank_overwrite z) simp_all
  moreover have "puts ok view (rfold (\<lambda>x s. evm_encode k item x s) vs) ?bs"
    by (rule puts_rfold) (use assms(1-3) puts_static(1) in \<open>auto simp: list_all_iff\<close>)
  ultimately obtain u where u: "rfold (\<lambda>x s. evm_encode k item x s) vs t = Inr u" "ok u" "laid (view t) [(False, ?bs)] (view u)"
    using t(2) unfolding puts_def by blast
  have b: "sv_below (view u) \<noteq> []" using u(3) t(3) by (simp add: laid_def opened_array_def Let_def)
  then obtain w where w: "s_closeTail k u = Inr w" "ok w" "closed (view u) (view w)"
    using closeTail_law [OF u(2)] by blast
  have "sv_cells (view w) = overwrite 64 ?bs (sv_cells (view t))"
    using w(3) u(3) p by (simp add: closed_def laid_def Let_def)
  then have "sv_cells (view w) = overwrite 0 (abi_seq [(True, abi_enc (ArrayCodec item) (EArr vs))]) (\<lambda>_. 0)"
    by (simp add: c abi_seq_def [of "[(True, _)]"] overwrite_append static_items [OF assms(2)])
  moreover have "64 + length ?bs \<le> sv_room (view w)"
    using laid_room [OF u(3)] w(3) p r by (simp add: closed_def Let_def)
  moreover have "sv_below (view w) = [] \<and> ar_size (sv_area (view w)) = 64 + 32 * length vs"
    using w(3) u(3) t(3) assms(7,9) by (simp add: closed_def laid_def opened_array_def Let_def)
  moreover have "evm_encode k (ArrayCodec item) (EArr vs) s = Inr w" using t(1) u(1) w(1) by (simp add: as_items_def)
  ultimately show ?thesis using w(2) by blast
qed

end

lemma take_overwritten:
  assumes "n \<le> length bs" "length bs \<le> length buf" "bk_cells buf = overwrite 0 bs f"
  shows "take n buf = take n bs"
proof (rule nth_equalityI)
  show "length (take n buf) = length (take n bs)" using assms by simp
  fix i
  assume "i < length (take n buf)"
  then show "take n buf ! i = take n bs ! i"
    using assms(1,2) fun_cong [OF assms(3), of i] by (simp add: bk_cells_def overwrite_def)
qed

text \<open>C35: An array whose items are static and take several slots, such as structs of two numbers, loses its end: the code
  counts one slot for each item and cuts the encoding of the contract ABI off behind them.\<close>

theorem array_of_structs_cut_off:
  assumes "abi_wf item" "\<not> is_dynamic item" "slotsCount item > 0" "list_all (abi_typed item) vs" "length vs < 2 ^ 32"
  shows "encode_bytes [(key, ArrayCodec item)] capacity (EObj [(key, EArr vs)]) =
    Inr (take (64 + 32 * length vs) (abi_enc (StructCodec [(key, ArrayCodec item)]) (EObj [(key, EArr vs)])))"
proof -
  let ?s = "BytesSink_new 1 capacity" and ?bs = "concat (map (abi_enc item) vs)"
    and ?e = "abi_seq [(True, abi_enc (ArrayCodec item) (EArr vs))]"
  obtain s' where s': "evm_encode bytes_sink_ops (ArrayCodec item) (EArr vs) ?s = Inr s'" "bk_below s' = []"
    "bk_size s' = 64 + 32 * length vs" "64 + length ?bs \<le> length (bk_buf s')" "bk_cells (bk_buf s') = overwrite 0 ?e (\<lambda>_. 0)"
    using bytes_sink.array_of_static_items [OF assms(1,2,4,5), of ?s]
    by (auto simp: BytesSink_new_def blank_buffer bk_size_def)
  have "length (abi_enc item x) = 32 * slotsCount item" if "x \<in> set vs" for x
    using static_length(1) [OF assms(1) _ assms(2)] assms(4) that by (simp add: list_all_iff)
  then have "length ?bs = 32 * slotsCount item * length vs"
    using assms(4) by (induction vs) auto
  then have le: "64 + 32 * length vs \<le> length ?e" "length ?e = 64 + length ?bs"
    using assms(3) static_items [OF assms(2)] by (auto simp: length_abi_seq)
  have "take (64 + 32 * length vs) (bk_buf s') = take (64 + 32 * length vs) ?e"
    using take_overwritten [OF le(1) _ s'(5)] s'(4) le(2) by simp
  then show ?thesis
    using s'(1-3) by (simp add: encode_bytes_def single_field childrenSlotsCount_def bk_result_def js_assert_def evm_get_def)
qed

theorem array_of_structs_cut_off_witness:
  "encode_bytes [(js ''x'', ArrayCodec (StructCodec [(js ''a'', NumberCodec U8), (js ''b'', NumberCodec U8)]))] 1280
     (EObj [(js ''x'', EArr [EObj [(js ''a'', ENum 1), (js ''b'', ENum 2)], EObj [(js ''a'', ENum 3), (js ''b'', ENum 4)]])]) =
   Inr (take 128 (abi_enc
     (StructCodec [(js ''x'', ArrayCodec (StructCodec [(js ''a'', NumberCodec U8), (js ''b'', NumberCodec U8)]))])
     (EObj [(js ''x'', EArr [EObj [(js ''a'', ENum 1), (js ''b'', ENum 2)], EObj [(js ''a'', ENum 3), (js ''b'', ENum 4)]])])))"
  using array_of_structs_cut_off [of "StructCodec [(js ''a'', NumberCodec U8), (js ''b'', NumberCodec U8)]"
      "[EObj [(js ''a'', ENum 1), (js ''b'', ENum 2)], EObj [(js ''a'', ENum 3), (js ''b'', ENum 4)]]" "js ''x''" 1280]
  by (simp add: evm_get_def js_def numberish_def number_in_def in_unsigned_def del: abi_enc.simps)

text \<open>A word that ends early is a \<open>RangeError\<close> of \<open>BytesSrc\<close>, but \<open>HexSrc\<close> reads a number from the digits that are
  left.\<close>

theorem truncated_word:
  assumes "0 < k" "k < 32"
  shows "decode_bytes [(key, BigintCodec U256)] (be_bytes k v) = Inl RangeError \<and>
    decode_hex [(key, BigintCodec U256)] (js ''0x'' @ hex_of_bytes (be_bytes k v)) = Inr [(key, EBig (v mod 256 ^ k))]"
proof -
  let ?t = "js ''0x'' @ hex_of_bytes (be_bytes k v)"
  have "hr_digits 0 64 (HexSrc_new ?t (Some 2) (length ?t)) = hex_of_bytes (be_bytes k v)"
    using assms(2) by (simp add: hr_digits_def HexSrc_new_def str_slice_def rel_index_def js_def)
  then have "hr_big 64 (HexSrc_new ?t (Some 2) (length ?t)) =
      Inr (v mod 256 ^ k, hr_advance (HexSrc_new ?t (Some 2) (length ?t)))"
    using hex_bytes_value(2) [OF assms(1), of v] by (simp add: hr_big_def)
  then have "decode_hex [(key, BigintCodec U256)] ?t = Inr [(key, EBig (v mod 256 ^ k))]"
    by (simp add: decode_hex_def hex_src_ops_def bigint_reader_def rmap_val_def)
  moreover have "br_u256 (BytesSrc_new (be_bytes k v) 0 k) = Inl RangeError"
    using assms(2) by (simp add: br_u256_def br_u128Raw_def br_view_def BytesSrc_new_def br_advance_def rbind_def split: sum.splits)
  then have "decode_bytes [(key, BigintCodec U256)] (be_bytes k v) = Inl RangeError"
    by (simp add: decode_bytes_def bytes_src_ops_def bigint_reader_def rmap_val_def)
  ultimately show ?thesis by blast
qed

theorem truncated_word_witness:
  "decode_bytes [(js ''x'', BigintCodec U256)] (be_bytes 1 5) = Inl RangeError \<and>
   decode_hex [(js ''x'', BigintCodec U256)] (js ''0x'' @ hex_of_bytes (be_bytes 1 5)) = Inr [(js ''x'', EBig (5 mod 256 ^ 1))]"
  by (rule truncated_word) simp_all

end
