(* ===== verification/Evm_Abi.thy ===== *)
theory Evm_Abi
  imports Evm_Encoding
begin

text \<open>
  Functions of contracts, \<open>evm/evm-abi/src\<close>: \<open>AbiFunction\<close> (\<open>function.ts\<close>) and \<open>ContractBase\<close>
  (\<open>contract-base.ts\<close>), and the errors of functions and events. The code they generate is modelled by the statements it
  consists of. Selectors, topics and data are lists of code units. An error is kept as a value; where the code
  puts the message of a caught error into a new one, the new one holds the caught error.

  The remote call of a chain is an argument.
\<close>

datatype abi_error =
    CodecError js_error
  | FunctionInvalidSignatureError jstr jstr
  | FunctionCalldataDecodeError jstr jstr js_error jstr
  | FunctionResultDecodeError jstr jstr js_error jstr
  | EventEmptyTopicsError
  | EventTopicCountMismatchError nat nat
  | EventInvalidSignatureError jstr jstr
  | EventDecodingError jstr jstr jstr js_error
  | UnexpectedFunctionError jstr jstr

type_synonym 'a abi_result = "abi_error + 'a"

definition codec_result :: "'a result \<Rightarrow> 'a abi_result" where
  "codec_result r = (case r of Inl e \<Rightarrow> Inl (CodecError e) | Inr x \<Rightarrow> Inr x)"

definition startsWith :: "jstr \<Rightarrow> jstr \<Rightarrow> bool" where
  "startsWith s pre \<longleftrightarrow> take (length pre) s = pre"

text \<open>The decoders of fields one after the other, with the name of the field that failed.\<close>

fun decode_named :: "'s evm_src \<Rightarrow> (jstr \<times> evm_codec) list \<Rightarrow> 's \<Rightarrow> jstr \<times> js_error + (jstr \<times> evm_val) list" where
  "decode_named r [] s = Inr []"
| "decode_named r ((key, c) # rest) s =
     (case evm_decode r c s of
        Inl e \<Rightarrow> Inl (key, e)
      | Inr (v, s) \<Rightarrow>
          (case decode_named r rest s of Inl e \<Rightarrow> Inl e | Inr fs \<Rightarrow> Inr ((key, v) # fs)))"

section \<open>Functions\<close>

record abi_function =
  fn_selector :: jstr
  fn_args :: "(jstr \<times> evm_codec) list"
  fn_returnType :: "evm_codec option"

datatype call_data = Calldata jstr | CallRecord jstr

definition call_input :: "call_data \<Rightarrow> jstr" where
  "call_input d = (case d of Calldata t \<Rightarrow> t | CallRecord t \<Rightarrow> t)"

definition AbiFunction_new :: "jstr \<Rightarrow> (jstr \<times> evm_codec) list \<Rightarrow> evm_codec option \<Rightarrow> abi_function result" where
  "AbiFunction_new selector args returnType =
     rbind (js_assert (startsWith selector (js ''0x''))) (\<lambda>_.
     rbind (js_assert (length selector = 10)) (\<lambda>_.
       Inr \<lparr>fn_selector = selector, fn_args = args, fn_returnType = returnType\<rparr>))"

definition fn_is :: "abi_function \<Rightarrow> call_data \<Rightarrow> bool" where
  "fn_is f calldata = startsWith (call_input calldata) (fn_selector f)"

definition fn_encode :: "abi_function \<Rightarrow> evm_val \<Rightarrow> jstr result" where
  "fn_encode f args =
     rbind (encode_fields hex_sink_ops (fn_args f) args (HexSink_default (childrenSlotsCount (fn_args f)))) (\<lambda>sink.
     rbind (hk_result sink) (\<lambda>text. Inr (fn_selector f @ drop 2 text)))"

definition fn_decode :: "abi_function \<Rightarrow> call_data \<Rightarrow> evm_val abi_result" where
  "fn_decode f calldata =
     (let input = call_input calldata
      in if \<not> startsWith input (fn_selector f)
         then Inl (FunctionInvalidSignatureError (take (length (fn_selector f)) input) (fn_selector f))
         else case decode_named hex_src_ops (fn_args f) (HexSrc_new input (Some 10) (length input)) of
                Inl (key, e) \<Rightarrow> Inl (FunctionCalldataDecodeError (fn_selector f) key e input)
              | Inr fs \<Rightarrow> Inr (EObj fs))"

text \<open>A struct as the return type stands for several outputs; any other codec for one.\<close>

definition fn_decodeResult :: "abi_function \<Rightarrow> jstr \<Rightarrow> evm_val abi_result" where
  "fn_decodeResult f output =
     (let src = HexSrc_new output (Some 2) (length output)
      in case fn_returnType f of
           None \<Rightarrow> Inr EUndef
         | Some (StructCodec components) \<Rightarrow>
             (case decode_named hex_src_ops components src of
                Inl (key, e) \<Rightarrow> Inl (FunctionResultDecodeError (fn_selector f) key e output)
              | Inr fs \<Rightarrow> Inr (EObj fs))
         | Some c \<Rightarrow>
             (case evm_decode hex_src_ops c src of
                Inl e \<Rightarrow> Inl (FunctionResultDecodeError (fn_selector f) [] e output)
              | Inr (v, _) \<Rightarrow> Inr v))"

section \<open>Contracts\<close>

record 'c contract =
  ct_chain :: 'c
  ct_blockHeight :: nat
  ct_address :: jstr

datatype block_or_address = ABlock nat | AnAddress jstr

definition ContractBase_new :: "'c \<Rightarrow> nat \<Rightarrow> block_or_address \<Rightarrow> jstr option \<Rightarrow> 'c contract result" where
  "ContractBase_new chain ctxHeight blockOrAddress address =
     (case blockOrAddress of
        AnAddress a \<Rightarrow> Inr \<lparr>ct_chain = chain, ct_blockHeight = ctxHeight, ct_address = a\<rparr>
      | ABlock height \<Rightarrow>
          (case address of
             None \<Rightarrow> Inl (ThrownError ''missing contract address'')
           | Some a \<Rightarrow> Inr \<lparr>ct_chain = chain, ct_blockHeight = height, ct_address = a\<rparr>))"

text \<open>\<open>call chain to data block\<close> is the remote call \<open>eth_call\<close>.\<close>

definition rpc_call :: "('c \<Rightarrow> jstr \<Rightarrow> jstr \<Rightarrow> jstr \<Rightarrow> jstr result) \<Rightarrow> 'c contract \<Rightarrow> jstr \<Rightarrow> jstr result" where
  "rpc_call call ct calldata =
     call (ct_chain ct) (ct_address ct) calldata (js ''0x'' @ toString_radix 16 (int (ct_blockHeight ct)))"

definition eth_call :: "('c \<Rightarrow> jstr \<Rightarrow> jstr \<Rightarrow> jstr \<Rightarrow> jstr result) \<Rightarrow> 'c contract \<Rightarrow> abi_function \<Rightarrow> evm_val \<Rightarrow>
    evm_val abi_result" where
  "eth_call call ct func args =
     (case codec_result (rbind (fn_encode func args) (rpc_call call ct)) of
        Inl e \<Rightarrow> Inl e
      | Inr result \<Rightarrow> fn_decodeResult func result)"

section \<open>Calls\<close>

lemma decode_named_fields: "decode_fields r cs s = Inr (fs, s') \<Longrightarrow> decode_named r cs s = Inr fs"
  by (induction cs arbitrary: s fs s') (auto simp: rbind_def split: sum.splits prod.splits)

lemma AbiFunction_selector: "AbiFunction_new selector args ret = Inr f \<Longrightarrow>
  fn_selector f = selector \<and> fn_args f = args \<and> fn_returnType f = ret \<and> length selector = 10"
  by (auto simp: AbiFunction_new_def js_assert_def rbind_def split: if_splits)

lemma length_0x: "length (js ''0x'') = 2"
  by (simp add: js_def)

lemma fn_encode_eq:
  "abi_args (fn_args f) v \<Longrightarrow> fn_encode f v = Inr (fn_selector f @ hex_of_bytes (abi_enc (StructCodec (fn_args f)) v))"
proof -
  assume "abi_args (fn_args f) v"
  note e = encode_hex_eq [OF this, of "max (childrenSlotsCount (fn_args f) * WORD_SIZE) 1280"]
  have "fn_encode f v = rbind (encode_hex (fn_args f) (max (childrenSlotsCount (fn_args f) * WORD_SIZE) 1280) v)
      (\<lambda>text. Inr (fn_selector f @ drop 2 text))"
    unfolding fn_encode_def encode_hex_def HexSink_default_def rbind_assoc ..
  then show ?thesis unfolding e by (simp add: js_def)
qed

lemma hex_source_fields:
  assumes "abi_args cs v" "text = pre @ hex_of_bytes (abi_enc (StructCodec cs) v @ rest)" "n = int (length pre)"
  shows "decode_named hex_src_ops cs (HexSrc_new text (Some n) (length text)) = Inr (decoded_fields cs v)"
proof -
  obtain s' where "decode_fields hex_src_ops cs (HexSrc_new text (Some n) (length text)) = Inr (decoded_fields cs v, s')"
    using decode_hex_source [OF assms(1,2)] assms(3) by blast
  then show ?thesis by (rule decode_named_fields)
qed

text \<open>A call decodes its own encoding, which is the selector and the encoding of the contract ABI; more data
  behind the arguments changes nothing.\<close>

theorem call_roundtrip:
  assumes "AbiFunction_new selector args returnType = Inr f" "abi_args args v"
  shows "fn_encode f v = Inr (selector @ hex_of_bytes (abi_enc (StructCodec args) v)) \<and>
    fn_decode f (Calldata (selector @ hex_of_bytes (abi_enc (StructCodec args) v @ rest))) =
      Inr (EObj (decoded_fields args v))"
proof -
  note f = AbiFunction_selector [OF assms(1)]
  have "decode_named hex_src_ops args (HexSrc_new t (Some 10) (length t)) = Inr (decoded_fields args v)"
    if "t = selector @ hex_of_bytes (abi_enc (StructCodec args) v @ rest)" for t
    using hex_source_fields [OF assms(2) that] f by simp
  then show ?thesis
    using f fn_encode_eq [of f v] assms(2) by (simp add: fn_decode_def startsWith_def call_input_def Let_def)
qed

abbreviation sample_function :: abi_function where
  "sample_function \<equiv>
     \<lparr>fn_selector = js ''0x12345678'', fn_args = sample_args,
      fn_returnType = Some (StructCodec [(js ''n'', BigintCodec U256), (js ''s'', StringCodec)])\<rparr>"

lemma sample_function_new:
  "AbiFunction_new (js ''0x12345678'') sample_args
     (Some (StructCodec [(js ''n'', BigintCodec U256), (js ''s'', StringCodec)])) = Inr sample_function"
  by (simp add: AbiFunction_new_def startsWith_def js_def js_assert_def)

theorem call_roundtrip_witness:
  "fn_encode sample_function sample_vals =
     Inr (js ''0x12345678'' @ hex_of_bytes (abi_enc (StructCodec sample_args) sample_vals)) \<and>
   fn_decode sample_function (Calldata (js ''0x12345678'' @ hex_of_bytes (abi_enc (StructCodec sample_args) sample_vals @ [7]))) =
     Inr (EObj (decoded_fields sample_args sample_vals))"
  by (rule call_roundtrip [OF sample_function_new sample_abi_args])

text \<open>
  The outputs of a function for its return type, as the contract ABI encodes them, a sequence of parameters: none, the
  components of a struct, or the one value of any other codec; and what the client gets of them.
\<close>

definition output_args :: "evm_codec option \<Rightarrow> evm_val \<Rightarrow> (jstr \<times> evm_codec) list \<times> evm_val" where
  "output_args ret w =
     (case ret of
        None \<Rightarrow> ([], EObj [])
      | Some (StructCodec outs) \<Rightarrow> (outs, w)
      | Some c \<Rightarrow> ([([], c)], EObj [([], w)]))"

definition returned :: "evm_codec option \<Rightarrow> evm_val \<Rightarrow> evm_val" where
  "returned ret w = (case ret of None \<Rightarrow> EUndef | Some c \<Rightarrow> abi_decoded c w)"

lemma decodeResult_outputs:
  assumes "output_args (fn_returnType f) w = (outs, ow)" "abi_args outs ow"
  shows "fn_decodeResult f (js ''0x'' @ hex_of_bytes (abi_enc (StructCodec outs) ow)) = Inr (returned (fn_returnType f) w)"
proof -
  let ?t = "js ''0x'' @ hex_of_bytes (abi_enc (StructCodec outs) ow)"
  have n: "decode_named hex_src_ops outs (HexSrc_new ?t (Some 2) (length ?t)) = Inr (decoded_fields outs ow)"
    by (rule hex_source_fields [OF assms(2), of _ "js ''0x''" "[]"]) (simp_all add: length_0x)
  have one: "\<exists>s'. evm_decode hex_src_ops c (HexSrc_new ?t (Some 2) (length ?t)) = Inr (abi_decoded c w, s')"
    if "outs = [([], c)]" "ow = EObj [([], w)]" for c
    using n unfolding that by (auto simp: evm_get_def rbind_def split: sum.splits prod.splits)
  show ?thesis
  proof (cases "fn_returnType f")
    case None
    then show ?thesis by (simp add: fn_decodeResult_def returned_def)
  next
    case (Some c)
    then show ?thesis
      using assms(1) n one [of c]
      by (cases c) (auto simp: fn_decodeResult_def returned_def output_args_def Let_def)
  qed
qed

text \<open>C31: When the node answers the encoded call with the ABI encoding of the outputs of the function, \<open>eth_call\<close>
  returns those outputs: \<open>undefined\<close> for a function without outputs, the value of the one output, or the object of the
  components when the return type is a struct, which stands for several outputs. Conditions: arguments and outputs
  satisfy \<open>abi_args\<close> (values of their types, encodings below \<open>2\<^sup>3\<^sup>2\<close> bytes, arrays only of items that are dynamic or of one
  slot), and the function was made with the codecs that the encodings follow. One output that is itself a struct is not
  covered, for it is misread (\<open>single_struct_output_misread\<close>). The outputs come back as the decoder represents them
  (\<open>abi_decoded\<close>).\<close>

theorem eth_call_returns_outputs:
  assumes "AbiFunction_new selector args ret = Inr f" "abi_args args v"
    and "output_args ret w = (outs, ow)" "abi_args outs ow"
    and "call (ct_chain ct) (ct_address ct) (selector @ hex_of_bytes (abi_enc (StructCodec args) v))
      (js ''0x'' @ toString_radix 16 (int (ct_blockHeight ct))) = Inr (js ''0x'' @ hex_of_bytes (abi_enc (StructCodec outs) ow))"
  shows "eth_call call ct f v = Inr (returned ret w)"
proof -
  note f = AbiFunction_selector [OF assms(1)]
  have "rbind (fn_encode f v) (rpc_call call ct) = Inr (js ''0x'' @ hex_of_bytes (abi_enc (StructCodec outs) ow))"
    using fn_encode_eq [of f v] assms(2,5) f by (simp add: rpc_call_def)
  then show ?thesis
    using f decodeResult_outputs [of f w outs ow] assms(3,4) by (simp add: eth_call_def codec_result_def)
qed

theorem eth_call_returns_outputs_witness:
  "eth_call (\<lambda>_ _ _ _. Inr (js ''0x'' @ hex_of_bytes (abi_enc (StructCodec [(js ''n'', BigintCodec U256), (js ''s'', StringCodec)])
       (EObj [(js ''n'', EBig 5), (js ''s'', EStr (js ''hi''))]))))
     \<lparr>ct_chain = (), ct_blockHeight = 10, ct_address = js ''0x00''\<rparr> sample_function sample_vals =
   Inr (EObj [(js ''n'', EBig 5), (js ''s'', EStr (js ''hi''))]) \<and>
   eth_call (\<lambda>_ _ _ _. Inr (js ''0x'' @ hex_of_bytes (word_bytes 5)))
     \<lparr>ct_chain = (), ct_blockHeight = 10, ct_address = js ''0x00''\<rparr>
     \<lparr>fn_selector = js ''0x12345678'', fn_args = [], fn_returnType = Some (NumberCodec U8)\<rparr> (EObj []) = Inr (ENum 5)"
proof -
  let ?outs = "[(js ''n'', BigintCodec U256), (js ''s'', StringCodec)]"
  let ?w = "EObj [(js ''n'', EBig 5), (js ''s'', EStr (js ''hi''))]"
  have a: "abi_args ?outs ?w"
    by (simp add: abi_args_def evm_get_def js_def numberish_def bigint_in_def in_unsigned_def decodable_def abi_bytes_def
        length_abi_seq padded_def scalar_value_def UTF8_ENCODER_encode_def utf8_encode_def utf8_char_def BOM_def)
  have b: "abi_args [] (EObj [])" by (simp add: abi_args_def abi_seq_def)
  have c: "abi_args [([], NumberCodec U8)] (EObj [([], ENum 5)])"
    by (simp add: abi_args_def evm_get_def numberish_def number_in_def in_unsigned_def length_abi_seq)
  show ?thesis
    using eth_call_returns_outputs [OF sample_function_new sample_abi_args _ a,
        where w = "?w" and ct = "\<lparr>ct_chain = (), ct_blockHeight = 10, ct_address = js ''0x00''\<rparr>"
          and call = "\<lambda>_ _ _ _. Inr (js ''0x'' @ hex_of_bytes (abi_enc (StructCodec ?outs) ?w))"]
      eth_call_returns_outputs [OF _ b _ c, where w = "ENum 5" and ret = "Some (NumberCodec U8)"
          and selector = "js ''0x12345678''"
          and f = "\<lparr>fn_selector = js ''0x12345678'', fn_args = [], fn_returnType = Some (NumberCodec U8)\<rparr>"
          and ct = "\<lparr>ct_chain = (), ct_blockHeight = 10, ct_address = js ''0x00''\<rparr>"
          and call = "\<lambda>_ _ _ _. Inr (js ''0x'' @ hex_of_bytes (word_bytes 5))"]
    by (simp add: output_args_def returned_def AbiFunction_new_def startsWith_def js_def js_assert_def evm_get_def
        abi_seq_def numberish_def)
qed

text \<open>A function with one output, a dynamic struct, is not decoded from its encoding: a struct stands for several
  outputs, so that its first component is read from the offset of the struct.\<close>

theorem single_struct_output_misread:
  assumes "AbiFunction_new selector args (Some (StructCodec ((key, BigintCodec U256) # cs))) = Inr f"
    and "is_dynamic (StructCodec cs)" "abi_args [(out, StructCodec ((key, BigintCodec U256) # cs))] (EObj [(out, v)])"
    and "evm_get v key = Inr (EBig n)" "n \<noteq> 32"
  shows "fn_decodeResult f (js ''0x'' @ hex_of_bytes
      (abi_enc (StructCodec [(out, StructCodec ((key, BigintCodec U256) # cs))]) (EObj [(out, v)]))) \<noteq>
    Inr (abi_decoded (StructCodec ((key, BigintCodec U256) # cs)) v)"
proof -
  note f = AbiFunction_selector [OF assms(1)]
  let ?bs = "abi_enc (StructCodec [(out, StructCodec ((key, BigintCodec U256) # cs))]) (EObj [(out, v)])"
  let ?t = "js ''0x'' @ hex_of_bytes ?bs"
  let ?s = "HexSrc_new ?t (Some 2) (length ?t)"
  obtain rest where "?bs = word_bytes 32 @ rest"
    using assms(2) by (simp add: evm_get_def abi_seq_def)
  then have "hr_ok ?s \<and> holds (hr_data ?s) (hr_at ?s) (word_bytes 32)"
    using HexSrc_new_ok [of "js ''0x''" ?bs] by (simp add: js_def holds_def)
  then obtain s' where "r_u256 hex_src_ops ?s = Inr (32, s')"
    using hex_src.unsigned_reads(6) [of 32] by (auto simp: reads_def in_unsigned_def)
  then have "evm_decode hex_src_ops (BigintCodec U256) ?s = Inr (EBig 32, s')"
    by (simp add: bigint_reader_def rmap_val_def)
  then show ?thesis
    using f assms(4,5) by (auto simp: fn_decodeResult_def numberish_def Let_def split: sum.splits prod.splits)
qed

theorem single_struct_output_misread_witness:
  "fn_decodeResult
     \<lparr>fn_selector = js ''0x12345678'', fn_args = sample_args,
      fn_returnType = Some (StructCodec [(js ''n'', BigintCodec U256), (js ''s'', StringCodec)])\<rparr>
     (js ''0x'' @ hex_of_bytes (abi_enc
       (StructCodec [(js ''r'', StructCodec [(js ''n'', BigintCodec U256), (js ''s'', StringCodec)])])
       (EObj [(js ''r'', EObj [(js ''n'', EBig 5), (js ''s'', EStr (js ''hi''))])]))) \<noteq>
   Inr (abi_decoded (StructCodec [(js ''n'', BigintCodec U256), (js ''s'', StringCodec)])
     (EObj [(js ''n'', EBig 5), (js ''s'', EStr (js ''hi''))]))"
proof (rule single_struct_output_misread [OF sample_function_new, where n = 5])
  show "abi_args [(js ''r'', StructCodec [(js ''n'', BigintCodec U256), (js ''s'', StringCodec)])]
      (EObj [(js ''r'', EObj [(js ''n'', EBig 5), (js ''s'', EStr (js ''hi''))])])"
    by (simp add: abi_args_def evm_get_def js_def numberish_def bigint_in_def in_unsigned_def decodable_def abi_bytes_def
        length_abi_seq padded_def scalar_value_def UTF8_ENCODER_encode_def utf8_encode_def utf8_char_def BOM_def)
qed (simp_all add: evm_get_def)

end
