(* ===== verification/Evm_Event.thy ===== *)
theory Evm_Event
  imports Evm_Abi
begin

text \<open>
  Events of contracts, \<open>AbiEvent\<close> of \<open>evm/evm-abi/src/abi-components/event.ts\<close>: encoding and decoding of a log and
  the topics that select the logs of a filter. \<open>keccak_256\<close> of \<open>js-sha3\<close>, which gives the hexadecimal text of a hash,
  is an argument.
\<close>

section \<open>Events\<close>

record abi_event =
  ev_topic :: jstr
  ev_topicFields :: "(jstr \<times> evm_codec) list"
  ev_dataFields :: "(jstr \<times> evm_codec) list"

record event_record =
  er_topics :: "jstr list"
  er_data :: jstr

text \<open>The parameters in their order, each with the flag \<open>indexed\<close>.\<close>

definition AbiEvent_new :: "jstr \<Rightarrow> (jstr \<times> evm_codec \<times> bool) list \<Rightarrow> abi_event" where
  "AbiEvent_new topic args =
     \<lparr>ev_topic = topic,
      ev_topicFields = map (\<lambda>(key, c, _). (key, c)) (filter (\<lambda>(_, _, indexed). indexed) args),
      ev_dataFields = map (\<lambda>(key, c, _). (key, c)) (filter (\<lambda>(_, _, indexed). \<not> indexed) args)\<rparr>"

definition topicCount :: "abi_event \<Rightarrow> nat" where
  "topicCount ev = 1 + length (ev_topicFields ev)"

definition isReferenceType :: "evm_codec \<Rightarrow> bool" where
  "isReferenceType c \<longleftrightarrow>
     is_dynamic c \<or> (case c of ArrayCodec _ \<Rightarrow> True | FixedSizeArrayCodec _ _ \<Rightarrow> True | StructCodec _ \<Rightarrow> True | _ \<Rightarrow> False)"

text \<open>
  The generated code that writes the bytes of a reference type. Inside the loop of an array every value is named
  \<open>__it\<close>, and the loop of a nested array declares \<open>const __it = __it[__i]\<close>: the first round throws a
  \<open>ReferenceError\<close>.
\<close>

fun topic_bytes :: "bool \<Rightarrow> evm_codec \<Rightarrow> evm_val \<Rightarrow> bytes_sink \<Rightarrow> bytes_sink result"
  and topic_fields :: "bool \<Rightarrow> (jstr \<times> evm_codec) list \<Rightarrow> evm_val \<Rightarrow> bytes_sink \<Rightarrow> bytes_sink result" where
  "topic_bytes inLoop StringCodec v s = rbind (as_text v) (\<lambda>t. bk_utf8 t s)"
| "topic_bytes inLoop BytesCodec v s = bk_raw v s"
| "topic_bytes inLoop (ArrayCodec item) v s =
     rbind (as_items v) (\<lambda>vs.
       rfold (\<lambda>x s. if inLoop then Inl ReferenceError
          else rbind (topic_bytes True item x s) (bk_padFrom (bk_mark s))) vs s)"
| "topic_bytes inLoop (FixedSizeArrayCodec item sz) v s =
     rbind (as_items v) (\<lambda>vs.
       rfold (\<lambda>x s. if inLoop then Inl ReferenceError
          else rbind (topic_bytes True item x s) (bk_padFrom (bk_mark s))) vs s)"
| "topic_bytes inLoop (StructCodec components) v s = topic_fields inLoop components v s"
| "topic_bytes inLoop c v s = evm_encode bytes_sink_ops c v s"
| "topic_fields inLoop [] v s = Inr s"
| "topic_fields inLoop ((key, c) # rest) v s =
     rbind (evm_get v key) (\<lambda>x.
     rbind (rbind (topic_bytes inLoop c x s) (bk_padFrom (bk_mark s))) (topic_fields inLoop rest v))"

text \<open>The topic of a value: the hash of a reference type, the word of any other.\<close>

definition topic_word :: "(byte list \<Rightarrow> jstr) \<Rightarrow> evm_codec \<Rightarrow> evm_val \<Rightarrow> jstr result" where
  "topic_word keccak_256 c v =
     (if isReferenceType c
      then rbind (topic_bytes False c v (BytesSink_new 0 256)) (\<lambda>sink. Inr (js ''0x'' @ keccak_256 (bk_written sink)))
      else rbind (evm_encode hex_sink_ops c v (HexSink_default 1)) hk_result)"

primrec topic_words :: "(byte list \<Rightarrow> jstr) \<Rightarrow> (jstr \<times> evm_codec) list \<Rightarrow> evm_val \<Rightarrow> jstr list result" where
  "topic_words keccak_256 [] args = Inr []"
| "topic_words keccak_256 (f # rest) args =
     rbind (evm_get args (fst f)) (\<lambda>v.
     rbind (topic_word keccak_256 (snd f) v) (\<lambda>word.
     rbind (topic_words keccak_256 rest args) (\<lambda>words. Inr (word # words))))"

definition ev_encode :: "(byte list \<Rightarrow> jstr) \<Rightarrow> abi_event \<Rightarrow> evm_val \<Rightarrow> event_record result" where
  "ev_encode keccak_256 ev args =
     rbind (topic_words keccak_256 (ev_topicFields ev) args) (\<lambda>words.
     rbind (encode_fields hex_sink_ops (ev_dataFields ev) args (HexSink_default (childrenSlotsCount (ev_dataFields ev))))
       (\<lambda>sink. rbind (hk_result sink) (\<lambda>text. Inr \<lparr>er_topics = ev_topic ev # words, er_data = text\<rparr>)))"

definition ev_is :: "abi_event \<Rightarrow> event_record \<Rightarrow> bool" where
  "ev_is ev rec \<longleftrightarrow> length (er_topics rec) = topicCount ev \<and> hd (er_topics rec) = ev_topic ev"

text \<open>The values of the indexed parameters: an error names the parameter and its topic.\<close>

fun decode_topics :: "(jstr \<times> evm_codec) list \<Rightarrow> jstr list \<Rightarrow> (jstr \<times> jstr \<times> js_error) + (jstr \<times> evm_val) list" where
  "decode_topics ((key, c) # rest) (t # ts) =
     (case (if isReferenceType c then Inr (EStr t)
            else rbind (evm_decode hex_src_ops c (HexSrc_new t (Some 2) (length t))) (\<lambda>(v, _). Inr v)) of
        Inl e \<Rightarrow> Inl (key, t, e)
      | Inr v \<Rightarrow> (case decode_topics rest ts of Inl e \<Rightarrow> Inl e | Inr fs \<Rightarrow> Inr ((key, v) # fs)))"
| "decode_topics _ _ = Inr []"

definition ev_decode :: "abi_event \<Rightarrow> event_record \<Rightarrow> evm_val abi_result" where
  "ev_decode ev rec =
     (if er_topics rec = [] then Inl EventEmptyTopicsError
      else if length (er_topics rec) \<noteq> topicCount ev
        then Inl (EventTopicCountMismatchError (length (er_topics rec)) (topicCount ev))
      else if hd (er_topics rec) \<noteq> ev_topic ev
        then Inl (EventInvalidSignatureError (hd (er_topics rec)) (ev_topic ev))
      else case decode_topics (ev_topicFields ev) (tl (er_topics rec)) of
          Inl (key, t, e) \<Rightarrow> Inl (EventDecodingError (ev_topic ev) key t e)
        | Inr topics \<Rightarrow>
            (case decode_named hex_src_ops (ev_dataFields ev) (HexSrc_new (er_data rec) (Some 2) (length (er_data rec))) of
               Inl (key, e) \<Rightarrow> Inl (EventDecodingError (ev_topic ev) key (er_data rec) e)
             | Inr fs \<Rightarrow> Inr (EObj (topics @ fs))))"

text \<open>The words of the values of a filter, parameter by parameter; \<open>filter\<close> gives the values of a name, if any.\<close>

primrec rmap_list :: "('a \<Rightarrow> 'b result) \<Rightarrow> 'a list \<Rightarrow> 'b list result" where
  "rmap_list f [] = Inr []"
| "rmap_list f (x # xs) = rbind (f x) (\<lambda>y. rbind (rmap_list f xs) (\<lambda>ys. Inr (y # ys)))"

definition topic_selection_words :: "(byte list \<Rightarrow> jstr) \<Rightarrow> (jstr \<Rightarrow> evm_val list option) \<Rightarrow> jstr \<times> evm_codec \<Rightarrow>
    jstr list option result" where
  "topic_selection_words keccak_256 filt f =
     (case filt (fst f) of
        None \<Rightarrow> Inr None
      | Some vals \<Rightarrow> rbind (rmap_list (topic_word keccak_256 (snd f)) vals) (\<lambda>words. Inr (Some words)))"

text \<open>\<open>topic0\<close> and then \<open>topic1\<close>, \<open>topic2\<close> and \<open>topic3\<close>, which are absent without values. The words of a fourth indexed
  parameter, which no log of a chain has, are computed and stored under the key \<open>undefined\<close>.\<close>

definition topicSelection :: "(byte list \<Rightarrow> jstr) \<Rightarrow> abi_event \<Rightarrow> (jstr \<Rightarrow> evm_val list option) option \<Rightarrow>
    jstr list option list result" where
  "topicSelection keccak_256 ev filt =
     (case filt of
        None \<Rightarrow> Inr [Some [ev_topic ev]]
      | Some filt \<Rightarrow>
          rbind (rmap_list (topic_selection_words keccak_256 filt) (ev_topicFields ev)) (\<lambda>words.
            Inr (Some [ev_topic ev] # take 3 words)))"

section \<open>The bytes of a topic\<close>

text \<open>The specification of the contract ABI: in place, without lengths and offsets, members padded to words.\<close>

fun topic_enc :: "evm_codec \<Rightarrow> evm_val \<Rightarrow> byte list"
  and topic_enc_fields :: "(jstr \<times> evm_codec) list \<Rightarrow> evm_val \<Rightarrow> byte list" where
  "topic_enc StringCodec v = (case v of EStr t \<Rightarrow> UTF8_ENCODER_encode t | _ \<Rightarrow> [])"
| "topic_enc BytesCodec v = (case bytes_arg v of Some bs \<Rightarrow> bs | None \<Rightarrow> [])"
| "topic_enc (ArrayCodec item) v =
     (case v of EArr vs \<Rightarrow> concat (map (\<lambda>x. padded (topic_enc item x)) vs) | _ \<Rightarrow> [])"
| "topic_enc (FixedSizeArrayCodec item n) v =
     (case v of EArr vs \<Rightarrow> concat (map (\<lambda>x. padded (topic_enc item x)) vs) | _ \<Rightarrow> [])"
| "topic_enc (StructCodec components) v = topic_enc_fields components v"
| "topic_enc c v = abi_enc c v"
| "topic_enc_fields [] v = []"
| "topic_enc_fields ((key, c) # rest) v =
     (case evm_get v key of Inr x \<Rightarrow> padded (topic_enc c x) @ topic_enc_fields rest v | Inl _ \<Rightarrow> topic_enc_fields rest v)"

text \<open>The codecs without an array in an array.\<close>

fun topic_ok :: "bool \<Rightarrow> evm_codec \<Rightarrow> bool" where
  "topic_ok inLoop (ArrayCodec item) = (\<not> inLoop \<and> topic_ok True item)"
| "topic_ok inLoop (FixedSizeArrayCodec item n) = (\<not> inLoop \<and> topic_ok True item)"
| "topic_ok inLoop (StructCodec components) = list_all (\<lambda>(key, c). topic_ok inLoop c) components"
| "topic_ok inLoop (BytesNCodec n) = (n \<le> 32)"
| "topic_ok inLoop c = True"

lemma padded_eq: "padded bs = bs @ replicate ((32 - length bs mod 32) mod 32) 0"
proof -
  obtain q r where l: "length bs = q * 32 + r" "r < 32"
    by (metis div_mult_mod_eq mod_less_divisor zero_less_numeral)
  have "(length bs + 31) div 32 * 32 - length bs = (32 - length bs mod 32) mod 32"
  proof (cases r)
    case (Suc r')
    then have "length bs + 31 = (q + 1) * 32 + r'" using l(1) by simp
    then have "(length bs + 31) div 32 = q + 1" using Suc l(2) by simp
    then show ?thesis using l Suc by simp
  qed (use l in simp)
  then show ?thesis by (simp add: padded_def)
qed

lemma puts_raw:
  assumes "bytes_arg v = Some bs"
  shows "puts bk_ok bk_view (bk_raw v) bs"
proof (rule puts_stores, unfold stores_def, intro allI impI)
  fix s
  obtain b where b: "bk_reserve (length bs) s = Inr (s\<lparr>bk_buf := b\<rparr>)" "bk_cells b = bk_cells (bk_buf s)"
    "length (bk_buf s) \<le> length b" "bk_pos s + length bs \<le> length b"
    using bk_reserve_ok by blast
  obtain s' where s': "bk_put bs (s\<lparr>bk_buf := b\<rparr>) = Inr s'" "stored (bk_view (s\<lparr>bk_buf := b\<rparr>)) bs 0 (bk_view s')"
    using bk_put_stored [of "s\<lparr>bk_buf := b\<rparr>" bs] b(4) by auto
  with b bk_toBytes_arg [OF assms] bk_stored_reserved [OF s'(2) b(2,3)]
  show "\<exists>s'. bk_raw v s = Inr s' \<and> True \<and> stored (bk_view s) bs 0 (bk_view s')"
    by (simp add: bk_raw_def)
qed

lemma puts_zeros:
  "puts bk_ok bk_view (\<lambda>s. rbind (bk_reserve n s) (bk_put (replicate n 0))) (replicate n 0)"
  using puts_raw [of "EBytes (replicate n 0)" "replicate n 0"]
  by (simp add: bytes_arg_def bk_raw_def [abs_def] bk_toBytes_def)

lemma puts_padded:
  assumes "puts bk_ok bk_view f bs"
  shows "puts bk_ok bk_view (\<lambda>s. rbind (f s) (bk_padFrom (bk_mark s))) (padded bs)"
proof -
  let ?n = "(32 - length bs mod 32) mod 32"
  let ?g = "\<lambda>s. if length bs mod 32 = 0 then Inr s else rbind (bk_reserve ?n s) (bk_put (replicate ?n 0))"
  have "puts bk_ok bk_view ?g (replicate ?n 0)"
    using puts_zeros [of ?n] puts_Nil [of bk_ok bk_view] by (cases "length bs mod 32 = 0") simp_all
  from puts_seq [OF assms this] have p: "puts bk_ok bk_view (\<lambda>s. rbind (f s) ?g) (padded bs)"
    by (simp only: padded_eq)
  have "rbind (f s) (bk_padFrom (bk_mark s)) = rbind (f s) ?g"
    if b: "blank (sv_cells (bk_view s)) (sv_pos (bk_view s)) (length (padded bs))" for s
  proof -
    obtain s' where s': "f s = Inr s'" "laid (bk_view s) [(False, bs)] (bk_view s')"
      using assms blank_sub [OF b, of "bk_pos s" "length bs"] unfolding puts_def by (auto simp: padded_eq)
    then have "bk_pos s' - bk_mark s = length bs" by (simp add: laid_def bk_mark_def)
    moreover have "length bs mod 32 \<noteq> 0 \<Longrightarrow> ?n = 32 - length bs mod 32" by simp
    ultimately show ?thesis using s'(1) by (simp add: bk_padFrom_def Let_def)
  qed
  with p show ?thesis unfolding puts_def by fastforce
qed

lemma topic_bytes_plain:
  "topic_bytes inLoop (NumberCodec t) = evm_encode bytes_sink_ops (NumberCodec t)"
  "topic_bytes inLoop (BigintCodec u) = evm_encode bytes_sink_ops (BigintCodec u)"
  "topic_bytes inLoop BoolCodec = evm_encode bytes_sink_ops BoolCodec"
  "topic_bytes inLoop (BytesNCodec n) = evm_encode bytes_sink_ops (BytesNCodec n)"
  "topic_bytes inLoop AddressCodec = evm_encode bytes_sink_ops AddressCodec"
  by (intro ext; simp)+

lemma puts_topic:
  "topic_ok inLoop c \<Longrightarrow> abi_typed c v \<Longrightarrow> puts bk_ok bk_view (topic_bytes inLoop c v) (topic_enc c v)"
  "list_all (\<lambda>(key, c). topic_ok inLoop c) cs \<Longrightarrow> typed_fields cs v \<Longrightarrow>
    puts bk_ok bk_view (topic_fields inLoop cs v) (topic_enc_fields cs v)"
proof (induction c v and cs v arbitrary: inLoop and inLoop rule: topic_enc_topic_enc_fields.induct)
  case (1 v)
  then obtain t where t: "v = EStr t" by (auto split: evm_val.splits)
  have "topic_bytes inLoop StringCodec v = bk_raw (EBytes (UTF8_ENCODER_encode t))"
    by (intro ext) (simp add: t as_text_def bk_utf8_def)
  then show ?case using puts_raw [of "EBytes (UTF8_ENCODER_encode t)"] t by (simp add: bytes_arg_def)
next
  case (2 v)
  then obtain bs where b: "bytes_arg v = Some bs" by auto
  have "topic_bytes inLoop BytesCodec v = bk_raw v" by (intro ext) simp
  then show ?case using puts_raw [OF b] b by simp
next
  case (3 item v)
  then obtain vs where v: "v = EArr vs" "list_all (abi_typed item) vs" by (auto split: evm_val.splits)
  have "topic_bytes inLoop (ArrayCodec item) v =
      rfold (\<lambda>x s. rbind (topic_bytes True item x s) (bk_padFrom (bk_mark s))) vs"
    using 3(2) by (intro ext) (simp add: v(1) as_items_def)
  moreover have "puts bk_ok bk_view (rfold (\<lambda>x s. rbind (topic_bytes True item x s) (bk_padFrom (bk_mark s))) vs)
      (concat (map (\<lambda>x. padded (topic_enc item x)) vs))"
    by (intro puts_rfold puts_padded) (use 3 v in \<open>auto simp: list_all_iff\<close>)
  ultimately show ?case using v(1) by simp
next
  case (4 item n v)
  then obtain vs where v: "v = EArr vs" "list_all (abi_typed item) vs" by (auto split: evm_val.splits)
  have "topic_bytes inLoop (FixedSizeArrayCodec item n) v =
      rfold (\<lambda>x s. rbind (topic_bytes True item x s) (bk_padFrom (bk_mark s))) vs"
    using 4(2) by (intro ext) (simp add: v(1) as_items_def)
  moreover have "puts bk_ok bk_view (rfold (\<lambda>x s. rbind (topic_bytes True item x s) (bk_padFrom (bk_mark s))) vs)
      (concat (map (\<lambda>x. padded (topic_enc item x)) vs))"
    by (intro puts_rfold puts_padded) (use 4 v in \<open>auto simp: list_all_iff\<close>)
  ultimately show ?case using v(1) by simp
next
  case (5 components v)
  have "topic_bytes inLoop (StructCodec components) v = topic_fields inLoop components v" by (intro ext) simp
  then show ?case using 5 by simp
next
  case (7 v)
  have "topic_fields inLoop [] v = Inr" by (intro ext) simp
  then show ?case by (simp add: puts_Nil)
next
  case (8 key c rest v)
  then obtain x where x: "evm_get v key = Inr x" "abi_typed c x" "typed_fields rest v" by (auto split: sum.splits)
  have "topic_fields inLoop ((key, c) # rest) v =
      (\<lambda>s. rbind (rbind (topic_bytes inLoop c x s) (bk_padFrom (bk_mark s))) (topic_fields inLoop rest v))"
    by (intro ext) (simp add: x(1))
  with puts_seq [OF puts_padded [of "topic_bytes inLoop c x" "topic_enc c x"]] 8 x show ?case by simp
qed (use bytes_sink.puts_static(1) in \<open>simp_all only: topic_bytes_plain topic_enc.simps abi_wf.simps is_dynamic.simps
    topic_ok.simps simp_thms\<close>)

section \<open>Topics\<close>

lemma puts_written:
  assumes "puts bk_ok bk_view f bs"
  shows "\<exists>sink. f (BytesSink_new 0 capacity) = Inr sink \<and> bk_written sink = bs"
proof -
  let ?s = "BytesSink_new 0 capacity"
  have "blank (sv_cells (bk_view ?s)) (sv_pos (bk_view ?s)) (length bs)"
    by (simp add: BytesSink_new_def blank_buffer blank_def)
  then obtain t where t: "f ?s = Inr t" "laid (bk_view ?s) [(False, bs)] (bk_view t)"
    using assms unfolding puts_def by blast
  have "bk_pos t = length bs" "bk_cells (bk_buf t) = overwrite 0 bs (\<lambda>_. 0)" "bs \<noteq> [] \<longrightarrow> length bs \<le> length (bk_buf t)"
    using t(2) by (auto simp: laid_def BytesSink_new_def blank_buffer)
  then have "bk_written t = bs"
    using take_overwritten [of "length bs" bs "bk_buf t"] by (cases "bs = []") (simp_all add: bk_written_def)
  with t(1) show ?thesis by blast
qed

lemma value_type: "\<not> isReferenceType c \<Longrightarrow> abi_wf c \<longleftrightarrow> topic_ok inLoop c" "\<not> isReferenceType c \<Longrightarrow> \<not> is_dynamic c"
  "\<not> isReferenceType c \<Longrightarrow> slotsCount c = 1"
  by (cases c; simp add: isReferenceType_def)+

lemma value_args:
  assumes "\<not> isReferenceType c" "topic_ok False c" "abi_typed c v"
  shows "abi_args [(key, c)] (EObj [(key, v)])"
    "abi_enc (StructCodec [(key, c)]) (EObj [(key, v)]) = abi_enc c v" "childrenSlotsCount [(key, c)] = 1"
proof -
  note c = value_type [OF assms(1)]
  have "length (abi_enc c v) = 32" using static_length(1) [of c v] assms c by simp
  then show "abi_args [(key, c)] (EObj [(key, v)])"
    "abi_enc (StructCodec [(key, c)]) (EObj [(key, v)]) = abi_enc c v" "childrenSlotsCount [(key, c)] = 1"
    using assms c by (simp_all add: abi_args_single length_abi_seq abi_seq_def evm_get_def childrenSlotsCount_def)
qed

lemma topic_word_eq:
  assumes "topic_ok False c" "abi_typed c v"
  shows "topic_word keccak_256 c v =
    Inr (js ''0x'' @ (if isReferenceType c then keccak_256 (topic_enc c v) else hex_of_bytes (abi_enc c v)))"
proof (cases "isReferenceType c")
  case True
  obtain sink where "topic_bytes False c v (BytesSink_new 0 256) = Inr sink" "bk_written sink = topic_enc c v"
    using puts_written [OF puts_topic(1) [OF assms], of 256] by blast
  with True show ?thesis by (simp add: topic_word_def)
next
  case False
  note a = value_args [OF False assms, of "[]"]
  have "topic_word keccak_256 c v = encode_hex [([], c)] (max (1 * WORD_SIZE) 1280) (EObj [([], v)])"
    using False by (simp only: topic_word_def encode_hex_def single_field HexSink_default_def a(3) if_False)
  then show ?thesis using encode_hex_eq [OF a(1)] a(2) False by simp
qed

text \<open>The topic of an indexed parameter is its word or, for a reference type, the hash of its in-place encoding with
  every member padded to words, unless an array lies in an array.\<close>

theorem topic_as_specified:
  assumes "topic_ok False c" "abi_typed c v"
  shows "topic_word keccak_256 c v =
    Inr (js ''0x'' @ (if isReferenceType c then keccak_256 (topic_enc c v) else hex_of_bytes (abi_enc c v)))"
  using assms by (rule topic_word_eq)

theorem topic_as_specified_witness:
  "topic_word (\<lambda>bs. hex_of_bytes bs) (ArrayCodec (StructCodec [(js ''a'', StringCodec), (js ''b'', BoolCodec)]))
     (EArr [EObj [(js ''a'', EStr (js ''hi'')), (js ''b'', EBool True)]]) =
   Inr (js ''0x'' @ (if isReferenceType (ArrayCodec (StructCodec [(js ''a'', StringCodec), (js ''b'', BoolCodec)]))
     then hex_of_bytes (topic_enc (ArrayCodec (StructCodec [(js ''a'', StringCodec), (js ''b'', BoolCodec)]))
       (EArr [EObj [(js ''a'', EStr (js ''hi'')), (js ''b'', EBool True)]]))
     else hex_of_bytes (abi_enc (ArrayCodec (StructCodec [(js ''a'', StringCodec), (js ''b'', BoolCodec)]))
       (EArr [EObj [(js ''a'', EStr (js ''hi'')), (js ''b'', EBool True)]]))))"
  by (rule topic_as_specified) (simp_all add: evm_get_def js_def decodable_def scalar_value_def BOM_def)

text \<open>An indexed array in an array cannot be encoded: the generated code throws a \<open>ReferenceError\<close> for any value with
  an item in its first array.\<close>

theorem nested_array_topic_fails:
  "topic_word keccak_256 (ArrayCodec (ArrayCodec item)) (EArr (EArr (x # xs) # vs)) = Inl ReferenceError"
  by (simp add: topic_word_def isReferenceType_def as_items_def)

section \<open>Events\<close>

fun topics_decoded :: "(byte list \<Rightarrow> jstr) \<Rightarrow> (jstr \<times> evm_codec) list \<Rightarrow> evm_val \<Rightarrow> (jstr \<times> evm_val) list" where
  "topics_decoded keccak_256 [] v = []"
| "topics_decoded keccak_256 ((key, c) # rest) v =
     (case evm_get v key of
        Inr x \<Rightarrow> (key, if isReferenceType c then EStr (js ''0x'' @ keccak_256 (topic_enc c x)) else abi_decoded c x) #
          topics_decoded keccak_256 rest v
      | Inl _ \<Rightarrow> topics_decoded keccak_256 rest v)"

lemma value_topic_decoded:
  assumes "\<not> isReferenceType c" "topic_ok False c" "abi_typed c v"
  defines "t \<equiv> js ''0x'' @ hex_of_bytes (abi_enc c v)"
  shows "\<exists>s. evm_decode hex_src_ops c (HexSrc_new t (Some 2) (length t)) = Inr (abi_decoded c v, s)"
proof -
  note a = value_args [OF assms(1-3), of "[]"]
  have "decode_hex [([], c)] t = Inr [([], abi_decoded c v)]"
    using decode_hex_eq [OF a(1), of "[]"] a(2) by (simp add: t_def evm_get_def)
  then show ?thesis by (auto simp: decode_hex_def result_simps split: prod.splits)
qed

lemma topics_roundtrip:
  "list_all (\<lambda>(key, c). topic_ok False c) cs \<Longrightarrow> typed_fields cs v \<Longrightarrow>
    \<exists>words. topic_words keccak_256 cs v = Inr words \<and> length words = length cs \<and>
      decode_topics cs words = Inr (topics_decoded keccak_256 cs v)"
proof (induction cs)
  case (Cons f rest)
  obtain key c where f: "f = (key, c)" by (cases f)
  then obtain x where x: "evm_get v key = Inr x" "abi_typed c x" "topic_ok False c" "typed_fields rest v"
    "list_all (\<lambda>(key, c). topic_ok False c) rest"
    using Cons.prems by (auto split: sum.splits)
  then obtain words where "topic_words keccak_256 rest v = Inr words" "length words = length rest"
    "decode_topics rest words = Inr (topics_decoded keccak_256 rest v)"
    using Cons.IH by blast
  then show ?case
    using topic_word_eq [OF x(3,2), of keccak_256] value_topic_decoded [OF _ x(3,2)] x(1) f
    by (cases "isReferenceType c") auto
qed simp

lemma event_decodes:
  assumes "list_all (\<lambda>(key, c). topic_ok False c) (ev_topicFields ev)" "typed_fields (ev_topicFields ev) v"
    and "abi_args (ev_dataFields ev) v"
  shows "\<exists>rec. ev_encode keccak_256 ev v = Inr rec \<and> ev_is ev rec \<and>
    ev_decode ev rec = Inr (EObj (topics_decoded keccak_256 (ev_topicFields ev) v @ decoded_fields (ev_dataFields ev) v))"
proof -
  let ?cs = "ev_dataFields ev" and ?t = "js ''0x'' @ hex_of_bytes (abi_enc (StructCodec (ev_dataFields ev)) v)"
  obtain words where w: "topic_words keccak_256 (ev_topicFields ev) v = Inr words" "length words = length (ev_topicFields ev)"
    "decode_topics (ev_topicFields ev) words = Inr (topics_decoded keccak_256 (ev_topicFields ev) v)"
    using topics_roundtrip [OF assms(1,2)] by blast
  have "rbind (encode_fields hex_sink_ops ?cs v (HexSink_default (childrenSlotsCount ?cs))) hk_result = Inr ?t"
    using encode_hex_eq [OF assms(3)] unfolding encode_hex_def HexSink_default_def by blast
  then have "ev_encode keccak_256 ev v = Inr \<lparr>er_topics = ev_topic ev # words, er_data = ?t\<rparr>"
    using w(1) by (auto simp: ev_encode_def result_simps)
  moreover have "decode_named hex_src_ops ?cs (HexSrc_new ?t (Some 2) (length ?t)) = Inr (decoded_fields ?cs v)"
    by (rule hex_source_fields [OF assms(3), of _ "js ''0x''" "[]"]) (simp_all add: length_0x)
  ultimately show ?thesis
    using w(2,3) by (simp add: ev_is_def ev_decode_def topicCount_def)
qed

text \<open>C30: An event decodes its own encoding: the parameters in the data and the indexed values come back, indexed
  parameters of reference types as their hash, the others as the decoder represents them (\<open>abi_decoded\<close>). Conditions:
  the indexed values are of their types and no indexed parameter is an array of arrays (\<open>topic_ok\<close>; such an event
  cannot be encoded, \<open>nested_array_topic_fails\<close>), also not within a struct; the parameters in the data satisfy
  \<open>abi_args\<close>, values of their types with an encoding below \<open>2\<^sup>3\<^sup>2\<close> bytes and arrays only of items that are dynamic or of one
  slot, for other arrays are not written as the ABI specifies.\<close>

theorem event_roundtrip:
  assumes "list_all (\<lambda>(key, c). topic_ok False c) (ev_topicFields ev)" "typed_fields (ev_topicFields ev) v"
    and "abi_args (ev_dataFields ev) v"
  shows "\<exists>rec. ev_encode keccak_256 ev v = Inr rec \<and> ev_is ev rec \<and>
    ev_decode ev rec = Inr (EObj (topics_decoded keccak_256 (ev_topicFields ev) v @ decoded_fields (ev_dataFields ev) v))"
  using assms by (rule event_decodes)

abbreviation sample_event :: abi_event where
  "sample_event \<equiv>
     AbiEvent_new (js ''0xab'') [(js ''a'', NumberCodec U8, True), (js ''b'', StringCodec, True), (js ''c'', BoolCodec, False)]"

abbreviation sample_log :: evm_val where
  "sample_log \<equiv> EObj [(js ''a'', ENum 7), (js ''b'', EStr (js ''hi'')), (js ''c'', EBool True)]"

lemma sample_event_fits:
  "list_all (\<lambda>(key, c). topic_ok False c) (ev_topicFields sample_event)" "typed_fields (ev_topicFields sample_event) sample_log"
  "abi_args (ev_dataFields sample_event) sample_log"
  by (simp_all add: AbiEvent_new_def abi_args_def evm_get_def js_def numberish_def number_in_def in_unsigned_def decodable_def
      scalar_value_def BOM_def length_abi_seq)

theorem event_roundtrip_witness:
  "\<exists>rec. ev_encode hex_of_bytes sample_event sample_log = Inr rec \<and> ev_is sample_event rec \<and>
    ev_decode sample_event rec = Inr (EObj (topics_decoded hex_of_bytes (ev_topicFields sample_event) sample_log @
      decoded_fields (ev_dataFields sample_event) sample_log))"
  using sample_event_fits by (rule event_roundtrip)

text \<open>A filter selects a log when each of its positions \<open>topic0\<close> to \<open>topic3\<close> is open or lists the topic there.\<close>

definition log_selected :: "jstr list option list \<Rightarrow> event_record \<Rightarrow> bool" where
  "log_selected sel rec = list_all2 (\<lambda>ws t. case ws of None \<Rightarrow> True | Some ws \<Rightarrow> t \<in> set ws) sel (take 4 (er_topics rec))"

lemma rmap_list_word: "rmap_list f vals = Inr words \<Longrightarrow> x \<in> set vals \<Longrightarrow> f x = Inr w \<Longrightarrow> w \<in> set words"
  by (induction vals arbitrary: words) (auto simp: result_simps)

lemma selection_words:
  assumes "topic_words keccak_256 cs v = Inr ts" "rmap_list (topic_selection_words keccak_256 filt) cs = Inr sel"
    and "\<forall>(key, c)\<in>set cs. \<forall>vals. filt key = Some vals \<longrightarrow> (\<exists>x\<in>set vals. evm_get v key = Inr x)"
  shows "list_all2 (\<lambda>ws t. case ws of None \<Rightarrow> True | Some ws \<Rightarrow> t \<in> set ws) sel ts"
  using assms
proof (induction cs arbitrary: ts sel)
  case (Cons f cs)
  then obtain t ts' ws sel' x where t: "ts = t # ts'" "evm_get v (fst f) = Inr x" "topic_word keccak_256 (snd f) x = Inr t"
    "topic_words keccak_256 cs v = Inr ts'" "sel = ws # sel'" "topic_selection_words keccak_256 filt f = Inr ws"
    "rmap_list (topic_selection_words keccak_256 filt) cs = Inr sel'"
    by (auto simp: result_simps)
  have "case ws of None \<Rightarrow> True | Some ws \<Rightarrow> t \<in> set ws"
    using t(2,3,6) Cons.prems(3) rmap_list_word [of "topic_word keccak_256 (snd f)"]
    by (cases f) (fastforce simp: topic_selection_words_def result_simps split: option.splits)
  with t Cons show ?case by auto
qed simp

text \<open>C32: The topics that \<open>topicSelection\<close> gives for a filter select every log that the event encodes from values of the
  filter.\<close>

theorem topicSelection_selects:
  assumes "ev_encode keccak_256 ev v = Inr rec" "topicSelection keccak_256 ev (Some filt) = Inr sel"
    and "\<forall>(key, c)\<in>set (ev_topicFields ev). \<forall>vals. filt key = Some vals \<longrightarrow> (\<exists>x\<in>set vals. evm_get v key = Inr x)"
  shows "log_selected sel rec"
  using assms selection_words [of keccak_256 "ev_topicFields ev" v, THEN list_all2_takeI, of _ filt _ 3]
  by (auto simp: ev_encode_def topicSelection_def log_selected_def result_simps)

theorem topicSelection_selects_witness:
  "\<exists>rec sel. ev_encode hex_of_bytes sample_event sample_log = Inr rec \<and>
    topicSelection hex_of_bytes sample_event (Some [js ''a'' \<mapsto> [ENum 6, ENum 7]]) = Inr sel \<and> log_selected sel rec"
proof -
  obtain rec where r: "ev_encode hex_of_bytes sample_event sample_log = Inr rec"
    using event_decodes [OF sample_event_fits] by blast
  obtain sel where s: "topicSelection hex_of_bytes sample_event (Some [js ''a'' \<mapsto> [ENum 6, ENum 7]]) = Inr sel"
    by (simp add: topicSelection_def topic_selection_words_def AbiEvent_new_def js_def topic_word_eq numberish_def
        number_in_def in_unsigned_def)
  have "\<forall>(key, c)\<in>set (ev_topicFields sample_event). \<forall>vals. [js ''a'' \<mapsto> [ENum 6, ENum 7]] key = Some vals \<longrightarrow>
      (\<exists>x\<in>set vals. evm_get sample_log key = Inr x)"
    by (simp add: AbiEvent_new_def evm_get_def js_def)
  from topicSelection_selects [OF r s this] r s show ?thesis by blast
qed

end
