(* ===== verification/Validation.thy ===== *)
theory Validation
  imports Js_Text
begin

text \<open>
  The validation of JSON data, \<open>util/util-internal-validation/src\<close>: primitive validators (\<open>primitives.ts\<close>), composite
  ones (\<open>composite\<close>) and their failures (\<open>error.ts\<close>). \<open>cast\<close> converts a value, \<open>validate\<close> only looks at it.

  A number is an integer, or the double that a literal denotes. A validator is a term of the datatype \<open>validator\<close>;
  \<open>ref\<close> refers to a schema of an environment, and the number of such references under evaluation is bounded by
  the call stack, whose overflow is a \<open>RangeError\<close>. A \<open>OneOfValidator\<close> keeps the errors of its patterns in a
  field of its own, which calls of the same instance inside of its patterns overwrite: the instance has a
  number, and the errors of all instances are a state.
\<close>

section \<open>Values and failures\<close>

datatype jnum = NInt int | NLit jstr | NNaN

datatype jval =
    VUndef
  | VNull
  | VBool bool
  | VNum jnum
  | VBig int
  | VStr jstr
  | VArr "jval list"
  | VObj "(jstr \<times> jval) list"

datatype path_item = PKey jstr | PIndex nat

datatype failure =
    Failure (vf_path: "path_item list") (vf_value: jval) (vf_message: jstr)
  | OneOfFailure (vf_path: "path_item list") (vf_value: jval) (vf_errors: "failure option list") (vf_names: "jstr list")

definition mismatch :: "jval \<Rightarrow> string \<Rightarrow> failure" where
  "mismatch v msg = Failure [] v (js msg)"

primrec push_path :: "path_item \<Rightarrow> failure \<Rightarrow> failure" where
  "push_path p (Failure ps v m) = Failure (ps @ [p]) v m"
| "push_path p (OneOfFailure ps v es ns) = OneOfFailure (ps @ [p]) v es ns"

definition decimal :: "nat \<Rightarrow> jstr" where
  "decimal n = toString_radix 10 (int n)"

text \<open>Own enumerable properties, and access to a property: an array has its indexes and \<open>length\<close>.\<close>

definition own_entries :: "jval \<Rightarrow> (jstr \<times> jval) list" where
  "own_entries v =
     (case v of VObj fs \<Rightarrow> fs | VArr xs \<Rightarrow> zip (map decimal [0..<length xs]) xs | _ \<Rightarrow> [])"

definition prop_get :: "jval \<Rightarrow> jstr \<Rightarrow> jval" where
  "prop_get v key =
     (case map_of (own_entries v) key of
        Some x \<Rightarrow> x
      | None \<Rightarrow> (case v of VArr xs \<Rightarrow> if key = js ''length'' then VNum (NInt (int (length xs))) else VUndef | _ \<Rightarrow> VUndef))"

definition is_object :: "jval \<Rightarrow> bool" where
  "is_object v = (case v of VArr _ \<Rightarrow> True | VObj _ \<Rightarrow> True | _ \<Rightarrow> False)"

definition absent :: "jval \<Rightarrow> bool" where
  \<comment> \<open>\<open>value == null\<close>\<close>
  "absent v \<longleftrightarrow> v = VUndef \<or> v = VNull"

section \<open>Texts\<close>

fun join :: "jstr \<Rightarrow> jstr list \<Rightarrow> jstr" where
  "join sep [] = []"
| "join sep [s] = s"
| "join sep (s # t # rest) = s @ sep @ join sep (t # rest)"

text \<open>A value as a property name.\<close>

fun property_key :: "jval \<Rightarrow> jstr" where
  "property_key VUndef = js ''undefined''"
| "property_key VNull = js ''null''"
| "property_key (VBool b) = (if b then js ''true'' else js ''false'')"
| "property_key (VNum n) = (case n of NInt i \<Rightarrow> toString_radix 10 i | NLit t \<Rightarrow> t | NNaN \<Rightarrow> js ''NaN'')"
| "property_key (VBig i) = toString_radix 10 i"
| "property_key (VStr s) = s"
| "property_key (VArr xs) = join (js '','') (map (\<lambda>x. if absent x then [] else property_key x) xs)"
| "property_key (VObj fs) = js ''[object Object]''"

text \<open>\<open>JSON.stringify\<close>: \<open>undefined\<close> has no text, a \<open>bigint\<close> is a \<open>TypeError\<close>.\<close>

definition json_char :: "nat \<Rightarrow> jstr" where
  "json_char c =
     (if c = 34 \<or> c = 92 then [92, c]
      else if c = 8 then [92, 98] else if c = 9 then [92, 116] else if c = 10 then [92, 110]
      else if c = 12 then [92, 102] else if c = 13 then [92, 114]
      else if c < 32 then [92, 117, 48, 48, hex_digit (c div 16), hex_digit (c mod 16)]
      else [c])"

definition json_string :: "jstr \<Rightarrow> jstr" where
  "json_string s = [34] @ concat (map json_char s) @ [34]"

fun json :: "jval \<Rightarrow> jstr option result"
  and json_items :: "jval list \<Rightarrow> jstr list result"
  and json_entries :: "(jstr \<times> jval) list \<Rightarrow> jstr list result" where
  "json VUndef = Inr None"
| "json VNull = Inr (Some (js ''null''))"
| "json (VBool b) = Inr (Some (if b then js ''true'' else js ''false''))"
| "json (VNum n) = Inr (Some (case n of NInt i \<Rightarrow> toString_radix 10 i | NLit t \<Rightarrow> t | NNaN \<Rightarrow> js ''null''))"
| "json (VBig i) = Inl TypeError"
| "json (VStr s) = Inr (Some (json_string s))"
| "json (VArr xs) = rbind (json_items xs) (\<lambda>ts. Inr (Some (js ''['' @ join (js '','') ts @ js '']'')))"
| "json (VObj fs) = rbind (json_entries fs) (\<lambda>ts. Inr (Some (js ''{'' @ join (js '','') ts @ js ''}'')))"
| "json_items [] = Inr []"
| "json_items (x # xs) =
     rbind (json x) (\<lambda>t. rbind (json_items xs) (\<lambda>ts.
       Inr ((case t of Some t \<Rightarrow> t | None \<Rightarrow> js ''null'') # ts)))"
| "json_entries [] = Inr []"
| "json_entries ((k, x) # fs) =
     rbind (json x) (\<lambda>t. rbind (json_entries fs) (\<lambda>ts.
       Inr (case t of Some t \<Rightarrow> (json_string k @ js '':'' @ t) # ts | None \<Rightarrow> ts)))"

definition print :: "jval \<Rightarrow> jstr result" where
  "print v = rbind (json v) (\<lambda>t. Inr (case t of Some t \<Rightarrow> t | None \<Rightarrow> js ''undefined''))"

definition print_keys :: "jstr list \<Rightarrow> jstr" where
  "print_keys ks = js ''['' @ join (js '','') (map json_string ks) @ js '']''"

text \<open>\<open>text.replace(pattern, t)\<close> replaces the first occurrence and expands \<open>$$\<close>, \<open>$&\<close>, \<open>$`\<close> and \<open>$'\<close>.\<close>

fun expand_dollars :: "jstr \<Rightarrow> jstr \<Rightarrow> jstr \<Rightarrow> jstr \<Rightarrow> jstr" where
  "expand_dollars pat pre post (c # d # t) =
     (if c = 36 \<and> d = 36 then 36 # expand_dollars pat pre post t
      else if c = 36 \<and> d = 38 then pat @ expand_dollars pat pre post t
      else if c = 36 \<and> d = 96 then pre @ expand_dollars pat pre post t
      else if c = 36 \<and> d = 39 then post @ expand_dollars pat pre post t
      else c # expand_dollars pat pre post (d # t))"
| "expand_dollars pat pre post t = t"

fun replace_first :: "jstr \<Rightarrow> jstr \<Rightarrow> jstr \<Rightarrow> jstr \<Rightarrow> jstr option" where
  "replace_first pat t pre s =
     (if take (length pat) s = pat
      then Some (pre @ expand_dollars pat pre (drop (length pat) s) t @ drop (length pat) s)
      else case s of [] \<Rightarrow> None | c # s \<Rightarrow> replace_first pat t (pre @ [c]) s)"

definition getPathString :: "path_item list \<Rightarrow> jstr" where
  "getPathString path =
     concat (map (\<lambda>p. js ''/'' @ (case p of PKey k \<Rightarrow> k | PIndex i \<Rightarrow> decimal i)) (rev path))"

definition at_path :: "path_item list \<Rightarrow> jstr \<Rightarrow> jstr" where
  "at_path path msg =
     (if path = [] then msg else js ''invalid value at '' @ getPathString path @ js '': '' @ msg)"

text \<open>\<open>toString\<close> of both kinds of failures. An error that is missing is read as \<open>undefined\<close>.\<close>

fun failure_text :: "failure \<Rightarrow> jstr result"
  and pattern_texts :: "jstr list \<Rightarrow> failure option list \<Rightarrow> jstr result" where
  "failure_text (Failure path v msg) =
     (case replace_first (js ''{value}'') [] [] msg of
        None \<Rightarrow> Inr (at_path path msg)
      | Some _ \<Rightarrow>
          rbind (print v) (\<lambda>t. Inr (at_path path (the (replace_first (js ''{value}'') t [] msg)))))"
| "failure_text (OneOfFailure path v errors names) =
     rbind (pattern_texts names errors) (\<lambda>t.
       Inr (at_path path (js ''given value does not match any of the expected patterns:'' @ t)))"
| "pattern_texts (name # names) (Some e # errors) =
     rbind (failure_text e) (\<lambda>t. rbind (pattern_texts names errors) (\<lambda>ts.
       Inr ([10, 32, 32, 32, 32] @ name @ js '': '' @ t @ ts)))"
| "pattern_texts (name # names) _ = Inl TypeError"
| "pattern_texts [] _ = Inr []"

section \<open>Primitive validators\<close>

definition is_string :: "jval \<Rightarrow> bool" where
  "is_string v = (case v of VStr _ \<Rightarrow> True | _ \<Rightarrow> False)"

definition str_of :: "jval \<Rightarrow> jstr" where
  "str_of v = (case v of VStr s \<Rightarrow> s | _ \<Rightarrow> [])"

definition safe_int :: "int \<Rightarrow> bool" where
  "safe_int i \<longleftrightarrow> \<bar>i\<bar> \<le> 2 ^ 53 - 1"

definition isSafeInteger :: "jval \<Rightarrow> bool" where
  "isSafeInteger v = (case v of VNum (NInt i) \<Rightarrow> safe_int i | _ \<Rightarrow> False)"

definition int_of :: "jval \<Rightarrow> int" where
  "int_of v = (case v of VNum (NInt i) \<Rightarrow> i | _ \<Rightarrow> 0)"

definition is_digit :: "nat \<Rightarrow> bool" where
  "is_digit c \<longleftrightarrow> 48 \<le> c \<and> c \<le> 57"

definition isBigNat :: "jval \<Rightarrow> bool" where
  "isBigNat v \<longleftrightarrow> is_string v \<and> str_of v \<noteq> [] \<and> list_all is_digit (str_of v)"

definition isBigInt :: "jval \<Rightarrow> bool" where
  "isBigInt v \<longleftrightarrow>
     is_string v \<and>
     (let s = str_of v; t = (if s \<noteq> [] \<and> hd s = 45 then tl s else s) in t \<noteq> [] \<and> list_all is_digit t)"

definition isBytes :: "jval \<Rightarrow> bool" where
  "isBytes v \<longleftrightarrow>
     is_string v \<and> take 2 (str_of v) = [48, 120] \<and> list_all (\<lambda>c. hex_char_value c \<noteq> None) (drop 2 (str_of v))"

definition is_alnum :: "nat \<Rightarrow> bool" where
  "is_alnum c \<longleftrightarrow> is_digit c \<or> (65 \<le> c \<and> c \<le> 90) \<or> (97 \<le> c \<and> c \<le> 122)"

text \<open>No \<open>0\<close>, \<open>I\<close>, \<open>O\<close> and \<open>l\<close>.\<close>

definition isBase58 :: "jval \<Rightarrow> bool" where
  "isBase58 v \<longleftrightarrow> is_string v \<and> list_all (\<lambda>c. is_alnum c \<and> c \<notin> {48, 73, 79, 108}) (str_of v)"

definition isBase64 :: "jval \<Rightarrow> bool" where
  "isBase64 v \<longleftrightarrow>
     is_string v \<and> dropWhile (\<lambda>c. is_alnum c \<or> c = 43 \<or> c = 47) (str_of v) \<in> {[], [61], [61, 61]}"

text \<open>\<open>parseInt(s)\<close> without a radix, and the literal that \<open>parseFloat(s)\<close> reads.\<close>

definition js_parseInt :: "jstr \<Rightarrow> jsnum" where
  "js_parseInt s =
     (let (sg, t) = take_sign (trimStart s);
          ds = (if drop_0x t \<noteq> t then digit_prefix 16 (drop_0x t) else digit_prefix 10 t);
          b = (if drop_0x t \<noteq> t then 16 else 10)
      in if ds = [] then None else Some (sg * int (horner b ds)))"

definition exponent_prefix :: "jstr \<Rightarrow> jstr" where
  "exponent_prefix s =
     (case s of
        [] \<Rightarrow> []
      | e # t \<Rightarrow>
          let sg = (case t of c # _ \<Rightarrow> if c = 45 \<or> c = 43 then [c] else [] | [] \<Rightarrow> []);
              ds = takeWhile is_digit (drop (length sg) t)
          in if (e = 69 \<or> e = 101) \<and> ds \<noteq> [] then e # sg @ ds else [])"

definition float_prefix :: "jstr \<Rightarrow> jstr option" where
  "float_prefix s =
     (let t = trimStart s;
          sg = (case t of c # _ \<Rightarrow> if c = 45 \<or> c = 43 then [c] else [] | [] \<Rightarrow> []);
          u = drop (length sg) t;
          whole = takeWhile is_digit u;
          rest = drop (length whole) u;
          frac = (case rest of c # w \<Rightarrow> if c = 46 then takeWhile is_digit w else [] | [] \<Rightarrow> []);
          dot = (case rest of c # _ \<Rightarrow> if c = 46 then [46] else [] | [] \<Rightarrow> [])
      in if take 8 u = js ''Infinity'' then Some (sg @ js ''Infinity'')
         else if whole = [] \<and> frac = [] then None
         else Some (sg @ whole @ dot @ frac @ exponent_prefix (drop (length dot + length frac) rest)))"

definition lower_ascii :: "nat \<Rightarrow> nat" where
  "lower_ascii c = (if 65 \<le> c \<and> c \<le> 90 then c + 32 else c)"

text \<open>\<open>BigInt(value)\<close> of a number or a text.\<close>

definition to_BigInt :: "jval \<Rightarrow> jval result" where
  "to_BigInt v = (case v of VStr s \<Rightarrow> of_option SyntaxError (map_option VBig (js_BigInt s)) | _ \<Rightarrow> Inr (VBig (int_of v)))"

definition validate_ANY_OBJECT :: "jval \<Rightarrow> failure option" where
  "validate_ANY_OBJECT v = (if is_object v then None else Some (mismatch v ''{value} is not an object''))"

definition cast_ANY_OBJECT :: "jval \<Rightarrow> failure + jval" where
  "cast_ANY_OBJECT v = (if is_object v then Inr v else Inl (mismatch v ''{value} is not an object''))"

definition validate_STRING :: "jval \<Rightarrow> failure option" where
  "validate_STRING v = (if is_string v then None else Some (mismatch v ''{value} is not a string''))"

definition cast_STRING :: "jval \<Rightarrow> failure + jval" where
  "cast_STRING v = (if is_string v then Inr v else Inl (mismatch v ''{value} is not a string''))"

definition validate_INT :: "jval \<Rightarrow> failure option" where
  "validate_INT v = (if isSafeInteger v then None else Some (mismatch v ''{value} is not an integer''))"

definition cast_INT :: "jval \<Rightarrow> failure + jval" where
  "cast_INT v = (if isSafeInteger v then Inr v else Inl (mismatch v ''{value} is not an integer''))"

definition validate_NAT :: "jval \<Rightarrow> failure option" where
  "validate_NAT v = (if isSafeInteger v \<and> int_of v \<ge> 0 then None else Some (mismatch v ''{value} is not a safe natural number''))"

definition cast_NAT :: "jval \<Rightarrow> failure + jval" where
  "cast_NAT v = (if isSafeInteger v \<and> int_of v \<ge> 0 then Inr v else Inl (mismatch v ''{value} is not a safe natural number''))"

definition validate_B58 :: "jval \<Rightarrow> failure option" where
  "validate_B58 v = (if isBase58 v then None else Some (mismatch v ''{value} is not a base58 string''))"

definition cast_B58 :: "jval \<Rightarrow> failure + jval" where
  "cast_B58 v = (if isBase58 v then Inr v else Inl (mismatch v ''{value} is not a base58 string''))"

definition validate_B64 :: "jval \<Rightarrow> failure option" where
  "validate_B64 v = (if isBase64 v then None else Some (mismatch v ''{value} is not a base64 string''))"

definition cast_B64 :: "jval \<Rightarrow> failure + jval" where
  "cast_B64 v = (if isBase64 v then Inr v else Inl (mismatch v ''{value} is not a base64 string''))"

definition validate_BOOLEAN :: "jval \<Rightarrow> failure option" where
  "validate_BOOLEAN v = (if (case v of VBool _ \<Rightarrow> True | _ \<Rightarrow> False) then None else Some (mismatch v ''{value} is not a boolean''))"

definition cast_BOOLEAN :: "jval \<Rightarrow> failure + jval" where
  "cast_BOOLEAN v = (if (case v of VBool _ \<Rightarrow> True | _ \<Rightarrow> False) then Inr v else Inl (mismatch v ''{value} is not a boolean''))"

definition validate_BYTES :: "jval \<Rightarrow> failure option" where
  "validate_BYTES v = (if isBytes v then None else Some (mismatch v ''{value} is not a hex encoded binary string''))"

definition cast_BYTES :: "jval \<Rightarrow> failure + jval" where
  "cast_BYTES v = (if isBytes v then Inr (VStr (map lower_ascii (str_of v))) else Inl (mismatch v ''{value} is not a hex encoded binary string''))"

text \<open>The validators that convert a text to a \<open>bigint\<close>.\<close>

definition validate_ANY_INT :: "jval \<Rightarrow> failure option" where
  "validate_ANY_INT v = (if isSafeInteger v \<or> isBigInt v then None else Some (mismatch v ''{value} is not an integer''))"

definition cast_ANY_INT :: "jval \<Rightarrow> (failure + jval) result" where
  "cast_ANY_INT v = (if isSafeInteger v \<or> isBigInt v then rbind (to_BigInt v) (\<lambda>y. Inr (Inr y)) else Inr (Inl (mismatch v ''{value} is not an integer'')))"

definition validate_BIG_NAT :: "jval \<Rightarrow> failure option" where
  "validate_BIG_NAT v = (if isBigNat v then None else Some (mismatch v ''{value} is not a string representing natural number''))"

definition cast_BIG_NAT :: "jval \<Rightarrow> (failure + jval) result" where
  "cast_BIG_NAT v = (if isBigNat v then rbind (to_BigInt v) (\<lambda>y. Inr (Inr y)) else Inr (Inl (mismatch v ''{value} is not a string representing natural number'')))"

definition validate_ANY_NAT :: "jval \<Rightarrow> failure option" where
  "validate_ANY_NAT v = (if isSafeInteger v \<and> int_of v \<ge> 0 \<or> isBigNat v then None else Some (mismatch v ''{value} is not a natural number''))"

definition cast_ANY_NAT :: "jval \<Rightarrow> (failure + jval) result" where
  "cast_ANY_NAT v = (if isSafeInteger v \<and> int_of v \<ge> 0 \<or> isBigNat v then rbind (to_BigInt v) (\<lambda>y. Inr (Inr y)) else Inr (Inl (mismatch v ''{value} is not a natural number'')))"

definition validate_QTY :: "jval \<Rightarrow> failure option" where
  "validate_QTY v = (if isBytes v then None else Some (mismatch v ''{value} is not a hex encoded natural number''))"

definition cast_QTY :: "jval \<Rightarrow> (failure + jval) result" where
  "cast_QTY v = (if isBytes v then rbind (to_BigInt v) (\<lambda>y. Inr (Inr y)) else Inr (Inl (mismatch v ''{value} is not a hex encoded natural number'')))"

text \<open>The validators that cast to validate.\<close>

definition parsed_int :: "jval \<Rightarrow> failure + jval" where
  "parsed_int v =
     (case js_parseInt (str_of v) of
        Some i \<Rightarrow> if safe_int i then Inr (VNum (NInt i)) else Inl (mismatch v ''{value} is not a safe integer'')
      | None \<Rightarrow> Inl (mismatch v ''{value} is not a safe integer''))"

definition cast_STRING_NAT :: "jval \<Rightarrow> failure + jval" where
  "cast_STRING_NAT v =
     (if is_string v then parsed_int v else Inl (mismatch v ''{value} is not a string natural number''))"

definition cast_STRING_FLOAT :: "jval \<Rightarrow> failure + jval" where
  "cast_STRING_FLOAT v =
     (if is_string v
      then case float_prefix (str_of v) of
             None \<Rightarrow> Inl (mismatch v ''{value} is not a number'')
           | Some t \<Rightarrow> Inr (VNum (NLit t))
      else Inl (mismatch v ''{value} is not a string float number''))"

definition cast_SMALL_QTY :: "jval \<Rightarrow> failure + jval" where
  "cast_SMALL_QTY v =
     (if isBytes v then parsed_int v else Inl (mismatch v ''{value} is not a hex encoded natural number''))"

definition failed :: "failure + jval \<Rightarrow> failure option" where
  "failed r = (case r of Inl f \<Rightarrow> Some f | Inr _ \<Rightarrow> None)"

definition validate_STRING_NAT :: "jval \<Rightarrow> failure option" where
  "validate_STRING_NAT v = failed (cast_STRING_NAT v)"

definition validate_STRING_FLOAT :: "jval \<Rightarrow> failure option" where
  "validate_STRING_FLOAT v = failed (cast_STRING_FLOAT v)"

definition validate_SMALL_QTY :: "jval \<Rightarrow> failure option" where
  "validate_SMALL_QTY v = failed (cast_SMALL_QTY v)"

section \<open>Validators\<close>

datatype validator =
    ANY | ANY_OBJECT | STRING | SAFE_INT | ANY_INT | NAT | BIG_NAT | ANY_NAT | STRING_NAT | STRING_FLOAT
  | QTY | SMALL_QTY | BYTES | B58 | B64 | BOOLEAN
  | ArrayValidator validator
  | ConstantValidator jval
  | Default jval validator
  | KeyTaggedUnion "(jstr \<times> validator) list"
  | NullableValidator validator
  | ObjectValidator "(jstr \<times> validator) list"
  | OneOfValidator nat "(jstr \<times> validator) list"
  | OptionValidator validator
  | RecordValidator validator validator
  | Sentinel jstr jval validator
  | TaggedUnion jstr "(jstr \<times> validator) list"
  | TupleValidator "validator list"
  | RefValidator nat

text \<open>The state: the error of each pattern in each instance of \<open>OneOfValidator\<close>.\<close>

type_synonym errs = "nat \<Rightarrow> nat \<Rightarrow> failure option"

type_synonym 'a check = "errs \<Rightarrow> ((failure + 'a) \<times> errs) result"

definition vok :: "'a \<Rightarrow> 'a check" where
  "vok y \<sigma> = Inr (Inr y, \<sigma>)"

definition vfail :: "failure \<Rightarrow> 'a check" where
  "vfail f \<sigma> = Inr (Inl f, \<sigma>)"

definition vlift :: "failure + 'a \<Rightarrow> 'a check" where
  "vlift r \<sigma> = Inr (r, \<sigma>)"

definition vrun :: "(failure + 'a) result \<Rightarrow> 'a check" where
  "vrun r \<sigma> = rbind r (\<lambda>y. Inr (y, \<sigma>))"

definition vthrow :: "js_error \<Rightarrow> 'a check" where
  "vthrow e \<sigma> = Inl e"

definition vbind :: "'a check \<Rightarrow> ('a \<Rightarrow> 'b check) \<Rightarrow> 'b check" where
  "vbind m f \<sigma> =
     (case m \<sigma> of Inl e \<Rightarrow> Inl e | Inr (Inl er, \<sigma>') \<Rightarrow> Inr (Inl er, \<sigma>') | Inr (Inr y, \<sigma>') \<Rightarrow> f y \<sigma>')"

text \<open>\<open>err.path.push(p)\<close> of a failure.\<close>

definition vpush :: "path_item \<Rightarrow> 'a check \<Rightarrow> 'a check" where
  "vpush p m \<sigma> =
     (case m \<sigma> of Inl e \<Rightarrow> Inl e | Inr (Inl er, \<sigma>') \<Rightarrow> Inr (Inl (push_path p er), \<sigma>') | Inr (Inr y, \<sigma>') \<Rightarrow> Inr (Inr y, \<sigma>'))"

text \<open>A loop with an index that returns at the first failure.\<close>

primrec each :: "(nat \<Rightarrow> 'x \<Rightarrow> 'a check) \<Rightarrow> nat \<Rightarrow> 'x list \<Rightarrow> 'a list check" where
  "each f i [] = vok []"
| "each f i (x # xs) = vbind (f i x) (\<lambda>y. vbind (each f (Suc i) xs) (\<lambda>ys. vok (y # ys)))"

text \<open>The loop over the patterns of an instance; \<open>None\<close> when all failed.\<close>

primrec first_match :: "nat \<Rightarrow> ('x \<Rightarrow> 'a check) \<Rightarrow> nat \<Rightarrow> 'x list \<Rightarrow> 'a option check" where
  "first_match k f i [] = vok None"
| "first_match k f i (p # ps) =
     (\<lambda>\<sigma>. case f p \<sigma> of
        Inl e \<Rightarrow> Inl e
      | Inr (Inl er, \<sigma>') \<Rightarrow> first_match k f (Suc i) ps (\<sigma>'(k := (\<sigma>' k)(i := Some er)))
      | Inr (Inr y, \<sigma>') \<Rightarrow> Inr (Inr (Some y), \<sigma>'))"

definition clearErrors :: "nat \<Rightarrow> errs \<Rightarrow> errs" where
  "clearErrors k \<sigma> = \<sigma>(k := \<lambda>_. None)"

definition one_of :: "nat \<Rightarrow> jstr list \<Rightarrow> jval \<Rightarrow> 'a option check \<Rightarrow> 'a check" where
  "one_of k names v m \<sigma> =
     (case m \<sigma> of
        Inl e \<Rightarrow> Inl e
      | Inr (Inl er, \<sigma>') \<Rightarrow> Inr (Inl er, \<sigma>')
      | Inr (Inr (Some y), \<sigma>') \<Rightarrow> Inr (Inr y, clearErrors k \<sigma>')
      | Inr (Inr None, \<sigma>') \<Rightarrow>
          Inr (Inl (OneOfFailure [] v (map (\<sigma>' k) [0..<length names]) names), clearErrors k \<sigma>'))"

lemma each_cong [fundef_cong]: "xs = xs' \<Longrightarrow> (\<And>i x. x \<in> set xs' \<Longrightarrow> f i x = g i x) \<Longrightarrow> each f i xs = each g i xs'"
proof (induction xs arbitrary: xs' i)
  case (Cons x xs)
  then have "each f j xs = each g j xs" for j by auto
  with Cons.prems show ?case by auto
qed simp

lemma first_match_cong [fundef_cong]:
  "ps = ps' \<Longrightarrow> (\<And>p. p \<in> set ps' \<Longrightarrow> f p = g p) \<Longrightarrow> first_match k f i ps = first_match k g i ps'"
proof (induction ps arbitrary: ps' i)
  case (Cons p ps)
  then have "first_match k f j ps = first_match k g j ps" for j by auto
  moreover have "f p = g p" using Cons.prems by auto
  ultimately show ?case unfolding Cons.prems(1) [symmetric] by (simp only: first_match.simps)
qed simp

text \<open>\<open>getTag\<close> of a union by key, and \<open>getVariant\<close> of one by tag.\<close>

definition onlyOneOfMessage :: "jstr list \<Rightarrow> jstr" where
  "onlyOneOfMessage ks =
     js ''only one of '' @ print_keys ks @ js '' properties expected to be present in the object, but got {value}''"

definition noPropsMessage :: "jstr list \<Rightarrow> jstr" where
  "noPropsMessage ks = js ''expected an object with one of '' @ print_keys ks @ js '' properties, but got {value}''"

text \<open>
  The names that every object inherits from \<open>Object.prototype\<close>. A table of validators is an object too: looking up one
  of these names in it finds the inherited member, which is not a validator and has no method \<open>cast\<close> or \<open>validate\<close>.
\<close>

definition object_prototype :: "jstr list" where
  "object_prototype =
     map js [''constructor'', ''toString'', ''toLocaleString'', ''valueOf'', ''hasOwnProperty'', ''isPrototypeOf'',
       ''propertyIsEnumerable'', ''__proto__'', ''__defineGetter__'', ''__defineSetter__'', ''__lookupGetter__'',
       ''__lookupSetter__'']"

definition has_member :: "(jstr \<times> validator) list \<Rightarrow> jstr \<Rightarrow> bool" where
  "has_member table k \<longleftrightarrow> map_of table k \<noteq> None \<or> k \<in> set object_prototype"

text \<open>An object with a property \<open>toString\<close> of its own, which is not a function, cannot be used as a property name, nor
  can an array that contains one.\<close>

fun textless :: "jval \<Rightarrow> bool" where
  "textless (VObj fs) = (map_of fs (js ''toString'') \<noteq> None)"
| "textless (VArr xs) = list_ex (\<lambda>x. textless x) xs"
| "textless v = False"

definition getTag :: "(jstr \<times> validator) list \<Rightarrow> jval \<Rightarrow> failure + jstr" where
  "getTag un v =
     (if \<not> is_object v then Inl (mismatch v ''{value} is not an object'')
      else case filter (has_member un) (map fst (own_entries v)) of
             [] \<Rightarrow> Inl (Failure [] v (noPropsMessage (map fst un)))
           | [tag] \<Rightarrow> Inr tag
           | _ \<Rightarrow> Inl (Failure [] v (onlyOneOfMessage (map fst un))))"

definition wrongTagMessage :: "jstr list \<Rightarrow> jstr" where
  "wrongTagMessage ks = js ''got {value}, but expected one of '' @ print_keys ks"

definition getVariant :: "jstr \<Rightarrow> (jstr \<times> validator) list \<Rightarrow> jval \<Rightarrow> (failure + jstr) result" where
  "getVariant tagField variants v =
     (if \<not> is_object v then Inr (Inl (mismatch v ''{value} is not an object''))
      else let tag = prop_get v tagField
           in if textless tag then Inl TypeError
              else if has_member variants (property_key tag) then Inr (Inr (property_key tag))
              else Inr (Inl (Failure [PKey tagField] tag (wrongTagMessage (map fst variants)))))"

definition invalidLengthMessage :: "nat \<Rightarrow> jstr" where
  "invalidLengthMessage n = js ''{value} is not a tuple of length '' @ decimal n"

text \<open>\<open>a === b\<close>: objects are never identical to the constant.\<close>

definition strictEquals :: "jval \<Rightarrow> jval \<Rightarrow> bool" where
  "strictEquals a b \<longleftrightarrow> a = b \<and> \<not> is_object a \<and> a \<noteq> VNum NNaN"

definition constant_message :: "jval \<Rightarrow> jstr" where
  "constant_message c = js ''value {value} is not equal to '' @ (case print c of Inr t \<Rightarrow> t | Inl _ \<Rightarrow> [])"

text \<open>\<open>{...result}\<close>, and the object that a record becomes: to assign \<open>__proto__\<close> adds no property of its own.\<close>

definition spread :: "(jstr \<times> jval) list \<Rightarrow> jval \<Rightarrow> (jstr \<times> jval) list" where
  "spread fs v = foldl (\<lambda>o' (k, x). obj_set k x o') fs (own_entries v)"

definition keyed :: "(jval \<times> jval) list \<Rightarrow> jval" where
  "keyed es = VObj (foldl (\<lambda>o' (k, x).
     if property_key k = js ''__proto__'' then o' else obj_set (property_key k) x o') [] es)"

text \<open>
  The methods \<open>cast\<close> and \<open>validate\<close> of each composite class, over those of the validators it is made of. The
  congruence rules say for which values these are called.
\<close>

definition array_cast :: "(jval \<Rightarrow> jval check) \<Rightarrow> jval \<Rightarrow> jval check" where
  "array_cast item v =
     (case v of
        VArr xs \<Rightarrow> vbind (each (\<lambda>i x. vpush (PIndex i) (item x)) 0 xs) (\<lambda>ys. vok (VArr ys))
      | _ \<Rightarrow> vfail (mismatch v ''{value} is not an array''))"

definition array_validate :: "(jval \<Rightarrow> unit check) \<Rightarrow> jval \<Rightarrow> unit check" where
  "array_validate item v =
     (case v of
        VArr xs \<Rightarrow> vbind (each (\<lambda>i x. vpush (PIndex i) (item x)) 0 xs) (\<lambda>_. vok ())
      | _ \<Rightarrow> vfail (mismatch v ''{value} is not an array''))"

definition constant_cast :: "jval \<Rightarrow> jval \<Rightarrow> jval check" where
  "constant_cast c v = (if strictEquals v c then vok c else vfail (Failure [] v (constant_message c)))"

definition constant_validate :: "jval \<Rightarrow> jval \<Rightarrow> unit check" where
  "constant_validate c v = (if strictEquals v c then vok () else vfail (Failure [] v (constant_message c)))"

definition default_cast :: "jval \<Rightarrow> (jval \<Rightarrow> jval check) \<Rightarrow> jval \<Rightarrow> jval check" where
  "default_cast d item v = (if absent v then vok d else item v)"

definition default_validate :: "(jval \<Rightarrow> unit check) \<Rightarrow> jval \<Rightarrow> unit check" where
  "default_validate item v = (if absent v then vok () else item v)"

definition key_tagged_cast :: "(jstr \<times> validator) list \<Rightarrow> (validator \<Rightarrow> jval \<Rightarrow> jval check) \<Rightarrow> jval \<Rightarrow> jval check" where
  "key_tagged_cast un call v =
     (case getTag un v of
        Inl er \<Rightarrow> vfail er
      | Inr tag \<Rightarrow>
          (case map_of un tag of
             None \<Rightarrow> vthrow TypeError
           | Some c \<Rightarrow> vbind (vpush (PKey tag) (call c (prop_get v tag))) (\<lambda>y. vok (VObj [(tag, y)]))))"

definition key_tagged_validate :: "(jstr \<times> validator) list \<Rightarrow> (validator \<Rightarrow> jval \<Rightarrow> unit check) \<Rightarrow> jval \<Rightarrow> unit check" where
  "key_tagged_validate un call v =
     (case getTag un v of
        Inl er \<Rightarrow> vfail er
      | Inr tag \<Rightarrow>
          (case map_of un tag of
             None \<Rightarrow> vthrow TypeError
           | Some c \<Rightarrow> vpush (PKey tag) (call c (prop_get v tag))))"

definition nullable_cast :: "(jval \<Rightarrow> jval check) \<Rightarrow> jval \<Rightarrow> jval check" where
  "nullable_cast item v = (if v = VNull then vok VNull else item v)"

definition nullable_validate :: "(jval \<Rightarrow> unit check) \<Rightarrow> jval \<Rightarrow> unit check" where
  "nullable_validate item v = (if v = VNull then vok () else item v)"

definition object_cast :: "(jstr \<times> validator) list \<Rightarrow> (validator \<Rightarrow> jval \<Rightarrow> jval check) \<Rightarrow> jval \<Rightarrow> jval check" where
  "object_cast props call v =
     (if \<not> is_object v then vfail (mismatch v ''{value} is not an object'')
      else vbind
        (each (\<lambda>_ p. vbind (vpush (PKey (fst p)) (call (snd p) (prop_get v (fst p)))) (\<lambda>y. vok (fst p, y))) 0 props)
        (\<lambda>fs. vok (VObj (filter (\<lambda>(k, y). y \<noteq> VUndef) fs))))"

definition object_validate :: "(jstr \<times> validator) list \<Rightarrow> (validator \<Rightarrow> jval \<Rightarrow> unit check) \<Rightarrow> jval \<Rightarrow> unit check" where
  "object_validate props call v =
     (if \<not> is_object v then vfail (mismatch v ''{value} is not an object'')
      else vbind (each (\<lambda>_ p. vpush (PKey (fst p)) (call (snd p) (prop_get v (fst p)))) 0 props) (\<lambda>_. vok ()))"

definition one_of_cast :: "nat \<Rightarrow> (jstr \<times> validator) list \<Rightarrow> (validator \<Rightarrow> jval \<Rightarrow> jval check) \<Rightarrow> jval \<Rightarrow> jval check" where
  "one_of_cast k patterns call v = one_of k (map fst patterns) v (first_match k (\<lambda>p. call (snd p) v) 0 patterns)"

definition one_of_validate :: "nat \<Rightarrow> (jstr \<times> validator) list \<Rightarrow> (validator \<Rightarrow> jval \<Rightarrow> unit check) \<Rightarrow> jval \<Rightarrow> unit check" where
  "one_of_validate k patterns call v = one_of k (map fst patterns) v (first_match k (\<lambda>p. call (snd p) v) 0 patterns)"

definition option_cast :: "(jval \<Rightarrow> jval check) \<Rightarrow> jval \<Rightarrow> jval check" where
  "option_cast item v = (if absent v then vok VUndef else item v)"

definition option_validate :: "(jval \<Rightarrow> unit check) \<Rightarrow> jval \<Rightarrow> unit check" where
  "option_validate item v = (if absent v then vok () else item v)"

definition record_cast :: "(jval \<Rightarrow> jval check) \<Rightarrow> (jval \<Rightarrow> jval check) \<Rightarrow> jval \<Rightarrow> jval check" where
  "record_cast key item v =
     (if \<not> is_object v then vfail (mismatch v ''{value} is not an object'')
      else vbind
        (each (\<lambda>_ p. vbind (vpush (PKey (fst p)) (key (VStr (fst p)))) (\<lambda>k.
           vbind (vpush (PKey (fst p)) (item (snd p))) (\<lambda>y. vok (k, y)))) 0 (own_entries v))
        (\<lambda>es. vok (keyed es)))"

definition record_validate :: "(jval \<Rightarrow> unit check) \<Rightarrow> (jval \<Rightarrow> unit check) \<Rightarrow> jval \<Rightarrow> unit check" where
  "record_validate key item v =
     (if \<not> is_object v then vfail (mismatch v ''{value} is not an object'')
      else vbind
        (each (\<lambda>_ p. vpush (PKey (fst p)) (vbind (key (VStr (fst p))) (\<lambda>_. item (snd p)))) 0 (own_entries v))
        (\<lambda>_. vok ()))"

text \<open>The warning about a sentinel is logged.\<close>

definition sentinel_cast :: "jval \<Rightarrow> (jval \<Rightarrow> jval check) \<Rightarrow> jval \<Rightarrow> jval check" where
  "sentinel_cast d item v = (if absent v then vok d else item v)"

definition sentinel_validate :: "(jval \<Rightarrow> unit check) \<Rightarrow> jval \<Rightarrow> unit check" where
  "sentinel_validate item v = (if absent v then vok () else item v)"

definition tagged_cast :: "jstr \<Rightarrow> (jstr \<times> validator) list \<Rightarrow> (validator \<Rightarrow> jval \<Rightarrow> jval check) \<Rightarrow> jval \<Rightarrow> jval check" where
  "tagged_cast tagField variants call v =
     (case getVariant tagField variants v of
        Inl e \<Rightarrow> vthrow e
      | Inr (Inl er) \<Rightarrow> vfail er
      | Inr (Inr tag) \<Rightarrow>
          (case map_of variants tag of
             None \<Rightarrow> vthrow TypeError
           | Some c \<Rightarrow> vbind (call c v) (\<lambda>y. vok (VObj (spread [(tagField, prop_get v tagField)] y)))))"

definition tagged_validate :: "jstr \<Rightarrow> (jstr \<times> validator) list \<Rightarrow> (validator \<Rightarrow> jval \<Rightarrow> unit check) \<Rightarrow> jval \<Rightarrow> unit check" where
  "tagged_validate tagField variants call v =
     (case getVariant tagField variants v of
        Inl e \<Rightarrow> vthrow e
      | Inr (Inl er) \<Rightarrow> vfail er
      | Inr (Inr tag) \<Rightarrow> (case map_of variants tag of None \<Rightarrow> vthrow TypeError | Some c \<Rightarrow> call c v))"

definition tuple_cast :: "validator list \<Rightarrow> (validator \<Rightarrow> jval \<Rightarrow> jval check) \<Rightarrow> jval \<Rightarrow> jval check" where
  "tuple_cast items call v =
     (case v of
        VArr xs \<Rightarrow>
          if length xs \<noteq> length items then vfail (Failure [] v (invalidLengthMessage (length items)))
          else vbind (each (\<lambda>i p. vpush (PIndex i) (call (fst p) (snd p))) 0 (zip items xs)) (\<lambda>ys. vok (VArr ys))
      | _ \<Rightarrow> vfail (mismatch v ''{value} is not a tuple''))"

definition tuple_validate :: "validator list \<Rightarrow> (validator \<Rightarrow> jval \<Rightarrow> unit check) \<Rightarrow> jval \<Rightarrow> unit check" where
  "tuple_validate items call v =
     (case v of
        VArr xs \<Rightarrow>
          if length xs \<noteq> length items then vfail (Failure [] v (invalidLengthMessage (length items)))
          else vbind (each (\<lambda>i p. vpush (PIndex i) (call (fst p) (snd p))) 0 (zip items xs)) (\<lambda>_. vok ())
      | _ \<Rightarrow> vfail (mismatch v ''{value} is not a tuple''))"

lemmas composite_defs [simp] =
  array_cast_def array_validate_def constant_cast_def constant_validate_def default_cast_def default_validate_def
  key_tagged_cast_def key_tagged_validate_def nullable_cast_def nullable_validate_def object_cast_def object_validate_def
  one_of_cast_def one_of_validate_def option_cast_def option_validate_def record_cast_def record_validate_def
  sentinel_cast_def sentinel_validate_def tagged_cast_def tagged_validate_def tuple_cast_def tuple_validate_def

lemma array_cong [fundef_cong]:
  assumes "v = w" and "\<And>xs x. w = VArr xs \<Longrightarrow> x \<in> set xs \<Longrightarrow> f x = g x"
  shows "array_cast f v = array_cast g w"
  using assms by (cases w) (auto intro!: arg_cong2 [where f = vbind] each_cong)

lemma array_validate_cong [fundef_cong]:
  assumes "v = w" and "\<And>xs x. w = VArr xs \<Longrightarrow> x \<in> set xs \<Longrightarrow> f x = g x"
  shows "array_validate f v = array_validate g w"
  using assms by (cases w) (auto intro!: arg_cong2 [where f = vbind] each_cong)

lemma absent_cong [fundef_cong]:
  assumes "v = w" and "\<not> absent w \<Longrightarrow> f w = g w"
  shows "default_cast d f v = default_cast d g w" "sentinel_cast d f v = sentinel_cast d g w"
    "option_cast f v = option_cast g w"
  using assms by simp_all

lemma absent_validate_cong [fundef_cong]:
  assumes "v = w" and "\<not> absent w \<Longrightarrow> f w = g w"
  shows "default_validate f v = default_validate g w" "sentinel_validate f v = sentinel_validate g w"
    "option_validate f v = option_validate g w"
  using assms by simp_all

lemma nullable_cong [fundef_cong]:
  assumes "v = w" and "w \<noteq> VNull \<Longrightarrow> f w = g w"
  shows "nullable_cast f v = nullable_cast g w"
  using assms by simp

lemma nullable_validate_cong [fundef_cong]:
  assumes "v = w" and "w \<noteq> VNull \<Longrightarrow> f w = g w"
  shows "nullable_validate f v = nullable_validate g w"
  using assms by simp

lemma key_tagged_cong [fundef_cong]:
  assumes "un = un'" and "v = w" and "\<And>tag c. getTag un' w = Inr tag \<Longrightarrow> map_of un' tag = Some c \<Longrightarrow> f c (prop_get w tag) = g c (prop_get w tag)"
  shows "key_tagged_cast un f v = key_tagged_cast un' g w"
  using assms by (auto split: sum.split option.split)

lemma key_tagged_validate_cong [fundef_cong]:
  assumes "un = un'" and "v = w" and "\<And>tag c. getTag un' w = Inr tag \<Longrightarrow> map_of un' tag = Some c \<Longrightarrow> f c (prop_get w tag) = g c (prop_get w tag)"
  shows "key_tagged_validate un f v = key_tagged_validate un' g w"
  using assms by (auto split: sum.split option.split)

lemma object_cong [fundef_cong]:
  assumes "ps = qs" and "v = w" and "\<And>p. is_object w \<Longrightarrow> p \<in> set qs \<Longrightarrow> f (snd p) (prop_get w (fst p)) = g (snd p) (prop_get w (fst p))"
  shows "object_cast ps f v = object_cast qs g w"
  using assms by (auto intro!: arg_cong2 [where f = vbind] each_cong)

lemma object_validate_cong [fundef_cong]:
  assumes "ps = qs" and "v = w" and "\<And>p. is_object w \<Longrightarrow> p \<in> set qs \<Longrightarrow> f (snd p) (prop_get w (fst p)) = g (snd p) (prop_get w (fst p))"
  shows "object_validate ps f v = object_validate qs g w"
  using assms by (auto intro!: arg_cong2 [where f = vbind] each_cong)

lemma one_of_cong [fundef_cong]:
  assumes "ps = qs" and "v = w" and "\<And>p. p \<in> set qs \<Longrightarrow> f (snd p) w = g (snd p) w"
  shows "one_of_cast k ps f v = one_of_cast k qs g w"
  using assms by (auto intro!: arg_cong2 [where f = "one_of k (map fst qs)"] first_match_cong)

lemma one_of_validate_cong [fundef_cong]:
  assumes "ps = qs" and "v = w" and "\<And>p. p \<in> set qs \<Longrightarrow> f (snd p) w = g (snd p) w"
  shows "one_of_validate k ps f v = one_of_validate k qs g w"
  using assms by (auto intro!: arg_cong2 [where f = "one_of k (map fst qs)"] first_match_cong)

lemma record_cong [fundef_cong]:
  assumes "v = w" and "\<And>p. is_object w \<Longrightarrow> p \<in> set (own_entries w) \<Longrightarrow> f (VStr (fst p)) = f' (VStr (fst p))"
    and "\<And>p. is_object w \<Longrightarrow> p \<in> set (own_entries w) \<Longrightarrow> g (snd p) = g' (snd p)"
  shows "record_cast f g v = record_cast f' g' w"
  using assms by (auto intro!: arg_cong2 [where f = vbind] each_cong)

lemma record_validate_cong [fundef_cong]:
  assumes "v = w" and "\<And>p. is_object w \<Longrightarrow> p \<in> set (own_entries w) \<Longrightarrow> f (VStr (fst p)) = f' (VStr (fst p))"
    and "\<And>p. is_object w \<Longrightarrow> p \<in> set (own_entries w) \<Longrightarrow> g (snd p) = g' (snd p)"
  shows "record_validate f g v = record_validate f' g' w"
  using assms by (auto intro!: arg_cong2 [where f = vbind] each_cong)

lemma tagged_cong [fundef_cong]:
  assumes "vs = ws" and "v = w" and "\<And>tag c. getVariant t ws w = Inr (Inr tag) \<Longrightarrow> map_of ws tag = Some c \<Longrightarrow> f c w = g c w"
  shows "tagged_cast t vs f v = tagged_cast t ws g w"
  using assms by (auto split: sum.split option.split)

lemma tagged_validate_cong [fundef_cong]:
  assumes "vs = ws" and "v = w" and "\<And>tag c. getVariant t ws w = Inr (Inr tag) \<Longrightarrow> map_of ws tag = Some c \<Longrightarrow> f c w = g c w"
  shows "tagged_validate t vs f v = tagged_validate t ws g w"
  using assms by (auto split: sum.split option.split)

lemma tuple_cong [fundef_cong]:
  assumes "cs = ds" and "v = w"
    and "\<And>xs p. w = VArr xs \<Longrightarrow> \<not> length xs \<noteq> length ds \<Longrightarrow> p \<in> set (zip ds xs) \<Longrightarrow> f (fst p) (snd p) = g (fst p) (snd p)"
  shows "tuple_cast cs f v = tuple_cast ds g w"
  using assms by (cases w) (auto intro!: arg_cong2 [where f = vbind] each_cong)

lemma tuple_validate_cong [fundef_cong]:
  assumes "cs = ds" and "v = w"
    and "\<And>xs p. w = VArr xs \<Longrightarrow> \<not> length xs \<noteq> length ds \<Longrightarrow> p \<in> set (zip ds xs) \<Longrightarrow> f (fst p) (snd p) = g (fst p) (snd p)"
  shows "tuple_validate cs f v = tuple_validate ds g w"
  using assms by (cases w) (auto intro!: arg_cong2 [where f = vbind] each_cong)

lemma size_validators: "p \<in> set ps \<Longrightarrow> size (snd p) < Suc (size_list (size_prod (\<lambda>_. 0) size) ps)"
  by (induction ps) (auto simp: less_Suc_eq)

lemma size_tuple: "p \<in> set (zip vs xs) \<Longrightarrow> size (fst p) < Suc (size_list size vs)"
  by (cases p) (auto dest!: set_zip_leftD simp: less_Suc_eq_le intro: size_list_estimation')

lemma size_map_of: "map_of ps k = Some v \<Longrightarrow> size v < Suc (size_list (size_prod (\<lambda>_. 0) size) ps)"
  by (drule map_of_SomeD, drule size_validators) simp

function (sequential) cast :: "(nat \<Rightarrow> validator) \<Rightarrow> nat \<Rightarrow> validator \<Rightarrow> jval \<Rightarrow> jval check" where
  "cast env n ANY v = vok v"
| "cast env n ANY_OBJECT v = vlift (cast_ANY_OBJECT v)"
| "cast env n STRING v = vlift (cast_STRING v)"
| "cast env n SAFE_INT v = vlift (cast_INT v)"
| "cast env n ANY_INT v = vrun (cast_ANY_INT v)"
| "cast env n NAT v = vlift (cast_NAT v)"
| "cast env n BIG_NAT v = vrun (cast_BIG_NAT v)"
| "cast env n ANY_NAT v = vrun (cast_ANY_NAT v)"
| "cast env n STRING_NAT v = vlift (cast_STRING_NAT v)"
| "cast env n STRING_FLOAT v = vlift (cast_STRING_FLOAT v)"
| "cast env n QTY v = vrun (cast_QTY v)"
| "cast env n SMALL_QTY v = vlift (cast_SMALL_QTY v)"
| "cast env n BYTES v = vlift (cast_BYTES v)"
| "cast env n B58 v = vlift (cast_B58 v)"
| "cast env n B64 v = vlift (cast_B64 v)"
| "cast env n BOOLEAN v = vlift (cast_BOOLEAN v)"
| "cast env n (ArrayValidator item) v = array_cast (cast env n item) v"
| "cast env n (ConstantValidator c) v = constant_cast c v"
| "cast env n (Default d item) v = default_cast d (cast env n item) v"
| "cast env n (KeyTaggedUnion un) v = key_tagged_cast un (\<lambda>c x. cast env n c x) v"
| "cast env n (NullableValidator item) v = nullable_cast (cast env n item) v"
| "cast env n (ObjectValidator props) v = object_cast props (\<lambda>c x. cast env n c x) v"
| "cast env n (OneOfValidator k patterns) v = one_of_cast k patterns (\<lambda>c x. cast env n c x) v"
| "cast env n (OptionValidator item) v = option_cast (cast env n item) v"
| "cast env n (RecordValidator key item) v = record_cast (cast env n key) (cast env n item) v"
| "cast env n (Sentinel label d item) v = sentinel_cast d (cast env n item) v"
| "cast env n (TaggedUnion tagField variants) v = tagged_cast tagField variants (\<lambda>c x. cast env n c x) v"
| "cast env n (TupleValidator items) v = tuple_cast items (\<lambda>c x. cast env n c x) v"
| "cast env n (RefValidator r) v = (case n of 0 \<Rightarrow> vthrow RangeError | Suc m \<Rightarrow> cast env m (env r) v)"
  by pat_completeness auto
termination
  by (relation "measures [\<lambda>(env, n, c, v). n, \<lambda>(env, n, c, v). size c]")
    (auto dest: size_validators size_tuple size_map_of)

text \<open>\<open>validate\<close>: its \<open>'a\<close> is \<open>unit\<close>, a value is valid when it is \<open>vok ()\<close>.\<close>

definition vcheck :: "failure option \<Rightarrow> unit check" where
  "vcheck r = (case r of None \<Rightarrow> vok () | Some f \<Rightarrow> vfail f)"

function (sequential) validate :: "(nat \<Rightarrow> validator) \<Rightarrow> nat \<Rightarrow> validator \<Rightarrow> jval \<Rightarrow> unit check" where
  "validate env n ANY v = vok ()"
| "validate env n ANY_OBJECT v = vcheck (validate_ANY_OBJECT v)"
| "validate env n STRING v = vcheck (validate_STRING v)"
| "validate env n SAFE_INT v = vcheck (validate_INT v)"
| "validate env n ANY_INT v = vcheck (validate_ANY_INT v)"
| "validate env n NAT v = vcheck (validate_NAT v)"
| "validate env n BIG_NAT v = vcheck (validate_BIG_NAT v)"
| "validate env n ANY_NAT v = vcheck (validate_ANY_NAT v)"
| "validate env n STRING_NAT v = vcheck (validate_STRING_NAT v)"
| "validate env n STRING_FLOAT v = vcheck (validate_STRING_FLOAT v)"
| "validate env n QTY v = vcheck (validate_QTY v)"
| "validate env n SMALL_QTY v = vcheck (validate_SMALL_QTY v)"
| "validate env n BYTES v = vcheck (validate_BYTES v)"
| "validate env n B58 v = vcheck (validate_B58 v)"
| "validate env n B64 v = vcheck (validate_B64 v)"
| "validate env n BOOLEAN v = vcheck (validate_BOOLEAN v)"
| "validate env n (ArrayValidator item) v = array_validate (validate env n item) v"
| "validate env n (ConstantValidator c) v = constant_validate c v"
| "validate env n (Default d item) v = default_validate (validate env n item) v"
| "validate env n (KeyTaggedUnion un) v = key_tagged_validate un (\<lambda>c x. validate env n c x) v"
| "validate env n (NullableValidator item) v = nullable_validate (validate env n item) v"
| "validate env n (ObjectValidator props) v = object_validate props (\<lambda>c x. validate env n c x) v"
| "validate env n (OneOfValidator k patterns) v = one_of_validate k patterns (\<lambda>c x. validate env n c x) v"
| "validate env n (OptionValidator item) v = option_validate (validate env n item) v"
| "validate env n (RecordValidator key item) v = record_validate (validate env n key) (validate env n item) v"
| "validate env n (Sentinel label d item) v = sentinel_validate (validate env n item) v"
| "validate env n (TaggedUnion tagField variants) v = tagged_validate tagField variants (\<lambda>c x. validate env n c x) v"
| "validate env n (TupleValidator items) v = tuple_validate items (\<lambda>c x. validate env n c x) v"
| "validate env n (RefValidator r) v = (case n of 0 \<Rightarrow> vthrow RangeError | Suc m \<Rightarrow> validate env m (env r) v)"
  by pat_completeness auto
termination
  by (relation "measures [\<lambda>(env, n, c, v). n, \<lambda>(env, n, c, v). size c]")
    (auto dest: size_validators size_tuple size_map_of)

section \<open>The functions of the DSL\<close>

text \<open>A fresh set of instances, and what a caller sees: the value, the text of a \<open>DataValidationError\<close>, or another error.\<close>

definition no_errs :: errs where
  "no_errs = (\<lambda>_ _. None)"

datatype validation_error = DataValidationError jstr | OtherError js_error

definition thrown_failure :: "failure \<Rightarrow> validation_error" where
  "thrown_failure f = (case failure_text f of Inl e \<Rightarrow> OtherError e | Inr t \<Rightarrow> DataValidationError t)"

definition cast_value :: "(nat \<Rightarrow> validator) \<Rightarrow> nat \<Rightarrow> validator \<Rightarrow> jval \<Rightarrow> validation_error + jval" where
  "cast_value env n c v =
     (case cast env n c v no_errs of
        Inl e \<Rightarrow> Inl (OtherError e)
      | Inr (Inl f, _) \<Rightarrow> Inl (thrown_failure f)
      | Inr (Inr y, _) \<Rightarrow> Inr y)"

definition assertValidity :: "(nat \<Rightarrow> validator) \<Rightarrow> nat \<Rightarrow> validator \<Rightarrow> jval \<Rightarrow> validation_error option" where
  "assertValidity env n c v =
     (case validate env n c v no_errs of
        Inl e \<Rightarrow> Some (OtherError e)
      | Inr (Inl f, _) \<Rightarrow> Some (thrown_failure f)
      | Inr (Inr _, _) \<Rightarrow> None)"

text \<open>\<open>object\<close> leaves out the properties without a validator; \<open>oneOf\<close> needs two patterns.\<close>

definition object :: "(jstr \<times> validator option) list \<Rightarrow> validator" where
  "object props = ObjectValidator (map (\<lambda>(k, c). (k, the c)) (filter (\<lambda>(k, c). c \<noteq> None) props))"

definition oneOf :: "nat \<Rightarrow> (jstr \<times> validator) list \<Rightarrow> validator result" where
  "oneOf k patterns = rbind (js_assert (length patterns > 1)) (\<lambda>_. Inr (OneOfValidator k patterns))"

end
