(* ===== verification/Validation_Laws.thy ===== *)
theory Validation_Laws
  imports Validation
begin

text \<open>
  What holds of \<open>cast\<close> and \<open>validate\<close>: they accept the same values with the same failures, what \<open>cast\<close> returns has the
  type of the schema (the relation \<open>typed\<close>), a failure names the value it complains about, and for schemas whose
  references go through a container the recursion ends.
\<close>

section \<open>cast and validate\<close>

text \<open>Where the first check returns, the second ends in the same state, with the same failure or with a value.\<close>

definition agrees :: "'a check \<Rightarrow> 'b check \<Rightarrow> bool" where
  "agrees m w \<longleftrightarrow>
     (\<forall>\<sigma> f \<sigma>'. m \<sigma> = Inr (Inl f, \<sigma>') \<longrightarrow> w \<sigma> = Inr (Inl f, \<sigma>')) \<and>
     (\<forall>\<sigma> y \<sigma>'. m \<sigma> = Inr (Inr y, \<sigma>') \<longrightarrow> (\<exists>z. w \<sigma> = Inr (Inr z, \<sigma>')))"

named_theorems agrees_intros

lemma agreesI:
  "(\<And>\<sigma> f \<sigma>'. m \<sigma> = Inr (Inl f, \<sigma>') \<Longrightarrow> w \<sigma> = Inr (Inl f, \<sigma>')) \<Longrightarrow>
    (\<And>\<sigma> y \<sigma>'. m \<sigma> = Inr (Inr y, \<sigma>') \<Longrightarrow> \<exists>z. w \<sigma> = Inr (Inr z, \<sigma>')) \<Longrightarrow> agrees m w"
  by (simp add: agrees_def)

lemma agreesD:
  "agrees m w \<Longrightarrow> m \<sigma> = Inr (Inl f, \<sigma>') \<Longrightarrow> w \<sigma> = Inr (Inl f, \<sigma>')"
  "agrees m w \<Longrightarrow> m \<sigma> = Inr (Inr y, \<sigma>') \<Longrightarrow> \<exists>z. w \<sigma> = Inr (Inr z, \<sigma>')"
  unfolding agrees_def by blast+

lemma agrees_vok [agrees_intros]: "agrees (vok y) (vok z)"
  by (simp add: agrees_def vok_def)

lemma agrees_vfail [agrees_intros]: "agrees (vfail f) (vfail f)"
  by (simp add: agrees_def vfail_def)

lemma agrees_vthrow [agrees_intros]: "agrees (vthrow e) w"
  by (simp add: agrees_def vthrow_def)

lemma agrees_vlift [agrees_intros]: "failed r = w \<Longrightarrow> agrees (vlift r) (vcheck w)"
  by (auto simp: agrees_def vlift_def vcheck_def vok_def vfail_def failed_def split: sum.splits)

lemma agrees_vrun [agrees_intros]:
  "(\<And>y. r = Inr y \<Longrightarrow> failed y = w) \<Longrightarrow> agrees (vrun r) (vcheck w)"
  by (cases r) (auto simp: agrees_def vrun_def vcheck_def vok_def vfail_def failed_def split: sum.splits)

lemma vbind_eq_fail:
  "vbind m f \<sigma> = Inr (Inl e, \<sigma>') \<longleftrightarrow>
    m \<sigma> = Inr (Inl e, \<sigma>') \<or> (\<exists>y \<sigma>1. m \<sigma> = Inr (Inr y, \<sigma>1) \<and> f y \<sigma>1 = Inr (Inl e, \<sigma>'))"
  by (auto simp: vbind_def split: sum.splits prod.splits)

lemma vbind_eq_ok:
  "vbind m f \<sigma> = Inr (Inr z, \<sigma>') \<longleftrightarrow> (\<exists>y \<sigma>1. m \<sigma> = Inr (Inr y, \<sigma>1) \<and> f y \<sigma>1 = Inr (Inr z, \<sigma>'))"
  by (auto simp: vbind_def split: sum.splits prod.splits)

lemma vpush_eq_fail: "vpush p m \<sigma> = Inr (Inl e, \<sigma>') \<longleftrightarrow> (\<exists>f. m \<sigma> = Inr (Inl f, \<sigma>') \<and> e = push_path p f)"
  by (auto simp: vpush_def split: sum.splits prod.splits)

lemma vpush_eq_ok: "vpush p m \<sigma> = Inr (Inr y, \<sigma>') \<longleftrightarrow> m \<sigma> = Inr (Inr y, \<sigma>')"
  by (auto simp: vpush_def split: sum.splits prod.splits)

lemmas check_eqs = vbind_eq_fail vbind_eq_ok vpush_eq_fail vpush_eq_ok

lemma agrees_vbind [agrees_intros]:
  assumes "agrees m w" "\<And>y z. agrees (f y) (g z)"
  shows "agrees (vbind m f) (vbind w g)"
proof (rule agreesI)
  fix \<sigma> e \<sigma>'
  assume "vbind m f \<sigma> = Inr (Inl e, \<sigma>')"
  then show "vbind w g \<sigma> = Inr (Inl e, \<sigma>')"
    using agreesD [OF assms(1)] agreesD [OF assms(2)] unfolding check_eqs by meson
next
  fix \<sigma> y \<sigma>'
  assume "vbind m f \<sigma> = Inr (Inr y, \<sigma>')"
  then show "\<exists>z. vbind w g \<sigma> = Inr (Inr z, \<sigma>')"
    using agreesD [OF assms(1)] agreesD [OF assms(2)] unfolding check_eqs by meson
qed

lemma agrees_ignore: "agrees m w \<Longrightarrow> agrees (vbind m (\<lambda>y. vok (g y))) w"
proof -
  assume "agrees m w"
  then have "agrees (vbind m (\<lambda>y. vok (g y))) (vbind w vok)" by (intro agrees_intros)
  moreover have "vbind w vok = w" by (rule ext) (auto simp: vbind_def vok_def split: sum.splits prod.splits)
  ultimately show ?thesis by simp
qed

lemma agrees_vpush [agrees_intros]: "agrees m w \<Longrightarrow> agrees (vpush p m) (vpush p w)"
  unfolding agrees_def check_eqs by blast

lemma vpush_vbind: "vpush p (vbind m f) = vbind (vpush p m) (\<lambda>y. vpush p (f y))"
  by (rule ext) (auto simp: vpush_def vbind_def split: sum.splits prod.splits)

lemma agrees_each [agrees_intros]:
  "(\<And>i x. x \<in> set xs \<Longrightarrow> agrees (f i x) (g i x)) \<Longrightarrow> agrees (each f i xs) (each g i xs)"
proof (induction xs arbitrary: i)
  case (Cons x xs)
  then show ?case by (auto intro!: agrees_intros)
qed (simp add: agrees_intros)

lemma first_match_Cons_eq:
  "first_match k f i (p # ps) \<sigma> = Inr (r, \<sigma>') \<longleftrightarrow>
    (\<exists>e \<sigma>1. f p \<sigma> = Inr (Inl e, \<sigma>1) \<and> first_match k f (Suc i) ps (\<sigma>1(k := (\<sigma>1 k)(i := Some e))) = Inr (r, \<sigma>')) \<or>
    (\<exists>y. f p \<sigma> = Inr (Inr y, \<sigma>') \<and> r = Inr (Some y))"
  by (auto split: sum.splits prod.splits)

lemma agrees_first_match:
  "(\<And>p. p \<in> set ps \<Longrightarrow> agrees (f p) (g p)) \<Longrightarrow> first_match k f i ps \<sigma> = Inr (r, \<sigma>') \<Longrightarrow>
    \<exists>r'. first_match k g i ps \<sigma> = Inr (r', \<sigma>') \<and>
      (case r of Inl e \<Rightarrow> r' = Inl e | Inr None \<Rightarrow> r' = Inr None | Inr (Some y) \<Rightarrow> \<exists>z. r' = Inr (Some z))"
proof (induction ps arbitrary: i \<sigma>)
  case (Cons p ps)
  have a: "agrees (f p) (g p)" by (rule Cons.prems) simp
  from Cons.prems(2) [unfolded first_match_Cons_eq] consider (fail) e \<sigma>1 where "f p \<sigma> = Inr (Inl e, \<sigma>1)"
      "first_match k f (Suc i) ps (\<sigma>1(k := (\<sigma>1 k)(i := Some e))) = Inr (r, \<sigma>')"
    | (match) y where "f p \<sigma> = Inr (Inr y, \<sigma>')" "r = Inr (Some y)"
    by blast
  then show ?case
  proof cases
    case fail
    then obtain r' where "first_match k g (Suc i) ps (\<sigma>1(k := (\<sigma>1 k)(i := Some e))) = Inr (r', \<sigma>')"
      "case r of Inl e \<Rightarrow> r' = Inl e | Inr None \<Rightarrow> r' = Inr None | Inr (Some y) \<Rightarrow> \<exists>z. r' = Inr (Some z)"
      using Cons.IH [OF _ fail(2)] Cons.prems(1) by (meson list.set_intros(2))
    then show ?thesis
      unfolding first_match_Cons_eq using agreesD(1) [OF a fail(1)] by blast
  next
    case match
    then show ?thesis
      using agreesD(2) [OF a match(1)] unfolding first_match_Cons_eq by auto
  qed
qed (auto simp: vok_def)

lemma agrees_one_of:
  assumes "\<And>p. p \<in> set ps \<Longrightarrow> agrees (f p) (g p)"
  shows "agrees (one_of k ns v (first_match k f i ps)) (one_of k ns v (first_match k g i ps))"
proof -
  have "(case r of Inl e \<Rightarrow> one_of k ns v (first_match k g i ps) \<sigma> = Inr (Inl e, \<sigma>')
      | Inr _ \<Rightarrow> \<exists>z. one_of k ns v (first_match k g i ps) \<sigma> = Inr (Inr z, \<sigma>'))"
    if o: "one_of k ns v (first_match k f i ps) \<sigma> = Inr (r, \<sigma>')" for r \<sigma> \<sigma>'
  proof -
    obtain r1 \<sigma>1 where m: "first_match k f i ps \<sigma> = Inr (r1, \<sigma>1)"
      using o by (auto simp: one_of_def split: sum.splits prod.splits)
    obtain r' where "first_match k g i ps \<sigma> = Inr (r', \<sigma>1)"
      "case r1 of Inl e \<Rightarrow> r' = Inl e | Inr None \<Rightarrow> r' = Inr None | Inr (Some y) \<Rightarrow> \<exists>z. r' = Inr (Some z)"
      using agrees_first_match [OF assms m] by blast
    with o m show ?thesis by (auto simp: one_of_def split: sum.splits option.splits)
  qed
  then show ?thesis by (fastforce intro: agreesI)
qed

lemmas primitive_defs =
  validate_ANY_OBJECT_def cast_ANY_OBJECT_def validate_STRING_def cast_STRING_def validate_INT_def cast_INT_def
  validate_NAT_def cast_NAT_def validate_B58_def cast_B58_def validate_B64_def cast_B64_def
  validate_BOOLEAN_def cast_BOOLEAN_def validate_BYTES_def cast_BYTES_def validate_ANY_INT_def cast_ANY_INT_def
  validate_BIG_NAT_def cast_BIG_NAT_def validate_ANY_NAT_def cast_ANY_NAT_def validate_QTY_def cast_QTY_def
  validate_STRING_NAT_def validate_STRING_FLOAT_def validate_SMALL_QTY_def

lemma cast_agrees: "agrees (cast env n c v) (validate env n c v)"
proof (induction env n c v rule: cast.induct)
  case (25 env n key item v)
  have "agrees (vbind (vpush q (cast env n key (VStr (fst p)))) (\<lambda>k. vbind (vpush q (cast env n item (snd p))) (\<lambda>y. vok (k, y))))
      (vpush q (vbind (validate env n key (VStr (fst p))) (\<lambda>_. validate env n item (snd p))))"
    if "is_object v" "p \<in> set (own_entries v)" for p q
    unfolding vpush_vbind using 25 that by (intro agrees_vbind agrees_ignore agrees_vpush) auto
  then show ?case by (auto intro!: agrees_vbind agrees_each agrees_vok agrees_vfail)
next
  case (20 env n un v)
  then show ?case by (auto intro!: agrees_ignore agrees_vpush agrees_vfail agrees_vthrow split: sum.splits option.splits)
next
  case (27 env n tagField variants v)
  then show ?case by (auto intro!: agrees_ignore agrees_vfail agrees_vthrow split: sum.splits option.splits)
next
  case (22 env n props v)
  have "agrees (vbind (vpush q (cast env n (snd p) (prop_get v (fst p)))) (\<lambda>y. vok (fst p, y)))
      (vpush q (validate env n (snd p) (prop_get v (fst p))))" if "is_object v" "p \<in> set props" for p q
    using 22 that by (intro agrees_ignore agrees_vpush) auto
  then show ?case by (auto intro!: agrees_vbind agrees_each agrees_vok agrees_vfail)
qed (auto intro!: agrees_intros agrees_one_of simp: primitive_defs failed_def result_simps
    split: sum.splits option.splits jval.splits nat.splits if_splits)

section \<open>The types of schemas\<close>

text \<open>Whether a value has the type that TypeScript infers for the results of a validator (\<open>GetCastType\<close>).\<close>

definition primitive_typed :: "validator \<Rightarrow> jval \<Rightarrow> bool" where
  "primitive_typed c y =
     (case c of
        ANY \<Rightarrow> True
      | ANY_OBJECT \<Rightarrow> is_object y
      | STRING \<Rightarrow> is_string y
      | SAFE_INT \<Rightarrow> isSafeInteger y
      | NAT \<Rightarrow> isSafeInteger y \<and> 0 \<le> int_of y
      | STRING_NAT \<Rightarrow> isSafeInteger y
      | SMALL_QTY \<Rightarrow> isSafeInteger y \<and> 0 \<le> int_of y
      | ANY_INT \<Rightarrow> (\<exists>i. y = VBig i)
      | BIG_NAT \<Rightarrow> (\<exists>i\<ge>0. y = VBig i)
      | ANY_NAT \<Rightarrow> (\<exists>i\<ge>0. y = VBig i)
      | QTY \<Rightarrow> (\<exists>i\<ge>0. y = VBig i)
      | STRING_FLOAT \<Rightarrow> (\<exists>t. y = VNum (NLit t))
      | BYTES \<Rightarrow> isBytes y \<and> map lower_ascii (str_of y) = str_of y
      | B58 \<Rightarrow> isBase58 y
      | B64 \<Rightarrow> isBase64 y
      | BOOLEAN \<Rightarrow> (\<exists>b. y = VBool b)
      | _ \<Rightarrow> False)"

inductive typed :: "(nat \<Rightarrow> validator) \<Rightarrow> validator \<Rightarrow> jval \<Rightarrow> bool" for env where
  t_primitive: "primitive_typed c y \<Longrightarrow> typed env c y"
| t_array: "(\<And>y. y \<in> set ys \<Longrightarrow> typed env item y) \<Longrightarrow> typed env (ArrayValidator item) (VArr ys)"
| t_constant: "typed env (ConstantValidator c) c"
| t_default: "y = d \<or> typed env item y \<Longrightarrow> typed env (Default d item) y"
| t_sentinel: "y = d \<or> typed env item y \<Longrightarrow> typed env (Sentinel label d item) y"
| t_option: "y = VUndef \<or> typed env item y \<Longrightarrow> typed env (OptionValidator item) y"
| t_nullable: "y = VNull \<or> typed env item y \<Longrightarrow> typed env (NullableValidator item) y"
| t_key_tagged: "map_of un tag = Some c \<Longrightarrow> typed env c y \<Longrightarrow> typed env (KeyTaggedUnion un) (VObj [(tag, y)])"
| t_object: "(\<And>k c. (k, c) \<in> set props \<Longrightarrow> typed env c (prop_get (VObj fs) k)) \<Longrightarrow> fst ` set fs \<subseteq> fst ` set props \<Longrightarrow>
    typed env (ObjectValidator props) (VObj fs)"
| t_one_of: "(name, c) \<in> set patterns \<Longrightarrow> typed env c y \<Longrightarrow> typed env (OneOfValidator k patterns) y"
| t_record: "(\<And>k y. (k, y) \<in> set fs \<Longrightarrow> (\<exists>z. typed env key z \<and> k = property_key z) \<and> typed env item y) \<Longrightarrow>
    typed env (RecordValidator key item) (VObj fs)"
| t_tagged: "map_of variants (property_key tag) = Some c \<Longrightarrow> typed env c z \<Longrightarrow> y = VObj (spread [(field, tag)] z) \<Longrightarrow>
    typed env (TaggedUnion field variants) y"
| t_tuple: "list_all2 (typed env) items ys \<Longrightarrow> typed env (TupleValidator items) (VArr ys)"
| t_ref: "typed env (env r) y \<Longrightarrow> typed env (RefValidator r) y"

text \<open>A value that a check may return.\<close>

definition returns :: "'a check \<Rightarrow> 'a \<Rightarrow> bool" where
  "returns m y \<longleftrightarrow> (\<exists>\<sigma> \<sigma>'. m \<sigma> = Inr (Inr y, \<sigma>'))"

lemma returnsI: "m \<sigma> = Inr (Inr y, \<sigma>') \<Longrightarrow> returns m y"
  unfolding returns_def by blast

lemma returns_simps [simp]:
  "returns (vok x) y \<longleftrightarrow> y = x" "\<not> returns (vfail f) y" "\<not> returns (vthrow e) y"
  "returns (vlift r) y \<longleftrightarrow> r = Inr y" "returns (vrun q) y \<longleftrightarrow> q = Inr (Inr y)" "returns (vpush p m) y \<longleftrightarrow> returns m y"
  by (auto simp: returns_def vok_def vfail_def vthrow_def vlift_def vrun_def check_eqs result_simps)

lemma returns_vbind: "returns (vbind m f) y \<Longrightarrow> \<exists>x. returns m x \<and> returns (f x) y"
  unfolding returns_def check_eqs by blast

lemma returns_each: "returns (each f i xs) ys \<Longrightarrow> list_all2 (\<lambda>x y. \<exists>j. returns (f j x) y) xs ys"
proof (induction xs arbitrary: i ys)
  case (Cons x xs)
  then obtain y zs where "returns (f i x) y" "returns (each f (Suc i) xs) zs" "ys = y # zs"
    by (auto dest!: returns_vbind)
  with Cons.IH show ?case by auto
qed simp

lemma first_match_some: "first_match k f i ps \<sigma> = Inr (Inr (Some y), \<sigma>') \<Longrightarrow> \<exists>p\<in>set ps. returns (f p) y"
proof (induction ps arbitrary: i \<sigma>)
  case (Cons p ps)
  from Cons.prems [unfolded first_match_Cons_eq] consider "returns (f p) y"
    | e \<sigma>1 where "first_match k f (Suc i) ps (\<sigma>1(k := (\<sigma>1 k)(i := Some e))) = Inr (Inr (Some y), \<sigma>')"
    by (auto dest: returnsI)
  then show ?case by cases (use Cons.IH in auto)
qed (simp add: vok_def)

lemma one_of_ok: "one_of k ns v m \<sigma> = Inr (Inr y, \<sigma>') \<longleftrightarrow> (\<exists>\<sigma>1. m \<sigma> = Inr (Inr (Some y), \<sigma>1) \<and> \<sigma>' = clearErrors k \<sigma>1)"
  by (auto simp: one_of_def split: sum.splits prod.splits option.splits)

lemma returns_one_of: "returns (one_of k ns v (first_match k f 0 ps)) y \<Longrightarrow> \<exists>p\<in>set ps. returns (f p) y"
  unfolding returns_def [of "one_of _ _ _ _"] one_of_ok by (auto dest: first_match_some)

section \<open>What the primitives return\<close>

lemma all_digits_nonneg: "all_digits b s = Some i \<Longrightarrow> 0 \<le> i"
  by (auto simp: all_digits_def Let_def split: if_splits)

lemma set_js_trim: "set (js_trim s) \<subseteq> set s"
proof -
  have "set (dropWhile P xs) \<subseteq> set xs" for P xs using set_dropWhileD [of _ P xs] by blast
  from this [of js_space "rev (dropWhile js_space s)"] this [of js_space s] show ?thesis by (auto simp: js_trim_def)
qed

lemma js_BigInt_nonneg: "45 \<notin> set s \<Longrightarrow> js_BigInt s = Some i \<Longrightarrow> 0 \<le> i"
proof -
  assume s: "45 \<notin> set s" "js_BigInt s = Some i"
  then have "45 \<notin> set (js_trim s)" using set_js_trim by blast
  then have "signed_decimal (js_trim s) = Some i \<Longrightarrow> 0 \<le> i"
    by (cases "js_trim s") (auto simp: signed_decimal_def all_digits_nonneg split: if_splits)
  then show ?thesis
    using s(2) all_digits_nonneg by (auto simp: js_BigInt_def Let_def split: if_splits list.splits)
qed

lemma isBigNat_no_sign: "isBigNat v \<Longrightarrow> 45 \<notin> set (str_of v)"
  by (auto simp: isBigNat_def list_all_iff is_digit_def)

lemma isBytes_no_sign:
  assumes "isBytes v"
  shows "45 \<notin> set (str_of v)"
proof -
  have "45 \<notin> set (take 2 (str_of v))" "45 \<notin> set (drop 2 (str_of v))"
    using assms by (auto simp: isBytes_def list_all_iff hex_char_value_def)
  then show ?thesis by (metis Un_iff append_take_drop_id set_append)
qed

lemma to_BigInt_nonneg: "to_BigInt v = Inr y \<Longrightarrow> is_string v \<Longrightarrow> 45 \<notin> set (str_of v) \<Longrightarrow> \<exists>i\<ge>0. y = VBig i"
  by (auto simp: to_BigInt_def is_string_def str_of_def of_option_def dest: js_BigInt_nonneg split: jval.splits option.splits)

text \<open>Each primitive, by its cast.\<close>

lemma lower_bytes: "isBytes v \<Longrightarrow> isBytes (VStr (map lower_ascii (str_of v)))"
proof -
  have hex: "hex_char_value c \<noteq> None \<Longrightarrow> hex_char_value (lower_ascii c) \<noteq> None" for c
    by (auto simp: hex_char_value_def lower_ascii_def split: if_splits)
  assume "isBytes v"
  then have "list_all (\<lambda>c. hex_char_value c \<noteq> None) (drop 2 (map lower_ascii (str_of v)))"
    using hex by (auto simp: isBytes_def drop_map list_all_iff)
  moreover have "take 2 (map lower_ascii (str_of v)) = [48, 120]"
    using \<open>isBytes v\<close> by (simp add: isBytes_def take_map lower_ascii_def)
  ultimately have "take 2 (map lower_ascii (str_of v)) = [48, 120]"
    "list_all (\<lambda>c. hex_char_value c \<noteq> None) (drop 2 (map lower_ascii (str_of v)))"
    by blast+
  then show ?thesis by (simp add: isBytes_def is_string_def str_of_def)
qed

lemma lower_ascii_idem [simp]: "lower_ascii (lower_ascii c) = lower_ascii c"
  by (simp add: lower_ascii_def)

lemma parse_sign: "45 \<notin> set s \<Longrightarrow> js_parseInt s = Some i \<Longrightarrow> 0 \<le> i"
proof -
  assume s: "45 \<notin> set s" "js_parseInt s = Some i"
  have "set (trimStart s) \<subseteq> set s" unfolding trimStart_def using set_dropWhileD [of _ js_space s] by blast
  with s(1) have "fst (take_sign (trimStart s)) = 1" by (cases "trimStart s") auto
  with s(2) show ?thesis by (auto simp: js_parseInt_def Let_def split: prod.splits if_splits)
qed

lemma primitive_casts:
  "cast_ANY_OBJECT v = Inr y \<Longrightarrow> primitive_typed ANY_OBJECT y" "cast_STRING v = Inr y \<Longrightarrow> primitive_typed STRING y"
  "cast_INT v = Inr y \<Longrightarrow> primitive_typed SAFE_INT y" "cast_NAT v = Inr y \<Longrightarrow> primitive_typed NAT y"
  "cast_B58 v = Inr y \<Longrightarrow> primitive_typed B58 y" "cast_B64 v = Inr y \<Longrightarrow> primitive_typed B64 y"
  "cast_BOOLEAN v = Inr y \<Longrightarrow> primitive_typed BOOLEAN y" "cast_STRING_FLOAT v = Inr y \<Longrightarrow> primitive_typed STRING_FLOAT y"
  by (auto simp: primitive_defs primitive_typed_def cast_STRING_FLOAT_def split: if_splits jval.splits option.splits)

lemma primitive_casts_int:
  "cast_STRING_NAT v = Inr y \<Longrightarrow> primitive_typed STRING_NAT y"
  "cast_SMALL_QTY v = Inr y \<Longrightarrow> primitive_typed SMALL_QTY y"
  using parse_sign [OF isBytes_no_sign]
  by (auto simp: cast_STRING_NAT_def cast_SMALL_QTY_def parsed_int_def primitive_typed_def isSafeInteger_def int_of_def
      split: if_splits option.splits)

lemma primitive_casts_bytes: "cast_BYTES v = Inr y \<Longrightarrow> primitive_typed BYTES y"
  using lower_bytes by (auto simp: cast_BYTES_def primitive_typed_def str_of_def split: if_splits)

lemma to_BigInt_big: "to_BigInt v = Inr y \<Longrightarrow> \<exists>i. y = VBig i"
  by (auto simp: to_BigInt_def of_option_def split: jval.splits option.splits)

lemma to_BigInt_number: "to_BigInt v = Inr y \<Longrightarrow> isSafeInteger v \<Longrightarrow> y = VBig (int_of v)"
  by (auto simp: to_BigInt_def isSafeInteger_def split: jval.splits)

lemma primitive_casts_big:
  "cast_ANY_INT v = Inr (Inr y) \<Longrightarrow> primitive_typed ANY_INT y"
  "cast_BIG_NAT v = Inr (Inr y) \<Longrightarrow> primitive_typed BIG_NAT y"
  "cast_ANY_NAT v = Inr (Inr y) \<Longrightarrow> primitive_typed ANY_NAT y"
  "cast_QTY v = Inr (Inr y) \<Longrightarrow> primitive_typed QTY y"
  using to_BigInt_big [of v] to_BigInt_nonneg [of v] to_BigInt_number [of v] isBigNat_no_sign [of v] isBytes_no_sign [of v]
  by (auto simp: cast_ANY_INT_def cast_BIG_NAT_def cast_ANY_NAT_def cast_QTY_def primitive_typed_def result_simps
      isBigNat_def isBytes_def split: if_splits)

section \<open>Casts are typed\<close>

lemma map_of_filter: "distinct (map fst fs) \<Longrightarrow> map_of fs k = Some y \<Longrightarrow>
  map_of (filter (\<lambda>(k, y). Q y) fs) k = (if Q y then Some y else None)"
proof (induction fs)
  case (Cons e fs)
  then show ?case
    by (cases e) (force simp: map_of_eq_None_iff image_iff)
qed simp

lemma prop_get_filtered:
  assumes "distinct (map fst fs)" "(k, y) \<in> set fs"
  shows "prop_get (VObj (filter (\<lambda>(k, y). y \<noteq> VUndef) fs)) k = y"
  using map_of_filter [OF assms(1) map_of_is_SomeI [OF assms], of "\<lambda>y. y \<noteq> VUndef"]
  by (simp add: prop_get_def own_entries_def)

lemma keyed_entries:
  "(k, y) \<in> set (foldl (\<lambda>o' (k, x).
      if property_key k = js ''__proto__'' then o' else obj_set (property_key k) x o') fs es) \<Longrightarrow>
    (k, y) \<in> set fs \<or> (\<exists>z. (z, y) \<in> set es \<and> k = property_key z)"
proof (induction es arbitrary: fs)
  case (Cons e es)
  have "(k, y) \<in> set (obj_set k' x fs) \<Longrightarrow> (k, y) \<in> set fs \<or> k = k' \<and> y = x" for k' x
    by (induction fs) (auto split: if_splits)
  with Cons show ?case by (cases e) (fastforce split: if_splits)
qed simp

lemma list_all2_set2: "list_all2 P xs ys \<Longrightarrow> y \<in> set ys \<Longrightarrow> \<exists>x\<in>set xs. P x y"
  by (induction rule: list_all2_induct) auto

lemma list_all2_set1: "list_all2 P xs ys \<Longrightarrow> x \<in> set xs \<Longrightarrow> \<exists>y\<in>set ys. P x y"
  by (induction rule: list_all2_induct) auto

lemma object_typed:
  assumes "list_all2 (\<lambda>p r. fst r = fst p \<and> typed env (snd p) (snd r)) props fs" "distinct (map fst props)"
  shows "typed env (ObjectValidator props) (VObj (filter (\<lambda>(k, y). y \<noteq> VUndef) fs))"
proof -
  have keys: "map fst fs = map fst props" using assms(1) by (induction rule: list_all2_induct) auto
  then have sets: "fst ` set fs = fst ` set props" by (metis set_map)
  show ?thesis
  proof (rule t_object)
    fix k c
    assume "(k, c) \<in> set props"
    then obtain y where "(k, y) \<in> set fs" "typed env c y"
      using list_all2_set1 [OF assms(1)] by fastforce
    then show "typed env c (prop_get (VObj (filter (\<lambda>(k, y). y \<noteq> VUndef) fs)) k)"
      using prop_get_filtered [of fs k y] assms(2) keys by simp
  qed (use sets in auto)
qed

text \<open>The properties of an object have different names, as in the source.\<close>

fun distinct_props :: "validator \<Rightarrow> bool" where
  "distinct_props (ArrayValidator item) = distinct_props item"
| "distinct_props (Default d item) = distinct_props item"
| "distinct_props (KeyTaggedUnion un) = list_all (\<lambda>(k, c). distinct_props c) un"
| "distinct_props (NullableValidator item) = distinct_props item"
| "distinct_props (ObjectValidator props) = (distinct (map fst props) \<and> list_all (\<lambda>(k, c). distinct_props c) props)"
| "distinct_props (OneOfValidator k patterns) = list_all (\<lambda>(k, c). distinct_props c) patterns"
| "distinct_props (OptionValidator item) = distinct_props item"
| "distinct_props (RecordValidator key item) = (distinct_props key \<and> distinct_props item)"
| "distinct_props (Sentinel label d item) = distinct_props item"
| "distinct_props (TaggedUnion tagField variants) = list_all (\<lambda>(k, c). distinct_props c) variants"
| "distinct_props (TupleValidator items) = list_all (\<lambda>c. distinct_props c) items"
| "distinct_props c = True"

lemma cast_typed:
  "(\<And>r. distinct_props (env r)) \<Longrightarrow> distinct_props c \<Longrightarrow> returns (cast env n c v) y \<Longrightarrow> typed env c y"
proof (induction env n c v arbitrary: y rule: cast.induct)
  case (17 env n item v)
  then obtain xs ys where ys: "v = VArr xs" "y = VArr ys" "returns (each (\<lambda>i x. vpush (PIndex i) (cast env n item x)) 0 xs) ys"
    by (auto dest!: returns_vbind split: jval.splits)
  have "typed env item z" if "z \<in> set ys" for z
    using list_all2_set2 [OF returns_each [OF ys(3)] that] 17 ys(1) by auto
  then show ?case unfolding ys(2) by (rule t_array)
next
  case (18 env n c v)
  then show ?case by (auto intro: t_constant split: if_splits)
next
  case (19 env n d item v)
  then show ?case by (auto intro!: t_default split: if_splits)
next
  case (20 env n un v)
  then obtain tag c z where c: "getTag un v = Inr tag" "map_of un tag = Some c" "y = VObj [(tag, z)]"
    "returns (cast env n c (prop_get v tag)) z"
    by (auto dest!: returns_vbind split: sum.splits option.splits)
  have "distinct_props c" using 20(3) c(2) by (auto simp: list_all_iff dest: map_of_SomeD)
  then show ?case using 20 c by (auto intro: t_key_tagged)
next
  case (21 env n item v)
  then show ?case by (auto intro!: t_nullable split: if_splits)
next
  case (22 env n props v)
  then obtain fs where fs: "returns (each (\<lambda>_ p. vbind (vpush (PKey (fst p)) (cast env n (snd p) (prop_get v (fst p))))
      (\<lambda>y. vok (fst p, y))) 0 props) fs" "y = VObj (filter (\<lambda>(k, y). y \<noteq> VUndef) fs)" "is_object v"
    by (auto dest!: returns_vbind split: if_splits)
  have "typed env (snd p) z" if "p \<in> set props" "returns (cast env n (snd p) (prop_get v (fst p))) z" for p z
    using 22 that fs(3) by (auto simp: list_all_iff)
  then have "list_all2 (\<lambda>p r. fst r = fst p \<and> typed env (snd p) (snd r)) props fs"
    using returns_each [OF fs(1)] by (auto elim!: list.rel_mono_strong dest!: returns_vbind)
  then show ?case using object_typed 22 fs(2) by simp
next
  case (23 env n k patterns v)
  then obtain p where p: "p \<in> set patterns" "returns (cast env n (snd p) v) y" by (auto dest!: returns_one_of)
  then have "typed env (snd p) y" using 23 by (auto simp: list_all_iff)
  then show ?case using p(1) by (cases p) (auto intro: t_one_of)
next
  case (24 env n item v)
  then show ?case by (auto intro!: t_option split: if_splits)
next
  case (25 env n key item v)
  then obtain es where es: "returns (each (\<lambda>_ p. vbind (vpush (PKey (fst p)) (cast env n key (VStr (fst p)))) (\<lambda>k.
      vbind (vpush (PKey (fst p)) (cast env n item (snd p))) (\<lambda>y. vok (k, y)))) 0 (own_entries v)) es" "y = keyed es" "is_object v"
    by (auto dest!: returns_vbind split: if_splits)
  have e: "typed env key k \<and> typed env item x" if "(k, x) \<in> set es" for k x
    using list_all2_set2 [OF returns_each [OF es(1)] that] 25 es(3) by (auto dest!: returns_vbind)
  show ?case
    unfolding es(2) keyed_def by (rule t_record) (use e in \<open>auto dest!: keyed_entries\<close>)
next
  case (26 env n label d item v)
  then show ?case by (auto intro!: t_sentinel split: if_splits)
next
  case (27 env n tagField variants v)
  then obtain tag c z where c: "getVariant tagField variants v = Inr (Inr tag)" "map_of variants tag = Some c"
    "y = VObj (spread [(tagField, prop_get v tagField)] z)" "returns (cast env n c v) z"
    by (auto dest!: returns_vbind split: sum.splits option.splits)
  have "distinct_props c" using 27(3) c(2) by (auto simp: list_all_iff dest: map_of_SomeD)
  then have "typed env c z" using 27 c by blast
  moreover have "tag = property_key (prop_get v tagField)"
    using c(1) by (auto simp: getVariant_def Let_def split: if_splits)
  ultimately show ?case using c(2,3) by (auto intro: t_tagged)
next
  case (28 env n items v)
  then obtain xs ys where ys: "v = VArr xs" "length xs = length items" "y = VArr ys"
    "returns (each (\<lambda>i p. vpush (PIndex i) (cast env n (fst p) (snd p))) 0 (zip items xs)) ys"
    by (auto dest!: returns_vbind split: jval.splits if_splits)
  have "typed env (fst p) z" if "p \<in> set (zip items xs)" "returns (cast env n (fst p) (snd p)) z" for p z
  proof -
    have "distinct_props (fst p)" using 28(3) that(1) by (cases p) (auto simp: list_all_iff dest: set_zip_leftD)
    then show ?thesis using 28(1) [of xs p z] 28(2) ys that by auto
  qed
  then have "list_all2 (\<lambda>p y. typed env (fst p) y) (zip items xs) ys"
    using returns_each [OF ys(4)] by (auto elim!: list.rel_mono_strong)
  then have "list_all2 (typed env) items ys" using ys(2) by (auto simp: list_all2_conv_all_nth)
  then show ?case unfolding ys(3) by (rule t_tuple)
next
  case (29 env n r v)
  then show ?case by (auto intro!: t_ref split: nat.splits)
qed (auto intro!: t_primitive primitive_casts primitive_casts_int primitive_casts_bytes primitive_casts_big
    simp: primitive_typed_def [of ANY])

end
