(* ===== verification/Validation_Paths.thy ===== *)
theory Validation_Paths
  imports Validation_Laws
begin

text \<open>
  Where a failure points, when the recursion through references ends, and the properties of validation.
\<close>

section \<open>Failures lead to the value they report\<close>

definition fails :: "'a check \<Rightarrow> failure \<Rightarrow> bool" where
  "fails m f \<longleftrightarrow> (\<exists>\<sigma> \<sigma>'. m \<sigma> = Inr (Inl f, \<sigma>'))"

lemma fails_simps [simp]:
  "\<not> fails (vok x) f" "fails (vfail g) f \<longleftrightarrow> f = g" "\<not> fails (vthrow e) f"
  "fails (vlift r) f \<longleftrightarrow> r = Inl f" "fails (vrun q) f \<longleftrightarrow> q = Inr (Inl f)"
  "fails (vpush p m) f \<longleftrightarrow> (\<exists>g. fails m g \<and> f = push_path p g)"
  by (auto simp: fails_def vok_def vfail_def vthrow_def vlift_def vrun_def check_eqs result_simps)

lemma fails_vbind: "fails (vbind m g) f \<Longrightarrow> fails m f \<or> (\<exists>x. returns m x \<and> fails (g x) f)"
  unfolding fails_def returns_def check_eqs by blast

lemma fails_each: "fails (each g i xs) f \<Longrightarrow> \<exists>j<length xs. fails (g (i + j) (xs ! j)) f"
proof (induction xs arbitrary: i)
  case (Cons x xs)
  then consider "fails (g i x) f" | "fails (each g (Suc i) xs) f" by (auto dest!: fails_vbind)
  then show ?case
  proof cases
    case 2
    then obtain j where "j < length xs" "fails (g (Suc i + j) (xs ! j)) f" using Cons.IH by blast
    then show ?thesis by (intro exI [of _ "Suc j"]) simp
  qed (auto intro: exI [of _ 0])
qed simp

lemma first_match_no_failure: "first_match k f i ps \<sigma> \<noteq> Inr (Inl e, \<sigma>')"
  by (induction ps arbitrary: i \<sigma>) (auto simp: vok_def split: sum.splits prod.splits)

lemma one_of_fail:
  "one_of k ns v m \<sigma> = Inr (Inl e, \<sigma>') \<longleftrightarrow> m \<sigma> = Inr (Inl e, \<sigma>') \<or>
    (\<exists>\<sigma>1. m \<sigma> = Inr (Inr None, \<sigma>1) \<and> e = OneOfFailure [] v (map (\<sigma>1 k) [0..<length ns]) ns \<and> \<sigma>' = clearErrors k \<sigma>1)"
  by (auto simp: one_of_def split: sum.splits prod.splits option.splits)

lemma fails_one_of: "fails (one_of k ns v (first_match k g i ps)) f \<Longrightarrow> \<exists>es. f = OneOfFailure [] v es ns"
  unfolding fails_def one_of_fail using first_match_no_failure by blast

text \<open>The value that a path reaches.\<close>

fun follow :: "jval \<Rightarrow> path_item list \<Rightarrow> jval" where
  "follow v [] = v"
| "follow v (PKey k # p) = follow (prop_get v k) p"
| "follow (VArr xs) (PIndex i # p) = (if i < length xs then follow (xs ! i) p else VUndef)"
| "follow v (PIndex i # p) = VUndef"

definition leads :: "jval \<Rightarrow> failure \<Rightarrow> bool" where
  "leads v f \<longleftrightarrow> follow v (rev (vf_path f)) = vf_value f"

lemma vf_push [simp]: "vf_path (push_path p f) = vf_path f @ [p]" "vf_value (push_path p f) = vf_value f"
  by (cases f; simp)+

lemma leads_key: "leads (prop_get v k) f \<Longrightarrow> leads v (push_path (PKey k) f)"
  by (simp add: leads_def)

lemma leads_index: "i < length xs \<Longrightarrow> leads (xs ! i) f \<Longrightarrow> leads (VArr xs) (push_path (PIndex i) f)"
  by (simp add: leads_def)

lemma leads_here [simp]: "leads v (Failure [] v m)" "leads v (mismatch v t)" "leads v (OneOfFailure [] v es ns)"
  by (simp_all add: leads_def mismatch_def)

lemma primitive_leads:
  "cast_ANY_OBJECT v = Inl f \<Longrightarrow> leads v f" "cast_STRING v = Inl f \<Longrightarrow> leads v f" "cast_INT v = Inl f \<Longrightarrow> leads v f"
  "cast_NAT v = Inl f \<Longrightarrow> leads v f" "cast_B58 v = Inl f \<Longrightarrow> leads v f" "cast_B64 v = Inl f \<Longrightarrow> leads v f"
  "cast_BOOLEAN v = Inl f \<Longrightarrow> leads v f" "cast_BYTES v = Inl f \<Longrightarrow> leads v f"
  "cast_STRING_NAT v = Inl f \<Longrightarrow> leads v f" "cast_STRING_FLOAT v = Inl f \<Longrightarrow> leads v f" "cast_SMALL_QTY v = Inl f \<Longrightarrow> leads v f"
  "cast_ANY_INT v = Inr (Inl f) \<Longrightarrow> leads v f" "cast_BIG_NAT v = Inr (Inl f) \<Longrightarrow> leads v f"
  "cast_ANY_NAT v = Inr (Inl f) \<Longrightarrow> leads v f" "cast_QTY v = Inr (Inl f) \<Longrightarrow> leads v f"
  by (auto simp: primitive_defs cast_STRING_NAT_def cast_STRING_FLOAT_def cast_SMALL_QTY_def parsed_int_def result_simps
      split: if_splits option.splits)

text \<open>Values of the language have every property once; the names of array elements are their indexes.\<close>

fun wf_value :: "jval \<Rightarrow> bool" where
  "wf_value (VArr xs) = list_all (\<lambda>x. wf_value x) xs"
| "wf_value (VObj fs) = (distinct (map fst fs) \<and> list_all (\<lambda>(k, x). wf_value x) fs)"
| "wf_value v = True"

lemma decimal_inj: "decimal m = decimal n \<Longrightarrow> m = n"
proof -
  assume e: "decimal m = decimal n"
  have "map hex_digit (digits 10 m) = map hex_digit (digits 10 n)"
    using e by (simp add: decimal_def toString_radix_def)
  moreover have "inj_on hex_digit {d. d < 10}" by (rule inj_onI) (simp add: hex_digit_def)
  moreover have "set (digits 10 m) \<union> set (digits 10 n) \<subseteq> {d. d < 10}" using digits_bounded [of 10] by auto
  ultimately have "digits 10 m = digits 10 n" by (meson inj_on_subset map_inj_on)
  then have "horner 10 (digits 10 m) = horner 10 (digits 10 n)" by simp
  then show ?thesis by (simp add: horner_digits)
qed

lemma own_entries_distinct: "wf_value v \<Longrightarrow> distinct (map fst (own_entries v))"
  by (cases v) (auto simp: own_entries_def distinct_map inj_on_def dest: decimal_inj)

lemma own_entries_get: "wf_value v \<Longrightarrow> (k, x) \<in> set (own_entries v) \<Longrightarrow> prop_get v k = x"
  using map_of_is_SomeI [OF own_entries_distinct] by (simp add: prop_get_def)

lemma own_entries_wf: "wf_value v \<Longrightarrow> (k, x) \<in> set (own_entries v) \<Longrightarrow> wf_value x"
  by (cases v) (auto simp: own_entries_def list_all_iff dest: set_zip_rightD)

lemma prop_get_wf: "wf_value v \<Longrightarrow> wf_value (prop_get v k)"
  by (cases "map_of (own_entries v) k") (auto simp: prop_get_def split: jval.splits dest: map_of_SomeD own_entries_wf)

text \<open>A record reports a key of the wrong form under its own path: the keys are any texts here.\<close>

fun plain_keys :: "validator \<Rightarrow> bool" where
  "plain_keys (ArrayValidator item) = plain_keys item"
| "plain_keys (Default d item) = plain_keys item"
| "plain_keys (KeyTaggedUnion un) = list_all (\<lambda>(k, c). plain_keys c) un"
| "plain_keys (NullableValidator item) = plain_keys item"
| "plain_keys (ObjectValidator props) = list_all (\<lambda>(k, c). plain_keys c) props"
| "plain_keys (OneOfValidator k patterns) = list_all (\<lambda>(k, c). plain_keys c) patterns"
| "plain_keys (OptionValidator item) = plain_keys item"
| "plain_keys (RecordValidator key item) = ((key = ANY \<or> key = STRING) \<and> plain_keys item)"
| "plain_keys (Sentinel label d item) = plain_keys item"
| "plain_keys (TaggedUnion tagField variants) = list_all (\<lambda>(k, c). plain_keys c) variants"
| "plain_keys (TupleValidator items) = list_all (\<lambda>c. plain_keys c) items"
| "plain_keys c = True"

lemma plain_variant: "list_all (\<lambda>(k, c). P c) un \<Longrightarrow> map_of un tag = Some c \<Longrightarrow> P c"
  by (auto simp: list_all_iff dest: map_of_SomeD)

lemma failure_leads:
  "(\<And>r. plain_keys (env r)) \<Longrightarrow> plain_keys c \<Longrightarrow> wf_value v \<Longrightarrow> fails (cast env n c v) f \<Longrightarrow> leads v f"
proof (induction env n c v arbitrary: f rule: cast.induct)
  case (17 env n item v)
  show ?case
  proof (cases v)
    case (VArr xs)
    with 17 obtain j g where "j < length xs" "fails (cast env n item (xs ! j)) g" "f = push_path (PIndex j) g"
      by (auto dest!: fails_vbind fails_each)
    with 17 VArr show ?thesis by (auto intro!: leads_index simp: list_all_iff)
  qed (use 17 in auto)
next
  case (20 env n un v)
  show ?case
  proof (cases "getTag un v")
    case (Inl e)
    with 20(5) show ?thesis by (auto simp: getTag_def split: if_splits list.splits)
  next
    case (Inr tag)
    with 20(5) obtain c g where c: "map_of un tag = Some c" "fails (cast env n c (prop_get v tag)) g" "f = push_path (PKey tag) g"
      by (auto dest!: fails_vbind split: option.splits)
    have "plain_keys c" using plain_variant [of plain_keys un tag c] 20(3) c(1) by simp
    then have "leads (prop_get v tag) g" using 20(1) Inr c(1,2) 20(2,4) prop_get_wf by blast
    then show ?thesis unfolding c(3) by (rule leads_key)
  qed
next
  case (22 env n props v)
  show ?case
  proof (cases "is_object v")
    case True
    with 22(5) obtain j g where j: "j < length props" "fails (cast env n (snd (props ! j)) (prop_get v (fst (props ! j)))) g"
      "f = push_path (PKey (fst (props ! j))) g"
      by (auto dest!: fails_vbind fails_each)
    have "plain_keys (snd (props ! j))" using 22(3) j(1) by (auto simp: list_all_length case_prod_beta)
    then have "leads (prop_get v (fst (props ! j))) g"
      using 22(1) [of "props ! j"] 22(2,4) True j prop_get_wf by simp
    then show ?thesis unfolding j(3) by (rule leads_key)
  qed (use 22(5) in auto)
next
  case (23 env n k patterns v)
  then show ?case by (auto dest!: fails_one_of)
next
  case (25 env n key item v)
  show ?case
  proof (cases "is_object v")
    case True
    with 25(6) obtain j where j: "j < length (own_entries v)"
      "fails (vbind (vpush (PKey (fst (own_entries v ! j))) (cast env n key (VStr (fst (own_entries v ! j))))) (\<lambda>k.
         vbind (vpush (PKey (fst (own_entries v ! j))) (cast env n item (snd (own_entries v ! j)))) (\<lambda>y. vok (k, y)))) f"
      by (auto dest!: fails_vbind [of "each _ _ _"] fails_each)
    have "\<not> fails (cast env n key (VStr t)) g" for t g
      using 25(4) by (auto simp: cast_STRING_def is_string_def)
    with j(2) obtain g where g: "fails (cast env n item (snd (own_entries v ! j))) g"
      "f = push_path (PKey (fst (own_entries v ! j))) g"
      by (auto dest!: fails_vbind)
    have m: "(fst (own_entries v ! j), snd (own_entries v ! j)) \<in> set (own_entries v)" using j(1) by simp
    have "leads (snd (own_entries v ! j)) g"
      using 25(2) [of "own_entries v ! j"] 25(3-5) True j(1) g(1) own_entries_wf [OF 25(5) m] by auto
    then show ?thesis unfolding g(2) using own_entries_get [OF 25(5) m] by (auto intro: leads_key)
  qed (use 25(6) in auto)
next
  case (27 env n tagField variants v)
  show ?case
  proof (cases "\<exists>tag. getVariant tagField variants v = Inr (Inr tag)")
    case False
    with 27(5) show ?thesis by (auto simp: getVariant_def Let_def leads_def mismatch_def split: if_splits)
  next
    case True
    then obtain tag where Inr: "getVariant tagField variants v = Inr (Inr tag)" by blast
    with 27(5) obtain c where c: "map_of variants tag = Some c" "fails (cast env n c v) f"
      by (auto dest!: fails_vbind split: option.splits)
    have "plain_keys c" using plain_variant [of plain_keys variants tag c] 27(3) c(1) by simp
    then show ?thesis using 27(1) Inr c(1,2) 27(2,4) by blast
  qed
next
  case (28 env n items v)
  show ?case
  proof (cases "\<exists>xs. v = VArr xs \<and> length xs = length items")
    case True
    then obtain xs where xs: "v = VArr xs" "length xs = length items" by blast
    with 28(5) obtain j g where j: "j < length items" "fails (cast env n (items ! j) (xs ! j)) g" "f = push_path (PIndex j) g"
      by (auto dest!: fails_vbind fails_each)
    then have "(items ! j, xs ! j) \<in> set (zip items xs)" using xs(2) by (auto simp: set_zip)
    then have "leads (xs ! j) g" using 28(1) [of xs "(items ! j, xs ! j)"] 28(2-4) xs j by (auto simp: list_all_iff)
    then show ?thesis unfolding xs(1) j(3) using j(1) xs(2) by (auto intro: leads_index)
  qed (use 28(5) in \<open>auto split: jval.splits if_splits\<close>)
next
  case (29 env n r v)
  then show ?case by (auto split: nat.splits)
qed (auto simp: primitive_leads split: if_splits)

section \<open>The recursion through references\<close>

text \<open>The references that a validator follows without entering a container, and the size of a value.\<close>

fun direct :: "validator \<Rightarrow> nat list" where
  "direct (RefValidator r) = [r]"
| "direct (Default d item) = direct item"
| "direct (NullableValidator item) = direct item"
| "direct (OptionValidator item) = direct item"
| "direct (Sentinel label d item) = direct item"
| "direct (OneOfValidator k patterns) = concat (map (\<lambda>(name, c). direct c) patterns)"
| "direct (TaggedUnion tagField variants) = concat (map (\<lambda>(name, c). direct c) variants)"
| "direct c = []"

fun weight :: "jval \<Rightarrow> nat" where
  "weight (VArr xs) = Suc (sum_list (map weight xs))"
| "weight (VObj fs) = Suc (sum_list (map (\<lambda>(k, x). weight x) fs))"
| "weight v = 0"

lemma weight_item: "x \<in> set xs \<Longrightarrow> weight x < weight (VArr xs)"
  using member_le_sum_list [of "weight x" "map weight xs"] by simp

lemma weight_entry: "(k, x) \<in> set (own_entries v) \<Longrightarrow> weight x < weight v"
proof (cases v)
  case (VArr xs)
  assume "(k, x) \<in> set (own_entries v)"
  then show ?thesis using VArr weight_item [of x xs] by (auto simp: own_entries_def dest: set_zip_rightD)
next
  case (VObj fs)
  assume "(k, x) \<in> set (own_entries v)"
  then have "weight x \<in> set (map (\<lambda>(k, x). weight x) fs)" using VObj by (force simp: own_entries_def)
  from member_le_sum_list [OF this] show ?thesis using VObj by simp
qed (auto simp: own_entries_def)

lemma weight_prop: "is_object v \<Longrightarrow> weight (prop_get v k) < weight v"
  by (cases "map_of (own_entries v) k")
    (auto simp: prop_get_def is_object_def split: jval.splits dest!: map_of_SomeD weight_entry)

definition throws :: "'a check \<Rightarrow> js_error \<Rightarrow> bool" where
  "throws m e \<longleftrightarrow> (\<exists>\<sigma>. m \<sigma> = Inl e)"

lemma throws_at:
  "vpush p m \<sigma> = Inl e \<longleftrightarrow> m \<sigma> = Inl e"
  "vbind m g \<sigma> = Inl e \<longleftrightarrow> m \<sigma> = Inl e \<or> (\<exists>y \<sigma>1. m \<sigma> = Inr (Inr y, \<sigma>1) \<and> g y \<sigma>1 = Inl e)"
  "one_of k ns v m' \<sigma> = Inl e \<longleftrightarrow> m' \<sigma> = Inl e"
  by (auto simp: vpush_def vbind_def one_of_def split: sum.splits prod.splits option.splits)

lemma throws_simps [simp]:
  "\<not> throws (vok y) e" "\<not> throws (vfail f) e" "throws (vthrow e') e \<longleftrightarrow> e = e'" "\<not> throws (vlift r) e"
  "throws (vrun q) e \<longleftrightarrow> q = Inl e" "throws (vpush p m) e \<longleftrightarrow> throws m e"
  by (auto simp: throws_def throws_at vok_def vfail_def vthrow_def vlift_def vrun_def result_simps split: sum.splits)

lemma throws_vbind: "throws (vbind m g) e \<Longrightarrow> throws m e \<or> (\<exists>y. throws (g y) e)"
  unfolding throws_def throws_at by blast

lemma throws_each: "throws (each g i xs) e \<Longrightarrow> \<exists>j. \<exists>x\<in>set xs. throws (g j x) e"
proof (induction xs arbitrary: i)
  case (Cons x xs)
  from Cons.prems have "throws (g i x) e \<or> throws (each g (Suc i) xs) e" by (auto dest!: throws_vbind)
  then show ?case using Cons.IH [of "Suc i"] by (elim disjE) (blast intro: list.set_intros)+
qed simp

lemma throws_one_of: "throws (one_of k ns v (first_match k g i ps)) e \<Longrightarrow> \<exists>p\<in>set ps. throws (g p) e"
proof -
  have *: "first_match k g i ps \<sigma> = Inl e \<Longrightarrow> \<exists>p\<in>set ps. throws (g p) e" for i \<sigma>
  proof (induction ps arbitrary: i \<sigma>)
    case (Cons p ps)
    then show ?case by (cases "g p \<sigma>") (auto simp: throws_def split: sum.splits prod.splits)
  qed (simp add: vok_def)
  assume "throws (one_of k ns v (first_match k g i ps)) e"
  then show ?thesis unfolding throws_def throws_at using * unfolding throws_def by blast
qed

lemma primitive_throws:
  "cast_ANY_INT v = Inl e \<Longrightarrow> e = SyntaxError" "cast_BIG_NAT v = Inl e \<Longrightarrow> e = SyntaxError"
  "cast_ANY_NAT v = Inl e \<Longrightarrow> e = SyntaxError" "cast_QTY v = Inl e \<Longrightarrow> e = SyntaxError"
  by (auto simp: primitive_defs to_BigInt_def of_option_def result_simps split: if_splits jval.splits option.splits)

text \<open>Every reference of the environment leads to one of smaller rank unless a container is entered.\<close>

definition guarded :: "(nat \<Rightarrow> nat) \<Rightarrow> nat \<Rightarrow> (nat \<Rightarrow> validator) \<Rightarrow> bool" where
  "guarded rank R env \<longleftrightarrow> (\<forall>r. rank r < R \<and> (\<forall>r'\<in>set (direct (env r)). rank r' < rank r))"

text \<open>A name of \<open>Object.prototype\<close> within a value: a key, or a property or an item that reads as one.\<close>

fun inherited_name :: "jval \<Rightarrow> bool" where
  "inherited_name (VArr xs) = list_ex (\<lambda>x. property_key x \<in> set object_prototype \<or> inherited_name x) xs"
| "inherited_name (VObj fs) =
     list_ex (\<lambda>(k, x). k \<in> set object_prototype \<or> property_key x \<in> set object_prototype \<or> inherited_name x) fs"
| "inherited_name v = False"

lemma toString_radix_not_inherited: "toString_radix 10 i \<notin> set object_prototype"
proof -
  have "digits 10 m \<noteq> [] \<and> hd (digits 10 m) < 10" for m
    using digits_bounded [of 10 "hd (digits 10 m)" m] by simp
  from this [of "nat i"] have "hd (toString_radix 10 i) < 65"
    by (simp add: toString_radix_def hex_digit_def hd_map)
  then show ?thesis by (auto simp: object_prototype_def js_def)
qed

lemma inherited_entry: "(k, x) \<in> set (own_entries v) \<Longrightarrow> property_key x \<in> set object_prototype \<or> inherited_name x \<Longrightarrow> inherited_name v"
  by (cases v) (auto simp: own_entries_def list_ex_iff dest: set_zip_rightD)

lemma inherited_item: "x \<in> set xs \<Longrightarrow> inherited_name x \<Longrightarrow> inherited_name (VArr xs)"
  by (auto simp: list_ex_iff)

lemma inherited_key: "(k, x) \<in> set (own_entries v) \<Longrightarrow> k \<in> set object_prototype \<Longrightarrow> inherited_name v"
  by (cases v) (auto simp: own_entries_def list_ex_iff decimal_def toString_radix_not_inherited dest!: set_zip_leftD)

lemma inherited_prop: "property_key (prop_get v k) \<in> set object_prototype \<or> inherited_name (prop_get v k) \<Longrightarrow> inherited_name v"
proof (cases "map_of (own_entries v) k")
  case None
  have "js ''undefined'' \<notin> set object_prototype" by (simp add: object_prototype_def js_def)
  moreover assume "property_key (prop_get v k) \<in> set object_prototype \<or> inherited_name (prop_get v k)"
  ultimately show ?thesis
    using None by (auto simp: prop_get_def toString_radix_not_inherited split: jval.splits if_splits)
qed (auto simp: prop_get_def dest!: map_of_SomeD inherited_entry)

lemma textless_inherited: "textless v \<Longrightarrow> inherited_name v"
proof (induction v rule: textless.induct)
  case (1 fs)
  then show ?case by (force simp: list_ex_iff object_prototype_def dest: map_of_SomeD)
qed (auto simp: list_ex_iff)

lemma getTag_known: "getTag un v = Inr tag \<Longrightarrow> is_object v \<and> (map_of un tag \<noteq> None \<or> inherited_name v)"
proof -
  assume t: "getTag un v = Inr tag"
  then have "filter (has_member un) (map fst (own_entries v)) = [tag]"
    by (auto simp: getTag_def split: if_splits list.splits)
  then have "tag \<in> set (filter (has_member un) (map fst (own_entries v)))" by (simp only: list.set_intros)
  then show ?thesis using t inherited_key by (auto simp: getTag_def has_member_def split: if_splits)
qed

lemma getVariant_known: "getVariant tagField variants v = Inr (Inr tag) \<Longrightarrow> map_of variants tag \<noteq> None \<or> inherited_name v"
  "getVariant tagField variants v = Inl e \<Longrightarrow> e = TypeError \<and> inherited_name v"
  using inherited_prop [of v tagField] textless_inherited [of "prop_get v tagField"]
  by (auto simp: getVariant_def has_member_def Let_def split: if_splits)

lemma enough_stack: "R + R * weight x \<le> m" if "weight x < weight v" "b + R * weight v \<le> m" for R m b :: nat
proof -
  have "R * Suc (weight x) \<le> R * weight v" using that(1) by (intro mult_le_mono2) simp
  with that(2) show ?thesis by simp
qed

lemma cast_throws:
  assumes g: "guarded rank R env"
  shows "(\<And>r. r \<in> set (direct c) \<Longrightarrow> rank r < b) \<Longrightarrow> b \<le> R \<Longrightarrow> b + R * weight v \<le> n \<Longrightarrow> throws (cast env n c v) e \<Longrightarrow>
    e = SyntaxError \<or> e = TypeError \<and> inherited_name v"
  using g
proof (induction env n c v arbitrary: b rule: cast.induct)
  case (17 env n item v)
  have R: "rank r < R" for r using 17(6) by (simp add: guarded_def)
  show ?case
  proof (cases v)
    case (VArr xs)
    with 17(5) obtain x where x: "x \<in> set xs" "throws (cast env n item x) e" by (auto dest!: throws_vbind throws_each)
    show ?thesis
      using 17(1) [OF VArr x(1) R order_refl _ x(2) 17(6)] enough_stack [OF weight_item [OF x(1)], of b R n] 17(4) VArr
        inherited_item [OF x(1)] by auto
  qed (use 17(5) in auto)
next
  case (20 env n un v)
  have R: "rank r < R" for r using 20(6) by (simp add: guarded_def)
  show ?case
  proof (cases "getTag un v")
    case (Inr tag)
    note known = getTag_known [OF Inr]
    show ?thesis
    proof (cases "map_of un tag")
      case None
      with Inr 20(5) known show ?thesis by auto
    next
      case (Some c)
      with Inr 20(5) have t: "throws (cast env n c (prop_get v tag)) e" by (auto dest!: throws_vbind)
      show ?thesis
        using 20(1) [OF Inr Some R order_refl _ t 20(6)] enough_stack [OF weight_prop [of v tag], of b R n] 20(4) known
          inherited_prop [of v tag] by auto
    qed
  qed (use 20(5) in auto)
next
  case (22 env n props v)
  have R: "rank r < R" for r using 22(6) by (simp add: guarded_def)
  show ?case
  proof (cases "is_object v")
    case True
    with 22(5) obtain p where p: "p \<in> set props" "throws (cast env n (snd p) (prop_get v (fst p))) e"
      by (auto dest!: throws_vbind throws_each)
    show ?thesis
      using 22(1) [OF _ p(1) R order_refl _ p(2) 22(6)] enough_stack [OF weight_prop [OF True], of b R n] 22(4) True
        inherited_prop [of v "fst p"] by auto
  qed (use 22(5) in auto)
next
  case (23 env n k patterns v)
  then obtain p where p: "p \<in> set patterns" "throws (cast env n (snd p) v) e" by (auto dest!: throws_one_of)
  have "rank r < b" if "r \<in> set (direct (snd p))" for r
    using 23(2) [of r] p(1) that by (cases p) auto
  then show ?case using 23(1) [OF p(1) _ 23(3,4) p(2) 23(6)] by blast
next
  case (25 env n key item v)
  have R: "rank r < R" for r using 25(7) by (simp add: guarded_def)
  show ?case
  proof (cases "is_object v")
    case True
    with 25(6) obtain p where p: "p \<in> set (own_entries v)"
      "throws (cast env n key (VStr (fst p))) e \<or> throws (cast env n item (snd p)) e"
      by (auto dest!: throws_vbind throws_each)
    have w: "weight (snd p) < weight v" "weight (VStr (fst p)) < weight v"
      using weight_entry [of "fst p" "snd p" v] p(1) by simp_all
    show ?thesis
      using p(2) 25(1) [OF _ p(1) R order_refl _ _ 25(7)] 25(2) [OF _ p(1) R order_refl _ _ 25(7)] True
        enough_stack [OF w(1), of b R n] enough_stack [OF w(2), of b R n] 25(5)
        inherited_entry [of "fst p" "snd p" v] p(1) by auto
  qed (use 25(6) in auto)
next
  case (27 env n tagField variants v)
  show ?case
  proof (cases "\<exists>tag c. getVariant tagField variants v = Inr (Inr tag) \<and> map_of variants tag = Some c")
    case True
    then obtain tag c where Inr: "getVariant tagField variants v = Inr (Inr tag)" and c: "map_of variants tag = Some c" by blast
    with 27(5) have t: "throws (cast env n c v) e" by (auto dest!: throws_vbind)
    have "rank r < b" if "r \<in> set (direct c)" for r
      using 27(2) [of r] map_of_SomeD [OF c] that by auto
    then show ?thesis using 27(1) [OF Inr c _ 27(3,4) t 27(6)] by blast
  next
    case False
    with 27(5) getVariant_known [of tagField variants v] show ?thesis by (auto split: sum.splits option.splits)
  qed
next
  case (28 env n items v)
  have R: "rank r < R" for r using 28(6) by (simp add: guarded_def)
  show ?case
  proof (cases "\<exists>xs. v = VArr xs \<and> length xs = length items")
    case True
    then obtain xs where xs: "v = VArr xs" "length xs = length items" by blast
    with 28(5) obtain p where p: "p \<in> set (zip items xs)" "throws (cast env n (fst p) (snd p)) e"
      by (auto dest!: throws_vbind throws_each)
    have "snd p \<in> set xs" using set_zip_rightD [of "fst p" "snd p"] p(1) by simp
    then show ?thesis
      using 28(1) [OF xs(1) _ p(1) R order_refl _ p(2) 28(6)] enough_stack [OF weight_item, of "snd p" xs b R n] 28(4) xs
        inherited_item [of "snd p" xs] by auto
  qed (use 28(5) in \<open>auto split: jval.splits if_splits\<close>)
next
  case (29 env n r v)
  have r: "rank r < b" using 29(2) by simp
  then obtain m where m: "n = Suc m" using 29(4) by (cases n) auto
  have "rank r' < rank r" if "r' \<in> set (direct (env r))" for r' using 29(6) that by (simp add: guarded_def)
  moreover have "rank r + R * weight v \<le> m" using r 29(4) m by simp
  ultimately show ?case using 29(1) [OF m, of "rank r"] r 29(3,5,6) m by auto
qed (auto dest: primitive_throws split: if_splits)

end
