(* ===== verification/Validation_Props.thy ===== *)
theory Validation_Props
  imports Validation_Paths
begin

text \<open>
  What a caller of the validators may rely on, and the three places where the validators do not do what they
  promise: a hexadecimal quantity without digits, natural numbers as texts, and a recursive \<open>oneOf\<close>.
\<close>

section \<open>The promises\<close>

text \<open>C36: What \<open>cast\<close> returns has the type of its validator: every property of an object, item of an array, entry of
  a record and variant of a union has been converted by the validator of its place, also through recursive
  references, and a safe integer, natural number or lower case hexadecimal text is one.\<close>

theorem cast_has_type:
  assumes "\<And>r. distinct_props (env r)" and "distinct_props c" and "cast env n c v \<sigma> = Inr (Inr y, \<sigma>')"
  shows "typed env c y"
  using assms(1,2) returnsI [of "cast env n c v", OF assms(3)] by (rule cast_typed)

definition point_schema :: validator where
  "point_schema = ObjectValidator [(js ''x'', NAT), (js ''tags'', ArrayValidator BYTES)]"

definition point :: jval where
  "point = VObj [(js ''tags'', VArr [VStr (js ''0xAB'')]), (js ''x'', VNum (NInt 3))]"

lemma point_cast:
  "cast (\<lambda>_. ANY) 0 point_schema point no_errs =
     Inr (Inr (VObj [(js ''x'', VNum (NInt 3)), (js ''tags'', VArr [VStr (js ''0xab'')])]), no_errs)"
  by (simp add: point_schema_def point_def js_def is_object_def prop_get_def own_entries_def vbind_def vpush_def vok_def vlift_def
      cast_NAT_def isSafeInteger_def safe_int_def int_of_def cast_BYTES_def isBytes_def is_string_def str_of_def lower_ascii_def
      hex_char_value_def)

lemma cast_has_type_witness:
  "typed (\<lambda>_. ANY) point_schema (VObj [(js ''x'', VNum (NInt 3)), (js ''tags'', VArr [VStr (js ''0xab'')])])"
  by (rule cast_has_type [OF _ _ point_cast]) (simp_all add: point_schema_def js_def)

text \<open>C37: \<open>validate\<close> agrees with \<open>cast\<close>: whenever \<open>cast\<close> ends without throwing, \<open>validate\<close> accepts the
  values that \<open>cast\<close> converts and returns for the others the same failure, with the same path, value and message,
  and leaves the errors of the \<open>oneOf\<close> instances in the same state.\<close>

theorem validate_agrees_with_cast:
  assumes "cast env n c v \<sigma> = Inr (r, \<sigma>')"
  shows "validate env n c v \<sigma> = Inr (map_sum id (\<lambda>_. ()) r, \<sigma>')"
  using agreesD [OF cast_agrees] assms by (cases r) force+

lemma validate_agrees_with_cast_witness: "validate (\<lambda>_. ANY) 0 point_schema point no_errs = Inr (Inr (), no_errs)"
  using validate_agrees_with_cast [OF point_cast] by simp

text \<open>C38: The path of a failure leads to the value that it reports: following the keys and indexes from the
  outermost to the innermost, as the text of the failure prints them, reaches in the given value what the failure
  calls \<open>{value}\<close>. Schemas with a record whose keys are validated (\<open>record(BYTES, ...)\<close>) are left out by \<open>plain_keys\<close>:
  such a record reports a wrong key as the value of the failure under that key, where the path leads to the value of
  the entry (\<open>record_key_path\<close>). No object of the value has a property twice (\<open>wf_value\<close>), as in the language.\<close>

theorem failure_path_leads_to_value:
  assumes "\<And>r. plain_keys (env r)" and "plain_keys c" and "wf_value v" and "cast env n c v \<sigma> = Inr (Inl f, \<sigma>')"
  shows "follow v (rev (vf_path f)) = vf_value f"
proof -
  have "fails (cast env n c v) f" using assms(4) unfolding fails_def by blast
  with assms(1-3) have "leads v f" by (rule failure_leads)
  then show ?thesis by (simp only: leads_def)
qed

lemma point_array_cast:
  "cast (\<lambda>_. ANY) 0 (ArrayValidator point_schema) (VArr [point, VObj [(js ''x'', VBool True)]]) no_errs =
     Inr (Inl (Failure [PKey (js ''x''), PIndex 1] (VBool True) (js ''{value} is not a safe natural number'')), no_errs)"
  using point_cast
  by (simp add: point_schema_def is_object_def prop_get_def own_entries_def vbind_def vpush_def vok_def vlift_def
      cast_NAT_def isSafeInteger_def mismatch_def)

lemma failure_path_leads_to_value_witness:
  "follow (VArr [point, VObj [(js ''x'', VBool True)]]) [PIndex 1, PKey (js ''x'')] = VBool True"
  using failure_path_leads_to_value [OF _ _ _ point_array_cast] by (simp add: point_schema_def point_def js_def)

text \<open>A wrong key of a record is reported under a path that leads to the value of the entry.\<close>

lemma record_key_path:
  "cast env n (RecordValidator BYTES NAT) (VObj [(js ''k'', VNum (NInt 1))]) \<sigma> =
     Inr (Inl (push_path (PKey (js ''k'')) (mismatch (VStr (js ''k'')) ''{value} is not a hex encoded binary string'')), \<sigma>)"
  "follow (VObj [(js ''k'', VNum (NInt 1))]) [PKey (js ''k'')] = VNum (NInt 1)"
  by (simp_all add: is_object_def own_entries_def prop_get_def vbind_def vpush_def vlift_def cast_BYTES_def isBytes_def
      is_string_def str_of_def js_def)

text \<open>C39: Recursive schemas end: when every reference leads to one of smaller rank unless it enters an array, object
  or tuple, a call stack that is linear in the size of the value suffices; \<open>cast\<close> then returns a value or a failure,
  or throws the \<open>SyntaxError\<close> of \<open>BigInt\<close>, never a \<open>RangeError\<close>. It throws a \<open>TypeError\<close> only on a value in which a name
  of \<open>Object.prototype\<close> occurs as a key or as the text of a property, which a union by tag or by key may take for one
  of its variants (\<open>inherited_tag_throws\<close>).\<close>

theorem cast_ends:
  assumes "guarded rank R env" and "R + R * weight v \<le> n"
  shows "(\<exists>r \<sigma>'. cast env n c v \<sigma> = Inr (r, \<sigma>')) \<or> cast env n c v \<sigma> = Inl SyntaxError \<or>
    (cast env n c v \<sigma> = Inl TypeError \<and> inherited_name v)"
proof (cases "cast env n c v \<sigma>")
  case (Inl e)
  then have "throws (cast env n c v) e" unfolding throws_def by blast
  then have "e = SyntaxError \<or> e = TypeError \<and> inherited_name v"
    using cast_throws [OF assms(1) _ order_refl assms(2)] assms(1) unfolding guarded_def by blast
  with Inl show ?thesis by blast
qed auto

definition nested_arrays :: "nat \<Rightarrow> validator" where
  "nested_arrays r = OptionValidator (ArrayValidator (RefValidator 0))"

lemma cast_ends_witness:
  "(\<exists>r \<sigma>'. cast nested_arrays 3 (RefValidator 0) (VArr [VArr []]) no_errs = Inr (r, \<sigma>')) \<or>
   cast nested_arrays 3 (RefValidator 0) (VArr [VArr []]) no_errs = Inl SyntaxError"
proof -
  have "\<not> inherited_name (VArr [VArr []])" by (simp add: object_prototype_def js_def)
  then show ?thesis
    using cast_ends [of "\<lambda>_. 0" 1 nested_arrays "VArr [VArr []]" 3 "RefValidator 0" no_errs]
    by (simp add: guarded_def nested_arrays_def del: cast.simps inherited_name.simps)
qed

text \<open>A union by tag takes a member that its table of variants inherits for a variant, and a union by key the same: the
  caller gets a \<open>TypeError\<close> instead of a validation error.\<close>

lemma inherited_tag_throws:
  "cast_value env n (TaggedUnion (js ''kind'') [(js ''a'', NAT)]) (VObj [(js ''kind'', VStr (js ''constructor''))]) =
     Inl (OtherError TypeError)"
  "cast_value env n (KeyTaggedUnion [(js ''a'', NAT)]) (VObj [(js ''toString'', VNum (NInt 1))]) = Inl (OtherError TypeError)"
  by (simp_all add: cast_value_def getVariant_def getTag_def has_member_def object_prototype_def is_object_def prop_get_def
      own_entries_def vthrow_def js_def)

text \<open>A reference that only leads to itself overflows every stack.\<close>

lemma unguarded_overflows: "cast (\<lambda>_. OptionValidator (RefValidator 0)) n (RefValidator 0) (VBool b) \<sigma> = Inl RangeError"
  by (induction n) (simp_all add: vthrow_def absent_def)

section \<open>The exceptions\<close>

text \<open>A hexadecimal quantity without digits passes \<open>validate\<close>, but \<open>cast\<close> of the same validator throws: the
  pattern admits \<open>0x\<close>, and \<open>BigInt\<close> of that text is a \<open>SyntaxError\<close> instead of a validation failure.\<close>

lemma empty_quantity_throws:
  "assertValidity env n QTY (VStr (js ''0x'')) = None \<and>
   cast_value env n QTY (VStr (js ''0x'')) = Inl (OtherError SyntaxError)"
proof
  show "assertValidity env n QTY (VStr (js ''0x'')) = None"
    by (simp add: assertValidity_def vcheck_def validate_QTY_def isBytes_def is_string_def str_of_def js_def vok_def)
  show "cast_value env n QTY (VStr (js ''0x'')) = Inl (OtherError SyntaxError)"
    by (simp add: cast_value_def cast_QTY_def isBytes_def is_string_def str_of_def js_def vrun_def to_BigInt_def
        js_BigInt_def js_trim_def all_digits_def js_space_def)
qed

text \<open>The natural numbers as texts: a negative number is one, and so is a number with a tail.\<close>

lemma string_nat_not_natural:
  "cast_value env n STRING_NAT (VStr (js ''-5'')) = Inr (VNum (NInt (-5)))"
  "cast_value env n STRING_NAT (VStr (js ''12abc'')) = Inr (VNum (NInt 12))"
  by (simp_all add: cast_value_def cast_STRING_NAT_def is_string_def str_of_def js_def vlift_def parsed_int_def js_parseInt_def
      trimStart_def js_space_def digit_value_def hex_char_value_def safe_int_def horner_def)

text \<open>A tree as a user writes it: \<open>oneOf({leaf: c, node: array(ref(() => tree))})\<close>. The validator \<open>c\<close> refuses a value with
  every stack and leaves the errors of the instances as they are, as a primitive validator does.\<close>

definition refuses :: "(nat \<Rightarrow> validator) \<Rightarrow> validator \<Rightarrow> jval \<Rightarrow> bool" where
  "refuses env c v \<longleftrightarrow> (\<forall>m \<sigma>. \<exists>f. cast env m c v \<sigma> = Inr (Inl f, \<sigma>))"

lemma refuses_both:
  assumes "refuses env c v"
  obtains f where "cast env m c v \<sigma> = Inr (Inl f, \<sigma>)"
  using assms unfolding refuses_def by blast

lemma tree_item:
  assumes "env r = OneOfValidator k [(leaf, c), (node, ArrayValidator (RefValidator r))]"
    and "refuses env c x" "\<And>ys. x \<noteq> VArr ys"
  shows "\<exists>f \<sigma>'. cast env (Suc n) (RefValidator r) x \<sigma> = Inr (Inl f, \<sigma>') \<and> \<sigma>' k = (\<lambda>_. None)"
proof -
  obtain f where f: "cast env n c x \<sigma> = Inr (Inl f, \<sigma>)" using refuses_both [OF assms(2)] by metis
  show ?thesis
    using assms(1,3) f by (cases x) (auto simp: one_of_def vfail_def vok_def clearErrors_def)
qed

text \<open>C40: A failure inside of a recursive \<open>oneOf\<close> whose recursive pattern, an array of itself, comes after another one
  cannot be printed: the instance keeps the errors of its patterns in one field, the call for an item of the array
  clears it, the error of the first pattern is then missing, and printing the failure is a \<open>TypeError\<close> instead of a
  validation error. Every array that the first pattern refuses, and whose first item is no array and is refused too,
  ends so. With the array pattern first the error is kept and the failure is printed.\<close>

theorem recursive_one_of_loses_errors:
  assumes "env r = OneOfValidator k [(leaf, c), (node, ArrayValidator (RefValidator r))]"
    and "refuses env c (VArr (x # xs))" "refuses env c x" "\<And>ys. x \<noteq> VArr ys"
  shows "cast_value env (Suc (Suc n)) (RefValidator r) (VArr (x # xs)) = Inl (OtherError TypeError)"
proof -
  obtain g where g: "cast env (Suc n) c (VArr (x # xs)) no_errs = Inr (Inl g, no_errs)"
    using refuses_both [OF assms(2)] by metis
  obtain f \<sigma>' where f: "cast env (Suc n) (RefValidator r) x (no_errs(k := (no_errs k)(0 := Some g))) = Inr (Inl f, \<sigma>')"
    "\<sigma>' k = (\<lambda>_. None)"
    using tree_item [OF assms(1,3,4)] by blast
  have "cast env (Suc n) (env r) (VArr (x # xs)) no_errs =
      Inr (Inl (OneOfFailure [] (VArr (x # xs)) [None, Some (push_path (PIndex 0) f)] [leaf, node]),
        clearErrors k (\<sigma>'(k := (\<lambda>_. None)(Suc 0 := Some (push_path (PIndex 0) f)))))"
    unfolding assms(1) using f g
    by (simp add: one_of_def vbind_def vpush_def vok_def upt_rec del: cast.simps(29))
  then have "cast env (Suc (Suc n)) (RefValidator r) (VArr (x # xs)) no_errs =
      Inr (Inl (OneOfFailure [] (VArr (x # xs)) [None, Some (push_path (PIndex 0) f)] [leaf, node]),
        clearErrors k (\<sigma>'(k := (\<lambda>_. None)(Suc 0 := Some (push_path (PIndex 0) f)))))"
    by (simp only: cast.simps(29) nat.case)
  then show ?thesis by (simp add: cast_value_def thrown_failure_def)
qed

definition number_tree :: "nat \<Rightarrow> validator" where
  "number_tree r = OneOfValidator 0 [(js ''leaf'', NAT), (js ''node'', ArrayValidator (RefValidator 0))]"

lemma recursive_one_of_loses_errors_witness:
  "cast_value number_tree 2 (RefValidator 0) (VArr [VStr (js ''x'')]) = Inl (OtherError TypeError)"
  using recursive_one_of_loses_errors [of number_tree 0 0 "js ''leaf''" NAT "js ''node''" "VStr (js ''x'')" "[]" 0]
  by (simp add: number_tree_def refuses_def vlift_def cast_NAT_def isSafeInteger_def numeral_2_eq_2)

end
