(* ===== verification/Archive_Chunks.thy ===== *)
theory Archive_Chunks
  imports Js_Text Ranges
begin

text \<open>
  Names and references of the archive layout, \<open>util/util-internal-archive-layout/src\<close>: blocks (\<open>block.ts\<close>), the
  directories of chunks (\<open>chunk.ts\<close>) and the pure functions of \<open>util.ts\<close>. A number is printed by \<open>String(n)\<close>: safe
  integers exactly, the doubles beyond them with the fewest digits that read back, from \<open>10 ^ 21\<close> on with an
  exponent. A text is read as a number by \<open>Number(text)\<close>; a \<open>HexNumber\<close> is hexadecimal or decimal digits, no
  fraction or exponent.
\<close>

section \<open>Numbers as texts\<close>

text \<open>The closest multiple of \<open>p\<close> that reads back as \<open>v\<close>; between two equally close ones the even one.\<close>

definition round_digits :: "nat \<Rightarrow> nat \<Rightarrow> nat option" where
  "round_digits v p =
     (let lo = v div p * p; hi = lo + p;
          lo_ok = (js_Number (int lo) = int v); hi_ok = (js_Number (int hi) = int v)
      in if lo_ok \<and> (\<not> hi_ok \<or> v - lo < hi - v \<or> v - lo = hi - v \<and> even (v div p)) then Some lo
         else if hi_ok then Some hi else None)"

fun shortest_from :: "nat \<Rightarrow> nat \<Rightarrow> nat" where
  "shortest_from v 0 = v"
| "shortest_from v (Suc n) = (case round_digits v (10 ^ Suc n) of Some s \<Rightarrow> s | None \<Rightarrow> shortest_from v n)"

definition strip_zeros :: "nat list \<Rightarrow> nat list" where
  "strip_zeros ds = rev (dropWhile (\<lambda>d. d = 0) (rev ds))"

definition number_text :: "int \<Rightarrow> jstr" where
  "number_text n =
     (if isSafeInteger n then toString_radix 10 n
      else let v = nat \<bar>n\<bar>; s = shortest_from v (length (digits 10 v) - 1); ds = digits 10 s
           in (if n < 0 then [45] else []) @
              (if s < 10 ^ 21 then map hex_digit ds
               else case strip_zeros ds of
                      [] \<Rightarrow> []
                    | d # fs \<Rightarrow>
                        hex_digit d # (if fs = [] then [] else 46 # map hex_digit fs) @
                        [101, 43] @ toString_radix 10 (int (length ds - 1))))"

section \<open>Blocks\<close>

record layout_ref =
  lr_hash :: jstr
  lr_number :: int
  lr_parentNumber :: "int option"

text \<open>\<open>RawBlock\<close>: with a number, which may be a text, or with a height.\<close>

datatype raw_number = RawNumber int | HexNumber jstr

datatype raw_block =
    NumberedBlock (rb_hash: jstr) raw_number "int option"
  | HeightBlock (rb_hash: jstr) int

definition toSafeInteger :: "raw_number \<Rightarrow> int result" where
  "toSafeInteger n =
     (let val = (case n of RawNumber i \<Rightarrow> Some i | HexNumber s \<Rightarrow> map_option js_Number (js_BigInt s))
      in case val of None \<Rightarrow> Inl AssertionError | Some i \<Rightarrow> rbind (js_assert (isSafeInteger i)) (\<lambda>_. Inr i))"

definition peekBlockRef :: "raw_block \<Rightarrow> layout_ref result" where
  "peekBlockRef b =
     (case b of
        HeightBlock h height \<Rightarrow> Inr \<lparr>lr_hash = h, lr_number = height, lr_parentNumber = None\<rparr>
      | NumberedBlock h n pn \<Rightarrow>
          rbind (toSafeInteger n) (\<lambda>i. Inr \<lparr>lr_hash = h, lr_number = i, lr_parentNumber = pn\<rparr>))"

definition getBlockNumber :: "raw_block \<Rightarrow> int result" where
  "getBlockNumber b = (case b of HeightBlock h height \<Rightarrow> Inr height | NumberedBlock h n pn \<Rightarrow> toSafeInteger n)"

definition getParentBlockNumber :: "raw_block \<Rightarrow> int result" where
  "getParentBlockNumber b =
     (case b of
        NumberedBlock h n (Some pn) \<Rightarrow> Inr pn
      | _ \<Rightarrow> rbind (getBlockNumber b) (\<lambda>i. Inr (i - 1)))"

definition checkShorHashMatch :: "jstr \<Rightarrow> jstr \<Rightarrow> bool" where
  "checkShorHashMatch a b =
     (let short = (if length a < length b then a else b); long = (if length a < length b then b else a)
      in take (length short) (drop 2 long) = short \<or>
         length short \<le> length long \<and> drop (length long - length short) long = short)"

definition getShortHash :: "jstr \<Rightarrow> jstr" where
  "getShortHash hash = str_slice hash (Some (- 8)) (Some (int (length hash)))"

definition formatBlockNumber :: "int \<Rightarrow> jstr" where
  "formatBlockNumber number = padStart (number_text number) 10 48"

section \<open>Chunks\<close>

record data_chunk =
  dc_top :: int
  dc_from :: int
  dc_to :: int
  dc_hash :: jstr

text \<open>The two components of the path of a chunk.\<close>

definition chunk_dir :: "data_chunk \<Rightarrow> jstr" where
  "chunk_dir c =
     formatBlockNumber (dc_from c) @ [45] @ formatBlockNumber (dc_to c) @ [45] @
     (if dc_hash c \<noteq> [] then dc_hash c else replicate 6 48)"

definition getChunkPath :: "data_chunk \<Rightarrow> jstr" where
  "getChunkPath c = formatBlockNumber (dc_top c) @ [47] @ chunk_dir c"

definition decimal_char :: "nat \<Rightarrow> bool" where
  "decimal_char c \<longleftrightarrow> 48 \<le> c \<and> c \<le> 57"

definition hash_char :: "nat \<Rightarrow> bool" where
  "hash_char c \<longleftrightarrow> decimal_char c \<or> 65 \<le> c \<and> c \<le> 90 \<or> 97 \<le> c \<and> c \<le> 122"

text \<open>\<open>parseInt\<close> of a text of digits.\<close>

definition parse_digits :: "jstr \<Rightarrow> int" where
  "parse_digits s = js_Number (int (horner 10 (digit_prefix 10 s)))"

definition tryParseTop :: "jstr \<Rightarrow> int option" where
  "tryParseTop s = (if s \<noteq> [] \<and> list_all decimal_char s then Some (parse_digits s) else None)"

text \<open>The directory is read as \<open>(from, to, hash)\<close>.\<close>

definition tryParseChunkDir :: "jstr \<Rightarrow> (int \<times> int \<times> jstr) option" where
  "tryParseChunkDir s =
     (let m1 = takeWhile decimal_char s; r1 = dropWhile decimal_char s;
          m2 = takeWhile decimal_char (tl r1); r2 = dropWhile decimal_char (tl r1);
          m3 = tl r2
      in if m1 \<noteq> [] \<and> r1 \<noteq> [] \<and> hd r1 = 45 \<and> m2 \<noteq> [] \<and> r2 \<noteq> [] \<and> hd r2 = 45 \<and> m3 \<noteq> [] \<and> list_all hash_char m3
         then Some (parse_digits m1, parse_digits m2, m3) else None)"

definition getDataChunkErrorMessage :: "data_chunk \<Rightarrow> string" where
  "getDataChunkErrorMessage c =
     (if \<not> isSafeInteger (dc_top c) then ''top is not a safe integer''
      else if \<not> isSafeInteger (dc_from c) then ''from is not a safe integer''
      else if \<not> isSafeInteger (dc_to c) then ''to is not a safe integer''
      else if dc_top c < 0 then ''top < 0''
      else if dc_top c > dc_from c then ''top > from''
      else if dc_from c > dc_to c then ''from > to''
      else [])"

definition assertDataChunk :: "data_chunk \<Rightarrow> unit result" where
  "assertDataChunk c =
     (if getDataChunkErrorMessage c \<noteq> [] then Inl (ThrownError ''DataChunkError'') else Inr ())"

section \<open>Helpers\<close>

definition getRange :: "block_range option \<Rightarrow> (int \<times> xnum) result" where
  "getRange rng =
     (case rng of
        None \<Rightarrow> Inr (0, Infinity)
      | Some r \<Rightarrow> rbind (assertRange r) (\<lambda>_. Inr (rfrom r, rangeEnd r)))"

text \<open>\<open>pack\<close> yields groups of \<open>n\<close> items and leaves the rest in the list that it was given.\<close>

function pack_loop :: "'a list \<Rightarrow> nat \<Rightarrow> nat \<Rightarrow> 'a list list \<times> 'a list" where
  "pack_loop items n offset =
     (if 0 < n \<and> offset + n \<le> length items
      then case pack_loop items n (offset + n) of (yielded, rest) \<Rightarrow> (take n (drop offset items) # yielded, rest)
      else ([], drop offset items))"
  by pat_completeness auto
termination
  by (relation "measure (\<lambda>(items, n, offset). Suc (length items) - offset)") auto

definition pack :: "'a list \<Rightarrow> nat \<Rightarrow> ('a list list \<times> 'a list) result" where
  "pack items n = rbind (js_assert (n > 0)) (\<lambda>_. Inr (pack_loop items n 0))"

declare pack_loop.simps [simp del]

lemma pack_loop_groups:
  assumes "0 < n" and "offset \<le> length items"
  shows "concat (fst (pack_loop items n offset)) @ snd (pack_loop items n offset) = drop offset items \<and>
    list_all (\<lambda>g. length g = n) (fst (pack_loop items n offset)) \<and> length (snd (pack_loop items n offset)) < n"
  using assms
proof (induction items n offset rule: pack_loop.induct)
  case (1 items n offset)
  show ?case
  proof (cases "offset + n \<le> length items")
    case True
    have "take n (drop offset items) @ drop (offset + n) items = drop offset items"
      by (metis add.commute append_take_drop_id drop_drop)
    moreover have "length (take n (drop offset items)) = n" using True by simp
    ultimately show ?thesis
      using 1 True pack_loop.simps [of items n offset] by (simp add: split_beta)
  next
    case False
    then show ?thesis using 1(2,3) pack_loop.simps [of items n offset] by simp
  qed
qed

text \<open>\<open>pack\<close> cuts the list into groups of the given size and leaves less than a group.\<close>

lemma pack_partitions:
  assumes "pack items n = Inr (groups, rest)"
  shows "concat groups @ rest = items \<and> list_all (\<lambda>g. length g = n) groups \<and> length rest < n"
  using assms pack_loop_groups [of n 0 items] by (auto simp: pack_def result_simps)

section \<open>Names read back\<close>

definition block_height :: "int \<Rightarrow> bool" where
  "block_height n \<longleftrightarrow> 0 \<le> n \<and> isSafeInteger n"

lemma format_digits:
  "block_height n \<Longrightarrow> formatBlockNumber n = map hex_digit (replicate (10 - length (digits 10 (nat n))) 0 @ digits 10 (nat n))"
  by (simp add: block_height_def formatBlockNumber_def number_text_def toString_radix_def padStart_def hex_digit_def map_replicate)

lemma format_decimal:
  assumes "block_height n"
  shows "formatBlockNumber n \<noteq> []" "list_all decimal_char (formatBlockNumber n)"
proof -
  have "decimal_char (hex_digit d)" if "d \<in> set (digits 10 (nat n))" for d
    using digits_bounded [of 10 d "nat n"] that by (simp add: decimal_char_def hex_digit_def)
  moreover have "decimal_char (hex_digit 0)" by (simp add: decimal_char_def hex_digit_def)
  ultimately show "list_all decimal_char (formatBlockNumber n)"
    unfolding format_digits [OF assms] by (auto simp: list_all_iff)
  show "formatBlockNumber n \<noteq> []" by (simp add: format_digits [OF assms])
qed

lemma horner_zeros: "horner b (replicate k 0 @ ds) = horner b ds"
  by (induction k) (simp_all add: horner_def)

lemma parse_format:
  assumes "block_height n"
  shows "parse_digits (formatBlockNumber n) = n"
proof -
  let ?ds = "replicate (10 - length (digits 10 (nat n))) 0 @ digits 10 (nat n)"
  have "d < 10" if "d \<in> set ?ds" for d using digits_bounded [of 10 d "nat n"] that by auto
  then have "digit_prefix 10 (map hex_digit ?ds) = ?ds" by (intro digit_prefix_digits) auto
  then have "horner 10 (digit_prefix 10 (formatBlockNumber n)) = nat n"
    unfolding format_digits [OF assms] by (simp add: horner_zeros horner_digits)
  with assms show ?thesis
    by (auto simp: parse_digits_def block_height_def isSafeInteger_def intro!: js_Number_exact)
qed

lemma tryParseTop_format: "block_height n \<Longrightarrow> tryParseTop (formatBlockNumber n) = Some n"
  by (simp add: tryParseTop_def format_decimal parse_format)

lemma format_inject: "block_height m \<Longrightarrow> block_height n \<Longrightarrow> formatBlockNumber m = formatBlockNumber n \<longleftrightarrow> m = n"
  using parse_format by metis

lemma take_decimal:
  assumes "list_all decimal_char s" and "\<not> decimal_char c"
  shows "takeWhile decimal_char (s @ c # r) = s" "dropWhile decimal_char (s @ c # r) = c # r"
  using assms by (induction s) auto

definition hash_ok :: "jstr \<Rightarrow> bool" where
  "hash_ok h \<longleftrightarrow> h \<noteq> [] \<and> list_all hash_char h"

lemma tryParseChunkDir_dir:
  assumes "block_height (dc_from c)" and "block_height (dc_to c)" and "hash_ok (dc_hash c)"
  shows "tryParseChunkDir (chunk_dir c) = Some (dc_from c, dc_to c, dc_hash c)"
proof -
  have dash: "\<not> decimal_char 45" by (simp add: decimal_char_def)
  note parts = take_decimal [OF format_decimal(2) [OF assms(1)] dash] take_decimal [OF format_decimal(2) [OF assms(2)] dash]
  show ?thesis
    using assms parts dash format_decimal(1) [OF assms(1)] format_decimal(1) [OF assms(2)]
    by (simp add: tryParseChunkDir_def chunk_dir_def hash_ok_def parse_format Let_def)
qed

definition valid_chunk :: "data_chunk \<Rightarrow> bool" where
  "valid_chunk c \<longleftrightarrow> block_height (dc_top c) \<and> block_height (dc_from c) \<and> block_height (dc_to c) \<and>
     dc_top c \<le> dc_from c \<and> dc_from c \<le> dc_to c \<and> hash_ok (dc_hash c)"

lemma valid_chunk_message: "valid_chunk c \<Longrightarrow> getDataChunkErrorMessage c = []"
  by (simp add: valid_chunk_def getDataChunkErrorMessage_def block_height_def)

text \<open>The path of a chunk reads back: its top directory and its own directory parse to the numbers and the hash
  of the chunk, which satisfies the invariants that the layout asserts.\<close>

theorem chunk_path_roundtrip:
  assumes "valid_chunk c"
  shows "getChunkPath c = formatBlockNumber (dc_top c) @ [47] @ chunk_dir c \<and>
    tryParseTop (formatBlockNumber (dc_top c)) = Some (dc_top c) \<and>
    tryParseChunkDir (chunk_dir c) = Some (dc_from c, dc_to c, dc_hash c) \<and>
    assertDataChunk c = Inr ()"
  using assms
  by (simp add: valid_chunk_def getChunkPath_def tryParseTop_format tryParseChunkDir_dir assertDataChunk_def
      valid_chunk_message [OF assms])

lemma chunk_path_roundtrip_witness:
  "tryParseChunkDir (chunk_dir \<lparr>dc_top = 0, dc_from = 10, dc_to = 20, dc_hash = [97, 66, 49]\<rparr>) = Some (10, 20, [97, 66, 49])"
  using chunk_path_roundtrip [of "\<lparr>dc_top = 0, dc_from = 10, dc_to = 20, dc_hash = [97, 66, 49]\<rparr>"]
  by (simp add: valid_chunk_def block_height_def isSafeInteger_def hash_ok_def hash_char_def decimal_char_def)

end
