(* ===== verification/Archive_Layout.thy ===== *)
theory Archive_Layout
  imports Archive_Chunks
begin

text \<open>
  The layout of an archive, \<open>util/util-internal-archive-layout/src/layout.ts\<close>, over a file system given by its
  operations. A path is the list of its segments below the directory of the archive. \<open>fs_save\<close> stands for
  \<open>chunk.transactDir('.', fs => fs.write('blocks.jsonl.gz', content))\<close>, \<open>fs_blocks\<close> for reading that file back: the
  content of a chunk is the list of its blocks, one line each. What the compression decides is a parameter: whether
  the buffer has outgrown the size of a chunk (\<open>full\<close>), and in which groups the lines of a file arrive (\<open>arrive\<close>).
  A generator is the list of what it yields and the exception that ends it, if one does; a reader of blocks that
  ends with an exception is that exception alone.
\<close>

record 'fs archive_fs =
  fs_ls :: "'fs \<Rightarrow> jstr list \<Rightarrow> jstr list result"
  fs_delete :: "'fs \<Rightarrow> jstr list \<Rightarrow> 'fs result"
  fs_save :: "'fs \<Rightarrow> jstr list \<Rightarrow> raw_block list \<Rightarrow> 'fs \<times> js_error option"
  fs_blocks :: "'fs \<Rightarrow> jstr list \<Rightarrow> raw_block list result"

section \<open>Listing\<close>

definition top_item :: "jstr \<Rightarrow> int list \<Rightarrow> int list result" where
  "top_item item tops =
     (case tryParseTop item of
        None \<Rightarrow> Inr tops
      | Some t \<Rightarrow> if formatBlockNumber t = item then Inr (tops @ [t]) else Inl TopDirError)"

definition getTops :: "'fs archive_fs \<Rightarrow> 'fs \<Rightarrow> int list result" where
  "getTops F fs = rbind (fs_ls F fs []) (\<lambda>items. rbind (rfold top_item items []) (\<lambda>tops. Inr (sort tops)))"

definition checkChunk :: "data_chunk \<Rightarrow> jstr \<Rightarrow> unit result" where
  "checkChunk c item =
     (let path = formatBlockNumber (dc_top c) @ [47] @ item
      in if getChunkPath c \<noteq> path then Inl ArchiveLayoutError
         else if getDataChunkErrorMessage c \<noteq> [] then Inl ArchiveLayoutError
         else Inr ())"

definition chunk_item :: "int \<Rightarrow> int option \<Rightarrow> jstr \<Rightarrow> data_chunk list \<Rightarrow> data_chunk list result" where
  "chunk_item t nextTop item chunks =
     (case tryParseChunkDir item of
        None \<Rightarrow> Inr chunks
      | Some (from, to, hash) \<Rightarrow>
          let c = \<lparr>dc_top = t, dc_from = from, dc_to = to, dc_hash = hash\<rparr>
          in rbind (checkChunk c item) (\<lambda>_.
               if (case nextTop of None \<Rightarrow> False | Some n \<Rightarrow> n \<le> dc_to c) then Inl ArchiveLayoutError
               else Inr (chunks @ [c])))"

fun check_overlaps :: "data_chunk list \<Rightarrow> unit result" where
  "check_overlaps (a # b # cs) = (if dc_from b \<le> dc_to a then Inl ArchiveLayoutError else check_overlaps (b # cs))"
| "check_overlaps cs = Inr ()"

definition readChunks :: "'fs archive_fs \<Rightarrow> 'fs \<Rightarrow> int \<Rightarrow> int option \<Rightarrow> data_chunk list result" where
  "readChunks F fs t nextTop =
     rbind (fs_ls F fs [formatBlockNumber t]) (\<lambda>items.
     rbind (rfold (chunk_item t nextTop) items []) (\<lambda>chunks.
       let chunks = sort_key dc_from chunks
       in rbind (check_overlaps chunks) (\<lambda>_. Inr chunks)))"

text \<open>The chunks of one directory: what is yielded, and whether the generator returned.\<close>

fun yield_chunks :: "int \<Rightarrow> xnum \<Rightarrow> data_chunk list \<Rightarrow> data_chunk list \<times> bool" where
  "yield_chunks from to [] = ([], False)"
| "yield_chunks from to (c # cs) =
     (if to < Num (dc_from c) then ([], True)
      else let (ys, stop) = yield_chunks from to cs
           in (if from > dc_to c then ys else c # ys, stop))"

definition next_top :: "int list \<Rightarrow> int option" where
  "next_top tops = (case tops of [] \<Rightarrow> None | t # _ \<Rightarrow> Some t)"

fun data_chunks_loop :: "'fs archive_fs \<Rightarrow> 'fs \<Rightarrow> int \<Rightarrow> xnum \<Rightarrow> int list \<Rightarrow> data_chunk list \<times> js_error option" where
  "data_chunks_loop F fs from to [] = ([], None)"
| "data_chunks_loop F fs from to (t # tops) =
     (if Num t > to then ([], None)
      else if tops \<noteq> [] \<and> hd tops < from then data_chunks_loop F fs from to tops
      else case readChunks F fs t (next_top tops) of
             Inl e \<Rightarrow> ([], Some e)
           | Inr chunks \<Rightarrow>
               (case yield_chunks from to chunks of
                  (ys, True) \<Rightarrow> (ys, None)
                | (ys, False) \<Rightarrow>
                    (case data_chunks_loop F fs from to tops of (zs, e) \<Rightarrow> (ys @ zs, e))))"

definition getDataChunks :: "'fs archive_fs \<Rightarrow> 'fs \<Rightarrow> block_range option \<Rightarrow> data_chunk list \<times> js_error option" where
  "getDataChunks F fs rng =
     (case rbind (getRange rng) (\<lambda>(from, to). rbind (getTops F fs) (\<lambda>tops. Inr (from, to, tops))) of
        Inl e \<Rightarrow> ([], Some e)
      | Inr (from, to, tops) \<Rightarrow> data_chunks_loop F fs from to tops)"

section \<open>Appending\<close>

text \<open>The loop over the top directories from the last to the first; the next directory is carried along.\<close>

fun append_state_loop ::
    "'fs archive_fs \<Rightarrow> 'fs \<Rightarrow> int \<Rightarrow> xnum \<Rightarrow> int option \<Rightarrow> int list \<Rightarrow> (int \<times> data_chunk list) result" where
  "append_state_loop F fs from to nextTop [] = Inr (from, [])"
| "append_state_loop F fs from to nextTop (t # lower) =
     (if Num t > to then append_state_loop F fs from to (Some t) lower
      else rbind (readChunks F fs t nextTop) (\<lambda>chunks.
        if chunks = [] then Inr (if t \<le> from then from else t, [])
        else if dc_from (hd chunks) < from then
          (if dc_to (last chunks) \<ge> from then Inl (ThrownError ''Contents of top dir overlap range'')
           else Inr (from, []))
        else if Num (dc_to (last chunks)) > to then Inl (ThrownError ''Contents of top dir overlap range'')
        else Inr (t, chunks)))"

definition getAppendState :: "'fs archive_fs \<Rightarrow> 'fs \<Rightarrow> block_range \<Rightarrow> (int \<times> data_chunk list) result" where
  "getAppendState F fs rng =
     rbind (getRange (Some rng)) (\<lambda>(from, to).
     rbind (getTops F fs) (\<lambda>tops. append_state_loop F fs from to None (rev tops)))"

text \<open>The variables \<open>top\<close>, \<open>chunks\<close> and \<open>nextBlock\<close> of \<open>append\<close>, which \<open>getNextChunk\<close> updates.\<close>

record append_state =
  as_top :: int
  as_chunks :: "data_chunk list"
  as_nextBlock :: int

definition chunk_start :: "layout_ref \<Rightarrow> int" where
  "chunk_start r =
     (case lr_parentNumber r of
        None \<Rightarrow> lr_number r
      | Some p \<Rightarrow> if lr_number r = 0 \<and> p = 0 then lr_number r else p + 1)"

definition getNextChunk :: "nat \<Rightarrow> layout_ref \<Rightarrow> layout_ref \<Rightarrow> append_state \<Rightarrow> (data_chunk \<times> append_state) result" where
  "getNextChunk topDirSize r l s =
     (let from = chunk_start r; to = lr_number l
      in rbind (js_assert (as_nextBlock s = from)) (\<lambda>_.
         rbind (js_assert (from \<le> to)) (\<lambda>_.
           let s = (if length (as_chunks s) \<ge> topDirSize then s\<lparr>as_top := as_nextBlock s, as_chunks := []\<rparr> else s);
               newChunk = \<lparr>dc_top = as_top s, dc_from = from, dc_to = to, dc_hash = getShortHash (lr_hash l)\<rparr>
           in Inr (newChunk, s\<lparr>as_chunks := as_chunks s @ [newChunk], as_nextBlock := dc_to newChunk + 1\<rparr>))))"

text \<open>\<open>append\<close> up to the call of the writer: the file system, and the state, the next block and the hash, unless the
  range is complete.\<close>

definition chunk_path :: "data_chunk \<Rightarrow> jstr list" where
  "chunk_path c = [formatBlockNumber (dc_top c), chunk_dir c]"

definition append_start ::
    "'fs archive_fs \<Rightarrow> block_range \<Rightarrow> (jstr list \<Rightarrow> bool) \<Rightarrow> 'fs \<Rightarrow> ('fs \<times> (append_state \<times> jstr option) option) result" where
  "append_start F rng chunkCheck fs =
     rbind (getAppendState F fs rng) (\<lambda>(t, chunks).
     rbind (if chunks = [] then Inr (fs, chunks)
            else rbind (fs_ls F fs (chunk_path (last chunks))) (\<lambda>files.
              if chunkCheck files then Inr (fs, chunks)
              else rbind (fs_delete F fs (chunk_path (last chunks))) (\<lambda>fs. Inr (fs, butlast chunks)))) (\<lambda>(fs, chunks).
       let nextBlock = (if chunks \<noteq> [] then dc_to (last chunks) + 1 else t);
           prevHash = (if chunks \<noteq> [] then Some (dc_hash (last chunks)) else None)
       in Inr (fs, if Num nextBlock > rangeEnd rng then None
                   else Some (\<lparr>as_top = t, as_chunks = chunks, as_nextBlock = nextBlock\<rparr>, prevHash))))"

section \<open>Writing blocks\<close>

record 'fs raw_writer =
  rw_fs :: 'fs
  rw_append :: append_state
  rw_firstBlock :: "layout_ref option"
  rw_lastBlock :: "layout_ref option"
  rw_out :: "raw_block list"

text \<open>A step that throws keeps the state it has reached: what is on the disk stays there.\<close>

definition raw_save :: "'fs archive_fs \<Rightarrow> nat \<Rightarrow> 'fs raw_writer \<Rightarrow> 'fs raw_writer \<times> js_error option" where
  "raw_save F topDirSize w =
     (case (rw_firstBlock w, rw_lastBlock w) of
        (Some r, Some l) \<Rightarrow>
          (case getNextChunk topDirSize r l (rw_append w) of
             Inl e \<Rightarrow> (w, Some e)
           | Inr (c, s) \<Rightarrow>
               (case fs_save F (rw_fs w) (chunk_path c) (rw_out w) of
                  (fs, Some e) \<Rightarrow> (w\<lparr>rw_fs := fs, rw_append := s\<rparr>, Some e)
                | (fs, None) \<Rightarrow>
                    (w\<lparr>rw_fs := fs, rw_append := s, rw_firstBlock := None, rw_lastBlock := None, rw_out := []\<rparr>, None)))
      | _ \<Rightarrow> (w, Some AssertionError))"

definition raw_batch :: "raw_block list \<Rightarrow> 'fs raw_writer \<Rightarrow> 'fs raw_writer result" where
  "raw_batch batch w =
     rbind (case rw_firstBlock w of None \<Rightarrow> peekBlockRef (hd batch) | Some r \<Rightarrow> Inr r) (\<lambda>r.
     rbind (peekBlockRef (last batch)) (\<lambda>l.
       Inr (w\<lparr>rw_firstBlock := Some r, rw_lastBlock := Some l, rw_out := rw_out w @ batch\<rparr>)))"

fun raw_loop ::
    "'fs archive_fs \<Rightarrow> nat \<Rightarrow> (raw_block list \<Rightarrow> bool) \<Rightarrow> raw_block list list \<Rightarrow> js_error option \<Rightarrow> 'fs raw_writer \<Rightarrow>
     'fs raw_writer \<times> js_error option" where
  "raw_loop F topDirSize full [] failure w =
     (case failure of
        Some e \<Rightarrow> (w, Some e)
      | None \<Rightarrow> if rw_firstBlock w \<noteq> None then raw_save F topDirSize w else (w, None))"
| "raw_loop F topDirSize full (batch # batches) failure w =
     (if batch = [] then raw_loop F topDirSize full batches failure w
      else case raw_batch batch w of
             Inl e \<Rightarrow> (w, Some e)
           | Inr w \<Rightarrow>
               if full (rw_out w)
               then (case raw_save F topDirSize w of
                       (w, Some e) \<Rightarrow> (w, Some e)
                     | (w, None) \<Rightarrow> raw_loop F topDirSize full batches failure w)
               else raw_loop F topDirSize full batches failure w)"

text \<open>The stream \<open>blocks(nextBlock, prevHash)\<close> is its batches and the exception that ends it, if one does.\<close>

definition appendRawBlocks ::
    "'fs archive_fs \<Rightarrow> nat \<Rightarrow> block_range option \<Rightarrow> (raw_block list \<Rightarrow> bool) \<Rightarrow>
     (int \<Rightarrow> jstr option \<Rightarrow> raw_block list list \<times> js_error option) \<Rightarrow> 'fs \<Rightarrow> 'fs \<times> js_error option" where
  "appendRawBlocks F topDirSize rng full blocks fs =
     (case append_start F (case rng of None \<Rightarrow> \<lparr>rfrom = 0, rto = None\<rparr> | Some r \<Rightarrow> r) (\<lambda>_. True) fs of
        Inl e \<Rightarrow> (fs, Some e)
      | Inr (fs, None) \<Rightarrow> (fs, None)
      | Inr (fs, Some (s, prevHash)) \<Rightarrow>
          (case blocks (as_nextBlock s) prevHash of
             (batches, failure) \<Rightarrow>
               (case raw_loop F topDirSize full batches failure
                       \<lparr>rw_fs = fs, rw_append = s, rw_firstBlock = None, rw_lastBlock = None, rw_out = []\<rparr> of
                  (w, e) \<Rightarrow> (rw_fs w, e))))"

text \<open>\<open>topDirSize || 500\<close>.\<close>

definition topDirSize :: "nat option \<Rightarrow> nat" where
  "topDirSize opt = (case opt of None \<Rightarrow> 500 | Some n \<Rightarrow> if n = 0 then 500 else n)"

section \<open>Reading blocks\<close>

text \<open>The buffer of a reader and what it has written so far.\<close>

record block_buffer =
  bb_written :: "raw_block list list"
  bb_blocks :: "raw_block list"
  bb_bytes :: nat

definition bb_flush :: "block_buffer \<Rightarrow> block_buffer" where
  "bb_flush b =
     (if length (bb_blocks b) > 10 \<or> bb_bytes b > 1024 * 1024
      then \<lparr>bb_written = bb_written b @ [bb_blocks b], bb_blocks = [], bb_bytes = 0\<rparr> else b)"

definition take_line :: "(raw_block \<Rightarrow> nat) \<Rightarrow> block_range \<Rightarrow> raw_block \<Rightarrow> block_buffer \<Rightarrow> block_buffer result" where
  "take_line line_length r b s =
     rbind (getBlockNumber b) (\<lambda>n.
       Inr (if rfrom r \<le> n \<and> Num n \<le> rangeEnd r
            then s\<lparr>bb_blocks := bb_blocks s @ [b], bb_bytes := bb_bytes s + line_length b\<rparr> else s))"

text \<open>The lines of a chunk: the buffer that is reached, and the exception.\<close>

definition read_lines ::
    "(raw_block list \<Rightarrow> raw_block list list) \<Rightarrow> (raw_block \<Rightarrow> block_buffer \<Rightarrow> block_buffer result) \<Rightarrow> raw_block list \<Rightarrow>
     block_buffer \<Rightarrow> block_buffer result" where
  "read_lines arrive line bs s = rfold (\<lambda>ls s. rbind (rfold line ls s) (\<lambda>s. Inr (bb_flush s))) (arrive bs) s"

fun read_chunks ::
    "'fs archive_fs \<Rightarrow> 'fs \<Rightarrow> (raw_block list \<Rightarrow> raw_block list list) \<Rightarrow> (raw_block \<Rightarrow> block_buffer \<Rightarrow> block_buffer result) \<Rightarrow>
     nat option \<Rightarrow> data_chunk list \<Rightarrow> js_error option \<Rightarrow> nat \<Rightarrow> block_buffer \<Rightarrow> block_buffer result" where
  "read_chunks F fs arrive line maxNumChunks [] failure numChunks s =
     (case failure of Some e \<Rightarrow> Inl e | None \<Rightarrow> Inr s)"
| "read_chunks F fs arrive line maxNumChunks (c # cs) failure numChunks s =
     rbind (fs_blocks F fs (chunk_path c)) (\<lambda>bs.
     rbind (read_lines arrive line bs s) (\<lambda>s.
       if (case maxNumChunks of None \<Rightarrow> False | Some m \<Rightarrow> m \<le> Suc numChunks) then Inr s
       else read_chunks F fs arrive line maxNumChunks cs failure (Suc numChunks) s))"

definition bb_empty :: block_buffer where
  "bb_empty = \<lparr>bb_written = [], bb_blocks = [], bb_bytes = 0\<rparr>"

definition bb_finish :: "block_buffer \<Rightarrow> raw_block list list" where
  "bb_finish s = bb_written s @ (if bb_blocks s \<noteq> [] then [bb_blocks s] else [])"

definition getRawBlocks ::
    "'fs archive_fs \<Rightarrow> (raw_block list \<Rightarrow> raw_block list list) \<Rightarrow> (raw_block \<Rightarrow> nat) \<Rightarrow> block_range \<Rightarrow> nat option \<Rightarrow> 'fs \<Rightarrow>
     raw_block list list result" where
  "getRawBlocks F arrive line_length r chunksLimit fs =
     rbind (assertRange r) (\<lambda>_.
       case getDataChunks F fs (Some r) of (cs, failure) \<Rightarrow>
         rbind (read_chunks F fs arrive (take_line line_length r) chunksLimit cs failure 0 bb_empty) (\<lambda>s. Inr (bb_finish s)))"

definition readRawChunk ::
    "'fs archive_fs \<Rightarrow> (raw_block list \<Rightarrow> raw_block list list) \<Rightarrow> (raw_block \<Rightarrow> nat) \<Rightarrow> data_chunk \<Rightarrow> 'fs \<Rightarrow>
     raw_block list list result" where
  "readRawChunk F arrive line_length c fs =
     rbind (fs_blocks F fs (chunk_path c)) (\<lambda>bs.
     rbind (read_lines arrive (\<lambda>b s. Inr (s\<lparr>bb_blocks := bb_blocks s @ [b], bb_bytes := bb_bytes s + line_length b\<rparr>)) bs bb_empty)
       (\<lambda>s. Inr (bb_finish s)))"

end
