(* ===== verification/Archive_Reading.thy ===== *)
theory Archive_Reading
  imports Archive_Layout
begin

text \<open>
  What the listing of an archive returns: the chunks of a directory are in order, do not overlap and stay below the
  next directory, and the loop of \<open>getDataChunks\<close> yields exactly the chunks that meet the range.
\<close>

section \<open>The chunks of a directory\<close>

lemma message_ok:
  "getDataChunkErrorMessage c = [] \<longleftrightarrow>
     isSafeInteger (dc_top c) \<and> isSafeInteger (dc_from c) \<and> isSafeInteger (dc_to c) \<and>
     0 \<le> dc_top c \<and> dc_top c \<le> dc_from c \<and> dc_from c \<le> dc_to c"
  by (auto simp: getDataChunkErrorMessage_def split: if_splits)

definition in_directory :: "int \<Rightarrow> int option \<Rightarrow> data_chunk \<Rightarrow> bool" where
  "in_directory t nextTop c \<longleftrightarrow>
     dc_top c = t \<and> t \<le> dc_from c \<and> dc_from c \<le> dc_to c \<and> (case nextTop of None \<Rightarrow> True | Some n \<Rightarrow> dc_to c < n)"

lemma chunk_item_in: "chunk_item t nx item cs = Inr ds \<Longrightarrow> list_all (in_directory t nx) cs \<Longrightarrow> list_all (in_directory t nx) ds"
  by (auto simp: chunk_item_def checkChunk_def message_ok in_directory_def result_simps Let_def
      split: option.splits if_splits)

lemma check_overlaps_ok:
  "check_overlaps cs = Inr () \<longleftrightarrow> sorted_wrt (\<lambda>a b. dc_to a < dc_from b) cs" if "list_all (\<lambda>c. dc_from c \<le> dc_to c) cs"
  using that
proof (induction cs rule: check_overlaps.induct)
  case (1 a b cs)
  then show ?case by (auto simp: list_all_iff)
qed auto

lemma readChunks_ok:
  assumes "readChunks F fs t nx = Inr cs"
  shows "list_all (in_directory t nx) cs" "sorted_wrt (\<lambda>a b. dc_to a < dc_from b) cs"
proof -
  from assms obtain items ds where ds: "rfold (chunk_item t nx) items [] = Inr ds" "cs = sort_key dc_from ds"
    "check_overlaps cs = Inr ()"
    by (auto simp: readChunks_def result_simps Let_def)
  have "list_all (in_directory t nx) ds" by (rule rfold_invariant [OF ds(1)]) (auto intro: chunk_item_in)
  then show in_cs: "list_all (in_directory t nx) cs" by (simp add: ds(2) list_all_iff)
  then have "list_all (\<lambda>c. dc_from c \<le> dc_to c) cs" by (auto simp: list_all_iff in_directory_def)
  from check_overlaps_ok [OF this] ds(3) show "sorted_wrt (\<lambda>a b. dc_to a < dc_from b) cs" by simp
qed

section \<open>The chunks of a range\<close>

definition touches :: "int \<Rightarrow> xnum \<Rightarrow> data_chunk \<Rightarrow> bool" where
  "touches from to c \<longleftrightarrow> from \<le> dc_to c \<and> Num (dc_from c) \<le> to"

text \<open>Every directory of a list can be read.\<close>

fun readable :: "'fs archive_fs \<Rightarrow> 'fs \<Rightarrow> int list \<Rightarrow> data_chunk list list \<Rightarrow> bool" where
  "readable F fs [] chs \<longleftrightarrow> chs = []"
| "readable F fs (t # tops) [] \<longleftrightarrow> False"
| "readable F fs (t # tops) (ch # chs) \<longleftrightarrow> readChunks F fs t (next_top tops) = Inr ch \<and> readable F fs tops chs"

lemma readable_above:
  "readable F fs tops chs \<Longrightarrow> sorted_wrt (<) tops \<Longrightarrow> \<forall>t\<in>set tops. n \<le> t \<Longrightarrow> c \<in> set (concat chs) \<Longrightarrow> n \<le> dc_from c"
proof (induction F fs tops chs rule: readable.induct)
  case (3 F fs t tops ch chs)
  have "list_all (in_directory t (next_top tops)) ch" using 3 readChunks_ok(1) by (metis readable.simps(3))
  then show ?case using 3 by (auto simp: list_all_iff in_directory_def)
qed auto

lemma readable_ordered:
  "readable F fs tops chs \<Longrightarrow> sorted_wrt (<) tops \<Longrightarrow> sorted_wrt (\<lambda>a b. dc_to a < dc_from b) (concat chs)"
proof (induction F fs tops chs rule: readable.induct)
  case (3 F fs t tops ch chs)
  then have r: "readChunks F fs t (next_top tops) = Inr ch" "readable F fs tops chs" by auto
  have "dc_to a < dc_from b" if "a \<in> set ch" "b \<in> set (concat chs)" for a b
  proof (cases tops)
    case Nil
    with r(2) that(2) show ?thesis by simp
  next
    case (Cons u us)
    then have "dc_to a < u" using readChunks_ok(1) [OF r(1)] that(1) by (auto simp: list_all_iff in_directory_def next_top_def)
    moreover have "u \<le> dc_from b" using readable_above [OF r(2) _ _ that(2), of u] 3(3) Cons by force
    ultimately show ?thesis by simp
  qed
  then show ?case using 3 readChunks_ok(2) [OF r(1)] r(2) by (simp add: sorted_wrt_append)
qed auto

lemma yield_chunks_filter:
  assumes "sorted_wrt (\<lambda>a b. dc_to a < dc_from b) cs" and "list_all (\<lambda>c. dc_from c \<le> dc_to c) cs"
  shows "yield_chunks from to cs = (filter (touches from to) cs, \<exists>c\<in>set cs. to < Num (dc_from c))"
  using assms
proof (induction cs)
  case (Cons c cs)
  show ?case
  proof (cases "to < Num (dc_from c)")
    case True
    have "\<not> touches from to d" if "d \<in> set (c # cs)" for d
    proof -
      have "dc_from c \<le> dc_from d" using Cons.prems that by (force simp: list_all_iff)
      then have "Num (dc_from c) \<le> Num (dc_from d)" by simp
      with True show ?thesis unfolding touches_def by (meson leD order_trans)
    qed
    then show ?thesis using True by (auto simp: filter_empty_conv)
  next
    case False
    then show ?thesis using Cons by (auto simp: touches_def)
  qed
qed simp

lemma data_chunks_loop_exact:
  "readable F fs tops chs \<Longrightarrow> sorted_wrt (<) tops \<Longrightarrow>
    data_chunks_loop F fs from to tops = (filter (touches from to) (concat chs), None)"
proof (induction F fs tops chs rule: readable.induct)
  case (3 F fs t tops ch chs)
  then have r: "readChunks F fs t (next_top tops) = Inr ch" "readable F fs tops chs" "sorted_wrt (<) tops" by auto
  note dir = readChunks_ok [OF r(1)]
  have IH: "data_chunks_loop F fs from to tops = (filter (touches from to) (concat chs), None)" using 3 r by blast
  have later: "\<not> touches from to d" if "c \<in> set ch" "to < Num (dc_from c)" "d \<in> set (concat chs)" for c d
  proof -
    have "dc_to c < dc_from d" using readable_ordered [OF 3(2,3)] that by (auto simp: sorted_wrt_append)
    moreover have "dc_from c \<le> dc_to c" using dir(1) that(1) by (auto simp: list_all_iff in_directory_def)
    ultimately have "Num (dc_from c) \<le> Num (dc_from d)" by simp
    with that(2) show ?thesis unfolding touches_def by (meson leD order_trans)
  qed
  consider "Num t > to" | "\<not> Num t > to" "tops \<noteq> [] \<and> hd tops < from" | "\<not> Num t > to" "\<not> (tops \<noteq> [] \<and> hd tops < from)"
    by blast
  then show ?case
  proof cases
    case 1
    have "\<not> touches from to c" if "c \<in> set (concat (ch # chs))" for c
    proof -
      have "t \<le> dc_from c" using readable_above [OF 3(2,3) _ that] 3(3) by force
      then have "Num t \<le> Num (dc_from c)" by simp
      with 1 show ?thesis unfolding touches_def by (meson leD order_trans)
    qed
    then have "filter (touches from to) (concat (ch # chs)) = []" unfolding filter_empty_conv by blast
    then show ?thesis using 1 by simp
  next
    case 2
    have "filter (touches from to) ch = []"
      using 2 dir(1) by (cases tops) (auto simp: filter_empty_conv touches_def list_all_iff in_directory_def next_top_def)
    then show ?thesis using 2 IH by simp
  next
    case 3
    have "list_all (\<lambda>c. dc_from c \<le> dc_to c) ch" using dir(1) by (auto simp: list_all_iff in_directory_def)
    note y = yield_chunks_filter [OF dir(2) this, of "from" to]
    show ?thesis
    proof (cases "\<exists>c\<in>set ch. to < Num (dc_from c)")
      case True
      then have "filter (touches from to) (concat chs) = []" unfolding filter_empty_conv using later by blast
      then show ?thesis using 3 True r(1) y by auto
    next
      case False
      then show ?thesis using 3 r(1) y IH by auto
    qed
  qed
qed auto

lemma top_item_names: "rfold top_item items ts = Inr us \<Longrightarrow> map formatBlockNumber us = map formatBlockNumber ts @ filter (\<lambda>n. tryParseTop n \<noteq> None) items"
proof (induction items arbitrary: ts)
  case (Cons n items)
  then show ?case by (auto simp: top_item_def result_simps split: option.splits if_splits)
qed simp

lemma getTops_sorted:
  assumes "fs_ls F fs [] = Inr items" "distinct items" "getTops F fs = Inr tops"
  shows "sorted_wrt (<) tops \<and> formatBlockNumber ` set tops = {n \<in> set items. tryParseTop n \<noteq> None}"
proof -
  from assms obtain us where us: "rfold top_item items [] = Inr us" "tops = sort us"
    by (auto simp: getTops_def result_simps)
  have names: "map formatBlockNumber us = filter (\<lambda>n. tryParseTop n \<noteq> None) items"
    using top_item_names [OF us(1)] by simp
  then have "distinct us" using assms(2) by (metis distinct_filter distinct_map)
  then have "sorted_wrt (<) tops" using us(2) by (simp add: strict_sorted_iff)
  moreover have "formatBlockNumber ` set tops = set (map formatBlockNumber us)" using us(2) by simp
  ultimately show ?thesis unfolding names by auto
qed

end
