(* ===== verification/Archive_Store.thy ===== *)
theory Archive_Store
  imports Archive_Reading
begin

text \<open>
  Archives that the layout has written: the chunks follow each other without gaps from the start of the range, and the
  directories hold exactly them. The locale \<open>chunk_store\<close> is what the layout relies on in a file system; the lemmas
  inside of it say that the listing finds the chunks and that appending and killed writers keep the archive.
\<close>

section \<open>Blocks that follow each other\<close>

text \<open>The blocks from \<open>n\<close> on, with numbers below \<open>m\<close>: each starts where the previous one has ended.\<close>

fun linked :: "int \<Rightarrow> raw_block list \<Rightarrow> int \<Rightarrow> bool" where
  "linked n [] m \<longleftrightarrow> m = n"
| "linked n (b # bs) m \<longleftrightarrow>
     (case peekBlockRef b of
        Inl _ \<Rightarrow> False
      | Inr r \<Rightarrow> chunk_start r = n \<and> n \<le> lr_number r \<and> isSafeInteger (lr_number r) \<and> hash_ok (getShortHash (lr_hash r)) \<and>
          linked (lr_number r + 1) bs m)"

lemma linked_append: "linked n (xs @ ys) m \<longleftrightarrow> (\<exists>k. linked n xs k \<and> linked k ys m)"
  by (induction xs arbitrary: n) (auto split: sum.splits)

lemma linked_le: "linked n bs m \<Longrightarrow> n \<le> m"
proof (induction bs arbitrary: n)
  case (Cons b bs)
  then obtain r where "peekBlockRef b = Inr r" "n \<le> lr_number r" "linked (lr_number r + 1) bs m" by (auto split: sum.splits)
  then show ?case using Cons.IH [of "lr_number r + 1"] by simp
qed simp

lemma linked_unique: "linked n bs i \<Longrightarrow> linked n bs j \<Longrightarrow> i = j"
  by (induction bs arbitrary: n) (auto split: sum.splits)

lemma linked_hd: "linked n bs m \<Longrightarrow> bs \<noteq> [] \<Longrightarrow> \<exists>r. peekBlockRef (hd bs) = Inr r \<and> chunk_start r = n"
  by (cases bs) (auto split: sum.splits)

lemma linked_last:
  "linked n bs m \<Longrightarrow> bs \<noteq> [] \<Longrightarrow>
    \<exists>l. peekBlockRef (last bs) = Inr l \<and> lr_number l = m - 1 \<and> n \<le> m - 1 \<and> isSafeInteger (m - 1) \<and>
      hash_ok (getShortHash (lr_hash l))"
proof (induction bs arbitrary: n)
  case (Cons b bs)
  then obtain r where r: "peekBlockRef b = Inr r" "n \<le> lr_number r" "isSafeInteger (lr_number r)"
    "hash_ok (getShortHash (lr_hash r))" "linked (lr_number r + 1) bs m"
    by (auto split: sum.splits)
  then show ?case using Cons.IH [OF r(5)] by (cases "bs = []") auto
qed simp

lemma peek_number: "peekBlockRef b = Inr r \<Longrightarrow> getBlockNumber b = Inr (lr_number r)"
  by (auto simp: peekBlockRef_def getBlockNumber_def result_simps split: raw_block.splits)

lemma linked_numbers: "linked n bs m \<Longrightarrow> b \<in> set bs \<Longrightarrow> \<exists>k. getBlockNumber b = Inr k \<and> n \<le> k \<and> k < m"
proof (induction bs arbitrary: n)
  case (Cons c bs)
  then obtain r where r: "peekBlockRef c = Inr r" "n \<le> lr_number r" "linked (lr_number r + 1) bs m"
    by (auto split: sum.splits)
  show ?case
  proof (cases "b = c")
    case True
    then show ?thesis using r peek_number linked_le [OF r(3)] by auto
  next
    case False
    then show ?thesis using Cons.IH [OF r(3)] Cons.prems(2) r(2) by force
  qed
qed simp

section \<open>Chunks that follow each other\<close>

type_synonym chunk_entry = "data_chunk \<times> raw_block list"

definition holds_blocks :: "data_chunk \<Rightarrow> raw_block list \<Rightarrow> bool" where
  "holds_blocks c bs \<longleftrightarrow> bs \<noteq> [] \<and> linked (dc_from c) bs (dc_to c + 1)"

fun chunk_chain :: "int \<Rightarrow> int \<Rightarrow> chunk_entry list \<Rightarrow> int \<Rightarrow> bool" where
  "chunk_chain t n [] m \<longleftrightarrow> m = n"
| "chunk_chain t n ((c, bs) # es) m \<longleftrightarrow>
     valid_chunk c \<and> dc_from c = n \<and> (dc_top c = t \<or> dc_top c = n) \<and> holds_blocks c bs \<and>
     chunk_chain (dc_top c) (dc_to c + 1) es m"

abbreviation chunks_of :: "chunk_entry list \<Rightarrow> data_chunk list" where
  "chunks_of es \<equiv> map fst es"

abbreviation blocks_of :: "chunk_entry list \<Rightarrow> raw_block list" where
  "blocks_of es \<equiv> concat (map snd es)"

definition last_top :: "int \<Rightarrow> chunk_entry list \<Rightarrow> int" where
  "last_top t es = (if es = [] then t else dc_top (fst (last es)))"

lemma chain_le: "chunk_chain t n es m \<Longrightarrow> n \<le> m"
  by (induction t n es m rule: chunk_chain.induct) (auto simp: valid_chunk_def)

lemma chain_member:
  "chunk_chain t n es m \<Longrightarrow> (c, bs) \<in> set es \<Longrightarrow>
    valid_chunk c \<and> n \<le> dc_from c \<and> dc_to c < m \<and> (dc_top c = t \<or> n \<le> dc_top c) \<and> holds_blocks c bs"
proof (induction t n es m rule: chunk_chain.induct)
  case (2 t n d ds es m)
  then show ?case using chain_le [of "dc_top d" "dc_to d + 1" es m] by (auto simp: valid_chunk_def)
qed simp

lemma chain_ordered: "chunk_chain t n es m \<Longrightarrow> sorted_wrt (\<lambda>a b. dc_to a < dc_from b) (chunks_of es)"
proof (induction t n es m rule: chunk_chain.induct)
  case (2 t n c bs es m)
  then show ?case using chain_member [of "dc_top c" "dc_to c + 1" es m] by force
qed simp

lemma chain_tops: "chunk_chain t n es m \<Longrightarrow> c \<in> set (chunks_of es) \<Longrightarrow> d \<in> set (chunks_of es) \<Longrightarrow> dc_top c < dc_top d \<Longrightarrow> dc_to c < dc_top d"
proof (induction t n es m rule: chunk_chain.induct)
  case (2 t n e bs es m)
  have rest: "chunk_chain (dc_top e) (dc_to e + 1) es m" using 2(2) by simp
  have later: "dc_top x = dc_top e \<or> dc_to e < dc_top x" if "x \<in> set (chunks_of es)" for x
    using chain_member [OF rest] that by force
  have "dc_top e \<le> dc_from e" "dc_from e \<le> dc_to e" using 2(2) by (auto simp: valid_chunk_def)
  moreover consider "c = e" | "c \<in> set (chunks_of es)" using 2(3) by auto
  moreover consider "d = e" | "d \<in> set (chunks_of es)" using 2(4) by auto
  ultimately show ?case using 2(1) [OF rest] 2(5) later [of c] later [of d] by (metis order_less_asym order_less_irrefl order_less_le_trans)
qed simp

lemma chain_sorted_tops: "chunk_chain t n es m \<Longrightarrow> t \<le> n \<Longrightarrow> sorted (map dc_top (chunks_of es))"
proof (induction t n es m rule: chunk_chain.induct)
  case (2 t n c bs es m)
  have rest: "chunk_chain (dc_top c) (dc_to c + 1) es m" "dc_top c \<le> dc_to c + 1" using 2(2) by (auto simp: valid_chunk_def)
  then have "dc_top c \<le> dc_top x" if "x \<in> set (chunks_of es)" for x using chain_member [OF rest(1)] that by force
  then show ?case using 2(1) 2(2) rest by auto
qed simp

lemma chain_snoc:
  "chunk_chain t n (es @ [(c, bs)]) m \<longleftrightarrow>
    (\<exists>k. chunk_chain t n es k \<and> valid_chunk c \<and> dc_from c = k \<and> (dc_top c = last_top t es \<or> dc_top c = k) \<and> holds_blocks c bs \<and>
      m = dc_to c + 1)"
  by (induction t n es m rule: chunk_chain.induct) (auto simp: last_top_def)

lemma chain_last: "chunk_chain t n es m \<Longrightarrow> es \<noteq> [] \<Longrightarrow> dc_to (fst (last es)) + 1 = m"
  by (induction t n es m rule: chunk_chain.induct) auto

lemma chain_linked: "chunk_chain t n es m \<Longrightarrow> linked n (blocks_of es) m"
  by (induction t n es m rule: chunk_chain.induct) (auto simp: linked_append holds_blocks_def)

lemma filter_minimum:
  assumes "sorted (map f xs)" and "\<And>x. x \<in> set xs \<Longrightarrow> t \<le> f x"
  shows "filter (\<lambda>x. f x = t) xs @ filter (\<lambda>x. f x \<noteq> t) xs = xs"
  using assms
proof (induction xs)
  case (Cons x xs)
  show ?case
  proof (cases "f x = t")
    case False
    then have "t < f x" using Cons.prems(2) [of x] by simp
    then have "f y \<noteq> t" if "y \<in> set (x # xs)" for y using Cons.prems(1) that False by fastforce
    then have "filter (\<lambda>x. f x = t) (x # xs) = []" "filter (\<lambda>x. f x \<noteq> t) (x # xs) = x # xs"
      unfolding filter_empty_conv filter_id_conv by blast+
    then show ?thesis by simp
  qed (use Cons in auto)
qed simp

lemma concat_groups:
  fixes f :: "'a \<Rightarrow> int"
  shows "sorted (map f xs) \<Longrightarrow> sorted_wrt (<) ts \<Longrightarrow> f ` set xs \<subseteq> set ts \<Longrightarrow> concat (map (\<lambda>t. filter (\<lambda>x. f x = t) xs) ts) = xs"
proof (induction ts arbitrary: xs)
  case (Cons t ts)
  let ?ys = "filter (\<lambda>x. f x \<noteq> t) xs"
  have "t \<le> f x" if "x \<in> set xs" for x using Cons.prems(2,3) that by (auto simp: less_imp_le)
  then have split: "filter (\<lambda>x. f x = t) xs @ ?ys = xs" using filter_minimum [OF Cons.prems(1)] by blast
  have "sorted (map f ?ys)" using Cons.prems(1) by (rule sorted_filter)
  moreover have "f ` set ?ys \<subseteq> set ts" using Cons.prems(3) by auto
  ultimately have "concat (map (\<lambda>t. filter (\<lambda>x. f x = t) ?ys) ts) = ?ys" using Cons.prems(2) by (intro Cons.IH) simp_all
  moreover have "map (\<lambda>t. filter (\<lambda>x. f x = t) ?ys) ts = map (\<lambda>t. filter (\<lambda>x. f x = t) xs) ts"
    using Cons.prems(2) by (auto intro!: filter_cong)
  ultimately show ?case using split by (simp del: filter_filter)
qed simp

section \<open>What the layout relies on\<close>

definition top_name :: "jstr \<Rightarrow> bool" where
  "top_name n \<longleftrightarrow> tryParseTop n \<noteq> None"

definition dir_name :: "jstr \<Rightarrow> bool" where
  "dir_name n \<longleftrightarrow> tryParseChunkDir n \<noteq> None"

text \<open>What a file system has of chunks, before and after; the second one may have more top directories.\<close>

definition same_chunks :: "'fs archive_fs \<Rightarrow> ('fs \<Rightarrow> jstr list \<Rightarrow> jstr list) \<Rightarrow> (jstr list) set \<Rightarrow> 'fs \<Rightarrow> 'fs \<Rightarrow> bool" where
  "same_chunks F names new fs fs' \<longleftrightarrow>
     (\<forall>t d. top_name t \<longrightarrow> dir_name d \<longrightarrow> (d \<in> set (names fs' [t]) \<longleftrightarrow> d \<in> set (names fs [t]) \<or> [t, d] \<in> new)) \<and>
     (\<forall>t d. top_name t \<longrightarrow> dir_name d \<longrightarrow> d \<in> set (names fs [t]) \<longrightarrow> [t, d] \<notin> new \<longrightarrow> fs_blocks F fs' [t, d] = fs_blocks F fs [t, d])"

definition top_names :: "('fs \<Rightarrow> jstr list \<Rightarrow> jstr list) \<Rightarrow> 'fs \<Rightarrow> jstr set" where
  "top_names names fs = {n \<in> set (names fs []). top_name n}"

locale chunk_store =
  fixes F :: "'fs archive_fs"
    and ok :: "'fs \<Rightarrow> bool"
    and names :: "'fs \<Rightarrow> jstr list \<Rightarrow> jstr list"
    and partial :: "'fs \<Rightarrow> jstr list \<Rightarrow> raw_block list \<Rightarrow> 'fs \<Rightarrow> bool"
  assumes ls_root: "ok fs \<Longrightarrow> fs_ls F fs [] = Inr (names fs []) \<and> distinct (names fs [])"
    and ls_top: "ok fs \<Longrightarrow> top_name t \<Longrightarrow> fs_ls F fs [t] = Inr (names fs [t]) \<and> distinct (names fs [t])"
    and ls_chunk: "ok fs \<Longrightarrow> top_name t \<Longrightarrow> dir_name d \<Longrightarrow> d \<in> set (names fs [t]) \<Longrightarrow> \<exists>files. fs_ls F fs [t, d] = Inr files"
    and save: "ok fs \<Longrightarrow> top_name t \<Longrightarrow> dir_name d \<Longrightarrow> d \<notin> set (names fs [t]) \<Longrightarrow>
      \<exists>fs'. fs_save F fs [t, d] bs = (fs', None) \<and> ok fs' \<and> top_names names fs' = insert t (top_names names fs) \<and>
        same_chunks F names {[t, d]} fs fs' \<and> fs_blocks F fs' [t, d] = Inr bs"
    and partial: "ok fs \<Longrightarrow> top_name t \<Longrightarrow> dir_name d \<Longrightarrow> d \<notin> set (names fs [t]) \<Longrightarrow> partial fs [t, d] bs fs' \<Longrightarrow>
      ok fs' \<and> (top_names names fs' = top_names names fs \<or> top_names names fs' = insert t (top_names names fs)) \<and>
        same_chunks F names {} fs fs'"

text \<open>An archive of the blocks of \<open>es\<close>, from \<open>beg\<close> to below \<open>nxt\<close>; \<open>x\<close> says whether there is an empty directory
  for the next block.\<close>

definition archived ::
    "'fs archive_fs \<Rightarrow> ('fs \<Rightarrow> jstr list \<Rightarrow> jstr list) \<Rightarrow> int \<Rightarrow> 'fs \<Rightarrow> chunk_entry list \<Rightarrow> int \<Rightarrow> bool \<Rightarrow> bool" where
  "archived F names beg fs es nxt x \<longleftrightarrow>
     block_height beg \<and> chunk_chain beg beg es nxt \<and> (x \<longrightarrow> block_height nxt) \<and>
     top_names names fs = formatBlockNumber ` (dc_top ` set (chunks_of es) \<union> (if x then {nxt} else {})) \<and>
     (\<forall>t d. top_name t \<longrightarrow> dir_name d \<longrightarrow> (d \<in> set (names fs [t]) \<longleftrightarrow> [t, d] \<in> chunk_path ` set (chunks_of es))) \<and>
     (\<forall>(c, bs) \<in> set es. fs_blocks F fs (chunk_path c) = Inr bs)"

lemma archivedD:
  assumes "archived F names beg fs es nxt x"
  shows "chunk_chain beg beg es nxt" "block_height beg" "x \<Longrightarrow> block_height nxt"
    "top_names names fs = formatBlockNumber ` (dc_top ` set (chunks_of es) \<union> (if x then {nxt} else {}))"
    "top_name t \<Longrightarrow> dir_name d \<Longrightarrow> d \<in> set (names fs [t]) \<longleftrightarrow> [t, d] \<in> chunk_path ` set (chunks_of es)"
    "(c, bs) \<in> set es \<Longrightarrow> fs_blocks F fs (chunk_path c) = Inr bs"
  using assms unfolding archived_def by blast+

lemma valid_path:
  assumes "valid_chunk c"
  shows "chunk_path c = [formatBlockNumber (dc_top c), chunk_dir c]" "top_name (formatBlockNumber (dc_top c))" "dir_name (chunk_dir c)"
  using assms unfolding valid_chunk_def
  by (simp_all add: tryParseTop_format tryParseChunkDir_dir chunk_path_def top_name_def dir_name_def)

lemma chunk_path_inject:
  assumes "valid_chunk c" "valid_chunk d"
  shows "chunk_path c = chunk_path d \<longleftrightarrow> c = d"
proof
  assume e: "chunk_path c = chunk_path d"
  then have names: "formatBlockNumber (dc_top c) = formatBlockNumber (dc_top d)" "chunk_dir c = chunk_dir d"
    by (simp_all add: chunk_path_def)
  have "dc_top c = dc_top d" using names(1) assms format_inject by (simp add: valid_chunk_def)
  moreover have "(dc_from c, dc_to c, dc_hash c) = (dc_from d, dc_to d, dc_hash d)"
    using tryParseChunkDir_dir [of c] tryParseChunkDir_dir [of d] assms unfolding names(2) valid_chunk_def by simp
  ultimately show "c = d" by (simp add: data_chunk.equality)
qed simp

end
