(* ===== verification/Archive_Writing.thy ===== *)
theory Archive_Writing
  imports Archive_Store
begin

text \<open>
  Listing, appending and reading of an archive in any file system that keeps the laws of \<open>chunk_store\<close>, and the life of
  an archive through sessions of a writer that may be killed at any moment.
\<close>

section \<open>Listing an archive\<close>

lemma top_items:
  "(\<And>n t. n \<in> set items \<Longrightarrow> tryParseTop n = Some t \<Longrightarrow> formatBlockNumber t = n) \<Longrightarrow>
    rfold top_item items ts = Inr (ts @ List.map_filter tryParseTop items)"
  by (induction items arbitrary: ts) (auto simp: top_item_def map_filter_simps split: option.splits)

definition parsed_chunk :: "int \<Rightarrow> jstr \<Rightarrow> data_chunk option" where
  "parsed_chunk t item = map_option (\<lambda>(from, to, hash). \<lparr>dc_top = t, dc_from = from, dc_to = to, dc_hash = hash\<rparr>) (tryParseChunkDir item)"

lemma chunk_items:
  "(\<And>n c. n \<in> set items \<Longrightarrow> parsed_chunk t n = Some c \<Longrightarrow>
      valid_chunk c \<and> chunk_dir c = n \<and> (case nx of None \<Rightarrow> True | Some k \<Rightarrow> dc_to c < k)) \<Longrightarrow>
    rfold (chunk_item t nx) items cs = Inr (cs @ List.map_filter (parsed_chunk t) items)"
proof (induction items arbitrary: cs)
  case (Cons n items)
  have "chunk_item t nx n cs = Inr (cs @ (case parsed_chunk t n of None \<Rightarrow> [] | Some c \<Rightarrow> [c]))"
  proof (cases "parsed_chunk t n")
    case None
    then show ?thesis by (simp add: chunk_item_def parsed_chunk_def)
  next
    case (Some c)
    then have c: "valid_chunk c" "chunk_dir c = n" "case nx of None \<Rightarrow> True | Some k \<Rightarrow> dc_to c < k" using Cons.prems by auto
    obtain a b h where p: "tryParseChunkDir n = Some (a, b, h)" "c = \<lparr>dc_top = t, dc_from = a, dc_to = b, dc_hash = h\<rparr>"
      using Some by (auto simp: parsed_chunk_def)
    have "checkChunk c n = Inr ()"
      using c(2) valid_chunk_message [OF c(1)] p(2) by (simp add: checkChunk_def getChunkPath_def)
    with Some p c(3) show ?thesis by (auto simp: chunk_item_def split: option.splits)
  qed
  moreover have "rfold (chunk_item t nx) items ds = Inr (ds @ List.map_filter (parsed_chunk t) items)" for ds
    by (rule Cons.IH) (use Cons.prems in auto)
  ultimately show ?case by (simp add: map_filter_simps split: option.splits)
qed (simp add: map_filter_simps)

lemma set_map_filter: "set (List.map_filter g xs) = {y. \<exists>x\<in>set xs. g x = Some y}"
  by (induction xs) (auto simp: map_filter_simps split: option.splits)

lemma distinct_map_filter:
  "distinct xs \<Longrightarrow> (\<And>x y z. g x = Some z \<Longrightarrow> g y = Some z \<Longrightarrow> x \<in> set xs \<Longrightarrow> y \<in> set xs \<Longrightarrow> x = y) \<Longrightarrow> distinct (List.map_filter g xs)"
proof (induction xs)
  case (Cons x xs)
  have "distinct (List.map_filter g xs)" by (rule Cons.IH) (use Cons.prems in auto)
  moreover have "z \<notin> set (List.map_filter g xs)" if "g x = Some z" for z
    using Cons.prems that by (force simp: set_map_filter)
  ultimately show ?case by (simp add: map_filter_simps split: option.splits)
qed (simp add: map_filter_simps)

definition archive_tops :: "chunk_entry list \<Rightarrow> int \<Rightarrow> bool \<Rightarrow> int list" where
  "archive_tops es nxt x = sorted_list_of_set (dc_top ` set (chunks_of es) \<union> (if x then {nxt} else {}))"

definition chunks_under :: "chunk_entry list \<Rightarrow> int \<Rightarrow> data_chunk list" where
  "chunks_under es t = filter (\<lambda>c. dc_top c = t) (chunks_of es)"

lemma set_archive_tops: "set (archive_tops es nxt x) = dc_top ` set (chunks_of es) \<union> (if x then {nxt} else {})"
  by (simp add: archive_tops_def)

lemma sorted_archive_tops: "sorted_wrt (<) (archive_tops es nxt x)"
  by (simp add: archive_tops_def strict_sorted_list_of_set)

lemma archived_member:
  assumes "archived F names beg fs es nxt x" and "c \<in> set (chunks_of es)"
  shows "valid_chunk c" "beg \<le> dc_from c" "dc_to c < nxt" "beg \<le> dc_top c"
proof -
  obtain bs where "(c, bs) \<in> set es" using assms(2) by auto
  from chain_member [OF archivedD(1) [OF assms(1)] this]
  show "valid_chunk c" "beg \<le> dc_from c" "dc_to c < nxt" "beg \<le> dc_top c" by auto
qed

lemma archived_top_height:
  assumes "archived F names beg fs es nxt x" and "t \<in> set (archive_tops es nxt x)"
  shows "block_height t" "beg \<le> t"
proof -
  consider c where "c \<in> set (chunks_of es)" "t = dc_top c" | "x" "t = nxt"
    using assms(2) by (auto simp: set_archive_tops simp del: set_map split: if_splits)
  then have "block_height t \<and> beg \<le> t"
    by cases (use archived_member [OF assms(1)] archivedD(3) [OF assms(1)] chain_le [OF archivedD(1) [OF assms(1)]] in
      \<open>auto simp: valid_chunk_def simp del: set_map\<close>)
  then show "block_height t" "beg \<le> t" by simp_all
qed

lemma archived_next_top:
  assumes a: "archived F names beg fs es nxt x" and c: "c \<in> set (chunks_of es)"
    and u: "u \<in> set (archive_tops es nxt x)" "dc_top c < u"
  shows "dc_to c < u"
proof (cases "u \<in> dc_top ` set (chunks_of es)")
  case True
  then show ?thesis using chain_tops [of beg beg es nxt c] a c u(2) by (auto simp: archived_def)
next
  case False
  then have "u = nxt" using u(1) by (auto simp: set_archive_tops split: if_splits)
  then show ?thesis using archived_member(3) [OF a c] by simp
qed

context chunk_store
begin

lemma getTops_archived:
  assumes "ok fs" and a: "archived F names beg fs es nxt x"
  shows "getTops F fs = Inr (archive_tops es nxt x)"
proof -
  let ?T = "set (archive_tops es nxt x)"
  note ls = ls_root [OF \<open>ok fs\<close>]
  have names: "{n \<in> set (names fs []). top_name n} = formatBlockNumber ` ?T"
    using a by (simp add: archived_def top_names_def set_archive_tops)
  have parse: "tryParseTop (formatBlockNumber t) = Some t" if "t \<in> ?T" for t
    using archived_top_height(1) [OF a that] tryParseTop_format by blast
  have canonical: "formatBlockNumber t = n \<and> t \<in> ?T" if "n \<in> set (names fs [])" "tryParseTop n = Some t" for n t
  proof -
    from that names obtain u where "u \<in> ?T" "n = formatBlockNumber u" by (auto simp: top_name_def)
    with parse that(2) show ?thesis by auto
  qed
  have tops: "\<exists>n\<in>set (names fs []). tryParseTop n = Some t" if "t \<in> ?T" for t
    using names parse [OF that] that by blast
  have fold: "rfold top_item (names fs []) [] = Inr (List.map_filter tryParseTop (names fs []))"
    using canonical by (subst top_items) auto
  have "set (List.map_filter tryParseTop (names fs [])) = ?T"
    using canonical tops by (auto simp: set_map_filter)
  moreover have "distinct (List.map_filter tryParseTop (names fs []))"
    using ls canonical by (intro distinct_map_filter) auto
  ultimately have "sort (List.map_filter tryParseTop (names fs [])) = archive_tops es nxt x"
    using sorted_list_of_set_sort_remdups [of "List.map_filter tryParseTop (names fs [])"]
    by (simp add: archive_tops_def distinct_remdups_id set_archive_tops)
  then show ?thesis using ls fold by (simp add: getTops_def)
qed

lemma readChunks_archived:
  assumes "ok fs" and a: "archived F names beg fs es nxt x" and t: "t \<in> set (archive_tops es nxt x)"
    and nx: "\<And>c k. c \<in> set (chunks_under es t) \<Longrightarrow> nx = Some k \<Longrightarrow> dc_to c < k"
  shows "readChunks F fs t nx = Inr (chunks_under es t)"
proof -
  let ?t = "formatBlockNumber t" and ?cs = "List.map_filter (parsed_chunk t) (names fs [formatBlockNumber t])"
  have h: "block_height t" using archived_top_height(1) [OF a t] .
  then have top: "top_name ?t" by (simp add: top_name_def tryParseTop_format)
  note ls = ls_top [OF \<open>ok fs\<close> top]
  have item: "c \<in> set (chunks_under es t) \<and> chunk_dir c = n" if "n \<in> set (names fs [?t])" "parsed_chunk t n = Some c" for n c
  proof -
    have "dir_name n" using that(2) by (auto simp: dir_name_def parsed_chunk_def)
    then have "[?t, n] \<in> chunk_path ` set (chunks_of es)" using archivedD(5) [OF a top] that(1) by blast
    then obtain d where d: "d \<in> set (chunks_of es)" "[?t, n] = chunk_path d" unfolding image_iff by blast
    have v: "valid_chunk d" using archived_member(1) [OF a d(1)] .
    have "dc_top d = t" using d(2) v h format_inject by (simp add: chunk_path_def valid_chunk_def)
    moreover have "n = chunk_dir d" using d(2) by (simp add: chunk_path_def)
    moreover have "c = d"
      using that(2) tryParseChunkDir_dir [of d] v calculation
      by (auto simp: parsed_chunk_def valid_chunk_def intro: data_chunk.equality)
    ultimately show ?thesis using d(1) by (simp add: chunks_under_def)
  qed
  have found: "\<exists>n\<in>set (names fs [?t]). parsed_chunk t n = Some c" if "c \<in> set (chunks_under es t)" for c
  proof
    have c: "c \<in> set (chunks_of es)" "dc_top c = t" using that by (auto simp: chunks_under_def)
    note v = archived_member(1) [OF a c(1)]
    have "[?t, chunk_dir c] = chunk_path c" using c(2) valid_path(1) [OF v] by simp
    then have "[?t, chunk_dir c] \<in> chunk_path ` set (chunks_of es)" using c(1) by (rule image_eqI)
    then show "chunk_dir c \<in> set (names fs [?t])" using archivedD(5) [OF a top valid_path(3) [OF v]] by blast
    show "parsed_chunk t (chunk_dir c) = Some c"
      using tryParseChunkDir_dir [of c] v c(2) by (simp add: parsed_chunk_def valid_chunk_def)
  qed
  have "rfold (chunk_item t nx) (names fs [?t]) [] = Inr ([] @ ?cs)"
  proof (rule chunk_items)
    fix n c
    assume n: "n \<in> set (names fs [?t])" "parsed_chunk t n = Some c"
    note c = item [OF n]
    then have "valid_chunk c" using archived_member(1) [OF a] by (simp add: chunks_under_def)
    then show "valid_chunk c \<and> chunk_dir c = n \<and> (case nx of None \<Rightarrow> True | Some k \<Rightarrow> dc_to c < k)"
      using c nx by (auto split: option.splits)
  qed
  moreover have ordered: "sorted_wrt (\<lambda>a b. dc_to a < dc_from b) (chunks_under es t)"
    using chain_ordered [OF archivedD(1) [OF a]] unfolding chunks_under_def by (rule sorted_wrt_filter)
  have valid: "valid_chunk c" if "c \<in> set (chunks_under es t)" for c
    using archived_member(1) [OF a, of c] that by (simp add: chunks_under_def)
  have strict: "sorted_wrt (\<lambda>a b. dc_from a < dc_from b) (chunks_under es t)"
    using ordered by (rule sorted_wrt_mono_rel [rotated]) (use valid in \<open>force simp: valid_chunk_def\<close>)
  then have strict': "sorted_wrt (<) (map dc_from (chunks_under es t))" by (simp add: sorted_wrt_map)
  then have "distinct (chunks_under es t)" "sorted (map dc_from (chunks_under es t))" "inj_on dc_from (set (chunks_under es t))"
    using distinct_map strict_sorted_iff by blast+
  moreover have "distinct ?cs"
  proof (rule distinct_map_filter)
    show "distinct (names fs [?t])" using ls by simp
    show "m = n" if "parsed_chunk t m = Some c" "parsed_chunk t n = Some c" "m \<in> set (names fs [?t])" "n \<in> set (names fs [?t])" for m n c
      using item [OF that(3,1)] item [OF that(4,2)] by simp
  qed
  moreover have cs: "set ?cs = set (chunks_under es t)" using item found by (auto simp: set_map_filter)
  ultimately have "mset ?cs = mset (chunks_under es t)" "inj_on dc_from (set ?cs)" "sorted (map dc_from (chunks_under es t))"
    using set_eq_iff_mset_eq_distinct by (blast, simp only: cs, blast)
  then have "sort_key dc_from ?cs = chunks_under es t" by (rule sort_key_inj_key_eq)
  moreover have "check_overlaps (chunks_under es t) = Inr ()"
    using ordered valid by (subst check_overlaps_ok) (auto simp: list_all_iff valid_chunk_def)
  ultimately show ?thesis
    using ls \<open>rfold (chunk_item t nx) (names fs [?t]) [] = Inr ([] @ ?cs)\<close> by (simp add: readChunks_def)
qed

lemma readable_archived:
  assumes "ok fs" and a: "archived F names beg fs es nxt x"
  shows "sorted_wrt (<) ts \<Longrightarrow> set ts \<subseteq> set (archive_tops es nxt x) \<Longrightarrow> readable F fs ts (map (chunks_under es) ts)"
proof (induction ts)
  case (Cons t ts)
  have "dc_to c < k" if "c \<in> set (chunks_under es t)" "next_top ts = Some k" for c k
  proof (rule archived_next_top [OF a])
    have k: "ts \<noteq> []" "k = hd ts" using that(2) by (auto simp: next_top_def split: list.splits)
    then have "k \<in> set ts" by simp
    with Cons.prems show "k \<in> set (archive_tops es nxt x)" by auto
    show "c \<in> set (chunks_of es)" using that(1) by (simp add: chunks_under_def)
    show "dc_top c < k" using that(1) \<open>k \<in> set ts\<close> Cons.prems(1) by (simp add: chunks_under_def)
  qed
  then have "readChunks F fs t (next_top ts) = Inr (chunks_under es t)"
    using readChunks_archived [OF assms] Cons.prems(2) by simp
  then show ?case using Cons by simp
qed simp

lemma chunks_grouped:
  assumes a: "archived F names beg fs es nxt x"
  shows "concat (map (chunks_under es) (archive_tops es nxt x)) = chunks_of es"
  unfolding chunks_under_def
proof (rule concat_groups [OF _ sorted_archive_tops])
  show "sorted (map dc_top (chunks_of es))" using chain_sorted_tops [OF archivedD(1) [OF a]] by simp
  show "dc_top ` set (chunks_of es) \<subseteq> set (archive_tops es nxt x)" by (simp add: set_archive_tops)
qed

lemma getDataChunks_archived:
  assumes "ok fs" "archived F names beg fs es nxt x" "assertRange r = Inr ()"
  shows "getDataChunks F fs (Some r) = (filter (touches (rfrom r) (rangeEnd r)) (chunks_of es), None)"
  using getTops_archived [OF assms(1,2)] assms(3) chunks_grouped [OF assms(2)]
    data_chunks_loop_exact [OF readable_archived [OF assms(1,2) sorted_archive_tops order_refl] sorted_archive_tops]
  by (simp add: getDataChunks_def getRange_def)

end

end
