(* ===== verification/Archive_Life.thy ===== *)
theory Archive_Life
  imports Archive_Writing
begin

text \<open>
  Appending to an archive and reading it, in any file system that keeps the laws of \<open>chunk_store\<close>, and the life of an
  archive through sessions of a writer that may be killed at any moment.
\<close>

section \<open>The next chunk\<close>

text \<open>The state of a writer behind the chunks \<open>es\<close>.\<close>

definition writing :: "chunk_entry list \<Rightarrow> int \<Rightarrow> bool \<Rightarrow> append_state \<Rightarrow> bool" where
  "writing es nxt x s \<longleftrightarrow> as_nextBlock s = nxt \<and>
     (if as_chunks s = [] then as_top s = nxt else es \<noteq> [] \<and> as_top s = dc_top (fst (last es)) \<and> \<not> x)"

lemma getNextChunk_writing:
  assumes w: "writing es nxt x s" and c: "chunk_chain beg beg es nxt" and beg: "block_height beg"
    and r: "chunk_start r = nxt" "nxt \<le> lr_number l" "isSafeInteger (lr_number l)" "hash_ok (getShortHash (lr_hash l))"
  obtains c s' where "getNextChunk n r l s = Inr (c, s')" "valid_chunk c" "dc_from c = nxt" "dc_to c = lr_number l"
    "dc_top c = last_top beg es \<or> dc_top c = nxt" "x \<Longrightarrow> dc_top c = nxt"
    "\<And>bs. writing (es @ [(c, bs)]) (dc_to c + 1) False s'"
proof -
  let ?top = "if length (as_chunks s) \<ge> n then nxt else as_top s"
  let ?c = "\<lparr>dc_top = ?top, dc_from = nxt, dc_to = lr_number l, dc_hash = getShortHash (lr_hash l)\<rparr>"
  let ?s = "\<lparr>as_top = ?top, as_chunks = (if length (as_chunks s) \<ge> n then [] else as_chunks s) @ [?c], as_nextBlock = lr_number l + 1\<rparr>"
  have "beg \<le> nxt" using chain_le [OF c] .
  then have height: "block_height nxt" using beg r(2,3) by (auto simp: block_height_def isSafeInteger_def)
  have last: "block_height (dc_top (fst (last es))) \<and> dc_top (fst (last es)) \<le> nxt" if "es \<noteq> []"
    using chain_member [OF c, of "fst (last es)" "snd (last es)"] that by (auto simp: valid_chunk_def)
  then have top: "block_height ?top" "?top \<le> nxt" "?top = last_top beg es \<or> ?top = nxt" "x \<Longrightarrow> ?top = nxt"
    using w height by (auto simp: writing_def last_top_def split: if_splits)
  have "getNextChunk n r l s = Inr (?c, ?s)"
    using w r(1,2) by (cases s) (auto simp: getNextChunk_def writing_def Let_def)
  moreover have "valid_chunk ?c"
    using top height r by (auto simp: valid_chunk_def block_height_def)
  moreover have "writing (es @ [(?c, bs)]) (dc_to ?c + 1) False ?s" for bs by (simp add: writing_def)
  ultimately show thesis using that [of ?c ?s] top(3,4) by simp
qed

section \<open>Buffered blocks\<close>

definition pending :: "int \<Rightarrow> 'fs raw_writer \<Rightarrow> int \<Rightarrow> bool" where
  "pending n w m \<longleftrightarrow> linked n (rw_out w) m \<and>
     (if rw_out w = [] then rw_firstBlock w = None
      else (\<exists>r l. rw_firstBlock w = Some r \<and> rw_lastBlock w = Some l \<and> peekBlockRef (hd (rw_out w)) = Inr r \<and>
        peekBlockRef (last (rw_out w)) = Inr l))"

lemma raw_batch_pending:
  assumes "pending n w k" and "linked k batch m" and "batch \<noteq> []"
  obtains w' where "raw_batch batch w = Inr w'" "pending n w' m" "rw_fs w' = rw_fs w" "rw_append w' = rw_append w"
    "rw_out w' = rw_out w @ batch"
proof -
  obtain r where r: "peekBlockRef (hd batch) = Inr r" using linked_hd [OF assms(2,3)] by blast
  obtain l where l: "peekBlockRef (last batch) = Inr l" using linked_last [OF assms(2,3)] by blast
  let ?r = "case rw_firstBlock w of None \<Rightarrow> r | Some r \<Rightarrow> r"
  let ?w = "w\<lparr>rw_firstBlock := Some ?r, rw_lastBlock := Some l, rw_out := rw_out w @ batch\<rparr>"
  have "raw_batch batch w = Inr ?w" using r l by (auto simp: raw_batch_def split: option.splits)
  moreover have "linked n (rw_out w @ batch) m" using assms(1,2) by (auto simp: linked_append pending_def)
  then have "pending n ?w m" using assms(1,3) r l by (auto simp: pending_def split: if_splits)
  ultimately show thesis using that [of ?w] by simp
qed

section \<open>Reading\<close>

definition block_in :: "block_range \<Rightarrow> raw_block \<Rightarrow> bool" where
  "block_in r b \<longleftrightarrow> (case getBlockNumber b of Inl _ \<Rightarrow> False | Inr k \<Rightarrow> rfrom r \<le> k \<and> Num k \<le> rangeEnd r)"

definition buffered :: "block_buffer \<Rightarrow> raw_block list" where
  "buffered s = concat (bb_written s) @ bb_blocks s"

lemma concat_bb_finish: "concat (bb_finish s) = buffered s"
  by (simp add: bb_finish_def buffered_def)

lemma rfold_grows:
  assumes "\<And>x s. x \<in> set xs \<Longrightarrow> \<exists>s'. f x s = Inr s' \<and> g s' = g s @ h x"
  shows "\<exists>s'. rfold f xs s = Inr s' \<and> g s' = g s @ concat (map h xs)"
  using assms
proof (induction xs arbitrary: s)
  case (Cons x xs)
  obtain s1 where s1: "f x s = Inr s1" "g s1 = g s @ h x" using Cons.prems by force
  obtain s' where "rfold f xs s1 = Inr s'" "g s' = g s1 @ concat (map h xs)"
    using Cons.IH [of s1] Cons.prems by force
  with s1 show ?case by simp
qed simp

lemma buffered_flush [simp]: "buffered (bb_flush s) = buffered s"
  by (simp add: bb_flush_def buffered_def)

lemma take_line_buffered:
  assumes "getBlockNumber b = Inr k"
  shows "\<exists>s'. take_line len r b s = Inr s' \<and> buffered s' = buffered s @ filter (block_in r) [b]"
  using assms by (simp add: take_line_def block_in_def buffered_def)

lemma concat_filter_singles: "concat (map (\<lambda>x. filter P [x]) xs) = filter P xs"
  by (induction xs) auto

lemma read_lines_buffered:
  assumes "concat (arrive bs) = bs" and "\<And>b. b \<in> set bs \<Longrightarrow> \<exists>k. getBlockNumber b = Inr k"
  shows "\<exists>s'. read_lines arrive (take_line len r) bs s = Inr s' \<and> buffered s' = buffered s @ filter (block_in r) bs"
proof -
  let ?f = "\<lambda>ls s. rbind (rfold (take_line len r) ls s) (\<lambda>s. Inr (bb_flush s))"
  have line: "\<exists>s'. ?f ls s = Inr s' \<and> buffered s' = buffered s @ filter (block_in r) ls" if "ls \<in> set (arrive bs)" for ls s
  proof -
    have "\<exists>k. getBlockNumber b = Inr k" if "b \<in> set ls" for b
      using assms that \<open>ls \<in> set (arrive bs)\<close> by (metis UN_I set_concat)
    then have "\<exists>s'. take_line len r b s = Inr s' \<and> buffered s' = buffered s @ filter (block_in r) [b]" if "b \<in> set ls" for b s
      using take_line_buffered that by blast
    from rfold_grows [of ls "take_line len r" buffered "\<lambda>b. filter (block_in r) [b]", OF this]
    obtain s' where "rfold (take_line len r) ls s = Inr s'" "buffered s' = buffered s @ filter (block_in r) ls"
      unfolding concat_filter_singles by blast
    then show ?thesis by simp
  qed
  have "concat (map (filter (block_in r)) (arrive bs)) = filter (block_in r) bs"
    using filter_concat [of "block_in r" "arrive bs"] assms(1) by simp
  with rfold_grows [of "arrive bs" ?f buffered "filter (block_in r)", OF line] show ?thesis
    by (simp add: read_lines_def)
qed

lemma read_chunks_buffered:
  assumes "\<And>bs. concat (arrive bs) = bs" and "\<And>c bs. (c, bs) \<in> set es \<Longrightarrow> fs_blocks F fs (chunk_path c) = Inr bs"
    and "\<And>b. b \<in> set (blocks_of es) \<Longrightarrow> \<exists>k. getBlockNumber b = Inr k"
  shows "\<exists>s'. read_chunks F fs arrive (take_line len r) None (chunks_of es) None n s = Inr s' \<and>
    buffered s' = buffered s @ filter (block_in r) (blocks_of es)"
  using assms(2,3)
proof (induction es arbitrary: n s)
  case (Cons e es)
  have "fs_blocks F fs (chunk_path (fst e)) = Inr (snd e)" using Cons.prems(1) [of "fst e" "snd e"] by simp
  moreover have "\<exists>s'. read_lines arrive (take_line len r) (snd e) s = Inr s' \<and> buffered s' = buffered s @ filter (block_in r) (snd e)"
    using Cons.prems(2) by (intro read_lines_buffered assms(1)) auto
  then obtain s1 where "read_lines arrive (take_line len r) (snd e) s = Inr s1" "buffered s1 = buffered s @ filter (block_in r) (snd e)"
    by blast
  moreover obtain s' where "read_chunks F fs arrive (take_line len r) None (chunks_of es) None (Suc n) s1 = Inr s'"
    "buffered s' = buffered s1 @ filter (block_in r) (blocks_of es)"
    using Cons.IH [of "Suc n" s1] Cons.prems by auto
  ultimately show ?case by simp
qed simp

text \<open>Chunks that do not meet a range have no blocks of it.\<close>

lemma filter_touches:
  assumes "chunk_chain t n es m"
  shows "\<exists>fs. set fs \<subseteq> set es \<and> chunks_of fs = filter (touches (rfrom r) (rangeEnd r)) (chunks_of es) \<and>
    filter (block_in r) (blocks_of fs) = filter (block_in r) (blocks_of es)"
proof (intro exI conjI)
  let ?fs = "filter (\<lambda>e. touches (rfrom r) (rangeEnd r) (fst e)) es"
  show "set ?fs \<subseteq> set es" by simp
  show "chunks_of ?fs = filter (touches (rfrom r) (rangeEnd r)) (chunks_of es)" by (simp add: filter_map comp_def)
  have "filter (block_in r) (snd e) = []" if "e \<in> set es" "\<not> touches (rfrom r) (rangeEnd r) (fst e)" for e
  proof -
    have h: "linked (dc_from (fst e)) (snd e) (dc_to (fst e) + 1)"
      using chain_member [OF assms, of "fst e" "snd e"] that(1) by (simp add: holds_blocks_def)
    have "\<not> block_in r b" if b: "b \<in> set (snd e)" for b
    proof -
      obtain k where k: "getBlockNumber b = Inr k" "dc_from (fst e) \<le> k" "k \<le> dc_to (fst e)"
        using linked_numbers [OF h b] by auto
      have "Num (dc_from (fst e)) \<le> Num k" using k(2) by simp
      then show ?thesis
        using k order_trans [of "Num (dc_from (fst e))" "Num k" "rangeEnd r"] \<open>\<not> touches (rfrom r) (rangeEnd r) (fst e)\<close>
        unfolding touches_def block_in_def by auto
    qed
    then show ?thesis by (simp add: filter_empty_conv)
  qed
  then show "filter (block_in r) (blocks_of ?fs) = filter (block_in r) (blocks_of es)"
    by (induction es) auto
qed

section \<open>Sessions\<close>

text \<open>
  The life of an archive of the blocks from \<open>beg\<close> on: sessions of a writer start on what is on the disk, take batches of
  blocks and save chunks; a writer may be killed at any moment, in the middle of a save too,
  which leaves what \<open>partial\<close> says. The blocks buffered for one chunk follow each other (the code does not check them), but they
  may start anywhere: it is \<open>getNextChunk\<close> that refuses those that do not continue the archive. The list holds the blocks of
  the saved chunks.
\<close>

datatype 'fs archive_state = Idle 'fs | Writing "'fs raw_writer"

definition from_block :: "int \<Rightarrow> block_range" where
  "from_block beg = \<lparr>rfrom = beg, rto = None\<rparr>"

definition state_fs :: "'fs archive_state \<Rightarrow> 'fs" where
  "state_fs st = (case st of Idle fs \<Rightarrow> fs | Writing w \<Rightarrow> rw_fs w)"

lemma from_block_range: "block_height beg \<Longrightarrow> assertRange (from_block beg) = Inr ()"
  by (simp add: from_block_def assertRange_def block_height_def rangeEnd_def js_assert_def)

inductive archive_life ::
    "'fs archive_fs \<Rightarrow> ('fs \<Rightarrow> jstr list \<Rightarrow> raw_block list \<Rightarrow> 'fs \<Rightarrow> bool) \<Rightarrow> nat \<Rightarrow> int \<Rightarrow> 'fs \<Rightarrow> 'fs archive_state \<Rightarrow>
     raw_block list \<Rightarrow> bool" for F partial n beg fs0 where
  al_new: "archive_life F partial n beg fs0 (Idle fs0) []"
| al_start: "archive_life F partial n beg fs0 (Idle fs) bs \<Longrightarrow>
    append_start F (from_block beg) (\<lambda>_. True) fs = Inr (fs', Some (s, prevHash)) \<Longrightarrow>
    archive_life F partial n beg fs0
      (Writing \<lparr>rw_fs = fs', rw_append = s, rw_firstBlock = None, rw_lastBlock = None, rw_out = []\<rparr>) bs"
| al_batch: "archive_life F partial n beg fs0 (Writing w) bs \<Longrightarrow> linked k (rw_out w @ batch) m \<Longrightarrow>
    batch \<noteq> [] \<Longrightarrow> raw_batch batch w = Inr w' \<Longrightarrow> archive_life F partial n beg fs0 (Writing w') bs"
| al_save: "archive_life F partial n beg fs0 (Writing w) bs \<Longrightarrow> raw_save F n w = (w', None) \<Longrightarrow>
    archive_life F partial n beg fs0 (Writing w') (bs @ rw_out w)"
| al_kill: "archive_life F partial n beg fs0 (Writing w) bs \<Longrightarrow> archive_life F partial n beg fs0 (Idle (rw_fs w)) bs"
| al_kill_save: "archive_life F partial n beg fs0 (Writing w) bs \<Longrightarrow> rw_firstBlock w = Some r \<Longrightarrow> rw_lastBlock w = Some l \<Longrightarrow>
    getNextChunk n r l (rw_append w) = Inr (c, s) \<Longrightarrow> partial (rw_fs w) (chunk_path c) (rw_out w) fs' \<Longrightarrow>
    archive_life F partial n beg fs0 (Idle fs') bs"

context chunk_store
begin

lemma chunk_absent:
  assumes a: "archived F names beg fs es nxt x" and c: "valid_chunk c" "dc_from c = nxt"
  shows "chunk_dir c \<notin> set (names fs [formatBlockNumber (dc_top c)])"
proof
  assume "chunk_dir c \<in> set (names fs [formatBlockNumber (dc_top c)])"
  then have "chunk_path c \<in> chunk_path ` set (chunks_of es)"
    using archivedD(5) [OF a valid_path(2,3) [OF c(1)]] valid_path(1) [OF c(1)] by simp
  then obtain d where d: "d \<in> set (chunks_of es)" "chunk_path c = chunk_path d" by blast
  note v = archived_member [OF a d(1)]
  have "c = d" using chunk_path_inject [OF c(1) v(1)] d(2) by blast
  then show False using v(3) c by (simp add: valid_chunk_def)
qed

lemma save_archived:
  assumes "ok fs" and a: "archived F names beg fs es nxt x" and c: "valid_chunk c" "dc_from c = nxt"
    and top: "dc_top c = last_top beg es \<or> dc_top c = nxt" "x \<Longrightarrow> dc_top c = nxt" and b: "holds_blocks c bs"
  obtains fs' where "fs_save F fs (chunk_path c) bs = (fs', None)" "ok fs'"
    "archived F names beg fs' (es @ [(c, bs)]) (dc_to c + 1) False"
proof -
  note path = valid_path [OF c(1)]
  obtain fs' where fs': "fs_save F fs (chunk_path c) bs = (fs', None)" "ok fs'"
    "top_names names fs' = insert (formatBlockNumber (dc_top c)) (top_names names fs)"
    "same_chunks F names {chunk_path c} fs fs'" "fs_blocks F fs' (chunk_path c) = Inr bs"
    using save [OF \<open>ok fs\<close> path(2,3) chunk_absent [OF a c]] unfolding path(1) by blast
  note same = fs'(4) [unfolded same_chunks_def]
  have "chunk_chain beg beg (es @ [(c, bs)]) (dc_to c + 1)"
    using archivedD(1) [OF a] c top(1) b by (auto simp: chain_snoc)
  moreover have "top_names names fs' = formatBlockNumber ` (dc_top ` set (chunks_of (es @ [(c, bs)])) \<union> (if False then {dc_to c + 1} else {}))"
    using fs'(3) archivedD(4) [OF a] top(2) by auto
  moreover have "d \<in> set (names fs' [t]) \<longleftrightarrow> [t, d] \<in> chunk_path ` set (chunks_of (es @ [(c, bs)]))" if "top_name t" "dir_name d" for t d
    using same archivedD(5) [OF a that] that by auto
  moreover have "fs_blocks F fs' (chunk_path d) = Inr ds" if "(d, ds) \<in> set (es @ [(c, bs)])" for d ds
  proof (cases "(d, ds) \<in> set es")
    case True
    then have d: "d \<in> set (chunks_of es)" by force
    note v = archived_member [OF a d]
    have "chunk_path d \<noteq> chunk_path c" using chunk_path_inject [OF v(1) c(1)] v(3) c by (auto simp: valid_chunk_def)
    moreover have "chunk_dir d \<in> set (names fs [formatBlockNumber (dc_top d)])"
      using archivedD(5) [OF a valid_path(2,3) [OF v(1)]] valid_path(1) [OF v(1)] d by (metis image_eqI)
    ultimately have "fs_blocks F fs' (chunk_path d) = fs_blocks F fs (chunk_path d)"
      using same valid_path [OF v(1)] by simp
    then show ?thesis using archivedD(6) [OF a True] by simp
  next
    case False
    then show ?thesis using that fs'(5) by simp
  qed
  ultimately have "archived F names beg fs' (es @ [(c, bs)]) (dc_to c + 1) False"
    unfolding archived_def using archivedD(2) [OF a] by blast
  then show thesis using that fs'(1,2) by blast
qed

lemma partial_archived:
  assumes "ok fs" and a: "archived F names beg fs es nxt x" and c: "valid_chunk c" "dc_from c = nxt"
    and top: "dc_top c = last_top beg es \<or> dc_top c = nxt" "x \<Longrightarrow> dc_top c = nxt" and p: "partial fs (chunk_path c) bs fs'"
  obtains x' where "ok fs'" "archived F names beg fs' es nxt x'"
proof -
  note path = valid_path [OF c(1)]
  have fs': "ok fs'" "same_chunks F names {} fs fs'"
    and tops: "top_names names fs' = top_names names fs \<or> top_names names fs' = insert (formatBlockNumber (dc_top c)) (top_names names fs)"
    using partial [OF \<open>ok fs\<close> path(2,3) chunk_absent [OF a c]] p unfolding path(1) by blast+
  note same = fs'(2) [unfolded same_chunks_def]
  have dirs: "d \<in> set (names fs' [t]) \<longleftrightarrow> [t, d] \<in> chunk_path ` set (chunks_of es)" if "top_name t" "dir_name d" for t d
    using same archivedD(5) [OF a that] that by auto
  have blocks: "fs_blocks F fs' (chunk_path d) = Inr ds" if "(d, ds) \<in> set es" for d ds
  proof -
    have d: "d \<in> set (chunks_of es)" using that by force
    note v = valid_path [OF archived_member(1) [OF a d]]
    have "chunk_dir d \<in> set (names fs [formatBlockNumber (dc_top d)])"
      using archivedD(5) [OF a v(2,3)] v(1) d by (metis image_eqI)
    then show ?thesis using same v archivedD(6) [OF a that] by simp
  qed
  have "block_height nxt" using c by (simp add: valid_chunk_def)
  moreover obtain x' where "top_names names fs' = formatBlockNumber ` (dc_top ` set (chunks_of es) \<union> (if x' then {nxt} else {}))"
  proof (cases "top_names names fs' = top_names names fs")
    case True
    then show thesis using that archivedD(4) [OF a] by blast
  next
    case False
    then have new: "top_names names fs' = insert (formatBlockNumber (dc_top c)) (top_names names fs)"
      "formatBlockNumber (dc_top c) \<notin> top_names names fs" using tops by auto
    have "dc_top c = nxt"
    proof (cases "es = []")
      case True
      then show ?thesis using top(1) archivedD(1) [OF a] by (auto simp: last_top_def)
    next
      case False
      then have "fst (last es) \<in> set (chunks_of es)" by simp
      then have "last_top beg es \<in> dc_top ` set (chunks_of es)" using False by (auto simp: last_top_def)
      then have "formatBlockNumber (last_top beg es) \<in> top_names names fs" using archivedD(4) [OF a] by blast
      then show ?thesis using new(2) top(1) by auto
    qed
    then show thesis using that [of True] new(1) archivedD(4) [OF a] by auto
  qed
  ultimately have "archived F names beg fs' es nxt x'"
    unfolding archived_def using archivedD(1,2) [OF a] dirs blocks by blast
  then show thesis using that fs'(1) by blast
qed

text \<open>A session resumes behind the last saved block.\<close>

lemma last_filter: "xs \<noteq> [] \<Longrightarrow> P (last xs) \<Longrightarrow> filter P xs \<noteq> [] \<and> last (filter P xs) = last xs"
  by (induction xs rule: rev_induct) auto

lemma sorted_last: "sorted (map f xs) \<Longrightarrow> c \<in> set xs \<Longrightarrow> f c \<le> f (last xs)"
  by (induction xs rule: rev_induct) (auto simp: sorted_append)

lemma last_top_chunks:
  assumes a: "archived F names beg fs es nxt x" and t: "archive_tops es nxt x = ts @ [t]"
  shows "if x \<or> es = [] then chunks_under es t = [] \<and> t = nxt
    else chunks_under es t \<noteq> [] \<and> last (chunks_under es t) = fst (last es) \<and> dc_top (fst (last es)) = t"
proof -
  have mx: "u \<le> t" if "u \<in> set (archive_tops es nxt x)" for u
    using sorted_archive_tops [of es nxt x] that unfolding t by (auto simp: sorted_wrt_append less_imp_le)
  have below: "dc_top c < nxt" if "c \<in> set (chunks_of es)" for c
    using archived_member(1,3) [OF a that] by (simp add: valid_chunk_def)
  show ?thesis
  proof (cases "x \<or> es = []")
    case True
    have "t \<in> set (archive_tops es nxt x)" using t by simp
    then have "t = nxt" using True mx [of nxt] below by (force simp: set_archive_tops split: if_splits)
    then show ?thesis using True below by (auto simp: chunks_under_def filter_empty_conv)
  next
    case False
    then have l: "chunks_of es \<noteq> []" "last (chunks_of es) = fst (last es)" by (simp_all add: last_map)
    have "dc_top (last (chunks_of es)) \<in> set (archive_tops es nxt x)" using l(1) by (simp add: set_archive_tops del: set_map)
    moreover have "t \<in> set (archive_tops es nxt x)" using t by simp
    then obtain c where "c \<in> set (chunks_of es)" "dc_top c = t" using False unfolding set_archive_tops by auto
    moreover have "dc_top c \<le> dc_top (last (chunks_of es))" if "c \<in> set (chunks_of es)" for c
      using sorted_last [OF chain_sorted_tops [OF archivedD(1) [OF a] order_refl] that] .
    ultimately have "dc_top (last (chunks_of es)) = t" using mx by force
    then show ?thesis using False l last_filter [OF l(1), of "\<lambda>c. dc_top c = t"] by (simp add: chunks_under_def)
  qed
qed

lemma append_start_archived:
  assumes "ok fs" and a: "archived F names beg fs es nxt x" and r: "rfrom r = beg" "assertRange r = Inr ()" "Num nxt \<le> rangeEnd r"
  obtains s prevHash where "append_start F r (\<lambda>_. True) fs = Inr (fs, Some (s, prevHash))" "writing es nxt x s"
    "prevHash = (if x \<or> es = [] then None else Some (dc_hash (fst (last es))))"
proof -
  let ?ts = "archive_tops es nxt x"
  have tops: "getTops F fs = Inr ?ts" using getTops_archived [OF assms(1,2)] .
  have range: "getRange (Some r) = Inr (beg, rangeEnd r)" using r by (simp add: getRange_def)
  have chain: "chunk_chain beg beg es nxt" using archivedD(1) [OF a] .
  show thesis
  proof (cases "x \<or> es = []")
    case True
    have "getAppendState F fs r = Inr (nxt, [])"
    proof (cases ?ts rule: rev_cases)
      case Nil
      then have "es = []" using set_archive_tops [of es nxt x] by auto
      then show ?thesis using Nil tops range chain by (simp add: getAppendState_def)
    next
      case (snoc ts t)
      then have t: "chunks_under es t = []" "t = nxt" using last_top_chunks [OF a snoc] True by auto
      have "readChunks F fs t None = Inr []"
        using readChunks_archived [OF assms(1,2), of t None] snoc t(1) by simp
      then show ?thesis using snoc tops range t(2) r(3) chain_le [OF chain] by (auto simp: getAppendState_def)
    qed
    then have "append_start F r (\<lambda>_. True) fs = Inr (fs, Some (\<lparr>as_top = nxt, as_chunks = [], as_nextBlock = nxt\<rparr>, None))"
      using r(3) by (simp add: append_start_def)
    then show thesis using that True by (simp add: writing_def)
  next
    case False
    then have "?ts \<noteq> []" using set_archive_tops [of es nxt x] by force
    then obtain ts t where snoc: "?ts = ts @ [t]" by (cases ?ts rule: rev_cases) auto
    let ?cs = "chunks_under es t"
    have cs: "?cs \<noteq> []" "last ?cs = fst (last es)" "dc_top (fst (last es)) = t"
      using last_top_chunks [OF a snoc] False by simp_all
    have member: "c \<in> set (chunks_of es)" if "c \<in> set ?cs" for c using that by (simp add: chunks_under_def)
    have last: "fst (last es) \<in> set (chunks_of es)" using False by simp
    note v = archived_member [OF a last]
    have to: "dc_to (fst (last es)) + 1 = nxt" using chain_last [OF chain] False by blast
    have "readChunks F fs t None = Inr ?cs" using readChunks_archived [OF assms(1,2), of t None] snoc by simp
    moreover have "\<not> Num t > rangeEnd r"
      using v cs(3) r(3) order_trans [of "Num t" "Num nxt"] by (simp add: valid_chunk_def not_less)
    moreover have "beg \<le> dc_from (hd ?cs)" using archived_member(2) [OF a member] cs(1) by simp
    moreover have "\<not> Num (dc_to (last ?cs)) > rangeEnd r"
      using to cs(2) r(3) order_trans [of "Num (dc_to (last ?cs))" "Num nxt"] by (simp add: not_less)
    ultimately have "getAppendState F fs r = Inr (t, ?cs)"
      using snoc tops range cs(1) by (simp add: getAppendState_def)
    moreover obtain files where "fs_ls F fs (chunk_path (last ?cs)) = Inr files"
    proof -
      note p = valid_path [OF v(1)]
      have "chunk_dir (fst (last es)) \<in> set (names fs [formatBlockNumber (dc_top (fst (last es)))])"
        using archivedD(5) [OF a p(2,3)] p(1) last by (metis image_eqI)
      then show thesis using that ls_chunk [OF \<open>ok fs\<close> p(2,3)] p(1) cs(2) by auto
    qed
    ultimately have "append_start F r (\<lambda>_. True) fs =
        Inr (fs, Some (\<lparr>as_top = t, as_chunks = ?cs, as_nextBlock = nxt\<rparr>, Some (dc_hash (fst (last es)))))"
      using cs r(3) to by (simp add: append_start_def)
    then show thesis using that False cs by (simp add: writing_def)
  qed
qed

text \<open>A writer on an archive of \<open>es\<close> that has buffered the blocks up to \<open>m\<close>.\<close>

definition at_work :: "int \<Rightarrow> 'fs raw_writer \<Rightarrow> chunk_entry list \<Rightarrow> int \<Rightarrow> int \<Rightarrow> bool \<Rightarrow> bool" where
  "at_work beg w es nxt m x \<longleftrightarrow> ok (rw_fs w) \<and> archived F names beg (rw_fs w) es nxt x \<and> writing es nxt x (rw_append w) \<and>
     pending nxt w m"

lemma at_work_chunk:
  assumes w: "at_work beg w es nxt m x" and r: "rw_firstBlock w = Some r" "rw_lastBlock w = Some l"
  obtains c s where "getNextChunk n r l (rw_append w) = Inr (c, s)" "valid_chunk c" "dc_from c = nxt" "dc_to c + 1 = m"
    "dc_top c = last_top beg es \<or> dc_top c = nxt" "x \<Longrightarrow> dc_top c = nxt" "holds_blocks c (rw_out w)"
    "writing (es @ [(c, rw_out w)]) m False s"
proof -
  have out: "rw_out w \<noteq> []" "linked nxt (rw_out w) m" "peekBlockRef (hd (rw_out w)) = Inr r" "peekBlockRef (last (rw_out w)) = Inr l"
    using w r unfolding at_work_def pending_def by (auto split: if_splits)
  have r': "chunk_start r = nxt" using linked_hd [OF out(2,1)] out(3) by auto
  have l': "nxt \<le> lr_number l" "lr_number l + 1 = m" "isSafeInteger (lr_number l)" "hash_ok (getShortHash (lr_hash l))"
    using linked_last [OF out(2,1)] out(4) by auto
  have a: "archived F names beg (rw_fs w) es nxt x" using w by (simp add: at_work_def)
  have "writing es nxt x (rw_append w)" using w by (simp add: at_work_def)
  then obtain c s where c: "getNextChunk n r l (rw_append w) = Inr (c, s)" "valid_chunk c" "dc_from c = nxt" "dc_to c = lr_number l"
    "dc_top c = last_top beg es \<or> dc_top c = nxt" "x \<Longrightarrow> dc_top c = nxt" "\<And>bs. writing (es @ [(c, bs)]) (dc_to c + 1) False s"
    by (rule getNextChunk_writing [OF _ archivedD(1) [OF a] archivedD(2) [OF a] r' l'(1,3,4), where n = n]) blast
  moreover have "holds_blocks c (rw_out w)" using out(1,2) c(3,4) l'(2) by (simp add: holds_blocks_def)
  ultimately show thesis using that l'(2) by (metis (no_types))
qed

lemma raw_save_work:
  assumes w: "at_work beg w es nxt m x" and r: "rw_firstBlock w \<noteq> None"
  obtains w' c where "raw_save F n w = (w', None)" "at_work beg w' (es @ [(c, rw_out w)]) m m False" "rw_out w' = []"
proof -
  obtain r l where r: "rw_firstBlock w = Some r" "rw_lastBlock w = Some l"
    using w r unfolding at_work_def pending_def by (auto split: if_splits)
  obtain c s where c: "getNextChunk n r l (rw_append w) = Inr (c, s)" "valid_chunk c" "dc_from c = nxt" "dc_to c + 1 = m"
    "dc_top c = last_top beg es \<or> dc_top c = nxt" "x \<Longrightarrow> dc_top c = nxt" "holds_blocks c (rw_out w)"
    "writing (es @ [(c, rw_out w)]) m False s"
    by (rule at_work_chunk [OF w r, of n]) blast
  have a: "ok (rw_fs w)" "archived F names beg (rw_fs w) es nxt x" using w by (simp_all add: at_work_def)
  obtain fs' where fs': "fs_save F (rw_fs w) (chunk_path c) (rw_out w) = (fs', None)" "ok fs'"
    "archived F names beg fs' (es @ [(c, rw_out w)]) m False"
    by (rule save_archived [OF a c(2,3,5,6,7), unfolded c(4)]) blast
  let ?w = "w\<lparr>rw_fs := fs', rw_append := s, rw_firstBlock := None, rw_lastBlock := None, rw_out := []\<rparr>"
  have "raw_save F n w = (?w, None)" using r c(1) fs'(1) by (simp add: raw_save_def)
  moreover have "at_work beg ?w (es @ [(c, rw_out w)]) m m False" using fs'(2,3) c(8) by (simp add: at_work_def pending_def)
  ultimately show thesis using that by simp
qed

lemma raw_batch_work:
  assumes w: "at_work beg w es nxt k x" and b: "linked k batch m" "batch \<noteq> []"
  obtains w' where "raw_batch batch w = Inr w'" "at_work beg w' es nxt m x" "rw_out w' = rw_out w @ batch"
    "rw_firstBlock w' \<noteq> None"
proof -
  have "pending nxt w k" using w by (simp add: at_work_def)
  then obtain w' where w': "raw_batch batch w = Inr w'" "pending nxt w' m" "rw_fs w' = rw_fs w" "rw_append w' = rw_append w"
    "rw_out w' = rw_out w @ batch"
    by (rule raw_batch_pending [OF _ b]) blast
  moreover have "rw_firstBlock w' \<noteq> None" using w'(1) by (auto simp: raw_batch_def result_simps)
  ultimately show thesis using that w by (simp add: at_work_def)
qed

lemma raw_loop_work:
  assumes "at_work beg w es nxt k x" and "linked k (concat batches) m"
  shows "\<exists>w' es' x'. raw_loop F n full batches None w = (w', None) \<and> ok (rw_fs w') \<and>
    archived F names beg (rw_fs w') (es @ es') m x' \<and> blocks_of es' = rw_out w @ concat batches"
  using assms
proof (induction batches arbitrary: w es nxt k x)
  case Nil
  show ?case
  proof (cases "rw_firstBlock w = None")
    case True
    have p: "pending nxt w k" using Nil(1) by (simp add: at_work_def)
    then have "rw_out w = []" using True by (auto simp: pending_def split: if_splits)
    moreover have "k = nxt" using p calculation by (simp add: pending_def)
    ultimately show ?thesis using Nil True by (auto simp: at_work_def intro!: exI [of _ "[]"])
  next
    case False
    obtain w' c where w': "raw_save F n w = (w', None)" "at_work beg w' (es @ [(c, rw_out w)]) k k False" "rw_out w' = []"
      by (rule raw_save_work [OF Nil(1) False, of n]) blast
    moreover have "k = m" using Nil(2) by simp
    ultimately show ?thesis using False by (auto simp: at_work_def intro!: exI [of _ "[(c, rw_out w)]"])
  qed
next
  case (Cons batch batches)
  obtain j where j: "linked k batch j" "linked j (concat batches) m" using Cons.prems(2) by (auto simp: linked_append)
  show ?case
  proof (cases "batch = []")
    case True
    then show ?thesis using Cons.IH [OF Cons.prems(1)] j by simp
  next
    case False
    obtain w1 where w1: "raw_batch batch w = Inr w1" "at_work beg w1 es nxt j x" "rw_out w1 = rw_out w @ batch" "rw_firstBlock w1 \<noteq> None"
      by (rule raw_batch_work [OF Cons.prems(1) j(1) False]) blast
    show ?thesis
    proof (cases "full (rw_out w1)")
      case True
      obtain w2 c where w2: "raw_save F n w1 = (w2, None)" "at_work beg w2 (es @ [(c, rw_out w1)]) j j False" "rw_out w2 = []"
        by (rule raw_save_work [OF w1(2,4), of n]) blast
      obtain w' es' x' where "raw_loop F n full batches None w2 = (w', None)" "ok (rw_fs w')"
        "archived F names beg (rw_fs w') ((es @ [(c, rw_out w1)]) @ es') m x'" "blocks_of es' = rw_out w2 @ concat batches"
        using Cons.IH [OF w2(2) j(2)] by blast
      then show ?thesis using False True w1 w2 by (auto intro!: exI [of _ "(c, rw_out w1) # es'"])
    next
      case not_full: False
      then show ?thesis using Cons.IH [OF w1(2) j(2)] False w1 by simp
    qed
  qed
qed

lemma appendRawBlocks_archived:
  assumes "ok fs" and a: "archived F names beg fs es nxt x" and r: "rfrom r = beg" "assertRange r = Inr ()" "Num nxt \<le> rangeEnd r"
    and b: "\<And>prevHash. blocks nxt prevHash = (batches, None)" "linked nxt (concat batches) m"
  shows "\<exists>fs' es' x'. appendRawBlocks F n (Some r) full blocks fs = (fs', None) \<and> ok fs' \<and>
    archived F names beg fs' (es @ es') m x' \<and> blocks_of es' = concat batches"
proof -
  obtain s prevHash where s: "append_start F r (\<lambda>_. True) fs = Inr (fs, Some (s, prevHash))" "writing es nxt x s"
    by (rule append_start_archived [OF assms(1,2) r]) blast
  let ?w = "\<lparr>rw_fs = fs, rw_append = s, rw_firstBlock = None, rw_lastBlock = None, rw_out = []\<rparr>"
  have "at_work beg ?w es nxt nxt x" using assms(1) a s(2) by (simp add: at_work_def pending_def)
  from raw_loop_work [OF this b(2), of n full] obtain w' es' x' where
    "raw_loop F n full batches None ?w = (w', None)" "ok (rw_fs w')" "archived F names beg (rw_fs w') (es @ es') m x'"
    "blocks_of es' = concat batches"
    by auto
  moreover have "as_nextBlock s = nxt" using s(2) by (simp add: writing_def)
  ultimately show ?thesis using s(1) b(1) by (auto simp: appendRawBlocks_def)
qed

lemma getRawBlocks_archived:
  assumes "ok fs" and a: "archived F names beg fs es nxt x" and r: "assertRange r = Inr ()" and "\<And>bs. concat (arrive bs) = bs"
  shows "\<exists>out. getRawBlocks F arrive len r None fs = Inr out \<and> concat out = filter (block_in r) (blocks_of es)"
proof -
  obtain ds where ds: "set ds \<subseteq> set es" "chunks_of ds = filter (touches (rfrom r) (rangeEnd r)) (chunks_of es)"
    "filter (block_in r) (blocks_of ds) = filter (block_in r) (blocks_of es)"
    using filter_touches [OF archivedD(1) [OF a]] by blast
  have numbers: "\<exists>k. getBlockNumber b = Inr k" if "b \<in> set (blocks_of ds)" for b
    using linked_numbers [OF chain_linked [OF archivedD(1) [OF a]], of b] that ds(1) by auto
  have blocks: "fs_blocks F fs (chunk_path c) = Inr bs" if "(c, bs) \<in> set ds" for c bs
    using archivedD(6) [OF a] ds(1) that by blast
  obtain s where "read_chunks F fs arrive (take_line len r) None (chunks_of ds) None 0 bb_empty = Inr s"
    "buffered s = buffered bb_empty @ filter (block_in r) (blocks_of ds)"
    using read_chunks_buffered [of arrive ds F fs len r 0 bb_empty, OF assms(4) blocks numbers] by blast
  then show ?thesis
    using getDataChunks_archived [OF assms(1,2) r] r ds(2,3)
    by (simp add: getRawBlocks_def concat_bb_finish) (simp add: buffered_def bb_empty_def)
qed

section \<open>The life of an archive\<close>

definition in_order :: "int \<Rightarrow> 'fs archive_state \<Rightarrow> raw_block list \<Rightarrow> bool" where
  "in_order beg st bs \<longleftrightarrow> (\<exists>es nxt x. ok (state_fs st) \<and> archived F names beg (state_fs st) es nxt x \<and> blocks_of es = bs \<and>
     (case st of Idle _ \<Rightarrow> True | Writing w \<Rightarrow> writing es nxt x (rw_append w) \<and> (\<exists>k m. pending k w m)))"

text \<open>A chunk is only made of blocks that continue the archive.\<close>

lemma getNextChunk_joins:
  assumes "getNextChunk n r l (rw_append w) = Inr cs" "rw_firstBlock w = Some r" "writing es nxt x (rw_append w)" "pending k w m"
  shows "k = nxt"
proof -
  have "rw_out w \<noteq> []" "linked k (rw_out w) m" "peekBlockRef (hd (rw_out w)) = Inr r"
    using assms(2,4) by (auto simp: pending_def split: if_splits)
  then have "chunk_start r = k" using linked_hd by fastforce
  moreover have "as_nextBlock (rw_append w) = chunk_start r"
    using assms(1) by (auto simp: getNextChunk_def js_assert_def Let_def split: if_splits)
  ultimately show ?thesis using assms(3) by (simp add: writing_def)
qed

lemma archive_life_in_order:
  assumes "block_height beg" and "ok fs0" and "\<And>t. top_name t \<Longrightarrow> names fs0 [t] = []" and "top_names names fs0 = {}"
  shows "archive_life F partial n beg fs0 st bs \<Longrightarrow> in_order beg st bs"
proof (induction rule: archive_life.induct)
  case al_new
  have "archived F names beg fs0 [] beg False" using assms by (simp add: archived_def)
  then show ?case using assms(2) by (force simp: in_order_def state_fs_def)
next
  case (al_start fs bs fs' s prevHash)
  then obtain es nxt x where a: "ok fs" "archived F names beg fs es nxt x" "blocks_of es = bs"
    by (auto simp: in_order_def state_fs_def)
  have r: "rfrom (from_block beg) = beg" "Num nxt \<le> rangeEnd (from_block beg)" by (simp_all add: from_block_def rangeEnd_def)
  obtain s' p where "append_start F (from_block beg) (\<lambda>_. True) fs = Inr (fs, Some (s', p))" "writing es nxt x s'"
    by (rule append_start_archived [OF a(1,2) r(1) from_block_range [OF assms(1)] r(2)]) blast
  then have "fs' = fs" "writing es nxt x s" using al_start by auto
  moreover have "\<exists>k m. pending k \<lparr>rw_fs = fs', rw_append = s, rw_firstBlock = None, rw_lastBlock = None, rw_out = []\<rparr> m"
    by (simp add: pending_def)
  ultimately show ?case using a unfolding in_order_def state_fs_def
    by (intro exI [of _ es] exI [of _ nxt] exI [of _ x]) simp
next
  case (al_batch w bs k batch m w')
  then obtain es nxt x where a: "ok (rw_fs w)" "archived F names beg (rw_fs w) es nxt x" "blocks_of es = bs"
    "writing es nxt x (rw_append w)" and "\<exists>k m. pending k w m"
    unfolding in_order_def state_fs_def archive_state.case by blast
  then obtain i j where p: "pending i w j" by blast
  have "pending k w' m \<and> rw_fs w' = rw_fs w \<and> rw_append w' = rw_append w"
  proof -
    obtain j' where j': "linked k (rw_out w) j'" "linked j' batch m" using al_batch(2) unfolding linked_append by blast
    have "pending k w j'" using p j'(1) by (auto simp: pending_def)
    then show ?thesis using raw_batch_pending [OF _ j'(2) al_batch(3)] al_batch(4) by (metis Inr_inject)
  qed
  then show ?case using a unfolding in_order_def state_fs_def archive_state.case by metis
next
  case (al_save w bs w')
  then obtain es nxt x where a: "ok (rw_fs w)" "archived F names beg (rw_fs w) es nxt x" "blocks_of es = bs"
    "writing es nxt x (rw_append w)" and "\<exists>k m. pending k w m"
    unfolding in_order_def state_fs_def archive_state.case by blast
  then obtain k m where p: "pending k w m" by blast
  obtain r l cs where r: "rw_firstBlock w = Some r" "getNextChunk n r l (rw_append w) = Inr cs"
    using al_save(2) by (auto simp: raw_save_def split: option.splits sum.splits)
  have "k = nxt" by (rule getNextChunk_joins [OF r(2,1) a(4) p])
  then have work: "at_work beg w es nxt m x" using a p by (simp add: at_work_def)
  obtain w1 c where "raw_save F n w = (w1, None)" "at_work beg w1 (es @ [(c, rw_out w)]) m m False"
    by (rule raw_save_work [OF work, of n]) (use r(1) in auto)
  then have w': "at_work beg w' (es @ [(c, rw_out w)]) m m False" using al_save(2) by simp
  moreover have "blocks_of (es @ [(c, rw_out w)]) = bs @ rw_out w" using a(3) by simp
  ultimately show ?case unfolding in_order_def state_fs_def archive_state.case at_work_def by blast
next
  case (al_kill w bs)
  then show ?case by (auto simp: in_order_def state_fs_def)
next
  case (al_kill_save w bs r l c s fs')
  then obtain es nxt x where a: "ok (rw_fs w)" "archived F names beg (rw_fs w) es nxt x" "blocks_of es = bs"
    "writing es nxt x (rw_append w)" and "\<exists>k m. pending k w m"
    unfolding in_order_def state_fs_def archive_state.case by blast
  then obtain k m where p: "pending k w m" by blast
  have "k = nxt" by (rule getNextChunk_joins [OF al_kill_save(4,2) a(4) p])
  then have work: "at_work beg w es nxt m x" using a p by (simp add: at_work_def)
  obtain c' s' where c: "getNextChunk n r l (rw_append w) = Inr (c', s')" "valid_chunk c'" "dc_from c' = nxt"
    "dc_top c' = last_top beg es \<or> dc_top c' = nxt" "x \<Longrightarrow> dc_top c' = nxt"
    by (rule at_work_chunk [OF work al_kill_save(2,3), of n]) blast
  then have "c' = c" using al_kill_save(4) by simp
  obtain x' where "ok fs'" "archived F names beg fs' es nxt x'"
    by (rule partial_archived [OF a(1,2) c(2-5)]) (use \<open>c' = c\<close> al_kill_save(5) in blast)+
  then show ?case using a(3) by (auto simp: in_order_def state_fs_def)
qed

end

end
