(* ===== verification/Archive_Local_Fs.thy ===== *)
theory Archive_Local_Fs
  imports Archive_Life
begin

text \<open>
  The local file system, \<open>util/util-internal-fs/src/local.ts\<close>, as the tree below the directory of an archive, and the
  properties of archives on it. A path is the list of its segments. The suffix that \<open>mkdtemp\<close> finds is a parameter;
  Node.js promises that the directory is new (\<open>unique_suffix\<close>). Files are those of chunks, and hold blocks.
\<close>

section \<open>The tree\<close>

datatype local_node = Folder | BlocksFile "raw_block list"

type_synonym local_tree = "(jstr list \<times> local_node) list"

definition children :: "local_tree \<Rightarrow> jstr list \<Rightarrow> jstr list" where
  "children t p = map last (filter (\<lambda>q. q \<noteq> [] \<and> butlast q = p) (map fst t))"

definition is_file :: "local_tree \<Rightarrow> jstr list \<Rightarrow> bool" where
  "is_file t p \<longleftrightarrow> (case map_of t p of Some (BlocksFile _) \<Rightarrow> True | _ \<Rightarrow> False)"

definition local_ls :: "local_tree \<Rightarrow> jstr list \<Rightarrow> jstr list result" where
  "local_ls t p =
     (if list_ex (\<lambda>i. is_file t (take i p)) [0..<Suc (length p)] then Inl (ThrownError ''ENOTDIR'')
      else if p = [] \<or> map_of t p \<noteq> None then Inr (children t p) else Inr [])"

text \<open>\<open>mkdir\<close> with \<open>recursive\<close>, below a directory that exists.\<close>

fun ensureDir :: "local_tree \<Rightarrow> jstr list \<Rightarrow> jstr list \<Rightarrow> local_tree result" where
  "ensureDir t pre [] = Inr t"
| "ensureDir t pre (s # p) =
     (case map_of t (pre @ [s]) of
        None \<Rightarrow> ensureDir (t @ [(pre @ [s], Folder)]) (pre @ [s]) p
      | Some Folder \<Rightarrow> ensureDir t (pre @ [s]) p
      | Some (BlocksFile _) \<Rightarrow> Inl (ThrownError ''ENOTDIR''))"

definition writeFile :: "local_tree \<Rightarrow> jstr list \<Rightarrow> raw_block list \<Rightarrow> local_tree result" where
  "writeFile t p content =
     (case map_of t p of
        None \<Rightarrow> Inr (t @ [(p, BlocksFile content)])
      | Some Folder \<Rightarrow> Inl (ThrownError ''EISDIR'')
      | Some (BlocksFile _) \<Rightarrow> Inr (map (\<lambda>(q, x). if q = p then (q, BlocksFile content) else (q, x)) t))"

text \<open>Outside of a transaction (\<open>tx\<close>) \<open>write\<close> renames a file that carries the time (\<open>now\<close>) in its name; a \<open>rename\<close> of a
  file replaces the target.\<close>

definition local_write :: "bool \<Rightarrow> jstr \<Rightarrow> local_tree \<Rightarrow> jstr list \<Rightarrow> raw_block list \<Rightarrow> local_tree result" where
  "local_write tx now t p content =
     rbind (ensureDir t [] (butlast p)) (\<lambda>t.
       if tx
       then let tmp = butlast p @ [js ''temp--'' @ now @ js ''--'' @ last p]
            in rbind (writeFile t tmp content) (\<lambda>t1.
                 if map_of t1 p = Some Folder then Inl (ThrownError ''EISDIR'')
                 else Inr (map (\<lambda>(q, x). (if q = tmp then p else q, x)) (filter (\<lambda>(q, x). q \<noteq> p) t1)))
       else writeFile t p content)"

definition local_delete :: "local_tree \<Rightarrow> jstr list \<Rightarrow> local_tree" where
  "local_delete t p = filter (\<lambda>(q, x). take (length p) q \<noteq> p) t"

text \<open>\<open>rename\<close> of a directory, onto nothing or an empty directory.\<close>

definition local_rename :: "local_tree \<Rightarrow> jstr list \<Rightarrow> jstr list \<Rightarrow> local_tree result" where
  "local_rename t a b =
     (let move = map (\<lambda>(q, x). (if take (length a) q = a then b @ drop (length a) q else q, x))
      in case map_of t b of
           None \<Rightarrow> Inr (move t)
         | Some Folder \<Rightarrow>
             if children t b = [] then Inr (move (filter (\<lambda>(q, x). q \<noteq> b) t)) else Inl (ThrownError ''ENOTEMPTY'')
         | Some (BlocksFile _) \<Rightarrow> Inl (ThrownError ''ENOTDIR''))"

definition temp_dir :: "(local_tree \<Rightarrow> jstr list \<Rightarrow> jstr) \<Rightarrow> local_tree \<Rightarrow> jstr list \<Rightarrow> jstr list" where
  "temp_dir fresh t p =
     (let prefix = js ''temp--'' @ last p @ js ''--'' in butlast p @ [prefix @ fresh t (butlast p @ [prefix])])"

definition transactDir ::
    "(local_tree \<Rightarrow> jstr list \<Rightarrow> jstr) \<Rightarrow> local_tree \<Rightarrow> jstr list \<Rightarrow>
     (local_tree \<Rightarrow> jstr list \<Rightarrow> local_tree result) \<Rightarrow> local_tree \<times> js_error option" where
  "transactDir fresh t p cb =
     (case ensureDir t [] (butlast p) of
        Inl e \<Rightarrow> (t, Some e)
      | Inr t1 \<Rightarrow>
          let tmp = temp_dir fresh t1 p; t2 = t1 @ [(tmp, Folder)]
          in case cb t2 tmp of
               Inl e \<Rightarrow> (local_delete t2 tmp, Some e)
             | Inr t3 \<Rightarrow>
                 (case local_rename t3 tmp p of
                    Inl e \<Rightarrow> (local_delete t3 tmp, Some e)
                  | Inr t4 \<Rightarrow> (t4, None)))"

definition blocks_file :: jstr where
  "blocks_file = js ''blocks.jsonl.gz''"

definition local_blocks :: "local_tree \<Rightarrow> jstr list \<Rightarrow> raw_block list result" where
  "local_blocks t p =
     (case map_of t (p @ [blocks_file]) of Some (BlocksFile bs) \<Rightarrow> Inr bs | _ \<Rightarrow> Inl (ThrownError ''ENOENT''))"

definition local_fs :: "(local_tree \<Rightarrow> jstr list \<Rightarrow> jstr) \<Rightarrow> local_tree archive_fs" where
  "local_fs fresh =
     \<lparr>fs_ls = local_ls, fs_delete = (\<lambda>t p. Inr (local_delete t p)),
      fs_save = (\<lambda>t p bs. transactDir fresh t p (\<lambda>t tmp. local_write False [] t (tmp @ [blocks_file]) bs)),
      fs_blocks = local_blocks\<rparr>"

text \<open>What a process that is killed during a save may leave: the new directories and a part of the file.\<close>

definition local_partial :: "(local_tree \<Rightarrow> jstr list \<Rightarrow> jstr) \<Rightarrow> local_tree \<Rightarrow> jstr list \<Rightarrow> raw_block list \<Rightarrow> local_tree \<Rightarrow> bool" where
  "local_partial fresh t p bs t' \<longleftrightarrow>
     (case ensureDir t [] (butlast p) of
        Inl e \<Rightarrow> t' = t
      | Inr t1 \<Rightarrow>
          let tmp = temp_dir fresh t1 p; t2 = t1 @ [(tmp, Folder)]
          in t' = t \<or> t' = t1 \<or> t' = t2 \<or> (\<exists>content. t' = t2 @ [(tmp @ [blocks_file], BlocksFile content)]))"

section \<open>The laws of the local file system\<close>

definition unique_suffix :: "(local_tree \<Rightarrow> jstr list \<Rightarrow> jstr) \<Rightarrow> bool" where
  "unique_suffix fresh \<longleftrightarrow>
     (\<forall>t p prefix. p @ [prefix @ fresh t (p @ [prefix])] \<notin> set (map fst t))"

text \<open>Paths are listed once, below directories, and what has the name of a directory of the archive is one.\<close>

definition tree_ok :: "local_tree \<Rightarrow> bool" where
  "tree_ok t \<longleftrightarrow> distinct (map fst t) \<and>
     (\<forall>(q, x) \<in> set t. q \<noteq> [] \<and> (butlast q = [] \<or> (butlast q, Folder) \<in> set t)) \<and>
     (\<forall>a x. ([a], x) \<in> set t \<longrightarrow> top_name a \<longrightarrow> x = Folder) \<and>
     (\<forall>a d x. ([a, d], x) \<in> set t \<longrightarrow> top_name a \<longrightarrow> dir_name d \<longrightarrow> x = Folder)"

lemma tree_okD:
  assumes "tree_ok t"
  shows "distinct (map fst t)" "(q, x) \<in> set t \<Longrightarrow> q \<noteq> []"
    "(q, x) \<in> set t \<Longrightarrow> butlast q \<noteq> [] \<Longrightarrow> (butlast q, Folder) \<in> set t"
    "([a], x) \<in> set t \<Longrightarrow> top_name a \<Longrightarrow> x = Folder"
    "([a, d], x) \<in> set t \<Longrightarrow> top_name a \<Longrightarrow> dir_name d \<Longrightarrow> x = Folder"
  using assms unfolding tree_ok_def by blast+

lemma map_of_ok: "tree_ok t \<Longrightarrow> map_of t q = Some x \<longleftrightarrow> (q, x) \<in> set t"
  using tree_okD(1) by (simp add: map_of_eq_Some_iff)

lemma children_set: "c \<in> set (children t p) \<longleftrightarrow> p @ [c] \<in> set (map fst t)"
proof
  assume "c \<in> set (children t p)"
  then obtain q where "q \<in> set (map fst t)" "q \<noteq> []" "butlast q = p" "c = last q" by (auto simp: children_def)
  then show "p @ [c] \<in> set (map fst t)" by (metis append_butlast_last_id)
qed (force simp: children_def)

lemma children_distinct:
  assumes "distinct (map fst t)"
  shows "distinct (children t p)"
proof -
  have "inj_on last {q. q \<noteq> [] \<and> butlast q = p}" by (rule inj_onI) (metis (mono_tags) append_butlast_last_id mem_Collect_eq)
  then have "inj_on last (set (filter (\<lambda>q. q \<noteq> [] \<and> butlast q = p) (map fst t)))" by (rule inj_on_subset) auto
  then show ?thesis unfolding children_def using assms by (simp only: distinct_map distinct_filter)
qed

lemma children_append: "children (t @ u) p = children t p @ children u p"
  by (simp add: children_def)

lemma children_none: "tree_ok t \<Longrightarrow> p \<noteq> [] \<Longrightarrow> map_of t p = None \<Longrightarrow> children t p = []"
proof -
  assume t: "tree_ok t" "p \<noteq> []" "map_of t p = None"
  have "c \<notin> set (children t p)" for c
  proof
    assume "c \<in> set (children t p)"
    then obtain x where "(p @ [c], x) \<in> set t" by (auto simp: children_set)
    then have "(p, Folder) \<in> set t" using tree_okD(3) [OF t(1)] t(2) by force
    with t(3) show False by (simp add: map_of_eq_None_iff image_iff) force
  qed
  then show ?thesis by (cases "children t p") auto
qed

text \<open>Nothing lies below a path that does not exist.\<close>

lemma prefix_exists:
  assumes "tree_ok t"
  shows "(q, x) \<in> set t \<Longrightarrow> take k q \<noteq> [] \<Longrightarrow> take k q \<in> set (map fst t)"
proof (induction "length q" arbitrary: q x)
  case (Suc n)
  show ?case
  proof (cases "k \<ge> length q")
    case True
    then show ?thesis using Suc.prems(1) by force
  next
    case False
    then have "take k (butlast q) = take k q" by (simp add: take_butlast)
    moreover have "butlast q \<noteq> []" using calculation Suc.prems(2) by auto
    then have "(butlast q, Folder) \<in> set t" using tree_okD(3) [OF assms Suc.prems(1)] by blast
    ultimately show ?thesis using Suc.hyps(1) [of "butlast q" Folder] Suc.hyps(2) Suc.prems(2) by simp
  qed
qed simp

lemma temp_not_dir: "\<not> dir_name (js ''temp--'' @ s)"
  by (simp add: dir_name_def tryParseChunkDir_def js_def decimal_char_def)

text \<open>The tree after the directory of a top has been ensured.\<close>

definition with_top :: "local_tree \<Rightarrow> jstr \<Rightarrow> local_tree" where
  "with_top t a = (if [a] \<in> set (map fst t) then t else t @ [([a], Folder)])"

lemma tree_ok_append:
  assumes "tree_ok t" "p \<notin> set (map fst t)" "p \<noteq> []" "butlast p = [] \<or> (butlast p, Folder) \<in> set t"
    "x = Folder \<or> 2 < length p \<or> length p = 2 \<and> \<not> dir_name (last p)"
  shows "tree_ok (t @ [(p, x)])"
  using assms unfolding tree_ok_def by (auto simp: numeral_2_eq_2)

lemma with_top_ok: "tree_ok t \<Longrightarrow> tree_ok (with_top t a)"
  by (auto simp: with_top_def intro: tree_ok_append)

lemma with_top_has: "tree_ok t \<Longrightarrow> top_name a \<Longrightarrow> ([a], Folder) \<in> set (with_top t a)"
  using tree_okD(4) [of t a] by (force simp: with_top_def)

lemma ensure_top: "tree_ok t \<Longrightarrow> top_name a \<Longrightarrow> ensureDir t [] [a] = Inr (with_top t a)"
proof -
  assume t: "tree_ok t" "top_name a"
  show ?thesis
  proof (cases "[a] \<in> set (map fst t)")
    case True
    then have "map_of t [a] = Some Folder" using t tree_okD(4) [OF t(1)] map_of_ok [OF t(1)] by force
    then show ?thesis using True by (simp add: with_top_def)
  next
    case False
    then have "map_of t [a] = None" by (simp add: map_of_eq_None_iff)
    then show ?thesis using False by (simp add: with_top_def)
  qed
qed

lemma children_top [simp]: "children (with_top t a) [b] = children t [b]"
  by (simp add: with_top_def children_append) (simp add: children_def)

lemma top_children: "set (children (with_top t a) []) = insert a (set (children t []))"
  by (force simp: with_top_def children_set)

lemma blocks_with_top: "d \<noteq> [] \<Longrightarrow> local_blocks (with_top t a) (b # d) = local_blocks t (b # d)"
  by (cases d) (simp_all add: local_blocks_def with_top_def map_add_def split: option.splits)

lemma temp_dir_new:
  assumes "unique_suffix fresh" "top_name a"
  obtains s where "temp_dir fresh t [a, d] = [a, js ''temp--'' @ s]" "[a, js ''temp--'' @ s] \<notin> set (map fst t)"
proof -
  let ?s = "d @ js ''--'' @ fresh t [a, js ''temp--'' @ d @ js ''--'']"
  have "temp_dir fresh t [a, d] = [a, js ''temp--'' @ ?s]" by (simp add: temp_dir_def Let_def)
  moreover have "[a] @ [(js ''temp--'' @ d @ js ''--'') @ fresh t ([a] @ [js ''temp--'' @ d @ js ''--''])] \<notin> set (map fst t)"
    using assms(1) unfolding unique_suffix_def by blast
  ultimately show thesis using that by simp
qed

lemma save_tree:
  assumes t: "tree_ok t" and a: "top_name a" "dir_name d" and d: "d \<notin> set (children t [a])" and u: "unique_suffix fresh"
  shows "fs_save (local_fs fresh) t [a, d] bs =
    (with_top t a @ [([a, d], Folder), ([a, d, blocks_file], BlocksFile bs)], None)"
proof -
  let ?t1 = "with_top t a"
  obtain s where tmp: "temp_dir fresh ?t1 [a, d] = [a, js ''temp--'' @ s]" and new: "[a, js ''temp--'' @ s] \<notin> set (map fst ?t1)"
    using temp_dir_new [OF u a(1)] by blast
  let ?tmp = "[a, js ''temp--'' @ s]"
  let ?t2 = "?t1 @ [(?tmp, Folder)]" and ?f = "?tmp @ [blocks_file]"
  have t1: "tree_ok ?t1" using with_top_ok [OF t] .
  have has: "map_of ?t1 [a] = Some Folder" using with_top_has [OF t a(1)] map_of_ok [OF t1] by simp
  have none: "map_of ?t1 ?tmp = None" using new by (simp add: map_of_eq_None_iff)
  have below: "take 2 q \<noteq> ?tmp" if "(q, x) \<in> set ?t1" for q x
  proof
    assume e: "take 2 q = ?tmp"
    then have "take 2 q \<noteq> []" by simp
    from prefix_exists [OF t1 that this] e new show False by simp
  qed
  have "map_of ?t1 ?f = None" using below [of ?f] by (force simp: map_of_eq_None_iff)
  then have written: "local_write False [] ?t2 ?f bs = Inr (?t2 @ [(?f, BlocksFile bs)])"
    using has none by (simp add: local_write_def writeFile_def map_add_def)
  have "d \<noteq> js ''temp--'' @ s" using a(2) temp_not_dir by blast
  moreover have "d \<notin> set (children ?t1 [a])" using d by simp
  then have "map_of ?t1 [a, d] = None"
    by (simp only: children_set append_Cons append_Nil map_of_eq_None_iff set_map not_False_eq_True)
  ultimately have none': "map_of (?t2 @ [(?f, BlocksFile bs)]) [a, d] = None" by (simp add: map_add_def)
  let ?move = "\<lambda>(q, x :: local_node). (if take (length ?tmp) q = ?tmp then [a, d] @ drop (length ?tmp) q else q, x)"
  have "map ?move ?t1 = ?t1" using below by (intro map_idI) (auto simp: numeral_2_eq_2)
  then have "map ?move (?t2 @ [(?f, BlocksFile bs)]) = ?t1 @ [([a, d], Folder), ([a, d, blocks_file], BlocksFile bs)]"
    by (simp only: map_append) simp
  then have "local_rename (?t2 @ [(?f, BlocksFile bs)]) ?tmp [a, d] =
      Inr (?t1 @ [([a, d], Folder), ([a, d, blocks_file], BlocksFile bs)])"
    by (simp only: local_rename_def Let_def none' option.case)
  then show ?thesis
    using ensure_top [OF t a(1)] tmp written by (simp add: local_fs_def transactDir_def)
qed

lemma same_chunks_with_top: "same_chunks (local_fs fresh) children {} t (with_top t a)"
  by (simp add: same_chunks_def local_fs_def blocks_with_top)

lemma top_names_with_top: "top_name a \<Longrightarrow> top_names children (with_top t a) = insert a (top_names children t)"
  by (auto simp: top_names_def top_children)

lemma children_deeper: "length q \<noteq> Suc (length p) \<Longrightarrow> children (t @ [(q, x)]) p = children t p"
  by (auto simp: children_append children_def)

lemma top_names_deeper: "length q \<noteq> 1 \<Longrightarrow> top_names children (t @ [(q, x)]) = top_names children t"
  unfolding top_names_def by (subst children_deeper) simp_all

lemma local_save:
  assumes t: "tree_ok t" and a: "top_name a" "dir_name d" and d: "d \<notin> set (children t [a])" and u: "unique_suffix fresh"
  shows "\<exists>t'. fs_save (local_fs fresh) t [a, d] bs = (t', None) \<and> tree_ok t' \<and>
    top_names children t' = insert a (top_names children t) \<and>
    same_chunks (local_fs fresh) children {[a, d]} t t' \<and> fs_blocks (local_fs fresh) t' [a, d] = Inr bs"
proof (intro exI conjI)
  let ?t1 = "with_top t a"
  let ?t' = "(?t1 @ [([a, d], Folder)]) @ [([a, d, blocks_file], BlocksFile bs)]"
  have t1: "tree_ok ?t1" using with_top_ok [OF t] .
  show "fs_save (local_fs fresh) t [a, d] bs = (?t', None)" using save_tree [OF assms] by simp
  have "d \<notin> set (children ?t1 [a])" using d by simp
  then have new: "[a, d] \<notin> set (map fst ?t1)" by (simp only: children_set append_Cons append_Nil not_False_eq_True)
  have below: "[a, d, blocks_file] \<notin> set (map fst (?t1 @ [([a, d], Folder)]))"
    using prefix_exists [OF t1, of "[a, d, blocks_file]" _ 2] new by (force simp: numeral_2_eq_2)
  have "tree_ok (?t1 @ [([a, d], Folder)])"
    using with_top_has [OF t a(1)] by (intro tree_ok_append t1 new) auto
  then show "tree_ok ?t'" using below by (rule tree_ok_append) (auto simp: numeral_2_eq_2)
  show "top_names children ?t' = insert a (top_names children t)"
    using top_names_with_top [OF a(1), of t] top_names_deeper [of "[a, d]" ?t1 Folder]
      top_names_deeper [of "[a, d, blocks_file]" "?t1 @ [([a, d], Folder)]" "BlocksFile bs"] by simp
  have names: "set (children ?t' [b]) = set (children t [b]) \<union> (if b = a then {d} else {})" for b
    by (auto simp: children_append) (auto simp: children_def)
  have "local_blocks ?t' [b, c] = local_blocks t [b, c]" if "[b, c] \<noteq> [a, d]" for b c
    using that blocks_with_top [of "[c]" t a b] by (auto simp: local_blocks_def map_add_def split: option.splits)
  then show "same_chunks (local_fs fresh) children {[a, d]} t ?t'"
    using names by (auto simp: same_chunks_def local_fs_def)
  have "map_of ?t1 [a, d, blocks_file] = None" using below by (simp add: map_of_eq_None_iff)
  then show "fs_blocks (local_fs fresh) ?t' [a, d] = Inr bs"
    by (simp add: local_fs_def local_blocks_def map_add_def)
qed

lemma same_chunks_append:
  assumes "same_chunks F children {} t u" "F = local_fs fresh" "\<And>b d. p = [b, d] \<Longrightarrow> \<not> dir_name d"
    "\<And>b d. top_name b \<Longrightarrow> dir_name d \<Longrightarrow> p \<noteq> [b, d, blocks_file]"
  shows "same_chunks F children {} t (u @ [(p, x)])"
proof -
  have "c \<in> set (children (u @ [(p, x)]) [b]) \<longleftrightarrow> c \<in> set (children u [b])" if "dir_name c" for b c
    using assms(3) [of b c] that by (auto simp: children_set)
  moreover have "local_blocks (u @ [(p, x)]) [b, c] = local_blocks u [b, c]" if "top_name b" "dir_name c" for b c
    using assms(4) [OF that] by (auto simp: local_blocks_def map_add_def split: option.splits)
  ultimately show ?thesis using assms(1) unfolding same_chunks_def assms(2) local_fs_def by simp
qed

lemma local_partial_ok:
  assumes t: "tree_ok t" and a: "top_name a" "dir_name d" and u: "unique_suffix fresh" and p: "local_partial fresh t [a, d] bs t'"
  shows "tree_ok t' \<and> (top_names children t' = top_names children t \<or> top_names children t' = insert a (top_names children t)) \<and>
    same_chunks (local_fs fresh) children {} t t'"
proof -
  let ?t1 = "with_top t a"
  obtain s where tmp: "temp_dir fresh ?t1 [a, d] = [a, js ''temp--'' @ s]" and new: "[a, js ''temp--'' @ s] \<notin> set (map fst ?t1)"
    using temp_dir_new [OF u a(1)] by blast
  let ?tmp = "[a, js ''temp--'' @ s]"
  let ?t2 = "?t1 @ [(?tmp, Folder)]"
  have t1: "tree_ok ?t1" using with_top_ok [OF t] .
  have t2: "tree_ok ?t2" using with_top_has [OF t a(1)] by (intro tree_ok_append t1 new) auto
  have "?tmp @ [blocks_file] \<notin> set (map fst ?t2)"
    using prefix_exists [OF t1, of "?tmp @ [blocks_file]" _ 2] new by (force simp: numeral_2_eq_2)
  then have t3: "tree_ok (?t2 @ [(?tmp @ [blocks_file], BlocksFile content)])" for content
    by (intro tree_ok_append t2) (auto simp: numeral_2_eq_2)
  note s1 = same_chunks_with_top [of fresh t a]
  have s2: "same_chunks (local_fs fresh) children {} t ?t2"
    by (rule same_chunks_append [OF s1 refl]) (use temp_not_dir in auto)
  have s3: "same_chunks (local_fs fresh) children {} t (?t2 @ [(?tmp @ [blocks_file], BlocksFile content)])" for content
    by (rule same_chunks_append [OF s2 refl]) (use temp_not_dir in auto)
  have tops2: "top_names children ?t2 = insert a (top_names children t)"
    using top_names_deeper [of ?tmp ?t1 Folder] top_names_with_top [OF a(1), of t] by simp
  moreover have tops3: "top_names children (?t2 @ [(?tmp @ [blocks_file], x)]) = insert a (top_names children t)" for x
    using top_names_deeper [of "?tmp @ [blocks_file]" ?t2 x] tops2 by simp
  have "same_chunks (local_fs fresh) children {} t t" by (simp add: same_chunks_def)
  moreover have "t' = t \<or> t' = ?t1 \<or> t' = ?t2 \<or> (\<exists>content. t' = ?t2 @ [(?tmp @ [blocks_file], BlocksFile content)])"
    using p ensure_top [OF t a(1)] tmp by (simp add: local_partial_def Let_def)
  ultimately show ?thesis using t t1 t2 t3 s1 s2 s3 tops2 tops3 top_names_with_top [OF a(1), of t] by auto
qed

lemma local_ls_ok:
  assumes t: "tree_ok t"
  shows "local_ls t [] = Inr (children t [])" "top_name a \<Longrightarrow> local_ls t [a] = Inr (children t [a])"
    "top_name a \<Longrightarrow> dir_name d \<Longrightarrow> local_ls t [a, d] = Inr (children t [a, d])"
proof -
  have top: "\<not> is_file t [a]" if "top_name a" for a
    using tree_okD(4) [OF t _ that] map_of_ok [OF t] by (auto simp: is_file_def split: option.splits local_node.splits)
  have dir: "\<not> is_file t [a, d]" if "top_name a" "dir_name d" for a d
    using tree_okD(5) [OF t _ that] map_of_ok [OF t] by (auto simp: is_file_def split: option.splits local_node.splits)
  have root: "\<not> is_file t []"
    using tree_okD(2) [OF t] map_of_ok [OF t] by (auto simp: is_file_def split: option.splits local_node.splits)
  show "local_ls t [] = Inr (children t [])" using root by (simp add: local_ls_def)
  show "local_ls t [a] = Inr (children t [a])" if "top_name a"
    using root top [OF that] children_none [OF t, of "[a]"] by (simp add: local_ls_def upt_rec)
  show "local_ls t [a, d] = Inr (children t [a, d])" if "top_name a" "dir_name d"
    using root top [OF that(1)] dir [OF that] children_none [OF t, of "[a, d]"] by (simp add: local_ls_def upt_rec)
qed

lemma local_chunk_store: "unique_suffix fresh \<Longrightarrow> chunk_store (local_fs fresh) tree_ok children (local_partial fresh)"
proof
  fix t assume "tree_ok t"
  then show "fs_ls (local_fs fresh) t [] = Inr (children t []) \<and> distinct (children t [])"
    using local_ls_ok children_distinct tree_okD(1) by (simp add: local_fs_def)
next
  fix t a assume "tree_ok t" "top_name a"
  then show "fs_ls (local_fs fresh) t [a] = Inr (children t [a]) \<and> distinct (children t [a])"
    using local_ls_ok children_distinct tree_okD(1) by (simp add: local_fs_def)
next
  fix t a d assume "tree_ok t" "top_name a" "dir_name d" "d \<in> set (children t [a])"
  then show "\<exists>files. fs_ls (local_fs fresh) t [a, d] = Inr files" using local_ls_ok by (simp add: local_fs_def)
next
  fix t a d bs assume "unique_suffix fresh" "tree_ok t" "top_name a" "dir_name d" "d \<notin> set (children t [a])"
  then show "\<exists>t'. fs_save (local_fs fresh) t [a, d] bs = (t', None) \<and> tree_ok t' \<and>
      top_names children t' = insert a (top_names children t) \<and>
      same_chunks (local_fs fresh) children {[a, d]} t t' \<and> fs_blocks (local_fs fresh) t' [a, d] = Inr bs"
    by (intro local_save)
next
  fix t a d bs t' assume "unique_suffix fresh" "tree_ok t" "top_name a" "dir_name d" "local_partial fresh t [a, d] bs t'"
  then show "tree_ok t' \<and> (top_names children t' = top_names children t \<or> top_names children t' = insert a (top_names children t)) \<and>
      same_chunks (local_fs fresh) children {} t t'"
    by (intro local_partial_ok)
qed

end
