(* ===== verification/Archive_Props.thy ===== *)
theory Archive_Props
  imports Archive_Local_Fs
begin

text \<open>
  What a user of the archive layout on the local file system may rely on: nothing that was saved is lost or comes twice,
  whatever happens to the processes that write, and the next session continues where the archive ends.
\<close>

text \<open>A suffix that is longer than every name in the tree.\<close>

definition long_suffix :: "local_tree \<Rightarrow> jstr list \<Rightarrow> jstr" where
  "long_suffix t p = replicate (Suc (sum_list (map (\<lambda>(q, x). length (last q)) t))) 120"

lemma long_suffix_unique: "unique_suffix long_suffix"
  unfolding unique_suffix_def
proof (intro allI notI)
  fix t :: local_tree and p prefix
  assume "p @ [prefix @ long_suffix t (p @ [prefix])] \<in> set (map fst t)"
  then obtain x where x: "(p @ [prefix @ long_suffix t (p @ [prefix])], x) \<in> set t" by auto
  have "length (prefix @ long_suffix t (p @ [prefix])) \<le> sum_list (map (\<lambda>(q, x). length (last q)) t)"
    by (rule member_le_sum_list) (use x in force, simp)
  then show False by (simp add: long_suffix_def)
qed

interpretation local_files: chunk_store "local_fs long_suffix" tree_ok children "local_partial long_suffix"
  by (rule local_chunk_store [OF long_suffix_unique])

lemma empty_tree: "tree_ok []" "children [] p = []" "top_names children [] = {}"
  by (simp_all add: tree_ok_def children_def top_names_def)

lemma local_life:
  assumes "unique_suffix fresh" and "block_height beg"
    and "archive_life (local_fs fresh) (local_partial fresh) n beg [] st bs"
  obtains es nxt x where "tree_ok (state_fs st)" "archived (local_fs fresh) children beg (state_fs st) es nxt x" "blocks_of es = bs"
    "linked beg bs nxt"
proof -
  note store = local_chunk_store [OF assms(1)]
  have "chunk_store.in_order (local_fs fresh) tree_ok children beg st bs"
    by (rule chunk_store.archive_life_in_order [OF store assms(2) _ _ _ assms(3)]) (simp_all add: empty_tree)
  then obtain es nxt x where a: "tree_ok (state_fs st)" "archived (local_fs fresh) children beg (state_fs st) es nxt x" "blocks_of es = bs"
    unfolding chunk_store.in_order_def [OF store] by blast
  moreover have "linked beg bs nxt" using chain_linked [OF archivedD(1) [OF a(2)]] a(3) by simp
  ultimately show thesis by (rule that)
qed

text \<open>C25: Writers whose blocks of one chunk follow each other (numbers that are safe integers, hashes that can name a
  directory) may be started and killed at any moment, one at a time, and may be given blocks from any position of the chain:
  the archive holds the blocks of
  the chunks that were saved, in order, without gaps or repetitions: they follow each other from the first block, and
  reading any range returns exactly its blocks, without an exception. A chunk that does not continue the archive is refused.
  Temporary directories and empty top directories
  of killed processes do no harm.\<close>

theorem archive_survives_kills:
  assumes "unique_suffix fresh" and "block_height beg"
    and "archive_life (local_fs fresh) (local_partial fresh) n beg [] st bs"
    and "assertRange r = Inr ()" and "\<And>bs. concat (arrive bs) = bs"
  shows "(\<exists>nxt. linked beg bs nxt) \<and>
    (\<exists>out. getRawBlocks (local_fs fresh) arrive len r None (state_fs st) = Inr out \<and> concat out = filter (block_in r) bs)"
proof -
  obtain es nxt x where a: "tree_ok (state_fs st)" "archived (local_fs fresh) children beg (state_fs st) es nxt x"
    "blocks_of es = bs" "linked beg bs nxt"
    by (rule local_life [OF assms(1-3)])
  then show ?thesis
    using chunk_store.getRawBlocks_archived [OF local_chunk_store [OF assms(1)] a(1,2) assms(4,5)] by blast
qed

text \<open>C26: A session continues where the archive ends: on whatever earlier sessions have left, \<open>appendRawBlocks\<close> asks for
  the block after the last saved one, and when the blocks that it is given follow each other from there, it ends without
  an exception, with all of them saved; reading the archive then returns the old blocks and the new ones.\<close>

theorem append_continues:
  assumes "unique_suffix fresh" and "block_height beg"
    and "archive_life (local_fs fresh) (local_partial fresh) n beg [] (Idle fs) bs" and "linked beg bs nxt"
    and "\<And>prevHash. blocks nxt prevHash = (batches, None)" and "linked nxt (concat batches) m" and "\<And>bs. concat (arrive bs) = bs"
  shows "\<exists>fs' out. appendRawBlocks (local_fs fresh) n (Some (from_block beg)) full blocks fs = (fs', None) \<and>
    getRawBlocks (local_fs fresh) arrive len (from_block beg) None fs' = Inr out \<and> concat out = bs @ concat batches"
proof -
  note store = local_chunk_store [OF assms(1)]
  obtain es k x where a: "tree_ok fs" "archived (local_fs fresh) children beg fs es k x" "blocks_of es = bs" "linked beg bs k"
    using local_life [OF assms(1-3)] unfolding state_fs_def archive_state.case by blast
  then have k: "k = nxt" using assms(4) linked_unique by blast
  have r: "rfrom (from_block beg) = beg" "assertRange (from_block beg) = Inr ()" "Num nxt \<le> rangeEnd (from_block beg)"
    using from_block_range [OF assms(2)] by (simp_all add: from_block_def rangeEnd_def)
  obtain fs' es' x' where f: "appendRawBlocks (local_fs fresh) n (Some (from_block beg)) full blocks fs = (fs', None)" "tree_ok fs'"
    "archived (local_fs fresh) children beg fs' (es @ es') m x'" "blocks_of es' = concat batches"
    using chunk_store.appendRawBlocks_archived [OF store a(1) a(2) [unfolded k] r, of blocks, OF assms(5,6)] by blast
  obtain out where o: "getRawBlocks (local_fs fresh) arrive len (from_block beg) None fs' = Inr out"
    "concat out = filter (block_in (from_block beg)) (blocks_of (es @ es'))"
    using chunk_store.getRawBlocks_archived [OF store f(2,3) r(2) assms(7)] by blast
  have "block_in (from_block beg) b" if "b \<in> set (blocks_of (es @ es'))" for b
    using linked_numbers [OF chain_linked [OF archivedD(1) [OF f(3)]] that] by (auto simp: block_in_def from_block_def rangeEnd_def)
  then have "filter (block_in (from_block beg)) (blocks_of (es @ es')) = bs @ concat batches"
    using a(3) f(4) by (intro trans [OF filter_True]) auto
  then show ?thesis using f(1) o by auto
qed

section \<open>An archive of three blocks\<close>

definition height_block :: "int \<Rightarrow> raw_block" where
  "height_block n = HeightBlock [97, 98, 48] n"

lemma height_block_simps [simp]:
  "peekBlockRef (height_block n) = Inr \<lparr>lr_hash = [97, 98, 48], lr_number = n, lr_parentNumber = None\<rparr>"
  "getBlockNumber (height_block n) = Inr n" "hash_ok (getShortHash [97, 98, 48])"
  by (simp_all add: height_block_def peekBlockRef_def getBlockNumber_def getShortHash_def str_slice_def rel_index_def hash_ok_def
      hash_char_def decimal_char_def)

lemma append_continues_witness:
  "\<exists>fs' out. appendRawBlocks (local_fs long_suffix) 2 (Some (from_block 0)) (\<lambda>bs. length bs > 1)
      (\<lambda>next prev. ([[height_block 0, height_block 1], [height_block 2]], None)) [] = (fs', None) \<and>
    getRawBlocks (local_fs long_suffix) (\<lambda>bs. [bs]) (\<lambda>_. 100) (from_block 0) None fs' = Inr out \<and>
    concat out = [] @ concat [[height_block 0, height_block 1], [height_block 2]]"
  by (rule append_continues [OF long_suffix_unique _ al_new, where nxt = 0 and m = 3])
    (simp_all add: block_height_def isSafeInteger_def chunk_start_def)

lemma three_blocks_saved:
  "\<exists>st. archive_life (local_fs long_suffix) (local_partial long_suffix) 2 0 [] st [height_block 0, height_block 1, height_block 2]"
proof -
  let ?life = "archive_life (local_fs long_suffix) (local_partial long_suffix) 2 0 []"
  let ?bs = "[height_block 0, height_block 1, height_block 2]"
  have 0: "block_height 0" by (simp add: block_height_def isSafeInteger_def)
  have a: "archived (local_fs long_suffix) children 0 [] [] 0 False" using empty_tree 0 by (simp add: archived_def)
  obtain s p where s: "append_start (local_fs long_suffix) (from_block 0) (\<lambda>_. True) [] = Inr ([], Some (s, p))" "writing [] 0 False s"
    by (rule local_files.append_start_archived [OF empty_tree(1) a, of "from_block 0"])
      (simp_all add: from_block_range [OF 0], simp_all add: from_block_def rangeEnd_def)
  let ?w = "\<lparr>rw_fs = [], rw_append = s, rw_firstBlock = None, rw_lastBlock = None, rw_out = []\<rparr>"
  have w: "local_files.at_work 0 ?w [] 0 0 False" using a s(2) empty_tree(1) by (simp add: local_files.at_work_def pending_def)
  have l: "linked 0 ?bs 3" by (simp add: chunk_start_def isSafeInteger_def)
  obtain w1 where w1: "raw_batch ?bs ?w = Inr w1" "local_files.at_work 0 w1 [] 0 3 False" "rw_out w1 = ?bs" "rw_firstBlock w1 \<noteq> None"
    by (rule local_files.raw_batch_work [OF w l]) simp_all
  obtain w2 c where w2: "raw_save (local_fs long_suffix) 2 w1 = (w2, None)"
    by (rule local_files.raw_save_work [OF w1(2,4)])
  have buf: "linked 0 (rw_out ?w @ ?bs) 3" using l by simp
  have "?life (Writing w1) []" by (rule al_batch [OF al_start [OF al_new s(1)] buf _ w1(1)]) simp
  from al_save [OF this w2] w1(3) show ?thesis by auto
qed

lemma archive_survives_kills_witness:
  "\<exists>st out. archive_life (local_fs long_suffix) (local_partial long_suffix) 2 0 [] st [height_block 0, height_block 1, height_block 2] \<and>
    getRawBlocks (local_fs long_suffix) (\<lambda>bs. [bs]) (\<lambda>_. 100) (from_block 1) None (state_fs st) = Inr out \<and>
    concat out = [height_block 1, height_block 2]"
proof -
  obtain st where st: "archive_life (local_fs long_suffix) (local_partial long_suffix) 2 0 [] st [height_block 0, height_block 1, height_block 2]"
    using three_blocks_saved by blast
  have h: "block_height 0" "block_height 1" by (simp_all add: block_height_def isSafeInteger_def)
  have "filter (block_in (from_block 1)) [height_block 0, height_block 1, height_block 2] = [height_block 1, height_block 2]"
    by (simp add: block_in_def from_block_def rangeEnd_def)
  then show ?thesis
    using archive_survives_kills [OF long_suffix_unique h(1) st from_block_range [OF h(2)], of "\<lambda>bs. [bs]" "\<lambda>_. 100"] st by auto
qed

section \<open>Listing one chunk\<close>

definition one_chunk :: data_chunk where
  "one_chunk = \<lparr>dc_top = 5, dc_from = 6, dc_to = 8, dc_hash = [97, 48]\<rparr>"

definition one_chunk_tree :: local_tree where
  "one_chunk_tree = [([formatBlockNumber 5], Folder), ([formatBlockNumber 5, chunk_dir one_chunk], Folder)]"

lemma one_chunk_valid: "valid_chunk one_chunk" "block_height 5"
  by (simp_all add: one_chunk_def valid_chunk_def block_height_def isSafeInteger_def hash_ok_def hash_char_def decimal_char_def)

lemma one_chunk_listing:
  "fs_ls (local_fs long_suffix) one_chunk_tree [] = Inr [formatBlockNumber 5]"
  "getTops (local_fs long_suffix) one_chunk_tree = Inr [5]"
  "readChunks (local_fs long_suffix) one_chunk_tree 5 None = Inr [one_chunk]"
proof -
  show ls: "fs_ls (local_fs long_suffix) one_chunk_tree [] = Inr [formatBlockNumber 5]"
    by (simp add: local_fs_def local_ls_def one_chunk_tree_def children_def is_file_def)
  have item: "top_item (formatBlockNumber 5) [] = Inr [5]"
    using tryParseTop_format [OF one_chunk_valid(2)] by (simp add: top_item_def)
  show "getTops (local_fs long_suffix) one_chunk_tree = Inr [5]" using ls item by (simp add: getTops_def)
  have dir: "fs_ls (local_fs long_suffix) one_chunk_tree [formatBlockNumber 5] = Inr [chunk_dir one_chunk]"
    by (simp add: local_fs_def local_ls_def one_chunk_tree_def children_def is_file_def)
  have "tryParseChunkDir (chunk_dir one_chunk) = Some (6, 8, [97, 48])"
    using tryParseChunkDir_dir [of one_chunk] one_chunk_valid(1) by (simp add: valid_chunk_def) (simp add: one_chunk_def)
  moreover have "checkChunk one_chunk (chunk_dir one_chunk) = Inr ()"
    using valid_chunk_message [OF one_chunk_valid(1)] by (simp add: checkChunk_def getChunkPath_def)
  ultimately have "chunk_item 5 None (chunk_dir one_chunk) [] = Inr [one_chunk]"
    by (simp add: chunk_item_def flip: one_chunk_def)
  then show "readChunks (local_fs long_suffix) one_chunk_tree 5 None = Inr [one_chunk]"
    using dir by (simp add: readChunks_def)
qed

text \<open>C27: \<open>getDataChunks\<close> yields exactly the chunks that meet the range: when the top directories can be listed and
  the chunks of each of them read, it ends without an exception, the chunks it yields are those of all directories
  whose blocks meet the range, in ascending order, and no two of them overlap.\<close>

theorem getDataChunks_exact:
  assumes "fs_ls F fs [] = Inr items" and "distinct items" and "getTops F fs = Inr tops" and "readable F fs tops chs"
    and "assertRange r = Inr ()"
  shows "getDataChunks F fs (Some r) = (filter (touches (rfrom r) (rangeEnd r)) (concat chs), None) \<and>
    sorted_wrt (\<lambda>a b. dc_to a < dc_from b) (concat chs)"
  using data_chunks_loop_exact [OF assms(4)] readable_ordered [OF assms(4)] getTops_sorted [OF assms(1-3)] assms(3,5)
  by (simp add: getDataChunks_def getRange_def)

lemma getDataChunks_exact_witness:
  "getDataChunks (local_fs long_suffix) one_chunk_tree (Some \<lparr>rfrom = 7, rto = Some 7\<rparr>) = ([one_chunk], None)"
  using getDataChunks_exact [OF one_chunk_listing(1) _ one_chunk_listing(2), of "[[one_chunk]]" "\<lparr>rfrom = 7, rto = Some 7\<rparr>"]
    one_chunk_listing(3)
  by (simp add: next_top_def assertRange_def isSafeInteger_def rangeEnd_def touches_def one_chunk_def)

end
