(* ===== verification/Rpc_Transport.thy ===== *)
theory Rpc_Transport
  imports Js_Values
begin

text \<open>
  What the RPC client exchanges with a server: requests, responses and failures (\<open>interfaces.ts\<close> and \<open>errors.ts\<close> of
  \<open>util/rpc-client/src\<close>, the errors of \<open>util/http-client/src/client.ts\<close>), which failures are worth a new attempt
  (\<open>isConnectionError\<close>), the connection over HTTP that pairs the responses of a batch with its requests
  (\<open>transport/http.ts\<close>), and the treatment of a response (\<open>receiveResult\<close>).

  The body of an HTTP response is what \<open>JSON.parse\<close> returned: null, an object, an array or a value without properties;
  properties that an object lacks are \<open>undefined\<close>.
\<close>

section \<open>Requests, responses, failures\<close>

record rpc_request =
  rq_id :: nat
  rq_method :: jstr
  rq_params :: "jsval option"

record rpc_call_args =
  ca_method :: jstr
  ca_params :: "jsval option"

record rpc_error_info =
  ei_code :: int
  ei_message :: jstr
  ei_data :: jsval

record rpc_response =
  rs_id :: jsval
  rs_result :: jsval
  rs_error :: "rpc_error_info option"

record fetch_error =
  fe_type :: jstr
  fe_message :: jstr
  fe_code :: "jstr option"

datatype rpc_failure =
    RetryError
  | RpcError rpc_error_info
  | RpcProtocolError int
  | RpcConnectionError
  | HttpError int
  | HttpTimeoutError int
  | FetchError fetch_error
  | LanguageError js_error

type_synonym 'a outcome = "rpc_failure + 'a"

definition obind :: "'a outcome \<Rightarrow> ('a \<Rightarrow> 'b outcome) \<Rightarrow> 'b outcome" where
  "obind r f = (case r of Inl e \<Rightarrow> Inl e | Inr x \<Rightarrow> f x)"

lemma obind_simps [simp]: "obind (Inl e) f = Inl e" "obind (Inr x) f = f x"
  by (simp_all add: obind_def)

lemma obind_eq_Inr: "obind r f = Inr y \<longleftrightarrow> (\<exists>x. r = Inr x \<and> f x = Inr y)"
  by (cases r) auto

fun omap :: "('a \<Rightarrow> 'b outcome) \<Rightarrow> 'a list \<Rightarrow> 'b list outcome" where
  "omap f [] = Inr []"
| "omap f (x # xs) = obind (f x) (\<lambda>y. obind (omap f xs) (\<lambda>ys. Inr (y # ys)))"

lemma omap_Inr:
  "omap f xs = Inr ys \<Longrightarrow> length ys = length xs \<and> (\<forall>i<length xs. f (xs ! i) = Inr (ys ! i))"
proof (induction xs arbitrary: ys)
  case (Cons x xs)
  then obtain y zs where "f x = Inr y" "omap f xs = Inr zs" "ys = y # zs" by (auto simp: obind_eq_Inr)
  with Cons.IH [of zs] show ?case by (auto simp: nth_Cons split: nat.split)
qed simp

lemma omap_total: "(\<And>x. x \<in> set xs \<Longrightarrow> f x = Inr (g x)) \<Longrightarrow> omap f xs = Inr (map g xs)"
  by (induction xs) auto

section \<open>Failures worth a new attempt\<close>

text \<open>
  The regular expressions of the source without the flag \<open>u\<close>: only the letters of ASCII have two cases, and \<open>.\<close> stops
  at the ends of lines.
\<close>

definition lower :: "nat \<Rightarrow> nat" where
  "lower c = (if 65 \<le> c \<and> c \<le> 90 then c + 32 else c)"

fun has_part :: "jstr \<Rightarrow> jstr \<Rightarrow> bool" where
  "has_part p [] \<longleftrightarrow> p = []"
| "has_part p (c # s) \<longleftrightarrow> take (length p) (c # s) = p \<or> has_part p s"

definition line_end :: "nat \<Rightarrow> bool" where
  "line_end c \<longleftrightarrow> c = 10 \<or> c = 13 \<or> c = 8232 \<or> c = 8233"

fun later_on_line :: "jstr \<Rightarrow> jstr \<Rightarrow> bool" where
  "later_on_line p [] \<longleftrightarrow> p = []"
| "later_on_line p (c # s) \<longleftrightarrow> take (length p) (c # s) = p \<or> \<not> line_end c \<and> later_on_line p s"

fun has_parts :: "jstr \<Rightarrow> jstr \<Rightarrow> jstr \<Rightarrow> bool" where
  "has_parts p q [] \<longleftrightarrow> p = [] \<and> q = []"
| "has_parts p q (c # s) \<longleftrightarrow>
     take (length p) (c # s) = p \<and> later_on_line q (drop (length p) (c # s)) \<or> has_parts p q s"

definition isRateLimitError :: "rpc_failure \<Rightarrow> bool" where
  "isRateLimitError err \<longleftrightarrow>
     (case err of RpcError info \<Rightarrow> has_part (js ''rate limit'') (map lower (ei_message info)) | _ \<Rightarrow> False)"

definition isExecutionTimeoutError :: "rpc_failure \<Rightarrow> bool" where
  "isExecutionTimeoutError err \<longleftrightarrow>
     (case err of RpcError info \<Rightarrow> has_part (js ''execution timeout'') (map lower (ei_message info)) | _ \<Rightarrow> False)"

definition isRequestTimedOutError :: "rpc_failure \<Rightarrow> bool" where
  "isRequestTimedOutError err \<longleftrightarrow>
     (case err of RpcError info \<Rightarrow> has_parts (js ''request'') (js ''timed out'') (map lower (ei_message info)) | _ \<Rightarrow> False)"

definition isHttpConnectionError :: "rpc_failure \<Rightarrow> bool" where
  "isHttpConnectionError err \<longleftrightarrow>
     (case err of
        FetchError e \<Rightarrow> fe_type e = js ''system'' \<and>
          (take 10 (fe_message e) = js ''request to'' \<or>
           fe_code e = Some (js ''ERR_STREAM_PREMATURE_CLOSE'') \<or>
           fe_code e = Some (js ''ECONNRESET''))
      | _ \<Rightarrow> False)"

definition isConnectionError :: "rpc_failure \<Rightarrow> bool" where
  "isConnectionError err \<longleftrightarrow>
     err = RetryError \<or> isRateLimitError err \<or> isExecutionTimeoutError err \<or> isRequestTimedOutError err \<or>
     err = RpcConnectionError \<or> isHttpConnectionError err \<or>
     (case err of
        HttpTimeoutError _ \<Rightarrow> True
      | HttpError status \<Rightarrow> status \<in> {408, 429, 502, 503, 504}
      | _ \<Rightarrow> False)"

section \<open>The connection over HTTP\<close>

datatype http_answer =
    AnswerNull
  | AnswerObject rpc_response
  | AnswerArray "rpc_response option list"
  | AnswerOther

definition http_call :: "rpc_request \<Rightarrow> http_answer outcome \<Rightarrow> rpc_response outcome" where
  "http_call req post = obind post (\<lambda>res.
     case res of
       AnswerNull \<Rightarrow> Inl (LanguageError TypeError)
     | AnswerObject r \<Rightarrow>
         if JNum (int (rq_id req)) \<noteq> rs_id r then
           (if rs_error r \<noteq> None then Inr r else Inl (RpcProtocolError 1008))
         else Inr r
     | _ \<Rightarrow> Inl (RpcProtocolError 1008))"

text \<open>
  \<open>res[i]\<close> may be null, whose property \<open>id\<close> cannot be read. The loop over both arrays looks for the first pair of
  different ids.
\<close>

definition response_of :: "rpc_response option \<Rightarrow> rpc_response outcome" where
  "response_of r = (case r of None \<Rightarrow> Inl (LanguageError TypeError) | Some x \<Rightarrow> Inr x)"

fun batch_reordered :: "rpc_request list \<Rightarrow> rpc_response option list \<Rightarrow> bool outcome" where
  "batch_reordered (b # bs) (r # rs) =
     obind (response_of r) (\<lambda>x. if JNum (int (rq_id b)) \<noteq> rs_id x then Inr True else batch_reordered bs rs)"
| "batch_reordered _ _ = Inr False"

definition find_response :: "(jsval \<times> rpc_response) list \<Rightarrow> rpc_request \<Rightarrow> rpc_response outcome" where
  "find_response entries b =
     (case map_of (rev entries) (JNum (int (rq_id b))) of
        None \<Rightarrow> Inl (RpcProtocolError 1008)
      | Some r \<Rightarrow> Inr r)"

definition http_batchCall :: "rpc_request list \<Rightarrow> http_answer outcome \<Rightarrow> rpc_response list outcome" where
  "http_batchCall batch post = obind post (\<lambda>res.
     case res of
       AnswerArray rs \<Rightarrow>
         if length rs \<noteq> length batch then Inl (RpcProtocolError 1008)
         else obind (batch_reordered batch rs) (\<lambda>reordered.
           if reordered then
             obind (omap (\<lambda>r. obind (response_of r) (\<lambda>x. Inr (rs_id x, x))) rs) (\<lambda>m. omap (find_response m) batch)
           else omap response_of rs)
     | AnswerObject r \<Rightarrow>
         (case rs_error r of Some error \<Rightarrow> Inl (RpcError error) | None \<Rightarrow> Inl (RpcProtocolError 1008))
     | _ \<Rightarrow> Inl (RpcProtocolError 1008))"

section \<open>The treatment of a response\<close>

text \<open>
  A validator may throw. The context that is added to an error is not modelled, but for its reading of the request, which
  is \<open>undefined\<close> when a connection returns more responses than there are requests.
\<close>

type_synonym validate_result = "jsval \<Rightarrow> rpc_request option \<Rightarrow> jsval outcome"
type_synonym validate_error = "rpc_error_info \<Rightarrow> rpc_request option \<Rightarrow> jsval outcome"

definition receiveResult ::
    "rpc_request option \<Rightarrow> rpc_response \<Rightarrow> validate_result option \<Rightarrow> validate_error option \<Rightarrow> jsval outcome" where
  "receiveResult call res validateResult validateError =
     (let r = (case rs_error res of
                 Some error \<Rightarrow>
                   (case validateError of Some validate \<Rightarrow> validate error call | None \<Rightarrow> Inl (RpcError error))
               | None \<Rightarrow>
                   (case validateResult of Some validate \<Rightarrow> validate (rs_result res) call | None \<Rightarrow> Inr (rs_result res)))
      in case r of Inr v \<Rightarrow> Inr v
         | Inl err \<Rightarrow> (case call of None \<Rightarrow> Inl (LanguageError TypeError) | Some _ \<Rightarrow> Inl err))"

section \<open>What a connection promises\<close>

text \<open>
  The interface \<open>Connection\<close>: it turns what came over the wire into the response of a call or the responses of a batch.
  A connection that is \<open>faithful\<close> answers a batch with one response for each request, in the order of the requests.
\<close>

locale rpc_connection =
  fixes con_call :: "rpc_request \<Rightarrow> 'a \<Rightarrow> rpc_response outcome"
    and con_batchCall :: "rpc_request list \<Rightarrow> 'a \<Rightarrow> rpc_response list outcome"
  assumes call_paired: "con_call req a = Inr r \<Longrightarrow> rs_id r = JNum (int (rq_id req)) \<or> rs_error r \<noteq> None"
    and batch_paired: "con_batchCall batch a = Inr rs \<Longrightarrow> map rs_id rs = map (\<lambda>b. JNum (int (rq_id b))) batch"
begin

lemma batch_length: "con_batchCall batch a = Inr rs \<Longrightarrow> length rs = length batch"
  using batch_paired [of batch a rs] by (metis length_map)

lemma batch_id:
  assumes "con_batchCall batch a = Inr rs" "i < length batch"
  shows "rs_id (rs ! i) = JNum (int (rq_id (batch ! i)))"
  using assms batch_length [OF assms(1)] arg_cong [OF batch_paired [OF assms(1)], of "\<lambda>l. l ! i"] by simp

end

lemma batch_in_order:
  assumes "batch_reordered batch rs = Inr False" "length rs = length batch" "omap response_of rs = Inr out"
  shows "map rs_id out = map (\<lambda>b. JNum (int (rq_id b))) batch"
  using assms
proof (induction batch rs arbitrary: out rule: batch_reordered.induct)
  case (1 b bs r rs)
  then show ?case by (auto simp: response_of_def obind_eq_Inr split: option.splits if_splits)
qed auto

lemma entries_paired:
  assumes "omap (\<lambda>r. obind (response_of r) (\<lambda>x. Inr (rs_id x, x))) rs = Inr m" "(k, x) \<in> set m"
  shows "rs_id x = k"
  using assms by (induction rs arbitrary: m) (auto simp: obind_eq_Inr)

lemma find_response_id:
  assumes "\<forall>(k, x)\<in>set m. rs_id x = k" "find_response m b = Inr x"
  shows "rs_id x = JNum (int (rq_id b))"
  using assms map_of_SomeD [of "rev m" "JNum (int (rq_id b))" x] by (auto simp: find_response_def split: option.splits)

lemma batch_found:
  assumes "\<forall>(k, x)\<in>set m. rs_id x = k" "omap (find_response m) batch = Inr out"
  shows "map rs_id out = map (\<lambda>b. JNum (int (rq_id b))) batch"
  using omap_Inr [OF assms(2)] find_response_id [OF assms(1)] by (auto intro: nth_equalityI)

lemma http_batchCall_paired:
  assumes "http_batchCall batch post = Inr out"
  shows "map rs_id out = map (\<lambda>b. JNum (int (rq_id b))) batch"
proof -
  obtain rs reordered where rs: "post = Inr (AnswerArray rs)" "length rs = length batch"
      "batch_reordered batch rs = Inr reordered"
    and out: "(if reordered then
        obind (omap (\<lambda>r. obind (response_of r) (\<lambda>x. Inr (rs_id x, x))) rs) (\<lambda>m. omap (find_response m) batch)
      else omap response_of rs) = Inr out"
  proof -
    obtain res where res: "post = Inr res" using assms by (cases post) (auto simp: http_batchCall_def)
    then obtain rs where "res = AnswerArray rs" using assms by (cases res) (auto simp: http_batchCall_def split: option.splits)
    with res assms show thesis
      by (cases "batch_reordered batch rs") (auto simp: http_batchCall_def split: if_splits intro: that)
  qed
  show ?thesis
  proof (cases reordered)
    case False
    then show ?thesis using batch_in_order rs out by simp
  next
    case True
    then obtain m where m: "omap (\<lambda>r. obind (response_of r) (\<lambda>x. Inr (rs_id x, x))) rs = Inr m"
        "omap (find_response m) batch = Inr out"
      using out by (auto simp: obind_eq_Inr)
    then show ?thesis using entries_paired [OF m(1)] by (intro batch_found [of m]) auto
  qed
qed

interpretation http: rpc_connection http_call http_batchCall
proof unfold_locales
  show "http_call req a = Inr r \<Longrightarrow> rs_id r = JNum (int (rq_id req)) \<or> rs_error r \<noteq> None" for req a r
    by (cases a; cases "projr a") (auto simp: http_call_def split: if_splits)
  show "http_batchCall batch a = Inr rs \<Longrightarrow> map rs_id rs = map (\<lambda>b. JNum (int (rq_id b))) batch" for batch a rs
    by (rule http_batchCall_paired)
qed

lemma batch_reordered_total: "\<exists>b. batch_reordered batch (map Some rs) = Inr b"
  by (induction batch "map Some rs" arbitrary: rs rule: batch_reordered.induct) (auto simp: response_of_def)

lemma http_batch_permuted:
  assumes "distinct (map rq_id batch)" "mset (map rs_id rs) = mset (map (\<lambda>b. JNum (int (rq_id b))) batch)"
  shows "\<exists>out. http_batchCall batch (Inr (AnswerArray (map Some rs))) = Inr out \<and> mset out = mset rs"
proof -
  let ?id = "\<lambda>b. JNum (int (rq_id b))"
  have len: "length rs = length batch" using arg_cong [OF assms(2), of size] by simp
  obtain reordered where r: "batch_reordered batch (map Some rs) = Inr reordered" using batch_reordered_total by blast
  show ?thesis
  proof (cases reordered)
    case False
    have "omap response_of (map Some rs) = Inr rs" by (induction rs) (auto simp: response_of_def)
    then show ?thesis using r False len by (simp add: http_batchCall_def)
  next
    case True
    let ?m = "map (\<lambda>x. (rs_id x, x)) rs"
    have m: "omap (\<lambda>r. obind (response_of r) (\<lambda>x. Inr (rs_id x, x))) (map Some rs) = Inr ?m"
      by (induction rs) (auto simp: response_of_def)
    have ids: "set (map rs_id rs) = ?id ` set batch" using arg_cong [OF assms(2), of set_mset] by simp
    have "\<exists>x. find_response ?m b = Inr x \<and> x \<in> set rs" if "b \<in> set batch" for b
    proof -
      have "?id b \<in> fst ` set (rev ?m)" using that ids by (auto simp: image_image)
      then obtain x where "map_of (rev ?m) (?id b) = Some x" by (metis map_of_eq_None_iff not_Some_eq)
      then show ?thesis using map_of_SomeD [of "rev ?m" "?id b" x] by (auto simp: find_response_def)
    qed
    then obtain g where g: "\<And>b. b \<in> set batch \<Longrightarrow> find_response ?m b = Inr (g b) \<and> g b \<in> set rs" by metis
    then have out: "omap (find_response ?m) batch = Inr (map g batch)" by (intro omap_total) simp
    have gid: "map rs_id (map g batch) = map ?id batch" by (rule batch_found [OF _ out]) auto
    have di: "distinct (map ?id batch)" using assms(1) by (auto simp: distinct_map inj_on_def)
    then have "distinct (map rs_id rs)" by (rule mset_eq_imp_distinct_iff [THEN iffD2, OF assms(2)])
    then have drs: "distinct rs" by (simp add: distinct_map)
    have "distinct (map rs_id (map g batch))" unfolding gid by (rule di)
    then have dg: "distinct (map g batch)" by (simp only: distinct_map [of rs_id])
    have "set (map g batch) = set rs"
    proof (rule card_subset_eq)
      show "set (map g batch) \<subseteq> set rs" using g by auto
      show "card (set (map g batch)) = card (set rs)" using distinct_card [OF dg] distinct_card [OF drs] len by simp
    qed simp
    then have "mset (map g batch) = mset rs" using set_eq_iff_mset_eq_distinct [OF dg drs] by simp
    then show ?thesis using r True len m out by (simp add: http_batchCall_def)
  qed
qed

end
