(* ===== verification/Rpc_Queue.thy ===== *)
theory Rpc_Queue
  imports Binary_Heap Rpc_Transport
begin

text \<open>
  The queue of the RPC client: the heap of waiting requests under \<open>byPriority\<close> (\<open>util/rpc-client/src/client.ts\<close>), first by
  priority and then by the number of the call. No single number orders the requests, but the heap only looks at the sign
  of a comparison, and on finitely many requests it is the one of a number: the locale \<open>comparison\<close> transfers what
  Binary_Heap proves to every such comparison.
\<close>

section \<open>Requests\<close>

datatype rpc_calls = Single rpc_request | Batch "rpc_request list"

record req =
  re_call :: rpc_calls
  re_priority :: int
  re_timeout :: int
  re_retryAttempts :: int
  re_validateResult :: "validate_result option"
  re_validateError :: "validate_error option"

definition getCallPriority :: "req \<Rightarrow> nat" where
  "getCallPriority r = (case re_call r of Batch calls \<Rightarrow> rq_id (calls ! 0) | Single call \<Rightarrow> rq_id call)"

definition byPriority :: "req \<Rightarrow> req \<Rightarrow> int" where
  "byPriority a b =
     (let p = re_priority a - re_priority b
      in if p \<noteq> 0 then p else int (getCallPriority a) - int (getCallPriority b))"

section \<open>The heap looks at signs only\<close>

definition same_signs :: "('a \<Rightarrow> 'a \<Rightarrow> int) \<Rightarrow> ('a \<Rightarrow> 'a \<Rightarrow> int) \<Rightarrow> 'a set \<Rightarrow> bool" where
  "same_signs c d A \<longleftrightarrow> (\<forall>x\<in>A. \<forall>y\<in>A. c x y < 0 \<longleftrightarrow> d x y < 0)"

lemma same_signsD: "same_signs c d A \<Longrightarrow> x \<in> A \<Longrightarrow> y \<in> A \<Longrightarrow> c x y < 0 \<longleftrightarrow> d x y < 0"
  by (simp add: same_signs_def)

lemma same_signs_mono: "same_signs c d A \<Longrightarrow> B \<subseteq> A \<Longrightarrow> same_signs c d B"
  by (auto simp: same_signs_def)

lemma set_update_nth: "p < length a \<Longrightarrow> set (a[pos := a ! p]) \<subseteq> set a"
  using set_update_subset_insert [of a pos "a ! p"] by auto

lemma heap_push_loop_signs:
  assumes "same_signs c d (insert v (set a))" "pos < length a"
  shows "heap_push_loop c a v pos = heap_push_loop d a v pos"
  using assms
proof (induction d a v pos rule: heap_push_loop.induct)
  case (1 d a v pos)
  show ?case
  proof (cases "0 < pos")
    case True
    have p: "parent pos < length a" using True 1(3) by (rule parent_lt)
    have "c (a ! parent pos) v < 0 \<longleftrightarrow> d (a ! parent pos) v < 0" using 1(2) p by (intro same_signsD) auto
    moreover have "heap_push_loop c (a[pos := a ! parent pos]) v (parent pos) = heap_push_loop d (a[pos := a ! parent pos]) v (parent pos)"
      if "\<not> d (a ! parent pos) v < 0"
      using that True p set_update_nth [OF p, of pos] by (intro 1(1)) (auto intro: same_signs_mono [OF 1(2)])
    ultimately show ?thesis using True by (subst (1 2) heap_push_loop.simps) (simp add: Let_def)
  qed (subst (1 2) heap_push_loop.simps, simp)
qed

lemma siftDown_next_signs:
  assumes "same_signs c d (insert v (set a))" "lst < length a"
  shows "siftDown_next c a v pos lst = siftDown_next d a v pos lst"
proof -
  have "c (a ! i) v < 0 \<longleftrightarrow> d (a ! i) v < 0" if "i \<le> lst" for i using that assms by (intro same_signsD) auto
  moreover have "c (a ! i) (a ! j) < 0 \<longleftrightarrow> d (a ! i) (a ! j) < 0" if "i \<le> lst" "j \<le> lst" for i j
    using that assms by (intro same_signsD) auto
  ultimately show ?thesis by (simp add: siftDown_next_def Let_def)
qed

lemma siftDown_signs:
  assumes "same_signs c d (insert v (set a))" "lst < length a"
  shows "siftDown c a v pos lst = siftDown d a v pos lst"
  using assms
proof (induction d a v pos lst rule: siftDown.induct)
  case (1 d a v pos lst)
  have nxt: "siftDown_next c a v pos lst = siftDown_next d a v pos lst" using 1(2,3) by (rule siftDown_next_signs)
  show ?case
  proof (cases "siftDown_next d a v pos lst = pos")
    case False
    then have n: "siftDown_next d a v pos lst < length a" using siftDown_next_bounds [of d a v pos lst] 1(3) by auto
    have "siftDown c (a[pos := a ! siftDown_next d a v pos lst]) v (siftDown_next d a v pos lst) lst =
        siftDown d (a[pos := a ! siftDown_next d a v pos lst]) v (siftDown_next d a v pos lst) lst"
      using False 1(3) set_update_nth [OF n, of pos] by (intro 1(1)) (auto intro: same_signs_mono [OF 1(2)])
    then show ?thesis using False nxt by (subst (1 2) siftDown.simps) (simp add: Let_def)
  qed (subst (1 2) siftDown.simps, simp add: nxt)
qed

lemma heap_push_signs: "same_signs c d (insert x (set a)) \<Longrightarrow> heap_push c x a = heap_push d x a"
  unfolding heap_push_def by (rule heap_push_loop_signs) simp_all

lemma heap_pop_signs:
  assumes "same_signs c d (set a)"
  shows "heap_pop c a = heap_pop d a"
proof (cases "butlast a = []")
  case False
  then have "a \<noteq> []" by auto
  then have "insert (last a) (set (butlast a)) \<subseteq> set a" by (auto dest: in_set_butlastD)
  moreover have "length (butlast a) - 1 < length (butlast a)" using False by (cases "butlast a") auto
  ultimately have "siftDown c (butlast a) (last a) 0 (length (butlast a) - 1) = siftDown d (butlast a) (last a) 0 (length (butlast a) - 1)"
    by (intro siftDown_signs same_signs_mono [OF assms])
  then show ?thesis by (simp add: heap_pop_def Let_def)
qed (auto simp: heap_pop_def Let_def)

section \<open>Comparisons with the sign of a number\<close>

definition heap_ordered :: "('a \<Rightarrow> 'a \<Rightarrow> int) \<Rightarrow> 'a list \<Rightarrow> bool" where
  "heap_ordered c a \<longleftrightarrow> (\<forall>i. 0 < i \<and> i < length a \<longrightarrow> \<not> c (a ! i) (a ! parent i) < 0)"

locale comparison =
  fixes compare :: "'a \<Rightarrow> 'a \<Rightarrow> int"
  assumes numbered: "finite A \<Longrightarrow> \<exists>f. same_signs compare (by_key f) A"
begin

lemma heap_ordered_key:
  assumes "same_signs compare (by_key f) (set a)"
  shows "heap_ordered compare a \<longleftrightarrow> is_heap f a"
proof -
  have "compare (a ! i) (a ! parent i) < 0 \<longleftrightarrow> f (a ! i) < f (a ! parent i)" if "0 < i" "i < length a" for i
    using same_signsD [OF assms, of "a ! i" "a ! parent i"] that parent_lt [OF that] by (simp add: by_key_def)
  then show ?thesis by (auto simp: heap_ordered_def heap_from_def not_less)
qed

lemma ordered_Nil [simp]: "heap_ordered compare []"
  by (simp add: heap_ordered_def)

lemma ordered_push:
  assumes "heap_ordered compare a"
  shows "heap_ordered compare (heap_push compare x a)"
proof -
  obtain f where f: "same_signs compare (by_key f) (insert x (set a))" using numbered [of "insert x (set a)"] by auto
  have "is_heap f a" using assms heap_ordered_key [OF same_signs_mono [OF f]] by blast
  then have h: "is_heap f (heap_push (by_key f) x a)" by (rule heap.push_inv)
  have "set (heap_push (by_key f) x a) = insert x (set a)"
    using arg_cong [OF heap_push_mset [of "by_key f" x a], of set_mset] by simp
  then show ?thesis using heap_ordered_key [of f "heap_push (by_key f) x a"] f h unfolding heap_push_signs [OF f] by metis
qed

lemma push_mset: "mset (heap_push compare x a) = add_mset x (mset a)"
  by (rule heap_push_mset)

lemma ordered_pop:
  assumes "heap_ordered compare a" "a \<noteq> []"
  obtains x h where "heap_pop compare a = (Some x, h)" "mset a = add_mset x (mset h)" "heap_ordered compare h"
    "\<And>y. y \<in> set a \<Longrightarrow> \<not> compare y x < 0"
proof -
  obtain f where f: "same_signs compare (by_key f) (set a)" using numbered [of "set a"] by auto
  have h: "is_heap f a" using assms(1) heap_ordered_key [OF f] by blast
  obtain x b where x: "heap_pop (by_key f) a = (Some x, b)" "mset a = add_mset x (mset b)" "is_heap f b"
      "\<forall>y\<in>set a. f x \<le> f y"
    using heap.pop_elems [OF h] heap.pop_inv [OF h] assms(2) by (cases "heap_pop (by_key f) a") auto
  have sub: "set b \<subseteq> set a" "x \<in> set a" using arg_cong [OF x(2), of set_mset] by auto
  have "heap_ordered compare b" using heap_ordered_key [OF same_signs_mono [OF f sub(1)]] x(3) by blast
  moreover have "\<not> compare y x < 0" if "y \<in> set a" for y
    using same_signsD [OF f that sub(2)] x(4) that by (auto simp: by_key_def not_less)
  ultimately show thesis using x heap_pop_signs [OF f] by (intro that [of x b]) auto
qed

end

lemma byPriority_less:
  "byPriority a b < 0 \<longleftrightarrow>
     re_priority a < re_priority b \<or> re_priority a = re_priority b \<and> getCallPriority a < getCallPriority b"
  by (auto simp: byPriority_def Let_def)

interpretation priority: comparison byPriority
proof unfold_locales
  fix A :: "req set" assume "finite A"
  then have "finite (getCallPriority ` A)" by simp
  then obtain M where M: "\<forall>k\<in>getCallPriority ` A. k < M" using finite_nat_set_iff_bounded by auto
  define f where "f r = re_priority r * int M + int (getCallPriority r)" for r
  have "byPriority x y < 0 \<longleftrightarrow> f x < f y" if "x \<in> A" "y \<in> A" for x y
  proof -
    have less: "f a < f b" if "a \<in> A" "b \<in> A" "re_priority a < re_priority b" for a b
    proof -
      have "(re_priority a + 1) * int M \<le> re_priority b * int M" using that by (intro mult_right_mono) auto
      then show ?thesis using M that by (auto simp: f_def distrib_right)
    qed
    show ?thesis
      using less [of x y] less [of y x] that
      by (cases "re_priority x" "re_priority y" rule: linorder_cases) (auto simp: byPriority_less f_def)
  qed
  then show "\<exists>f. same_signs byPriority (by_key f) A" by (auto simp: same_signs_def by_key_def intro!: exI [of _ f])
qed

end
