(* ===== verification/Rpc_Rate.thy ===== *)
theory Rpc_Rate
  imports Prelude Complex_Main
begin

text \<open>
  The meter that limits the rate of remote calls, \<open>util/rpc-client/src/rate.ts\<close>: a ring of counters, one per slot of
  time, of the last \<open>windowSize + 1\<close> slots. It is proved to be the log of all calls, summed over the window
  (\<open>getRate_measures\<close>). Times are milliseconds; the division of numbers is that of the rational numbers.
\<close>

section \<open>The meter\<close>

record rate_meter =
  rm_windowSize :: nat
  rm_slotTime :: int
  rm_window :: "int list"
  rm_time :: int

definition RateMeter_new :: "nat \<Rightarrow> int \<Rightarrow> rate_meter" where
  "RateMeter_new windowSize slotTime =
     \<lparr>rm_windowSize = windowSize, rm_slotTime = slotTime, rm_window = replicate (windowSize + 1) 0, rm_time = 0\<rparr>"

text \<open>\<open>Math.ceil(now / slotTime)\<close>\<close>

definition slot_of :: "int \<Rightarrow> int \<Rightarrow> int" where
  "slot_of slotTime now = - ((- now) div slotTime)"

definition toTime :: "int \<Rightarrow> rate_meter \<Rightarrow> int result" where
  "toTime now m =
     (let time = max (slot_of (rm_slotTime m) now) (rm_time m)
      in rbind (js_assert (time > int (length (rm_window m)))) (\<lambda>_. Inr time))"

definition ring_index :: "int list \<Rightarrow> int \<Rightarrow> nat" where
  "ring_index w t = nat (t mod int (length w))"

function clear_slots :: "int list \<Rightarrow> int \<Rightarrow> int \<Rightarrow> int list" where
  "clear_slots w cutoff low = (if cutoff > low then clear_slots (w[ring_index w cutoff := 0]) (cutoff - 1) low else w)"
  by pat_completeness auto
termination
  by (relation "measure (\<lambda>(w, cutoff, low). nat (cutoff - low))") auto

definition meter_inc :: "int \<Rightarrow> int \<Rightarrow> rate_meter \<Rightarrow> rate_meter result" where
  "meter_inc n now m =
     rbind (toTime now m) (\<lambda>now.
       let cutoff = now - int (length (rm_window m));
           w = (if rm_time m > cutoff then clear_slots (rm_window m) cutoff (rm_time m - int (length (rm_window m)))
                else replicate (length (rm_window m)) 0)
       in Inr (m\<lparr>rm_window := w[ring_index w now := w ! ring_index w now + n], rm_time := now\<rparr>))"

function sum_slots :: "int list \<Rightarrow> int \<Rightarrow> int \<Rightarrow> int" where
  "sum_slots w time cutoff = (if time > cutoff then w ! ring_index w time + sum_slots w (time - 1) cutoff else 0)"
  by pat_completeness auto
termination
  by (relation "measure (\<lambda>(w, time, cutoff). nat (time - cutoff))") auto

declare clear_slots.simps [simp del] sum_slots.simps [simp del]

definition getRate :: "int \<Rightarrow> rate_meter \<Rightarrow> rat result" where
  "getRate now m =
     rbind (toTime now m) (\<lambda>now.
       Inr (1000 * of_int (sum_slots (rm_window m) (rm_time m) (now - int (length (rm_window m)))) /
         of_int (int (rm_windowSize m) * rm_slotTime m)))"

section \<open>What it measures\<close>

text \<open>The calls that were counted, with their slots, and how many of them lie in a span of slots.\<close>

type_synonym meter_log = "(int \<times> int) list"

definition counted :: "meter_log \<Rightarrow> int \<Rightarrow> int \<Rightarrow> int" where
  "counted lg low high = (\<Sum>(t, n)\<leftarrow>lg. if low < t \<and> t \<le> high then n else 0)"

definition in_slot :: "meter_log \<Rightarrow> int \<Rightarrow> int" where
  "in_slot lg s = (\<Sum>(t, n)\<leftarrow>lg. if t = s then n else 0)"

definition measures :: "rate_meter \<Rightarrow> meter_log \<Rightarrow> bool" where
  "measures m lg \<longleftrightarrow>
     length (rm_window m) = Suc (rm_windowSize m) \<and> 0 \<le> rm_time m \<and>
     (\<forall>(t, n)\<in>set lg. t \<le> rm_time m) \<and>
     (\<forall>t. rm_time m - int (length (rm_window m)) < t \<and> t \<le> rm_time m \<longrightarrow> rm_window m ! ring_index (rm_window m) t = in_slot lg t)"

lemma clear_slots_length [simp]: "length (clear_slots w c low) = length w"
  by (induction w c low rule: clear_slots.induct) (subst clear_slots.simps, simp)

lemma ring_index_less: "0 < length w \<Longrightarrow> ring_index w t < length w"
  by (simp add: ring_index_def nat_less_iff)

lemma ring_index_length: "length v = length w \<Longrightarrow> ring_index v t = ring_index w t"
  by (simp add: ring_index_def)

lemma ring_index_eq:
  assumes "0 < length w" "ring_index w s = ring_index w t" "\<bar>s - t\<bar> < int (length w)"
  shows "s = t"
proof -
  have "s mod int (length w) = t mod int (length w)"
    using assms(1,2) by (simp add: ring_index_def eq_nat_nat_iff)
  then have "int (length w) dvd s - t" by (simp add: mod_eq_dvd_iff)
  then show ?thesis using assms(3) zdvd_not_zless [of "\<bar>s - t\<bar>" "int (length w)"] by (cases "s = t") auto
qed

text \<open>The slots from below \<open>low\<close> to \<open>c\<close> are cleared, which are those of the new times in the ring.\<close>

lemma clear_slots_nth:
  assumes "0 < length w" and "c - low \<le> int (length w)" and "low < t" "t \<le> low + int (length w)"
  shows "clear_slots w c low ! ring_index w t = (if t \<le> c then 0 else w ! ring_index w t)"
  using assms
proof (induction w c low rule: clear_slots.induct)
  case (1 w c low)
  show ?case
  proof (cases "c > low")
    case True
    let ?w = "w[ring_index w c := 0]"
    have IH: "clear_slots ?w (c - 1) low ! ring_index w t = (if t \<le> c - 1 then 0 else ?w ! ring_index w t)"
      using 1 True ring_index_length [of ?w w] by auto
    have "?w ! ring_index w t = (if t = c then 0 else w ! ring_index w t)"
    proof (cases "ring_index w c = ring_index w t")
      case True
      have "\<bar>c - t\<bar> < int (length w)" using 1(3-5) \<open>c > low\<close> by linarith
      from ring_index_eq [OF 1(2) True this] show ?thesis using ring_index_less [OF 1(2)] by simp
    qed auto
    then show ?thesis using True IH by (subst clear_slots.simps) auto
  next
    case False
    then show ?thesis using 1(4) by (subst clear_slots.simps) simp
  qed
qed

lemma in_slot_Cons: "in_slot ((t, n) # lg) s = (if t = s then n else 0) + in_slot lg s"
  by (simp add: in_slot_def)

lemma in_slot_later: "(\<forall>(t, n)\<in>set lg. t \<le> m) \<Longrightarrow> m < s \<Longrightarrow> in_slot lg s = 0"
  by (induction lg) (auto simp: in_slot_def)

lemma counted_split: "low < high \<Longrightarrow> counted lg low high = in_slot lg high + counted lg low (high - 1)"
  by (induction lg) (auto simp: counted_def in_slot_def)

lemma counted_empty: "high \<le> low \<Longrightarrow> counted lg low high = 0"
  by (induction lg) (auto simp: counted_def)

lemma sum_slots_counted:
  assumes "\<And>t. low < t \<Longrightarrow> t \<le> high \<Longrightarrow> w ! ring_index w t = in_slot lg t"
  shows "sum_slots w high low = counted lg low high"
  using assms
proof (induction w high low rule: sum_slots.induct)
  case (1 w high low)
  then show ?case by (subst sum_slots.simps) (simp add: counted_split counted_empty)
qed

lemma counted_top: "(\<forall>(t, n)\<in>set lg. t \<le> m) \<Longrightarrow> m \<le> high \<Longrightarrow> counted lg low high = counted lg low m"
  unfolding counted_def by (intro arg_cong [where f = sum_list] map_cong) auto

lemma new_measures: "measures (RateMeter_new n s) []"
proof -
  have "replicate (n + 1) (0 :: int) ! ring_index (replicate (n + 1) (0 :: int)) t = 0" for t
    using ring_index_less [of "replicate (n + 1) (0 :: int)" t] by (simp only: length_replicate nth_replicate)
  then show ?thesis by (simp only: measures_def RateMeter_new_def in_slot_def rate_meter.simps) simp
qed

lemma inc_measures:
  assumes m: "measures m lg" and inc: "meter_inc n now m = Inr m'"
  shows "\<exists>t. toTime now m = Inr t \<and> rm_time m \<le> t \<and> measures m' ((t, n) # lg) \<and> rm_time m' = t \<and>
    rm_slotTime m' = rm_slotTime m \<and> rm_windowSize m' = rm_windowSize m"
proof -
  obtain t where t: "toTime now m = Inr t" using inc by (auto simp: meter_inc_def result_simps)
  have "rm_time m \<le> t" using t by (auto simp: toTime_def result_simps Let_def)
  let ?L = "int (length (rm_window m))"
  define w where "w = (if rm_time m > t - ?L then clear_slots (rm_window m) (t - ?L) (rm_time m - ?L) else replicate (length (rm_window m)) 0)"
  have m': "m' = m\<lparr>rm_window := w[ring_index w t := w ! ring_index w t + n], rm_time := t\<rparr>"
    using inc t by (simp add: meter_inc_def w_def Let_def)
  have len: "length w = length (rm_window m)" by (simp add: w_def)
  then have len: "length w = length (rm_window m)" "0 < length w" using m by (simp_all add: measures_def)
  have old: "rm_window m ! ring_index (rm_window m) s = in_slot lg s" if "rm_time m - ?L < s" "s \<le> rm_time m" for s
    using m that by (auto simp: measures_def)
  have below: "\<forall>(s, k)\<in>set lg. s \<le> rm_time m" using m by (simp add: measures_def)
  have w: "w ! ring_index w s = in_slot lg s" if s: "t - ?L < s" "s \<le> t" for s
  proof (cases "rm_time m > t - ?L")
    case False
    then have "w ! ring_index w s = 0" using ring_index_less [of w s] len by (simp add: w_def)
    then show ?thesis using in_slot_later [OF below] False s by simp
  next
    case True
    have "ring_index w s = ring_index (rm_window m) s" using len(1) by (rule ring_index_length)
    moreover have "clear_slots (rm_window m) (t - ?L) (rm_time m - ?L) ! ring_index (rm_window m) s = in_slot lg s"
    proof (cases "s \<le> rm_time m")
      case True
      have "clear_slots (rm_window m) (t - ?L) (rm_time m - ?L) ! ring_index (rm_window m) s =
          (if s \<le> t - ?L then 0 else rm_window m ! ring_index (rm_window m) s)"
        using len s True \<open>rm_time m > t - ?L\<close> \<open>rm_time m \<le> t\<close> by (intro clear_slots_nth) auto
      then show ?thesis using s True old \<open>rm_time m \<le> t\<close> by auto
    next
      case False
      have "ring_index (rm_window m) s = ring_index (rm_window m) (s - ?L)"
        by (simp add: ring_index_def)
      moreover have "clear_slots (rm_window m) (t - ?L) (rm_time m - ?L) ! ring_index (rm_window m) (s - ?L) =
          (if s - ?L \<le> t - ?L then 0 else rm_window m ! ring_index (rm_window m) (s - ?L))"
        using len s False \<open>rm_time m > t - ?L\<close> by (intro clear_slots_nth) auto
      ultimately show ?thesis using s False in_slot_later [OF below] by simp
    qed
    ultimately show ?thesis using True by (simp add: w_def)
  qed
  have "w[ring_index w t := w ! ring_index w t + n] ! ring_index w s = in_slot ((t, n) # lg) s"
    if s: "t - ?L < s" "s \<le> t" for s
    using w [OF s] w [of t] ring_index_eq [of w t s] ring_index_less [of w t] len s
    by (auto simp: nth_list_update in_slot_Cons)
  then have "measures m' ((t, n) # lg)"
    using m below \<open>rm_time m \<le> t\<close> len ring_index_length [of "w[ring_index w t := w ! ring_index w t + n]" w]
    by (force simp: measures_def m')
  then show ?thesis using t \<open>rm_time m \<le> t\<close> by (simp add: m')
qed

lemma getRate_measures:
  assumes m: "measures m lg" and t: "toTime now m = Inr t"
  shows "getRate now m =
    Inr (1000 * of_int (counted lg (t - int (Suc (rm_windowSize m))) t) / of_int (int (rm_windowSize m) * rm_slotTime m))"
proof -
  have le: "rm_time m \<le> t" using t by (auto simp: toTime_def result_simps Let_def)
  have len: "length (rm_window m) = Suc (rm_windowSize m)" using m by (simp add: measures_def)
  have below: "\<forall>(s, k)\<in>set lg. s \<le> rm_time m" using m by (simp add: measures_def)
  have "sum_slots (rm_window m) (rm_time m) (t - int (length (rm_window m))) = counted lg (t - int (length (rm_window m))) (rm_time m)"
    using m le by (intro sum_slots_counted) (auto simp: measures_def)
  also have "\<dots> = counted lg (t - int (length (rm_window m))) t" using counted_top [OF below le] by simp
  finally show ?thesis using t len by (simp add: getRate_def)
qed

end
