(* ===== verification/Rpc_Client.thy ===== *)
theory Rpc_Client
  imports Rpc_Queue Rpc_Rate Util_Misc
begin

text \<open>
  The scheduling of requests by the RPC client, \<open>util/rpc-client/src/client.ts\<close>: a priority queue, a number of requests that
  may be under way, an optional limit of calls per second, new attempts after connection failures and the pauses before
  them. Subscriptions, metrics of times and log messages are not modelled.

  The client is a record; what its promises and timers still have to run is part of it: \<open>cl_tasks\<close> are the
  continuations of \<open>performScheduling\<close>, \<open>cl_ongoing\<close> the requests that were sent, each with the epoch at that moment, and
  \<open>cl_finals\<close> the number of \<open>finally\<close> blocks that wait for their turn. \<open>rpc_step\<close> interleaves them in any order with the
  calls of the users. Fields that end in \<open>log\<close> only write down what happened. What the connection makes of the wire is the
  interface \<open>rpc_connection\<close>.
\<close>

section \<open>The client\<close>

datatype task =
    Perform
  | Pausing int
  | Connecting
  | Ready
  | Failed rpc_failure

record client =
  cl_counter :: nat
  cl_queue :: "req list"
  cl_maxBatchCallSize :: int
  cl_requestTimeout :: int
  cl_retrySchedule :: "int list"
  cl_retryAttempts :: int
  cl_capacity :: int
  cl_maxCapacity :: int
  cl_rate :: "rate_meter option"
  cl_rateLimit :: rat
  cl_schedulingScheduled :: bool
  cl_connectionErrorsInRow :: nat
  cl_connectionErrors :: nat
  cl_requestsServed :: nat
  cl_backoffEpoch :: nat
  cl_backoffTime :: "int option option"
  cl_closed :: bool
  cl_tasks :: "task list"
  cl_ongoing :: "(req \<times> nat) list"
  cl_finals :: nat
  cl_issued_log :: "req list"
  cl_sent_log :: "req list"
  cl_settled_log :: "(nat \<times> jsval list outcome) list"
  cl_rate_log :: meter_log

record client_options =
  op_capacity :: "int option"
  op_rateLimit :: "rat option"
  op_requestTimeout :: "int option"
  op_retryAttempts :: "int option"
  op_retrySchedule :: "int list option"
  op_maxBatchCallSize :: "int option"

definition or_else :: "'a option \<Rightarrow> 'a \<Rightarrow> 'a" where
  "or_else v d = (case v of None \<Rightarrow> d | Some x \<Rightarrow> x)"

text \<open>\<open>options.capacity || 10\<close> replaces 0 as well; a limit of 0 is no limit.\<close>

definition RpcClient_new :: "client_options \<Rightarrow> client result" where
  "RpcClient_new options =
     (let capacity = (case op_capacity options of None \<Rightarrow> 10 | Some c \<Rightarrow> if c = 0 then 10 else c);
          s = \<lparr>cl_counter = 0, cl_queue = [],
            cl_maxBatchCallSize = or_else (op_maxBatchCallSize options) MAX_SAFE_INTEGER,
            cl_requestTimeout = or_else (op_requestTimeout options) 0,
            cl_retrySchedule = or_else (op_retrySchedule options) [10, 100, 500, 2000, 10000, 20000],
            cl_retryAttempts = or_else (op_retryAttempts options) 0,
            cl_capacity = capacity, cl_maxCapacity = capacity,
            cl_rate = None, cl_rateLimit = of_int MAX_SAFE_INTEGER, cl_schedulingScheduled = False,
            cl_connectionErrorsInRow = 0, cl_connectionErrors = 0, cl_requestsServed = 0,
            cl_backoffEpoch = 0, cl_backoffTime = None, cl_closed = False,
            cl_tasks = [], cl_ongoing = [], cl_finals = 0,
            cl_issued_log = [], cl_sent_log = [], cl_settled_log = [], cl_rate_log = []\<rparr>
      in case op_rateLimit options of
           None \<Rightarrow> Inr s
         | Some rateLimit \<Rightarrow>
             if rateLimit = 0 then Inr s
             else rbind (js_assert (rateLimit > 0)) (\<lambda>_.
               let slotTime = (if rateLimit < 1 then \<lceil>1000 / (rateLimit * 10)\<rceil> else 100)
               in Inr (s\<lparr>cl_rate := Some (RateMeter_new 10 slotTime), cl_rateLimit := rateLimit,
                    cl_maxBatchCallSize := min (cl_maxBatchCallSize s) (max 1 \<lfloor>rateLimit / 5\<rfloor>)\<rparr>)))"

section \<open>Calls of the users\<close>

record call_options =
  co_priority :: "int option"
  co_timeout :: "int option"
  co_retryAttempts :: "int option"
  co_validateResult :: "validate_result option"
  co_validateError :: "validate_error option"

definition has_next :: "req list \<Rightarrow> bool" where
  "has_next q = (case heap_peek q of None \<Rightarrow> False | Some _ \<Rightarrow> True)"

lemma has_next [simp]: "has_next q \<longleftrightarrow> q \<noteq> []"
  by (simp add: has_next_def heap_peek_def)

definition schedule :: "client \<Rightarrow> client" where
  "schedule s =
     (if cl_schedulingScheduled s \<or> cl_closed s then s
      else if \<not> has_next (cl_queue s) \<or> cl_capacity s \<le> 0 then s
      else s\<lparr>cl_schedulingScheduled := True, cl_tasks := cl_tasks s @ [Perform]\<rparr>)"

definition push_request :: "req \<Rightarrow> client \<Rightarrow> client" where
  "push_request r s = schedule (s\<lparr>cl_queue := heap_push byPriority r (cl_queue s)\<rparr>)"

definition settle :: "req \<Rightarrow> jsval list outcome \<Rightarrow> client \<Rightarrow> client" where
  "settle r out s = s\<lparr>cl_settled_log := cl_settled_log s @ [(getCallPriority r, out)]\<rparr>"

text \<open>An exception of \<open>assertNotClosed\<close> in the executor of the promise rejects the promise.\<close>

definition closed_error :: rpc_failure where
  "closed_error = LanguageError (ThrownError ''RpcClient was closed'')"

definition enqueue :: "req \<Rightarrow> client \<Rightarrow> client" where
  "enqueue r s = (if cl_closed s then settle r (Inl closed_error) s else push_request r s)"

definition make_req :: "rpc_calls \<Rightarrow> call_options \<Rightarrow> client \<Rightarrow> req" where
  "make_req calls options s =
     \<lparr>re_call = calls, re_priority = or_else (co_priority options) 0,
      re_timeout = or_else (co_timeout options) (cl_requestTimeout s),
      re_retryAttempts = or_else (co_retryAttempts options) (cl_retryAttempts s),
      re_validateResult = co_validateResult options, re_validateError = co_validateError options\<rparr>"

definition issue :: "req \<Rightarrow> client \<Rightarrow> client" where
  "issue r s = enqueue r (s\<lparr>cl_issued_log := cl_issued_log s @ [r]\<rparr>)"

definition client_call :: "rpc_call_args \<Rightarrow> call_options \<Rightarrow> client \<Rightarrow> client" where
  "client_call c options s =
     (let id = cl_counter s + 1;
          r = make_req (Single \<lparr>rq_id = id, rq_method = ca_method c, rq_params = ca_params c\<rparr>) options s
      in issue r (s\<lparr>cl_counter := id\<rparr>))"

fun number_calls :: "nat \<Rightarrow> rpc_call_args list \<Rightarrow> rpc_request list" where
  "number_calls n [] = []"
| "number_calls n (c # cs) =
     \<lparr>rq_id = n + 1, rq_method = ca_method c, rq_params = ca_params c\<rparr> # number_calls (n + 1) cs"

definition batchCallInternal :: "call_options \<Rightarrow> rpc_call_args list \<Rightarrow> client \<Rightarrow> client" where
  "batchCallInternal options batch s =
     (if length batch = 0 then s
      else if length batch = 1 then client_call (batch ! 0) options s
      else let calls = number_calls (cl_counter s) batch
           in issue (make_req (Batch calls) options s) (s\<lparr>cl_counter := cl_counter s + length batch\<rparr>))"

definition client_batchCall :: "rpc_call_args list \<Rightarrow> call_options \<Rightarrow> client \<Rightarrow> client result" where
  \<comment> \<open>\<open>splitParallelWork\<close> starts the groups in turn\<close>
  "client_batchCall batch options s =
     rbind (splitArray (cl_maxBatchCallSize s) batch) (\<lambda>groups. Inr (fold (batchCallInternal options) groups s))"

section \<open>Sending\<close>

definition call_size :: "req \<Rightarrow> int" where
  "call_size r = (case re_call r of Batch calls \<Rightarrow> int (length calls) | Single _ \<Rightarrow> 1)"

definition send :: "req \<Rightarrow> client \<Rightarrow> client" where
  "send r s = s\<lparr>cl_capacity := cl_capacity s - 1, cl_ongoing := cl_ongoing s @ [(r, cl_backoffEpoch s)],
     cl_sent_log := cl_sent_log s @ [r]\<rparr>"

lemma heap_pop_shorter: "has_next q \<Longrightarrow> heap_pop c q = (r, h) \<Longrightarrow> length h < length q"
  using arg_cong [OF heap_pop_mset(2) [of q c], of size] by (cases "q = []") simp_all

text \<open>The loop without a limit.\<close>

function send_all :: "client \<Rightarrow> client" where
  "send_all s =
     (if 0 < cl_capacity s \<and> has_next (cl_queue s)
      then (case heap_pop byPriority (cl_queue s) of
              (Some r, q) \<Rightarrow> send_all (send r (s\<lparr>cl_queue := q\<rparr>))
            | (None, q) \<Rightarrow> s)
      else s)"
  by pat_completeness auto
termination
proof (relation "measure (\<lambda>s. length (cl_queue s))", goal_cases)
  case (2 s x1 q r)
  then show ?case using heap_pop_shorter [of "cl_queue s" byPriority x1 q] by (auto simp: send_def)
qed simp

text \<open>The loop with a limit.\<close>

definition inc_rate :: "int \<Rightarrow> int \<Rightarrow> client \<Rightarrow> client result" where
  "inc_rate n now s =
     (case cl_rate s of
        None \<Rightarrow> Inl TypeError
      | Some m \<Rightarrow> rbind (meter_inc n now m) (\<lambda>m'.
          Inr (s\<lparr>cl_rate := Some m', cl_rate_log := (rm_time m', n) # cl_rate_log s\<rparr>)))"

lemma inc_rate_queue: "inc_rate n now s = Inr s' \<Longrightarrow> cl_queue s' = cl_queue s"
  by (auto simp: inc_rate_def result_simps split: option.splits)

function send_limited :: "int \<Rightarrow> rat \<Rightarrow> client \<Rightarrow> client result" where
  "send_limited now rateCapacity s =
     (if 0 < cl_capacity s \<and> has_next (cl_queue s)
      then if rateCapacity \<le> 0
           then Inr (s\<lparr>cl_schedulingScheduled := True, cl_tasks := cl_tasks s @ [Perform]\<rparr>)
           else (case heap_pop byPriority (cl_queue s) of
                   (Some r, q) \<Rightarrow>
                     rbind (inc_rate (call_size r) now (s\<lparr>cl_queue := q\<rparr>))
                       (\<lambda>s. send_limited now (rateCapacity - of_int (call_size r)) (send r s))
                 | (None, q) \<Rightarrow> Inr s)
      else Inr s)"
  by pat_completeness auto
termination
proof (relation "measure (\<lambda>(now, c, s). length (cl_queue s))", goal_cases)
  case (2 now c s x1 q r x)
  then show ?case
    using heap_pop_shorter [of "cl_queue s" byPriority x1 q] inc_rate_queue [of "call_size r" now "s\<lparr>cl_queue := q\<rparr>" x]
    by (auto simp: send_def)
qed simp

declare send_all.simps [simp del] send_limited.simps [simp del]

definition performRateLimitedScheduling :: "rate_meter \<Rightarrow> int \<Rightarrow> client \<Rightarrow> client result" where
  "performRateLimitedScheduling rateMeter now s =
     (if cl_closed s then Inr s
      else rbind (getRate now rateMeter) (\<lambda>rate.
        send_limited now (cl_rateLimit s - rate) (s\<lparr>cl_schedulingScheduled := False\<rparr>)))"

text \<open>What \<open>performScheduling\<close> does when there is a connection.\<close>

definition connection_ready :: "int \<Rightarrow> client \<Rightarrow> client result" where
  "connection_ready now s =
     (case cl_rate s of
        Some rateMeter \<Rightarrow> performRateLimitedScheduling rateMeter now s
      | None \<Rightarrow>
          if cl_closed s then Inr s
          else Inr (send_all (s\<lparr>cl_schedulingScheduled := False\<rparr>)))"

section \<open>Waiting for the connection\<close>

text \<open>
  \<open>retrySchedule\<close> may be empty; its element is then \<open>undefined\<close>, and \<open>backoffTime\<close> is not a number.
\<close>

definition backoff :: "int \<Rightarrow> client \<Rightarrow> client" where
  "backoff now s =
     (let inRow = cl_connectionErrorsInRow s + 1;
          pauses = cl_retrySchedule s
      in s\<lparr>cl_backoffEpoch := cl_backoffEpoch s + 1, cl_connectionErrorsInRow := inRow,
           cl_connectionErrors := cl_connectionErrors s + 1,
           cl_backoffTime := Some (if pauses = [] then None else Some (now + pauses ! (min inRow (length pauses) - 1)))\<rparr>)"

definition add_task :: "task \<Rightarrow> client \<Rightarrow> client" where
  "add_task t s = s\<lparr>cl_tasks := cl_tasks s @ [t]\<rparr>"

text \<open>\<open>waitForConnection\<close> runs from its loop head to the next \<open>await\<close>.\<close>

definition after_pause :: "client \<Rightarrow> client" where
  "after_pause s = (if cl_closed s then add_task Ready s else add_task Connecting s)"

definition waitForConnection :: "int \<Rightarrow> client \<Rightarrow> client" where
  "waitForConnection now s =
     (case cl_backoffTime s of
        None \<Rightarrow> after_pause s
      | Some time \<Rightarrow>
          let pause = (case time of None \<Rightarrow> 0 | Some t \<Rightarrow> max (t - now) 0);
              s = s\<lparr>cl_backoffTime := None\<rparr>
          in if pause > 0 then add_task (Pausing (now + pause)) s else after_pause s)"

definition connect_failed :: "int \<Rightarrow> rpc_failure \<Rightarrow> client \<Rightarrow> client" where
  "connect_failed now err s =
     (if cl_closed s then add_task Ready s
      else if err = RpcConnectionError then waitForConnection now (backoff now s)
      else add_task (Failed err) s)"

section \<open>Answers\<close>

definition receiveAll :: "rpc_request list \<Rightarrow> rpc_response list \<Rightarrow> validate_result option \<Rightarrow> validate_error option \<Rightarrow> jsval list outcome" where
  "receiveAll calls res validateResult validateError =
     omap (\<lambda>i. receiveResult (if i < length calls then Some (calls ! i) else None) (res ! i) validateResult validateError)
       [0..<length res]"

definition request_outcome ::
    "(rpc_request \<Rightarrow> 'a \<Rightarrow> rpc_response outcome) \<Rightarrow> (rpc_request list \<Rightarrow> 'a \<Rightarrow> rpc_response list outcome) \<Rightarrow>
     req \<Rightarrow> 'a \<Rightarrow> jsval list outcome" where
  \<comment> \<open>the value of a single call is a list of one element here\<close>
  "request_outcome con_call con_batchCall r answer =
     (case re_call r of
        Batch calls \<Rightarrow> obind (con_batchCall calls answer) (\<lambda>res.
          receiveAll calls res (re_validateResult r) (re_validateError r))
      | Single call \<Rightarrow> obind (con_call call answer) (\<lambda>res.
          obind (receiveResult (Some call) res (re_validateResult r) (re_validateError r)) (\<lambda>v. Inr [v])))"

definition on_result :: "req \<Rightarrow> nat \<Rightarrow> jsval list \<Rightarrow> client \<Rightarrow> client" where
  "on_result r epoch vs s =
     (let s = s\<lparr>cl_requestsServed := cl_requestsServed s + 1\<rparr>;
          s = (if cl_backoffEpoch s = epoch then s\<lparr>cl_connectionErrorsInRow := 0\<rparr> else s)
      in settle r (Inr vs) s)"

definition on_failure :: "req \<Rightarrow> nat \<Rightarrow> int \<Rightarrow> rpc_failure \<Rightarrow> client \<Rightarrow> client" where
  "on_failure r epoch now err s =
     (if cl_closed s then settle r (Inl err) s
      else if isConnectionError err then
        (let s = (if re_retryAttempts r > 0
                  then enqueue (r\<lparr>re_retryAttempts := re_retryAttempts r - 1\<rparr>) s
                  else settle r (Inl err) s)
         in if cl_backoffEpoch s = epoch then backoff now s else s)
      else settle r (Inl err) s)"

definition answered :: "req \<Rightarrow> nat \<Rightarrow> int \<Rightarrow> jsval list outcome \<Rightarrow> client \<Rightarrow> client" where
  "answered r epoch now out s =
     (let s = (case out of Inr vs \<Rightarrow> on_result r epoch vs s | Inl err \<Rightarrow> on_failure r epoch now err s)
      in s\<lparr>cl_finals := cl_finals s + 1\<rparr>)"

definition release_capacity :: "client \<Rightarrow> client" where
  "release_capacity s = schedule (s\<lparr>cl_finals := cl_finals s - 1, cl_capacity := cl_capacity s + 1\<rparr>)"

section \<open>Closing\<close>

function reject_all :: "rpc_failure \<Rightarrow> client \<Rightarrow> client" where
  "reject_all err s =
     (if has_next (cl_queue s)
      then (case heap_pop byPriority (cl_queue s) of
              (Some r, q) \<Rightarrow> reject_all err (settle r (Inl err) (s\<lparr>cl_queue := q\<rparr>))
            | (None, q) \<Rightarrow> s)
      else s)"
  by pat_completeness auto
termination
proof (relation "measure (\<lambda>(e, s). length (cl_queue s))", goal_cases)
  case (2 err s x1 q r)
  then show ?case using heap_pop_shorter [of "cl_queue s" byPriority x1 q] by (auto simp: settle_def)
qed simp

declare reject_all.simps [simp del]

definition client_close :: "rpc_failure option \<Rightarrow> client \<Rightarrow> client" where
  "client_close err s =
     (if cl_closed s then s
      else reject_all (or_else err closed_error) (s\<lparr>cl_closed := True\<rparr>))"

section \<open>All interleavings\<close>

inductive rpc_step ::
    "(rpc_request \<Rightarrow> 'a \<Rightarrow> rpc_response outcome) \<Rightarrow> (rpc_request list \<Rightarrow> 'a \<Rightarrow> rpc_response list outcome) \<Rightarrow>
     client \<Rightarrow> client \<Rightarrow> bool"
  for con_call con_batchCall where
  call: "rpc_step con_call con_batchCall s (client_call c options s)"
| batch: "client_batchCall cs options s = Inr s' \<Longrightarrow> rpc_step con_call con_batchCall s s'"
| perform: "cl_tasks s = ts @ Perform # ts' \<Longrightarrow>
    rpc_step con_call con_batchCall s (waitForConnection now (s\<lparr>cl_tasks := ts @ ts'\<rparr>))"
| paused: "cl_tasks s = ts @ Pausing until # ts' \<Longrightarrow>
    rpc_step con_call con_batchCall s (after_pause (s\<lparr>cl_tasks := ts @ ts'\<rparr>))"
| connected: "cl_tasks s = ts @ Connecting # ts' \<Longrightarrow>
    rpc_step con_call con_batchCall s (add_task Ready (s\<lparr>cl_tasks := ts @ ts'\<rparr>))"
| not_connected: "cl_tasks s = ts @ Connecting # ts' \<Longrightarrow>
    rpc_step con_call con_batchCall s (connect_failed now err (s\<lparr>cl_tasks := ts @ ts'\<rparr>))"
| ready: "cl_tasks s = ts @ Ready # ts' \<Longrightarrow> connection_ready now (s\<lparr>cl_tasks := ts @ ts'\<rparr>) = Inr s' \<Longrightarrow>
    rpc_step con_call con_batchCall s s'"
| failed: "cl_tasks s = ts @ Failed err # ts' \<Longrightarrow>
    rpc_step con_call con_batchCall s (client_close (Some err) (s\<lparr>cl_tasks := ts @ ts'\<rparr>))"
| answer: "cl_ongoing s = os @ (r, epoch) # os' \<Longrightarrow>
    rpc_step con_call con_batchCall s
      (answered r epoch now (request_outcome con_call con_batchCall r a) (s\<lparr>cl_ongoing := os @ os'\<rparr>))"
| final: "cl_finals s > 0 \<Longrightarrow> rpc_step con_call con_batchCall s (release_capacity s)"
| close: "rpc_step con_call con_batchCall s (client_close err s)"

inductive rpc_reach ::
    "(rpc_request \<Rightarrow> 'a \<Rightarrow> rpc_response outcome) \<Rightarrow> (rpc_request list \<Rightarrow> 'a \<Rightarrow> rpc_response list outcome) \<Rightarrow>
     client_options \<Rightarrow> client \<Rightarrow> bool"
  for con_call con_batchCall options where
  start: "RpcClient_new options = Inr s \<Longrightarrow> rpc_reach con_call con_batchCall options s"
| step: "rpc_reach con_call con_batchCall options s \<Longrightarrow> rpc_step con_call con_batchCall s s' \<Longrightarrow>
    rpc_reach con_call con_batchCall options s'"

end
