(* ===== verification/Rpc_Ledger.thy ===== *)
theory Rpc_Ledger
  imports Rpc_Client
begin

text \<open>
  What the RPC client promises about its requests, as an abstract state machine: a ledger of the requests that wait, are
  under way and are settled, with six kinds of moves. A request that is started is one of the most urgent that wait, and a
  request only waits again when it has attempts left. The ledger keeps its books (\<open>ledger_ok\<close>), which bounds the attempts
  of every request. Rpc_Laws proves that the client makes only such moves.
\<close>

section \<open>The ledger\<close>

record ledger =
  lg_waiting :: "req multiset"
  lg_ongoing :: "req multiset"
  lg_settled :: "nat multiset"
  lg_issued :: "req list"
  lg_sent :: "req list"
  lg_counter :: nat
  lg_largest :: int

abbreviation one_try_less :: "req \<Rightarrow> req" where
  "one_try_less r \<equiv> r\<lparr>re_retryAttempts := re_retryAttempts r - 1\<rparr>"

definition fits :: "int \<Rightarrow> req \<Rightarrow> bool" where
  "fits n r \<longleftrightarrow> 1 \<le> call_size r \<and> call_size r \<le> n"

inductive move :: "ledger \<Rightarrow> ledger \<Rightarrow> bool" where
  issue: "lg_counter l < getCallPriority r \<Longrightarrow> getCallPriority r \<le> n \<Longrightarrow> fits (lg_largest l) r \<Longrightarrow>
    move l (l\<lparr>lg_waiting := add_mset r (lg_waiting l), lg_issued := lg_issued l @ [r], lg_counter := n\<rparr>)"
| refuse: "lg_counter l < getCallPriority r \<Longrightarrow> getCallPriority r \<le> n \<Longrightarrow> fits (lg_largest l) r \<Longrightarrow>
    move l (l\<lparr>lg_settled := add_mset (getCallPriority r) (lg_settled l), lg_issued := lg_issued l @ [r], lg_counter := n\<rparr>)"
| start: "lg_waiting l = add_mset r w \<Longrightarrow> \<forall>y\<in>#lg_waiting l. \<not> byPriority y r < 0 \<Longrightarrow>
    move l (l\<lparr>lg_waiting := w, lg_ongoing := add_mset r (lg_ongoing l), lg_sent := lg_sent l @ [r]\<rparr>)"
| retry: "lg_ongoing l = add_mset r b \<Longrightarrow> re_retryAttempts r > 0 \<Longrightarrow>
    move l (l\<lparr>lg_ongoing := b, lg_waiting := add_mset (one_try_less r) (lg_waiting l)\<rparr>)"
| finish: "lg_ongoing l = add_mset r b \<Longrightarrow>
    move l (l\<lparr>lg_ongoing := b, lg_settled := add_mset (getCallPriority r) (lg_settled l)\<rparr>)"
| drop: "lg_waiting l = add_mset r w \<Longrightarrow>
    move l (l\<lparr>lg_waiting := w, lg_settled := add_mset (getCallPriority r) (lg_settled l)\<rparr>)"

section \<open>Its books\<close>

text \<open>
  Attempts that a request may still make: one and its retries while it waits, its retries while it is under way.
\<close>

definition tries :: "req \<Rightarrow> int" where
  "tries r = 1 + max 0 (re_retryAttempts r)"

definition spent :: "ledger \<Rightarrow> nat \<Rightarrow> int" where
  "spent l k = int (length (filter (\<lambda>r. getCallPriority r = k) (lg_sent l)))"

definition left :: "ledger \<Rightarrow> nat \<Rightarrow> int" where
  "left l k = (\<Sum>r\<in>#lg_waiting l. if getCallPriority r = k then tries r else 0) +
     (\<Sum>r\<in>#lg_ongoing l. if getCallPriority r = k then tries r - 1 else 0)"

definition granted :: "ledger \<Rightarrow> nat \<Rightarrow> int" where
  "granted l k = (\<Sum>r\<leftarrow>lg_issued l. if getCallPriority r = k then tries r else 0)"

definition whereabouts :: "ledger \<Rightarrow> nat multiset" where
  "whereabouts l = image_mset getCallPriority (lg_waiting l) + image_mset getCallPriority (lg_ongoing l) + lg_settled l"

definition ledger_ok :: "ledger \<Rightarrow> bool" where
  "ledger_ok l \<longleftrightarrow>
     whereabouts l = mset (map getCallPriority (lg_issued l)) \<and>
     distinct (map getCallPriority (lg_issued l)) \<and>
     (\<forall>r\<in>set (lg_issued l). getCallPriority r \<le> lg_counter l) \<and>
     (\<forall>k. spent l k + left l k \<le> granted l k)"

lemma key_try_less [simp]: "getCallPriority (r\<lparr>re_retryAttempts := n\<rparr>) = getCallPriority r"
  by (simp add: getCallPriority_def)

lemma tries_less: "re_retryAttempts r > 0 \<Longrightarrow> tries (one_try_less r) = tries r - 1"
  by (simp add: tries_def)

lemma tries_pos: "1 \<le> tries r"
  by (simp add: tries_def)

lemmas ledger_defs = whereabouts_def spent_def left_def granted_def

lemma move_issued:
  assumes "move l l'" "ledger_ok l"
  shows "distinct (map getCallPriority (lg_issued l')) \<and> (\<forall>r\<in>set (lg_issued l'). getCallPriority r \<le> lg_counter l')"
  using assms by cases (fastforce simp: ledger_ok_def)+

lemma move_whereabouts:
  assumes "move l l'" "ledger_ok l"
  shows "whereabouts l' = mset (map getCallPriority (lg_issued l'))"
  using assms by cases (auto simp: ledger_ok_def whereabouts_def)

lemma move_tries:
  assumes "move l l'"
  shows "spent l' k + left l' k - granted l' k \<le> spent l k + left l k - granted l k"
  using assms
proof cases
  case (refuse r n)
  then show ?thesis using tries_pos [of r] by (simp add: ledger_defs)
next
  case (finish r b)
  then show ?thesis using tries_pos [of r] by (simp add: ledger_defs)
next
  case (drop r w)
  then show ?thesis using tries_pos [of r] by (simp add: ledger_defs)
qed (simp_all add: ledger_defs tries_less)

lemma move_ok: "move l l' \<Longrightarrow> ledger_ok l \<Longrightarrow> ledger_ok l'"
  using move_issued move_whereabouts move_tries unfolding ledger_ok_def by (smt (verit, del_insts))

lemma moves_ok: "move\<^sup>*\<^sup>* l l' \<Longrightarrow> ledger_ok l \<Longrightarrow> ledger_ok l'"
  by (induction rule: rtranclp_induct) (auto intro: move_ok)

lemma sum_list_distinct:
  "distinct (map g rs) \<Longrightarrow> r \<in> set rs \<Longrightarrow> (\<Sum>x\<leftarrow>rs. if g x = g r then f x else (0 :: int)) = f r"
proof (induction rs)
  case (Cons a rs)
  have "(\<Sum>x\<leftarrow>rs. if g x = g a then f x else 0) = 0" if "g a \<notin> g ` set rs"
    using that by (induction rs) auto
  then show ?case using Cons by (cases "a = r") auto
qed simp

lemma sum_nonneg_mset: "(\<And>r. 0 \<le> f r) \<Longrightarrow> 0 \<le> (\<Sum>r\<in>#M. f r :: int)"
  by (induction M) auto

lemma attempts_bounded:
  assumes "ledger_ok l" "r \<in> set (lg_issued l)"
  shows "spent l (getCallPriority r) \<le> 1 + max 0 (re_retryAttempts r)"
proof -
  let ?k = "getCallPriority r"
  have "0 \<le> left l ?k"
    unfolding left_def by (intro add_nonneg_nonneg sum_nonneg_mset) (simp_all add: tries_def)
  moreover have "spent l ?k + left l ?k \<le> granted l ?k" using assms(1) by (simp add: ledger_ok_def)
  moreover have "granted l ?k = tries r"
    unfolding granted_def using assms by (intro sum_list_distinct) (auto simp: ledger_ok_def)
  ultimately show ?thesis by (simp add: tries_def)
qed

text \<open>Every request under way is one that was issued, but for its attempts.\<close>

definition no_attempts :: "req \<Rightarrow> req" where
  "no_attempts r = r\<lparr>re_retryAttempts := 0\<rparr>"

lemma no_attempts_less [simp]: "no_attempts (one_try_less r) = no_attempts r"
  by (simp add: no_attempts_def)

definition from_issued :: "ledger \<Rightarrow> bool" where
  "from_issued l \<longleftrightarrow>
     no_attempts ` (set_mset (lg_waiting l) \<union> set_mset (lg_ongoing l) \<union> set (lg_sent l)) \<subseteq> no_attempts ` set (lg_issued l)"

lemma move_from_issued: "move l l' \<Longrightarrow> from_issued l \<Longrightarrow> from_issued l'"
  by (induction rule: move.induct) (simp_all add: from_issued_def image_Un, blast+)

lemma moves_from_issued: "move\<^sup>*\<^sup>* l l' \<Longrightarrow> from_issued l \<Longrightarrow> from_issued l'"
  by (induction rule: rtranclp_induct) (auto intro: move_from_issued)


definition sizes_fit :: "ledger \<Rightarrow> bool" where
  "sizes_fit l \<longleftrightarrow> (\<forall>r\<in>set_mset (lg_waiting l) \<union> set_mset (lg_ongoing l). fits (lg_largest l) r)"

lemma fits_less [simp]: "fits n (one_try_less r) = fits n r"
  by (simp add: fits_def call_size_def)

lemma move_sizes_fit: "move l l' \<Longrightarrow> sizes_fit l \<Longrightarrow> sizes_fit l'"
  by (induction rule: move.induct) (auto simp: sizes_fit_def)

lemma moves_sizes_fit: "move\<^sup>*\<^sup>* l l' \<Longrightarrow> sizes_fit l \<Longrightarrow> sizes_fit l'"
  by (induction rule: rtranclp_induct) (auto intro: move_sizes_fit)

section \<open>The ledger of a client\<close>

definition ledger_of :: "client \<Rightarrow> ledger" where
  "ledger_of s =
     \<lparr>lg_waiting = mset (cl_queue s), lg_ongoing = mset (map fst (cl_ongoing s)),
      lg_settled = mset (map fst (cl_settled_log s)), lg_issued = cl_issued_log s, lg_sent = cl_sent_log s,
      lg_counter = cl_counter s, lg_largest = max 1 (cl_maxBatchCallSize s)\<rparr>"

definition empty_ledger :: "int \<Rightarrow> ledger" where
  "empty_ledger n = \<lparr>lg_waiting = {#}, lg_ongoing = {#}, lg_settled = {#}, lg_issued = [], lg_sent = [], lg_counter = 0,
     lg_largest = n\<rparr>"

lemma empty_ledger_ok: "ledger_ok (empty_ledger n)" "from_issued (empty_ledger n)" "sizes_fit (empty_ledger n)"
  by (simp_all add: ledger_ok_def empty_ledger_def from_issued_def sizes_fit_def ledger_defs)

end
