(* ===== verification/Rpc_Laws.thy ===== *)
theory Rpc_Laws
  imports Rpc_Ledger
begin

text \<open>
  What holds in all interleavings of the RPC client: it never forgets to schedule (\<open>sched_ok\<close>), it makes only moves of the
  ledger (\<open>step_moves\<close>), and its calls stay within the limit of the rate (\<open>within_limit\<close>).
\<close>

section \<open>The loops that send\<close>

definition may_send :: "client \<Rightarrow> bool" where
  "may_send s \<longleftrightarrow> 0 < cl_capacity s \<and> has_next (cl_queue s)"

lemma pop_urgent:
  assumes "heap_ordered byPriority q" "q \<noteq> []"
  obtains r h where "heap_pop byPriority q = (Some r, h)" "mset q = add_mset r (mset h)" "heap_ordered byPriority h"
    "\<forall>y\<in>#mset q. \<not> byPriority y r < 0"
  using priority.ordered_pop [OF assms] by (metis set_mset_mset)

text \<open>A property of states that every sending keeps holds after the loops.\<close>

lemma send_all_keeps:
  assumes keeps: "\<And>s r q. P s \<Longrightarrow> may_send s \<Longrightarrow> heap_pop byPriority (cl_queue s) = (Some r, q) \<Longrightarrow> P (send r (s\<lparr>cl_queue := q\<rparr>))"
    and some: "\<And>s. P s \<Longrightarrow> may_send s \<Longrightarrow> \<exists>r q. heap_pop byPriority (cl_queue s) = (Some r, q)"
    and P: "P s"
  shows "P (send_all s) \<and> \<not> may_send (send_all s)"
  using P
proof (induction s rule: send_all.induct)
  case (1 s)
  show ?case
  proof (cases "may_send s")
    case True
    then obtain r q where pop: "heap_pop byPriority (cl_queue s) = (Some r, q)" using some 1(2) by blast
    have c: "0 < cl_capacity s \<and> has_next (cl_queue s)" using True unfolding may_send_def .
    have "send_all s = send_all (send r (s\<lparr>cl_queue := q\<rparr>))"
      by (subst send_all.simps) (simp only: c pop if_True prod.case option.case simp_thms)
    moreover have "P (send r (s\<lparr>cl_queue := q\<rparr>))" using keeps 1(2) True pop by blast
    ultimately show ?thesis using 1(1) [OF c, of "Some r" q r] pop by simp
  next
    case False
    then have "send_all s = s" by (subst send_all.simps) (simp only: may_send_def if_False)
    then show ?thesis using False 1(2) by simp
  qed
qed

lemma send_limited_keeps:
  assumes keeps: "\<And>c s r q s1. P c s \<Longrightarrow> may_send s \<Longrightarrow> c > 0 \<Longrightarrow> heap_pop byPriority (cl_queue s) = (Some r, q) \<Longrightarrow>
      inc_rate (call_size r) now (s\<lparr>cl_queue := q\<rparr>) = Inr s1 \<Longrightarrow> P (c - of_int (call_size r)) (send r s1)"
    and some: "\<And>c s. P c s \<Longrightarrow> may_send s \<Longrightarrow> \<exists>r q. heap_pop byPriority (cl_queue s) = (Some r, q)"
    and P: "P c s" and result: "send_limited now c s = Inr s'"
  shows "\<exists>c1 s1. P c1 s1 \<and>
    (s' = s1 \<and> \<not> may_send s1 \<or> s' = s1\<lparr>cl_schedulingScheduled := True, cl_tasks := cl_tasks s1 @ [Perform]\<rparr>)"
  using keeps some P result
proof (induction now c s rule: send_limited.induct)
  case (1 now c s)
  note step = 1(1) and keeps = 1(2) and some = 1(3) and Ps = 1(4) and res = 1(5)
  show ?case
  proof (cases "may_send s")
    case False
    then have "send_limited now c s = Inr s" by (subst send_limited.simps) (simp only: may_send_def if_False)
    then show ?thesis using False Ps res by auto
  next
    case True
    then have m: "0 < cl_capacity s \<and> has_next (cl_queue s)" unfolding may_send_def .
    show ?thesis
    proof (cases "c \<le> 0")
      case True
      then have "s' = s\<lparr>cl_schedulingScheduled := True, cl_tasks := cl_tasks s @ [Perform]\<rparr>"
        using res m by (subst (asm) send_limited.simps) (simp del: has_next)
      then show ?thesis using Ps by blast
    next
      case False
      obtain r q where pop: "heap_pop byPriority (cl_queue s) = (Some r, q)" using some Ps \<open>may_send s\<close> by blast
      have loop: "send_limited now c s = rbind (inc_rate (call_size r) now (s\<lparr>cl_queue := q\<rparr>))
          (\<lambda>s. send_limited now (c - of_int (call_size r)) (send r s))"
        by (subst send_limited.simps) (simp only: m False pop if_True if_False prod.case option.case simp_thms)
      from res [unfolded loop rbind_eq_Inr] obtain s1 where s1: "inc_rate (call_size r) now (s\<lparr>cl_queue := q\<rparr>) = Inr s1"
          "send_limited now (c - of_int (call_size r)) (send r s1) = Inr s'"
        by blast
      have Pr: "P (c - of_int (call_size r)) (send r s1)" using False by (intro keeps [OF Ps \<open>may_send s\<close> _ pop s1(1)]) simp
      show ?thesis
        by (rule step [OF m False pop [symmetric] refl s1(1)]) (erule (4) keeps, erule (1) some, rule Pr, rule s1(2))
    qed
  qed
qed

section \<open>Scheduling\<close>

text \<open>
  The queue is in order and nothing waits in a closed client; the units of the capacity that are neither free, nor in use, nor
  on their way back.
\<close>

definition queue_ok :: "client \<Rightarrow> bool" where
  "queue_ok s \<longleftrightarrow> heap_ordered byPriority (cl_queue s) \<and> (cl_closed s \<longrightarrow> cl_queue s = [])"

definition unaccounted :: "client \<Rightarrow> int" where
  "unaccounted s = cl_maxCapacity s - cl_capacity s - int (length (cl_ongoing s)) - int (cl_finals s)"

text \<open>
  A client that is open runs at most one \<open>performScheduling\<close>, and it runs one whenever a request could be sent. In the states
  inside of such a run its task is taken out.
\<close>

definition running :: "client \<Rightarrow> bool" where
  "running s \<longleftrightarrow> queue_ok s \<and> cl_tasks s = [] \<and> (\<not> cl_closed s \<longrightarrow> cl_schedulingScheduled s)"

definition almost_ok :: "client \<Rightarrow> bool" where
  "almost_ok s \<longleftrightarrow> queue_ok s \<and> length (cl_tasks s) \<le> 1 \<and>
     (\<not> cl_closed s \<longrightarrow> cl_schedulingScheduled s = (cl_tasks s \<noteq> []))"

definition sched_ok :: "client \<Rightarrow> bool" where
  "sched_ok s \<longleftrightarrow> almost_ok s \<and> (\<not> cl_closed s \<and> may_send s \<longrightarrow> cl_schedulingScheduled s)"

named_theorems client_ops \<open>the definitions of the operations that touch few fields\<close>

lemmas [client_ops] = settle_def send_def add_task_def backoff_def Let_def

lemma schedule_ok: "almost_ok s \<Longrightarrow> sched_ok (schedule s)"
  by (auto simp: schedule_def sched_ok_def almost_ok_def may_send_def queue_ok_def)

lemma schedule_unaccounted [simp]: "unaccounted (schedule s) = unaccounted s"
  by (simp add: schedule_def unaccounted_def)

lemma task_taken:
  assumes "sched_ok s" "cl_tasks s = ts @ t # ts'"
  shows "running (s\<lparr>cl_tasks := ts @ ts'\<rparr>)"
  using assms by (auto simp: sched_ok_def almost_ok_def running_def queue_ok_def)

lemma add_task_ok: "running s \<Longrightarrow> sched_ok (add_task t s)"
  by (auto simp: running_def sched_ok_def almost_ok_def queue_ok_def add_task_def)

lemma after_pause_ok: "running s \<Longrightarrow> sched_ok (after_pause s)"
  by (simp add: after_pause_def add_task_ok)

lemma waitForConnection_ok: "running s \<Longrightarrow> sched_ok (waitForConnection now s)"
  unfolding waitForConnection_def
  by (auto simp: Let_def running_def queue_ok_def intro!: add_task_ok after_pause_ok split: option.split)

lemma backoff_running: "running (backoff now s) = running s"
  by (simp add: running_def queue_ok_def backoff_def Let_def)

lemma connect_failed_ok: "running s \<Longrightarrow> sched_ok (connect_failed now err s)"
  by (simp add: connect_failed_def add_task_ok waitForConnection_ok backoff_running)

text \<open>The loops.\<close>

definition sending :: "client \<Rightarrow> bool" where
  "sending s \<longleftrightarrow> heap_ordered byPriority (cl_queue s) \<and> \<not> cl_closed s \<and> \<not> cl_schedulingScheduled s \<and> cl_tasks s = []"

lemma sending_pop:
  assumes "sending s" "may_send s"
  obtains r q where "heap_pop byPriority (cl_queue s) = (Some r, q)" "mset (cl_queue s) = add_mset r (mset q)"
    "heap_ordered byPriority q" "\<forall>y\<in>#mset (cl_queue s). \<not> byPriority y r < 0"
  using assms pop_urgent [of "cl_queue s"] by (auto simp: sending_def may_send_def)

lemma sending_send:
  assumes "sending s" "may_send s" "heap_pop byPriority (cl_queue s) = (Some r, q)"
  shows "sending (send r (s\<lparr>cl_queue := q\<rparr>))"
proof -
  obtain r' q' where "heap_pop byPriority (cl_queue s) = (Some r', q')" "heap_ordered byPriority q'"
    using assms(1,2) by (rule sending_pop)
  then show ?thesis using assms by (simp add: sending_def send_def)
qed

lemma inc_rate_fields:
  assumes "inc_rate n now s = Inr s'"
  obtains m m' where "cl_rate s = Some m" "meter_inc n now m = Inr m'"
    "s' = s\<lparr>cl_rate := Some m', cl_rate_log := (rm_time m', n) # cl_rate_log s\<rparr>"
  using assms by (auto simp: inc_rate_def result_simps split: option.splits)

lemma sending_inc: "inc_rate n now s = Inr s' \<Longrightarrow> sending (send r s') = sending (send r s)"
  by (elim inc_rate_fields) (simp add: sending_def send_def)

lemma sending_done: "sending s \<Longrightarrow> \<not> may_send s \<Longrightarrow> sched_ok s"
  by (auto simp: sending_def sched_ok_def almost_ok_def queue_ok_def)

lemma connection_ready_ok:
  assumes run: "running s" and ready: "connection_ready now s = Inr s'"
  shows "sched_ok s'"
proof (cases "cl_closed s")
  case True
  then have "s' = s"
    using ready by (auto simp: connection_ready_def performRateLimitedScheduling_def split: option.splits)
  then show ?thesis using run True by (auto simp: running_def sched_ok_def almost_ok_def)
next
  case False
  let ?s = "s\<lparr>cl_schedulingScheduled := False\<rparr>"
  have start: "sending ?s" using run False by (simp add: running_def sending_def queue_ok_def)
  have some: "\<exists>r q. heap_pop byPriority (cl_queue s) = (Some r, q)" if "sending s" "may_send s" for s
    using that by (rule sending_pop) blast
  show ?thesis
  proof (cases "cl_rate s")
    case None
    then have "s' = send_all ?s" using ready False by (simp add: connection_ready_def)
    then show ?thesis using send_all_keeps [of sending, OF sending_send some start] sending_done by blast
  next
    case (Some m)
    then obtain rate where "send_limited now (cl_rateLimit s - rate) ?s = Inr s'"
      using ready False by (auto simp: connection_ready_def performRateLimitedScheduling_def result_simps)
    moreover have "sending (send r s1)" if "sending s" "may_send s" "heap_pop byPriority (cl_queue s) = (Some r, q)"
        "inc_rate (call_size r) now (s\<lparr>cl_queue := q\<rparr>) = Inr s1" for s r q s1
      using sending_send [OF that(1-3)] sending_inc [OF that(4)] by blast
    ultimately obtain s1 where "sending s1"
        "s' = s1 \<and> \<not> may_send s1 \<or> s' = s1\<lparr>cl_schedulingScheduled := True, cl_tasks := cl_tasks s1 @ [Perform]\<rparr>"
      using send_limited_keeps [of "\<lambda>_. sending" now "cl_rateLimit s - rate" ?s s'] some start by blast
    then show ?thesis
      using sending_done [of s1] by (auto simp: sending_def sched_ok_def almost_ok_def queue_ok_def)
  qed
qed

text \<open>Closing empties the queue and settles what waited.\<close>

lemma reject_all_keeps:
  assumes "\<And>s r q. P s \<Longrightarrow> heap_pop byPriority (cl_queue s) = (Some r, q) \<Longrightarrow> mset (cl_queue s) = add_mset r (mset q) \<Longrightarrow>
      P (settle r (Inl err) (s\<lparr>cl_queue := q\<rparr>))"
    and "P s"
  shows "P (reject_all err s) \<and> cl_queue (reject_all err s) = []"
  using assms
proof (induction err s rule: reject_all.induct)
  case (1 err s)
  show ?case
  proof (cases "cl_queue s = []")
    case True
    then show ?thesis using 1(3) by (subst (1 2) reject_all.simps) simp
  next
    case False
    then have peek: "has_next (cl_queue s)" by simp
    obtain r q where pop: "heap_pop byPriority (cl_queue s) = (Some r, q)" "mset (cl_queue s) = add_mset r (mset q)"
      using heap_pop_mset [OF False, of byPriority] by (cases "heap_pop byPriority (cl_queue s)") auto
    have loop: "reject_all err s = reject_all err (settle r (Inl err) (s\<lparr>cl_queue := q\<rparr>))"
      by (subst reject_all.simps) (simp only: peek pop(1) if_True prod.case option.case simp_thms)
    have Pr: "P (settle r (Inl err) (s\<lparr>cl_queue := q\<rparr>))" using 1(2) [OF 1(3) pop] .
    show ?thesis unfolding loop
      by (rule 1(1) [OF peek pop(1) [symmetric] refl]) (erule (2) 1(2), rule Pr)
  qed
qed

lemma client_close_ok: "length (cl_tasks s) \<le> 1 \<Longrightarrow> queue_ok s \<Longrightarrow> (cl_closed s \<Longrightarrow> sched_ok s) \<Longrightarrow> sched_ok (client_close err s)"
proof -
  assume tasks: "length (cl_tasks s) \<le> 1" and "cl_closed s \<Longrightarrow> sched_ok s"
  moreover have "sched_ok (reject_all e (s\<lparr>cl_closed := True\<rparr>))" for e
  proof -
    have "(\<lambda>s. cl_closed s \<and> length (cl_tasks s) \<le> 1) (reject_all e (s\<lparr>cl_closed := True\<rparr>)) \<and>
        cl_queue (reject_all e (s\<lparr>cl_closed := True\<rparr>)) = []"
      by (rule reject_all_keeps) (use tasks in \<open>simp_all add: settle_def\<close>)
    then show ?thesis by (simp add: sched_ok_def almost_ok_def queue_ok_def)
  qed
  ultimately show ?thesis by (simp add: client_close_def)
qed

lemma close_ok: "sched_ok s \<Longrightarrow> sched_ok (client_close err s)"
  by (rule client_close_ok) (auto simp: sched_ok_def almost_ok_def)

lemma close_running: "running s \<Longrightarrow> sched_ok (client_close err s)"
  by (rule client_close_ok) (auto simp: sched_ok_def almost_ok_def running_def)

text \<open>Calls and answers.\<close>

lemma push_request_ok: "almost_ok s \<Longrightarrow> \<not> cl_closed s \<Longrightarrow> sched_ok (push_request r s)"
  unfolding push_request_def
  by (rule schedule_ok) (auto simp: almost_ok_def queue_ok_def priority.ordered_push)

lemma settle_sched [simp]: "sched_ok (settle r out s) = sched_ok s" "almost_ok (settle r out s) = almost_ok s"
  by (simp_all add: settle_def sched_ok_def almost_ok_def queue_ok_def may_send_def)

lemma enqueue_ok: "sched_ok s \<Longrightarrow> sched_ok (enqueue r s)"
  using push_request_ok [of s r] by (simp add: enqueue_def sched_ok_def [of s])

lemma sched_ok_other [simp]:
  "sched_ok (s\<lparr>cl_counter := n\<rparr>) = sched_ok s" "sched_ok (s\<lparr>cl_issued_log := l\<rparr>) = sched_ok s"
  "sched_ok (s\<lparr>cl_finals := n\<rparr>) = sched_ok s" "sched_ok (s\<lparr>cl_ongoing := os\<rparr>) = sched_ok s"
  "sched_ok (s\<lparr>cl_requestsServed := n\<rparr>) = sched_ok s" "sched_ok (s\<lparr>cl_connectionErrorsInRow := n\<rparr>) = sched_ok s"
  by (simp_all add: sched_ok_def almost_ok_def queue_ok_def may_send_def)

lemma backoff_sched [simp]: "sched_ok (backoff now s) = sched_ok s"
  by (simp add: backoff_def Let_def sched_ok_def almost_ok_def queue_ok_def may_send_def)

lemma issue_ok: "sched_ok s \<Longrightarrow> sched_ok (issue r s)"
  by (simp add: issue_def enqueue_ok)

lemma client_call_ok: "sched_ok s \<Longrightarrow> sched_ok (client_call c options s)"
  by (simp add: client_call_def Let_def issue_ok)

lemma batchCallInternal_ok: "sched_ok s \<Longrightarrow> sched_ok (batchCallInternal options b s)"
  by (simp add: batchCallInternal_def Let_def issue_ok client_call_ok)

lemma client_batchCall_ok:
  assumes "client_batchCall cs options s = Inr s'" "sched_ok s"
  shows "sched_ok s'"
proof -
  have "sched_ok (fold (batchCallInternal options) groups t)" if "sched_ok t" for groups t
    using that by (induction groups arbitrary: t) (simp_all add: batchCallInternal_ok)
  then show ?thesis using assms by (auto simp: client_batchCall_def result_simps)
qed

lemma on_failure_ok: "sched_ok s \<Longrightarrow> sched_ok (on_failure r epoch now err s)"
  by (simp add: on_failure_def Let_def enqueue_ok)

lemma answered_ok: "sched_ok s \<Longrightarrow> sched_ok (answered r epoch now out s)"
  by (simp add: answered_def Let_def on_result_def on_failure_ok split: sum.split)

lemma release_ok: "sched_ok s \<Longrightarrow> sched_ok (release_capacity s)"
  unfolding release_capacity_def by (rule schedule_ok) (simp add: sched_ok_def almost_ok_def queue_ok_def)

theorem step_sched_ok: "rpc_step con_call con_batchCall s s' \<Longrightarrow> sched_ok s \<Longrightarrow> sched_ok s'"
proof (induction rule: rpc_step.induct)
  case (perform s ts ts' now)
  then show ?case using task_taken waitForConnection_ok by blast
next
  case (paused s ts until ts')
  then show ?case using task_taken after_pause_ok by blast
next
  case (connected s ts ts')
  then show ?case using task_taken add_task_ok by blast
next
  case (not_connected s ts ts' now err)
  then show ?case using task_taken connect_failed_ok by blast
next
  case (ready s ts ts' now s')
  then show ?case using task_taken connection_ready_ok by blast
next
  case (failed s ts err ts')
  then show ?case using task_taken close_running by blast
qed (auto intro: client_call_ok client_batchCall_ok answered_ok release_ok close_ok)

section \<open>Capacity\<close>

lemma unaccounted_same [simp]:
  "unaccounted (s\<lparr>cl_queue := q\<rparr>) = unaccounted s" "unaccounted (s\<lparr>cl_tasks := ts\<rparr>) = unaccounted s" "unaccounted (s\<lparr>cl_counter := n\<rparr>) = unaccounted s"
  "unaccounted (s\<lparr>cl_issued_log := l\<rparr>) = unaccounted s" "unaccounted (s\<lparr>cl_closed := b\<rparr>) = unaccounted s"
  "unaccounted (s\<lparr>cl_backoffTime := time\<rparr>) = unaccounted s" "unaccounted (s\<lparr>cl_schedulingScheduled := b\<rparr>) = unaccounted s"
  "unaccounted (s\<lparr>cl_requestsServed := n\<rparr>) = unaccounted s" "unaccounted (s\<lparr>cl_connectionErrorsInRow := n\<rparr>) = unaccounted s"
  "unaccounted (settle r out s) = unaccounted s" "unaccounted (send r s) = unaccounted s" "unaccounted (add_task t s) = unaccounted s"
  "unaccounted (backoff now s) = unaccounted s"
  by (simp_all add: unaccounted_def client_ops)

lemma unaccounted_waitForConnection [simp]: "unaccounted (waitForConnection now s) = unaccounted s"
  by (simp add: waitForConnection_def after_pause_def Let_def split: option.split)

lemma unaccounted_connect_failed [simp]: "unaccounted (connect_failed now err s) = unaccounted s"
  by (simp add: connect_failed_def)

lemma unaccounted_enqueue [simp]: "unaccounted (enqueue r s) = unaccounted s"
  by (simp add: enqueue_def push_request_def)

lemma unaccounted_client_call [simp]: "unaccounted (client_call c options s) = unaccounted s"
  by (simp add: client_call_def issue_def Let_def)

lemma unaccounted_batchCallInternal [simp]: "unaccounted (batchCallInternal options b s) = unaccounted s"
  by (simp add: batchCallInternal_def issue_def Let_def)

lemma unaccounted_batches: "unaccounted (fold (batchCallInternal options) groups s) = unaccounted s"
  by (induction groups arbitrary: s) simp_all

lemma unaccounted_on_failure [simp]: "unaccounted (on_failure r epoch now err s) = unaccounted s"
  by (simp add: on_failure_def Let_def)

lemma unaccounted_answered [simp]: "unaccounted (answered r epoch now out s) = unaccounted s - 1"
proof -
  have "unaccounted (t\<lparr>cl_finals := cl_finals t + 1\<rparr>) = unaccounted t - 1" for t by (simp add: unaccounted_def)
  moreover have "unaccounted (case out of Inr vs \<Rightarrow> on_result r epoch vs s | Inl err \<Rightarrow> on_failure r epoch now err s) = unaccounted s"
    by (simp add: on_result_def Let_def split: sum.split)
  ultimately show ?thesis by (simp only: answered_def Let_def)
qed

lemma unaccounted_client_close [simp]: "unaccounted (client_close err s) = unaccounted s"
proof -
  have "unaccounted (reject_all e t) = unaccounted t" for e t
    using reject_all_keeps [of "\<lambda>s. unaccounted s = unaccounted t"] by simp
  then show ?thesis by (simp add: client_close_def)
qed

lemma unaccounted_inc: "inc_rate n now s = Inr s' \<Longrightarrow> unaccounted s' = unaccounted s"
  by (elim inc_rate_fields) (simp add: unaccounted_def)

text \<open>What every sending keeps, a run of \<open>performScheduling\<close> keeps.\<close>

lemma connection_ready_keeps:
  assumes run: "running s" and ready: "connection_ready now s = Inr s'" and P: "P s"
    and flags: "\<And>t b ts. P (t\<lparr>cl_schedulingScheduled := b, cl_tasks := ts\<rparr>) = P t"
    and keeps: "\<And>t r q rate log. P t \<Longrightarrow> may_send t \<Longrightarrow> mset (cl_queue t) = add_mset r (mset q) \<Longrightarrow>
      \<forall>y\<in>#mset (cl_queue t). \<not> byPriority y r < 0 \<Longrightarrow>
      P (send r (t\<lparr>cl_queue := q, cl_rate := rate, cl_rate_log := log\<rparr>))"
  shows "P s'"
proof (cases "cl_closed s")
  case True
  then show ?thesis
    using ready P by (auto simp: connection_ready_def performRateLimitedScheduling_def split: option.splits)
next
  case False
  let ?P = "\<lambda>t. sending t \<and> P t" and ?s = "s\<lparr>cl_schedulingScheduled := False\<rparr>"
  have "P ?s" using P flags [where t = s and b = False and ts = "cl_tasks s"] by simp
  then have start: "?P ?s" using run False by (simp add: running_def sending_def queue_ok_def)
  have some: "\<exists>r q. heap_pop byPriority (cl_queue t) = (Some r, q)" if "?P t" "may_send t" for t
    using that sending_pop [of t] by blast
  have sends: "P (send r (t\<lparr>cl_queue := q, cl_rate := rate, cl_rate_log := log\<rparr>))"
    if "?P t" "may_send t" "heap_pop byPriority (cl_queue t) = (Some r, q)" for t r q rate log
    using that sending_pop [of t] keeps [where t = t and r = r and q = q and rate = rate and log = log] by (metis Pair_inject option.inject)
  show ?thesis
  proof (cases "cl_rate s")
    case None
    have "?P (send r (t\<lparr>cl_queue := q\<rparr>))" if "?P t" "may_send t" "heap_pop byPriority (cl_queue t) = (Some r, q)" for t r q
      using that sending_send [of t r q] sends [OF that, where rate = "cl_rate t" and log = "cl_rate_log t"] by simp
    moreover have "s' = send_all ?s" using None ready False by (simp add: connection_ready_def)
    ultimately show ?thesis using send_all_keeps [of ?P, OF _ some start] by blast
  next
    case (Some m)
    have sent: "?P (send r t1)" if "?P t" "may_send t" "heap_pop byPriority (cl_queue t) = (Some r, q)"
        "inc_rate n now (t\<lparr>cl_queue := q\<rparr>) = Inr t1" for t r q n t1
      using that(4)
    proof (rule inc_rate_fields)
      fix m m' assume "t1 = t\<lparr>cl_queue := q, cl_rate := Some m', cl_rate_log := (rm_time m', n) # cl_rate_log (t\<lparr>cl_queue := q\<rparr>)\<rparr>"
      then show ?thesis using sends [OF that(1-3)] sending_send [of t r q] sending_inc [OF that(4)] that(1-3) by blast
    qed
    obtain rate where "send_limited now (cl_rateLimit s - rate) ?s = Inr s'"
      using Some ready False by (auto simp: connection_ready_def performRateLimitedScheduling_def result_simps)
    then obtain s1 where "P s1"
        "s' = s1 \<or> s' = s1\<lparr>cl_schedulingScheduled := True, cl_tasks := cl_tasks s1 @ [Perform]\<rparr>"
      using send_limited_keeps [of "\<lambda>_. ?P" now "cl_rateLimit s - rate" ?s s'] sent some start by blast
    then show ?thesis using flags by metis
  qed
qed

lemma connection_ready_unaccounted:
  assumes "running s" "connection_ready now s = Inr s'"
  shows "unaccounted s' = unaccounted s"
  using assms by (rule connection_ready_keeps) (simp_all add: unaccounted_def send_def)

theorem step_unaccounted:
  "rpc_step con_call con_batchCall s s' \<Longrightarrow> sched_ok s \<Longrightarrow> unaccounted s = 0 \<Longrightarrow> unaccounted s' = 0"
proof (induction rule: rpc_step.induct)
  case (batch cs options s s')
  then show ?case by (auto simp: client_batchCall_def result_simps unaccounted_batches)
next
  case (ready s ts ts' now s')
  then show ?case using task_taken [of s ts Ready ts'] connection_ready_unaccounted by fastforce
next
  case (answer s os r epoch os' now a)
  then show ?case by (simp add: unaccounted_def [of s] unaccounted_def [of "s\<lparr>cl_ongoing := os @ os'\<rparr>"])
next
  case (final s)
  moreover have "unaccounted (release_capacity s) = unaccounted s" using final(1) unfolding release_capacity_def schedule_unaccounted
    by (simp add: unaccounted_def of_nat_diff)
  ultimately show ?case by simp
qed (simp_all add: after_pause_def)

text \<open>Requests are only sent while there is capacity.\<close>

lemma capacity_same [simp]:
  "cl_capacity (schedule s) = cl_capacity s" "cl_capacity (settle r out s) = cl_capacity s"
  "cl_capacity (add_task t s) = cl_capacity s" "cl_capacity (backoff now s) = cl_capacity s"
  by (simp_all add: schedule_def client_ops)

lemma capacity_ops [simp]:
  "cl_capacity (waitForConnection now s) = cl_capacity s" "cl_capacity (connect_failed now err s) = cl_capacity s"
  "cl_capacity (after_pause s) = cl_capacity s" "cl_capacity (enqueue r s) = cl_capacity s"
  "cl_capacity (client_call c options s) = cl_capacity s" "cl_capacity (batchCallInternal options b s) = cl_capacity s"
  "cl_capacity (answered r epoch now out s) = cl_capacity s"
  by (simp_all add: connect_failed_def waitForConnection_def after_pause_def enqueue_def push_request_def client_call_def
      batchCallInternal_def issue_def answered_def on_result_def on_failure_def Let_def split: option.split sum.split)

lemma capacity_batches [simp]: "cl_capacity (fold (batchCallInternal options) groups s) = cl_capacity s"
  by (induction groups arbitrary: s) simp_all

lemma capacity_client_close [simp]: "cl_capacity (client_close err s) = cl_capacity s"
proof -
  have "cl_capacity (reject_all e t) = cl_capacity t" for e t
    using reject_all_keeps [of "\<lambda>s. cl_capacity s = cl_capacity t"] by simp
  then show ?thesis by (simp add: client_close_def)
qed

lemma connection_ready_capacity:
  assumes "running s" "connection_ready now s = Inr s'" "0 \<le> cl_capacity s"
  shows "0 \<le> cl_capacity s'"
  using assms by (rule connection_ready_keeps) (simp_all add: send_def may_send_def)

lemma step_capacity:
  "rpc_step con_call con_batchCall s s' \<Longrightarrow> sched_ok s \<Longrightarrow> 0 \<le> cl_capacity s \<Longrightarrow> 0 \<le> cl_capacity s'"
proof (induction rule: rpc_step.induct)
  case (batch cs options s s')
  then show ?case by (auto simp: client_batchCall_def result_simps)
next
  case (ready s ts ts' now s')
  then show ?case using task_taken [of s ts Ready ts'] connection_ready_capacity by fastforce
next
  case (final s)
  then show ?case by (simp add: release_capacity_def)
qed simp_all

section \<open>The client makes moves of the ledger\<close>

lemma ledger_same [simp]:
  "ledger_of (schedule s) = ledger_of s" "ledger_of (add_task t s) = ledger_of s" "ledger_of (backoff now s) = ledger_of s"
  "ledger_of (after_pause s) = ledger_of s"
  "ledger_of (s\<lparr>cl_tasks := ts\<rparr>) = ledger_of s" "ledger_of (s\<lparr>cl_finals := n\<rparr>) = ledger_of s"
  "ledger_of (s\<lparr>cl_backoffTime := time\<rparr>) = ledger_of s" "ledger_of (s\<lparr>cl_closed := b\<rparr>) = ledger_of s"
  "ledger_of (s\<lparr>cl_requestsServed := n\<rparr>) = ledger_of s" "ledger_of (s\<lparr>cl_connectionErrorsInRow := n\<rparr>) = ledger_of s"
  by (simp_all add: ledger_of_def schedule_def after_pause_def client_ops)

lemma ledger_waitForConnection [simp]: "ledger_of (waitForConnection now s) = ledger_of s"
  by (simp add: waitForConnection_def Let_def split: option.split)

lemma ledger_connect_failed [simp]: "ledger_of (connect_failed now err s) = ledger_of s"
  by (simp add: connect_failed_def)

lemma ledger_release [simp]: "ledger_of (release_capacity s) = ledger_of s"
  by (simp add: release_capacity_def) (simp add: ledger_of_def)

lemma ledger_push [simp]:
  "ledger_of (push_request r s) = (ledger_of s)\<lparr>lg_waiting := add_mset r (lg_waiting (ledger_of s))\<rparr>"
  by (simp add: push_request_def) (simp add: ledger_of_def priority.push_mset)

lemma ledger_settle [simp]:
  "ledger_of (settle r out s) =
     (ledger_of s)\<lparr>lg_settled := add_mset (getCallPriority r) (lg_settled (ledger_of s))\<rparr>"
  by (simp add: settle_def ledger_of_def)

lemma issue_move:
  assumes "cl_counter s < getCallPriority r" "getCallPriority r \<le> n" and fit: "fits (max 1 (cl_maxBatchCallSize s)) r"
  shows "move (ledger_of s) (ledger_of (issue r (s\<lparr>cl_counter := n\<rparr>)))"
proof -
  have c: "lg_counter (ledger_of s) < getCallPriority r" using assms(1) by (simp add: ledger_of_def)
  have f: "fits (lg_largest (ledger_of s)) r" using fit by (simp add: ledger_of_def)
  show ?thesis
  proof (cases "cl_closed s")
    case True
    then have "ledger_of (issue r (s\<lparr>cl_counter := n\<rparr>)) = (ledger_of s)
        \<lparr>lg_settled := add_mset (getCallPriority r) (lg_settled (ledger_of s)), lg_issued := lg_issued (ledger_of s) @ [r], lg_counter := n\<rparr>"
      by (simp add: issue_def enqueue_def settle_def ledger_of_def)
    then show ?thesis using move.refuse [OF c assms(2) f] by simp
  next
    case False
    then have "ledger_of (issue r (s\<lparr>cl_counter := n\<rparr>)) = (ledger_of s)
        \<lparr>lg_waiting := add_mset r (lg_waiting (ledger_of s)), lg_issued := lg_issued (ledger_of s) @ [r], lg_counter := n\<rparr>"
      by (simp add: issue_def enqueue_def) (simp add: ledger_of_def)
    then show ?thesis using move.issue [OF c assms(2) f] by simp
  qed
qed

lemma getCallPriority_make [simp]:
  "getCallPriority (make_req (Single c) options s) = rq_id c" "getCallPriority (make_req (Batch cs) options s) = rq_id (cs ! 0)"
  by (simp_all add: getCallPriority_def make_req_def)

lemma call_size_make [simp]:
  "call_size (make_req (Single c) options s) = 1" "call_size (make_req (Batch cs) options s) = int (length cs)"
  by (simp_all add: call_size_def make_req_def)

lemma client_call_move: "move (ledger_of s) (ledger_of (client_call c options s))"
  unfolding client_call_def Let_def by (rule issue_move) (simp_all add: fits_def)

lemma number_calls_length [simp]: "length (number_calls n cs) = length cs"
  by (induction cs arbitrary: n) simp_all

lemma number_calls_first: "cs \<noteq> [] \<Longrightarrow> rq_id (number_calls n cs ! 0) = n + 1"
  by (cases cs) simp_all

lemma batchCallInternal_moves:
  assumes "int (length b) \<le> cl_maxBatchCallSize s"
  shows "move\<^sup>*\<^sup>* (ledger_of s) (ledger_of (batchCallInternal options b s))"
proof (cases "length b \<le> 1")
  case True
  then have "b = [] \<or> length b = 1" by (cases b) auto
  then show ?thesis using client_call_move [of s "b ! 0" options] by (auto simp: batchCallInternal_def)
next
  case False
  then have "b \<noteq> []" by auto
  with False have "move (ledger_of s) (ledger_of (issue (make_req (Batch (number_calls (cl_counter s) b)) options s)
      (s\<lparr>cl_counter := cl_counter s + length b\<rparr>)))"
    using number_calls_first [of b "cl_counter s"] assms False by (intro issue_move) (auto simp: fits_def)
  then show ?thesis using False by (simp add: batchCallInternal_def Let_def r_into_rtranclp)
qed

lemma client_call_max [simp]: "cl_maxBatchCallSize (client_call c options s) = cl_maxBatchCallSize s"
  by (simp add: client_call_def issue_def enqueue_def push_request_def settle_def schedule_def Let_def)

lemma batchCallInternal_max [simp]: "cl_maxBatchCallSize (batchCallInternal options b s) = cl_maxBatchCallSize s"
  by (simp add: batchCallInternal_def issue_def enqueue_def push_request_def settle_def schedule_def Let_def)

lemma batches_moves:
  "\<forall>g\<in>set groups. int (length g) \<le> cl_maxBatchCallSize s \<Longrightarrow>
   move\<^sup>*\<^sup>* (ledger_of s) (ledger_of (fold (batchCallInternal options) groups s))"
proof (induction groups arbitrary: s)
  case (Cons g groups)
  then have "move\<^sup>*\<^sup>* (ledger_of s) (ledger_of (batchCallInternal options g s))" by (intro batchCallInternal_moves) simp
  also have "move\<^sup>*\<^sup>* \<dots> (ledger_of (fold (batchCallInternal options) groups (batchCallInternal options g s)))"
    using Cons by simp
  finally show ?case by simp
qed simp

lemma splitArray_sizes:
  assumes "splitArray m arr = Inr groups" "g \<in> set groups"
  shows "int (length g) \<le> m"
proof (cases "int (length arr) \<le> m")
  case False
  then have m: "1 \<le> m" and g: "groups = map (\<lambda>(b, e). js_slice arr (nat b) (nat e)) (splitSlice_loop m 0 (int (length arr)))"
    using assms(1) by (auto simp: splitArray_def splitSlice_def result_simps)
  have slices: "y - x \<le> m" if "slices_from m b e ps" "(x, y) \<in> set ps" for b e ps x y
    using that by (induction m b e ps rule: slices_from.induct) auto
  obtain x y where xy: "(x, y) \<in> set (splitSlice_loop m 0 (int (length arr)))" "g = js_slice arr (nat x) (nat y)"
    using assms(2) g by auto
  have "y - x \<le> m" using slices [OF splitSlice_loop_slices xy(1)] m by simp
  moreover have "length g \<le> nat y - nat x" by (simp add: xy(2) js_slice_def)
  ultimately show ?thesis using m by linarith
qed (use assms in \<open>auto simp: splitArray_def\<close>)

lemma answered_move:
  "move ((ledger_of s)\<lparr>lg_ongoing := add_mset r (lg_ongoing (ledger_of s))\<rparr>) (ledger_of (answered r epoch now out s))"
  (is "move ?l _")
proof -
  have fin: "move ?l ((ledger_of s)\<lparr>lg_settled := add_mset (getCallPriority r) (lg_settled (ledger_of s))\<rparr>)"
    using move.finish [of ?l r "lg_ongoing (ledger_of s)"] by simp
  have again: "move ?l ((ledger_of s)\<lparr>lg_waiting := add_mset (one_try_less r) (lg_waiting (ledger_of s))\<rparr>)"
    if "re_retryAttempts r > 0"
    using move.retry [of ?l r "lg_ongoing (ledger_of s)"] that by simp
  show ?thesis
  proof (cases out)
    case (Inl err)
    then show ?thesis using fin again by (simp add: answered_def on_failure_def enqueue_def Let_def)
  next
    case (Inr vs)
    then show ?thesis using fin by (simp add: answered_def on_result_def Let_def)
  qed
qed

lemma client_close_moves: "move\<^sup>*\<^sup>* (ledger_of s) (ledger_of (client_close err s))"
proof -
  have "move\<^sup>*\<^sup>* (ledger_of s) (ledger_of (reject_all e (s\<lparr>cl_closed := True\<rparr>)))" for e
  proof -
    have "(\<lambda>t. move\<^sup>*\<^sup>* (ledger_of s) (ledger_of t)) (settle r (Inl e) (t\<lparr>cl_queue := q\<rparr>))"
      if "move\<^sup>*\<^sup>* (ledger_of s) (ledger_of t)" "mset (cl_queue t) = add_mset r (mset q)" for t r q
    proof -
      have "move (ledger_of t) (ledger_of (settle r (Inl e) (t\<lparr>cl_queue := q\<rparr>)))"
        using move.drop [of "ledger_of t" r "mset q"] that(2) by (simp add: ledger_of_def settle_def)
      then show ?thesis using that(1) by simp
    qed
    then show ?thesis using reject_all_keeps [of "\<lambda>t. move\<^sup>*\<^sup>* (ledger_of s) (ledger_of t)" e "s\<lparr>cl_closed := True\<rparr>"] by simp
  qed
  then show ?thesis by (simp add: client_close_def)
qed

lemma connection_ready_moves:
  assumes "running s" "connection_ready now s = Inr s'"
  shows "move\<^sup>*\<^sup>* (ledger_of s) (ledger_of s')"
  using assms
proof (rule connection_ready_keeps)
  show "move\<^sup>*\<^sup>* (ledger_of s) (ledger_of (t\<lparr>cl_schedulingScheduled := b, cl_tasks := ts\<rparr>)) = move\<^sup>*\<^sup>* (ledger_of s) (ledger_of t)"
    for t b ts by (simp add: ledger_of_def)
next
  fix t r q rate log
  assume t: "move\<^sup>*\<^sup>* (ledger_of s) (ledger_of t)" and "may_send t" and q: "mset (cl_queue t) = add_mset r (mset q)"
    and urgent: "\<forall>y\<in>#mset (cl_queue t). \<not> byPriority y r < 0"
  have "move (ledger_of t) (ledger_of (send r (t\<lparr>cl_queue := q, cl_rate := rate, cl_rate_log := log\<rparr>)))"
    using move.start [of "ledger_of t" r "mset q"] q urgent by (simp add: ledger_of_def send_def)
  then show "move\<^sup>*\<^sup>* (ledger_of s) (ledger_of (send r (t\<lparr>cl_queue := q, cl_rate := rate, cl_rate_log := log\<rparr>)))"
    using t by simp
qed simp

theorem step_moves:
  "rpc_step con_call con_batchCall s s' \<Longrightarrow> sched_ok s \<Longrightarrow> move\<^sup>*\<^sup>* (ledger_of s) (ledger_of s')"
proof (induction rule: rpc_step.induct)
  case (call s c options)
  then show ?case using client_call_move by blast
next
  case (batch cs options s s')
  then obtain groups where "splitArray (cl_maxBatchCallSize s) cs = Inr groups" "s' = fold (batchCallInternal options) groups s"
    by (auto simp: client_batchCall_def result_simps)
  then show ?case using batches_moves splitArray_sizes by blast
next
  case (ready s ts ts' now s')
  then show ?case using task_taken [of s ts Ready ts'] connection_ready_moves [of "s\<lparr>cl_tasks := ts @ ts'\<rparr>" now s'] by simp
next
  case (failed s ts err ts')
  then show ?case using client_close_moves [of "s\<lparr>cl_tasks := ts @ ts'\<rparr>" "Some err"] by simp
next
  case (answer s os r epoch os' now a)
  have "ledger_of s = (ledger_of (s\<lparr>cl_ongoing := os @ os'\<rparr>))
      \<lparr>lg_ongoing := add_mset r (lg_ongoing (ledger_of (s\<lparr>cl_ongoing := os @ os'\<rparr>)))\<rparr>"
    using answer by (simp add: ledger_of_def)
  then show ?case using answered_move [where s = "s\<lparr>cl_ongoing := os @ os'\<rparr>" and r = r] by (metis r_into_rtranclp)
next
  case (close s err)
  show ?case by (rule client_close_moves)
qed simp_all

end
