(* ===== verification/Rpc_Limit.thy ===== *)
theory Rpc_Limit
  imports Rpc_Laws
begin

text \<open>
  The limit of calls per second. In any eleven consecutive slots of the meter the client starts fewer calls than the limit
  allows in the time of ten of them and one batch more (\<open>within_limit\<close>), whatever the interleaving. The bound counts calls; the
  rate of the meter is in calls per second, so a batch weighs less in it when the slots are long (\<open>rate_of_Cons\<close>).
\<close>

section \<open>The meter\<close>

definition rate_of :: "rate_meter \<Rightarrow> meter_log \<Rightarrow> int \<Rightarrow> rat" where
  "rate_of m lg t = 1000 * of_int (counted lg (t - 11) t) / (10 * of_int (rm_slotTime m))"

text \<open>The length of a slot in milliseconds that suits a limit, and the calls that the limit allows in the time of ten slots.\<close>

definition slot_fits :: "int \<Rightarrow> rat \<Rightarrow> bool" where
  "slot_fits slot limit \<longleftrightarrow>
     (if limit < 1 then 100 / limit \<le> of_int slot \<and> of_int slot < 100 / limit + 1 else slot = 100)"

definition calls_allowed :: "rate_meter \<Rightarrow> rat \<Rightarrow> rat" where
  "calls_allowed m limit = limit * of_int (10 * rm_slotTime m) / 1000"

definition within_limit :: "rate_meter \<Rightarrow> meter_log \<Rightarrow> rat \<Rightarrow> int \<Rightarrow> bool" where
  "within_limit m lg limit batch \<longleftrightarrow>
     measures m lg \<and> rm_windowSize m = 10 \<and> 0 < limit \<and> slot_fits (rm_slotTime m) limit \<and> batch \<le> max 1 \<lfloor>limit / 5\<rfloor> \<and>
     (\<forall>(t, n)\<in>set lg. 0 \<le> n) \<and> (\<forall>t. of_int (counted lg (t - 11) t) < calls_allowed m limit + of_int batch)"

lemma slot_fits_ge: "slot_fits slot limit \<Longrightarrow> 0 < limit \<Longrightarrow> 100 \<le> slot"
proof (cases "limit < 1")
  case True
  assume "slot_fits slot limit" "0 < limit"
  then have "100 / limit \<le> of_int slot" using True by (simp add: slot_fits_def)
  moreover have "(100 :: rat) \<le> 100 / limit" using True \<open>0 < limit\<close> by (simp add: le_divide_eq)
  ultimately have "(100 :: rat) \<le> of_int slot" by simp
  then show "100 \<le> slot" by (simp add: of_int_le_iff [of 100, where 'a = rat, simplified])
qed (simp add: slot_fits_def)

lemma rate_of_less:
  "100 \<le> rm_slotTime m \<Longrightarrow> rate_of m lg t < limit \<longleftrightarrow> of_int (counted lg (t - 11) t) < calls_allowed m limit"
  by (simp add: rate_of_def calls_allowed_def divide_less_eq less_divide_eq mult.commute mult.left_commute)

lemma counted_Cons: "counted ((t, n) # lg) low high = (if low < t \<and> t \<le> high then n else 0) + counted lg low high"
  by (simp add: counted_def)

lemma counted_mono:
  assumes "\<forall>(t, n)\<in>set lg. 0 \<le> n" "low' \<le> low" "high \<le> high'"
  shows "counted lg low high \<le> counted lg low' high'"
  using assms by (induction lg) (auto simp: counted_def intro!: add_mono)

lemma rate_of_mono:
  assumes "counted lg (t - 11) t \<le> counted lg' (t' - 11) t'" "100 \<le> rm_slotTime m"
  shows "rate_of m lg t \<le> rate_of m lg' t'"
  unfolding rate_of_def using assms by (intro divide_right_mono mult_left_mono) auto

lemma rate_of_Cons:
  assumes "100 \<le> rm_slotTime m" "0 \<le> n"
  shows "rate_of m ((t, n) # lg) t \<le> rate_of m lg t + of_int n"
proof -
  have "1000 * of_int n / (10 * of_int (rm_slotTime m)) \<le> (of_int n :: rat)"
  proof -
    have "(1000 :: rat) \<le> 10 * of_int (rm_slotTime m)" using assms(1) by (simp add: of_int_le_iff [of 100, where 'a = rat, simplified])
    then have "1000 * of_int n \<le> (10 * of_int (rm_slotTime m)) * (of_int n :: rat)"
      using assms(2) by (intro mult_right_mono) auto
    then show ?thesis using assms(1) by (simp add: divide_le_eq mult.commute)
  qed
  then show ?thesis by (simp add: rate_of_def counted_Cons distrib_left add_divide_distrib)
qed

lemma getRate_rate_of:
  assumes "within_limit m lg limit batch" "getRate now m = Inr rate"
  obtains t where "toTime now m = Inr t" "rate = rate_of m lg t"
proof -
  obtain t where t: "toTime now m = Inr t" using assms(2) by (auto simp: getRate_def result_simps)
  then show thesis
    using getRate_measures [of m lg now t] assms that [OF t] by (simp add: within_limit_def rate_of_def)
qed

lemma inc_within_limit:
  assumes ok: "within_limit m lg limit batch" and t: "toTime now m = Inr t" and inc: "meter_inc n now m = Inr m'"
    and n: "0 \<le> n" "n \<le> batch" and room: "rate_of m lg t < limit"
  shows "within_limit m' ((t, n) # lg) limit batch" "toTime now m' = Inr t" "rm_time m' = t"
    "rate_of m' ((t, n) # lg) t \<le> rate_of m lg t + of_int n"
proof -
  have m: "measures m lg" "rm_windowSize m = 10" "100 \<le> rm_slotTime m" "\<forall>(t, n)\<in>set lg. 0 \<le> n"
    "\<And>t. of_int (counted lg (t - 11) t) < calls_allowed m limit + of_int batch"
    using ok slot_fits_ge by (auto simp: within_limit_def)
  have m': "rm_time m \<le> t" "measures m' ((t, n) # lg)" "rm_time m' = t" "rm_slotTime m' = rm_slotTime m"
    "rm_windowSize m' = rm_windowSize m"
    using inc_measures [OF m(1) inc] t by auto
  have same: "rate_of m' = rate_of m" "calls_allowed m' = calls_allowed m"
    by (intro ext, simp add: rate_of_def calls_allowed_def m')+
  have "of_int (counted ((t, n) # lg) (u - 11) u) < calls_allowed m limit + of_int batch" for u
  proof (cases "t \<le> u")
    case False
    then have "counted ((t, n) # lg) (u - 11) u = counted lg (u - 11) u" by (simp add: counted_Cons)
    then show ?thesis using m(5) by simp
  next
    case True
    have top: "\<forall>(s, k)\<in>set ((t, n) # lg). s \<le> t" using m'(2,3) by (auto simp: measures_def)
    have "counted ((t, n) # lg) (u - 11) u = counted ((t, n) # lg) (u - 11) t" using counted_top [OF top True] .
    also have "\<dots> \<le> counted ((t, n) # lg) (t - 11) t" using m(4) n(1) True by (intro counted_mono) auto
    also have "\<dots> = n + counted lg (t - 11) t" by (simp add: counted_Cons)
    also have "\<dots> \<le> batch + counted lg (t - 11) t" using n(2) by simp
    finally have "(of_int (counted ((t, n) # lg) (u - 11) u) :: rat) \<le> of_int batch + of_int (counted lg (t - 11) t)"
      by (metis of_int_add of_int_le_iff)
    also have "\<dots> < of_int batch + calls_allowed m limit" using room rate_of_less [OF m(3)] by simp
    finally show ?thesis by simp
  qed
  then show "within_limit m' ((t, n) # lg) limit batch"
    using ok m' n(1) by (simp add: within_limit_def same)
  show "rm_time m' = t" by (rule m')
  have "length (rm_window m') = length (rm_window m)" using m(1) m'(2,5) by (simp add: measures_def)
  then show "toTime now m' = Inr t" using t m' by (auto simp: toTime_def Let_def result_simps)
  show "rate_of m' ((t, n) # lg) t \<le> rate_of m lg t + of_int n"
    using rate_of_Cons [OF m(3) n(1)] by (simp add: same)
qed

section \<open>Steps that send nothing\<close>

text \<open>What a step that neither issues nor sends leaves alone.\<close>

definition settings :: "client \<Rightarrow> int \<times> rat" where
  "settings s = (cl_maxBatchCallSize s, cl_rateLimit s)"

definition traffic :: "client \<Rightarrow> rate_meter option \<times> meter_log \<times> req list" where
  "traffic s = (cl_rate s, cl_rate_log s, cl_sent_log s)"

definition frame :: "client \<Rightarrow> (int \<times> rat) \<times> (rate_meter option \<times> meter_log \<times> req list)" where
  "frame s = (settings s, traffic s)"

lemma frame_same [simp]:
  "frame (schedule s) = frame s" "frame (add_task t s) = frame s" "frame (backoff now s) = frame s" "frame (settle r out s) = frame s"
  "frame (s\<lparr>cl_queue := q\<rparr>) = frame s" "frame (s\<lparr>cl_tasks := ts\<rparr>) = frame s" "frame (s\<lparr>cl_counter := n\<rparr>) = frame s"
  "frame (s\<lparr>cl_issued_log := l\<rparr>) = frame s" "frame (s\<lparr>cl_closed := b\<rparr>) = frame s" "frame (s\<lparr>cl_capacity := c\<rparr>) = frame s"
  "frame (s\<lparr>cl_backoffTime := time\<rparr>) = frame s" "frame (s\<lparr>cl_finals := n\<rparr>) = frame s" "frame (s\<lparr>cl_ongoing := os\<rparr>) = frame s"
  "frame (s\<lparr>cl_requestsServed := n\<rparr>) = frame s" "frame (s\<lparr>cl_connectionErrorsInRow := n\<rparr>) = frame s"
  by (simp_all add: frame_def settings_def traffic_def schedule_def client_ops)

lemma frame_ops [simp]:
  "frame (after_pause s) = frame s" "frame (enqueue r s) = frame s" "frame (issue r s) = frame s"
  "frame (release_capacity s) = frame s"
  by (simp_all add: after_pause_def enqueue_def push_request_def issue_def release_capacity_def)

lemma frame_waitForConnection [simp]: "frame (waitForConnection now s) = frame s"
  by (simp add: waitForConnection_def Let_def split: option.split)

lemma frame_connect_failed [simp]: "frame (connect_failed now err s) = frame s"
  by (simp add: connect_failed_def)

lemma frame_client_call [simp]: "frame (client_call c options s) = frame s"
  by (simp add: client_call_def Let_def)

lemma frame_batchCallInternal [simp]: "frame (batchCallInternal options b s) = frame s"
  by (simp add: batchCallInternal_def Let_def)

lemma frame_batches [simp]: "frame (fold (batchCallInternal options) groups s) = frame s"
  by (induction groups arbitrary: s) simp_all

lemma frame_answered [simp]: "frame (answered r epoch now out s) = frame s"
  by (simp add: answered_def on_result_def on_failure_def Let_def split: sum.split)

lemma frame_client_close [simp]: "frame (client_close err s) = frame s"
proof -
  have "frame (reject_all e t) = frame t" for e t
    using reject_all_keeps [of "\<lambda>s. frame s = frame t"] by simp
  then show ?thesis by (simp add: client_close_def)
qed

lemma step_frame:
  assumes "rpc_step con_call con_batchCall s s'"
  shows "frame s' = frame s \<or>
    (\<exists>ts ts' now. cl_tasks s = ts @ Ready # ts' \<and> connection_ready now (s\<lparr>cl_tasks := ts @ ts'\<rparr>) = Inr s')"
  using assms
proof (induction rule: rpc_step.induct)
  case (batch cs options s s')
  then show ?case by (auto simp: client_batchCall_def result_simps)
qed auto

lemma step_settings: "rpc_step con_call con_batchCall s s' \<Longrightarrow> sched_ok s \<Longrightarrow> settings s' = settings s"
proof (elim disjE [OF step_frame] exE conjE)
  show "frame s' = frame s \<Longrightarrow> settings s' = settings s" by (simp add: frame_def)
next
  fix ts ts' now
  assume "sched_ok s" and t: "cl_tasks s = ts @ Ready # ts'" and ready: "connection_ready now (s\<lparr>cl_tasks := ts @ ts'\<rparr>) = Inr s'"
  from task_taken [OF \<open>sched_ok s\<close> t] ready show "settings s' = settings s"
    by (rule connection_ready_keeps) (simp_all add: settings_def send_def)
qed

section \<open>The limit is kept\<close>

abbreviation largest :: "client \<Rightarrow> int" where
  "largest s \<equiv> max 1 (cl_maxBatchCallSize s)"

definition rate_ok :: "client \<Rightarrow> bool" where
  "rate_ok s \<longleftrightarrow>
     (case cl_rate s of
        None \<Rightarrow> True
      | Some m \<Rightarrow> within_limit m (cl_rate_log s) (cl_rateLimit s) (largest s) \<and>
          map snd (cl_rate_log s) = rev (map call_size (cl_sent_log s)))"

lemma rate_ok_frame: "frame s' = frame s \<Longrightarrow> rate_ok s' = rate_ok s"
  by (simp add: rate_ok_def frame_def settings_def traffic_def split: option.split)

text \<open>The state inside of a run at the slot \<open>t\<close>, with room for \<open>c\<close> more calls.\<close>

definition has_room :: "int \<Rightarrow> int \<Rightarrow> rat \<Rightarrow> client \<Rightarrow> bool" where
  "has_room now t c s \<longleftrightarrow> sending s \<and> sizes_fit (ledger_of s) \<and> rate_ok s \<and>
     (\<exists>m. cl_rate s = Some m \<and> toTime now m = Inr t \<and> c \<le> cl_rateLimit s - rate_of m (cl_rate_log s) t)"

lemma has_room_send:
  assumes room: "has_room now t c s" and may: "may_send s" "0 < c"
    and pop: "heap_pop byPriority (cl_queue s) = (Some r, q)"
    and inc: "inc_rate (call_size r) now (s\<lparr>cl_queue := q\<rparr>) = Inr s1"
  shows "has_room now t (c - of_int (call_size r)) (send r s1)"
proof -
  have send: "sending s" and fit: "sizes_fit (ledger_of s)" and ok: "rate_ok s" using room by (simp_all add: has_room_def)
  obtain m where m: "cl_rate s = Some m" "toTime now m = Inr t" "c \<le> cl_rateLimit s - rate_of m (cl_rate_log s) t"
    using room by (auto simp: has_room_def)
  obtain m' where m': "meter_inc (call_size r) now m = Inr m'"
      "s1 = s\<lparr>cl_queue := q, cl_rate := Some m', cl_rate_log := (rm_time m', call_size r) # cl_rate_log s\<rparr>"
    using inc m(1) by (elim inc_rate_fields) auto
  have q: "mset (cl_queue s) = add_mset r (mset q)" using send may pop by (elim sending_pop) auto
  have w: "within_limit m (cl_rate_log s) (cl_rateLimit s) (largest s)"
    "map snd (cl_rate_log s) = rev (map call_size (cl_sent_log s))"
    using ok m(1) by (simp_all add: rate_ok_def)
  have r: "fits (largest s) r" using fit q by (simp add: sizes_fit_def ledger_of_def)
  have "rate_of m (cl_rate_log s) t < cl_rateLimit s" using m(3) may(2) by linarith
  note after = inc_within_limit [OF w(1) m(2) m'(1) _ _ this]
  have n: "0 \<le> call_size r" "call_size r \<le> largest s" using r by (auto simp: fits_def)
  have "sending (send r s1)" using sending_send [OF send may(1) pop] sending_inc [OF inc] by simp
  moreover have "sizes_fit (ledger_of (send r s1))"
    using fit r q by (auto simp: sizes_fit_def ledger_of_def m'(2) send_def)
  moreover have "rate_ok (send r s1)" using after(1,3) n w(2) by (simp add: rate_ok_def send_def m'(2))
  moreover have "c - of_int (call_size r) \<le> cl_rateLimit s - rate_of m' ((t, call_size r) # cl_rate_log s) t"
    using after(4) n m(3) by linarith
  ultimately show ?thesis using after(2,3) n by (simp add: has_room_def send_def m'(2))
qed

lemma connection_ready_rate:
  assumes run: "running s" and fit: "sizes_fit (ledger_of s)" and ok: "rate_ok s" and ready: "connection_ready now s = Inr s'"
  shows "rate_ok s'"
proof (cases "cl_closed s \<or> cl_rate s = None")
  case True
  have "(\<lambda>t. cl_rate t = None) s'" if "cl_rate s = None" "\<not> cl_closed s"
  proof -
    have "s' = send_all (s\<lparr>cl_schedulingScheduled := False\<rparr>)" using that ready by (simp add: connection_ready_def)
    moreover have "sending (s\<lparr>cl_schedulingScheduled := False\<rparr>)" using run that by (simp add: running_def sending_def queue_ok_def)
    moreover have "(\<lambda>t. sending t \<and> cl_rate t = None) (send_all t) \<and> \<not> may_send (send_all t)" if "sending t" "cl_rate t = None" for t
    proof (rule send_all_keeps [of "\<lambda>t. sending t \<and> cl_rate t = None"])
      show "\<exists>r q. heap_pop byPriority (cl_queue t) = (Some r, q)" if "sending t \<and> cl_rate t = None" "may_send t" for t
        using that sending_pop [of t] by blast
    qed (use that sending_send in \<open>auto simp: send_def\<close>)
    ultimately show ?thesis using that(1) by simp
  qed
  moreover have "s' = s" if "cl_closed s"
    using that ready by (auto simp: connection_ready_def performRateLimitedScheduling_def split: option.splits)
  ultimately show ?thesis using True ok by (cases "cl_closed s") (auto simp: rate_ok_def)
next
  case False
  then obtain m where m: "cl_rate s = Some m" by auto
  let ?s = "s\<lparr>cl_schedulingScheduled := False\<rparr>"
  obtain rate where rate: "getRate now m = Inr rate" "send_limited now (cl_rateLimit s - rate) ?s = Inr s'"
    using m ready False by (auto simp: connection_ready_def performRateLimitedScheduling_def result_simps)
  have w: "within_limit m (cl_rate_log s) (cl_rateLimit s) (largest s)" using ok m by (simp add: rate_ok_def)
  obtain t where t: "toTime now m = Inr t" "rate = rate_of m (cl_rate_log s) t" using getRate_rate_of [OF w rate(1)] .
  have "sending ?s" using run False by (simp add: running_def sending_def queue_ok_def)
  moreover have "sizes_fit (ledger_of ?s)" using fit by (simp add: ledger_of_def sizes_fit_def)
  moreover have "rate_ok ?s" using rate_ok_frame [of ?s s] ok by (simp add: frame_def settings_def traffic_def)
  ultimately have start: "has_room now t (cl_rateLimit s - rate) ?s" using m t by (simp add: has_room_def)
  have some: "\<exists>r q. heap_pop byPriority (cl_queue t') = (Some r, q)" if "has_room now t c t'" "may_send t'" for c t'
    using that sending_pop [of t'] unfolding has_room_def by blast
  have "\<exists>c1 s1. has_room now t c1 s1 \<and> (s' = s1 \<and> \<not> may_send s1 \<or>
      s' = s1\<lparr>cl_schedulingScheduled := True, cl_tasks := cl_tasks s1 @ [Perform]\<rparr>)"
    by (rule send_limited_keeps [of "has_room now t"]) (erule (4) has_room_send, erule (1) some, rule start, rule rate(2))
  then show ?thesis by (auto simp: has_room_def rate_ok_def)
qed

theorem step_rate_ok:
  assumes "rpc_step con_call con_batchCall s s'" "sched_ok s" "sizes_fit (ledger_of s)" "rate_ok s"
  shows "rate_ok s'"
  using step_frame [OF assms(1)]
proof (elim disjE exE conjE)
  show "frame s' = frame s \<Longrightarrow> rate_ok s'" using rate_ok_frame [of s' s] assms(4) by simp
next
  fix ts ts' now
  assume t: "cl_tasks s = ts @ Ready # ts'" and ready: "connection_ready now (s\<lparr>cl_tasks := ts @ ts'\<rparr>) = Inr s'"
  have "sizes_fit (ledger_of (s\<lparr>cl_tasks := ts @ ts'\<rparr>))" "rate_ok (s\<lparr>cl_tasks := ts @ ts'\<rparr>)"
    using assms(3,4) rate_ok_frame [of "s\<lparr>cl_tasks := ts @ ts'\<rparr>" s] by simp_all
  then show "rate_ok s'" using connection_ready_rate [OF task_taken [OF assms(2) t] _ _ ready] by blast
qed

end
