(* ===== verification/Rpc_Props.thy ===== *)
theory Rpc_Props
  imports Rpc_Limit
begin

text \<open>
  The properties of the RPC client, over all states that its steps reach from a new client (\<open>rpc_reach\<close>), and of the HTTP
  connection.
\<close>

section \<open>Reachable states\<close>

lemma new_client_ok:
  assumes "RpcClient_new options = Inr s"
  shows "sched_ok s" "unaccounted s = 0" "ledger_of s = empty_ledger (largest s)"
    "0 \<le> or_else (op_capacity options) 10 \<Longrightarrow> 0 \<le> cl_capacity s"
    "cl_maxCapacity s = (case op_capacity options of None \<Rightarrow> 10 | Some c \<Rightarrow> if c = 0 then 10 else c)"
proof -
  have f: "cl_queue s = []" "cl_tasks s = []" "cl_ongoing s = []" "cl_finals s = 0" "cl_settled_log s = []" "cl_issued_log s = []"
    "cl_sent_log s = []" "cl_counter s = 0" "\<not> cl_schedulingScheduled s" "cl_capacity s = cl_maxCapacity s"
    "cl_maxCapacity s = (case op_capacity options of None \<Rightarrow> 10 | Some c \<Rightarrow> if c = 0 then 10 else c)"
    using assms by (auto simp: RpcClient_new_def Let_def result_simps split: option.splits if_splits)
  then show "sched_ok s" "unaccounted s = 0" "ledger_of s = empty_ledger (largest s)"
      "cl_maxCapacity s = (case op_capacity options of None \<Rightarrow> 10 | Some c \<Rightarrow> if c = 0 then 10 else c)"
    by (simp_all add: sched_ok_def almost_ok_def queue_ok_def may_send_def unaccounted_def ledger_of_def empty_ledger_def)
  show "0 \<le> or_else (op_capacity options) 10 \<Longrightarrow> 0 \<le> cl_capacity s"
    using f(10,11) by (auto simp: or_else_def split: option.splits)
qed

lemma new_client_rate:
  assumes "RpcClient_new options = Inr s"
  shows "rate_ok s"
proof (cases "cl_rate s")
  case None
  then show ?thesis by (simp add: rate_ok_def)
next
  case (Some m)
  then obtain limit where limit: "0 < limit" "cl_rateLimit s = limit"
      "m = RateMeter_new 10 (if limit < 1 then \<lceil>1000 / (limit * 10)\<rceil> else 100)" "cl_rate_log s = []" "cl_sent_log s = []"
      "cl_maxBatchCallSize s \<le> max 1 \<lfloor>limit / 5\<rfloor>"
    using assms by (auto simp: RpcClient_new_def Let_def result_simps split: option.splits if_splits)
  have "of_int \<lceil>1000 / (limit * 10)\<rceil> < 100 / limit + 1" "100 / limit \<le> of_int \<lceil>1000 / (limit * 10)\<rceil>"
    using ceiling_correct [of "100 / limit"] by simp_all
  then have slot: "slot_fits (rm_slotTime m) limit" by (simp add: limit(3) RateMeter_new_def slot_fits_def)
  have batch: "largest s \<le> max 1 \<lfloor>limit / 5\<rfloor>" using limit(6) by simp
  have "0 < calls_allowed m limit"
    using limit(1) slot_fits_ge [OF slot] by (simp add: calls_allowed_def)
  then have "(0 :: rat) < calls_allowed m limit + of_int (largest s)" by (simp add: add_pos_pos)
  then show ?thesis
    using slot batch new_measures [of 10 "rm_slotTime m"] limit
    by (simp add: rate_ok_def within_limit_def Some RateMeter_new_def counted_def)
qed

text \<open>The limit of the options, and what the client takes for one without.\<close>

definition limit_of :: "client_options \<Rightarrow> rat" where
  "limit_of options =
     (case op_rateLimit options of None \<Rightarrow> of_int MAX_SAFE_INTEGER | Some l \<Rightarrow> if l = 0 then of_int MAX_SAFE_INTEGER else l)"

lemma new_client_limit: "RpcClient_new options = Inr s \<Longrightarrow> cl_rateLimit s = limit_of options"
  by (auto simp: RpcClient_new_def Let_def result_simps limit_of_def split: option.splits if_splits)

text \<open>What the invariants of the steps say together.\<close>

lemma reach_ok:
  assumes "rpc_reach con_call con_batchCall options s"
  shows "sched_ok s" "unaccounted s = 0" "rate_ok s" "\<exists>n. move\<^sup>*\<^sup>* (empty_ledger n) (ledger_of s)"
    "0 \<le> or_else (op_capacity options) 10 \<Longrightarrow> 0 \<le> cl_capacity s"
proof -
  have "sched_ok s \<and> unaccounted s = 0 \<and> rate_ok s \<and> (\<exists>n. move\<^sup>*\<^sup>* (empty_ledger n) (ledger_of s)) \<and>
    (0 \<le> or_else (op_capacity options) 10 \<longrightarrow> 0 \<le> cl_capacity s)"
    using assms
  proof (induction rule: rpc_reach.induct)
    case (start s)
    then show ?case using new_client_ok [OF start] new_client_rate [OF start] by auto
  next
    case (step s s')
    have ok: "sched_ok s" "unaccounted s = 0" "rate_ok s" using step.IH by simp_all
    obtain n where n: "move\<^sup>*\<^sup>* (empty_ledger n) (ledger_of s)" using step.IH by blast
    have "sizes_fit (ledger_of s)" using moves_sizes_fit [OF n] empty_ledger_ok by blast
    then have "rate_ok s'" using step_rate_ok [OF step.hyps(2)] ok by blast
    moreover have "move\<^sup>*\<^sup>* (empty_ledger n) (ledger_of s')" using n step_moves [OF step.hyps(2) ok(1)] by simp
    ultimately show ?case
      using step_sched_ok [OF step.hyps(2) ok(1)] step_unaccounted [OF step.hyps(2) ok(1,2)]
        step_capacity [OF step.hyps(2) ok(1)] step.IH by blast
  qed
  then show "sched_ok s" "unaccounted s = 0" "rate_ok s" "\<exists>n. move\<^sup>*\<^sup>* (empty_ledger n) (ledger_of s)"
    "0 \<le> or_else (op_capacity options) 10 \<Longrightarrow> 0 \<le> cl_capacity s" by blast+
qed

lemma reach_limit:
  assumes "rpc_reach con_call con_batchCall options s"
  shows "cl_rateLimit s = limit_of options"
  using assms
proof (induction rule: rpc_reach.induct)
  case (start s)
  then show ?case by (rule new_client_limit)
next
  case (step s s')
  from step_settings [OF step.hyps(2) reach_ok(1) [OF step.hyps(1)]] step.IH show ?case by (simp add: settings_def)
qed

section \<open>A run\<close>

text \<open>A client with a limit of five calls per second sends its first request.\<close>

definition example_options :: client_options where
  "example_options =
     \<lparr>op_capacity = Some 2, op_rateLimit = Some 5, op_requestTimeout = None, op_retryAttempts = Some 1,
      op_retrySchedule = None, op_maxBatchCallSize = None\<rparr>"

definition no_options :: call_options where
  "no_options = \<lparr>co_priority = None, co_timeout = None, co_retryAttempts = None, co_validateResult = None, co_validateError = None\<rparr>"

definition example_call :: rpc_call_args where
  "example_call = \<lparr>ca_method = js ''status'', ca_params = None\<rparr>"

definition example_called :: client where
  "example_called = client_call example_call no_options (projr (RpcClient_new example_options))"

definition example_sent :: client where
  "example_sent = projr (connection_ready 100000 (example_called\<lparr>cl_tasks := []\<rparr>))"

lemma example_called: "rpc_reach http_call http_batchCall example_options example_called"
proof -
  have "RpcClient_new example_options = Inr (projr (RpcClient_new example_options))"
    by (simp add: RpcClient_new_def example_options_def Let_def)
  then have "rpc_reach http_call http_batchCall example_options (projr (RpcClient_new example_options))" by (rule rpc_reach.start)
  then show ?thesis unfolding example_called_def by (rule rpc_reach.step) (rule rpc_step.call)
qed

lemma example_sent: "rpc_reach http_call http_batchCall example_options example_sent"
proof -
  have perform: "cl_tasks example_called = [] @ Perform # []" by code_simp
  let ?s = "example_called\<lparr>cl_tasks := []\<rparr>"
  have "cl_backoffTime ?s = None \<and> \<not> cl_closed ?s" by code_simp
  then have "waitForConnection 0 ?s = ?s\<lparr>cl_tasks := [Connecting]\<rparr>"
    by (simp add: waitForConnection_def after_pause_def add_task_def)
  then have "rpc_reach http_call http_batchCall example_options (?s\<lparr>cl_tasks := [Connecting]\<rparr>)"
    using rpc_reach.step [OF example_called rpc_step.perform [OF perform, of _ _ 0]] by simp
  from rpc_reach.step [OF this rpc_step.connected, of "[]" "[]"]
  have ready: "rpc_reach http_call http_batchCall example_options (?s\<lparr>cl_tasks := [Ready]\<rparr>)" by (simp add: add_task_def)
  have "\<not> isl (connection_ready 100000 ?s)" by code_simp
  then have "connection_ready 100000 ?s = Inr example_sent" by (simp add: example_sent_def)
  then show ?thesis using rpc_reach.step [OF ready rpc_step.ready, of "[]" "[]" 100000] by simp
qed

lemma example_sent_facts:
  "map call_size (cl_sent_log example_sent) = [1]" "length (cl_ongoing example_sent) = 1"
  "map getCallPriority (cl_issued_log example_sent) = [1]" "cl_maxCapacity example_sent = 2"
  by code_simp+

section \<open>Properties\<close>

text \<open>C18: The RPC client implements the ledger of requests: every state that it reaches from its start, and every further
  step, is a sequence of moves, in which requests start in the order of their urgency and wait again only while they have
  attempts left.\<close>

theorem rpc_client_follows_ledger:
  assumes "rpc_reach con_call con_batchCall options s" "rpc_step con_call con_batchCall s s'"
  shows "(\<exists>n. move\<^sup>*\<^sup>* (empty_ledger n) (ledger_of s)) \<and> move\<^sup>*\<^sup>* (ledger_of s) (ledger_of s')"
  using reach_ok(1,4) [OF assms(1)] step_moves [OF assms(2)] by blast

lemma rpc_client_follows_ledger_witness:
  "(\<exists>n. move\<^sup>*\<^sup>* (empty_ledger n) (ledger_of example_sent)) \<and>
   move\<^sup>*\<^sup>* (ledger_of example_sent) (ledger_of (client_call example_call no_options example_sent))"
  by (rule rpc_client_follows_ledger [OF example_sent rpc_step.call])

text \<open>C19: No request is lost, answered twice or sent too often: at every moment each request that was issued is exactly
  once in the queue, under way or settled, it was sent at most once more than its retries, and all that was sent was
  issued.\<close>

theorem rpc_requests_kept:
  assumes "rpc_reach con_call con_batchCall options s"
  shows "mset (map getCallPriority (cl_queue s)) + mset (map (getCallPriority \<circ> fst) (cl_ongoing s)) +
      mset (map fst (cl_settled_log s)) = mset (map getCallPriority (cl_issued_log s)) \<and>
    distinct (map getCallPriority (cl_issued_log s)) \<and>
    (\<forall>r\<in>set (cl_issued_log s).
      int (length (filter (\<lambda>x. getCallPriority x = getCallPriority r) (cl_sent_log s))) \<le> 1 + max 0 (re_retryAttempts r)) \<and>
    no_attempts ` set (cl_sent_log s) \<subseteq> no_attempts ` set (cl_issued_log s)"
proof -
  obtain n where n: "move\<^sup>*\<^sup>* (empty_ledger n) (ledger_of s)" using reach_ok(4) [OF assms] by blast
  have ok: "ledger_ok (ledger_of s)" "from_issued (ledger_of s)"
    using moves_ok [OF n] moves_from_issued [OF n] empty_ledger_ok by blast+
  have "mset (map getCallPriority (cl_queue s)) + mset (map (getCallPriority \<circ> fst) (cl_ongoing s)) +
      mset (map fst (cl_settled_log s)) = mset (map getCallPriority (cl_issued_log s))"
    "distinct (map getCallPriority (cl_issued_log s))"
    using ok(1) by (simp_all add: ledger_ok_def whereabouts_def ledger_of_def image_mset.compositionality)
  moreover have "no_attempts ` set (cl_sent_log s) \<subseteq> no_attempts ` set (cl_issued_log s)"
    using ok(2) by (simp add: from_issued_def ledger_of_def image_Un)
  ultimately show ?thesis using attempts_bounded [OF ok(1)] by (simp add: spent_def ledger_of_def)
qed

lemma rpc_requests_kept_witness:
  "distinct (map getCallPriority (cl_issued_log example_sent)) \<and>
   no_attempts ` set (cl_sent_log example_sent) \<subseteq> no_attempts ` set (cl_issued_log example_sent)"
  using rpc_requests_kept [OF example_sent] by blast

text \<open>C20: The client never forgets its queue: a client that is open and has capacity for a waiting request runs exactly one
  scheduling, otherwise answers are due that will schedule; no more requests than its capacity are under way, and
  nothing waits in a closed client.\<close>

theorem rpc_client_never_stalls:
  assumes "rpc_reach con_call con_batchCall options s" "0 \<le> or_else (op_capacity options) 10"
  shows "int (length (cl_ongoing s)) + int (cl_finals s) \<le> cl_maxCapacity s \<and> length (cl_tasks s) \<le> 1 \<and>
    (cl_queue s \<noteq> [] \<longrightarrow> \<not> cl_closed s \<and>
      (length (cl_tasks s) = 1 \<or> int (length (cl_ongoing s)) + int (cl_finals s) = cl_maxCapacity s))"
proof -
  have ok: "sched_ok s" "unaccounted s = 0" "0 \<le> cl_capacity s" using reach_ok [OF assms(1)] assms(2) by simp_all
  have "length (cl_tasks s) = 1" if "cl_queue s \<noteq> []" "0 < cl_capacity s"
    using ok(1) that by (cases "cl_tasks s") (auto simp: sched_ok_def almost_ok_def queue_ok_def may_send_def)
  then show ?thesis
    using ok by (fastforce simp: sched_ok_def almost_ok_def queue_ok_def unaccounted_def)
qed

lemma rpc_client_never_stalls_witness: "int (length (cl_ongoing example_sent)) \<le> 2"
  using rpc_client_never_stalls [OF example_sent] example_sent_facts(2,4)
  by (simp add: example_options_def or_else_def)

text \<open>C21: With a limit on the rate, the calls that the client starts in any eleven consecutive slots of its meter are fewer
  than the limit allows in the time of ten slots and a batch more. The slots last 100 ms; with a limit below one call per
  second they last \<open>100 / limit\<close> ms, rounded up. The limit is that of the options, and a batch has at most a fifth of
  it, or one call. Every call that is sent is counted, and the meter counts what the log of the calls says.\<close>

theorem rpc_calls_within_limit:
  assumes "rpc_reach con_call con_batchCall options s" "cl_rate s = Some m"
  shows "of_int (counted (cl_rate_log s) (t - 11) t) <
      limit_of options * of_int (10 * rm_slotTime m) / 1000 + of_int (max 1 (cl_maxBatchCallSize s)) \<and>
    (if limit_of options < 1
     then 100 / limit_of options \<le> of_int (rm_slotTime m) \<and> of_int (rm_slotTime m) < 100 / limit_of options + 1
     else rm_slotTime m = 100) \<and>
    max 1 (cl_maxBatchCallSize s) \<le> max 1 \<lfloor>limit_of options / 5\<rfloor> \<and>
    map snd (cl_rate_log s) = rev (map call_size (cl_sent_log s)) \<and> measures m (cl_rate_log s)"
  using reach_ok(3) [OF assms(1)] assms(2) reach_limit [OF assms(1)]
  by (simp add: rate_ok_def within_limit_def calls_allowed_def slot_fits_def)

lemma rpc_calls_within_limit_witness:
  "counted (cl_rate_log example_sent) 989 1000 < 6 \<and> map snd (cl_rate_log example_sent) = [1]"
proof -
  have m: "cl_rate example_sent = Some (the (cl_rate example_sent))"
    "rm_slotTime (the (cl_rate example_sent)) = 100" "cl_maxBatchCallSize example_sent = 1"
    by code_simp+
  have l: "limit_of example_options = 5" by (simp add: limit_of_def example_options_def)
  from rpc_calls_within_limit [OF example_sent m(1), of 1000] m(2,3) l example_sent_facts(1) show ?thesis by simp
qed

text \<open>C22: The HTTP connection returns the responses of a batch in the order of its requests, whatever a server answers, and a
  server that answers every request, in any order, is understood.\<close>

theorem http_batch_in_request_order:
  assumes "distinct (map rq_id batch)" "mset (map rs_id rs) = mset (map (\<lambda>b. JNum (int (rq_id b))) batch)"
  shows "(\<exists>out. http_batchCall batch (Inr (AnswerArray (map Some rs))) = Inr out \<and> mset out = mset rs) \<and>
    (http_batchCall batch answer = Inr out \<longrightarrow> map rs_id out = map (\<lambda>b. JNum (int (rq_id b))) batch)"
  using http_batch_permuted [OF assms] http.batch_paired by blast

lemma http_batch_in_request_order_witness:
  "let b1 = \<lparr>rq_id = 1, rq_method = js ''a'', rq_params = None\<rparr>;
       b2 = \<lparr>rq_id = 2, rq_method = js ''b'', rq_params = None\<rparr>;
       r1 = \<lparr>rs_id = JNum 1, rs_result = JNull, rs_error = None\<rparr>;
       r2 = \<lparr>rs_id = JNum 2, rs_result = JNull, rs_error = None\<rparr>
   in \<exists>out. http_batchCall [b1, b2] (Inr (AnswerArray (map Some [r2, r1]))) = Inr out \<and> mset out = mset [r2, r1]"
  unfolding Let_def by (rule http_batch_in_request_order [THEN conjunct1]) simp_all

end
