(* ===== verification/Scale_Json.thy ===== *)
theory Scale_Json
  imports Scale_Codec Js_Text
begin

text \<open>
  The JSON codec of SCALE values, \<open>substrate/scale-codec/src/codec-json.ts\<close>: \<open>toJSON\<close> of \<open>util/util-internal-json\<close> prints
  the values that the binary codec reads, the class \<open>JsonCodec\<close> reads them back along the registry of types. In between
  lies the text: \<open>json_text\<close> is what \<open>JSON.parse(JSON.stringify(v))\<close> leaves of a value. The recursion through the registry
  has the depth of the call stack as fuel, as in Scale_Codec.
\<close>

section \<open>To JSON\<close>

definition build_object :: "(jstr \<times> jsval) list \<Rightarrow> (jstr \<times> jsval) list" where
  "build_object kvs = fold (\<lambda>(k, v) obj. obj_set k v obj) kvs []"

fun toJSON :: "jsval \<Rightarrow> jsval" where
  "toJSON (JBig n) = JStr (toString_radix 10 n)"
| "toJSON (JBytes b) = JStr (toHex b 0 (length b))"
| "toJSON (JArr vs) = JArr (map toJSON vs)"
| "toJSON (JObj kvs) = JObj (build_object (map (\<lambda>(k, v). (k, toJSON v)) kvs))"
| "toJSON v = v"

text \<open>Through the text: a property that is \<open>undefined\<close> is left out, an \<open>undefined\<close> item of an array becomes null.\<close>

fun json_text :: "jsval \<Rightarrow> jsval" where
  "json_text (JArr vs) = JArr (map (\<lambda>v. if v = JUndef then JNull else json_text v) vs)"
| "json_text (JObj kvs) = JObj (map (\<lambda>(k, v). (k, json_text v)) (filter (\<lambda>(k, v). v \<noteq> JUndef) kvs))"
| "json_text v = v"

section \<open>From JSON\<close>

definition isObject :: "jsval \<Rightarrow> bool" where
  "isObject v = (case v of JObj _ \<Rightarrow> True | JArr _ \<Rightarrow> True | JBytes _ \<Rightarrow> True | _ \<Rightarrow> False)"

definition json_BigInt :: "jsval \<Rightarrow> jsval result" where
  \<comment> \<open>the assertion and \<open>BigInt(val)\<close>\<close>
  "json_BigInt v =
     (case v of
        JStr s \<Rightarrow> (case js_BigInt s of Some n \<Rightarrow> Inr (JBig n) | None \<Rightarrow> Inl SyntaxError)
      | JNum n \<Rightarrow> Inr (JBig n)
      | _ \<Rightarrow> Inl AssertionError)"

definition toSignedBigInt :: "jsval \<Rightarrow> nat \<Rightarrow> jsval result" where
  "toSignedBigInt val bitSize =
     rbind (json_BigInt val) (\<lambda>val. rbind (checkSignedBigInt val bitSize) (\<lambda>_. Inr val))"

definition toUnsignedBigInt :: "jsval \<Rightarrow> nat \<Rightarrow> jsval result" where
  "toUnsignedBigInt val bitSize =
     rbind (json_BigInt val) (\<lambda>val. rbind (checkUnsignedBigInt val bitSize) (\<lambda>_. Inr val))"

definition json_primitive :: "primitive \<Rightarrow> jsval \<Rightarrow> jsval result" where
  "json_primitive type value =
     (case type of
        I8 \<Rightarrow> rbind (checkSignedInt value 8) (\<lambda>_. Inr value)
      | I16 \<Rightarrow> rbind (checkSignedInt value 16) (\<lambda>_. Inr value)
      | I32 \<Rightarrow> rbind (checkSignedInt value 32) (\<lambda>_. Inr value)
      | I64 \<Rightarrow> toSignedBigInt value 64
      | I128 \<Rightarrow> toSignedBigInt value 128
      | I256 \<Rightarrow> toSignedBigInt value 256
      | U8 \<Rightarrow> rbind (checkUnsignedInt value 8) (\<lambda>_. Inr value)
      | U16 \<Rightarrow> rbind (checkUnsignedInt value 16) (\<lambda>_. Inr value)
      | U32 \<Rightarrow> rbind (checkUnsignedInt value 32) (\<lambda>_. Inr value)
      | U64 \<Rightarrow> toUnsignedBigInt value 64
      | U128 \<Rightarrow> toUnsignedBigInt value 128
      | U256 \<Rightarrow> toUnsignedBigInt value 256
      | Bool \<Rightarrow> (case value of JBool _ \<Rightarrow> Inr value | _ \<Rightarrow> Inl AssertionError)
      | Str \<Rightarrow> (case value of JStr _ \<Rightarrow> Inr value | _ \<Rightarrow> Inl AssertionError)
      | Char \<Rightarrow> unexpectedCase)"

definition json_booleanOption :: "jsval \<Rightarrow> jsval result" where
  "json_booleanOption value =
     (if is_nullish value then Inr JUndef
      else case value of JBool _ \<Rightarrow> Inr value | _ \<Rightarrow> Inl AssertionError)"

definition json_hex :: "jsval \<Rightarrow> jsval result" where
  "json_hex value = rbind (decodeHex value) (\<lambda>b. Inr (JBytes b))"

definition decodeBinaryArray :: "nat \<Rightarrow> jsval \<Rightarrow> jsval result" where
  "decodeBinaryArray len value =
     rbind (decodeHex value) (\<lambda>buf. rbind (js_assert (length buf = len)) (\<lambda>_. Inr (JBytes buf)))"

definition items_of :: "jsval \<Rightarrow> jsval list result" where
  \<comment> \<open>\<open>assert(Array.isArray(val))\<close>\<close>
  "items_of val = (case val of JArr vs \<Rightarrow> Inr vs | _ \<Rightarrow> Inl AssertionError)"

definition json_array :: "(ti \<Rightarrow> jsval \<Rightarrow> jsval result) \<Rightarrow> nat \<Rightarrow> ti \<Rightarrow> jsval \<Rightarrow> jsval result" where
  "json_array rec len type val =
     rbind (items_of val) (\<lambda>vs. rbind (js_assert (length vs = len)) (\<lambda>_.
       rbind (rmap (rec type) vs) (\<lambda>result. Inr (JArr result))))"

definition json_sequence :: "(ti \<Rightarrow> jsval \<Rightarrow> jsval result) \<Rightarrow> ti \<Rightarrow> jsval \<Rightarrow> jsval result" where
  "json_sequence rec type val =
     rbind (items_of val) (\<lambda>vs. rbind (rmap (rec type) vs) (\<lambda>result. Inr (JArr result)))"

definition json_tuple :: "(ti \<Rightarrow> jsval \<Rightarrow> jsval result) \<Rightarrow> ti list \<Rightarrow> jsval \<Rightarrow> jsval result" where
  "json_tuple rec items value =
     (if items = [] then rbind (js_assert (is_nullish value \<or> value = JArr [])) (\<lambda>_. Inr JNull)
      else rbind (items_of value) (\<lambda>vs. rbind (js_assert (length vs = length items)) (\<lambda>_.
        rbind (rmap (\<lambda>(t, v). rec t v) (zip items vs)) (\<lambda>result. Inr (JArr result)))))"

fun json_fields ::
    "(ti \<Rightarrow> jsval \<Rightarrow> jsval result) \<Rightarrow> jsval \<Rightarrow> (jstr \<times> ti) list \<Rightarrow> (jstr \<times> jsval) list \<Rightarrow> (jstr \<times> jsval) list result" where
  "json_fields rec value [] result = Inr result"
| "json_fields rec value ((name, t) # fs) result =
     rbind (js_get value name) (\<lambda>p. rbind (rec t p) (\<lambda>v. json_fields rec value fs (obj_set name v result)))"

definition json_struct :: "(ti \<Rightarrow> jsval \<Rightarrow> jsval result) \<Rightarrow> (jstr \<times> ti) list \<Rightarrow> jsval \<Rightarrow> (jstr \<times> jsval) list result" where
  "json_struct rec fs value = rbind (js_assert (isObject value)) (\<lambda>_. json_fields rec value fs [])"

definition json_variant ::
    "(ti \<Rightarrow> jsval \<Rightarrow> jsval result) \<Rightarrow> (jstr \<Rightarrow> codec_variant option) \<Rightarrow> jsval \<Rightarrow> jsval result" where
  "json_variant rec variantsByName val =
     rbind (js_assert (isObject val)) (\<lambda>_. rbind (js_get val (js ''__kind'')) (\<lambda>kind.
       case kind of
         JStr k \<Rightarrow>
           (case variantsByName k of
              None \<Rightarrow> Inl (ThrownError ''Unknown variant'')
            | Some (CodecEmptyVariant _ _) \<Rightarrow> Inr (JObj [(js ''__kind'', kind)])
            | Some (CodecValueVariant _ _ type) \<Rightarrow>
                rbind (js_get val (js ''value'')) (\<lambda>p. rbind (rec type p) (\<lambda>v.
                  Inr (JObj [(js ''__kind'', kind), (js ''value'', v)])))
            | Some (CodecTupleVariant _ _ tuple) \<Rightarrow>
                rbind (js_get val (js ''value'')) (\<lambda>p. rbind (json_tuple rec tuple p) (\<lambda>v.
                  Inr (JObj [(js ''__kind'', kind), (js ''value'', v)])))
            | Some (CodecStructVariant _ _ fs) \<Rightarrow>
                rbind (json_struct rec fs val) (\<lambda>s. Inr (JObj (obj_set (js ''__kind'') kind s))))
       | _ \<Rightarrow> Inl AssertionError))"

definition json_option :: "(ti \<Rightarrow> jsval \<Rightarrow> jsval result) \<Rightarrow> ti \<Rightarrow> jsval \<Rightarrow> jsval result" where
  "json_option rec type value = (if is_nullish value then Inr JUndef else rec type value)"

fun json_decode :: "codec_type list \<Rightarrow> nat \<Rightarrow> ti \<Rightarrow> jsval \<Rightarrow> jsval result" where
  "json_decode types 0 type val = Inl RangeError"
| "json_decode types (Suc depth) type val =
     (if type \<ge> length types then Inl TypeError
      else case types ! type of
        CPrimitive p \<Rightarrow> json_primitive p val
      | CCompact p \<Rightarrow> json_primitive p val
      | CBitSequence _ _ \<Rightarrow> json_hex val
      | CArray len t \<Rightarrow> json_array (json_decode types depth) len t val
      | CSequence t \<Rightarrow> json_sequence (json_decode types depth) t val
      | CTuple ts \<Rightarrow> json_tuple (json_decode types depth) ts val
      | CStruct fs \<Rightarrow> rbind (json_struct (json_decode types depth) fs val) (\<lambda>s. Inr (JObj s))
      | CVariant _ byName \<Rightarrow> json_variant (json_decode types depth) byName val
      | COption t \<Rightarrow> json_option (json_decode types depth) t val
      | CBooleanOption \<Rightarrow> json_booleanOption val
      | CBytes \<Rightarrow> json_hex val
      | CBytesArray len \<Rightarrow> decodeBinaryArray len val
      | CHexBytes \<Rightarrow> rbind (js_assert (isHex val)) (\<lambda>_. Inr val)
      | CHexBytesArray _ \<Rightarrow> rbind (js_assert (isHex val)) (\<lambda>_. Inr val)
      | CDoNotConstruct \<Rightarrow> Inl (ThrownError ''DoNotConstruct type reached''))"

section \<open>Numbers\<close>

lemma decimal_digit: "d \<in> set (digits 10 n) \<Longrightarrow> d < 10"
  by (rule digits_bounded) simp_all

lemma take_sign_digits: "take_sign (map hex_digit (digits 10 n)) = (1, map hex_digit (digits 10 n))"
  using digits_nonempty [of 10 n] decimal_digit [of _ n]
  by (cases "digits 10 n") (auto simp: hex_digit_def)

lemma js_BigInt_toString [simp]: "js_BigInt (toString_radix 10 n) = Some n"
proof -
  let ?ds = "map hex_digit (digits 10 (nat \<bar>n\<bar>))"
  have ds: "?ds \<noteq> []" "\<forall>c\<in>set ?ds. 48 \<le> c \<and> c \<le> 57"
    using decimal_digit by (auto simp: hex_digit_def less_Suc_eq_le dest!: decimal_digit)
  have "\<forall>c\<in>set (toString_radix 10 n). \<not> js_space c" using ds(2) by (auto simp: toString_radix_def js_space_def)
  then have trim: "js_trim (toString_radix 10 n) = toString_radix 10 n"
    using ds(1) hd_in_set [of "toString_radix 10 n"] last_in_set [of "toString_radix 10 n"]
    by (intro js_trim_id) (simp_all add: toString_radix_def)
  have "all_digits 10 ?ds = Some (int (nat \<bar>n\<bar>))"
    using all_digits_printed [of "digits 10 (nat \<bar>n\<bar>)" 10] decimal_digit horner_digits [of 10 "nat \<bar>n\<bar>"] by simp
  then have dec: "signed_decimal (toString_radix 10 n) = Some n"
    using take_sign_digits [of "nat \<bar>n\<bar>"] by (auto simp: signed_decimal_def toString_radix_def)
  have "\<not> (a = 48 \<and> b \<in> {120, 88, 111, 79, 98, 66})" if "toString_radix 10 n = a # b # u" for a b u
  proof (cases "n < 0")
    case True
    then show ?thesis using that by (auto simp: toString_radix_def)
  next
    case False
    then have "b \<in> set ?ds" using that by (simp add: toString_radix_def)
    then show ?thesis using ds(2) by fastforce
  qed
  then show ?thesis
    using trim dec ds(1) by (auto simp: js_BigInt_def Let_def toString_radix_def split: list.split)
qed

section \<open>Values through the text\<close>

definition json :: "jsval \<Rightarrow> jsval" where
  "json v = json_text (toJSON v)"

text \<open>What arrives for a value: its JSON, or null for an \<open>undefined\<close>.\<close>

definition arrives :: "jsval \<Rightarrow> jsval \<Rightarrow> bool" where
  "arrives v u \<longleftrightarrow> u = json v \<or> v = JUndef \<and> u = JNull"

lemma build_object_distinct: "distinct (map fst kvs) \<Longrightarrow> build_object kvs = kvs"
proof -
  have "distinct (map fst (obj @ kvs)) \<Longrightarrow> fold (\<lambda>(k, v) obj. obj_set k v obj) kvs obj = obj @ kvs" for obj :: "(jstr \<times> jsval) list"
    by (induction kvs arbitrary: obj) (auto simp: obj_set_new)
  then show "distinct (map fst kvs) \<Longrightarrow> build_object kvs = kvs" by (simp add: build_object_def)
qed

lemma toJSON_undef [simp]: "toJSON v = JUndef \<longleftrightarrow> v = JUndef"
  by (cases v) simp_all

lemma json_simps [simp]:
  "json (JNum n) = JNum n" "json (JBool b) = JBool b" "json (JStr s) = JStr s" "json JNull = JNull" "json JUndef = JUndef"
  "json (JBig n) = JStr (toString_radix 10 n)" "json (JBytes bs) = JStr (js ''0x'' @ hex_of_bytes bs)"
  "json (JArr vs) = JArr (map (\<lambda>v. if v = JUndef then JNull else json v) vs)"
  by (simp_all add: json_def toHex_whole)

lemma json_nullish: "is_nullish (json v) = is_nullish v"
  by (cases v) (auto simp: is_nullish_def json_def)

lemma arrives_nullish: "arrives v u \<Longrightarrow> is_nullish u = is_nullish v"
  using json_nullish [of v] by (auto simp: arrives_def is_nullish_def)

lemma arrives_item: "arrives v (if v = JUndef then JNull else json v)"
  by (simp add: arrives_def)

lemma arrives_json: "arrives v (json v)"
  by (simp add: arrives_def)

lemma arrives_not_undef: "v \<noteq> JUndef \<Longrightarrow> arrives v u \<longleftrightarrow> u = json v"
  by (simp add: arrives_def)

lemma json_object:
  assumes "distinct (map fst kvs)"
  shows "json (JObj kvs) = JObj (map (\<lambda>(k, v). (k, json v)) (filter (\<lambda>(k, v). v \<noteq> JUndef) kvs))"
proof -
  have d: "distinct (map fst (map (\<lambda>(k, v). (k, toJSON v)) kvs))" using assms by (simp add: case_prod_unfold o_def)
  have "map (\<lambda>(k, v). (k, json_text v)) (filter (\<lambda>(k, v). v \<noteq> JUndef) (map (\<lambda>(k, v). (k, toJSON v)) kvs)) =
      map (\<lambda>(k, v). (k, json v)) (filter (\<lambda>(k, v). v \<noteq> JUndef) kvs)"
    by (induction kvs) (auto simp: json_def)
  then show ?thesis by (simp add: json_def build_object_distinct [OF d])
qed

lemma get_json:
  assumes "distinct (map fst kvs)" "(k, v) \<in> set kvs"
  shows "js_get (json (JObj kvs)) k = Inr (json v)"
proof -
  have "map_of (map (\<lambda>(k, v). (k, json v)) (filter (\<lambda>(k, v). v \<noteq> JUndef) kvs)) k =
      (if v = JUndef then None else Some (json v))"
    using assms by (induction kvs) (force simp: map_of_eq_None_iff image_iff)+
  then show ?thesis by (simp add: json_object [OF assms(1)] js_get_def)
qed

lemma isObject_json [simp]: "isObject (json (JObj kvs))"
  by (simp add: json_def isObject_def)

section \<open>Reading back\<close>

text \<open>
  The reader of compact numbers does not check the size of their type, which the JSON codec does: \<open>oversize\<close> says that a value has a
  compact number in it that exceeds its type.
\<close>

definition unsigned_bits :: "primitive \<Rightarrow> nat" where
  "unsigned_bits p = (case p of U8 \<Rightarrow> 8 | U16 \<Rightarrow> 16 | U32 \<Rightarrow> 32 | U64 \<Rightarrow> 64 | U128 \<Rightarrow> 128 | U256 \<Rightarrow> 256 | _ \<Rightarrow> 0)"

inductive oversize :: "codec_type list \<Rightarrow> ti \<Rightarrow> jsval \<Rightarrow> bool" for types where
  over_compact: "types ! ti = CCompact p \<Longrightarrow> v = JNum n \<or> v = JBig n \<Longrightarrow> 2 ^ unsigned_bits p \<le> n \<Longrightarrow> oversize types ti v"
| over_option: "types ! ti = COption t \<Longrightarrow> v \<noteq> JUndef \<Longrightarrow> oversize types t v \<Longrightarrow> oversize types ti v"
| over_array: "types ! ti = CArray k t \<Longrightarrow> v \<in> set vs \<Longrightarrow> oversize types t v \<Longrightarrow> oversize types ti (JArr vs)"
| over_sequence: "types ! ti = CSequence t \<Longrightarrow> v \<in> set vs \<Longrightarrow> oversize types t v \<Longrightarrow> oversize types ti (JArr vs)"
| over_tuple: "types ! ti = CTuple ts \<Longrightarrow> (t, v) \<in> set (zip ts vs) \<Longrightarrow> oversize types t v \<Longrightarrow> oversize types ti (JArr vs)"
| over_struct: "types ! ti = CStruct fs \<Longrightarrow> (name, t) \<in> set fs \<Longrightarrow> (name, v) \<in> set kvs \<Longrightarrow> oversize types t v \<Longrightarrow>
    oversize types ti (JObj kvs)"
| over_value: "types ! ti = CVariant placed byName \<Longrightarrow> byName name = Some (CodecValueVariant nm idx t) \<Longrightarrow> oversize types t v \<Longrightarrow>
    oversize types ti (JObj [(js ''__kind'', JStr name), (js ''value'', v)])"
| over_variant_tuple: "types ! ti = CVariant placed byName \<Longrightarrow> byName name = Some (CodecTupleVariant nm idx ts) \<Longrightarrow>
    (t, v) \<in> set (zip ts vs) \<Longrightarrow> oversize types t v \<Longrightarrow>
    oversize types ti (JObj [(js ''__kind'', JStr name), (js ''value'', JArr vs)])"
| over_variant_struct: "types ! ti = CVariant placed byName \<Longrightarrow> byName name = Some (CodecStructVariant nm idx fs) \<Longrightarrow>
    (key, t) \<in> set fs \<Longrightarrow> (key, v) \<in> set kvs \<Longrightarrow> oversize types t v \<Longrightarrow>
    oversize types ti (JObj (kvs @ [(js ''__kind'', JStr name)]))"

definition reads_back :: "bool \<Rightarrow> 'a result \<Rightarrow> 'a \<Rightarrow> bool" where
  "reads_back c r v \<longleftrightarrow> r = (if c then Inl (ThrownError ''Invalid'') else Inr v)"

lemma reads_Inr [simp]: "reads_back False (Inr x) v \<longleftrightarrow> x = v"
  by (auto simp: reads_back_def)

lemma reads_rbind: "reads_back c r v \<Longrightarrow> reads_back c' (f v) w \<Longrightarrow> reads_back (c \<or> c') (rbind r f) w"
  by (auto simp: reads_back_def)

lemma reads_map: "reads_back c r v \<Longrightarrow> reads_back c (rbind r (\<lambda>x. Inr (g x))) (g v)"
  by (auto simp: reads_back_def)

lemma reads_rmap:
  "list_all2 (\<lambda>u cv. reads_back (fst cv) (f u) (snd cv)) us cvs \<Longrightarrow> reads_back (\<exists>cv\<in>set cvs. fst cv) (rmap f us) (map snd cvs)"
proof (induction rule: list_all2_induct)
  case (Cons u us cv cvs)
  from reads_rbind [OF Cons(1), of "\<exists>cv\<in>set cvs. fst cv" "\<lambda>y. rbind (rmap f us) (\<lambda>ys. Inr (y # ys))" "map snd (cv # cvs)"]
    reads_map [OF Cons(3), of "(#) (snd cv)"]
  show ?case by simp
qed simp

lemma reads_fields:
  assumes "\<forall>(name, t, v, b)\<in>set ps. \<exists>u. js_get value name = Inr u \<and> reads_back (P t v) (rec t u) v"
    and "distinct (map fst obj @ map fst ps)"
  shows "reads_back (\<exists>(name, t, v, b)\<in>set ps. P t v)
    (json_fields rec value (map (\<lambda>(name, t, v, b). (name, t)) ps) obj) (obj @ map (\<lambda>(name, t, v, b). (name, v)) ps)"
  using assms
proof (induction ps arbitrary: obj)
  case (Cons p ps)
  obtain name t v b where p: "p = (name, t, v, b)" by (cases p)
  then obtain u where u: "js_get value name = Inr u" "reads_back (P t v) (rec t u) v" using Cons.prems(1) by auto
  have "reads_back (\<exists>(name, t, v, b)\<in>set ps. P t v)
      (json_fields rec value (map (\<lambda>(name, t, v, b). (name, t)) ps) (obj @ [(name, v)]))
      ((obj @ [(name, v)]) @ map (\<lambda>(name, t, v, b). (name, v)) ps)"
    using Cons.prems p by (intro Cons.IH) auto
  moreover have "obj_set name v obj = obj @ [(name, v)]" using Cons.prems(2) p by (intro obj_set_new) auto
  ultimately have "reads_back (P t v \<or> (\<exists>(name, t, v, b)\<in>set ps. P t v))
      (rbind (rec t u) (\<lambda>x. json_fields rec value (map (\<lambda>(name, t, v, b). (name, t)) ps) (obj_set name x obj)))
      (obj @ map (\<lambda>(name, t, v, b). (name, v)) (p # ps))"
    by (intro reads_rbind [OF u(2)]) (simp add: p)
  then show ?case using u by (simp add: p case_prod_unfold)
qed simp

text \<open>Which types the text keeps: not bit sequences and boolean options, nor optional units.\<close>

definition json_types :: "codec_type list \<Rightarrow> bool" where
  "json_types types \<longleftrightarrow>
     (\<forall>c\<in>set types. case c of
        CBitSequence _ _ \<Rightarrow> False
      | CBooleanOption \<Rightarrow> False
      | CCompact p \<Rightarrow> is_unsigned_name p
      | COption t \<Rightarrow> t < length types \<and> types ! t \<noteq> CTuple []
      | _ \<Rightarrow> True)"

lemma json_typesD:
  assumes "json_types types" "ti < length types"
  shows "types ! ti \<noteq> CBitSequence a b" "types ! ti \<noteq> CBooleanOption" "types ! ti = CCompact p \<Longrightarrow> is_unsigned_name p"
    "types ! ti = COption t \<Longrightarrow> t < length types \<and> types ! t \<noteq> CTuple []"
  using assms(1) [unfolded json_types_def, rule_format, OF nth_mem [OF assms(2)]] by (simp_all split: codec_type.splits)

lemma wire_not_nullish:
  assumes "wire types ti v bs" "json_types types" "v \<noteq> JUndef" "types ! ti \<noteq> CTuple []"
  shows "\<not> is_nullish v"
  using assms
proof (induction rule: wire.induct)
  case (wire_prim ti p v bs)
  then show ?case by (auto simp: wire_primitive_def num_wire_def big_wire_def is_nullish_def split: primitive.splits jsval.splits)
next
  case (wire_compact ti p n v)
  then show ?case by (auto simp: is_nullish_def compact_val_def)
next
  case (wire_bool_none ti)
  then show ?case using json_typesD(2) by blast
next
  case (wire_some ti t v bs)
  then show ?case using json_typesD(4) by blast
qed (auto simp: is_nullish_def)

lemma primitive_reads:
  assumes "wire_primitive p v = Some bs"
  shows "json_primitive p (json v) = Inr v"
proof (cases v)
  case (JNum n)
  then show ?thesis using assms
    by (cases p) (simp_all add: wire_primitive_def num_wire_def big_wire_def uint_wire_def sint_wire_def json_primitive_def
        check_defs split: if_splits)
next
  case (JBig n)
  then show ?thesis using assms
    by (cases p) (simp_all add: wire_primitive_def num_wire_def big_wire_def uint_wire_def sint_wire_def json_primitive_def
        toSignedBigInt_def toUnsignedBigInt_def json_BigInt_def check_defs split: if_splits)
qed (use assms in \<open>cases p; simp add: wire_primitive_def num_wire_def big_wire_def json_primitive_def\<close>)+

lemma reads_checked:
  "reads_back (\<not> b) (rbind (if b then Inr x else Inl (ThrownError ''Invalid'')) (\<lambda>_. Inr v)) v"
  "reads_back True (Inl (ThrownError ''Invalid'')) v"
  by (simp_all add: reads_back_def)

text \<open>The sizes, by the shape of the type.\<close>

lemma over_leaf: "types ! ti \<in> {CPrimitive p, CBytes, CHexBytes, CBytesArray k, CHexBytesArray k} \<Longrightarrow> \<not> oversize types ti v"
  by (auto elim: oversize.cases)

lemma over_compact_iff: "types ! ti = CCompact p \<Longrightarrow> v = JNum n \<or> v = JBig n \<Longrightarrow> oversize types ti v \<longleftrightarrow> 2 ^ unsigned_bits p \<le> n"
  by (auto elim: oversize.cases intro: over_compact)

lemma over_option_iff: "types ! ti = COption t \<Longrightarrow> oversize types ti v \<longleftrightarrow> v \<noteq> JUndef \<and> oversize types t v"
  by (auto elim: oversize.cases intro: over_option)

lemma over_array_iff: "types ! ti = CArray k t \<Longrightarrow> oversize types ti (JArr vs) \<longleftrightarrow> (\<exists>v\<in>set vs. oversize types t v)"
  (is "?type \<Longrightarrow> ?over \<longleftrightarrow> ?item")
proof
  show ?item if ?type ?over using that(2) by cases (use that(1) in auto)
qed (auto intro: over_array)

lemma over_sequence_iff: "types ! ti = CSequence t \<Longrightarrow> oversize types ti (JArr vs) \<longleftrightarrow> (\<exists>v\<in>set vs. oversize types t v)"
  (is "?type \<Longrightarrow> ?over \<longleftrightarrow> ?item")
proof
  show ?item if ?type ?over using that(2) by cases (use that(1) in auto)
qed (auto intro: over_sequence)

lemma over_null: "types ! ti = CTuple [] \<Longrightarrow> \<not> oversize types ti JNull"
  by (auto elim: oversize.cases)

lemma zip_parts: "zip (map fst ps) (map (\<lambda>(t, v, b). v) ps) = map (\<lambda>(t, v, b). (t, v)) ps"
  by (induction ps) auto

lemma over_tuple_iff:
  "types ! ti = CTuple (map fst ps) \<Longrightarrow>
    oversize types ti (JArr (map (\<lambda>(t, v, b). v) ps)) \<longleftrightarrow> (\<exists>(t, v, b)\<in>set ps. oversize types t v)"
proof
  assume t: "types ! ti = CTuple (map fst ps)" and "oversize types ti (JArr (map (\<lambda>(t, v, b). v) ps))"
  then obtain t v where "(t, v) \<in> set (zip (map fst ps) (map (\<lambda>(t, v, b). v) ps))" "oversize types t v"
    by (auto elim: oversize.cases)
  then show "\<exists>(t, v, b)\<in>set ps. oversize types t v" unfolding zip_parts by force
next
  assume t: "types ! ti = CTuple (map fst ps)" and "\<exists>(t, v, b)\<in>set ps. oversize types t v"
  then obtain t v where "(t, v) \<in> set (zip (map fst ps) (map (\<lambda>(t, v, b). v) ps))" "oversize types t v"
    unfolding zip_parts by force
  then show "oversize types ti (JArr (map (\<lambda>(t, v, b). v) ps))" using t by (intro over_tuple)
qed

lemma field_unique:
  assumes "distinct (map fst ps)" "(name, t) \<in> set (map (\<lambda>(name, t, v, b). (name, t)) ps)"
    "(name, v) \<in> set (map (\<lambda>(name, t, v, b). (name, v)) ps)"
  shows "\<exists>b. (name, t, v, b) \<in> set ps"
proof -
  obtain v1 b1 t2 b2 where m: "(name, t, v1, b1) \<in> set ps" "(name, t2, v, b2) \<in> set ps" using assms(2,3) by auto
  then have "(t, v1, b1) = (t2, v, b2)" using eq_key_imp_eq_value [OF assms(1)] by blast
  then show ?thesis using m by blast
qed

lemma over_struct_iff:
  assumes t: "types ! ti = CStruct (map (\<lambda>(name, t, v, b). (name, t)) ps)" and d: "distinct (map fst ps)"
  shows "oversize types ti (JObj (map (\<lambda>(name, t, v, b). (name, v)) ps)) \<longleftrightarrow> (\<exists>(name, t, v, b)\<in>set ps. oversize types t v)"
proof
  assume "oversize types ti (JObj (map (\<lambda>(name, t, v, b). (name, v)) ps))"
  then obtain name t v where "(name, t) \<in> set (map (\<lambda>(name, t, v, b). (name, t)) ps)"
    "(name, v) \<in> set (map (\<lambda>(name, t, v, b). (name, v)) ps)" "oversize types t v"
    using t by (auto elim: oversize.cases)
  then show "\<exists>(name, t, v, b)\<in>set ps. oversize types t v" using field_unique [OF d] by fast
next
  assume "\<exists>(name, t, v, b)\<in>set ps. oversize types t v"
  then obtain name t v b where m: "(name, t, v, b) \<in> set ps" "oversize types t v" by auto
  then show "oversize types ti (JObj (map (\<lambda>(name, t, v, b). (name, v)) ps))"
    using t by (intro over_struct [where name = name and t = t and v = v]) force+
qed

lemma kind_value: "js ''__kind'' \<noteq> js ''value''" "js ''value'' \<noteq> js ''__kind''"
  by (simp_all add: js_def)

lemma over_variant_empty_iff:
  assumes "types ! ti = CVariant placed byName" "byName name = Some (CodecEmptyVariant nm idx)"
  shows "\<not> oversize types ti (JObj [(js ''__kind'', JStr name)])"
proof
  assume "oversize types ti (JObj [(js ''__kind'', JStr name)])"
  then show False by cases (use assms in \<open>auto simp: append_eq_Cons_conv\<close>)
qed

lemma over_value_iff:
  assumes "types ! ti = CVariant placed byName" "byName name = Some (CodecValueVariant nm idx t)"
  shows "oversize types ti (JObj [(js ''__kind'', JStr name), (js ''value'', v)]) \<longleftrightarrow> oversize types t v"
proof
  assume "oversize types ti (JObj [(js ''__kind'', JStr name), (js ''value'', v)])"
  then show "oversize types t v"
    by cases (use assms kind_value in \<open>auto simp: append_eq_Cons_conv\<close>)
qed (rule over_value [OF assms])

lemma over_variant_tuple_iff:
  assumes "types ! ti = CVariant placed byName" "byName name = Some (CodecTupleVariant nm idx (map fst ps))"
  shows "oversize types ti (JObj [(js ''__kind'', JStr name), (js ''value'', JArr (map (\<lambda>(t, v, b). v) ps))]) \<longleftrightarrow>
    (\<exists>(t, v, b)\<in>set ps. oversize types t v)"
proof
  assume "oversize types ti (JObj [(js ''__kind'', JStr name), (js ''value'', JArr (map (\<lambda>(t, v, b). v) ps))])"
  then have "\<exists>t v. (t, v) \<in> set (zip (map fst ps) (map (\<lambda>(t, v, b). v) ps)) \<and> oversize types t v"
    by cases (use assms kind_value in \<open>auto simp: append_eq_Cons_conv\<close>)
  then show "\<exists>(t, v, b)\<in>set ps. oversize types t v" unfolding zip_parts by force
next
  assume "\<exists>(t, v, b)\<in>set ps. oversize types t v"
  then obtain t v where "(t, v) \<in> set (zip (map fst ps) (map (\<lambda>(t, v, b). v) ps))" "oversize types t v"
    unfolding zip_parts by force
  then show "oversize types ti (JObj [(js ''__kind'', JStr name), (js ''value'', JArr (map (\<lambda>(t, v, b). v) ps))])"
    by (rule over_variant_tuple [OF assms])
qed

lemma over_variant_struct_iff:
  assumes "types ! ti = CVariant placed byName"
    "byName name = Some (CodecStructVariant nm idx (map (\<lambda>(name, t, v, b). (name, t)) ps))"
    and d: "distinct (map fst ps)" and new: "js ''__kind'' \<notin> fst ` set ps"
  shows "oversize types ti (JObj (map (\<lambda>(name, t, v, b). (name, v)) ps @ [(js ''__kind'', JStr name)])) \<longleftrightarrow>
    (\<exists>(name, t, v, b)\<in>set ps. oversize types t v)"
proof
  assume "oversize types ti (JObj (map (\<lambda>(name, t, v, b). (name, v)) ps @ [(js ''__kind'', JStr name)]))"
  then have "\<exists>key t v. (key, t) \<in> set (map (\<lambda>(name, t, v, b). (name, t)) ps) \<and>
      (key, v) \<in> set (map (\<lambda>(name, t, v, b). (name, v)) ps) \<and> oversize types t v"
  proof cases
    case (over_variant_struct placed' byName' name' nm' idx' fs key t v kvs)
    then have "fs = map (\<lambda>(name, t, v, b). (name, t)) ps" "kvs = map (\<lambda>(name, t, v, b). (name, v)) ps" using assms(1,2) by simp_all
    with over_variant_struct show ?thesis by blast
  qed (use assms kind_value in \<open>auto simp: append_eq_Cons_conv\<close>)
  then show "\<exists>(name, t, v, b)\<in>set ps. oversize types t v" using field_unique [OF d] by fast
next
  assume "\<exists>(name, t, v, b)\<in>set ps. oversize types t v"
  then obtain key t v b where m: "(key, t, v, b) \<in> set ps" "oversize types t v" by auto
  then show "oversize types ti (JObj (map (\<lambda>(name, t, v, b). (name, v)) ps @ [(js ''__kind'', JStr name)]))"
    by (intro over_variant_struct [OF assms(1,2), where key = key and t = t and v = v]) force+
qed

lemma compact_reads:
  assumes "is_unsigned_name p" "0 \<le> n" and v: "v = (if p \<in> {U8, U16, U32} then compact_val n else JBig n)"
  shows "reads_back (2 ^ unsigned_bits p \<le> n) (json_primitive p (json v)) v"
proof -
  have big: "json_BigInt (JStr (toString_radix 10 n)) = Inr (JBig n)" by (simp add: json_BigInt_def)
  consider "v = JNum n" "p \<in> {U8, U16, U32}" | "v = JBig n" "p \<in> {U8, U16, U32}" "2 ^ 48 \<le> n" | "v = JBig n" "p \<in> {U64, U128, U256}"
    using assms by (auto simp: is_unsigned_name_def compact_val_def split: if_splits)
  then show ?thesis
  proof cases
    case 1
    then show ?thesis using assms(2) by (auto simp: json_primitive_def check_defs unsigned_bits_def reads_back_def)
  next
    case 2
    then show ?thesis using assms(2) by (auto simp: json_primitive_def check_defs unsigned_bits_def reads_back_def)
  next
    case 3
    then show ?thesis using assms(2) by (auto simp: json_primitive_def toUnsignedBigInt_def big check_defs unsigned_bits_def reads_back_def)
  qed
qed

definition returns :: "codec_type list \<Rightarrow> nat \<Rightarrow> ti \<Rightarrow> jsval \<Rightarrow> bool" where
  "returns types d ti v \<longleftrightarrow> (\<forall>u. arrives v u \<longrightarrow> reads_back (oversize types ti v) (json_decode types d ti u) v)"

lemma returns_item:
  "returns types d t v \<Longrightarrow> reads_back (oversize types t v) (json_decode types d t (if v = JUndef then JNull else json v)) v"
  using arrives_item by (simp add: returns_def)

lemma returns_json: "returns types d t v \<Longrightarrow> reads_back (oversize types t v) (json_decode types d t (json v)) v"
  using arrives_json by (simp add: returns_def)

lemma returns_intro:
  "v \<noteq> JUndef \<Longrightarrow> reads_back (oversize types ti v) (json_decode types d ti (json v)) v \<Longrightarrow> returns types d ti v"
  by (simp add: returns_def arrives_not_undef)

lemma items_read:
  assumes "\<forall>v\<in>set vs. returns types d t v"
  shows "reads_back (\<exists>v\<in>set vs. oversize types t v)
    (rmap (json_decode types d t) (map (\<lambda>v. if v = JUndef then JNull else json v) vs)) vs"
proof -
  let ?cvs = "map (\<lambda>v. (oversize types t v, v)) vs"
  have "reads_back (\<exists>cv\<in>set ?cvs. fst cv) (rmap (json_decode types d t) (map (\<lambda>v. if v = JUndef then JNull else json v) vs)) (map snd ?cvs)"
    using assms by (intro reads_rmap) (auto simp: list_all2_map1 list_all2_map2 intro!: list.rel_refl_strong returns_item)
  then show ?thesis by (simp add: comp_def)
qed

lemma tuple_reads:
  assumes "ps \<noteq> []" "\<forall>(t, v, b)\<in>set ps. returns types d t v"
  shows "reads_back (\<exists>(t, v, b)\<in>set ps. oversize types t v)
    (json_tuple (json_decode types d) (map fst ps) (json (JArr (map (\<lambda>(t, v, b). v) ps)))) (JArr (map (\<lambda>(t, v, b). v) ps))"
proof -
  let ?us = "map (\<lambda>v. if v = JUndef then JNull else json v) (map (\<lambda>(t, v, b). v) ps)"
  let ?cvs = "map (\<lambda>(t, v, b). (oversize types t v, v)) ps"
  have z: "zip (map fst ps) ?us = map (\<lambda>(t, v, b). (t, if v = JUndef then JNull else json v)) ps"
    by (induction ps) auto
  have all: "reads_back (\<exists>cv\<in>set ?cvs. fst cv) (rmap (\<lambda>(t, v). json_decode types d t v) (zip (map fst ps) ?us)) (map snd ?cvs)"
  proof (intro reads_rmap)
    have "reads_back (oversize types t v) (json_decode types d t (if v = JUndef then JNull else json v)) v" if "(t, v, b) \<in> set ps" for t v b
      using assms(2) that by (intro returns_item) auto
    then show "list_all2 (\<lambda>u cv. reads_back (fst cv) (case u of (t, v) \<Rightarrow> json_decode types d t v) (snd cv)) (zip (map fst ps) ?us) ?cvs"
      unfolding z list_all2_map1 list_all2_map2 by (intro list.rel_refl_strong) (auto split del: if_split)
  qed
  have over: "(\<exists>cv\<in>set ?cvs. fst cv) \<longleftrightarrow> (\<exists>(t, v, b)\<in>set ps. oversize types t v)" by force
  have vals: "map snd ?cvs = map (\<lambda>(t, v, b). v) ps" by (simp add: case_prod_unfold)
  from reads_map [OF all [unfolded over vals], of JArr] show ?thesis using assms(1) by (simp add: json_tuple_def items_of_def)
qed

lemma struct_reads:
  assumes "distinct (map fst ps)" "\<forall>(name, t, v, b)\<in>set ps. returns types d t v"
    and get: "\<forall>(name, t, v, b)\<in>set ps. js_get (json (JObj kvs)) name = Inr (json v)"
  shows "reads_back (\<exists>(name, t, v, b)\<in>set ps. oversize types t v)
    (json_struct (json_decode types d) (map (\<lambda>(name, t, v, b). (name, t)) ps) (json (JObj kvs)))
    (map (\<lambda>(name, t, v, b). (name, v)) ps)"
proof -
  have "\<forall>(name, t, v, b)\<in>set ps. \<exists>u. js_get (json (JObj kvs)) name = Inr u \<and> reads_back (oversize types t v) (json_decode types d t u) v"
    using assms(2) get returns_json by fastforce
  from reads_fields [OF this, of "[]"] show ?thesis using assms(1) by (simp add: json_struct_def)
qed

lemma variant_reads:
  assumes obj: "distinct (map fst kvs)" "(js ''__kind'', JStr name) \<in> set kvs" and cv: "byName name = Some cv"
    and body: "reads_back c (case cv of
         CodecEmptyVariant _ _ \<Rightarrow> Inr (JObj [(js ''__kind'', JStr name)])
       | CodecValueVariant _ _ type \<Rightarrow>
           rbind (js_get (json (JObj kvs)) (js ''value'')) (\<lambda>p. rbind (rec type p) (\<lambda>v.
             Inr (JObj [(js ''__kind'', JStr name), (js ''value'', v)])))
       | CodecTupleVariant _ _ tuple \<Rightarrow>
           rbind (js_get (json (JObj kvs)) (js ''value'')) (\<lambda>p. rbind (json_tuple rec tuple p) (\<lambda>v.
             Inr (JObj [(js ''__kind'', JStr name), (js ''value'', v)])))
       | CodecStructVariant _ _ fs \<Rightarrow>
           rbind (json_struct rec fs (json (JObj kvs))) (\<lambda>s. Inr (JObj (obj_set (js ''__kind'') (JStr name) s)))) v"
  shows "reads_back c (json_variant rec byName (json (JObj kvs))) v"
  using body get_json [OF obj] cv by (simp add: json_variant_def)

lemma value_distinct: "distinct (map fst [(js ''__kind'', a), (js ''value'', b)])"
  by (simp add: js_def)

lemma json_returns:
  assumes "wire types ti v bs" "json_types types"
  shows "\<exists>d0. \<forall>d\<ge>d0. returns types d ti v"
  using assms(1)
proof (induction rule: wire.induct)
  case (wire_prim ti p v bs)
  then show ?case
    by (intro depth_leaf returns_intro)
      (auto simp: over_leaf primitive_reads wire_primitive_def num_wire_def big_wire_def split: primitive.splits)
next
  case (wire_compact ti p n v)
  have p: "is_unsigned_name p" using json_typesD(3) [OF assms(2) wire_compact(1,2)] .
  have "v = JNum n \<or> v = JBig n" using wire_compact(5) by (auto simp: compact_val_def)
  then have "oversize types ti v \<longleftrightarrow> 2 ^ unsigned_bits p \<le> n" "v \<noteq> JUndef"
    using over_compact_iff [OF wire_compact(2)] by auto
  then show ?case using wire_compact compact_reads [OF p wire_compact(3,5)] by (intro depth_leaf returns_intro) simp_all
next
  case (wire_bits ti s ord n b)
  then show ?case using json_typesD(1) [OF assms(2)] by blast
next
  case (wire_bytes ti b bs)
  then show ?case by (intro depth_leaf returns_intro) (simp_all add: json_hex_def over_leaf)
next
  case (wire_hex ti b bs)
  then show ?case by (intro depth_leaf returns_intro) (simp_all add: isHex_hex over_leaf)
next
  case (wire_bytes_array ti b)
  then show ?case by (intro depth_leaf returns_intro) (simp_all add: decodeBinaryArray_def over_leaf)
next
  case (wire_hex_array ti b)
  then show ?case by (intro depth_leaf returns_intro) (simp_all add: isHex_hex over_leaf)
next
  case (wire_bool_none ti)
  then show ?case using json_typesD(2) [OF assms(2)] by blast
next
  case (wire_bool_some ti b)
  then show ?case using json_typesD(2) [OF assms(2)] by blast
next
  case (wire_none ti t)
  then show ?case by (intro depth_leaf) (auto simp: returns_def json_option_def is_nullish_def over_option_iff dest: arrives_nullish)
next
  case (wire_some ti t v bs)
  have t: "t < length types" "types ! t \<noteq> CTuple []" using json_typesD(4) [OF assms(2) wire_some(1,2)] by auto
  have n: "\<not> is_nullish (json v)" using wire_not_nullish [OF wire_some(4) assms(2) wire_some(3) t(2)] json_nullish by blast
  from wire_some.IH show ?case
  proof (rule depth_Suc)
    fix d assume "returns types d t v"
    then show "returns types (Suc d) ti v"
      using wire_some n returns_json by (intro returns_intro) (simp_all add: json_option_def over_option_iff)
  qed
next
  case (wire_array ti ps t)
  have "\<exists>d0. \<forall>d\<ge>d0. \<forall>x\<in>set ps. returns types d t (fst x)" using wire_array.IH by (intro depth_all) auto
  then show ?case
  proof (rule depth_Suc)
    fix d assume "\<forall>x\<in>set ps. returns types d t (fst x)"
    then have "reads_back (\<exists>v\<in>set (map fst ps). oversize types t v)
        (rmap (json_decode types d t) (map (\<lambda>v. if v = JUndef then JNull else json v) (map fst ps))) (map fst ps)"
      by (intro items_read) auto
    from reads_map [OF this, of JArr] show "returns types (Suc d) ti (JArr (map fst ps))"
      using wire_array(1,2) by (intro returns_intro) (simp_all add: json_array_def items_of_def over_array_iff)
  qed
next
  case (wire_sequence ti t ps)
  have "\<exists>d0. \<forall>d\<ge>d0. \<forall>x\<in>set ps. returns types d t (fst x)" using wire_sequence.IH by (intro depth_all) auto
  then show ?case
  proof (rule depth_Suc)
    fix d assume "\<forall>x\<in>set ps. returns types d t (fst x)"
    then have "reads_back (\<exists>v\<in>set (map fst ps). oversize types t v)
        (rmap (json_decode types d t) (map (\<lambda>v. if v = JUndef then JNull else json v) (map fst ps))) (map fst ps)"
      by (intro items_read) auto
    from reads_map [OF this, of JArr] show "returns types (Suc d) ti (JArr (map fst ps))"
      using wire_sequence(1,2) by (intro returns_intro) (simp_all add: json_sequence_def items_of_def over_sequence_iff)
  qed
next
  case (wire_unit ti)
  then show ?case by (intro depth_leaf returns_intro) (simp_all add: json_tuple_def is_nullish_def over_null)
next
  case (wire_tuple ti ps)
  have "\<exists>d0. \<forall>d\<ge>d0. \<forall>x\<in>set ps. returns types d (fst x) (fst (snd x))" using wire_tuple.IH by (intro depth_all) auto
  then show ?case
  proof (rule depth_Suc)
    fix d assume "\<forall>x\<in>set ps. returns types d (fst x) (fst (snd x))"
    then have "\<forall>(t, v, b)\<in>set ps. returns types d t v" by auto
    from tuple_reads [OF wire_tuple(3) this] show "returns types (Suc d) ti (JArr (map (\<lambda>(t, v, b). v) ps))"
      using wire_tuple(1,2) by (intro returns_intro) (simp_all add: over_tuple_iff)
  qed
next
  case (wire_struct ti ps)
  let ?kvs = "map (\<lambda>(name, t, v, b). (name, v)) ps"
  have k: "distinct (map fst ?kvs)" using wire_struct(3) by (simp add: case_prod_unfold o_def)
  have "\<exists>d0. \<forall>d\<ge>d0. \<forall>x\<in>set ps. returns types d (fst (snd x)) (fst (snd (snd x)))"
    using wire_struct.IH by (intro depth_all) auto
  then show ?case
  proof (rule depth_Suc)
    fix d assume "\<forall>x\<in>set ps. returns types d (fst (snd x)) (fst (snd (snd x)))"
    then have "\<forall>(name, t, v, b)\<in>set ps. returns types d t v" by auto
    moreover have "\<forall>(name, t, v, b)\<in>set ps. js_get (json (JObj ?kvs)) name = Inr (json v)"
      using get_json [OF k] by force
    ultimately have "reads_back (\<exists>(name, t, v, b)\<in>set ps. oversize types t v)
        (json_struct (json_decode types d) (map (\<lambda>(name, t, v, b). (name, t)) ps) (json (JObj ?kvs))) ?kvs"
      by (rule struct_reads [OF wire_struct(3)])
    then show "returns types (Suc d) ti (JObj ?kvs)"
      using wire_struct(1,2) over_struct_iff [OF wire_struct(2,3)] by (intro returns_intro) (simp_all add: reads_map)
  qed
next
  case (wire_variant_empty ti placed byName idx name)
  have "reads_back False (json_variant rec byName (json (JObj [(js ''__kind'', JStr name)]))) (JObj [(js ''__kind'', JStr name)])" for rec
    by (rule variant_reads [where name = name and byName = byName, OF _ _ wire_variant_empty(5)]) simp_all
  then show ?case
    using wire_variant_empty(1,2) over_variant_empty_iff [OF wire_variant_empty(2,5)] by (intro depth_leaf returns_intro) simp_all
next
  case (wire_variant_value ti placed byName idx name t v bs)
  let ?kvs = "[(js ''__kind'', JStr name), (js ''value'', v)]"
  from wire_variant_value.IH show ?case
  proof (rule depth_Suc)
    fix d assume "returns types d t v"
    from reads_map [OF returns_json [OF this], of "\<lambda>v. JObj [(js ''__kind'', JStr name), (js ''value'', v)]"]
    have "reads_back (oversize types t v) (json_variant (json_decode types d) byName (json (JObj ?kvs))) (JObj ?kvs)"
      using get_json [OF value_distinct, of "js ''value''" v "JStr name" v]
      by (intro variant_reads [where name = name and byName = byName, OF value_distinct _ wire_variant_value(5)]) simp_all
    then show "returns types (Suc d) ti (JObj ?kvs)"
      using wire_variant_value(1,2) over_value_iff [OF wire_variant_value(2,5)] by (intro returns_intro) simp_all
  qed
next
  case (wire_variant_tuple ti placed byName idx name ps)
  let ?v = "JArr (map (\<lambda>(t, v, b). v) ps)"
  let ?kvs = "[(js ''__kind'', JStr name), (js ''value'', ?v)]"
  have "\<exists>d0. \<forall>d\<ge>d0. \<forall>x\<in>set ps. returns types d (fst x) (fst (snd x))" using wire_variant_tuple.IH by (intro depth_all) auto
  then show ?case
  proof (rule depth_Suc)
    fix d assume "\<forall>x\<in>set ps. returns types d (fst x) (fst (snd x))"
    then have "\<forall>(t, v, b)\<in>set ps. returns types d t v" by auto
    from reads_map [OF tuple_reads [OF wire_variant_tuple(6) this], of "\<lambda>v. JObj [(js ''__kind'', JStr name), (js ''value'', v)]"]
    have "reads_back (\<exists>(t, v, b)\<in>set ps. oversize types t v) (json_variant (json_decode types d) byName (json (JObj ?kvs))) (JObj ?kvs)"
      using get_json [OF value_distinct, of "js ''value''" ?v "JStr name" ?v]
      by (intro variant_reads [where name = name and byName = byName, OF value_distinct _ wire_variant_tuple(5)])
        (simp_all del: json_simps)
    then show "returns types (Suc d) ti (JObj ?kvs)"
      using wire_variant_tuple(1,2) over_variant_tuple_iff [OF wire_variant_tuple(2,5)] by (intro returns_intro) (simp_all del: json_simps)
  qed
next
  case (wire_variant_struct ti placed byName idx name ps)
  let ?fs = "map (\<lambda>(name, t, v, b). (name, v)) ps"
  let ?kvs = "?fs @ [(js ''__kind'', JStr name)]"
  have new: "js ''__kind'' \<notin> fst ` set ?fs" using wire_variant_struct(7) by force
  have k: "distinct (map fst ?kvs)" using wire_variant_struct(6,7) by (force simp: case_prod_unfold o_def)
  have "\<exists>d0. \<forall>d\<ge>d0. \<forall>x\<in>set ps. returns types d (fst (snd x)) (fst (snd (snd x)))"
    using wire_variant_struct.IH by (intro depth_all) auto
  then show ?case
  proof (rule depth_Suc)
    fix d assume "\<forall>x\<in>set ps. returns types d (fst (snd x)) (fst (snd (snd x)))"
    then have "\<forall>(name, t, v, b)\<in>set ps. returns types d t v" by auto
    moreover have "js_get (json (JObj ?kvs)) n = Inr (json w)" if "(n, t, w, b) \<in> set ps" for n t w b
      using that by (intro get_json [OF k]) force
    then have "\<forall>(name, t, v, b)\<in>set ps. js_get (json (JObj ?kvs)) name = Inr (json v)" by blast
    ultimately have "reads_back (\<exists>(name, t, v, b)\<in>set ps. oversize types t v)
        (json_struct (json_decode types d) (map (\<lambda>(name, t, v, b). (name, t)) ps) (json (JObj ?kvs))) ?fs"
      by (rule struct_reads [OF wire_variant_struct(6)])
    from reads_map [OF this, of "\<lambda>s. JObj (obj_set (js ''__kind'') (JStr name) s)"]
    have "reads_back (\<exists>(name, t, v, b)\<in>set ps. oversize types t v) (json_variant (json_decode types d) byName (json (JObj ?kvs))) (JObj ?kvs)"
      unfolding obj_set_new [OF new]
      by (intro variant_reads [where name = name and byName = byName, OF k _ wire_variant_struct(5)])
        (simp, simp only: codec_variant.case obj_set_new [OF new])
    then show "returns types (Suc d) ti (JObj ?kvs)"
      using wire_variant_struct(1,2) over_variant_struct_iff [OF wire_variant_struct(2,5,6,7)]
      by (intro returns_intro) (simp_all del: json_simps)
  qed
qed

section \<open>Properties\<close>

text \<open>C9: A value that the binary codec reads goes through its JSON text and back: with enough stack the JSON codec returns the
  same value, unless a compact number in it exceeds its type; exactly then it refuses the value. The types must have neither
  bit sequences nor boolean options nor optional units, and their compact types must be of unsigned integers; the
  values are those that \<open>wire\<close> relates to bytes, whose strings have no lone surrogates and do not start with a byte order mark.\<close>

theorem scale_json_roundtrip:
  assumes "wire types ti v bs" "json_types types"
  shows "\<exists>d0. \<forall>d\<ge>d0. json_decode types d ti (json_text (toJSON v)) =
    (if oversize types ti v then Inl (ThrownError ''Invalid'') else Inr v)"
proof -
  obtain d0 where "\<forall>d\<ge>d0. returns types d ti v" using json_returns [OF assms] by blast
  then show ?thesis using arrives_json [of v] unfolding returns_def reads_back_def json_def by blast
qed

lemma scale_json_roundtrip_witness:
  "\<exists>d0. \<forall>d\<ge>d0. json_decode [CCompact U8, COption 0] d 1 (json_text (toJSON (JNum 5))) = Inr (JNum 5) \<and>
    json_decode [CCompact U8, COption 0] d 1 (json_text (toJSON (JNum 256))) = Inl (ThrownError ''Invalid'')"
proof -
  let ?t = "[CCompact U8, COption 0]"
  have w: "wire ?t 1 (JNum n) (1 # compact_bytes n)" if "0 \<le> n" "n \<le> 1000" for n
  proof -
    have "wire ?t 0 (JNum n) (compact_bytes n)"
      using that by (intro wire_compact [where p = U8]) (simp_all add: compact_val_def)
    then show ?thesis by (intro wire_some [where t = 0]) simp_all
  qed
  have o: "oversize ?t 1 (JNum n) \<longleftrightarrow> 256 \<le> n" for n
    by (simp add: over_option_iff over_compact_iff unsigned_bits_def)
  have j: "json_types ?t" by (simp add: json_types_def is_unsigned_name_def)
  obtain d1 where d1: "\<forall>d\<ge>d1. json_decode ?t d 1 (json_text (toJSON (JNum 5))) = Inr (JNum 5)"
    using scale_json_roundtrip [OF w j, of 5] o [of 5] by auto
  obtain d2 where d2: "\<forall>d\<ge>d2. json_decode ?t d 1 (json_text (toJSON (JNum 256))) = Inl (ThrownError ''Invalid'')"
    using scale_json_roundtrip [OF w j, of 256] o [of 256] by auto
  show ?thesis by (rule exI [of _ "max d1 d2"]) (use d1 d2 in auto)
qed

text \<open>C10: The text loses three kinds of values: a bit sequence becomes an object that the JSON codec does not read, the empty
  boolean option comes back as \<open>undefined\<close> where the binary codec reads null, and a unit inside of an option is
  lost.\<close>

theorem scale_json_losses:
  assumes "ti < length types"
  shows "(types ! ti = CBitSequence s ord \<longrightarrow> wire types ti v bs \<longrightarrow>
      json_decode types (Suc d) ti (json_text (toJSON v)) = Inl AssertionError) \<and>
    (types ! ti = CBooleanOption \<longrightarrow> wire types ti JNull [0] \<and>
      json_decode types (Suc d) ti (json_text (toJSON JNull)) = Inr JUndef) \<and>
    (types ! ti = COption t \<longrightarrow> t < length types \<longrightarrow> types ! t = CTuple [] \<longrightarrow> wire types ti JNull [1] \<and>
      json_decode types (Suc d) ti (json_text (toJSON JNull)) = Inr JUndef)"
proof (intro conjI impI)
  assume t: "types ! ti = CBitSequence s ord" and w: "wire types ti v bs"
  from w obtain b n where "v = JObj [(js ''bytes'', JBytes b), (js ''bitLength'', JNum n)]"
    by cases (use t in auto)
  then have "\<exists>kvs. json_text (toJSON v) = JObj kvs" by simp
  then show "json_decode types (Suc d) ti (json_text (toJSON v)) = Inl AssertionError"
    using assms t by (auto simp: json_hex_def decodeHex_def isHex_def)
next
  assume "types ! ti = CBooleanOption"
  with assms show "wire types ti JNull [0]" "json_decode types (Suc d) ti (json_text (toJSON JNull)) = Inr JUndef"
    by (auto simp: json_booleanOption_def is_nullish_def intro: wire_bool_none)
next
  assume t: "types ! ti = COption t" "t < length types" "types ! t = CTuple []"
  have "wire types t JNull []" using t(2,3) by (rule wire_unit)
  then show "wire types ti JNull [1]" using assms t by (intro wire_some) simp_all
  show "json_decode types (Suc d) ti (json_text (toJSON JNull)) = Inr JUndef"
    using assms t by (simp add: json_option_def is_nullish_def)
qed

lemma scale_json_losses_witness:
  "json_decode [CBitSequence 0 0] 1 0 (json_text (toJSON (JObj [(js ''bytes'', JBytes [7]), (js ''bitLength'', JNum 3)]))) =
     Inl AssertionError"
proof -
  have "wire [CBitSequence 0 0] 0 (JObj [(js ''bytes'', JBytes [7]), (js ''bitLength'', JNum (int 3))]) (compact_bytes (int 3) @ [7])"
    by (rule wire_bits) (simp_all add: ceil8_def)
  from scale_json_losses [of 0 "[CBitSequence 0 0]", THEN conjunct1, rule_format, OF _ _ this, of 0 0 0]
  show ?thesis by (simp del: toJSON.simps json_text.simps)
qed

end
