(* ===== verification/Typeorm_History.thy ===== *)
theory Typeorm_History
  imports Typeorm_Database
begin

text \<open>
  What a database of \<open>typeorm/typeorm-store/src/database.ts\<close> remembers of its past. \<open>db_life\<close> is the life of a database:
  it starts without hot blocks and goes through transactions (\<open>transactHot2\<close>, \<open>transact\<close>) and restarts (\<open>initTransaction\<close>), while the
  tables are recorded as they are when each block is the head (\<open>head_tables\<close>). \<open>history\<close> is the invariant that
  the change log keeps of these records, derived step by step from the transactions (\<open>life_history\<close>); with it, leaving a
  fork gives the tables back that were there before.
\<close>

section \<open>The log undoes the blocks\<close>

text \<open>\<open>Ts\<close> are the tables at the status and after each of the hot blocks; from the block \<open>k\<close> on the records of every hot block undo
  what it did.\<close>

definition block_records :: "int \<Rightarrow> db \<Rightarrow> change list" where
  "block_records h D = map snd (rev (block_changes h D))"

definition history :: "schema \<Rightarrow> nat \<Rightarrow> db \<Rightarrow> tables list \<Rightarrow> bool" where
  "history sc k D Ts \<longleftrightarrow> length Ts = Suc (length (db_hot D)) \<and> same_rows (db_tabs D) (last Ts) \<and> tabs_ok sc (db_tabs D) \<and>
     (\<forall>i < length (db_hot D). k \<le> i \<longrightarrow> undoes sc (block_records (hh_height (db_hot D ! i)) D) (Ts ! i) (Ts ! Suc i))"

lemma history_start: "db_hot D = [] \<Longrightarrow> tabs_ok sc (db_tabs D) \<Longrightarrow> history sc k D [db_tabs D]"
  by (simp add: history_def same_rows_def)

lemma last_nth: "length Ts = Suc n \<Longrightarrow> last Ts = Ts ! n"
  by (metis diff_Suc_1 last_conv_nth list.size(3) nat.distinct(1))

lemma rollback_pops:
  assumes h: "history sc 0 D Ts" and hot: "db_hot D = bs @ [b]" and d: "distinct (heights D)" and "log_known D"
  shows "\<exists>D'. rollbackBlock sc (hh_height b) D = Inr D' \<and> history sc 0 D' (butlast Ts) \<and> db_hot D' = bs"
proof -
  have l: "length Ts = Suc (Suc (length bs))" using h hot by (simp add: history_def)
  have "undoes sc (block_records (hh_height b) D) (Ts ! length bs) (Ts ! Suc (length bs))"
  proof -
    have "length bs < length (db_hot D)" "db_hot D ! length bs = b" using hot by simp_all
    then show ?thesis using h unfolding history_def by blast
  qed
  moreover have "last Ts = Ts ! Suc (length bs)" using l by (rule last_nth)
  ultimately obtain T where T: "rfold (undo_change sc) (rev (block_records (hh_height b) D)) (db_tabs D) = Inr T"
      "same_rows T (Ts ! length bs)" "tabs_ok sc T"
    using h unfolding history_def undoes_def by (metis (no_types))
  let ?D = "D\<lparr>db_tabs := T, db_templates := filter (\<lambda>(m, h). h \<noteq> hh_height b) (db_templates D)\<rparr>"
  let ?D' = "drop_hot (\<lambda>k. k = hh_height b) ?D"
  have "rfold (\<lambda>l. undo_change sc (snd l)) (block_changes (hh_height b) D) (db_tabs D) =
      rfold (undo_change sc) (map snd (block_changes (hh_height b) D)) (db_tabs D)" by (simp only: rfold_map)
  also have "map snd (block_changes (hh_height b) D) = rev (block_records (hh_height b) D)"
    by (simp add: block_records_def rev_map)
  finally have "rollbackBlock sc (hh_height b) D = Inr ?D'"
    using T(1) by (simp add: rollbackBlock_def)
  moreover have hot': "db_hot ?D' = bs"
  proof -
    have "hh_height c \<noteq> hh_height b" if "c \<in> set bs" for c using d imageI [OF that, of hh_height] unfolding hot by auto
    then show ?thesis by (simp add: drop_hot_def hot filter_id_conv)
  qed
  moreover have "history sc 0 ?D' (butlast Ts)"
  proof -
    have "undoes sc (block_records (hh_height (bs ! i)) ?D') (butlast Ts ! i) (butlast Ts ! Suc i)" if i: "i < length bs" for i
    proof -
      have ne: "hh_height (bs ! i) \<noteq> hh_height b" using d imageI [OF nth_mem [OF i], of hh_height] unfolding hot by auto
      have "filter (\<lambda>l. fst l = hh_height (bs ! i)) (db_log ?D') = filter (\<lambda>l. fst l = hh_height (bs ! i)) (db_log D)"
        unfolding drop_hot_def using ne by (auto intro!: filter_cong)
      then have "block_records (hh_height (bs ! i)) ?D' = block_records (hh_height (bs ! i)) D"
        by (simp add: block_records_def block_changes_def)
      moreover have "undoes sc (block_records (hh_height (db_hot D ! i)) D) (Ts ! i) (Ts ! Suc i)"
        using h i hot by (simp add: history_def)
      ultimately show ?thesis using i hot l by (simp add: nth_append nth_butlast)
    qed
    moreover have "last (butlast Ts) = Ts ! length bs"
      using l by (simp add: last_conv_nth nth_butlast length_0_conv [symmetric] del: length_0_conv)
    moreover have "db_tabs ?D' = T" by (simp add: drop_hot_def)
    ultimately show ?thesis using T(2,3) l hot' by (simp add: history_def)
  qed
  ultimately show ?thesis by blast
qed

lemma rollbacks_pop:
  "history sc 0 D Ts \<Longrightarrow> db_hot D = bs @ cs \<Longrightarrow> sorted_wrt (<) (heights D) \<Longrightarrow> log_known D \<Longrightarrow>
    \<exists>D'. rfold (\<lambda>b. rollbackBlock sc (hh_height b)) (rev cs) D = Inr D' \<and>
      history sc 0 D' (take (Suc (length bs)) Ts) \<and> db_hot D' = bs"
proof (induction cs arbitrary: D Ts rule: rev_induct)
  case Nil
  then show ?case by (auto simp: history_def)
next
  case (snoc b cs)
  have d: "distinct (heights D)" using snoc.prems(3) by (simp add: strict_sorted_iff)
  obtain D1 where D1: "rollbackBlock sc (hh_height b) D = Inr D1" "history sc 0 D1 (butlast Ts)" "db_hot D1 = bs @ cs"
    using rollback_pops [OF snoc.prems(1) _ d snoc.prems(4), of "bs @ cs" b] snoc.prems(2) by auto
  have p: "pruned {hh_height b} D D1" using rollbackBlock_pruned [OF D1(1) snoc.prems(4)] .
  have "sorted_wrt (<) (heights D1)" using snoc.prems(2,3) D1(3) by (simp add: sorted_wrt_append)
  from snoc.IH [OF D1(2,3) this pruned_log_known [OF p snoc.prems(4)]] obtain D' where
    D': "rfold (\<lambda>b. rollbackBlock sc (hh_height b)) (rev cs) D1 = Inr D'"
      "history sc 0 D' (take (Suc (length bs)) (butlast Ts))" "db_hot D' = bs" by blast
  have "take (Suc (length bs)) (butlast Ts) = take (Suc (length bs)) Ts"
    using snoc.prems(1,2) by (simp add: history_def take_butlast)
  then show ?case using D' D1(1) by simp
qed

lemma undoes_sentinel:
  assumes "undoes sc R T T'" "same_rows T S"
  shows "undoes sc (Sentinel # R) S T'"
  unfolding undoes_def
proof (intro allI impI)
  fix U assume "same_rows U T'" "tabs_ok sc U"
  then obtain V where V: "rfold (undo_change sc) (rev R) U = Inr V" "same_rows V T" "tabs_ok sc V"
    using assms(1) unfolding undoes_def by blast
  have "rfold (undo_change sc) (rev (Sentinel # R)) U = Inr V"
    using V(1) by (simp add: rfold_append) (simp add: undo_change_def)
  moreover have "same_rows V S" using V(2) assms(2) by (simp add: same_rows_def)
  ultimately show "\<exists>U'. rfold (undo_change sc) (rev (Sentinel # R)) U = Inr U' \<and> same_rows U' S \<and> tabs_ok sc U'"
    using V(3) by blast
qed

text \<open>Handling a slice of hot blocks extends the past of the database by the tables before it, for any
  data handler whose deletions can be undone.\<close>

lemma hot_slice_history:
  assumes "orm_ok sc om" "schema_ok sc" "history sc k D Ts" "unused (hh_height (blocks ! (e - 1))) D"
    and "\<And>D1. insertHotBlock (blocks ! (e - 1)) D = Inr D1 \<Longrightarrow>
      run_separate sc om (cb i e (db_tabs D1)) (Some (ChangeTracker (hh_height (blocks ! (e - 1)))), D1)"
    and "hot_slice sc om cb blocks (i, e) D = Inr D2"
  shows "history sc k D2 (Ts @ [db_tabs D2]) \<and> db_hot D2 = db_hot D @ [blocks ! (e - 1)]"
proof -
  let ?b = "blocks ! (e - 1)"
  obtain D1 where D1: "insertHotBlock ?b D = Inr D1"
    "performUpdates sc om (cb i e) (hh_height ?b) (Some (ChangeTracker (hh_height ?b))) D1 = Inr D2"
    using assms(6) by (auto simp: hot_slice_def Let_def result_simps)
  have T: "tabs_ok sc (db_tabs D)" using assms(3) by (simp add: history_def)
  obtain T' R X where s: "D2 = D\<lparr>db_tabs := T', db_hot := db_hot D @ [?b],
      db_log := db_log D @ (hh_height ?b, 0, Sentinel) # log_rows (hh_height ?b) 1 R, db_templates := db_templates D @ X\<rparr>"
    "tabs_ok sc T'" "undoes sc R (db_tabs D) T'"
    using hot_block_state [OF assms(1,2) T D1(1) assms(5) [OF D1(1)] D1(2)] by blast
  have recs: "block_records (hh_height ?b) D2 = Sentinel # R"
  proof -
    have none: "filter (\<lambda>l. fst l = hh_height ?b) (db_log D) = []"
      using assms(4) by (auto simp: unused_def filter_empty_conv)
    have "sorted (map fst ((0, Sentinel) # map snd (log_rows (hh_height ?b) 1 R)))"
      using log_rows_sorted [of 0 1 "hh_height ?b" R] by simp
    then have "sort_key fst ((0, Sentinel) # map snd (log_rows (hh_height ?b) 1 R)) =
        (0, Sentinel) # map snd (log_rows (hh_height ?b) 1 R)" by (rule sort_key_id_if_sorted)
    then show ?thesis
      using none log_rows_changes [of "hh_height ?b" 1 R]
      by (simp add: block_records_def block_changes_def s(1) log_rows_heights)
  qed
  have old: "block_records g D2 = block_records g D" if "g \<noteq> hh_height ?b" for g
    using that by (simp add: block_records_def block_changes_def s(1) log_rows_heights)
  have "same_rows (db_tabs D) (last Ts)" using assms(3) by (simp add: history_def)
  with s(3) have "undoes sc (Sentinel # R) (last Ts) T'" by (rule undoes_sentinel)
  then have last: "undoes sc (block_records (hh_height ?b) D2) (Ts ! length (db_hot D)) T'"
    using assms(3) using last_nth [of Ts "length (db_hot D)"] unfolding recs history_def by simp
  have "undoes sc (block_records (hh_height (db_hot D2 ! i)) D2) ((Ts @ [T']) ! i) ((Ts @ [T']) ! Suc i)"
    if "i < Suc (length (db_hot D))" "k \<le> i" for i
  proof (cases "i = length (db_hot D)")
    case True
    then show ?thesis using last assms(3) by (simp add: s(1) history_def nth_append)
  next
    case False
    then have i: "i < length (db_hot D)" "k \<le> i" using that by simp_all
    then have "hh_height (db_hot D ! i) \<noteq> hh_height ?b" using assms(4) nth_mem unfolding unused_def by blast
    then show ?thesis using i assms(3) old by (simp add: s(1) history_def nth_append)
  qed
  then show ?thesis using assms(3) s(2) by (simp add: s(1) history_def same_rows_def)
qed

section \<open>The slices of a transaction\<close>

text \<open>The tables before the slices and after each of them, and the condition that no row is removed along two paths while they are
  handled.\<close>

fun tables_seen :: "schema \<Rightarrow> orm \<Rightarrow> (nat \<Rightarrow> nat \<Rightarrow> tables \<Rightarrow> handler) \<Rightarrow> hash_height list \<Rightarrow> (nat \<times> nat) list \<Rightarrow> db \<Rightarrow> tables list" where
  "tables_seen sc om cb blocks [] D = [db_tabs D]"
| "tables_seen sc om cb blocks (p # sl) D =
     db_tabs D # (case hot_slice sc om cb blocks p D of Inl _ \<Rightarrow> [] | Inr D' \<Rightarrow> tables_seen sc om cb blocks sl D')"

fun slices_separate :: "schema \<Rightarrow> orm \<Rightarrow> (nat \<Rightarrow> nat \<Rightarrow> tables \<Rightarrow> handler) \<Rightarrow> hash_height list \<Rightarrow> (nat \<times> nat) list \<Rightarrow> db \<Rightarrow> bool" where
  "slices_separate sc om cb blocks [] D = True"
| "slices_separate sc om cb blocks ((i, e) # sl) D =
     ((case insertHotBlock (blocks ! (e - 1)) D of
         Inl _ \<Rightarrow> True
       | Inr D1 \<Rightarrow> run_separate sc om (cb i e (db_tabs D1)) (Some (ChangeTracker (hh_height (blocks ! (e - 1)))), D1)) \<and>
      (case hot_slice sc om cb blocks (i, e) D of Inl _ \<Rightarrow> True | Inr D' \<Rightarrow> slices_separate sc om cb blocks sl D'))"

lemma slices_history:
  assumes "orm_ok sc om" "schema_ok sc"
  shows "rfold (hot_slice sc om cb blocks) sl D = Inr D' \<Longrightarrow>
    sorted_wrt (<) (map (\<lambda>(i, e). hh_height (blocks ! (e - 1))) sl) \<Longrightarrow>
    \<forall>(i, e) \<in> set sl. fin < hh_height (blocks ! (e - 1)) \<and> (\<forall>a \<in> set (db_hot D). hh_height a < hh_height (blocks ! (e - 1))) \<Longrightarrow>
    book_ok fin D \<Longrightarrow> slices_separate sc om cb blocks sl D \<Longrightarrow> history sc k D (Ts @ [db_tabs D]) \<Longrightarrow>
    history sc k D' (Ts @ tables_seen sc om cb blocks sl D)"
proof (induction sl arbitrary: D Ts)
  case Nil
  then show ?case by simp
next
  case (Cons p sl)
  obtain i e where p: "p = (i, e)" by (cases p)
  let ?b = "blocks ! (e - 1)"
  obtain D1 where D1: "hot_slice sc om cb blocks (i, e) D = Inr D1" "rfold (hot_slice sc om cb blocks) sl D1 = Inr D'"
    using Cons.prems(1) p by (auto simp: result_simps)
  have above: "fin < hh_height ?b" "\<forall>a \<in> set (db_hot D). hh_height a < hh_height ?b" using Cons.prems(3) p by auto
  have "unused (hh_height ?b) D"
    using Cons.prems(4) above unfolding unused_def book_ok_def by (fastforce dest: bspec)
  moreover have "run_separate sc om (cb i e (db_tabs D0)) (Some (ChangeTracker (hh_height ?b)), D0)"
    if "insertHotBlock ?b D = Inr D0" for D0
    using Cons.prems(5) that p by simp
  ultimately have h: "history sc k D1 ((Ts @ [db_tabs D]) @ [db_tabs D1])" "db_hot D1 = db_hot D @ [?b]"
    using hot_slice_history [OF assms Cons.prems(6) _ _ D1(1)] by blast+
  have "book_ok fin D1"
    using grown_book [OF Cons.prems(4) hot_slice_grown [OF D1(1)]] above(2) by simp
  moreover have "\<forall>(i, e) \<in> set sl. fin < hh_height (blocks ! (e - 1)) \<and>
      (\<forall>a \<in> set (db_hot D1). hh_height a < hh_height (blocks ! (e - 1)))"
    using Cons.prems(2,3) p h(2) by (auto simp: case_prod_beta')
  moreover have "slices_separate sc om cb blocks sl D1" using Cons.prems(5) p D1(1) by simp
  moreover have "sorted_wrt (<) (map (\<lambda>(i, e). hh_height (blocks ! (e - 1))) sl)" using Cons.prems(2) by simp
  ultimately have "history sc k D' ((Ts @ [db_tabs D]) @ tables_seen sc om cb blocks sl D1)"
    using Cons.IH [OF D1(2)] h(1) by blast
  then show ?case using p D1(1) by simp
qed

section \<open>The finalized blocks\<close>

text \<open>Without a tracker the operations keep the tables in order too.\<close>

lemma untracked_op:
  assumes "tracked_op sc f g (None, D) = Inr (tr', D')"
  shows "tr' = None \<and> g (db_tabs D) = Inr (db_tabs D')"
  using assms by (auto simp: tracked_op_def track_def on_tables_def result_simps)

lemma store_step_untracked:
  assumes om: "orm_ok sc om" and sc: "schema_ok sc" and T: "tabs_ok sc (db_tabs D)"
    and run: "store_step sc om a (None, D) = Inr (tr', D')"
  shows "tr' = None \<and> tabs_ok sc (db_tabs D')"
proof -
  have idle: ?thesis if "(tr', D') = (None, D)" using that T by simp
  have wrote: "tabs_ok sc T'" if "tracked_write sc t ids (db_tabs D) T'" for t ids T' by (rule tracked_writeD(3) [OF that])
  have del: "tabs_ok sc T'" if "orm_delete om t ids (db_tabs D) = Inr T'" for t ids T'
    using om T that unfolding orm_ok_def by blast
  have op: ?thesis if "tracked_op sc f g (None, D) = Inr (tr', D')" "\<And>T'. g (db_tabs D) = Inr T' \<Longrightarrow> tabs_ok sc T'" for f g
    using untracked_op [OF that(1)] that(2) by blast
  show ?thesis
  proof (cases a)
    case (UpsertOne e)
    show ?thesis
    proof (rule op)
      show "tracked_op sc (\<lambda>T. Inr (trackUpsert sc (e_class e) [e] T)) (orm_upsert om (e_class e) [e]) (None, D) = Inr (tr', D')"
        using run by (simp add: UpsertOne store_step_def tracked_op_def)
    qed (use upsert_write [OF om sc T] wrote in blast)
  next
    case (Upsert es)
    show ?thesis
    proof (cases "es = []")
      case False
      show ?thesis
      proof (rule op)
        show "tracked_op sc (\<lambda>T. Inr (trackUpsert sc (e_class (hd es)) es T)) (saveMany sc om (e_class (hd es)) es) (None, D) = Inr (tr', D')"
          using run False by (auto simp: Upsert store_step_def tracked_op_def rbind_eq_Inr [of "same_class es"])
      qed (use saveMany_write [OF om sc T] wrote in blast)
    qed (use run idle in \<open>simp add: Upsert store_step_def\<close>)
  next
    case (InsertOne e)
    show ?thesis
    proof (rule op)
      show "tracked_op sc (\<lambda>T. Inr (trackInsert (e_class e) [e])) (orm_insert om (e_class e) [e]) (None, D) = Inr (tr', D')"
        using run by (simp add: InsertOne store_step_def tracked_op_def)
    qed (use insert_write [OF om sc T] wrote in blast)
  next
    case (Insert es)
    show ?thesis
    proof (cases "es = []")
      case False
      show ?thesis
      proof (rule op)
        show "tracked_op sc (\<lambda>T. Inr (trackInsert (e_class (hd es)) es))
            (rfold (\<lambda>b. orm_insert om (e_class (hd es)) b) (splitIntoBatches es 1000)) (None, D) = Inr (tr', D')"
          using run False by (auto simp: Insert store_step_def tracked_op_def rbind_eq_Inr [of "same_class es"])
      qed (use insert_many_op [OF om sc T] in blast)
    qed (use run idle in \<open>simp add: Insert store_step_def\<close>)
  next
    case (RemoveOne e)
    show ?thesis
    proof (rule op)
      show "tracked_op sc (trackDelete sc (e_class e) [e_id e]) (orm_delete om (e_class e) [e_id e]) (None, D) = Inr (tr', D')"
        using run by (simp add: RemoveOne store_step_def tracked_op_def)
    qed (rule del)
  next
    case (RemoveMany es)
    show ?thesis
    proof (cases "es = []")
      case False
      show ?thesis
      proof (rule op)
        show "tracked_op sc (trackDelete sc (e_class (hd es)) (map e_id es)) (orm_delete om (e_class (hd es)) (map e_id es)) (None, D) = Inr (tr', D')"
          using run False by (auto simp: RemoveMany store_step_def tracked_op_def rbind_eq_Inr [of "same_class es"])
      qed (rule del)
    qed (use run idle in \<open>simp add: RemoveMany store_step_def\<close>)
  next
    case (RemoveIds t ids)
    show ?thesis
    proof (rule op)
      show "tracked_op sc (trackDelete sc t ids) (orm_delete om t ids) (None, D) = Inr (tr', D')"
        using run by (simp add: RemoveIds store_step_def tracked_op_def)
    qed (rule del)
  qed
qed

lemma run_handler_untracked:
  assumes "orm_ok sc om" "schema_ok sc"
  shows "tabs_ok sc (db_tabs D) \<Longrightarrow> run_handler sc om p (None, D) = Inr (tms, D') \<Longrightarrow> tabs_ok sc (db_tabs D')"
proof (induction p arbitrary: D)
  case (Do a c)
  obtain tr1 D1 where s: "store_step sc om a (None, D) = Inr (tr1, D1)" "run_handler sc om (c (db_tabs D1)) (tr1, D1) = Inr (tms, D')"
    using Do.prems(2) by (auto simp: result_simps)
  have "tr1 = None" "tabs_ok sc (db_tabs D1)" using store_step_untracked [OF assms Do.prems(1) s(1)] by simp_all
  then show ?case using Do.IH [OF rangeI] s(2) by blast
qed simp_all

lemma performUpdates_untracked:
  assumes "orm_ok sc om" "schema_ok sc" "tabs_ok sc (db_tabs D)" "performUpdates sc om cb h None D = Inr D'"
  shows "tabs_ok sc (db_tabs D')"
proof -
  obtain tms D1 where 1: "run_handler sc om (cb (db_tabs D)) (None, D) = Inr (tms, D1)" "D' = persist h tms D1"
    using assms(4) by (auto simp: performUpdates_def result_simps)
  obtain X where "persist h tms D1 = D1\<lparr>db_templates := db_templates D1 @ X\<rparr>" using persist_templates by blast
  then show ?thesis using run_handler_untracked [OF assms(1,2,3) 1(1)] 1(2) by simp
qed

section \<open>What is recorded\<close>

text \<open>The point of a hot transaction at which the slices begin: the blocks above the base are rolled back, and the finalized
  blocks handled.\<close>

definition slices_start ::
  "schema \<Rightarrow> orm \<Rightarrow> hot_tx_info \<Rightarrow> (nat \<Rightarrow> nat \<Rightarrow> tables \<Rightarrow> handler) \<Rightarrow> db \<Rightarrow> (nat \<times> db) result" where
  "slices_start sc om info cb D =
     (let fin = hh_height (effective_head (ti_finalizedHead info) D); s = unfinalized_start (ti_newBlocks info) fin
      in rbind (of_option AssertionError (findIndex (\<lambda>b. hh_hash b = hh_hash (ti_baseHead info)) (db_status D # db_hot D))) (\<lambda>pos.
         rbind (rfold (\<lambda>b. rollbackBlock sc (hh_height b)) (rev (drop pos (db_hot D))) D) (\<lambda>D1.
         rbind (if s > 0 then performUpdates sc om (cb 0 s) fin None D1 else Inr D1) (\<lambda>D2. Inr (pos, D2)))))"

text \<open>The records after a transaction: those of the blocks below the base, the tables as the handler finds them before the first slice and
  as it leaves them after every slice; the records of the blocks that have become final are dropped.\<close>

definition head_tables ::
  "schema \<Rightarrow> orm \<Rightarrow> hot_tx_info \<Rightarrow> (nat \<Rightarrow> nat \<Rightarrow> tables \<Rightarrow> handler) \<Rightarrow> db \<Rightarrow> tables list \<Rightarrow> tables list" where
  "head_tables sc om info cb D Ts =
     (let fin = hh_height (effective_head (ti_finalizedHead info) D); blocks = ti_newBlocks info
      in case slices_start sc om info cb D of
           Inl _ \<Rightarrow> []
         | Inr (pos, D2) \<Rightarrow>
             drop (length (filter (\<lambda>b. hh_height b \<le> fin) (take pos (db_hot D))))
               (take pos Ts @ tables_seen sc om cb blocks (hot_slices blocks fin) D2))"

definition transaction_separate ::
  "schema \<Rightarrow> orm \<Rightarrow> hot_tx_info \<Rightarrow> (nat \<Rightarrow> nat \<Rightarrow> tables \<Rightarrow> handler) \<Rightarrow> db \<Rightarrow> bool" where
  "transaction_separate sc om info cb D =
     (case slices_start sc om info cb D of
        Inl _ \<Rightarrow> True
      | Inr (pos, D2) \<Rightarrow>
          slices_separate sc om cb (ti_newBlocks info)
            (hot_slices (ti_newBlocks info) (hh_height (effective_head (ti_finalizedHead info) D))) D2)"

text \<open>The life of a database with the records of its tables.\<close>

inductive db_life :: "schema \<Rightarrow> orm \<Rightarrow> db \<Rightarrow> tables list \<Rightarrow> bool" for sc om where
  fresh: "db_ok D \<Longrightarrow> db_hot D = [] \<Longrightarrow> tabs_ok sc (db_tabs D) \<Longrightarrow> db_life sc om D [db_tabs D]"
| hot: "db_life sc om D Ts \<Longrightarrow> ti_baseHead info \<in> set (db_status D # db_hot D) \<Longrightarrow>
    distinct (map hh_hash (db_status D # db_hot D)) \<Longrightarrow> transaction_separate sc om info cb D \<Longrightarrow>
    transactHot2 sc om info cb D = Inr D' \<Longrightarrow> db_life sc om D' (head_tables sc om info cb D Ts)"
| final: "db_life sc om D Ts \<Longrightarrow> transact sc om prev nxt cb' D = Inr D' \<Longrightarrow> db_life sc om D' [db_tabs D']"
| restart: "db_life sc om D Ts \<Longrightarrow> initTransaction ord D = Inr (st, D') \<Longrightarrow> db_life sc om D' Ts"

section \<open>The records are right\<close>

lemma transactHot2_start:
  assumes "db_ok D" "transactHot2 sc om info cb D = Inr D'"
  obtains pos D1 D2 D3 where "slices_start sc om info cb D = Inr (pos, D2)"
    "findIndex (\<lambda>b. hh_hash b = hh_hash (ti_baseHead info)) (db_status D # db_hot D) = Some pos"
    "rfold (\<lambda>b. rollbackBlock sc (hh_height b)) (rev (drop pos (db_hot D))) D = Inr D1"
    "let fin = hh_height (effective_head (ti_finalizedHead info) D); s = unfinalized_start (ti_newBlocks info) fin
     in (if s > 0 then performUpdates sc om (cb 0 s) fin None D1 else Inr D1) = Inr D2"
    "rfold (hot_slice sc om cb (ti_newBlocks info))
      (hot_slices (ti_newBlocks info) (hh_height (effective_head (ti_finalizedHead info) D))) D2 = Inr D3"
    "updateStatus (db_nonce D) (effective_head (ti_finalizedHead info) D)
      (deleteHotBlocks (hh_height (effective_head (ti_finalizedHead info) D)) D3) = Inr D'"
proof -
  have "\<exists>st. getState D = Inr st" using assms(2) by (auto simp: transactHot2_def result_simps)
  then have st: "getState D = Inr (db_status D, db_hot D)" using getState_ok [OF assms(1)] by auto
  let ?fin = "effective_head (ti_finalizedHead info) D"
  let ?s = "unfinalized_start (ti_newBlocks info) (hh_height ?fin)"
  have "\<exists>pos D1 D2 D3. findIndex (\<lambda>b. hh_hash b = hh_hash (ti_baseHead info)) (db_status D # db_hot D) = Some pos \<and>
      rfold (\<lambda>b. rollbackBlock sc (hh_height b)) (rev (drop (pos + 1) (db_status D # db_hot D))) D = Inr D1 \<and>
      (if ?s > 0 then performUpdates sc om (cb 0 ?s) (hh_height ?fin) None D1 else Inr D1) = Inr D2 \<and>
      rfold (hot_slice sc om cb (ti_newBlocks info)) (hot_slices (ti_newBlocks info) (hh_height ?fin)) D2 = Inr D3 \<and>
      updateStatus (db_nonce D) ?fin (deleteHotBlocks (hh_height ?fin) D3) = Inr D'"
    using assms(2) unfolding transactHot2_def st effective_head_def [symmetric] Let_def rbind_Inr prod.case
    by (simp only: rbind_eq_Inr of_option_eq_Inr js_assert_eq_Inr)
      (elim exE conjE, intro conjI exI; (assumption | simp))
  then obtain pos D1 D2 D3 where r: "findIndex (\<lambda>b. hh_hash b = hh_hash (ti_baseHead info)) (db_status D # db_hot D) = Some pos"
      "rfold (\<lambda>b. rollbackBlock sc (hh_height b)) (rev (drop (pos + 1) (db_status D # db_hot D))) D = Inr D1"
      "(if ?s > 0 then performUpdates sc om (cb 0 ?s) (hh_height ?fin) None D1 else Inr D1) = Inr D2"
      "rfold (hot_slice sc om cb (ti_newBlocks info)) (hot_slices (ti_newBlocks info) (hh_height ?fin)) D2 = Inr D3"
      "updateStatus (db_nonce D) ?fin (deleteHotBlocks (hh_height ?fin) D3) = Inr D'"
    by blast
  have "slices_start sc om info cb D = Inr (pos, D2)"
    using r(1,2,3) by (simp add: slices_start_def Let_def)
  then show ?thesis using that [of pos D2 D1 D3] r by (simp add: Let_def)
qed

text \<open>The tables at the head are as recorded last, so the record can be replaced by the tables themselves.\<close>

lemma history_now:
  assumes "history sc k D Ts"
  shows "history sc k D (butlast Ts @ [db_tabs D])"
proof -
  have l: "length Ts = Suc (length (db_hot D))" and s: "same_rows (db_tabs D) (last Ts)" using assms by (simp_all add: history_def)
  have "undoes sc (block_records (hh_height (db_hot D ! i)) D) ((butlast Ts @ [db_tabs D]) ! i) ((butlast Ts @ [db_tabs D]) ! Suc i)"
    if i: "i < length (db_hot D)" "k \<le> i" for i
  proof (cases "Suc i < length (db_hot D)")
    case True
    then show ?thesis using assms that l by (simp add: history_def nth_append nth_butlast)
  next
    case False
    then have e: "Suc i = length (db_hot D)" using i by simp
    have u: "undoes sc (block_records (hh_height (db_hot D ! i)) D) (Ts ! i) (Ts ! Suc i)" using assms i by (simp add: history_def)
    have "Ts ! Suc i = last Ts" using last_nth [OF l] e by simp
    with u s have "undoes sc (block_records (hh_height (db_hot D ! i)) D) (Ts ! i) (db_tabs D)"
      unfolding undoes_def same_rows_def by (metis (no_types))
    then show ?thesis using e l i by (simp add: nth_append nth_butlast)
  qed
  then show ?thesis using assms l by (simp add: history_def same_rows_def)
qed

lemma sorted_filter_drop:
  "sorted_wrt (<) (map f xs) \<Longrightarrow> filter (\<lambda>x. \<not> f x \<le> (h :: int)) xs = drop (length (filter (\<lambda>x. f x \<le> h) xs)) xs"
proof (induction xs)
  case (Cons x xs)
  show ?case
  proof (cases "f x \<le> h")
    case False
    then have "filter (\<lambda>x. f x \<le> h) xs = []" using Cons.prems by (force simp: filter_empty_conv)
    then show ?thesis using False Cons.prems by (force simp: filter_id_conv)
  qed (use Cons in simp)
qed simp

text \<open>Deleting the hot blocks that have become final drops their records.\<close>

lemma history_finalized:
  assumes h: "history sc k D Ts" and ok: "sorted_wrt (<) (heights D)"
    and n: "n = length (filter (\<lambda>b. hh_height b \<le> fin) (db_hot D))" "k \<le> n"
    and D': "updateStatus m st (deleteHotBlocks fin D) = Inr D'"
  shows "history sc 0 D' (drop n Ts)"
proof -
  have e: "D' = (deleteHotBlocks fin D)\<lparr>db_status := st, db_nonce := m + 1\<rparr>"
    using D' by (auto simp: updateStatus_def result_simps deleteHotBlocks_def drop_hot_def)
  have hot: "db_hot D' = drop n (db_hot D)"
    using sorted_filter_drop [OF ok, of fin] n(1) by (simp add: e deleteHotBlocks_def drop_hot_def)
  have l: "length Ts = Suc (length (db_hot D))" using h by (simp add: history_def)
  have le: "n \<le> length (db_hot D)" by (simp add: n(1))
  have "undoes sc (block_records (hh_height (db_hot D' ! i)) D') (drop n Ts ! i) (drop n Ts ! Suc i)" if i: "i < length (db_hot D')" for i
  proof -
    have j: "n + i < length (db_hot D)" "db_hot D' ! i = db_hot D ! (n + i)" using i hot by simp_all
    have "db_hot D' ! i \<in> set (db_hot D')" using i by simp
    then have "fin < hh_height (db_hot D' ! i)" by (simp add: e deleteHotBlocks_def drop_hot_def)
    then have "filter (\<lambda>l. fst l = hh_height (db_hot D' ! i)) (db_log D') = filter (\<lambda>l. fst l = hh_height (db_hot D' ! i)) (db_log D)"
      by (auto simp: e deleteHotBlocks_def drop_hot_def intro!: filter_cong)
    then have "block_records (hh_height (db_hot D' ! i)) D' = block_records (hh_height (db_hot D ! (n + i))) D"
      using j(2) by (simp add: block_records_def block_changes_def)
    moreover have "undoes sc (block_records (hh_height (db_hot D ! (n + i))) D) (Ts ! (n + i)) (Ts ! Suc (n + i))"
      using h j(1) n(2) by (simp add: history_def)
    ultimately show ?thesis using j(1) l by simp
  qed
  moreover have "last (drop n Ts) = last Ts" using l le by simp
  moreover have "db_tabs D' = db_tabs D" by (simp add: e deleteHotBlocks_def drop_hot_def)
  ultimately show ?thesis using h hot l le by (simp add: history_def)
qed

lemma below_base:
  assumes "sorted_wrt (<) (map hh_height (st # hots))" "pos < length (st # hots)" "b \<in> set (take pos hots)"
  shows "hh_height b \<le> hh_height ((st # hots) ! pos)"
proof -
  obtain i where i: "i < pos" "i < length hots" "hots ! i = b" using assms(3) by (auto simp: in_set_conv_nth)
  show ?thesis
  proof (cases "Suc i = pos")
    case False
    then have "hh_height ((st # hots) ! Suc i) < hh_height ((st # hots) ! pos)"
      using sorted_wrt_nth_less [OF assms(1), of "Suc i" pos] i assms(2) by simp
    then show ?thesis using i(3) by simp
  qed (use i in auto)
qed

lemma hot_transaction_history:
  assumes "orm_ok sc om" "schema_ok sc" "db_ok D" and h: "history sc 0 D Ts"
    and base: "ti_baseHead info \<in> set (db_status D # db_hot D)" "distinct (map hh_hash (db_status D # db_hot D))"
    and sep: "transaction_separate sc om info cb D" and run: "transactHot2 sc om info cb D = Inr D'"
  shows "history sc 0 D' (head_tables sc om info cb D Ts)"
proof -
  define fin where "fin = hh_height (effective_head (ti_finalizedHead info) D)"
  define s where "s = unfinalized_start (ti_newBlocks info) fin"
  let ?blocks = "ti_newBlocks info" and ?base = "ti_baseHead info"
  obtain pos D1 D2 D3 where start: "slices_start sc om info cb D = Inr (pos, D2)"
    and pos: "findIndex (\<lambda>b. hh_hash b = hh_hash ?base) (db_status D # db_hot D) = Some pos"
    and D1: "rfold (\<lambda>b. rollbackBlock sc (hh_height b)) (rev (drop pos (db_hot D))) D = Inr D1"
    and D2: "(if s > 0 then performUpdates sc om (cb 0 s) fin None D1 else Inr D1) = Inr D2"
    and D3: "rfold (hot_slice sc om cb ?blocks) (hot_slices ?blocks fin) D2 = Inr D3"
    and D': "updateStatus (db_nonce D) (effective_head (ti_finalizedHead info) D) (deleteHotBlocks fin D3) = Inr D'"
    unfolding s_def fin_def by (rule transactHot2_start [OF assms(3) run, unfolded Let_def]) blast
  have sorted: "sorted_wrt (<) (map hh_height (?base # ?blocks))" by (rule transactHot2_continuous [OF run])
  have at: "(db_status D # db_hot D) ! pos = ?base" "pos < length (db_status D # db_hot D)"
    using findIndex_Some [OF pos] base by (metis (no_types, lifting) distinct_map inj_onD nth_mem)+
  have asc: "sorted_wrt (<) (map hh_height (db_status D # db_hot D))" using assms(3) by (simp add: db_ok_def)
  have low: "hh_height b \<le> hh_height ?base" if "b \<in> set (take pos (db_hot D))" for b
    using below_base [OF asc at(2) that] at(1) by simp
  have le: "hh_height (db_status D) \<le> fin" by (simp add: fin_def effective_head_def)
  have b0: "book_ok fin D" using book_ok_mono [OF db_ok_book [OF assms(3)] le] .
  have known: "sorted_wrt (<) (heights D)" "log_known D" using b0 by (simp_all add: book_ok_def)
  have "history sc 0 D1 (take (Suc (length (take pos (db_hot D)))) Ts) \<and> db_hot D1 = take pos (db_hot D)"
    using rollbacks_pop [OF h _ known, of "take pos (db_hot D)" "drop pos (db_hot D)"] D1 by auto
  moreover have "length (take pos (db_hot D)) = pos" using at(2) by simp
  ultimately have h1: "history sc 0 D1 (take (Suc pos) Ts)" and hot1: "db_hot D1 = take pos (db_hot D)"
    by simp_all
  have "pruned (hh_height ` set (rev (drop pos (db_hot D)))) D D1" using D1 known(2) by (rule rollbacks_pruned)
  then have b1: "book_ok fin D1" using pruned_book [OF b0] by blast
  have l: "length Ts = Suc (length (db_hot D))" using h by (simp add: history_def)
  have b2: "book_ok fin D2" and hot2: "db_hot D2 = take pos (db_hot D)"
    using D2 b1 hot1 final_updates_book by (auto split: if_splits)
  define k where "k = (if s > 0 then pos else 0)"
  have h2: "history sc k D2 (take pos Ts @ [db_tabs D2])"
  proof (cases "s > 0")
    case True
    have "tabs_ok sc (db_tabs D2)"
      using performUpdates_untracked [OF assms(1,2)] h1 D2 True by (auto simp: history_def)
    then show ?thesis using True l at(2) hot2 by (simp add: history_def k_def same_rows_def)
  next
    case False
    then have "D2 = D1" using D2 by simp
    moreover have "butlast (take (Suc pos) Ts) = take pos Ts" using l at(2) by (simp add: butlast_take)
    ultimately show ?thesis using history_now [OF h1] False by (simp add: k_def)
  qed
  note rows = slice_rows_sorted [of ?blocks fin]
  have rows': "map (\<lambda>(i, e). hh_height (?blocks ! (e - 1))) (hot_slices ?blocks fin) = map hh_height (slice_rows ?blocks fin)"
    by (simp add: slice_rows_def case_prod_beta')
  have asc_rows: "sorted_wrt (<) (map hh_height (slice_rows ?blocks fin))" using rows(1) sorted by simp
  have above: "fin < hh_height b \<and> (\<forall>a \<in> set (db_hot D2). hh_height a < hh_height b)" if "b \<in> set (slice_rows ?blocks fin)" for b
    using rows(2) sorted that low hot2 by fastforce
  have "history sc k D3 (take pos Ts @ tables_seen sc om cb ?blocks (hot_slices ?blocks fin) D2)"
  proof (rule slices_history [OF assms(1,2) D3 _ _ b2 _ h2])
    show "sorted_wrt (<) (map (\<lambda>(i, e). hh_height (?blocks ! (e - 1))) (hot_slices ?blocks fin))"
      unfolding rows' by (rule asc_rows)
    show "\<forall>(i, e) \<in> set (hot_slices ?blocks fin). fin < hh_height (?blocks ! (e - 1)) \<and>
        (\<forall>a \<in> set (db_hot D2). hh_height a < hh_height (?blocks ! (e - 1)))"
      using above by (force simp: slice_rows_def)
    show "slices_separate sc om cb ?blocks (hot_slices ?blocks fin) D2"
      using sep start by (simp add: transaction_separate_def fin_def)
  qed
  moreover have g: "grown (slice_rows ?blocks fin) D2 D3" using hot_slices_grown [OF D3] by (simp add: slice_rows_def)
  moreover have "sorted_wrt (<) (heights D3)"
    using grown_book [OF b2 g asc_rows] above by (simp add: book_ok_def)
  moreover have n: "length (filter (\<lambda>b. hh_height b \<le> fin) (take pos (db_hot D))) = length (filter (\<lambda>b. hh_height b \<le> fin) (db_hot D3))"
  proof -
    have "filter (\<lambda>b. hh_height b \<le> fin) (slice_rows ?blocks fin) = []" using above by (fastforce simp: filter_empty_conv)
    then show ?thesis using g hot2 by (simp add: grown_def)
  qed
  moreover have "k \<le> length (filter (\<lambda>b. hh_height b \<le> fin) (db_hot D3))"
  proof (cases "s > 0")
    case True
    then have ne: "?blocks \<noteq> []" using unfinalized_start_le [of ?blocks fin] by (auto simp: s_def)
    then have "hh_height (?blocks ! 0) \<le> fin"
      using True unfinalized_start_below [of 0 ?blocks fin] by (simp add: s_def)
    with ne have "hh_height ?base < fin" using sorted by (cases ?blocks) auto
    then have "filter (\<lambda>b. hh_height b \<le> fin) (take pos (db_hot D)) = take pos (db_hot D)"
      using low by (force simp: filter_id_conv)
    then show ?thesis using n at(2) by (simp add: k_def)
  qed (simp add: k_def)
  ultimately have "history sc 0 D' (drop (length (filter (\<lambda>b. hh_height b \<le> fin) (db_hot D3)))
      (take pos Ts @ tables_seen sc om cb ?blocks (hot_slices ?blocks fin) D2))"
    using history_finalized [OF _ _ refl _ D'] by blast
  then show ?thesis using start n by (simp add: head_tables_def Let_def fin_def)
qed

lemma transact_history:
  assumes "orm_ok sc om" "schema_ok sc" "db_ok D" and h: "history sc 0 D Ts" and run: "transact sc om prev nxt cb D = Inr D'"
  shows "db_ok D' \<and> history sc 0 D' [db_tabs D']"
proof -
  have "\<exists>st. getState D = Inr st" using run by (auto simp: transact_def result_simps)
  then have st: "getState D = Inr (db_status D, db_hot D)" using getState_ok [OF assms(3)] by auto
  obtain D1 D2 where up: "hh_height (db_status D) < hh_height nxt"
    and D1: "rfold (\<lambda>b. rollbackBlock sc (hh_height b)) (rev (db_hot D)) D = Inr D1"
    and D2: "performUpdates sc om cb (hh_height nxt) None D1 = Inr D2" and D': "updateStatus (db_nonce D) nxt D2 = Inr D'"
    using run by (auto simp: transact_def st result_simps)
  have b0: "book_ok (hh_height nxt) D" using book_ok_mono [OF db_ok_book [OF assms(3)]] up by simp
  have known: "sorted_wrt (<) (heights D)" "log_known D" using b0 by (simp_all add: book_ok_def)
  have h1: "history sc 0 D1 (take (Suc 0) Ts)" and hot1: "db_hot D1 = []"
    using rollbacks_pop [OF h _ known, of "[]" "db_hot D"] D1 by auto
  have "book_ok (hh_height nxt) D1" using pruned_book [OF b0 rollbacks_pruned [OF D1 known(2)]] .
  then have b2: "book_ok (hh_height nxt) D2" "db_hot D2 = []" using final_updates_book [OF D2] hot1 by auto
  have "tabs_ok sc (db_tabs D2)" using performUpdates_untracked [OF assms(1,2) _ D2] h1 by (simp add: history_def)
  moreover have "D' = D2\<lparr>db_status := nxt, db_nonce := db_nonce D + 1\<rparr>"
    using D' by (auto simp: updateStatus_def result_simps)
  ultimately show ?thesis using b2 history_start [of D' sc 0] by (auto simp: db_ok_def book_ok_def)
qed

text \<open>A restart finds nothing to repair.\<close>

lemma repairOrphans_id:
  assumes "db_ok D"
  shows "repairOrphans D = D"
proof -
  have "filter (\<lambda>l. fst l \<in> hh_height ` set (db_hot D)) (db_log D) = db_log D"
    using assms by (auto simp: db_ok_def filter_id_conv)
  moreover have "hh_height b \<in> fst ` set (db_log D)" if "b \<in> set (db_hot D)" for b
    using assms that by (force simp: db_ok_def)
  then have "drop_hot (\<lambda>h. h \<notin> fst ` set (db_log D)) D = D"
    by (simp add: drop_hot_def filter_id_conv)
  moreover have "filter (\<lambda>(m, h). \<not> (h > hh_height (db_status D) \<and> h \<notin> hh_height ` set (db_hot D))) (db_templates D) = db_templates D"
    using assms by (force simp: db_ok_def filter_id_conv)
  ultimately show ?thesis by (simp add: repairOrphans_def Let_def)
qed

lemma life_history:
  assumes "orm_ok sc om" "schema_ok sc"
  shows "db_life sc om D Ts \<Longrightarrow> db_ok D \<and> history sc 0 D Ts"
proof (induction rule: db_life.induct)
  case (fresh D)
  then show ?case using history_start by blast
next
  case (hot D Ts info cb D')
  then show ?case
    using transactHot2_moves [of D info sc om cb D'] hot_transaction_history [OF assms] by blast
next
  case (final D Ts prev nxt cb' D')
  then show ?case using transact_history [OF assms] by blast
next
  case (restart D Ts ord st D')
  then have "D' = D" by (auto simp: initTransaction_def Let_def result_simps repairOrphans_id)
  then show ?case using restart by simp
qed

section \<open>Leaving a fork\<close>


text \<open>A user is renamed, gets a post and is removed with both posts, all in the hot block 11, which is then left.\<close>

definition users_tx :: hot_tx_info where
  "users_tx = \<lparr>ti_baseHead = db_status users_db, ti_finalizedHead = db_status users_db, ti_newBlocks = [eleven]\<rparr>"

lemma users_tx_separate: "transaction_separate users (plain_orm users) users_tx (\<lambda>_ _. users_handler) users_db"
  by code_simp

lemma users_tx_start: "slices_start users (plain_orm users) users_tx (\<lambda>_ _. users_handler) users_db = Inr (0, users_db)"
  by (simp add: slices_start_def users_tx_def users_db_def eleven_def effective_head_def unfinalized_start_def Let_def)

lemma users_life:
  "\<exists>D Ts. db_life users (plain_orm users) D Ts \<and> db_hot D = [eleven] \<and> Ts ! 0 = db_tabs users_db \<and>
     transactHot2 users (plain_orm users) users_tx (\<lambda>_ _. users_handler) users_db = Inr D"
proof -
  obtain D where D: "transactHot2 users (plain_orm users) users_tx (\<lambda>_ _. users_handler) users_db = Inr D"
    using returnsD [OF users_hot_run] unfolding users_tx_def by blast
  have ok: "db_ok users_db" "db_hot users_db = []" by (simp_all add: db_ok_def users_db_def)
  have base: "ti_baseHead users_tx \<in> set (db_status users_db # db_hot users_db)"
    "distinct (map hh_hash (db_status users_db # db_hot users_db))" by (simp_all add: users_tx_def ok(2))
  let ?Ts = "head_tables users (plain_orm users) users_tx (\<lambda>_ _. users_handler) users_db [db_tabs users_db]"
  have "db_life users (plain_orm users) D ?Ts"
    by (rule db_life.hot [OF db_life.fresh [OF ok users_ok(3)] base users_tx_separate D])
  moreover have "?Ts ! 0 = db_tabs users_db"
    by (cases "hot_slices (ti_newBlocks users_tx) (hh_height (effective_head (ti_finalizedHead users_tx) users_db))")
      (simp_all add: head_tables_def Let_def users_tx_start)
  moreover have "hot_after users_tx users_db = [eleven]"
    by (simp add: hot_after_def effective_head_def users_tx_def users_db_def eleven_def slice_rows_def hot_slices_def
        unfinalized_start_def slices.simps)
  then have "db_hot D = [eleven]" using transactHot2_moves [OF ok(1) base D] by simp
  ultimately show ?thesis using D by blast
qed


end
