(* ===== verification/Spec2Isabelle.thy ===== *)
theory Spec2Isabelle
  imports Binary_Heap Ranges Scale_Codec Borsh Data_Chain Runner Portal_Client Evm_Event Validation_Props Archive_Props
  Rpc_Props Scale_Json Typeorm_History
begin

text \<open>
  A verification library of the squid SDK, a monorepo of TypeScript packages that index blockchains: data
  sources follow the head of a network and its forks, processors take batches of blocks from them and
  run a data handler inside transactions of a database that can roll unfinalized blocks back, services
  keep the head of a chain in memory for their clients, and codecs read and write what the networks
  store. All paths below are relative to \<open>src/\<close>.

  CONVENTIONS. A function that may throw returns \<open>'a result = js_error + 'a\<close>; every \<open>throw\<close>, failed
  \<open>assert\<close> and access to a property of \<open>undefined\<close> is an \<open>Inl\<close> (theory Prelude). Numbers of the language
  are \<open>int\<close> where the code keeps them integers, and the bitwise operators of the language convert to 32
  bits as it does (\<open>js_and\<close>, \<open>js_shl\<close>, \<open>js_ushr\<close>); bytes are \<open>8 word\<close>. Strings are lists of code points
  (\<open>jstr\<close>, theory Js_Values). Asynchronous functions are read as the functions of their results; what is
  awaited in between is an argument. An object whose methods change its fields is a record that the
  operations take and return. Code that is not in the repository is a parameter: base58 of the package
  bs58, the hash of js-sha3, the comparison function of a heap, the schema of the entities and the object-relational mapper,
  the source of the blocks, the data handler.

  THE PARTS AND THEIR THEORIES.

  \<^item> Prelude: exceptions, bitwise operators, generic lemmas; the collections \<open>result_simps\<close> and \<open>js_arith\<close>.

  \<^item> Util_Misc (\<open>util/util-internal/src/misc.ts\<close>): slices, partitions, bisection. Lemmas: what \<open>bisect\<close> finds.

  \<^item> Binary_Heap (\<open>util/util-internal-binary-heap/heap.js\<close>): the array of the heap and its sifting loops; heap
  invariant, multiset of the elements, \<open>pop\<close> returns a smallest one.

  \<^item> Ranges (\<open>util/util-internal-range/src\<close>): ranges of heights with an open end, differences,
  intersections, requests over ranges; \<open>mergeRangeRequests\<close> against its specification by height.

  \<^item> Js_Values, Scale_Types, Scale_Src, Scale_Sink, Scale_Codec (\<open>substrate/scale-codec/src\<close>,
  \<open>util/util-internal-hex\<close>): values, type registry, reader, writer and codec of SCALE. The relation
  \<open>wire\<close> gives the bytes of a value; both directions are proved against it, the round trip follows, and
  the hexadecimal writer is one more instance of the contract of a sink (the locale \<open>sink_laws\<close>). The recursion
  through the registry takes the depth of the call stack as fuel; running out of it is the RangeError of
  the language, and the theorems say which depth is enough.

  \<^item> Scale_Json (\<open>substrate/scale-codec/src/codec-json.ts\<close>, \<open>util/util-internal-json\<close>): the JSON codec over the same
  registry. The values that \<open>wire\<close> relates to bytes come back from their JSON text, but for three kinds of types and
  for compact numbers that exceed their type (\<open>oversize\<close>).

  \<^item> Borsh (\<open>solana/borsh/src\<close>): sink, source and codecs of Borsh, with the contract \<open>faithful\<close> of a codec that every
  combinator keeps; \<open>dsl\<close> gives the codec of every type of the DSL, and \<open>bval_ok\<close> the values that it preserves, all but
  floating point numbers and sums.

  \<^item> Js_Text: numbers that may be NaN, printing and parsing of numbers, slices and code units, as the language has them.

  \<^item> Evm_Sink, Evm_Src (\<open>evm/evm-codec/src/sink\<close>, \<open>src\<close>): the interfaces \<open>Sink\<close> and \<open>Src\<close> of the EVM codec as records
  of operations, and both implementations of each, over bytes and over hexadecimal text. Evm_Sink_Laws, Evm_Hex_Sink,
  Evm_Src_Laws, Evm_Hex_Src: what the codecs rely on, the locales \<open>evm_sink_laws\<close> (over a view of the position, the data
  areas and the cells written) and \<open>evm_src_laws\<close> (over the bytes and the position), each interpreted twice.

  \<^item> Evm_Codec, Evm_Encoding (\<open>evm/evm-codec/src/codecs\<close>): the codecs; \<open>abi_enc\<close> is the encoding that the contract ABI
  specifies, \<open>abi_wf\<close> says for which codecs the code computes its sizes: arrays must be of items that are dynamic or
  of one slot. \<open>int_codec\<close> names the integer codecs of all widths. Lemmas: in any sink that keeps the laws an encoder
  lays out the specified bytes (\<open>lays\<close>), from any source that keeps them a decoder reads the value (\<open>gets\<close>); whole encodings
  and round trips follow for all four implementations.

  \<^item> Evm_Abi, Evm_Event (\<open>evm/evm-abi/src\<close>): functions and events of contracts over the codec; \<open>output_args\<close> is the list
  of outputs that a return type stands for, \<open>topic_enc\<close> the specified encoding of an indexed parameter.

  \<^item> Validation (\<open>util/util-internal-validation/src\<close>): the validators of JSON data, a datatype, with one definition per
  primitive and per method of a composite class; \<open>cast\<close> and \<open>validate\<close> tie them together. A reference to a
  recursive schema costs a unit of the call stack. Validation_Laws, Validation_Paths, Validation_Props: \<open>cast\<close> and
  \<open>validate\<close> agree, results have the types of their validators (\<open>typed\<close>), paths of failures lead to the values they
  report, and recursive schemas that enter a container in every cycle (\<open>guarded\<close>) end on a linear stack. Objects have
  their own properties only, but the tables of variants of the unions are looked up with the members they inherit
  (\<open>object_prototype\<close>); the names in a schema are taken not to be among these.

  \<^item> Archive_Chunks, Archive_Layout (\<open>util/util-internal-archive-layout/src\<close>): names of chunks, and the listing, appending and
  reading of an archive over the operations of a file system. Archive_Reading: \<open>getDataChunks\<close> is exact. Archive_Store,
  Archive_Writing, Archive_Life: what the layout asks of a file system is the locale \<open>chunk_store\<close>; \<open>archived\<close> relates
  a directory to the blocks it holds, \<open>archive_life\<close> is the step relation of writers that may be killed at any
  moment. Archive_Local_Fs (\<open>util/util-internal-fs/src/local.ts\<close>): the local file system as a tree, with temporary
  directories and renaming, keeps the laws. Archive_Props: nothing saved is lost or repeated.

  \<^item> Block_Refs: the references to blocks that the packages share.

  \<^item> Data_Chain (\<open>util/util-internal-data-service/src\<close>): the chain that a data service keeps (\<open>chain.ts\<close>)
  and the loop that feeds it and serves queries (\<open>data-service.ts\<close>). Lemmas: linkage and finality are
  kept by every operation and every session (what was final stays on one linked sequence, \<open>extends\<close>), the base of a fork
  is the highest common block.

  \<^item> Typeorm_Store, Typeorm_Rollback, Typeorm_Database (\<open>typeorm/typeorm-store/src\<close>): the tables of the entities, the
  status, the hot blocks, the change log and the template registry as a record \<open>db\<close>; SQL statements are
  functions on it. The data handler is a resumption (\<open>handler\<close>) that sees the tables at every step.
  Typeorm_Rollback proves that undoing the log of a block restores every row, including deletions that
  cascade along foreign keys; \<open>nesting\<close> bounds the recursion of \<open>collectCascadeDeletes\<close>, and it ends for
  schemas whose cascading keys have no cycle. Typeorm_Database proves what a transaction does to the
  bookkeeping (\<open>db_ok\<close>). Typeorm_History follows the life of a database through its transactions and restarts
  (\<open>db_life\<close>), records the tables that each hot block left, and proves that leaving a fork gives these tables back.

  \<^item> Batch_Processor (\<open>processor/batch-processor/src/run.ts\<close>): the loop of a processor over the interface of
  a database, the locale \<open>hot_database\<close>, which is interpreted on the transactions of Typeorm_Store.
  Lemmas: processor and database agree through batches, forks and exceptions.

  \<^item> Hot_Processor (\<open>util/util-internal-ingest-tools/src/hot.ts\<close>): the older follower of a network head. Lemmas: its
  updates are all a consumer needs to have its chain; a source that serves the network brings it to the
  head. The loop that fetches missing parents allocates in every round: \<open>ho_memory\<close> bounds its rounds, and
  \<open>hot_reaches_head\<close> says how many are enough.

  \<^item> Runner (\<open>util/util-internal-processor-tools/src/runner.ts\<close>): the runner of the older processors, in phases over
  an archive, a network client and a database. Its last section composes the hot processor, the runner and
  the transactions of the database: \<open>stored_chain\<close> relates the chain of the one to the rows of the other.

  \<^item> Portal_Client (\<open>util/portal-client/src/client.ts\<close>): the line splitter of a response, the buffer of a stream as a
  step relation (\<open>buf_reach\<close>) over the interleavings of producer, consumer and timers, and the loop that asks for
  the next blocks. The server is described by what it sends, JSON lines cut into chunks (\<open>serves_query\<close>).

  \<^item> Rpc_Rate, Rpc_Transport, Rpc_Queue, Rpc_Client (\<open>util/rpc-client/src\<close>): the client of remote calls. The meter of the
  rate is proved to sum the log of the calls over its window; the queue is the heap of Binary_Heap under an order
  that is no number (the locale \<open>comparison\<close>); the client is a record with the continuations of its promises, and
  \<open>rpc_step\<close> interleaves them. Rpc_Ledger is the abstract machine of the requests, Rpc_Laws and Rpc_Limit prove that the client
  implements it, does not stall and keeps its limit; Rpc_Props holds the properties. \<open>rpc_connection\<close> is what the
  client asks of a connection, interpreted on HTTP.

  HOW THEY INTERACT. A data source (the stream of the portal client, or a hot processor) sends batches and forks to a
  processor (Batch_Processor) or a runner (Runner), whose transactions write to the database
  (Typeorm_Store); requests by range (Ranges) say what the batches hold, and the codecs decode it. The
  contracts between them are locales: \<open>hot_database\<close> is what the batch processor asks of a database, interpreted
  on the transactions of Typeorm_Store; \<open>chain_consumer\<close> is what the hot processor asks of its consumer,
  interpreted on the runner over that database and on a consumer that writes the updates down;
  \<open>chunk_store\<close> is what the archive layout asks of a file system;
  \<open>sink_laws\<close> is what the encoder of SCALE asks of a sink, \<open>evm_sink_laws\<close> and \<open>evm_src_laws\<close> what the codecs of the EVM ask.

  WHAT THE THEOREMS FOUND. Several properties state behaviour that the code cannot mean: deletions along two
  keys that cannot be rolled back, endless recursion on rows that refer to themselves, characters that are
  lost between the chunks of a response, hot blocks without
  rows although a comment promises them, chains with gaps that the hot processor accepts and then trips
  over, finalized heads that fail a batch without blocks, heads that a repeated transaction leaves twice, a continuity
  check that is always true, floats and sums of Borsh that do not round trip, a byte order mark that is
  lost, a heap of one element that throws, arrays of structs that the EVM codec cuts off, struct outputs of contracts
  that are misread, indexed arrays in arrays that no event can encode, truncated words that one of two sources accepts,
  JSON of bit sequences that its own codec refuses, a validator that loses its errors in recursive schemas, unions that take inherited members for variants, texts that validate but cannot be cast,
  archives that forget the last hash when a writer is killed.

  NOT MODELLED. Network clients, timers, logging, metrics, command lines, code generators and the mappings of
  fields between JSON schemas; the creation and migration of tables; reads of the store, which the
  handler makes through TypeORM. Not modelled for lack of time: the SS58 codec and the parser of old
  Substrate type expressions.
\<close>

end
